(* ===== verification/Bsd_Prelude.thy ===== *)
theory Bsd_Prelude
  imports Main "HOL-Library.Word"
begin

text \<open>
  Shared vocabulary of the development: the fact collections the component theories
  extend, the machine types, and the generic lemmas on lists and options that more
  than one component needs.
\<close>

unbundle bit_operations_syntax

section \<open>Fact collections\<close>

named_theorems queue_simps \<open>unfolding rules of the queue macros\<close>
named_theorems queue_reps \<open>representation predicates of the queue kinds\<close>

section \<open>Machine types of the LP64 ABI\<close>

type_synonym u8 = "8 word"
type_synonym u32 = "32 word"
type_synonym u64 = "64 word"

section \<open>Lists\<close>

lemma remove1_append_notin [simp]:
  "x \<notin> set xs \<Longrightarrow> remove1 x (xs @ x # ys) = xs @ ys"
  by (simp add: remove1_append)

section \<open>Words\<close>

lemma xor_cancel [simp]: "(c :: 'a :: len word) XOR (c XOR x) = x"
  by (simp flip: xor.assoc)

lemma xor_eq_self_iff [simp]: "(c :: 'a :: len word) XOR x = c \<longleftrightarrow> x = 0"
  by (metis xor_cancel xor.right_neutral)

lemma xor_eq_iff [simp]: "(c :: 'a :: len word) XOR x = c XOR y \<longleftrightarrow> x = y"
  by (metis xor_cancel)

lemma xor_eq_zero_iff [simp]: "(c :: 'a :: len word) XOR x = 0 \<longleftrightarrow> x = c"
  by (metis xor_cancel xor_self_eq xor.right_neutral)

lemma xor_move: "(c :: 'a :: len word) XOR x = y \<longleftrightarrow> x = c XOR y"
  by auto

section \<open>Sizes\<close>

definition SIZE_MAX :: u64 where "SIZE_MAX = - 1"

lemma u64_less: "unat (w :: u64) < 2 ^ 64"
  using unsigned_less [of w] by simp

lemma unat_SIZE_MAX: "unat SIZE_MAX = 2 ^ 64 - 1"
  by (simp add: SIZE_MAX_def unsigned_minus_1_eq_mask mask_eq_exp_minus_1)

lemma unat_of_nat_u64: "n < 2 ^ 64 \<Longrightarrow> unat (of_nat n :: u64) = n"
  by (simp add: unsigned_of_nat take_bit_nat_eq_self)

lemma unat_SIZE_MAX_minus: "unat (SIZE_MAX - w) = 2 ^ 64 - 1 - unat w"
proof -
  have "w \<le> SIZE_MAX" using u64_less [of w] by (simp add: word_le_nat_alt unat_SIZE_MAX)
  then show ?thesis by (simp add: unat_sub unat_SIZE_MAX)
qed

lemma unat_add_small: "unat (a :: u64) + unat b < 2 ^ 64 \<Longrightarrow> unat (a + b) = unat a + unat b"
  by (simp add: unat_word_ariths)

end
