(* ===== verification/Queue_Heap.thy ===== *)
theory Queue_Heap
  imports Bsd_Prelude
begin

text \<open>
  The store behind the list macros of \<^verbatim>\<open>include/queue.h\<close>.  Every list kind
  there links two sorts of blocks: list heads and list elements.  A block holds at
  most two pointer fields, and the header lays them out alike in heads and elements:

    \<^item> the first field (\<open>slh_first\<close>, \<open>sle_next\<close>, \<open>lh_first\<close>, \<open>le_next\<close>,
      \<open>sqh_first\<close>, \<open>sqe_next\<close>, \<open>tqh_first\<close>, \<open>tqe_next\<close>, \<open>stqh_first\<close>,
      \<open>stqe_next\<close>) points to an element or is \<open>NULL\<close>;
    \<^item> the second field (\<open>sqh_last\<close>, \<open>tqh_last\<close>, \<open>stqh_last\<close>, \<open>le_prev\<close>,
      \<open>tqe_prev\<close>) is a \<open>struct type **\<close>: the address of some block's first field.

  A \<open>struct type **\<close> is therefore identified with the block whose first field it
  addresses.  \<open>TAILQ_LAST\<close> and \<open>TAILQ_PREV\<close> rely on exactly this layout: they
  cast such an address to a head and read the second field behind it.

  Macros that read a field through a pointer that may be \<open>NULL\<close> return \<open>None\<close>
  when it is: the C code has no defined behaviour there.
\<close>

section \<open>Blocks and the heap\<close>

datatype ('h, 'a) blk = Head 'h | Elem 'a

record ('h, 'a) qheap =
  nxt :: "('h, 'a) blk \<Rightarrow> 'a option"
  bck :: "('h, 'a) blk \<Rightarrow> ('h, 'a) blk"

definition set_nxt :: "('h, 'a) blk \<Rightarrow> 'a option \<Rightarrow> ('h, 'a) qheap \<Rightarrow> ('h, 'a) qheap" where
  "set_nxt b p hp = hp\<lparr>nxt := (nxt hp)(b := p)\<rparr>"

definition set_bck :: "('h, 'a) blk \<Rightarrow> ('h, 'a) blk \<Rightarrow> ('h, 'a) qheap \<Rightarrow> ('h, 'a) qheap" where
  "set_bck b c hp = hp\<lparr>bck := (bck hp)(b := c)\<rparr>"

lemma nxt_set_nxt [simp]: "nxt (set_nxt b p hp) = (nxt hp)(b := p)"
  and bck_set_nxt [simp]: "bck (set_nxt b p hp) = bck hp"
  and nxt_set_bck [simp]: "nxt (set_bck b c hp) = nxt hp"
  and bck_set_bck [simp]: "bck (set_bck b c hp) = (bck hp)(b := c)"
  by (simp_all add: set_nxt_def set_bck_def)

section \<open>Linked segments\<close>

text \<open>
  \<open>linked f b xs p\<close>: from block \<open>b\<close>, following first fields visits exactly the
  elements \<open>xs\<close>, and the last first field reached holds \<open>p\<close>.
\<close>

fun linked :: "(('h, 'a) blk \<Rightarrow> 'a option) \<Rightarrow> ('h, 'a) blk \<Rightarrow> 'a list \<Rightarrow> 'a option \<Rightarrow> bool" where
  "linked f b [] p \<longleftrightarrow> f b = p"
| "linked f b (x # xs) p \<longleftrightarrow> f b = Some x \<and> linked f (Elem x) xs p"

text \<open>\<open>backed g b xs\<close>: each element's second field addresses its predecessor's first field.\<close>

fun backed :: "(('h, 'a) blk \<Rightarrow> ('h, 'a) blk) \<Rightarrow> ('h, 'a) blk \<Rightarrow> 'a list \<Rightarrow> bool" where
  "backed g b [] \<longleftrightarrow> True"
| "backed g b (x # xs) \<longleftrightarrow> g (Elem x) = b \<and> backed g (Elem x) xs"

text \<open>The block whose first field ends the segment.\<close>

definition last_blk :: "('h, 'a) blk \<Rightarrow> 'a list \<Rightarrow> ('h, 'a) blk" where
  "last_blk b xs = (if xs = [] then b else Elem (last xs))"

lemma last_blk_simps [simp]:
  "last_blk b [] = b"
  "last_blk b (x # xs) = last_blk (Elem x) xs"
  "last_blk b (xs @ [x]) = Elem x"
  by (simp_all add: last_blk_def)

lemma last_blk_append [simp]: "last_blk b (xs @ y # ys) = last_blk (Elem y) ys"
  by (simp add: last_blk_def)

lemma last_blk_cases: "last_blk b xs = b \<or> last_blk b xs \<in> Elem ` set xs"
  by (simp add: last_blk_def)

lemma linked_append [simp]:
  "linked f b (xs @ y # ys) p \<longleftrightarrow> linked f b xs (Some y) \<and> linked f (Elem y) ys p"
  by (induction xs arbitrary: b) auto

lemma backed_append [simp]:
  "backed g b (xs @ y # ys) \<longleftrightarrow> backed g b xs \<and> g (Elem y) = last_blk b xs \<and> backed g (Elem y) ys"
  by (induction xs arbitrary: b) auto

lemma linked_last: "linked f b xs p \<Longrightarrow> f (last_blk b xs) = p"
  by (induction xs arbitrary: b) auto

lemma linked_upd [simp]:
  "c \<noteq> b \<Longrightarrow> c \<notin> Elem ` set xs \<Longrightarrow> linked (f(c := q)) b xs p = linked f b xs p"
  by (induction xs arbitrary: b) auto

lemma backed_upd [simp]:
  "c \<notin> Elem ` set xs \<Longrightarrow> backed (g(c := d)) b xs = backed g b xs"
  by (induction xs arbitrary: b) auto

lemma linked_upd_Head [simp]: "linked (f(Head h := q)) (Elem e) xs p = linked f (Elem e) xs p"
  by (rule linked_upd) auto

lemma linked_upd_Head_other [simp]:
  "h \<noteq> h' \<Longrightarrow> linked (f(Head h := q)) (Head h') xs p = linked f (Head h') xs p"
  by (rule linked_upd) auto

lemma linked_upd_Elem [simp]:
  "e \<notin> set xs \<Longrightarrow> b \<noteq> Elem e \<Longrightarrow> linked (f(Elem e := q)) b xs p = linked f b xs p"
  by (rule linked_upd) auto

lemma backed_upd_Head [simp]: "backed (g(Head h := c)) b xs = backed g b xs"
  by (rule backed_upd) auto

lemma backed_upd_Elem [simp]: "e \<notin> set xs \<Longrightarrow> backed (g(Elem e := c)) b xs = backed g b xs"
  by (rule backed_upd) auto

lemma linked_upd_last:
  "linked f b xs p \<Longrightarrow> distinct xs \<Longrightarrow> b \<notin> Elem ` set xs \<Longrightarrow> linked (f(last_blk b xs := q)) b xs q"
proof (induction xs arbitrary: b)
  case Nil
  then show ?case by simp
next
  case (Cons x xs)
  have "last_blk (Elem x) xs \<noteq> b"
    using Cons.prems(3) last_blk_cases [of "Elem x" xs] by auto
  with Cons show ?case by (auto simp: fun_upd_def)
qed

lemma linked_unique: "linked f b xs None \<Longrightarrow> linked f b ys None \<Longrightarrow> xs = ys"
proof (induction xs arbitrary: b ys)
  case Nil
  then show ?case by (cases ys) auto
next
  case (Cons x xs)
  then show ?case by (cases ys) auto
qed

lemma linked_cong:
  "f b = f' b \<Longrightarrow> (\<And>x. x \<in> set xs \<Longrightarrow> f (Elem x) = f' (Elem x)) \<Longrightarrow> linked f b xs p = linked f' b xs p"
  by (induction xs arbitrary: b) auto

lemma backed_cong:
  "(\<And>x. x \<in> set xs \<Longrightarrow> g (Elem x) = g' (Elem x)) \<Longrightarrow> backed g b xs = backed g' b xs"
  by (induction xs arbitrary: b) auto

section \<open>Iteration macros\<close>

text \<open>
  Each \<open>FOREACH\<close> macro is a \<open>for\<close> loop whose body may change the state; the plain
  form reads the next pointer after the body ran, the \<open>SAFE\<close> form before.  A loop
  that never reaches the end marker is the value \<open>None\<close>.
\<close>

partial_function (option) walk ::
  "('a \<Rightarrow> 's \<Rightarrow> 's) \<Rightarrow> ('s \<Rightarrow> 'a \<Rightarrow> 'a option) \<Rightarrow> 'a option \<Rightarrow> 's \<Rightarrow> 's option" where
  "walk body next p s =
     (case p of None \<Rightarrow> Some s
      | Some x \<Rightarrow> walk body next (next (body x s) x) (body x s))"

partial_function (option) walk_safe ::
  "('a \<Rightarrow> 's \<Rightarrow> 's) \<Rightarrow> ('s \<Rightarrow> 'a \<Rightarrow> 'a option) \<Rightarrow> 'a option \<Rightarrow> 's \<Rightarrow> 's option" where
  "walk_safe body next p s =
     (case p of None \<Rightarrow> Some s
      | Some x \<Rightarrow> walk_safe body next (next s x) (body x s))"

definition first_of :: "'a list \<Rightarrow> 'a option" where
  "first_of xs = (case xs of [] \<Rightarrow> None | x # _ \<Rightarrow> Some x)"

lemma first_of_simps [simp]: "first_of [] = None" "first_of (x # xs) = Some x"
  by (simp_all add: first_of_def)

lemma first_of_rev: "first_of (rev xs) = (if xs = [] then None else Some (last xs))"
  by (cases xs rule: rev_cases) simp_all

lemma linked_first: "linked f b xs None \<Longrightarrow> f b = first_of xs"
  by (cases xs) auto

text \<open>
  An invariant \<open>I s ys\<close> (\<open>ys\<close>: the elements still to come) that the body carries from
  one suffix to the next makes the loop a \<open>fold\<close> over the elements.
\<close>

lemma walk_fold:
  assumes step: "\<And>x ys s. I s (x # ys) \<Longrightarrow> next (body x s) x = first_of ys \<and> I (body x s) ys"
    and start: "I s xs"
  shows "walk body next (first_of xs) s = Some (fold body xs s) \<and> I (fold body xs s) []"
  using start
proof (induction xs arbitrary: s)
  case Nil
  then show ?case by (simp add: walk.simps)
next
  case (Cons x xs)
  from step [OF Cons.prems] Cons.IH show ?case
    by (simp add: walk.simps [of body "next" "Some x" s])
qed

lemma walk_safe_fold:
  assumes step: "\<And>x ys s. I s (x # ys) \<Longrightarrow> next s x = first_of ys \<and> I (body x s) ys"
    and start: "I s xs"
  shows "walk_safe body next (first_of xs) s = Some (fold body xs s) \<and> I (fold body xs s) []"
  using start
proof (induction xs arbitrary: s)
  case Nil
  then show ?case by (simp add: walk_safe.simps)
next
  case (Cons x xs)
  from step [OF Cons.prems] Cons.IH show ?case
    by (simp add: walk_safe.simps [of body "next" "Some x" s])
qed

text \<open>
  The two instances every list kind uses: a body that leaves the links alone, and, for
  the \<open>SAFE\<close> form, a body that may overwrite the visited element's own block (it may
  be unlinked or freed) but no other element's.
\<close>

lemma walk_linked:
  fixes s :: "('h, 'a) qheap \<times> 'u"
  assumes "linked (nxt (fst s)) b xs None"
    and keep: "\<And>x y s. x \<in> set xs \<Longrightarrow> y \<in> set xs \<Longrightarrow> nxt (fst (body x s)) (Elem y) = nxt (fst s) (Elem y)"
  shows "walk body (\<lambda>s x. nxt (fst s) (Elem x)) (nxt (fst s) b) s = Some (fold body xs s)"
proof -
  define I where "I = (\<lambda>(t :: ('h, 'a) qheap \<times> 'u) ys. set ys \<subseteq> set xs \<and>
    (case ys of [] \<Rightarrow> True | y # zs \<Rightarrow> linked (nxt (fst t)) (Elem y) zs None))"
  have step: "nxt (fst (body x t)) (Elem x) = first_of ys \<and> I (body x t) ys" if "I t (x # ys)" for x ys t
  proof -
    have "linked (nxt (fst (body x t))) (Elem x) ys None = linked (nxt (fst t)) (Elem x) ys None"
      by (rule linked_cong) (use that in \<open>auto simp: I_def intro!: keep\<close>)
    with that show ?thesis by (auto simp: I_def linked_first split: list.splits)
  qed
  have "I s xs" using assms(1) by (auto simp: I_def split: list.splits)
  with walk_fold [of I "\<lambda>s x. nxt (fst s) (Elem x)" body, OF step] linked_first [OF assms(1)] show ?thesis by simp
qed

lemma walk_safe_linked:
  fixes s :: "('h, 'a) qheap \<times> 'u"
  assumes "linked (nxt (fst s)) b xs None" and "distinct xs"
    and keep: "\<And>x y s. x \<in> set xs \<Longrightarrow> y \<in> set xs \<Longrightarrow> y \<noteq> x \<Longrightarrow>
      nxt (fst (body x s)) (Elem y) = nxt (fst s) (Elem y)"
  shows "walk_safe body (\<lambda>s x. nxt (fst s) (Elem x)) (nxt (fst s) b) s = Some (fold body xs s)"
proof -
  define I where "I = (\<lambda>(t :: ('h, 'a) qheap \<times> 'u) ys. set ys \<subseteq> set xs \<and> distinct ys \<and>
    (case ys of [] \<Rightarrow> True | y # zs \<Rightarrow> linked (nxt (fst t)) (Elem y) zs None))"
  have step: "nxt (fst t) (Elem x) = first_of ys \<and> I (body x t) ys" if I: "I t (x # ys)" for x ys t
  proof (cases ys)
    case Nil
    with I show ?thesis by (simp add: I_def)
  next
    case (Cons y zs)
    have "linked (nxt (fst (body x t))) (Elem y) zs None = linked (nxt (fst t)) (Elem y) zs None"
      by (rule linked_cong) (use I Cons in \<open>auto simp: I_def intro!: keep\<close>)
    with I Cons show ?thesis by (auto simp: I_def)
  qed
  have "I s xs" using assms(1,2) by (auto simp: I_def split: list.splits)
  with walk_safe_fold [of I "\<lambda>s x. nxt (fst s) (Elem x)" body, OF step] linked_first [OF assms(1)] show ?thesis by simp
qed

end
