(* ===== verification/Queue_Iface.thy ===== *)
theory Queue_Iface
  imports Queue_Heap
begin

text \<open>
  The contracts the queue kinds share, stated once over an arbitrary store: what a
  client may rely on is the abstract list that a representation predicate assigns to
  a head.  The kinds of \<^verbatim>\<open>queue.h\<close> interpret them on their own macros.
\<close>

section \<open>Client programs\<close>

text \<open>
  A client issues operations on one queue.  On lists, an operation that the C code may
  not perform (removing from an empty queue, inserting an element that is already
  linked) has no result.
\<close>

datatype 'a qop = Push_Head 'a | Push_Tail 'a | Pop_Head

fun qop_list :: "'a qop \<Rightarrow> 'a list \<Rightarrow> 'a list option" where
  "qop_list (Push_Head x) xs = (if x \<in> set xs then None else Some (x # xs))"
| "qop_list (Push_Tail x) xs = (if x \<in> set xs then None else Some (xs @ [x]))"
| "qop_list Pop_Head xs = (case xs of [] \<Rightarrow> None | _ # ys \<Rightarrow> Some ys)"

fun qops_list :: "'a qop list \<Rightarrow> 'a list \<Rightarrow> 'a list option" where
  "qops_list [] xs = Some xs"
| "qops_list (op # ops) xs =
     (case qop_list op xs of None \<Rightarrow> None | Some ys \<Rightarrow> qops_list ops ys)"

lemma qop_list_set: "qop_list op xs = Some zs \<Longrightarrow> set zs \<subseteq> set xs \<union> set_qop op"
  by (cases op) (auto split: if_splits list.splits)

lemma qops_list_set: "qops_list ops xs = Some zs \<Longrightarrow> set zs \<subseteq> set xs \<union> \<Union> (set_qop ` set ops)"
proof (induction ops arbitrary: xs)
  case Nil
  then show ?case by simp
next
  case (Cons op ops)
  then obtain us where us: "qop_list op xs = Some us" "qops_list ops us = Some zs"
    by (auto split: option.splits)
  from Cons.IH [OF us(2)] qop_list_set [OF us(1)] show ?case by auto
qed

text \<open>The same client on a store, given the store's operations.\<close>

fun qop_store ::
  "('h \<Rightarrow> 'a \<Rightarrow> 's \<Rightarrow> 's) \<Rightarrow> ('h \<Rightarrow> 'a \<Rightarrow> 's \<Rightarrow> 's) \<Rightarrow> ('h \<Rightarrow> 's \<Rightarrow> 's option) \<Rightarrow> 'h \<Rightarrow>
   'a qop \<Rightarrow> 's \<Rightarrow> 's option" where
  "qop_store ih it rh h (Push_Head x) s = Some (ih h x s)"
| "qop_store ih it rh h (Push_Tail x) s = Some (it h x s)"
| "qop_store ih it rh h Pop_Head s = rh h s"

fun qops_store ::
  "('h \<Rightarrow> 'a \<Rightarrow> 's \<Rightarrow> 's) \<Rightarrow> ('h \<Rightarrow> 'a \<Rightarrow> 's \<Rightarrow> 's) \<Rightarrow> ('h \<Rightarrow> 's \<Rightarrow> 's option) \<Rightarrow> 'h \<Rightarrow>
   'a qop list \<Rightarrow> 's \<Rightarrow> 's option" where
  "qops_store ih it rh h [] s = Some s"
| "qops_store ih it rh h (op # ops) s =
     (case qop_store ih it rh h op s of None \<Rightarrow> None | Some t \<Rightarrow> qops_store ih it rh h ops t)"

text \<open>A client that takes \<open>n\<close> elements off the head and records them.\<close>

fun take_off ::
  "('h \<Rightarrow> 's \<Rightarrow> 'a option) \<Rightarrow> ('h \<Rightarrow> 's \<Rightarrow> 's option) \<Rightarrow> 'h \<Rightarrow> nat \<Rightarrow> 's \<Rightarrow> ('a list \<times> 's) option" where
  "take_off fi rh h 0 s = Some ([], s)"
| "take_off fi rh h (Suc n) s =
     (case fi h s of None \<Rightarrow> Some ([], s)
      | Some x \<Rightarrow> (case rh h s of None \<Rightarrow> None
        | Some t \<Rightarrow> (case take_off fi rh h n t of None \<Rightarrow> None
          | Some (xs, u) \<Rightarrow> Some (x # xs, u))))"

section \<open>Stacks\<close>

locale stack_store =
  fixes rep :: "'s \<Rightarrow> 'h \<Rightarrow> 'a list \<Rightarrow> bool"
    and first :: "'h \<Rightarrow> 's \<Rightarrow> 'a option"
    and insert_head :: "'h \<Rightarrow> 'a \<Rightarrow> 's \<Rightarrow> 's"
    and remove_head :: "'h \<Rightarrow> 's \<Rightarrow> 's option"
    and usable :: "'s \<Rightarrow> 'h \<Rightarrow> 'a \<Rightarrow> bool"
  assumes rep_first: "rep s h xs \<Longrightarrow> first h s = first_of xs"
    and rep_insert_head:
      "rep s h xs \<Longrightarrow> x \<notin> set xs \<Longrightarrow> usable s h x \<Longrightarrow> rep (insert_head h x s) h (x # xs)"
    and rep_remove_head: "rep s h (x # xs) \<Longrightarrow> \<exists>t. remove_head h s = Some t \<and> rep t h xs"
    and usable_insert_head: "usable (insert_head h x s) h y = usable s h y"
    and usable_remove_head: "remove_head h s = Some t \<Longrightarrow> usable t h y = usable s h y"
begin

lemma take_off_rep:
  "rep s h xs \<Longrightarrow> \<exists>t. take_off first remove_head h (length xs) s = Some (xs, t) \<and> rep t h []"
proof (induction xs arbitrary: s)
  case Nil
  then show ?case by simp
next
  case (Cons x xs)
  obtain t where "remove_head h s = Some t" "rep t h xs"
    using rep_remove_head [OF Cons.prems] by blast
  with Cons.IH [of t] rep_first [OF Cons.prems] show ?case by auto
qed

end

section \<open>Double-ended insertion\<close>

locale fifo_store = stack_store +
  fixes insert_tail :: "'h \<Rightarrow> 'a \<Rightarrow> 's \<Rightarrow> 's"
  assumes rep_insert_tail:
      "rep s h xs \<Longrightarrow> x \<notin> set xs \<Longrightarrow> usable s h x \<Longrightarrow> rep (insert_tail h x s) h (xs @ [x])"
    and usable_insert_tail: "usable (insert_tail h x s) h y = usable s h y"
begin

lemma qop_refines:
  assumes "rep s h xs" and "qop_list op xs = Some ys" and "\<forall>x \<in> set_qop op. usable s h x"
  shows "\<exists>t. qop_store insert_head insert_tail remove_head h op s = Some t \<and> rep t h ys
             \<and> (\<forall>y. usable t h y = usable s h y)"
proof (cases op)
  case Pop_Head
  with assms obtain x where "xs = x # ys" by (auto split: list.splits)
  with assms(1) obtain t where "remove_head h s = Some t" "rep t h ys"
    using rep_remove_head by blast
  with Pop_Head show ?thesis by (auto simp: usable_remove_head)
qed (use assms in \<open>auto split: if_splits simp: rep_insert_head rep_insert_tail
       usable_insert_head usable_insert_tail\<close>)

lemma qops_refines:
  "rep s h xs \<Longrightarrow> qops_list ops xs = Some ys \<Longrightarrow> \<forall>op \<in> set ops. \<forall>x \<in> set_qop op. usable s h x \<Longrightarrow>
   \<exists>t. qops_store insert_head insert_tail remove_head h ops s = Some t \<and> rep t h ys"
proof (induction ops arbitrary: s xs)
  case Nil
  then show ?case by simp
next
  case (Cons op ops)
  from Cons.prems(2) obtain zs where zs: "qop_list op xs = Some zs" "qops_list ops zs = Some ys"
    by (auto split: option.splits)
  obtain t where "qop_store insert_head insert_tail remove_head h op s = Some t" "rep t h zs"
      "\<forall>y. usable t h y = usable s h y"
    using qop_refines [OF Cons.prems(1) zs(1)] Cons.prems(3) by auto
  with Cons.IH [OF _ zs(2)] Cons.prems(3) show ?case by simp
qed

lemma fold_insert_tail:
  "rep s h xs \<Longrightarrow> distinct (xs @ ys) \<Longrightarrow> \<forall>y \<in> set ys. usable s h y \<Longrightarrow>
   rep (fold (insert_tail h) ys s) h (xs @ ys)"
proof (induction ys arbitrary: s xs)
  case Nil
  then show ?case by simp
next
  case (Cons y ys)
  have "rep (insert_tail h y s) h (xs @ [y])"
    using Cons.prems by (intro rep_insert_tail) auto
  from Cons.IH [OF this] Cons.prems show ?case by (simp add: usable_insert_tail)
qed

text \<open>What went in at the tail comes out at the head in the same order.\<close>

lemma fifo_order:
  assumes "rep s h xs" and "distinct (xs @ ys)" and "\<forall>y \<in> set ys. usable s h y"
  shows "\<exists>t. take_off first remove_head h (length xs + length ys) (fold (insert_tail h) ys s)
             = Some (xs @ ys, t) \<and> rep t h []"
  using take_off_rep [OF fold_insert_tail [OF assms]] by simp

end

section \<open>Several queues in one store\<close>

locale shared_store = fifo_store +
  assumes frame_insert_head:
      "rep s h xs \<Longrightarrow> rep s h' ys \<Longrightarrow> h \<noteq> h' \<Longrightarrow> set (x # xs) \<inter> set ys = {} \<Longrightarrow>
       rep (insert_head h x s) h' ys"
    and frame_insert_tail:
      "rep s h xs \<Longrightarrow> rep s h' ys \<Longrightarrow> h \<noteq> h' \<Longrightarrow> set (x # xs) \<inter> set ys = {} \<Longrightarrow>
       rep (insert_tail h x s) h' ys"
    and frame_remove_head:
      "rep s h xs \<Longrightarrow> rep s h' ys \<Longrightarrow> h \<noteq> h' \<Longrightarrow> set xs \<inter> set ys = {} \<Longrightarrow>
       remove_head h s = Some t \<Longrightarrow> rep t h' ys"
begin

lemma qop_frame:
  assumes "rep s h xs" "rep s h' ys" "h \<noteq> h'" "set xs \<inter> set ys = {}" "set_qop op \<inter> set ys = {}"
    and "qop_store insert_head insert_tail remove_head h op s = Some t"
  shows "rep t h' ys"
  using assms frame_insert_head [OF assms(1-3)] frame_insert_tail [OF assms(1-3)]
    frame_remove_head [OF assms(1-3)] by (cases op) auto

lemma fold_insert_tail_frame:
  "rep s h xs \<Longrightarrow> rep s h' zs \<Longrightarrow> h \<noteq> h' \<Longrightarrow> distinct (xs @ ys) \<Longrightarrow> set (xs @ ys) \<inter> set zs = {} \<Longrightarrow>
   \<forall>y \<in> set ys. usable s h y \<Longrightarrow>
   rep (fold (insert_tail h) ys s) h (xs @ ys) \<and> rep (fold (insert_tail h) ys s) h' zs"
proof (induction ys arbitrary: s xs)
  case Nil
  then show ?case by simp
next
  case (Cons y ys)
  have "rep (insert_tail h y s) h (xs @ [y])"
    using Cons.prems by (intro rep_insert_tail) auto
  moreover have "rep (insert_tail h y s) h' zs"
    using Cons.prems by (intro frame_insert_tail [OF Cons.prems(1)]) auto
  ultimately show ?case using Cons.IH [of "insert_tail h y s" "xs @ [y]"] Cons.prems
    by (simp add: usable_insert_tail)
qed

text \<open>A client of one queue does not disturb the other queues of the store.\<close>

lemma qops_frame:
  "rep s h xs \<Longrightarrow> rep s h' ys \<Longrightarrow> h \<noteq> h' \<Longrightarrow> set xs \<inter> set ys = {} \<Longrightarrow>
   \<forall>op \<in> set ops. set_qop op \<inter> set ys = {} \<and> (\<forall>x \<in> set_qop op. usable s h x) \<Longrightarrow>
   qops_list ops xs = Some zs \<Longrightarrow>
   \<exists>t. qops_store insert_head insert_tail remove_head h ops s = Some t \<and> rep t h zs \<and> rep t h' ys"
proof (induction ops arbitrary: s xs)
  case Nil
  then show ?case by simp
next
  case (Cons op ops)
  from Cons.prems(6) obtain us where us: "qop_list op xs = Some us" "qops_list ops us = Some zs"
    by (auto split: option.splits)
  obtain u where u: "qop_store insert_head insert_tail remove_head h op s = Some u" "rep u h us"
      "\<forall>y. usable u h y = usable s h y"
    using qop_refines [OF Cons.prems(1) us(1)] Cons.prems(5) by auto
  have frame: "rep u h' ys"
    using Cons.prems by (intro qop_frame [OF _ _ _ _ _ u(1)]) auto
  have "set us \<inter> set ys = {}"
    using qop_list_set [OF us(1)] Cons.prems(4,5) by auto
  moreover have "\<forall>op \<in> set ops. set_qop op \<inter> set ys = {} \<and> (\<forall>x \<in> set_qop op. usable u h x)"
    using Cons.prems(5) u(3) by simp
  ultimately show ?case
    using Cons.IH [OF u(2) frame Cons.prems(3) _ _ us(2)] u(1) by simp
qed

end

section \<open>Removal from anywhere\<close>

locale removal_store = stack_store +
  fixes remove :: "'h \<Rightarrow> 'a \<Rightarrow> 's \<Rightarrow> 's option"
  assumes rep_remove:
      "rep s h xs \<Longrightarrow> x \<in> set xs \<Longrightarrow> \<exists>t. remove h x s = Some t \<and> rep t h (remove1 x xs)"
    and rep_distinct: "rep s h xs \<Longrightarrow> distinct xs"
begin

text \<open>Removing some of the elements, one after the other, leaves the others in order.\<close>

lemma remove_all:
  "rep s h xs \<Longrightarrow> distinct ys \<Longrightarrow> set ys \<subseteq> set xs \<Longrightarrow>
   \<exists>t. foldl (\<lambda>r x. case r of None \<Rightarrow> None | Some u \<Rightarrow> remove h x u) (Some s) ys = Some t
       \<and> rep t h (filter (\<lambda>x. x \<notin> set ys) xs)"
proof (induction ys arbitrary: s xs)
  case Nil
  then show ?case by simp
next
  case (Cons y ys)
  from Cons.prems obtain t where t: "remove h y s = Some t" "rep t h (remove1 y xs)"
    using rep_remove [of s h xs y] by auto
  have sub: "set ys \<subseteq> set (remove1 y xs)"
    using Cons.prems rep_distinct [OF Cons.prems(1)] by auto
  have "filter (\<lambda>x. x \<notin> set ys) (remove1 y xs) = filter (\<lambda>x. x \<notin> set (y # ys)) xs"
    using rep_distinct [OF Cons.prems(1)]
    by (auto simp: distinct_remove1_removeAll removeAll_filter_not_eq conj_commute
        intro: filter_cong)
  with Cons.IH [OF t(2) _ sub] Cons.prems(2) t(1) show ?case by auto
qed

end

end
