(* ===== verification/Slist.thy ===== *)
theory Slist
  imports Queue_Iface
begin

text \<open>
  The \<open>SLIST\<close> macros of \<^verbatim>\<open>include/queue.h\<close>: a head with one pointer, elements
  with one pointer, no way back.  \<open>SLIST_REMOVE\<close> searches for the predecessor.
\<close>

section \<open>The macros\<close>

definition SLIST_FIRST :: "'h \<Rightarrow> ('h, 'a) qheap \<Rightarrow> 'a option" where
  "SLIST_FIRST h hp = nxt hp (Head h)"

definition SLIST_NEXT :: "'a \<Rightarrow> ('h, 'a) qheap \<Rightarrow> 'a option" where
  "SLIST_NEXT e hp = nxt hp (Elem e)"

definition SLIST_EMPTY :: "'h \<Rightarrow> ('h, 'a) qheap \<Rightarrow> bool" where
  "SLIST_EMPTY h hp \<longleftrightarrow> SLIST_FIRST h hp = None"

definition SLIST_INIT :: "'h \<Rightarrow> ('h, 'a) qheap \<Rightarrow> ('h, 'a) qheap" where
  "SLIST_INIT h hp = set_nxt (Head h) None hp"

definition SLIST_INSERT_AFTER :: "'a \<Rightarrow> 'a \<Rightarrow> ('h, 'a) qheap \<Rightarrow> ('h, 'a) qheap" where
  "SLIST_INSERT_AFTER slistelm elm hp =
     (let hp1 = set_nxt (Elem elm) (nxt hp (Elem slistelm)) hp
      in set_nxt (Elem slistelm) (Some elm) hp1)"

definition SLIST_INSERT_HEAD :: "'h \<Rightarrow> 'a \<Rightarrow> ('h, 'a) qheap \<Rightarrow> ('h, 'a) qheap" where
  "SLIST_INSERT_HEAD h elm hp =
     (let hp1 = set_nxt (Elem elm) (nxt hp (Head h)) hp
      in set_nxt (Head h) (Some elm) hp1)"

definition SLIST_REMOVE_AFTER :: "'a \<Rightarrow> ('h, 'a) qheap \<Rightarrow> ('h, 'a) qheap option" where
  "SLIST_REMOVE_AFTER elm hp =
     (case nxt hp (Elem elm) of None \<Rightarrow> None
      | Some n \<Rightarrow> Some (set_nxt (Elem elm) (nxt hp (Elem n)) hp))"

definition SLIST_REMOVE_HEAD :: "'h \<Rightarrow> ('h, 'a) qheap \<Rightarrow> ('h, 'a) qheap option" where
  "SLIST_REMOVE_HEAD h hp =
     (case nxt hp (Head h) of None \<Rightarrow> None
      | Some n \<Rightarrow> Some (set_nxt (Head h) (nxt hp (Elem n)) hp))"

text \<open>
  The search loop of \<open>SLIST_REMOVE\<close>: it runs while the current element's successor
  is not the one to remove, so running off the end reads through \<open>NULL\<close> (\<open>None\<close>)
  and a cycle without the element never ends (\<open>None\<close>).
\<close>

partial_function (option) slist_find_prev :: "('h, 'a) qheap \<Rightarrow> 'a \<Rightarrow> 'a option \<Rightarrow> 'a option" where
  "slist_find_prev hp elm curelm =
     (case curelm of None \<Rightarrow> None
      | Some c \<Rightarrow> if nxt hp (Elem c) \<noteq> Some elm
                 then slist_find_prev hp elm (nxt hp (Elem c)) else Some c)"

definition SLIST_REMOVE :: "'h \<Rightarrow> 'a \<Rightarrow> ('h, 'a) qheap \<Rightarrow> ('h, 'a) qheap option" where
  "SLIST_REMOVE h elm hp =
     (if nxt hp (Head h) = Some elm then SLIST_REMOVE_HEAD h hp
      else (case slist_find_prev hp elm (nxt hp (Head h)) of None \<Rightarrow> None
        | Some c \<Rightarrow> (case nxt hp (Elem c) of None \<Rightarrow> None
          | Some n \<Rightarrow> Some (set_nxt (Elem c) (nxt hp (Elem n)) hp))))"

definition SLIST_FOREACH ::
  "'h \<Rightarrow> ('a \<Rightarrow> ('h, 'a) qheap \<times> 'u \<Rightarrow> ('h, 'a) qheap \<times> 'u) \<Rightarrow> ('h, 'a) qheap \<times> 'u \<Rightarrow>
   (('h, 'a) qheap \<times> 'u) option" where
  "SLIST_FOREACH h body s = walk body (\<lambda>s x. SLIST_NEXT x (fst s)) (SLIST_FIRST h (fst s)) s"

definition SLIST_FOREACH_SAFE ::
  "'h \<Rightarrow> ('a \<Rightarrow> ('h, 'a) qheap \<times> 'u \<Rightarrow> ('h, 'a) qheap \<times> 'u) \<Rightarrow> ('h, 'a) qheap \<times> 'u \<Rightarrow>
   (('h, 'a) qheap \<times> 'u) option" where
  "SLIST_FOREACH_SAFE h body s =
     walk_safe body (\<lambda>s x. SLIST_NEXT x (fst s)) (SLIST_FIRST h (fst s)) s"

lemmas slist_defs = SLIST_FIRST_def SLIST_NEXT_def SLIST_EMPTY_def SLIST_INIT_def
  SLIST_INSERT_AFTER_def SLIST_INSERT_HEAD_def SLIST_REMOVE_AFTER_def SLIST_REMOVE_HEAD_def Let_def

section \<open>Representation\<close>

definition slist_rep :: "('h, 'a) qheap \<Rightarrow> 'h \<Rightarrow> 'a list \<Rightarrow> bool" where
  "slist_rep hp h xs \<longleftrightarrow> distinct xs \<and> linked (nxt hp) (Head h) xs None"

lemma slist_repD: "slist_rep hp h xs \<Longrightarrow> distinct xs" "slist_rep hp h xs \<Longrightarrow> linked (nxt hp) (Head h) xs None"
  by (simp_all add: slist_rep_def)

lemma slist_rep_init: "slist_rep (SLIST_INIT h hp) h []"
  by (simp add: slist_rep_def slist_defs)

lemma slist_rep_first: "slist_rep hp h xs \<Longrightarrow> SLIST_FIRST h hp = first_of xs"
  by (simp add: slist_rep_def slist_defs linked_first)

lemma slist_rep_empty: "slist_rep hp h xs \<Longrightarrow> SLIST_EMPTY h hp = (xs = [])"
  by (cases xs) (auto simp: SLIST_EMPTY_def slist_rep_first)

lemma slist_rep_unique: "slist_rep hp h xs \<Longrightarrow> slist_rep hp h ys \<Longrightarrow> xs = ys"
  by (auto simp: slist_rep_def intro: linked_unique)

lemma slist_rep_insert_head:
  "slist_rep hp h xs \<Longrightarrow> x \<notin> set xs \<Longrightarrow> slist_rep (SLIST_INSERT_HEAD h x hp) h (x # xs)"
  by (cases xs) (auto simp: slist_rep_def slist_defs)

lemma slist_rep_insert_after:
  assumes "slist_rep hp h (xs @ p # ys)" and "x \<notin> set (xs @ p # ys)"
  shows "slist_rep (SLIST_INSERT_AFTER p x hp) h (xs @ p # x # ys)"
  using assms by (cases ys) (auto simp: slist_rep_def slist_defs)

lemma slist_rep_remove_head:
  "slist_rep hp h (x # xs) \<Longrightarrow> \<exists>t. SLIST_REMOVE_HEAD h hp = Some t \<and> slist_rep t h xs"
  by (cases xs) (auto simp: slist_rep_def slist_defs)

lemma slist_rep_remove_after:
  assumes "slist_rep hp h (xs @ p # x # ys)"
  shows "\<exists>t. SLIST_REMOVE_AFTER p hp = Some t \<and> slist_rep t h (xs @ p # ys)"
  using assms by (cases ys) (auto simp: slist_rep_def slist_defs)

lemma slist_find_prev_found:
  "linked (nxt hp) b (xs @ p # x # ys) None \<Longrightarrow> distinct (xs @ p # x # ys) \<Longrightarrow>
   slist_find_prev hp x (nxt hp b) = Some p"
proof (induction xs arbitrary: b)
  case Nil
  then show ?case by (simp add: slist_find_prev.simps)
next
  case (Cons a as)
  then have "nxt hp (Elem a) \<noteq> Some x"
    by (cases as) auto
  with Cons show ?case by (simp add: slist_find_prev.simps [of hp x "Some a"])
qed

lemma slist_rep_remove:
  assumes "slist_rep hp h xs" and "x \<in> set xs"
  shows "\<exists>t. SLIST_REMOVE h x hp = Some t \<and> slist_rep t h (remove1 x xs)"
proof (cases "nxt hp (Head h) = Some x")
  case True
  with assms obtain ys where "xs = x # ys" by (cases xs) (auto simp: slist_rep_def)
  with True assms slist_rep_remove_head [of hp h x ys] show ?thesis by (simp add: SLIST_REMOVE_def)
next
  case False
  obtain as ys where split: "xs = as @ x # ys" "x \<notin> set as"
    using assms(2) by (meson split_list_first)
  with False assms have "as \<noteq> []" by (auto simp: slist_rep_def)
  then obtain us p where as: "as = us @ [p]" by (metis rev_exhaust)
  have rep: "slist_rep hp h (us @ p # x # ys)" using assms split as by simp
  then have "slist_find_prev hp x (nxt hp (Head h)) = Some p"
    by (intro slist_find_prev_found) (auto simp: slist_rep_def)
  moreover have "remove1 x xs = us @ p # ys" using split as by (auto simp: remove1_append)
  ultimately show ?thesis
    using False slist_rep_remove_after [OF rep]
    by (auto simp: SLIST_REMOVE_def SLIST_REMOVE_AFTER_def split: option.splits)
qed

text \<open>Lists with other heads and other elements are untouched.\<close>

lemma slist_rep_frame:
  assumes "slist_rep hp h' ys"
    and "nxt hp' (Head h') = nxt hp (Head h')"
    and "\<And>y. y \<in> set ys \<Longrightarrow> nxt hp' (Elem y) = nxt hp (Elem y)"
  shows "slist_rep hp' h' ys"
  using assms linked_cong [of "nxt hp'" "Head h'" "nxt hp" ys None] by (simp add: slist_rep_def)

interpretation slist: stack_store slist_rep SLIST_FIRST SLIST_INSERT_HEAD SLIST_REMOVE_HEAD "\<lambda>_ _ _. True"
  by unfold_locales (auto simp: slist_rep_first slist_rep_insert_head intro: slist_rep_remove_head)

interpretation slist_rm: removal_store slist_rep SLIST_FIRST SLIST_INSERT_HEAD SLIST_REMOVE_HEAD
    "\<lambda>_ _ _. True" SLIST_REMOVE
  by unfold_locales (auto intro: slist_rep_remove dest: slist_repD)

section \<open>Iteration\<close>

lemma slist_foreach_fold:
  fixes s :: "('h, 'a) qheap \<times> 'u"
  assumes "slist_rep (fst s) h xs"
    and "\<And>x y s. x \<in> set xs \<Longrightarrow> y \<in> set xs \<Longrightarrow> nxt (fst (body x s)) (Elem y) = nxt (fst s) (Elem y)"
  shows "SLIST_FOREACH h body s = Some (fold body xs s)"
  using walk_linked [OF slist_repD(2) [OF assms(1)]] assms(2)
  by (simp add: SLIST_FOREACH_def SLIST_NEXT_def SLIST_FIRST_def)

lemma slist_foreach_safe_fold:
  fixes s :: "('h, 'a) qheap \<times> 'u"
  assumes "slist_rep (fst s) h xs"
    and "\<And>x y s. x \<in> set xs \<Longrightarrow> y \<in> set xs \<Longrightarrow> y \<noteq> x \<Longrightarrow>
      nxt (fst (body x s)) (Elem y) = nxt (fst s) (Elem y)"
  shows "SLIST_FOREACH_SAFE h body s = Some (fold body xs s)"
  using walk_safe_linked [OF slist_repD(2) [OF assms(1)] slist_repD(1) [OF assms(1)]] assms(2)
  by (simp add: SLIST_FOREACH_SAFE_def SLIST_NEXT_def SLIST_FIRST_def)

end
