(* ===== verification/Simpleq.thy ===== *)
theory Simpleq
  imports Slist
begin

text \<open>
  The \<open>SIMPLEQ\<close> macros of \<^verbatim>\<open>include/queue.h\<close>: singly linked elements, and a head
  that also keeps the address of the last first field, so that appending and
  concatenating take constant time.
\<close>

section \<open>The macros\<close>

definition SIMPLEQ_FIRST :: "'h \<Rightarrow> ('h, 'a) qheap \<Rightarrow> 'a option" where
  "SIMPLEQ_FIRST h hp = nxt hp (Head h)"

definition SIMPLEQ_NEXT :: "'a \<Rightarrow> ('h, 'a) qheap \<Rightarrow> 'a option" where
  "SIMPLEQ_NEXT e hp = nxt hp (Elem e)"

definition SIMPLEQ_EMPTY :: "'h \<Rightarrow> ('h, 'a) qheap \<Rightarrow> bool" where
  "SIMPLEQ_EMPTY h hp \<longleftrightarrow> SIMPLEQ_FIRST h hp = None"

definition SIMPLEQ_INIT :: "'h \<Rightarrow> ('h, 'a) qheap \<Rightarrow> ('h, 'a) qheap" where
  "SIMPLEQ_INIT h hp = set_bck (Head h) (Head h) (set_nxt (Head h) None hp)"

definition SIMPLEQ_INSERT_HEAD :: "'h \<Rightarrow> 'a \<Rightarrow> ('h, 'a) qheap \<Rightarrow> ('h, 'a) qheap" where
  "SIMPLEQ_INSERT_HEAD h elm hp =
     (let hp1 = set_nxt (Elem elm) (nxt hp (Head h)) hp;
          hp2 = (if nxt hp1 (Elem elm) = None then set_bck (Head h) (Elem elm) hp1 else hp1)
      in set_nxt (Head h) (Some elm) hp2)"

definition SIMPLEQ_INSERT_TAIL :: "'h \<Rightarrow> 'a \<Rightarrow> ('h, 'a) qheap \<Rightarrow> ('h, 'a) qheap" where
  "SIMPLEQ_INSERT_TAIL h elm hp =
     (let hp1 = set_nxt (Elem elm) None hp;
          hp2 = set_nxt (bck hp1 (Head h)) (Some elm) hp1
      in set_bck (Head h) (Elem elm) hp2)"

definition SIMPLEQ_INSERT_AFTER :: "'h \<Rightarrow> 'a \<Rightarrow> 'a \<Rightarrow> ('h, 'a) qheap \<Rightarrow> ('h, 'a) qheap" where
  "SIMPLEQ_INSERT_AFTER h listelm elm hp =
     (let hp1 = set_nxt (Elem elm) (nxt hp (Elem listelm)) hp;
          hp2 = (if nxt hp1 (Elem elm) = None then set_bck (Head h) (Elem elm) hp1 else hp1)
      in set_nxt (Elem listelm) (Some elm) hp2)"

definition SIMPLEQ_REMOVE_HEAD :: "'h \<Rightarrow> ('h, 'a) qheap \<Rightarrow> ('h, 'a) qheap option" where
  "SIMPLEQ_REMOVE_HEAD h hp =
     (case nxt hp (Head h) of None \<Rightarrow> None
      | Some n \<Rightarrow>
          let hp1 = set_nxt (Head h) (nxt hp (Elem n)) hp
          in Some (if nxt hp1 (Head h) = None then set_bck (Head h) (Head h) hp1 else hp1))"

definition SIMPLEQ_REMOVE_AFTER :: "'h \<Rightarrow> 'a \<Rightarrow> ('h, 'a) qheap \<Rightarrow> ('h, 'a) qheap option" where
  "SIMPLEQ_REMOVE_AFTER h elm hp =
     (case nxt hp (Elem elm) of None \<Rightarrow> None
      | Some n \<Rightarrow>
          let hp1 = set_nxt (Elem elm) (nxt hp (Elem n)) hp
          in Some (if nxt hp1 (Elem elm) = None then set_bck (Head h) (Elem elm) hp1 else hp1))"

definition SIMPLEQ_CONCAT :: "'h \<Rightarrow> 'h \<Rightarrow> ('h, 'a) qheap \<Rightarrow> ('h, 'a) qheap" where
  "SIMPLEQ_CONCAT head1 head2 hp =
     (if \<not> SIMPLEQ_EMPTY head2 hp then
        let hp1 = set_nxt (bck hp (Head head1)) (nxt hp (Head head2)) hp;
            hp2 = set_bck (Head head1) (bck hp1 (Head head2)) hp1
        in SIMPLEQ_INIT head2 hp2
      else hp)"

definition SIMPLEQ_FOREACH ::
  "'h \<Rightarrow> ('a \<Rightarrow> ('h, 'a) qheap \<times> 'u \<Rightarrow> ('h, 'a) qheap \<times> 'u) \<Rightarrow> ('h, 'a) qheap \<times> 'u \<Rightarrow>
   (('h, 'a) qheap \<times> 'u) option" where
  "SIMPLEQ_FOREACH h body s =
     walk body (\<lambda>s x. SIMPLEQ_NEXT x (fst s)) (SIMPLEQ_FIRST h (fst s)) s"

definition SIMPLEQ_FOREACH_SAFE ::
  "'h \<Rightarrow> ('a \<Rightarrow> ('h, 'a) qheap \<times> 'u \<Rightarrow> ('h, 'a) qheap \<times> 'u) \<Rightarrow> ('h, 'a) qheap \<times> 'u \<Rightarrow>
   (('h, 'a) qheap \<times> 'u) option" where
  "SIMPLEQ_FOREACH_SAFE h body s =
     walk_safe body (\<lambda>s x. SIMPLEQ_NEXT x (fst s)) (SIMPLEQ_FIRST h (fst s)) s"

lemmas simpleq_defs [queue_simps] = SIMPLEQ_FIRST_def SIMPLEQ_NEXT_def SIMPLEQ_EMPTY_def SIMPLEQ_INIT_def
  SIMPLEQ_INSERT_HEAD_def SIMPLEQ_INSERT_TAIL_def SIMPLEQ_INSERT_AFTER_def
  SIMPLEQ_REMOVE_HEAD_def SIMPLEQ_REMOVE_AFTER_def SIMPLEQ_CONCAT_def Let_def

section \<open>Representation\<close>

definition simpleq_rep :: "('h, 'a) qheap \<Rightarrow> 'h \<Rightarrow> 'a list \<Rightarrow> bool" where
  "simpleq_rep hp h xs \<longleftrightarrow> slist_rep hp h xs \<and> bck hp (Head h) = last_blk (Head h) xs"

lemmas simpleq_rep_unfold [queue_reps] = simpleq_rep_def slist_rep_def

lemma simpleq_rep_slist: "simpleq_rep hp h xs \<Longrightarrow> slist_rep hp h xs"
  by (simp add: simpleq_rep_def)

lemma simpleq_rep_init: "simpleq_rep (SIMPLEQ_INIT h hp) h []"
  by (simp add: queue_simps queue_reps)

lemma simpleq_rep_first: "simpleq_rep hp h xs \<Longrightarrow> SIMPLEQ_FIRST h hp = first_of xs"
  by (simp add: queue_simps queue_reps linked_first)

lemma simpleq_rep_empty: "simpleq_rep hp h xs \<Longrightarrow> SIMPLEQ_EMPTY h hp = (xs = [])"
  by (cases xs) (auto simp: queue_simps queue_reps)

lemma simpleq_rep_insert_head:
  "simpleq_rep hp h xs \<Longrightarrow> x \<notin> set xs \<Longrightarrow> simpleq_rep (SIMPLEQ_INSERT_HEAD h x hp) h (x # xs)"
  by (cases xs) (auto simp: queue_simps queue_reps)

lemma simpleq_rep_insert_tail:
  assumes "simpleq_rep hp h xs" and "x \<notin> set xs"
  shows "simpleq_rep (SIMPLEQ_INSERT_TAIL h x hp) h (xs @ [x])"
proof (cases xs rule: rev_cases)
  case Nil
  with assms show ?thesis by (simp add: queue_simps queue_reps)
next
  case (snoc us u)
  with assms show ?thesis by (auto simp: queue_simps queue_reps)
qed

lemma simpleq_rep_insert_after:
  assumes "simpleq_rep hp h (xs @ p # ys)" and "x \<notin> set (xs @ p # ys)"
  shows "simpleq_rep (SIMPLEQ_INSERT_AFTER h p x hp) h (xs @ p # x # ys)"
  using assms by (cases ys) (auto simp: queue_simps queue_reps)

lemma simpleq_rep_remove_head:
  "simpleq_rep hp h (x # xs) \<Longrightarrow> \<exists>t. SIMPLEQ_REMOVE_HEAD h hp = Some t \<and> simpleq_rep t h xs"
  by (cases xs) (auto simp: queue_simps queue_reps)

lemma simpleq_rep_remove_after:
  assumes "simpleq_rep hp h (xs @ p # x # ys)"
  shows "\<exists>t. SIMPLEQ_REMOVE_AFTER h p hp = Some t \<and> simpleq_rep t h (xs @ p # ys)"
  using assms by (cases ys) (auto simp: queue_simps queue_reps)

text \<open>
  Concatenation moves every element of the second list behind the first one's and
  leaves the second list empty.
\<close>

lemma simpleq_rep_concat:
  assumes "simpleq_rep hp h1 xs" "simpleq_rep hp h2 ys" "h1 \<noteq> h2" "set xs \<inter> set ys = {}"
  shows "simpleq_rep (SIMPLEQ_CONCAT h1 h2 hp) h1 (xs @ ys) \<and>
         simpleq_rep (SIMPLEQ_CONCAT h1 h2 hp) h2 []"
proof (cases ys)
  case Nil
  with assms show ?thesis by (simp add: queue_simps queue_reps)
next
  case (Cons y zs)
  show ?thesis
  proof (cases xs rule: rev_cases)
    case Nil
    with Cons assms show ?thesis by (auto simp: queue_simps queue_reps)
  next
    case (snoc us u)
    with Cons assms show ?thesis by (auto simp: queue_simps queue_reps)
  qed
qed

lemma simpleq_rep_frame:
  assumes "simpleq_rep hp h' ys"
    and "nxt hp' (Head h') = nxt hp (Head h')" and "bck hp' (Head h') = bck hp (Head h')"
    and "\<And>y. y \<in> set ys \<Longrightarrow> nxt hp' (Elem y) = nxt hp (Elem y)"
  shows "simpleq_rep hp' h' ys"
  using assms slist_rep_frame [of hp h' ys hp'] by (simp add: simpleq_rep_def)

lemma simpleq_frame_insert:
  assumes rep: "simpleq_rep hp h xs" "simpleq_rep hp h' ys" and "h \<noteq> h'"
    and "set (x # xs) \<inter> set ys = {}"
  shows "simpleq_rep (SIMPLEQ_INSERT_HEAD h x hp) h' ys"
    and "simpleq_rep (SIMPLEQ_INSERT_TAIL h x hp) h' ys"
proof -
  have "bck hp (Head h) = Head h \<or> bck hp (Head h) \<in> Elem ` set xs"
    using rep(1) last_blk_cases [of "Head h" xs] by (auto simp: simpleq_rep_def)
  with assms(3,4) show "simpleq_rep (SIMPLEQ_INSERT_HEAD h x hp) h' ys"
      "simpleq_rep (SIMPLEQ_INSERT_TAIL h x hp) h' ys"
    by (auto simp: queue_simps intro!: simpleq_rep_frame [OF rep(2)])
qed

lemma simpleq_frame_remove:
  assumes "simpleq_rep hp h xs" "simpleq_rep hp h' ys" "h \<noteq> h'" "set xs \<inter> set ys = {}"
    and "SIMPLEQ_REMOVE_HEAD h hp = Some t"
  shows "simpleq_rep t h' ys"
  using assms
  by (auto simp: queue_simps intro!: simpleq_rep_frame [OF assms(2)] split: option.splits if_splits)

interpretation simpleq: shared_store simpleq_rep SIMPLEQ_FIRST SIMPLEQ_INSERT_HEAD
    SIMPLEQ_REMOVE_HEAD "\<lambda>_ _ _. True" SIMPLEQ_INSERT_TAIL
  by unfold_locales
    (rule simpleq_rep_first simpleq_rep_insert_head simpleq_rep_insert_tail simpleq_rep_remove_head
      simpleq_frame_insert simpleq_frame_remove refl; assumption)+

section \<open>Iteration\<close>

lemma simpleq_foreach_fold:
  fixes s :: "('h, 'a) qheap \<times> 'u"
  assumes "simpleq_rep (fst s) h xs"
    and "\<And>x y s. x \<in> set xs \<Longrightarrow> y \<in> set xs \<Longrightarrow> nxt (fst (body x s)) (Elem y) = nxt (fst s) (Elem y)"
  shows "SIMPLEQ_FOREACH h body s = Some (fold body xs s)"
  using slist_foreach_fold [OF simpleq_rep_slist [OF assms(1)], of body] assms(2)
  by (simp add: SLIST_FOREACH_def SIMPLEQ_FOREACH_def slist_defs queue_simps)

lemma simpleq_foreach_safe_fold:
  fixes s :: "('h, 'a) qheap \<times> 'u"
  assumes "simpleq_rep (fst s) h xs"
    and "\<And>x y s. x \<in> set xs \<Longrightarrow> y \<in> set xs \<Longrightarrow> y \<noteq> x \<Longrightarrow>
      nxt (fst (body x s)) (Elem y) = nxt (fst s) (Elem y)"
  shows "SIMPLEQ_FOREACH_SAFE h body s = Some (fold body xs s)"
  using slist_foreach_safe_fold [OF simpleq_rep_slist [OF assms(1)], of body] assms(2)
  by (simp add: SLIST_FOREACH_SAFE_def SIMPLEQ_FOREACH_SAFE_def slist_defs queue_simps)

end
