(* ===== verification/Stailq.thy ===== *)
theory Stailq
  imports Simpleq
begin

text \<open>
  The \<open>STAILQ\<close> macros of \<^verbatim>\<open>include/queue.h\<close>: the layout of \<open>SIMPLEQ\<close> with
  removal from anywhere and access to the last element.  The operations both kinds have
  are proved to be the same functions, so the \<open>SIMPLEQ\<close> results carry over.
\<close>

section \<open>The macros\<close>

definition STAILQ_FIRST :: "'h \<Rightarrow> ('h, 'a) qheap \<Rightarrow> 'a option" where
  "STAILQ_FIRST h hp = nxt hp (Head h)"

definition STAILQ_NEXT :: "'a \<Rightarrow> ('h, 'a) qheap \<Rightarrow> 'a option" where
  "STAILQ_NEXT e hp = nxt hp (Elem e)"

definition STAILQ_EMPTY :: "'h \<Rightarrow> ('h, 'a) qheap \<Rightarrow> bool" where
  "STAILQ_EMPTY h hp \<longleftrightarrow> STAILQ_FIRST h hp = None"

definition STAILQ_INIT :: "'h \<Rightarrow> ('h, 'a) qheap \<Rightarrow> ('h, 'a) qheap" where
  "STAILQ_INIT h hp = (let hp1 = set_nxt (Head h) None hp in set_bck (Head h) (Head h) hp1)"

definition STAILQ_INSERT_HEAD :: "'h \<Rightarrow> 'a \<Rightarrow> ('h, 'a) qheap \<Rightarrow> ('h, 'a) qheap" where
  "STAILQ_INSERT_HEAD h elm hp =
     (let hp1 = set_nxt (Elem elm) (STAILQ_FIRST h hp) hp;
          hp2 = (if STAILQ_NEXT elm hp1 = None then set_bck (Head h) (Elem elm) hp1 else hp1)
      in set_nxt (Head h) (Some elm) hp2)"

definition STAILQ_INSERT_TAIL :: "'h \<Rightarrow> 'a \<Rightarrow> ('h, 'a) qheap \<Rightarrow> ('h, 'a) qheap" where
  "STAILQ_INSERT_TAIL h elm hp =
     (let hp1 = set_nxt (Elem elm) None hp;
          hp2 = set_nxt (bck hp1 (Head h)) (Some elm) hp1
      in set_bck (Head h) (Elem elm) hp2)"

definition STAILQ_INSERT_AFTER :: "'h \<Rightarrow> 'a \<Rightarrow> 'a \<Rightarrow> ('h, 'a) qheap \<Rightarrow> ('h, 'a) qheap" where
  "STAILQ_INSERT_AFTER h listelm elm hp =
     (let hp1 = set_nxt (Elem elm) (STAILQ_NEXT listelm hp) hp;
          hp2 = (if STAILQ_NEXT elm hp1 = None then set_bck (Head h) (Elem elm) hp1 else hp1)
      in set_nxt (Elem listelm) (Some elm) hp2)"

definition STAILQ_REMOVE_HEAD :: "'h \<Rightarrow> ('h, 'a) qheap \<Rightarrow> ('h, 'a) qheap option" where
  "STAILQ_REMOVE_HEAD h hp =
     (case STAILQ_FIRST h hp of None \<Rightarrow> None
      | Some n \<Rightarrow>
          let hp1 = set_nxt (Head h) (STAILQ_NEXT n hp) hp
          in Some (if STAILQ_FIRST h hp1 = None then set_bck (Head h) (Head h) hp1 else hp1))"

definition STAILQ_REMOVE_AFTER :: "'h \<Rightarrow> 'a \<Rightarrow> ('h, 'a) qheap \<Rightarrow> ('h, 'a) qheap option" where
  "STAILQ_REMOVE_AFTER h elm hp =
     (case STAILQ_NEXT elm hp of None \<Rightarrow> None
      | Some n \<Rightarrow>
          let hp1 = set_nxt (Elem elm) (STAILQ_NEXT n hp) hp
          in Some (if STAILQ_NEXT elm hp1 = None then set_bck (Head h) (Elem elm) hp1 else hp1))"

text \<open>The search loop of \<open>STAILQ_REMOVE\<close>; see \<open>slist_find_prev\<close>.\<close>

partial_function (option) stailq_find_prev :: "('h, 'a) qheap \<Rightarrow> 'a \<Rightarrow> 'a option \<Rightarrow> 'a option" where
  "stailq_find_prev hp elm curelm =
     (case curelm of None \<Rightarrow> None
      | Some c \<Rightarrow> if STAILQ_NEXT c hp \<noteq> Some elm
                 then stailq_find_prev hp elm (STAILQ_NEXT c hp) else Some c)"

definition STAILQ_REMOVE :: "'h \<Rightarrow> 'a \<Rightarrow> ('h, 'a) qheap \<Rightarrow> ('h, 'a) qheap option" where
  "STAILQ_REMOVE h elm hp =
     (if STAILQ_FIRST h hp = Some elm then STAILQ_REMOVE_HEAD h hp
      else (case stailq_find_prev hp elm (nxt hp (Head h)) of None \<Rightarrow> None
        | Some c \<Rightarrow> STAILQ_REMOVE_AFTER h c hp))"

definition STAILQ_CONCAT :: "'h \<Rightarrow> 'h \<Rightarrow> ('h, 'a) qheap \<Rightarrow> ('h, 'a) qheap" where
  "STAILQ_CONCAT head1 head2 hp =
     (if \<not> STAILQ_EMPTY head2 hp then
        let hp1 = set_nxt (bck hp (Head head1)) (nxt hp (Head head2)) hp;
            hp2 = set_bck (Head head1) (bck hp1 (Head head2)) hp1
        in STAILQ_INIT head2 hp2
      else hp)"

text \<open>
  \<open>STAILQ_LAST\<close> subtracts the field's offset from \<open>stqh_last\<close>: the address of an
  element's first field becomes the address of the element.  On a queue that is not
  empty \<open>stqh_last\<close> addresses an element; the head's own address has no element
  behind it (\<open>None\<close>).
\<close>

definition STAILQ_LAST :: "'h \<Rightarrow> ('h, 'a) qheap \<Rightarrow> 'a option" where
  "STAILQ_LAST h hp =
     (if STAILQ_EMPTY h hp then None
      else (case bck hp (Head h) of Head _ \<Rightarrow> None | Elem e \<Rightarrow> Some e))"

definition STAILQ_FOREACH ::
  "'h \<Rightarrow> ('a \<Rightarrow> ('h, 'a) qheap \<times> 'u \<Rightarrow> ('h, 'a) qheap \<times> 'u) \<Rightarrow> ('h, 'a) qheap \<times> 'u \<Rightarrow>
   (('h, 'a) qheap \<times> 'u) option" where
  "STAILQ_FOREACH h body s = walk body (\<lambda>s x. STAILQ_NEXT x (fst s)) (STAILQ_FIRST h (fst s)) s"

definition STAILQ_FOREACH_SAFE ::
  "'h \<Rightarrow> ('a \<Rightarrow> ('h, 'a) qheap \<times> 'u \<Rightarrow> ('h, 'a) qheap \<times> 'u) \<Rightarrow> ('h, 'a) qheap \<times> 'u \<Rightarrow>
   (('h, 'a) qheap \<times> 'u) option" where
  "STAILQ_FOREACH_SAFE h body s =
     walk_safe body (\<lambda>s x. STAILQ_NEXT x (fst s)) (STAILQ_FIRST h (fst s)) s"

section \<open>Agreement with the other kinds\<close>

lemma stailq_is_simpleq:
  "STAILQ_FIRST = SIMPLEQ_FIRST" "STAILQ_NEXT = SIMPLEQ_NEXT" "STAILQ_EMPTY = SIMPLEQ_EMPTY"
  "STAILQ_INIT = SIMPLEQ_INIT" "STAILQ_INSERT_HEAD = SIMPLEQ_INSERT_HEAD"
  "STAILQ_INSERT_TAIL = SIMPLEQ_INSERT_TAIL" "STAILQ_INSERT_AFTER = SIMPLEQ_INSERT_AFTER"
  "STAILQ_REMOVE_HEAD = SIMPLEQ_REMOVE_HEAD" "STAILQ_REMOVE_AFTER = SIMPLEQ_REMOVE_AFTER"
  "STAILQ_CONCAT = SIMPLEQ_CONCAT" "STAILQ_FOREACH = SIMPLEQ_FOREACH"
  "STAILQ_FOREACH_SAFE = SIMPLEQ_FOREACH_SAFE"
  by (simp_all add: fun_eq_iff queue_simps STAILQ_FIRST_def STAILQ_NEXT_def STAILQ_EMPTY_def
      STAILQ_INIT_def STAILQ_INSERT_HEAD_def STAILQ_INSERT_TAIL_def STAILQ_INSERT_AFTER_def
      STAILQ_REMOVE_HEAD_def STAILQ_REMOVE_AFTER_def STAILQ_CONCAT_def STAILQ_FOREACH_def
      STAILQ_FOREACH_SAFE_def SIMPLEQ_FOREACH_def SIMPLEQ_FOREACH_SAFE_def split: option.split)

lemma stailq_find_prev_found:
  "linked (nxt hp) b (xs @ p # x # ys) None \<Longrightarrow> distinct (xs @ p # x # ys) \<Longrightarrow>
   stailq_find_prev hp x (nxt hp b) = Some p"
proof (induction xs arbitrary: b)
  case Nil
  then show ?case by (simp add: stailq_find_prev.simps STAILQ_NEXT_def)
next
  case (Cons a as)
  then have "nxt hp (Elem a) \<noteq> Some x"
    by (cases as) auto
  with Cons show ?case by (simp add: stailq_find_prev.simps [of hp x "Some a"] STAILQ_NEXT_def)
qed

lemma stailq_rep_remove:
  assumes "simpleq_rep hp h xs" and "x \<in> set xs"
  shows "\<exists>t. STAILQ_REMOVE h x hp = Some t \<and> simpleq_rep t h (remove1 x xs)"
proof (cases "nxt hp (Head h) = Some x")
  case True
  with assms obtain ys where "xs = x # ys" by (cases xs) (auto simp: queue_reps)
  with True assms simpleq_rep_remove_head [of hp h x ys] show ?thesis
    by (simp add: STAILQ_REMOVE_def stailq_is_simpleq SIMPLEQ_FIRST_def)
next
  case False
  obtain as ys where split: "xs = as @ x # ys" "x \<notin> set as"
    using assms(2) by (meson split_list_first)
  with False assms have "as \<noteq> []" by (auto simp: queue_reps)
  then obtain us p where as: "as = us @ [p]" by (metis rev_exhaust)
  have rep: "simpleq_rep hp h (us @ p # x # ys)" using assms split as by simp
  then have "stailq_find_prev hp x (nxt hp (Head h)) = Some p"
    by (intro stailq_find_prev_found) (auto simp: queue_reps)
  moreover have "remove1 x xs = us @ p # ys" using split as by (auto simp: remove1_append)
  ultimately show ?thesis
    using False simpleq_rep_remove_after [OF rep]
    by (simp add: STAILQ_REMOVE_def stailq_is_simpleq SIMPLEQ_FIRST_def)
qed

lemma stailq_rep_last:
  "simpleq_rep hp h xs \<Longrightarrow> STAILQ_LAST h hp = (if xs = [] then None else Some (last xs))"
  by (auto simp: STAILQ_LAST_def stailq_is_simpleq simpleq_rep_empty simpleq_rep_def last_blk_def)

interpretation stailq: shared_store simpleq_rep STAILQ_FIRST STAILQ_INSERT_HEAD
    STAILQ_REMOVE_HEAD "\<lambda>_ _ _. True" STAILQ_INSERT_TAIL
  unfolding stailq_is_simpleq by (rule simpleq.shared_store_axioms)

interpretation stailq_rm: removal_store simpleq_rep STAILQ_FIRST STAILQ_INSERT_HEAD
    STAILQ_REMOVE_HEAD "\<lambda>_ _ _. True" STAILQ_REMOVE
  by unfold_locales (auto intro: stailq_rep_remove dest: simpleq_rep_slist slist_repD)

end
