(* ===== verification/Queue_Edit.thy ===== *)
theory Queue_Edit
  imports Queue_Iface
begin

text \<open>
  Edits at any place of a doubly linked queue, as list functions, and the contract of
  the stores that implement them.  \<open>visit\<close> is the loop body that records what an
  iteration macro visits.
\<close>

section \<open>Observing an iteration\<close>

definition visit :: "'a \<Rightarrow> 's \<times> 'a list \<Rightarrow> 's \<times> 'a list" where
  "visit x s = (case s of (hp, out) \<Rightarrow> (hp, out @ [x]))"

lemma visit_simps [simp]: "visit x (hp, out) = (hp, out @ [x])" "fst (visit x s) = fst s"
  by (simp_all add: visit_def split_beta)

lemma fold_visit [simp]: "fold visit xs (hp, out) = (hp, out @ xs)"
  by (induction xs arbitrary: out) simp_all

section \<open>Edits\<close>

datatype 'a qedit =
    Put_Head 'a | Put_After 'a 'a | Put_Before 'a 'a | Swap_In 'a 'a | Take_Out 'a

fun list_after :: "'a \<Rightarrow> 'a \<Rightarrow> 'a list \<Rightarrow> 'a list" where
  "list_after p x [] = []"
| "list_after p x (y # ys) = (if y = p then y # x # ys else y # list_after p x ys)"

fun list_before :: "'a \<Rightarrow> 'a \<Rightarrow> 'a list \<Rightarrow> 'a list" where
  "list_before p x [] = []"
| "list_before p x (y # ys) = (if y = p then x # y # ys else y # list_before p x ys)"

fun list_swap :: "'a \<Rightarrow> 'a \<Rightarrow> 'a list \<Rightarrow> 'a list" where
  "list_swap p x [] = []"
| "list_swap p x (y # ys) = (if y = p then x # ys else y # list_swap p x ys)"

lemma list_edit_split:
  assumes "p \<notin> set as"
  shows "list_after p x (as @ p # ys) = as @ p # x # ys"
    and "list_before p x (as @ p # ys) = as @ x # p # ys"
    and "list_swap p x (as @ p # ys) = as @ x # ys"
  using assms by (induction as) auto

text \<open>
  An edit names a linked element as its place and an element that is not linked yet as
  the new one; otherwise the C code may not perform it.
\<close>

fun qedit_list :: "'a qedit \<Rightarrow> 'a list \<Rightarrow> 'a list option" where
  "qedit_list (Put_Head x) xs = (if x \<in> set xs then None else Some (x # xs))"
| "qedit_list (Put_After p x) xs =
     (if p \<in> set xs \<and> x \<notin> set xs then Some (list_after p x xs) else None)"
| "qedit_list (Put_Before p x) xs =
     (if p \<in> set xs \<and> x \<notin> set xs then Some (list_before p x xs) else None)"
| "qedit_list (Swap_In p x) xs =
     (if p \<in> set xs \<and> x \<notin> set xs then Some (list_swap p x xs) else None)"
| "qedit_list (Take_Out x) xs = (if x \<in> set xs then Some (remove1 x xs) else None)"

fun qedits_list :: "'a qedit list \<Rightarrow> 'a list \<Rightarrow> 'a list option" where
  "qedits_list [] xs = Some xs"
| "qedits_list (e # es) xs =
     (case qedit_list e xs of None \<Rightarrow> None | Some ys \<Rightarrow> qedits_list es ys)"

section \<open>Stores that implement the edits\<close>

locale edit_store =
  fixes rep :: "'s \<Rightarrow> 'h \<Rightarrow> 'a list \<Rightarrow> bool"
    and put_head :: "'h \<Rightarrow> 'a \<Rightarrow> 's \<Rightarrow> 's"
    and put_after :: "'h \<Rightarrow> 'a \<Rightarrow> 'a \<Rightarrow> 's \<Rightarrow> 's"
    and put_before :: "'a \<Rightarrow> 'a \<Rightarrow> 's \<Rightarrow> 's"
    and swap_in :: "'h \<Rightarrow> 'a \<Rightarrow> 'a \<Rightarrow> 's \<Rightarrow> 's"
    and take_out :: "'h \<Rightarrow> 'a \<Rightarrow> 's \<Rightarrow> 's"
    and run_edit :: "'h \<Rightarrow> 'a qedit \<Rightarrow> 's \<Rightarrow> 's"
  assumes rep_put_head: "rep s h xs \<Longrightarrow> x \<notin> set xs \<Longrightarrow> rep (put_head h x s) h (x # xs)"
    and rep_put_after: "rep s h (as @ p # ys) \<Longrightarrow> x \<notin> set (as @ p # ys) \<Longrightarrow>
      rep (put_after h p x s) h (as @ p # x # ys)"
    and rep_put_before: "rep s h (as @ p # ys) \<Longrightarrow> x \<notin> set (as @ p # ys) \<Longrightarrow>
      rep (put_before p x s) h (as @ x # p # ys)"
    and rep_swap_in: "rep s h (as @ p # ys) \<Longrightarrow> x \<notin> set (as @ p # ys) \<Longrightarrow>
      rep (swap_in h p x s) h (as @ x # ys)"
    and rep_take_out: "rep s h (as @ x # ys) \<Longrightarrow> rep (take_out h x s) h (as @ ys)"
    and run_edit_simps:
      "run_edit h (Put_Head x) s = put_head h x s"
      "run_edit h (Put_After p x) s = put_after h p x s"
      "run_edit h (Put_Before p x) s = put_before p x s"
      "run_edit h (Swap_In p x) s = swap_in h p x s"
      "run_edit h (Take_Out x) s = take_out h x s"
begin

lemma run_edit_rep:
  assumes rep: "rep s h xs" and "qedit_list e xs = Some ys"
  shows "rep (run_edit h e s) h ys"
proof -
  have split: "\<exists>as bs. xs = as @ p # bs \<and> p \<notin> set as" if "p \<in> set xs" for p
    using that by (meson split_list_first)
  show ?thesis
  proof (cases e)
    case (Put_Head x)
    with assms rep_put_head show ?thesis by (auto simp: run_edit_simps split: if_splits)
  next
    case (Put_After p x)
    with assms split [of p] rep_put_after show ?thesis
      by (auto simp: run_edit_simps list_edit_split split: if_splits)
  next
    case (Put_Before p x)
    with assms split [of p] rep_put_before show ?thesis
      by (auto simp: run_edit_simps list_edit_split split: if_splits)
  next
    case (Swap_In p x)
    with assms split [of p] rep_swap_in show ?thesis
      by (auto simp: run_edit_simps list_edit_split split: if_splits)
  next
    case (Take_Out x)
    with assms split [of x] rep_take_out show ?thesis
      by (auto simp: run_edit_simps split: if_splits)
  qed
qed

lemma run_edits_rep:
  "rep s h xs \<Longrightarrow> qedits_list es xs = Some ys \<Longrightarrow> rep (fold (run_edit h) es s) h ys"
proof (induction es arbitrary: s xs)
  case Nil
  then show ?case by simp
next
  case (Cons e es)
  then obtain zs where "qedit_list e xs = Some zs" "qedits_list es zs = Some ys"
    by (auto split: option.splits)
  with Cons.IH [OF run_edit_rep [OF Cons.prems(1)]] show ?case by simp
qed

end

end
