(* ===== verification/Bsd_List.thy ===== *)
theory Bsd_List
  imports Slist Queue_Edit
begin

text \<open>
  The \<open>LIST\<close> macros of \<^verbatim>\<open>include/queue.h\<close>: each element also holds the address of
  the first field that points to it, so an element can be removed, replaced or inserted
  before without knowing its list.
\<close>

section \<open>The macros\<close>

definition LIST_FIRST :: "'h \<Rightarrow> ('h, 'a) qheap \<Rightarrow> 'a option" where
  "LIST_FIRST h hp = nxt hp (Head h)"

definition LIST_NEXT :: "'a \<Rightarrow> ('h, 'a) qheap \<Rightarrow> 'a option" where
  "LIST_NEXT e hp = nxt hp (Elem e)"

definition LIST_EMPTY :: "'h \<Rightarrow> ('h, 'a) qheap \<Rightarrow> bool" where
  "LIST_EMPTY h hp \<longleftrightarrow> LIST_FIRST h hp = None"

definition LIST_INIT :: "'h \<Rightarrow> ('h, 'a) qheap \<Rightarrow> ('h, 'a) qheap" where
  "LIST_INIT h hp = set_nxt (Head h) None hp"

definition LIST_INSERT_AFTER :: "'a \<Rightarrow> 'a \<Rightarrow> ('h, 'a) qheap \<Rightarrow> ('h, 'a) qheap" where
  "LIST_INSERT_AFTER listelm elm hp =
     (let hp1 = set_nxt (Elem elm) (nxt hp (Elem listelm)) hp;
          hp2 = (case nxt hp1 (Elem listelm) of None \<Rightarrow> hp1
                 | Some n \<Rightarrow> set_bck (Elem n) (Elem elm) hp1);
          hp3 = set_nxt (Elem listelm) (Some elm) hp2
      in set_bck (Elem elm) (Elem listelm) hp3)"

definition LIST_INSERT_BEFORE :: "'a \<Rightarrow> 'a \<Rightarrow> ('h, 'a) qheap \<Rightarrow> ('h, 'a) qheap" where
  "LIST_INSERT_BEFORE listelm elm hp =
     (let hp1 = set_bck (Elem elm) (bck hp (Elem listelm)) hp;
          hp2 = set_nxt (Elem elm) (Some listelm) hp1;
          hp3 = set_nxt (bck hp2 (Elem listelm)) (Some elm) hp2
      in set_bck (Elem listelm) (Elem elm) hp3)"

definition LIST_INSERT_HEAD :: "'h \<Rightarrow> 'a \<Rightarrow> ('h, 'a) qheap \<Rightarrow> ('h, 'a) qheap" where
  "LIST_INSERT_HEAD h elm hp =
     (let hp1 = set_nxt (Elem elm) (nxt hp (Head h)) hp;
          hp2 = (case nxt hp1 (Head h) of None \<Rightarrow> hp1
                 | Some n \<Rightarrow> set_bck (Elem n) (Elem elm) hp1);
          hp3 = set_nxt (Head h) (Some elm) hp2
      in set_bck (Elem elm) (Head h) hp3)"

definition LIST_REMOVE :: "'a \<Rightarrow> ('h, 'a) qheap \<Rightarrow> ('h, 'a) qheap" where
  "LIST_REMOVE elm hp =
     (let hp1 = (case nxt hp (Elem elm) of None \<Rightarrow> hp
                 | Some n \<Rightarrow> set_bck (Elem n) (bck hp (Elem elm)) hp)
      in set_nxt (bck hp1 (Elem elm)) (nxt hp1 (Elem elm)) hp1)"

definition LIST_REPLACE :: "'a \<Rightarrow> 'a \<Rightarrow> ('h, 'a) qheap \<Rightarrow> ('h, 'a) qheap" where
  "LIST_REPLACE elm elm2 hp =
     (let hp1 = set_nxt (Elem elm2) (nxt hp (Elem elm)) hp;
          hp2 = (case nxt hp1 (Elem elm2) of None \<Rightarrow> hp1
                 | Some n \<Rightarrow> set_bck (Elem n) (Elem elm2) hp1);
          hp3 = set_bck (Elem elm2) (bck hp2 (Elem elm)) hp2
      in set_nxt (bck hp3 (Elem elm2)) (Some elm2) hp3)"

definition LIST_FOREACH ::
  "'h \<Rightarrow> ('a \<Rightarrow> ('h, 'a) qheap \<times> 'u \<Rightarrow> ('h, 'a) qheap \<times> 'u) \<Rightarrow> ('h, 'a) qheap \<times> 'u \<Rightarrow>
   (('h, 'a) qheap \<times> 'u) option" where
  "LIST_FOREACH h body s = walk body (\<lambda>s x. LIST_NEXT x (fst s)) (LIST_FIRST h (fst s)) s"

definition LIST_FOREACH_SAFE ::
  "'h \<Rightarrow> ('a \<Rightarrow> ('h, 'a) qheap \<times> 'u \<Rightarrow> ('h, 'a) qheap \<times> 'u) \<Rightarrow> ('h, 'a) qheap \<times> 'u \<Rightarrow>
   (('h, 'a) qheap \<times> 'u) option" where
  "LIST_FOREACH_SAFE h body s =
     walk_safe body (\<lambda>s x. LIST_NEXT x (fst s)) (LIST_FIRST h (fst s)) s"

lemmas list_defs = LIST_FIRST_def LIST_NEXT_def LIST_EMPTY_def LIST_INIT_def LIST_INSERT_AFTER_def
  LIST_INSERT_BEFORE_def LIST_INSERT_HEAD_def LIST_REMOVE_def LIST_REPLACE_def Let_def

section \<open>Representation\<close>

definition list_rep :: "('h, 'a) qheap \<Rightarrow> 'h \<Rightarrow> 'a list \<Rightarrow> bool" where
  "list_rep hp h xs \<longleftrightarrow> slist_rep hp h xs \<and> backed (bck hp) (Head h) xs"

lemmas list_reps = list_rep_def slist_rep_def

lemma list_rep_slist: "list_rep hp h xs \<Longrightarrow> slist_rep hp h xs"
  by (simp add: list_rep_def)

lemma list_rep_init: "list_rep (LIST_INIT h hp) h []"
  by (simp add: list_defs list_reps)

lemma list_rep_first: "list_rep hp h xs \<Longrightarrow> LIST_FIRST h hp = first_of xs"
  by (simp add: list_defs list_reps linked_first)

lemma list_rep_empty: "list_rep hp h xs \<Longrightarrow> LIST_EMPTY h hp = (xs = [])"
  by (cases xs) (auto simp: list_defs list_reps)

lemma list_rep_insert_head:
  "list_rep hp h xs \<Longrightarrow> x \<notin> set xs \<Longrightarrow> list_rep (LIST_INSERT_HEAD h x hp) h (x # xs)"
  by (cases xs) (auto simp: list_defs list_reps)

lemma list_rep_insert_after:
  assumes "list_rep hp h (xs @ p # ys)" and "x \<notin> set (xs @ p # ys)"
  shows "list_rep (LIST_INSERT_AFTER p x hp) h (xs @ p # x # ys)"
  using assms by (cases ys) (auto simp: list_defs list_reps)

lemma list_rep_insert_before:
  assumes "list_rep hp h (xs @ p # ys)" and "x \<notin> set (xs @ p # ys)"
  shows "list_rep (LIST_INSERT_BEFORE p x hp) h (xs @ x # p # ys)"
proof (cases xs rule: rev_cases)
  case Nil
  with assms show ?thesis by (auto simp: list_defs list_reps)
next
  case (snoc us u)
  with assms show ?thesis by (auto simp: list_defs list_reps)
qed

lemma list_rep_remove_split:
  assumes "list_rep hp h (xs @ x # ys)"
  shows "list_rep (LIST_REMOVE x hp) h (xs @ ys)"
proof (cases xs rule: rev_cases)
  case Nil
  with assms show ?thesis by (cases ys) (auto simp: list_defs list_reps)
next
  case (snoc us u)
  with assms show ?thesis by (cases ys) (auto simp: list_defs list_reps)
qed

lemma list_rep_replace:
  assumes "list_rep hp h (xs @ p # ys)" and "x \<notin> set (xs @ p # ys)"
  shows "list_rep (LIST_REPLACE p x hp) h (xs @ x # ys)"
proof (cases xs rule: rev_cases)
  case Nil
  with assms show ?thesis by (cases ys) (auto simp: list_defs list_reps)
next
  case (snoc us u)
  with assms show ?thesis by (cases ys) (auto simp: list_defs list_reps)
qed

text \<open>The head can be removed like any other element: \<open>LIST\<close> has no macro of its own for it.\<close>

definition list_remove_first :: "'h \<Rightarrow> ('h, 'a) qheap \<Rightarrow> ('h, 'a) qheap option" where
  "list_remove_first h hp = map_option (\<lambda>x. LIST_REMOVE x hp) (LIST_FIRST h hp)"

lemma list_rep_remove:
  assumes "list_rep hp h xs" and "x \<in> set xs"
  shows "list_rep (LIST_REMOVE x hp) h (remove1 x xs)"
proof -
  obtain as ys where "xs = as @ x # ys" "x \<notin> set as"
    using assms(2) by (meson split_list_first)
  with list_rep_remove_split [of hp h as x ys] assms(1) show ?thesis by simp
qed

interpretation blist: removal_store list_rep LIST_FIRST LIST_INSERT_HEAD list_remove_first
    "\<lambda>_ _ _. True" "\<lambda>_ x hp. Some (LIST_REMOVE x hp)"
  by unfold_locales
    (auto simp: list_rep_first list_rep_insert_head list_remove_first_def list_rep_remove
      dest: list_rep_slist slist_repD list_rep_remove_split [of _ _ "[]", simplified])

text \<open>The edits of \<open>qedit\<close>, each by the macro that performs it.\<close>

fun list_edit :: "'h \<Rightarrow> 'a qedit \<Rightarrow> ('h, 'a) qheap \<Rightarrow> ('h, 'a) qheap" where
  "list_edit h (Put_Head x) hp = LIST_INSERT_HEAD h x hp"
| "list_edit h (Put_After p x) hp = LIST_INSERT_AFTER p x hp"
| "list_edit h (Put_Before p x) hp = LIST_INSERT_BEFORE p x hp"
| "list_edit h (Swap_In p x) hp = LIST_REPLACE p x hp"
| "list_edit h (Take_Out x) hp = LIST_REMOVE x hp"

interpretation blist_ed: edit_store list_rep LIST_INSERT_HEAD "\<lambda>_. LIST_INSERT_AFTER"
    LIST_INSERT_BEFORE "\<lambda>_. LIST_REPLACE" "\<lambda>_. LIST_REMOVE" list_edit
  by unfold_locales
    (rule list_rep_insert_head list_rep_insert_after list_rep_insert_before list_rep_replace
      list_rep_remove_split list_edit.simps; assumption?)+

section \<open>Iteration\<close>

lemma list_foreach_fold:
  fixes s :: "('h, 'a) qheap \<times> 'u"
  assumes "list_rep (fst s) h xs"
    and "\<And>x y s. x \<in> set xs \<Longrightarrow> y \<in> set xs \<Longrightarrow> nxt (fst (body x s)) (Elem y) = nxt (fst s) (Elem y)"
  shows "LIST_FOREACH h body s = Some (fold body xs s)"
  using slist_foreach_fold [OF list_rep_slist [OF assms(1)], of body] assms(2)
  by (simp add: SLIST_FOREACH_def LIST_FOREACH_def slist_defs list_defs)

lemma list_foreach_safe_fold:
  fixes s :: "('h, 'a) qheap \<times> 'u"
  assumes "list_rep (fst s) h xs"
    and "\<And>x y s. x \<in> set xs \<Longrightarrow> y \<in> set xs \<Longrightarrow> y \<noteq> x \<Longrightarrow>
      nxt (fst (body x s)) (Elem y) = nxt (fst s) (Elem y)"
  shows "LIST_FOREACH_SAFE h body s = Some (fold body xs s)"
  using slist_foreach_safe_fold [OF list_rep_slist [OF assms(1)], of body] assms(2)
  by (simp add: SLIST_FOREACH_SAFE_def LIST_FOREACH_SAFE_def slist_defs list_defs)

end
