(* ===== verification/Tailq.thy ===== *)
theory Tailq
  imports Simpleq Bsd_List Queue_Edit
begin

text \<open>
  The \<open>TAILQ\<close> macros of \<^verbatim>\<open>include/queue.h\<close>: doubly linked elements and a head with
  the address of the last first field.  \<open>TAILQ_LAST\<close> and \<open>TAILQ_PREV\<close> read the second
  field behind such an address, whether it belongs to a head or to an element.
\<close>

section \<open>The macros\<close>

definition TAILQ_FIRST :: "'h \<Rightarrow> ('h, 'a) qheap \<Rightarrow> 'a option" where
  "TAILQ_FIRST h hp = nxt hp (Head h)"

definition TAILQ_NEXT :: "'a \<Rightarrow> ('h, 'a) qheap \<Rightarrow> 'a option" where
  "TAILQ_NEXT e hp = nxt hp (Elem e)"

definition TAILQ_EMPTY :: "'h \<Rightarrow> ('h, 'a) qheap \<Rightarrow> bool" where
  "TAILQ_EMPTY h hp \<longleftrightarrow> TAILQ_FIRST h hp = None"

definition TAILQ_LAST :: "'h \<Rightarrow> ('h, 'a) qheap \<Rightarrow> 'a option" where
  "TAILQ_LAST h hp = nxt hp (bck hp (bck hp (Head h)))"

definition TAILQ_PREV :: "'a \<Rightarrow> ('h, 'a) qheap \<Rightarrow> 'a option" where
  "TAILQ_PREV e hp = nxt hp (bck hp (bck hp (Elem e)))"

definition TAILQ_INIT :: "'h \<Rightarrow> ('h, 'a) qheap \<Rightarrow> ('h, 'a) qheap" where
  "TAILQ_INIT h hp = set_bck (Head h) (Head h) (set_nxt (Head h) None hp)"

definition TAILQ_INSERT_HEAD :: "'h \<Rightarrow> 'a \<Rightarrow> ('h, 'a) qheap \<Rightarrow> ('h, 'a) qheap" where
  "TAILQ_INSERT_HEAD h elm hp =
     (let hp1 = set_nxt (Elem elm) (nxt hp (Head h)) hp;
          hp2 = (case nxt hp1 (Head h) of
                   Some n \<Rightarrow> set_bck (Elem n) (Elem elm) hp1
                 | None \<Rightarrow> set_bck (Head h) (Elem elm) hp1);
          hp3 = set_nxt (Head h) (Some elm) hp2
      in set_bck (Elem elm) (Head h) hp3)"

definition TAILQ_INSERT_TAIL :: "'h \<Rightarrow> 'a \<Rightarrow> ('h, 'a) qheap \<Rightarrow> ('h, 'a) qheap" where
  "TAILQ_INSERT_TAIL h elm hp =
     (let hp1 = set_nxt (Elem elm) None hp;
          hp2 = set_bck (Elem elm) (bck hp1 (Head h)) hp1;
          hp3 = set_nxt (bck hp2 (Head h)) (Some elm) hp2
      in set_bck (Head h) (Elem elm) hp3)"

definition TAILQ_INSERT_AFTER :: "'h \<Rightarrow> 'a \<Rightarrow> 'a \<Rightarrow> ('h, 'a) qheap \<Rightarrow> ('h, 'a) qheap" where
  "TAILQ_INSERT_AFTER h listelm elm hp =
     (let hp1 = set_nxt (Elem elm) (nxt hp (Elem listelm)) hp;
          hp2 = (case nxt hp1 (Elem elm) of
                   Some n \<Rightarrow> set_bck (Elem n) (Elem elm) hp1
                 | None \<Rightarrow> set_bck (Head h) (Elem elm) hp1);
          hp3 = set_nxt (Elem listelm) (Some elm) hp2
      in set_bck (Elem elm) (Elem listelm) hp3)"

definition TAILQ_INSERT_BEFORE :: "'a \<Rightarrow> 'a \<Rightarrow> ('h, 'a) qheap \<Rightarrow> ('h, 'a) qheap" where
  "TAILQ_INSERT_BEFORE listelm elm hp =
     (let hp1 = set_bck (Elem elm) (bck hp (Elem listelm)) hp;
          hp2 = set_nxt (Elem elm) (Some listelm) hp1;
          hp3 = set_nxt (bck hp2 (Elem listelm)) (Some elm) hp2
      in set_bck (Elem listelm) (Elem elm) hp3)"

definition TAILQ_REMOVE :: "'h \<Rightarrow> 'a \<Rightarrow> ('h, 'a) qheap \<Rightarrow> ('h, 'a) qheap" where
  "TAILQ_REMOVE h elm hp =
     (let hp1 = (case nxt hp (Elem elm) of
                   Some n \<Rightarrow> set_bck (Elem n) (bck hp (Elem elm)) hp
                 | None \<Rightarrow> set_bck (Head h) (bck hp (Elem elm)) hp)
      in set_nxt (bck hp1 (Elem elm)) (nxt hp1 (Elem elm)) hp1)"

definition TAILQ_REPLACE :: "'h \<Rightarrow> 'a \<Rightarrow> 'a \<Rightarrow> ('h, 'a) qheap \<Rightarrow> ('h, 'a) qheap" where
  "TAILQ_REPLACE h elm elm2 hp =
     (let hp1 = set_nxt (Elem elm2) (nxt hp (Elem elm)) hp;
          hp2 = (case nxt hp1 (Elem elm2) of
                   Some n \<Rightarrow> set_bck (Elem n) (Elem elm2) hp1
                 | None \<Rightarrow> set_bck (Head h) (Elem elm2) hp1);
          hp3 = set_bck (Elem elm2) (bck hp2 (Elem elm)) hp2
      in set_nxt (bck hp3 (Elem elm2)) (Some elm2) hp3)"

text \<open>
  The second list is not empty in the branch that reads \<open>tqh_first\<close> of it, and nothing
  written before that read is the second head's first field.
\<close>

definition TAILQ_CONCAT :: "'h \<Rightarrow> 'h \<Rightarrow> ('h, 'a) qheap \<Rightarrow> ('h, 'a) qheap" where
  "TAILQ_CONCAT head1 head2 hp =
     (if \<not> TAILQ_EMPTY head2 hp then
        let hp1 = set_nxt (bck hp (Head head1)) (nxt hp (Head head2)) hp;
            hp2 = (case nxt hp1 (Head head2) of
                     Some n \<Rightarrow> set_bck (Elem n) (bck hp1 (Head head1)) hp1
                   | None \<Rightarrow> hp1);
            hp3 = set_bck (Head head1) (bck hp2 (Head head2)) hp2
        in TAILQ_INIT head2 hp3
      else hp)"

definition TAILQ_FOREACH ::
  "'h \<Rightarrow> ('a \<Rightarrow> ('h, 'a) qheap \<times> 'u \<Rightarrow> ('h, 'a) qheap \<times> 'u) \<Rightarrow> ('h, 'a) qheap \<times> 'u \<Rightarrow>
   (('h, 'a) qheap \<times> 'u) option" where
  "TAILQ_FOREACH h body s = walk body (\<lambda>s x. TAILQ_NEXT x (fst s)) (TAILQ_FIRST h (fst s)) s"

definition TAILQ_FOREACH_SAFE ::
  "'h \<Rightarrow> ('a \<Rightarrow> ('h, 'a) qheap \<times> 'u \<Rightarrow> ('h, 'a) qheap \<times> 'u) \<Rightarrow> ('h, 'a) qheap \<times> 'u \<Rightarrow>
   (('h, 'a) qheap \<times> 'u) option" where
  "TAILQ_FOREACH_SAFE h body s =
     walk_safe body (\<lambda>s x. TAILQ_NEXT x (fst s)) (TAILQ_FIRST h (fst s)) s"

definition TAILQ_FOREACH_REVERSE ::
  "'h \<Rightarrow> ('a \<Rightarrow> ('h, 'a) qheap \<times> 'u \<Rightarrow> ('h, 'a) qheap \<times> 'u) \<Rightarrow> ('h, 'a) qheap \<times> 'u \<Rightarrow>
   (('h, 'a) qheap \<times> 'u) option" where
  "TAILQ_FOREACH_REVERSE h body s =
     walk body (\<lambda>s x. TAILQ_PREV x (fst s)) (TAILQ_LAST h (fst s)) s"

definition TAILQ_FOREACH_REVERSE_SAFE ::
  "'h \<Rightarrow> ('a \<Rightarrow> ('h, 'a) qheap \<times> 'u \<Rightarrow> ('h, 'a) qheap \<times> 'u) \<Rightarrow> ('h, 'a) qheap \<times> 'u \<Rightarrow>
   (('h, 'a) qheap \<times> 'u) option" where
  "TAILQ_FOREACH_REVERSE_SAFE h body s =
     walk_safe body (\<lambda>s x. TAILQ_PREV x (fst s)) (TAILQ_LAST h (fst s)) s"

lemmas tailq_defs = TAILQ_FIRST_def TAILQ_NEXT_def TAILQ_EMPTY_def TAILQ_LAST_def TAILQ_PREV_def
  TAILQ_INIT_def TAILQ_INSERT_HEAD_def TAILQ_INSERT_TAIL_def TAILQ_INSERT_AFTER_def
  TAILQ_INSERT_BEFORE_def TAILQ_REMOVE_def TAILQ_REPLACE_def TAILQ_CONCAT_def Let_def

section \<open>Representation\<close>

definition tailq_rep :: "('h, 'a) qheap \<Rightarrow> 'h \<Rightarrow> 'a list \<Rightarrow> bool" where
  "tailq_rep hp h xs \<longleftrightarrow> simpleq_rep hp h xs \<and> backed (bck hp) (Head h) xs"

lemmas tailq_reps = tailq_rep_def simpleq_rep_def slist_rep_def

lemma tailq_rep_simpleq: "tailq_rep hp h xs \<Longrightarrow> simpleq_rep hp h xs"
  by (simp add: tailq_rep_def)

lemma tailq_rep_slist: "tailq_rep hp h xs \<Longrightarrow> slist_rep hp h xs"
  by (simp add: tailq_rep_def simpleq_rep_def)

lemma tailq_rep_list: "tailq_rep hp h xs \<Longrightarrow> list_rep hp h xs"
  by (simp add: tailq_rep_def simpleq_rep_def list_rep_def)

lemma tailq_rep_init: "tailq_rep (TAILQ_INIT h hp) h []"
  by (simp add: tailq_defs tailq_reps)

lemma tailq_rep_first: "tailq_rep hp h xs \<Longrightarrow> TAILQ_FIRST h hp = first_of xs"
  by (simp add: tailq_defs tailq_reps linked_first)

lemma tailq_rep_last:
  assumes "tailq_rep hp h xs"
  shows "TAILQ_LAST h hp = first_of (rev xs)"
proof (cases xs rule: rev_cases)
  case Nil
  with assms show ?thesis by (simp add: tailq_defs tailq_reps)
next
  case (snoc us u)
  with assms linked_last [of "nxt hp" "Head h" us "Some u"] show ?thesis
    by (simp add: tailq_defs tailq_reps)
qed

lemma tailq_rep_prev:
  assumes "tailq_rep hp h (xs @ x # ys)"
  shows "TAILQ_PREV x hp = first_of (rev xs)"
proof (cases xs rule: rev_cases)
  case Nil
  with assms show ?thesis by (cases ys rule: rev_cases) (auto simp: tailq_defs tailq_reps)
next
  case (snoc us u)
  with assms linked_last [of "nxt hp" "Head h" us "Some u"] show ?thesis
    by (simp add: tailq_defs tailq_reps)
qed

lemma tailq_rep_insert_head:
  "tailq_rep hp h xs \<Longrightarrow> x \<notin> set xs \<Longrightarrow> tailq_rep (TAILQ_INSERT_HEAD h x hp) h (x # xs)"
  by (cases xs) (auto simp: tailq_defs tailq_reps)

lemma tailq_rep_insert_tail:
  assumes "tailq_rep hp h xs" and "x \<notin> set xs"
  shows "tailq_rep (TAILQ_INSERT_TAIL h x hp) h (xs @ [x])"
proof (cases xs rule: rev_cases)
  case Nil
  with assms show ?thesis by (simp add: tailq_defs tailq_reps)
next
  case (snoc us u)
  with assms show ?thesis by (auto simp: tailq_defs tailq_reps)
qed

lemma tailq_rep_insert_after:
  assumes "tailq_rep hp h (xs @ p # ys)" and "x \<notin> set (xs @ p # ys)"
  shows "tailq_rep (TAILQ_INSERT_AFTER h p x hp) h (xs @ p # x # ys)"
  using assms by (cases ys) (auto simp: tailq_defs tailq_reps)

lemma tailq_rep_insert_before:
  assumes "tailq_rep hp h (xs @ p # ys)" and "x \<notin> set (xs @ p # ys)"
  shows "tailq_rep (TAILQ_INSERT_BEFORE p x hp) h (xs @ x # p # ys)"
proof (cases xs rule: rev_cases)
  case Nil
  with assms show ?thesis by (auto simp: tailq_defs tailq_reps last_blk_def)
next
  case (snoc us u)
  with assms show ?thesis by (auto simp: tailq_defs tailq_reps last_blk_def)
qed

lemma tailq_rep_remove_split:
  assumes "tailq_rep hp h (xs @ x # ys)"
  shows "tailq_rep (TAILQ_REMOVE h x hp) h (xs @ ys)"
proof (cases xs rule: rev_cases)
  case Nil
  with assms show ?thesis by (cases ys) (auto simp: tailq_defs tailq_reps)
next
  case (snoc us u)
  with assms show ?thesis by (cases ys) (auto simp: tailq_defs tailq_reps)
qed

lemma tailq_rep_remove:
  assumes "tailq_rep hp h xs" and "x \<in> set xs"
  shows "tailq_rep (TAILQ_REMOVE h x hp) h (remove1 x xs)"
proof -
  obtain as ys where "xs = as @ x # ys" "x \<notin> set as"
    using assms(2) by (meson split_list_first)
  with tailq_rep_remove_split [of hp h as x ys] assms(1) show ?thesis by simp
qed

lemma tailq_rep_replace:
  assumes "tailq_rep hp h (xs @ p # ys)" and "x \<notin> set (xs @ p # ys)"
  shows "tailq_rep (TAILQ_REPLACE h p x hp) h (xs @ x # ys)"
proof (cases xs rule: rev_cases)
  case Nil
  with assms show ?thesis by (cases ys) (auto simp: tailq_defs tailq_reps)
next
  case (snoc us u)
  with assms show ?thesis by (cases ys) (auto simp: tailq_defs tailq_reps)
qed

lemma tailq_rep_concat:
  assumes "tailq_rep hp h1 xs" "tailq_rep hp h2 ys" "h1 \<noteq> h2" "set xs \<inter> set ys = {}"
  shows "tailq_rep (TAILQ_CONCAT h1 h2 hp) h1 (xs @ ys) \<and> tailq_rep (TAILQ_CONCAT h1 h2 hp) h2 []"
proof (cases ys)
  case Nil
  with assms show ?thesis by (simp add: tailq_defs tailq_reps)
next
  case (Cons y zs)
  show ?thesis
  proof (cases xs rule: rev_cases)
    case Nil
    with Cons assms show ?thesis by (auto simp: tailq_defs tailq_reps)
  next
    case (snoc us u)
    with Cons assms show ?thesis by (auto simp: tailq_defs tailq_reps)
  qed
qed

lemma tailq_rep_frame:
  assumes "tailq_rep hp h' ys"
    and "nxt hp' (Head h') = nxt hp (Head h')" and "bck hp' (Head h') = bck hp (Head h')"
    and "\<And>y. y \<in> set ys \<Longrightarrow> nxt hp' (Elem y) = nxt hp (Elem y)"
    and "\<And>y. y \<in> set ys \<Longrightarrow> bck hp' (Elem y) = bck hp (Elem y)"
  shows "tailq_rep hp' h' ys"
  using assms simpleq_rep_frame [of hp h' ys hp'] backed_cong [of ys "bck hp'" "bck hp" "Head h'"]
  by (simp add: tailq_rep_def)

text \<open>\<open>TAILQ\<close> has no macro for removing the head: clients remove the first element.\<close>

definition tailq_remove_first :: "'h \<Rightarrow> ('h, 'a) qheap \<Rightarrow> ('h, 'a) qheap option" where
  "tailq_remove_first h hp = map_option (\<lambda>x. TAILQ_REMOVE h x hp) (TAILQ_FIRST h hp)"

lemma tailq_rep_remove_first:
  "tailq_rep hp h (x # xs) \<Longrightarrow> \<exists>t. tailq_remove_first h hp = Some t \<and> tailq_rep t h xs"
  using tailq_rep_remove_split [of hp h "[]" x xs] tailq_rep_first [of hp h "x # xs"]
  by (simp add: tailq_remove_first_def)

lemma tailq_frame_insert:
  assumes rep: "tailq_rep hp h xs" "tailq_rep hp h' ys" and "h \<noteq> h'"
    and "set (x # xs) \<inter> set ys = {}"
  shows "tailq_rep (TAILQ_INSERT_HEAD h x hp) h' ys"
    and "tailq_rep (TAILQ_INSERT_TAIL h x hp) h' ys"
proof -
  have "bck hp (Head h) = Head h \<or> bck hp (Head h) \<in> Elem ` set xs"
    using rep(1) last_blk_cases [of "Head h" xs] by (auto simp: tailq_reps)
  moreover have "nxt hp (Head h) = None \<or> nxt hp (Head h) \<in> Some ` set xs"
    using rep(1) by (cases xs) (auto simp: tailq_reps)
  ultimately show "tailq_rep (TAILQ_INSERT_HEAD h x hp) h' ys"
      "tailq_rep (TAILQ_INSERT_TAIL h x hp) h' ys"
    using assms(3,4) by (auto simp: tailq_defs intro!: tailq_rep_frame [OF rep(2)])
qed

lemma tailq_frame_remove:
  assumes rep: "tailq_rep hp h xs" "tailq_rep hp h' ys" and "h \<noteq> h'" "set xs \<inter> set ys = {}"
    and "tailq_remove_first h hp = Some t"
  shows "tailq_rep t h' ys"
proof (cases xs)
  case Nil
  with assms tailq_rep_first [OF rep(1)] show ?thesis by (simp add: tailq_remove_first_def)
next
  case (Cons x zs)
  with assms tailq_rep_first [OF rep(1)] have "t = TAILQ_REMOVE h x hp"
    by (simp add: tailq_remove_first_def)
  have "nxt hp (Elem x) = first_of zs" "bck hp (Elem x) = Head h"
    using rep(1) Cons linked_first [of "nxt hp" "Elem x" zs] by (auto simp: tailq_reps)
  then show ?thesis
    using Cons assms(3,4) \<open>t = TAILQ_REMOVE h x hp\<close>
    by (cases zs) (auto simp: tailq_defs intro!: tailq_rep_frame [OF rep(2)])
qed

interpretation tailq: shared_store tailq_rep TAILQ_FIRST TAILQ_INSERT_HEAD
    tailq_remove_first "\<lambda>_ _ _. True" TAILQ_INSERT_TAIL
  by unfold_locales
    (rule tailq_rep_first tailq_rep_insert_head tailq_rep_insert_tail tailq_rep_remove_first
      tailq_frame_insert tailq_frame_remove refl; assumption)+

interpretation tailq_rm: removal_store tailq_rep TAILQ_FIRST TAILQ_INSERT_HEAD
    tailq_remove_first "\<lambda>_ _ _. True" "\<lambda>h x hp. Some (TAILQ_REMOVE h x hp)"
  by unfold_locales (auto intro: tailq_rep_remove dest: tailq_rep_slist slist_repD)

text \<open>The edits of \<open>qedit\<close>, each by the macro that performs it.\<close>

fun tailq_edit :: "'h \<Rightarrow> 'a qedit \<Rightarrow> ('h, 'a) qheap \<Rightarrow> ('h, 'a) qheap" where
  "tailq_edit h (Put_Head x) hp = TAILQ_INSERT_HEAD h x hp"
| "tailq_edit h (Put_After p x) hp = TAILQ_INSERT_AFTER h p x hp"
| "tailq_edit h (Put_Before p x) hp = TAILQ_INSERT_BEFORE p x hp"
| "tailq_edit h (Swap_In p x) hp = TAILQ_REPLACE h p x hp"
| "tailq_edit h (Take_Out x) hp = TAILQ_REMOVE h x hp"

interpretation tailq_ed: edit_store tailq_rep TAILQ_INSERT_HEAD TAILQ_INSERT_AFTER
    TAILQ_INSERT_BEFORE TAILQ_REPLACE TAILQ_REMOVE tailq_edit
  by unfold_locales
    (rule tailq_rep_insert_head tailq_rep_insert_after tailq_rep_insert_before tailq_rep_replace
      tailq_rep_remove_split tailq_edit.simps; assumption?)+

section \<open>Iteration\<close>

lemma tailq_foreach_fold:
  fixes s :: "('h, 'a) qheap \<times> 'u"
  assumes "tailq_rep (fst s) h xs"
    and "\<And>x y s. x \<in> set xs \<Longrightarrow> y \<in> set xs \<Longrightarrow> nxt (fst (body x s)) (Elem y) = nxt (fst s) (Elem y)"
  shows "TAILQ_FOREACH h body s = Some (fold body xs s)"
  using slist_foreach_fold [OF tailq_rep_slist [OF assms(1)], of body] assms(2)
  by (simp add: SLIST_FOREACH_def TAILQ_FOREACH_def slist_defs tailq_defs)

lemma tailq_foreach_safe_fold:
  fixes s :: "('h, 'a) qheap \<times> 'u"
  assumes "tailq_rep (fst s) h xs"
    and "\<And>x y s. x \<in> set xs \<Longrightarrow> y \<in> set xs \<Longrightarrow> y \<noteq> x \<Longrightarrow>
      nxt (fst (body x s)) (Elem y) = nxt (fst s) (Elem y)"
  shows "TAILQ_FOREACH_SAFE h body s = Some (fold body xs s)"
  using slist_foreach_safe_fold [OF tailq_rep_slist [OF assms(1)], of body] assms(2)
  by (simp add: SLIST_FOREACH_SAFE_def TAILQ_FOREACH_SAFE_def slist_defs tailq_defs)

lemma tailq_foreach_reverse_fold:
  fixes s :: "('h, 'a) qheap \<times> 'u"
  assumes rep: "tailq_rep (fst s) h xs"
    and keep: "\<And>x s. x \<in> set xs \<Longrightarrow> fst (body x s) = fst s"
  shows "TAILQ_FOREACH_REVERSE h body s = Some (fold body (rev xs) s)"
proof -
  define I where "I = (\<lambda>(t :: ('h, 'a) qheap \<times> 'u) ys. fst t = fst s \<and> (\<exists>zs. xs = rev ys @ zs))"
  have step: "TAILQ_PREV x (fst (body x t)) = first_of ys \<and> I (body x t) ys"
    if "I t (x # ys)" for x ys t
  proof -
    from that obtain zs where xs: "xs = rev ys @ x # zs" by (auto simp: I_def)
    have "fst (body x t) = fst t" by (rule keep) (simp add: xs)
    with xs that rep tailq_rep_prev [of "fst s" h "rev ys" x zs] show ?thesis
      by (auto simp: I_def)
  qed
  have "I s (rev xs)" by (simp add: I_def)
  with walk_fold [of I "\<lambda>s x. TAILQ_PREV x (fst s)" body, OF step] tailq_rep_last [OF rep]
  show ?thesis by (simp add: TAILQ_FOREACH_REVERSE_def)
qed

text \<open>
  The \<open>SAFE\<close> form in reverse: the body may unlink or overwrite the visited element as
  long as what lies before it stays a queue of the same elements.
\<close>

definition tailq_front :: "('h, 'a) qheap \<Rightarrow> 'h \<Rightarrow> 'a list \<Rightarrow> bool" where
  "tailq_front hp h xs \<longleftrightarrow> (\<exists>zs. tailq_rep hp h (xs @ zs))"

lemma tailq_foreach_reverse_safe_fold:
  fixes s :: "('h, 'a) qheap \<times> 'u"
  assumes rep: "tailq_rep (fst s) h xs"
    and keep: "\<And>ys x t. tailq_front (fst t) h (ys @ [x]) \<Longrightarrow> tailq_front (fst (body x t)) h ys"
  shows "TAILQ_FOREACH_REVERSE_SAFE h body s = Some (fold body (rev xs) s)"
proof -
  define I where "I = (\<lambda>(t :: ('h, 'a) qheap \<times> 'u) ys. tailq_front (fst t) h (rev ys))"
  have step: "TAILQ_PREV x (fst t) = first_of ys \<and> I (body x t) ys" if I: "I t (x # ys)" for x ys t
  proof -
    from I obtain zs where "tailq_rep (fst t) h (rev ys @ x # zs)"
      by (auto simp: I_def tailq_front_def)
    with I tailq_rep_prev [of "fst t" h "rev ys" x zs] keep [of t "rev ys" x] show ?thesis
      by (auto simp: I_def)
  qed
  have "I s (rev xs)" using rep by (auto simp: I_def tailq_front_def intro: exI [of _ "[]"])
  with walk_safe_fold [of I "\<lambda>s x. TAILQ_PREV x (fst s)" body, OF step] tailq_rep_last [OF rep]
  show ?thesis by (simp add: TAILQ_FOREACH_REVERSE_SAFE_def)
qed

text \<open>The loop that empties a queue from its tail, removing each element it visits.\<close>

lemma tailq_drain_reverse:
  assumes "tailq_rep hp h xs"
  shows "\<exists>t. TAILQ_FOREACH_REVERSE_SAFE h (\<lambda>x (hp, out). (TAILQ_REMOVE h x hp, out @ [x])) (hp, [])
             = Some (t, rev xs) \<and> tailq_rep t h []"
proof -
  let ?body = "\<lambda>x (hp, out). (TAILQ_REMOVE h x hp, out @ [x])"
  have "TAILQ_FOREACH_REVERSE_SAFE h ?body (hp, []) = Some (fold ?body (rev xs) (hp, []))"
    using assms
    by (intro tailq_foreach_reverse_safe_fold)
      (auto simp: tailq_front_def split_beta dest: tailq_rep_remove_split)
  moreover have drain: "\<exists>t. fold ?body (rev xs) (hp, out) = (t, out @ rev xs) \<and> tailq_rep t h []"
    if "tailq_rep hp h xs" for hp out
    using that
  proof (induction xs arbitrary: hp out rule: rev_induct)
    case Nil
    then show ?case by simp
  next
    case (snoc x xs)
    from tailq_rep_remove_split [of hp h xs x "[]"] snoc.prems
    have "tailq_rep (TAILQ_REMOVE h x hp) h xs" by simp
    from snoc.IH [OF this, of "out @ [x]"] show ?case by simp
  qed
  ultimately show ?thesis using drain [OF assms, of "[]"] by auto
qed

end
