(* ===== verification/Xsimpleq.thy ===== *)
theory Xsimpleq
  imports Simpleq
begin

text \<open>
  The \<open>XSIMPLEQ\<close> macros of \<^verbatim>\<open>include/queue.h\<close>: a \<open>SIMPLEQ\<close> whose stored pointers
  are exclusive-ored with a random cookie kept in the head.  Pointers become numbers
  here, so the store is a memory of 8-byte cells addressed by 64-bit addresses.  A head
  at \<open>h\<close> has \<open>sqx_first\<close> at \<open>h\<close>, \<open>sqx_last\<close> at \<open>h + 8\<close>, \<open>sqx_cookie\<close> at \<open>h + 16\<close>;
  an element at \<open>e\<close> has its \<open>sqx_next\<close> at \<open>e + off\<close>, \<open>off\<close> the offset of the
  entry field in the element's struct.
\<close>

unbundle bit_operations_syntax

type_synonym xmem = "u64 \<Rightarrow> u64"

section \<open>Filling the cookie\<close>

text \<open>
  The system call \<open>getrandom\<close> is the environment's: each call either fails (\<open>None\<close>)
  or delivers some bytes, of which no more than were asked for count.  Running out of
  answers is a call that never returns.
\<close>

fun queue_getrandom :: "nat \<Rightarrow> u8 list \<Rightarrow> u8 list option list \<Rightarrow> u8 list option" where
  "queue_getrandom len got outs =
     (if length got < len then
        (case outs of
           [] \<Rightarrow> None
         | None # _ \<Rightarrow> Some (got @ replicate (len - length got) 0)
         | Some bs # outs' \<Rightarrow> queue_getrandom len (got @ take (len - length got) bs) outs')
      else Some got)"

declare queue_getrandom.simps [simp del]

text \<open>Little-endian reading of the cookie's bytes.\<close>

fun word_of_bytes :: "u8 list \<Rightarrow> u64" where
  "word_of_bytes [] = 0"
| "word_of_bytes (b # bs) = ucast b + 256 * word_of_bytes bs"

section \<open>The macros\<close>

definition XSIMPLEQ_XOR :: "u64 \<Rightarrow> u64 \<Rightarrow> xmem \<Rightarrow> u64" where
  "XSIMPLEQ_XOR h p m = m (h + 16) XOR p"

definition XSIMPLEQ_FIRST :: "u64 \<Rightarrow> xmem \<Rightarrow> u64" where
  "XSIMPLEQ_FIRST h m = XSIMPLEQ_XOR h (m h) m"

definition XSIMPLEQ_NEXT :: "u64 \<Rightarrow> u64 \<Rightarrow> u64 \<Rightarrow> xmem \<Rightarrow> u64" where
  "XSIMPLEQ_NEXT off h e m = XSIMPLEQ_XOR h (m (e + off)) m"

definition XSIMPLEQ_EMPTY :: "u64 \<Rightarrow> xmem \<Rightarrow> bool" where
  "XSIMPLEQ_EMPTY h m \<longleftrightarrow> XSIMPLEQ_FIRST h m = 0"

definition XSIMPLEQ_INIT :: "u64 \<Rightarrow> u8 list option list \<Rightarrow> xmem \<Rightarrow> xmem option" where
  "XSIMPLEQ_INIT h outs m =
     (case queue_getrandom 8 [] outs of None \<Rightarrow> None
      | Some bs \<Rightarrow>
          let m1 = m(h + 16 := word_of_bytes bs);
              m2 = m1(h := m1 (h + 16) XOR 0)
          in Some (m2(h + 8 := m2 (h + 16) XOR h)))"

definition XSIMPLEQ_INSERT_HEAD :: "u64 \<Rightarrow> u64 \<Rightarrow> u64 \<Rightarrow> xmem \<Rightarrow> xmem" where
  "XSIMPLEQ_INSERT_HEAD off h elm m =
     (let m1 = m(elm + off := m h);
          m2 = (if m1 (elm + off) = XSIMPLEQ_XOR h 0 m1
                then m1(h + 8 := XSIMPLEQ_XOR h (elm + off) m1) else m1)
      in m2(h := XSIMPLEQ_XOR h elm m2))"

definition XSIMPLEQ_INSERT_TAIL :: "u64 \<Rightarrow> u64 \<Rightarrow> u64 \<Rightarrow> xmem \<Rightarrow> xmem" where
  "XSIMPLEQ_INSERT_TAIL off h elm m =
     (let m1 = m(elm + off := XSIMPLEQ_XOR h 0 m);
          m2 = m1(XSIMPLEQ_XOR h (m1 (h + 8)) m1 := XSIMPLEQ_XOR h elm m1)
      in m2(h + 8 := XSIMPLEQ_XOR h (elm + off) m2))"

definition XSIMPLEQ_INSERT_AFTER :: "u64 \<Rightarrow> u64 \<Rightarrow> u64 \<Rightarrow> u64 \<Rightarrow> xmem \<Rightarrow> xmem" where
  "XSIMPLEQ_INSERT_AFTER off h listelm elm m =
     (let m1 = m(elm + off := m (listelm + off));
          m2 = (if m1 (elm + off) = XSIMPLEQ_XOR h 0 m1
                then m1(h + 8 := XSIMPLEQ_XOR h (elm + off) m1) else m1)
      in m2(listelm + off := XSIMPLEQ_XOR h elm m2))"

text \<open>
  The two removals cast the element's address to \<open>struct __xhead\<close>, whose
  \<open>sqx_next\<close> is its first member: they read the link at the element's own address, not
  at \<open>e + off\<close>.
\<close>

definition XSIMPLEQ_REMOVE_HEAD :: "u64 \<Rightarrow> xmem \<Rightarrow> xmem option" where
  "XSIMPLEQ_REMOVE_HEAD h m =
     (let tmp = XSIMPLEQ_FIRST h m in
      if tmp = 0 then None
      else
        let m1 = m(h := XSIMPLEQ_XOR h (m tmp) m)
        in Some (if m1 h = XSIMPLEQ_XOR h 0 m1 then m1(h + 8 := XSIMPLEQ_XOR h h m1) else m1))"

definition XSIMPLEQ_REMOVE_AFTER :: "u64 \<Rightarrow> u64 \<Rightarrow> u64 \<Rightarrow> xmem \<Rightarrow> xmem option" where
  "XSIMPLEQ_REMOVE_AFTER off h elm m =
     (let tmp = XSIMPLEQ_NEXT off h elm m in
      if tmp = 0 then None
      else
        let m1 = m(elm + off := XSIMPLEQ_XOR h (m tmp) m)
        in Some (if m1 (elm + off) = XSIMPLEQ_XOR h 0 m1
                 then m1(h + 8 := XSIMPLEQ_XOR h (elm + off) m1) else m1))"

definition XSIMPLEQ_FOREACH ::
  "u64 \<Rightarrow> u64 \<Rightarrow> (u64 \<Rightarrow> xmem \<times> 'u \<Rightarrow> xmem \<times> 'u) \<Rightarrow> xmem \<times> 'u \<Rightarrow> (xmem \<times> 'u) option" where
  "XSIMPLEQ_FOREACH off h body s =
     walk body (\<lambda>s x. let n = XSIMPLEQ_NEXT off h x (fst s) in if n = 0 then None else Some n)
       (let f = XSIMPLEQ_FIRST h (fst s) in if f = 0 then None else Some f) s"

definition XSIMPLEQ_FOREACH_SAFE ::
  "u64 \<Rightarrow> u64 \<Rightarrow> (u64 \<Rightarrow> xmem \<times> 'u \<Rightarrow> xmem \<times> 'u) \<Rightarrow> xmem \<times> 'u \<Rightarrow> (xmem \<times> 'u) option" where
  "XSIMPLEQ_FOREACH_SAFE off h body s =
     walk_safe body (\<lambda>s x. let n = XSIMPLEQ_NEXT off h x (fst s) in if n = 0 then None else Some n)
       (let f = XSIMPLEQ_FIRST h (fst s) in if f = 0 then None else Some f) s"

lemmas xsimpleq_defs = XSIMPLEQ_XOR_def XSIMPLEQ_FIRST_def XSIMPLEQ_NEXT_def XSIMPLEQ_EMPTY_def
  XSIMPLEQ_INIT_def XSIMPLEQ_INSERT_HEAD_def XSIMPLEQ_INSERT_TAIL_def XSIMPLEQ_INSERT_AFTER_def
  XSIMPLEQ_REMOVE_HEAD_def XSIMPLEQ_REMOVE_AFTER_def Let_def

section \<open>The cookie\<close>

lemma queue_getrandom_length:
  "queue_getrandom len got outs = Some bs \<Longrightarrow> length got \<le> len \<Longrightarrow> length bs = len"
proof (induction len got outs rule: queue_getrandom.induct)
  case (1 len got outs)
  show ?case
  proof (cases "length got < len")
    case False
    with 1 show ?thesis by (simp add: queue_getrandom.simps [of len got])
  next
    case True
    with 1 show ?thesis
      by (auto simp: queue_getrandom.simps [of len got] split: list.splits option.splits)
  qed
qed

text \<open>A failing system call fills the rest with zeros, so a cookie always results.\<close>

lemma queue_getrandom_fails: "queue_getrandom 8 [] (None # outs) = Some (replicate 8 0)"
  by (simp add: queue_getrandom.simps [of 8 "[]"])

section \<open>Decoding\<close>

text \<open>
  Undoing the exclusive-or turns the memory into the pointer heap of \<open>SIMPLEQ\<close> with a
  single head; an element is named by its address.
\<close>

definition ptr_of :: "u64 \<Rightarrow> u64 option" where
  "ptr_of v = (if v = 0 then None else Some v)"

definition blk_addr :: "u64 \<Rightarrow> u64 \<Rightarrow> (unit, u64) blk \<Rightarrow> u64" where
  "blk_addr off h b = (case b of Head _ \<Rightarrow> h | Elem e \<Rightarrow> e + off)"

definition addr_blk :: "u64 \<Rightarrow> u64 \<Rightarrow> u64 \<Rightarrow> (unit, u64) blk" where
  "addr_blk off h a = (if a = h then Head () else Elem (a - off))"

definition xview :: "u64 \<Rightarrow> u64 \<Rightarrow> xmem \<Rightarrow> (unit, u64) qheap" where
  "xview off h m =
     \<lparr>nxt = \<lambda>b. ptr_of (m (h + 16) XOR m (blk_addr off h b)),
      bck = \<lambda>_. addr_blk off h (m (h + 16) XOR m (h + 8))\<rparr>"

text \<open>An element is usable when its address is not \<open>NULL\<close> and its link is not a head field.\<close>

definition xusable :: "u64 \<Rightarrow> u64 \<Rightarrow> u64 \<Rightarrow> bool" where
  "xusable off h e \<longleftrightarrow> e \<noteq> 0 \<and> e + off \<noteq> h \<and> e + off \<noteq> h + 8 \<and> e + off \<noteq> h + 16"

definition xsimpleq_rep :: "u64 \<Rightarrow> xmem \<Rightarrow> u64 \<Rightarrow> u64 list \<Rightarrow> bool" where
  "xsimpleq_rep off m h xs \<longleftrightarrow>
     (\<forall>e \<in> set xs. xusable off h e) \<and> simpleq_rep (xview off h m) () xs"

lemma ptr_of_simps [simp]: "ptr_of 0 = None" "ptr_of v = None \<longleftrightarrow> v = 0"
  "e \<noteq> 0 \<Longrightarrow> ptr_of e = Some e" "ptr_of v = Some e \<longleftrightarrow> v = e \<and> e \<noteq> 0"
  by (auto simp: ptr_of_def)

lemma blk_addr_simps [simp]: "blk_addr off h (Head u) = h" "blk_addr off h (Elem e) = e + off"
  by (simp_all add: blk_addr_def)

lemma addr_blk_head [simp]: "addr_blk off h h = Head ()"
  by (simp add: addr_blk_def)

lemma addr_blk_elem: "e + off \<noteq> h \<Longrightarrow> addr_blk off h (e + off) = Elem e"
  by (simp add: addr_blk_def)

lemma addr_blk_eq: "addr_blk off h a = b \<Longrightarrow> a = blk_addr off h b"
  by (auto simp: addr_blk_def split: if_splits)

lemma xview_simps [simp]:
  "nxt (xview off h m) b = ptr_of (m (h + 16) XOR m (blk_addr off h b))"
  "bck (xview off h m) b = addr_blk off h (m (h + 16) XOR m (h + 8))"
  by (simp_all add: xview_def)

lemma xusable_simps [simp]:
  assumes "xusable off h e"
  shows "e \<noteq> 0" "e + off \<noteq> h" "h \<noteq> e + off" "e + off \<noteq> h + 8" "e + off \<noteq> h + 16"
    "h + 8 \<noteq> e + off" "h + 16 \<noteq> e + off" "addr_blk off h (e + off) = Elem e"
  using assms by (auto simp: xusable_def addr_blk_elem)

lemma xusable0_simps [simp]:
  assumes "xusable 0 h e"
  shows "e \<noteq> h" "h \<noteq> e" "e \<noteq> h + 8" "e \<noteq> h + 16" "h + 8 \<noteq> e" "h + 16 \<noteq> e"
    "addr_blk 0 h e = Elem e"
  using xusable_simps [OF assms] by simp_all

lemma head_cells [simp]: "(h :: u64) + 8 \<noteq> h" "h + 16 \<noteq> h" "h + 8 \<noteq> h + 16" "h + 16 \<noteq> h + 8"
  "h \<noteq> h + 8" "h \<noteq> h + 16"
  by (simp_all add: add_eq_self_zero)

section \<open>The operations refine \<open>SIMPLEQ\<close>\<close>

text \<open>
  On the blocks of usable elements and the head, each macro's effect decodes to the
  effect of the \<open>SIMPLEQ\<close> macro of the same name.
\<close>

lemma xsimpleq_rep_by_sim:
  assumes "simpleq_rep hp () ys" and "\<forall>e \<in> set ys. xusable off h e"
    and "nxt (xview off h m) (Head ()) = nxt hp (Head ())"
    and "bck (xview off h m) (Head ()) = bck hp (Head ())"
    and "\<And>e. xusable off h e \<Longrightarrow> nxt (xview off h m) (Elem e) = nxt hp (Elem e)"
  shows "xsimpleq_rep off m h ys"
  using assms simpleq_rep_frame [of hp "()" ys "xview off h m"] by (simp add: xsimpleq_rep_def)

lemma xsimpleq_rep_init: "XSIMPLEQ_INIT h outs m = Some m' \<Longrightarrow> xsimpleq_rep off m' h []"
  by (auto simp: xsimpleq_rep_def queue_reps xsimpleq_defs split: option.splits)

lemma xsimpleq_rep_first:
  "xsimpleq_rep off m h xs \<Longrightarrow> ptr_of (XSIMPLEQ_FIRST h m) = first_of xs"
  using simpleq_rep_first [of "xview off h m" "()" xs]
  by (simp add: xsimpleq_rep_def xsimpleq_defs SIMPLEQ_FIRST_def)

lemma xsimpleq_rep_empty: "xsimpleq_rep off m h xs \<Longrightarrow> XSIMPLEQ_EMPTY h m = (xs = [])"
  using xsimpleq_rep_first [of off m h xs] by (cases xs) (auto simp: XSIMPLEQ_EMPTY_def)

lemma xsimpleq_rep_insert_head:
  assumes rep: "xsimpleq_rep off m h xs" and "x \<notin> set xs" and "xusable off h x"
  shows "xsimpleq_rep off (XSIMPLEQ_INSERT_HEAD off h x m) h (x # xs)"
proof (rule xsimpleq_rep_by_sim)
  show "simpleq_rep (SIMPLEQ_INSERT_HEAD () x (xview off h m)) () (x # xs)"
    using assms by (auto simp: xsimpleq_rep_def intro: simpleq_rep_insert_head)
qed (use assms in \<open>auto simp: xsimpleq_rep_def xsimpleq_defs SIMPLEQ_INSERT_HEAD_def\<close>)

lemma xsimpleq_rep_insert_tail:
  assumes rep: "xsimpleq_rep off m h xs" and "x \<notin> set xs" and "xusable off h x"
  shows "xsimpleq_rep off (XSIMPLEQ_INSERT_TAIL off h x m) h (xs @ [x])"
proof -
  define last where "last = m (h + 16) XOR m (h + 8)"
  have last: "last = blk_addr off h (last_blk (Head ()) xs)"
    using rep by (auto simp: xsimpleq_rep_def simpleq_rep_def last_def dest!: addr_blk_eq)
  have blk: "bck (xview off h m) (Head ()) = last_blk (Head ()) xs"
    using rep by (auto simp: xsimpleq_rep_def simpleq_rep_def)
  have other: "last = h \<or> (\<exists>e \<in> set xs. last = e + off)"
    using last last_blk_cases [of "Head ()" xs] by auto
  have usable: "xusable off h e" if "e \<in> set xs" for e
    using rep that by (simp add: xsimpleq_rep_def)
  have cells: "last \<noteq> h + 8" "last \<noteq> h + 16" "last \<noteq> x + off"
    using other usable assms(2,3) by (metis head_cells(5) xusable_simps(4), metis head_cells(6) xusable_simps(5),
        metis xusable_simps(2) add_right_cancel)
  have mem: "XSIMPLEQ_INSERT_TAIL off h x m =
      m(x + off := m (h + 16), last := m (h + 16) XOR x, h + 8 := m (h + 16) XOR (x + off))"
    using assms cells by (simp add: xsimpleq_defs last_def)
  show ?thesis
  proof (rule xsimpleq_rep_by_sim)
    show "simpleq_rep (SIMPLEQ_INSERT_TAIL () x (xview off h m)) () (xs @ [x])"
      using assms by (auto simp: xsimpleq_rep_def intro: simpleq_rep_insert_tail)
    show "nxt (xview off h (XSIMPLEQ_INSERT_TAIL off h x m)) (Head ()) =
        nxt (SIMPLEQ_INSERT_TAIL () x (xview off h m)) (Head ())"
      using assms cells last other blk
      by (auto simp: mem SIMPLEQ_INSERT_TAIL_def Let_def last_blk_def xsimpleq_rep_def split: if_splits)
    fix e assume e: "xusable off h e"
    show "nxt (xview off h (XSIMPLEQ_INSERT_TAIL off h x m)) (Elem e) =
        nxt (SIMPLEQ_INSERT_TAIL () x (xview off h m)) (Elem e)"
      using e assms cells last blk
      by (auto simp: mem SIMPLEQ_INSERT_TAIL_def Let_def last_blk_def xsimpleq_rep_def split: if_splits)
  qed (use assms cells in \<open>auto simp: xsimpleq_rep_def mem SIMPLEQ_INSERT_TAIL_def Let_def\<close>)
qed

lemma xsimpleq_rep_insert_after:
  assumes rep: "xsimpleq_rep off m h (xs @ p # ys)" and "x \<notin> set (xs @ p # ys)" and "xusable off h x"
  shows "xsimpleq_rep off (XSIMPLEQ_INSERT_AFTER off h p x m) h (xs @ p # x # ys)"
proof (rule xsimpleq_rep_by_sim)
  show "simpleq_rep (SIMPLEQ_INSERT_AFTER () p x (xview off h m)) () (xs @ p # x # ys)"
    using assms by (auto simp: xsimpleq_rep_def intro: simpleq_rep_insert_after)
qed (use assms in \<open>auto simp: xsimpleq_rep_def xsimpleq_defs SIMPLEQ_INSERT_AFTER_def\<close>)

section \<open>The removals\<close>

text \<open>
  An element's stored link is already exclusive-ored with the cookie.  The removals
  apply the cookie once more before they store it again, so what they store is the plain
  pointer; every later reading decodes it to the pointer exclusive-or the cookie.
\<close>

lemma xsimpleq_remove_head_mem:
  assumes "XSIMPLEQ_FIRST h m = x" and "x \<noteq> 0" and "x \<noteq> h"
  shows "XSIMPLEQ_REMOVE_HEAD h m =
    Some (if m x = 0 then m(h := m (h + 16), h + 8 := m (h + 16) XOR h) else m(h := m (h + 16) XOR m x))"
  using assms by (auto simp: XSIMPLEQ_REMOVE_HEAD_def Let_def XSIMPLEQ_XOR_def)

lemma xsimpleq_remove_head_first:
  assumes rep: "xsimpleq_rep 0 m h (x # xs)"
  shows "\<exists>t. XSIMPLEQ_REMOVE_HEAD h m = Some t \<and>
    XSIMPLEQ_FIRST h t = m (h + 16) XOR (case xs of [] \<Rightarrow> 0 | y # _ \<Rightarrow> y)"
proof -
  have first: "XSIMPLEQ_FIRST h m = x" "x \<noteq> 0" "x \<noteq> h"
    using xsimpleq_rep_first [OF rep] rep by (auto simp: xsimpleq_rep_def)
  have "nxt (xview 0 h m) (Elem x) = first_of xs"
    using rep linked_first [of "nxt (xview 0 h m)" "Elem x" xs]
    by (auto simp: xsimpleq_rep_def queue_reps simp del: xview_simps)
  then have "m (h + 16) XOR m x = (case xs of [] \<Rightarrow> 0 | y # _ \<Rightarrow> y)"
    by (auto split: list.splits)
  with xsimpleq_remove_head_mem [OF first] show ?thesis
    by (auto simp: XSIMPLEQ_FIRST_def XSIMPLEQ_XOR_def)
qed

text \<open>With a cookie of zero, as a failing \<open>getrandom\<close> leaves it, the removal is right.\<close>

definition xsimpleq_rep0 :: "xmem \<Rightarrow> u64 \<Rightarrow> u64 list \<Rightarrow> bool" where
  "xsimpleq_rep0 m h xs \<longleftrightarrow> xsimpleq_rep 0 m h xs \<and> m (h + 16) = 0"

lemma xsimpleq_rep0_remove_head:
  assumes "xsimpleq_rep0 m h (x # xs)"
  shows "\<exists>t. XSIMPLEQ_REMOVE_HEAD h m = Some t \<and> xsimpleq_rep0 t h xs"
proof -
  have rep: "xsimpleq_rep 0 m h (x # xs)" and cookie: "m (h + 16) = 0"
    using assms by (simp_all add: xsimpleq_rep0_def)
  have first: "XSIMPLEQ_FIRST h m = x" "x \<noteq> 0" "x \<noteq> h"
    using xsimpleq_rep_first [OF rep] rep by (auto simp: xsimpleq_rep_def)
  obtain hp where hp: "SIMPLEQ_REMOVE_HEAD () (xview 0 h m) = Some hp" "simpleq_rep hp () xs"
    using rep simpleq_rep_remove_head [of "xview 0 h m" "()" x xs] by (auto simp: xsimpleq_rep_def)
  have "m h = x" using first cookie by (simp add: XSIMPLEQ_FIRST_def XSIMPLEQ_XOR_def)
  let ?t = "if m x = 0 then m(h := 0, h + 8 := h) else m(h := m x)"
  have t: "XSIMPLEQ_REMOVE_HEAD h m = Some ?t"
    using xsimpleq_remove_head_mem [OF first] cookie by simp
  have "xsimpleq_rep 0 ?t h xs"
    by (rule xsimpleq_rep_by_sim [OF hp(2)])
      (use rep first hp(1) cookie \<open>m h = x\<close> in \<open>auto simp: xsimpleq_rep_def SIMPLEQ_REMOVE_HEAD_def
        Let_def split: if_splits\<close>)
  with t cookie show ?thesis by (auto simp: xsimpleq_rep0_def)
qed

lemma xsimpleq_rep0_insert:
  assumes "xsimpleq_rep0 m h xs" and "x \<notin> set xs" and "xusable 0 h x"
  shows "xsimpleq_rep0 (XSIMPLEQ_INSERT_HEAD 0 h x m) h (x # xs)"
    and "xsimpleq_rep0 (XSIMPLEQ_INSERT_TAIL 0 h x m) h (xs @ [x])"
proof -
  have rep: "xsimpleq_rep 0 m h xs" using assms(1) by (simp add: xsimpleq_rep0_def)
  have "bck (xview 0 h m) (Head ()) = last_blk (Head ()) xs"
    using rep by (auto simp: xsimpleq_rep_def simpleq_rep_def)
  then have "m (h + 16) XOR m (h + 8) = blk_addr 0 h (last_blk (Head ()) xs)"
    by (auto dest: addr_blk_eq)
  with rep have "m (h + 16) XOR m (h + 8) \<noteq> h + 16"
    using last_blk_cases [of "Head ()" xs] by (auto simp: xsimpleq_rep_def)
  with assms xsimpleq_rep_insert_head [OF rep assms(2,3)] xsimpleq_rep_insert_tail [OF rep assms(2,3)]
  show "xsimpleq_rep0 (XSIMPLEQ_INSERT_HEAD 0 h x m) h (x # xs)"
    "xsimpleq_rep0 (XSIMPLEQ_INSERT_TAIL 0 h x m) h (xs @ [x])"
    by (auto simp: xsimpleq_rep0_def xsimpleq_defs)
qed

interpretation xsimpleq: fifo_store xsimpleq_rep0 "\<lambda>h m. ptr_of (XSIMPLEQ_FIRST h m)"
    "XSIMPLEQ_INSERT_HEAD 0" XSIMPLEQ_REMOVE_HEAD "\<lambda>_. xusable 0" "XSIMPLEQ_INSERT_TAIL 0"
  by unfold_locales
    (rule xsimpleq_rep0_insert xsimpleq_rep0_remove_head refl
      | (simp add: xsimpleq_rep0_def, rule xsimpleq_rep_first, erule conjunct1) | assumption)+

section \<open>Iteration\<close>

lemma xsimpleq_foreach_fold:
  fixes s :: "xmem \<times> 'u"
  assumes rep: "xsimpleq_rep off (fst s) h xs"
    and keep: "\<And>x s. x \<in> set xs \<Longrightarrow> fst (body x s) = fst s"
  shows "XSIMPLEQ_FOREACH off h body s = Some (fold body xs s)"
proof -
  let ?m = "fst s"
  define I where "I = (\<lambda>(t :: xmem \<times> 'u) ys. fst t = ?m \<and> set ys \<subseteq> set xs \<and>
    (\<exists>b. linked (nxt (xview off h ?m)) b ys None))"
  have step: "ptr_of (XSIMPLEQ_NEXT off h x (fst (body x t))) = first_of ys \<and> I (body x t) ys"
    if I: "I t (x # ys)" for x ys t
  proof -
    have "linked (nxt (xview off h ?m)) (Elem x) ys None" using I by (auto simp: I_def)
    from linked_first [OF this] this I keep show ?thesis
      by (auto simp: I_def XSIMPLEQ_NEXT_def XSIMPLEQ_XOR_def)
  qed
  have "I s xs" using rep by (auto simp: I_def xsimpleq_rep_def queue_reps simp del: xview_simps)
  with walk_fold [of I "\<lambda>s x. ptr_of (XSIMPLEQ_NEXT off h x (fst s))" body, OF step]
    xsimpleq_rep_first [OF rep]
  show ?thesis by (simp add: XSIMPLEQ_FOREACH_def Let_def ptr_of_def)
qed

end
