(* ===== verification/Queue_Props.thy ===== *)
theory Queue_Props
  imports Stailq Tailq Xsimpleq
begin

text \<open>
  The properties of the queue macros, each over what a client of \<^verbatim>\<open>include/queue.h\<close>
  can observe: the elements the iteration macros visit after a sequence of operations.
\<close>

section \<open>Doubly linked queues\<close>

text \<open>
  C12: start from \<open>TAILQ_INIT\<close> and edit the queue anywhere, in any order (insert at the
  head, after and before an element, replace, remove).  Afterwards \<open>TAILQ_FOREACH\<close>
  visits exactly the elements the edits leave on a list, \<open>TAILQ_FOREACH_REVERSE\<close>
  visits them in reverse, both end, and \<open>TAILQ_LAST\<close> is the last of them.
\<close>

theorem tailq_edits_observed:
  assumes "qedits_list es [] = Some xs"
  shows "let t = fold (tailq_edit h) es (TAILQ_INIT h hp) in
    TAILQ_FOREACH h visit (t, []) = Some (t, xs)
    \<and> TAILQ_FOREACH_REVERSE h visit (t, []) = Some (t, rev xs)
    \<and> TAILQ_LAST h t = first_of (rev xs)"
proof -
  have rep: "tailq_rep (fold (tailq_edit h) es (TAILQ_INIT h hp)) h xs"
    by (rule tailq_ed.run_edits_rep [OF tailq_rep_init assms])
  with tailq_foreach_fold [of "(fold (tailq_edit h) es (TAILQ_INIT h hp), [])" h xs visit]
    tailq_foreach_reverse_fold [of "(fold (tailq_edit h) es (TAILQ_INIT h hp), [])" h xs visit]
  show ?thesis by (simp add: Let_def tailq_rep_last)
qed

definition blank_heap :: "(nat, nat) qheap" where
  "blank_heap = \<lparr>nxt = \<lambda>_. None, bck = \<lambda>_. Head 0\<rparr>"

lemma tailq_edits_observed_witness:
  "TAILQ_LAST 0 (fold (tailq_edit 0) [Put_Head 1, Put_After 1 2, Put_Before 2 3, Swap_In 2 4, Take_Out 1]
    (TAILQ_INIT 0 blank_heap)) = Some 4"
  using tailq_edits_observed
    [of "[Put_Head 1, Put_After 1 2, Put_Before 2 3, Swap_In 2 4, Take_Out 1]" "[3, 4]" 0 blank_heap]
  by (simp add: Let_def)

text \<open>
  C33: two queues in one memory.  Whatever a client does to the ends of one queue leaves
  the other as it was, and a final \<open>TAILQ_CONCAT\<close> leaves the first queue with both
  sequences, in both directions, and the second one empty.
\<close>

theorem tailq_concat_after_client:
  assumes "tailq_rep hp h1 xs" "tailq_rep hp h2 ys" "h1 \<noteq> h2" "set xs \<inter> set ys = {}"
    and "qops_list ops xs = Some zs" "\<forall>op \<in> set ops. set_qop op \<inter> set ys = {}"
  shows "\<exists>t. qops_store TAILQ_INSERT_HEAD TAILQ_INSERT_TAIL tailq_remove_first h1 ops hp = Some t
    \<and> TAILQ_FOREACH h2 visit (t, []) = Some (t, ys)
    \<and> (let u = TAILQ_CONCAT h1 h2 t in
         TAILQ_FOREACH h1 visit (u, []) = Some (u, zs @ ys)
         \<and> TAILQ_FOREACH_REVERSE h1 visit (u, []) = Some (u, rev ys @ rev zs)
         \<and> TAILQ_EMPTY h2 u)"
proof -
  obtain t where t: "qops_store TAILQ_INSERT_HEAD TAILQ_INSERT_TAIL tailq_remove_first h1 ops hp = Some t"
      "tailq_rep t h1 zs" "tailq_rep t h2 ys"
    using tailq.qops_frame [OF assms(1-4) _ assms(5)] assms(6) by auto
  have "set zs \<inter> set ys = {}"
    using qops_list_set [OF assms(5)] assms(4,6) by blast
  from tailq_rep_concat [OF t(2,3) assms(3) this]
  have u: "tailq_rep (TAILQ_CONCAT h1 h2 t) h1 (zs @ ys)" "tailq_rep (TAILQ_CONCAT h1 h2 t) h2 []"
    by auto
  from t u tailq_rep_first [OF u(2)]
    tailq_foreach_fold [of "(t, [])" h2 ys visit]
    tailq_foreach_fold [of "(TAILQ_CONCAT h1 h2 t, [])" h1 "zs @ ys" visit]
    tailq_foreach_reverse_fold [of "(TAILQ_CONCAT h1 h2 t, [])" h1 "zs @ ys" visit]
  show ?thesis by (simp add: Let_def TAILQ_EMPTY_def)
qed

lemma tailq_concat_after_client_witness:
  "\<exists>t. qops_store TAILQ_INSERT_HEAD TAILQ_INSERT_TAIL tailq_remove_first 0
      [Push_Tail 5, Push_Head 6, Pop_Head] (TAILQ_INIT 1 (TAILQ_INIT 0 blank_heap)) = Some t
    \<and> TAILQ_EMPTY 1 (TAILQ_CONCAT 0 1 t)"
  using tailq_concat_after_client [of "TAILQ_INIT 1 (TAILQ_INIT 0 blank_heap)" 0 "[]" 1 "[]"
      "[Push_Tail 5, Push_Head 6, Pop_Head]" "[5]"]
  by (simp add: Let_def tailq_defs tailq_reps) blast

text \<open>
  \<open>TAILQ_FOREACH_REVERSE_SAFE\<close> with a body that removes the element it visits ends,
  visits every element once, last to first, and leaves the queue empty.
\<close>

theorem tailq_reverse_safe_drains:
  assumes "qedits_list es [] = Some xs"
  shows "\<exists>t. TAILQ_FOREACH_REVERSE_SAFE h (\<lambda>x (hp, out). (TAILQ_REMOVE h x hp, out @ [x]))
      (fold (tailq_edit h) es (TAILQ_INIT h hp), []) = Some (t, rev xs)
    \<and> TAILQ_EMPTY h t \<and> TAILQ_FOREACH h visit (t, []) = Some (t, [])"
proof -
  have "tailq_rep (fold (tailq_edit h) es (TAILQ_INIT h hp)) h xs"
    by (rule tailq_ed.run_edits_rep [OF tailq_rep_init assms])
  from tailq_drain_reverse [OF this] obtain t where
    "TAILQ_FOREACH_REVERSE_SAFE h (\<lambda>x (hp, out). (TAILQ_REMOVE h x hp, out @ [x]))
      (fold (tailq_edit h) es (TAILQ_INIT h hp), []) = Some (t, rev xs)" and t: "tailq_rep t h []"
    by blast
  with tailq_foreach_fold [of "(t, [])" h "[]" visit] tailq_rep_first [OF t]
  show ?thesis by (simp add: TAILQ_EMPTY_def)
qed

lemma tailq_reverse_safe_drains_witness:
  "\<exists>t. TAILQ_FOREACH_REVERSE_SAFE 0 (\<lambda>x (hp, out). (TAILQ_REMOVE 0 x hp, out @ [x]))
      (fold (tailq_edit 0) [Put_Head 1, Put_After 1 2] (TAILQ_INIT 0 blank_heap), []) = Some (t, [2, 1])"
  using tailq_reverse_safe_drains [of "[Put_Head 1, Put_After 1 2]" "[1, 2]" 0 blank_heap]
  by (simp del: fold_simps) blast

text \<open>
  C18: the same for \<open>LIST\<close>, whose macros find the list through the element alone: any
  sequence of edits from \<open>LIST_INIT\<close> leaves what it leaves on a list, and the loops of
  \<open>LIST_FOREACH\<close> and \<open>LIST_FOREACH_SAFE\<close> end after exactly these elements, the
  second one even when its body overwrites the links of the element it visits.
\<close>

theorem list_edits_observed:
  fixes h :: 'h and xs :: "'a list"
  assumes "qedits_list es [] = Some xs"
  shows "let t = fold (list_edit h) es (LIST_INIT h hp) in
    LIST_FOREACH h visit (t, []) = Some (t, xs)
    \<and> LIST_FOREACH_SAFE h (\<lambda>x (hp, out). (set_nxt (Elem x) (junk x) hp, out @ [x])) (t, [])
        = Some (fold (\<lambda>x. set_nxt (Elem x) (junk x)) xs t, xs)
    \<and> LIST_EMPTY h t = (xs = [])"
proof -
  let ?t = "fold (list_edit h) es (LIST_INIT h hp)"
  let ?body = "\<lambda>x (hp :: ('h, 'a) qheap, out). (set_nxt (Elem x) (junk x) hp, out @ [x])"
  have rep: "list_rep ?t h xs"
    by (rule blist_ed.run_edits_rep [OF list_rep_init assms])
  have "fold ?body xs (s, out) = (fold (\<lambda>x. set_nxt (Elem x) (junk x)) xs s, out @ xs)" for s out
    by (induction xs arbitrary: s out) simp_all
  moreover have "LIST_FOREACH_SAFE h ?body (?t, []) = Some (fold ?body xs (?t, []))"
    using rep by (intro list_foreach_safe_fold) (auto simp: split_beta)
  ultimately show ?thesis
    using list_foreach_fold [of "(?t, [])" h xs visit] rep list_rep_empty [OF rep]
    by (simp add: Let_def)
qed

lemma list_edits_observed_witness:
  "LIST_FOREACH 0 visit (fold (list_edit 0) [Put_Head 1, Put_Before 1 2, Take_Out 1] (LIST_INIT 0 blank_heap), [])
    = Some (fold (list_edit 0) [Put_Head 1, Put_Before 1 2, Take_Out 1] (LIST_INIT 0 blank_heap), [2])"
  using list_edits_observed [of "[Put_Head 1, Put_Before 1 2, Take_Out 1]" "[2]" 0 blank_heap]
  by (simp add: Let_def del: fold_simps)

section \<open>Singly linked queues\<close>

text \<open>
  C34: \<open>SLIST_REMOVE\<close> has a search loop with no end test.  For an element that is on
  the list the loop ends, and removing any elements one after the other leaves the
  others for \<open>SLIST_FOREACH\<close> in their order.
\<close>

theorem slist_remove_observed:
  assumes "distinct xs" and "distinct ys" and "set ys \<subseteq> set xs"
  shows "\<exists>t. foldl (\<lambda>r x. case r of None \<Rightarrow> None | Some u \<Rightarrow> SLIST_REMOVE h x u)
      (Some (fold (SLIST_INSERT_HEAD h) (rev xs) (SLIST_INIT h hp))) ys = Some t
    \<and> SLIST_FOREACH h visit (t, []) = Some (t, filter (\<lambda>x. x \<notin> set ys) xs)"
proof -
  have "slist_rep (fold (SLIST_INSERT_HEAD h) (rev xs) (SLIST_INIT h hp)) h xs"
    using assms(1) by (induction xs) (auto intro: slist_rep_init slist_rep_insert_head)
  from slist_rm.remove_all [OF this assms(2,3)] obtain t where
    t: "foldl (\<lambda>r x. case r of None \<Rightarrow> None | Some u \<Rightarrow> SLIST_REMOVE h x u)
      (Some (fold (SLIST_INSERT_HEAD h) (rev xs) (SLIST_INIT h hp))) ys = Some t"
      "slist_rep t h (filter (\<lambda>x. x \<notin> set ys) xs)"
    by blast
  with slist_foreach_fold [of "(t, [])" h "filter (\<lambda>x. x \<notin> set ys) xs" visit] show ?thesis by simp
qed

lemma slist_remove_observed_witness:
  "\<exists>t. SLIST_REMOVE 0 3 (fold (SLIST_INSERT_HEAD 0) [4, 3, 2] (SLIST_INIT 0 blank_heap)) = Some t
    \<and> SLIST_FOREACH 0 visit (t, []) = Some (t, [2, 4])"
  using slist_remove_observed [of "[2, 3, 4]" "[3]" 0 blank_heap] by (simp del: fold_simps)

text \<open>
  C35: what \<open>SIMPLEQ_INSERT_TAIL\<close> puts into two queues comes out of the first one in
  order, the first queue's elements before the second's, once \<open>SIMPLEQ_CONCAT\<close> has
  joined them; \<open>SIMPLEQ_REMOVE_HEAD\<close> never reads a missing element on the way.
\<close>

theorem simpleq_concat_fifo:
  assumes "h1 \<noteq> h2" and "distinct (xs @ ys)"
  shows "\<exists>t. take_off SIMPLEQ_FIRST SIMPLEQ_REMOVE_HEAD h1 (length xs + length ys)
      (SIMPLEQ_CONCAT h1 h2
        (fold (SIMPLEQ_INSERT_TAIL h2) ys (SIMPLEQ_INIT h2
          (fold (SIMPLEQ_INSERT_TAIL h1) xs (SIMPLEQ_INIT h1 hp))))) = Some (xs @ ys, t)
    \<and> SIMPLEQ_EMPTY h1 t"
proof -
  let ?s1 = "fold (SIMPLEQ_INSERT_TAIL h1) xs (SIMPLEQ_INIT h1 hp)"
  let ?s2 = "fold (SIMPLEQ_INSERT_TAIL h2) ys (SIMPLEQ_INIT h2 ?s1)"
  have s1: "simpleq_rep ?s1 h1 xs"
    using simpleq.fold_insert_tail [OF simpleq_rep_init, of xs h1 hp] assms(2) by simp
  have init: "simpleq_rep (SIMPLEQ_INIT h2 ?s1) h1 xs"
    by (rule simpleq_rep_frame [OF s1]) (use assms(1) in \<open>auto simp: SIMPLEQ_INIT_def\<close>)
  from simpleq.fold_insert_tail_frame [OF simpleq_rep_init init] assms
  have "simpleq_rep ?s2 h2 ys" "simpleq_rep ?s2 h1 xs" by (auto simp: inf_commute)
  from simpleq_rep_concat [OF this(2,1) assms(1)] assms(2)
  have "simpleq_rep (SIMPLEQ_CONCAT h1 h2 ?s2) h1 (xs @ ys)" by simp
  from simpleq.take_off_rep [OF this] show ?thesis by (auto simp: simpleq_rep_empty)
qed

lemma simpleq_concat_fifo_witness:
  "\<exists>t. take_off SIMPLEQ_FIRST SIMPLEQ_REMOVE_HEAD 0 3
      (SIMPLEQ_CONCAT 0 1
        (fold (SIMPLEQ_INSERT_TAIL 1) [8] (SIMPLEQ_INIT 1
          (fold (SIMPLEQ_INSERT_TAIL 0) [7, 9] (SIMPLEQ_INIT 0 blank_heap))))) = Some ([7, 9, 8], t)"
  using simpleq_concat_fifo [of 0 1 "[7, 9]" "[8]" blank_heap]
  by (auto simp: numeral_3_eq_3 simp del: fold_simps take_off.simps)

text \<open>
  C36: \<open>STAILQ_REMOVE\<close> of an element anywhere in the queue ends, keeps the order of the
  others, and keeps \<open>stqh_last\<close> right: \<open>STAILQ_LAST\<close> is the last remaining element
  and a following \<open>STAILQ_INSERT_TAIL\<close> appends.
\<close>

theorem stailq_remove_then_append:
  assumes "simpleq_rep hp h xs" and "distinct ys" and "set ys \<subseteq> set xs" and "z \<notin> set xs"
  shows "\<exists>t. foldl (\<lambda>r x. case r of None \<Rightarrow> None | Some u \<Rightarrow> STAILQ_REMOVE h x u) (Some hp) ys = Some t
    \<and> STAILQ_LAST h t = first_of (rev (filter (\<lambda>x. x \<notin> set ys) xs))
    \<and> STAILQ_FOREACH h visit (STAILQ_INSERT_TAIL h z t, [])
      = Some (STAILQ_INSERT_TAIL h z t, filter (\<lambda>x. x \<notin> set ys) xs @ [z])"
proof -
  let ?zs = "filter (\<lambda>x. x \<notin> set ys) xs"
  from stailq_rm.remove_all [OF assms(1-3)] obtain t where
    t: "foldl (\<lambda>r x. case r of None \<Rightarrow> None | Some u \<Rightarrow> STAILQ_REMOVE h x u) (Some hp) ys = Some t"
      "simpleq_rep t h ?zs"
    by blast
  have "simpleq_rep (STAILQ_INSERT_TAIL h z t) h (?zs @ [z])"
    by (rule stailq.rep_insert_tail [OF t(2)]) (use assms(4) in auto)
  with t simpleq_foreach_fold [of "(STAILQ_INSERT_TAIL h z t, [])" h "?zs @ [z]" visit]
  show ?thesis by (simp add: stailq_rep_last stailq_is_simpleq(11) first_of_rev)
qed

lemma stailq_remove_then_append_witness:
  "\<exists>t. STAILQ_REMOVE 0 4 (STAILQ_INSERT_TAIL 0 4 (STAILQ_INSERT_TAIL 0 3 (STAILQ_INIT 0 blank_heap))) = Some t
    \<and> STAILQ_LAST 0 t = Some 3"
proof -
  have "simpleq_rep (STAILQ_INSERT_TAIL 0 4 (STAILQ_INSERT_TAIL 0 3 (STAILQ_INIT 0 blank_heap))) 0 [3, 4]"
    using stailq.fold_insert_tail [of "STAILQ_INIT 0 blank_heap" 0 "[]" "[3, 4]"]
    by (simp add: stailq_is_simpleq simpleq_rep_init)
  from stailq_remove_then_append [OF this, of "[4]" 5] show ?thesis by auto
qed

section \<open>The queue with a cookie\<close>

text \<open>
  C27: whatever the system call answers, a cookie results and the queue is empty; then,
  for any offset of the entry field and any cookie, heads and tails inserted through
  \<open>XSIMPLEQ\<close> are what \<open>XSIMPLEQ_FOREACH\<close> visits, in list order.
\<close>

theorem xsimpleq_inserts_observed:
  assumes "XSIMPLEQ_INIT h outs m = Some m0"
    and "distinct (xs @ ys)" and "\<forall>e \<in> set (xs @ ys). xusable off h e"
  shows "let t = fold (XSIMPLEQ_INSERT_TAIL off h) ys (fold (XSIMPLEQ_INSERT_HEAD off h) (rev xs) m0) in
    XSIMPLEQ_FOREACH off h visit (t, []) = Some (t, xs @ ys)
    \<and> XSIMPLEQ_EMPTY h t = (xs @ ys = [])"
proof -
  have heads: "xsimpleq_rep off (fold (XSIMPLEQ_INSERT_HEAD off h) (rev xs) m0) h xs"
    using assms by (induction xs) (auto intro: xsimpleq_rep_init xsimpleq_rep_insert_head)
  have tails: "xsimpleq_rep off (fold (XSIMPLEQ_INSERT_TAIL off h) ys s) h (xs @ ys)"
    if "xsimpleq_rep off s h xs" for s
    using that assms(2,3)
  proof (induction ys arbitrary: s xs)
    case Nil
    then show ?case by simp
  next
    case (Cons y ys)
    have "xsimpleq_rep off (XSIMPLEQ_INSERT_TAIL off h y s) h (xs @ [y])"
      using Cons.prems by (intro xsimpleq_rep_insert_tail) auto
    from Cons.IH [OF this] Cons.prems show ?case by simp
  qed
  let ?t = "fold (XSIMPLEQ_INSERT_TAIL off h) ys (fold (XSIMPLEQ_INSERT_HEAD off h) (rev xs) m0)"
  from xsimpleq_foreach_fold [of off "(?t, [])" h "xs @ ys" visit] tails [OF heads]
    xsimpleq_rep_empty [OF tails [OF heads]]
  show ?thesis by (simp add: Let_def)
qed

lemma xsimpleq_inserts_observed_witness:
  "\<exists>m0. XSIMPLEQ_INIT 100 [Some [1, 2, 3, 4, 5], Some [6, 7, 8]] (\<lambda>_. 0) = Some m0
    \<and> \<not> XSIMPLEQ_EMPTY 100 (XSIMPLEQ_INSERT_TAIL 8 100 2000 (XSIMPLEQ_INSERT_HEAD 8 100 1000 m0))"
proof -
  obtain m0 where m0: "XSIMPLEQ_INIT 100 [Some [1, 2, 3, 4, 5], Some [6, 7, 8]] (\<lambda>_. 0) = Some m0"
    by (simp add: XSIMPLEQ_INIT_def queue_getrandom.simps Let_def)
  with xsimpleq_inserts_observed [OF m0, of "[1000]" "[2000]" 8]
  show ?thesis by (simp add: Let_def xusable_def del: xusable_simps xusable0_simps)
qed

text \<open>
  the removals are wrong for every cookie but zero.  With the entry field at
  offset 0, \<open>XSIMPLEQ_REMOVE_HEAD\<close> leaves a queue whose \<open>XSIMPLEQ_FIRST\<close> is the real
  next element exclusive-or the cookie: it is that element only when the cookie is 0,
  and a queue that should be empty is not \<open>XSIMPLEQ_EMPTY\<close>.
\<close>

theorem xsimpleq_remove_head_needs_zero_cookie:
  assumes "xsimpleq_rep 0 m h (x # xs)"
  shows "\<exists>t. XSIMPLEQ_REMOVE_HEAD h m = Some t
    \<and> XSIMPLEQ_FIRST h t = m (h + 16) XOR (case xs of [] \<Rightarrow> 0 | y # _ \<Rightarrow> y)
    \<and> (ptr_of (XSIMPLEQ_FIRST h t) = first_of xs \<longleftrightarrow> m (h + 16) = 0)
    \<and> (xs = [] \<longrightarrow> XSIMPLEQ_EMPTY h t = (m (h + 16) = 0))"
proof -
  obtain t where t: "XSIMPLEQ_REMOVE_HEAD h m = Some t"
      "XSIMPLEQ_FIRST h t = m (h + 16) XOR (case xs of [] \<Rightarrow> 0 | y # _ \<Rightarrow> y)"
    using xsimpleq_remove_head_first [OF assms] by blast
  have "y \<noteq> 0" if "xs = y # ys" for y ys
    using assms that by (auto simp: xsimpleq_rep_def dest: xusable_simps(1))
  moreover have "c XOR y = y \<longleftrightarrow> c = 0" for c y :: u64
    using xor_eq_self_iff [of y c] by (simp add: xor.commute)
  ultimately show ?thesis
    using t by (cases xs) (simp_all add: XSIMPLEQ_EMPTY_def)
qed

lemma xsimpleq_remove_head_needs_zero_cookie_witness:
  "\<exists>t. XSIMPLEQ_REMOVE_HEAD 100 (XSIMPLEQ_INSERT_TAIL 0 100 1000 ((\<lambda>_. 0)(100 := 5, 108 := 97, 116 := 5)))
      = Some t \<and> XSIMPLEQ_FIRST 100 t = 5"
proof -
  let ?m = "(\<lambda>_. 0)(100 := 5, 108 := 97, 116 := 5) :: xmem"
  have "xsimpleq_rep 0 ?m 100 []"
    by (simp add: xsimpleq_rep_def queue_reps)
  from xsimpleq_rep_insert_tail [OF this, of 1000]
  have rep: "xsimpleq_rep 0 (XSIMPLEQ_INSERT_TAIL 0 100 1000 ?m) 100 [1000]"
    by (simp add: xusable_def del: xusable_simps xusable0_simps)
  have "XSIMPLEQ_INSERT_TAIL 0 100 1000 ?m 116 = 5"
    by (simp add: XSIMPLEQ_INSERT_TAIL_def XSIMPLEQ_XOR_def Let_def)
  with xsimpleq_remove_head_needs_zero_cookie [OF rep] show ?thesis by auto
qed

end
