(* ===== verification/C_Lib.thy ===== *)
theory C_Lib
  imports Bsd_Prelude
begin

text \<open>
  What several components use of the C library: error numbers, C strings as character
  lists without the terminating \<open>NUL\<close>, buffers written at an index, and the memory
  images of argument vectors.
\<close>

section \<open>Error numbers\<close>

datatype errno =
    EINVAL | EOVERFLOW | ENOMEM | EIO | ENAMETOOLONG | ENOSYS | ENOENT | ENOTSUP | Other_Errno nat

section \<open>Strings and buffers\<close>

abbreviation NUL :: char where "NUL \<equiv> CHR 0x00"

text \<open>\<open>strlen\<close> of a string in memory, as a \<open>size_t\<close>.\<close>

definition strlen :: "string \<Rightarrow> u64" where
  "strlen s = of_nat (length s)"

text \<open>A pointer to a string that is \<open>NULL\<close> or points to \<open>NUL\<close> counts as absent.\<close>

definition nonempty :: "string option \<Rightarrow> string option" where
  "nonempty s = (case s of None \<Rightarrow> None | Some t \<Rightarrow> if t = [] then None else Some t)"

lemma nonempty_simps [simp]:
  "nonempty None = None" "nonempty (Some []) = None" "nonempty (Some (c # s)) = Some (c # s)"
  "t \<noteq> [] \<Longrightarrow> nonempty (Some t) = Some t"
  by (auto simp: nonempty_def split: option.splits)

lemma nonempty_eq_Some: "nonempty e = Some t \<longleftrightarrow> e = Some t \<and> t \<noteq> []"
  by (auto simp: nonempty_def split: option.splits)

text \<open>Writes into a buffer; outside its bounds the C program has no behaviour.\<close>

definition poke :: "nat \<Rightarrow> 'a \<Rightarrow> 'a list \<Rightarrow> 'a list option" where
  "poke i x b = (if i < length b then Some (b[i := x]) else None)"

definition copy_in :: "nat \<Rightarrow> 'a list \<Rightarrow> 'a list \<Rightarrow> 'a list option" where
  "copy_in i src b =
     (if i + length src \<le> length b then Some (take i b @ src @ drop (i + length src) b) else None)"

lemma poke_length: "poke i x b = Some b' \<Longrightarrow> length b' = length b"
  by (auto simp: poke_def split: if_splits)

lemma copy_in_length: "copy_in i src b = Some b' \<Longrightarrow> length b' = length b"
  by (auto simp: copy_in_def split: if_splits)

lemma poke_append [simp]: "poke (length a) x (a @ y # b) = Some (a @ x # b)"
  by (simp add: poke_def)

lemma copy_in_append [simp]:
  "length src = length b \<Longrightarrow> copy_in (length a) src (a @ b @ c) = Some (a @ src @ c)"
  by (simp add: copy_in_def)

text \<open>The C string at the start of a buffer.\<close>

definition cstr :: "char list \<Rightarrow> string" where
  "cstr b = takeWhile (\<lambda>c. c \<noteq> NUL) b"

definition c_string :: "string \<Rightarrow> bool" where
  "c_string s \<longleftrightarrow> NUL \<notin> set s"

lemma c_string_simps [simp]: "c_string []" "c_string (c # s) \<longleftrightarrow> c \<noteq> NUL \<and> c_string s"
  "c_string (s @ t) \<longleftrightarrow> c_string s \<and> c_string t"
  by (auto simp: c_string_def)

lemma cstr_terminated [simp]: "c_string s \<Longrightarrow> cstr (s @ NUL # b) = s"
  unfolding cstr_def c_string_def by (subst takeWhile_append2) auto

lemma cstr_whole [simp]: "c_string s \<Longrightarrow> cstr s = s"
  by (auto simp: cstr_def c_string_def takeWhile_eq_all_conv)

section \<open>Joining\<close>

fun join :: "char \<Rightarrow> string list \<Rightarrow> string" where
  "join c [] = []"
| "join c [s] = s"
| "join c (s # t # ss) = s @ c # join c (t # ss)"

lemma join_length:
  "ss \<noteq> [] \<Longrightarrow> length (join c ss) = sum_list (map length ss) + (length ss - 1)"
  by (induction c ss rule: join.induct) auto

lemma join_Cons: "ss \<noteq> [] \<Longrightarrow> join c (s # ss) = s @ c # join c ss"
  by (cases ss) auto

lemma c_string_join: "c \<noteq> NUL \<Longrightarrow> \<forall>s \<in> set ss. c_string s \<Longrightarrow> c_string (join c ss)"
  by (induction c ss rule: join.induct) auto

section \<open>Argument vectors\<close>

text \<open>
  An array of pointers to strings ends at its first \<open>NULL\<close>; the kernel lays the strings
  of a process's vector out one after the other, each with its \<open>NUL\<close>.
\<close>

fun vector_of :: "string option list \<Rightarrow> string list" where
  "vector_of [] = []"
| "vector_of (None # _) = []"
| "vector_of (Some s # ss) = s # vector_of ss"

lemma vector_of_Somes [simp]: "vector_of (map Some ss @ None # rest) = ss"
  by (induction ss) auto

definition cmdline_of :: "string list \<Rightarrow> char list" where
  "cmdline_of ss = concat (map (\<lambda>s. s @ [NUL]) ss)"

lemma cmdline_of_simps [simp]: "cmdline_of [] = []" "cmdline_of (s # ss) = s @ NUL # cmdline_of ss"
  "cmdline_of (ss @ ts) = cmdline_of ss @ cmdline_of ts"
  by (simp_all add: cmdline_of_def)

lemma cmdline_of_item:
  assumes "c_string s"
  shows "takeWhile (\<lambda>c. c \<noteq> NUL) (s @ NUL # rest) = s"
    and "takeWhile (\<lambda>c. c \<noteq> NUL) s = s"
  using cstr_terminated [OF assms] cstr_whole [OF assms] by (simp_all add: cstr_def)

text \<open>A sequence of writes into an array.\<close>

fun poke_all :: "(nat \<times> 'a) list \<Rightarrow> 'a list \<Rightarrow> 'a list option" where
  "poke_all [] b = Some b"
| "poke_all ((i, x) # ws) b = (case poke i x b of None \<Rightarrow> None | Some b' \<Rightarrow> poke_all ws b')"

lemma poke_all_append:
  "poke_all (ws @ vs) b = (case poke_all ws b of None \<Rightarrow> None | Some b' \<Rightarrow> poke_all vs b')"
  by (induction ws b rule: poke_all.induct) (auto split: option.splits)

lemma poke_all_block:
  "length old = length xs \<Longrightarrow>
   poke_all (zip [length a ..< length a + length xs] xs) (a @ old @ b) = Some (a @ xs @ b)"
proof (induction xs arbitrary: a old)
  case Nil
  then show ?case by simp
next
  case (Cons x xs)
  then obtain y ys where old: "old = y # ys" "length ys = length xs" by (cases old) auto
  have "[length a ..< length a + length (x # xs)] = length a # [Suc (length a) ..< Suc (length a) + length xs]"
    by (simp add: upt_rec)
  with Cons.IH [of ys "a @ [x]"] old show ?case by simp
qed

end
