(* ===== verification/Preload.thy ===== *)
theory Preload
  imports C_Lib
begin

text \<open>
  \<^verbatim>\<open>src/compat/preload_policy.c\<close>: the list of libraries every compatibility process
  preloads.  Lengths and the allocation size are 64-bit words with the code's overflow
  checks; the list is written into the allocated block position by position, and a write
  outside the block is \<open>None\<close>.
\<close>

section \<open>The code\<close>

definition musl_bsd_compatibility_path :: "(string \<Rightarrow> string option) \<Rightarrow> string \<Rightarrow> string \<Rightarrow> string" where
  "musl_bsd_compatibility_path getenv variable configured =
     (let value = getenv variable in
      case value of None \<Rightarrow> configured
      | Some v \<Rightarrow> if v \<noteq> [] then v else configured)"

text \<open>The first loop: lengths of the entries that are present, and the block's size.\<close>

fun preload_sizes :: "string option list \<Rightarrow> nat \<Rightarrow> u64 \<Rightarrow> errno + (u64 list \<times> u64)" where
  "preload_sizes [] count tot = Inr ([], tot)"
| "preload_sizes (e # es) count tot =
     (case nonempty e of
        None \<Rightarrow> (case preload_sizes es count tot of Inl err \<Rightarrow> Inl err
          | Inr (ls, t) \<Rightarrow> Inr (0 # ls, t))
      | Some s \<Rightarrow>
          let len = strlen s; separator = (if count \<noteq> 0 then 1 else 0) in
          if tot > SIZE_MAX - separator \<or> len > SIZE_MAX - tot - separator then Inl EOVERFLOW
          else (case preload_sizes es (count + 1) (tot + len + separator) of Inl err \<Rightarrow> Inl err
            | Inr (ls, t) \<Rightarrow> Inr (len # ls, t)))"

text \<open>The second loop: \<open>output\<close> is an index into the block.\<close>

fun preload_copy ::
  "string option list \<Rightarrow> u64 list \<Rightarrow> nat \<Rightarrow> nat \<Rightarrow> char list \<Rightarrow> (nat \<times> char list) option" where
  "preload_copy (e # es) (len # ls) count output block =
     (if len = 0 then preload_copy es ls count output block
      else
        case (if count \<noteq> 0 then map_option (\<lambda>b. (output + 1, b)) (poke output CHR '':'' block)
              else Some (output, block)) of
          None \<Rightarrow> None
        | Some (out1, block1) \<Rightarrow>
            (case copy_in out1 (take (unat len) (the e)) block1 of
               None \<Rightarrow> None
             | Some block2 \<Rightarrow> preload_copy es ls (count + 1) (out1 + unat len) block2))"
| "preload_copy _ _ count output block = Some (output, block)"

text \<open>
  \<open>malloc\<close> is the environment's: given a size it fails or returns a block with arbitrary
  contents.
\<close>

definition musl_bsd_preload_list ::
  "(u64 \<Rightarrow> char list option) \<Rightarrow> string option \<Rightarrow> string option \<Rightarrow> string option \<Rightarrow>
   (errno + char list) option" where
  "musl_bsd_preload_list malloc core nvidia_tls user =
     (let entries = [core, nvidia_tls, user] in
      if nonempty core = None then Some (Inl EINVAL)
      else if (case nonempty nvidia_tls of None \<Rightarrow> False
               | Some s \<Rightarrow> hd s \<noteq> CHR ''/'' \<or> CHR '':'' \<in> set s) then Some (Inl EINVAL)
      else
        case preload_sizes entries 0 1 of
          Inl err \<Rightarrow> Some (Inl err)
        | Inr (lengths, tot) \<Rightarrow>
            (case malloc tot of
               None \<Rightarrow> Some (Inl ENOMEM)
             | Some block \<Rightarrow>
                 (case preload_copy entries lengths 0 0 block of
                    None \<Rightarrow> None
                  | Some (output, list) \<Rightarrow> map_option Inr (poke output NUL list))))"

section \<open>What it computes\<close>

definition present :: "string option list \<Rightarrow> string list" where
  "present es = List.map_filter nonempty es"

definition malloc_sized :: "(u64 \<Rightarrow> char list option) \<Rightarrow> bool" where
  "malloc_sized malloc \<longleftrightarrow> (\<forall>n b. malloc n = Some b \<longrightarrow> length b = unat n)"

lemma present_simps [simp]: "present [] = []"
  "present (e # es) = (case nonempty e of None \<Rightarrow> present es | Some s \<Rightarrow> s # present es)"
  unfolding present_def List.map_filter_simps by simp_all

text \<open>The bytes the first loop asks for, beyond the \<open>NUL\<close>.\<close>

definition room :: "nat \<Rightarrow> string list \<Rightarrow> nat" where
  "room count ss = sum_list (map length ss) + (if count = 0 then length ss - 1 else length ss)"

lemma room_simps [simp]: "room count [] = 0"
  "room count (s # ss) = length s + (if count = 0 then 0 else 1) + room (Suc count) ss"
  by (auto simp: room_def)

text \<open>The overflow test is exact: it fires when the running sum leaves 64 bits.\<close>

lemma overflow_test:
  fixes tot len sep :: u64
  assumes "sep \<le> 1"
  shows "(tot > SIZE_MAX - sep \<or> len > SIZE_MAX - tot - sep) \<longleftrightarrow>
    unat tot + unat len + unat sep \<ge> 2 ^ 64"
proof (cases "sep \<le> SIZE_MAX - tot")
  case True
  then have "unat (SIZE_MAX - tot - sep) = 2 ^ 64 - 1 - unat tot - unat sep"
    by (simp add: unat_sub unat_SIZE_MAX_minus)
  moreover have "unat sep \<le> 2 ^ 64 - 1 - unat tot"
    using True by (simp add: word_le_nat_alt unat_SIZE_MAX_minus)
  ultimately show ?thesis
    using u64_less [of tot] u64_less [of len] u64_less [of sep]
    unfolding word_less_nat_alt unat_SIZE_MAX_minus by linarith
next
  case False
  then have "2 ^ 64 - 1 - unat tot < unat sep"
    by (simp add: word_less_nat_alt unat_SIZE_MAX_minus not_le)
  then show ?thesis
    using u64_less [of tot] u64_less [of sep]
    unfolding word_less_nat_alt unat_SIZE_MAX_minus by linarith
qed

text \<open>What the first loop records for an entry.\<close>

definition size_of :: "string option \<Rightarrow> u64" where
  "size_of e = (case nonempty e of None \<Rightarrow> 0 | Some s \<Rightarrow> strlen s)"

lemma preload_sizes_exact:
  assumes "\<forall>s \<in> set (present es). length s < 2 ^ 64"
  shows "preload_sizes es count tot =
    (if unat tot + room count (present es) < 2 ^ 64
     then Inr (map size_of es,
               tot + of_nat (room count (present es)))
     else Inl EOVERFLOW)"
  using assms
proof (induction es arbitrary: count tot)
  case Nil
  then show ?case using u64_less [of tot] by simp
next
  case (Cons e es)
  show ?case
  proof (cases "nonempty e")
    case None
    with Cons show ?thesis by (simp add: size_of_def)
  next
    case (Some s)
    define sep :: u64 where "sep = (if count \<noteq> 0 then 1 else 0)"
    have len: "unat (strlen s) = length s"
      using Cons.prems Some by (simp add: strlen_def unat_of_nat_u64)
    have sep: "sep \<le> 1" "unat sep = (if count = 0 then 0 else 1)" by (simp_all add: sep_def)
    have test: "(SIZE_MAX - (if count \<noteq> 0 then 1 else 0) < tot
        \<or> SIZE_MAX - tot - (if count \<noteq> 0 then 1 else 0) < strlen s) =
        (unat tot + length s + unat sep \<ge> 2 ^ 64)"
      using overflow_test [OF sep(1), of tot "strlen s"] len by (simp only: sep_def)
    show ?thesis
    proof (cases "unat tot + length s + unat sep < 2 ^ 64")
      case True
      then have sum: "unat (tot + strlen s + sep) = unat tot + length s + unat sep"
        using len by (simp add: unat_add_small)
      have "preload_sizes (e # es) count tot =
          (case preload_sizes es (count + 1) (tot + strlen s + sep) of Inl err \<Rightarrow> Inl err
           | Inr (ls, t) \<Rightarrow> Inr (strlen s # ls, t))"
        using True by (simp only: preload_sizes.simps Some option.case Let_def test) (simp add: sep_def)
      moreover have "unat tot + room count (present (e # es)) =
          unat (tot + strlen s + sep) + room (count + 1) (present es)"
        using Some sum sep(2) by simp
      moreover have "tot + of_nat (room count (present (e # es))) =
          tot + strlen s + sep + of_nat (room (count + 1) (present es))"
        using Some by (simp add: strlen_def sep_def)
      ultimately show ?thesis
        using Cons.IH [of "count + 1" "tot + strlen s + sep"] Cons.prems Some
        by (simp only:) (simp add: size_of_def)
    next
      case False
      then have "preload_sizes (e # es) count tot = Inl EOVERFLOW"
        by (simp only: preload_sizes.simps Some option.case Let_def test) simp
      moreover have "unat tot + room count (present (e # es)) \<ge> 2 ^ 64"
        using False Some sep(2) by simp
      ultimately show ?thesis by simp
    qed
  qed
qed

text \<open>The second loop writes each entry, a colon before all but the first.\<close>

definition joined :: "nat \<Rightarrow> string list \<Rightarrow> string" where
  "joined count ss =
     (if count \<noteq> 0 \<and> ss \<noteq> [] then CHR '':'' # join CHR '':'' ss else join CHR '':'' ss)"

lemma joined_simps [simp]: "joined count [] = []" "joined 0 ss = join CHR '':'' ss"
  "joined count (s # ss) = (if count = 0 then [] else [CHR '':'']) @ s @ joined (Suc count) ss"
  by (auto simp: joined_def join_Cons)

lemma joined_length: "length (joined count ss) = room count ss"
  by (induction ss arbitrary: count) auto

lemma preload_copy_exact:
  assumes "\<forall>s \<in> set (present es). length s < 2 ^ 64"
    and "length rest = room count (present es) + n"
  shows "preload_copy es (map size_of es) count (length pfx) (pfx @ rest) =
    Some (length pfx + room count (present es),
      pfx @ joined count (present es) @ drop (room count (present es)) rest)"
  using assms
proof (induction es arbitrary: count pfx rest)
  case Nil
  then show ?case by simp
next
  case (Cons e es)
  show ?case
  proof (cases "nonempty e")
    case None
    with Cons show ?thesis by (simp add: size_of_def)
  next
    case (Some s)
    then have s: "e = Some s" "s \<noteq> []" by (auto simp: nonempty_eq_Some)
    have len: "unat (strlen s) = length s"
      using Cons.prems Some by (simp add: strlen_def unat_of_nat_u64)
    with s have nz: "strlen s \<noteq> 0" by (metis length_0_conv unat_0)
    define pre where "pre = (if count = 0 then [] else [CHR '':''])"
    have rest: "length rest = length pre + length s + room (Suc count) (present es) + n"
      using Cons.prems(2) Some by (simp add: pre_def)
    have head: "(if count \<noteq> 0 then map_option (\<lambda>b. (length pfx + 1, b)) (poke (length pfx) CHR '':'' (pfx @ rest))
        else Some (length pfx, pfx @ rest)) =
        Some (length (pfx @ pre), (pfx @ pre) @ drop (length pre) rest)"
      using rest by (cases rest) (auto simp: pre_def split: if_splits)
    have body: "copy_in (length (pfx @ pre)) s ((pfx @ pre) @ drop (length pre) rest) =
        Some ((pfx @ pre @ s) @ drop (length pre + length s) rest)"
      using rest by (simp add: copy_in_def add.commute)
    have "preload_copy (e # es) (map size_of (e # es)) count (length pfx) (pfx @ rest) =
      preload_copy es (map size_of es) (Suc count)
        (length (pfx @ pre @ s)) ((pfx @ pre @ s) @ drop (length pre + length s) rest)"
      using head body s nz len by (simp add: size_of_def add.assoc del: append_assoc)
    also have "\<dots> = Some (length (pfx @ pre @ s) + room (Suc count) (present es),
      (pfx @ pre @ s) @ joined (Suc count) (present es) @
      drop (room (Suc count) (present es)) (drop (length pre + length s) rest))"
      by (rule Cons.IH) (use Cons.prems(1) Some rest in auto)
    finally show ?thesis
      using Some by (simp add: pre_def add_ac)
  qed
qed

text \<open>
  The result: an error exactly in the four cases, and otherwise the present entries in
  order with colons between them, the block being written from its first to its last byte.
\<close>

lemma drop_last_one: "length b = 1 + n \<Longrightarrow> \<exists>c. drop n b = [c]"
  by (metis One_nat_def add_diff_cancel_right' length_0_conv length_Suc_conv length_drop)

lemma musl_bsd_preload_list_cases:
  assumes "malloc_sized malloc" and "\<forall>s \<in> set (present [core, nvidia, user]). length s < 2 ^ 64"
  shows "musl_bsd_preload_list malloc core nvidia user =
    (if nonempty core = None then Some (Inl EINVAL)
     else if \<exists>s. nonempty nvidia = Some s \<and> (hd s \<noteq> CHR ''/'' \<or> CHR '':'' \<in> set s) then Some (Inl EINVAL)
     else let ss = present [core, nvidia, user] in
       if 1 + room 0 ss \<ge> 2 ^ 64 then Some (Inl EOVERFLOW)
       else case malloc (1 + of_nat (room 0 ss)) of None \<Rightarrow> Some (Inl ENOMEM)
         | Some b \<Rightarrow> Some (Inr (join CHR '':'' ss @ [NUL])))"
proof -
  let ?es = "[core, nvidia, user]" let ?ss = "present ?es"
  have copy: "preload_copy ?es (map size_of ?es) 0 0 b =
      Some (room 0 ?ss, join CHR '':'' ?ss @ drop (room 0 ?ss) b)"
    and poke: "poke (room 0 ?ss) NUL (join CHR '':'' ?ss @ drop (room 0 ?ss) b) = Some (join CHR '':'' ?ss @ [NUL])"
    if L: "length b = 1 + room 0 ?ss" for b
  proof -
    show "preload_copy ?es (map size_of ?es) 0 0 b =
      Some (room 0 ?ss, join CHR '':'' ?ss @ drop (room 0 ?ss) b)"
      using preload_copy_exact [OF assms(2), of b 0 1 "[]"] that by simp
    obtain c where "drop (room 0 ?ss) b = [c]"
      using drop_last_one [OF L] by blast
    moreover have "length (join CHR '':'' ?ss) = room 0 ?ss"
      using joined_length [of 0 ?ss] by (simp only: joined_simps)
    ultimately show "poke (room 0 ?ss) NUL (join CHR '':'' ?ss @ drop (room 0 ?ss) b) = Some (join CHR '':'' ?ss @ [NUL])"
      using poke_append [of "join CHR '':'' ?ss" NUL c "[]"] by (simp only: append_Nil)
  qed
  have size: "length b = 1 + room 0 ?ss" if "malloc (1 + of_nat (room 0 ?ss)) = Some b" "1 + room 0 ?ss < 2 ^ 64" for b
  proof -
    have "unat (1 + of_nat (room 0 ?ss) :: u64) = 1 + room 0 ?ss"
      using that(2) by (subst unat_add_small) (simp_all add: unat_of_nat_u64)
    with that assms(1) show ?thesis by (simp add: malloc_sized_def)
  qed
  have sizes: "preload_sizes ?es 0 1 = (if 1 + room 0 ?ss < 2 ^ 64
      then Inr (map size_of ?es, 1 + of_nat (room 0 ?ss)) else Inl EOVERFLOW)"
    using preload_sizes_exact [OF assms(2), of 0 1] by (simp only: unat_1)
  let ?bad = "\<exists>s. nonempty nvidia = Some s \<and> (hd s \<noteq> CHR ''/'' \<or> CHR '':'' \<in> set s)"
  have bad: "(case nonempty nvidia of None \<Rightarrow> False
      | Some s \<Rightarrow> hd s \<noteq> CHR ''/'' \<or> CHR '':'' \<in> set s) \<longleftrightarrow> ?bad"
    by (auto split: option.split)
  show ?thesis
  proof (cases "nonempty core = None \<or> ?bad \<or> 1 + room 0 ?ss \<ge> 2 ^ 64")
    case True
    then consider "nonempty core = None" | "nonempty core \<noteq> None" ?bad
      | "nonempty core \<noteq> None" "\<not> ?bad" "1 + room 0 ?ss \<ge> 2 ^ 64" by argo
    then show ?thesis
    proof cases
      case 3
      then have "preload_sizes ?es 0 1 = Inl EOVERFLOW" using sizes by (simp only: not_le [symmetric] if_False simp_thms)
      with 3 show ?thesis
        unfolding musl_bsd_preload_list_def Let_def bad by (simp only: if_True if_False sum.case)
    qed (simp_all only: musl_bsd_preload_list_def Let_def bad if_True if_False simp_thms)
  next
    case False
    then have F: "(nonempty core = None) = False" "?bad = False" "(2 ^ 64 \<le> 1 + room 0 ?ss) = False"
        "(1 + room 0 ?ss < 2 ^ 64) = True"
      by (simp_all only: not_le de_Morgan_disj simp_thms)
    show ?thesis
    proof (cases "malloc (1 + of_nat (room 0 ?ss))")
      case None
      then show ?thesis
        unfolding musl_bsd_preload_list_def Let_def bad sizes F by (simp only: if_True if_False sum.case prod.case option.case)
    next
      case (Some b)
      with size F(4) have "length b = 1 + room 0 ?ss" by blast
      note w = copy [OF this] poke [OF this]
      show ?thesis
        unfolding musl_bsd_preload_list_def Let_def bad sizes F Some
        by (simp only: if_True if_False sum.case prod.case option.case Some w option.map)
    qed
  qed
qed

end
