(* ===== verification/Readlink.thy ===== *)
theory Readlink
  imports C_Lib
begin

text \<open>
  \<^verbatim>\<open>src/compat/readlink.c\<close>: a process that runs under the musl linker sees the linker
  behind \<^verbatim>\<open>/proc/self/exe\<close>; the replacement finds the real program in the process's
  own command line and caches it.
\<close>

definition PATH_MAX :: nat where "PATH_MAX = 4096"

section \<open>The code\<close>

text \<open>
  The scan for the item \<^verbatim>\<open>--\<close>.  \<open>rest\<close> is what lies between \<open>cursor\<close> and
  \<open>end\<close>; \<open>cmdline[count]\<close> is \<open>NUL\<close>, so an item that is not ended before \<open>end\<close>
  has the length of \<open>rest\<close>.
\<close>

function target_scan :: "nat \<Rightarrow> char list \<Rightarrow> errno + string" where
  "target_scan sz rest =
     (if rest = [] then Inl EIO
      else
        let item = takeWhile (\<lambda>c. c \<noteq> NUL) rest; item_len = length item in
        if item_len = length rest then Inl EIO
        else if item = ''--'' then
          let after = drop (item_len + 1) rest in
          if after = [] then Inl EIO
          else
            let value = takeWhile (\<lambda>c. c \<noteq> NUL) after; value_len = length value in
            if value_len = 0 \<or> value_len \<ge> sz
            then Inl (if value_len = 0 then EIO else ENAMETOOLONG)
            else Inr value
        else target_scan sz (drop (item_len + 1) rest))"
  by pat_completeness auto
termination by (relation "measure (\<lambda>(sz, rest). length rest)") auto

declare target_scan.simps [simp del]

text \<open>\<open>Inl\<close>: \<open>open\<close> failed; \<open>Inr bs\<close>: the bytes of the file, nothing when \<open>read\<close> fails.\<close>

definition target_from_cmdline :: "nat \<Rightarrow> errno + char list \<Rightarrow> errno + string" where
  "target_from_cmdline sz file =
     (case file of
        Inl err \<Rightarrow> Inl err
      | Inr bytes \<Rightarrow>
          let cmdline = take (PATH_MAX * 2 - 1) bytes; count = length cmdline in
          if count < 1 then Inl EIO else target_scan sz cmdline)"

record readlink_state =
  exe_path :: string
  linker_path :: "string option"
  real_readlink :: bool

definition readlink_start :: readlink_state where
  "readlink_start = \<lparr>exe_path = [], linker_path = None, real_readlink = False\<rparr>"

text \<open>What the process's surroundings answer.\<close>

record readlink_env =
  dlsym_readlink :: bool
  sys_readlink :: "string \<Rightarrow> nat \<Rightarrow> errno + char list"
  linker_realpath :: "errno + string"
  proc_cmdline :: "errno + char list"

definition musl_readlink ::
  "readlink_env \<Rightarrow> string \<Rightarrow> nat \<Rightarrow> readlink_state \<Rightarrow> (errno + char list) \<times> readlink_state" where
  "musl_readlink env path len st =
     (if \<not> real_readlink st \<and> \<not> dlsym_readlink env then (Inl ENOSYS, st)
      else
        let st = st\<lparr>real_readlink := True\<rparr> in
        if path \<noteq> ''/proc/self/exe'' then (sys_readlink env path len, st)
        else
          let answer = (\<lambda>p st. (Inr (take (if length p < len then length p else len) p),
                st\<lparr>exe_path := p\<rparr>));
              fail = (\<lambda>st. (Inl EIO, st\<lparr>exe_path := []\<rparr>)) in
          if exe_path st = [] then
            (case (case linker_path st of Some l \<Rightarrow> Inr l | None \<Rightarrow> linker_realpath env) of
               Inl err \<Rightarrow> (Inl err, st)
             | Inr linker \<Rightarrow>
                 let st = st\<lparr>linker_path := Some linker\<rparr> in
                 (case sys_readlink env path (PATH_MAX - 1) of
                    Inl err \<Rightarrow> fail st
                  | Inr bytes \<Rightarrow>
                      if length bytes < 1 then fail st
                      else if cstr bytes = linker then
                        (case target_from_cmdline PATH_MAX (proc_cmdline env) of
                           Inl err \<Rightarrow> fail st
                         | Inr target \<Rightarrow> answer target st)
                      else answer (cstr bytes) st))
          else answer (exe_path st) st)"

section \<open>The scan\<close>

lemma target_from_cmdline_read:
  "cmdline = take (PATH_MAX * 2 - 1) bytes \<Longrightarrow> cmdline \<noteq> [] \<Longrightarrow>
   target_from_cmdline sz (Inr bytes) = target_scan sz cmdline"
  by (simp add: target_from_cmdline_def Let_def del: take_eq_Nil)

lemma target_scan_skip:
  assumes "c_string s" and "s \<noteq> ''--''" and "rest \<noteq> []"
  shows "target_scan sz (s @ NUL # rest) = target_scan sz rest"
  using assms by (simp add: target_scan.simps [of sz "s @ NUL # rest"] cmdline_of_item)

lemma target_scan_hit:
  assumes "rest \<noteq> []" and "takeWhile (\<lambda>c. c \<noteq> NUL) rest = t" "t \<noteq> []" "length t < sz"
  shows "target_scan sz (''--'' @ NUL # rest) = Inr t"
  using assms by (simp add: target_scan.simps [of sz "CHR ''-'' # CHR ''-'' # NUL # rest"] Let_def)

text \<open>The items before the first \<^verbatim>\<open>--\<close> are skipped.\<close>

lemma target_scan_items:
  assumes "\<forall>s \<in> set ss. c_string s \<and> s \<noteq> ''--''" and "rest \<noteq> []"
  shows "target_scan sz (cmdline_of ss @ rest) = target_scan sz rest"
  using assms(1)
proof (induction ss)
  case Nil
  then show ?case by simp
next
  case (Cons s ss)
  have "cmdline_of ss @ rest \<noteq> []" using assms(2) by simp
  with Cons show ?case by (simp add: target_scan_skip)
qed

text \<open>
  The value is what follows the first \<^verbatim>\<open>--\<close>, up to the next \<open>NUL\<close> or to the end of
  what was read.
\<close>

lemma target_scan_found:
  assumes "\<forall>s \<in> set ss. c_string s \<and> s \<noteq> ''--''" and "c_string t" "t \<noteq> []" "length t < sz"
  shows "target_scan sz (cmdline_of ss @ ''--'' @ NUL # t @ NUL # rest) = Inr t"
    and "target_scan sz (cmdline_of ss @ ''--'' @ NUL # t) = Inr t"
proof -
  have 1: "target_scan sz (cmdline_of ss @ ''--'' @ NUL # r) = target_scan sz (''--'' @ NUL # r)" for r
    using target_scan_items [OF assms(1), of "''--'' @ NUL # r" sz] by simp
  show "target_scan sz (cmdline_of ss @ ''--'' @ NUL # t @ NUL # rest) = Inr t"
    unfolding 1 using assms(2-4) by (intro target_scan_hit) (simp_all add: cmdline_of_item)
  show "target_scan sz (cmdline_of ss @ ''--'' @ NUL # t) = Inr t"
    unfolding 1 using assms(2-4) by (intro target_scan_hit) (simp_all add: cmdline_of_item)
qed

lemma target_scan_nonempty: "target_scan sz rest = Inr t \<Longrightarrow> t \<noteq> []"
proof (induction sz rest rule: target_scan.induct)
  case (1 sz rest)
  show ?case
  proof (rule notI)
    assume "t = []"
    with 1 show False
      by (auto simp: Let_def target_scan.simps [of sz rest] split: if_splits)
  qed
qed

section \<open>The cache\<close>

text \<open>Once a path is cached it is the answer, whatever the surroundings say later.\<close>

lemma musl_readlink_cached:
  "exe_path st \<noteq> [] \<Longrightarrow> real_readlink st \<Longrightarrow>
   musl_readlink env ''/proc/self/exe'' len st = (Inr (take len (exe_path st)), st)"
  by (cases st) (simp add: musl_readlink_def Let_def)

lemma musl_readlink_fills:
  assumes "musl_readlink env ''/proc/self/exe'' len st = (Inr bs, st')"
    and "\<And>b. sys_readlink env ''/proc/self/exe'' (PATH_MAX - 1) = Inr b \<Longrightarrow> c_string b"
  shows "exe_path st' \<noteq> [] \<and> real_readlink st' \<and> bs = take len (exe_path st')"
  using assms
  by (auto simp: musl_readlink_def Let_def target_from_cmdline_def dest: target_scan_nonempty
      split: if_splits option.splits sum.splits)

end
