(* ===== verification/Loader.thy ===== *)
theory Loader
  imports Preload Readlink
begin

text \<open>
  \<^verbatim>\<open>src/compat/loader_policy.c\<close>, \<^verbatim>\<open>src/compat/loader.c\<close> and
  \<^verbatim>\<open>src/compat/exec.c\<close>: the program that stands in for the glibc loader, and the
  \<open>exec\<close> family inside the processes it starts.  Both run the musl linker with the
  same argument vector.
\<close>

section \<open>The argument vector\<close>

record loader_config =
  MUSL_BSD_GLIBC_LOADER_NAME :: string
  MUSL_BSD_MUSL_LINKER_PATH :: string
  MUSL_BSD_PRELOAD_PATH :: string
  MUSL_BSD_LIBRARY_PATH :: string

text \<open>\<open>argv[0]\<close> is \<open>NULL\<close> when the vector is empty.\<close>

definition argv0 :: "string list \<Rightarrow> string option" where
  "argv0 argv = (case argv of [] \<Rightarrow> None | a # _ \<Rightarrow> Some a)"

text \<open>
  \<open>calloc\<close> gives an array of \<open>NULL\<close>s with nine slots more than \<open>argc\<close>; a write outside
  it is \<open>None\<close>.
\<close>

definition linker_argv ::
  "string \<Rightarrow> string \<Rightarrow> string \<Rightarrow> string list \<Rightarrow> string \<Rightarrow> string option list option" where
  "linker_argv linker preloads library_path argv target =
     poke_all
       (zip [0 ..< 9]
          [Some linker, Some ''--preload'', Some preloads, Some ''--library-path'',
           Some library_path, Some ''--argv0'', argv0 argv, Some ''--'', Some target]
        @ map (\<lambda>i. (i + 8, Some (argv ! i))) [1 ..< length argv])
       (replicate (length argv + 9) None)"

section \<open>The loader\<close>

definition musl_bsd_loader_is_secure :: "u64 \<Rightarrow> u32 \<Rightarrow> u32 \<Rightarrow> u32 \<Rightarrow> u32 \<Rightarrow> bool" where
  "musl_bsd_loader_is_secure at_secure real_uid effective_uid real_gid effective_gid \<longleftrightarrow>
     at_secure \<noteq> 0 \<or> real_uid \<noteq> effective_uid \<or> real_gid \<noteq> effective_gid"

definition basename_of :: "string \<Rightarrow> string" where
  "basename_of path =
     (if CHR ''/'' \<in> set path then rev (takeWhile (\<lambda>c. c \<noteq> CHR ''/'') (rev path)) else path)"

text \<open>The auxiliary vector and the credentials; \<open>None\<close> is an entry the kernel left out.\<close>

record process =
  AT_SECURE :: "u64 option"
  AT_EXECFN :: "string option"
  uid :: u32
  euid :: u32
  gid :: u32
  egid :: u32
  argv_of :: "string list"
  environ :: "string \<Rightarrow> string option"

datatype refusal =
    No_AT_SECURE | Secure_Execution | No_AT_EXECFN | Recursive_Loader
  | No_Preload_List errno | Argv_Too_Large | No_Argv_Memory

text \<open>
  How a run ends: an exit status after a refusal, the linker running with a vector, or
  the exit status after \<open>execve\<close> came back.
\<close>

datatype loader_end =
    Loader_Exit nat refusal | Linker_Runs string "string list" | Exec_Exit nat

text \<open>
  \<open>getenv\<close> with a log: every call appends the name it was asked for, so that a run's
  log is the list of the variables read, in order.
\<close>

definition getenv_logged ::
  "(string \<Rightarrow> string option) \<Rightarrow> string \<Rightarrow> string list \<Rightarrow> string option \<times> string list" where
  "getenv_logged environment variable log = (environment variable, log @ [variable])"

definition compatibility_path_logged ::
  "(string \<Rightarrow> string option) \<Rightarrow> string \<Rightarrow> string \<Rightarrow> string list \<Rightarrow> string \<times> string list" where
  "compatibility_path_logged environment variable configured log =
     (let (value, log) = getenv_logged environment variable log in
      (musl_bsd_compatibility_path (\<lambda>_. value) variable configured, log))"

lemma compatibility_path_logged_eq:
  "compatibility_path_logged e v configured log = (musl_bsd_compatibility_path e v configured, log @ [v])"
  by (simp add: compatibility_path_logged_def getenv_logged_def musl_bsd_compatibility_path_def)

definition LOADER_FAILURE :: nat where "LOADER_FAILURE = 126"
definition EXEC_FAILURE :: nat where "EXEC_FAILURE = 127"

text \<open>A run delivers its log of environment reads and how it ended.\<close>

record loader_env =
  loader_malloc :: "u64 \<Rightarrow> char list option"
  loader_calloc :: "u64 \<Rightarrow> u64 \<Rightarrow> bool"
  loader_execve :: "string \<Rightarrow> string list \<Rightarrow> bool"

definition loader_main ::
  "loader_config \<Rightarrow> loader_env \<Rightarrow> process \<Rightarrow> (string list \<times> loader_end) option" where
  "loader_main cfg env p =
     (let argv = argv_of p; argc = length argv; log = [];
          at_secure = (case AT_SECURE p of None \<Rightarrow> 0 | Some v \<Rightarrow> v);
          refuse = (\<lambda>log r. Some (log, Loader_Exit LOADER_FAILURE r)) in
      if at_secure = 0 \<and> AT_SECURE p = None then refuse log No_AT_SECURE
      else if musl_bsd_loader_is_secure at_secure (uid p) (euid p) (gid p) (egid p)
      then refuse log Secure_Execution
      else
        case nonempty (AT_EXECFN p) of
          None \<Rightarrow> refuse log No_AT_EXECFN
        | Some target \<Rightarrow>
            if basename_of target = MUSL_BSD_GLIBC_LOADER_NAME cfg then refuse log Recursive_Loader
            else
              let (core, log) =
                    compatibility_path_logged (environ p) ''MUSL_BSD_PRELOAD_PATH'' (MUSL_BSD_PRELOAD_PATH cfg) log;
                  (nvidia, log) = getenv_logged (environ p) ''MUSL_BSD_NVIDIA_TLS_PATH'' log;
                  (library_path, log) =
                    compatibility_path_logged (environ p) ''MUSL_BSD_LIBRARY_PATH'' (MUSL_BSD_LIBRARY_PATH cfg) log;
                  (user, log) = getenv_logged (environ p) ''LD_PRELOAD'' log in
              case musl_bsd_preload_list (loader_malloc env) (Some core) nvidia user of
                None \<Rightarrow> None
              | Some (Inl err) \<Rightarrow> refuse log (No_Preload_List err)
              | Some (Inr list) \<Rightarrow>
                  if (of_nat argc :: u64) > SIZE_MAX div 8 - 9 then refuse log Argv_Too_Large
                  else if \<not> loader_calloc env (of_nat argc + 9) 8 then refuse log No_Argv_Memory
                  else
                    case linker_argv (MUSL_BSD_MUSL_LINKER_PATH cfg) (cstr list) library_path argv target of
                      None \<Rightarrow> None
                    | Some new_argv \<Rightarrow>
                        if loader_execve env (MUSL_BSD_MUSL_LINKER_PATH cfg) (vector_of new_argv)
                        then Some (log, Linker_Runs (MUSL_BSD_MUSL_LINKER_PATH cfg) (vector_of new_argv))
                        else Some (log, Exec_Exit EXEC_FAILURE))"

section \<open>The \<open>exec\<close> family\<close>

text \<open>The functions the process falls back on are found once and kept.\<close>

record exec_state =
  exec_readlink :: readlink_state
  real_execve :: bool
  real_execvp :: bool

record exec_env =
  exec_links :: readlink_env
  exec_getenv :: "string \<Rightarrow> string option"
  exec_malloc :: "u64 \<Rightarrow> char list option"
  exec_calloc :: "u64 \<Rightarrow> u64 \<Rightarrow> bool"
  dlsym_execve :: bool
  dlsym_execvp :: bool

text \<open>
  What a call does: an error before any other function is called, or the call of the
  real function, whose result is the result.
\<close>

datatype exec_call =
    Exec_Error errno | Real_Execve string "string list" | Real_Execvp string "string list"

definition preload_list :: "loader_config \<Rightarrow> exec_env \<Rightarrow> (errno + char list) option" where
  "preload_list cfg env =
     (let core = musl_bsd_compatibility_path (exec_getenv env) ''MUSL_BSD_PRELOAD_PATH'' (MUSL_BSD_PRELOAD_PATH cfg);
          nvidia_tls = exec_getenv env ''MUSL_BSD_NVIDIA_TLS_PATH'';
          user = exec_getenv env ''LD_PRELOAD'' in
      musl_bsd_preload_list (exec_malloc env) (Some core) nvidia_tls user)"

definition musl_execve ::
  "loader_config \<Rightarrow> exec_env \<Rightarrow> string \<Rightarrow> string list \<Rightarrow> exec_state \<Rightarrow> (exec_call \<times> exec_state) option" where
  "musl_execve cfg env pathname argv st =
     (if \<not> real_execve st \<and> \<not> dlsym_execve env then Some (Exec_Error ENOSYS, st)
      else
        let st = st\<lparr>real_execve := True\<rparr> in
        if pathname = ''/proc/self/exe'' then
          (let argc = length argv in
           if (of_nat argc :: u64) > SIZE_MAX div 8 - 9 then Some (Exec_Error EOVERFLOW, st)
           else
             let (link, rl) = musl_readlink (exec_links env) ''/proc/self/exe'' (PATH_MAX - 1) (exec_readlink st);
                 st = st\<lparr>exec_readlink := rl\<rparr> in
             case link of
               Inl err \<Rightarrow> Some (Exec_Error err, st)
             | Inr bytes \<Rightarrow>
                 let target = cstr bytes in
                 (case preload_list cfg env of
                    None \<Rightarrow> None
                  | Some (Inl err) \<Rightarrow> Some (Exec_Error err, st)
                  | Some (Inr list) \<Rightarrow>
                      if \<not> exec_calloc env (of_nat argc + 9) 8 then Some (Exec_Error ENOMEM, st)
                      else
                        case linker_argv (MUSL_BSD_MUSL_LINKER_PATH cfg) (cstr list)
                            (musl_bsd_compatibility_path (exec_getenv env) ''MUSL_BSD_LIBRARY_PATH'' (MUSL_BSD_LIBRARY_PATH cfg))
                            argv target of
                          None \<Rightarrow> None
                        | Some new_argv \<Rightarrow>
                            Some (Real_Execve (MUSL_BSD_MUSL_LINKER_PATH cfg) (vector_of new_argv), st)))
        else Some (Real_Execve pathname argv, st))"

definition musl_execv ::
  "loader_config \<Rightarrow> exec_env \<Rightarrow> string \<Rightarrow> string list \<Rightarrow> exec_state \<Rightarrow> (exec_call \<times> exec_state) option" where
  "musl_execv cfg env pathname argv st = musl_execve cfg env pathname argv st"

definition musl_execvp ::
  "loader_config \<Rightarrow> exec_env \<Rightarrow> string \<Rightarrow> string list \<Rightarrow> exec_state \<Rightarrow> (exec_call \<times> exec_state) option" where
  "musl_execvp cfg env file argv st =
     (if file = ''/proc/self/exe'' then musl_execv cfg env file argv st
      else if \<not> real_execvp st \<and> \<not> dlsym_execvp env then Some (Exec_Error ENOSYS, st)
      else Some (Real_Execvp file argv, st\<lparr>real_execvp := True\<rparr>))"

section \<open>The vector that is built\<close>

lemma argv0_simps [simp]: "argv0 [] = None" "argv0 (a # as) = Some a"
  by (simp_all add: argv0_def)

text \<open>Nine fixed slots, the arguments after the first, and a \<open>NULL\<close>; all writes stay inside.\<close>

lemma linker_argv_slots:
  "linker_argv linker preloads lib argv target =
     Some ([Some linker, Some ''--preload'', Some preloads, Some ''--library-path'', Some lib,
            Some ''--argv0'', argv0 argv, Some ''--'', Some target] @ map Some (tl argv)
           @ (if argv = [] then [] else [None]))"
proof -
  let ?xs = "[Some linker, Some ''--preload'', Some preloads, Some ''--library-path'', Some lib,
            Some ''--argv0'', argv0 argv, Some ''--'', Some target]"
  have len: "length ?xs = 9" by simp
  have fixed: "poke_all (zip [0 ..< 9] ?xs) (replicate (length argv + 9) None) =
      Some (?xs @ replicate (length argv) None)"
    using poke_all_block [of "replicate 9 None" ?xs "[]" "replicate (length argv) None"] len
    by (simp only: replicate_add [symmetric] list.size length_replicate append_Nil add_0) (simp add: add.commute)
  have "map (\<lambda>i. (i + 8, Some (argv ! i))) [1 ..< length argv] =
      zip [9 ..< 9 + length (tl argv)] (map Some (tl argv))"
    by (rule nth_equalityI) (auto simp: nth_tl)
  moreover have "poke_all (zip [length ?xs ..< length ?xs + length (map Some (tl argv))] (map Some (tl argv)))
      (?xs @ replicate (length (tl argv)) None @ replicate (length argv - length (tl argv)) None) =
      Some (?xs @ map Some (tl argv) @ replicate (length argv - length (tl argv)) None)"
    by (rule poke_all_block) simp
  moreover have "replicate (length (tl argv)) None @ replicate (length argv - length (tl argv)) None
      = replicate (length argv) (None :: string option)"
    by (simp flip: replicate_add)
  moreover have "replicate (length argv - length (tl argv)) (None :: string option) =
      (if argv = [] then [] else [None])"
    by (cases argv) auto
  ultimately show ?thesis
    by (simp only: linker_argv_def poke_all_append fixed option.case len length_map)
qed

lemma linker_argv_vector:
  "map_option vector_of (linker_argv linker preloads lib (a # as) target) =
     Some ([linker, ''--preload'', preloads, ''--library-path'', lib, ''--argv0'', a, ''--'', target] @ as)"
  using vector_of_Somes [of "[linker, ''--preload'', preloads, ''--library-path'', lib, ''--argv0'', a, ''--'', target] @ as" "[]"]
  by (simp add: linker_argv_slots)

text \<open>Without any argument the \<open>NULL\<close> of \<open>argv[0]\<close> ends the vector before the target.\<close>

lemma linker_argv_vector_empty:
  "map_option vector_of (linker_argv linker preloads lib [] target) =
     Some [linker, ''--preload'', preloads, ''--library-path'', lib, ''--argv0'']"
  by (simp add: linker_argv_slots)

end
