(* ===== verification/Loader_Props.thy ===== *)
theory Loader_Props
  imports Loader
begin

text \<open>
  The properties of the compatibility loader: the preload list, the policy boundary, the
  argument vector, and the agreement between the loader, which writes a command line,
  and \<open>readlink\<close> and \<open>execve\<close>, which read it back in the process it starts.
\<close>

section \<open>The preload list\<close>

text \<open>
  C19: for any three strings and any allocator, the list is built without a write
  outside its block; it fails exactly when the core library is missing, the NVIDIA entry
  is not absolute or holds a colon (\<open>EINVAL\<close>), when the size leaves 64 bits
  (\<open>EOVERFLOW\<close>), or when memory is short (\<open>ENOMEM\<close>), and is otherwise the non-empty
  entries in the order core, NVIDIA, user, with single colons between them.
\<close>

theorem preload_list_result:
  assumes "malloc_sized malloc" and "\<forall>s \<in> set (present [core, nvidia, user]). length s < 2 ^ 64"
  shows "musl_bsd_preload_list malloc core nvidia user =
    (if nonempty core = None then Some (Inl EINVAL)
     else if \<exists>s. nonempty nvidia = Some s \<and> (hd s \<noteq> CHR ''/'' \<or> CHR '':'' \<in> set s) then Some (Inl EINVAL)
     else let ss = present [core, nvidia, user] in
       if 1 + room 0 ss \<ge> 2 ^ 64 then Some (Inl EOVERFLOW)
       else case malloc (1 + of_nat (room 0 ss)) of None \<Rightarrow> Some (Inl ENOMEM)
         | Some b \<Rightarrow> Some (Inr (join CHR '':'' ss @ [NUL])))"
  by (rule musl_bsd_preload_list_cases [OF assms])

definition test_malloc :: "u64 \<Rightarrow> char list option" where
  "test_malloc n = Some (replicate (unat n) CHR ''x'')"

lemma test_malloc_sized [simp]: "malloc_sized test_malloc"
  by (simp add: malloc_sized_def test_malloc_def)

lemma preload_list_result_witness:
  "musl_bsd_preload_list test_malloc (Some ''/a'') (Some ''/b'') (Some ''c:d'') =
    Some (Inr (''/a:/b:c:d'' @ [NUL]))"
  using preload_list_result [OF test_malloc_sized, of "Some ''/a''" "Some ''/b''" "Some ''c:d''"]
  by (simp add: test_malloc_def room_def)

section \<open>The policy boundary\<close>

lemmas loader_reads = Let_def compatibility_path_logged_eq getenv_logged_def

text \<open>
  C32: the loader exits with status 126 and the message for secure execution exactly when the
  kernel gave \<open>AT_SECURE\<close> and its value is not 0, or the real and effective user ids differ, or
  the real and effective group ids differ; with the message for a missing \<open>AT_SECURE\<close> exactly
  when the kernel gave none.  In both cases the log of \<open>getenv\<close> calls is empty, and the environment
  \<open>e\<close> has no influence on the decision.
\<close>

theorem loader_refuses_secure_execution:
  "(loader_main cfg env (p\<lparr>environ := e\<rparr>) = Some ([], Loader_Exit 126 Secure_Execution)
     \<longleftrightarrow> (\<exists>v. AT_SECURE p = Some v \<and> (v \<noteq> 0 \<or> uid p \<noteq> euid p \<or> gid p \<noteq> egid p)))
   \<and> (loader_main cfg env (p\<lparr>environ := e\<rparr>) = Some ([], Loader_Exit 126 No_AT_SECURE)
     \<longleftrightarrow> AT_SECURE p = None)"
  by (auto simp: loader_main_def loader_reads musl_bsd_loader_is_secure_def LOADER_FAILURE_def
      split: option.splits sum.splits if_splits)

definition test_config :: loader_config where
  "test_config = \<lparr>MUSL_BSD_GLIBC_LOADER_NAME = ''ld-linux'', MUSL_BSD_MUSL_LINKER_PATH = ''/lib/ld'',
     MUSL_BSD_PRELOAD_PATH = ''/lib/core'', MUSL_BSD_LIBRARY_PATH = ''/lib''\<rparr>"

definition test_process :: process where
  "test_process = \<lparr>AT_SECURE = Some 0, AT_EXECFN = Some ''/bin/app'', uid = 7, euid = 7, gid = 7, egid = 7,
     argv_of = [''app'', ''-x''], environ = \<lambda>_. None\<rparr>"

definition test_env :: loader_env where
  "test_env = \<lparr>loader_malloc = test_malloc, loader_calloc = \<lambda>_ _. True, loader_execve = \<lambda>_ _. True\<rparr>"

lemma loader_refuses_secure_execution_witness:
  "loader_main test_config test_env (test_process\<lparr>egid := 0, environ := Map.empty\<rparr>) =
     Some ([], Loader_Exit 126 Secure_Execution)
   \<and> loader_main test_config test_env (test_process\<lparr>environ := Map.empty\<rparr>) \<noteq>
     Some ([], Loader_Exit 126 Secure_Execution)"
  using loader_refuses_secure_execution [where cfg = test_config and env = test_env and p = "test_process\<lparr>egid := 0\<rparr>" and e = Map.empty]
    loader_refuses_secure_execution [where cfg = test_config and env = test_env and p = test_process and e = Map.empty]
  by (simp add: test_process_def)

section \<open>The vector the linker runs with\<close>

lemma musl_bsd_preload_list_Inr:
  assumes "musl_bsd_preload_list malloc core nvidia user = Some (Inr b)" and "malloc_sized malloc"
    and "\<forall>s \<in> set (present [core, nvidia, user]). length s < 2 ^ 64 \<and> c_string s"
  shows "cstr b = join CHR '':'' (present [core, nvidia, user])"
proof -
  have "\<forall>s \<in> set (present [core, nvidia, user]). length s < 2 ^ 64" using assms(3) by blast
  from assms(1) [unfolded musl_bsd_preload_list_cases [OF assms(2) this]]
  have "b = join CHR '':'' (present [core, nvidia, user]) @ [NUL]"
    by (auto simp: Let_def simp del: present_simps split: if_splits option.splits)
  moreover have "c_string (join CHR '':'' (present [core, nvidia, user]))"
    using assms(3) by (intro c_string_join) simp_all
  ultimately show ?thesis by simp
qed

lemma loader_main_runs:
  assumes "loader_main cfg env p = Some (reads, Linker_Runs linker args)"
  shows "\<exists>target preloads lib v. nonempty (AT_EXECFN p) = Some target \<and> linker = MUSL_BSD_MUSL_LINKER_PATH cfg
    \<and> basename_of target \<noteq> MUSL_BSD_GLIBC_LOADER_NAME cfg
    \<and> linker_argv linker preloads lib (argv_of p) target = Some v \<and> args = vector_of v"
  using assms
  by (fastforce simp: loader_main_def loader_reads split: if_splits option.splits sum.splits)

lemma loader_main_args:
  assumes "loader_main cfg env p = Some (reads, Linker_Runs linker args)" and "argv_of p = a # as"
  shows "\<exists>target preloads lib. AT_EXECFN p = Some target \<and> target \<noteq> []
    \<and> args = [linker, ''--preload'', preloads, ''--library-path'', lib, ''--argv0'', a, ''--'', target] @ as"
proof -
  obtain target preloads lib v where t: "nonempty (AT_EXECFN p) = Some target"
      "linker_argv linker preloads lib (a # as) target = Some v" "args = vector_of v"
    using loader_main_runs [OF assms(1)] assms(2) by auto
  with linker_argv_vector [of linker preloads lib a as target] show ?thesis
    by (auto simp: nonempty_eq_Some)
qed

text \<open>
  C13: with credentials that match, an executable that is not the loader itself,
  allocations that succeed and a vector of at least one argument, the loader runs the
  linker with the preload list, the library path, the original \<open>argv[0]\<close>, the program
  and its arguments; the secure-execution decision comes before the four environment
  variables it reads.
\<close>

theorem loader_runs_program:
  assumes "AT_SECURE p = Some 0" "uid p = euid p" "gid p = egid p"
    and "AT_EXECFN p = Some target" "target \<noteq> []" "basename_of target \<noteq> MUSL_BSD_GLIBC_LOADER_NAME cfg"
    and "argv_of p = a # as" "length as < 2 ^ 60"
    and "musl_bsd_preload_list (loader_malloc env)
        (Some (musl_bsd_compatibility_path (environ p) ''MUSL_BSD_PRELOAD_PATH'' (MUSL_BSD_PRELOAD_PATH cfg)))
        (environ p ''MUSL_BSD_NVIDIA_TLS_PATH'') (environ p ''LD_PRELOAD'') = Some (Inr (preloads @ [NUL]))"
    and "c_string preloads" "loader_calloc env (of_nat (length as) + 10) 8"
    and "\<And>v. loader_execve env (MUSL_BSD_MUSL_LINKER_PATH cfg) v"
  shows "loader_main cfg env p =
    Some ([''MUSL_BSD_PRELOAD_PATH'', ''MUSL_BSD_NVIDIA_TLS_PATH'', ''MUSL_BSD_LIBRARY_PATH'', ''LD_PRELOAD''],
      Linker_Runs (MUSL_BSD_MUSL_LINKER_PATH cfg)
        ([MUSL_BSD_MUSL_LINKER_PATH cfg, ''--preload'', preloads, ''--library-path'',
          musl_bsd_compatibility_path (environ p) ''MUSL_BSD_LIBRARY_PATH'' (MUSL_BSD_LIBRARY_PATH cfg),
          ''--argv0'', a, ''--'', target] @ as))"
proof -
  have "unat (1 + of_nat (length as) :: u64) = 1 + length as"
    using assms(8) by (subst unat_add_small) (simp_all add: unat_of_nat_u64)
  then have small: "\<not> SIZE_MAX div 8 - 9 < (1 + of_nat (length as) :: u64)"
    using assms(8) by (simp add: word_less_nat_alt SIZE_MAX_def)
  moreover have "loader_calloc env (1 + of_nat (length as) + 9) 8"
    using assms(11) by (simp add: add.commute add.left_commute)
  moreover obtain z where "linker_argv (MUSL_BSD_MUSL_LINKER_PATH cfg) preloads
      (musl_bsd_compatibility_path (environ p) ''MUSL_BSD_LIBRARY_PATH'' (MUSL_BSD_LIBRARY_PATH cfg))
      (a # as) target = Some z" and "vector_of z = [MUSL_BSD_MUSL_LINKER_PATH cfg, ''--preload'', preloads,
      ''--library-path'', musl_bsd_compatibility_path (environ p) ''MUSL_BSD_LIBRARY_PATH''
        (MUSL_BSD_LIBRARY_PATH cfg), ''--argv0'', a, ''--'', target] @ as"
    using linker_argv_vector [of "MUSL_BSD_MUSL_LINKER_PATH cfg" preloads _ a as target] by blast
  ultimately show ?thesis
    using assms by (simp add: loader_main_def loader_reads musl_bsd_loader_is_secure_def)
qed

lemma loader_runs_program_witness:
  "loader_main test_config test_env test_process =
    Some ([''MUSL_BSD_PRELOAD_PATH'', ''MUSL_BSD_NVIDIA_TLS_PATH'', ''MUSL_BSD_LIBRARY_PATH'', ''LD_PRELOAD''],
      Linker_Runs ''/lib/ld'' [''/lib/ld'', ''--preload'', ''/lib/core'', ''--library-path'', ''/lib'',
        ''--argv0'', ''app'', ''--'', ''/bin/app'', ''-x''])"
proof -
  have "musl_bsd_preload_list test_malloc (Some ''/lib/core'') None None = Some (Inr (''/lib/core'' @ [NUL]))"
    by (subst musl_bsd_preload_list_cases [OF test_malloc_sized])
      (simp_all add: Let_def room_def test_malloc_def)
  then show ?thesis
    using loader_runs_program [of test_process "''/bin/app''" test_config "''app''" "[''-x'']" test_env "''/lib/core''"]
    by (simp add: test_process_def test_config_def test_env_def basename_of_def musl_bsd_compatibility_path_def)
qed

section \<open>Reading the command line back\<close>

text \<open>The surroundings of a process the loader started with the vector \<open>args\<close>.\<close>

definition started_with :: "string list \<Rightarrow> string \<Rightarrow> readlink_env \<Rightarrow> bool" where
  "started_with args real env \<longleftrightarrow>
     dlsym_readlink env \<and> linker_realpath env = Inr real \<and> c_string real \<and> real \<noteq> []
     \<and> sys_readlink env ''/proc/self/exe'' (PATH_MAX - 1) = Inr real
     \<and> proc_cmdline env = Inr (cmdline_of args)"

lemma musl_readlink_started:
  assumes "started_with args real env"
  shows "musl_readlink env ''/proc/self/exe'' n readlink_start =
    (case target_from_cmdline PATH_MAX (Inr (cmdline_of args)) of
       Inl _ \<Rightarrow> (Inl EIO, \<lparr>exe_path = [], linker_path = Some real, real_readlink = True\<rparr>)
     | Inr t \<Rightarrow> (Inr (take n t), \<lparr>exe_path = t, linker_path = Some real, real_readlink = True\<rparr>))"
  using assms
  by (simp add: started_with_def musl_readlink_def readlink_start_def Let_def not_less_eq_eq [symmetric]
      split: sum.split)

lemma target_of_vector:
  assumes "\<forall>s \<in> set fixed. c_string s \<and> s \<noteq> ''--''" and "c_string t" "t \<noteq> []" "length t < PATH_MAX"
    and "length (cmdline_of (fixed @ [''--''])) + length t < PATH_MAX * 2"
  shows "target_from_cmdline PATH_MAX (Inr (cmdline_of (fixed @ [''--'', t] @ as))) = Inr t"
proof -
  let ?pre = "cmdline_of fixed @ ''--'' @ NUL # t"
  define cmdline where "cmdline = take (PATH_MAX * 2 - 1) (cmdline_of (fixed @ [''--'', t] @ as))"
  have "length ?pre \<le> PATH_MAX * 2 - 1" using assms(5) by simp
  then have "cmdline = ?pre @ take (PATH_MAX * 2 - 1 - length ?pre) (NUL # cmdline_of as)"
    using take_append [of "PATH_MAX * 2 - 1" ?pre "NUL # cmdline_of as"] by (simp add: cmdline_def)
  then have "cmdline = ?pre \<or> (\<exists>rest. cmdline = cmdline_of fixed @ ''--'' @ NUL # t @ NUL # rest)"
    by (cases "PATH_MAX * 2 - 1 - length ?pre") simp_all
  then have "target_scan PATH_MAX cmdline = Inr t" "cmdline \<noteq> []"
    using target_scan_found [OF assms(1-4)] by auto
  with target_from_cmdline_read [OF cmdline_def] show ?thesis by simp
qed

text \<open>
  C20: a process started by the loader reads the program back: \<open>readlink\<close> of
  \<^verbatim>\<open>/proc/self/exe\<close> delivers the path the kernel gave the loader, cut to the
  caller's buffer, and caches it.  The conditions: the argument vector is not empty; none of the
  seven words before the separator (the linker, the options and their values, and the original
  \<open>argv[0]\<close>) is itself \<^verbatim>\<open>--\<close>; these words and the program's path hold no \<open>NUL\<close>; the path is
  shorter than \<open>PATH_MAX\<close>; and the command line up to and with the path is shorter than the
  \<open>2 * PATH_MAX\<close> bytes of the buffer it is read into.  Without them it does not hold: see
  \<open>readlink_misled_by_argv0\<close> and \<open>readlink_accepts_cut_path\<close>.
\<close>

theorem loader_readlink_roundtrip:
  assumes "loader_main cfg env p = Some (reads, Linker_Runs linker args)" and "argv_of p \<noteq> []"
    and "\<forall>s \<in> set (take 7 args). c_string s \<and> s \<noteq> ''--''"
    and "AT_EXECFN p = Some target" "c_string target" "length target < PATH_MAX"
    and "length (cmdline_of (take 8 args)) + length target < PATH_MAX * 2"
    and "started_with args real renv"
  shows "musl_readlink renv ''/proc/self/exe'' n readlink_start =
    (Inr (take n target), \<lparr>exe_path = target, linker_path = Some real, real_readlink = True\<rparr>)"
proof -
  obtain a as where "argv_of p = a # as" using assms(2) by (cases "argv_of p") auto
  with loader_main_args [OF assms(1)] assms(4) obtain preloads lib where
    args: "args = [linker, ''--preload'', preloads, ''--library-path'', lib, ''--argv0'', a] @ [''--'', target] @ as"
      "target \<noteq> []"
    by auto
  have "target_from_cmdline PATH_MAX (Inr (cmdline_of args)) = Inr target"
    unfolding args(1) by (rule target_of_vector) (use assms(3,5-7) args in \<open>simp_all\<close>)
  with musl_readlink_started [OF assms(8)] show ?thesis by simp
qed

definition test_links :: "string list \<Rightarrow> readlink_env" where
  "test_links args = \<lparr>dlsym_readlink = True, sys_readlink = \<lambda>_ _. Inr ''/lib/ld'',
     linker_realpath = Inr ''/lib/ld'', proc_cmdline = Inr (cmdline_of args)\<rparr>"

lemma test_links_started [simp]: "started_with args ''/lib/ld'' (test_links args)"
  by (simp add: started_with_def test_links_def)

definition test_args :: "string list" where
  "test_args = [''/lib/ld'', ''--preload'', ''/lib/core'', ''--library-path'', ''/lib'',
     ''--argv0'', ''app'', ''--'', ''/bin/app'', ''-x'']"

lemma test_process_runs:
  "loader_main test_config test_env test_process =
    Some ([''MUSL_BSD_PRELOAD_PATH'', ''MUSL_BSD_NVIDIA_TLS_PATH'', ''MUSL_BSD_LIBRARY_PATH'', ''LD_PRELOAD''],
      Linker_Runs ''/lib/ld'' test_args)"
  by (simp add: loader_main_def loader_reads test_process_def test_config_def test_env_def test_args_def
      musl_bsd_loader_is_secure_def basename_of_def musl_bsd_compatibility_path_def SIZE_MAX_def
      musl_bsd_preload_list_cases [OF test_malloc_sized] room_def test_malloc_def linker_argv_slots
      cstr_def)

lemma loader_readlink_roundtrip_witness:
  "fst (musl_readlink (test_links test_args) ''/proc/self/exe'' 4 readlink_start) = Inr ''/bin''"
  using loader_readlink_roundtrip [OF test_process_runs, of "''/bin/app''" "''/lib/ld''" "test_links test_args" 4]
  by (simp add: test_process_def test_args_def PATH_MAX_def)

text \<open>The vector a re-execution builds, given the cached path.\<close>

lemma musl_execve_args:
  assumes "musl_execve cfg env ''/proc/self/exe'' (b # bs) st = Some (Real_Execve linker args, st')"
    and "exe_path (exec_readlink st) = target" "target \<noteq> []" "real_readlink (exec_readlink st)"
    and "c_string target" "length target < PATH_MAX"
  shows "\<exists>preloads lib. linker = MUSL_BSD_MUSL_LINKER_PATH cfg \<and>
    args = [linker, ''--preload'', preloads, ''--library-path'', lib, ''--argv0'', b, ''--'', target] @ bs"
proof -
  have link: "musl_readlink (exec_links env) ''/proc/self/exe'' (PATH_MAX - 1) (exec_readlink st) = (Inr target, exec_readlink st)"
    using musl_readlink_cached [of "exec_readlink st"] assms(2-4,6) by simp
  have "\<exists>preloads lib v. linker_argv linker preloads lib (b # bs) target = Some v \<and>
      args = vector_of v \<and> linker = MUSL_BSD_MUSL_LINKER_PATH cfg"
    using assms(1)
    by (fastforce simp: musl_execve_def Let_def link [unfolded One_nat_def] cstr_whole [OF assms(5)]
      split: if_splits option.splits sum.splits)
  then obtain preloads lib v where "linker_argv linker preloads lib (b # bs) target = Some v"
      "args = vector_of v" "linker = MUSL_BSD_MUSL_LINKER_PATH cfg" by blast
  with linker_argv_vector [of linker preloads lib b bs target] show ?thesis by auto
qed

text \<open>
  C28: a process that executes \<^verbatim>\<open>/proc/self/exe\<close> again stays the same program.
  With the program's path cached and not empty, \<open>execve\<close> with at least one argument runs the
  linker with that path after the separator, the new \<open>argv[0]\<close> and the new arguments, and the next
  process's \<open>readlink\<close> delivers the path once more.  The conditions are those of reading back: none of
  the seven words before the separator, so also not the new \<open>argv[0]\<close>, is \<^verbatim>\<open>--\<close>; these
  words and the path hold no \<open>NUL\<close>; the path is shorter than \<open>PATH_MAX\<close>; and the command line up to
  and with the path is shorter than the \<open>2 * PATH_MAX\<close> bytes of the buffer it is read into.
\<close>

theorem reexec_keeps_program:
  assumes "musl_execve cfg env ''/proc/self/exe'' (b # bs) st = Some (Real_Execve linker args, st')"
    and "exe_path (exec_readlink st) = target" "target \<noteq> []" "real_readlink (exec_readlink st)"
    and "c_string target" "length target < PATH_MAX"
    and "\<forall>s \<in> set (take 7 args). c_string s \<and> s \<noteq> ''--''"
    and "length (cmdline_of (take 8 args)) + length target < PATH_MAX * 2"
    and "started_with args real renv"
  shows "linker = MUSL_BSD_MUSL_LINKER_PATH cfg \<and> drop 9 args = bs \<and> args ! 6 = b
    \<and> args ! 7 = ''--'' \<and> args ! 8 = target
    \<and> fst (musl_readlink renv ''/proc/self/exe'' n readlink_start) = Inr (take n target)"
proof -
  obtain preloads lib where
    args: "args = [linker, ''--preload'', preloads, ''--library-path'', lib, ''--argv0'', b] @ [''--'', target] @ bs"
      and linker: "linker = MUSL_BSD_MUSL_LINKER_PATH cfg"
    using musl_execve_args [OF assms(1-6)] by auto
  have "target_from_cmdline PATH_MAX (Inr (cmdline_of args)) = Inr target"
    unfolding args by (rule target_of_vector) (use assms(3,5-8) args in \<open>simp_all\<close>)
  with musl_readlink_started [OF assms(9)] args linker show ?thesis by simp
qed

definition test_exec_env :: exec_env where
  "test_exec_env = \<lparr>exec_links = test_links test_args, exec_getenv = \<lambda>_. None, exec_malloc = test_malloc,
     exec_calloc = \<lambda>_ _. True, dlsym_execve = True, dlsym_execvp = True\<rparr>"

definition test_exec_state :: exec_state where
  "test_exec_state = \<lparr>exec_readlink = \<lparr>exe_path = ''/bin/app'', linker_path = None, real_readlink = True\<rparr>,
     real_execve = True, real_execvp = False\<rparr>"

lemma test_exec_runs:
  "musl_execve test_config test_exec_env ''/proc/self/exe'' [''app'', ''-x''] test_exec_state =
    Some (Real_Execve ''/lib/ld'' test_args, test_exec_state)"
  by (simp add: musl_execve_def Let_def test_exec_state_def test_config_def test_exec_env_def test_args_def
      musl_readlink_cached preload_list_def musl_bsd_compatibility_path_def SIZE_MAX_def PATH_MAX_def
      musl_bsd_preload_list_cases [OF test_malloc_sized] room_def test_malloc_def linker_argv_slots
      cstr_def)

lemma reexec_keeps_program_witness:
  "fst (musl_readlink (test_links test_args) ''/proc/self/exe'' 100 readlink_start) = Inr ''/bin/app''"
  using reexec_keeps_program [OF test_exec_runs, of "''/bin/app''" "''/lib/ld''" "test_links test_args" 100]
  by (simp add: test_exec_state_def test_args_def PATH_MAX_def test_config_def)

section \<open>Where reading back fails\<close>

text \<open>
  a program started with the name \<^verbatim>\<open>--\<close> is not found again: the scan takes the
  original \<open>argv[0]\<close> for the separator and \<open>readlink\<close> answers \<^verbatim>\<open>--\<close>, whatever the
  program is.
\<close>

theorem readlink_misled_by_argv0:
  assumes "loader_main cfg env p = Some (reads, Linker_Runs linker args)" and "argv_of p = ''--'' # as"
    and "\<forall>s \<in> set (take 6 args). c_string s \<and> s \<noteq> ''--''"
    and "length (cmdline_of (take 7 args)) + 2 < PATH_MAX * 2"
    and "started_with args real renv"
  shows "fst (musl_readlink renv ''/proc/self/exe'' n readlink_start) = Inr (take n ''--'')"
proof -
  from loader_main_args [OF assms(1,2)] obtain target preloads lib where
    args: "args = [linker, ''--preload'', preloads, ''--library-path'', lib, ''--argv0''] @ [''--'', ''--''] @ target # as"
    by auto
  have "target_from_cmdline PATH_MAX (Inr (cmdline_of args)) = Inr ''--''"
    unfolding args by (rule target_of_vector) (use assms(3,4) args in \<open>simp_all add: PATH_MAX_def\<close>)
  with musl_readlink_started [OF assms(5)] show ?thesis by simp
qed

definition dashes_args :: "string list" where
  "dashes_args = [''/lib/ld'', ''--preload'', ''/lib/core'', ''--library-path'', ''/lib'',
     ''--argv0'', ''--'', ''--'', ''/bin/app'']"

lemma readlink_misled_by_argv0_witness:
  "fst (musl_readlink (test_links dashes_args) ''/proc/self/exe'' 100 readlink_start) = Inr ''--''"
proof -
  have "loader_main test_config test_env (test_process\<lparr>argv_of := [''--'']\<rparr>) =
    Some ([''MUSL_BSD_PRELOAD_PATH'', ''MUSL_BSD_NVIDIA_TLS_PATH'', ''MUSL_BSD_LIBRARY_PATH'', ''LD_PRELOAD''],
      Linker_Runs ''/lib/ld'' dashes_args)"
    by (simp add: loader_main_def loader_reads test_process_def test_config_def test_env_def dashes_args_def
      musl_bsd_loader_is_secure_def basename_of_def musl_bsd_compatibility_path_def SIZE_MAX_def
      musl_bsd_preload_list_cases [OF test_malloc_sized] room_def test_malloc_def linker_argv_slots
      cstr_def)
  from readlink_misled_by_argv0 [OF this, of "[]" "''/lib/ld''" "test_links dashes_args" 100]
  show ?thesis by (simp add: dashes_args_def PATH_MAX_def test_process_def)
qed

text \<open>
  the command line is read into \<open>2 * PATH_MAX - 1\<close> bytes, and an item that the
  end of the buffer cuts is refused everywhere but after the separator: when the words
  before it are so long that the cut falls inside the program's path, \<open>readlink\<close> reports
  success with a path that has lost its end.
\<close>

theorem readlink_accepts_cut_path:
  assumes "started_with (fixed @ [''--'', target] @ as) real renv"
    and "\<forall>s \<in> set fixed. c_string s \<and> s \<noteq> ''--''" and "c_string target" "length target < PATH_MAX"
    and "length (cmdline_of (fixed @ [''--''])) + k = PATH_MAX * 2 - 1" "0 < k" "k < length target"
  shows "fst (musl_readlink renv ''/proc/self/exe'' n readlink_start) = Inr (take n (take k target))
    \<and> take k target \<noteq> target"
proof -
  have t: "take k target \<noteq> []" "take k target \<noteq> target" "length (take k target) < PATH_MAX"
      "c_string (take k target)"
    using assms(3,4,6,7) by (auto simp: c_string_def dest: in_set_takeD arg_cong [of _ _ length])
  let ?pre = "cmdline_of (fixed @ [''--''])"
  have "take (PATH_MAX * 2 - 1) (?pre @ target @ NUL # cmdline_of as) = ?pre @ take k target"
    unfolding assms(5) [symmetric] using assms(7) by (simp del: cmdline_of_simps)
  then have "take (PATH_MAX * 2 - 1) (cmdline_of (fixed @ [''--'', target] @ as)) =
      cmdline_of fixed @ ''--'' @ NUL # take k target"
    by simp
  from target_from_cmdline_read [OF this [symmetric]] target_scan_found(2) [OF assms(2) t(4,1,3)]
  have "target_from_cmdline PATH_MAX (Inr (cmdline_of (fixed @ [''--'', target] @ as))) = Inr (take k target)"
    by simp
  with musl_readlink_started [OF assms(1)] t(2) show ?thesis by simp
qed

lemma replicate_neq_dashes: "replicate n CHR ''x'' \<noteq> ''--''"
  by (cases n) auto

lemma readlink_accepts_cut_path_witness:
  "fst (musl_readlink (test_links [replicate 8184 CHR ''x'', ''--'', ''/bin/app'']) ''/proc/self/exe'' 100
     readlink_start) = Inr ''/bi''"
  using readlink_accepts_cut_path [of "[replicate 8184 CHR ''x'']" "''/bin/app''" "[]" "''/lib/ld''"
      "test_links [replicate 8184 CHR ''x'', ''--'', ''/bin/app'']" 3 100]
  by (simp add: PATH_MAX_def c_string_def replicate_neq_dashes)

text \<open>
  C40: a successful \<open>readlink\<close> of \<^verbatim>\<open>/proc/self/exe\<close> fixes the answer: later calls give
  the same path in whatever surroundings, each cut to its own buffer; a failing one
  reports \<open>EIO\<close> or the reason the linker's own path is unknown, and caches nothing.
\<close>

theorem readlink_answer_is_stable:
  assumes "musl_readlink env ''/proc/self/exe'' len st = (r, st')" and "exe_path st = []"
    and "\<And>b. sys_readlink env ''/proc/self/exe'' (PATH_MAX - 1) = Inr b \<Longrightarrow> c_string b"
  shows "(case r of
      Inr bs \<Rightarrow> (\<exists>path. path \<noteq> [] \<and> bs = take len path \<and>
        (\<forall>env' n. musl_readlink env' ''/proc/self/exe'' n st' = (Inr (take n path), st')))
    | Inl err \<Rightarrow> exe_path st' = [] \<and> (err = EIO \<or> err = ENOSYS \<or> linker_realpath env = Inl err))"
proof (cases r)
  case (Inr bs)
  with musl_readlink_fills [of env len st bs st'] assms(1,3) musl_readlink_cached [of st'] show ?thesis
    by auto
next
  case (Inl err)
  with assms(1,2) show ?thesis
    by (auto simp: musl_readlink_def Let_def split: if_splits option.splits sum.splits)
qed

lemma readlink_answer_is_stable_witness:
  "\<exists>path. ''/bin'' = take 4 path \<and>
    (\<forall>env' n. musl_readlink env' ''/proc/self/exe'' n (snd (musl_readlink (test_links test_args) ''/proc/self/exe'' 4 readlink_start)) =
      (Inr (take n path), snd (musl_readlink (test_links test_args) ''/proc/self/exe'' 4 readlink_start)))"
proof -
  let ?r = "musl_readlink (test_links test_args) ''/proc/self/exe'' 4 readlink_start"
  have "target_from_cmdline PATH_MAX (Inr (cmdline_of test_args)) = Inr ''/bin/app''"
    using target_of_vector [of "take 7 test_args" "''/bin/app''" "[''-x'']"]
    by (simp add: test_args_def PATH_MAX_def)
  then have "?r = (Inr ''/bin'', snd ?r)"
    by (simp add: musl_readlink_started [OF test_links_started])
  from readlink_answer_is_stable [OF this] show ?thesis
    by (simp add: readlink_start_def test_links_def) blast
qed

end
