(* ===== verification/Compat_Misc.thy ===== *)
theory Compat_Misc
  imports C_Lib
begin

text \<open>
  The small compatibility functions that carry logic of their own: the bounded string
  functions (\<^verbatim>\<open>src/compat/string.c\<close>), error reporting
  (\<^verbatim>\<open>src/compat/error.c\<close>), symbol and link-map lookup
  (\<^verbatim>\<open>src/compat/dlfcn.c\<close>), the frame capture of \<open>backtrace\<close>
  (\<^verbatim>\<open>src/compat/glibc.c\<close>) and the version strings
  (\<^verbatim>\<open>src/compat/version.c\<close>).
\<close>

section \<open>Bounded strings\<close>

text \<open>
  \<open>dst\<close> is the index of the destination inside a buffer.  The result is the buffer and
  the return value, \<open>None\<close> when a byte outside the buffer is touched.
\<close>

definition strlcpy :: "nat \<Rightarrow> string \<Rightarrow> nat \<Rightarrow> char list \<Rightarrow> (char list \<times> nat) option" where
  "strlcpy dst src sz buf =
     (let src_len = length src in
      if sz \<noteq> 0 then
        let copy_len = (if src_len \<ge> sz then sz - 1 else src_len) in
        case copy_in dst (take copy_len src) buf of
          None \<Rightarrow> None
        | Some buf1 \<Rightarrow> map_option (\<lambda>b. (b, src_len)) (poke (dst + copy_len) NUL buf1)
      else Some (buf, src_len))"

definition strnlen :: "char list \<Rightarrow> nat \<Rightarrow> nat option" where
  "strnlen buf sz =
     (let n = length (takeWhile (\<lambda>c. c \<noteq> NUL) (take sz buf)) in
      if n = length buf \<and> n < sz then None else Some n)"

definition strlcat :: "string \<Rightarrow> nat \<Rightarrow> char list \<Rightarrow> (char list \<times> nat) option" where
  "strlcat src sz buf =
     (case strnlen buf sz of
        None \<Rightarrow> None
      | Some dst_len \<Rightarrow>
          let src_len = length src in
          if dst_len = sz then Some (buf, sz + src_len)
          else map_option (\<lambda>(b, n). (b, dst_len + n)) (strlcpy dst_len src (sz - dst_len) buf))"

text \<open>\<open>__rawmemchr\<close>: no length bounds the search; the index found, or no behaviour.\<close>

fun rawmemchr :: "u8 list \<Rightarrow> u32 \<Rightarrow> nat option" where
  "rawmemchr [] byte = None"
| "rawmemchr (p # ps) byte = (if p \<noteq> ucast byte then map_option Suc (rawmemchr ps byte) else Some 0)"

lemma strlcpy_exact:
  assumes "dst + sz \<le> length buf" "0 < sz"
  shows "strlcpy dst src sz buf =
    Some (take dst buf @ take (sz - 1) src @ NUL # drop (dst + min (sz - 1) (length src) + 1) buf, length src)"
proof -
  let ?n = "min (sz - 1) (length src)"
  have n: "(if length src \<ge> sz then sz - 1 else length src) = ?n" "take ?n src = take (sz - 1) src"
    using assms(2) by (auto simp: min_def)
  have "dst + ?n < length buf" using assms by (simp add: min_def) linarith
  then have "poke (dst + ?n) NUL (take dst buf @ take ?n src @ drop (dst + ?n) buf) =
      Some (take dst buf @ take ?n src @ NUL # drop (dst + ?n + 1) buf)"
    using poke_append [of "take dst buf @ take ?n src" NUL "buf ! (dst + ?n)" "drop (Suc (dst + ?n)) buf"]
      Cons_nth_drop_Suc [of "dst + ?n" buf]
    by (simp add: min.absorb2)
  moreover have "copy_in dst (take ?n src) buf = Some (take dst buf @ take ?n src @ drop (dst + ?n) buf)"
    using assms by (auto simp: copy_in_def)
  ultimately show ?thesis
    using assms(2) unfolding strlcpy_def Let_def n(1) by simp (simp add: min_def)
qed

lemma strnlen_string:
  assumes "c_string d" "length d < sz"
  shows "strnlen (d @ NUL # rest) sz = Some (length d)"
proof -
  have "takeWhile (\<lambda>c. c \<noteq> NUL) (take sz (d @ NUL # rest)) = d"
    using assms cmdline_of_item(1) [OF assms(1), of "take (sz - length d - 1) rest"]
    by (simp add: take_Cons')
  then show ?thesis by (simp add: strnlen_def)
qed

lemma strlcat_string:
  assumes "c_string d" "length d < sz" "sz \<le> length (d @ NUL # rest)"
  shows "\<exists>buf. strlcat src sz (d @ NUL # rest) = Some (buf, length d + length src)
    \<and> buf = take (sz - 1) (d @ src) @ NUL # drop (min (sz - 1) (length d + length src) - length d) rest"
proof -
  let ?buf = "d @ NUL # rest"
  have "strlcpy (length d) src (sz - length d) ?buf =
      Some (d @ take (sz - length d - 1) src @ NUL #
        drop (length d + min (sz - length d - 1) (length src) + 1) ?buf, length src)"
    using strlcpy_exact [of "length d" "sz - length d" ?buf src] assms by simp
  moreover have "take (sz - 1) (d @ src) = d @ take (sz - length d - 1) src"
    using assms(2) by (simp add: diff_commute)
  moreover have "drop (length d + min (sz - length d - 1) (length src) + 1) ?buf =
      drop (min (sz - 1) (length d + length src) - length d) rest"
    using assms(2) by (simp add: min_def) (auto intro: arg_cong [of _ _ "\<lambda>n. drop n rest"])
  ultimately show ?thesis
    using assms(2) by (simp add: strlcat_def strnlen_string [OF assms(1,2)])
qed

section \<open>Error reporting\<close>

text \<open>What a message writes to \<open>stderr\<close>, in order; \<open>vfprintf\<close> and \<open>strerror\<close> are the C library's.\<close>

datatype error_out =
    Progname_Hook | Program_Name string | Location string u32 | Text string
  | Error_Text u32 | Newline

record error_state =
  error_print_progname :: bool
  program_invocation_name :: "string option"
  error_message_count :: u32
  error_one_per_line :: bool
  last_fname :: "string option"
  last_lineno :: u32

text \<open>The third component is the exit status when the message ends the program.\<close>

definition error_messagev ::
  "u32 \<Rightarrow> u32 \<Rightarrow> string option \<Rightarrow> u32 \<Rightarrow> string \<Rightarrow> bool \<Rightarrow> error_state \<Rightarrow>
   error_out list \<times> error_state \<times> u32 option" where
  "error_messagev status errnum fname lineno msg with_location st =
     (if error_one_per_line st \<and> with_location \<and> last_fname st \<noteq> None \<and> fname \<noteq> None
         \<and> last_lineno st = lineno \<and> the (last_fname st) = the fname
      then ([], st, None)
      else
        let out1 = (if error_print_progname st then [Progname_Hook]
               else case nonempty (program_invocation_name st) of
                      None \<Rightarrow> [] | Some n \<Rightarrow> [Program_Name n]);
            out2 = (case fname of Some f \<Rightarrow> if with_location then [Location f lineno] else [] | None \<Rightarrow> []);
            out3 = (if errnum \<noteq> 0 then [Error_Text errnum] else []);
            st1 = st\<lparr>error_message_count := error_message_count st + 1\<rparr>;
            st2 = (if with_location \<and> fname \<noteq> None
               then st1\<lparr>last_fname := fname, last_lineno := lineno\<rparr> else st1) in
        (out1 @ out2 @ [Text msg] @ out3 @ [Newline], st2, if status \<noteq> 0 then Some status else None))"

definition error_plain :: "u32 \<Rightarrow> u32 \<Rightarrow> string \<Rightarrow> error_state \<Rightarrow> error_out list \<times> error_state \<times> u32 option" where
  "error_plain status errnum msg st = error_messagev status errnum None 0 msg False st"

definition error_at_line ::
  "u32 \<Rightarrow> u32 \<Rightarrow> string option \<Rightarrow> u32 \<Rightarrow> string \<Rightarrow> error_state \<Rightarrow>
   error_out list \<times> error_state \<times> u32 option" where
  "error_at_line status errnum fname lineno msg st =
     error_messagev status errnum fname lineno msg True st"

text \<open>A run of located messages that do not end the program.\<close>

fun report_all :: "(string \<times> u32 \<times> string) list \<Rightarrow> error_state \<Rightarrow> error_out list \<times> error_state" where
  "report_all [] st = ([], st)"
| "report_all ((f, l, t) # ms) st =
     (case error_at_line 0 0 (Some f) l t st of
        (out, st1, _) \<Rightarrow> (case report_all ms st1 of (out', st2) \<Rightarrow> (out @ out', st2)))"

definition locations :: "error_out list \<Rightarrow> (string \<times> u32) list" where
  "locations out = List.map_filter (\<lambda>e. case e of Location f l \<Rightarrow> Some (f, l) | _ \<Rightarrow> None) out"

lemma locations_simps [simp]: "locations [] = []"
  "locations (Location f l # out) = (f, l) # locations out"
  "locations (Progname_Hook # out) = locations out" "locations (Program_Name n # out) = locations out"
  "locations (Text t # out) = locations out" "locations (Newline # out) = locations out"
  "locations (Error_Text e # out) = locations out"
  by (simp_all add: locations_def List.map_filter_simps)

lemma locations_append [simp]: "locations (xs @ ys) = locations xs @ locations ys"
  by (induction xs) (simp_all add: locations_def List.map_filter_def)

text \<open>The location a further message is compared with.\<close>

definition last_location :: "error_state \<Rightarrow> (string \<times> u32) option" where
  "last_location st = map_option (\<lambda>f. (f, last_lineno st)) (last_fname st)"

lemma report_one:
  assumes "error_one_per_line st"
  shows "\<exists>out st1. error_at_line 0 0 (Some f) l t st = (out, st1, None)
    \<and> locations out = (if last_location st = Some (f, l) then [] else [(f, l)])
    \<and> error_one_per_line st1 \<and> last_location st1 = Some (f, l)
    \<and> error_message_count st1 = error_message_count st + of_nat (length (locations out))"
  using assms
  by (auto simp: error_at_line_def error_messagev_def last_location_def Let_def split: option.splits)

lemma report_all_locations:
  assumes "error_one_per_line st"
  shows "\<exists>out st1. report_all ms st = (out, st1)
    \<and> (case last_location st of
         None \<Rightarrow> locations out = remdups_adj (map (\<lambda>(f, l, t). (f, l)) ms)
       | Some p \<Rightarrow> p # locations out = remdups_adj (p # map (\<lambda>(f, l, t). (f, l)) ms))
    \<and> error_message_count st1 = error_message_count st + of_nat (length (locations out))"
  using assms
proof (induction ms arbitrary: st)
  case Nil
  then show ?case by (simp split: option.split)
next
  case (Cons m ms)
  obtain f l t where m: "m = (f, l, t)" by (cases m)
  obtain out st1 where one: "error_at_line 0 0 (Some f) l t st = (out, st1, None)"
      "locations out = (if last_location st = Some (f, l) then [] else [(f, l)])"
      "error_one_per_line st1" "last_location st1 = Some (f, l)"
      "error_message_count st1 = error_message_count st + of_nat (length (locations out))"
    using report_one [OF Cons.prems] by blast
  from Cons.IH [OF one(3)] one(4) obtain out' st2 where rest: "report_all ms st1 = (out', st2)"
      "(f, l) # locations out' = remdups_adj ((f, l) # map (\<lambda>(f, l, t). (f, l)) ms)"
      "error_message_count st2 = error_message_count st1 + of_nat (length (locations out'))"
    by auto
  show ?case
    using one rest m by (auto split: option.split)
qed

section \<open>Symbols and link maps\<close>

text \<open>
  The dynamic linker's functions are the environment's.  Handles and link maps are
  numbers; \<open>opened\<close> counts the handles that are open.
\<close>

definition dlvsym_version_supported :: "string option \<Rightarrow> bool" where
  "dlvsym_version_supported version =
     (case version of None \<Rightarrow> False
      | Some v \<Rightarrow> v \<in> set [''GLIBC_2.2.5'', ''GLIBC_2.3'', ''GLIBC_2.3.2'', ''GLIBC_2.3.3'', ''GLIBC_2.3.4'',
          ''GLIBC_2.4'', ''GLIBC_2.6'', ''GLIBC_2.7'', ''GLIBC_2.9'', ''GLIBC_2.10'', ''GLIBC_2.12'',
          ''GLIBC_2.14'', ''GLIBC_2.16'', ''GLIBC_2.17''])"

text \<open>Looking up the empty name fails and leaves an error for \<open>dlerror\<close>.\<close>

definition dynamic_lookup_error :: "('h \<Rightarrow> string \<Rightarrow> 'p) \<Rightarrow> 'h \<Rightarrow> 'p" where
  "dynamic_lookup_error dlsym handle = dlsym handle []"

definition dlvsym :: "('h \<Rightarrow> string \<Rightarrow> 'p) \<Rightarrow> 'h \<Rightarrow> string \<Rightarrow> string option \<Rightarrow> 'p" where
  "dlvsym dlsym handle symbol version =
     (if \<not> dlvsym_version_supported version then dynamic_lookup_error dlsym handle
      else dlsym handle symbol)"

definition dlmopen ::
  "('h \<Rightarrow> string \<Rightarrow> 'p) \<Rightarrow> (string \<Rightarrow> u32 \<Rightarrow> 'p) \<Rightarrow> 'h \<Rightarrow> 'l \<Rightarrow> 'l \<Rightarrow> string \<Rightarrow> u32 \<Rightarrow> 'p" where
  "dlmopen dlsym dlopen RTLD_DEFAULT LM_ID_BASE lmid filename flags =
     (if lmid \<noteq> LM_ID_BASE then dynamic_lookup_error dlsym RTLD_DEFAULT
      else dlopen filename flags)"

record dl_info =
  dli_fname :: string
  dli_fbase :: u64

record dl_env =
  dl_addr :: "u64 \<Rightarrow> dl_info option"
  dl_open_loaded :: "string \<Rightarrow> u64 option"
  dl_open_main :: "u64 option"
  dl_linkmap :: "u64 \<Rightarrow> u64 option"
  l_addr :: "u64 \<Rightarrow> u64"

definition RTLD_DL_LINKMAP :: u32 where "RTLD_DL_LINKMAP = 2"

text \<open>
  The result: the return value, what \<open>*extra_info\<close> is set to, and the handles opened
  and not closed.  \<open>extra\<close> tells whether the caller passed a place for the result;
  \<open>dlinfo\<close> of a handle that has no link map fails.
\<close>

definition dladdr1 :: "dl_env \<Rightarrow> u64 \<Rightarrow> bool \<Rightarrow> u32 \<Rightarrow> bool \<times> u64 option \<times> int" where
  "dladdr1 env address extra flags =
     (if \<not> extra then (False, None, 0)
      else case dl_addr env address of
        None \<Rightarrow> (False, None, 0)
      | Some info \<Rightarrow>
          if flags \<noteq> RTLD_DL_LINKMAP then (False, None, 0)
          else (case dl_open_loaded env (dli_fname info) of
            Some handle \<Rightarrow>
              let opened = 1; result = dl_linkmap env handle; closed = opened - 1
              in (result \<noteq> None, result, closed)
          | None \<Rightarrow>
              (case dl_open_main env of
                 None \<Rightarrow> (False, None, 0)
               | Some handle \<Rightarrow>
                   let opened = 1; map = dl_linkmap env handle;
                       result = (case map of None \<Rightarrow> False
                         | Some m \<Rightarrow> m \<noteq> 0 \<and> l_addr env m = dli_fbase info);
                       closed = opened - 1
                   in (result, if result then map else None, closed))))"

section \<open>Capturing a backtrace\<close>

datatype unwind_reason = URC_NO_REASON | URC_END_OF_STACK

record backtrace_state =
  frames :: "u64 list"
  previous_cfa :: u64
  previous_ip :: u64
  count :: nat
  capacity :: int
  skip_current :: bool

text \<open>\<open>None\<close>: a write outside the caller's buffer.\<close>

definition capture_backtrace_frame ::
  "u64 \<times> u64 \<Rightarrow> backtrace_state \<Rightarrow> (unwind_reason \<times> backtrace_state) option" where
  "capture_backtrace_frame context st =
     (let (cfa, ip) = context in
      if skip_current st then Some (URC_NO_REASON, st\<lparr>skip_current := False\<rparr>)
      else if count st > 0 \<and> cfa = previous_cfa st \<and> ip = previous_ip st
      then Some (URC_END_OF_STACK, st)
      else case poke (count st) ip (frames st) of
        None \<Rightarrow> None
      | Some fs \<Rightarrow>
          let st1 = st\<lparr>frames := fs, count := count st + 1, previous_cfa := cfa, previous_ip := ip\<rparr>
          in Some (if int (count st1) = capacity st1 then URC_END_OF_STACK else URC_NO_REASON, st1))"

text \<open>The unwinder calls back for each frame until it is told to stop or has no more.\<close>

fun unwind_backtrace :: "(u64 \<times> u64) list \<Rightarrow> backtrace_state \<Rightarrow> backtrace_state option" where
  "unwind_backtrace [] st = Some st"
| "unwind_backtrace (c # cs) st =
     (case capture_backtrace_frame c st of
        None \<Rightarrow> None
      | Some (URC_NO_REASON, st1) \<Rightarrow> unwind_backtrace cs st1
      | Some (URC_END_OF_STACK, st1) \<Rightarrow> Some st1)"

definition backtrace :: "(u64 \<times> u64) list \<Rightarrow> u64 list \<Rightarrow> int \<Rightarrow> (nat \<times> u64 list) option" where
  "backtrace stack buffer sz =
     (let st = \<lparr>frames = buffer, previous_cfa = 0, previous_ip = 0, count = 0, capacity = sz,
          skip_current = True\<rparr> in
      if sz \<le> 0 then Some (0, buffer)
      else case unwind_backtrace stack st of
        None \<Rightarrow> None
      | Some st1 \<Rightarrow>
          if count st1 > 0 \<and> frames st1 ! (count st1 - 1) = 0
          then Some (count st1 - 1, frames st1) else Some (count st1, frames st1))"

text \<open>The frames a capture may record: those before the first that repeats its predecessor.\<close>

fun progressing :: "u64 \<times> u64 \<Rightarrow> (u64 \<times> u64) list \<Rightarrow> (u64 \<times> u64) list" where
  "progressing p [] = []"
| "progressing p (c # cs) = (if c = p then [] else c # progressing c cs)"

definition recorded :: "(u64 \<times> u64) list \<Rightarrow> u64 list" where
  "recorded stack = map snd (case stack of [] \<Rightarrow> [] | c # cs \<Rightarrow> c # progressing c cs)"

lemma unwind_backtrace_captures:
  assumes "\<not> skip_current st" "count st = length pfx" "0 < count st" "frames st = pfx @ rest"
    and "int (count st) < capacity st" "capacity st \<le> int (length (frames st))"
  shows "\<exists>st1. unwind_backtrace cs st = Some st1
    \<and> (let new = take (nat (capacity st) - count st) (map snd (progressing (previous_cfa st, previous_ip st) cs)) in
       count st1 = count st + length new \<and> frames st1 = pfx @ new @ drop (length new) rest)"
  using assms
proof (induction cs arbitrary: st pfx rest)
  case Nil
  then show ?case by simp
next
  case (Cons c cs)
  obtain cfa ip where c: "c = (cfa, ip)" by (cases c)
  show ?case
  proof (cases "c = (previous_cfa st, previous_ip st)")
    case True
    with Cons.prems c show ?thesis by (simp add: capture_backtrace_frame_def)
  next
    case False
    obtain r rs where rest: "rest = r # rs" using Cons.prems by (cases rest) auto
    define st1 where "st1 = st\<lparr>frames := pfx @ ip # rs, count := count st + 1,
      previous_cfa := cfa, previous_ip := ip\<rparr>"
    have cap: "capture_backtrace_frame c st =
        Some (if int (count st1) = capacity st1 then URC_END_OF_STACK else URC_NO_REASON, st1)"
      using Cons.prems False c rest by (auto simp: capture_backtrace_frame_def st1_def Let_def)
    define k where "k = nat (capacity st) - count st"
    have k: "k = Suc (nat (capacity st1) - count st1)" "nat (capacity st) - length pfx = k"
      using Cons.prems by (simp_all add: k_def st1_def)
    show ?thesis
    proof (cases "int (count st1) = capacity st1")
      case True
      then have "k = Suc 0" using k by simp
      with True cap k(2) Cons.prems c False rest show ?thesis
        by (simp add: st1_def Let_def)
    next
      case nc: False
      have "\<exists>st2. unwind_backtrace cs st1 = Some st2
        \<and> (let new = take (nat (capacity st1) - count st1) (map snd (progressing (previous_cfa st1, previous_ip st1) cs)) in
           count st2 = count st1 + length new \<and> frames st2 = (pfx @ [ip]) @ new @ drop (length new) rs)"
        by (rule Cons.IH) (use Cons.prems rest nc in \<open>auto simp: st1_def\<close>)
      with cap nc k c False rest show ?thesis
        by (auto simp: k_def [symmetric] Let_def st1_def)
    qed
  qed
qed

lemma backtrace_exact:
  assumes "0 < sz" "sz \<le> int (length buffer)"
  shows "let ips = take (nat sz) (recorded (tl stack)) in
    backtrace stack buffer sz =
      Some (length ips - (if ips \<noteq> [] \<and> last ips = 0 then 1 else 0), ips @ drop (length ips) buffer)"
proof (cases stack)
  case Nil
  with assms show ?thesis by (simp add: backtrace_def recorded_def)
next
  case (Cons c0 cs0)
  show ?thesis
  proof (cases cs0)
    case Nil
    with assms \<open>stack = c0 # cs0\<close> show ?thesis
      by (cases c0) (simp add: backtrace_def recorded_def capture_backtrace_frame_def)
  next
    case (Cons c cs)
    obtain cfa ip where c: "c = (cfa, ip)" by (cases c)
    obtain b bs where b: "buffer = b # bs" using assms by (cases buffer) auto
    define st where "st = \<lparr>frames = ip # bs, previous_cfa = cfa, previous_ip = ip, count = 1,
      capacity = sz, skip_current = False\<rparr>"
    define ips where "ips = take (nat sz) (recorded (tl stack))"
    obtain m where m: "nat sz = Suc m" using assms(1) by (cases "nat sz") auto
    have ips: "ips = ip # take m (map snd (progressing c cs))"
      using \<open>stack = c0 # cs0\<close> Cons c m by (simp add: ips_def recorded_def)
    have "\<exists>st1. unwind_backtrace stack \<lparr>frames = buffer, previous_cfa = 0, previous_ip = 0, count = 0,
        capacity = sz, skip_current = True\<rparr> = Some st1 \<and> count st1 = length ips
        \<and> frames st1 = ips @ drop (length ips) buffer"
    proof (cases "sz = 1")
      case True
      with \<open>stack = c0 # cs0\<close> Cons c b m ips show ?thesis
        by (cases c0) (simp add: capture_backtrace_frame_def poke_def)
    next
      case False
      with assms have "\<exists>st1. unwind_backtrace cs st = Some st1
        \<and> (let new = take (nat (capacity st) - count st) (map snd (progressing (previous_cfa st, previous_ip st) cs)) in
           count st1 = count st + length new \<and> frames st1 = [ip] @ new @ drop (length new) bs)"
        by (intro unwind_backtrace_captures) (auto simp: st_def b)
      with False \<open>stack = c0 # cs0\<close> Cons c b m ips show ?thesis
        by (cases c0) (auto simp: capture_backtrace_frame_def poke_def st_def Let_def)
    qed
    then obtain st1 where st1: "unwind_backtrace stack \<lparr>frames = buffer, previous_cfa = 0, previous_ip = 0,
        count = 0, capacity = sz, skip_current = True\<rparr> = Some st1" "count st1 = length ips"
        "frames st1 = ips @ drop (length ips) buffer"
      by blast
    moreover have "ips \<noteq> []" using ips by simp
    moreover from this have "(ips @ drop (length ips) buffer) ! (length ips - 1) = last ips"
      by (simp add: nth_append last_conv_nth)
    ultimately show ?thesis
      using assms(1) by (simp add: backtrace_def Let_def ips_def [symmetric])
  qed
qed

section \<open>Versions\<close>

definition gnu_get_libc_version :: "(string \<Rightarrow> string option) \<Rightarrow> string" where
  "gnu_get_libc_version secure_getenv =
     (let version = secure_getenv ''GLIBC_FAKE_VERSION'' in
      case nonempty version of None \<Rightarrow> ''2.17'' | Some v \<Rightarrow> v)"

section \<open>Properties\<close>

text \<open>
  C39: \<open>strlcat\<close> onto a string of length below \<open>size\<close> in a buffer of at least \<open>size\<close>
  bytes writes nothing outside the first \<open>size\<close> bytes, leaves the concatenation cut to
  \<open>size - 1\<close> characters and terminated, and returns the length it tried to create, so a
  result of at least \<open>size\<close> says exactly that characters were lost.
\<close>

theorem strlcat_truncates:
  assumes "c_string d" "c_string src" "length d < sz" "sz \<le> length (d @ NUL # rest)"
  shows "\<exists>buf n. strlcat src sz (d @ NUL # rest) = Some (buf, n)
    \<and> cstr buf = take (sz - 1) (d @ src) \<and> n = length d + length src
    \<and> length buf = length (d @ NUL # rest) \<and> drop sz buf = drop sz (d @ NUL # rest)
    \<and> (n < sz \<longleftrightarrow> cstr buf = d @ src)"
proof -
  obtain buf where buf: "strlcat src sz (d @ NUL # rest) = Some (buf, length d + length src)"
      "buf = take (sz - 1) (d @ src) @ NUL # drop (min (sz - 1) (length d + length src) - length d) rest"
    using strlcat_string [OF assms(1,3,4), of src] by blast
  have "c_string (take (sz - 1) (d @ src))"
    using assms(1,2) by (auto simp: c_string_def dest: in_set_takeD)
  with buf(2) have "cstr buf = take (sz - 1) (d @ src)" by (simp only: cstr_terminated)
  moreover have "length buf = length (d @ NUL # rest)"
    using assms(3,4) buf(2) by (auto simp: min_def)
  moreover have "drop sz buf = drop sz (d @ NUL # rest)"
    using assms(3,4) buf(2) by (auto simp: min_def drop_Cons' intro!: arg_cong [of _ _ "\<lambda>k. drop k rest"])
  moreover have "length d + length src < sz \<longleftrightarrow> take (sz - 1) (d @ src) = d @ src"
    using assms(3) by (auto simp: take_all_iff)
  ultimately show ?thesis using buf(1) by auto
qed

lemma strlcat_truncates_witness:
  "\<exists>buf n. strlcat ''cd'' 4 (''ab'' @ NUL # ''xyz'') = Some (buf, n) \<and> cstr buf = ''abc'' \<and> n = 4"
  using strlcat_truncates [of "''ab''" "''cd''" 4 "''xyz''"] by auto

text \<open>
  C38: with \<open>error_one_per_line\<close> set and no message before, a run of located messages
  prints a location exactly where it differs from the one printed last, and
  \<open>error_message_count\<close> grows by the number of messages printed.
\<close>

theorem error_at_line_one_per_line:
  assumes "error_one_per_line st" and "last_fname st = None"
  shows "\<exists>out st1. report_all ms st = (out, st1)
    \<and> locations out = remdups_adj (map (\<lambda>(f, l, t). (f, l)) ms)
    \<and> error_message_count st1 = error_message_count st + of_nat (length (locations out))"
  using report_all_locations [OF assms(1), of ms] assms(2) by (simp add: last_location_def)

lemma error_at_line_one_per_line_witness:
  "\<exists>out st1. report_all [(''a.c'', 1, ''x''), (''a.c'', 1, ''y''), (''b.c'', 1, ''z'')]
      \<lparr>error_print_progname = False, program_invocation_name = Some ''p'', error_message_count = 0,
        error_one_per_line = True, last_fname = None, last_lineno = 0\<rparr> = (out, st1)
    \<and> locations out = [(''a.c'', 1), (''b.c'', 1)] \<and> error_message_count st1 = 2"
  using error_at_line_one_per_line [of "\<lparr>error_print_progname = False, program_invocation_name = Some ''p'',
      error_message_count = 0, error_one_per_line = True, last_fname = None, last_lineno = 0\<rparr>"
      "[(''a.c'', 1, ''x''), (''a.c'', 1, ''y''), (''b.c'', 1, ''z'')]"] by auto

text \<open>
  \<open>backtrace\<close> never writes outside the caller's \<open>size\<close> slots.  It records the
  callers' addresses up to the first frame that repeats its predecessor, at most \<open>size\<close>
  of them, leaves the other slots alone, and does not count a final null address.
\<close>

theorem backtrace_records:
  assumes "0 < sz" "sz \<le> int (length buffer)"
  shows "let ips = take (nat sz) (recorded (tl stack)) in
    backtrace stack buffer sz =
      Some (length ips - (if ips \<noteq> [] \<and> last ips = 0 then 1 else 0), ips @ drop (length ips) buffer)"
  by (rule backtrace_exact [OF assms])

lemma backtrace_records_witness:
  "backtrace [(9, 9), (8, 5), (7, 6), (7, 6), (1, 1)] [0, 0, 0, 4] 3 = Some (2, [5, 6, 0, 4])"
  using backtrace_records [of 3 "[0, 0, 0, 4]" "[(9, 9), (8, 5), (7, 6), (7, 6), (1, 1)]"]
  by (simp add: recorded_def)

end
