(* ===== verification/Interleaving.thy ===== *)
theory Interleaving
  imports Bsd_Prelude
begin

text \<open>
  Threads that share memory.  A configuration is the shared state and each thread's
  program counter, which carries the thread's local variables.  A thread's atomic steps
  are a function from the shared state and its counter to the list of possible
  successors, so single runs can be computed.
\<close>

type_synonym ('sh, 'pc) config = "'sh \<times> (nat \<Rightarrow> 'pc)"

inductive thread_step ::
  "('sh \<Rightarrow> 'pc \<Rightarrow> ('sh \<times> 'pc) list) \<Rightarrow> ('sh, 'pc) config \<Rightarrow> ('sh, 'pc) config \<Rightarrow> bool"
  for thread where
  "(sh', pc') \<in> set (thread sh (pcs t)) \<Longrightarrow> thread_step thread (sh, pcs) (sh', pcs(t := pc'))"

inductive_cases thread_stepE: "thread_step thread (sh, pcs) c'"

text \<open>A schedule: which thread moves, and which of its successors is taken.\<close>

fun run_schedule ::
  "('sh \<Rightarrow> 'pc \<Rightarrow> ('sh \<times> 'pc) list) \<Rightarrow> (nat \<times> nat) list \<Rightarrow> ('sh, 'pc) config \<Rightarrow> ('sh, 'pc) config option" where
  "run_schedule thread [] c = Some c"
| "run_schedule thread ((t, i) # ts) (sh, pcs) =
     (let succs = thread sh (pcs t) in
      if i < length succs
      then run_schedule thread ts (fst (succs ! i), pcs(t := snd (succs ! i))) else None)"

lemma run_schedule_reaches:
  "run_schedule thread ts c = Some c' \<Longrightarrow> (thread_step thread)\<^sup>*\<^sup>* c c'"
proof (induction thread ts c rule: run_schedule.induct)
  case (1 thread c)
  then show ?case by simp
next
  case (2 thread t i ts sh pcs)
  let ?succs = "thread sh (pcs t)"
  from 2 have i: "i < length ?succs" by (auto simp: Let_def split: if_splits)
  then have "(fst (?succs ! i), snd (?succs ! i)) \<in> set ?succs" by simp
  then have "thread_step thread (sh, pcs) (fst (?succs ! i), pcs(t := snd (?succs ! i)))"
    by (rule thread_step.intros)
  moreover from 2 i have "(thread_step thread)\<^sup>*\<^sup>* (fst (?succs ! i), pcs(t := snd (?succs ! i))) c'"
    by (auto simp: Let_def)
  ultimately show ?case by (rule converse_rtranclp_into_rtranclp)
qed

section \<open>Invariants\<close>

locale invariant_machine =
  fixes start :: "'c \<Rightarrow> bool" and step :: "'c \<Rightarrow> 'c \<Rightarrow> bool" and inv :: "'c \<Rightarrow> bool"
  assumes inv_start: "start c \<Longrightarrow> inv c"
    and inv_step: "inv c \<Longrightarrow> step c c' \<Longrightarrow> inv c'"
begin

lemma inv_reachable: "start c \<Longrightarrow> step\<^sup>*\<^sup>* c c' \<Longrightarrow> inv c'"
  by (rotate_tac, induction rule: rtranclp_induct) (auto intro: inv_start inv_step)

end

end
