(* ===== verification/Static_Mutex.thy ===== *)
theory Static_Mutex
  imports Interleaving C_Lib
begin

text \<open>
  \<open>glibc_prepare_static_mutex\<close> of \<^verbatim>\<open>src/compat/glibc_pthread_abi.h\<close>: a mutex that was
  initialised statically by glibc's macros carries its kind in word 4, where musl
  expects the type in word 0.  Any number of threads may convert it at once; each atomic
  access is a step.
\<close>

definition GLIBC_MUTEX_RECURSIVE_KIND :: u32 where "GLIBC_MUTEX_RECURSIVE_KIND = 1"
definition GLIBC_MUTEX_ERRORCHECK_KIND :: u32 where "GLIBC_MUTEX_ERRORCHECK_KIND = 2"

record mutex_words =
  word0 :: u32
  word4 :: u32

datatype prepare_pc =
    Load_Type | Load_Kind | Cas_Type u32 | Clear_Kind | Prepared | Not_Supported

fun prepare_thread :: "mutex_words \<Rightarrow> prepare_pc \<Rightarrow> (mutex_words \<times> prepare_pc) list" where
  "prepare_thread m Load_Type = [(m, if word0 m \<noteq> 0 then Prepared else Load_Kind)]"
| "prepare_thread m Load_Kind =
     (let kind = word4 m in
      if kind = 0 then [(m, Prepared)]
      else if kind \<noteq> GLIBC_MUTEX_RECURSIVE_KIND \<and> kind \<noteq> GLIBC_MUTEX_ERRORCHECK_KIND
      then [(m, Not_Supported)]
      else [(m, Cas_Type kind)])"
| "prepare_thread m (Cas_Type kind) =
     (if word0 m = 0 then [(m\<lparr>word0 := kind\<rparr>, Clear_Kind)] else [(m, Load_Type)])"
| "prepare_thread m Clear_Kind = [(m\<lparr>word4 := 0\<rparr>, Prepared)]"
| "prepare_thread m Prepared = []"
| "prepare_thread m Not_Supported = []"

text \<open>All threads enter with the words the program was loaded with.\<close>

definition prepare_start :: "u32 \<Rightarrow> u32 \<Rightarrow> (mutex_words, prepare_pc) config \<Rightarrow> bool" where
  "prepare_start type kind c \<longleftrightarrow> c = (\<lparr>word0 = type, word4 = kind\<rparr>, \<lambda>_. Load_Type)"

definition supported_kind :: "u32 \<Rightarrow> bool" where
  "supported_kind kind \<longleftrightarrow> kind = GLIBC_MUTEX_RECURSIVE_KIND \<or> kind = GLIBC_MUTEX_ERRORCHECK_KIND"

text \<open>
  \<open>type\<close> and \<open>kind\<close> are the initial words.  The mutex goes through three phases:
  untouched, published (word 0 holds the kind, one thread is about to clear word 4), and
  cleared.
\<close>

definition untouched :: "u32 \<Rightarrow> u32 \<Rightarrow> (mutex_words, prepare_pc) config \<Rightarrow> bool" where
  "untouched type kind c \<longleftrightarrow>
     fst c = \<lparr>word0 = type, word4 = kind\<rparr> \<and> (\<forall>t. snd c t \<noteq> Clear_Kind)"

definition published :: "u32 \<Rightarrow> u32 \<Rightarrow> (mutex_words, prepare_pc) config \<Rightarrow> bool" where
  "published type kind c \<longleftrightarrow> type = 0 \<and> supported_kind kind \<and>
     fst c = \<lparr>word0 = kind, word4 = kind\<rparr> \<and> (\<exists>t. \<forall>u. (snd c u = Clear_Kind) = (u = t))"

definition cleared :: "u32 \<Rightarrow> u32 \<Rightarrow> (mutex_words, prepare_pc) config \<Rightarrow> bool" where
  "cleared type kind c \<longleftrightarrow> type = 0 \<and> supported_kind kind \<and>
     fst c = \<lparr>word0 = kind, word4 = 0\<rparr> \<and> (\<forall>t. snd c t \<noteq> Clear_Kind)"

text \<open>What a thread has seen so far.\<close>

fun prepare_ok :: "u32 \<Rightarrow> u32 \<Rightarrow> mutex_words \<Rightarrow> prepare_pc \<Rightarrow> bool" where
  "prepare_ok type kind m (Cas_Type k) = (k = kind \<and> supported_kind kind \<and> type = 0)"
| "prepare_ok type kind m Load_Kind = (type = 0)"
| "prepare_ok type kind m Prepared = (word0 m \<noteq> 0 \<or> kind = 0)"
| "prepare_ok type kind m Not_Supported = (type = 0 \<and> kind \<noteq> 0 \<and> \<not> supported_kind kind)"
| "prepare_ok type kind m Clear_Kind = (word0 m \<noteq> 0)"
| "prepare_ok type kind m Load_Type = True"

definition prepare_inv :: "u32 \<Rightarrow> u32 \<Rightarrow> (mutex_words, prepare_pc) config \<Rightarrow> bool" where
  "prepare_inv type kind c \<longleftrightarrow>
     (\<forall>t. prepare_ok type kind (fst c) (snd c t))
     \<and> (untouched type kind c \<or> published type kind c \<or> cleared type kind c)"

lemma supported_kind_nonzero: "supported_kind kind \<Longrightarrow> kind \<noteq> 0"
  by (auto simp: supported_kind_def GLIBC_MUTEX_RECURSIVE_KIND_def GLIBC_MUTEX_ERRORCHECK_KIND_def)

lemma prepare_ok_word0:
  "prepare_ok type kind m pc \<Longrightarrow> (word0 m \<noteq> 0 \<Longrightarrow> word0 m' \<noteq> 0) \<Longrightarrow> prepare_ok type kind m' pc"
  by (cases pc) auto

text \<open>A step changes the words only when it publishes or clears.\<close>

lemma prepare_thread_cases:
  assumes "(m', pc') \<in> set (prepare_thread m pc)" and "prepare_ok type kind m pc"
    and "word4 m = kind \<or> word4 m = 0 \<and> word0 m \<noteq> 0"
    and "word0 m = 0 \<Longrightarrow> type = 0"
  shows "prepare_ok type kind m' pc' \<and>
    (m' = m \<and> pc \<noteq> Clear_Kind \<and> pc' \<noteq> Clear_Kind
     \<or> pc = Cas_Type kind \<and> word0 m = 0 \<and> m' = m\<lparr>word0 := kind\<rparr> \<and> pc' = Clear_Kind
     \<or> pc = Clear_Kind \<and> m' = m\<lparr>word4 := 0\<rparr> \<and> pc' = Prepared \<and> word0 m \<noteq> 0)"
proof (cases pc)
  case Load_Kind
  then show ?thesis using assms by (auto simp: Let_def supported_kind_def split: if_splits)
qed (use assms in \<open>auto split: if_splits dest: supported_kind_nonzero\<close>)

lemma prepare_inv_step:
  assumes "prepare_inv type kind c" and "thread_step prepare_thread c c'"
  shows "prepare_inv type kind c'"
proof -
  obtain m pcs where c: "c = (m, pcs)" by (cases c)
  from assms(2) obtain t m' pc' where st: "(m', pc') \<in> set (prepare_thread m (pcs t))"
      "c' = (m', pcs(t := pc'))"
    unfolding c by (auto elim: thread_stepE)
  have ok: "prepare_ok type kind m (pcs u)" for u
    using assms(1) by (simp add: prepare_inv_def c)
  have words: "word4 m = kind \<or> word4 m = 0 \<and> word0 m \<noteq> 0"
    using assms(1) supported_kind_nonzero [of kind]
    by (auto simp: prepare_inv_def c untouched_def published_def cleared_def)
  have type: "word0 m = 0 \<Longrightarrow> type = 0"
    using assms(1) supported_kind_nonzero [of kind]
    by (auto simp: prepare_inv_def c untouched_def published_def cleared_def)
  note step = prepare_thread_cases [OF st(1) ok words type]
  have "word0 m \<noteq> 0 \<Longrightarrow> word0 m' \<noteq> 0" using step by auto
  then have ok': "prepare_ok type kind m' ((pcs(t := pc')) u)" for u
    using step ok [of u] prepare_ok_word0 by auto
  from step consider
      (same) "m' = m" "pcs t \<noteq> Clear_Kind" "pc' \<noteq> Clear_Kind"
    | (cas) "pcs t = Cas_Type kind" "word0 m = 0" "m' = m\<lparr>word0 := kind\<rparr>" "pc' = Clear_Kind"
    | (clear) "pcs t = Clear_Kind" "m' = m\<lparr>word4 := 0\<rparr>" "pc' = Prepared"
    by blast
  then have "untouched type kind c' \<or> published type kind c' \<or> cleared type kind c'"
  proof cases
    case same
    then show ?thesis
      using assms(1) by (auto simp: prepare_inv_def st(2) c untouched_def published_def cleared_def)
  next
    case cas
    then have k: "supported_kind kind" "type = 0" using ok [of t] by auto
    with cas assms(1) supported_kind_nonzero [of kind] have "untouched type kind c"
      by (auto simp: prepare_inv_def c published_def cleared_def)
    with cas k have "published type kind c'"
      by (auto simp: st(2) c untouched_def published_def intro!: exI [of _ t])
    then show ?thesis by blast
  next
    case clear
    with assms(1) have "published type kind c"
      by (auto simp: prepare_inv_def c untouched_def cleared_def)
    with clear have "cleared type kind c'"
      by (auto simp: st(2) c cleared_def published_def)
    then show ?thesis by blast
  qed
  with ok' show ?thesis by (simp add: prepare_inv_def st(2))
qed

lemma prepare_inv_start: "prepare_start type kind c \<Longrightarrow> prepare_inv type kind c"
  by (auto simp: prepare_start_def prepare_inv_def untouched_def)

interpretation prepare: invariant_machine "prepare_start type kind" "thread_step prepare_thread"
    "prepare_inv type kind" for type kind
  by unfold_locales (rule prepare_inv_start prepare_inv_step; assumption)+

end
