(* ===== verification/Native_Resolver.thy ===== *)
theory Native_Resolver
  imports Interleaving C_Lib
begin

text \<open>
  \<open>resolve_native\<close> of \<^verbatim>\<open>src/compat/pthread.c\<close>: the first thread of a process that
  needs a native function looks all of them up; the others wait.  A process that was
  forked off while a thread of its parent was resolving starts over.  The status word
  packs the process id and the state.
\<close>

section \<open>The status word\<close>

definition RESOLVER_UNINITIALIZED :: u32 where "RESOLVER_UNINITIALIZED = 0"
definition RESOLVER_RUNNING :: u32 where "RESOLVER_RUNNING = 1"
definition RESOLVER_READY :: u32 where "RESOLVER_READY = 2"
definition RESOLVER_FAILED :: u32 where "RESOLVER_FAILED = 3"

lemmas resolver_consts = RESOLVER_UNINITIALIZED_def RESOLVER_RUNNING_def RESOLVER_READY_def
  RESOLVER_FAILED_def

definition RESOLVER_STATUS :: "u32 \<Rightarrow> u32 \<Rightarrow> u64" where
  "RESOLVER_STATUS pid state = push_bit 32 (ucast pid) OR ucast state"

definition RESOLVER_STATUS_STATE :: "u64 \<Rightarrow> u32" where
  "RESOLVER_STATUS_STATE status = ucast status"

definition RESOLVER_STATUS_PID :: "u64 \<Rightarrow> u32" where
  "RESOLVER_STATUS_PID status = ucast (drop_bit 32 status)"

lemma status_roundtrip [simp]:
  "RESOLVER_STATUS_STATE (RESOLVER_STATUS pid state) = state"
  "RESOLVER_STATUS_PID (RESOLVER_STATUS pid state) = pid"
  unfolding RESOLVER_STATUS_STATE_def RESOLVER_STATUS_PID_def RESOLVER_STATUS_def
  by (rule bit_word_eqI, auto simp: bit_simps dest: bit_imp_le_length)+

lemma status_inject [simp]:
  "RESOLVER_STATUS pid state = RESOLVER_STATUS pid' state' \<longleftrightarrow> pid = pid' \<and> state = state'"
  by (metis status_roundtrip)

lemma status_zero [simp]: "RESOLVER_STATUS_STATE 0 = 0" "RESOLVER_STATUS_PID 0 = 0"
  by (simp_all add: RESOLVER_STATUS_STATE_def RESOLVER_STATUS_PID_def)

section \<open>The functions looked up\<close>

text \<open>The uses of \<open>RESOLVE\<close> in order: the pointer without its \<open>p_\<close>, and the name that is looked up for it.\<close>

definition native_table :: "(string \<times> string) list" where
  "native_table =
    [(''mutex_init'', ''pthread_mutex_init''), (''mutex_lock'', ''pthread_mutex_lock''),
     (''mutex_unlock'', ''pthread_mutex_unlock''), (''mutex_trylock'', ''pthread_mutex_trylock''),
     (''mutex_destroy'', ''pthread_mutex_destroy''), (''mutexattr_init'', ''pthread_mutexattr_init''),
     (''mutexattr_destroy'', ''pthread_mutexattr_destroy''),
     (''mutexattr_setprotocol'', ''pthread_mutexattr_setprotocol''),
     (''mutexattr_setpshared'', ''pthread_mutexattr_setpshared''),
     (''mutexattr_settype'', ''pthread_mutexattr_settype''), (''cond_init'', ''pthread_cond_init''),
     (''cond_destroy'', ''pthread_cond_destroy''), (''cond_wait'', ''pthread_cond_wait''),
     (''cond_timedwait'', ''pthread_cond_timedwait''), (''cond_signal'', ''pthread_cond_signal''),
     (''cond_broadcast'', ''pthread_cond_broadcast''), (''condattr_init'', ''pthread_condattr_init''),
     (''condattr_destroy'', ''pthread_condattr_destroy''), (''condattr_setclock'', ''pthread_condattr_setclock''),
     (''condattr_setpshared'', ''pthread_condattr_setpshared''), (''rwlock_init'', ''pthread_rwlock_init''),
     (''rwlock_destroy'', ''pthread_rwlock_destroy''), (''rwlock_rdlock'', ''pthread_rwlock_rdlock''),
     (''rwlock_wrlock'', ''pthread_rwlock_wrlock''), (''rwlock_unlock'', ''pthread_rwlock_unlock''),
     (''rwlock_tryrdlock'', ''pthread_rwlock_tryrdlock''), (''rwlock_trywrlock'', ''pthread_rwlock_trywrlock''),
     (''rwlockattr_init'', ''pthread_rwlockattr_init''), (''rwlockattr_destroy'', ''pthread_rwlockattr_destroy''),
     (''rwlockattr_setpshared'', ''pthread_rwlockattr_setpshared''), (''sem_init'', ''sem_init''),
     (''sem_destroy'', ''sem_destroy''), (''sem_post'', ''sem_post''), (''sem_wait'', ''sem_wait''),
     (''sem_trywait'', ''sem_trywait''), (''sem_timedwait'', ''sem_timedwait''),
     (''attr_init'', ''pthread_attr_init''), (''attr_destroy'', ''pthread_attr_destroy''),
     (''attr_setdetachstate'', ''pthread_attr_setdetachstate''),
     (''attr_setinheritsched'', ''pthread_attr_setinheritsched''),
     (''attr_setschedparam'', ''pthread_attr_setschedparam''),
     (''attr_setschedpolicy'', ''pthread_attr_setschedpolicy''), (''attr_setscope'', ''pthread_attr_setscope''),
     (''attr_setstack'', ''pthread_attr_setstack''), (''attr_setguardsize'', ''pthread_attr_setguardsize''),
     (''attr_setstacksize'', ''pthread_attr_setstacksize''), (''create'', ''pthread_create''),
     (''join'', ''pthread_join''), (''detach'', ''pthread_detach'')]"

lemma native_table_length: "length native_table = 49"
  by (simp add: native_table_def)

lemma native_table_distinct: "distinct (map fst native_table)"
  by code_simp

section \<open>Threads\<close>

record resolver =
  resolver_status :: u64
  native_ptr :: "string \<Rightarrow> u64"
  process_id :: u32

text \<open>
  A call is before its start, about to load the status, about to do one of the two
  compare-exchanges, resolving (with the number of lookups done and \<open>missing\<close>), about to
  publish, or back with a result.
\<close>

datatype resolver_pc =
    Outside | Res_Load | Res_Reset u64 | Res_Claim | Resolving nat bool | Res_Publish bool
  | Res_Return "errno option"

text \<open>
  A thread has its own \<open>resolver_active\<close>, the call it is in, and below it the calls that wait in a
  lookup for it: \<open>dlsym\<close> may call \<open>resolve_native\<close> again before it answers.
\<close>

record native_thread =
  resolver_active :: bool
  res_pc :: resolver_pc
  suspended :: "(nat \<times> bool) list"

definition away :: native_thread where
  "away = \<lparr>resolver_active = False, res_pc = Outside, suspended = []\<rparr>"

text \<open>
  \<open>dlsym\<close> answers 0 for a missing name.  \<open>Res_Return None\<close> is the result 0, and
  \<open>Some e\<close> an error number.  A thread that has returned may call again; one that was called from a
  lookup goes back to it.
\<close>

definition resolver_thread ::
  "(string \<Rightarrow> u64) \<Rightarrow> resolver \<Rightarrow> native_thread \<Rightarrow> (resolver \<times> native_thread) list" where
  "resolver_thread dlsym s th =
     (case res_pc th of
        Outside \<Rightarrow> [(s, th\<lparr>res_pc := Res_Load\<rparr>)]
      | Res_Load \<Rightarrow>
          (let status = resolver_status s; state = RESOLVER_STATUS_STATE status in
           if state = RESOLVER_READY then [(s, th\<lparr>res_pc := Res_Return None\<rparr>)]
           else if state = RESOLVER_FAILED then [(s, th\<lparr>res_pc := Res_Return (Some ENOSYS)\<rparr>)]
           else if state = RESOLVER_RUNNING then
             (if resolver_active th then [(s, th\<lparr>res_pc := Res_Return (Some ENOSYS)\<rparr>)]
              else if RESOLVER_STATUS_PID status \<noteq> process_id s then [(s, th\<lparr>res_pc := Res_Reset status\<rparr>)]
              else [(s, th)])
           else [(s, th\<lparr>res_pc := Res_Claim\<rparr>)])
      | Res_Reset expected \<Rightarrow>
          [(if resolver_status s = expected then s\<lparr>resolver_status := 0\<rparr> else s, th\<lparr>res_pc := Res_Load\<rparr>)]
      | Res_Claim \<Rightarrow>
          (if resolver_status s = ucast RESOLVER_UNINITIALIZED
           then [(s\<lparr>resolver_status := RESOLVER_STATUS (process_id s) RESOLVER_RUNNING\<rparr>,
                  th\<lparr>resolver_active := True, res_pc := Resolving 0 False\<rparr>)]
           else [(s, th\<lparr>res_pc := Res_Load\<rparr>)])
      | Resolving n missing \<Rightarrow>
          (if n < length native_table then
             let (member, name) = native_table ! n; address = dlsym name in
             [(s\<lparr>native_ptr := (native_ptr s)(member := address)\<rparr>,
               th\<lparr>res_pc := Resolving (n + 1) (missing \<or> address = 0)\<rparr>),
              (s, th\<lparr>res_pc := Res_Load, suspended := (n, missing) # suspended th\<rparr>)]
           else [(s, th\<lparr>resolver_active := False, res_pc := Res_Publish missing\<rparr>)])
      | Res_Publish missing \<Rightarrow>
          [(s\<lparr>resolver_status := RESOLVER_STATUS (process_id s) (if missing then RESOLVER_FAILED else RESOLVER_READY)\<rparr>,
            th\<lparr>res_pc := Res_Return (if missing then Some ENOSYS else None)\<rparr>)]
      | Res_Return r \<Rightarrow>
          (case suspended th of
             [] \<Rightarrow> [(s, th\<lparr>res_pc := Outside\<rparr>)]
           | (n, missing) # rest \<Rightarrow> [(s, th\<lparr>res_pc := Resolving n missing, suspended := rest\<rparr>)]))"

text \<open>
  A step of the program: a thread moves, or a thread that is outside forks.  The child
  has the memory as it is, only the forking thread, and a process id that no status word
  of the memory mentions.
\<close>

inductive resolver_step ::
  "(string \<Rightarrow> u64) \<Rightarrow> (resolver, native_thread) config \<Rightarrow> (resolver, native_thread) config \<Rightarrow> bool"
  for dlsym where
  move: "thread_step (resolver_thread dlsym) c c' \<Longrightarrow> resolver_step dlsym c c'"
| fork: "res_pc (ths t) = Outside \<Longrightarrow> suspended (ths t) = [] \<Longrightarrow> pid \<noteq> RESOLVER_STATUS_PID (resolver_status s) \<Longrightarrow>
    resolver_step dlsym (s, ths) (s\<lparr>process_id := pid\<rparr>, \<lambda>_. away)"

definition resolver_start :: "(resolver, native_thread) config \<Rightarrow> bool" where
  "resolver_start c \<longleftrightarrow> resolver_status (fst c) = 0 \<and> process_id (fst c) \<noteq> 0 \<and> (\<forall>t. snd c t = away)"

section \<open>The invariant\<close>

fun looking_up :: "resolver_pc \<Rightarrow> bool" where
  "looking_up (Resolving n m) = True"
| "looking_up _ = False"

text \<open>The thread that looks the functions up, also while it is in a call from inside \<open>dlsym\<close>.\<close>

definition resolving :: "native_thread \<Rightarrow> bool" where
  "resolving th \<longleftrightarrow> suspended th \<noteq> [] \<or> looking_up (res_pc th) \<or> (\<exists>m. res_pc th = Res_Publish m)"

text \<open>The lookups done so far have their pointers, and \<open>missing\<close> is right for them.\<close>

definition found_upto :: "(string \<Rightarrow> u64) \<Rightarrow> nat \<Rightarrow> (string \<Rightarrow> u64) \<Rightarrow> bool \<Rightarrow> bool" where
  "found_upto dlsym n ptr missing \<longleftrightarrow>
     (\<forall>(member, name) \<in> set (take n native_table). ptr member = dlsym name)
     \<and> missing = (\<exists>(member, name) \<in> set (take n native_table). dlsym name = 0)"

definition claimed :: "resolver \<Rightarrow> bool" where
  "claimed s \<longleftrightarrow> resolver_status s = RESOLVER_STATUS (process_id s) RESOLVER_RUNNING"

text \<open>A call that no lookup waits for, and one that a lookup waits for.\<close>

fun outer_ok :: "(string \<Rightarrow> u64) \<Rightarrow> resolver \<Rightarrow> resolver_pc \<Rightarrow> bool" where
  "outer_ok dlsym s (Resolving n missing) \<longleftrightarrow>
     claimed s \<and> n \<le> length native_table \<and> found_upto dlsym n (native_ptr s) missing"
| "outer_ok dlsym s (Res_Publish missing) \<longleftrightarrow>
     claimed s \<and> found_upto dlsym (length native_table) (native_ptr s) missing"
| "outer_ok dlsym s (Res_Reset expected) \<longleftrightarrow> RESOLVER_STATUS_PID expected \<noteq> process_id s
     \<and> RESOLVER_STATUS_STATE expected = RESOLVER_RUNNING"
| "outer_ok dlsym s (Res_Return None) \<longleftrightarrow> RESOLVER_STATUS_STATE (resolver_status s) = RESOLVER_READY"
| "outer_ok dlsym s (Res_Return (Some e)) \<longleftrightarrow>
     e = ENOSYS \<and> RESOLVER_STATUS_STATE (resolver_status s) = RESOLVER_FAILED"
| "outer_ok dlsym s _ \<longleftrightarrow> True"

definition nested_ok :: "(string \<Rightarrow> u64) \<Rightarrow> resolver \<Rightarrow> native_thread \<Rightarrow> nat \<Rightarrow> bool \<Rightarrow> bool" where
  "nested_ok dlsym s th n missing \<longleftrightarrow> resolver_active th \<and> claimed s
     \<and> n < length native_table \<and> found_upto dlsym n (native_ptr s) missing
     \<and> (res_pc th = Res_Load \<or> res_pc th = Res_Return (Some ENOSYS))"

definition resolver_ok :: "(string \<Rightarrow> u64) \<Rightarrow> resolver \<Rightarrow> native_thread \<Rightarrow> bool" where
  "resolver_ok dlsym s th \<longleftrightarrow>
     (case suspended th of
        [] \<Rightarrow> outer_ok dlsym s (res_pc th) \<and> (resolver_active th \<longleftrightarrow> looking_up (res_pc th))
      | (n, missing) # rest \<Rightarrow> rest = [] \<and> nested_ok dlsym s th n missing)"

definition resolver_inv :: "(string \<Rightarrow> u64) \<Rightarrow> (resolver, native_thread) config \<Rightarrow> bool" where
  "resolver_inv dlsym c \<longleftrightarrow> (let s = fst c; ths = snd c; state = RESOLVER_STATUS_STATE (resolver_status s) in
     (\<forall>t. resolver_ok dlsym s (ths t))
     \<and> (\<forall>t u. resolving (ths t) \<and> resolving (ths u) \<longrightarrow> t = u)
     \<and> (claimed s \<longrightarrow> (\<exists>t. resolving (ths t)))
     \<and> (state = RESOLVER_READY \<longrightarrow> found_upto dlsym (length native_table) (native_ptr s) False)
     \<and> (state = RESOLVER_FAILED \<longrightarrow> (\<exists>(member, name) \<in> set native_table. dlsym name = 0)))"

lemma found_upto_Suc:
  assumes "found_upto dlsym n ptr missing" and n: "n < length native_table" and "native_table ! n = (member, name)"
  shows "found_upto dlsym (Suc n) (ptr(member := dlsym name)) (missing \<or> dlsym name = 0)"
proof -
  have take: "take (Suc n) native_table = take n native_table @ [(member, name)]"
    using n assms(3) by (simp add: take_Suc_conv_app_nth)
  have "distinct (map fst (take n native_table @ [(member, name)]))"
    using native_table_distinct unfolding take [symmetric] by (simp add: take_map [symmetric])
  then have "m \<noteq> member" if "(m, x) \<in> set (take n native_table)" for m x
    using that by force
  then show ?thesis using assms(1) unfolding found_upto_def take by auto
qed

lemma resolving_claimed: "resolver_ok dlsym s th \<Longrightarrow> resolving th \<Longrightarrow> claimed s"
  by (cases "res_pc th") (auto simp: resolver_ok_def resolving_def nested_ok_def split: list.splits)

lemma not_resolving: "\<not> resolving th \<longleftrightarrow> suspended th = [] \<and> \<not> looking_up (res_pc th) \<and> (\<forall>m. res_pc th \<noteq> Res_Publish m)"
  by (auto simp: resolving_def)

lemma claimed_state:
  "claimed s \<Longrightarrow> RESOLVER_STATUS_STATE (resolver_status s) = RESOLVER_RUNNING"
  "claimed s \<Longrightarrow> RESOLVER_STATUS_PID (resolver_status s) = process_id s"
  by (simp_all add: claimed_def)

text \<open>
  The steps of one thread by their effect: none on the shared state, a claim of the word
  0, a reset of a word another process left, a lookup, or the publication.
\<close>

lemma resolver_thread_cases:
  assumes "(s', th') \<in> set (resolver_thread dlsym s th)" and "resolver_ok dlsym s th"
  obtains
    (same) "s' = s" "resolving th = resolving th'" "resolver_ok dlsym s th'"
  | (claim) "resolver_status s = 0" "suspended th = []" "th' = th\<lparr>resolver_active := True, res_pc := Resolving 0 False\<rparr>"
      "s' = s\<lparr>resolver_status := RESOLVER_STATUS (process_id s) RESOLVER_RUNNING\<rparr>"
  | (reset) "res_pc th = Res_Reset (resolver_status s)" "suspended th = []" "s' = s\<lparr>resolver_status := 0\<rparr>"
      "th' = th\<lparr>res_pc := Res_Load\<rparr>"
  | (found) n missing member name where "res_pc th = Resolving n missing" "suspended th = []" "n < length native_table"
      "native_table ! n = (member, name)" "s' = s\<lparr>native_ptr := (native_ptr s)(member := dlsym name)\<rparr>"
      "th' = th\<lparr>res_pc := Resolving (Suc n) (missing \<or> dlsym name = 0)\<rparr>"
  | (publish) missing where "res_pc th = Res_Publish missing" "suspended th = []"
      "th' = th\<lparr>res_pc := Res_Return (if missing then Some ENOSYS else None)\<rparr>"
      "s' = s\<lparr>resolver_status := RESOLVER_STATUS (process_id s) (if missing then RESOLVER_FAILED else RESOLVER_READY)\<rparr>"
proof (cases "suspended th")
  case (Cons nm rest)
  obtain n missing where nm: "nm = (n, missing)" by (cases nm)
  have ok: "rest = []" "nested_ok dlsym s th n missing" using assms(2) Cons nm by (simp_all add: resolver_ok_def)
  note cl = claimed_state [of s]
  from ok(2) consider "res_pc th = Res_Load" | "res_pc th = Res_Return (Some ENOSYS)" by (auto simp: nested_ok_def)
  then show ?thesis
  proof cases
    case 1
    with assms(1) ok cl have "s' = s" "th' = th\<lparr>res_pc := Res_Return (Some ENOSYS)\<rparr>"
      by (auto simp: resolver_thread_def Let_def nested_ok_def resolver_consts split: if_splits)
    with Cons nm ok show ?thesis by (intro same) (auto simp: resolving_def resolver_ok_def nested_ok_def)
  next
    case 2
    with assms(1) Cons nm ok have "s' = s" "th' = th\<lparr>res_pc := Resolving n missing, suspended := []\<rparr>"
      by (auto simp: resolver_thread_def)
    with Cons nm ok show ?thesis by (intro same) (auto simp: resolving_def resolver_ok_def nested_ok_def)
  qed
next
  case Nil
  have ok: "outer_ok dlsym s (res_pc th)" "resolver_active th \<longleftrightarrow> looking_up (res_pc th)"
    using assms(2) Nil by (simp_all add: resolver_ok_def)
  show ?thesis
  proof (cases "res_pc th")
    case Outside
    with assms(1) Nil ok show ?thesis
      by (intro same) (auto simp: resolver_thread_def resolving_def resolver_ok_def)
  next
    case Res_Load
    with assms(1) Nil ok show ?thesis
      by (intro same) (auto simp: resolver_thread_def Let_def resolving_def resolver_ok_def split: if_splits)
  next
    case (Res_Reset e)
    with assms(1) Nil ok show ?thesis
      by (cases "resolver_status s = e")
        (auto simp: resolver_thread_def resolving_def resolver_ok_def intro: reset same)
  next
    case Res_Claim
    with assms(1) Nil ok show ?thesis
      by (cases "resolver_status s = 0")
        (auto simp: resolver_thread_def resolver_consts resolving_def resolver_ok_def intro: claim same)
  next
    case (Resolving n m)
    obtain member name where nt: "native_table ! n = (member, name)" by (cases "native_table ! n")
    show ?thesis
    proof (cases "n < length native_table")
      case True
      with assms(1) Resolving nt consider
        "s' = s\<lparr>native_ptr := (native_ptr s)(member := dlsym name)\<rparr>"
        "th' = th\<lparr>res_pc := Resolving (Suc n) (m \<or> dlsym name = 0)\<rparr>"
        | "s' = s" "th' = th\<lparr>res_pc := Res_Load, suspended := (n, m) # suspended th\<rparr>"
        by (auto simp: resolver_thread_def Let_def)
      then show ?thesis
      proof cases
        case 1
        with Resolving Nil True nt show ?thesis by (intro found [of n m member name]) auto
      next
        case 2
        with Resolving Nil True ok show ?thesis
          by (intro same) (auto simp: resolving_def resolver_ok_def nested_ok_def)
      qed
    next
      case False
      with Resolving assms(1) Nil ok show ?thesis
        by (intro same) (auto simp: resolver_thread_def resolving_def resolver_ok_def)
    qed
  next
    case (Res_Publish m)
    with assms(1) Nil show ?thesis by (intro publish [of m]) (auto simp: resolver_thread_def)
  next
    case (Res_Return r)
    with assms(1) Nil ok show ?thesis
      by (intro same) (auto simp: resolver_thread_def resolving_def resolver_ok_def)
  qed
qed

text \<open>A thread that does not resolve, when the status changes in a way that suits it.\<close>

lemma resolver_ok_other:
  assumes "resolver_ok dlsym s th" "\<not> resolving th" "process_id s' = process_id s"
    and "resolver_status s' = resolver_status s \<or>
      RESOLVER_STATUS_STATE (resolver_status s) \<notin> {RESOLVER_READY, RESOLVER_FAILED}"
  shows "resolver_ok dlsym s' th"
proof -
  have o1: "suspended th = []" "outer_ok dlsym s (res_pc th)" "resolver_active th \<longleftrightarrow> looking_up (res_pc th)"
    "\<not> looking_up (res_pc th)" "\<forall>m. res_pc th \<noteq> Res_Publish m"
    using assms(1,2) by (auto simp: not_resolving resolver_ok_def)
  then have "outer_ok dlsym s' (res_pc th)"
    using assms(3,4) by (cases "(dlsym, s, res_pc th)" rule: outer_ok.cases) auto
  then show ?thesis using o1 by (simp add: resolver_ok_def)
qed

lemma resolver_inv_thread:
  assumes inv: "resolver_inv dlsym (s, ths)" and st: "(s', th') \<in> set (resolver_thread dlsym s (ths t))"
  shows "resolver_inv dlsym (s', ths(t := th'))"
proof -
  have ok: "resolver_ok dlsym s (ths u)" for u using inv by (simp add: resolver_inv_def Let_def)
  have one: "resolving (ths u) \<Longrightarrow> resolving (ths v) \<Longrightarrow> u = v" for u v
    using inv by (simp add: resolver_inv_def Let_def)
  have running: "claimed s \<longleftrightarrow> (\<exists>t. resolving (ths t))"
    using inv resolving_claimed [OF ok] by (auto simp: resolver_inv_def Let_def)
  have ready: "RESOLVER_STATUS_STATE (resolver_status s) = RESOLVER_READY \<Longrightarrow>
      found_upto dlsym (length native_table) (native_ptr s) False"
    and failed: "RESOLVER_STATUS_STATE (resolver_status s) = RESOLVER_FAILED \<Longrightarrow>
      \<exists>(member, name) \<in> set native_table. dlsym name = 0"
    using inv by (simp_all add: resolver_inv_def Let_def)
  from st ok [of t] show ?thesis
  proof (cases rule: resolver_thread_cases)
    case same
    have res: "resolving ((ths(t := th')) u) = resolving (ths u)" for u
      using same(2) by simp
    have ok': "resolver_ok dlsym s ((ths(t := th')) u)" for u
      using ok [of u] same(3) by simp
    show ?thesis
      unfolding resolver_inv_def Let_def same(1) fst_conv snd_conv res
      using ok' one running ready failed by blast
  next
    case claim
    have none: "\<not> resolving (ths u)" for u
      using running claim(1) by (auto simp: claimed_def resolver_consts dest: arg_cong [of _ _ RESOLVER_STATUS_STATE])
    have "resolver_ok dlsym s' (ths u)" for u
      by (rule resolver_ok_other [OF ok none]) (simp_all add: claim resolver_consts)
    with claim none show ?thesis
      by (auto simp: resolver_inv_def Let_def resolver_consts found_upto_def resolver_ok_def claimed_def resolving_def)
  next
    case reset
    then have other: "RESOLVER_STATUS_PID (resolver_status s) \<noteq> process_id s"
        "RESOLVER_STATUS_STATE (resolver_status s) = RESOLVER_RUNNING"
      using ok [of t] by (auto simp: resolver_ok_def)
    then have none: "\<not> resolving (ths u)" for u
      using running claimed_state(2) by blast
    have "resolver_ok dlsym s' (ths u)" for u
      by (rule resolver_ok_other [OF ok none]) (simp_all add: reset(3) other(2) resolver_consts)
    moreover have "\<not> claimed s'" using reset(3)
      by (auto simp: claimed_def resolver_consts dest: arg_cong [of _ _ RESOLVER_STATUS_STATE])
    moreover have "resolver_active (ths t) = False" using ok [of t] reset(1,2) by (simp add: resolver_ok_def)
    ultimately show ?thesis using reset none
      by (auto simp: resolver_inv_def Let_def resolver_consts resolver_ok_def resolving_def)
  next
    case (found n missing member name)
    have cl: "claimed s" "found_upto dlsym n (native_ptr s) missing"
      using ok [of t] found(1,2) by (simp_all add: resolver_ok_def)
    have "claimed s'" using cl(1) found(5) by (simp add: claimed_def)
    then have "resolver_ok dlsym s' th'"
      using ok [of t] found found_upto_Suc [OF cl(2) found(3,4)] by (simp add: resolver_ok_def)
    moreover have "resolver_ok dlsym s' (ths u)" if "u \<noteq> t" for u
    proof -
      have "\<not> resolving (ths u)" using one [of u t] that found(1) by (auto simp: resolving_def)
      with ok [of u] show ?thesis by (rule resolver_ok_other) (simp_all add: found(5))
    qed
    moreover have "resolving (ths t)" "resolving th'" using found(1,6) by (simp_all add: resolving_def)
    moreover have "RESOLVER_STATUS_STATE (resolver_status s') = RESOLVER_RUNNING" using claimed_state(1) [OF \<open>claimed s'\<close>] .
    ultimately show ?thesis
      using one by (auto simp: resolver_inv_def Let_def resolver_consts)
  next
    case (publish missing)
    have all: "found_upto dlsym (length native_table) (native_ptr s) missing" "claimed s" "\<not> resolver_active (ths t)"
      using ok [of t] publish(1,2) by (simp_all add: resolver_ok_def)
    have none: "\<not> resolving (ths u)" if "u \<noteq> t" for u
      using one [of u t] that publish(1) by (auto simp: resolving_def)
    have "resolver_ok dlsym s' (ths u)" if "u \<noteq> t" for u
      using claimed_state(1) [OF all(2)]
      by (intro resolver_ok_other [OF ok none [OF that]]) (simp_all add: publish(4) resolver_consts)
    with publish none all show ?thesis
      by (cases missing)
        (auto simp: resolver_inv_def Let_def resolver_consts found_upto_def resolver_ok_def resolving_def claimed_def)
  qed
qed

lemma resolver_inv_fork:
  assumes "resolver_inv dlsym (s, ths)" and "pid \<noteq> RESOLVER_STATUS_PID (resolver_status s)"
  shows "resolver_inv dlsym (s\<lparr>process_id := pid\<rparr>, \<lambda>_. away)"
proof -
  have "\<not> claimed (s\<lparr>process_id := pid\<rparr>)" using assms(2) claimed_state(2) by fastforce
  then show ?thesis using assms by (auto simp: resolver_inv_def Let_def away_def resolver_ok_def resolving_def)
qed

lemma resolver_inv_step:
  "resolver_inv dlsym c \<Longrightarrow> resolver_step dlsym c c' \<Longrightarrow> resolver_inv dlsym c'"
proof -
  assume inv: "resolver_inv dlsym c" and "resolver_step dlsym c c'"
  from this(2) show "resolver_inv dlsym c'"
  proof cases
    case move
    with inv show ?thesis by (cases c) (auto elim!: thread_stepE intro: resolver_inv_thread)
  next
    case (fork ths t pid s)
    with inv show ?thesis by (auto intro: resolver_inv_fork)
  qed
qed

lemma resolver_inv_start: "resolver_start c \<Longrightarrow> resolver_inv dlsym c"
  by (cases c) (auto simp: resolver_start_def resolver_inv_def Let_def resolver_consts away_def resolver_ok_def resolving_def
      claimed_def dest: arg_cong [of _ _ RESOLVER_STATUS_STATE])

interpretation native_resolver: invariant_machine resolver_start "resolver_step dlsym" "resolver_inv dlsym" for dlsym
  by unfold_locales (rule resolver_inv_start resolver_inv_step; assumption)+

end
