(* ===== verification/Pthread_Once.thy ===== *)
theory Pthread_Once
  imports Interleaving C_Lib
begin

text \<open>
  \<open>pthread_once\<close> of \<^verbatim>\<open>src/compat/pthread.c\<close> and the process generation it relies on:
  a routine that was in progress when the process forked does not block the child, since
  the child's generation differs from the one in the control word.
\<close>

section \<open>Shared state and threads\<close>

definition ONCE_INPROGRESS :: u32 where "ONCE_INPROGRESS = 1"
definition ONCE_DONE :: u32 where "ONCE_DONE = 2"
definition ONCE_STATE_MASK :: u32 where "ONCE_STATE_MASK = 3"
definition ONCE_GEN_INCR :: u32 where "ONCE_GEN_INCR = 4"
definition ONCE_GEN_MASK :: u32 where "ONCE_GEN_MASK = NOT ONCE_STATE_MASK"

lemmas once_consts = ONCE_INPROGRESS_def ONCE_DONE_def ONCE_STATE_MASK_def ONCE_GEN_INCR_def ONCE_GEN_MASK_def

text \<open>
  The last three fields are not the program's: \<open>woken\<close> counts the futex's wake-ups,
  \<open>generations\<close> the increments of \<open>once_generation\<close>, and \<open>init_runs\<close> the times the
  routine came to its end in this process.
\<close>

record once_state =
  control :: u32
  once_pid :: int
  once_generation :: u32
  getpid :: int
  woken :: nat
  generations :: nat
  init_runs :: nat

text \<open>
  Where a thread is: outside; before the first load; inside \<open>process_once_generation\<close>
  (\<open>Gen_\<close>); at the load or the compare-exchange of the control word; in the routine;
  after it; waiting.
\<close>

datatype once_pc =
    Away | Fast_Load
  | Gen_Load | Gen_Value | Gen_Claim int | Gen_Add | Gen_Publish u32
  | Control_Load u32 | Control_Claim u32 u32
  | Init_Running u32 | Store_Done u32 | Wake_Done
  | Store_Cancelled u32 | Wake_Cancelled
  | Futex_Wait u32 | Asleep nat
  | Returned | Cancelled

text \<open>
  Waiting on the futex returns at once when the word has changed, sleeps otherwise, and
  may end without a wake-up.  The routine either comes to its end or its thread is
  cancelled.
\<close>

fun once_thread :: "once_state \<Rightarrow> once_pc \<Rightarrow> (once_state \<times> once_pc) list" where
  "once_thread s Away = [(s, Fast_Load)]"
| "once_thread s Fast_Load =
     [(s, if control s AND ONCE_STATE_MASK = ONCE_DONE then Returned else Gen_Load)]"
| "once_thread s Gen_Load =
     (let seen = once_pid s in
      if seen = getpid s then [(s, Gen_Value)]
      else if seen = - getpid s then [(s, Gen_Load)]
      else [(s, Gen_Claim seen)])"
| "once_thread s Gen_Value = [(s, Control_Load (once_generation s))]"
| "once_thread s (Gen_Claim seen) =
     (if once_pid s = seen then [(s\<lparr>once_pid := - getpid s\<rparr>, Gen_Add)] else [(s, Gen_Load)])"
| "once_thread s Gen_Add =
     (let seen = once_generation s + ONCE_GEN_INCR in
      [(s\<lparr>once_generation := seen, generations := generations s + 1\<rparr>, Gen_Publish seen)])"
| "once_thread s (Gen_Publish seen) =
     [(s\<lparr>once_pid := getpid s\<rparr>, Control_Load (seen AND ONCE_GEN_MASK))]"
| "once_thread s (Control_Load generation) =
     (let current = control s in
      if current AND ONCE_STATE_MASK = ONCE_DONE then [(s, Returned)]
      else if current AND ONCE_INPROGRESS = 0 \<or> current AND ONCE_GEN_MASK \<noteq> generation
      then [(s, Control_Claim generation current)]
      else [(s, Futex_Wait current)])"
| "once_thread s (Control_Claim generation current) =
     (if control s = current
      then [(s\<lparr>control := generation OR ONCE_INPROGRESS\<rparr>, Init_Running generation)]
      else [(s, Gen_Load)])"
| "once_thread s (Init_Running generation) =
     [(s\<lparr>init_runs := init_runs s + 1\<rparr>, Store_Done generation), (s, Store_Cancelled generation)]"
| "once_thread s (Store_Done generation) = [(s\<lparr>control := ONCE_DONE\<rparr>, Wake_Done)]"
| "once_thread s Wake_Done = [(s\<lparr>woken := woken s + 1\<rparr>, Returned)]"
| "once_thread s (Store_Cancelled generation) = [(s\<lparr>control := 0\<rparr>, Wake_Cancelled)]"
| "once_thread s Wake_Cancelled = [(s\<lparr>woken := woken s + 1\<rparr>, Cancelled)]"
| "once_thread s (Futex_Wait current) =
     [(s, if control s = current then Asleep (woken s) else Gen_Load)]"
| "once_thread s (Asleep w) = [(s, Gen_Load)]"
| "once_thread s Returned = [(s, Away)]"
| "once_thread s Cancelled = []"

text \<open>
  A thread forks where it is not inside \<open>pthread_once\<close>: the routine itself does not
  fork.  The child keeps the memory and only that thread; its process id is positive and
  not the one the memory remembers.
\<close>

inductive once_step :: "(once_state, once_pc) config \<Rightarrow> (once_state, once_pc) config \<Rightarrow> bool" where
  move: "thread_step once_thread c c' \<Longrightarrow> once_step c c'"
| fork: "pcs t = Away \<or> pcs t = Returned \<Longrightarrow> 0 < pid \<Longrightarrow> pid \<noteq> \<bar>once_pid s\<bar> \<Longrightarrow>
    once_step (s, pcs) (s\<lparr>getpid := pid, init_runs := 0\<rparr>, (\<lambda>_. Away)(t := pcs t))"

definition once_start :: "(once_state, once_pc) config \<Rightarrow> bool" where
  "once_start c \<longleftrightarrow> (\<exists>pid > 0. fst c = \<lparr>control = 0, once_pid = 0, once_generation = 0, getpid = pid,
     woken = 0, generations = 0, init_runs = 0\<rparr>) \<and> (\<forall>t. snd c t = Away)"

section \<open>The words\<close>

text \<open>The \<open>k\<close>-th generation, and the control word of a routine in progress in it.\<close>

definition gen_word :: "nat \<Rightarrow> u32" where "gen_word k = of_nat (4 * k)"

definition busy :: "nat \<Rightarrow> u32" where "busy k = gen_word k + 1"

lemma unat_gen_word: "k < 2 ^ 30 \<Longrightarrow> unat (gen_word k) = 4 * k"
  by (simp add: gen_word_def unsigned_of_nat take_bit_nat_eq_self del: of_nat_mult)

lemma gen_word_Suc: "gen_word k + ONCE_GEN_INCR = gen_word (Suc k)"
  by (simp add: gen_word_def ONCE_GEN_INCR_def)

lemma gen_word_inject: "j < 2 ^ 30 \<Longrightarrow> k < 2 ^ 30 \<Longrightarrow> gen_word j = gen_word k \<longleftrightarrow> j = k"
  by (metis unat_gen_word mult_cancel1 zero_neq_numeral)

lemma gen_word_push: "gen_word k = push_bit 2 (of_nat k)"
  by (simp add: gen_word_def push_bit_eq_mult)

lemma state_mask: "ONCE_STATE_MASK = mask 2"
  by (simp add: ONCE_STATE_MASK_def mask_eq_exp_minus_1)

lemma push_masks:
  fixes w :: u32
  shows "push_bit 2 w AND NOT (mask 2) = push_bit 2 w" "push_bit 2 w AND 1 = 0"
    "(push_bit 2 w OR 1) AND mask 2 = 1" "(push_bit 2 w OR 1) AND NOT (mask 2) = push_bit 2 w"
    "(push_bit 2 w OR 1) AND 1 = 1"
  by (rule bit_word_eqI; auto simp: bit_push_bit_iff bit_mask_iff bit_and_iff bit_not_iff bit_or_iff bit_1_iff)+

lemma busy_or: "busy k = gen_word k OR ONCE_INPROGRESS"
  using disjunctive_add_eq_or [OF push_masks(2), of "of_nat k"]
  by (simp only: busy_def gen_word_push ONCE_INPROGRESS_def)

lemma gen_word_masks [simp]:
  "gen_word k AND ONCE_GEN_MASK = gen_word k" "gen_word k OR ONCE_INPROGRESS = busy k"
  "busy k AND ONCE_STATE_MASK = 1" "busy k AND ONCE_GEN_MASK = gen_word k" "busy k AND ONCE_INPROGRESS = 1"
  unfolding busy_or unfolding gen_word_push ONCE_GEN_MASK_def state_mask ONCE_INPROGRESS_def
  by (rule push_masks refl)+

lemma word_masks [simp]: "(0 :: u32) AND ONCE_STATE_MASK = 0" "ONCE_DONE AND ONCE_STATE_MASK = ONCE_DONE"
  by (simp_all add: once_consts)

lemma busy_neq [simp]: "busy k \<noteq> 0" "busy k \<noteq> ONCE_DONE"
proof -
  show "busy k \<noteq> 0" by (metis gen_word_masks(3) word_masks(1) zero_neq_one)
  have "(1 :: u32) \<noteq> ONCE_DONE" by (simp add: ONCE_DONE_def)
  then show "busy k \<noteq> ONCE_DONE" by (metis gen_word_masks(3) word_masks(2))
qed

lemma busy_inject: "j < 2 ^ 30 \<Longrightarrow> k < 2 ^ 30 \<Longrightarrow> busy j = busy k \<longleftrightarrow> j = k"
  by (simp add: busy_def gen_word_inject)

section \<open>The invariant\<close>

fun in_init :: "once_pc \<Rightarrow> bool" where
  "in_init (Init_Running g) = True" | "in_init (Store_Done g) = True"
| "in_init (Store_Cancelled g) = True" | "in_init _ = False"

fun claiming :: "once_pc \<Rightarrow> bool" where
  "claiming Gen_Add = True" | "claiming (Gen_Publish v) = True" | "claiming _ = False"

fun waking :: "once_pc \<Rightarrow> bool" where
  "waking Wake_Done = True" | "waking Wake_Cancelled = True" | "waking _ = False"

abbreviation established :: "once_state \<Rightarrow> bool" where
  "established s \<equiv> once_pid s = getpid s"

abbreviation busy_now :: "once_state \<Rightarrow> u32" where
  "busy_now s \<equiv> busy (generations s)"

text \<open>What each program counter says about the shared state.\<close>

fun once_ok :: "once_state \<Rightarrow> once_pc \<Rightarrow> bool" where
  "once_ok s Gen_Value = established s"
| "once_ok s (Gen_Claim seen) = (seen \<noteq> getpid s \<and> seen \<noteq> - getpid s)"
| "once_ok s Gen_Add = (once_pid s = - getpid s)"
| "once_ok s (Gen_Publish v) = (once_pid s = - getpid s \<and> v = once_generation s)"
| "once_ok s (Control_Load g) = (established s \<and> g = once_generation s)"
| "once_ok s (Control_Claim g c) =
     (established s \<and> g = once_generation s \<and> c \<noteq> ONCE_DONE \<and> c \<noteq> busy_now s)"
| "once_ok s (Init_Running g) =
     (established s \<and> g = once_generation s \<and> control s = busy_now s \<and> init_runs s = 0)"
| "once_ok s (Store_Cancelled g) =
     (established s \<and> g = once_generation s \<and> control s = busy_now s \<and> init_runs s = 0)"
| "once_ok s (Store_Done g) =
     (established s \<and> g = once_generation s \<and> control s = busy_now s \<and> init_runs s = 1)"
| "once_ok s Wake_Done = (control s = ONCE_DONE)"
| "once_ok s Returned = (control s = ONCE_DONE)"
| "once_ok s (Futex_Wait c) = (established s \<and> c = busy_now s)"
| "once_ok s (Asleep w) = (established s \<and> w \<le> woken s)"
| "once_ok s _ = True"

text \<open>The control word: untouched, finished, or busy in some generation up to the current one.\<close>

definition control_ok :: "once_state \<Rightarrow> bool" where
  "control_ok s \<longleftrightarrow> control s = 0 \<or> control s = ONCE_DONE
     \<or> (\<exists>k \<le> generations s. control s = busy k)"

definition once_shared_ok :: "once_state \<Rightarrow> bool" where
  "once_shared_ok s \<longleftrightarrow> 0 < getpid s \<and> once_generation s = gen_word (generations s) \<and> control_ok s
     \<and> init_runs s \<le> 1"

definition once_inv :: "(once_state, once_pc) config \<Rightarrow> bool" where
  "once_inv c \<longleftrightarrow> (let s = fst c; pcs = snd c in
     once_shared_ok s
     \<and> (\<forall>t. once_ok s (pcs t))
     \<and> (\<forall>t u. claiming (pcs t) \<and> claiming (pcs u) \<longrightarrow> t = u)
     \<and> (\<forall>t u. in_init (pcs t) \<and> in_init (pcs u) \<longrightarrow> t = u)
     \<and> (once_pid s = - getpid s \<longrightarrow> (\<exists>t. claiming (pcs t)))
     \<and> ((established s \<or> (\<exists>t v. pcs t = Gen_Publish v)) \<and> control s = busy_now s \<longrightarrow> (\<exists>t. in_init (pcs t)))
     \<and> ((\<exists>t. pcs t = Asleep (woken s)) \<longrightarrow> control s = busy_now s \<or> (\<exists>t. waking (pcs t)))
     \<and> (init_runs s = 1 \<longrightarrow> control s = ONCE_DONE \<or> (\<exists>t g. pcs t = Store_Done g)))"

lemma control_masks:
  assumes "control_ok s"
  shows "control s AND ONCE_STATE_MASK = ONCE_DONE \<longleftrightarrow> control s = ONCE_DONE"
    and "control s AND ONCE_STATE_MASK \<noteq> ONCE_DONE \<Longrightarrow> generations s < 2 ^ 30 \<Longrightarrow>
      (control s AND ONCE_INPROGRESS = 0 \<or> control s AND ONCE_GEN_MASK \<noteq> gen_word (generations s))
      \<longleftrightarrow> control s \<noteq> busy_now s"
proof -
  have "(1 :: u32) \<noteq> ONCE_DONE" "(0 :: u32) \<noteq> ONCE_DONE" by (simp_all add: ONCE_DONE_def)
  then show "control s AND ONCE_STATE_MASK = ONCE_DONE \<longleftrightarrow> control s = ONCE_DONE"
    using assms by (auto simp: control_ok_def)
  assume "control s AND ONCE_STATE_MASK \<noteq> ONCE_DONE" "generations s < 2 ^ 30"
  with assms show "(control s AND ONCE_INPROGRESS = 0 \<or> control s AND ONCE_GEN_MASK \<noteq> gen_word (generations s))
      \<longleftrightarrow> control s \<noteq> busy_now s"
    by (auto simp: control_ok_def busy_inject gen_word_inject busy_neq [symmetric])
qed

text \<open>The steps of one thread by their effect on the shared state.\<close>

lemma once_thread_cases:
  assumes "(s', pc') \<in> set (once_thread s pc)" and "once_ok s pc" and "once_shared_ok s"
    and "generations s < 2 ^ 30"
  obtains
    (same) "s' = s" "once_ok s pc'" "claiming pc = claiming pc'"
      "in_init pc = in_init pc'" "waking pc = waking pc'" "\<And>w. pc' = Asleep w \<Longrightarrow> control s = busy_now s"
      "\<And>v. pc = Gen_Publish v \<longleftrightarrow> pc' = Gen_Publish v" "\<And>g. pc = Store_Done g \<longleftrightarrow> pc' = Store_Done g"
  | (gen_claim) "pc = Gen_Claim (once_pid s)" "s' = s\<lparr>once_pid := - getpid s\<rparr>" "pc' = Gen_Add"
  | (gen_add) "pc = Gen_Add" "pc' = Gen_Publish (gen_word (Suc (generations s)))"
      "s' = s\<lparr>once_generation := gen_word (Suc (generations s)), generations := generations s + 1\<rparr>"
  | (gen_publish) v where "pc = Gen_Publish v" "s' = s\<lparr>once_pid := getpid s\<rparr>" "pc' = Control_Load v"
  | (control_claim) g where "pc = Control_Claim g (control s)" "s' = s\<lparr>control := busy_now s\<rparr>"
      "pc' = Init_Running g"
  | (init_end) g where "pc = Init_Running g" "s' = s\<lparr>init_runs := 1\<rparr>" "pc' = Store_Done g"
  | (store_done) g where "pc = Store_Done g" "s' = s\<lparr>control := ONCE_DONE\<rparr>" "pc' = Wake_Done"
  | (store_cancel) g where "pc = Store_Cancelled g" "s' = s\<lparr>control := 0\<rparr>" "pc' = Wake_Cancelled"
  | (wake) "waking pc" "s' = s\<lparr>woken := woken s + 1\<rparr>" "pc' = Returned \<and> control s = ONCE_DONE \<or> pc' = Cancelled"
proof -
  have gen: "once_generation s = gen_word (generations s)" "control_ok s"
    using assms(3) by (auto simp: once_shared_ok_def)
  note masks = control_masks [OF gen(2)]
  show ?thesis
  proof (cases pc)
    case Fast_Load
    with assms(1) masks show ?thesis by (intro same) (auto split: if_splits)
  next
    case Gen_Load
    with assms(1) show ?thesis by (intro same) (auto simp: Let_def split: if_splits)
  next
    case (Gen_Claim seen)
    with assms(1) show ?thesis by (cases "once_pid s = seen") (auto intro: gen_claim same)
  next
    case Gen_Add
    with assms(1) gen show ?thesis by (intro gen_add) (auto simp: Let_def gen_word_Suc)
  next
    case (Gen_Publish v)
    with assms(1,2) gen show ?thesis by (intro gen_publish [of v]) auto
  next
    case (Control_Load g)
    with assms(1,2,4) gen masks show ?thesis
      by (intro same) (auto simp: Let_def split: if_splits)
  next
    case (Control_Claim g c)
    with assms(1,2) gen show ?thesis
      by (cases "control s = c") (auto intro: control_claim same)
  next
    case (Init_Running g)
    with assms(1,2) show ?thesis by (auto intro: init_end same)
  next
    case (Store_Done g)
    with assms(1) show ?thesis by (auto intro: store_done)
  next
    case (Store_Cancelled g)
    with assms(1) show ?thesis by (auto intro: store_cancel)
  next
    case Wake_Done
    with assms(1,2) show ?thesis by (intro wake) auto
  next
    case Wake_Cancelled
    with assms(1,2) show ?thesis by (intro wake) auto
  next
    case (Futex_Wait c)
    with assms(1,2) show ?thesis by (intro same) (auto split: if_splits)
  qed (use assms(1,2) in \<open>auto intro: same\<close>)
qed

lemma once_invI:
  assumes "once_shared_ok s" "\<And>t. once_ok s (pcs t)"
    and "\<And>t u. claiming (pcs t) \<Longrightarrow> claiming (pcs u) \<Longrightarrow> t = u"
    and "\<And>t u. in_init (pcs t) \<Longrightarrow> in_init (pcs u) \<Longrightarrow> t = u"
    and "once_pid s = - getpid s \<Longrightarrow> \<exists>t. claiming (pcs t)"
    and "established s \<or> (\<exists>t v. pcs t = Gen_Publish v) \<Longrightarrow> control s = busy_now s \<Longrightarrow> \<exists>t. in_init (pcs t)"
    and "\<And>t. pcs t = Asleep (woken s) \<Longrightarrow> control s = busy_now s \<or> (\<exists>t. waking (pcs t))"
    and "init_runs s = 1 \<Longrightarrow> control s = ONCE_DONE \<or> (\<exists>t g. pcs t = Store_Done g)"
  shows "once_inv (s, pcs)"
  using assms unfolding once_inv_def Let_def fst_conv snd_conv by blast

lemma once_invD:
  assumes "once_inv (s, pcs)"
  shows "once_shared_ok s" "once_ok s (pcs t)"
    and "claiming (pcs t) \<Longrightarrow> claiming (pcs u) \<Longrightarrow> t = u"
    and "in_init (pcs t) \<Longrightarrow> in_init (pcs u) \<Longrightarrow> t = u"
    and "once_pid s = - getpid s \<Longrightarrow> \<exists>t. claiming (pcs t)"
    and "established s \<or> (\<exists>t v. pcs t = Gen_Publish v) \<Longrightarrow> control s = busy_now s \<Longrightarrow> \<exists>t. in_init (pcs t)"
    and "pcs t = Asleep (woken s) \<Longrightarrow> control s = busy_now s \<or> (\<exists>t. waking (pcs t))"
    and "init_runs s = 1 \<Longrightarrow> control s = ONCE_DONE \<or> (\<exists>t g. pcs t = Store_Done g)"
  using assms unfolding once_inv_def Let_def fst_conv snd_conv by blast+

text \<open>The exclusions between program counters that the local conditions give.\<close>

lemma claiming_ok: "once_ok s pc \<Longrightarrow> claiming pc \<Longrightarrow> once_pid s = - getpid s"
  and in_init_ok: "once_ok s pc \<Longrightarrow> in_init pc \<Longrightarrow> established s \<and> control s = busy_now s"
  by (cases pc; simp)+

lemma ex_upd_keep: "\<exists>u. P (f u) \<Longrightarrow> \<not> P (f t) \<Longrightarrow> \<exists>u. P ((f(t := x)) u)"
  by (metis fun_upd_other)

lemma ex_upd_new: "P x \<Longrightarrow> \<exists>u. P ((f(t := x)) u)"
  by (metis fun_upd_same)

lemma once_inv_thread:
  assumes inv: "once_inv (s, pcs)" and st: "(s', pc') \<in> set (once_thread s (pcs t))"
    and bound: "generations s' < 2 ^ 30"
  shows "once_inv (s', pcs(t := pc'))"
proof -
  note D = once_invD [OF inv]
  have shared: "0 < getpid s" "once_generation s = gen_word (generations s)" "control_ok s" "init_runs s \<le> 1"
    using D(1) by (auto simp: once_shared_ok_def)
  have "generations s \<le> generations s'"
    using st by (cases "pcs t") (auto simp: Let_def split: if_splits)
  with bound have bound0: "generations s < 2 ^ 30" by simp
  have notboth: "once_pid s = - getpid s \<Longrightarrow> \<not> established s" using shared(1) by auto
  from st D(2) D(1) bound0 show ?thesis
  proof (cases rule: once_thread_cases)
    case same
    have eqs: "claiming ((pcs(t := pc')) u) = claiming (pcs u)" "in_init ((pcs(t := pc')) u) = in_init (pcs u)"
        "waking ((pcs(t := pc')) u) = waking (pcs u)" for u
      using same(3-5) by simp_all
    have pub: "(\<exists>u v. (pcs(t := pc')) u = Gen_Publish v) = (\<exists>u v. pcs u = Gen_Publish v)"
        "(\<exists>u g. (pcs(t := pc')) u = Store_Done g) = (\<exists>u g. pcs u = Store_Done g)"
      using same(7,8) by (metis fun_upd_apply)+
    show ?thesis
      unfolding same(1)
    proof (rule once_invI, unfold eqs pub)
      show "once_ok s ((pcs(t := pc')) u)" for u using same(2) D(2) by simp
      show "(pcs(t := pc')) u = Asleep (woken s) \<Longrightarrow> control s = busy_now s \<or> (\<exists>t. waking (pcs t))" for u
        using D(7) [of u] same(6) by (auto split: if_splits)
    qed (use D in blast)+
  next
    case gen_claim
    have free: "once_pid s \<noteq> getpid s" "once_pid s \<noteq> - getpid s" using D(2) [of t] gen_claim(1) by auto
    have none: "\<not> claiming (pcs u)" "\<not> in_init (pcs u)" for u
      using claiming_ok [OF D(2) [of u]] in_init_ok [OF D(2) [of u]] free by auto
    have ok: "once_ok s' (pcs u)" for u
      using D(2) [of u] free gen_claim(2) by (cases "pcs u") auto
    show ?thesis
    proof (rule once_invI)
      show "once_shared_ok s'" using D(1) by (simp add: gen_claim(2) once_shared_ok_def control_ok_def)
      show "once_ok s' ((pcs(t := pc')) u)" for u using ok gen_claim by simp
      show "established s' \<or> (\<exists>u v. (pcs(t := pc')) u = Gen_Publish v) \<Longrightarrow> control s' = busy_now s' \<Longrightarrow>
          \<exists>u. in_init ((pcs(t := pc')) u)"
        using none(1) shared(1) gen_claim(2,3) by (auto split: if_splits) (metis claiming.simps(2))
      have w: "\<exists>u. waking (pcs u) \<Longrightarrow> \<exists>u. waking ((pcs(t := pc')) u)"
        by (rule ex_upd_keep) (simp_all add: gen_claim(1))
      show "control s' = busy_now s' \<or> (\<exists>v. waking ((pcs(t := pc')) v))"
        if A: "(pcs(t := pc')) u = Asleep (woken s')" for u
      proof -
        have "pcs u = Asleep (woken s)" using A gen_claim(2,3) by (auto split: if_splits)
        from D(7) [OF this] show ?thesis
        proof
          assume "\<exists>t. waking (pcs t)"
          from w [OF this] show ?thesis by (rule disjI2)
        qed (simp add: gen_claim(2))
      qed
      show "init_runs s' = 1 \<Longrightarrow> control s' = ONCE_DONE \<or> (\<exists>u g. (pcs(t := pc')) u = Store_Done g)"
        using D(8) none(2) gen_claim by (auto split: if_splits) (metis in_init.simps(2))
    qed (use none gen_claim in \<open>auto split: if_splits\<close>)
  next
    case gen_add
    have pid: "once_pid s = - getpid s" "\<not> established s"
      using D(2) [of t] gen_add(1) notboth by auto
    have none: "\<not> in_init (pcs u)" "u \<noteq> t \<Longrightarrow> \<not> claiming (pcs u)" for u
      using in_init_ok [OF D(2) [of u]] pid D(3) [of t u] gen_add(1) by auto
    have ok: "once_ok s' (pcs u)" if "u \<noteq> t" for u
      using D(2) [of u] pid gen_add(3) none(2) [OF that] by (cases "pcs u") auto
    have fresh: "control s \<noteq> busy (Suc (generations s))"
      using shared(3) bound gen_add(3) by (auto simp: control_ok_def busy_inject busy_neq [symmetric])
    show ?thesis
    proof (rule once_invI)
      show "once_shared_ok s'"
        using shared by (auto simp: gen_add(3) once_shared_ok_def control_ok_def intro: le_SucI)
      show "once_ok s' ((pcs(t := pc')) u)" for u using ok gen_add pid by simp
      show "(pcs(t := pc')) u = Asleep (woken s') \<Longrightarrow> control s' = busy_now s' \<or> (\<exists>v. waking ((pcs(t := pc')) v))" for u
        using D(2) [of u] pid gen_add by (auto split: if_splits)
      show "init_runs s' = 1 \<Longrightarrow> control s' = ONCE_DONE \<or> (\<exists>u g. (pcs(t := pc')) u = Store_Done g)"
        using D(8) none(1) gen_add by (auto split: if_splits) (metis in_init.simps(2))
      show "\<exists>u. claiming ((pcs(t := pc')) u)" by (rule ex_upd_new) (simp add: gen_add(2))
    qed (use none gen_add fresh in \<open>auto split: if_splits\<close>)
  next
    case (gen_publish v)
    have pid: "once_pid s = - getpid s" "\<not> established s" "v = once_generation s"
      using D(2) [of t] gen_publish(1) notboth by auto
    have none: "\<not> in_init (pcs u)" "u \<noteq> t \<Longrightarrow> \<not> claiming (pcs u)" for u
      using in_init_ok [OF D(2) [of u]] pid D(3) [of t u] gen_publish(1) by auto
    have ok: "once_ok s' (pcs u)" if "u \<noteq> t" for u
      using D(2) [of u] pid gen_publish(2) none [of u] that by (cases "pcs u") auto
    have fresh: "control s \<noteq> busy_now s"
      using D(6) none(1) gen_publish(1) by blast
    show ?thesis
    proof (rule once_invI)
      show "once_shared_ok s'" using D(1) by (simp add: gen_publish(2) once_shared_ok_def control_ok_def)
      show "once_ok s' ((pcs(t := pc')) u)" for u using ok gen_publish pid by simp
      show "(pcs(t := pc')) u = Asleep (woken s') \<Longrightarrow> control s' = busy_now s' \<or> (\<exists>v. waking ((pcs(t := pc')) v))" for u
        using D(2) [of u] pid gen_publish by (auto split: if_splits)
      show "init_runs s' = 1 \<Longrightarrow> control s' = ONCE_DONE \<or> (\<exists>u g. (pcs(t := pc')) u = Store_Done g)"
        using D(8) none(1) gen_publish by (auto split: if_splits) (metis in_init.simps(2))
    qed (use none gen_publish fresh shared(1) in \<open>auto split: if_splits\<close>)
  next
    case (control_claim g)
    have here: "established s" "g = once_generation s" "control s \<noteq> ONCE_DONE" "control s \<noteq> busy_now s"
      using D(2) [of t] control_claim(1) by auto
    have none: "\<not> in_init (pcs u)" "\<not> claiming (pcs u)" for u
      using in_init_ok [OF D(2) [of u]] claiming_ok [OF D(2) [of u]] here notboth by auto
    have ok: "once_ok s' (pcs u)" for u
      using D(2) [of u] here(3) control_claim(2) none [of u] by (cases "pcs u") auto
    have runs: "init_runs s = 0"
      using D(8) here(3) none(1) shared(4) by (metis in_init.simps(2) le_0_eq le_Suc_eq One_nat_def)
    show ?thesis
    proof (rule once_invI)
      show "once_shared_ok s'" using D(1) by (auto simp: control_claim(2) once_shared_ok_def control_ok_def)
      show "once_ok s' ((pcs(t := pc')) u)" for u using ok control_claim here runs by simp
      show "\<exists>u. in_init ((pcs(t := pc')) u)" by (rule ex_upd_new) (simp add: control_claim(3))
      show "once_pid s' = - getpid s' \<Longrightarrow> \<exists>u. claiming ((pcs(t := pc')) u)"
        using notboth here(1) control_claim(2) by simp
    qed (use none control_claim runs in \<open>auto split: if_splits\<close>)
  next
    case (init_end g)
    have here: "established s" "g = once_generation s" "control s = busy_now s" "init_runs s = 0"
      using D(2) [of t] init_end(1) by auto
    have none: "u \<noteq> t \<Longrightarrow> \<not> in_init (pcs u)" "\<not> claiming (pcs u)" for u
      using D(4) [of t u] claiming_ok [OF D(2) [of u]] here notboth init_end(1) by auto
    have ok: "once_ok s' (pcs u)" if "u \<noteq> t" for u
      using D(2) [of u] init_end(2) none(1) [OF that] by (cases "pcs u") auto
    show ?thesis
    proof (rule once_invI)
      show "once_shared_ok s'" using D(1) by (simp add: init_end(2) once_shared_ok_def control_ok_def)
      show "once_ok s' ((pcs(t := pc')) u)" for u using ok init_end here by simp
      show "\<exists>u. in_init ((pcs(t := pc')) u)" by (rule ex_upd_new) (simp add: init_end(3))
      show "once_pid s' = - getpid s' \<Longrightarrow> \<exists>u. claiming ((pcs(t := pc')) u)"
        using notboth here(1) init_end(2) by simp
      have "\<exists>u g. (pcs(t := pc')) u = Store_Done g" using init_end(3) by (intro exI [of _ t] exI [of _ g]) simp
      then show "control s' = ONCE_DONE \<or> (\<exists>u g. (pcs(t := pc')) u = Store_Done g)" ..
    qed (use none init_end here in \<open>auto split: if_splits\<close>)
  next
    case (store_done g)
    have here: "established s" "control s = busy_now s" "init_runs s = 1"
      using D(2) [of t] store_done(1) by auto
    have none: "u \<noteq> t \<Longrightarrow> \<not> in_init (pcs u)" "\<not> claiming (pcs u)" for u
      using D(4) [of t u] claiming_ok [OF D(2) [of u]] here notboth store_done(1) by auto
    have ok: "once_ok s' (pcs u)" if "u \<noteq> t" for u
      using D(2) [of u] store_done(2) none(1) [OF that] by (cases "pcs u") auto
    show ?thesis
    proof (rule once_invI)
      show "once_shared_ok s'" using D(1) by (simp add: store_done(2) once_shared_ok_def control_ok_def)
      show "once_ok s' ((pcs(t := pc')) u)" for u using ok store_done here by simp
      show "control s' = busy_now s' \<or> (\<exists>u. waking ((pcs(t := pc')) u))"
        by (rule disjI2, rule ex_upd_new) (simp add: store_done(3))
      show "once_pid s' = - getpid s' \<Longrightarrow> \<exists>u. claiming ((pcs(t := pc')) u)"
        using notboth here(1) store_done(2) by simp
    qed (use none store_done busy_neq(2) [symmetric] in \<open>auto split: if_splits\<close>)
  next
    case (store_cancel g)
    have here: "established s" "control s = busy_now s" "init_runs s = 0"
      using D(2) [of t] store_cancel(1) by auto
    have none: "u \<noteq> t \<Longrightarrow> \<not> in_init (pcs u)" "\<not> claiming (pcs u)" for u
      using D(4) [of t u] claiming_ok [OF D(2) [of u]] here notboth store_cancel(1) by auto
    have ok: "once_ok s' (pcs u)" if "u \<noteq> t" for u
      using D(2) [of u] store_cancel(2) none(1) [OF that] here(2) by (cases "pcs u") auto
    show ?thesis
    proof (rule once_invI)
      show "once_shared_ok s'" using D(1) by (simp add: store_cancel(2) once_shared_ok_def control_ok_def)
      show "once_ok s' ((pcs(t := pc')) u)" for u using ok store_cancel here by simp
      show "control s' = busy_now s' \<or> (\<exists>u. waking ((pcs(t := pc')) u))"
        by (rule disjI2, rule ex_upd_new) (simp add: store_cancel(3))
      show "once_pid s' = - getpid s' \<Longrightarrow> \<exists>u. claiming ((pcs(t := pc')) u)"
        using notboth here(1) store_cancel(2) by simp
    qed (use none store_cancel here busy_neq(1) [symmetric] in \<open>auto split: if_splits\<close>)
  next
    case wake
    have pct: "\<not> claiming (pcs t)" "\<not> in_init (pcs t)" "\<And>v. pcs t \<noteq> Gen_Publish v" "\<And>g. pcs t \<noteq> Store_Done g"
      "\<not> claiming pc'" "\<not> in_init pc'" "\<And>v. pc' \<noteq> Gen_Publish v" "\<And>g. pc' \<noteq> Store_Done g"
      "\<And>w. pc' \<noteq> Asleep w"
      using wake(1,3) by (cases "pcs t"; auto)+
    have ok: "once_ok s' (pcs u)" for u
      using D(2) [of u] wake(2) by (cases "pcs u") auto
    show ?thesis
    proof (rule once_invI)
      show "once_shared_ok s'" using D(1) by (simp add: wake(2) once_shared_ok_def control_ok_def)
      show "once_ok s' ((pcs(t := pc')) u)" for u using ok wake(2,3) by auto
      show "once_pid s' = - getpid s' \<Longrightarrow> \<exists>u. claiming ((pcs(t := pc')) u)"
        using D(5) pct(1) wake(2) by (auto intro!: ex_upd_keep)
      show "established s' \<or> (\<exists>u v. (pcs(t := pc')) u = Gen_Publish v) \<Longrightarrow> control s' = busy_now s' \<Longrightarrow>
          \<exists>u. in_init ((pcs(t := pc')) u)"
        using D(6) pct(2,7) wake(2) by (intro ex_upd_keep) (auto split: if_splits)
      show "(pcs(t := pc')) u = Asleep (woken s') \<Longrightarrow> control s' = busy_now s' \<or> (\<exists>v. waking ((pcs(t := pc')) v))" for u
        using D(2) [of u] wake(2) pct(9) by (auto split: if_splits)
      show "init_runs s' = 1 \<Longrightarrow> control s' = ONCE_DONE \<or> (\<exists>u g. (pcs(t := pc')) u = Store_Done g)"
        using D(8) pct(4) wake(2) by auto (metis fun_upd_other)
    qed (use D(3,4) pct in \<open>auto split: if_splits\<close>)
  qed
qed

lemma once_inv_fork:
  assumes "once_inv (s, pcs)" and "pcs t = Away \<or> pcs t = Returned" "0 < pid" "pid \<noteq> \<bar>once_pid s\<bar>"
  shows "once_inv (s\<lparr>getpid := pid, init_runs := 0\<rparr>, (\<lambda>_. Away)(t := pcs t))"
proof (rule once_invI)
  note D = once_invD [OF assms(1)]
  show "once_shared_ok (s\<lparr>getpid := pid, init_runs := 0\<rparr>)"
    using D(1) assms(3) by (simp add: once_shared_ok_def control_ok_def)
  show "once_ok (s\<lparr>getpid := pid, init_runs := 0\<rparr>) (((\<lambda>_. Away)(t := pcs t)) u)" for u
    using D(2) [of t] assms(2) by auto
qed (use assms in \<open>auto split: if_splits\<close>)

text \<open>Generation numbers repeat after \<open>2 ^ 30\<close> of them; up to there the invariant holds.\<close>

definition once_bounded_inv :: "(once_state, once_pc) config \<Rightarrow> bool" where
  "once_bounded_inv c \<longleftrightarrow> (generations (fst c) < 2 ^ 30 \<longrightarrow> once_inv c)"

lemma generations_mono: "once_step c c' \<Longrightarrow> generations (fst c) \<le> generations (fst c')"
proof (induction rule: once_step.induct)
  case (move c c')
  then obtain s pcs t s' pc' where "c = (s, pcs)" "(s', pc') \<in> set (once_thread s (pcs t))" "c' = (s', pcs(t := pc'))"
    by (auto elim: thread_step.cases)
  then show ?case by (cases "pcs t") (auto simp: Let_def split: if_splits)
qed simp

lemma once_bounded_inv_step:
  assumes "once_bounded_inv c" and step: "once_step c c'"
  shows "once_bounded_inv c'"
  unfolding once_bounded_inv_def
proof
  assume bound: "generations (fst c') < 2 ^ 30"
  with generations_mono [OF step] assms(1) have inv: "once_inv c"
    by (simp add: once_bounded_inv_def)
  from step show "once_inv c'"
  proof cases
    case move
    with inv bound show ?thesis
      by (cases c) (auto elim!: thread_stepE intro!: once_inv_thread)
  next
    case (fork pcs t pid s)
    with inv show ?thesis by (auto intro: once_inv_fork)
  qed
qed

lemma once_bounded_inv_start: "once_start c \<Longrightarrow> once_bounded_inv c"
  by (cases c) (auto simp: once_bounded_inv_def once_start_def once_inv_def once_shared_ok_def
      control_ok_def gen_word_def Let_def)

interpretation once: invariant_machine once_start once_step once_bounded_inv
  by unfold_locales (rule once_bounded_inv_start once_bounded_inv_step; assumption)+

end
