(* ===== verification/Pthread_Props.thy ===== *)
theory Pthread_Props
  imports Static_Mutex Native_Resolver Pthread_Once
begin

text \<open>
  The exported functions of \<^verbatim>\<open>src/compat/pthread.c\<close> over the resolver and the static
  mutex conversion, and the properties of the three concurrent parts.
\<close>

section \<open>The exported functions\<close>

text \<open>
  What a function returns: an error number, the result of the native function of the same
  name, or \<open>-1\<close> with \<open>errno\<close> set.
\<close>

datatype api_result = Api_Error errno | Native_Result string | Minus_One errno

definition FORWARD_PTHREAD :: "errno option \<Rightarrow> string \<Rightarrow> api_result" where
  "FORWARD_PTHREAD ready name = (case ready of Some e \<Rightarrow> Api_Error e | None \<Rightarrow> Native_Result name)"

text \<open>The functions that are given a mutex convert it first.\<close>

definition forward_with_mutex :: "errno option \<Rightarrow> errno option \<Rightarrow> string \<Rightarrow> api_result" where
  "forward_with_mutex ready prepared name =
     (case ready of Some e \<Rightarrow> Api_Error e
      | None \<Rightarrow> (case prepared of Some e \<Rightarrow> Api_Error e | None \<Rightarrow> Native_Result name))"

definition native_sem_ready :: "errno option \<Rightarrow> string \<Rightarrow> api_result" where
  "native_sem_ready ready name = (case ready of Some e \<Rightarrow> Minus_One e | None \<Rightarrow> Native_Result name)"

definition mutex_functions :: "string list" where
  "mutex_functions = [''pthread_mutex_destroy'', ''pthread_mutex_lock'', ''pthread_mutex_trylock'',
     ''pthread_mutex_unlock'', ''pthread_cond_wait'', ''pthread_cond_timedwait'']"

definition sem_functions :: "string list" where
  "sem_functions = [''sem_init'', ''sem_destroy'', ''sem_post'', ''sem_wait'', ''sem_trywait'', ''sem_timedwait'']"

definition sync_functions :: "string list" where
  "sync_functions =
    [''pthread_mutexattr_init'', ''pthread_mutexattr_destroy'', ''pthread_mutexattr_setprotocol'',
     ''pthread_mutexattr_setpshared'', ''pthread_mutexattr_settype'', ''pthread_mutex_init'',
     ''pthread_condattr_init'', ''pthread_condattr_destroy'', ''pthread_condattr_setclock'',
     ''pthread_condattr_setpshared'', ''pthread_cond_init'', ''pthread_cond_destroy'',
     ''pthread_cond_signal'', ''pthread_cond_broadcast'', ''pthread_rwlock_init'', ''pthread_rwlock_destroy'',
     ''pthread_rwlock_rdlock'', ''pthread_rwlock_wrlock'', ''pthread_rwlock_unlock'',
     ''pthread_rwlock_tryrdlock'', ''pthread_rwlock_trywrlock'', ''pthread_rwlockattr_init'',
     ''pthread_rwlockattr_destroy'', ''pthread_rwlockattr_setpshared'']"

definition thread_functions :: "string list" where
  "thread_functions =
    [''pthread_attr_init'', ''pthread_attr_destroy'', ''pthread_attr_setstacksize'',
     ''pthread_attr_setdetachstate'', ''pthread_attr_setinheritsched'', ''pthread_attr_setschedparam'',
     ''pthread_attr_setschedpolicy'', ''pthread_attr_setscope'', ''pthread_attr_setstack'',
     ''pthread_attr_setguardsize'', ''pthread_create'', ''pthread_join'', ''pthread_detach'']"

text \<open>A call of an exported function; a name the file does not export has no result.\<close>

definition pthread_call :: "errno option \<Rightarrow> errno option \<Rightarrow> string \<Rightarrow> api_result option" where
  "pthread_call ready prepared name =
     (if name \<in> set mutex_functions then Some (forward_with_mutex ready prepared name)
      else if name \<in> set sem_functions then Some (native_sem_ready ready name)
      else if name \<in> set (sync_functions @ thread_functions) then Some (FORWARD_PTHREAD ready name)
      else None)"

section \<open>Static mutexes\<close>

text \<open>
  C23: any number of threads may use one statically initialised mutex at once.  In every
  reachable configuration word 0 is still 0 or holds the kind, exactly one thread is the
  one to clear the kind word, a thread that was told 0 leaves a native mutex behind it (or
  had nothing to convert), and an unknown kind is refused with both words untouched.
\<close>

theorem static_mutex_converted_once:
  assumes "prepare_start 0 kind c" and "(thread_step prepare_thread)\<^sup>*\<^sup>* c (m, pcs)"
  shows "(word0 m = 0 \<and> word4 m = kind \<or> supported_kind kind \<and> word0 m = kind \<and> (word4 m = kind \<or> word4 m = 0))
    \<and> (supported_kind kind \<and> word0 m = kind \<and> word4 m = kind \<longrightarrow> (\<exists>t. \<forall>u. pcs u = Clear_Kind \<longleftrightarrow> u = t))
    \<and> (pcs t = Prepared \<longrightarrow> kind = 0 \<or> word0 m = kind)
    \<and> (pcs t = Not_Supported \<longrightarrow> kind \<noteq> 0 \<and> \<not> supported_kind kind \<and> word0 m = 0 \<and> word4 m = kind)"
proof -
  have "prepare_inv 0 kind (m, pcs)"
    by (rule prepare.inv_reachable [OF assms])
  then have ok: "prepare_ok 0 kind m (pcs t)"
    and phase: "untouched 0 kind (m, pcs) \<or> published 0 kind (m, pcs) \<or> cleared 0 kind (m, pcs)"
    by (auto simp: prepare_inv_def)
  from phase ok show ?thesis
    using supported_kind_nonzero [of kind]
    by (cases "pcs t") (auto simp: untouched_def published_def cleared_def)
qed

lemma static_mutex_converted_once_witness:
  "\<exists>pcs. (thread_step prepare_thread)\<^sup>*\<^sup>* (\<lparr>word0 = 0, word4 = 1\<rparr>, \<lambda>_. Load_Type) (\<lparr>word0 = 1, word4 = 1\<rparr>, pcs)
    \<and> (\<exists>t. \<forall>u. pcs u = Clear_Kind \<longleftrightarrow> u = t)"
proof -
  obtain pcs where "run_schedule prepare_thread [(0, 0), (1, 0), (0, 0), (1, 0), (0, 0), (1, 0)]
      (\<lparr>word0 = 0, word4 = 1\<rparr>, \<lambda>_. Load_Type) = Some (\<lparr>word0 = 1, word4 = 1\<rparr>, pcs)"
    by (simp add: Let_def GLIBC_MUTEX_RECURSIVE_KIND_def GLIBC_MUTEX_ERRORCHECK_KIND_def)
  from run_schedule_reaches [OF this]
  have run: "(thread_step prepare_thread)\<^sup>*\<^sup>* (\<lparr>word0 = 0, word4 = 1\<rparr>, \<lambda>_. Load_Type) (\<lparr>word0 = 1, word4 = 1\<rparr>, pcs)" .
  from static_mutex_converted_once [OF _ this, of 1 0] run show ?thesis
    by (auto simp: prepare_start_def supported_kind_def GLIBC_MUTEX_RECURSIVE_KIND_def)
qed

section \<open>The resolver\<close>

text \<open>
  C15: through any interleaving of threads, with calls from inside \<open>dlsym\<close> and with forks of threads
  outside, at most one thread of a process looks the functions up, also while it is called from its
  own lookup.  A call is told 0 only when every one of the 49 pointers is what the dynamic linker
  found for its name and none is null; a call that no lookup waits for is told an error only when a
  name is missing; and a call from inside a lookup is always refused with \<open>ENOSYS\<close>.
\<close>

theorem resolver_success_means_all_found:
  assumes "resolver_start c" and "(resolver_step dlsym)\<^sup>*\<^sup>* c (s, ths)"
  shows "(resolving (ths t) \<and> resolving (ths u) \<longrightarrow> t = u)
    \<and> (res_pc (ths t) = Res_Return None \<longrightarrow>
        (\<forall>(member, name) \<in> set native_table. native_ptr s member = dlsym name \<and> dlsym name \<noteq> 0))
    \<and> (res_pc (ths t) = Res_Return (Some e) \<and> suspended (ths t) = [] \<longrightarrow>
        e = ENOSYS \<and> (\<exists>(member, name) \<in> set native_table. dlsym name = 0))
    \<and> (res_pc (ths t) = Res_Return r \<and> suspended (ths t) \<noteq> [] \<longrightarrow> r = Some ENOSYS)"
proof -
  have inv: "resolver_inv dlsym (s, ths)"
    by (rule native_resolver.inv_reachable [OF assms])
  then have ok: "resolver_ok dlsym s (ths t)" by (simp add: resolver_inv_def Let_def)
  have one: "resolving (ths t) \<and> resolving (ths u) \<longrightarrow> t = u"
    using inv by (simp add: resolver_inv_def Let_def)
  have ready: "RESOLVER_STATUS_STATE (resolver_status s) = RESOLVER_READY \<Longrightarrow>
      found_upto dlsym (length native_table) (native_ptr s) False"
    and failed: "RESOLVER_STATUS_STATE (resolver_status s) = RESOLVER_FAILED \<Longrightarrow>
      \<exists>(member, name) \<in> set native_table. dlsym name = 0"
    using inv by (simp_all add: resolver_inv_def Let_def)
  have nested: "r = Some ENOSYS" if "res_pc (ths t) = Res_Return r" "suspended (ths t) \<noteq> []"
    using ok that by (auto simp: resolver_ok_def nested_ok_def neq_Nil_conv)
  have "suspended (ths t) = []" if "res_pc (ths t) = Res_Return None"
    using ok that by (auto simp: resolver_ok_def nested_ok_def split: list.splits)
  then have "\<forall>(member, name) \<in> set native_table. native_ptr s member = dlsym name \<and> dlsym name \<noteq> 0"
    if "res_pc (ths t) = Res_Return None"
    using ok ready that by (auto simp: resolver_ok_def found_upto_def)
  moreover have "e = ENOSYS \<and> (\<exists>(member, name) \<in> set native_table. dlsym name = 0)"
    if "res_pc (ths t) = Res_Return (Some e)" "suspended (ths t) = []"
    using ok failed that by (simp add: resolver_ok_def)
  ultimately show ?thesis using one nested by blast
qed

text \<open>A thread alone: it loads, claims, looks up every name and publishes.\<close>

definition looking :: "nat \<Rightarrow> bool \<Rightarrow> native_thread" where
  "looking n m = \<lparr>resolver_active = True, res_pc = Resolving n m, suspended = []\<rparr>"

lemma resolver_lookups:
  assumes "n \<le> length native_table" and "\<And>x. dlsym x \<noteq> 0"
  shows "\<exists>ptr. run_schedule (resolver_thread dlsym) (replicate (length native_table - n) (t, 0)) (s, ths(t := looking n False))
    = Some (s\<lparr>native_ptr := ptr\<rparr>, ths(t := looking (length native_table) False))"
  using assms(1)
proof (induction "length native_table - n" arbitrary: n s)
  case 0
  then show ?case by (intro exI [of _ "native_ptr s"]) simp
next
  case (Suc k)
  obtain member name where nt: "native_table ! n = (member, name)" by (cases "native_table ! n")
  let ?s = "s\<lparr>native_ptr := (native_ptr s)(member := dlsym name)\<rparr>"
  have n: "n < length native_table" "length native_table - n = Suc (length native_table - Suc n)"
    using Suc.hyps(2) by simp_all
  have "fst (hd (resolver_thread dlsym s (looking n False))) = ?s"
    "snd (hd (resolver_thread dlsym s (looking n False))) = looking (Suc n) False"
    using n nt assms(2) by (simp_all add: resolver_thread_def looking_def)
  moreover have "resolver_thread dlsym s (looking n False) \<noteq> []" using n nt by (simp add: resolver_thread_def looking_def Let_def)
  moreover obtain ptr where
    "run_schedule (resolver_thread dlsym) (replicate (length native_table - Suc n) (t, 0)) (?s, ths(t := looking (Suc n) False))
    = Some (?s\<lparr>native_ptr := ptr\<rparr>, ths(t := looking (length native_table) False))"
    using Suc.hyps(1) [of "Suc n" ?s] Suc.hyps(2) n by auto
  ultimately show ?case
    using n by (intro exI [of _ ptr]) (simp add: Let_def hd_conv_nth)
qed

lemma run_schedule_append:
  "run_schedule thread (xs @ ys) c =
    (case run_schedule thread xs c of None \<Rightarrow> None | Some c' \<Rightarrow> run_schedule thread ys c')"
  by (induction thread xs c rule: run_schedule.induct) (auto simp: Let_def)

definition resolver_world :: "(resolver, native_thread) config" where
  "resolver_world = (\<lparr>resolver_status = 0, native_ptr = \<lambda>_. 0, process_id = 7\<rparr>, \<lambda>_. away)"

lemma resolver_alone:
  assumes "\<And>x. dlsym x \<noteq> 0"
  shows "\<exists>s ths. (resolver_step dlsym)\<^sup>*\<^sup>* resolver_world (s, ths) \<and> res_pc (ths 0) = Res_Return None"
proof -
  let ?s = "\<lparr>resolver_status = RESOLVER_STATUS 7 RESOLVER_RUNNING, native_ptr = \<lambda>_. 0, process_id = 7\<rparr>"
  have claim: "run_schedule (resolver_thread dlsym) [(0, 0), (0, 0), (0, 0)] resolver_world =
      Some (?s, (\<lambda>_. away)(0 := looking 0 False))"
    by (simp add: Let_def resolver_consts resolver_world_def resolver_thread_def away_def looking_def)
  obtain ptr where look: "run_schedule (resolver_thread dlsym) (replicate (length native_table) (0, 0))
      (?s, (\<lambda>_. away)(0 := looking 0 False)) =
    Some (?s\<lparr>native_ptr := ptr\<rparr>, (\<lambda>_. away)(0 := looking (length native_table) False))"
    using resolver_lookups [of 0 dlsym 0 ?s "\<lambda>_. away"] assms by auto
  have "run_schedule (resolver_thread dlsym)
      ([(0, 0), (0, 0), (0, 0)] @ replicate (length native_table) (0, 0) @ [(0, 0), (0, 0)]) resolver_world =
      run_schedule (resolver_thread dlsym) [(0, 0), (0, 0)]
        (?s\<lparr>native_ptr := ptr\<rparr>, (\<lambda>_. away)(0 := looking (length native_table) False))"
    by (simp only: run_schedule_append claim look option.case)
  then have "\<exists>s ths. run_schedule (resolver_thread dlsym)
      ([(0, 0), (0, 0), (0, 0)] @ replicate (length native_table) (0, 0) @ [(0, 0), (0, 0)]) resolver_world = Some (s, ths)
      \<and> res_pc (ths 0) = Res_Return None"
    by (simp add: Let_def resolver_thread_def looking_def del: append.simps)
  then show ?thesis
    using run_schedule_reaches rtranclp_mono [of "thread_step (resolver_thread dlsym)" "resolver_step dlsym"]
    by (blast intro: resolver_step.move)
qed

text \<open>A lookup, and a call from inside it, which is refused while the lookup goes on.\<close>

lemma resolver_called_again:
  "\<exists>s ths. (resolver_step dlsym)\<^sup>*\<^sup>* resolver_world (s, ths) \<and> res_pc (ths 0) = Res_Return (Some ENOSYS) \<and> suspended (ths 0) \<noteq> []"
proof -
  have "\<exists>s ths. run_schedule (resolver_thread dlsym) [(0, 0), (0, 0), (0, 0), (0, 1), (0, 0)] resolver_world = Some (s, ths)
      \<and> res_pc (ths 0) = Res_Return (Some ENOSYS) \<and> suspended (ths 0) \<noteq> []"
    by (simp add: Let_def resolver_consts resolver_world_def resolver_thread_def away_def native_table_length case_prod_unfold)
  then show ?thesis
    using run_schedule_reaches rtranclp_mono [of "thread_step (resolver_thread dlsym)" "resolver_step dlsym"]
    by (blast intro: resolver_step.move)
qed

lemma resolver_success_means_all_found_witness:
  "(\<exists>s ths. (resolver_step (\<lambda>_. 5))\<^sup>*\<^sup>* resolver_world (s, ths) \<and> res_pc (ths 0) = Res_Return None \<and> native_ptr s ''join'' = 5)
   \<and> (\<exists>s ths. (resolver_step (\<lambda>_. 5))\<^sup>*\<^sup>* resolver_world (s, ths) \<and> suspended (ths 0) \<noteq> [] \<and> resolving (ths 0) \<and> \<not> resolving (ths 1))"
proof
  have start: "resolver_start resolver_world" by (simp add: resolver_start_def resolver_world_def)
  obtain s ths where run: "(resolver_step (\<lambda>_. 5))\<^sup>*\<^sup>* resolver_world (s, ths)" "res_pc (ths 0) = Res_Return None"
    using resolver_alone [of "\<lambda>_. 5"] by auto
  from resolver_success_means_all_found [OF start run(1), of 0] run(2)
  have "native_ptr s ''join'' = 5" by (simp add: native_table_def)
  with run show "\<exists>s ths. (resolver_step (\<lambda>_. 5))\<^sup>*\<^sup>* resolver_world (s, ths) \<and> res_pc (ths 0) = Res_Return None
      \<and> native_ptr s ''join'' = 5" by blast
  obtain s ths where again: "(resolver_step (\<lambda>_. 5))\<^sup>*\<^sup>* resolver_world (s, ths)" "suspended (ths 0) \<noteq> []"
    using resolver_called_again [of "\<lambda>_. 5"] by auto
  then have "resolving (ths 0)" by (simp add: resolving_def)
  with resolver_success_means_all_found [OF start again(1), of 0 1] again
  show "\<exists>s ths. (resolver_step (\<lambda>_. 5))\<^sup>*\<^sup>* resolver_world (s, ths) \<and> suspended (ths 0) \<noteq> [] \<and> resolving (ths 0)
      \<and> \<not> resolving (ths 1)" by auto
qed

section \<open>Once\<close>

text \<open>
  C11: for threads that call \<open>pthread_once\<close>, are cancelled inside the routine or fork
  outside it, in any interleaving and for fewer than \<open>2 ^ 30\<close> generations: at most one
  thread of a process is inside the routine; the routine comes to its end at most once in
  a process; whoever has returned sees the control word finished, and then nobody is
  inside; and a thread that is inside after the routine's end is the one that is about to
  publish it.
\<close>

theorem pthread_once_runs_once:
  assumes "once_start c" and "once_step\<^sup>*\<^sup>* c (s, pcs)" and "generations s < 2 ^ 30"
  shows "(in_init (pcs t) \<and> in_init (pcs u) \<longrightarrow> t = u)
    \<and> init_runs s \<le> 1
    \<and> (pcs t = Returned \<longrightarrow> control s = ONCE_DONE \<and> \<not> in_init (pcs u))
    \<and> (in_init (pcs t) \<and> init_runs s = 1 \<longrightarrow> (\<exists>g. pcs t = Store_Done g))"
proof -
  have "once_inv (s, pcs)"
    using once.inv_reachable [OF assms(1,2)] assms(3) by (simp add: once_bounded_inv_def)
  note D = once_invD [OF this]
  have fin: "\<not> in_init (pcs u)" if "control s = ONCE_DONE" for u
    using in_init_ok [OF D(2) [of u]] that busy_neq(2) [symmetric] by auto
  have "pcs t = Returned \<Longrightarrow> control s = ONCE_DONE" using D(2) [of t] by simp
  moreover have "in_init (pcs t) \<Longrightarrow> init_runs s = 1 \<Longrightarrow> \<exists>g. pcs t = Store_Done g"
    using D(2) [of t] by (cases "pcs t") auto
  ultimately show ?thesis
    using D(1,4) fin by (auto simp: once_shared_ok_def)
qed

definition once_world :: "(once_state, once_pc) config" where
  "once_world = (\<lparr>control = 0, once_pid = 0, once_generation = 0, getpid = 7, woken = 0, generations = 0,
     init_runs = 0\<rparr>, \<lambda>_. Away)"

lemma once_world_start: "once_start once_world"
  by (simp add: once_start_def once_world_def)

text \<open>Thread 0 enters the routine, thread 1 comes to wait for it.\<close>

lemma once_world_run:
  "\<exists>pcs. once_step\<^sup>*\<^sup>* once_world
    (\<lparr>control = 5, once_pid = 7, once_generation = 4, getpid = 7, woken = 0, generations = 1, init_runs = 0\<rparr>, pcs)
    \<and> pcs 0 = Init_Running 4 \<and> pcs 1 = Asleep 0"
proof -
  have "\<exists>pcs. run_schedule once_thread (replicate 8 (0, 0) @ replicate 6 (1, 0)) once_world =
    Some (\<lparr>control = 5, once_pid = 7, once_generation = 4, getpid = 7, woken = 0, generations = 1, init_runs = 0\<rparr>, pcs)
    \<and> pcs 0 = Init_Running 4 \<and> pcs 1 = Asleep 0"
    by (simp add: once_world_def Let_def once_consts numeral_eq_Suc)
  then show ?thesis
    using run_schedule_reaches rtranclp_mono [of "thread_step once_thread" once_step]
    by (blast intro: once_step.move)
qed

lemma pthread_once_runs_once_witness:
  "\<exists>s pcs. once_step\<^sup>*\<^sup>* once_world (s, pcs) \<and> pcs 0 = Init_Running 4 \<and> \<not> in_init (pcs 5)"
proof -
  obtain pcs where run: "once_step\<^sup>*\<^sup>* once_world
    (\<lparr>control = 5, once_pid = 7, once_generation = 4, getpid = 7, woken = 0, generations = 1, init_runs = 0\<rparr>, pcs)"
    "pcs 0 = Init_Running 4"
    using once_world_run by blast
  from pthread_once_runs_once [OF once_world_start run(1), of 0 5] run(2) have "\<not> in_init (pcs 5)" by auto
  with run show ?thesis by blast
qed

text \<open>
  C16: no wake-up is lost.  A thread that sleeps on the control word and has not been
  woken since is waiting for a thread of this process that is inside the routine, or for
  one that is just about to wake the sleepers.
\<close>

theorem pthread_once_sleeper_has_waker:
  assumes "once_start c" and "once_step\<^sup>*\<^sup>* c (s, pcs)" and "generations s < 2 ^ 30"
    and "pcs t = Asleep (woken s)"
  shows "\<exists>u. u \<noteq> t \<and> (in_init (pcs u) \<or> waking (pcs u))"
proof -
  have "once_inv (s, pcs)"
    using once.inv_reachable [OF assms(1,2)] assms(3) by (simp add: once_bounded_inv_def)
  note D = once_invD [OF this]
  have "established s" using D(2) [of t] assms(4) by simp
  with D(7) [OF assms(4)] D(6) have "\<exists>u. in_init (pcs u) \<or> waking (pcs u)" by blast
  with assms(4) show ?thesis by (metis in_init.simps(16) waking.simps(16))
qed

lemma pthread_once_sleeper_has_waker_witness:
  "\<exists>s pcs u. once_step\<^sup>*\<^sup>* once_world (s, pcs) \<and> pcs 1 = Asleep (woken s) \<and> u \<noteq> 1
    \<and> (in_init (pcs u) \<or> waking (pcs u))"
proof -
  obtain pcs where run: "once_step\<^sup>*\<^sup>* once_world
    (\<lparr>control = 5, once_pid = 7, once_generation = 4, getpid = 7, woken = 0, generations = 1, init_runs = 0\<rparr>, pcs)"
    "pcs 1 = Asleep 0"
    using once_world_run by blast
  from pthread_once_sleeper_has_waker [OF once_world_start run(1), of 1] run(2)
  have "\<exists>u. u \<noteq> 1 \<and> (in_init (pcs u) \<or> waking (pcs u))" by simp
  with run show ?thesis by fastforce
qed

end
