(* ===== verification/Obstack.thy ===== *)
theory Obstack
  imports C_Lib
begin

text \<open>
  \<^verbatim>\<open>include/obstack.h\<close> and \<^verbatim>\<open>src/obstack.c\<close>: objects that grow at the end of a
  chain of chunks.  Addresses and sizes are 64-bit words with the code's arithmetic,
  memory maps addresses to bytes, and the two header fields of a chunk are kept by the
  chunk's address.  The functions that allocate and free chunks are the client's: the
  first may look at everything, its calls and those of the second are logged.
\<close>

section \<open>State\<close>

record obstack =
  chunk_size :: u64
  chunk :: u64
  object_base :: u64
  next_free :: u64
  chunk_limit :: u64
  alignment_mask :: u64
  use_extra_arg :: bool
  maybe_empty_object :: bool
  alloc_failed :: bool
  mem :: "u64 \<Rightarrow> u8"
  limit_of :: "u64 \<Rightarrow> u64"
  prev_of :: "u64 \<Rightarrow> u64"
  chunk_log :: "(u64 \<times> u64) list"
  free_log :: "u64 list"

type_synonym chunkfun = "obstack \<Rightarrow> u64 \<Rightarrow> u64"

text \<open>
  A function returns, or calls the handler of a failed allocation, which does not return
  (the default one exits), or aborts.
\<close>

datatype 'a ob_result = Ok 'a | Alloc_Failed | Abort

fun ob_bind :: "'a ob_result \<Rightarrow> ('a \<Rightarrow> 'b ob_result) \<Rightarrow> 'b ob_result" where
  "ob_bind (Ok x) f = f x"
| "ob_bind Alloc_Failed f = Alloc_Failed"
| "ob_bind Abort f = Abort"

lemma ob_bind_Ok: "ob_bind r f = Ok y \<longleftrightarrow> (\<exists>x. r = Ok x \<and> f x = Ok y)"
  by (cases r) auto

section \<open>Memory and alignment\<close>

text \<open>\<open>__PTR_ALIGN\<close> where pointers and \<open>ptrdiff_t\<close> have the same size.\<close>

definition PTR_ALIGN :: "u64 \<Rightarrow> u64 \<Rightarrow> u64" where
  "PTR_ALIGN p a = (p + a) AND NOT a"

fun write_bytes :: "u64 \<Rightarrow> u8 list \<Rightarrow> (u64 \<Rightarrow> u8) \<Rightarrow> (u64 \<Rightarrow> u8)" where
  "write_bytes a [] m = m"
| "write_bytes a (b # bs) m = write_bytes (a + 1) bs (m(a := b))"

definition read_bytes :: "u64 \<Rightarrow> nat \<Rightarrow> (u64 \<Rightarrow> u8) \<Rightarrow> u8 list" where
  "read_bytes a n m = map (\<lambda>i. m (a + of_nat i)) [0 ..< n]"

text \<open>The contents of a chunk start after the two header pointers.\<close>

definition contents :: "u64 \<Rightarrow> u64" where
  "contents c = c + 16"

section \<open>The functions\<close>

definition DEFAULT_ALIGNMENT :: u64 where "DEFAULT_ALIGNMENT = 16"
definition DEFAULT_ROUNDING :: u64 where "DEFAULT_ROUNDING = 16"

definition call_chunkfun :: "chunkfun \<Rightarrow> u64 \<Rightarrow> obstack \<Rightarrow> u64 \<times> obstack" where
  "call_chunkfun cf sz h = (let c = cf h sz in (c, h\<lparr>chunk_log := chunk_log h @ [(c, sz)]\<rparr>))"

definition call_freefun :: "u64 \<Rightarrow> obstack \<Rightarrow> obstack" where
  "call_freefun c h = h\<lparr>free_log := free_log h @ [c]\<rparr>"

definition set_header :: "u64 \<Rightarrow> u64 \<Rightarrow> u64 \<Rightarrow> obstack \<Rightarrow> obstack" where
  "set_header c limit prev h =
     h\<lparr>limit_of := (limit_of h)(c := limit), prev_of := (prev_of h)(c := prev)\<rparr>"

definition obstack_begin_worker :: "chunkfun \<Rightarrow> u64 \<Rightarrow> u64 \<Rightarrow> obstack \<Rightarrow> obstack ob_result" where
  "obstack_begin_worker cf sz alignment h =
     (let alignment = (if alignment = 0 then DEFAULT_ALIGNMENT else alignment);
          extra = (((12 + DEFAULT_ROUNDING - 1) AND NOT (DEFAULT_ROUNDING - 1)) + 4 + DEFAULT_ROUNDING - 1)
                    AND NOT (DEFAULT_ROUNDING - 1);
          sz = (if sz = 0 then 4096 - extra else sz);
          h1 = h\<lparr>chunk_size := sz, alignment_mask := alignment - 1\<rparr>;
          (c, h2) = call_chunkfun cf (chunk_size h1) h1 in
      if c = 0 then Alloc_Failed
      else
        let h3 = set_header c (c + chunk_size h2) 0 h2;
            aligned = PTR_ALIGN (contents c) (alignment_mask h3) in
        Ok (h3\<lparr>chunk := c, chunk_limit := limit_of h3 c, object_base := aligned, next_free := aligned,
             maybe_empty_object := False, alloc_failed := False\<rparr>))"

definition obstack_begin :: "chunkfun \<Rightarrow> u64 \<Rightarrow> u64 \<Rightarrow> obstack \<Rightarrow> obstack ob_result" where
  "obstack_begin cf sz alignment h = obstack_begin_worker cf sz alignment (h\<lparr>use_extra_arg := False\<rparr>)"

definition obstack_begin_1 :: "chunkfun \<Rightarrow> u64 \<Rightarrow> u64 \<Rightarrow> obstack \<Rightarrow> obstack ob_result" where
  "obstack_begin_1 cf sz alignment h = obstack_begin_worker cf sz alignment (h\<lparr>use_extra_arg := True\<rparr>)"

definition obstack_newchunk :: "chunkfun \<Rightarrow> u64 \<Rightarrow> obstack \<Rightarrow> obstack ob_result" where
  "obstack_newchunk cf len h =
     (let old_chunk = chunk h; obj_size = next_free h - object_base h;
          new_size = obj_size + len in
      if new_size < obj_size then Alloc_Failed
      else if SIZE_MAX - new_size < alignment_mask h + 100 then Alloc_Failed
      else
        let new_size = new_size + (alignment_mask h + 100); growth = drop_bit 3 obj_size in
        if SIZE_MAX - new_size < growth then Alloc_Failed
        else
          let new_size = new_size + growth;
              new_size = (if new_size < chunk_size h then chunk_size h else new_size);
              (new_chunk, h1) = call_chunkfun cf new_size h in
          if new_chunk = 0 then Alloc_Failed
          else
            let h2 = set_header new_chunk (new_chunk + new_size) old_chunk h1;
                h3 = h2\<lparr>chunk_limit := limit_of h2 new_chunk\<rparr>;
                old_base = object_base h3;
                new_base = PTR_ALIGN (contents new_chunk) (alignment_mask h3);
                h4 = h3\<lparr>mem := write_bytes new_base (read_bytes old_base (unat obj_size) (mem h3)) (mem h3),
                        object_base := new_base, next_free := new_base + obj_size\<rparr>;
                h5 = (if \<not> maybe_empty_object h4 then
                        let old_aligned = PTR_ALIGN (contents old_chunk) (alignment_mask h4) in
                        if old_base = old_aligned
                        then call_freefun old_chunk
                               (h4\<lparr>prev_of := (prev_of h4)(new_chunk := prev_of h4 old_chunk)\<rparr>)
                        else h4
                      else h4) in
            Ok (h5\<lparr>chunk := new_chunk, maybe_empty_object := False, alloc_failed := False\<rparr>))"

text \<open>Walking the chain while a condition holds, freeing the chunks passed; it may not end.\<close>

partial_function (option) free_while :: "(obstack \<Rightarrow> u64 \<Rightarrow> bool) \<Rightarrow> u64 \<Rightarrow> obstack \<Rightarrow> (u64 \<times> obstack) option" where
  "free_while P c h =
     (if c \<noteq> 0 \<and> P h c then free_while P (prev_of h c) (call_freefun c h\<lparr>maybe_empty_object := True\<rparr>)
      else Some (c, h))"

definition obstack_free_fn :: "u64 \<Rightarrow> obstack \<Rightarrow> obstack ob_result option" where
  "obstack_free_fn obj h =
     (if chunk h = 0 then Some (Ok h)
      else if obj = 0 then
        map_option (\<lambda>(_, h1). Ok (h1\<lparr>chunk := 0, chunk_limit := 0, object_base := 0, next_free := 0,
            maybe_empty_object := True, alloc_failed := False\<rparr>))
          (free_while (\<lambda>_ _. True) (chunk h) h)
      else
        map_option (\<lambda>(c, h1).
            if c = 0 then Abort
            else Ok (h1\<lparr>chunk := c, chunk_limit := limit_of h1 c, object_base := obj, next_free := obj,
                   maybe_empty_object := True, alloc_failed := False\<rparr>))
          (free_while (\<lambda>h c. c \<ge> obj \<or> limit_of h c < obj) (chunk h) h))"

partial_function (option) memory_used_loop :: "obstack \<Rightarrow> u64 \<Rightarrow> u64 \<Rightarrow> u64 option" where
  "memory_used_loop h c tot =
     (if c \<noteq> 0 then memory_used_loop h (prev_of h c) (tot + (limit_of h c - c)) else Some tot)"

definition obstack_memory_used :: "obstack \<Rightarrow> u64 option" where
  "obstack_memory_used h = memory_used_loop h (chunk h) 0"

definition obstack_calculate_object_size :: "obstack \<Rightarrow> u64" where
  "obstack_calculate_object_size ob = next_free ob - object_base ob"

section \<open>The macros\<close>

definition obstack_room :: "obstack \<Rightarrow> u64" where
  "obstack_room h = chunk_limit h - next_free h"

definition obstack_make_room :: "chunkfun \<Rightarrow> u64 \<Rightarrow> obstack \<Rightarrow> obstack ob_result" where
  "obstack_make_room cf len h = (if obstack_room h < len then obstack_newchunk cf len h else Ok h)"

definition obstack_grow :: "chunkfun \<Rightarrow> u8 list \<Rightarrow> obstack \<Rightarrow> obstack ob_result" where
  "obstack_grow cf bs h =
     (let len = of_nat (length bs) in
      ob_bind (if obstack_room h < len then obstack_newchunk cf len h else Ok h) (\<lambda>h.
        Ok (h\<lparr>mem := write_bytes (next_free h) bs (mem h), next_free := next_free h + len\<rparr>)))"

definition obstack_grow0 :: "chunkfun \<Rightarrow> u8 list \<Rightarrow> obstack \<Rightarrow> obstack ob_result" where
  "obstack_grow0 cf bs h =
     (let len = of_nat (length bs) in
      ob_bind (if obstack_room h < len + 1 then obstack_newchunk cf (len + 1) h else Ok h) (\<lambda>h.
        let h1 = h\<lparr>mem := write_bytes (next_free h) bs (mem h), next_free := next_free h + len\<rparr> in
        Ok (h1\<lparr>mem := (mem h1)(next_free h1 := 0), next_free := next_free h1 + 1\<rparr>)))"

definition obstack_1grow :: "chunkfun \<Rightarrow> u8 \<Rightarrow> obstack \<Rightarrow> obstack ob_result" where
  "obstack_1grow cf ch h =
     ob_bind (if obstack_room h < 1 then obstack_newchunk cf 1 h else Ok h) (\<lambda>h.
       Ok (h\<lparr>mem := (mem h)(next_free h := ch), next_free := next_free h + 1\<rparr>))"

definition obstack_blank :: "chunkfun \<Rightarrow> u64 \<Rightarrow> obstack \<Rightarrow> obstack ob_result" where
  "obstack_blank cf len h =
     ob_bind (if obstack_room h < len then obstack_newchunk cf len h else Ok h) (\<lambda>h.
       Ok (h\<lparr>next_free := next_free h + len\<rparr>))"

definition obstack_1grow_fast :: "u8 \<Rightarrow> obstack \<Rightarrow> obstack" where
  "obstack_1grow_fast ch h =
     (let h1 = h\<lparr>next_free := next_free h + 1\<rparr> in h1\<lparr>mem := (mem h1)(next_free h1 - 1 := ch)\<rparr>)"

definition obstack_blank_fast :: "u64 \<Rightarrow> obstack \<Rightarrow> obstack" where
  "obstack_blank_fast len h = h\<lparr>next_free := next_free h + len\<rparr>"

text \<open>The two growths by a machine value store its bytes, lowest first.\<close>

definition le_bytes :: "nat \<Rightarrow> u64 \<Rightarrow> u8 list" where
  "le_bytes n w = map (\<lambda>i. ucast (drop_bit (8 * i) w)) [0 ..< n]"

definition obstack_int_grow :: "chunkfun \<Rightarrow> u32 \<Rightarrow> obstack \<Rightarrow> obstack ob_result" where
  "obstack_int_grow cf i h =
     ob_bind (if obstack_room h < 4 then obstack_newchunk cf 4 h else Ok h) (\<lambda>h.
       let h1 = h\<lparr>next_free := next_free h + 4\<rparr> in
       Ok (h1\<lparr>mem := write_bytes (next_free h1 - 4) (le_bytes 4 (ucast i)) (mem h1)\<rparr>))"

definition obstack_ptr_grow :: "chunkfun \<Rightarrow> u64 \<Rightarrow> obstack \<Rightarrow> obstack ob_result" where
  "obstack_ptr_grow cf p h =
     ob_bind (if obstack_room h < 8 then obstack_newchunk cf 8 h else Ok h) (\<lambda>h.
       let h1 = h\<lparr>next_free := next_free h + 8\<rparr> in
       Ok (h1\<lparr>mem := write_bytes (next_free h1 - 8) (le_bytes 8 p) (mem h1)\<rparr>))"

definition obstack_finish :: "obstack \<Rightarrow> u64 \<times> obstack" where
  "obstack_finish h =
     (let value = object_base h;
          h1 = (if next_free h = object_base h then h\<lparr>maybe_empty_object := True\<rparr> else h);
          am = alignment_mask h1;
          tmp = (next_free h1 + am) AND NOT am;
          tmp = (if tmp > chunk_limit h1 then chunk_limit h1 else tmp);
          h2 = h1\<lparr>next_free := tmp\<rparr> in
      (value, h2\<lparr>object_base := next_free h2\<rparr>))"

definition obstack_alloc :: "chunkfun \<Rightarrow> u64 \<Rightarrow> obstack \<Rightarrow> (u64 \<times> obstack) ob_result" where
  "obstack_alloc cf len h = ob_bind (obstack_blank cf len h) (\<lambda>h. Ok (obstack_finish h))"

definition obstack_copy :: "chunkfun \<Rightarrow> u8 list \<Rightarrow> obstack \<Rightarrow> (u64 \<times> obstack) ob_result" where
  "obstack_copy cf bs h = ob_bind (obstack_grow cf bs h) (\<lambda>h. Ok (obstack_finish h))"

definition obstack_copy0 :: "chunkfun \<Rightarrow> u8 list \<Rightarrow> obstack \<Rightarrow> (u64 \<times> obstack) ob_result" where
  "obstack_copy0 cf bs h = ob_bind (obstack_grow0 cf bs h) (\<lambda>h. Ok (obstack_finish h))"

definition obstack_free :: "u64 \<Rightarrow> obstack \<Rightarrow> obstack ob_result option" where
  "obstack_free obj h =
     (if obj > chunk h \<and> obj < chunk_limit h
      then Some (Ok (h\<lparr>object_base := obj, next_free := obj\<rparr>))
      else obstack_free_fn obj h)"

definition obstack_empty_p :: "obstack \<Rightarrow> bool" where
  "obstack_empty_p h \<longleftrightarrow>
     prev_of h (chunk h) = 0 \<and> next_free h = PTR_ALIGN (contents (chunk h)) (alignment_mask h)"

text \<open>
  Formatted growth.  \<open>vsnprintf\<close> is the C library's: given the bytes it may write it
  answers a negative number or the length of the whole output, and stores as much of the
  output as fits, with a \<open>NUL\<close>.  The text may differ between calls when another thread
  changes what is printed: one answer per call.
\<close>

definition vsnprintf_store :: "u64 \<Rightarrow> nat \<Rightarrow> u8 list \<Rightarrow> obstack \<Rightarrow> obstack" where
  "vsnprintf_store dest tot out h =
     h\<lparr>mem := write_bytes dest (take (tot - 1) out @ [0]) (mem h)\<rparr>"

definition obstack_vprintf ::
  "chunkfun \<Rightarrow> u8 list option \<Rightarrow> u8 list option \<Rightarrow> u8 list option \<Rightarrow> obstack \<Rightarrow> (int \<times> obstack) ob_result" where
  "obstack_vprintf cf measured print1 print2 h =
     (case measured of None \<Rightarrow> Ok (- 1, h)
      | Some out0 \<Rightarrow>
          let tot = length out0 + 1 in
          ob_bind (if obstack_room h < of_nat tot then obstack_newchunk cf (of_nat tot) h else Ok h) (\<lambda>h.
            let dest = next_free h in
            case print1 of None \<Rightarrow> Ok (- 1, h)
            | Some out1 \<Rightarrow>
                let h = vsnprintf_store dest tot out1 h in
                if length out1 \<ge> tot then
                  let required = length out1 + 1 in
                  ob_bind (if obstack_room h < of_nat required then obstack_newchunk cf (of_nat required) h else Ok h) (\<lambda>h.
                    let dest = next_free h in
                    case print2 of None \<Rightarrow> Ok (- 1, h)
                    | Some out2 \<Rightarrow>
                        let h = vsnprintf_store dest required out2 h in
                        Ok (int (length out2), h\<lparr>next_free := dest + of_nat (length out2)\<rparr>))
                else Ok (int (length out1), h\<lparr>next_free := dest + of_nat (length out1)\<rparr>)))"

end
