(* ===== verification/Obstack_Inv.thy ===== *)
theory Obstack_Inv
  imports Obstack "HOL-Library.Multiset"
begin

text \<open>
  The shape of a valid obstack, and what each operation keeps of it: the chain of live
  chunks, the bytes of the growing object, and the region of finished objects.
\<close>

section \<open>Alignment\<close>

lemma and_not_mask_word: "x AND NOT (mask k) = x - take_bit k (x :: u64)"
proof -
  have "(x AND NOT (mask k)) + (x AND mask k) = (x AND NOT (mask k)) OR (x AND mask k)"
    by (rule disjunctive_add_eq_or) (auto simp: bit_eq_iff bit_simps)
  also have "\<dots> = x" by (auto simp: bit_eq_iff bit_simps)
  finally show ?thesis by (simp add: take_bit_eq_mask eq_diff_eq)
qed

lemma unat_take_bit: "unat (take_bit k (x :: u64)) = unat x mod 2 ^ k"
  unfolding unsigned_take_bit_eq by (rule take_bit_eq_mod)

lemma unat_and_not_mask: "unat (x AND NOT (mask k) :: u64) = unat x div 2 ^ k * 2 ^ k"
proof -
  have "take_bit k x \<le> x"
    by (simp add: word_le_nat_alt unat_take_bit)
  then have "unat (x AND NOT (mask k)) = unat x - unat x mod 2 ^ k"
    by (simp add: and_not_mask_word unat_sub unat_take_bit)
  then show ?thesis by (simp add: minus_mod_eq_div_mult)
qed

lemma unat_mask:
  assumes "k \<le> 63"
  shows "unat (mask k :: u64) = 2 ^ k - 1"
proof -
  have "(2 :: nat) ^ k \<le> 2 ^ 63" using assms by (intro power_increasing) simp_all
  then have "(2 :: nat) ^ k - 1 < 2 ^ 64" by simp
  moreover have "mask k = (of_nat (2 ^ k - 1) :: u64)" by (simp add: mask_eq_exp_minus_1 of_nat_diff)
  ultimately show ?thesis by (simp only: unat_of_nat_u64)
qed

lemma PTR_ALIGN_aligned: "PTR_ALIGN p (mask k) AND mask k = 0"
  by (simp add: PTR_ALIGN_def bit_eq_iff bit_simps)

lemma PTR_ALIGN_bounds:
  assumes "k \<le> 63" and "unat p + 2 ^ k - 1 < 2 ^ 64"
  shows "unat p \<le> unat (PTR_ALIGN p (mask k))" "unat (PTR_ALIGN p (mask k)) \<le> unat p + 2 ^ k - 1"
proof -
  have one: "(1 :: nat) \<le> 2 ^ k" by simp
  then have "unat (p + mask k) = unat p + 2 ^ k - 1"
    using assms by (subst unat_add_small) (simp_all add: unat_mask)
  then have eq: "unat (PTR_ALIGN p (mask k)) = (unat p + 2 ^ k - 1) div 2 ^ k * 2 ^ k"
    by (simp add: PTR_ALIGN_def unat_and_not_mask)
  have div: "(unat p + 2 ^ k - 1) div 2 ^ k * 2 ^ k + (unat p + 2 ^ k - 1) mod 2 ^ k = unat p + 2 ^ k - 1"
    by (rule div_mult_mod_eq)
  have "(unat p + 2 ^ k - 1) mod 2 ^ k < 2 ^ k" by simp
  with div one show "unat p \<le> unat (PTR_ALIGN p (mask k))" unfolding eq by linarith
  show "unat (PTR_ALIGN p (mask k)) \<le> unat p + 2 ^ k - 1" unfolding eq using div by linarith
qed

section \<open>Bytes\<close>

lemma unat_Suc_small: "unat (a :: u64) < 2 ^ 64 - 1 \<Longrightarrow> unat (a + 1) = unat a + 1"
  by (subst unat_add_small) simp_all

lemma read_bytes_length [simp]: "length (read_bytes a n m) = n"
  by (simp add: read_bytes_def)

lemma read_bytes_0 [simp]: "read_bytes a 0 m = []"
  by (simp add: read_bytes_def)

lemma read_bytes_Suc: "read_bytes a (Suc n) m = m a # read_bytes (a + 1) n m"
  by (simp add: read_bytes_def upt_conv_Cons map_Suc_upt [symmetric] algebra_simps del: upt_Suc)

lemma read_bytes_add: "read_bytes a (n + k) m = read_bytes a n m @ read_bytes (a + of_nat n) k m"
  by (induction n arbitrary: a) (simp_all add: read_bytes_Suc algebra_simps)

lemma write_bytes_outside:
  "unat a + length bs \<le> 2 ^ 64 \<Longrightarrow> unat p < unat a \<or> unat a + length bs \<le> unat p \<Longrightarrow>
   write_bytes a bs m p = m p"
proof (induction bs arbitrary: a m)
  case Nil
  then show ?case by simp
next
  case (Cons b bs)
  show ?case
  proof (cases "bs = []")
    case True
    with Cons.prems show ?thesis by auto
  next
    case False
    then have "0 < length bs" by simp
    with Cons.prems(1) have "unat a < 2 ^ 64 - 1" unfolding list.size by linarith
    then have "unat (a + 1) = unat a + 1" by (rule unat_Suc_small)
    then have "write_bytes (a + 1) bs (m(a := b)) p = (m(a := b)) p"
      using Cons.prems by (intro Cons.IH) auto
    with Cons.prems show ?thesis by auto
  qed
qed

lemma read_write_bytes:
  "unat a + length bs \<le> 2 ^ 64 \<Longrightarrow> read_bytes a (length bs) (write_bytes a bs m) = bs"
proof (induction bs arbitrary: a m)
  case Nil
  then show ?case by simp
next
  case (Cons b bs)
  show ?case
  proof (cases "bs = []")
    case True
    then show ?thesis by (simp add: read_bytes_Suc)
  next
    case False
    then have "0 < length bs" by simp
    with Cons.prems have "unat a < 2 ^ 64 - 1" unfolding list.size by linarith
    then have a: "unat (a + 1) = unat a + 1" by (rule unat_Suc_small)
    then have "write_bytes (a + 1) bs (m(a := b)) a = (m(a := b)) a"
      using Cons.prems by (intro write_bytes_outside) auto
    moreover have "read_bytes (a + 1) (length bs) (write_bytes (a + 1) bs (m(a := b))) = bs"
      using Cons.prems a by (intro Cons.IH) simp
    ultimately show ?thesis by (simp add: read_bytes_Suc)
  qed
qed

lemma read_bytes_cong:
  assumes "unat a + n \<le> 2 ^ 64" and "\<And>p. unat a \<le> unat p \<Longrightarrow> unat p < unat a + n \<Longrightarrow> m p = m' p"
  shows "read_bytes a n m = read_bytes a n m'"
  using assms
proof (induction n arbitrary: a)
  case 0
  then show ?case by simp
next
  case (Suc n)
  show ?case
  proof (cases n)
    case 0
    with Suc.prems(2) [of a] show ?thesis by (simp add: read_bytes_Suc)
  next
    case (Suc k)
    with Suc.prems(1) have a: "unat (a + 1) = unat a + 1" by (intro unat_Suc_small) simp
    have "read_bytes (a + 1) n m = read_bytes (a + 1) n m'"
      by (rule Suc.IH) (use Suc.prems a in auto)
    with Suc.prems(2) [of a] show ?thesis by (simp add: read_bytes_Suc)
  qed
qed

section \<open>Validity\<close>

text \<open>The chunks from \<open>c\<close> on, newest first.\<close>

fun chain :: "(u64 \<Rightarrow> u64) \<Rightarrow> u64 \<Rightarrow> u64 list \<Rightarrow> bool" where
  "chain f c [] \<longleftrightarrow> c = 0"
| "chain f c (x # xs) \<longleftrightarrow> c = x \<and> x \<noteq> 0 \<and> chain f (f x) xs"

text \<open>A finished object, by its address and its bytes; a chunk with its objects, newest first.\<close>

type_synonym ob_object = "u64 \<times> u8 list"
type_synonym ob_chunk = "u64 \<times> ob_object list"

text \<open>Objects that lie below \<open>hi\<close>, each below the next newer one, with their bytes in memory.\<close>

fun packed :: "(u64 \<Rightarrow> u8) \<Rightarrow> u64 \<Rightarrow> u64 \<Rightarrow> u64 \<Rightarrow> u64 \<Rightarrow> ob_object list \<Rightarrow> bool" where
  "packed m am limit lo hi [] \<longleftrightarrow> unat lo \<le> unat hi"
| "packed m am limit lo hi (ob # obs) \<longleftrightarrow>
     unat (fst ob) + length (snd ob) \<le> unat hi \<and> (fst ob AND am = 0 \<or> fst ob = limit)
     \<and> read_bytes (fst ob) (length (snd ob)) m = snd ob \<and> packed m am limit lo (fst ob) obs"

definition first_base :: "obstack \<Rightarrow> u64 \<Rightarrow> u64" where
  "first_base h c = PTR_ALIGN (contents c) (alignment_mask h)"

definition chunk_ok :: "obstack \<Rightarrow> u64 \<Rightarrow> bool" where
  "chunk_ok h c \<longleftrightarrow> c \<noteq> 0 \<and> unat c + 16 + unat (alignment_mask h) \<le> unat (limit_of h c)
     \<and> unat (limit_of h c) < 2 ^ 63 \<and> (c, limit_of h c - c) \<in> set (chunk_log h)"

definition apart :: "obstack \<Rightarrow> u64 \<Rightarrow> u64 \<Rightarrow> bool" where
  "apart h c d \<longleftrightarrow> unat (limit_of h c) \<le> unat d \<or> unat (limit_of h d) \<le> unat c"

definition chunks_ok :: "obstack \<Rightarrow> u64 list \<Rightarrow> bool" where
  "chunks_ok h cs \<longleftrightarrow> distinct cs \<and> (\<forall>c \<in> set cs. chunk_ok h c)
     \<and> (\<forall>c \<in> set cs. \<forall>d \<in> set cs. c \<noteq> d \<longrightarrow> apart h c d)"

definition sealed :: "obstack \<Rightarrow> ob_chunk \<Rightarrow> bool" where
  "sealed h co \<longleftrightarrow>
     packed (mem h) (alignment_mask h) (limit_of h (fst co)) (first_base h (fst co)) (limit_of h (fst co)) (snd co)"

definition ob_inv :: "obstack \<Rightarrow> ob_chunk list \<Rightarrow> bool" where
  "ob_inv h st \<longleftrightarrow>
     (\<exists>k \<le> 63. alignment_mask h = mask k)
     \<and> chain (prev_of h) (chunk h) (map fst st) \<and> chunks_ok h (map fst st)
     \<and> mset (map fst (chunk_log h)) = mset (map fst st) + mset (free_log h)
     \<and> unat (object_base h) \<le> unat (next_free h) \<and> unat (next_free h) \<le> unat (chunk_limit h)
     \<and> (object_base h AND alignment_mask h = 0 \<or> object_base h = chunk_limit h)
     \<and> chunk_limit h = limit_of h (chunk h)
     \<and> (case st of [] \<Rightarrow> False
        | co # rest \<Rightarrow>
            packed (mem h) (alignment_mask h) (chunk_limit h) (first_base h (chunk h)) (object_base h) (snd co)
            \<and> (\<not> maybe_empty_object h \<longrightarrow> [] \<notin> snd ` set (snd co))
            \<and> (\<forall>co \<in> set rest. sealed h co))"

text \<open>The object being grown, and all finished ones, newest first.\<close>

definition current_object :: "obstack \<Rightarrow> u8 list" where
  "current_object h = read_bytes (object_base h) (unat (next_free h) - unat (object_base h)) (mem h)"

definition objects :: "ob_chunk list \<Rightarrow> ob_object list" where
  "objects st = concat (map snd st)"

text \<open>
  What an allocator has to deliver: a block in the lower half of the address space (where
  user memory lies) that overlaps no live chunk.
\<close>

definition fresh_block :: "obstack \<Rightarrow> u64 list \<Rightarrow> u64 \<Rightarrow> u64 \<Rightarrow> bool" where
  "fresh_block h cs sz a \<longleftrightarrow> unat a + unat sz < 2 ^ 63
     \<and> (\<forall>c \<in> set cs. unat a + unat sz \<le> unat c \<or> unat (limit_of h c) \<le> unat a)"

definition good_chunkfun :: "chunkfun \<Rightarrow> bool" where
  "good_chunkfun cf \<longleftrightarrow>
     (\<forall>h st sz. ob_inv h st \<longrightarrow> cf h sz = 0 \<or> fresh_block h (map fst st) sz (cf h sz))
     \<and> (\<forall>h sz. chunk_log h = [] \<longrightarrow> cf h sz = 0 \<or> fresh_block h [] sz (cf h sz))"

section \<open>The shape of memory\<close>

lemma packed_lo_le_hi: "packed m am limit lo hi obs \<Longrightarrow> unat lo \<le> unat hi"
  by (induction obs arbitrary: hi) force+

lemma packed_mono: "packed m am limit lo hi obs \<Longrightarrow> unat hi \<le> unat hi' \<Longrightarrow> packed m am limit lo hi' obs"
  by (cases obs) auto

lemma packed_cong:
  assumes "packed m am limit lo hi obs"
    and "\<And>p. unat lo \<le> unat p \<Longrightarrow> unat p < unat hi \<Longrightarrow> m' p = m p"
  shows "packed m' am limit lo hi obs"
  using assms
proof (induction obs arbitrary: hi)
  case Nil
  then show ?case by simp
next
  case (Cons ob obs)
  have lo: "unat lo \<le> unat (fst ob)" using Cons.prems(1) packed_lo_le_hi by auto
  have hi: "unat (fst ob) + length (snd ob) \<le> unat hi" using Cons.prems(1) by simp
  have "unat hi < 2 ^ 64" by (rule u64_less)
  then have "read_bytes (fst ob) (length (snd ob)) m' = read_bytes (fst ob) (length (snd ob)) m"
    using lo hi by (intro read_bytes_cong Cons.prems(2)) auto
  moreover have "packed m' am limit lo (fst ob) obs"
    using Cons.prems lo hi by (intro Cons.IH) auto
  ultimately show ?case using Cons.prems(1) by simp
qed

lemma packed_drop:
  "packed m am limit lo hi (obs1 @ ob # obs2) \<Longrightarrow>
   packed m am limit lo (fst ob) obs2 \<and> unat (fst ob) + length (snd ob) \<le> unat hi
   \<and> (fst ob AND am = 0 \<or> fst ob = limit) \<and> read_bytes (fst ob) (length (snd ob)) m = snd ob"
  by (induction obs1 arbitrary: hi) fastforce+

lemma chain_map_fst:
  "chain f c xs \<Longrightarrow> (\<And>x. x \<in> set xs \<Longrightarrow> g x = f x) \<Longrightarrow> chain g c xs"
  by (induction xs arbitrary: c) auto

end
