(* ===== verification/Obstack_Ops.thy ===== *)
theory Obstack_Ops
  imports Obstack_Inv
begin

text \<open>
  What each operation does to a valid obstack: it stays valid, the objects that were
  finished keep their places and their bytes, and the growing object changes as asked.
\<close>

section \<open>A new chunk\<close>

text \<open>The size asked of the allocator, as a natural number.\<close>

definition obj_length :: "obstack \<Rightarrow> nat" where
  "obj_length h = unat (next_free h) - unat (object_base h)"

definition need :: "obstack \<Rightarrow> nat \<Rightarrow> nat" where
  "need h len = obj_length h + len + (unat (alignment_mask h) + 100) + obj_length h div 8"

definition moved :: "obstack \<Rightarrow> u64 \<Rightarrow> u64 \<Rightarrow> obstack" where
  "moved h a sz =
     (let base = PTR_ALIGN (contents a) (alignment_mask h);
          alone = (\<not> maybe_empty_object h \<and> object_base h = first_base h (chunk h)) in
      h\<lparr>chunk := a, object_base := base, next_free := base + (next_free h - object_base h),
        chunk_limit := a + sz, maybe_empty_object := False, alloc_failed := False,
        mem := write_bytes base (read_bytes (object_base h) (obj_length h) (mem h)) (mem h),
        limit_of := (limit_of h)(a := a + sz),
        prev_of := (prev_of h)(a := if alone then ((prev_of h)(a := chunk h)) (chunk h) else chunk h),
        chunk_log := chunk_log h @ [(a, sz)],
        free_log := free_log h @ (if alone then [chunk h] else [])\<rparr>)"

lemma unat_drop_3: "unat (drop_bit 3 (w :: u64)) = unat w div 8"
  by (simp add: drop_bit_eq_div unat_div)

lemma unat_minus_le: "unat b \<le> unat (a :: u64) \<Longrightarrow> unat (a - b) = unat a - unat b"
  by (simp add: unat_sub word_le_nat_alt)

lemma size_check:
  "SIZE_MAX - (a :: u64) < b \<longleftrightarrow> \<not> unat a + unat b < 2 ^ 64"
  using u64_less [of a] u64_less [of b] by (auto simp: word_less_nat_alt unat_SIZE_MAX_minus)

lemma wrap_check: "(a :: u64) + b < a \<longleftrightarrow> \<not> unat a + unat b < 2 ^ 64"
proof (cases "unat a + unat b < 2 ^ 64")
  case True
  then have "unat (a + b) = unat a + unat b" by (rule unat_add_small)
  with True show ?thesis by (simp add: word_less_nat_alt)
next
  case False
  then have "unat (a + b) = unat a + unat b - 2 ^ 64"
    using u64_less [of a] u64_less [of b] by (simp add: unat_word_ariths mod_if)
  with False u64_less [of b] show ?thesis by (simp add: word_less_nat_alt)
qed

lemma newchunk_unfold:
  assumes "unat (object_base h) \<le> unat (next_free h)"
    and am: "unat (alignment_mask h) < 2 ^ 63"
  shows "obstack_newchunk cf len h =
    (if need h (unat len) < 2 ^ 64 then
       let sz = of_nat (max (need h (unat len)) (unat (chunk_size h))); a = cf h sz in
       if a = 0 then Alloc_Failed else Ok (moved h a sz)
     else Alloc_Failed)"
proof -
  define obj where "obj = next_free h - object_base h"
  have obj: "unat obj = obj_length h"
    unfolding obj_def obj_length_def by (rule unat_minus_le [OF assms(1)])
  define am where "am = alignment_mask h + 100"
  have am': "unat am = unat (alignment_mask h) + 100"
    unfolding am_def using am by (subst unat_add_small) simp_all
  define growth where "growth = drop_bit 3 obj"
  have growth: "unat growth = obj_length h div 8" unfolding growth_def by (simp add: unat_drop_3 obj)
  have unf: "obstack_newchunk cf len h =
    (if obj + len < obj then Alloc_Failed
     else if SIZE_MAX - (obj + len) < am then Alloc_Failed
     else if SIZE_MAX - (obj + len + am) < growth then Alloc_Failed
     else let sz = (if obj + len + am + growth < chunk_size h then chunk_size h else obj + len + am + growth);
              a = cf h sz in
          if a = 0 then Alloc_Failed else Ok (moved h a sz))"
    unfolding obstack_newchunk_def Let_def obj_def [symmetric] am_def [symmetric] growth_def [symmetric]
      call_chunkfun_def case_prod_conv
    by (simp add: call_freefun_def set_header_def moved_def Let_def first_base_def obj [symmetric] obj_def [symmetric])
  show ?thesis
  proof (cases "unat obj + unat len < 2 ^ 64")
    case no1: True
    then have s1: "unat (obj + len) = unat obj + unat len" by (rule unat_add_small)
    show ?thesis
    proof (cases "unat (obj + len) + unat am < 2 ^ 64")
      case no2: True
      then have s2: "unat (obj + len + am) = unat (obj + len) + unat am" by (rule unat_add_small)
      show ?thesis
      proof (cases "unat (obj + len + am) + unat growth < 2 ^ 64")
        case no3: True
        then have s3: "unat (obj + len + am + growth) = unat (obj + len + am) + unat growth"
          by (rule unat_add_small)
        then have n: "unat (obj + len + am + growth) = need h (unat len)"
          unfolding s2 s1 need_def by (simp add: obj am' growth)
        then have lt: "need h (unat len) < 2 ^ 64" using no3 s3 by simp
        have "(of_nat (max (need h (unat len)) (unat (chunk_size h))) :: u64) =
            (if obj + len + am + growth < chunk_size h then chunk_size h else obj + len + am + growth)"
          unfolding n [symmetric] by (simp add: max_def word_less_nat_alt)
        then show ?thesis
          unfolding unf wrap_check size_check using no1 no2 no3 lt by (simp only: if_True if_False not_True_eq_False simp_thms)
      next
        case False
        then have "\<not> need h (unat len) < 2 ^ 64"
          unfolding need_def s2 s1 obj am' growth by simp
        with False show ?thesis unfolding unf wrap_check size_check by simp
      qed
    next
      case False
      then have "\<not> need h (unat len) < 2 ^ 64" unfolding need_def s1 obj am' by simp
      with False show ?thesis unfolding unf wrap_check size_check by simp
    qed
  next
    case False
    then have "\<not> need h (unat len) < 2 ^ 64" unfolding need_def obj by simp
    with False show ?thesis unfolding unf wrap_check size_check by simp
  qed
qed

section \<open>Moving the growing object\<close>

lemma unat_mask_less: "k \<le> 63 \<Longrightarrow> unat (mask k :: u64) < 2 ^ 63"
proof -
  assume k: "k \<le> 63"
  then have "(2 :: nat) ^ k \<le> 2 ^ 63" by (intro power_increasing) simp_all
  moreover have "(0 :: nat) < 2 ^ k" by simp
  ultimately show ?thesis unfolding unat_mask [OF k] by linarith
qed

lemma ob_invE:
  assumes "ob_inv h st"
  obtains k c os rest where "st = (c, os) # rest" and "k \<le> 63" and "alignment_mask h = mask k"
    and "chunk h = c" and "c \<noteq> 0" and "chain (prev_of h) (prev_of h c) (map fst rest)"
    and "chunks_ok h (c # map fst rest)"
    and "mset (map fst (chunk_log h)) = mset (c # map fst rest) + mset (free_log h)"
    and "unat (object_base h) \<le> unat (next_free h)" and "unat (next_free h) \<le> unat (limit_of h c)"
    and "object_base h AND alignment_mask h = 0 \<or> object_base h = limit_of h c"
    and "chunk_limit h = limit_of h c"
    and "packed (mem h) (alignment_mask h) (limit_of h c) (first_base h c) (object_base h) os"
    and "\<not> maybe_empty_object h \<longrightarrow> [] \<notin> snd ` set os"
    and "\<forall>co \<in> set rest. sealed h co"
proof (cases st)
  case Nil
  with assms show ?thesis by (simp add: ob_inv_def)
next
  case (Cons co rest)
  obtain c os where co: "co = (c, os)" by (cases co)
  from assms obtain k where k: "k \<le> 63" "alignment_mask h = mask k" by (auto simp: ob_inv_def)
  show ?thesis
    using assms k(2) by (intro that [OF _ k, of c os rest]) (auto simp: ob_inv_def Cons co)
qed

lemma ob_invI:
  assumes "k \<le> 63" and "alignment_mask h = mask k"
    and "chunk h = c" and "c \<noteq> 0" and "chain (prev_of h) (prev_of h c) (map fst rest)"
    and "chunks_ok h (c # map fst rest)"
    and "mset (map fst (chunk_log h)) = mset (c # map fst rest) + mset (free_log h)"
    and "unat (object_base h) \<le> unat (next_free h)" and "unat (next_free h) \<le> unat (limit_of h c)"
    and "object_base h AND alignment_mask h = 0 \<or> object_base h = limit_of h c"
    and "chunk_limit h = limit_of h c"
    and "packed (mem h) (alignment_mask h) (limit_of h c) (first_base h c) (object_base h) os"
    and "\<not> maybe_empty_object h \<Longrightarrow> [] \<notin> snd ` set os"
    and "\<And>co. co \<in> set rest \<Longrightarrow> sealed h co"
  shows "ob_inv h ((c, os) # rest)"
  unfolding ob_inv_def using assms by auto

lemma chunk_base:
  assumes "chunk_ok h c" and "alignment_mask h = mask k" and "k \<le> 63"
  shows "unat (contents c) = unat c + 16" "unat c + 16 \<le> unat (first_base h c)"
    "unat (first_base h c) \<le> unat (limit_of h c)" "first_base h c AND alignment_mask h = 0"
proof -
  have le: "unat c + 16 + unat (alignment_mask h) \<le> unat (limit_of h c)"
    using assms(1) by (simp add: chunk_ok_def)
  have lim: "unat (limit_of h c) < 2 ^ 64" by (rule u64_less)
  show con: "unat (contents c) = unat c + 16"
    unfolding contents_def using le lim by (subst unat_add_small) simp_all
  have "(1 :: nat) \<le> 2 ^ k" by simp
  then have "unat (contents c) + 2 ^ k - 1 = unat (contents c) + unat (alignment_mask h)"
    by (simp add: assms(2) unat_mask [OF assms(3)])
  then have small: "unat (contents c) + 2 ^ k - 1 \<le> unat (limit_of h c)" using con le by linarith
  then have small': "unat (contents c) + 2 ^ k - 1 < 2 ^ 64" using lim by linarith
  from PTR_ALIGN_bounds [OF assms(3) small'] small con
  show "unat c + 16 \<le> unat (first_base h c)" "unat (first_base h c) \<le> unat (limit_of h c)"
    unfolding first_base_def assms(2) by linarith+
  show "first_base h c AND alignment_mask h = 0"
    unfolding first_base_def assms(2) by (rule PTR_ALIGN_aligned)
qed

lemma PTR_ALIGN_in_block:
  assumes "unat a + 16 + unat (mask k :: u64) + n < 2 ^ 64" and "k \<le> 63"
  shows "unat a + 16 \<le> unat (PTR_ALIGN (contents a) (mask k))"
    "unat (PTR_ALIGN (contents a) (mask k)) \<le> unat a + 16 + unat (mask k :: u64)"
proof -
  have con: "unat (contents a) = unat a + 16"
    unfolding contents_def using assms(1) by (subst unat_add_small) simp_all
  have "(1 :: nat) \<le> 2 ^ k" by simp
  then have "unat (contents a) + 2 ^ k - 1 = unat a + 16 + unat (mask k :: u64)"
    unfolding con unat_mask [OF assms(2)] by linarith
  with PTR_ALIGN_bounds [OF assms(2), of "contents a"] assms(1) con
  show "unat a + 16 \<le> unat (PTR_ALIGN (contents a) (mask k))"
    "unat (PTR_ALIGN (contents a) (mask k)) \<le> unat a + 16 + unat (mask k :: u64)"
    by auto
qed

text \<open>Every finished object lies inside its chunk, so a write elsewhere spares it.\<close>

lemma sealed_cong:
  assumes "sealed h (c, os)" and "chunk_ok h c" and "alignment_mask h = mask k" and "k \<le> 63"
    and "\<And>p. unat c \<le> unat p \<Longrightarrow> unat p < unat (limit_of h c) \<Longrightarrow> mem h' p = mem h p"
    and "alignment_mask h' = alignment_mask h" and "limit_of h' c = limit_of h c"
  shows "sealed h' (c, os)"
proof -
  have "first_base h' c = first_base h c" by (simp add: first_base_def assms(6))
  moreover have "packed (mem h') (alignment_mask h) (limit_of h c) (first_base h c) (limit_of h c) os"
    by (rule packed_cong [of "mem h"])
      (use assms(1) chunk_base(2) [OF assms(2) assms(3) assms(4)] in \<open>auto simp: sealed_def intro: assms(5)\<close>)
  ultimately show ?thesis by (simp add: sealed_def assms(6,7))
qed

end
