(* ===== verification/Obstack_Grow.thy ===== *)
theory Obstack_Grow
  imports Obstack_Ops
begin

text \<open>
  Growing an object: in place when there is room, otherwise after a move to a new chunk.
\<close>

section \<open>The move\<close>

lemma moved_inv:
  assumes inv: "ob_inv h st" and a: "a \<noteq> 0" and fresh: "fresh_block h (map fst st) sz a"
    and sz: "obj_length h + len + (unat (alignment_mask h) + 100) \<le> unat sz"
  obtains st' where "ob_inv (moved h a sz) st'" and "objects st' = objects st"
    and "current_object (moved h a sz) = current_object h"
    and "len \<le> unat (chunk_limit (moved h a sz)) - unat (next_free (moved h a sz))"
proof -
  from inv obtain k c os rest where st: "st = (c, os) # rest" and k: "k \<le> 63"
    and am: "alignment_mask h = mask k" and c: "chunk h = c" "c \<noteq> 0"
    and ch: "chain (prev_of h) (prev_of h c) (map fst rest)"
    and ok: "chunks_ok h (c # map fst rest)"
    and log: "mset (map fst (chunk_log h)) = mset (c # map fst rest) + mset (free_log h)"
    and bn: "unat (object_base h) \<le> unat (next_free h)" "unat (next_free h) \<le> unat (limit_of h c)"
    and bal: "object_base h AND alignment_mask h = 0 \<or> object_base h = limit_of h c"
    and lim: "chunk_limit h = limit_of h c"
    and pk: "packed (mem h) (alignment_mask h) (limit_of h c) (first_base h c) (object_base h) os"
    and me: "\<not> maybe_empty_object h \<longrightarrow> [] \<notin> snd ` set os"
    and seal: "\<forall>co \<in> set rest. sealed h co"
    by (rule ob_invE)
  define h' where "h' = moved h a sz"
  define base where "base = PTR_ALIGN (contents a) (alignment_mask h)"
  define alone where "alone \<longleftrightarrow> \<not> maybe_empty_object h \<and> object_base h = first_base h c"
  define cs where "cs = c # map fst rest"
  have fb': "unat a + unat sz < 2 ^ 63"
    and fr: "\<And>d. d \<in> set cs \<Longrightarrow> unat a + unat sz \<le> unat d \<or> unat (limit_of h d) \<le> unat a"
    using fresh by (auto simp: fresh_block_def st cs_def)
  have fb: "unat a + unat sz < 2 ^ 64" using fb' by simp
  have okd: "chunk_ok h d" if "d \<in> set cs" for d using ok that by (auto simp: chunks_ok_def cs_def)
  have a_lim: "unat (a + sz) = unat a + unat sz" by (rule unat_add_small [OF fb])
  have base: "unat a + 16 \<le> unat base" "unat base \<le> unat a + 16 + unat (alignment_mask h)"
    using PTR_ALIGN_in_block [of a k 0] fb sz k am by (auto simp: base_def am)
  have obj: "unat (next_free h - object_base h) = obj_length h"
    unfolding obj_length_def by (rule unat_minus_le [OF bn(1)])
  have end_small: "unat base + obj_length h + len \<le> unat a + unat sz" using base sz by linarith
  have nf: "unat (base + (next_free h - object_base h)) = unat base + obj_length h"
    unfolding obj [symmetric] using end_small fb by (subst unat_add_small) (simp_all add: obj)
  have a_new: "a \<notin> set cs"
  proof
    assume "a \<in> set cs"
    with fr okd sz show False unfolding chunk_ok_def by fastforce
  qed
  have fields: "chunk h' = a" "object_base h' = base" "next_free h' = base + (next_free h - object_base h)"
    "chunk_limit h' = a + sz" "maybe_empty_object h' = False" "alignment_mask h' = alignment_mask h"
    "mem h' = write_bytes base (read_bytes (object_base h) (obj_length h) (mem h)) (mem h)"
    "limit_of h' = (limit_of h)(a := a + sz)" "chunk_log h' = chunk_log h @ [(a, sz)]"
    "free_log h' = free_log h @ (if alone then [c] else [])"
    "prev_of h' = (prev_of h)(a := if alone then prev_of h c else c)"
    using a_new by (auto simp: h'_def moved_def Let_def base_def alone_def c cs_def)
  have outside: "mem h' p = mem h p" if "d \<in> set cs" "unat d \<le> unat p" "unat p < unat (limit_of h d)" for d p
    unfolding fields(7)
    by (rule write_bytes_outside)
      (use fr [OF that(1)] that base end_small fb in auto)
  have seal': "sealed h' (d, ob)" if "sealed h (d, ob)" "d \<in> set cs" for d ob
  proof (rule sealed_cong [OF that(1) okd [OF that(2)] am k])
    show "limit_of h' d = limit_of h d" using that(2) a_new by (auto simp: fields)
  qed (use outside [OF that(2)] in \<open>auto simp: fields\<close>)
  have seal_rest: "sealed h' co" if "co \<in> set rest" for co
    using seal' [of "fst co" "snd co"] seal that by (auto simp: cs_def)
  have seal_c: "sealed h' (c, os)"
    using packed_mono [OF pk, of "limit_of h c"] bn seal' [of c os] by (auto simp: sealed_def cs_def)
  have okd': "chunk_ok h' d" if "d \<in> set cs" for d
    using okd [OF that] a_new that by (auto simp: chunk_ok_def fields)
  have oka: "chunk_ok h' a" using a sz a_lim fb' by (auto simp: chunk_ok_def fields)
  have chunks: "chunks_ok h' (a # ds)" if "distinct ds" "set ds \<subseteq> set cs" for ds
    unfolding chunks_ok_def
  proof (intro conjI ballI impI)
    show "distinct (a # ds)" using that a_new by auto
  next
    fix d assume "d \<in> set (a # ds)"
    then show "chunk_ok h' d" using oka okd' that by auto
  next
    fix d e assume de: "d \<in> set (a # ds)" "e \<in> set (a # ds)" "d \<noteq> e"
    have old: "apart h d e" if "d \<in> set cs" "e \<in> set cs" using ok that de(3) by (auto simp: chunks_ok_def cs_def)
    show "apart h' d e"
      using de that old fr a_new a_lim by (fastforce simp: apart_def fields)
  qed
  have rest_na: "a \<notin> fst ` set rest" using a_new by (auto simp: cs_def)
  have base_al: "base AND alignment_mask h = 0" unfolding base_def am by (rule PTR_ALIGN_aligned)
  have cur: "current_object h' = current_object h"
  proof -
    have "current_object h' = read_bytes base (obj_length h) (mem h')"
      using nf by (simp add: current_object_def fields(2,3))
    also have "\<dots> = read_bytes (object_base h) (obj_length h) (mem h)"
      unfolding fields(7)
      using read_write_bytes [of base "read_bytes (object_base h) (obj_length h) (mem h)"] end_small fb by simp
    finally show ?thesis by (simp add: current_object_def obj_length_def)
  qed
  define st' where "st' = (a, []) # (if alone then rest else (c, os) # rest)"
  have "os = []" if alone
  proof (cases os)
    case Nil
    then show ?thesis .
  next
    case (Cons ob obs)
    with pk packed_lo_le_hi [of "mem h" "alignment_mask h" "limit_of h c" "first_base h c" "fst ob" obs]
    have "length (snd ob) = 0" unfolding that[unfolded alone_def, THEN conjunct2] Cons packed.simps by linarith
    with me that Cons show ?thesis by (auto simp: alone_def)
  qed
  then have objs: "objects st' = objects st" by (auto simp: objects_def st'_def st)
  have "ob_inv h' st'"
    unfolding st'_def
  proof (rule ob_invI [OF k])
    show "chain (prev_of h') (prev_of h' a) (map fst (if alone then rest else (c, os) # rest))"
    proof -
      have "chain (prev_of h') (prev_of h c) (map fst rest)"
        by (rule chain_map_fst [OF ch]) (use rest_na in \<open>auto simp: fields\<close>)
      moreover have "c \<noteq> a" using a_new by (auto simp: cs_def)
      ultimately show ?thesis using c by (cases alone) (simp_all add: fields)
    qed
    show "chunks_ok h' (a # map fst (if alone then rest else (c, os) # rest))"
      using ok by (intro chunks) (auto simp: chunks_ok_def cs_def)
    show "mset (map fst (chunk_log h')) =
        mset (a # map fst (if alone then rest else (c, os) # rest)) + mset (free_log h')"
      using log by (simp add: fields)
    show "packed (mem h') (alignment_mask h') (limit_of h' a) (first_base h' a) (object_base h') []"
      by (simp add: fields first_base_def base_def)
    show "sealed h' co" if "co \<in> set (if alone then rest else (c, os) # rest)" for co
      using that seal_rest [of co] seal_c by (cases alone) (simp_all, blast)
  qed (use am a base_al nf end_small a_lim in \<open>simp_all add: fields\<close>)
  moreover have "len \<le> unat (chunk_limit h') - unat (next_free h')"
    unfolding fields nf a_lim using end_small by linarith
  ultimately show ?thesis using that objs cur by (simp add: h'_def)
qed

text \<open>
  Reserving space either fails, and then the request is too long for a word or the
  allocator refused, or leaves a valid obstack with the same objects and the room.
\<close>

definition reserve :: "chunkfun \<Rightarrow> u64 \<Rightarrow> obstack \<Rightarrow> obstack ob_result" where
  "reserve cf len h = (if obstack_room h < len then obstack_newchunk cf len h else Ok h)"

definition keeps :: "obstack \<Rightarrow> ob_chunk list \<Rightarrow> obstack \<Rightarrow> ob_chunk list \<Rightarrow> bool" where
  "keeps h st h' st' \<longleftrightarrow> ob_inv h' st' \<and> objects st' = objects st \<and> current_object h' = current_object h"

lemma ob_inv_bounds:
  assumes "ob_inv h st"
  shows "unat (object_base h) \<le> unat (next_free h)" "unat (next_free h) \<le> unat (chunk_limit h)"
  using assms unfolding ob_inv_def by blast+

lemma obstack_room_unat:
  assumes "ob_inv h st"
  shows "unat (obstack_room h) = unat (chunk_limit h) - unat (next_free h)"
  using ob_inv_bounds(2) [OF assms] by (simp add: obstack_room_def unat_minus_le)

lemma ob_inv_mask: "ob_inv h st \<Longrightarrow> unat (alignment_mask h) < 2 ^ 63"
  using unat_mask_less by (auto simp: ob_inv_def)

lemma newchunk_cases:
  assumes "ob_inv h st"
  obtains (long) "\<not> need h (unat len) < 2 ^ 64" "obstack_newchunk cf len h = Alloc_Failed"
  | (refused) sz where "need h (unat len) \<le> unat sz" "cf h sz = 0" "obstack_newchunk cf len h = Alloc_Failed"
  | (given) sz where "need h (unat len) \<le> unat sz" "cf h sz \<noteq> 0"
      "obstack_newchunk cf len h = Ok (moved h (cf h sz) sz)"
proof (cases "need h (unat len) < 2 ^ 64")
  case False
  then have "obstack_newchunk cf len h = Alloc_Failed"
    using assms ob_inv_mask [OF assms] by (subst newchunk_unfold) (auto simp: ob_inv_def)
  with False show ?thesis by (rule long)
next
  case True
  define sz where "sz = (of_nat (max (need h (unat len)) (unat (chunk_size h))) :: u64)"
  have "max (need h (unat len)) (unat (chunk_size h)) < 2 ^ 64"
    using True u64_less [of "chunk_size h"] by simp
  then have sz: "need h (unat len) \<le> unat sz" unfolding sz_def by (subst unat_of_nat_u64) simp_all
  have eq: "obstack_newchunk cf len h = (if cf h sz = 0 then Alloc_Failed else Ok (moved h (cf h sz) sz))"
    using assms True ob_inv_mask [OF assms]
    by (subst newchunk_unfold) (auto simp: ob_inv_def Let_def sz_def)
  show ?thesis using refused [OF sz] given [OF sz] eq by presburger
qed

lemma newchunk_keeps:
  assumes inv: "ob_inv h st" and cf: "good_chunkfun cf" and ok: "obstack_newchunk cf len h = Ok h'"
  shows "\<exists>st'. keeps h st h' st' \<and> unat len \<le> unat (chunk_limit h') - unat (next_free h')"
  using inv
proof (cases rule: newchunk_cases [where len = len and cf = cf])
  case (given sz)
  have "fresh_block h (map fst st) sz (cf h sz)"
    using cf inv given(2) by (auto simp: good_chunkfun_def)
  with inv given obtain st' where "ob_inv (moved h (cf h sz) sz) st'" "objects st' = objects st"
    "current_object (moved h (cf h sz) sz) = current_object h"
    "unat len \<le> unat (chunk_limit (moved h (cf h sz) sz)) - unat (next_free (moved h (cf h sz) sz))"
    by (elim moved_inv [of h st "cf h sz" sz "unat len"]) (auto simp: need_def)
  with ok given show ?thesis by (auto simp: keeps_def)
qed (use ok in simp_all)

lemma reserve_keeps:
  assumes "ob_inv h st" and "good_chunkfun cf" and "reserve cf len h = Ok h'"
  shows "\<exists>st'. keeps h st h' st' \<and> unat len \<le> unat (chunk_limit h') - unat (next_free h')"
proof (cases "obstack_room h < len")
  case True
  with newchunk_keeps [OF assms(1,2)] assms(3) show ?thesis by (auto simp: reserve_def)
next
  case False
  with assms(3) have "h' = h" by (simp add: reserve_def)
  moreover have "unat len \<le> unat (chunk_limit h) - unat (next_free h)"
    using False obstack_room_unat [OF assms(1)] by (simp add: word_less_nat_alt)
  ultimately show ?thesis using assms(1) by (auto simp: keeps_def)
qed

lemma reserve_not_abort: "ob_inv h st \<Longrightarrow> reserve cf len h \<noteq> Abort"
  by (erule newchunk_cases [where len = len and cf = cf]) (auto simp: reserve_def)

section \<open>Appending\<close>

definition append_bytes :: "u8 list \<Rightarrow> obstack \<Rightarrow> obstack" where
  "append_bytes bs h =
     h\<lparr>mem := write_bytes (next_free h) bs (mem h), next_free := next_free h + of_nat (length bs)\<rparr>"

lemma write_above_keeps:
  assumes inv: "ob_inv h st" and room: "length bs \<le> unat (chunk_limit h) - unat (next_free h)"
  shows "keeps h st (h\<lparr>mem := write_bytes (next_free h) bs (mem h)\<rparr>) st"
proof -
  define h' where "h' = h\<lparr>mem := write_bytes (next_free h) bs (mem h)\<rparr>"
  from inv obtain k c os rest where st: "st = (c, os) # rest" and k: "k \<le> 63"
    and am: "alignment_mask h = mask k" and c: "chunk h = c" "c \<noteq> 0"
    and ch: "chain (prev_of h) (prev_of h c) (map fst rest)"
    and ok: "chunks_ok h (c # map fst rest)"
    and log: "mset (map fst (chunk_log h)) = mset (c # map fst rest) + mset (free_log h)"
    and bn: "unat (object_base h) \<le> unat (next_free h)" "unat (next_free h) \<le> unat (limit_of h c)"
    and bal: "object_base h AND alignment_mask h = 0 \<or> object_base h = limit_of h c"
    and lim: "chunk_limit h = limit_of h c"
    and pk: "packed (mem h) (alignment_mask h) (limit_of h c) (first_base h c) (object_base h) os"
    and me: "\<not> maybe_empty_object h \<longrightarrow> [] \<notin> snd ` set os"
    and seal: "\<forall>co \<in> set rest. sealed h co"
    by (rule ob_invE)
  have small: "unat (next_free h) + length bs \<le> unat (limit_of h c)" using room bn lim by simp
  then have small': "unat (next_free h) + length bs \<le> 2 ^ 64" using u64_less [of "limit_of h c"] by linarith
  have outside: "mem h' p = mem h p"
    if "unat p < unat (next_free h) \<or> unat (limit_of h c) \<le> unat p" for p
    unfolding h'_def using small that by (simp, intro write_bytes_outside [OF small']) auto
  have okc: "chunk_ok h c" using ok by (simp add: chunks_ok_def)
  note cb = chunk_base [OF okc am k]
  have fb: "first_base h' d = first_base h d" for d by (simp add: first_base_def h'_def)
  have "ob_inv h' ((c, os) # rest)"
  proof (rule ob_invI [OF k])
    show "packed (mem h') (alignment_mask h') (limit_of h' c) (first_base h' c) (object_base h') os"
      unfolding fb using pk by (simp add: h'_def, elim packed_cong)
        (use outside bn in \<open>auto simp: h'_def\<close>)
    show "sealed h' co" if co: "co \<in> set rest" for co
    proof -
      have fst: "fst co \<in> set (map fst rest)" "fst co \<noteq> c"
        using co ok by (auto simp: chunks_ok_def)
      then have okd: "chunk_ok h (fst co)" and ap: "apart h c (fst co)"
        using ok by (auto simp: chunks_ok_def)
      have sl: "sealed h (fst co, snd co)" using seal co by simp
      have "sealed h' (fst co, snd co)"
        by (rule sealed_cong [OF sl okd am k])
          (use ap bn cb packed_lo_le_hi [OF pk] in \<open>auto simp: apart_def h'_def intro!: outside [unfolded h'_def, simplified]\<close>)
      then show ?thesis by simp
    qed
    show "chunks_ok h' (c # map fst rest)"
      using ok by (simp add: chunks_ok_def h'_def chunk_ok_def apart_def)
  qed (use am c ch log bn bal lim me in \<open>simp_all add: h'_def\<close>)
  moreover have "current_object h' = current_object h"
    unfolding current_object_def
  proof (simp add: h'_def, rule read_bytes_cong)
    show "write_bytes (next_free h) bs (mem h) p = mem h p"
      if "unat p < unat (object_base h) + (unat (next_free h) - unat (object_base h))" for p
      using outside [of p] that bn by (simp add: h'_def)
  qed (use bn u64_less [of "next_free h"] in simp)
  ultimately show ?thesis by (simp add: keeps_def h'_def st)
qed

lemma ob_inv_next_free:
  assumes "ob_inv h st" and "unat (object_base h) \<le> unat p" and "unat p \<le> unat (chunk_limit h)"
  shows "ob_inv (h\<lparr>next_free := p\<rparr>) st"
  using assms(1)
proof (rule ob_invE)
  fix k c os rest
  assume st: "st = (c, os) # rest" and *: "k \<le> 63" "alignment_mask h = mask k"
    "chunk h = c" "c \<noteq> 0" "chain (prev_of h) (prev_of h c) (map fst rest)" "chunks_ok h (c # map fst rest)"
    "mset (map fst (chunk_log h)) = mset (c # map fst rest) + mset (free_log h)"
    "object_base h AND alignment_mask h = 0 \<or> object_base h = limit_of h c" "chunk_limit h = limit_of h c"
    "packed (mem h) (alignment_mask h) (limit_of h c) (first_base h c) (object_base h) os"
    "\<not> maybe_empty_object h \<longrightarrow> [] \<notin> snd ` set os" "\<forall>co \<in> set rest. sealed h co"
  show ?thesis unfolding st
    by (rule ob_invI [OF *(1)])
      (use * assms(2,3) in \<open>simp_all add: chunks_ok_def chunk_ok_def apart_def first_base_def sealed_def\<close>)
qed

lemma append_bytes_keeps:
  assumes inv: "ob_inv h st" and room: "length bs \<le> unat (chunk_limit h) - unat (next_free h)"
  shows "ob_inv (append_bytes bs h) st" "current_object (append_bytes bs h) = current_object h @ bs"
    "unat (next_free (append_bytes bs h)) = unat (next_free h) + length bs"
proof -
  define h1 where "h1 = h\<lparr>mem := write_bytes (next_free h) bs (mem h)\<rparr>"
  have k: "ob_inv h1 st" "current_object h1 = current_object h"
    using write_above_keeps [OF assms] by (simp_all add: keeps_def h1_def)
  have bn: "unat (object_base h) \<le> unat (next_free h)" "unat (next_free h) \<le> unat (chunk_limit h)"
    using inv by (rule ob_inv_bounds)+
  have small: "unat (next_free h) + length bs < 2 ^ 64"
    using bn room u64_less [of "chunk_limit h"] by linarith
  then have len: "unat (of_nat (length bs) :: u64) = length bs" by (intro unat_of_nat_u64) linarith
  show nf: "unat (next_free (append_bytes bs h)) = unat (next_free h) + length bs"
    unfolding append_bytes_def using small by (simp, subst unat_add_small) (simp_all add: len)
  have eq: "append_bytes bs h = h1\<lparr>next_free := next_free (append_bytes bs h)\<rparr>"
    by (simp add: append_bytes_def h1_def)
  show "ob_inv (append_bytes bs h) st"
    by (subst eq, rule ob_inv_next_free [OF k(1)]) (use nf bn room in \<open>simp_all add: h1_def\<close>)
  define n where "n = unat (next_free h) - unat (object_base h)"
  have base_n: "object_base h + of_nat n = next_free h"
    unfolding n_def using bn(1) by (simp add: of_nat_diff)
  have "current_object (append_bytes bs h) = read_bytes (object_base h) (n + length bs) (mem h1)"
    using nf bn by (simp add: current_object_def append_bytes_def h1_def n_def)
  also have "\<dots> = read_bytes (object_base h) n (mem h1) @ read_bytes (next_free h) (length bs) (mem h1)"
    by (simp add: read_bytes_add base_n)
  also have "read_bytes (next_free h) (length bs) (mem h1) = bs"
    unfolding h1_def using small by (simp add: read_write_bytes)
  also have "read_bytes (object_base h) n (mem h1) = current_object h1"
    by (simp add: current_object_def h1_def n_def)
  finally show "current_object (append_bytes bs h) = current_object h @ bs" by (simp add: k)
qed

section \<open>The macros that grow\<close>

lemma write_bytes_append:
  "write_bytes a (xs @ ys) m = write_bytes (a + of_nat (length xs)) ys (write_bytes a xs m)"
  by (induction xs arbitrary: a m) (simp_all add: algebra_simps)

lemma append_bytes_append: "append_bytes (xs @ ys) h = append_bytes ys (append_bytes xs h)"
  by (simp add: append_bytes_def write_bytes_append algebra_simps)

text \<open>All the growing macros are one: reserve the length, then append the bytes.\<close>

definition grow_by :: "chunkfun \<Rightarrow> u8 list \<Rightarrow> obstack \<Rightarrow> obstack ob_result" where
  "grow_by cf bs h = ob_bind (reserve cf (of_nat (length bs)) h) (\<lambda>h. Ok (append_bytes bs h))"

lemma obstack_grow_is_grow_by: "obstack_grow cf bs h = grow_by cf bs h"
  by (simp add: obstack_grow_def grow_by_def reserve_def append_bytes_def Let_def)

lemma obstack_grow0_is_grow_by: "obstack_grow0 cf bs h = grow_by cf (bs @ [0]) h"
  by (simp add: obstack_grow0_def grow_by_def reserve_def append_bytes_def Let_def write_bytes_append
      algebra_simps)

lemma obstack_1grow_is_grow_by: "obstack_1grow cf ch h = grow_by cf [ch] h"
  by (simp add: obstack_1grow_def grow_by_def reserve_def append_bytes_def Let_def)

lemma next_free_mem_commute: "h\<lparr>next_free := n, mem := m\<rparr> = h\<lparr>mem := m, next_free := n\<rparr>"
  by (rule obstack.equality) simp_all

lemma le_bytes_length [simp]: "length (le_bytes n w) = n"
  by (simp add: le_bytes_def)

lemma obstack_int_grow_is_grow_by: "obstack_int_grow cf i h = grow_by cf (le_bytes 4 (ucast i)) h"
  by (simp add: next_free_mem_commute obstack_int_grow_def grow_by_def reserve_def append_bytes_def Let_def)

lemma obstack_ptr_grow_is_grow_by: "obstack_ptr_grow cf p h = grow_by cf (le_bytes 8 p) h"
  by (simp add: next_free_mem_commute obstack_ptr_grow_def grow_by_def reserve_def append_bytes_def Let_def)

text \<open>A blank that the client then fills.\<close>

definition fill_blank :: "u8 list \<Rightarrow> obstack \<Rightarrow> obstack" where
  "fill_blank bs h = h\<lparr>mem := write_bytes (next_free h - of_nat (length bs)) bs (mem h)\<rparr>"

lemma ob_bind_assoc: "ob_bind (ob_bind r f) g = ob_bind r (\<lambda>x. ob_bind (f x) g)"
  by (cases r) simp_all

lemma obstack_blank_is_grow_by:
  "ob_bind (obstack_blank cf (of_nat (length bs)) h) (\<lambda>h. Ok (fill_blank bs h)) = grow_by cf bs h"
  by (simp add: next_free_mem_commute obstack_blank_def grow_by_def reserve_def append_bytes_def fill_blank_def ob_bind_assoc)

lemma fast_is_append:
  "obstack_1grow_fast ch h = append_bytes [ch] h"
  "fill_blank bs (obstack_blank_fast (of_nat (length bs)) h) = append_bytes bs h"
  by (simp_all add: obstack_1grow_fast_def append_bytes_def Let_def fill_blank_def obstack_blank_fast_def)

lemma grow_by_Ok:
  assumes "ob_inv h st" and "good_chunkfun cf" and "length bs < 2 ^ 64" and "grow_by cf bs h = Ok h'"
  shows "\<exists>st'. ob_inv h' st' \<and> objects st' = objects st \<and> current_object h' = current_object h @ bs"
proof -
  from assms(4) obtain h1 where h1: "reserve cf (of_nat (length bs)) h = Ok h1" "h' = append_bytes bs h1"
    by (auto simp: grow_by_def ob_bind_Ok)
  from reserve_keeps [OF assms(1,2) h1(1)] assms(3) obtain st' where st': "keeps h st h1 st'"
    and room: "length bs \<le> unat (chunk_limit h1) - unat (next_free h1)" by (auto simp: unat_of_nat_u64)
  with append_bytes_keeps [of h1 st' bs] show ?thesis by (auto simp: keeps_def h1(2))
qed

lemma grow_by_not_abort: "ob_inv h st \<Longrightarrow> grow_by cf bs h \<noteq> Abort"
  using reserve_not_abort [of h st cf "of_nat (length bs)"]
  by (cases "reserve cf (of_nat (length bs)) h") (simp_all add: grow_by_def)

end
