(* ===== verification/Obstack_Free.thy ===== *)
theory Obstack_Free
  imports Obstack_Grow
begin

text \<open>
  Finishing an object, freeing back to one, the whole chain's release, the memory in use,
  and the start.
\<close>

section \<open>Finishing\<close>

lemma finish_step:
  assumes inv: "ob_inv h ((c, os) # rest)"
  shows "obstack_finish h = (object_base h, snd (obstack_finish h))"
    "ob_inv (snd (obstack_finish h)) ((c, (object_base h, current_object h) # os) # rest)"
    "current_object (snd (obstack_finish h)) = []"
proof -
  define h' where "h' = snd (obstack_finish h)"
  define up where "up = PTR_ALIGN (next_free h) (alignment_mask h)"
  define top where "top = (if up > chunk_limit h then chunk_limit h else up)"
  from inv obtain k where k: "k \<le> 63"
    and am: "alignment_mask h = mask k" and c: "chunk h = c" "c \<noteq> 0"
    and ch: "chain (prev_of h) (prev_of h c) (map fst rest)"
    and ok: "chunks_ok h (c # map fst rest)"
    and log: "mset (map fst (chunk_log h)) = mset (c # map fst rest) + mset (free_log h)"
    and bn: "unat (object_base h) \<le> unat (next_free h)" "unat (next_free h) \<le> unat (limit_of h c)"
    and bal: "object_base h AND alignment_mask h = 0 \<or> object_base h = limit_of h c"
    and lim: "chunk_limit h = limit_of h c"
    and pk: "packed (mem h) (alignment_mask h) (limit_of h c) (first_base h c) (object_base h) os"
    and me: "\<not> maybe_empty_object h \<longrightarrow> [] \<notin> snd ` set os"
    and seal: "\<forall>co \<in> set rest. sealed h co"
    by (rule ob_invE) simp
  show "obstack_finish h = (object_base h, snd (obstack_finish h))"
    by (simp add: obstack_finish_def Let_def)
  have fields: "chunk h' = c" "object_base h' = top" "next_free h' = top" "chunk_limit h' = chunk_limit h"
    "mem h' = mem h" "alignment_mask h' = alignment_mask h" "limit_of h' = limit_of h"
    "prev_of h' = prev_of h" "chunk_log h' = chunk_log h" "free_log h' = free_log h"
    "maybe_empty_object h' \<longleftrightarrow> next_free h = object_base h \<or> maybe_empty_object h"
    by (auto simp: h'_def obstack_finish_def Let_def top_def up_def PTR_ALIGN_def c)
  have "(1 :: nat) \<le> 2 ^ k" by simp
  moreover have "unat (limit_of h c) < 2 ^ 63" using ok by (simp add: chunks_ok_def chunk_ok_def)
  moreover have "(2 :: nat) ^ 64 = 2 * 2 ^ 63" by simp
  ultimately have "unat (next_free h) + 2 ^ k - 1 < 2 ^ 64"
    using bn unat_mask_less [OF k] unfolding unat_mask [OF k] by linarith
  then have "unat (next_free h) \<le> unat up" unfolding up_def am by (rule PTR_ALIGN_bounds(1) [OF k])
  then have top: "unat (next_free h) \<le> unat top" "unat top \<le> unat (limit_of h c)"
    using bn by (auto simp: top_def lim word_less_nat_alt)
  have top_al: "top AND alignment_mask h = 0 \<or> top = limit_of h c"
    by (simp add: top_def lim up_def am PTR_ALIGN_aligned)
  have len: "length (current_object h) = unat (next_free h) - unat (object_base h)"
    by (simp add: current_object_def)
  show "ob_inv (snd (obstack_finish h)) ((c, (object_base h, current_object h) # os) # rest)"
    unfolding h'_def [symmetric]
  proof (rule ob_invI [OF k])
    show "packed (mem h') (alignment_mask h') (limit_of h' c) (first_base h' c) (object_base h')
        ((object_base h, current_object h) # os)"
      using pk top bn bal by (simp add: fields len first_base_def) (simp add: current_object_def)
    show "[] \<notin> snd ` set ((object_base h, current_object h) # os)" if "\<not> maybe_empty_object h'"
    proof -
      have "unat (next_free h) \<noteq> unat (object_base h)" using that by (auto simp: fields dest: unsigned_word_eqI)
      then have "length (current_object h) \<noteq> 0" using bn unfolding len by linarith
      with that me show ?thesis by (auto simp: fields)
    qed
    show "chunks_ok h' (c # map fst rest)"
      using ok by (simp add: chunks_ok_def fields chunk_ok_def apart_def)
    show "sealed h' co" if "co \<in> set rest" for co
      using seal that by (auto simp: sealed_def fields first_base_def)
  qed (use am c ch log top top_al lim in \<open>simp_all add: fields\<close>)
  show "current_object (snd (obstack_finish h)) = []"
    unfolding h'_def [symmetric] by (simp add: current_object_def fields)
qed

section \<open>Freeing\<close>

lemma free_while_chain:
  assumes "chain (prev_of h) c (cs @ ds)" and "ds \<noteq> [] \<Longrightarrow> \<not> P h (hd ds)"
    and "\<forall>x \<in> set cs. P h x" and "\<And>h'. limit_of h' = limit_of h \<Longrightarrow> P h' = P h"
  shows "free_while P c h = Some (if ds = [] then 0 else hd ds,
    h\<lparr>free_log := free_log h @ cs, maybe_empty_object := maybe_empty_object h \<or> cs \<noteq> []\<rparr>)"
  using assms
proof (induction cs arbitrary: c h)
  case Nil
  note prems = Nil.prems(1,2)
  then have c: "c = (if ds = [] then 0 else hd ds)" by (cases ds) auto
  with prems(2) have "\<not> (c \<noteq> 0 \<and> P h c)" by auto
  then have "free_while P c h = Some (c, h)" by (subst free_while.simps) (simp only: if_False)
  then show ?case by (simp add: c)
next
  case (Cons x cs)
  define h1 where "h1 = call_freefun c h\<lparr>maybe_empty_object := True\<rparr>"
  have P: "P h1 = P h" by (rule Cons.prems(4)) (simp add: h1_def call_freefun_def)
  have "free_while P (prev_of h c) h1 = Some (if ds = [] then 0 else hd ds,
    h1\<lparr>free_log := free_log h1 @ cs, maybe_empty_object := maybe_empty_object h1 \<or> cs \<noteq> []\<rparr>)"
  proof (rule Cons.IH)
    show "P h' = P h1" if "limit_of h' = limit_of h1" for h'
      unfolding P by (rule Cons.prems(4)) (use that in \<open>simp add: h1_def call_freefun_def\<close>)
  qed (use Cons.prems(1-3) P in \<open>simp_all add: h1_def call_freefun_def\<close>)
  moreover have "c \<noteq> 0 \<and> P h c" using Cons.prems(1,3) by simp
  then have "free_while P c h = free_while P (prev_of h c) h1"
    unfolding h1_def by (subst free_while.simps) (simp only: if_True simp_thms)
  ultimately show ?case using Cons.prems(1) by (simp add: h1_def call_freefun_def)
qed

lemma packed_bounds:
  assumes "packed m am limit lo hi obs" and "ob \<in> set obs"
  shows "unat lo \<le> unat (fst ob)" "unat (fst ob) + length (snd ob) \<le> unat hi"
    "fst ob AND am = 0 \<or> fst ob = limit" "read_bytes (fst ob) (length (snd ob)) m = snd ob"
proof -
  from assms(2) obtain o1 o2 where "obs = o1 @ ob # o2" by (meson split_list)
  with assms(1) packed_drop [of m am limit lo hi o1 ob o2] packed_lo_le_hi
  show "unat lo \<le> unat (fst ob)" "unat (fst ob) + length (snd ob) \<le> unat hi"
    "fst ob AND am = 0 \<or> fst ob = limit" "read_bytes (fst ob) (length (snd ob)) m = snd ob"
    by blast+
qed

lemma chain_suffix: "chain f c (xs @ y # ys) \<Longrightarrow> y \<noteq> 0 \<and> chain f (f y) ys"
  by (induction xs arbitrary: c) auto

lemma chunks_ok_subset:
  "chunks_ok h cs \<Longrightarrow> distinct ds \<Longrightarrow> set ds \<subseteq> set cs \<Longrightarrow> chunks_ok h ds"
  by (auto simp: chunks_ok_def)

text \<open>Where a chunk of a valid obstack has its objects, newest chunk or not.\<close>

lemma ob_inv_chunk:
  assumes inv: "ob_inv h (pre @ (d, obs) # post)"
  obtains hi where "packed (mem h) (alignment_mask h) (limit_of h d) (first_base h d) hi obs"
    and "unat hi \<le> unat (limit_of h d)" and "pre = [] \<Longrightarrow> hi = object_base h \<and> chunk h = d"
proof (cases pre)
  case Nil
  with inv have "ob_inv h ((d, obs) # post)" by simp
  then show ?thesis
    by (rule ob_invE) (auto intro: that [of "object_base h"])
next
  case (Cons co pre')
  with inv have "sealed h (d, obs)" by (simp add: ob_inv_def)
  with Cons show ?thesis by (intro that [of "limit_of h d"]) (simp_all add: sealed_def)
qed

definition freed_to :: "u64 \<Rightarrow> u64 \<Rightarrow> u64 list \<Rightarrow> bool \<Rightarrow> bool \<Rightarrow> obstack \<Rightarrow> obstack" where
  "freed_to p d cs me failed h =
     h\<lparr>chunk := d, chunk_limit := limit_of h d, object_base := p, next_free := p,
       maybe_empty_object := me, alloc_failed := failed, free_log := free_log h @ cs\<rparr>"

lemma freed_to_inv:
  assumes inv: "ob_inv h (pre @ (d, o1 @ (p, bs) # o2) # post)"
    and me: "\<not> me \<Longrightarrow> pre = [] \<and> \<not> maybe_empty_object h"
  shows "ob_inv (freed_to p d (map fst pre) me failed h) ((d, o2) # post)"
proof -
  define h' where "h' = freed_to p d (map fst pre) me failed h"
  have fields: "chunk h' = d" "object_base h' = p" "next_free h' = p" "chunk_limit h' = limit_of h d"
    "mem h' = mem h" "alignment_mask h' = alignment_mask h" "limit_of h' = limit_of h"
    "prev_of h' = prev_of h" "chunk_log h' = chunk_log h" "free_log h' = free_log h @ map fst pre"
    "maybe_empty_object h' = me"
    by (simp_all add: h'_def freed_to_def)
  from inv obtain k where k: "k \<le> 63" "alignment_mask h = mask k" by (auto simp: ob_inv_def)
  from inv obtain hi where pk: "packed (mem h) (alignment_mask h) (limit_of h d) (first_base h d) hi (o1 @ (p, bs) # o2)"
    and hi: "unat hi \<le> unat (limit_of h d)"
    by (rule ob_inv_chunk)
  have p: "packed (mem h) (alignment_mask h) (limit_of h d) (first_base h d) p o2"
    "unat p + length bs \<le> unat hi" "p AND alignment_mask h = 0 \<or> p = limit_of h d"
    using packed_drop [OF pk] by auto
  have ch: "d \<noteq> 0 \<and> chain (prev_of h) (prev_of h d) (map fst post)"
    using inv by (intro chain_suffix [of _ "chunk h" "map fst pre"]) (simp add: ob_inv_def)
  have cok: "chunks_ok h (map fst pre @ d # map fst post)" using inv by (simp add: ob_inv_def)
  have "chunks_ok h (d # map fst post)"
    by (rule chunks_ok_subset [OF cok]) (use cok in \<open>auto simp: chunks_ok_def\<close>)
  then have cok': "chunks_ok h' (d # map fst post)"
    by (simp add: chunks_ok_def fields chunk_ok_def apart_def)
  have log: "mset (map fst (chunk_log h)) = mset (map fst pre @ d # map fst post) + mset (free_log h)"
    using inv by (simp add: ob_inv_def)
  have "ob_inv h' ((d, o2) # post)"
  proof (rule ob_invI [OF k(1)])
    show "[] \<notin> snd ` set o2" if "\<not> maybe_empty_object h'"
      using me that inv by (auto simp: fields ob_inv_def)
    show "sealed h' co" if "co \<in> set post" for co
      using inv that by (cases pre) (auto simp: ob_inv_def sealed_def fields first_base_def)
    show "mset (map fst (chunk_log h')) = mset (d # map fst post) + mset (free_log h')"
      using log by (simp add: fields)
    show "packed (mem h') (alignment_mask h') (limit_of h' d) (first_base h' d) (object_base h') o2"
      using p by (simp add: fields first_base_def)
  qed (use k ch cok' p hi in \<open>simp_all add: fields\<close>)
  then show ?thesis by (simp add: h'_def)
qed

lemma obstack_free_step:
  assumes inv: "ob_inv h (pre @ (d, o1 @ (p, bs) # o2) # post)"
  shows "\<exists>me failed. obstack_free p h = Some (Ok (freed_to p d (map fst pre) me failed h))
    \<and> (\<not> me \<longrightarrow> pre = [] \<and> \<not> maybe_empty_object h)"
proof -
  from inv obtain k where k: "k \<le> 63" "alignment_mask h = mask k" by (auto simp: ob_inv_def)
  have cok: "chunks_ok h (map fst pre @ d # map fst post)" using inv by (simp add: ob_inv_def)
  then have okd: "chunk_ok h d" by (simp add: chunks_ok_def)
  note cb = chunk_base [OF okd k(2,1)]
  from inv obtain hi where pk: "packed (mem h) (alignment_mask h) (limit_of h d) (first_base h d) hi (o1 @ (p, bs) # o2)"
    and hi: "unat hi \<le> unat (limit_of h d)"
    by (rule ob_inv_chunk)
  have p: "unat (first_base h d) \<le> unat p" "unat p \<le> unat (limit_of h d)"
    using packed_bounds(1,2) [OF pk, of "(p, bs)"] hi by auto
  then have p0: "p \<noteq> 0" and dp: "d < p" using cb by (auto simp: word_less_nat_alt)
  have out: "\<not> c < p \<or> limit_of h c < p" if "c \<in> set (map fst pre)" for c
  proof -
    have "c \<noteq> d" using that cok by (auto simp: chunks_ok_def)
    then have "apart h c d" using that cok by (auto simp: chunks_ok_def)
    with p cb show ?thesis by (auto simp: apart_def word_less_nat_alt)
  qed
  have ch: "chain (prev_of h) (chunk h) (map fst pre @ d # map fst post)" using inv by (simp add: ob_inv_def)
  have c0: "chunk h \<noteq> 0" using ch okd by (cases pre) (auto simp: chunk_ok_def)
  have lim: "chunk_limit h = limit_of h (chunk h)" using inv by (simp add: ob_inv_def)
  have slow: "obstack_free_fn p h =
      Some (Ok (freed_to p d (map fst pre) True False h))"
  proof -
    have "free_while (\<lambda>h c. c \<ge> p \<or> limit_of h c < p) (chunk h) h = Some (d,
        h\<lparr>free_log := free_log h @ map fst pre, maybe_empty_object := maybe_empty_object h \<or> map fst pre \<noteq> []\<rparr>)"
      using free_while_chain [of h "chunk h" "map fst pre" "d # map fst post" "\<lambda>h c. c \<ge> p \<or> limit_of h c < p"]
        ch out dp p by (auto simp: not_le not_less word_le_nat_alt [of p "limit_of h d"])
    then show ?thesis
      using c0 p0 okd by (simp add: obstack_free_fn_def freed_to_def chunk_ok_def)
  qed
  show ?thesis
  proof (cases "chunk h < p \<and> p < chunk_limit h")
    case False
    have "obstack_free p h = Some (Ok (freed_to p d (map fst pre) True False h))"
      unfolding obstack_free_def if_not_P [OF False] by (rule slow)
    then show ?thesis by blast
  next
    case True
    have "pre = []"
    proof (cases pre)
      case (Cons co pre')
      then have "chunk h \<in> set (map fst pre)" using ch by simp
      from out [OF this] True lim show ?thesis by auto
    qed simp
    then have "chunk h = d" using ch by simp
    then have "obstack_free p h = Some (Ok (freed_to p d (map fst pre) (maybe_empty_object h) (alloc_failed h) h))"
      using True lim \<open>pre = []\<close> by (simp add: obstack_free_def freed_to_def)
    with \<open>pre = []\<close> show ?thesis by blast
  qed
qed

text \<open>Freeing an object frees it and every newer one, and the chunks that only those used.\<close>

lemma objects_split:
  assumes "objects st = xs @ y # ys"
  shows "\<exists>pre d o1 o2 post. st = pre @ (d, o1 @ y # o2) # post \<and> ys = o2 @ objects post"
  using assms
proof (induction st arbitrary: xs)
  case Nil
  then show ?case by (simp add: objects_def)
next
  case (Cons co st)
  obtain c obs where co: "co = (c, obs)" by (cases co)
  have "obs @ objects st = xs @ y # ys" using Cons.prems by (simp add: co objects_def)
  then consider zs where "obs = xs @ y # zs" "ys = zs @ objects st" | zs where "objects st = zs @ y # ys"
    by (auto simp: append_eq_append_conv2 append_eq_Cons_conv Cons_eq_append_conv)
  then show ?case
  proof cases
    case 1
    then show ?thesis by (intro exI [of _ "[]"]) (auto simp: co)
  next
    case 2
    from Cons.IH [OF this] obtain pre d o1 o2 post
      where "st = pre @ (d, o1 @ y # o2) # post" "ys = o2 @ objects post" by blast
    then show ?thesis by (intro exI [of _ "co # pre"]) auto
  qed
qed

lemma obstack_free_object:
  assumes "ob_inv h st" and "objects st = newer @ (p, bs) # older"
  shows "\<exists>h' st'. obstack_free p h = Some (Ok h') \<and> ob_inv h' st' \<and> objects st' = older
    \<and> current_object h' = []"
proof -
  from objects_split [OF assms(2)] obtain pre d o1 o2 post
    where st: "st = pre @ (d, o1 @ (p, bs) # o2) # post" and older: "older = o2 @ objects post" by blast
  from obstack_free_step [OF assms(1) [unfolded st]] obtain me failed
    where "obstack_free p h = Some (Ok (freed_to p d (map fst pre) me failed h))"
      and me: "\<not> me \<Longrightarrow> pre = [] \<and> \<not> maybe_empty_object h" by blast
  moreover have "ob_inv (freed_to p d (map fst pre) me failed h) ((d, o2) # post)"
    by (rule freed_to_inv [OF assms(1) [unfolded st] me])
  moreover have "objects ((d, o2) # post) = older" by (simp add: older objects_def)
  moreover have "current_object (freed_to p d (map fst pre) me failed h) = []"
    by (simp add: freed_to_def current_object_def)
  ultimately show ?thesis by blast
qed

section \<open>The whole chain\<close>

lemma obstack_free_all:
  assumes "ob_inv h st"
  shows "\<exists>h'. obstack_free_fn 0 h = Some (Ok h') \<and> chunk h' = 0
    \<and> free_log h' = free_log h @ map fst st \<and> mset (free_log h') = mset (map fst (chunk_log h'))"
proof -
  have ch: "chain (prev_of h) (chunk h) (map fst st @ [])" and ne: "st \<noteq> []"
    using assms by (auto simp: ob_inv_def)
  then have c0: "chunk h \<noteq> 0" by (cases st) auto
  have log: "mset (map fst (chunk_log h)) = mset (map fst st) + mset (free_log h)"
    using assms unfolding ob_inv_def by blast
  from free_while_chain [OF ch, of "\<lambda>_ _. True"] show ?thesis
    using c0 log by (simp add: obstack_free_fn_def)
qed

lemma memory_used_chain:
  "chain (prev_of h) c cs \<Longrightarrow>
   memory_used_loop h c tot = Some (tot + (\<Sum>c \<leftarrow> cs. limit_of h c - c))"
  by (induction cs arbitrary: c tot) (subst memory_used_loop.simps, simp add: algebra_simps)+

lemma obstack_memory_used_chain:
  "ob_inv h st \<Longrightarrow> obstack_memory_used h = Some (\<Sum>c \<leftarrow> map fst st. limit_of h c - c)"
  unfolding obstack_memory_used_def by (subst memory_used_chain [of h _ "map fst st"]) (auto simp: ob_inv_def)

end
