(* ===== verification/Obstack_Run.thy ===== *)
theory Obstack_Run
  imports Obstack_Free
begin

text \<open>
  A client's script of operations on an obstack, and the stack of byte strings it stands for.
\<close>

section \<open>The start\<close>

definition aligned_start :: "u64 \<Rightarrow> u64 \<Rightarrow> obstack \<Rightarrow> bool" where
  "aligned_start sz al h \<longleftrightarrow> al \<in> set (0 # map (\<lambda>k. push_bit k 1) [0 ..< 63])
     \<and> 16 + (if al = 0 then 16 else unat al) \<le> (if sz = 0 then 4064 else unat sz)
     \<and> chunk_log h = [] \<and> free_log h = []"

lemma start_alignment:
  assumes "aligned_start sz al h"
  shows "\<exists>k \<le> 63. (if al = 0 then DEFAULT_ALIGNMENT else al) - 1 = mask k"
proof (cases "al = 0")
  case True
  have "(DEFAULT_ALIGNMENT - 1 :: u64) = mask 4" by (simp add: DEFAULT_ALIGNMENT_def mask_eq_exp_minus_1)
  with True show ?thesis by (intro exI [of _ 4]) simp
next
  case False
  with assms obtain k where "k < 63" "al = push_bit k 1" by (auto simp: aligned_start_def)
  then have "k \<le> 63 \<and> al - 1 = mask k" by (simp add: mask_eq_exp_minus_1 push_bit_eq_mult)
  with False show ?thesis by auto
qed

lemma begin_inv:
  assumes cf: "good_chunkfun cf" and start: "aligned_start sz al h0"
    and ok: "obstack_begin_worker cf sz al h0 = Ok h"
  shows "\<exists>c. ob_inv h [(c, [])]" "current_object h = []"
proof -
  define am where "am = (if al = 0 then DEFAULT_ALIGNMENT else al) - 1"
  define sz' where "sz' = (if sz = 0 then 4064 else sz)"
  define h1 where "h1 = h0\<lparr>chunk_size := sz', alignment_mask := am\<rparr>"
  define c where "c = cf h1 sz'"
  from start_alignment [OF start] obtain k where k: "k \<le> 63" "am = mask k" by (auto simp: am_def)
  have c0: "c \<noteq> 0" and h: "h = set_header c (c + sz') 0 (h1\<lparr>chunk_log := chunk_log h1 @ [(c, sz')]\<rparr>)
      \<lparr>chunk := c, chunk_limit := c + sz', object_base := PTR_ALIGN (contents c) am,
       next_free := PTR_ALIGN (contents c) am, maybe_empty_object := False, alloc_failed := False\<rparr>"
    using ok unfolding obstack_begin_worker_def
    by (auto simp: Let_def call_chunkfun_def c_def h1_def sz'_def am_def set_header_def DEFAULT_ROUNDING_def
        split: if_splits)
  have fields: "chunk h = c" "chunk_limit h = c + sz'" "object_base h = PTR_ALIGN (contents c) am"
    "next_free h = PTR_ALIGN (contents c) am" "alignment_mask h = am" "limit_of h c = c + sz'"
    "prev_of h c = 0" "chunk_log h = [(c, sz')]" "free_log h = []"
    using start by (simp_all add: h set_header_def h1_def aligned_start_def)
  have "fresh_block h1 [] sz' c"
  proof -
    have "chunk_log h1 = []" using start by (simp add: h1_def aligned_start_def)
    then have "c = 0 \<or> fresh_block h1 [] sz' c" using cf unfolding good_chunkfun_def c_def by blast
    with c0 show ?thesis by simp
  qed
  then have small: "unat c + unat sz' < 2 ^ 63" by (simp add: fresh_block_def)
  then have lim: "unat (c + sz') = unat c + unat sz'" by (intro unat_add_small) simp
  have am: "16 + unat am \<le> unat sz'"
  proof (cases "al = 0")
    case True
    with start show ?thesis by (auto simp: am_def sz'_def DEFAULT_ALIGNMENT_def aligned_start_def)
  next
    case False
    then have "0 < unat al" by (simp add: unat_gt_0)
    with False have "unat am = unat al - 1" by (simp add: am_def unat_minus_one)
    with start False show ?thesis by (auto simp: sz'_def aligned_start_def)
  qed
  have okc: "chunk_ok h c"
    using c0 am small lim by (simp add: chunk_ok_def fields)
  note cb = chunk_base [OF okc fields(5) [unfolded k(2)] k(1)]
  have fb: "first_base h c = PTR_ALIGN (contents c) am" by (simp add: first_base_def fields)
  have "ob_inv h ((c, []) # [])"
    by (rule ob_invI [OF k(1)]) (use k c0 okc cb in \<open>simp_all add: fields fb chunks_ok_def\<close>)
  then show "\<exists>c. ob_inv h [(c, [])]" by blast
  show "current_object h = []" by (simp add: current_object_def fields)
qed

section \<open>Scripts\<close>

datatype ob_op = Grow "u8 list" | Grow0 "u8 list" | Grow_Byte u8 | Grow_Int u32 | Grow_Ptr u64
  | Blank_Fill "u8 list" | Finish | Copy "u8 list" | Copy0 "u8 list" | Free nat

type_synonym ob_client = "obstack \<times> u64 list"

definition keep :: "u64 list \<Rightarrow> obstack ob_result \<Rightarrow> ob_client ob_result option" where
  "keep ps r = Some (ob_bind r (\<lambda>h. Ok (h, ps)))"

definition push :: "u64 list \<Rightarrow> (u64 \<times> obstack) ob_result \<Rightarrow> ob_client ob_result option" where
  "push ps r = Some (ob_bind r (\<lambda>(p, h). Ok (h, p # ps)))"

text \<open>One operation; the client remembers the addresses of the finished objects, newest first.\<close>

fun ob_step :: "chunkfun \<Rightarrow> ob_op \<Rightarrow> ob_client \<Rightarrow> ob_client ob_result option" where
  "ob_step cf (Grow bs) (h, ps) = keep ps (obstack_grow cf bs h)"
| "ob_step cf (Grow0 bs) (h, ps) = keep ps (obstack_grow0 cf bs h)"
| "ob_step cf (Grow_Byte b) (h, ps) = keep ps (obstack_1grow cf b h)"
| "ob_step cf (Grow_Int i) (h, ps) = keep ps (obstack_int_grow cf i h)"
| "ob_step cf (Grow_Ptr p) (h, ps) = keep ps (obstack_ptr_grow cf p h)"
| "ob_step cf (Blank_Fill bs) (h, ps) =
     keep ps (ob_bind (obstack_blank cf (of_nat (length bs)) h) (\<lambda>h. Ok (fill_blank bs h)))"
| "ob_step cf Finish (h, ps) = push ps (Ok (obstack_finish h))"
| "ob_step cf (Copy bs) (h, ps) = push ps (obstack_copy cf bs h)"
| "ob_step cf (Copy0 bs) (h, ps) = push ps (obstack_copy0 cf bs h)"
| "ob_step cf (Free i) (h, ps) =
     (if i < length ps then map_option (\<lambda>r. ob_bind r (\<lambda>h. Ok (h, drop (Suc i) ps))) (obstack_free (ps ! i) h)
      else Some (Ok (h, ps)))"

fun ob_run :: "chunkfun \<Rightarrow> ob_op list \<Rightarrow> ob_client \<Rightarrow> ob_client ob_result option" where
  "ob_run cf [] s = Some (Ok s)"
| "ob_run cf (x # xs) s =
     (case ob_step cf x s of
        None \<Rightarrow> None
      | Some (Ok s') \<Rightarrow> ob_run cf xs s'
      | Some Alloc_Failed \<Rightarrow> Some Alloc_Failed
      | Some Abort \<Rightarrow> Some Abort)"

section \<open>What the script means\<close>

type_synonym ob_stack = "u8 list list \<times> u8 list"

fun appended :: "ob_op \<Rightarrow> u8 list" where
  "appended (Grow bs) = bs"
| "appended (Grow0 bs) = bs @ [0]"
| "appended (Grow_Byte b) = [b]"
| "appended (Grow_Int i) = le_bytes 4 (ucast i)"
| "appended (Grow_Ptr p) = le_bytes 8 p"
| "appended (Blank_Fill bs) = bs"
| "appended (Copy bs) = bs"
| "appended (Copy0 bs) = bs @ [0]"
| "appended _ = []"

definition finishes :: "ob_op \<Rightarrow> bool" where
  "finishes x \<longleftrightarrow> (case x of Finish \<Rightarrow> True | Copy _ \<Rightarrow> True | Copy0 _ \<Rightarrow> True | _ \<Rightarrow> False)"

fun stack_step :: "ob_op \<Rightarrow> ob_stack \<Rightarrow> ob_stack" where
  "stack_step (Free i) (objs, cur) = (if i < length objs then (drop (Suc i) objs, []) else (objs, cur))"
| "stack_step x (objs, cur) =
     (if finishes x then ((cur @ appended x) # objs, []) else (objs, cur @ appended x))"

definition stack_run :: "ob_op list \<Rightarrow> ob_stack \<Rightarrow> ob_stack" where
  "stack_run xs s = fold stack_step xs s"

text \<open>The bytes appended at once are fewer than a word can count.\<close>

definition op_small :: "ob_op \<Rightarrow> bool" where
  "op_small x \<longleftrightarrow> length (appended x) < 2 ^ 64"

definition client_inv :: "ob_client \<Rightarrow> ob_stack \<Rightarrow> bool" where
  "client_inv s a \<longleftrightarrow> (\<exists>st. ob_inv (fst s) st \<and> map fst (objects st) = snd s
     \<and> map snd (objects st) = fst a \<and> current_object (fst s) = snd a)"

text \<open>An outcome: the process ends because memory ran out, or the client's state is as said.\<close>

fun outcome :: "(ob_client \<Rightarrow> bool) \<Rightarrow> ob_client ob_result option \<Rightarrow> bool" where
  "outcome P None = False"
| "outcome P (Some Abort) = False"
| "outcome P (Some Alloc_Failed) = True"
| "outcome P (Some (Ok s)) = P s"

lemma grow_step:
  assumes "client_inv (h, ps) (objs, cur)" and "good_chunkfun cf" and "length bs < 2 ^ 64"
  shows "outcome (\<lambda>s. client_inv s (objs, cur @ bs)) (keep ps (grow_by cf bs h))"
proof -
  from assms(1) obtain st where st: "ob_inv h st" "map fst (objects st) = ps" "map snd (objects st) = objs"
    "current_object h = cur" by (auto simp: client_inv_def)
  from grow_by_not_abort [OF st(1)] grow_by_Ok [OF st(1) assms(2,3)] st show ?thesis
    by (cases "grow_by cf bs h") (auto simp: keep_def client_inv_def)
qed

lemma finish_client:
  assumes "client_inv (h, ps) (objs, cur)"
  shows "client_inv (snd (obstack_finish h), fst (obstack_finish h) # ps) (cur # objs, [])"
proof -
  from assms obtain st where st: "ob_inv h st" "map fst (objects st) = ps" "map snd (objects st) = objs"
    "current_object h = cur" by (auto simp: client_inv_def)
  from st(1) obtain c os rest where eq: "st = (c, os) # rest" by (rule ob_invE)
  from finish_step [OF st(1) [unfolded eq]] obtain h' where "obstack_finish h = (object_base h, h')"
    "ob_inv h' ((c, (object_base h, current_object h) # os) # rest)" "current_object h' = []"
    by (metis prod.collapse snd_conv)
  with st show ?thesis
    unfolding client_inv_def by (intro exI [of _ "(c, (object_base h, current_object h) # os) # rest"])
      (auto simp: eq objects_def)
qed

lemma copy_step:
  assumes "client_inv (h, ps) (objs, cur)" and "good_chunkfun cf" and "length bs < 2 ^ 64"
  shows "outcome (\<lambda>s. client_inv s ((cur @ bs) # objs, []))
    (push ps (ob_bind (grow_by cf bs h) (\<lambda>h. Ok (obstack_finish h))))"
  using grow_step [OF assms]
  by (cases "grow_by cf bs h") (auto simp: keep_def push_def split: prod.splits dest: finish_client)

lemma free_step:
  assumes inv: "client_inv (h, ps) (objs, cur)" and i: "i < length ps"
  shows "length ps = length objs"
    "outcome (\<lambda>s. client_inv s (drop (Suc i) objs, []))
      (map_option (\<lambda>r. ob_bind r (\<lambda>h. Ok (h, drop (Suc i) ps))) (obstack_free (ps ! i) h))"
proof -
  from inv obtain st where st: "ob_inv h st" "map fst (objects st) = ps" "map snd (objects st) = objs"
    "current_object h = cur" by (auto simp: client_inv_def)
  show "length ps = length objs" unfolding st(2,3) [symmetric] by simp
  have len: "i < length (objects st)" using i by (simp add: st(2) [symmetric])
  define ob where "ob = objects st ! i"
  have "objects st = take i (objects st) @ (fst ob, snd ob) # drop (Suc i) (objects st)"
    using len by (simp add: id_take_nth_drop ob_def)
  from obstack_free_object [OF st(1) this] obtain h' st'
    where "obstack_free (fst ob) h = Some (Ok h')" "ob_inv h' st'" "objects st' = drop (Suc i) (objects st)"
      "current_object h' = []" by blast
  moreover have "fst ob = ps ! i" using len by (simp add: ob_def st(2) [symmetric])
  ultimately show "outcome (\<lambda>s. client_inv s (drop (Suc i) objs, []))
      (map_option (\<lambda>r. ob_bind r (\<lambda>h. Ok (h, drop (Suc i) ps))) (obstack_free (ps ! i) h))"
    unfolding client_inv_def using st
    by (auto simp: drop_map [symmetric] intro!: exI [of _ st'])
qed

lemma ob_step_refines:
  assumes inv: "client_inv (h, ps) (objs, cur)" and cf: "good_chunkfun cf" and x: "op_small x"
  shows "outcome (\<lambda>s. client_inv s (stack_step x (objs, cur))) (ob_step cf x (h, ps))"
proof (cases x)
  case (Free i)
  have "length ps = length objs" using inv by (auto simp: client_inv_def)
  with Free inv free_step(2) [OF inv, of i] show ?thesis by auto
next
  case Finish
  with finish_client [OF inv] show ?thesis
    by (auto simp: push_def finishes_def split: prod.splits)
qed (use x grow_step [OF inv cf, of "appended x"] copy_step [OF inv cf, of "appended x"] in
    \<open>simp_all add: op_small_def finishes_def obstack_grow_is_grow_by obstack_grow0_is_grow_by
      obstack_1grow_is_grow_by obstack_int_grow_is_grow_by obstack_ptr_grow_is_grow_by
      obstack_blank_is_grow_by obstack_copy_def obstack_copy0_def\<close>)

lemma ob_run_refines:
  assumes "client_inv s a" and "good_chunkfun cf" and "\<forall>x \<in> set xs. op_small x"
  shows "outcome (\<lambda>s. client_inv s (stack_run xs a)) (ob_run cf xs s)"
  using assms(1,3)
proof (induction xs arbitrary: s a)
  case Nil
  then show ?case by (simp add: stack_run_def)
next
  case (Cons x xs)
  obtain h ps objs cur where sa: "s = (h, ps)" "a = (objs, cur)" by (cases s, cases a)
  have step: "outcome (\<lambda>s. client_inv s (stack_step x a)) (ob_step cf x s)"
    using ob_step_refines [OF _ assms(2), of h ps objs cur x] Cons.prems by (simp add: sa)
  show ?case
  proof (cases "ob_step cf x s")
    case None
    with step show ?thesis by simp
  next
    case (Some r)
    with step show ?thesis
      using Cons.IH [of _ "stack_step x a"] Cons.prems(2) by (cases r) (auto simp: stack_run_def)
  qed
qed

section \<open>The alignment stays\<close>

lemma memory_calls_mask:
  "alignment_mask (snd (call_chunkfun cf sz h)) = alignment_mask h"
  "alignment_mask (call_freefun c h) = alignment_mask h"
  "alignment_mask (set_header c l p h) = alignment_mask h"
  by (simp_all add: call_chunkfun_def call_freefun_def set_header_def Let_def split: prod.split)

lemma newchunk_mask: "obstack_newchunk cf len h = Ok h' \<Longrightarrow> alignment_mask h' = alignment_mask h"
  unfolding obstack_newchunk_def
  by (simp only: Let_def case_prod_unfold split: if_splits)
    (simp_all only: ob_result.inject ob_result.distinct, (drule sym, simp add: memory_calls_mask)+)

lemma grow_by_mask: "grow_by cf bs h = Ok h' \<Longrightarrow> alignment_mask h' = alignment_mask h"
  by (auto simp: grow_by_def reserve_def append_bytes_def ob_bind_Ok split: if_splits dest: newchunk_mask)

lemma finish_mask: "alignment_mask (snd (obstack_finish h)) = alignment_mask h"
  by (simp add: obstack_finish_def Let_def)

lemma free_while_mask:
  assumes "free_while P c h = Some y"
  shows "alignment_mask (snd y) = alignment_mask h"
proof (rule free_while.raw_induct [where Pa = "\<lambda>(_, h) y. alignment_mask (snd y) = alignment_mask h", OF _ assms, unfolded prod.case], goal_cases)
  case (1 fw P c h y)
  show ?case
    using 1(2) 1(1) [of P "prev_of h c" "call_freefun c h\<lparr>maybe_empty_object := True\<rparr>" y]
    by (auto simp: memory_calls_mask split: if_splits)
qed

lemma free_mask: "obstack_free obj h = Some (Ok h') \<Longrightarrow> alignment_mask h' = alignment_mask h"
  by (auto simp: obstack_free_def obstack_free_fn_def split: if_splits prod.splits dest!: free_while_mask)

lemma ob_step_mask: "ob_step cf x (h, ps) = Some (Ok (h', ps')) \<Longrightarrow> alignment_mask h' = alignment_mask h"
  by (cases x)
    (auto simp: keep_def push_def ob_bind_Ok obstack_grow_is_grow_by obstack_grow0_is_grow_by obstack_1grow_is_grow_by
      obstack_int_grow_is_grow_by obstack_ptr_grow_is_grow_by obstack_blank_is_grow_by obstack_copy_def obstack_copy0_def
      finish_mask split: if_splits prod.splits dest!: grow_by_mask free_mask dest: arg_cong [of _ _ "\<lambda>p. alignment_mask (snd p)"])

lemma ob_run_mask: "ob_run cf xs (h, ps) = Some (Ok (h', ps')) \<Longrightarrow> alignment_mask h' = alignment_mask h"
  by (induction xs arbitrary: h ps) (force split: option.splits ob_result.splits dest: ob_step_mask)+

lemma begin_mask:
  "obstack_begin_worker cf sz al h0 = Ok h \<Longrightarrow> alignment_mask h = (if al = 0 then DEFAULT_ALIGNMENT else al) - 1"
  by (auto simp: obstack_begin_worker_def Let_def call_chunkfun_def set_header_def split: if_splits)

lemma mask_divides:
  assumes "aligned_start sz al h" and "p AND ((if al = 0 then DEFAULT_ALIGNMENT else al) - 1) = 0"
  shows "(if al = 0 then DEFAULT_ALIGNMENT else al) dvd p"
proof -
  have "\<exists>k < 64. (if al = 0 then DEFAULT_ALIGNMENT else al) = 2 ^ k"
  proof (cases "al = 0")
    case True
    then show ?thesis by (intro exI [of _ 4]) (simp add: DEFAULT_ALIGNMENT_def)
  next
    case False
    with assms(1) obtain k where "k < 63" "al = push_bit k 1" by (auto simp: aligned_start_def)
    with False show ?thesis by (intro exI [of _ k]) (simp add: push_bit_eq_mult)
  qed
  then obtain k where k: "(if al = 0 then DEFAULT_ALIGNMENT else al) = 2 ^ k" by blast
  then have "p AND mask k = 0" using assms(2) by (simp add: mask_eq_exp_minus_1)
  then have "take_bit k p = 0" by (simp add: take_bit_eq_mask)
  then show ?thesis unfolding k by (simp add: take_bit_eq_0_iff)
qed

end
