(* ===== verification/Obstack_Props.thy ===== *)
theory Obstack_Props
  imports Obstack_Run
begin

text \<open>
  The properties of obstacks: a script of operations behaves as a stack of byte strings,
  its objects are aligned, no chunk leaks, a new chunk loses nothing, and formatted growth
  appends the text.
\<close>

section \<open>An allocator\<close>

text \<open>One that hands out addresses in order, above every block of its log.\<close>

definition bump_top :: "(u64 \<times> u64) list \<Rightarrow> u64" where
  "bump_top log = fold (\<lambda>(c, sz) top. max top (c + sz)) log 4096"

definition bump_chunkfun :: chunkfun where
  "bump_chunkfun h sz =
     (let top = bump_top (chunk_log h) in if unat top + unat sz < 2 ^ 63 then top else 0)"

lemma fold_max_mono: "t \<le> t' \<Longrightarrow> t \<le> fold (\<lambda>(c, sz) top. max top (c + sz :: u64)) log t'"
proof (induction log arbitrary: t')
  case (Cons x log)
  have "t \<le> max t' (fst x + snd x)" using Cons.prems by (rule max.coboundedI1)
  from Cons.IH [OF this] show ?case by (simp add: case_prod_beta)
qed simp

lemma bump_top_above: "(c, sz) \<in> set log \<Longrightarrow> c + sz \<le> bump_top log"
proof -
  assume "(c, sz) \<in> set log"
  then obtain l1 l2 where "log = l1 @ (c, sz) # l2" by (meson split_list)
  then show "c + sz \<le> bump_top log"
    unfolding bump_top_def by (simp add: fold_max_mono)
qed

lemma bump_good: "good_chunkfun bump_chunkfun"
  unfolding good_chunkfun_def
proof (intro conjI allI impI)
  fix h st sz
  assume inv: "ob_inv h st"
  have "unat (limit_of h c) \<le> unat (bump_top (chunk_log h))" if "c \<in> set (map fst st)" for c
  proof -
    have "chunk_ok h c" using inv that by (auto simp: ob_inv_def chunks_ok_def)
    then have "c + (limit_of h c - c) \<le> bump_top (chunk_log h)"
      by (intro bump_top_above) (simp add: chunk_ok_def)
    then show ?thesis by (simp add: word_le_nat_alt)
  qed
  then show "bump_chunkfun h sz = 0 \<or> fresh_block h (map fst st) sz (bump_chunkfun h sz)"
    by (auto simp: bump_chunkfun_def fresh_block_def Let_def)
qed (auto simp: bump_chunkfun_def fresh_block_def Let_def)

definition ob_zero :: obstack where
  "ob_zero = \<lparr>chunk_size = 0, chunk = 0, object_base = 0, next_free = 0, chunk_limit = 0,
     alignment_mask = 0, use_extra_arg = False, maybe_empty_object = False, alloc_failed = False,
     mem = (\<lambda>_. 0), limit_of = (\<lambda>_. 0), prev_of = (\<lambda>_. 0), chunk_log = [], free_log = []\<rparr>"

lemma bump_begin: "\<exists>h. obstack_begin bump_chunkfun 0 0 ob_zero = Ok h"
  by (simp add: obstack_begin_def obstack_begin_worker_def ob_zero_def Let_def call_chunkfun_def
      bump_chunkfun_def bump_top_def set_header_def DEFAULT_ROUNDING_def)

lemma zero_start: "aligned_start 0 0 ob_zero"
  by (simp add: aligned_start_def ob_zero_def)

section \<open>The script\<close>

lemma begin_client:
  assumes "good_chunkfun cf" and "aligned_start sz al h0" and "obstack_begin cf sz al h0 = Ok h"
  shows "client_inv (h, []) ([], [])"
proof -
  have "aligned_start sz al (h0\<lparr>use_extra_arg := False\<rparr>)" using assms(2) by (simp add: aligned_start_def)
  from begin_inv [OF assms(1) this] assms(3) obtain c where "ob_inv h [(c, [])]" "current_object h = []"
    by (auto simp: obstack_begin_def)
  then show ?thesis unfolding client_inv_def by (intro exI [of _ "[(c, [])]"]) (simp add: objects_def)
qed

lemma outcome_mono: "outcome P r \<Longrightarrow> (\<And>s. P s \<Longrightarrow> Q s) \<Longrightarrow> outcome Q r"
  by (cases "(P, r)" rule: outcome.cases) auto

lemma objects_placed:
  assumes "ob_inv h st" and "ob \<in> set (objects st)"
  shows "read_bytes (fst ob) (length (snd ob)) (mem h) = snd ob"
    "snd ob \<noteq> [] \<Longrightarrow> fst ob AND alignment_mask h = 0"
proof -
  from assms(2) obtain o1 o2 where "objects st = o1 @ ob # o2" by (meson split_list)
  from objects_split [OF this] obtain pre d p1 p2 post where st: "st = pre @ (d, p1 @ ob # p2) # post"
    by blast
  from assms(1) [unfolded st] obtain hi
    where pk: "packed (mem h) (alignment_mask h) (limit_of h d) (first_base h d) hi (p1 @ ob # p2)"
      and hi: "unat hi \<le> unat (limit_of h d)"
    by (rule ob_inv_chunk)
  note b = packed_bounds [OF pk, of ob, simplified]
  show "read_bytes (fst ob) (length (snd ob)) (mem h) = snd ob" by (rule b(4))
  show "fst ob AND alignment_mask h = 0" if "snd ob \<noteq> []"
  proof -
    have "0 < length (snd ob)" using that by simp
    then have "unat (fst ob) < unat (limit_of h d)" using b(2) hi by linarith
    then have "fst ob \<noteq> limit_of h d" by auto
    with b(3) show ?thesis by simp
  qed
qed

text \<open>
  C4: an obstack is a stack of byte strings.  Whatever operations a client makes after
  \<open>obstack_begin\<close>, with whatever allocator, the run ends (no walk over the chunks loops or
  falls off the chain into \<open>abort\<close>), and unless memory ran out every object that was
  finished and not freed is found at the address \<open>obstack_finish\<close> gave for it, byte for
  byte, and the growing object is the bytes appended since the last one.
\<close>

theorem obstack_is_a_stack:
  assumes "good_chunkfun cf" and "aligned_start sz al h0" and "obstack_begin cf sz al h0 = Ok h"
    and "\<forall>x \<in> set ops. op_small x"
  shows "outcome (\<lambda>(h', ps). length ps = length (fst (stack_run ops ([], [])))
      \<and> (\<forall>(p, bs) \<in> set (zip ps (fst (stack_run ops ([], [])))). read_bytes p (length bs) (mem h') = bs)
      \<and> current_object h' = snd (stack_run ops ([], [])))
    (ob_run cf ops (h, []))"
proof (rule outcome_mono [OF ob_run_refines [OF begin_client [OF assms(1-3)] assms(1,4)]])
  fix s
  assume "client_inv s (stack_run ops ([], []))"
  moreover obtain h1 ps where s: "s = (h1, ps)" by (cases s)
  ultimately obtain st where st: "ob_inv h1 st" "ps = map fst (objects st)"
    "fst (stack_run ops ([], [])) = map snd (objects st)"
    "current_object h1 = snd (stack_run ops ([], []))" by (auto simp: client_inv_def)
  have "read_bytes p (length bs) (mem h1) = bs" if "(p, bs) \<in> set (objects st)" for p bs
    using objects_placed(1) [OF st(1) that] by simp
  then show "case s of (h', ps) \<Rightarrow> length ps = length (fst (stack_run ops ([], [])))
      \<and> (\<forall>(p, bs) \<in> set (zip ps (fst (stack_run ops ([], [])))). read_bytes p (length bs) (mem h') = bs)
      \<and> current_object h' = snd (stack_run ops ([], []))"
    unfolding s st(2,3) using st(4) by (auto simp: zip_map_fst_snd)
qed

theorem obstack_is_a_stack_witness:
  "\<exists>h. obstack_begin bump_chunkfun 0 0 ob_zero = Ok h \<and>
     outcome (\<lambda>(h', ps). length ps = 1 \<and> (\<forall>(p, bs) \<in> set (zip ps [[1, 2, 3]]). read_bytes p (length bs) (mem h') = bs)
         \<and> current_object h' = [7, 0])
       (ob_run bump_chunkfun [Grow [1, 2], Grow_Byte 3, Finish, Copy [4], Free 0, Grow0 [7]] (h, []))"
proof -
  obtain h where h: "obstack_begin bump_chunkfun 0 0 ob_zero = Ok h" using bump_begin by blast
  have "stack_run [Grow [1, 2], Grow_Byte 3, Finish, Copy [4], Free 0, Grow0 [7]] ([], []) = ([[1, 2, 3]], [7, 0])"
    by (simp add: stack_run_def finishes_def)
  with obstack_is_a_stack [OF bump_good zero_start h,
      of "[Grow [1, 2], Grow_Byte 3, Finish, Copy [4], Free 0, Grow0 [7]]"] h
  show ?thesis by (auto simp: op_small_def)
qed

text \<open>
  C30: the alignment that \<open>obstack_begin\<close> was asked for (a power of two, or 0 for the default) holds: it divides the address
  of every object that is not empty, also after growing into new chunks and after frees, where
  \<open>obstack_finish\<close> cuts the aligned end off at the chunk's limit.  The client does not set the mask itself.
\<close>

theorem obstack_objects_aligned:
  assumes "good_chunkfun cf" and "aligned_start sz al h0" and "obstack_begin cf sz al h0 = Ok h"
    and "\<forall>x \<in> set ops. op_small x"
  shows "outcome (\<lambda>(h', ps). \<forall>(p, bs) \<in> set (zip ps (fst (stack_run ops ([], [])))).
      bs = [] \<or> (if al = 0 then DEFAULT_ALIGNMENT else al) dvd p)
    (ob_run cf ops (h, []))"
proof -
  let ?al = "if al = 0 then DEFAULT_ALIGNMENT else al"
  have "outcome (\<lambda>s. client_inv s (stack_run ops ([], []))) (ob_run cf ops (h, []))"
    by (rule ob_run_refines [OF begin_client [OF assms(1-3)] assms(1,4)])
  moreover have "\<forall>(p, bs) \<in> set (zip ps (fst (stack_run ops ([], [])))). bs = [] \<or> ?al dvd p"
    if run: "ob_run cf ops (h, []) = Some (Ok (h1, ps))" and inv: "client_inv (h1, ps) (stack_run ops ([], []))" for h1 ps
  proof -
    obtain st where st: "ob_inv h1 st" "ps = map fst (objects st)"
      "fst (stack_run ops ([], [])) = map snd (objects st)" using inv by (auto simp: client_inv_def)
    have "alignment_mask h1 = ?al - 1"
      using ob_run_mask [OF run] begin_mask assms(3) by (simp add: obstack_begin_def)
    then have "bs = [] \<or> ?al dvd p" if "(p, bs) \<in> set (objects st)" for p bs
      using objects_placed(2) [OF st(1) that] mask_divides [OF assms(2), of p] that
      by (cases "al = 0") (simp_all only: fst_conv snd_conv if_True if_False simp_thms, blast+)
    then show ?thesis unfolding st(2,3) zip_map_fst_snd by blast
  qed
  ultimately show ?thesis
    by (cases "((\<lambda>_. True) :: ob_client \<Rightarrow> bool, ob_run cf ops (h, []))" rule: outcome.cases) auto
qed

theorem obstack_objects_aligned_witness:
  "\<exists>h. obstack_begin bump_chunkfun 0 64 ob_zero = Ok h \<and>
     outcome (\<lambda>(h', ps). \<forall>(p, bs) \<in> set (zip ps [[], [1 :: u8]]). bs = [] \<or> 64 dvd p)
       (ob_run bump_chunkfun [Grow [1], Finish, Finish] (h, []))"
proof -
  have start: "aligned_start 0 64 ob_zero"
  proof -
    have "(64 :: u64) = push_bit 6 1" by simp
    then have "(64 :: u64) \<in> (\<lambda>k. push_bit k 1) ` {0 ..< 63}"
      by (rule image_eqI [where x = 6]) simp
    then have "(64 :: u64) \<in> set (0 # map (\<lambda>k. push_bit k 1) [0 ..< 63])" by simp
    then show ?thesis by (simp add: aligned_start_def ob_zero_def)
  qed
  have "\<exists>h. obstack_begin bump_chunkfun 0 64 ob_zero = Ok h"
    by (simp add: obstack_begin_def obstack_begin_worker_def ob_zero_def Let_def call_chunkfun_def
        bump_chunkfun_def bump_top_def set_header_def DEFAULT_ROUNDING_def)
  then obtain h where h: "obstack_begin bump_chunkfun 0 64 ob_zero = Ok h" by blast
  have "stack_run [Grow [1], Finish, Finish] ([], []) = ([[], [1 :: u8]], [])"
    by (simp add: stack_run_def finishes_def)
  with obstack_objects_aligned [OF bump_good start h, of "[Grow [1], Finish, Finish]"] h
  show ?thesis by (auto simp: op_small_def)
qed

section \<open>Chunks\<close>

text \<open>Blocks that do not overlap and end below a bound have sizes that sum below it.\<close>

lemma disjoint_sizes:
  assumes "distinct cs" and "\<forall>c \<in> set cs. lo c \<le> hi c \<and> hi c \<le> B"
    and "\<forall>c \<in> set cs. \<forall>d \<in> set cs. c \<noteq> d \<longrightarrow> hi c \<le> lo d \<or> hi d \<le> lo c"
  shows "(\<Sum>c \<leftarrow> cs. hi c - lo c) \<le> (B :: nat)"
proof -
  have "(\<Sum>c \<leftarrow> cs. hi c - lo c) = (\<Sum>c \<in> set cs. card {lo c ..< hi c})"
    using assms(1) by (simp add: sum_list_distinct_conv_sum_set)
  also have "\<dots> = card (\<Union>c \<in> set cs. {lo c ..< hi c})"
    by (rule card_UN_disjoint [symmetric]) (use assms(3) in fastforce)+
  also have "\<dots> \<le> card {..< B}" using assms(2) by (intro card_mono) fastforce+
  finally show ?thesis by simp
qed

lemma sum_list_of_nat: "(\<Sum>c \<leftarrow> cs. of_nat (f c)) = of_nat (\<Sum>c \<leftarrow> cs. f c)"
  by (induction cs) simp_all

lemma memory_used_unat:
  assumes "ob_inv h st"
  shows "\<exists>s. obstack_memory_used h = Some s \<and> unat s = (\<Sum>c \<leftarrow> map fst st. unat (limit_of h c) - unat c)"
proof -
  define cs where "cs = map fst st"
  have ok: "chunks_ok h cs" using assms by (simp add: ob_inv_def cs_def)
  have le: "unat c \<le> unat (limit_of h c)" "unat (limit_of h c) \<le> 2 ^ 63" if "c \<in> set cs" for c
    using ok that by (auto simp: chunks_ok_def chunk_ok_def)
  have bound: "(\<Sum>c \<leftarrow> cs. unat (limit_of h c) - unat c) \<le> 2 ^ 63"
    by (rule disjoint_sizes) (use ok le in \<open>auto simp: chunks_ok_def apart_def\<close>)
  have "(\<Sum>c \<leftarrow> cs. limit_of h c - c) = (\<Sum>c \<leftarrow> cs. of_nat (unat (limit_of h c) - unat c))"
    using le(1) by (intro arg_cong [where f = sum_list] map_cong) (auto simp: of_nat_diff)
  also have "\<dots> = of_nat (\<Sum>c \<leftarrow> cs. unat (limit_of h c) - unat c)" by (rule sum_list_of_nat)
  finally have "unat (\<Sum>c \<leftarrow> cs. limit_of h c - c) = (\<Sum>c \<leftarrow> cs. unat (limit_of h c) - unat c)"
    using bound by (simp add: unat_of_nat_u64)
  then show ?thesis using obstack_memory_used_chain [OF assms] by (simp add: cs_def)
qed

text \<open>
  C22: chunks are neither leaked nor freed twice.  After any script the blocks the allocator
  gave are those already given back and the live ones, as multisets; \<open>obstack_memory_used\<close> ends
  with the exact total size of the live ones; and \<open>obstack_free (h, NULL)\<close> ends having given
  back each block as often as it was allocated.
\<close>

theorem obstack_gives_back_its_chunks:
  assumes "good_chunkfun cf" and "aligned_start sz al h0" and "obstack_begin cf sz al h0 = Ok h"
    and "\<forall>x \<in> set ops. op_small x"
  shows "outcome (\<lambda>(h', ps). (\<exists>live s. set live \<subseteq> set (chunk_log h')
        \<and> mset (map fst (chunk_log h')) = mset (map fst live) + mset (free_log h')
        \<and> obstack_memory_used h' = Some s \<and> unat s = (\<Sum>(c, sz) \<leftarrow> live. unat sz))
      \<and> (\<exists>h2. obstack_free_fn 0 h' = Some (Ok h2) \<and> chunk h2 = 0
        \<and> mset (free_log h2) = mset (map fst (chunk_log h'))))
    (ob_run cf ops (h, []))"
proof (rule outcome_mono [OF ob_run_refines [OF begin_client [OF assms(1-3)] assms(1,4)]])
  fix s
  assume "client_inv s (stack_run ops ([], []))"
  moreover obtain h1 ps where s: "s = (h1, ps)" by (cases s)
  ultimately obtain st where st: "ob_inv h1 st" by (auto simp: client_inv_def)
  have ok: "chunk_ok h1 c" if "c \<in> fst ` set st" for c
    using st that by (auto simp: ob_inv_def chunks_ok_def)
  define live where "live = map (\<lambda>c. (c, limit_of h1 c - c)) (map fst st)"
  have sub: "set live \<subseteq> set (chunk_log h1)" using ok by (auto simp: live_def chunk_ok_def)
  have log: "mset (map fst (chunk_log h1)) = mset (map fst st) + mset (free_log h1)"
    using st unfolding ob_inv_def by blast
  have fst: "map fst live = map fst st" by (simp add: live_def comp_def)
  have sum: "(\<Sum>c \<leftarrow> map fst st. unat (limit_of h1 c) - unat c) = (\<Sum>(c, sz) \<leftarrow> live. unat sz)"
  proof -
    have "unat (limit_of h1 c - c) = unat (limit_of h1 c) - unat c" if "c \<in> fst ` set st" for c
      using ok [OF that] by (intro unat_minus_le) (simp add: chunk_ok_def)
    then show ?thesis by (auto simp: live_def comp_def intro!: arg_cong [where f = sum_list])
  qed
  have free: "\<exists>h2. obstack_free_fn 0 h1 = Some (Ok h2) \<and> chunk h2 = 0
      \<and> mset (free_log h2) = mset (map fst (chunk_log h1))"
    using obstack_free_all [OF st] log by (auto simp: ac_simps)
  obtain m where m: "obstack_memory_used h1 = Some m" "unat m = (\<Sum>(c, sz) \<leftarrow> live. unat sz)"
    using memory_used_unat [OF st] unfolding sum by blast
  show "case s of (h', ps) \<Rightarrow> (\<exists>live s. set live \<subseteq> set (chunk_log h')
        \<and> mset (map fst (chunk_log h')) = mset (map fst live) + mset (free_log h')
        \<and> obstack_memory_used h' = Some s \<and> unat s = (\<Sum>(c, sz) \<leftarrow> live. unat sz))
      \<and> (\<exists>h2. obstack_free_fn 0 h' = Some (Ok h2) \<and> chunk h2 = 0
        \<and> mset (free_log h2) = mset (map fst (chunk_log h')))"
    unfolding s prod.case
    using free log [folded fst] m sub by (intro conjI exI [of _ live] exI [of _ m])
qed

theorem obstack_gives_back_its_chunks_witness:
  "\<exists>h. obstack_begin bump_chunkfun 0 0 ob_zero = Ok h \<and>
     outcome (\<lambda>(h', ps). \<exists>h2. obstack_free_fn 0 h' = Some (Ok h2)
         \<and> mset (free_log h2) = mset (map fst (chunk_log h')))
       (ob_run bump_chunkfun [Copy (replicate 5000 1), Copy0 [2], Free 1] (h, []))"
proof -
  obtain h where h: "obstack_begin bump_chunkfun 0 0 ob_zero = Ok h" using bump_begin by blast
  have "\<forall>x \<in> set [Copy (replicate 5000 1), Copy0 [2], Free 1]. op_small x" by (simp add: op_small_def)
  from obstack_gives_back_its_chunks [OF bump_good zero_start h this]
  have "outcome (\<lambda>(h', ps). \<exists>h2. obstack_free_fn 0 h' = Some (Ok h2)
         \<and> mset (free_log h2) = mset (map fst (chunk_log h')))
       (ob_run bump_chunkfun [Copy (replicate 5000 1), Copy0 [2], Free 1] (h, []))"
    by (rule outcome_mono) blast
  with h show ?thesis by blast
qed

text \<open>
  C31: moving to a new chunk either ends in the handler of failed allocations, and then the
  size it needs is beyond a word or the allocator refused, or leaves room for the request,
  the growing object and all finished ones as they were, and gives the old chunk back only
  when it held no finished object, not even an empty one.
\<close>

theorem newchunk_loses_nothing:
  assumes "ob_inv h st" and "good_chunkfun cf"
  shows "case obstack_newchunk cf len h of
      Abort \<Rightarrow> False
    | Alloc_Failed \<Rightarrow> need h (unat len) \<ge> 2 ^ 64 \<or> (\<exists>sz. need h (unat len) \<le> unat sz \<and> cf h sz = 0)
    | Ok h' \<Rightarrow> len \<le> obstack_room h' \<and> (\<exists>st'. keeps h st h' st')
        \<and> (free_log h' = free_log h \<or> free_log h' = free_log h @ [chunk h] \<and> snd (hd st) = [])"
  using assms(1)
proof (cases rule: newchunk_cases [where len = len and cf = cf])
  case (given sz)
  from newchunk_keeps [OF assms given(3)] obtain st'
    where st': "keeps h st (moved h (cf h sz) sz) st'"
      "unat len \<le> unat (chunk_limit (moved h (cf h sz) sz)) - unat (next_free (moved h (cf h sz) sz))"
    by blast
  then have "len \<le> obstack_room (moved h (cf h sz) sz)"
    using obstack_room_unat [of "moved h (cf h sz) sz" st'] by (simp add: keeps_def word_le_nat_alt)
  moreover have "snd (hd st) = []" if "\<not> maybe_empty_object h" "object_base h = first_base h (chunk h)"
    using assms(1)
  proof (rule ob_invE)
    fix c os rest
    assume st: "st = (c, os) # rest" and c: "chunk h = c"
      and pk: "packed (mem h) (alignment_mask h) (limit_of h c) (first_base h c) (object_base h) os"
      and me: "\<not> maybe_empty_object h \<longrightarrow> [] \<notin> snd ` set os"
    have "False" if "ob \<in> set os" for ob
      proof -
      have "length (snd ob) = 0"
        using packed_bounds(1,2) [OF pk that]
        unfolding \<open>object_base h = first_base h (chunk h)\<close> c by linarith
      with me \<open>\<not> maybe_empty_object h\<close> that show ?thesis by (metis image_eqI length_0_conv)
    qed
    then show ?thesis by (cases os) (auto simp: st)
  qed
  then have "free_log (moved h (cf h sz) sz) = free_log h
      \<or> free_log (moved h (cf h sz) sz) = free_log h @ [chunk h] \<and> snd (hd st) = []"
    by (auto simp: moved_def Let_def)
  ultimately show ?thesis using st'(1) given(3) by auto
next
  case long
  then show ?thesis by simp
next
  case (refused sz)
  then show ?thesis by auto
qed

theorem newchunk_loses_nothing_witness:
  "\<exists>h st h'. ob_inv h st \<and> obstack_newchunk bump_chunkfun 5000 h = Ok h' \<and> 5000 \<le> obstack_room h'"
proof -
  obtain h where h: "obstack_begin bump_chunkfun 0 0 ob_zero = Ok h"
    and ok: "\<exists>h'. obstack_newchunk bump_chunkfun 5000 h = Ok h'"
    by (simp add: obstack_begin_def obstack_begin_worker_def ob_zero_def Let_def call_chunkfun_def
        bump_chunkfun_def bump_top_def set_header_def DEFAULT_ROUNDING_def DEFAULT_ALIGNMENT_def
        contents_def PTR_ALIGN_def obstack_newchunk_def SIZE_MAX_def read_bytes_def call_freefun_def)
  from begin_client [OF bump_good zero_start h] obtain st where st: "ob_inv h st"
    by (auto simp: client_inv_def)
  from ok obtain h' where "obstack_newchunk bump_chunkfun 5000 h = Ok h'" by blast
  with newchunk_loses_nothing [OF st bump_good, of 5000] st show ?thesis by auto
qed

section \<open>Formatted growth\<close>

lemma store_and_advance:
  assumes inv: "ob_inv h st" and room: "Suc (length out) \<le> unat (chunk_limit h) - unat (next_free h)"
    and h': "h' = h\<lparr>mem := write_bytes (next_free h) (out @ [0]) (mem h),
                   next_free := next_free h + of_nat (length out)\<rparr>"
  shows "ob_inv h' st" "current_object h' = current_object h @ out" "mem h' (next_free h') = 0"
proof -
  define h1 where "h1 = append_bytes out h"
  have h1: "ob_inv h1 st" "current_object h1 = current_object h @ out"
    "unat (next_free h1) = unat (next_free h) + length out"
    unfolding h1_def using append_bytes_keeps [OF inv, of out] room by simp_all
  have lim: "chunk_limit h1 = chunk_limit h" by (simp add: h1_def append_bytes_def)
  have eq: "h' = h1\<lparr>mem := write_bytes (next_free h1) [0] (mem h1)\<rparr>"
    by (simp add: h' h1_def append_bytes_def write_bytes_append)
  have "length [0 :: u8] \<le> unat (chunk_limit h1) - unat (next_free h1)"
    unfolding lim h1(3) using room by simp
  from write_above_keeps [OF h1(1) this] h1(2)
  show "ob_inv h' st" "current_object h' = current_object h @ out" by (simp_all add: eq keeps_def)
  show "mem h' (next_free h') = 0" by (simp add: eq)
qed

definition printed :: "int \<Rightarrow> u8 list \<Rightarrow> obstack \<Rightarrow> ob_chunk list \<Rightarrow> obstack \<Rightarrow> bool" where
  "printed r out h st h' \<longleftrightarrow> (\<exists>st'. ob_inv h' st' \<and> objects st' = objects st)
     \<and> (if r < 0 then current_object h' = current_object h
        else r = int (length out) \<and> current_object h' = current_object h @ out \<and> mem h' (next_free h') = 0)"

fun ob_result_holds :: "('a \<Rightarrow> bool) \<Rightarrow> 'a ob_result \<Rightarrow> bool" where
  "ob_result_holds P Abort = False"
| "ob_result_holds P Alloc_Failed = True"
| "ob_result_holds P (Ok x) = P x"

lemma reserve_bind:
  assumes "ob_inv h st" and "good_chunkfun cf" and "n < 2 ^ 64"
    and "\<And>h1 st1. keeps h st h1 st1 \<Longrightarrow> n \<le> unat (chunk_limit h1) - unat (next_free h1) \<Longrightarrow>
      ob_result_holds P (f h1)"
  shows "ob_result_holds P (ob_bind (reserve cf (of_nat n) h) f)"
proof (cases "reserve cf (of_nat n) h")
  case (Ok h1)
  from reserve_keeps [OF assms(1,2) Ok] assms(3,4) show ?thesis by (auto simp: Ok unat_of_nat_u64)
qed (use reserve_not_abort [OF assms(1)] in simp_all)

lemma print_fails: "keeps h st h1 st1 \<Longrightarrow> printed (- 1) out h st h1"
  by (auto simp: printed_def keeps_def)

lemma print_fits:
  assumes k: "keeps h st h1 st1" and tot: "length out < tot" "tot \<le> unat (chunk_limit h1) - unat (next_free h1)"
  shows "printed (int (length out)) out h st
      (vsnprintf_store (next_free h1) tot out h1\<lparr>next_free := next_free h1 + of_nat (length out)\<rparr>)"
proof -
  have inv: "ob_inv h1 st1" using k by (simp add: keeps_def)
  have room: "Suc (length out) \<le> unat (chunk_limit h1) - unat (next_free h1)" using tot by linarith
  have "take (tot - 1) out = out" using tot(1) by simp
  with store_and_advance [OF inv room refl] show ?thesis
    using k by (auto simp: printed_def keeps_def vsnprintf_store_def)
qed

text \<open>The second attempt, with room for the length that the first one answered.\<close>

definition print_again :: "chunkfun \<Rightarrow> nat \<Rightarrow> u8 list option \<Rightarrow> obstack \<Rightarrow> (int \<times> obstack) ob_result" where
  "print_again cf required p2 h = ob_bind (reserve cf (of_nat required) h) (\<lambda>h.
     case p2 of None \<Rightarrow> Ok (- 1, h)
     | Some out2 \<Rightarrow> Ok (int (length out2),
         vsnprintf_store (next_free h) required out2 h\<lparr>next_free := next_free h + of_nat (length out2)\<rparr>))"

lemma print_again_prints:
  assumes k: "keeps h st h2 st2" and cf: "good_chunkfun cf" and n: "required < 2 ^ 64"
    and again: "\<forall>out2 \<in> set_option p2. length out2 < required"
  shows "ob_result_holds (\<lambda>(r, h'). printed r (the p2) h st h') (print_again cf required p2 h2)"
  unfolding print_again_def
proof (rule reserve_bind [OF _ cf n])
  show "ob_inv h2 st2" using k by (simp add: keeps_def)
next
  fix h3 st3
  assume k3: "keeps h2 st2 h3 st3" and room: "required \<le> unat (chunk_limit h3) - unat (next_free h3)"
  have k': "keeps h st h3 st3" using k k3 by (auto simp: keeps_def)
  show "ob_result_holds (\<lambda>(r, h'). printed r (the p2) h st h')
      (case p2 of None \<Rightarrow> Ok (- 1, h3)
       | Some out2 \<Rightarrow> Ok (int (length out2),
           vsnprintf_store (next_free h3) required out2 h3\<lparr>next_free := next_free h3 + of_nat (length out2)\<rparr>))"
    using print_fails [OF k'] print_fits [OF k' _ room] again by (cases p2) auto
qed

lemma obstack_vprintf_eq:
  "obstack_vprintf cf (Some out0) p1 p2 h =
     ob_bind (reserve cf (of_nat (length out0 + 1)) h) (\<lambda>h. case p1 of None \<Rightarrow> Ok (- 1, h)
       | Some out1 \<Rightarrow>
           if length out0 + 1 \<le> length out1
           then print_again cf (length out1 + 1) p2 (vsnprintf_store (next_free h) (length out0 + 1) out1 h)
           else Ok (int (length out1), vsnprintf_store (next_free h) (length out0 + 1) out1 h
                      \<lparr>next_free := next_free h + of_nat (length out1)\<rparr>))"
  unfolding obstack_vprintf_def print_again_def option.case Let_def reserve_def ..

text \<open>
  C37: formatted growth appends the text, also when the text has grown between measuring and
  printing and is then printed once more.  The conditions: every answer of \<open>vsnprintf\<close> is below
  2^31, and the text of a third call is no longer than that of the second (the code gives the third
  call room for the second answer and does not look at the third one, so a text that grows again
  would put \<open>next_free\<close> past what was printed).  Then the growing object is extended by the text of
  the last call, with a \<open>NUL\<close> after it that is not part of the object, its length is returned, and the
  buffer is not overrun.  When the formatter fails (a negative answer, modelled as -1, with nothing
  written) the object stays as it was.  Finished objects are untouched.
\<close>

theorem obstack_vprintf_appends:
  assumes inv: "ob_inv h st" and cf: "good_chunkfun cf"
    and short: "\<forall>out \<in> set_option m \<union> set_option p1 \<union> set_option p2. length out < 2 ^ 31"
    and again: "\<forall>out1 \<in> set_option p1. \<forall>out2 \<in> set_option p2. length out2 \<le> length out1"
  shows "ob_result_holds (\<lambda>(r, h'). printed r
      (if length (the p1) \<le> length (the m) then the p1 else the p2) h st h') (obstack_vprintf cf m p1 p2 h)"
proof (cases m)
  case None
  then show ?thesis using inv by (auto simp: obstack_vprintf_def keeps_def intro: print_fails)
next
  case m: (Some out0)
  have n: "length out0 + 1 < 2 ^ 64" using short m by simp
  show ?thesis
    unfolding m obstack_vprintf_eq
  proof (rule reserve_bind [OF inv cf n])
    fix h1 st1
    assume k: "keeps h st h1 st1" and room: "length out0 + 1 \<le> unat (chunk_limit h1) - unat (next_free h1)"
    have inv1: "ob_inv h1 st1" using k by (simp add: keeps_def)
    define cut where "cut out1 = vsnprintf_store (next_free h1) (length out0 + 1) out1 h1" for out1
    have "keeps h1 st1 (cut out1) st1" if "length out0 < length out1" for out1
      unfolding cut_def vsnprintf_store_def by (rule write_above_keeps [OF inv1]) (use room that in simp)
    then have cut: "keeps h st (cut out1) st1" if "length out0 < length out1" for out1
      using k that by (auto simp: keeps_def)
    show "ob_result_holds (\<lambda>(r, h'). printed r (if length (the p1) \<le> length (the (Some out0)) then the p1 else the p2) h st h')
      (case p1 of None \<Rightarrow> Ok (- 1, h1)
       | Some out1 \<Rightarrow>
           if length out0 + 1 \<le> length out1 then print_again cf (length out1 + 1) p2 (vsnprintf_store (next_free h1) (length out0 + 1) out1 h1)
           else Ok (int (length out1), vsnprintf_store (next_free h1) (length out0 + 1) out1 h1
                      \<lparr>next_free := next_free h1 + of_nat (length out1)\<rparr>))"
    proof (cases p1)
      case p1: (Some out1)
      have "length out1 + 1 < 2 ^ 64" "\<forall>out2 \<in> set_option p2. length out2 < length out1 + 1"
        using short again p1 by auto
      from print_again_prints [OF cut cf this] print_fits [OF k _ room, of out1]
      show ?thesis by (auto simp: p1 cut_def not_le)
    qed (use print_fails [OF k] in simp)
  qed
qed

theorem obstack_vprintf_appends_witness:
  "\<exists>h st. ob_inv h st \<and> ob_result_holds (\<lambda>(r, h'). printed r [65, 66] h st h')
     (obstack_vprintf bump_chunkfun (Some [65]) (Some [65, 66, 67]) (Some [65, 66]) h)"
proof -
  obtain h where h: "obstack_begin bump_chunkfun 0 0 ob_zero = Ok h" using bump_begin by blast
  from begin_client [OF bump_good zero_start h] obtain st where st: "ob_inv h st"
    by (auto simp: client_inv_def)
  from obstack_vprintf_appends [OF st bump_good, of "Some [65]" "Some [65, 66, 67]" "Some [65, 66]"] st
  show ?thesis by (intro exI [of _ h] exI [of _ st]) simp
qed

end
