(* ===== verification/Argp_Data.thy ===== *)
theory Argp_Data
  imports C_Lib
begin

text \<open>
  \<^verbatim>\<open>src/argp/argp.h\<close> and the data of \<^verbatim>\<open>src/argp/argp-parse.c\<close>: option tables, the tree of
  argps, the state handed to the parsing functions, the groups made from the tree.
  A parsing function is the client's: from a key, an argument and the state it makes an
  error code and the state after, with its own memory in the field \<open>world\<close>.
\<close>

section \<open>How a call ends\<close>

text \<open>
  It returns, exits with a status, stops at a failed assertion, or does what C leaves
  undefined: a null pointer is followed, or an array is left.
\<close>

datatype 'a outcome = Done 'a | Exits int | Asserts | Faults

fun and_then :: "'a outcome \<Rightarrow> ('a \<Rightarrow> 'b outcome) \<Rightarrow> 'b outcome" where
  "and_then (Done x) f = f x"
| "and_then (Exits n) f = Exits n"
| "and_then Asserts f = Asserts"
| "and_then Faults f = Faults"

lemma and_then_Done: "and_then r f = Done y \<longleftrightarrow> (\<exists>x. r = Done x \<and> f x = Done y)"
  by (cases r) auto

lemma and_thenE: "and_then r f = Done y \<Longrightarrow> (\<And>x. r = Done x \<Longrightarrow> f x = Done y \<Longrightarrow> thesis) \<Longrightarrow> thesis"
  by (cases r) auto

section \<open>Options\<close>

record argp_option =
  opt_name :: "string option"
  opt_key :: int
  opt_arg :: "string option"
  opt_flags :: u32
  opt_doc :: "string option"
  opt_group :: int

definition OPTION_ARG_OPTIONAL :: u32 where "OPTION_ARG_OPTIONAL = 0x1"
definition OPTION_HIDDEN :: u32 where "OPTION_HIDDEN = 0x2"
definition OPTION_ALIAS :: u32 where "OPTION_ALIAS = 0x4"
definition OPTION_DOC :: u32 where "OPTION_DOC = 0x8"
definition OPTION_NO_USAGE :: u32 where "OPTION_NO_USAGE = 0x10"

definition has_flag :: "u32 \<Rightarrow> u32 \<Rightarrow> bool" where
  "has_flag flags f \<longleftrightarrow> flags AND f \<noteq> 0"

definition option_is_short :: "argp_option \<Rightarrow> bool" where
  "option_is_short opt \<longleftrightarrow> \<not> has_flag (opt_flags opt) OPTION_DOC
     \<and> opt_key opt > 0 \<and> opt_key opt \<le> 255 \<and> 32 \<le> opt_key opt \<and> opt_key opt \<le> 126"

definition option_is_end :: "argp_option \<Rightarrow> bool" where
  "option_is_end opt \<longleftrightarrow> opt_key opt = 0 \<and> opt_name opt = None \<and> opt_doc opt = None \<and> opt_group opt = 0"

text \<open>
  A table is a pointer, null or the address of an array that an entry of zeros ends; loops
  over it see its \<open>entries\<close>.  The list may leave that last entry out.
\<close>

type_synonym option_table = "(nat \<times> argp_option list) option"

definition entries :: "argp_option list \<Rightarrow> argp_option list" where
  "entries opts = takeWhile (\<lambda>opt. \<not> option_is_end opt) opts"

section \<open>Flags and keys\<close>

definition ARGP_PARSE_ARGV0 :: u32 where "ARGP_PARSE_ARGV0 = 0x01"
definition ARGP_NO_ERRS :: u32 where "ARGP_NO_ERRS = 0x02"
definition ARGP_NO_ARGS :: u32 where "ARGP_NO_ARGS = 0x04"
definition ARGP_IN_ORDER :: u32 where "ARGP_IN_ORDER = 0x08"
definition ARGP_NO_HELP :: u32 where "ARGP_NO_HELP = 0x10"
definition ARGP_NO_EXIT :: u32 where "ARGP_NO_EXIT = 0x20"
definition ARGP_LONG_ONLY :: u32 where "ARGP_LONG_ONLY = 0x40"

definition ARGP_KEY_ARG :: int where "ARGP_KEY_ARG = 0"
definition ARGP_KEY_ARGS :: int where "ARGP_KEY_ARGS = 0x1000006"
definition ARGP_KEY_END :: int where "ARGP_KEY_END = 0x1000001"
definition ARGP_KEY_NO_ARGS :: int where "ARGP_KEY_NO_ARGS = 0x1000002"
definition ARGP_KEY_INIT :: int where "ARGP_KEY_INIT = 0x1000003"
definition ARGP_KEY_FINI :: int where "ARGP_KEY_FINI = 0x1000007"
definition ARGP_KEY_SUCCESS :: int where "ARGP_KEY_SUCCESS = 0x1000004"
definition ARGP_KEY_ERROR :: int where "ARGP_KEY_ERROR = 0x1000005"

text \<open>\<open>E2BIG\<close>, \<open>EINVAL\<close> and \<open>ENOMEM\<close>, as Linux numbers them.\<close>

definition EBADKEY :: int where "EBADKEY = 7"
definition EINVAL_code :: int where "EINVAL_code = 22"
definition ENOMEM_code :: int where "ENOMEM_code = 12"

definition ARGP_HELP_LONG_ONLY :: u32 where "ARGP_HELP_LONG_ONLY = 0x80"
definition ARGP_HELP_EXIT_ERR :: u32 where "ARGP_HELP_EXIT_ERR = 0x100"
definition ARGP_HELP_EXIT_OK :: u32 where "ARGP_HELP_EXIT_OK = 0x200"
definition ARGP_HELP_USAGE :: u32 where "ARGP_HELP_USAGE = 0x01"
definition ARGP_HELP_STD_ERR :: u32 where "ARGP_HELP_STD_ERR = 0x104"
definition ARGP_HELP_STD_USAGE :: u32 where "ARGP_HELP_STD_USAGE = 0x106"
definition ARGP_HELP_STD_HELP :: u32 where "ARGP_HELP_STD_HELP = 0x27A"

section \<open>State\<close>

text \<open>What is printed on the two streams: a message, or a help text with its flags.\<close>

datatype message = To_Err string | To_Out string | Help_Err u32 | Help_Out u32

text \<open>
  The state of the parsing functions.  \<open>child_inputs\<close> points into the block of all child
  inputs, \<open>child_store\<close>; the two streams are null or not; what is printed is logged.
\<close>

record 'w argp_state =
  argc :: int
  argv :: "string list"
  nexti :: int
  st_flags :: u32
  arg_num :: u32
  quoted :: int
  inp :: u64
  child_inputs :: "nat option"
  hook :: u64
  progname :: string
  err_stream :: bool
  out_stream :: bool
  child_store :: "u64 list"
  messages :: "message list"
  world :: 'w

type_synonym 'w argp_fun = "int \<Rightarrow> string option \<Rightarrow> 'w argp_state \<Rightarrow> (int \<times> 'w argp_state) outcome"

text \<open>An argp: its address, its table, its parsing function and its children, by pointers.\<close>

datatype 'p argp = Argp (argp_at: nat) (argp_options: option_table) (argp_parser: "'p option")
  (argp_children: "'p argp list option")

record 'w group =
  g_parser :: "'w argp_fun option"
  g_argp :: nat
  g_options :: option_table
  g_has_child :: bool
  args_processed :: u32
  parent :: "nat option"
  parent_index :: nat
  g_input :: u64
  g_child_inputs :: "nat option"
  g_hook :: u64

datatype ordering = REQUIRE_ORDER | PERMUTE | RETURN_IN_ORDER

record 'w parser =
  posixly_correct :: bool
  args_only :: bool
  print_errors :: bool
  ord :: ordering
  first_nonopt :: int
  last_nonopt :: int
  short_opts :: "string option"
  nextchar :: "string option"
  groups :: "'w group list"
  pstate :: "'w argp_state"

section \<open>Help and messages\<close>

definition strrchr_slash :: "string \<Rightarrow> string" where
  "strrchr_slash s = rev (takeWhile (\<lambda>c. c \<noteq> CHR ''/'') (rev s))"

definition argp_basename :: "string \<Rightarrow> string" where
  "argp_basename name = (if CHR ''/'' \<in> set name then strrchr_slash name else name)"

text \<open>\<open>argp_err_exit_status\<close> is a variable of the client.\<close>

definition argp_state_help :: "int \<Rightarrow> (u32 \<Rightarrow> message) \<Rightarrow> bool \<Rightarrow> u32 \<Rightarrow> 'w argp_state \<Rightarrow> 'w argp_state outcome" where
  "argp_state_help status to stream flags s =
     (if \<not> has_flag (st_flags s) ARGP_NO_ERRS \<and> stream then
        let flags = (if has_flag (st_flags s) ARGP_LONG_ONLY then flags OR ARGP_HELP_LONG_ONLY else flags);
            s = s\<lparr>messages := messages s @ [to flags]\<rparr> in
        if \<not> has_flag (st_flags s) ARGP_NO_EXIT then
          if has_flag flags ARGP_HELP_EXIT_ERR then Exits status
          else if has_flag flags ARGP_HELP_EXIT_OK then Exits 0
          else Done s
        else Done s
      else Done s)"

definition argp_usage :: "int \<Rightarrow> 'w argp_state \<Rightarrow> 'w argp_state outcome" where
  "argp_usage status s = argp_state_help status Help_Err True ARGP_HELP_STD_USAGE s"

section \<open>The default argps\<close>

definition OPT_PROGNAME :: int where "OPT_PROGNAME = -2"
definition OPT_USAGE :: int where "OPT_USAGE = -3"
definition OPT_HANG :: int where "OPT_HANG = -4"

definition argp_default_options :: "argp_option list" where
  "argp_default_options =
     [\<lparr>opt_name = Some ''help'', opt_key = 63, opt_arg = None, opt_flags = 0,
        opt_doc = Some ''Give this help list'', opt_group = -1\<rparr>,
      \<lparr>opt_name = Some ''usage'', opt_key = OPT_USAGE, opt_arg = None, opt_flags = 0,
        opt_doc = Some ''Give a short usage message'', opt_group = 0\<rparr>,
      \<lparr>opt_name = Some ''program-name'', opt_key = OPT_PROGNAME, opt_arg = Some ''NAME'',
        opt_flags = OPTION_HIDDEN, opt_doc = Some ''Set the program name'', opt_group = 0\<rparr>,
      \<lparr>opt_name = Some ''HANG'', opt_key = OPT_HANG, opt_arg = Some ''SECS'',
        opt_flags = OPTION_ARG_OPTIONAL OR OPTION_HIDDEN,
        opt_doc = Some ''Hang for SECS seconds (default 3600)'', opt_group = 0\<rparr>,
      \<lparr>opt_name = None, opt_key = 0, opt_arg = None, opt_flags = 0, opt_doc = None, opt_group = 0\<rparr>]"

text \<open>
  The parsing function of these options.  \<open>--HANG\<close> only sleeps.  The name of a
  \<open>--program-name\<close> is its argument, which the table makes mandatory.
\<close>

definition argp_default_parser :: "int \<Rightarrow> 'w argp_fun" where
  "argp_default_parser status key arg s =
     (if key = 63 then
        and_then (argp_state_help status Help_Out (out_stream s) ARGP_HELP_STD_HELP s) (\<lambda>s. Done (0, s))
      else if key = OPT_USAGE then
        and_then (argp_state_help status Help_Out (out_stream s) (ARGP_HELP_USAGE OR ARGP_HELP_EXIT_OK) s)
          (\<lambda>s. Done (0, s))
      else if key = OPT_PROGNAME then
        (case arg of None \<Rightarrow> Faults
         | Some a \<Rightarrow>
            let s = s\<lparr>progname := argp_basename a\<rparr> in
            if st_flags s AND (ARGP_PARSE_ARGV0 OR ARGP_NO_ERRS) = ARGP_PARSE_ARGV0
            then if argv s = [] then Faults else Done (0, s\<lparr>argv := (argv s)[0 := a]\<rparr>)
            else Done (0, s))
      else if key = OPT_HANG then Done (0, s)
      else Done (EBADKEY, s))"

definition argp_version_options :: "argp_option list" where
  "argp_version_options =
     [\<lparr>opt_name = Some ''version'', opt_key = 86, opt_arg = None, opt_flags = 0,
        opt_doc = Some ''Print program version'', opt_group = -1\<rparr>,
      \<lparr>opt_name = None, opt_key = 0, opt_arg = None, opt_flags = 0, opt_doc = None, opt_group = 0\<rparr>]"

text \<open>The version is printed by the client's hook, or is its string.\<close>

definition argp_version_parser ::
  "('w argp_state \<Rightarrow> 'w argp_state outcome) option \<Rightarrow> string option \<Rightarrow> int \<Rightarrow> 'w argp_fun" where
  "argp_version_parser version_hook version status key arg s =
     (if key = 86 then
        and_then
          (case version_hook of
             Some f \<Rightarrow> f s
           | None \<Rightarrow>
              (case version of
                 Some v \<Rightarrow> (if out_stream s then Done (s\<lparr>messages := messages s @ [To_Out (v @ [CHR 0x0A])]\<rparr>) else Faults)
               | None \<Rightarrow>
                   if \<not> has_flag (st_flags s) ARGP_NO_ERRS \<and> err_stream s then
                     argp_state_help status Help_Err (err_stream s) ARGP_HELP_STD_ERR
                       (s\<lparr>messages := messages s @ [To_Err (progname s @ '': (PROGRAM ERROR) No version known!?'' @ [CHR 0x0A])]\<rparr>)
                   else Done s))
          (\<lambda>s. if \<not> has_flag (st_flags s) ARGP_NO_EXIT then Exits 0 else Done (0, s))
      else Done (EBADKEY, s))"

end
