(* ===== verification/Argp_Parse.thy ===== *)
theory Argp_Parse
  imports Argp_Data
begin

text \<open>
  The functions of \<^verbatim>\<open>src/argp/argp-parse.c\<close>, in its order; the long
  \<^verbatim>\<open>parser_parse_next\<close> is cut into its branches.
\<close>

section \<open>Calling a group's parser\<close>

definition group_parse :: "nat \<Rightarrow> int \<Rightarrow> string option \<Rightarrow> 'w parser \<Rightarrow> (int \<times> 'w parser) outcome" where
  "group_parse g key arg p =
     (let gr = groups p ! g in
      case g_parser gr of
        Some f \<Rightarrow>
          and_then (f key arg ((pstate p)\<lparr>hook := g_hook gr, inp := g_input gr,
                                 child_inputs := g_child_inputs gr, arg_num := args_processed gr\<rparr>))
            (\<lambda>(err, s). Done (err, p\<lparr>pstate := s, groups := (groups p)[g := gr\<lparr>g_hook := hook s\<rparr>]\<rparr>))
      | None \<Rightarrow> Done (EBADKEY, p))"

section \<open>Finding an option\<close>

text \<open>A character as the \<open>int\<close> a signed \<open>char\<close> becomes.\<close>

definition schar :: "char \<Rightarrow> int" where
  "schar c = (let n = of_char c in if n < 128 then n else n - 256)"

fun find_short_in :: "int \<Rightarrow> nat \<Rightarrow> 'w group list \<Rightarrow> (nat \<times> argp_option) option outcome" where
  "find_short_in key g [] = Done None"
| "find_short_in key g (gr # grs) =
     (case g_options gr of
        None \<Rightarrow> Faults
      | Some (_, opts) \<Rightarrow>
          (case find (\<lambda>opt. opt_key opt = key) (entries opts) of
             Some opt \<Rightarrow> Done (Some (g, opt))
           | None \<Rightarrow> find_short_in key (Suc g) grs))"

definition find_short_option :: "'w parser \<Rightarrow> int \<Rightarrow> (nat \<times> argp_option) option outcome" where
  "find_short_option p key =
     (if \<not> (key \<ge> 0) then Asserts else if \<not> (key < 128) then Asserts else find_short_in key 0 (groups p))"

datatype match_result = MATCH_EXACT | MATCH_PARTIAL | MATCH_NO

fun match_option :: "string \<Rightarrow> string \<Rightarrow> match_result" where
  "match_option [] name = (if name \<noteq> [] then MATCH_PARTIAL else MATCH_EXACT)"
| "match_option (c # cs) name =
     (if c = CHR ''='' then (if name \<noteq> [] then MATCH_PARTIAL else MATCH_EXACT)
      else case name of [] \<Rightarrow> MATCH_NO | n # ns \<Rightarrow> if c \<noteq> n then MATCH_NO else match_option cs ns)"

definition is_alias :: "argp_option \<Rightarrow> bool" where
  "is_alias opt \<longleftrightarrow> has_flag (opt_flags opt) OPTION_ALIAS"

fun base_before :: "argp_option list \<Rightarrow> nat \<Rightarrow> nat \<Rightarrow> nat" where
  "base_before opts i 0 = i"
| "base_before opts i (Suc j) =
     (if option_is_end (opts ! j) then base_before opts i j
      else if \<not> is_alias (opts ! j) then j
      else base_before opts i j)"

text \<open>Pointers into one table are its indices.\<close>

definition option_base :: "argp_option list \<Rightarrow> nat \<Rightarrow> nat" where
  "option_base opts i = (if \<not> is_alias (opts ! i) then i else base_before opts i i)"

text \<open>The partial match so far: the group, the option, its base's address, and the count.\<close>

record long_match =
  matched :: "(nat \<times> argp_option) option"
  matched_base :: "nat \<times> nat"
  num_partial :: nat

fun scan_options ::
  "string \<Rightarrow> nat \<Rightarrow> nat \<Rightarrow> argp_option list \<Rightarrow> nat list \<Rightarrow> long_match \<Rightarrow> (nat \<times> argp_option) + long_match" where
  "scan_options arg g at opts [] m = Inr m"
| "scan_options arg g at opts (i # is) m =
     (case opt_name (opts ! i) of
        None \<Rightarrow> scan_options arg g at opts is m
      | Some name \<Rightarrow>
         (case match_option arg name of
            MATCH_NO \<Rightarrow> scan_options arg g at opts is m
          | MATCH_PARTIAL \<Rightarrow>
              (if matched m = None then
                 scan_options arg g at opts is
                   \<lparr>matched = Some (g, opts ! i), matched_base = (at, option_base opts i), num_partial = 1\<rparr>
               else if (at, option_base opts i) \<noteq> matched_base m then
                 scan_options arg g at opts is (m\<lparr>num_partial := num_partial m + 1\<rparr>)
               else scan_options arg g at opts is m)
          | MATCH_EXACT \<Rightarrow> Inl (g, opts ! i)))"

fun scan_groups ::
  "string \<Rightarrow> nat \<Rightarrow> 'w group list \<Rightarrow> long_match \<Rightarrow> ((nat \<times> argp_option) + long_match) outcome" where
  "scan_groups arg g [] m = Done (Inr m)"
| "scan_groups arg g (gr # grs) m =
     (case g_options gr of
        None \<Rightarrow> Faults
      | Some (at, opts) \<Rightarrow>
          (case scan_options arg g at opts [0 ..< length (entries opts)] m of
             Inl found \<Rightarrow> Done (Inl found)
           | Inr m \<Rightarrow> scan_groups arg (Suc g) grs m))"

text \<open>The option found with its group, and whether the name was ambiguous.\<close>

definition find_long_option :: "'w parser \<Rightarrow> string \<Rightarrow> ((nat \<times> argp_option) option \<times> bool) outcome" where
  "find_long_option p arg =
     and_then (scan_groups arg 0 (groups p) \<lparr>matched = None, matched_base = (0, 0), num_partial = 0\<rparr>)
       (\<lambda>r. case r of
          Inl found \<Rightarrow> Done (Some found, False)
        | Inr m \<Rightarrow> if num_partial m = 1 then Done (matched m, False) else Done (None, num_partial m > 1))"

section \<open>From the tree to the groups\<close>

text \<open>The tables being filled: the groups, the next child input, the short options and the
  bytes the caller allocated for them.\<close>

record 'w convert_state =
  cvt_groups :: "'w group list"
  cvt_child_end :: nat
  cvt_short :: "string option"
  cvt_short_room :: nat

fun record_short :: "argp_option list \<Rightarrow> 'w convert_state \<Rightarrow> 'w convert_state outcome" where
  "record_short [] c = Done c"
| "record_short (opt # opts) c =
     (if option_is_short opt then
        (case cvt_short c of
           None \<Rightarrow> Faults
         | Some s \<Rightarrow>
             if length s < cvt_short_room c then record_short opts (c\<lparr>cvt_short := Some (s @ [char_of (nat (opt_key opt))])\<rparr>)
             else Faults)
      else record_short opts c)"

definition record_options :: "option_table \<Rightarrow> 'w convert_state \<Rightarrow> 'w convert_state outcome" where
  "record_options tab c =
     (if cvt_short c = None then Done c
      else case tab of None \<Rightarrow> Faults | Some (_, opts) \<Rightarrow> record_short (entries opts) c)"

fun convert_options :: "'w argp_fun argp \<Rightarrow> nat option \<Rightarrow> nat \<Rightarrow> 'w convert_state \<Rightarrow> 'w convert_state outcome"
  and convert_children :: "'w argp_fun argp list \<Rightarrow> nat option \<Rightarrow> nat \<Rightarrow> 'w convert_state \<Rightarrow> 'w convert_state outcome" where
  "convert_options (Argp a opts prs chs) par index c =
     (if opts \<noteq> None \<or> prs \<noteq> None then
        and_then (record_options opts c) (\<lambda>c.
          let gr = \<lparr>g_parser = prs, g_argp = a, g_options = opts,
                g_has_child = (case chs of None \<Rightarrow> False | Some cs \<Rightarrow> cs \<noteq> []), args_processed = 0,
                parent = par, parent_index = index, g_input = 0,
                g_child_inputs = (case chs of None \<Rightarrow> None | Some _ \<Rightarrow> Some (cvt_child_end c)), g_hook = 0\<rparr>;
              c' = c\<lparr>cvt_groups := cvt_groups c @ [gr],
                cvt_child_end := cvt_child_end c + (case chs of None \<Rightarrow> 0 | Some cs \<Rightarrow> length cs)\<rparr> in
          case chs of None \<Rightarrow> Done c' | Some cs \<Rightarrow> convert_children cs (Some (length (cvt_groups c))) 0 c')
      else
        case chs of None \<Rightarrow> Done c | Some cs \<Rightarrow> convert_children cs None 0 c)"
| "convert_children [] par index c = Done c"
| "convert_children (a # as) par index c =
     and_then (convert_options a par index c) (\<lambda>c. convert_children as par (Suc index) c)"

record parser_sizes =
  short_len :: nat
  num_groups :: nat
  num_child_inputs :: nat

text \<open>The length of the short options at the head of a table.\<close>

fun leading_short :: "argp_option list \<Rightarrow> nat" where
  "leading_short [] = 0"
| "leading_short (opt # opts) = (if option_is_short opt then Suc (leading_short opts) else 0)"

fun calc_sizes :: "'p argp \<Rightarrow> parser_sizes \<Rightarrow> parser_sizes"
  and calc_children :: "'p argp list \<Rightarrow> parser_sizes \<Rightarrow> parser_sizes" where
  "calc_sizes (Argp a opts prs chs) szs =
     (let szs = (if opts \<noteq> None \<or> prs \<noteq> None then
                   szs\<lparr>num_groups := num_groups szs + 1,
                     short_len := short_len szs + (case opts of None \<Rightarrow> 0 | Some (_, os) \<Rightarrow> leading_short os)\<rparr>
                 else szs) in
      case chs of None \<Rightarrow> szs | Some cs \<Rightarrow> calc_children cs szs)"
| "calc_children [] szs = szs"
| "calc_children (a # as) szs =
     (let szs = calc_sizes a szs in calc_children as (szs\<lparr>num_child_inputs := num_child_inputs szs + 1\<rparr>))"

definition parser_convert ::
  "'w argp_fun argp option \<Rightarrow> string option \<Rightarrow> nat \<Rightarrow> ('w group list \<times> string option) outcome" where
  "parser_convert argp short room =
     (let c = \<lparr>cvt_groups = [], cvt_child_end = 0, cvt_short = short, cvt_short_room = room\<rparr> in
      and_then (case argp of Some a \<Rightarrow> convert_options a None 0 c | None \<Rightarrow> Done c)
        (\<lambda>c. case cvt_short c of
           None \<Rightarrow> Done (cvt_groups c, None)
         | Some s \<Rightarrow> if length s < room then Done (cvt_groups c, Some s) else Faults))"

section \<open>Start\<close>

definition choose_ordering :: "u32 \<Rightarrow> bool \<Rightarrow> ordering" where
  "choose_ordering flags posix =
     (if has_flag flags ARGP_IN_ORDER then RETURN_IN_ORDER
      else if has_flag flags ARGP_NO_ARGS then REQUIRE_ORDER
      else if posix then REQUIRE_ORDER
      else PERMUTE)"

definition goes_on :: "int \<Rightarrow> bool" where
  "goes_on err \<longleftrightarrow> err = 0 \<or> err = EBADKEY"

definition set_input :: "nat \<Rightarrow> u64 \<Rightarrow> 'w parser \<Rightarrow> 'w parser" where
  "set_input g v p = p\<lparr>groups := (groups p)[g := (groups p ! g)\<lparr>g_input := v\<rparr>]\<rparr>"

text \<open>The value a child takes over, and the one a group without a parser hands on.\<close>

definition inherit_input :: "nat \<Rightarrow> 'w parser \<Rightarrow> 'w parser outcome" where
  "inherit_input g p =
     (case parent (groups p ! g) of
        None \<Rightarrow> Done p
      | Some up \<Rightarrow>
          (case g_child_inputs (groups p ! up) of
             None \<Rightarrow> Faults
           | Some at \<Rightarrow>
               let i = at + parent_index (groups p ! g) in
               if i < length (child_store (pstate p)) then Done (set_input g (child_store (pstate p) ! i) p)
               else Faults))"

definition pass_input :: "nat \<Rightarrow> 'w parser \<Rightarrow> 'w parser outcome" where
  "pass_input g p =
     (if g_parser (groups p ! g) = None \<and> g_has_child (groups p ! g) then
        (case g_child_inputs (groups p ! g) of
           None \<Rightarrow> Faults
         | Some at \<Rightarrow>
             if at < length (child_store (pstate p)) then
               Done (p\<lparr>pstate := (pstate p)\<lparr>child_store := (child_store (pstate p))[at := g_input (groups p ! g)]\<rparr>\<rparr>)
             else Faults)
      else Done p)"

fun init_groups :: "nat list \<Rightarrow> int \<Rightarrow> 'w parser \<Rightarrow> (int \<times> 'w parser) outcome" where
  "init_groups [] err p = Done (err, p)"
| "init_groups (g # gs) err p =
     (if goes_on err then
        and_then (inherit_input g p) (\<lambda>p.
        and_then (pass_input g p) (\<lambda>p.
        and_then (group_parse g ARGP_KEY_INIT None p) (\<lambda>(err, p).
          init_groups gs err p)))
      else Done (err, p))"

text \<open>
  The vector in the state is the caller's: parsers change it in place.
  What the process gives: whether \<open>POSIXLY_CORRECT\<close> is set, whether \<open>malloc\<close> delivers, the
  program's short name, the two streams.
\<close>

record argp_env =
  env_posix :: bool
  env_memory :: bool
  env_name :: string
  env_exit_status :: int

definition init_sizes :: "u32 \<Rightarrow> 'p argp option \<Rightarrow> parser_sizes" where
  "init_sizes flags argp =
     (let szs0 = \<lparr>short_len = 0, num_groups = 0, num_child_inputs = 0\<rparr>;
          szs = (case argp of Some a \<Rightarrow> calc_sizes a szs0 | None \<Rightarrow> szs0) in
      if \<not> has_flag flags ARGP_LONG_ONLY then szs\<lparr>short_len := 0\<rparr> else szs)"

text \<open>The parser before the first calls.\<close>

definition init_parser ::
  "argp_env \<Rightarrow> string list \<Rightarrow> u32 \<Rightarrow> u64 \<Rightarrow> 'w \<Rightarrow> nat \<Rightarrow> 'w group list \<Rightarrow> string option \<Rightarrow> 'w parser" where
  "init_parser env args flags input w inputs grs short =
     (let st = \<lparr>argc = int (length args), argv = args, nexti = 0, st_flags = flags, arg_num = 0,
            quoted = 0, inp = 0, child_inputs = None, hook = 0, progname = [], err_stream = True,
            out_stream = True, child_store = replicate inputs 0, messages = [], world = w\<rparr>;
          p = \<lparr>posixly_correct = env_posix env, args_only = False,
            print_errors = \<not> has_flag flags ARGP_NO_ERRS, ord = choose_ordering flags (env_posix env),
            first_nonopt = 0, last_nonopt = 0, short_opts = short, nextchar = None, groups = grs, pstate = st\<rparr> in
      if grs \<noteq> [] then set_input 0 input p else p)"

definition init_name :: "argp_env \<Rightarrow> 'w parser \<Rightarrow> 'w parser" where
  "init_name env p =
     (case argv (pstate p) of
        a0 # _ \<Rightarrow>
          if \<not> has_flag (st_flags (pstate p)) ARGP_PARSE_ARGV0
          then p\<lparr>pstate := (pstate p)\<lparr>progname := argp_basename a0, nexti := 1\<rparr>\<rparr>
          else p\<lparr>pstate := (pstate p)\<lparr>progname := env_name env\<rparr>\<rparr>
      | [] \<Rightarrow> p\<lparr>pstate := (pstate p)\<lparr>progname := env_name env\<rparr>\<rparr>)"

text \<open>Without a parser in the result the loop and the end are not reached.\<close>

definition parser_init ::
  "argp_env \<Rightarrow> 'w argp_fun argp option \<Rightarrow> string list \<Rightarrow> u32 \<Rightarrow> u64 \<Rightarrow> 'w \<Rightarrow> (int \<times> 'w parser option) outcome" where
  "parser_init env argp args flags input w =
     (let szs = init_sizes flags argp in
      if \<not> env_memory env then Done (ENOMEM_code, None)
      else
        and_then (parser_convert argp (if has_flag flags ARGP_LONG_ONLY then Some [] else None) (short_len szs + 1))
        (\<lambda>(grs, short).
          and_then (init_groups [0 ..< length grs] 0
              (init_parser env args flags input w (num_child_inputs szs) grs short)) (\<lambda>(err, p).
            let err = (if err = EBADKEY then 0 else err) in
            if err \<noteq> 0 then Done (err, None) else Done (0, Some (init_name env p)))))"

section \<open>Non-options\<close>

text \<open>Swapping two stretches of the vector, element by element.\<close>

definition swap_at :: "nat \<Rightarrow> nat \<Rightarrow> 'a list \<Rightarrow> 'a list" where
  "swap_at i j xs = xs[i := xs ! j, j := xs ! i]"

fun swap_loop :: "nat \<Rightarrow> nat \<Rightarrow> nat \<Rightarrow> nat \<Rightarrow> 'a list \<Rightarrow> 'a list" where
  "swap_loop i 0 a b xs = xs"
| "swap_loop i (Suc n) a b xs = swap_loop (Suc i) n a b (swap_at (a + i) (b + i) xs)"

function exchange_loop :: "nat \<Rightarrow> nat \<Rightarrow> nat \<Rightarrow> 'a list \<Rightarrow> 'a list" where
  "exchange_loop bottom middle upper xs =
     (if upper > middle \<and> middle > bottom then
        if upper - middle > middle - bottom then
          let len = middle - bottom in
          exchange_loop bottom middle (upper - len) (swap_loop 0 len bottom (upper - (middle - bottom)) xs)
        else
          let len = upper - middle in
          exchange_loop (bottom + len) middle upper (swap_loop 0 len bottom middle xs)
      else xs)"
  by pat_completeness auto
termination by (relation "measure (\<lambda>(bottom, middle, upper, xs). upper - bottom)") auto

text \<open>Indices outside the vector are faults, when a swap uses them.\<close>

definition exchange :: "'w parser \<Rightarrow> 'w parser outcome" where
  "exchange p =
     (let s = pstate p; bottom = first_nonopt p; middle = last_nonopt p; upper = nexti s;
          fixed = p\<lparr>first_nonopt := first_nonopt p + (nexti s - last_nonopt p), last_nonopt := nexti s\<rparr> in
      if upper > middle \<and> middle > bottom then
        if 0 \<le> bottom \<and> upper \<le> int (length (argv s)) then
          Done (fixed\<lparr>pstate := s\<lparr>argv := exchange_loop (nat bottom) (nat middle) (nat upper) (argv s)\<rparr>\<rparr>)
        else Faults
      else Done fixed)"

text \<open>Offering an argument to each group: the key last used, the error, the group it came from.\<close>

definition move_next :: "int \<Rightarrow> 'w parser \<Rightarrow> 'w parser" where
  "move_next d p = p\<lparr>pstate := (pstate p)\<lparr>nexti := nexti (pstate p) + d\<rparr>\<rparr>"

fun offer_arg :: "nat list \<Rightarrow> string \<Rightarrow> int \<Rightarrow> int \<Rightarrow> nat \<Rightarrow> 'w parser \<Rightarrow> (int \<times> int \<times> nat \<times> 'w parser) outcome" where
  "offer_arg [] val key err lastg p = Done (key, err, lastg, p)"
| "offer_arg (g # gs) val key err lastg p =
     (if err = EBADKEY then
        and_then (group_parse g ARGP_KEY_ARG (Some val) (move_next 1 p)) (\<lambda>(err, p).
          if err = EBADKEY then
            and_then (group_parse g ARGP_KEY_ARGS None (move_next (- 1) p)) (\<lambda>(err, p).
              offer_arg gs val ARGP_KEY_ARGS err g p)
          else offer_arg gs val ARGP_KEY_ARG err g p)
      else Done (key, err, lastg, p))"

definition parser_parse_arg :: "string \<Rightarrow> 'w parser \<Rightarrow> (int \<times> 'w parser) outcome" where
  "parser_parse_arg val p =
     (let index = nexti (pstate p) in
      and_then (offer_arg [0 ..< length (groups p)] val 0 EBADKEY 0 p) (\<lambda>(key, err, g, p).
        if err = 0 then
          let p = (if key = ARGP_KEY_ARGS then p\<lparr>pstate := (pstate p)\<lparr>nexti := argc (pstate p)\<rparr>\<rparr> else p) in
          if nexti (pstate p) > index then
            let gr = groups p ! g in
            Done (err, p\<lparr>groups := (groups p)[g := gr\<lparr>args_processed :=
                args_processed gr + word_of_int (nexti (pstate p) - index)\<rparr>]\<rparr>)
          else Done (err, p\<lparr>args_only := False\<rparr>)
        else Done (err, p)))"

section \<open>The next argument\<close>

datatype arg_type = ARG_ARG | ARG_SHORT_OPTION | ARG_LONG_OPTION | ARG_LONG_ONLY_OPTION | ARG_QUOTE

text \<open>What an element looks like, and where its option starts.\<close>

definition classify_arg :: "'w parser \<Rightarrow> string \<Rightarrow> (arg_type \<times> string) outcome" where
  "classify_arg p arg =
     (case arg of
        [] \<Rightarrow> Done (ARG_ARG, [])
      | c # rest \<Rightarrow>
          if c \<noteq> CHR ''-'' then Done (ARG_ARG, [])
          else case rest of
            [] \<Rightarrow> Done (ARG_ARG, [])
          | d # rest2 \<Rightarrow>
              if d = CHR ''-'' then
                if rest2 = [] then Done (ARG_QUOTE, []) else Done (ARG_LONG_OPTION, rest2)
              else if has_flag (st_flags (pstate p)) ARGP_LONG_ONLY then
                (case short_opts p of
                   None \<Rightarrow> Asserts
                 | Some shorts \<Rightarrow>
                     if rest2 \<noteq> [] \<or> d \<notin> set shorts then Done (ARG_LONG_ONLY_OPTION, rest)
                     else Done (ARG_SHORT_OPTION, rest))
              else Done (ARG_SHORT_OPTION, rest))"

definition report :: "string \<Rightarrow> 'w parser \<Rightarrow> 'w parser" where
  "report msg p =
     (if print_errors p \<and> err_stream (pstate p)
      then p\<lparr>pstate := (pstate p)\<lparr>messages := messages (pstate p) @ [To_Err (progname (pstate p) @ '': '' @ msg @ [CHR 0x0A])]\<rparr>\<rparr>
      else p)"

definition argv_at :: "int \<Rightarrow> 'w parser \<Rightarrow> string outcome" where
  "argv_at i p =
     (if 0 \<le> i \<and> i < int (length (argv (pstate p))) then Done (argv (pstate p) ! nat i) else Faults)"

text \<open>The error, whether an unknown key is only an unparsed argument, and the parser after.\<close>

type_synonym 'w next_result = "(int \<times> bool \<times> 'w parser) outcome"

definition with_ebadkey :: "bool \<Rightarrow> (int \<times> 'w parser) outcome \<Rightarrow> 'w next_result" where
  "with_ebadkey eb r = and_then r (\<lambda>(err, p). Done (err, eb, p))"

definition resume_next :: "'w parser \<Rightarrow> 'w parser" where
  "resume_next p =
     (let p = (if quoted (pstate p) \<noteq> 0 \<and> nexti (pstate p) < quoted (pstate p)
               then p\<lparr>pstate := (pstate p)\<lparr>quoted := 0\<rparr>, args_only := False\<rparr> else p);
          p = (if last_nonopt p > nexti (pstate p) then p\<lparr>last_nonopt := nexti (pstate p)\<rparr> else p) in
      if first_nonopt p > nexti (pstate p) then p\<lparr>first_nonopt := nexti (pstate p)\<rparr> else p)"

definition lacks_argument :: "argp_option \<Rightarrow> string option \<Rightarrow> bool" where
  "lacks_argument opt value \<longleftrightarrow>
     opt_arg opt \<noteq> None \<and> value = None \<and> \<not> has_flag (opt_flags opt) OPTION_ARG_OPTIONAL"

definition short_found :: "char \<Rightarrow> nat \<Rightarrow> argp_option \<Rightarrow> bool \<Rightarrow> 'w parser \<Rightarrow> 'w next_result" where
  "short_found c g opt eb p =
     (if opt_arg opt \<noteq> None then
        let value = nextchar p; p = p\<lparr>nextchar := None\<rparr> in
        if lacks_argument opt value then
          if nexti (pstate p) = argc (pstate p) then
            Done (EBADKEY, False, report (''option requires an argument -- '' @ [CHR 0x27, c, CHR 0x27]) p)
          else
            and_then (argv_at (nexti (pstate p)) p) (\<lambda>value.
              with_ebadkey eb (group_parse g (opt_key opt) (Some value) (move_next 1 p)))
        else with_ebadkey eb (group_parse g (opt_key opt) value p)
      else with_ebadkey eb (group_parse g (opt_key opt) None p))"

definition parse_short :: "string \<Rightarrow> bool \<Rightarrow> 'w parser \<Rightarrow> 'w next_result" where
  "parse_short chars eb p =
     (if args_only p then Asserts
      else case chars of
        [] \<Rightarrow> Faults
      | c # rest \<Rightarrow>
          let p = p\<lparr>nextchar := Some rest\<rparr> in
          and_then (find_short_option p (schar c)) (\<lambda>found.
            case found of
              None \<Rightarrow>
                Done (EBADKEY, False, report
                  ((if posixly_correct p then ''illegal option -- '' else ''invalid option -- '') @ [CHR 0x27, c, CHR 0x27]) p)
            | Some (g, opt) \<Rightarrow> short_found c g opt eb (if rest = [] then p\<lparr>nextchar := None\<rparr> else p)))"

definition quote_name :: "string \<Rightarrow> string" where
  "quote_name s = [CHR 0x27] @ s @ [CHR 0x27]"

definition option_shown :: "arg_type \<Rightarrow> string \<Rightarrow> argp_option \<Rightarrow> string" where
  "option_shown token arg opt =
     quote_name ((if token = ARG_LONG_OPTION then ''--'' else take 1 arg) @ (case opt_name opt of None \<Rightarrow> [] | Some n \<Rightarrow> n))"

definition value_of :: "string \<Rightarrow> string option" where
  "value_of opt = (case dropWhile (\<lambda>c. c \<noteq> CHR ''='') opt of [] \<Rightarrow> None | _ # v \<Rightarrow> Some v)"

definition long_found :: "arg_type \<Rightarrow> string \<Rightarrow> string option \<Rightarrow> nat \<Rightarrow> argp_option \<Rightarrow> 'w parser \<Rightarrow> 'w next_result" where
  "long_found token arg value g opt p =
     (if value \<noteq> None \<and> opt_arg opt = None then
        Done (EBADKEY, False, report
          (''option '' @ option_shown token arg opt @ '' doesn'' @ [CHR 0x27] @ ''t allow an argument'') p)
      else if lacks_argument opt value then
        if nexti (pstate p) = argc (pstate p) then
          Done (EBADKEY, False, report (''option '' @ option_shown token arg opt @ '' requires an argument'') p)
        else
          and_then (argv_at (nexti (pstate p)) p) (\<lambda>value.
            with_ebadkey False (group_parse g (opt_key opt) (Some value) (move_next 1 p)))
      else with_ebadkey False (group_parse g (opt_key opt) value p))"

definition parse_long :: "arg_type \<Rightarrow> string \<Rightarrow> string \<Rightarrow> 'w parser \<Rightarrow> 'w next_result" where
  "parse_long token arg optstart p =
     (let p = move_next 1 p in
      and_then (find_long_option p optstart) (\<lambda>(found, ambiguous).
        case found of
          None \<Rightarrow>
            Done (EBADKEY, False, report
              (if ambiguous then ''option '' @ quote_name arg @ '' is ambiguous''
               else ''unrecognized option '' @ quote_name arg) p)
        | Some (g, opt) \<Rightarrow> long_found token arg (value_of optstart) g opt p))"

definition parse_nonoption :: "string \<Rightarrow> bool \<Rightarrow> 'w parser \<Rightarrow> 'w next_result" where
  "parse_nonoption arg eb p =
     (case ord p of
        PERMUTE \<Rightarrow>
          and_then
            (if first_nonopt p = last_nonopt p
             then Done (p\<lparr>first_nonopt := nexti (pstate p), last_nonopt := nexti (pstate p)\<rparr>)
             else if last_nonopt p \<noteq> nexti (pstate p) then exchange p
             else Done p)
            (\<lambda>p. if last_nonopt p = nexti (pstate p)
                 then Done (0, eb, (move_next 1 p)\<lparr>last_nonopt := nexti (pstate p) + 1\<rparr>)
                 else Asserts)
      | REQUIRE_ORDER \<Rightarrow> Done (0, eb, p\<lparr>args_only := True\<rparr>)
      | RETURN_IN_ORDER \<Rightarrow> with_ebadkey True (parser_parse_arg arg p))"

definition parse_quote :: "bool \<Rightarrow> 'w parser \<Rightarrow> 'w next_result" where
  "parse_quote eb p =
     (let p = move_next 1 p in
      if last_nonopt p = nexti (pstate p) then Asserts
      else if first_nonopt p \<noteq> last_nonopt p then
        and_then (exchange p) (\<lambda>p.
          Done (0, eb, p\<lparr>pstate := (pstate p)\<lparr>quoted := first_nonopt p, nexti := first_nonopt p\<rparr>,
            first_nonopt := 0, last_nonopt := 0, args_only := True\<rparr>))
      else Done (0, eb, p\<lparr>pstate := (pstate p)\<lparr>quoted := nexti (pstate p)\<rparr>, args_only := True\<rparr>))"

text \<open>At the end of the vector the arguments that were skipped come back.\<close>

definition parse_skipped :: "'w parser \<Rightarrow> 'w next_result" where
  "parse_skipped p =
     (if first_nonopt p \<noteq> last_nonopt p then
        and_then (exchange p) (\<lambda>p.
          Done (0, True, p\<lparr>pstate := (pstate p)\<lparr>nexti := first_nonopt p\<rparr>,
            first_nonopt := 0, last_nonopt := 0, args_only := True\<rparr>))
      else Done (EBADKEY, True, p))"

definition parser_parse_next :: "bool \<Rightarrow> 'w parser \<Rightarrow> 'w next_result" where
  "parser_parse_next eb p =
     (let p = resume_next p in
      case nextchar p of
        Some chars \<Rightarrow> parse_short chars eb p
      | None \<Rightarrow>
          if args_only p then
            if nexti (pstate p) \<ge> argc (pstate p) then Done (EBADKEY, True, p)
            else and_then (argv_at (nexti (pstate p)) p) (\<lambda>arg. with_ebadkey True (parser_parse_arg arg p))
          else if nexti (pstate p) \<ge> argc (pstate p) then parse_skipped p
          else
            and_then (argv_at (nexti (pstate p)) p) (\<lambda>arg.
            and_then (classify_arg p arg) (\<lambda>(token, optstart).
              case token of
                ARG_ARG \<Rightarrow> parse_nonoption arg eb p
              | ARG_QUOTE \<Rightarrow> parse_quote eb p
              | ARG_SHORT_OPTION \<Rightarrow> Done (0, eb, (move_next 1 p)\<lparr>nextchar := Some optstart\<rparr>)
              | _ \<Rightarrow> parse_long token arg optstart p)))"

section \<open>The end\<close>

text \<open>Calling the parsers in an order while they do not fail, and calling all of them.\<close>

fun call_while :: "nat list \<Rightarrow> ('w group \<Rightarrow> bool) \<Rightarrow> int \<Rightarrow> int \<Rightarrow> 'w parser \<Rightarrow> (int \<times> 'w parser) outcome" where
  "call_while [] P key err p = Done (err, p)"
| "call_while (g # gs) P key err p =
     (if goes_on err then
        if P (groups p ! g) then
          and_then (group_parse g key None p) (\<lambda>(err, p). call_while gs P key err p)
        else call_while gs P key err p
      else Done (err, p))"

fun call_all :: "nat list \<Rightarrow> int \<Rightarrow> 'w parser \<Rightarrow> 'w parser outcome" where
  "call_all [] key p = Done p"
| "call_all (g # gs) key p = and_then (group_parse g key None p) (\<lambda>(_, p). call_all gs key p)"

definition up_groups :: "'w parser \<Rightarrow> nat list" where "up_groups p = [0 ..< length (groups p)]"
definition down_groups :: "'w parser \<Rightarrow> nat list" where "down_groups p = rev [0 ..< length (groups p)]"

definition all_parsed :: "bool \<Rightarrow> 'w parser \<Rightarrow> (int \<times> int option \<times> 'w parser) outcome" where
  "all_parsed end_index p =
     (if nexti (pstate p) = argc (pstate p) then
        and_then (call_while (up_groups p) (\<lambda>gr. args_processed gr = 0) ARGP_KEY_NO_ARGS 0 p) (\<lambda>(err, p).
        and_then (call_while (down_groups p) (\<lambda>_. True) ARGP_KEY_END err p) (\<lambda>(err, p).
          Done (if err = EBADKEY then 0 else err, if end_index then Some (nexti (pstate p)) else None, p)))
      else if end_index then Done (0, Some (nexti (pstate p)), p)
      else
        let p = (if \<not> has_flag (st_flags (pstate p)) ARGP_NO_ERRS \<and> err_stream (pstate p)
                 then p\<lparr>pstate := (pstate p)\<lparr>messages := messages (pstate p) @
                     [To_Err (progname (pstate p) @ '': Too many arguments'' @ [CHR 0x0A])]\<rparr>\<rparr>
                 else p) in
        Done (EBADKEY, None, p))"

text \<open>Telling the parsers of the error, after a message, or of the success.\<close>

definition notify :: "int \<Rightarrow> int \<Rightarrow> 'w parser \<Rightarrow> (int \<times> 'w parser) outcome" where
  "notify status err p =
     (if err \<noteq> 0 then
        and_then
          (if err = EBADKEY
           then and_then (argp_state_help status Help_Err (err_stream (pstate p)) ARGP_HELP_STD_ERR (pstate p))
                  (\<lambda>s. Done (p\<lparr>pstate := s\<rparr>))
           else Done p)
          (\<lambda>p. and_then (call_all (up_groups p) ARGP_KEY_ERROR p) (\<lambda>p. Done (err, p)))
      else
        and_then (call_while (down_groups p) (\<lambda>_. True) ARGP_KEY_SUCCESS 0 p) (\<lambda>(err, p).
          Done (if err = EBADKEY then 0 else err, p)))"

definition parser_finalize ::
  "int \<Rightarrow> 'w parser \<Rightarrow> int \<Rightarrow> bool \<Rightarrow> bool \<Rightarrow> (int \<times> int option \<times> 'w parser) outcome" where
  "parser_finalize status p err arg_ebadkey end_index =
     (let err = (if err = EBADKEY \<and> arg_ebadkey then 0 else err) in
      and_then (if err = 0 then all_parsed end_index p else Done (err, None, p)) (\<lambda>(err, stop, p).
      and_then (notify status err p) (\<lambda>(err, p).
      and_then (call_all (down_groups p) ARGP_KEY_FINI p) (\<lambda>p.
        Done (if err = EBADKEY then EINVAL_code else err, stop, p)))))"

section \<open>Parsing\<close>

text \<open>\<open>while (!err)\<close>; a parsing function may move the next index back for ever.\<close>

partial_function (option) parse_loop :: "bool \<Rightarrow> 'w parser \<Rightarrow> (int \<times> bool \<times> 'w parser) outcome option" where
  "parse_loop eb p =
     (case parser_parse_next eb p of
        Done (err, eb', p') \<Rightarrow> if err = 0 then parse_loop eb' p' else Some (Done (err, eb', p'))
      | Exits n \<Rightarrow> Some (Exits n)
      | Asserts \<Rightarrow> Some Asserts
      | Faults \<Rightarrow> Some Faults)"

definition default_argp :: "int \<Rightarrow> 'w argp_fun argp" where
  "default_argp status = Argp 1 (Some (1, argp_default_options)) (Some (argp_default_parser status)) None"

definition version_argp ::
  "('w argp_state \<Rightarrow> 'w argp_state outcome) option \<Rightarrow> string option \<Rightarrow> int \<Rightarrow> 'w argp_fun argp" where
  "version_argp version_hook version status =
     Argp 2 (Some (2, argp_version_options)) (Some (argp_version_parser version_hook version status)) None"

definition top_argp ::
  "('w argp_state \<Rightarrow> 'w argp_state outcome) option \<Rightarrow> string option \<Rightarrow> int \<Rightarrow> 'w argp_fun argp option \<Rightarrow> 'w argp_fun argp" where
  "top_argp version_hook version status argp =
     Argp 0 None None (Some ((case argp of Some a \<Rightarrow> [a] | None \<Rightarrow> []) @ [default_argp status] @
       (if version \<noteq> None \<or> version_hook \<noteq> None then [version_argp version_hook version status] else [])))"

definition argp_parse ::
  "argp_env \<Rightarrow> ('w argp_state \<Rightarrow> 'w argp_state outcome) option \<Rightarrow> string option \<Rightarrow>
   'w argp_fun argp option \<Rightarrow> string list \<Rightarrow> u32 \<Rightarrow> bool \<Rightarrow> u64 \<Rightarrow> 'w \<Rightarrow>
   (int \<times> int option \<times> 'w parser option) outcome option" where
  "argp_parse env version_hook version argp args flags end_index input w =
     (let argp = (if \<not> has_flag flags ARGP_NO_HELP
                  then Some (top_argp version_hook version (env_exit_status env) argp) else argp) in
      case parser_init env argp args flags input w of
        Done (err, Some p) \<Rightarrow>
          map_option
            (\<lambda>r. and_then r (\<lambda>(err, eb, p).
               and_then (parser_finalize (env_exit_status env) p err eb end_index) (\<lambda>(err, stop, p).
                 Done (err, stop, Some p))))
            (parse_loop False p)
      | Done (err, None) \<Rightarrow> Some (Done (err, None, None))
      | Exits n \<Rightarrow> Some (Exits n)
      | Asserts \<Rightarrow> Some Asserts
      | Faults \<Rightarrow> Some Faults)"

text \<open>The input of an argp, which the help functions look up.\<close>

definition argp_input :: "nat \<Rightarrow> 'w parser option \<Rightarrow> u64" where
  "argp_input a p =
     (case p of None \<Rightarrow> 0
      | Some p \<Rightarrow> (case find (\<lambda>gr. g_argp gr = a) (groups p) of None \<Rightarrow> 0 | Some gr \<Rightarrow> g_input gr))"

end
