(* ===== verification/Argp_Exchange.thy ===== *)
theory Argp_Exchange
  imports Argp_Parse "HOL-Library.Multiset" "HOL-Library.Sublist"
begin

text \<open>
  The exchange of two adjacent stretches of the argument vector, and the search for a long
  option, against what they are for.
\<close>

section \<open>Exchange\<close>

lemma swap_loop_shift: "swap_loop i n a b xs = swap_loop 0 n (a + i) (b + i) xs"
proof (induction n arbitrary: i a b xs)
  case (Suc n)
  show ?case
    by (simp add: Suc.IH [of "Suc i" a b] Suc.IH [of "Suc 0" "a + i" "b + i"])
qed simp

lemma swap_at_segments:
  "swap_at (length ps) (length (ps @ x # xs)) (ps @ x # xs @ y # ys) = ps @ y # xs @ x # ys"
  by (simp add: swap_at_def nth_append list_update_append)

lemma swap_loop_segments:
  "length xs = length ys \<Longrightarrow>
   swap_loop 0 (length xs) (length ps) (length (ps @ xs @ ms)) (ps @ xs @ ms @ ys @ ss) = ps @ ys @ ms @ xs @ ss"
proof (induction xs arbitrary: ys ps ms)
  case (Cons x xs)
  then obtain y ys' where ys: "ys = y # ys'" "length xs = length ys'" by (cases ys) auto
  have "swap_at (length ps) (length (ps @ x # xs @ ms)) (ps @ x # xs @ ms @ y # ys' @ ss) = ps @ y # xs @ ms @ x # ys' @ ss"
    using swap_at_segments [of ps x "xs @ ms" y "ys' @ ss"] by simp
  moreover have "swap_loop 0 (length xs) (length (ps @ [y])) (length ((ps @ [y]) @ xs @ ms @ [x]))
      ((ps @ [y]) @ xs @ (ms @ [x]) @ ys' @ ss) = (ps @ [y]) @ ys' @ (ms @ [x]) @ xs @ ss"
    by (rule Cons.IH [OF ys(2)])
  ultimately show ?case
    by (simp add: ys swap_loop_shift [of "Suc 0"] del: append_assoc) (simp add: ys)
qed simp

declare exchange_loop.simps [simp del]

lemma exchange_loop_rotates:
  "exchange_loop (length ps) (length (ps @ xs)) (length (ps @ xs @ ys)) (ps @ xs @ ys @ ss) = ps @ ys @ xs @ ss"
proof (induction "length xs + length ys" arbitrary: ps xs ys ss rule: less_induct)
  case less
  show ?case
  proof (cases "xs = [] \<or> ys = []")
    case True
    then show ?thesis by (subst exchange_loop.simps) auto
  next
    case ne: False
    show ?thesis
    proof (cases "length xs < length ys")
      case True
      define y1 y2 where "y1 = take (length ys - length xs) ys" and "y2 = drop (length ys - length xs) ys"
      have ys: "ys = y1 @ y2" "length y2 = length xs" using True by (auto simp: y1_def y2_def)
      have "exchange_loop (length ps) (length (ps @ xs)) (length (ps @ xs @ ys)) (ps @ xs @ ys @ ss)
          = exchange_loop (length ps) (length (ps @ y2)) (length (ps @ y2 @ y1)) (ps @ y2 @ y1 @ xs @ ss)"
        using ne True swap_loop_segments [of xs y2 ps y1 ss] ys
        by (subst exchange_loop.simps) (simp add: Let_def ac_simps)
      also have "\<dots> = ps @ y1 @ y2 @ xs @ ss"
        using ne by (intro less) (auto simp: ys)
      finally show ?thesis by (simp add: ys)
    next
      case False
      define x1 x2 where "x1 = take (length ys) xs" and "x2 = drop (length ys) xs"
      have xs: "xs = x1 @ x2" "length x1 = length ys" using False by (auto simp: x1_def x2_def)
      have "exchange_loop (length ps) (length (ps @ xs)) (length (ps @ xs @ ys)) (ps @ xs @ ys @ ss)
          = exchange_loop (length (ps @ ys)) (length ((ps @ ys) @ x2)) (length ((ps @ ys) @ x2 @ x1)) ((ps @ ys) @ x2 @ x1 @ ss)"
        using ne False swap_loop_segments [of x1 ys ps x2 ss] xs
        by (subst exchange_loop.simps, cases "x2 = []") (simp_all add: Let_def ac_simps)
      also have "\<dots> = (ps @ ys) @ x1 @ x2 @ ss"
        using ne by (intro less) (simp add: xs(1))
      finally show ?thesis by (simp add: xs)
    qed
  qed
qed

text \<open>
  The split of the vector that the two indices and \<open>next\<close> make: what was placed, the skipped
  arguments, the options after them, the rest.
\<close>

definition split_argv :: "'w parser \<Rightarrow> string list \<Rightarrow> string list \<Rightarrow> string list \<Rightarrow> string list \<Rightarrow> bool" where
  "split_argv p ps xs ys ss \<longleftrightarrow> argv (pstate p) = ps @ xs @ ys @ ss
     \<and> first_nonopt p = int (length ps) \<and> last_nonopt p = int (length (ps @ xs))
     \<and> nexti (pstate p) = int (length (ps @ xs @ ys))"

lemma exchange_split:
  assumes "split_argv p ps xs ys ss"
  shows "exchange p = Done (p\<lparr>pstate := (pstate p)\<lparr>argv := ps @ ys @ xs @ ss\<rparr>,
    first_nonopt := int (length (ps @ ys)), last_nonopt := int (length (ps @ ys @ xs))\<rparr>)"
proof (cases "xs = [] \<or> ys = []")
  case True
  then have eq: "argv (pstate p) = ps @ ys @ xs @ ss" using assms by (auto simp: split_argv_def)
  have "p\<lparr>pstate := (pstate p)\<lparr>argv := ps @ ys @ xs @ ss\<rparr>, first_nonopt := a, last_nonopt := b\<rparr>
      = p\<lparr>first_nonopt := a, last_nonopt := b\<rparr>" for a b
    unfolding eq [symmetric] by simp
  with True assms show ?thesis
    by (auto simp: exchange_def split_argv_def Let_def)
next
  case False
  have "exchange_loop (nat (first_nonopt p)) (nat (last_nonopt p)) (nat (nexti (pstate p))) (argv (pstate p))
      = ps @ ys @ xs @ ss"
    using assms by (simp only: split_argv_def nat_int exchange_loop_rotates)
  with False assms show ?thesis
    by (simp add: exchange_def split_argv_def Let_def)
qed

section \<open>Long options\<close>

text \<open>
  An element's name is what stands before its \<open>=\<close>; it is an option's whole name or the start
  of it.
\<close>

definition long_name :: "string \<Rightarrow> string" where
  "long_name arg = takeWhile (\<lambda>c. c \<noteq> CHR ''='') arg"

definition names :: "string \<Rightarrow> argp_option \<Rightarrow> bool" where
  "names arg opt \<longleftrightarrow> opt_name opt = Some (long_name arg)"

definition abbreviates :: "string \<Rightarrow> argp_option \<Rightarrow> bool" where
  "abbreviates arg opt \<longleftrightarrow> (case opt_name opt of None \<Rightarrow> False | Some n \<Rightarrow> strict_prefix (long_name arg) n)"

lemma match_option_cases:
  "match_option arg name =
     (if name = long_name arg then MATCH_EXACT
      else if strict_prefix (long_name arg) name then MATCH_PARTIAL else MATCH_NO)"
  by (induction arg name rule: match_option.induct)
    (auto simp: long_name_def strict_prefix_def split: list.splits)

text \<open>
  Every entry of every group with its group, what it stands for and itself, in the order of the
  tables: an alias stands for the closest previous entry that is none, an alias without one and
  any other entry for themselves.
\<close>

type_synonym long_entry = "nat \<times> (nat \<times> nat) \<times> argp_option"

fun table_entries :: "nat \<Rightarrow> nat \<Rightarrow> nat option \<Rightarrow> nat \<Rightarrow> argp_option list \<Rightarrow> long_entry list" where
  "table_entries g at base i [] = []"
| "table_entries g at base i (opt # opts) =
     (if option_is_end opt then []
      else if has_flag (opt_flags opt) OPTION_ALIAS then
        (g, (at, case base of None \<Rightarrow> i | Some b \<Rightarrow> b), opt) # table_entries g at base (Suc i) opts
      else (g, (at, i), opt) # table_entries g at (Some i) (Suc i) opts)"

fun group_entries :: "nat \<Rightarrow> 'w group list \<Rightarrow> long_entry list" where
  "group_entries g [] = []"
| "group_entries g (gr # grs) =
     (case g_options gr of None \<Rightarrow> [] | Some (at, opts) \<Rightarrow> table_entries g at None 0 opts)
     @ group_entries (Suc g) grs"

lemma table_entries_tail:
  "full = pre @ opts \<Longrightarrow> \<forall>i. base_before full i (length pre) = (case base of None \<Rightarrow> i | Some b \<Rightarrow> b) \<Longrightarrow>
   table_entries g at base (length pre) opts =
     map (\<lambda>i. (g, (at, option_base full i), full ! i)) [length pre ..< length pre + length (entries opts)]"
proof (induction opts arbitrary: pre base)
  case (Cons opt opts)
  show ?case
  proof (cases "option_is_end opt")
    case False
    have nth: "full ! length pre = opt" using Cons.prems(1) by simp
    have upt: "[length pre ..< length pre + length (entries (opt # opts))] =
        length pre # [length (pre @ [opt]) ..< length (pre @ [opt]) + length (entries opts)]"
      using False by (simp add: entries_def upt_conv_Cons del: upt_Suc)
    define base' where "base' = (if is_alias opt then base else Some (length pre))"
    have "\<forall>i. base_before full i (length (pre @ [opt])) = (case base' of None \<Rightarrow> i | Some b \<Rightarrow> b)"
      using Cons.prems(2) False by (simp add: nth base'_def)
    with Cons.IH [of "pre @ [opt]" base'] Cons.prems(1)
    have "table_entries g at base' (length (pre @ [opt])) opts = map (\<lambda>i. (g, (at, option_base full i), full ! i))
        [length (pre @ [opt]) ..< length (pre @ [opt]) + length (entries opts)]" by simp
    then show ?thesis
      unfolding upt using False Cons.prems(2)
      by (cases "is_alias opt") (simp_all add: base'_def is_alias_def option_base_def nth del: upt_Suc)
  qed (simp add: entries_def)
qed (simp add: entries_def)

lemma table_entries_eq:
  "table_entries g at None 0 opts =
     map (\<lambda>i. (g, (at, option_base opts i), opts ! i)) [0 ..< length (entries opts)]"
  using table_entries_tail [of opts "[]" opts None] by simp

fun scan_list :: "string \<Rightarrow> long_entry list \<Rightarrow> long_match \<Rightarrow> (nat \<times> argp_option) + long_match" where
  "scan_list arg [] m = Inr m"
| "scan_list arg ((g, b, opt) # es) m =
     (if names arg opt then Inl (g, opt)
      else if abbreviates arg opt then
        scan_list arg es
          (if matched m = None then \<lparr>matched = Some (g, opt), matched_base = b, num_partial = 1\<rparr>
           else if b \<noteq> matched_base m then m\<lparr>num_partial := num_partial m + 1\<rparr> else m)
      else scan_list arg es m)"

lemma scan_options_list:
  "scan_options arg g at opts is m = scan_list arg (map (\<lambda>i. (g, (at, option_base opts i), opts ! i)) is) m"
  by (induction "is" arbitrary: m)
    (auto simp: match_option_cases names_def abbreviates_def split: option.splits)

lemma scan_list_append:
  "scan_list arg (es @ es') m =
     (case scan_list arg es m of Inl r \<Rightarrow> Inl r | Inr m \<Rightarrow> scan_list arg es' m)"
  by (induction arg es m rule: scan_list.induct) auto

lemma scan_groups_list:
  "\<forall>gr \<in> set grs. g_options gr \<noteq> None \<Longrightarrow>
   scan_groups arg g grs m = Done (scan_list arg (group_entries g grs) m)"
  by (induction arg g grs m rule: scan_groups.induct)
    (auto simp: scan_options_list table_entries_eq scan_list_append split: sum.splits)

lemma scan_list_exact:
  "scan_list arg es m =
     (case find (\<lambda>(_, _, opt). names arg opt) es of
        Some (g, _, opt) \<Rightarrow> Inl (g, opt)
      | None \<Rightarrow> scan_list arg (filter (\<lambda>(_, _, opt). abbreviates arg opt) es) m)"
  by (induction arg es m rule: scan_list.induct) (auto split: option.splits)

lemma scan_partial:
  assumes "\<forall>(_, _, opt) \<in> set es. abbreviates arg opt \<and> \<not> names arg opt" and "matched m \<noteq> None"
  shows "scan_list arg es m =
    Inr (m\<lparr>num_partial := num_partial m + length (filter (\<lambda>(_, b, _). b \<noteq> matched_base m) es)\<rparr>)"
  using assms by (induction arg es m rule: scan_list.induct) auto

lemma find_None_not: "find P xs = None \<Longrightarrow> x \<in> set xs \<Longrightarrow> \<not> P x"
  by (auto simp: find_None_iff)

lemma scan_list_spec:
  "scan_list arg es \<lparr>matched = None, matched_base = b0, num_partial = 0\<rparr> =
     (case find (\<lambda>(_, _, opt). names arg opt) es of
        Some (g, _, opt) \<Rightarrow> Inl (g, opt)
      | None \<Rightarrow>
         (case filter (\<lambda>(_, _, opt). abbreviates arg opt) es of
            [] \<Rightarrow> Inr \<lparr>matched = None, matched_base = b0, num_partial = 0\<rparr>
          | (g, b, opt) # cs \<Rightarrow> Inr \<lparr>matched = Some (g, opt), matched_base = b,
              num_partial = Suc (length (filter (\<lambda>(_, b', _). b' \<noteq> b) cs))\<rparr>))"
proof (cases "find (\<lambda>(_, _, opt). names arg opt) es")
  case None
  define fs where "fs = filter (\<lambda>(_, _, opt). abbreviates arg opt) es"
  have fs: "\<forall>(_, _, opt) \<in> set fs. abbreviates arg opt \<and> \<not> names arg opt"
    using find_None_not [OF None] by (auto simp: fs_def)
  show ?thesis
  proof (cases fs)
    case Nil
    then show ?thesis by (subst scan_list_exact) (simp add: None fs_def [symmetric])
  next
    case (Cons c cs)
    obtain g b opt where c: "c = (g, b, opt)" by (cases c)
    have "scan_list arg fs \<lparr>matched = None, matched_base = b0, num_partial = 0\<rparr> =
        scan_list arg cs \<lparr>matched = Some (g, opt), matched_base = b, num_partial = 1\<rparr>"
      using fs by (simp add: Cons c)
    also have "\<dots> = Inr \<lparr>matched = Some (g, opt), matched_base = b,
              num_partial = Suc (length (filter (\<lambda>(_, b', _). b' \<noteq> b) cs))\<rparr>"
      using fs by (subst scan_partial) (auto simp: Cons)
    finally show ?thesis
      by (subst scan_list_exact) (simp add: None fs_def [symmetric] Cons c)
  qed
next
  case (Some e)
  obtain g b opt where "e = (g, b, opt)" by (cases e)
  with Some show ?thesis unfolding scan_list_exact [of arg es] by simp
qed

text \<open>What a long name means among the entries of all groups.\<close>

definition long_meaning :: "string \<Rightarrow> long_entry list \<Rightarrow> (nat \<times> argp_option) option \<times> bool" where
  "long_meaning arg es =
     (case find (\<lambda>(_, _, opt). names arg opt) es of
        Some (g, _, opt) \<Rightarrow> (Some (g, opt), False)
      | None \<Rightarrow>
          (case filter (\<lambda>(_, _, opt). abbreviates arg opt) es of
             [] \<Rightarrow> (None, False)
           | (g, b, opt) # cs \<Rightarrow>
               if \<forall>(_, b', _) \<in> set cs. b' = b then (Some (g, opt), False) else (None, True)))"

lemma find_long_option_list:
  assumes "\<forall>gr \<in> set (groups p). g_options gr \<noteq> None"
  shows "find_long_option p arg = Done (long_meaning arg (group_entries 0 (groups p)))"
proof -
  define es where "es = group_entries 0 (groups p)"
  have scan: "find_long_option p arg = (case scan_list arg es \<lparr>matched = None, matched_base = (0, 0), num_partial = 0\<rparr> of
      Inl found \<Rightarrow> Done (Some found, False)
    | Inr m \<Rightarrow> if num_partial m = 1 then Done (matched m, False) else Done (None, num_partial m > 1))"
    by (simp add: find_long_option_def scan_groups_list [OF assms] es_def)
  have alike: "filter (\<lambda>(_, b', _). b' \<noteq> b) cs = [] \<longleftrightarrow> (\<forall>(_, b', _) \<in> set cs. b' = b)" for b and cs :: "long_entry list"
    by (auto simp: filter_empty_conv)
  show ?thesis
    unfolding scan scan_list_spec long_meaning_def es_def [symmetric]
    by (auto simp: alike split: option.split list.split) 
qed

end
