(* ===== verification/Argp_Run.thy ===== *)
theory Argp_Run
  imports Argp_Exchange
begin

text \<open>
  Parsing with parsing functions that leave the position in the vector alone: the loop ends,
  the indices stay in range, and the vector is only permuted.
\<close>

section \<open>Polite parsing functions\<close>

text \<open>
  With \<open>ARGP_PARSE_ARGV0\<close> and without \<open>ARGP_NO_ERRS\<close> the default option \<open>--program-name\<close>
  writes to the vector; the header says the first flag is for use with the second.
\<close>

definition writes_argv0 :: "u32 \<Rightarrow> bool" where
  "writes_argv0 flags \<longleftrightarrow> flags AND (ARGP_PARSE_ARGV0 OR ARGP_NO_ERRS) = ARGP_PARSE_ARGV0"

definition polite :: "'w argp_fun \<Rightarrow> bool" where
  "polite f \<longleftrightarrow> (\<forall>key arg s err s'. f key arg s = Done (err, s') \<longrightarrow> \<not> writes_argv0 (st_flags s) \<longrightarrow>
     argv s' = argv s \<and> argc s' = argc s \<and> nexti s' = nexti s \<and> quoted s' = quoted s
     \<and> st_flags s' = st_flags s)"

definition polite_group :: "'w group \<Rightarrow> bool" where
  "polite_group gr \<longleftrightarrow> (case g_parser gr of None \<Rightarrow> True | Some f \<Rightarrow> polite f)"

text \<open>What decides the course of the parse, apart from the answers of the functions.\<close>

definition group_shape :: "'w group \<Rightarrow> 'w argp_fun option \<times> nat \<times> option_table" where
  "group_shape gr = (g_parser gr, g_argp gr, g_options gr)"

definition same_course :: "'w parser \<Rightarrow> 'w parser \<Rightarrow> bool" where
  "same_course p p' \<longleftrightarrow>
     argv (pstate p') = argv (pstate p) \<and> argc (pstate p') = argc (pstate p)
     \<and> nexti (pstate p') = nexti (pstate p) \<and> quoted (pstate p') = quoted (pstate p)
     \<and> st_flags (pstate p') = st_flags (pstate p)
     \<and> first_nonopt p' = first_nonopt p \<and> last_nonopt p' = last_nonopt p
     \<and> nextchar p' = nextchar p \<and> args_only p' = args_only p \<and> ord p' = ord p
     \<and> short_opts p' = short_opts p \<and> map group_shape (groups p') = map group_shape (groups p)"

lemma same_course_refl [simp]: "same_course p p"
  by (simp add: same_course_def)

lemma same_course_trans: "same_course p q \<Longrightarrow> same_course q r \<Longrightarrow> same_course p r"
  by (simp add: same_course_def)

lemma same_course_groups: "same_course p p' \<Longrightarrow> length (groups p') = length (groups p)"
  unfolding same_course_def by (metis length_map)

lemma same_course_shape:
  assumes "same_course p p'" and "g < length (groups p)"
  shows "group_shape (groups p' ! g) = group_shape (groups p ! g)"
  using assms same_course_groups [OF assms(1)] unfolding same_course_def by (metis nth_map)

lemma polite_shape: "group_shape gr = group_shape gr' \<Longrightarrow> polite_group gr = polite_group gr'"
  by (simp add: group_shape_def polite_group_def)

lemma same_course_polite:
  assumes "same_course p p'" and "\<forall>gr \<in> set (groups p). polite_group gr"
  shows "\<forall>gr \<in> set (groups p'). polite_group gr"
proof
  fix gr assume "gr \<in> set (groups p')"
  then obtain g where "g < length (groups p')" "gr = groups p' ! g" by (auto simp: in_set_conv_nth)
  then show "polite_group gr"
    using same_course_shape [OF assms(1)] same_course_groups [OF assms(1)] assms(2)
    by (metis nth_mem polite_shape)
qed

lemma group_parse_same_course:
  assumes "group_parse g key arg p = Done (err, p')" and "g < length (groups p)"
    and "\<forall>gr \<in> set (groups p). polite_group gr" and "\<not> writes_argv0 (st_flags (pstate p))"
  shows "same_course p p'"
proof (cases "g_parser (groups p ! g)")
  case None
  with assms(1) show ?thesis by (simp add: group_parse_def Let_def)
next
  case (Some f)
  have "polite_group (groups p ! g)" using assms(2,3) by simp
  then have f: "polite f" by (simp add: polite_group_def Some)
  define gr where "gr = groups p ! g"
  define s0 where "s0 = (pstate p)\<lparr>hook := g_hook gr, inp := g_input gr,
                                 child_inputs := g_child_inputs gr, arg_num := args_processed gr\<rparr>"
  from assms(1) obtain s where s: "f key arg s0 = Done (err, s)"
    and p': "p' = p\<lparr>pstate := s, groups := (groups p)[g := gr\<lparr>g_hook := hook s\<rparr>]\<rparr>"
    by (auto simp: group_parse_def Let_def Some and_then_Done s0_def gr_def)
  have "group_shape (gr\<lparr>g_hook := hook s\<rparr>) = group_shape (groups p ! g)"
    by (simp add: group_shape_def gr_def)
  then have "map group_shape (groups p') = map group_shape (groups p)"
    using assms(2) by (simp add: p' map_update list_update_same_conv)
  moreover have "argv s = argv s0 \<and> argc s = argc s0 \<and> nexti s = nexti s0 \<and> quoted s = quoted s0
      \<and> st_flags s = st_flags s0"
    using f s assms(4) unfolding polite_def by (simp add: s0_def)
  ultimately show ?thesis by (simp add: same_course_def p' s0_def)
qed

section \<open>Where options are found\<close>

lemma find_short_in_group:
  "find_short_in key g grs = Done (Some (g', opt)) \<Longrightarrow> g' < g + length grs"
  by (induction key g grs rule: find_short_in.induct) (fastforce split: option.splits prod.splits)+

lemma find_short_option_group:
  "find_short_option p key = Done (Some (g, opt)) \<Longrightarrow> g < length (groups p)"
  using find_short_in_group [of key 0 "groups p" g opt] by (auto simp: find_short_option_def split: if_splits)

lemma scan_options_group:
  "scan_options arg g at opts is m = Inl (g', opt) \<Longrightarrow> g' = g"
  "scan_options arg g at opts is m = Inr m' \<Longrightarrow> matched m' = matched m \<or> (\<exists>opt. matched m' = Some (g, opt))"
  by (induction arg g at opts "is" m rule: scan_options.induct)
    (auto split: option.splits match_result.splits if_splits)

definition found_below :: "nat \<Rightarrow> (nat \<times> argp_option) option \<Rightarrow> (nat \<times> argp_option) + long_match \<Rightarrow> bool" where
  "found_below n old r \<longleftrightarrow>
     (case r of Inl (g, _) \<Rightarrow> g < n
      | Inr m \<Rightarrow> matched m = old \<or> (\<exists>g opt. matched m = Some (g, opt) \<and> g < n))"

lemma scan_groups_group:
  "scan_groups arg g grs m = Done r \<Longrightarrow> found_below (g + length grs) (matched m) r"
proof (induction arg g grs m rule: scan_groups.induct)
  case (1 arg g m)
  then show ?case by (auto simp: found_below_def)
next
  case (2 arg g gr grs m)
  from "2.prems" obtain at opts where gr: "g_options gr = Some (at, opts)"
    by (auto split: option.splits)
  show ?case
  proof (cases "scan_options arg g at opts [0 ..< length (entries opts)] m")
    case (Inl found)
    obtain g' opt where found: "found = (g', opt)" by (cases found)
    have "g' = g" using Inl unfolding found by (rule scan_options_group(1))
    then show ?thesis using "2.prems" by (auto simp: gr Inl found found_below_def)
  next
    case (Inr m1)
    have "scan_groups arg (Suc g) grs m1 = Done r" using "2.prems" by (simp add: gr Inr)
    from "2.IH" [OF gr refl Inr this] scan_options_group(2) [OF Inr]
    show ?thesis by (cases r) (auto simp: found_below_def split: prod.splits)
  qed
qed

lemma find_long_option_group:
  assumes "find_long_option p arg = Done (Some (g, opt), amb)"
  shows "g < length (groups p)"
proof -
  from assms obtain r where r: "scan_groups arg 0 (groups p) \<lparr>matched = None, matched_base = (0, 0), num_partial = 0\<rparr> = Done r"
    and f: "(case r of Inl found \<Rightarrow> Done (Some found, False)
        | Inr m \<Rightarrow> if num_partial m = 1 then Done (matched m, False) else Done (None, num_partial m > 1))
      = Done (Some (g, opt), amb)"
    by (auto simp: find_long_option_def and_then_Done)
  from scan_groups_group [OF r] f show ?thesis
    by (auto simp: found_below_def split: sum.splits if_splits)
qed

section \<open>The invariant and the measure\<close>

definition set_next :: "int \<Rightarrow> 'w parser \<Rightarrow> 'w parser" where
  "set_next n p = p\<lparr>pstate := (pstate p)\<lparr>nexti := n\<rparr>\<rparr>"

lemma move_next_set: "move_next d p = set_next (nexti (pstate p) + d) p"
  by (simp add: move_next_def set_next_def)

definition place_inv :: "'w parser \<Rightarrow> bool" where
  "place_inv p \<longleftrightarrow> 0 \<le> first_nonopt p \<and> first_nonopt p \<le> last_nonopt p \<and> last_nonopt p \<le> nexti (pstate p)
     \<and> nexti (pstate p) \<le> argc (pstate p) \<and> argc (pstate p) = int (length (argv (pstate p)))
     \<and> (quoted (pstate p) = 0 \<or> args_only p \<and> quoted (pstate p) \<le> nexti (pstate p))
     \<and> (nextchar p \<noteq> None \<longrightarrow> \<not> args_only p)
     \<and> (args_only p \<or> ord p \<noteq> PERMUTE \<longrightarrow> first_nonopt p = last_nonopt p)
     \<and> (\<forall>gr \<in> set (groups p). polite_group gr) \<and> \<not> writes_argv0 (st_flags (pstate p))"

definition run_inv :: "'w parser \<Rightarrow> bool" where
  "run_inv p \<longleftrightarrow> place_inv p \<and> nextchar p \<noteq> Some []"

definition weight :: "'w parser \<Rightarrow> nat" where
  "weight p = (\<Sum>w \<leftarrow> drop (nat (nexti (pstate p))) (argv (pstate p)). length w + 3)
     + (case nextchar p of None \<Rightarrow> 0 | Some cs \<Rightarrow> Suc (length cs))"

definition course_order :: "('w parser \<times> 'w parser) set" where
  "course_order = measures [\<lambda>p. if args_only p then 0 else 1, weight]"

definition good_next :: "'w parser \<Rightarrow> 'w next_result \<Rightarrow> bool" where
  "good_next p r \<longleftrightarrow> (case r of
     Done (err, _, p') \<Rightarrow> place_inv p' \<and> mset (argv (pstate p')) = mset (argv (pstate p))
        \<and> (err = 0 \<longrightarrow> run_inv p' \<and> (p', p) \<in> course_order)
   | _ \<Rightarrow> True)"

lemma good_next_simps [simp]:
  "good_next p (Exits n)" "good_next p Asserts" "good_next p Faults"
  by (simp_all add: good_next_def)

lemma good_next_Done:
  "good_next p (Done (err, eb, p')) \<longleftrightarrow> place_inv p' \<and> mset (argv (pstate p')) = mset (argv (pstate p))
     \<and> (err = 0 \<longrightarrow> run_inv p' \<and> (p', p) \<in> course_order)"
  by (simp add: good_next_def)

lemma good_next_then:
  "(\<And>x. r = Done x \<Longrightarrow> good_next p (f x)) \<Longrightarrow> good_next p (and_then r f)"
  by (cases r) simp_all

lemma place_inv_course:
  assumes "place_inv p" and "same_course p p'"
  shows "place_inv p'"
  using assms same_course_polite [OF assms(2)] unfolding place_inv_def same_course_def by simp

lemma run_inv_course: "run_inv p \<Longrightarrow> same_course p p' \<Longrightarrow> run_inv p'"
  using place_inv_course unfolding run_inv_def by (auto simp: same_course_def)

lemma weight_course: "same_course p p' \<Longrightarrow> weight p' = weight p"
  unfolding same_course_def weight_def by simp

lemma drop_weight:
  assumes "0 \<le> i" and "i < int (length xs)"
  shows "(\<Sum>w \<leftarrow> drop (nat i) xs. length w + (3 :: nat)) =
    length (xs ! nat i) + 3 + (\<Sum>w \<leftarrow> drop (nat (i + 1)) xs. length w + 3)"
proof -
  have "drop (nat i) xs = xs ! nat i # drop (Suc (nat i)) xs"
    using assms by (intro Cons_nth_drop_Suc [symmetric]) linarith
  moreover have "Suc (nat i) = nat (i + 1)" using assms by simp
  ultimately show ?thesis by simp
qed

lemma drop_weight_le: "i \<le> j \<Longrightarrow>
  (\<Sum>w \<leftarrow> drop j xs. length w + (3 :: nat)) \<le> (\<Sum>w \<leftarrow> drop i xs. length w + 3)"
proof -
  assume "i \<le> j"
  then have "drop i xs = take (j - i) (drop i xs) @ drop j xs"
    by (metis append_take_drop_id drop_drop le_add_diff_inverse2)
  then show ?thesis by (metis le_add2 map_append sum_list_append)
qed

text \<open>A call of one group's parser at the end of a step.\<close>

lemma good_next_call:
  assumes q: "run_inv q" and g: "g < length (groups q)"
    and argv: "mset (argv (pstate q)) = mset (argv (pstate p))" and less: "(q, p) \<in> course_order"
  shows "good_next p (with_ebadkey eb (group_parse g key arg q))"
  unfolding with_ebadkey_def
proof (rule good_next_then)
  fix x assume x: "group_parse g key arg q = Done x"
  obtain err p' where xx: "x = (err, p')" by (cases x)
  have course: "same_course q p'"
    using group_parse_same_course [OF x [unfolded xx] g] q by (simp add: run_inv_def place_inv_def)
  then have "(p', p) \<in> course_order"
    using less weight_course [OF course] by (simp add: course_order_def same_course_def)
  moreover have "argv (pstate p') = argv (pstate q)" using course by (simp add: same_course_def)
  ultimately show "good_next p (case x of (err, p) \<Rightarrow> Done (err, eb, p))"
    using run_inv_course [OF q course] argv by (simp add: xx good_next_Done run_inv_def)
qed

lemma argv_at_Done:
  "argv_at i p = Done w \<longleftrightarrow> 0 \<le> i \<and> i < int (length (argv (pstate p))) \<and> w = argv (pstate p) ! nat i"
  by (auto simp: argv_at_def)

lemma report_course: "same_course p (report msg p)"
  by (simp add: report_def same_course_def)

lemma good_next_error:
  assumes "place_inv q" and "mset (argv (pstate q)) = mset (argv (pstate p))"
  shows "good_next p (Done (EBADKEY, eb, report msg q))"
  using place_inv_course [OF assms(1) report_course] report_course [of q msg] assms(2)
  by (simp add: good_next_Done EBADKEY_def same_course_def)

section \<open>Each branch keeps it\<close>

lemma good_short_found:
  assumes inv: "run_inv q" and g: "g < length (groups q)" and nc: "\<not> args_only q"
    and argv: "argv (pstate q) = argv (pstate p)" and less: "(q, p) \<in> course_order"
  shows "good_next p (short_found c g opt eb q)"
proof -
  define q' where "q' = q\<lparr>nextchar := None\<rparr>"
  have q': "run_inv q'" "argv (pstate q') = argv (pstate p)" "groups q' = groups q"
    using inv argv by (simp_all add: q'_def run_inv_def place_inv_def)
  have less': "(q', p) \<in> course_order"
    using less by (auto simp: course_order_def q'_def weight_def split: option.splits)
  have ao: "\<not> args_only q'" using nc by (simp add: q'_def)
  have err: "good_next p (Done (EBADKEY, b, report msg q'))" for b msg
    using good_next_error [of q' p] q' by (simp add: run_inv_def)
  have call: "good_next p (with_ebadkey eb (group_parse g key arg q))"
      "good_next p (with_ebadkey eb (group_parse g key arg q'))" for key arg
    using good_next_call [OF inv g _ less] good_next_call [OF q'(1) _ _ less'] g argv q'(2,3) by simp_all
  have taken: "good_next p (with_ebadkey eb (group_parse g key arg (move_next 1 q')))"
    if "argv_at (nexti (pstate q')) q' = Done v" for key arg v
  proof (rule good_next_call)
    have at: "0 \<le> nexti (pstate q')" "nexti (pstate q') < int (length (argv (pstate q')))"
      using that by (auto simp: argv_at_Done)
    show "run_inv (move_next 1 q')"
      using q'(1) at by (auto simp: run_inv_def place_inv_def move_next_def)
    have "weight (move_next 1 q') < weight q'"
      using drop_weight [OF at] by (simp add: weight_def move_next_def)
    then show "(move_next 1 q', p) \<in> course_order"
      using less' ao by (auto simp: course_order_def move_next_def)
  qed (use g q' in \<open>simp_all add: move_next_def\<close>)
  show ?thesis
    unfolding short_found_def Let_def q'_def [symmetric]
    by (auto intro!: call err good_next_then taken)
qed

lemma good_short:
  assumes inv: "run_inv p" and chars: "nextchar p = Some chars"
  shows "good_next p (parse_short chars eb p)"
proof -
  have ao: "\<not> args_only p" using inv chars by (simp add: run_inv_def place_inv_def)
  from inv chars obtain c rest where cr: "chars = c # rest" by (cases chars) (auto simp: run_inv_def)
  define q where "q = p\<lparr>nextchar := Some rest\<rparr>"
  define q' where "q' = (if rest = [] then q\<lparr>nextchar := None\<rparr> else q)"
  have q: "place_inv q" "argv (pstate q) = argv (pstate p)"
    using inv ao by (auto simp: run_inv_def place_inv_def q_def)
  have q': "run_inv q'" "argv (pstate q') = argv (pstate p)" "\<not> args_only q'" "groups q' = groups q"
    using inv ao by (auto simp: run_inv_def place_inv_def q_def q'_def)
  have less: "(q', p) \<in> course_order"
    using chars cr by (auto simp: course_order_def weight_def q_def q'_def)
  have call: "good_next p (short_found c g opt eb q')" if "find_short_option q key = Done (Some (g, opt))" for key g opt
    using good_short_found [OF q'(1) _ q'(3,2) less] find_short_option_group [OF that] q'(4) by simp
  show ?thesis
    unfolding parse_short_def cr Let_def list.case q_def [symmetric] if_not_P [OF ao] q'_def [symmetric]
    using q by (intro good_next_then) (auto split: option.splits intro: call good_next_error)
qed

lemma good_long_found:
  assumes inv: "run_inv q" and g: "g < length (groups q)" and nc: "\<not> args_only q"
    and argv: "argv (pstate q) = argv (pstate p)" and less: "(q, p) \<in> course_order"
  shows "good_next p (long_found token arg value g opt q)"
proof -
  have err: "good_next p (Done (EBADKEY, b, report msg q))" for b msg
    using good_next_error [of q p] inv argv by (simp add: run_inv_def)
  have call: "good_next p (with_ebadkey False (group_parse g key v q))" for key v
    using good_next_call [OF inv g _ less] argv by simp
  have taken: "good_next p (with_ebadkey False (group_parse g key v (move_next 1 q)))"
    if "argv_at (nexti (pstate q)) q = Done w" for key v w
  proof (rule good_next_call)
    have at: "0 \<le> nexti (pstate q)" "nexti (pstate q) < int (length (argv (pstate q)))"
      using that by (auto simp: argv_at_Done)
    show "run_inv (move_next 1 q)"
      using inv at by (auto simp: run_inv_def place_inv_def move_next_def)
    have "weight (move_next 1 q) < weight q"
      using drop_weight [OF at] by (simp add: weight_def move_next_def)
    then show "(move_next 1 q, p) \<in> course_order"
      using less nc by (auto simp: course_order_def move_next_def)
  qed (use g argv in \<open>simp_all add: move_next_def\<close>)
  show ?thesis
    unfolding long_found_def by (auto intro!: call err good_next_then taken)
qed

lemma move_on:
  assumes "run_inv p" and "nexti (pstate p) < argc (pstate p)"
  shows "run_inv (move_next 1 p)" "weight (move_next 1 p) + 3 + length (argv (pstate p) ! nat (nexti (pstate p))) = weight p"
    "argv (pstate (move_next 1 p)) = argv (pstate p)"
proof -
  have at: "0 \<le> nexti (pstate p)" "nexti (pstate p) < int (length (argv (pstate p)))"
    using assms by (simp_all add: run_inv_def place_inv_def)
  show "run_inv (move_next 1 p)" using assms by (auto simp: run_inv_def place_inv_def move_next_def)
  show "weight (move_next 1 p) + 3 + length (argv (pstate p) ! nat (nexti (pstate p))) = weight p"
    using drop_weight [OF at] by (simp add: weight_def move_next_def)
qed (simp add: move_next_def)

lemma good_long:
  assumes inv: "run_inv p" and nc: "\<not> args_only p" and more: "nexti (pstate p) < argc (pstate p)"
  shows "good_next p (parse_long token arg optstart p)"
proof -
  define q where "q = move_next 1 p"
  have q: "run_inv q" "argv (pstate q) = argv (pstate p)"
    using move_on [OF inv more] by (simp_all add: q_def)
  have nc': "\<not> args_only q" using nc by (simp add: q_def move_next_def)
  have less: "(q, p) \<in> course_order"
    using move_on(2) [OF inv more] nc nc' by (simp add: course_order_def q_def)
  have call: "good_next p (long_found token arg v g opt q)"
    if "find_long_option q optstart = Done (Some (g, opt), amb)" for v g opt amb
    using good_long_found [OF q(1) find_long_option_group [OF that] nc' q(2) less] .
  show ?thesis
    unfolding parse_long_def Let_def q_def [symmetric]
    using q by (intro good_next_then)
      (auto split: option.splits prod.splits intro!: call good_next_error simp: run_inv_def)
qed

lemma run_inv_split:
  assumes "run_inv p"
  obtains ps xs ys ss where "split_argv p ps xs ys ss"
proof -
  define av where "av = argv (pstate p)"
  define a b c where "a = nat (first_nonopt p)" and "b = nat (last_nonopt p)" and "c = nat (nexti (pstate p))"
  have le: "a \<le> b" "b \<le> c" "c \<le> length av"
    using assms unfolding run_inv_def place_inv_def a_def b_def c_def av_def by linarith+
  have eqs: "first_nonopt p = int a" "last_nonopt p = int b" "nexti (pstate p) = int c"
    using assms unfolding run_inv_def place_inv_def a_def b_def c_def by linarith+
  have "av = take c av @ drop c av" by simp
  moreover have "take c av = take b av @ drop b (take c av)"
    using append_take_drop_id [of b "take c av"] le by (simp add: min_def)
  moreover have "take b av = take a av @ drop a (take b av)"
    using append_take_drop_id [of a "take b av"] le by (simp add: min_def)
  ultimately have "av = take a av @ drop a (take b av) @ drop b (take c av) @ drop c av"
    by (metis append_assoc)
  moreover have "length (take a av) = a" "length (drop a (take b av)) = b - a" "length (drop b (take c av)) = c - b"
    using le by simp_all
  ultimately show ?thesis
    using le eqs by (intro that [of "take a av" "drop a (take b av)" "drop b (take c av)" "drop c av"])
      (simp add: split_argv_def av_def [symmetric])
qed

definition exchanged :: "'w parser \<Rightarrow> string list \<Rightarrow> string list \<Rightarrow> string list \<Rightarrow> string list \<Rightarrow> 'w parser" where
  "exchanged p ps xs ys ss = p\<lparr>pstate := (pstate p)\<lparr>argv := ps @ ys @ xs @ ss\<rparr>,
    first_nonopt := int (length (ps @ ys)), last_nonopt := int (length (ps @ ys @ xs))\<rparr>"

lemma exchanged_keeps:
  assumes sp: "split_argv p ps xs ys ss" and inv: "run_inv p" and nc: "nextchar p = None" "\<not> args_only p"
  shows "exchange p = Done (exchanged p ps xs ys ss)" "run_inv (exchanged p ps xs ys ss)"
    "weight (exchanged p ps xs ys ss) = weight p"
    "mset (argv (pstate (exchanged p ps xs ys ss))) = mset (argv (pstate p))"
    "last_nonopt (exchanged p ps xs ys ss) = nexti (pstate p)"
proof -
  show "exchange p = Done (exchanged p ps xs ys ss)"
    using exchange_split [OF sp] by (simp add: exchanged_def)
  show "run_inv (exchanged p ps xs ys ss)" "last_nonopt (exchanged p ps xs ys ss) = nexti (pstate p)"
    using sp inv nc by (auto simp: run_inv_def place_inv_def exchanged_def split_argv_def)
  have "drop (length (ps @ xs @ ys)) (ps @ xs @ ys @ ss) = drop (length (ps @ ys @ xs)) (ps @ ys @ xs @ ss)"
    by simp
  then show "weight (exchanged p ps xs ys ss) = weight p"
    using sp by (simp add: weight_def exchanged_def split_argv_def ac_simps nat_int_add)
  show "mset (argv (pstate (exchanged p ps xs ys ss))) = mset (argv (pstate p))"
    using sp by (simp add: exchanged_def split_argv_def)
qed

text \<open>Offering an argument moves \<open>next\<close> forward by what was taken, or nothing was accepted.\<close>

lemma set_next_course:
  "same_course p q \<Longrightarrow> same_course (set_next n p) (set_next n q)"
  by (simp add: same_course_def set_next_def)

lemma set_next_id: "nexti (pstate p) = n \<Longrightarrow> same_course (set_next n p) p"
  by (simp add: same_course_def set_next_def)

lemma set_next_set_next [simp]: "set_next n (set_next m p) = set_next n p"
  by (simp add: set_next_def)

lemma set_next_groups [simp]: "groups (set_next n p) = groups p"
  by (simp add: set_next_def)

lemma nexti_set_next [simp]: "nexti (pstate (set_next n p)) = n"
  by (simp add: set_next_def)

lemma nexti_course: "same_course p q \<Longrightarrow> nexti (pstate q) = nexti (pstate p)"
  by (simp add: same_course_def)

lemma offer_arg_course:
  assumes "offer_arg gs val key err lastg p = Done (key', err', g', p')" and "err = EBADKEY"
    and "set gs \<subseteq> {..< length (groups p)}" and "\<forall>gr \<in> set (groups p). polite_group gr"
    and "n = nexti (pstate p)" and "\<not> writes_argv0 (st_flags (pstate p))"
  shows "if err' = EBADKEY then same_course p p'
    else g' \<in> set gs \<and> (key' = ARGP_KEY_ARG \<and> same_course (set_next (n + 1) p) p'
      \<or> key' = ARGP_KEY_ARGS \<and> same_course p p')"
  using assms
proof (induction gs arbitrary: key err lastg p)
  case Nil
  then show ?case by simp
next
  case (Cons g gs)
  have g: "g < length (groups p)" using Cons.prems(3) by simp
  define p0 where "p0 = set_next (n + 1) p"
  have p0: "move_next 1 p = p0" using Cons.prems(5) by (simp add: p0_def move_next_set)
  have offer: "offer_arg (g # gs) val key err lastg p =
      and_then (group_parse g ARGP_KEY_ARG (Some val) p0) (\<lambda>(err, p).
          if err = EBADKEY then
            and_then (group_parse g ARGP_KEY_ARGS None (move_next (- 1) p)) (\<lambda>(err, p).
              offer_arg gs val ARGP_KEY_ARGS err g p)
          else offer_arg gs val ARGP_KEY_ARG err g p)"
    using Cons.prems(2) by (simp add: p0)
  from Cons.prems(1) obtain e1 p1 where r1: "group_parse g ARGP_KEY_ARG (Some val) p0 = Done (e1, p1)"
    and rest: "(if e1 = EBADKEY then
            and_then (group_parse g ARGP_KEY_ARGS None (move_next (- 1) p1)) (\<lambda>(err, p).
              offer_arg gs val ARGP_KEY_ARGS err g p)
          else offer_arg gs val ARGP_KEY_ARG e1 g p1) = Done (key', err', g', p')"
    unfolding offer by (auto simp: and_then_Done)
  have c1: "same_course p0 p1"
    using group_parse_same_course [OF r1] g Cons.prems(4,6) by (simp add: p0_def set_next_def)
  show ?case
  proof (cases "e1 = EBADKEY")
    case False
    then have "offer_arg gs val ARGP_KEY_ARG e1 g p1 = Done (ARGP_KEY_ARG, e1, g, p1)"
      by (cases gs) auto
    with rest False c1 show ?thesis by (auto simp: p0_def)
  next
    case True
    have put_back: "move_next (- 1) p1 = set_next n p1"
      using nexti_course [OF c1] by (simp add: move_next_set p0_def)
    have len1: "length (groups p1) = length (groups p)"
      using same_course_groups [OF c1] by (simp add: p0_def)
    have c1': "same_course p (set_next n p1)"
      using set_next_course [OF c1, of n] set_next_id [of p n] Cons.prems(5)
      by (auto simp: p0_def same_course_def set_next_def)
    from rest True obtain e2 p2 where r2: "group_parse g ARGP_KEY_ARGS None (set_next n p1) = Done (e2, p2)"
      and rest2: "offer_arg gs val ARGP_KEY_ARGS e2 g p2 = Done (key', err', g', p')"
      by (auto simp: and_then_Done put_back)
    have pol1: "\<forall>gr \<in> set (groups (set_next n p1)). polite_group gr"
      by (rule same_course_polite [OF c1' Cons.prems(4)])
    have c2: "same_course p p2"
      by (rule same_course_trans [OF c1' group_parse_same_course [OF r2 _ pol1]])
        (use Cons.prems(6) g len1 c1' in \<open>simp_all add: same_course_def set_next_def\<close>)
    show ?thesis
    proof (cases "e2 = EBADKEY")
      case False
      then have "offer_arg gs val ARGP_KEY_ARGS e2 g p2 = Done (ARGP_KEY_ARGS, e2, g, p2)"
        by (cases gs) auto
      with rest2 False c2 show ?thesis by auto
    next
      case e2: True
      have "if err' = EBADKEY then same_course p2 p'
        else g' \<in> set gs \<and> (key' = ARGP_KEY_ARG \<and> same_course (set_next (n + 1) p2) p'
          \<or> key' = ARGP_KEY_ARGS \<and> same_course p2 p')"
        using Cons.prems(3,5) same_course_groups [OF c2] nexti_course [OF c2]
        by (intro Cons.IH [OF rest2 e2 _ same_course_polite [OF c2 Cons.prems(4)]])
          (use c2 Cons.prems(6) in \<open>auto simp: same_course_def\<close>)
      moreover have "same_course (set_next (n + 1) p) (set_next (n + 1) p2)" by (rule set_next_course [OF c2])
      ultimately show ?thesis using c2 by (auto intro: same_course_trans split: if_splits)
    qed
  qed
qed

lemma args_processed_course:
  "g < length (groups p) \<Longrightarrow> same_course p (p\<lparr>groups := (groups p)[g := (groups p ! g)\<lparr>args_processed := m\<rparr>]\<rparr>)"
  by (simp add: same_course_def map_update group_shape_def list_update_same_conv)

lemma parse_arg_course:
  assumes r: "parser_parse_arg val p = Done (err, p')"
    and pol: "\<forall>gr \<in> set (groups p). polite_group gr" and more: "nexti (pstate p) < argc (pstate p)"
    and argv0: "\<not> writes_argv0 (st_flags (pstate p))"
  obtains m where "same_course (set_next m p) p'" and "nexti (pstate p) \<le> m" and "m \<le> argc (pstate p)"
    and "err = 0 \<longrightarrow> nexti (pstate p) < m"
proof -
  define n where "n = nexti (pstate p)"
  from r obtain key err' g p1 where offer: "offer_arg [0 ..< length (groups p)] val 0 EBADKEY 0 p = Done (key, err', g, p1)"
    and rest: "(if err' = 0 then
        let q = (if key = ARGP_KEY_ARGS then set_next (argc (pstate p1)) p1 else p1) in
          if n < nexti (pstate q) then
            Done (err', q\<lparr>groups := (groups q)[g := (groups q ! g)\<lparr>args_processed :=
                args_processed (groups q ! g) + word_of_int (nexti (pstate q) - n)\<rparr>]\<rparr>)
          else Done (err', q\<lparr>args_only := False\<rparr>)
        else Done (err', p1)) = Done (err, p')"
    unfolding parser_parse_arg_def and_then_Done Let_def set_next_def n_def by auto
  have "set [0 ..< length (groups p)] \<subseteq> {..< length (groups p)}" by auto
  note c = offer_arg_course [OF offer refl this pol n_def argv0]
  show ?thesis
  proof (cases "err' = 0")
    case False
    with rest have p': "p' = p1" "err = err'" by auto
    have "same_course p p1 \<or> same_course (set_next (n + 1) p) p1"
      using c by (auto split: if_splits)
    then show ?thesis
      using that [of n] that [of "n + 1"] more False p' set_next_id [of p n]
      by (auto simp: n_def same_course_def set_next_def)
  next
    case True
    define m where "m = (if key = ARGP_KEY_ARGS then argc (pstate p) else n + 1)"
    define q where "q = (if key = ARGP_KEY_ARGS then set_next (argc (pstate p1)) p1 else p1)"
    have keys: "ARGP_KEY_ARGS \<noteq> ARGP_KEY_ARG" by (simp add: ARGP_KEY_ARGS_def ARGP_KEY_ARG_def)
    from c have g: "g < length (groups p)" and kc: "key = ARGP_KEY_ARG \<and> same_course (set_next (n + 1) p) p1
      \<or> key = ARGP_KEY_ARGS \<and> same_course p p1"
      using True by (auto simp: EBADKEY_def)
    then have cq: "same_course (set_next m p) q"
      using keys by (auto simp: m_def q_def same_course_def set_next_def)
    have m: "n < m" "m \<le> argc (pstate p)" using more by (auto simp: m_def n_def)
    have "nexti (pstate q) = m" using nexti_course [OF cq] by simp
    then have p': "p' = q\<lparr>groups := (groups q)[g := (groups q ! g)\<lparr>args_processed :=
                args_processed (groups q ! g) + word_of_int (m - n)\<rparr>]\<rparr>"
      using rest True m unfolding q_def [symmetric] by (simp add: Let_def)
    have "g < length (groups q)" using same_course_groups [OF cq] g by simp
    then have "same_course (set_next m p) p'"
      unfolding p' by (rule same_course_trans [OF cq args_processed_course])
    with m show ?thesis by (intro that [of m]) (auto simp: n_def)
  qed
qed

lemma good_arg:
  assumes inv: "run_inv p" and more: "nexti (pstate p) < argc (pstate p)"
    and nc: "nextchar p = None"
  shows "good_next p (with_ebadkey eb (parser_parse_arg val p))"
  unfolding with_ebadkey_def
proof (rule good_next_then)
  fix x assume x: "parser_parse_arg val p = Done x"
  obtain err p' where xx: "x = (err, p')" by (cases x)
  define n where "n = nexti (pstate p)"
  have "\<forall>gr \<in> set (groups p). polite_group gr" "\<not> writes_argv0 (st_flags (pstate p))"
    using inv by (simp_all add: run_inv_def place_inv_def)
  from parse_arg_course [OF x [unfolded xx] this(1) more this(2)] obtain m
    where c: "same_course (set_next m p) p'" and m: "n \<le> m" "m \<le> argc (pstate p)" "err = 0 \<longrightarrow> n < m"
    unfolding n_def by metis
  have inv': "run_inv (set_next m p)"
    using inv m by (auto simp: run_inv_def place_inv_def set_next_def n_def)
  have less: "weight (set_next m p) < weight p" if "n < m"
  proof -
    have "weight (set_next m p) \<le> weight (move_next 1 p)"
      using that nc inv drop_weight_le [of "nat (n + 1)" "nat m" "argv (pstate p)"]
      by (simp add: weight_def set_next_def move_next_def n_def)
    then show ?thesis using move_on(2) [OF inv more] by simp
  qed
  have "argv (pstate p') = argv (pstate p)" "args_only p' = args_only p"
    using c by (simp_all add: same_course_def set_next_def)
  then show "good_next p (case x of (err, p) \<Rightarrow> Done (err, eb, p))"
    using run_inv_course [OF inv' c] less m weight_course [OF c]
    by (simp add: xx good_next_Done run_inv_def course_order_def)
qed

lemma good_nonoption:
  assumes inv: "run_inv p" and more: "nexti (pstate p) < argc (pstate p)"
    and nc: "nextchar p = None" "\<not> args_only p"
  shows "good_next p (parse_nonoption arg eb p)"
proof (cases "ord p")
  case RETURN_IN_ORDER
  then show ?thesis using good_arg [OF inv more nc(1)] by (simp add: parse_nonoption_def)
next
  case REQUIRE_ORDER
  have "run_inv (p\<lparr>args_only := True\<rparr>)"
    using inv nc REQUIRE_ORDER by (auto simp: run_inv_def place_inv_def)
  then show ?thesis
    using REQUIRE_ORDER nc by (simp add: parse_nonoption_def good_next_Done run_inv_def course_order_def)
next
  case PERMUTE
  from inv obtain ps xs ys ss where sp: "split_argv p ps xs ys ss" by (rule run_inv_split)
  note ex = exchanged_keeps [OF sp inv nc]
  have skip: "good_next p (Done (0, eb, (move_next 1 q)\<lparr>last_nonopt := nexti (pstate q) + 1\<rparr>))"
    if q: "run_inv q" "weight q = weight p" "mset (argv (pstate q)) = mset (argv (pstate p))"
      "nexti (pstate q) = nexti (pstate p)" "argc (pstate q) = argc (pstate p)" "ord q = PERMUTE"
      "nextchar q = None" "\<not> args_only q" for q
  proof -
    have "nexti (pstate q) < argc (pstate q)" using more q by simp
    note on = move_on [OF q(1) this]
    define q1 where "q1 = (move_next 1 q)\<lparr>last_nonopt := nexti (pstate q) + 1\<rparr>"
    have "run_inv q1"
      using on(1) q by (auto simp: run_inv_def place_inv_def move_next_def q1_def)
    moreover have "weight q1 < weight p" using on(2) q(2) by (simp add: weight_def q1_def)
    ultimately show ?thesis
      using q nc on(3) by (simp add: good_next_Done run_inv_def course_order_def q1_def)
  qed
  define q0 where "q0 = p\<lparr>first_nonopt := nexti (pstate p), last_nonopt := nexti (pstate p)\<rparr>"
  have q0: "run_inv q0" "weight q0 = weight p" using inv nc by (auto simp: run_inv_def place_inv_def q0_def weight_def)
  have fields: "nexti (pstate (exchanged p ps xs ys ss)) = nexti (pstate p)"
    "argc (pstate (exchanged p ps xs ys ss)) = argc (pstate p)" "ord (exchanged p ps xs ys ss) = PERMUTE"
    "nextchar (exchanged p ps xs ys ss) = None" "\<not> args_only (exchanged p ps xs ys ss)"
    using PERMUTE nc by (simp_all add: exchanged_def)
  consider (empty) "first_nonopt p = last_nonopt p" | (apart) "first_nonopt p \<noteq> last_nonopt p" "last_nonopt p \<noteq> nexti (pstate p)"
    | (adjacent) "first_nonopt p \<noteq> last_nonopt p" "last_nonopt p = nexti (pstate p)" by blast
  then show ?thesis
  proof cases
    case empty
    then show ?thesis
      using skip [OF q0] PERMUTE nc by (simp add: parse_nonoption_def q0_def)
  next
    case apart
    then show ?thesis
      using skip [OF ex(2-4) fields] PERMUTE ex(5) fields(1) by (simp add: parse_nonoption_def ex(1))
  next
    case adjacent
    then show ?thesis
      using skip [OF inv] PERMUTE nc by (simp add: parse_nonoption_def)
  qed
qed

lemma good_quote:
  assumes inv: "run_inv p" and more: "nexti (pstate p) < argc (pstate p)"
    and nc: "nextchar p = None" "\<not> args_only p"
  shows "good_next p (parse_quote eb p)"
proof -
  define q where "q = move_next 1 p"
  have q: "run_inv q" "argv (pstate q) = argv (pstate p)" "nextchar q = None" "\<not> args_only q"
    using move_on [OF inv more] nc by (simp_all add: q_def move_next_def)
  from q(1) obtain ps xs ys ss where sp: "split_argv q ps xs ys ss" by (rule run_inv_split)
  note ex = exchanged_keeps [OF sp q(1,3,4)]
  define e where "e = exchanged q ps xs ys ss"
  define e1 where "e1 = e\<lparr>pstate := (pstate e)\<lparr>quoted := first_nonopt e, nexti := first_nonopt e\<rparr>,
            first_nonopt := 0, last_nonopt := 0, args_only := True\<rparr>"
  define q1 where "q1 = q\<lparr>pstate := (pstate q)\<lparr>quoted := nexti (pstate q)\<rparr>, args_only := True\<rparr>"
  have e1: "run_inv e1"
    using ex(2) q(3) by (auto simp: run_inv_def place_inv_def e1_def e_def exchanged_def)
  have q1: "run_inv q1" if "first_nonopt q = last_nonopt q"
    using q that by (auto simp: run_inv_def place_inv_def q1_def)
  have "good_next p (Done (0, eb, e1))"
    using e1 ex(4) q(2) nc by (simp add: good_next_Done run_inv_def course_order_def e1_def e_def)
  moreover have "good_next p (Done (0, eb, q1))" if "first_nonopt q = last_nonopt q"
    using q1 [OF that] q(2) nc by (simp add: good_next_Done run_inv_def course_order_def q1_def)
  ultimately show ?thesis
    unfolding parse_quote_def Let_def q_def [symmetric] ex(1) by (simp add: e1_def e_def q1_def)
qed

lemma good_skipped:
  assumes inv: "run_inv p" and nc: "nextchar p = None" "\<not> args_only p"
  shows "good_next p (parse_skipped p)"
proof -
  from inv obtain ps xs ys ss where sp: "split_argv p ps xs ys ss" by (rule run_inv_split)
  note ex = exchanged_keeps [OF sp inv nc]
  define e where "e = exchanged p ps xs ys ss"
  define e1 where "e1 = e\<lparr>pstate := (pstate e)\<lparr>nexti := first_nonopt e\<rparr>,
            first_nonopt := 0, last_nonopt := 0, args_only := True\<rparr>"
  have "run_inv e1"
    using ex(2) nc inv by (auto simp: run_inv_def place_inv_def e1_def e_def exchanged_def)
  then have "good_next p (Done (0, True, e1))"
    using ex(4) nc by (simp add: good_next_Done run_inv_def course_order_def e1_def e_def)
  moreover have "good_next p (Done (EBADKEY, True, p))"
    using inv by (simp add: good_next_Done run_inv_def EBADKEY_def)
  ultimately show ?thesis
    unfolding parse_skipped_def ex(1) by (simp add: e1_def e_def)
qed

text \<open>One step of the loop.\<close>

lemma resume_idle:
  assumes "run_inv p"
  shows "resume_next p = p"
proof -
  have "\<not> (quoted (pstate p) \<noteq> 0 \<and> nexti (pstate p) < quoted (pstate p))"
    "\<not> nexti (pstate p) < last_nonopt p" "\<not> nexti (pstate p) < first_nonopt p"
    using assms unfolding run_inv_def place_inv_def by linarith+
  then show ?thesis unfolding resume_next_def Let_def by (simp only: if_False)
qed

lemma good_step:
  assumes inv: "run_inv p"
  shows "good_next p (parser_parse_next eb p)"
proof (cases "nextchar p")
  case (Some chars)
  then show ?thesis
    using good_short [OF inv Some] by (simp add: parser_parse_next_def resume_idle [OF inv])
next
  case None
  have stop: "good_next p (Done (EBADKEY, True, p))"
    using inv by (simp add: good_next_Done run_inv_def EBADKEY_def)
  show ?thesis
  proof (cases "nexti (pstate p) \<ge> argc (pstate p)")
    case True
    then show ?thesis
      using good_skipped [OF inv None] None stop by (simp add: parser_parse_next_def resume_idle [OF inv])
  next
    case False
    then have more: "nexti (pstate p) < argc (pstate p)" by simp
    show ?thesis
    proof (cases "args_only p")
      case True
      then show ?thesis
        using False None by (auto simp: parser_parse_next_def resume_idle [OF inv] intro!: good_next_then good_arg [OF inv more None])
    next
      case ao: False
      have shorts: "good_next p (Done (0, eb, (move_next 1 p)\<lparr>nextchar := Some opt\<rparr>))"
        if "argv_at (nexti (pstate p)) p = Done arg" "classify_arg p arg = Done (ARG_SHORT_OPTION, opt)" for arg opt
      proof -
        have opt: "arg = CHR ''-'' # opt" "opt \<noteq> []"
          using that(2) by (auto simp: classify_arg_def split: list.splits if_splits option.splits)
        have "arg = argv (pstate p) ! nat (nexti (pstate p))" using that(1) by (simp add: argv_at_Done)
        with opt have "weight ((move_next 1 p)\<lparr>nextchar := Some opt\<rparr>) < weight p"
          using move_on(2) [OF inv more] None by (simp add: weight_def move_next_def)
        moreover have "run_inv ((move_next 1 p)\<lparr>nextchar := Some opt\<rparr>)"
          using move_on(1) [OF inv more] opt ao by (auto simp: run_inv_def place_inv_def move_next_def)
        ultimately show ?thesis
          using ao by (simp add: good_next_Done run_inv_def course_order_def move_next_def)
      qed
      show ?thesis
        unfolding parser_parse_next_def resume_idle [OF inv] Let_def None option.case if_not_P [OF ao] if_not_P [OF False]
      proof (intro good_next_then, clarify)
        fix arg token opt
        assume "argv_at (nexti (pstate p)) p = Done arg" "classify_arg p arg = Done (token, opt)"
        then show "good_next p (case token of ARG_ARG \<Rightarrow> parse_nonoption arg eb p
              | ARG_SHORT_OPTION \<Rightarrow> Done (0, eb, (move_next 1 p)\<lparr>nextchar := Some opt\<rparr>)
              | ARG_QUOTE \<Rightarrow> parse_quote eb p | _ \<Rightarrow> parse_long token arg opt p)"
          using shorts good_nonoption [OF inv more None ao] good_quote [OF inv more None ao] good_long [OF inv ao more]
          by (cases token) auto
      qed
    qed
  qed
qed

section \<open>The loop\<close>

lemma wf_course: "wf course_order"
  by (simp add: course_order_def)

lemma parse_loop_ends:
  "run_inv p \<Longrightarrow> \<exists>r. parse_loop eb p = Some r \<and>
     (\<forall>err eb' p'. r = Done (err, eb', p') \<longrightarrow> err \<noteq> 0 \<and> place_inv p' \<and> mset (argv (pstate p')) = mset (argv (pstate p)))"
proof (induction p arbitrary: eb rule: wf_induct_rule [OF wf_course])
  case (1 p)
  have good: "good_next p (parser_parse_next eb p)" by (rule good_step [OF 1(2)])
  show ?case
  proof (cases "parser_parse_next eb p")
    case (Done x)
    obtain err eb' p' where x: "x = (err, eb', p')" by (cases x)
    have g: "place_inv p'" "mset (argv (pstate p')) = mset (argv (pstate p))"
      "err = 0 \<Longrightarrow> run_inv p' \<and> (p', p) \<in> course_order"
      using good by (simp_all add: Done x good_next_Done)
    show ?thesis
    proof (cases "err = 0")
      case True
      then have "parse_loop eb p = parse_loop eb' p'" by (subst parse_loop.simps) (simp add: Done x)
      with 1(1) [of p' eb'] g True show ?thesis by simp
    next
      case False
      then have "parse_loop eb p = Some (Done (err, eb', p'))" by (subst parse_loop.simps) (simp add: Done x)
      with g False show ?thesis by simp
    qed
  qed (subst parse_loop.simps, simp)+
qed

end
