(* ===== verification/Argp_Ends.thy ===== *)
theory Argp_Ends
  imports Argp_Run
begin

text \<open>
  From the tree of argps to the first state of the loop, and from its last state to the
  result: nothing but the answers of the parsing functions is lost or reordered.
\<close>

section \<open>The start and the end\<close>

text \<open>A tree of argps whose parsing functions are all polite.\<close>

fun polite_tree :: "'w argp_fun argp \<Rightarrow> bool" and polite_trees :: "'w argp_fun argp list \<Rightarrow> bool" where
  "polite_tree (Argp a opts prs chs) \<longleftrightarrow>
     (case prs of None \<Rightarrow> True | Some f \<Rightarrow> polite f) \<and> (case chs of None \<Rightarrow> True | Some cs \<Rightarrow> polite_trees cs)"
| "polite_trees [] \<longleftrightarrow> True"
| "polite_trees (a # as) \<longleftrightarrow> polite_tree a \<and> polite_trees as"

lemma record_short_groups: "record_short opts c = Done c' \<Longrightarrow> cvt_groups c' = cvt_groups c"
  by (induction opts c rule: record_short.induct) (auto split: if_splits option.splits)

lemma record_options_groups: "record_options tab c = Done c' \<Longrightarrow> cvt_groups c' = cvt_groups c"
  by (auto simp: record_options_def split: if_splits option.splits dest: record_short_groups)

lemma convert_polite:
  "convert_options a par i c = Done c' \<Longrightarrow> polite_tree a \<Longrightarrow> \<forall>gr \<in> set (cvt_groups c). polite_group gr \<Longrightarrow>
     \<forall>gr \<in> set (cvt_groups c'). polite_group gr"
  "convert_children as par i c = Done c' \<Longrightarrow> polite_trees as \<Longrightarrow> \<forall>gr \<in> set (cvt_groups c). polite_group gr \<Longrightarrow>
     \<forall>gr \<in> set (cvt_groups c'). polite_group gr"
proof (induction a par i c and as par i c arbitrary: c' and c' rule: convert_options_convert_children.induct)
  case (1 a opts prs chs par index c)
  show ?case
  proof (cases "opts \<noteq> None \<or> prs \<noteq> None")
    case True
    with "1.prems"(1) obtain c1 where c1: "record_options opts c = Done c1" by (auto simp: and_then_Done)
    define gr where "gr = \<lparr>g_parser = prs, g_argp = a, g_options = opts,
                g_has_child = (case chs of None \<Rightarrow> False | Some cs \<Rightarrow> cs \<noteq> []), args_processed = 0,
                parent = par, parent_index = index, g_input = 0,
                g_child_inputs = (case chs of None \<Rightarrow> None | Some _ \<Rightarrow> Some (cvt_child_end c1)), g_hook = 0\<rparr>"
    define c2 where "c2 = c1\<lparr>cvt_groups := cvt_groups c1 @ [gr],
                cvt_child_end := cvt_child_end c1 + (case chs of None \<Rightarrow> 0 | Some cs \<Rightarrow> length cs)\<rparr>"
    have gr: "polite_group gr" using "1.prems"(2) by (simp add: gr_def polite_group_def)
    have c2: "\<forall>gr \<in> set (cvt_groups c2). polite_group gr"
      using "1.prems"(3) gr record_options_groups [OF c1] by (simp add: c2_def)
    have eq: "convert_options (Argp a opts prs chs) par index c =
        (case chs of None \<Rightarrow> Done c2 | Some cs \<Rightarrow> convert_children cs (Some (length (cvt_groups c1))) 0 c2)"
      unfolding convert_options.simps if_P [OF True] c1 and_then.simps Let_def gr_def c2_def ..
    show ?thesis
    proof (cases chs)
      case None
      with "1.prems"(1) c2 eq show ?thesis by simp
    next
      case (Some cs)
      have "convert_children cs (Some (length (cvt_groups c1))) 0 c2 = Done c'" using "1.prems"(1) eq Some by simp
      from "1.IH"(1) [OF True gr_def c2_def Some this _ c2] "1.prems"(2) Some show ?thesis by simp
    qed
  next
    case False
    with 1 show ?thesis by (cases chs) auto
  qed
next
  case (3 a as par index c)
  from "3.prems"(1) obtain c1 where c1: "convert_options a par index c = Done c1"
      "convert_children as par (Suc index) c1 = Done c'"
    unfolding convert_children.simps by (rule and_thenE)
  have "\<forall>gr \<in> set (cvt_groups c1). polite_group gr" using "3.IH"(1) [OF c1(1)] "3.prems"(2,3) by simp
  with "3.IH"(2) [OF c1(2)] "3.prems"(2) show ?case by simp
qed simp

lemma parser_convert_polite:
  assumes "parser_convert argp short room = Done (grs, short')" and "\<forall>a. argp = Some a \<longrightarrow> polite_tree a"
  shows "\<forall>gr \<in> set grs. polite_group gr"
proof -
  define c0 where "c0 = \<lparr>cvt_groups = [] :: 'a group list, cvt_child_end = 0, cvt_short = short, cvt_short_room = room\<rparr>"
  from assms(1) obtain c where c: "(case argp of Some a \<Rightarrow> convert_options a None 0 c0 | None \<Rightarrow> Done c0) = Done c"
    and r: "(case cvt_short c of None \<Rightarrow> Done (cvt_groups c, None)
         | Some s \<Rightarrow> if length s < room then Done (cvt_groups c, Some s) else Faults) = Done (grs, short')"
    unfolding parser_convert_def Let_def c0_def by (rule and_thenE)
  from r have grs: "grs = cvt_groups c" by (simp split: option.splits if_splits)
  show ?thesis
  proof (cases argp)
    case None
    with c grs show ?thesis by (auto simp: c0_def)
  next
    case (Some a)
    have "convert_options a None 0 c0 = Done c" using c Some by simp
    from convert_polite(1) [OF this] assms(2) Some show ?thesis by (simp add: grs c0_def)
  qed
qed

text \<open>Handing on the inputs changes nothing of the course.\<close>

lemma set_input_course: "g < length (groups p) \<Longrightarrow> same_course p (set_input g v p)"
  by (simp add: same_course_def set_input_def map_update group_shape_def list_update_same_conv)

lemma inherit_input_course: "inherit_input g p = Done p' \<Longrightarrow> g < length (groups p) \<Longrightarrow> same_course p p'"
  by (auto simp: inherit_input_def Let_def set_input_course split: option.splits if_splits)

lemma pass_input_course: "pass_input g p = Done p' \<Longrightarrow> same_course p p'"
  by (auto simp: pass_input_def same_course_def split: option.splits if_splits)

definition all_polite :: "'w parser \<Rightarrow> bool" where
  "all_polite p \<longleftrightarrow> (\<forall>gr \<in> set (groups p). polite_group gr) \<and> \<not> writes_argv0 (st_flags (pstate p))"

lemma all_polite_course: "all_polite p \<Longrightarrow> same_course p p' \<Longrightarrow> all_polite p'"
  using same_course_polite by (auto simp: all_polite_def same_course_def)

lemma group_parse_course:
  "group_parse g key arg p = Done (err, p') \<Longrightarrow> g < length (groups p) \<Longrightarrow> all_polite p \<Longrightarrow> same_course p p'"
  by (rule group_parse_same_course) (auto simp: all_polite_def)

lemma init_groups_course:
  assumes "init_groups gs err p = Done (err', p')" and "set gs \<subseteq> {..< length (groups p)}" and "all_polite p"
  shows "same_course p p'"
  using assms
proof (induction gs err p arbitrary: p' rule: init_groups.induct)
  case (1 err p)
  then show ?case by simp
next
  case (2 g gs err p)
  show ?case
  proof (cases "goes_on err")
    case True
    with "2.prems"(1) obtain p1 p2 e3 p3 where s: "inherit_input g p = Done p1" "pass_input g p1 = Done p2"
      "group_parse g ARGP_KEY_INIT None p2 = Done (e3, p3)" "init_groups gs e3 p3 = Done (err', p')"
      by (auto simp: and_then_Done)
    have g: "g < length (groups p)" using "2.prems"(2) by simp
    note c1 = inherit_input_course [OF s(1) g]
    note c2 = same_course_trans [OF c1 pass_input_course [OF s(2)]]
    have g2: "g < length (groups p2)" using g same_course_groups [OF c2] by simp
    note c3 = same_course_trans [OF c2 group_parse_course [OF s(3) g2 all_polite_course [OF "2.prems"(3) c2]]]
    have "same_course p3 p'"
      using "2.prems"(2) same_course_groups [OF c3] all_polite_course [OF "2.prems"(3) c3]
      by (intro "2.IH" [OF True s(4)]) simp_all
    with c3 show ?thesis by (rule same_course_trans)
  next
    case False
    with "2.prems"(1) show ?thesis by simp
  qed
qed

definition starts :: "argp_env \<Rightarrow> string list \<Rightarrow> u32 \<Rightarrow> 'w parser \<Rightarrow> bool" where
  "starts env args flags p \<longleftrightarrow> argv (pstate p) = args \<and> first_nonopt p = 0 \<and> last_nonopt p = 0
     \<and> nexti (pstate p) = (if args \<noteq> [] \<and> \<not> has_flag flags ARGP_PARSE_ARGV0 then 1 else 0)
     \<and> \<not> args_only p \<and> quoted (pstate p) = 0 \<and> nextchar p = None
     \<and> ord p = choose_ordering flags (env_posix env) \<and> st_flags (pstate p) = flags"

lemma parser_init_run_inv:
  assumes r: "parser_init env argp args flags input w = Done (err, Some p)"
    and pol: "\<forall>a. argp = Some a \<longrightarrow> polite_tree a" and fl: "\<not> writes_argv0 flags"
  shows "run_inv p \<and> starts env args flags p"
proof -
  from r have mem: "env_memory env"
    by (cases "env_memory env") (simp_all add: parser_init_def Let_def)
  define szs where "szs = init_sizes flags argp"
  define short0 where "short0 = (if has_flag flags ARGP_LONG_ONLY then Some [] else (None :: string option))"
  define rest where "rest = (\<lambda>(grs, short).
          and_then (init_groups [0 ..< length grs] 0
              (init_parser env args flags input w (num_child_inputs szs) grs short)) (\<lambda>(err, p).
            let err = (if err = EBADKEY then 0 else err) in
            if err \<noteq> 0 then Done (err, None) else Done (0, Some (init_name env p))))"
  have "and_then (parser_convert argp short0 (short_len szs + 1)) rest = Done (err, Some p)"
    using r mem unfolding parser_init_def Let_def szs_def short0_def rest_def by (simp only: not_True_eq_False if_False)
  then obtain x where x: "parser_convert argp short0 (short_len szs + 1) = Done x" and r1: "rest x = Done (err, Some p)"
    by (rule and_thenE)
  obtain grs short where xx: "x = (grs, short)" by (cases x)
  define p0 where "p0 = init_parser env args flags input w (num_child_inputs szs) grs short"
  from r1 obtain y where init': "init_groups [0 ..< length grs] 0 p0 = Done y"
    and fin': "(case y of (err, p) \<Rightarrow> let err = (if err = EBADKEY then 0 else err) in
            if err \<noteq> 0 then Done (err, None) else Done (0, Some (init_name env p))) = Done (err, Some p)"
    unfolding xx rest_def prod.case p0_def [symmetric] by (rule and_thenE)
  obtain e1 p1 where y: "y = (e1, p1)" by (cases y)
  from fin' have fin: "p = init_name env p1" by (simp add: y Let_def split: if_splits)
  note init = init' [unfolded y]
  have "\<forall>gr \<in> set grs. polite_group gr" using parser_convert_polite [OF x [unfolded xx]] pol by simp
  then have inv0: "run_inv p0" and p0: "argv (pstate p0) = args" "first_nonopt p0 = 0" "last_nonopt p0 = 0"
    "nexti (pstate p0) = 0" "\<not> args_only p0" "quoted (pstate p0) = 0" "length (groups p0) = length grs"
    "nextchar p0 = None" "ord p0 = choose_ordering flags (env_posix env)" "st_flags (pstate p0) = flags"
    using fl by (cases grs, auto simp: run_inv_def place_inv_def p0_def init_parser_def set_input_def polite_group_def)+
  have "same_course p0 p1"
    using inv0 p0 by (intro init_groups_course [OF init])
      (auto simp: all_polite_def run_inv_def place_inv_def)
  then have inv1: "run_inv p1" and f1: "argv (pstate p1) = args" "first_nonopt p1 = 0" "last_nonopt p1 = 0"
      "nexti (pstate p1) = 0" "\<not> args_only p1" "quoted (pstate p1) = 0"
      "nextchar p1 = None" "ord p1 = choose_ordering flags (env_posix env)" "st_flags (pstate p1) = flags"
    using run_inv_course [OF inv0] p0 by (simp_all add: same_course_def)
  show ?thesis
    using inv1 f1 by (auto simp: fin init_name_def run_inv_def place_inv_def starts_def split: list.splits)
qed

lemma call_while_course:
  assumes "call_while gs P key err p = Done (err', p')" and "set gs \<subseteq> {..< length (groups p)}" and "all_polite p"
  shows "same_course p p'"
  using assms
proof (induction gs P key err p arbitrary: p' rule: call_while.induct)
  case (2 g gs P key err p)
  show ?case
  proof (cases "goes_on err \<and> P (groups p ! g)")
    case True
    with "2.prems"(1) obtain e1 p1 where s: "group_parse g key None p = Done (e1, p1)"
      "call_while gs P key e1 p1 = Done (err', p')" by (auto simp: and_then_Done)
    have c: "same_course p p1"
      using group_parse_course [OF s(1)] "2.prems"(2,3) by simp
    have "same_course p1 p'"
      using "2.prems"(2) same_course_groups [OF c] all_polite_course [OF "2.prems"(3) c] True
      by (intro "2.IH"(1) [OF _ _ s(2)]) simp_all
    with c show ?thesis by (rule same_course_trans)
  next
    case False
    then show ?thesis using "2.prems" "2.IH"(2) by (auto split: if_splits)
  qed
qed simp

lemma call_all_course:
  assumes "call_all gs key p = Done p'" and "set gs \<subseteq> {..< length (groups p)}" and "all_polite p"
  shows "same_course p p'"
  using assms
proof (induction gs key p arbitrary: p' rule: call_all.induct)
  case (2 g gs key p)
  from "2.prems"(1) obtain e1 p1 where s: "group_parse g key None p = Done (e1, p1)" "call_all gs key p1 = Done p'"
    by (auto simp: and_then_Done)
  have c: "same_course p p1" using group_parse_course [OF s(1)] "2.prems"(2,3) by simp
  have "same_course p1 p'"
    using "2.prems"(2) same_course_groups [OF c] all_polite_course [OF "2.prems"(3) c]
    by (intro "2.IH" [OF s(2)]) simp_all
  with c show ?case by (rule same_course_trans)
qed simp

text \<open>The results of \<open>parser_finalize\<close>: the vector as it was, the stopping index its next.\<close>

definition ends_at :: "'w parser \<Rightarrow> int \<times> int option \<times> 'w parser \<Rightarrow> bool" where
  "ends_at p r = (case r of (_, stop, p') \<Rightarrow> same_course p p' \<and> (\<forall>n. stop = Some n \<longrightarrow> n = nexti (pstate p)))"

lemma all_parsed_course:
  assumes "all_parsed end_index p = Done r" and ap: "all_polite p"
  shows "ends_at p r"
proof (cases "nexti (pstate p) = argc (pstate p)")
  case False
  with assms(1) show ?thesis
    by (auto simp: all_parsed_def ends_at_def same_course_def Let_def split: if_splits)
next
  case True
  have up: "set (up_groups p) \<subseteq> {..< length (groups p)}" by (auto simp: up_groups_def)
  from True assms(1) obtain e1 p1 e2 p2
    where s: "call_while (up_groups p) (\<lambda>gr. args_processed gr = 0) ARGP_KEY_NO_ARGS 0 p = Done (e1, p1)"
      "call_while (down_groups p1) (\<lambda>_. True) ARGP_KEY_END e1 p1 = Done (e2, p2)"
    and r: "r = (if e2 = EBADKEY then 0 else e2, if end_index then Some (nexti (pstate p2)) else None, p2)"
    unfolding all_parsed_def by (auto elim!: and_thenE split: prod.splits)
  have c1: "same_course p p1" by (rule call_while_course [OF s(1) up ap])
  have "set (down_groups p1) \<subseteq> {..< length (groups p1)}" by (auto simp: down_groups_def)
  from same_course_trans [OF c1 call_while_course [OF s(2) this all_polite_course [OF ap c1]]]
  show ?thesis by (simp add: r ends_at_def nexti_course)
qed

lemma state_help_course:
  "argp_state_help st to stream flags (pstate p) = Done s \<Longrightarrow> same_course p (p\<lparr>pstate := s\<rparr>)"
  by (auto simp: argp_state_help_def same_course_def Let_def split: if_splits)

lemma down_up_groups:
  "set (down_groups p) \<subseteq> {..< length (groups p)}" "set (up_groups p) \<subseteq> {..< length (groups p)}"
  by (auto simp: down_groups_def up_groups_def)

lemma notify_course:
  assumes "notify status err p = Done (err', p')" and ap: "all_polite p"
  shows "same_course p p'"
proof (cases "err = 0")
  case True
  with assms(1) obtain e where "call_while (down_groups p) (\<lambda>_. True) ARGP_KEY_SUCCESS 0 p = Done (e, p')"
    by (auto simp: notify_def elim!: and_thenE)
  then show ?thesis using call_while_course down_up_groups(1) ap by blast
next
  case False
  with assms(1) obtain q where q: "(if err = EBADKEY
           then and_then (argp_state_help status Help_Err (err_stream (pstate p)) ARGP_HELP_STD_ERR (pstate p))
                  (\<lambda>s. Done (p\<lparr>pstate := s\<rparr>))
           else Done p) = Done q" and rest: "call_all (up_groups q) ARGP_KEY_ERROR q = Done p'"
    unfolding notify_def by (simp only: if_True not_False_eq_True) (auto elim!: and_thenE)
  have "same_course p q"
    using q by (cases "err = EBADKEY") (auto elim!: and_thenE intro: state_help_course)
  then show ?thesis
    using call_all_course [OF rest down_up_groups(2)] all_polite_course [OF ap] same_course_trans by blast
qed

lemma finalize_course:
  assumes r: "parser_finalize status p err eb end_index = Done r" and ap: "all_polite p"
  shows "ends_at p r"
proof -
  define err0 where "err0 = (if err = EBADKEY \<and> eb then 0 else err)"
  from r obtain x where x: "(if err0 = 0 then all_parsed end_index p else Done (err0, None, p)) = Done x"
    and fin: "(case x of (err, stop, p) \<Rightarrow> and_then (notify status err p) (\<lambda>(err, p).
      and_then (call_all (down_groups p) ARGP_KEY_FINI p) (\<lambda>p.
        Done (if err = EBADKEY then EINVAL_code else err, stop, p)))) = Done r"
    unfolding parser_finalize_def Let_def err0_def by (rule and_thenE)
  obtain e1 stop p1 where xx: "x = (e1, stop, p1)" by (cases x)
  have "ends_at p x"
  proof (cases "err0 = 0")
    case True
    then show ?thesis using x all_parsed_course [OF _ ap] by simp
  next
    case False
    then show ?thesis using x by (auto simp: ends_at_def)
  qed
  then have c1: "same_course p p1" and stop: "\<And>n. stop = Some n \<Longrightarrow> n = nexti (pstate p)"
    by (simp_all add: ends_at_def xx)
  from fin obtain e2 p2 p3 where s: "notify status e1 p1 = Done (e2, p2)"
      "call_all (down_groups p2) ARGP_KEY_FINI p2 = Done p3"
    and r': "r = (if e2 = EBADKEY then EINVAL_code else e2, stop, p3)"
    by (auto simp: xx elim!: and_thenE split: prod.splits)
  have c2: "same_course p p2"
    by (rule same_course_trans [OF c1 notify_course [OF s(1) all_polite_course [OF ap c1]]])
  have "same_course p p3"
    by (rule same_course_trans [OF c2 call_all_course [OF s(2) down_up_groups(1) all_polite_course [OF ap c2]]])
  then show ?thesis using stop by (simp add: r' ends_at_def)
qed

end
