(* ===== verification/Argp_Order.thy ===== *)
theory Argp_Order
  imports Argp_Ends
begin

text \<open>
  What a command line means, read from left to right without indices and without exchanges,
  and that the loop over the vector does the same: options are handed to their parsers in
  order, then the other arguments, and the vector ends with the options before them.  This
  reading uses the parser's own searches; at the end stands one made from the documentation alone, and
  that on the tables where code and documentation agree the two are the same.
\<close>

section \<open>The reference\<close>

type_synonym parser_call = "nat \<times> int \<times> string option"

text \<open>
  An element is an argument, the quote, or options: their calls, and perhaps one that still
  waits for its argument, the next element.
\<close>

datatype element = Argument | Quoting | Options "parser_call list" "(nat \<times> int) option"

fun read_cluster :: "'w parser \<Rightarrow> string \<Rightarrow> (parser_call list \<times> (nat \<times> int) option) option" where
  "read_cluster p [] = Some ([], None)"
| "read_cluster p (c # rest) =
     (case find_short_option p (schar c) of
        Done (Some (g, opt)) \<Rightarrow>
          if opt_arg opt = None then
            map_option (\<lambda>(cs, wait). ((g, opt_key opt, None) # cs, wait)) (read_cluster p rest)
          else if rest \<noteq> [] then Some ([(g, opt_key opt, Some rest)], None)
          else if lacks_argument opt None then Some ([], Some (g, opt_key opt))
          else Some ([(g, opt_key opt, None)], None)
      | _ \<Rightarrow> None)"

definition read_long :: "'w parser \<Rightarrow> string \<Rightarrow> (parser_call list \<times> (nat \<times> int) option) option" where
  "read_long p body =
     (case find_long_option p body of
        Done (Some (g, opt), _) \<Rightarrow>
          if value_of body \<noteq> None \<and> opt_arg opt = None then None
          else if lacks_argument opt (value_of body) then Some ([], Some (g, opt_key opt))
          else Some ([(g, opt_key opt, value_of body)], None)
      | _ \<Rightarrow> None)"

definition read_element :: "'w parser \<Rightarrow> string \<Rightarrow> element option" where
  "read_element p w =
     (case classify_arg p w of
        Done (ARG_ARG, _) \<Rightarrow> Some Argument
      | Done (ARG_QUOTE, _) \<Rightarrow> Some Quoting
      | Done (ARG_SHORT_OPTION, body) \<Rightarrow> map_option (\<lambda>(cs, wait). Options cs wait) (read_cluster p body)
      | Done (_, body) \<Rightarrow> map_option (\<lambda>(cs, wait). Options cs wait) (read_long p body)
      | _ \<Rightarrow> None)"

text \<open>The calls for the options, the elements that are options, those that are not.\<close>

fun read_line :: "'w parser \<Rightarrow> string list \<Rightarrow> (parser_call list \<times> string list \<times> string list) option" where
  "read_line p [] = Some ([], [], [])"
| "read_line p (w # ws) =
     (case read_element p w of
        None \<Rightarrow> None
      | Some Argument \<Rightarrow> map_option (\<lambda>(cs, os, ns). (cs, os, w # ns)) (read_line p ws)
      | Some Quoting \<Rightarrow> Some ([], [w], ws)
      | Some (Options cs0 None) \<Rightarrow> map_option (\<lambda>(cs, os, ns). (cs0 @ cs, w # os, ns)) (read_line p ws)
      | Some (Options cs0 (Some (g, key))) \<Rightarrow>
          (case ws of
             [] \<Rightarrow> None
           | v # ws' \<Rightarrow>
               map_option (\<lambda>(cs, os, ns). (cs0 @ (g, key, Some v) # cs, w # v # os, ns)) (read_line p ws')))"

definition argument_calls :: "string list \<Rightarrow> parser_call list" where
  "argument_calls ns = map (\<lambda>w. (0, ARGP_KEY_ARG, Some w)) ns"

text \<open>The calls that the client's parsers accept, and what each does to the client's memory.\<close>

type_synonym 'w effect = "nat \<Rightarrow> int \<Rightarrow> string option \<Rightarrow> ('w \<Rightarrow> 'w) option"

definition accepting :: "'w effect \<Rightarrow> nat \<Rightarrow> 'w group \<Rightarrow> bool" where
  "accepting u g gr \<longleftrightarrow> polite_group gr \<and> (\<forall>key arg e. u g key arg = Some e \<longrightarrow>
     (\<exists>f. g_parser gr = Some f \<and> (\<forall>s. \<exists>s'. f key arg s = Done (0, s') \<and> world s' = e (world s))))"

definition accepts :: "'w effect \<Rightarrow> 'w parser \<Rightarrow> bool" where
  "accepts u p \<longleftrightarrow> groups p \<noteq> [] \<and> \<not> writes_argv0 (st_flags (pstate p))
     \<and> (\<forall>g < length (groups p). accepting u g (groups p ! g))"

definition known :: "'w effect \<Rightarrow> parser_call list \<Rightarrow> bool" where
  "known u cs \<longleftrightarrow> (\<forall>(g, key, arg) \<in> set cs. u g key arg \<noteq> None)"

fun do_calls :: "'w effect \<Rightarrow> parser_call list \<Rightarrow> 'w \<Rightarrow> 'w" where
  "do_calls u [] w = w"
| "do_calls u ((g, key, arg) # cs) w = do_calls u cs (case u g key arg of None \<Rightarrow> w | Some e \<Rightarrow> e w)"

lemma known_simps [simp]:
  "known u []" "known u ((g, key, arg) # cs) \<longleftrightarrow> u g key arg \<noteq> None \<and> known u cs"
  "known u (cs @ ds) \<longleftrightarrow> known u cs \<and> known u ds"
  by (simp_all add: known_def ball_Un)

lemma do_calls_append: "do_calls u (cs @ ds) w = do_calls u ds (do_calls u cs w)"
  by (induction u cs w rule: do_calls.induct) simp_all

section \<open>One call\<close>

lemma accepts_polite: "accepts u p \<Longrightarrow> all_polite p"
  by (auto simp: accepts_def all_polite_def accepting_def in_set_conv_nth)

lemma accepts_course:
  assumes "accepts u p" and c: "same_course p p'"
  shows "accepts u p'"
proof -
  have "accepting u g (groups p' ! g)" if "g < length (groups p')" for g
  proof -
    have g: "g < length (groups p)" using that same_course_groups [OF c] by simp
    have "g_parser (groups p' ! g) = g_parser (groups p ! g)" "polite_group (groups p' ! g) = polite_group (groups p ! g)"
      using same_course_shape [OF c g] polite_shape by (auto simp: group_shape_def)
    moreover have "accepting u g (groups p ! g)" using assms(1) g by (simp add: accepts_def)
    ultimately show ?thesis by (simp add: accepting_def)
  qed
  moreover have "groups p' \<noteq> []" using same_course_groups [OF c] assms(1) by (auto simp: accepts_def)
  ultimately show ?thesis using assms(1) c by (simp add: accepts_def same_course_def)
qed

lemma accepted_call:
  assumes "accepts u p" and g: "g < length (groups p)" and e: "u g key arg \<noteq> None"
  shows "\<exists>p'. group_parse g key arg p = Done (0, p') \<and> same_course p p'
    \<and> world (pstate p') = do_calls u [(g, key, arg)] (world (pstate p))"
proof -
  have acc: "accepting u g (groups p ! g)" using assms by (simp add: accepts_def)
  from e obtain e where e: "u g key arg = Some e" by blast
  with acc obtain f where f: "g_parser (groups p ! g) = Some f"
    and ok: "\<And>s. \<exists>s'. f key arg s = Done (0, s') \<and> world s' = e (world s)" unfolding accepting_def by metis
  define s0 where "s0 = (pstate p)\<lparr>hook := g_hook (groups p ! g), inp := g_input (groups p ! g),
      child_inputs := g_child_inputs (groups p ! g), arg_num := args_processed (groups p ! g)\<rparr>"
  from ok [of s0] obtain s where s: "f key arg s0 = Done (0, s)" "world s = e (world s0)" by blast
  define p' where "p' = p\<lparr>pstate := s, groups := (groups p)[g := (groups p ! g)\<lparr>g_hook := hook s\<rparr>]\<rparr>"
  have call: "group_parse g key arg p = Done (0, p')"
    using s(1) by (simp add: group_parse_def Let_def f s0_def p'_def)
  have "same_course p p'" by (rule group_parse_course [OF call g accepts_polite [OF assms(1)]])
  with call s(2) show ?thesis by (auto simp: p'_def s0_def e)
qed

text \<open>Searches depend on the groups' tables and the flags alone.\<close>

definition same_tables :: "'w parser \<Rightarrow> 'w parser \<Rightarrow> bool" where
  "same_tables p p' \<longleftrightarrow> map group_shape (groups p') = map group_shape (groups p)
     \<and> short_opts p' = short_opts p \<and> st_flags (pstate p') = st_flags (pstate p)"

lemma same_course_tables: "same_course p p' \<Longrightarrow> same_tables p p'"
  by (simp add: same_course_def same_tables_def)

lemma same_tables_trans: "same_tables p q \<Longrightarrow> same_tables q r \<Longrightarrow> same_tables p r"
  by (simp add: same_tables_def)

lemma find_short_in_shape:
  "map group_shape grs = map group_shape grs' \<Longrightarrow> find_short_in key g grs = find_short_in key g grs'"
proof (induction grs arbitrary: g grs')
  case (Cons gr grs)
  then obtain gr' rest where grs': "grs' = gr' # rest" by (cases grs') auto
  with Cons show ?case by (auto simp: group_shape_def split: option.splits prod.splits)
qed simp

lemma scan_groups_shape:
  "map group_shape grs = map group_shape grs' \<Longrightarrow> scan_groups arg g grs m = scan_groups arg g grs' m"
proof (induction grs arbitrary: g grs' m)
  case (Cons gr grs)
  then obtain gr' rest where grs': "grs' = gr' # rest" by (cases grs') auto
  with Cons show ?case by (auto simp: group_shape_def split: option.splits prod.splits sum.splits)
qed simp

lemma same_tables_find:
  assumes "same_tables p p'"
  shows "find_short_option p' key = find_short_option p key" "find_long_option p' arg = find_long_option p arg"
    "classify_arg p' arg = classify_arg p arg"
proof -
  have eqs: "map group_shape (groups p') = map group_shape (groups p)" "short_opts p' = short_opts p"
    "st_flags (pstate p') = st_flags (pstate p)"
    using assms by (simp_all add: same_tables_def)
  show "find_short_option p' key = find_short_option p key"
    using find_short_in_shape [OF eqs(1)] by (simp add: find_short_option_def)
  show "find_long_option p' arg = find_long_option p arg"
    using scan_groups_shape [OF eqs(1)] by (simp add: find_long_option_def)
  show "classify_arg p' arg = classify_arg p arg" unfolding classify_arg_def eqs ..
qed

section \<open>The loop, one element at a time\<close>

text \<open>
  Between two elements: the vector is what was placed, the skipped arguments, the options
  after them and the elements still to be read.
\<close>

definition idle :: "'w effect \<Rightarrow> 'w parser \<Rightarrow> 'w parser \<Rightarrow> bool" where
  "idle u p0 p \<longleftrightarrow> same_tables p0 p \<and> accepts u p \<and> ord p = PERMUTE \<and> \<not> args_only p
     \<and> quoted (pstate p) = 0 \<and> argc (pstate p) = int (length (argv (pstate p)))"

definition at_point ::
  "'w effect \<Rightarrow> 'w parser \<Rightarrow> string list \<Rightarrow> string list \<Rightarrow> string list \<Rightarrow> string list \<Rightarrow> 'w parser \<Rightarrow> bool" where
  "at_point u p0 ps xs ys ws p \<longleftrightarrow> idle u p0 p \<and> argv (pstate p) = ps @ xs @ ys @ ws
     \<and> nexti (pstate p) = int (length (ps @ xs @ ys))
     \<and> (if xs = [] then 0 \<le> first_nonopt p \<and> first_nonopt p = last_nonopt p \<and> last_nonopt p \<le> int (length (ps @ ys))
        else first_nonopt p = int (length ps) \<and> last_nonopt p = int (length (ps @ xs)))"

lemma at_point_inv: "at_point u p0 ps xs ys ws p \<Longrightarrow> nextchar p \<noteq> Some [] \<Longrightarrow> run_inv p"
  using accepts_polite
  by (auto simp: at_point_def idle_def run_inv_def place_inv_def all_polite_def split: if_splits)

lemma idle_course:
  assumes "idle u p0 p" and c: "same_course p p'"
  shows "idle u p0 p'"
proof -
  have "same_tables p0 p'" using assms(1) same_tables_trans [OF _ same_course_tables [OF c]] by (simp add: idle_def)
  moreover have "accepts u p'" using assms(1) accepts_course [OF _ c] by (simp add: idle_def)
  ultimately show ?thesis using assms by (simp add: idle_def same_course_def)
qed

lemma at_point_course:
  assumes "at_point u p0 ps xs ys ws p" and c: "same_course p p'"
  shows "at_point u p0 ps xs ys ws p'"
proof -
  have "idle u p0 p'" using assms(1) idle_course [OF _ c] by (simp add: at_point_def)
  moreover have "argv (pstate p') = argv (pstate p)" "nexti (pstate p') = nexti (pstate p)"
    "first_nonopt p' = first_nonopt p" "last_nonopt p' = last_nonopt p"
    using c by (simp_all add: same_course_def)
  ultimately show ?thesis using assms(1) unfolding at_point_def by (cases "xs = []") auto
qed

lemma at_point_move:
  "at_point u p0 ps xs ys (w # ws) p \<Longrightarrow> at_point u p0 ps xs (ys @ [w]) ws (move_next 1 p)"
  by (auto simp: at_point_def idle_def move_next_def same_tables_def accepts_def split: if_splits)

lemma at_point_nextchar [simp]: "at_point u p0 ps xs ys ws (p\<lparr>nextchar := c\<rparr>) = at_point u p0 ps xs ys ws p"
  by (simp add: at_point_def idle_def same_tables_def accepts_def)

lemma at_point_find:
  assumes "at_point u p0 ps xs ys ws p"
  shows "find_short_option p key = find_short_option p0 key" "find_long_option p arg = find_long_option p0 arg"
    "classify_arg p arg = classify_arg p0 arg"
  using same_tables_find assms by (auto simp: at_point_def idle_def)

lemma at_point_argv:
  "at_point u p0 ps xs ys (w # ws) p \<Longrightarrow> argv_at (nexti (pstate p)) p = Done w"
  by (auto simp: at_point_def argv_at_def nth_append)

lemma loop_step:
  assumes "parser_parse_next eb p = Done (0, eb', p')"
  shows "parse_loop eb p = parse_loop eb' p'"
  by (subst parse_loop.simps) (simp add: assms)

lemma loop_stop:
  assumes "parser_parse_next eb p = Done (err, eb', p')" and "err \<noteq> 0"
  shows "parse_loop eb p = Some (Done (err, eb', p'))"
  by (subst parse_loop.simps) (simp add: assms)

text \<open>A call at a point.\<close>

lemma call_at_point:
  assumes at: "at_point u p0 ps xs ys ws p" and g: "g < length (groups p)" and e: "u g key arg \<noteq> None"
  shows "\<exists>p'. with_ebadkey eb (group_parse g key arg p) = Done (0, eb, p') \<and> at_point u p0 ps xs ys ws p'
    \<and> nextchar p' = nextchar p \<and> world (pstate p') = do_calls u [(g, key, arg)] (world (pstate p))"
proof -
  have "accepts u p" using at by (simp add: at_point_def idle_def)
  from accepted_call [of u p g key arg, OF this g e] obtain p'
    where p': "group_parse g key arg p = Done (0, p')" "same_course p p'"
      "world (pstate p') = do_calls u [(g, key, arg)] (world (pstate p))" by blast
  then show ?thesis using at_point_course [OF at p'(2)] by (auto simp: with_ebadkey_def same_course_def)
qed

text \<open>What a run to another point amounts to.\<close>

definition reaches ::
  "'w effect \<Rightarrow> 'w parser \<Rightarrow> string list \<Rightarrow> string list \<Rightarrow> string list \<Rightarrow> string list \<Rightarrow> parser_call list \<Rightarrow> bool \<Rightarrow> 'w parser \<Rightarrow> bool" where
  "reaches u p0 ps xs ys ws cs eb p \<longleftrightarrow> (\<exists>eb' p'. parse_loop eb p = parse_loop eb' p' \<and> at_point u p0 ps xs ys ws p'
     \<and> nextchar p' = None \<and> world (pstate p') = do_calls u cs (world (pstate p)))"

lemma reachesI:
  assumes "parser_parse_next eb p = Done (0, eb', p')" and "at_point u p0 ps xs ys ws p'" and "nextchar p' = None"
    and "world (pstate p') = do_calls u cs (world (pstate p))"
  shows "reaches u p0 ps xs ys ws cs eb p"
  using loop_step [OF assms(1)] assms(2-4) by (auto simp: reaches_def)

lemma reaches_after:
  assumes "parser_parse_next eb p = Done (0, eb', p')" and "world (pstate p') = do_calls u cs (world (pstate p))"
    and "reaches u p0 ps xs ys ws cs' eb' p'"
  shows "reaches u p0 ps xs ys ws (cs @ cs') eb p"
  using assms(3) loop_step [OF assms(1)] by (auto simp: reaches_def do_calls_append assms(2))

lemma next_at_short:
  assumes at: "at_point u p0 ps xs ys ws p" and nc: "nextchar p = Some (c # rest)"
  shows "parser_parse_next eb p = and_then (find_short_option p0 (schar c)) (\<lambda>found.
      case found of
        None \<Rightarrow> Done (EBADKEY, False, report
            ((if posixly_correct p then ''illegal option -- '' else ''invalid option -- '') @ [CHR 0x27, c, CHR 0x27])
            (p\<lparr>nextchar := Some rest\<rparr>))
      | Some (g, opt) \<Rightarrow> short_found c g opt eb (p\<lparr>nextchar := if rest = [] then None else Some rest\<rparr>))"
proof -
  have r: "resume_next p = p" by (rule resume_idle) (rule at_point_inv [OF at], simp add: nc)
  have ao: "\<not> args_only p" using at by (simp add: at_point_def idle_def)
  have f: "find_short_option (p\<lparr>nextchar := Some rest\<rparr>) (schar c) = find_short_option p0 (schar c)"
    by (rule at_point_find(1) [of u _ ps xs ys ws]) (simp add: at)
  have "p\<lparr>nextchar := if rest = [] then None else Some rest\<rparr> =
      (if rest = [] then p\<lparr>nextchar := Some rest\<rparr>\<lparr>nextchar := None\<rparr> else p\<lparr>nextchar := Some rest\<rparr>)" by simp
  moreover have "posixly_correct (p\<lparr>nextchar := Some rest\<rparr>) = posixly_correct p" by simp
  ultimately show ?thesis
    unfolding parser_parse_next_def r Let_def nc option.case parse_short_def if_not_P [OF ao] list.case f
    by (simp only:)
qed

lemma at_point_more: "at_point u p0 ps xs ys (v # ws) p \<Longrightarrow> nexti (pstate p) \<noteq> argc (pstate p)"
  by (simp add: at_point_def idle_def)

lemma lacks_cases: "opt_arg opt \<noteq> None \<Longrightarrow> lacks_argument opt value \<longleftrightarrow> value = None \<and> lacks_argument opt None"
  by (auto simp: lacks_argument_def)

text \<open>What follows the options of an element: nothing, or the argument one waits for.\<close>

definition reaches_wait ::
  "'w effect \<Rightarrow> 'w parser \<Rightarrow> string list \<Rightarrow> string list \<Rightarrow> string list \<Rightarrow> string list \<Rightarrow> parser_call list \<Rightarrow> (nat \<times> int) option \<Rightarrow> bool \<Rightarrow> 'w parser \<Rightarrow> bool" where
  "reaches_wait u p0 ps xs ys ws cs wait eb p \<longleftrightarrow>
     (case wait of None \<Rightarrow> reaches u p0 ps xs ys ws cs eb p
      | Some (g, key) \<Rightarrow>
          (case ws of [] \<Rightarrow> True | v # ws' \<Rightarrow> u g key (Some v) \<noteq> None \<longrightarrow> reaches u p0 ps xs (ys @ [v]) ws' (cs @ [(g, key, Some v)]) eb p))"

lemma reaches_wait_after:
  assumes "parser_parse_next eb p = Done (0, eb', p')" and "world (pstate p') = do_calls u cs (world (pstate p))"
    and "reaches_wait u p0 ps xs ys ws cs' wait eb' p'"
  shows "reaches_wait u p0 ps xs ys ws (cs @ cs') wait eb p"
  using assms(3) reaches_after [OF assms(1,2)]
  by (auto simp: reaches_wait_def split: option.splits list.splits prod.splits)

lemma call_reaches:
  assumes "parser_parse_next eb p = with_ebadkey eb' (group_parse g key arg q)" and "at_point u p0 ps xs ys ws q"
    and "g < length (groups q)" and "nextchar q = None" and "world (pstate q) = world (pstate p)"
    and "u g key arg \<noteq> None"
  shows "reaches u p0 ps xs ys ws [(g, key, arg)] eb p"
  using call_at_point [where key = key and arg = arg, OF assms(2,3,6), of eb'] assms(1,4,5) by (auto intro: reachesI)

lemma take_next_reaches:
  assumes "parser_parse_next eb p = and_then (argv_at (nexti (pstate q)) q) (\<lambda>v.
      with_ebadkey eb' (group_parse g key (Some v) (move_next 1 q)))"
    and "at_point u p0 ps xs ys (v # ws) q" and "g < length (groups q)" and "nextchar q = None"
    and "world (pstate q) = world (pstate p)" and "u g key (Some v) \<noteq> None"
  shows "reaches u p0 ps xs (ys @ [v]) ws [(g, key, Some v)] eb p"
proof (rule call_reaches)
  show "parser_parse_next eb p = with_ebadkey eb' (group_parse g key (Some v) (move_next 1 q))"
    using assms(1) by (simp add: at_point_argv [OF assms(2)])
qed (use assms at_point_move [OF assms(2)] in \<open>simp_all add: move_next_def\<close>)

lemma cluster_reaches:
  assumes "read_cluster p0 chars = Some (cs, wait)" and "at_point u p0 ps xs ys ws p"
    and "nextchar p = (if chars = [] then None else Some chars)" and "known u cs"
  shows "reaches_wait u p0 ps xs ys ws cs wait eb p"
  using assms
proof (induction chars arbitrary: cs p)
  case Nil
  then show ?case by (auto simp: reaches_wait_def reaches_def)
next
  case (Cons c rest)
  from Cons.prems(1) obtain g opt where f: "find_short_option p0 (schar c) = Done (Some (g, opt))"
    by (auto split: outcome.splits option.splits prod.splits)
  have g: "g < length (groups p)"
    using find_short_option_group [of p "schar c"] f at_point_find(1) [OF Cons.prems(2)] by simp
  define q where "q = p\<lparr>nextchar := if rest = [] then None else Some rest\<rparr>"
  define q' where "q' = q\<lparr>nextchar := None\<rparr>"
  have q: "at_point u p0 ps xs ys ws q" "g < length (groups q)" "world (pstate q) = world (pstate p)"
    "at_point u p0 ps xs ys ws q'" "g < length (groups q')" "world (pstate q') = world (pstate p)" "nextchar q' = None"
    using Cons.prems(2) g by (simp_all add: q_def q'_def)
  have step: "parser_parse_next eb p = short_found c g opt eb q" for eb
    using next_at_short [OF Cons.prems(2), of c rest] Cons.prems(3) f by (simp add: q_def)
  show ?case
  proof (cases "opt_arg opt = None")
    case True
    with Cons.prems(1) f obtain cs' where cs: "cs = (g, opt_key opt, None) # cs'" "read_cluster p0 rest = Some (cs', wait)"
      by auto
    have "parser_parse_next eb p = with_ebadkey eb (group_parse g (opt_key opt) None q)"
      using True by (simp add: step short_found_def)
    with call_at_point [where key = "opt_key opt" and arg = None, OF q(1,2), of eb] Cons.prems(4) cs(1) obtain p'
      where p': "parser_parse_next eb p = Done (0, eb, p')" "at_point u p0 ps xs ys ws p'" "nextchar p' = nextchar q"
        "world (pstate p') = do_calls u [(g, opt_key opt, None)] (world (pstate p))"
      using q(3) by auto
    have ks: "known u cs'" using Cons.prems(4) cs(1) by simp
    have "reaches_wait u p0 ps xs ys ws cs' wait eb p'"
      using p'(3) by (intro Cons.IH [OF cs(2) p'(2) _ ks]) (simp add: q_def)
    from reaches_wait_after [OF p'(1,4) this] show ?thesis by (simp add: cs(1))
  next
    case arg: False
    show ?thesis
    proof (cases "rest \<noteq> [] \<or> \<not> lacks_argument opt None")
      case True
      then have "cs = [(g, opt_key opt, nextchar q)]" "wait = None"
        using Cons.prems(1) f arg by (auto simp: q_def split: if_splits)
      moreover have enough: "\<not> lacks_argument opt (nextchar q)"
        using True by (cases "rest = []") (auto simp: q_def lacks_argument_def)
      have "parser_parse_next eb p = with_ebadkey eb (group_parse g (opt_key opt) (nextchar q) q')"
        unfolding step short_found_def Let_def if_P [OF arg] if_not_P [OF enough] q'_def ..
      ultimately show ?thesis
        using call_reaches [OF _ q(4,5,7,6)] Cons.prems(4) by (simp add: reaches_wait_def)
    next
      case False
      then have w: "cs = []" "wait = Some (g, opt_key opt)" "nextchar q = None" and lacks: "lacks_argument opt None"
        using Cons.prems(1) f arg by (auto simp: q_def)
      show ?thesis
      proof (cases ws)
        case Nil
        then show ?thesis by (simp add: reaches_wait_def w)
      next
        case (Cons v ws')
        have more: "nexti (pstate q') \<noteq> argc (pstate q')" using at_point_more q(4) Cons by blast
        have "parser_parse_next eb p = and_then (argv_at (nexti (pstate q')) q') (\<lambda>v.
            with_ebadkey eb (group_parse g (opt_key opt) (Some v) (move_next 1 q')))"
          using arg lacks w more by (simp add: step short_found_def Let_def q'_def)
        from take_next_reaches [OF this q(4) [unfolded Cons] q(5,7,6)]
        show ?thesis by (simp add: reaches_wait_def w Cons)
      qed
    qed
  qed
qed

lemma next_at_element:
  assumes at: "at_point u p0 ps xs ys (w # ws) p" and nc: "nextchar p = None"
  shows "parser_parse_next eb p = and_then (classify_arg p0 w) (\<lambda>(token, optstart).
      case token of
        ARG_ARG \<Rightarrow> parse_nonoption w eb p
      | ARG_QUOTE \<Rightarrow> parse_quote eb p
      | ARG_SHORT_OPTION \<Rightarrow> Done (0, eb, (move_next 1 p)\<lparr>nextchar := Some optstart\<rparr>)
      | _ \<Rightarrow> parse_long token w optstart p)"
proof -
  have r: "resume_next p = p" by (rule resume_idle) (rule at_point_inv [OF at], simp add: nc)
  have ao: "\<not> args_only p" using at by (simp add: at_point_def idle_def)
  have more: "\<not> argc (pstate p) \<le> nexti (pstate p)" using at by (simp add: at_point_def idle_def)
  show ?thesis
    unfolding parser_parse_next_def r Let_def nc option.case if_not_P [OF ao] if_not_P [OF more]
      at_point_argv [OF at] and_then.simps at_point_find(3) [OF at] ..
qed

lemma long_reaches:
  assumes rl: "read_long p0 body = Some (cs, wait)" and at: "at_point u p0 ps xs ys (w # ws) p"
    and nc: "nextchar p = None" and step: "parser_parse_next eb p = parse_long token w body p" and kn: "known u cs"
  shows "reaches_wait u p0 ps xs (ys @ [w]) ws cs wait eb p"
proof -
  define q where "q = move_next 1 p"
  have q: "at_point u p0 ps xs (ys @ [w]) ws q" "nextchar q = None" "world (pstate q) = world (pstate p)"
    using at_point_move [OF at] nc by (simp_all add: q_def move_next_def)
  from rl obtain g opt amb where f: "find_long_option p0 body = Done (Some (g, opt), amb)"
    by (auto simp: read_long_def split: outcome.splits option.splits prod.splits)
  have fq: "find_long_option q body = Done (Some (g, opt), amb)" using f at_point_find(2) [OF q(1)] by simp
  have g: "g < length (groups q)" by (rule find_long_option_group [OF fq])
  have nxt: "parser_parse_next eb p = long_found token w (value_of body) g opt q"
    using fq by (simp add: step parse_long_def Let_def q_def)
  have ok: "\<not> (value_of body \<noteq> None \<and> opt_arg opt = None)"
    using rl f by (auto simp: read_long_def split: if_splits)
  show ?thesis
  proof (cases "lacks_argument opt (value_of body)")
    case False
    have "cs = [(g, opt_key opt, value_of body)]" "wait = None"
      using rl f ok False by (auto simp: read_long_def)
    moreover have "parser_parse_next eb p = with_ebadkey False (group_parse g (opt_key opt) (value_of body) q)"
      unfolding nxt long_found_def if_not_P [OF ok] if_not_P [OF False] ..
    ultimately show ?thesis
      using call_reaches [OF _ q(1) g q(2,3)] kn by (simp add: reaches_wait_def)
  next
    case True
    have w: "cs = []" "wait = Some (g, opt_key opt)"
      using rl f ok True by (auto simp: read_long_def)
    show ?thesis
    proof (cases ws)
      case Nil
      then show ?thesis by (simp add: reaches_wait_def w)
    next
      case (Cons v ws')
      have more: "nexti (pstate q) \<noteq> argc (pstate q)" using at_point_more q(1) Cons by blast
      have "parser_parse_next eb p = and_then (argv_at (nexti (pstate q)) q) (\<lambda>v.
            with_ebadkey False (group_parse g (opt_key opt) (Some v) (move_next 1 q)))"
        unfolding nxt long_found_def if_not_P [OF ok] if_P [OF True] if_not_P [OF more] ..
      from take_next_reaches [OF this q(1) [unfolded Cons] g q(2,3)]
      show ?thesis by (simp add: reaches_wait_def w Cons)
    qed
  qed
qed

lemma classify_short: "classify_arg p w = Done (ARG_SHORT_OPTION, body) \<Longrightarrow> body \<noteq> []"
  by (auto simp: classify_arg_def split: list.splits if_splits option.splits)

lemma element_reaches:
  assumes el: "read_element p0 w = Some (Options cs wait)" and at: "at_point u p0 ps xs ys (w # ws) p"
    and nc: "nextchar p = None" and kn: "known u cs"
  shows "reaches_wait u p0 ps xs (ys @ [w]) ws cs wait eb p"
proof -
  from el obtain token body where cl: "classify_arg p0 w = Done (token, body)"
    by (auto simp: read_element_def split: outcome.splits prod.splits)
  note step = next_at_element [OF at nc, of eb, unfolded cl and_then.simps prod.case]
  show ?thesis
  proof (cases "token = ARG_SHORT_OPTION")
    case True
    then have rc: "read_cluster p0 body = Some (cs, wait)"
      using el cl by (auto simp: read_element_def)
    define q where "q = (move_next 1 p)\<lparr>nextchar := Some body\<rparr>"
    have "body \<noteq> []" using classify_short cl True by blast
    then have "reaches_wait u p0 ps xs (ys @ [w]) ws cs wait eb q"
      using at_point_move [OF at] by (intro cluster_reaches [OF rc _ _ kn]) (simp_all add: q_def)
    moreover have "parser_parse_next eb p = Done (0, eb, q)" using step True by (simp add: q_def)
    moreover have "world (pstate q) = do_calls u [] (world (pstate p))" by (simp add: q_def move_next_def)
    ultimately show ?thesis using reaches_wait_after [of eb p eb q u "[]"] by simp
  next
    case False
    then have tok: "token = ARG_LONG_OPTION \<or> token = ARG_LONG_ONLY_OPTION"
      using el cl by (cases token) (auto simp: read_element_def)
    then have "read_long p0 body = Some (cs, wait)"
      using el cl by (auto simp: read_element_def)
    moreover have "parser_parse_next eb p = parse_long token w body p" using step tok by auto
    ultimately show ?thesis using long_reaches [OF _ at nc _ kn] by blast
  qed
qed

lemma at_point_split: "at_point u p0 ps xs ys ws p \<Longrightarrow> xs \<noteq> [] \<Longrightarrow> split_argv p ps xs ys ws"
  by (simp add: at_point_def split_argv_def)

lemma skip_argument:
  assumes at: "at_point u p0 ps xs ys (w # ws) p" and nc: "nextchar p = None"
  shows "\<exists>ps' ys' p1. parse_nonoption w eb p = Done (0, eb, p1) \<and> at_point u p0 ps' (xs @ [w]) ys' ws p1
    \<and> nextchar p1 = None \<and> world (pstate p1) = world (pstate p) \<and> ps' @ ys' = ps @ ys"
proof -
  have perm: "ord p = PERMUTE" using at by (simp add: at_point_def idle_def)
  consider (empty) "xs = []" | (apart) "xs \<noteq> []" "ys \<noteq> []" | (adjacent) "xs \<noteq> []" "ys = []" by blast
  then show ?thesis
  proof cases
    case empty
    define p1 where "p1 = (move_next 1 (p\<lparr>first_nonopt := nexti (pstate p), last_nonopt := nexti (pstate p)\<rparr>))
        \<lparr>last_nonopt := nexti (pstate p) + 1\<rparr>"
    have "parse_nonoption w eb p = Done (0, eb, p1)"
      using at empty perm by (simp add: parse_nonoption_def p1_def at_point_def)
    moreover have "at_point u p0 (ps @ ys) [w] [] ws p1"
      using at empty unfolding at_point_def idle_def same_tables_def accepts_def by (simp add: p1_def move_next_def) argo
    ultimately show ?thesis
      using nc empty by (intro exI [of _ "ps @ ys"] exI [of _ "[]"] exI [of _ p1]) (simp add: p1_def move_next_def)
  next
    case apart
    define e where "e = exchanged p ps xs ys (w # ws)"
    define p1 where "p1 = (move_next 1 e)\<lparr>last_nonopt := nexti (pstate e) + 1\<rparr>"
    have sp: "split_argv p ps xs ys (w # ws)" by (rule at_point_split [OF at apart(1)])
    have ex: "exchange p = Done e" using exchange_split [OF sp] by (simp add: e_def exchanged_def)
    have "first_nonopt p \<noteq> last_nonopt p" "last_nonopt p \<noteq> nexti (pstate p)"
      "last_nonopt e = nexti (pstate e)"
      using sp apart by (simp_all add: split_argv_def e_def exchanged_def)
    then have "parse_nonoption w eb p = Done (0, eb, p1)"
      using perm by (simp add: parse_nonoption_def ex p1_def)
    moreover have "at_point u p0 (ps @ ys) (xs @ [w]) [] ws p1"
      using at apart unfolding at_point_def idle_def same_tables_def accepts_def
      by (simp add: p1_def e_def exchanged_def move_next_def) argo
    ultimately show ?thesis
      using nc by (intro exI [of _ "ps @ ys"] exI [of _ "[]"] exI [of _ p1])
        (simp add: p1_def e_def exchanged_def move_next_def)
  next
    case adjacent
    define p1 where "p1 = (move_next 1 p)\<lparr>last_nonopt := nexti (pstate p) + 1\<rparr>"
    have "first_nonopt p \<noteq> last_nonopt p" "last_nonopt p = nexti (pstate p)"
      using at adjacent by (simp_all add: at_point_def)
    then have "parse_nonoption w eb p = Done (0, eb, p1)"
      using perm by (simp add: parse_nonoption_def p1_def)
    moreover have "at_point u p0 ps (xs @ [w]) [] ws p1"
      using at adjacent unfolding at_point_def idle_def same_tables_def accepts_def
      by (simp add: p1_def move_next_def) argo
    ultimately show ?thesis
      using nc adjacent by (intro exI [of _ ps] exI [of _ "[]"] exI [of _ p1]) (simp add: p1_def move_next_def)
  qed
qed

section \<open>The arguments at the end\<close>

definition arg_point :: "'w effect \<Rightarrow> string list \<Rightarrow> string list \<Rightarrow> 'w parser \<Rightarrow> bool" where
  "arg_point u ps ws p \<longleftrightarrow> accepts u p \<and> run_inv p \<and> args_only p \<and> nextchar p = None
     \<and> argv (pstate p) = ps @ ws \<and> nexti (pstate p) = int (length ps)"

lemma offer_arg_over: "err \<noteq> EBADKEY \<Longrightarrow> offer_arg gs val key err g p = Done (key, err, g, p)"
  by (cases gs) simp_all

lemma accepted_arg:
  assumes acc: "accepts u p" and e: "u 0 ARGP_KEY_ARG (Some w) \<noteq> None"
  shows "\<exists>p'. parser_parse_arg w p = Done (0, p') \<and> same_course (move_next 1 p) p'
    \<and> world (pstate p') = do_calls u (argument_calls [w]) (world (pstate p))"
proof -
  define q where "q = move_next 1 p"
  have "accepts u q" using acc by (simp add: q_def accepts_def move_next_def)
  moreover have g: "0 < length (groups q)" using acc by (simp add: q_def accepts_def move_next_def)
  ultimately obtain p1 where p1: "group_parse 0 ARGP_KEY_ARG (Some w) q = Done (0, p1)" "same_course q p1"
    "world (pstate p1) = do_calls u [(0, ARGP_KEY_ARG, Some w)] (world (pstate q))"
    using accepted_call [of u q 0 ARGP_KEY_ARG "Some w"] e by blast
  have idx: "[0 ..< length (groups p)] = 0 # [1 ..< length (groups p)]"
    using g by (simp add: q_def move_next_def upt_conv_Cons)
  have offer: "offer_arg [0 ..< length (groups p)] w 0 EBADKEY 0 p = Done (ARGP_KEY_ARG, 0, 0, p1)"
    unfolding idx offer_arg.simps by (simp add: q_def [symmetric] p1(1) offer_arg_over EBADKEY_def)
  have n: "nexti (pstate p1) = nexti (pstate p) + 1"
    using nexti_course [OF p1(2)] by (simp add: q_def move_next_def)
  define p2 where "p2 = p1\<lparr>groups := (groups p1)[0 := (groups p1 ! 0)\<lparr>args_processed :=
      args_processed (groups p1 ! 0) + word_of_int 1\<rparr>]\<rparr>"
  have "ARGP_KEY_ARG \<noteq> ARGP_KEY_ARGS" by (simp add: ARGP_KEY_ARGS_def ARGP_KEY_ARG_def)
  then have "parser_parse_arg w p = Done (0, p2)"
    by (simp add: parser_parse_arg_def Let_def offer n p2_def)
  moreover have "same_course q p2"
    using g same_course_groups [OF p1(2)] unfolding p2_def
    by (intro same_course_trans [OF p1(2) args_processed_course]) simp
  ultimately show ?thesis using p1(3) by (simp add: q_def p2_def move_next_def argument_calls_def)
qed

lemma args_run:
  assumes "arg_point u ps ws p" and "known u (argument_calls ws)"
  shows "\<exists>p'. parse_loop eb p = Some (Done (EBADKEY, True, p')) \<and> argv (pstate p') = ps @ ws
    \<and> nexti (pstate p') = argc (pstate p') \<and> world (pstate p') = do_calls u (argument_calls ws) (world (pstate p))"
  using assms
proof (induction ws arbitrary: ps p eb)
  case Nil
  then have p: "resume_next p = p" "args_only p" "nextchar p = None" "nexti (pstate p) = argc (pstate p)"
    using resume_idle by (auto simp: arg_point_def run_inv_def place_inv_def)
  then have "parser_parse_next eb p = Done (EBADKEY, True, p)"
    by (simp add: parser_parse_next_def Let_def)
  from loop_stop [OF this] Nil p show ?case by (simp add: arg_point_def argument_calls_def EBADKEY_def)
next
  case (Cons w ws)
  then have p: "resume_next p = p" "args_only p" "nextchar p = None" "nexti (pstate p) < argc (pstate p)"
      "argv_at (nexti (pstate p)) p = Done w" "run_inv p"
    using resume_idle by (auto simp: arg_point_def run_inv_def place_inv_def argv_at_def nth_append)
  have "accepts u p" using Cons.prems by (simp add: arg_point_def)
  moreover have w: "u 0 ARGP_KEY_ARG (Some w) \<noteq> None" "known u (argument_calls ws)"
    using Cons.prems(2) by (simp_all add: argument_calls_def)
  ultimately obtain p1 where p1: "parser_parse_arg w p = Done (0, p1)"
    "same_course (move_next 1 p) p1" "world (pstate p1) = do_calls u (argument_calls [w]) (world (pstate p))"
    using accepted_arg by blast
  have step: "parser_parse_next eb p = Done (0, True, p1)"
    using p p1(1) by (simp add: parser_parse_next_def Let_def with_ebadkey_def)
  have "accepts u (move_next 1 p)" using \<open>accepts u p\<close> by (simp add: accepts_def move_next_def)
  then have "accepts u p1" by (rule accepts_course [OF _ p1(2)])
  moreover have "run_inv p1" using good_step [OF p(6), of eb] by (simp add: step good_next_Done)
  ultimately have "arg_point u (ps @ [w]) ws p1"
    using Cons.prems p1(2) by (simp add: arg_point_def same_course_def move_next_def)
  from Cons.IH [OF this w(2), of True] loop_step [OF step] p1(3)
  show ?case by (simp add: argument_calls_def)
qed

section \<open>The whole line\<close>

definition reads_to :: "'w effect \<Rightarrow> string list \<Rightarrow> parser_call list \<Rightarrow> bool \<Rightarrow> 'w parser \<Rightarrow> bool" where
  "reads_to u args cs eb p \<longleftrightarrow> (\<exists>p'. parse_loop eb p = Some (Done (EBADKEY, True, p')) \<and> argv (pstate p') = args
     \<and> nexti (pstate p') = argc (pstate p') \<and> world (pstate p') = do_calls u cs (world (pstate p)))"

lemma reads_to_after:
  assumes "reaches u p0 ps xs ys ws cs eb p"
    and "\<And>eb' p'. at_point u p0 ps xs ys ws p' \<Longrightarrow> nextchar p' = None \<Longrightarrow> reads_to u args cs' eb' p'"
  shows "reads_to u args (cs @ cs') eb p"
proof -
  from assms(1) obtain eb' p' where *: "parse_loop eb p = parse_loop eb' p'" "at_point u p0 ps xs ys ws p'"
    "nextchar p' = None" "world (pstate p') = do_calls u cs (world (pstate p))" by (auto simp: reaches_def)
  from assms(2) [OF *(2,3)] show ?thesis by (auto simp: reads_to_def *(1,4) do_calls_append)
qed

lemma args_read:
  assumes step: "parser_parse_next eb p = Done (0, eb', p1)" and inv: "run_inv p" and acc: "accepts u p1"
    and p1: "args_only p1" "nextchar p1 = None" "argv (pstate p1) = ps @ ws" "nexti (pstate p1) = int (length ps)"
    and w: "world (pstate p1) = world (pstate p)" and kn: "known u (argument_calls ws)"
  shows "reads_to u (ps @ ws) (argument_calls ws) eb p"
proof -
  have "run_inv p1" using good_step [OF inv, of eb] by (simp add: step good_next_Done)
  then have "arg_point u ps ws p1" using acc p1 by (simp add: arg_point_def)
  from args_run [OF this kn, of eb'] show ?thesis by (simp add: reads_to_def loop_step [OF step] w)
qed

lemma end_read:
  assumes at: "at_point u p0 ps xs ys [] p" and nc: "nextchar p = None" and kn: "known u (argument_calls xs)"
  shows "reads_to u (ps @ ys @ xs) (argument_calls xs) eb p"
proof -
  have inv: "run_inv p" using at_point_inv [OF at] nc by simp
  have i: "idle u p0 p" and n: "nexti (pstate p) = argc (pstate p)"
    using at by (simp_all add: at_point_def idle_def)
  have step: "parser_parse_next eb p = parse_skipped p"
    using i n nc by (simp add: parser_parse_next_def Let_def resume_idle [OF inv] idle_def)
  show ?thesis
  proof (cases "xs = []")
    case True
    then have "parser_parse_next eb p = Done (EBADKEY, True, p)"
      using at by (simp add: step parse_skipped_def at_point_def)
    from loop_stop [OF this] at n True show ?thesis
      by (simp add: reads_to_def EBADKEY_def argument_calls_def at_point_def)
  next
    case False
    define e where "e = exchanged p ps xs ys []"
    have sp: "split_argv p ps xs ys []" by (rule at_point_split [OF at False])
    have ex: "exchange p = Done e" using exchange_split [OF sp] by (simp add: e_def exchanged_def)
    have "first_nonopt p \<noteq> last_nonopt p" using sp False by (simp add: split_argv_def)
    then have st: "parser_parse_next eb p = Done (0, True, e\<lparr>pstate := (pstate e)\<lparr>nexti := first_nonopt e\<rparr>,
            first_nonopt := 0, last_nonopt := 0, args_only := True\<rparr>)"
      by (simp add: step parse_skipped_def ex)
    have "reads_to u ((ps @ ys) @ xs) (argument_calls xs) eb p"
      using i nc kn by (intro args_read [OF st inv])
        (simp_all add: idle_def accepts_def e_def exchanged_def)
    then show ?thesis by simp
  qed
qed

lemma quote_read:
  assumes at: "at_point u p0 ps xs ys (w # ws) p" and nc: "nextchar p = None"
    and cl: "classify_arg p0 w = Done (ARG_QUOTE, body)" and kn: "known u (argument_calls (xs @ ws))"
  shows "reads_to u (ps @ ys @ [w] @ xs @ ws) (argument_calls (xs @ ws)) eb p"
proof -
  have inv: "run_inv p" using at_point_inv [OF at] nc by simp
  define q where "q = move_next 1 p"
  have q: "at_point u p0 ps xs (ys @ [w]) ws q" "nextchar q = None" "world (pstate q) = world (pstate p)"
    using at_point_move [OF at] nc by (simp_all add: q_def move_next_def)
  then have i: "idle u p0 q" by (simp add: at_point_def)
  have step: "parser_parse_next eb p = parse_quote eb p"
    by (simp add: next_at_element [OF at nc] cl)
  have "last_nonopt p \<le> nexti (pstate p)" using at by (auto simp: at_point_def split: if_splits)
  then have neq: "last_nonopt q \<noteq> nexti (pstate q)" by (simp add: q_def move_next_def)
  show ?thesis
  proof (cases "xs = []")
    case True
    then have "first_nonopt q = last_nonopt q" using q(1) by (simp add: at_point_def)
    then have st: "parser_parse_next eb p = Done (0, eb, q\<lparr>pstate := (pstate q)\<lparr>quoted := nexti (pstate q)\<rparr>, args_only := True\<rparr>)"
      using neq by (simp add: step parse_quote_def Let_def q_def)
    have "reads_to u ((ps @ ys @ [w]) @ ws) (argument_calls ws) eb p"
      using i q True kn by (intro args_read [OF st inv]) (simp_all add: idle_def accepts_def at_point_def)
    then show ?thesis using True by simp
  next
    case False
    define e where "e = exchanged q ps xs (ys @ [w]) ws"
    have sp: "split_argv q ps xs (ys @ [w]) ws" by (rule at_point_split [OF q(1) False])
    have ex: "exchange q = Done e" using exchange_split [OF sp] by (simp add: e_def exchanged_def)
    have "first_nonopt q \<noteq> last_nonopt q" using sp False by (simp add: split_argv_def)
    then have st: "parser_parse_next eb p = Done (0, eb, e\<lparr>pstate := (pstate e)\<lparr>quoted := first_nonopt e, nexti := first_nonopt e\<rparr>,
            first_nonopt := 0, last_nonopt := 0, args_only := True\<rparr>)"
      using neq ex by (simp add: step parse_quote_def Let_def q_def)
    have "reads_to u ((ps @ ys @ [w]) @ xs @ ws) (argument_calls (xs @ ws)) eb p"
      using i q kn by (intro args_read [OF st inv])
        (simp_all add: idle_def accepts_def e_def exchanged_def)
    then show ?thesis by simp
  qed
qed

lemma line_read:
  assumes "read_line p0 ws = Some (cs, os, ns)" and "at_point u p0 ps xs ys ws p" and "nextchar p = None"
    and "known u (cs @ argument_calls (xs @ ns))"
  shows "reads_to u (ps @ ys @ os @ xs @ ns) (cs @ argument_calls (xs @ ns)) eb p"
  using assms
proof (induction p0 ws arbitrary: cs os ns ps xs ys p eb rule: read_line.induct)
  case (1 p0)
  then show ?case using end_read [OF 1(2,3)] by simp
next
  case (2 p0 w ws)
  note at = "2.prems"(2) and nc = "2.prems"(3)
  from "2.prems"(1) obtain el where el: "read_element p0 w = Some el" by (auto split: option.splits)
  show ?case
  proof (cases el)
    case Argument
    with el "2.prems"(1) obtain ns' where rl: "read_line p0 ws = Some (cs, os, ns')" "ns = w # ns'" by auto
    from el Argument obtain body where "classify_arg p0 w = Done (ARG_ARG, body)"
      by (auto simp: read_element_def split: outcome.splits prod.splits arg_type.splits option.splits)
    then have step: "parser_parse_next eb p = parse_nonoption w eb p" by (simp add: next_at_element [OF at nc])
    from skip_argument [OF at nc, of eb] obtain ps' ys' p1 where p1: "parse_nonoption w eb p = Done (0, eb, p1)"
      "at_point u p0 ps' (xs @ [w]) ys' ws p1" "nextchar p1 = None" "world (pstate p1) = world (pstate p)"
      "ps' @ ys' = ps @ ys" by blast
    have "reads_to u (ps' @ ys' @ os @ (xs @ [w]) @ ns') (cs @ argument_calls ((xs @ [w]) @ ns')) eb p1"
      using "2.prems"(4) by (intro "2.IH"(1) [OF el Argument rl(1) p1(2,3)]) (simp add: rl(2))
    moreover have "ps' @ ys' @ os @ (xs @ [w]) @ ns' = ps @ ys @ os @ xs @ ns" using p1(5) by (simp add: rl(2))
    moreover have "(xs @ [w]) @ ns' = xs @ ns" by (simp add: rl(2))
    ultimately show ?thesis
      using p1(4) loop_step [OF step [unfolded p1(1)]] by (simp only: reads_to_def)
  next
    case Quoting
    with el obtain body where "classify_arg p0 w = Done (ARG_QUOTE, body)"
      by (auto simp: read_element_def split: outcome.splits prod.splits arg_type.splits option.splits)
    moreover have "cs = []" "os = [w]" "ns = ws" using "2.prems"(1) el Quoting by simp_all
    ultimately show ?thesis using quote_read [OF at nc, of body eb] "2.prems"(4) by simp
  next
    case (Options cs0 wait)
    have rw: "reaches_wait u p0 ps xs (ys @ [w]) ws cs0 wait eb p" if "known u cs0"
      by (rule element_reaches [OF el [unfolded Options] at nc that])
    show ?thesis
    proof (cases wait)
      case None
      with el Options "2.prems"(1) obtain cs' os' where rl: "read_line p0 ws = Some (cs', os', ns)"
        "cs = cs0 @ cs'" "os = w # os'" by auto
      have "reads_to u (ps @ (ys @ [w]) @ os' @ xs @ ns) (cs0 @ (cs' @ argument_calls (xs @ ns))) eb p"
        using rw None "2.prems"(4) rl(2) by (intro reads_to_after [OF _ "2.IH"(2) [OF el Options None rl(1)]])
          (simp_all add: reaches_wait_def)
      then show ?thesis by (simp add: rl)
    next
      case (Some gk)
      obtain g key where gk: "gk = (g, key)" by (cases gk)
      from el Options Some gk "2.prems"(1) obtain v ws' cs' os' where rl: "ws = v # ws'"
        "read_line p0 ws' = Some (cs', os', ns)" "cs = cs0 @ (g, key, Some v) # cs'" "os = w # v # os'"
        by (auto split: list.splits)
      have "reaches u p0 ps xs ((ys @ [w]) @ [v]) ws' (cs0 @ [(g, key, Some v)]) eb p"
        using rw Some gk rl(1,3) "2.prems"(4) by (simp add: reaches_wait_def)
      moreover have "known u (cs' @ argument_calls (xs @ ns))" using "2.prems"(4) rl(3) by simp
      ultimately have "reads_to u (ps @ ((ys @ [w]) @ [v]) @ os' @ xs @ ns)
          ((cs0 @ [(g, key, Some v)]) @ (cs' @ argument_calls (xs @ ns))) eb p"
        using reads_to_after "2.IH"(3) [OF el Options Some gk [symmetric] rl(1,2)] by blast
      then show ?thesis by (simp add: rl)
    qed
  qed
qed

section \<open>The line as documented\<close>

text \<open>
  The same reading from \<^verbatim>\<open>argp.h\<close> and the conventions of the command line, without the parser's own
  classification, searches and tests.  An option is described by the group that handles it, the
  entry of a table that it stands for, its name and key, and whether it takes an argument;
  an alias has all but the name and the key from the closest previous entry that is none.
\<close>

datatype takes = No_Argument | Optional_Argument | Required_Argument

definition takes_of :: "argp_option \<Rightarrow> takes" where
  "takes_of opt =
     (if opt_arg opt = None then No_Argument
      else if has_flag (opt_flags opt) OPTION_ARG_OPTIONAL then Optional_Argument
      else Required_Argument)"

record doc_option =
  handled_by :: nat
  stands_for :: "nat \<times> nat"
  called :: "string option"
  letter :: int
  takes :: takes

fun table_options :: "nat \<Rightarrow> nat \<Rightarrow> (nat \<times> takes) option \<Rightarrow> nat \<Rightarrow> argp_option list \<Rightarrow> doc_option list" where
  "table_options g at base i [] = []"
| "table_options g at base i (opt # opts) =
     (if opt_key opt = 0 \<and> opt_name opt = None \<and> opt_doc opt = None \<and> opt_group opt = 0 then []
      else if has_flag (opt_flags opt) OPTION_DOC then table_options g at base (Suc i) opts
      else if has_flag (opt_flags opt) OPTION_ALIAS then
        (case base of
           None \<Rightarrow> table_options g at base (Suc i) opts
         | Some (b, t) \<Rightarrow>
             \<lparr>handled_by = g, stands_for = (at, b), called = opt_name opt, letter = opt_key opt, takes = t\<rparr>
             # table_options g at base (Suc i) opts)
      else \<lparr>handled_by = g, stands_for = (at, i), called = opt_name opt, letter = opt_key opt, takes = takes_of opt\<rparr>
             # table_options g at (Some (i, takes_of opt)) (Suc i) opts)"

fun all_options :: "nat \<Rightarrow> option_table list \<Rightarrow> doc_option list" where
  "all_options g [] = []"
| "all_options g (tab # tabs) =
     (case tab of None \<Rightarrow> [] | Some (at, opts) \<Rightarrow> table_options g at None 0 opts) @ all_options (Suc g) tabs"

text \<open>A letter is the printable key of the first option that has it.\<close>

definition lettered :: "doc_option list \<Rightarrow> char \<Rightarrow> doc_option option" where
  "lettered os c =
     (if 32 \<le> (of_char c :: int) \<and> (of_char c :: int) \<le> 126 then find (\<lambda>opt. letter opt = of_char c) os else None)"

text \<open>A name is the whole name of an option, or the start of the names of one option alone.\<close>

definition called_so :: "doc_option list \<Rightarrow> string \<Rightarrow> doc_option option" where
  "called_so os name =
     (case filter (\<lambda>opt. called opt = Some name) os of
        opt # _ \<Rightarrow> Some opt
      | [] \<Rightarrow>
          (case filter (\<lambda>opt. \<exists>n \<in> set_option (called opt). prefix name n) os of
             [] \<Rightarrow> None
           | opt # opts \<Rightarrow> if \<forall>opt' \<in> set opts. stands_for opt' = stands_for opt then Some opt else None))"

fun doc_cluster :: "doc_option list \<Rightarrow> string \<Rightarrow> (parser_call list \<times> (nat \<times> int) option) option" where
  "doc_cluster os [] = Some ([], None)"
| "doc_cluster os (c # rest) =
     (case lettered os c of
        None \<Rightarrow> None
      | Some opt \<Rightarrow>
          (case takes opt of
             No_Argument \<Rightarrow>
               map_option (\<lambda>(cs, wait). ((handled_by opt, letter opt, None) # cs, wait)) (doc_cluster os rest)
           | Optional_Argument \<Rightarrow>
               Some ([(handled_by opt, letter opt, if rest = [] then None else Some rest)], None)
           | Required_Argument \<Rightarrow>
               if rest = [] then Some ([], Some (handled_by opt, letter opt))
               else Some ([(handled_by opt, letter opt, Some rest)], None)))"

text \<open>The name and, after the first \<open>=\<close>, the value.\<close>

fun name_value :: "string \<Rightarrow> string \<times> string option" where
  "name_value [] = ([], None)"
| "name_value (c # cs) = (if c = CHR ''='' then ([], Some cs) else (c # fst (name_value cs), snd (name_value cs)))"

definition doc_long :: "doc_option list \<Rightarrow> string \<Rightarrow> (parser_call list \<times> (nat \<times> int) option) option" where
  "doc_long os body =
     (case called_so os (fst (name_value body)) of
        None \<Rightarrow> None
      | Some opt \<Rightarrow>
          (case (takes opt, snd (name_value body)) of
             (No_Argument, Some _) \<Rightarrow> None
           | (Required_Argument, None) \<Rightarrow> Some ([], Some (handled_by opt, letter opt))
           | (_, value) \<Rightarrow> Some ([(handled_by opt, letter opt, value)], None)))"

definition doc_element :: "doc_option list \<Rightarrow> string \<Rightarrow> element option" where
  "doc_element os w =
     (if \<not> prefix ''-'' w \<or> w = ''-'' then Some Argument
      else if w = ''--'' then Some Quoting
      else map_option (\<lambda>(cs, wait). Options cs wait)
        (if prefix ''--'' w then doc_long os (drop 2 w) else doc_cluster os (drop 1 w)))"

fun doc_line :: "doc_option list \<Rightarrow> string list \<Rightarrow> (parser_call list \<times> string list \<times> string list) option" where
  "doc_line os [] = Some ([], [], [])"
| "doc_line os (w # ws) =
     (case doc_element os w of
        None \<Rightarrow> None
      | Some Argument \<Rightarrow> map_option (\<lambda>(cs, xs, ns). (cs, xs, w # ns)) (doc_line os ws)
      | Some Quoting \<Rightarrow> Some ([], [w], ws)
      | Some (Options cs0 None) \<Rightarrow> map_option (\<lambda>(cs, xs, ns). (cs0 @ cs, w # xs, ns)) (doc_line os ws)
      | Some (Options cs0 (Some (g, key))) \<Rightarrow>
          (case ws of
             [] \<Rightarrow> None
           | v # ws' \<Rightarrow>
               map_option (\<lambda>(cs, xs, ns). (cs0 @ (g, key, Some v) # cs, w # v # xs, ns)) (doc_line os ws')))"

text \<open>
  The tables on which the parser does what the header says: no entry is documentation only, no alias
  comes first, and aliases repeat what their option says of the argument.
\<close>

fun plain_table :: "takes option \<Rightarrow> argp_option list \<Rightarrow> bool" where
  "plain_table base [] \<longleftrightarrow> True"
| "plain_table base (opt # opts) \<longleftrightarrow>
     option_is_end opt \<or>
     \<not> has_flag (opt_flags opt) OPTION_DOC \<and>
     (if has_flag (opt_flags opt) OPTION_ALIAS then base = Some (takes_of opt) \<and> plain_table base opts
      else plain_table (Some (takes_of opt)) opts)"

definition plain_tables :: "option_table list \<Rightarrow> bool" where
  "plain_tables tabs \<longleftrightarrow> (\<forall>tab \<in> set tabs. case tab of None \<Rightarrow> False | Some (_, opts) \<Rightarrow> plain_table None opts)"

definition described :: "long_entry \<Rightarrow> doc_option" where
  "described e = (case e of (g, b, opt) \<Rightarrow>
     \<lparr>handled_by = g, stands_for = b, called = opt_name opt, letter = opt_key opt, takes = takes_of opt\<rparr>)"

lemma table_options_described:
  "plain_table (map_option snd base) opts \<Longrightarrow>
   table_options g at base i opts = map described (table_entries g at (map_option fst base) i opts)"
  by (induction g at base i opts rule: table_options.induct)
    (auto simp: described_def option_is_end_def split: option.splits)

lemma all_options_described:
  "plain_tables (map g_options grs) \<Longrightarrow> all_options g (map g_options grs) = map described (group_entries g grs)"
  using table_options_described [of None]
  by (induction grs arbitrary: g) (auto simp: plain_tables_def split: option.splits)

lemma find_map: "find P (map f xs) = map_option f (find (\<lambda>x. P (f x)) xs)"
  by (induction xs) auto

lemma find_is_filter: "find P xs = (case filter P xs of [] \<Rightarrow> None | x # _ \<Rightarrow> Some x)"
  by (induction xs) auto

lemma find_append: "find P (xs @ ys) = (case find P xs of None \<Rightarrow> find P ys | Some x \<Rightarrow> Some x)"
  by (induction xs) auto

lemma find_table_entries:
  "map_option (\<lambda>(g, _, opt). (g, opt)) (find (\<lambda>(_, _, opt). Q opt) (table_entries g at base i opts)) =
   map_option (Pair g) (find Q (entries opts))"
  by (induction g at base i opts rule: table_entries.induct) (auto simp: entries_def)

lemma find_short_in_entries:
  "\<forall>gr \<in> set grs. g_options gr \<noteq> None \<Longrightarrow>
   find_short_in key g grs =
     Done (map_option (\<lambda>(g, _, opt). (g, opt)) (find (\<lambda>(_, _, opt). opt_key opt = key) (group_entries g grs)))"
proof (induction grs arbitrary: g)
  case (Cons gr grs)
  then obtain at opts where tab: "g_options gr = Some (at, opts)" by auto
  then show ?case
    using Cons find_table_entries [of "\<lambda>opt. opt_key opt = key" g at None 0 opts]
    by (auto simp: find_append split: option.splits)
qed simp

lemma plain_not_null: "plain_tables (map g_options grs) \<Longrightarrow> \<forall>gr \<in> set grs. g_options gr \<noteq> None"
  by (force simp: plain_tables_def split: option.splits)

lemma lettered_found:
  assumes plain: "plain_tables (map g_options (groups p))"
    and l: "lettered (all_options 0 (map g_options (groups p))) c = Some o'"
  shows "\<exists>opt. find_short_option p (schar c) = Done (Some (handled_by o', opt))
    \<and> letter o' = opt_key opt \<and> takes o' = takes_of opt"
proof -
  from l have range: "32 \<le> (of_char c :: int)" "(of_char c :: int) \<le> 126"
    by (auto simp: lettered_def split: if_splits)
  then have key: "schar c = of_char c" by (simp add: schar_def Let_def)
  from l range obtain e where e: "find (\<lambda>(_, _, opt). opt_key opt = of_char c) (group_entries 0 (groups p)) = Some e"
    "o' = described e"
    by (auto simp: lettered_def all_options_described [OF plain] find_map described_def case_prod_unfold)
  obtain g b opt where "e = (g, b, opt)" by (cases e)
  then show ?thesis
    using e range by (auto simp: find_short_option_def key find_short_in_entries [OF plain_not_null [OF plain]] described_def)
qed

lemma name_value_parts: "fst (name_value body) = long_name body" "snd (name_value body) = value_of body"
  by (induction body) (auto simp: long_name_def value_of_def)

lemma called_found:
  assumes plain: "plain_tables (map g_options (groups p))"
    and o': "called_so (all_options 0 (map g_options (groups p))) (long_name body) = Some o'"
  shows "\<exists>opt amb. find_long_option p body = Done (Some (handled_by o', opt), amb)
    \<and> letter o' = opt_key opt \<and> takes o' = takes_of opt"
proof -
  define es where "es = group_entries 0 (groups p)"
  have exact: "filter (\<lambda>opt. called opt = Some (long_name body)) (map described es) =
      map described (filter (\<lambda>(_, _, opt). names body opt) es)"
    by (auto simp: filter_map described_def names_def o_def intro!: arg_cong [where f = "map described"] filter_cong)
  have start: "filter (\<lambda>opt. \<exists>n \<in> set_option (called opt). prefix (long_name body) n) (map described es) =
      map described (filter (\<lambda>(_, _, opt). abbreviates body opt) es)"
    if "filter (\<lambda>(_, _, opt). names body opt) es = []"
    using that by (auto simp: filter_map described_def names_def abbreviates_def o_def filter_empty_conv strict_prefix_def
        intro!: arg_cong [where f = "map described"] filter_cong split: option.splits)
  have "\<exists>e amb. long_meaning body es = (Some (fst e, snd (snd e)), amb) \<and> o' = described e"
  proof (cases "filter (\<lambda>(_, _, opt). names body opt) es")
    case (Cons e es')
    then have "o' = described e"
      using o' by (simp add: called_so_def all_options_described [OF plain] es_def [symmetric] exact)
    moreover have "long_meaning body es = (Some (fst e, snd (snd e)), False)"
      by (simp add: long_meaning_def find_is_filter Cons split: prod.splits)
    ultimately show ?thesis by blast
  next
    case Nil
    note o' = o' [unfolded called_so_def all_options_described [OF plain] es_def [symmetric] exact start [OF Nil] Nil]
    show ?thesis
    proof (cases "filter (\<lambda>(_, _, opt). abbreviates body opt) es")
      case (Cons e cs)
      then have "o' = described e" "\<forall>e' \<in> set cs. stands_for (described e') = stands_for (described e)"
        using o' by (auto split: if_splits)
      moreover from this have "long_meaning body es = (Some (fst e, snd (snd e)), False)"
        by (auto simp: long_meaning_def find_is_filter Nil Cons described_def split: prod.splits)
      ultimately show ?thesis by blast
    qed (use o' in simp)
  qed
  then show ?thesis
    by (auto simp: find_long_option_list [OF plain_not_null [OF plain]] es_def [symmetric] described_def split: prod.splits)
qed

lemma doc_cluster_read:
  assumes "plain_tables (map g_options (groups p))"
    and "doc_cluster (all_options 0 (map g_options (groups p))) body = Some r"
  shows "read_cluster p body = Some r"
  using assms(2)
proof (induction body arbitrary: r)
  case (Cons c rest)
  then obtain o' where o': "lettered (all_options 0 (map g_options (groups p))) c = Some o'" by (auto split: option.splits)
  from lettered_found [OF assms(1) this] obtain opt where opt: "find_short_option p (schar c) = Done (Some (handled_by o', opt))"
    "letter o' = opt_key opt" "takes o' = takes_of opt" by blast
  show ?case
    using Cons o' opt by (auto simp: takes_of_def lacks_argument_def split: if_splits)
qed simp

lemma doc_long_read:
  assumes "plain_tables (map g_options (groups p))"
    and "doc_long (all_options 0 (map g_options (groups p))) body = Some r"
  shows "read_long p body = Some r"
proof -
  from assms(2) obtain o' where o': "called_so (all_options 0 (map g_options (groups p))) (long_name body) = Some o'"
    by (auto simp: doc_long_def name_value_parts split: option.splits)
  from called_found [OF assms(1) this] obtain opt amb where "find_long_option p body = Done (Some (handled_by o', opt), amb)"
    "letter o' = opt_key opt" "takes o' = takes_of opt" by blast
  then show ?thesis
    using assms(2) o' by (auto simp: doc_long_def read_long_def name_value_parts takes_of_def lacks_argument_def
        split: if_splits option.splits)
qed

lemma doc_element_read:
  assumes "plain_tables (map g_options (groups p))" and "\<not> has_flag (st_flags (pstate p)) ARGP_LONG_ONLY"
    and "doc_element (all_options 0 (map g_options (groups p))) w = Some e"
  shows "read_element p w = Some e"
proof -
  consider "w = []" | c rest where "w = c # rest" "c \<noteq> CHR ''-''" | "w = ''-''" | "w = ''--''"
    | d rest where "w = CHR ''-'' # CHR ''-'' # d # rest" | d rest where "w = CHR ''-'' # d # rest" "d \<noteq> CHR ''-''"
    by (metis list.exhaust)
  then show ?thesis
    using assms(2,3) doc_cluster_read [OF assms(1)] doc_long_read [OF assms(1)]
    by cases (auto simp: doc_element_def read_element_def classify_arg_def
        simp del: doc_cluster.simps read_cluster.simps)
qed

lemma doc_line_read:
  assumes "plain_tables (map g_options (groups p))" and "\<not> has_flag (st_flags (pstate p)) ARGP_LONG_ONLY"
    and "doc_line (all_options 0 (map g_options (groups p))) ws = Some r"
  shows "read_line p ws = Some r"
  using assms(3)
proof (induction "all_options 0 (map g_options (groups p))" ws arbitrary: r rule: doc_line.induct)
  case (2 w ws)
  from "2.prems" obtain e where e: "doc_element (all_options 0 (map g_options (groups p))) w = Some e"
    by (auto split: option.splits)
  note re = doc_element_read [OF assms(1,2) e]
  show ?case
    using "2.prems" "2.hyps" e re by (auto split: element.splits option.splits list.splits)
qed simp

end
