(* ===== verification/Argp_Fit.thy ===== *)
theory Argp_Fit
  imports Argp_Ends
begin

text \<open>
  What the first pass over the tree counts against what the second pass fills: the groups,
  the child inputs, the short options.
\<close>

section \<open>Counting\<close>

definition no_sizes :: parser_sizes where
  "no_sizes = \<lparr>short_len = 0, num_groups = 0, num_child_inputs = 0\<rparr>"

definition plus_sizes :: "parser_sizes \<Rightarrow> parser_sizes \<Rightarrow> parser_sizes" where
  "plus_sizes s t = \<lparr>short_len = short_len s + short_len t, num_groups = num_groups s + num_groups t,
     num_child_inputs = num_child_inputs s + num_child_inputs t\<rparr>"

lemma plus_sizes_simps [simp]:
  "short_len (plus_sizes s t) = short_len s + short_len t" "num_groups (plus_sizes s t) = num_groups s + num_groups t"
  "num_child_inputs (plus_sizes s t) = num_child_inputs s + num_child_inputs t"
  "short_len no_sizes = 0" "num_groups no_sizes = 0" "num_child_inputs no_sizes = 0"
  by (simp_all add: plus_sizes_def no_sizes_def)

text \<open>The counts by recursion over the tree, and the short options of all its tables.\<close>

definition table_length :: "(argp_option list \<Rightarrow> nat) \<Rightarrow> option_table \<Rightarrow> nat" where
  "table_length f tab = (case tab of None \<Rightarrow> 0 | Some (_, opts) \<Rightarrow> f opts)"

definition short_entries :: "argp_option list \<Rightarrow> argp_option list" where
  "short_entries opts = filter option_is_short (entries opts)"

fun tree_sizes :: "(argp_option list \<Rightarrow> nat) \<Rightarrow> 'p argp \<Rightarrow> parser_sizes"
  and trees_sizes :: "(argp_option list \<Rightarrow> nat) \<Rightarrow> 'p argp list \<Rightarrow> parser_sizes" where
  "tree_sizes f (Argp a opts prs chs) =
     plus_sizes (if opts \<noteq> None \<or> prs \<noteq> None
        then \<lparr>short_len = table_length f opts, num_groups = 1, num_child_inputs = 0\<rparr> else no_sizes)
      (case chs of None \<Rightarrow> no_sizes | Some cs \<Rightarrow> trees_sizes f cs)"
| "trees_sizes f [] = no_sizes"
| "trees_sizes f (a # as) =
     plus_sizes (plus_sizes (tree_sizes f a) \<lparr>short_len = 0, num_groups = 0, num_child_inputs = 1\<rparr>) (trees_sizes f as)"

lemma calc_sizes_tree:
  fixes a :: "'p argp" and as :: "'p argp list"
  shows "calc_sizes a szs = plus_sizes szs (tree_sizes leading_short a)"
    "calc_children as szs = plus_sizes szs (trees_sizes leading_short as)"
proof (induction a szs and as szs rule: calc_sizes_calc_children.induct)
  case (1 a opts prs chs szs)
  then show ?case
    by (cases chs; cases opts; cases prs) (auto simp: Let_def plus_sizes_def no_sizes_def table_length_def)
qed (simp_all add: plus_sizes_def no_sizes_def Let_def)

lemma leading_le_all: "leading_short opts \<le> length (short_entries opts)"
proof (induction opts)
  case (Cons opt opts)
  moreover have "option_is_short opt \<Longrightarrow> \<not> option_is_end opt"
    by (simp add: option_is_short_def option_is_end_def)
  ultimately show ?case by (simp add: short_entries_def entries_def)
qed simp

fun tree_tables :: "'p argp \<Rightarrow> argp_option list list" and trees_tables :: "'p argp list \<Rightarrow> argp_option list list" where
  "tree_tables (Argp a opts prs chs) =
     (case opts of None \<Rightarrow> [] | Some (_, os) \<Rightarrow> [os]) @ (case chs of None \<Rightarrow> [] | Some cs \<Rightarrow> trees_tables cs)"
| "trees_tables [] = []"
| "trees_tables (a # as) = tree_tables a @ trees_tables as"

lemma short_len_tables:
  fixes a :: "'p argp" and as :: "'p argp list"
  shows "short_len (tree_sizes f a) = (\<Sum>os \<leftarrow> tree_tables a. f os)"
    "short_len (trees_sizes f as) = (\<Sum>os \<leftarrow> trees_tables as. f os)"
proof (induction a and as rule: tree_tables_trees_tables.induct)
  case (1 a opts prs chs)
  then show ?case by (cases chs; cases opts; cases prs) (auto simp: table_length_def)
qed simp_all

lemma sum_list_eq_pointwise:
  fixes f g :: "'a \<Rightarrow> nat"
  assumes "\<And>x. f x \<le> g x"
  shows "(\<Sum>x \<leftarrow> xs. g x) \<le> (\<Sum>x \<leftarrow> xs. f x) \<longleftrightarrow> (\<forall>x \<in> set xs. f x = g x)"
proof (induction xs)
  case (Cons x xs)
  have "(\<Sum>x \<leftarrow> xs. f x) \<le> (\<Sum>x \<leftarrow> xs. g x)" by (rule sum_list_mono) (rule assms)
  then show ?case using Cons.IH assms [of x] by auto
qed simp

text \<open>All short options of the table stand at its head.\<close>

definition shorts_first :: "argp_option list \<Rightarrow> bool" where
  "shorts_first opts \<longleftrightarrow> short_entries opts = takeWhile option_is_short opts"

lemma leading_short_length: "leading_short opts = length (takeWhile option_is_short opts)"
  by (induction opts) simp_all

lemma shorts_first_iff: "leading_short opts = length (short_entries opts) \<longleftrightarrow> shorts_first opts"
proof (induction opts)
  case (Cons opt opts)
  show ?case
  proof (cases "option_is_short opt")
    case True
    then have "\<not> option_is_end opt" by (simp add: option_is_short_def option_is_end_def)
    with True Cons show ?thesis by (simp add: shorts_first_def short_entries_def entries_def)
  next
    case False
    then show ?thesis by (simp add: shorts_first_def)
  qed
qed (simp add: shorts_first_def short_entries_def entries_def)

section \<open>Filling the short options\<close>

definition short_used :: "'w convert_state \<Rightarrow> nat option" where
  "short_used c = map_option length (cvt_short c)"

text \<open>Storing \<open>n\<close> more short options: done when they fit, else beyond the end.\<close>

definition stores :: "nat \<Rightarrow> 'w convert_state \<Rightarrow> 'w convert_state outcome \<Rightarrow> bool" where
  "stores n c r \<longleftrightarrow> (\<exists>k \<le> cvt_short_room c. short_used c = Some k \<and>
     (if k + n \<le> cvt_short_room c
      then \<exists>c'. r = Done c' \<and> short_used c' = Some (k + n) \<and> cvt_short_room c' = cvt_short_room c
      else r = Faults))"

lemma stores_then:
  assumes r: "stores n c r" and f: "\<And>c'. r = Done c' \<Longrightarrow> stores 0 c' (Done c') \<Longrightarrow> stores n' c' (f c')"
  shows "stores (n + n') c (and_then r f)"
proof -
  from r obtain k where k: "k \<le> cvt_short_room c" "short_used c = Some k"
    and rk: "if k + n \<le> cvt_short_room c
      then \<exists>c'. r = Done c' \<and> short_used c' = Some (k + n) \<and> cvt_short_room c' = cvt_short_room c else r = Faults"
    by (auto simp: stores_def)
  show ?thesis
  proof (cases "k + n \<le> cvt_short_room c")
    case True
    with rk obtain c' where c': "r = Done c'" "short_used c' = Some (k + n)" "cvt_short_room c' = cvt_short_room c" by auto
    with True have "stores 0 c' (Done c')" by (simp add: stores_def)
    from f [OF c'(1) this] c' k show ?thesis by (auto simp: stores_def add.assoc)
  next
    case False
    with rk k show ?thesis by (auto simp: stores_def)
  qed
qed

lemma stores_same: "stores 0 c (Done c) \<longleftrightarrow> (\<exists>k \<le> cvt_short_room c. short_used c = Some k)"
  by (auto simp: stores_def)

lemma record_short_stores:
  "stores 0 c (Done c) \<Longrightarrow> stores (length (filter option_is_short opts)) c (record_short opts c)"
proof (induction opts c rule: record_short.induct)
  case (2 opt opts c)
  from "2.prems" obtain s where s: "cvt_short c = Some s" "length s \<le> cvt_short_room c"
    by (auto simp: stores_same short_used_def)
  show ?case
  proof (cases "option_is_short opt")
    case True
    define c1 where "c1 = c\<lparr>cvt_short := Some (s @ [char_of (nat (opt_key opt))])\<rparr>"
    show ?thesis
    proof (cases "length s < cvt_short_room c")
      case room: True
      have "stores 0 c1 (Done c1)" using room by (simp add: stores_same c1_def short_used_def)
      from "2.IH"(1) [OF True s(1) room, folded c1_def, OF this] True s room show ?thesis
        by (auto simp: stores_def c1_def short_used_def split: if_splits)
    next
      case False
      with True s show ?thesis by (simp add: stores_def short_used_def)
    qed
  next
    case False
    from "2.IH"(2) [OF False "2.prems"] False show ?thesis by simp
  qed
qed (simp add: stores_def)

lemma record_options_stores:
  assumes "stores 0 c (Done c)" and "tab \<noteq> None"
  shows "stores (table_length (\<lambda>opts. length (short_entries opts)) tab) c (record_options tab c)"
proof -
  from assms(2) obtain at opts where tab: "tab = Some (at, opts)" by auto
  have "cvt_short c \<noteq> None" using assms(1) by (auto simp: stores_same short_used_def)
  with record_short_stores [OF assms(1), of "entries opts"] show ?thesis
    by (auto simp: tab record_options_def table_length_def short_entries_def)
qed

text \<open>No argp of the tree has a parsing function and no table.\<close>

fun full_tables :: "'p argp \<Rightarrow> bool" and all_full_tables :: "'p argp list \<Rightarrow> bool" where
  "full_tables (Argp a opts prs chs) \<longleftrightarrow>
     (prs \<noteq> None \<longrightarrow> opts \<noteq> None) \<and> (case chs of None \<Rightarrow> True | Some cs \<Rightarrow> all_full_tables cs)"
| "all_full_tables [] \<longleftrightarrow> True"
| "all_full_tables (a # as) \<longleftrightarrow> full_tables a \<and> all_full_tables as"

abbreviation all_shorts :: "'p argp \<Rightarrow> nat" where
  "all_shorts a \<equiv> short_len (tree_sizes (\<lambda>opts. length (short_entries opts)) a)"

abbreviation children_shorts :: "'p argp list \<Rightarrow> nat" where
  "children_shorts as \<equiv> short_len (trees_sizes (\<lambda>opts. length (short_entries opts)) as)"

text \<open>What an argp of its own adds to the groups.\<close>

definition own_group :: "'w argp_fun argp \<Rightarrow> nat option \<Rightarrow> nat \<Rightarrow> 'w convert_state \<Rightarrow> 'w group" where
  "own_group a par index c = (case a of Argp n opts prs chs \<Rightarrow>
     \<lparr>g_parser = prs, g_argp = n, g_options = opts,
       g_has_child = (case chs of None \<Rightarrow> False | Some cs \<Rightarrow> cs \<noteq> []), args_processed = 0,
       parent = par, parent_index = index, g_input = 0,
       g_child_inputs = (case chs of None \<Rightarrow> None | Some _ \<Rightarrow> Some (cvt_child_end c)), g_hook = 0\<rparr>)"

definition with_group :: "'w argp_fun argp \<Rightarrow> nat option \<Rightarrow> nat \<Rightarrow> 'w convert_state \<Rightarrow> 'w convert_state" where
  "with_group a par index c = c\<lparr>cvt_groups := cvt_groups c @ [own_group a par index c],
     cvt_child_end := cvt_child_end c + (case argp_children a of None \<Rightarrow> 0 | Some cs \<Rightarrow> length cs)\<rparr>"

lemma own_group_eq:
  "own_group (Argp n opts prs chs) par index c = \<lparr>g_parser = prs, g_argp = n, g_options = opts,
     g_has_child = (case chs of None \<Rightarrow> False | Some cs \<Rightarrow> cs \<noteq> []), args_processed = 0,
     parent = par, parent_index = index, g_input = 0,
     g_child_inputs = (case chs of None \<Rightarrow> None | Some _ \<Rightarrow> Some (cvt_child_end c)), g_hook = 0\<rparr>"
  by (simp add: own_group_def)

lemma with_group_eq:
  "with_group (Argp n opts prs chs) par index c = c\<lparr>cvt_groups := cvt_groups c @ [own_group (Argp n opts prs chs) par index c],
     cvt_child_end := cvt_child_end c + (case chs of None \<Rightarrow> 0 | Some cs \<Rightarrow> length cs)\<rparr>"
  by (simp add: with_group_def)

lemma stores_with_group [simp]: "stores n (with_group a par i c) r = stores n c r"
  by (simp add: stores_def with_group_def short_used_def)

lemma convert_own:
  "opts \<noteq> None \<or> prs \<noteq> None \<Longrightarrow>
   convert_options (Argp n opts prs chs) par index c =
     and_then (record_options opts c) (\<lambda>c.
       case chs of None \<Rightarrow> Done (with_group (Argp n opts prs chs) par index c)
       | Some cs \<Rightarrow> convert_children cs (Some (length (cvt_groups c))) 0 (with_group (Argp n opts prs chs) par index c))"
  unfolding convert_options.simps with_group_def own_group_def by (simp add: Let_def cong: option.case_cong)

lemma convert_stores:
  "stores 0 c (Done c) \<Longrightarrow> full_tables a \<Longrightarrow> stores (all_shorts a) c (convert_options a par i c)"
  "stores 0 c (Done c) \<Longrightarrow> all_full_tables as \<Longrightarrow> stores (children_shorts as) c (convert_children as par i c)"
proof (induction a par i c and as par i c rule: convert_options_convert_children.induct)
  case (1 n opts prs chs par index c)
  show ?case
  proof (cases "opts \<noteq> None \<or> prs \<noteq> None")
    case True
    then have opts: "opts \<noteq> None" using "1.prems"(2) by auto
    let ?m = "case chs of None \<Rightarrow> 0 | Some cs \<Rightarrow> children_shorts cs"
    have rest: "stores ?m c1 (case chs of None \<Rightarrow> Done (with_group (Argp n opts prs chs) par index c1)
        | Some cs \<Rightarrow> convert_children cs (Some (length (cvt_groups c1))) 0 (with_group (Argp n opts prs chs) par index c1))"
      if c1: "record_options opts c = Done c1" "stores 0 c1 (Done c1)" for c1
    proof (cases chs)
      case None
      then show ?thesis using c1(2) by (auto simp: stores_def with_group_def short_used_def)
    next
      case (Some cs)
      have "stores 0 (with_group (Argp n opts prs chs) par index c1) (Done (with_group (Argp n opts prs chs) par index c1))"
        using c1(2) by (auto simp: stores_same with_group_def short_used_def)
      moreover have "all_full_tables cs" using "1.prems"(2) Some by simp
      ultimately have "stores (children_shorts cs) (with_group (Argp n opts prs chs) par index c1)
          (convert_children cs (Some (length (cvt_groups c1))) 0 (with_group (Argp n opts prs chs) par index c1))"
        using "1.IH"(1) [OF True own_group_eq with_group_eq Some] by blast
      then show ?thesis using Some by simp
    qed
    have "all_shorts (Argp n opts prs chs) = table_length (\<lambda>opts. length (short_entries opts)) opts + ?m"
      using True by (cases chs) auto
    then show ?thesis
      unfolding convert_own [OF True] by (simp only: stores_then [OF record_options_stores [OF "1.prems"(1) opts] rest])
  next
    case False
    then show ?thesis using 1 by (cases chs) (auto simp: stores_def)
  qed
next
  case (3 a as par index c)
  have "stores (all_shorts a + children_shorts as) c (convert_children (a # as) par index c)"
    unfolding convert_children.simps
    using "3.prems" "3.IH" by (intro stores_then) simp_all
  then show ?case by simp
qed simp

section \<open>Filling the groups and the child inputs\<close>

text \<open>
  The groups so far: a parent comes first, and the input its child reads lies in the
  parent's stretch.
\<close>

definition inputs_inside :: "'w group list \<Rightarrow> nat \<Rightarrow> bool" where
  "inputs_inside grs n \<longleftrightarrow> (\<forall>g < length grs.
     (\<forall>up. parent (grs ! g) = Some up \<longrightarrow> up < g \<and>
        (\<exists>at. g_child_inputs (grs ! up) = Some at \<and> at + parent_index (grs ! g) < n))
     \<and> (g_has_child (grs ! g) \<longrightarrow> (\<exists>at < n. g_child_inputs (grs ! g) = Some at)))"

definition grows :: "'w convert_state \<Rightarrow> nat \<Rightarrow> nat \<Rightarrow> 'w convert_state \<Rightarrow> bool" where
  "grows c n m c' \<longleftrightarrow> (\<exists>gs. cvt_groups c' = cvt_groups c @ gs \<and> length gs = n)
     \<and> cvt_child_end c \<le> cvt_child_end c' \<and> cvt_child_end c' \<le> cvt_child_end c + m
     \<and> inputs_inside (cvt_groups c') (cvt_child_end c')"

definition parent_ok :: "nat option \<Rightarrow> nat \<Rightarrow> 'w convert_state \<Rightarrow> bool" where
  "parent_ok par k c \<longleftrightarrow> (\<forall>up. par = Some up \<longrightarrow> up < length (cvt_groups c) \<and>
     (\<exists>at. g_child_inputs (cvt_groups c ! up) = Some at \<and> at + k \<le> cvt_child_end c))"

lemma grows_trans: "grows c n m c1 \<Longrightarrow> grows c1 n' m' c2 \<Longrightarrow> grows c (n + n') (m + m') c2"
  by (auto simp: grows_def)

lemma grows_le: "grows c n m c' \<Longrightarrow> m \<le> m' \<Longrightarrow> grows c n m' c'"
  by (auto simp: grows_def)

lemma parent_ok_grows: "parent_ok par k c \<Longrightarrow> grows c n m c' \<Longrightarrow> parent_ok par k c'"
  by (fastforce simp: parent_ok_def grows_def nth_append)

lemma inputs_inside_mono: "inputs_inside grs n \<Longrightarrow> n \<le> n' \<Longrightarrow> inputs_inside grs n'"
  unfolding inputs_inside_def by (meson less_le_trans)

lemma record_short_keeps:
  "record_short opts c = Done c' \<Longrightarrow> cvt_groups c' = cvt_groups c \<and> cvt_child_end c' = cvt_child_end c"
  by (induction opts c rule: record_short.induct) (auto split: if_splits option.splits)

lemma record_options_keeps:
  "record_options tab c = Done c' \<Longrightarrow> cvt_groups c' = cvt_groups c \<and> cvt_child_end c' = cvt_child_end c"
  by (auto simp: record_options_def split: if_splits option.splits dest: record_short_keeps)

lemma with_group_grows:
  assumes "inputs_inside (cvt_groups c) (cvt_child_end c)" and "parent_ok par (Suc index) c"
  shows "grows c 1 (case chs of None \<Rightarrow> 0 | Some cs \<Rightarrow> length cs) (with_group (Argp n opts prs chs) par index c)"
    "chs = Some cs \<Longrightarrow> parent_ok (Some (length (cvt_groups c))) (length cs) (with_group (Argp n opts prs chs) par index c)"
proof -
  let ?m = "case chs of None \<Rightarrow> 0 | Some cs \<Rightarrow> length cs"
  have old: "inputs_inside (cvt_groups c) (cvt_child_end c + ?m)" by (rule inputs_inside_mono [OF assms(1)]) simp
  have "inputs_inside (cvt_groups c @ [own_group (Argp n opts prs chs) par index c]) (cvt_child_end c + ?m)"
    unfolding inputs_inside_def
  proof (intro allI impI)
    fix g assume "g < length (cvt_groups c @ [own_group (Argp n opts prs chs) par index c])"
    then consider "g < length (cvt_groups c)" | "g = length (cvt_groups c)" by fastforce
    then show "(\<forall>up. parent ((cvt_groups c @ [own_group (Argp n opts prs chs) par index c]) ! g) = Some up \<longrightarrow> up < g \<and>
        (\<exists>at. g_child_inputs ((cvt_groups c @ [own_group (Argp n opts prs chs) par index c]) ! up) = Some at \<and>
          at + parent_index ((cvt_groups c @ [own_group (Argp n opts prs chs) par index c]) ! g) < cvt_child_end c + ?m)) \<and>
        (g_has_child ((cvt_groups c @ [own_group (Argp n opts prs chs) par index c]) ! g) \<longrightarrow>
          (\<exists>at < cvt_child_end c + ?m. g_child_inputs ((cvt_groups c @ [own_group (Argp n opts prs chs) par index c]) ! g) = Some at))"
    proof cases
      case 1
      with old show ?thesis unfolding inputs_inside_def by (fastforce simp: nth_append)
    next
      case 2
      with assms(2) show ?thesis
        by (cases chs) (fastforce simp: nth_append own_group_def parent_ok_def)+
    qed
  qed
  then show "grows c 1 ?m (with_group (Argp n opts prs chs) par index c)"
    by (auto simp: grows_def with_group_def)
  show "parent_ok (Some (length (cvt_groups c))) (length cs) (with_group (Argp n opts prs chs) par index c)" if "chs = Some cs"
    using that by (simp add: parent_ok_def with_group_def own_group_def)
qed

lemma convert_grows:
  fixes f :: "argp_option list \<Rightarrow> nat"
  shows "convert_options a par i c = Done c' \<Longrightarrow> inputs_inside (cvt_groups c) (cvt_child_end c) \<Longrightarrow>
      parent_ok par (Suc i) c \<Longrightarrow> grows c (num_groups (tree_sizes f a)) (num_child_inputs (tree_sizes f a)) c'"
    "convert_children as par i c = Done c' \<Longrightarrow> inputs_inside (cvt_groups c) (cvt_child_end c) \<Longrightarrow>
      parent_ok par (i + length as) c \<Longrightarrow>
      \<exists>m. m + length as = num_child_inputs (trees_sizes f as) \<and> grows c (num_groups (trees_sizes f as)) m c'"
proof (induction a par i c and as par i c arbitrary: c' and c' rule: convert_options_convert_children.induct)
  case (1 n opts prs chs par index c)
  show ?case
  proof (cases "opts \<noteq> None \<or> prs \<noteq> None")
    case True
    obtain c1 where c1: "record_options opts c = Done c1"
      and rest: "(case chs of None \<Rightarrow> Done (with_group (Argp n opts prs chs) par index c1)
       | Some cs \<Rightarrow> convert_children cs (Some (length (cvt_groups c1))) 0 (with_group (Argp n opts prs chs) par index c1))
         = Done c'"
      using "1.prems"(1) unfolding convert_own [OF True] by (rule and_thenE)
    define c2 where "c2 = with_group (Argp n opts prs chs) par index c1"
    have same: "cvt_groups c1 = cvt_groups c" "cvt_child_end c1 = cvt_child_end c"
      using record_options_keeps [OF c1] by simp_all
    then have ok: "inputs_inside (cvt_groups c1) (cvt_child_end c1)" "parent_ok par (Suc index) c1"
      using "1.prems"(2,3) by (simp_all add: parent_ok_def)
    have g2: "grows c 1 (case chs of None \<Rightarrow> 0 | Some cs \<Rightarrow> length cs) c2"
      using with_group_grows(1) [OF ok, of chs n opts prs] by (simp add: grows_def same c2_def)
    show ?thesis
    proof (cases chs)
      case None
      with rest g2 True show ?thesis by (simp add: c2_def)
    next
      case (Some cs)
      have run: "convert_children cs (Some (length (cvt_groups c1))) 0 c2 = Done c'"
        using rest Some by (simp add: c2_def)
      have "parent_ok (Some (length (cvt_groups c1))) (0 + length cs) c2"
        using with_group_grows(2) [OF ok Some, of n opts prs] Some by (simp add: c2_def)
      moreover have "inputs_inside (cvt_groups c2) (cvt_child_end c2)" using g2 by (simp add: grows_def)
      ultimately obtain m where m: "m + length cs = num_child_inputs (trees_sizes f cs)"
        "grows c2 (num_groups (trees_sizes f cs)) m c'"
        using "1.IH"(1) [OF True own_group_eq with_group_eq Some, of c1 c'] run by (auto simp: c2_def)
      have "grows c (1 + num_groups (trees_sizes f cs)) (length cs + m) c'"
        using grows_trans [OF g2 m(2)] Some by simp
      then show ?thesis using True Some m(1) by (simp add: add.commute)
    qed
  next
    case False
    show ?thesis
    proof (cases chs)
      case None
      with False "1.prems" show ?thesis by (simp add: grows_def)
    next
      case (Some cs)
      then have "convert_children cs None 0 c = Done c'" using "1.prems"(1) False by simp
      then obtain m where m: "m + length cs = num_child_inputs (trees_sizes f cs)"
        "grows c (num_groups (trees_sizes f cs)) m c'"
        using "1.IH"(2) [OF False Some, of c'] "1.prems"(2) by (auto simp: parent_ok_def)
      then show ?thesis using False Some by (auto intro: grows_le)
    qed
  qed
next
  case (2 par index c)
  then show ?case by (simp add: grows_def)
next
  case (3 a as par index c)
  from "3.prems"(1) obtain c1 where c1: "convert_options a par index c = Done c1"
      "convert_children as par (Suc index) c1 = Done c'"
    unfolding convert_children.simps by (rule and_thenE)
  have "parent_ok par (Suc index) c" using "3.prems"(3) by (fastforce simp: parent_ok_def)
  from "3.IH"(1) [OF c1(1) "3.prems"(2) this]
  have g1: "grows c (num_groups (tree_sizes f a)) (num_child_inputs (tree_sizes f a)) c1" .
  have "parent_ok par (Suc index + length as) c1" using parent_ok_grows [OF "3.prems"(3) g1] by simp
  with "3.IH"(2) [OF c1(2)] g1 obtain m where m: "m + length as = num_child_inputs (trees_sizes f as)"
    "grows c1 (num_groups (trees_sizes f as)) m c'" by (auto simp: grows_def)
  show ?case
    using grows_trans [OF g1 m(2)] m(1) by (intro exI [of _ "num_child_inputs (tree_sizes f a) + m"]) simp
qed

end
