(* ===== verification/Argp_Props.thy ===== *)
theory Argp_Props
  imports Argp_Order Argp_Fit
begin

text \<open>
  The properties of the argument parser: it ends and only permutes the vector, it reads the
  line as the reference does, long names are found or refused as documented, and the tables
  it fills fit exactly when short options come first in each.
\<close>

section \<open>The default parsing functions are polite\<close>

definition polite_hook :: "('w argp_state \<Rightarrow> 'w argp_state outcome) \<Rightarrow> bool" where
  "polite_hook f \<longleftrightarrow> (\<forall>s s'. f s = Done s' \<longrightarrow>
     argv s' = argv s \<and> argc s' = argc s \<and> nexti s' = nexti s \<and> quoted s' = quoted s \<and> st_flags s' = st_flags s)"

lemma state_help_keeps:
  "argp_state_help st to stream fl s = Done s' \<Longrightarrow>
   argv s' = argv s \<and> argc s' = argc s \<and> nexti s' = nexti s \<and> quoted s' = quoted s \<and> st_flags s' = st_flags s"
  by (auto simp: argp_state_help_def Let_def split: if_splits)

lemma default_polite: "polite (argp_default_parser status)"
  unfolding polite_def
proof (intro allI impI)
  fix key arg and s s' :: "'a argp_state" and err
  assume r: "argp_default_parser status key arg s = Done (err, s')" and w: "\<not> writes_argv0 (st_flags s)"
  note w' = w [unfolded writes_argv0_def]
  consider "key = 63" | "key = OPT_USAGE" | "key = OPT_PROGNAME" | "key \<noteq> 63" "key \<noteq> OPT_USAGE" "key \<noteq> OPT_PROGNAME"
    by blast
  then show "argv s' = argv s \<and> argc s' = argc s \<and> nexti s' = nexti s \<and> quoted s' = quoted s \<and> st_flags s' = st_flags s"
  proof cases
    case 3
    then have "key \<noteq> 63" "key \<noteq> OPT_USAGE" by (simp_all add: OPT_PROGNAME_def OPT_USAGE_def)
    with r 3 show ?thesis
      using w' by (cases arg) (auto simp: argp_default_parser_def Let_def)
  next
    case 4
    with r show ?thesis by (auto simp: argp_default_parser_def split: if_splits)
  qed (use r in \<open>auto simp: argp_default_parser_def OPT_USAGE_def and_then_Done dest!: state_help_keeps\<close>)
qed

lemma writes_argv0_parse: "writes_argv0 flags \<Longrightarrow> has_flag flags ARGP_PARSE_ARGV0"
proof -
  assume "writes_argv0 flags"
  then have "(flags AND 3) AND 1 = 1 AND (1 :: u32)"
    by (simp add: writes_argv0_def ARGP_PARSE_ARGV0_def ARGP_NO_ERRS_def)
  then show ?thesis by (simp add: has_flag_def ARGP_PARSE_ARGV0_def and.assoc)
qed

lemma version_polite:
  assumes "\<forall>f. version_hook = Some f \<longrightarrow> polite_hook f"
  shows "polite (argp_version_parser version_hook version status)"
  unfolding polite_def
proof (intro allI impI)
  fix key arg and s s' :: "'a argp_state" and err
  let ?keeps = "\<lambda>s'. argv s' = argv s \<and> argc s' = argc s \<and> nexti s' = nexti s \<and> quoted s' = quoted s \<and> st_flags s' = st_flags s"
  assume r: "argp_version_parser version_hook version status key arg s = Done (err, s')"
  show "?keeps s'"
  proof (cases "key = 86")
    case True
    from r obtain s1 where shown: "(case version_hook of
             Some f \<Rightarrow> f s
           | None \<Rightarrow>
              (case version of
                 Some v \<Rightarrow> (if out_stream s then Done (s\<lparr>messages := messages s @ [To_Out (v @ [CHR 0x0A])]\<rparr>) else Faults)
               | None \<Rightarrow>
                   if \<not> has_flag (st_flags s) ARGP_NO_ERRS \<and> err_stream s then
                     argp_state_help status Help_Err (err_stream s) ARGP_HELP_STD_ERR
                       (s\<lparr>messages := messages s @ [To_Err (progname s @ '': (PROGRAM ERROR) No version known!?'' @ [CHR 0x0A])]\<rparr>)
                   else Done s)) = Done s1"
      and "s' = s1"
      unfolding argp_version_parser_def if_P [OF True] by (auto elim!: and_thenE split: if_splits)
    moreover have "?keeps s1"
    proof (cases version_hook)
      case None
      with shown show ?thesis
        by (cases version) (auto split: if_splits dest!: state_help_keeps)
    next
      case (Some f)
      with shown assms show ?thesis by (simp add: polite_hook_def)
    qed
    ultimately show ?thesis by simp
  next
    case False
    with r show ?thesis by (simp add: argp_version_parser_def)
  qed
qed

definition full_argp ::
  "('w argp_state \<Rightarrow> 'w argp_state outcome) option \<Rightarrow> string option \<Rightarrow> int \<Rightarrow> u32 \<Rightarrow> 'w argp_fun argp option \<Rightarrow> 'w argp_fun argp option" where
  "full_argp version_hook version status flags argp =
     (if \<not> has_flag flags ARGP_NO_HELP then Some (top_argp version_hook version status argp) else argp)"

lemma polite_trees_all: "polite_trees as \<longleftrightarrow> (\<forall>a \<in> set as. polite_tree a)"
  by (induction as) simp_all

lemma full_polite:
  assumes "\<forall>a. argp = Some a \<longrightarrow> polite_tree a" and "\<forall>f. version_hook = Some f \<longrightarrow> polite_hook f"
  shows "\<forall>a. full_argp version_hook version status flags argp = Some a \<longrightarrow> polite_tree a"
  using assms default_polite version_polite [OF assms(2)]
  by (auto simp: full_argp_def top_argp_def polite_trees_all default_argp_def version_argp_def split: option.splits)

lemma argp_parse_full:
  "argp_parse env version_hook version argp args flags end_index input w =
     (case parser_init env (full_argp version_hook version (env_exit_status env) flags argp) args flags input w of
        Done (err, Some p) \<Rightarrow>
          map_option
            (\<lambda>r. and_then r (\<lambda>(err, eb, p).
               and_then (parser_finalize (env_exit_status env) p err eb end_index) (\<lambda>(err, stop, p).
                 Done (err, stop, Some p))))
            (parse_loop False p)
      | Done (err, None) \<Rightarrow> Some (Done (err, None, None))
      | Exits n \<Rightarrow> Some (Exits n)
      | Asserts \<Rightarrow> Some Asserts
      | Faults \<Rightarrow> Some Faults)"
  by (simp add: argp_parse_def full_argp_def Let_def)

section \<open>A program\<close>

text \<open>
  Two options, the second with an argument and an alias, and a parsing function that logs
  what it accepts.
\<close>

definition copy_options :: "argp_option list" where
  "copy_options =
     [\<lparr>opt_name = Some ''verbose'', opt_key = 118, opt_arg = None, opt_flags = 0, opt_doc = None, opt_group = 0\<rparr>,
      \<lparr>opt_name = Some ''output'', opt_key = 111, opt_arg = Some ''FILE'', opt_flags = 0, opt_doc = None, opt_group = 0\<rparr>,
      \<lparr>opt_name = Some ''outfile'', opt_key = 111, opt_arg = Some ''FILE'', opt_flags = OPTION_ALIAS, opt_doc = None, opt_group = 0\<rparr>]"

definition copy_parser :: "(int \<times> string option) list argp_fun" where
  "copy_parser key arg s =
     (if key \<in> {118, 111, ARGP_KEY_ARG} then Done (0, s\<lparr>world := world s @ [(key, arg)]\<rparr>) else Done (EBADKEY, s))"

definition copy_argp :: "(int \<times> string option) list argp_fun argp" where
  "copy_argp = Argp 5 (Some (5, copy_options)) (Some copy_parser) None"

definition copy_effect :: "(int \<times> string option) list effect" where
  "copy_effect g key arg = (if g = 0 \<and> key \<in> {118, 111, ARGP_KEY_ARG} then Some (\<lambda>w. w @ [(key, arg)]) else None)"

definition copy_env :: argp_env where
  "copy_env = \<lparr>env_posix = False, env_memory = True, env_name = ''copy'', env_exit_status = 64\<rparr>"

definition copy_groups :: "(int \<times> string option) list group list" where
  "copy_groups =
     [\<lparr>g_parser = Some copy_parser, g_argp = 5, g_options = Some (5, copy_options), g_has_child = False,
        args_processed = 0, parent = None, parent_index = 0, g_input = 0, g_child_inputs = None, g_hook = 0\<rparr>,
      \<lparr>g_parser = Some (argp_default_parser 64), g_argp = 1, g_options = Some (1, argp_default_options), g_has_child = False,
        args_processed = 0, parent = None, parent_index = 1, g_input = 0, g_child_inputs = None, g_hook = 0\<rparr>]"

definition copy_start :: "string list \<Rightarrow> (int \<times> string option) list parser" where
  "copy_start args = \<lparr>posixly_correct = False, args_only = False, print_errors = True, ord = PERMUTE,
     first_nonopt = 0, last_nonopt = 0, short_opts = None, nextchar = None, groups = copy_groups,
     pstate = \<lparr>argc = int (length args), argv = args, nexti = 1, st_flags = 0, arg_num = 0,
       quoted = 0, inp = 0, child_inputs = None, hook = 0, progname = argp_basename (hd args), err_stream = True,
       out_stream = True, child_store = [0, 0], messages = [], world = []\<rparr>\<rparr>"

lemma copy_polite: "polite_tree copy_argp"
  by (auto simp: copy_argp_def polite_def copy_parser_def split: if_splits)

lemma no_flags [simp]: "\<not> writes_argv0 0" "\<not> has_flag 0 f"
  by (simp_all add: writes_argv0_def ARGP_PARSE_ARGV0_def has_flag_def)

lemma copy_init:
  "args \<noteq> [] \<Longrightarrow> parser_init copy_env (full_argp None None 64 0 (Some copy_argp)) args 0 0 []
     = Done (0, Some (copy_start args))"
  by (cases args)
    (simp_all add: parser_init_def copy_env_def full_argp_def top_argp_def copy_argp_def default_argp_def Let_def
      parser_convert_def record_options_def init_parser_def init_sizes_def upt_rec goes_on_def inherit_input_def
      pass_input_def group_parse_def copy_parser_def argp_default_parser_def ARGP_KEY_INIT_def ARGP_KEY_ARG_def
      OPT_USAGE_def OPT_PROGNAME_def OPT_HANG_def EBADKEY_def init_name_def copy_start_def copy_groups_def
      choose_ordering_def set_input_def)

section \<open>The parse ends\<close>



section \<open>Options first\<close>

lemma point_at_start:
  assumes "starts env (a0 # ws) flags p" and "run_inv p" and "accepts u p"
    and "choose_ordering flags (env_posix env) = PERMUTE" and "\<not> has_flag flags ARGP_PARSE_ARGV0"
  shows "at_point u p [a0] [] [] ws p"
  using assms by (simp add: starts_def at_point_def idle_def same_tables_def run_inv_def place_inv_def)

text \<open>
  C2: a line that can be read as \<^verbatim>\<open>argp.h\<close> documents it is parsed that way.  The reading,
  \<open>doc_line\<close>, goes from left to right: \<^verbatim>\<open>--\<close> ends the options; what does not begin with a
  dash, and a lone dash, is an argument; after two dashes stands a long name, in full or as the start of
  the names of one option and its aliases, with the value after the first \<^verbatim>\<open>=\<close>; after one dash
  letters, which are the printable keys; an argument that is required and not there is the next
  element; entries with \<open>OPTION_DOC\<close> are no options, and an alias takes an argument as the option it stands for.
  Then the options' parsing functions are called in the order of the line, each with its argument,
  then the first group's with every other argument, and the vector ends with the options, and
  their arguments, before all the others.
  The conditions: the order is \<open>PERMUTE\<close> (no \<open>ARGP_IN_ORDER\<close>, \<open>ARGP_NO_ARGS\<close> or \<^verbatim>\<open>POSIXLY_CORRECT\<close>),
  neither \<open>ARGP_PARSE_ARGV0\<close> nor \<open>ARGP_LONG_ONLY\<close> is given, and the first calls of the parsing
  functions succeeded; every group has a table of options without \<open>OPTION_DOC\<close> entries in which no
  alias comes first and aliases repeat what their option says of the argument (on others the parser
  does something else, see \<open>alias_refuses_argument\<close> and \<open>doc_entries_found\<close>); the parsing functions accept the calls and do not
  move the position, as the version hook does not.
\<close>

theorem argp_reads_line:
  fixes w :: 'w and u :: "'w effect"
  assumes init: "parser_init env (full_argp version_hook version (env_exit_status env) flags argp) (a0 # ws) flags input w
      = Done (0, Some p)"
    and tree: "\<forall>a. argp = Some a \<longrightarrow> polite_tree a" "\<forall>f. version_hook = Some f \<longrightarrow> polite_hook f"
    and fl: "choose_ordering flags (env_posix env) = PERMUTE" "\<not> has_flag flags ARGP_PARSE_ARGV0"
    and lo: "\<not> has_flag flags ARGP_LONG_ONLY" and plain: "plain_tables (map g_options (groups p))"
    and acc: "accepts u p" and doc: "doc_line (all_options 0 (map g_options (groups p))) ws = Some (cs, os, ns)"
    and kn: "known u (cs @ argument_calls ns)"
  shows "\<exists>p'. argp_parse env version_hook version argp (a0 # ws) flags end_index input w =
        Some (and_then (parser_finalize (env_exit_status env) p' EBADKEY True end_index)
          (\<lambda>(err, stop, p). Done (err, stop, Some p)))
      \<and> argv (pstate p') = a0 # os @ ns \<and> nexti (pstate p') = argc (pstate p')
      \<and> world (pstate p') = do_calls u (cs @ argument_calls ns) (world (pstate p))"
proof -
  have "\<not> writes_argv0 flags" using fl(2) writes_argv0_parse by blast
  from parser_init_run_inv [OF init full_polite [OF tree] this]
  have start: "run_inv p" "starts env (a0 # ws) flags p" by simp_all
  have "st_flags (pstate p) = flags" using start(2) by (simp add: starts_def)
  then have line: "read_line p ws = Some (cs, os, ns)" using doc_line_read [OF plain _ doc] lo by simp
  have "at_point u p [a0] [] [] ws p" by (rule point_at_start [OF start(2,1) acc fl])
  moreover have "nextchar p = None" using start(2) by (simp add: starts_def)
  ultimately have "reads_to u ([a0] @ [] @ os @ [] @ ns) (cs @ argument_calls ([] @ ns)) False p"
    using kn by (intro line_read [OF line]) simp_all
  then show ?thesis by (auto simp: argp_parse_full init reads_to_def)
qed

lemma copy_accepts: "accepts copy_effect (copy_start args)"
proof -
  have "accepting copy_effect g (copy_groups ! g)" if "g < 2" for g
    using that copy_polite default_polite [of 64]
    by (cases g) (auto simp: accepting_def copy_groups_def copy_effect_def polite_group_def copy_parser_def copy_argp_def
        ARGP_KEY_ARG_def)
  then show ?thesis by (simp add: accepts_def copy_start_def) (simp add: copy_groups_def)
qed

theorem argp_reads_line_witness:
  "\<exists>p'. argp_parse copy_env None None (Some copy_argp) [''copy'', ''a'', ''-vo'', ''f'', ''-'', ''--out=g''] 0 True 0 [] =
      Some (and_then (parser_finalize 64 p' EBADKEY True True) (\<lambda>(err, stop, p). Done (err, stop, Some p)))
    \<and> argv (pstate p') = [''copy'', ''-vo'', ''f'', ''--out=g'', ''a'', ''-'']
    \<and> world (pstate p') = [(118, None), (111, Some ''f''), (111, Some ''g''), (0, Some ''a''), (0, Some ''-'')]"
proof -
  let ?ws = "[''a'', ''-vo'', ''f'', ''-'', ''--out=g'']"
  let ?p = "copy_start (''copy'' # ?ws)"
  let ?cs = "[(0, 118, None), (0, 111, Some ''f''), (0, 111, Some ''g'')] :: parser_call list"
  have init: "parser_init copy_env (full_argp None None (env_exit_status copy_env) 0 (Some copy_argp)) (''copy'' # ?ws) 0 0 []
      = Done (0, Some ?p)"
    using copy_init [of "''copy'' # ?ws"] by (simp add: copy_env_def)
  have plain: "plain_tables (map g_options (groups ?p))" by code_simp
  have line: "doc_line (all_options 0 (map g_options (groups ?p))) ?ws = Some (?cs, [''-vo'', ''f'', ''--out=g''], [''a'', ''-''])" by code_simp
  have "known copy_effect (?cs @ argument_calls [''a'', ''-''])"
    by (simp add: copy_effect_def argument_calls_def ARGP_KEY_ARG_def)
  moreover have "choose_ordering 0 (env_posix copy_env) = PERMUTE" by (simp add: choose_ordering_def copy_env_def)
  ultimately have "\<exists>p'. argp_parse copy_env None None (Some copy_argp) (''copy'' # ?ws) 0 True 0 [] =
        Some (and_then (parser_finalize (env_exit_status copy_env) p' EBADKEY True True)
          (\<lambda>(err, stop, p). Done (err, stop, Some p)))
      \<and> argv (pstate p') = ''copy'' # [''-vo'', ''f'', ''--out=g''] @ [''a'', ''-''] \<and> nexti (pstate p') = argc (pstate p')
      \<and> world (pstate p') = do_calls copy_effect (?cs @ argument_calls [''a'', ''-'']) (world (pstate ?p))"
    by (intro argp_reads_line [OF init _ _ _ _ _ plain copy_accepts line]) (simp_all add: copy_polite)
  then show ?thesis
    by (auto simp: copy_env_def copy_effect_def argument_calls_def ARGP_KEY_ARG_def copy_start_def)
qed

section \<open>Long names\<close>



section \<open>The tables\<close>

text \<open>
  C29: The second pass over the tree, when it succeeds, makes exactly as many groups as the first
  counted, and the inputs of the children of every group lie within the block of child inputs that was
  counted (an upper bound: the children of a parser that makes no group are counted, and their slots
  stay unused).  With \<open>ARGP_LONG_ONLY\<close>, when an array of short options is counted and filled, and in a tree
  in which every parser with a parsing function has a table of options: the short options are written
  past the end of their array exactly unless in each table they all stand at its head.
\<close>

theorem parser_tables_fit:
  "(full_tables a \<and> has_flag flags ARGP_LONG_ONLY \<longrightarrow>
      (parser_convert (Some a) (Some []) (short_len (init_sizes flags (Some a)) + 1) = Faults \<longleftrightarrow>
        \<not> (\<forall>opts \<in> set (tree_tables a). shorts_first opts))) \<and>
    (\<forall>short room grs s. parser_convert (Some a) short room = Done (grs, s) \<longrightarrow>
      length grs = num_groups (init_sizes flags (Some a)) \<and> inputs_inside grs (num_child_inputs (init_sizes flags (Some a))))"
proof (intro conjI allI impI)
  let ?n = "short_len (tree_sizes leading_short a)"
  assume "full_tables a \<and> has_flag flags ARGP_LONG_ONLY"
  then have full: "full_tables a" and szs: "init_sizes flags (Some a) = tree_sizes leading_short a"
    by (simp_all add: init_sizes_def calc_sizes_tree plus_sizes_def)
  define c0 where "c0 = \<lparr>cvt_groups = [] :: 'a group list, cvt_child_end = 0, cvt_short = Some [], cvt_short_room = ?n + 1\<rparr>"
  have st: "stores (all_shorts a) c0 (convert_options a None 0 c0)"
    by (rule convert_stores(1) [OF _ full]) (simp add: stores_same c0_def short_used_def)
  have "parser_convert (Some a) (Some []) (?n + 1) = Faults \<longleftrightarrow> \<not> all_shorts a \<le> ?n"
    using st by (auto simp: parser_convert_def Let_def c0_def [symmetric] stores_def short_used_def split: if_splits)
      (auto simp: c0_def)
  also have "all_shorts a \<le> ?n \<longleftrightarrow> (\<forall>opts \<in> set (tree_tables a). leading_short opts = length (short_entries opts))"
    unfolding short_len_tables by (rule sum_list_eq_pointwise) (rule leading_le_all)
  finally show "parser_convert (Some a) (Some []) (short_len (init_sizes flags (Some a)) + 1) = Faults \<longleftrightarrow>
      \<not> (\<forall>opts \<in> set (tree_tables a). shorts_first opts)"
    by (simp add: szs shorts_first_iff)
next
  fix short room grs s
  assume r: "parser_convert (Some a) short room = Done (grs, s)"
  define c1 where "c1 = \<lparr>cvt_groups = [] :: 'a group list, cvt_child_end = 0, cvt_short = short, cvt_short_room = room\<rparr>"
  from r obtain c where c: "convert_options a None 0 c1 = Done c" "cvt_groups c = grs"
    by (auto simp: parser_convert_def Let_def c1_def elim!: and_thenE split: option.splits if_splits)
  have "grows c1 (num_groups (tree_sizes leading_short a)) (num_child_inputs (tree_sizes leading_short a)) c"
    by (rule convert_grows(1) [OF c(1)]) (simp_all add: c1_def inputs_inside_def parent_ok_def)
  moreover have "num_groups (init_sizes flags (Some a)) = num_groups (tree_sizes leading_short a)"
    "num_child_inputs (init_sizes flags (Some a)) = num_child_inputs (tree_sizes leading_short a)"
    by (simp_all add: init_sizes_def calc_sizes_tree Let_def)
  ultimately show "length grs = num_groups (init_sizes flags (Some a))"
    "inputs_inside grs (num_child_inputs (init_sizes flags (Some a)))"
    using c(2) by (auto simp: grows_def c1_def intro: inputs_inside_mono)
qed

text \<open>The table of the example, with an entry in front that has no short name.\<close>

definition late_argp :: "(int \<times> string option) list argp_fun argp" where
  "late_argp = Argp 5 (Some (5, \<lparr>opt_name = Some ''quiet'', opt_key = 300, opt_arg = None, opt_flags = 0,
     opt_doc = None, opt_group = 0\<rparr> # copy_options)) (Some copy_parser) None"

theorem parser_tables_fit_witness:
  "parser_convert (Some late_argp) (Some []) (short_len (init_sizes ARGP_LONG_ONLY (Some late_argp)) + 1) = Faults
   \<and> parser_convert (Some copy_argp) (Some []) (short_len (init_sizes ARGP_LONG_ONLY (Some copy_argp)) + 1) \<noteq> Faults"
proof -
  have lo: "has_flag ARGP_LONG_ONLY ARGP_LONG_ONLY" by (simp add: has_flag_def ARGP_LONG_ONLY_def)
  have full: "full_tables late_argp" "full_tables copy_argp" by (simp_all add: late_argp_def copy_argp_def)
  have "\<not> (\<forall>opts \<in> set (tree_tables late_argp). shorts_first opts)" "\<forall>opts \<in> set (tree_tables copy_argp). shorts_first opts"
    by code_simp+
  with parser_tables_fit [of late_argp ARGP_LONG_ONLY] parser_tables_fit [of copy_argp ARGP_LONG_ONLY] full lo
  show ?thesis by blast
qed

section \<open>Where the code and its documentation part\<close>

text \<open>
  The header says that an alias has all but the name and key of the option it stands for;
  the parser takes the argument from the alias's own entry, and refuses one.
\<close>

definition alias_group :: "(int \<times> string option) list group" where
  "alias_group = \<lparr>g_parser = None, g_argp = 0, g_options = Some (0, [copy_options ! 1,
     \<lparr>opt_name = Some ''into'', opt_key = 111, opt_arg = None, opt_flags = OPTION_ALIAS, opt_doc = None, opt_group = 0\<rparr>]),
     g_has_child = False, args_processed = 0, parent = None, parent_index = 0, g_input = 0, g_child_inputs = None,
     g_hook = 0\<rparr>"

lemma alias_refuses_argument:
  "read_long ((copy_start [''copy''])\<lparr>groups := [alias_group]\<rparr>) ''output=f'' = Some ([(0, 111, Some ''f'')], None)
   \<and> read_long ((copy_start [''copy''])\<lparr>groups := [alias_group]\<rparr>) ''into=f'' = None
   \<and> read_long ((copy_start [''copy''])\<lparr>groups := [alias_group]\<rparr>) ''into'' = Some ([(0, 111, None)], None)
   \<and> doc_long (all_options 0 [g_options alias_group]) ''into=f'' = Some ([(0, 111, Some ''f'')], None)"
  by (intro conjI) code_simp+

text \<open>
  Entries with \<open>OPTION_DOC\<close> are documentation, ignored by the parser according to the header; both
  searches find them.
\<close>

definition doc_group :: "(int \<times> string option) list group" where
  "doc_group = \<lparr>g_parser = None, g_argp = 0, g_options = Some (0, [\<lparr>opt_name = Some ''note'', opt_key = 110, opt_arg = None,
     opt_flags = OPTION_DOC, opt_doc = None, opt_group = 0\<rparr>]), g_has_child = False, args_processed = 0,
     parent = None, parent_index = 0, g_input = 0, g_child_inputs = None, g_hook = 0\<rparr>"

lemma doc_entries_found:
  "find_short_option ((copy_start [''copy''])\<lparr>groups := [doc_group]\<rparr>) 110 \<noteq> Done None
   \<and> find_long_option ((copy_start [''copy''])\<lparr>groups := [doc_group]\<rparr>) ''note'' \<noteq> Done (None, False)"
  by (simp add: copy_start_def doc_group_def find_short_option_def find_long_option_def entries_def option_is_end_def)

text \<open>A group with a parsing function and no table is searched through a null pointer.\<close>

lemma null_table_faults:
  "g_options gr = None \<Longrightarrow> groups p = gr # grs \<Longrightarrow> 0 \<le> key \<Longrightarrow> key < 128 \<Longrightarrow>
   find_short_option p key = Faults \<and> find_long_option p arg = Faults"
  by (simp add: find_short_option_def find_long_option_def)

text \<open>
  A short option that is refused leaves the mark of the argument before it, so that in order
  it is taken for an argument that nobody parsed: no error is reported.
\<close>

lemma short_option_keeps_mark:
  "find_short_option (p\<lparr>nextchar := Some []\<rparr>) (schar c) = Done (Some (g, opt)) \<Longrightarrow> opt_arg opt = None \<Longrightarrow>
   \<not> args_only p \<Longrightarrow> group_parse g (opt_key opt) None (p\<lparr>nextchar := None\<rparr>) = Done (EBADKEY, p') \<Longrightarrow>
   parse_short [c] True p = Done (EBADKEY, True, p')"
  by (simp add: parse_short_def short_found_def with_ebadkey_def)

text \<open>A byte of 128 or more in place of a short option fails an assertion.\<close>

lemma high_byte_asserts:
  "128 \<le> (of_char c :: int) \<Longrightarrow> \<not> args_only p \<Longrightarrow> parse_short (c # rest) eb p = Asserts"
proof -
  assume high: "128 \<le> (of_char c :: int)" and ao: "\<not> args_only p"
  have "(of_char c :: int) = int (of_char c)" by (simp only: of_nat_of_char)
  moreover have "(of_char c :: nat) < 256" by (rule nat_of_char_less_256)
  ultimately have "(of_char c :: int) < 256" by linarith
  then have "\<not> schar c \<ge> 0" using high by (simp add: schar_def Let_def)
  then show ?thesis using ao by (simp add: parse_short_def find_short_option_def)
qed

end
