(* ===== verification/Runs.thy ===== *)
theory Runs
  imports Bsd_Prelude
begin

text \<open>
  Runs of the code that works on pointers.  A run does not return, or does what C leaves undefined (a null or freed pointer is
  followed, a buffer is left), or ends with a value.
\<close>

type_synonym 'a run = "'a option option"

abbreviation ret :: "'a \<Rightarrow> 'a run" where "ret x \<equiv> Some (Some x)"
abbreviation crash :: "'a run" where "crash \<equiv> Some None"

definition andthen :: "'a run \<Rightarrow> ('a \<Rightarrow> 'b run) \<Rightarrow> 'b run" where
  "andthen r f = Option.bind r (\<lambda>x. case x of None \<Rightarrow> crash | Some y \<Rightarrow> f y)"

lemma andthen_simps [simp]:
  "andthen (ret x) f = f x" "andthen crash f = crash" "andthen None f = None"
  by (simp_all add: andthen_def)

lemma andthen_assoc: "andthen (andthen r f) g = andthen r (\<lambda>x. andthen (f x) g)"
  by (cases r rule: option.exhaust; cases "the r") (simp_all add: andthen_def)

lemma andthen_mono [partial_function_mono]:
  assumes "mono_option r" and "\<And>y. mono_option (\<lambda>f. g y f)"
  shows "mono_option (\<lambda>f. andthen (r f) (\<lambda>y. g y f))"
  unfolding andthen_def
proof (rule bind_mono [OF assms(1)])
  show "mono_option (\<lambda>f. case y of None \<Rightarrow> crash | Some y \<Rightarrow> g y f)" for y
    using assms(2) by (cases y) (simp_all add: option.const_mono)
qed

lemma andthen_ret: "andthen r f = ret y \<longleftrightarrow> (\<exists>x. r = ret x \<and> f x = ret y)"
  by (cases r; cases "the r") auto

lemma andthenE: "andthen r f = ret y \<Longrightarrow> (\<And>x. r = ret x \<Longrightarrow> f x = ret y \<Longrightarrow> thesis) \<Longrightarrow> thesis"
  by (auto simp: andthen_ret)

end
