(* ===== verification/Fts_Data.thy ===== *)
theory Fts_Data
  imports C_Lib Runs
begin

text \<open>
  The data of \<^verbatim>\<open>src/fts.c\<close> and \<^verbatim>\<open>include/fts.h\<close>: entries in a heap, the path buffer, the table
  against cycles, and the calls to the system, which are parameters as in
  \<^verbatim>\<open>include/musl-bsd/fts_ops.h\<close>.
\<close>

section \<open>The system\<close>

definition ERANGE :: errno where "ERANGE = Other_Errno 34"
definition EFAULT :: errno where "EFAULT = Other_Errno 14"

text \<open>What the code reads of a \<open>struct stat\<close> and of a \<open>struct dirent\<close>.\<close>

record fstat =
  st_dev :: u64
  st_ino :: u64
  st_nlink :: u64
  st_mode :: u32

record dirent =
  d_name :: string
  d_type :: nat

definition no_stat :: fstat where
  "no_stat = \<lparr>st_dev = 0, st_ino = 0, st_nlink = 0, st_mode = 0\<rparr>"

definition S_IFMT :: u32 where "S_IFMT = 0xF000"
definition S_ISDIR :: "u32 \<Rightarrow> bool" where "S_ISDIR m \<longleftrightarrow> m AND S_IFMT = 0x4000"
definition S_ISREG :: "u32 \<Rightarrow> bool" where "S_ISREG m \<longleftrightarrow> m AND S_IFMT = 0x8000"
definition S_ISLNK :: "u32 \<Rightarrow> bool" where "S_ISLNK m \<longleftrightarrow> m AND S_IFMT = 0xA000"

definition DT_UNKNOWN :: nat where "DT_UNKNOWN = 0"
definition DT_DIR :: nat where "DT_DIR = 4"
definition DT_WHT :: nat where "DT_WHT = 14"

datatype open_flag = O_DIRECTORY | O_CLOEXEC | O_NOFOLLOW

text \<open>
  A call gives a value or an error and the system after it.  The operations of \<open>fts_ops\<close>, and
  \<open>malloc\<close> (and \<open>calloc\<close>), \<open>realloc\<close>, which tells whether the block moved, and \<open>qsort\<close> on
  pointers with a comparison of them.  A directory stream is named by its descriptor, which
  \<open>dirfd\<close> gives back.
\<close>

type_synonym ('e, 'a) syscall = "'e \<Rightarrow> ('a + errno) \<times> 'e"

record 'e sys =
  open_fn :: "string \<Rightarrow> open_flag list \<Rightarrow> ('e, int) syscall"
  close_fn :: "int \<Rightarrow> ('e, unit) syscall"
  fstat_fn :: "int \<Rightarrow> ('e, fstat) syscall"
  fstatat_fn :: "int option \<Rightarrow> string \<Rightarrow> bool \<Rightarrow> ('e, fstat) syscall"
  fchdir_fn :: "int \<Rightarrow> ('e, unit) syscall"
  fdopendir_fn :: "int \<Rightarrow> ('e, unit) syscall"
  readdir_fn :: "int \<Rightarrow> ('e, dirent option) syscall"
  closedir_fn :: "int \<Rightarrow> ('e, unit) syscall"
  malloc_fn :: "u64 \<Rightarrow> ('e, unit) syscall"
  realloc_fn :: "u64 \<Rightarrow> ('e, bool) syscall"
  qsort_fn :: "(nat \<Rightarrow> nat \<Rightarrow> int) \<Rightarrow> nat list \<Rightarrow> nat list"

section \<open>Options and kinds\<close>

definition FTS_COMFOLLOW :: u32 where "FTS_COMFOLLOW = 0x0001"
definition FTS_LOGICAL :: u32 where "FTS_LOGICAL = 0x0002"
definition FTS_NOCHDIR :: u32 where "FTS_NOCHDIR = 0x0004"
definition FTS_NOSTAT :: u32 where "FTS_NOSTAT = 0x0008"
definition FTS_PHYSICAL :: u32 where "FTS_PHYSICAL = 0x0010"
definition FTS_SEEDOT :: u32 where "FTS_SEEDOT = 0x0020"
definition FTS_XDEV :: u32 where "FTS_XDEV = 0x0040"
definition FTS_WHITEOUT :: u32 where "FTS_WHITEOUT = 0x0080"
definition FTS_OPTIONMASK :: u32 where "FTS_OPTIONMASK = 0x00ff"
definition FTS_NAMEONLY :: u32 where "FTS_NAMEONLY = 0x0100"
definition FTS_STOP :: u32 where "FTS_STOP = 0x0200"

definition FTS_ROOTPARENTLEVEL :: int where "FTS_ROOTPARENTLEVEL = -1"
definition FTS_ROOTLEVEL :: int where "FTS_ROOTLEVEL = 0"
definition SHRT_MAX :: int where "SHRT_MAX = 32767"

text \<open>The values of \<open>fts_info\<close>, from 1, and 0 for an entry that has none yet.\<close>

datatype fts_kind = FTS_NONE | FTS_D | FTS_DC | FTS_DEFAULT | FTS_DNR | FTS_DOT | FTS_DP | FTS_ERR | FTS_F
  | FTS_INIT | FTS_NS | FTS_NSOK | FTS_SL | FTS_SLNONE | FTS_W

definition FTS_DONTCHDIR :: u32 where "FTS_DONTCHDIR = 0x01"
definition FTS_SYMFOLLOW :: u32 where "FTS_SYMFOLLOW = 0x02"
definition FTS_ISW :: u32 where "FTS_ISW = 0x04"

definition FTS_AGAIN :: int where "FTS_AGAIN = 1"
definition FTS_FOLLOW :: int where "FTS_FOLLOW = 2"
definition FTS_NOINSTR :: int where "FTS_NOINSTR = 3"
definition FTS_SKIP :: int where "FTS_SKIP = 4"

text \<open>What \<open>fts_build\<close> is called for.\<close>

datatype build_type = BCHILD | BNAMES | BREAD

section \<open>Entries\<close>

text \<open>
  A \<open>char *\<close> of an entry is null, or points to the name in an entry, or into a path buffer.
  The client's own two fields, \<open>fts_number\<close> and \<open>fts_pointer\<close>, are not touched by the code.
\<close>

datatype charp = No_path | Name_of nat | Path_at nat nat

record ftsent =
  fts_cycle :: nat
  fts_parent :: nat
  fts_link :: nat
  fts_accpath :: charp
  fts_path :: nat
  fts_errno :: "errno option"
  fts_symfd :: int
  fts_pathlen :: u32
  fts_namelen :: u32
  fts_ino :: u64
  fts_dev :: u64
  fts_nlink :: u64
  fts_level :: int
  fts_info :: fts_kind
  fts_flags :: u32
  fts_instr :: int
  fts_statp :: "fstat option"
  fts_name :: string

record path_buf =
  buf_size :: nat
  buf_chars :: "nat \<Rightarrow> char"

record cycle_state =
  buckets :: "(u64 \<times> u64 \<times> nat) list list option"
  nbuckets :: u64

text \<open>
  The stream, the memory it lives in and the system.  Address 0 is null; an address is of a
  living entry or buffer, or was freed, or is not yet used.
\<close>

record 'e fts =
  sp_cur :: nat
  sp_child :: nat
  sp_array :: "nat list"
  sp_dev :: u64
  sp_path :: nat
  sp_rfd :: int
  sp_pathlen :: u32
  sp_nitems :: u32
  sp_compar :: "(ftsent \<Rightarrow> ftsent \<Rightarrow> int) option"
  sp_options :: u32
  sp_cycles :: cycle_state
  ents :: "nat \<Rightarrow> ftsent option"
  ents_end :: nat
  bufs :: "nat \<Rightarrow> path_buf option"
  bufs_end :: nat
  errno_v :: "errno option"
  env :: 'e

definition isset :: "u32 \<Rightarrow> 'e fts \<Rightarrow> bool" where "isset opt s \<longleftrightarrow> sp_options s AND opt \<noteq> 0"
definition set_opt :: "u32 \<Rightarrow> 'e fts \<Rightarrow> 'e fts" where "set_opt opt s = s\<lparr>sp_options := sp_options s OR opt\<rparr>"
definition clear_opt :: "u32 \<Rightarrow> 'e fts \<Rightarrow> 'e fts" where "clear_opt opt s = s\<lparr>sp_options := sp_options s AND NOT opt\<rparr>"

definition ent_flag :: "u32 \<Rightarrow> ftsent \<Rightarrow> bool" where "ent_flag f e \<longleftrightarrow> fts_flags e AND f \<noteq> 0"

section \<open>Memory\<close>

definition ent :: "'e fts \<Rightarrow> nat \<Rightarrow> ftsent run" where
  "ent s p = (case ents s p of None \<Rightarrow> crash | Some e \<Rightarrow> ret e)"

definition change :: "nat \<Rightarrow> (ftsent \<Rightarrow> ftsent) \<Rightarrow> 'e fts \<Rightarrow> 'e fts run" where
  "change p f s = andthen (ent s p) (\<lambda>e. ret (s\<lparr>ents := (ents s)(p \<mapsto> f e)\<rparr>))"

text \<open>\<open>free\<close> of an entry: of null nothing, of a freed one undefined.\<close>

definition free_ent :: "nat \<Rightarrow> 'e fts \<Rightarrow> 'e fts run" where
  "free_ent p s = (if p = 0 then ret s else andthen (ent s p) (\<lambda>_. ret (s\<lparr>ents := (ents s)(p := None)\<rparr>)))"

fun put_chars :: "nat \<Rightarrow> char list \<Rightarrow> (nat \<Rightarrow> char) \<Rightarrow> nat \<Rightarrow> char" where
  "put_chars i [] f = f"
| "put_chars i (c # cs) f = put_chars (Suc i) cs (f(i := c))"

text \<open>Reading and writing the buffers; a C string must end inside its buffer.\<close>

definition buf :: "'e fts \<Rightarrow> nat \<Rightarrow> path_buf run" where
  "buf s b = (case bufs s b of None \<Rightarrow> crash | Some pb \<Rightarrow> ret pb)"

definition write_path :: "nat \<Rightarrow> nat \<Rightarrow> char list \<Rightarrow> 'e fts \<Rightarrow> 'e fts run" where
  "write_path b i cs s = andthen (buf s b) (\<lambda>pb.
     if i + length cs \<le> buf_size pb
     then ret (s\<lparr>bufs := (bufs s)(b \<mapsto> pb\<lparr>buf_chars := put_chars i cs (buf_chars pb)\<rparr>)\<rparr>) else crash)"

definition read_path :: "'e fts \<Rightarrow> nat \<Rightarrow> nat \<Rightarrow> char run" where
  "read_path s b i = andthen (buf s b) (\<lambda>pb. if i < buf_size pb then ret (buf_chars pb i) else crash)"

function str_from :: "(nat \<Rightarrow> char) \<Rightarrow> nat \<Rightarrow> nat \<Rightarrow> string run" where
  "str_from f i n =
     (if i < n then if f i = NUL then ret [] else andthen (str_from f (Suc i) n) (\<lambda>cs. ret (f i # cs)) else crash)"
  by pat_completeness auto
termination by (relation "measure (\<lambda>(f, i, n). n - i)") auto

declare str_from.simps [simp del]

definition path_string :: "'e fts \<Rightarrow> charp \<Rightarrow> string run" where
  "path_string s a =
     (case a of
        No_path \<Rightarrow> crash
      | Name_of p \<Rightarrow> andthen (ent s p) (\<lambda>e. ret (fts_name e))
      | Path_at b i \<Rightarrow> andthen (buf s b) (\<lambda>pb. str_from (buf_chars pb) i (buf_size pb)))"

section \<open>Calls\<close>

text \<open>A call fails with \<open>-1\<close>, or null, and \<open>errno\<close>; a call that succeeds leaves \<open>errno\<close> as it is.\<close>

definition call :: "('e, 'a) syscall \<Rightarrow> 'e fts \<Rightarrow> 'a option \<times> 'e fts" where
  "call f s =
     (case f (env s) of
        (Inl x, e) \<Rightarrow> (Some x, s\<lparr>env := e\<rparr>)
      | (Inr err, e) \<Rightarrow> (None, s\<lparr>env := e, errno_v := Some err\<rparr>))"

definition call_ignored :: "('e, 'a) syscall \<Rightarrow> 'e fts \<Rightarrow> 'e fts" where
  "call_ignored f s = snd (call f s)"

definition set_errno :: "errno option \<Rightarrow> 'e fts \<Rightarrow> 'e fts" where
  "set_errno e s = s\<lparr>errno_v := e\<rparr>"

end
