(* ===== verification/Fts_Parts.thy ===== *)
theory Fts_Parts
  imports Fts_Data
begin

text \<open>The helper functions of \<^verbatim>\<open>src/fts.c\<close>: all but building a directory's list and the interface.\<close>

section \<open>Names and sizes\<close>

definition ISDOT :: "string \<Rightarrow> bool" where
  "ISDOT a \<longleftrightarrow> (case a of
     [] \<Rightarrow> False
   | c # rest \<Rightarrow> c = CHR ''.'' \<and> (case rest of [] \<Rightarrow> True | d # rest \<Rightarrow> d = CHR ''.'' \<and> rest = []))"

definition fts_length_max :: u64 where
  "fts_length_max = ucast (NOT 0 :: u32)"

definition fts_length_cap :: "u64 \<Rightarrow> u32" where
  "fts_length_cap len = (if len > fts_length_max then ucast fts_length_max else ucast len)"

definition fts_pow2 :: "u64 \<Rightarrow> u64" where
  "fts_pow2 x =
     (if x = 0 then 1
      else
        let x = x - 1;
            x = x OR drop_bit 1 x;
            x = x OR drop_bit 2 x;
            x = x OR drop_bit 4 x;
            x = x OR drop_bit 8 x;
            x = x OR drop_bit 16 x;
            x = x OR drop_bit 32 x in
        x + 1)"

definition fts_maxarglen :: "string list \<Rightarrow> u64" where
  "fts_maxarglen argv = fold (\<lambda>a m. if strlen a > m then strlen a else m) argv 0 + 1"

text \<open>
  An array of pointers to entries, \<open>NULL\<close> in the new part.  (Of other sizes of elements there
  is no call.)
\<close>

definition safe_recallocarray ::
  "'e sys \<Rightarrow> nat list \<Rightarrow> u64 \<Rightarrow> u64 \<Rightarrow> u64 \<Rightarrow> 'e fts \<Rightarrow> nat list option \<times> 'e fts" where
  "safe_recallocarray sys ptr oldnmemb newnmemb esize s =
     (if esize \<noteq> 0 \<and> newnmemb > SIZE_MAX div esize then (None, set_errno (Some ENOMEM) s)
      else if newnmemb * esize = 0 then (None, s)
      else
        case call (realloc_fn sys (newnmemb * esize)) s of
          (None, s) \<Rightarrow> (None, s)
        | (Some _, s) \<Rightarrow>
            (Some (take (unat newnmemb) ptr @ replicate (unat newnmemb - length ptr) 0), s))"

section \<open>Directories being visited\<close>

definition cycle_hash :: "u64 \<Rightarrow> u64 \<Rightarrow> u64 \<Rightarrow> u64" where
  "cycle_hash dev ino n = (let h = push_bit 5 dev XOR ino in if n \<noteq> 0 then h AND (n - 1) else 0)"

text \<open>The key of an entry of the table, and whether an entry has it.\<close>

fun cycle_is :: "u64 \<Rightarrow> u64 \<Rightarrow> u64 \<times> u64 \<times> nat \<Rightarrow> bool" where
  "cycle_is dev ino (d, i, p) \<longleftrightarrow> d = dev \<and> i = ino"

definition cycle_init :: "'e sys \<Rightarrow> 'e fts \<Rightarrow> bool \<times> 'e fts" where
  "cycle_init sys s =
     (case call (malloc_fn sys (64 * 8)) s of
        (None, s) \<Rightarrow> (True, s\<lparr>sp_cycles := \<lparr>buckets = None, nbuckets = 0\<rparr>\<rparr>)
      | (Some _, s) \<Rightarrow> (False, s\<lparr>sp_cycles := \<lparr>buckets = Some (replicate 64 []), nbuckets = 64\<rparr>\<rparr>))"

definition cycle_free :: "'e fts \<Rightarrow> 'e fts" where
  "cycle_free s = s\<lparr>sp_cycles := (if buckets (sp_cycles s) = None then sp_cycles s
     else \<lparr>buckets = None, nbuckets = 0\<rparr>)\<rparr>"

definition cycle_lookup :: "cycle_state \<Rightarrow> u64 \<Rightarrow> u64 \<Rightarrow> nat" where
  "cycle_lookup cs dev ino =
     (case buckets cs of
        None \<Rightarrow> 0
      | Some bs \<Rightarrow>
          (case find (cycle_is dev ino) (bs ! unat (cycle_hash dev ino (nbuckets cs))) of
             None \<Rightarrow> 0
           | Some (_, _, p) \<Rightarrow> p))"

text \<open>An entry that is there already stays, with the entry it names.\<close>

definition cycle_insert :: "'e sys \<Rightarrow> u64 \<Rightarrow> u64 \<Rightarrow> nat \<Rightarrow> 'e fts \<Rightarrow> bool \<times> 'e fts" where
  "cycle_insert sys dev ino p s =
     (let (failed, s) = (if buckets (sp_cycles s) = None then cycle_init sys s else (False, s)) in
      case buckets (sp_cycles s) of
        None \<Rightarrow> (True, s)
      | Some bs \<Rightarrow>
          let idx = unat (cycle_hash dev ino (nbuckets (sp_cycles s))) in
          if find (cycle_is dev ino) (bs ! idx) \<noteq> None then (False, s)
          else
            case call (malloc_fn sys 32) s of
              (None, s) \<Rightarrow> (True, s)
            | (Some _, s) \<Rightarrow>
                (False, s\<lparr>sp_cycles := (sp_cycles s)\<lparr>buckets := Some (bs[idx := (dev, ino, p) # bs ! idx])\<rparr>\<rparr>))"

fun cycle_unlink :: "u64 \<Rightarrow> u64 \<Rightarrow> (u64 \<times> u64 \<times> nat) list \<Rightarrow> (u64 \<times> u64 \<times> nat) list" where
  "cycle_unlink dev ino [] = []"
| "cycle_unlink dev ino (e # es) = (if cycle_is dev ino e then es else e # cycle_unlink dev ino es)"

definition cycle_remove :: "u64 \<Rightarrow> u64 \<Rightarrow> cycle_state \<Rightarrow> cycle_state" where
  "cycle_remove dev ino cs =
     (case buckets cs of
        None \<Rightarrow> cs
      | Some bs \<Rightarrow>
          let idx = unat (cycle_hash dev ino (nbuckets cs)) in
          cs\<lparr>buckets := Some (bs[idx := cycle_unlink dev ino (bs ! idx)])\<rparr>)"

definition fts_cycle_push :: "'e sys \<Rightarrow> nat \<Rightarrow> 'e fts \<Rightarrow> (bool \<times> 'e fts) run" where
  "fts_cycle_push sys p s =
     (if p = 0 then ret (False, s)
      else andthen (ent s p) (\<lambda>e.
        if fts_info e \<noteq> FTS_D then ret (False, s)
        else case cycle_insert sys (fts_dev e) (fts_ino e) p s of
          (True, s) \<Rightarrow> ret (True, set_errno (Some ENOMEM) s)
        | (False, s) \<Rightarrow> ret (False, s)))"

definition fts_cycle_pop :: "nat \<Rightarrow> 'e fts \<Rightarrow> 'e fts run" where
  "fts_cycle_pop p s =
     (if p = 0 then ret s
      else andthen (ent s p) (\<lambda>e. ret
        (if fts_info e \<in> {FTS_D, FTS_DC, FTS_DNR, FTS_DP, FTS_ERR}
         then s\<lparr>sp_cycles := cycle_remove (fts_dev e) (fts_ino e) (sp_cycles s)\<rparr> else s)))"

section \<open>Memory of entries and paths\<close>

text \<open>The sizes are those of x86-64.\<close>

definition SIZEOF_FTSENT :: u64 where "SIZEOF_FTSENT = 128"
definition SIZEOF_STAT :: u64 where "SIZEOF_STAT = 144"
definition ALIGNBYTES :: u64 where "ALIGNBYTES = 7"

definition zero_ent :: ftsent where
  "zero_ent = \<lparr>fts_cycle = 0, fts_parent = 0, fts_link = 0, fts_accpath = No_path, fts_path = 0,
     fts_errno = None, fts_symfd = 0, fts_pathlen = 0, fts_namelen = 0, fts_ino = 0, fts_dev = 0, fts_nlink = 0,
     fts_level = 0, fts_info = FTS_NONE, fts_flags = 0, fts_instr = 0, fts_statp = None, fts_name = []\<rparr>"

definition fts_alloc :: "'e sys \<Rightarrow> string \<Rightarrow> 'e fts \<Rightarrow> nat \<times> 'e fts" where
  "fts_alloc sys name s =
     (let len = SIZEOF_FTSENT + strlen name + 1;
          len = (if \<not> isset FTS_NOSTAT s then len + (SIZEOF_STAT + ALIGNBYTES) else len) in
      case call (malloc_fn sys len) s of
        (None, s) \<Rightarrow> (0, s)
      | (Some _, s) \<Rightarrow>
          let p = ents_end s;
              e = zero_ent\<lparr>fts_path := sp_path s, fts_namelen := fts_length_cap (strlen name),
                    fts_instr := FTS_NOINSTR,
                    fts_statp := (if \<not> isset FTS_NOSTAT s then Some no_stat else None), fts_name := name\<rparr> in
          (p, s\<lparr>ents := (ents s)(p \<mapsto> e), ents_end := Suc p\<rparr>))"

partial_function (option) fts_lfree :: "nat \<Rightarrow> 'e fts \<Rightarrow> 'e fts run" where
  "fts_lfree head s =
     (if head = 0 then ret s
      else andthen (ent s head) (\<lambda>e. andthen (free_ent head s) (\<lambda>s. fts_lfree (fts_link e) s)))"

text \<open>Bytes of a buffer that nothing wrote are taken as \<open>NUL\<close>.\<close>

definition fts_palloc :: "'e sys \<Rightarrow> u64 \<Rightarrow> 'e fts \<Rightarrow> (bool \<times> 'e fts) run" where
  "fts_palloc sys need s =
     (if need > SIZE_MAX - 256 then ret (True, set_errno (Some ENAMETOOLONG) s)
      else
        let need = fts_pow2 (need + 256) in
        andthen (if sp_path s = 0 then ret \<lparr>buf_size = 0, buf_chars = \<lambda>_. NUL\<rparr> else buf s (sp_path s)) (\<lambda>old.
        case call (realloc_fn sys need) s of
          (None, s) \<Rightarrow> ret (True, s)
        | (Some moved, s) \<Rightarrow>
            let b = (if moved \<or> sp_path s = 0 then bufs_end s else sp_path s) in
            ret (False, s\<lparr>bufs := (bufs s)(sp_path s := None, b \<mapsto> old\<lparr>buf_size := unat need\<rparr>),
              bufs_end := (if b = bufs_end s then Suc b else bufs_end s),
              sp_path := b, sp_pathlen := fts_length_cap need\<rparr>)))"

text \<open>
  \<open>ADJUST\<close>: an access path that is not the entry's own name keeps its distance from the old
  path.  The distance to anything but that path is undefined.
\<close>

definition ADJUST :: "nat \<Rightarrow> 'e fts \<Rightarrow> 'e fts run" where
  "ADJUST p s = andthen (ent s p) (\<lambda>e.
     andthen (if fts_accpath e \<noteq> Name_of p then
          (case fts_accpath e of
             Path_at b i \<Rightarrow> if b = fts_path e then ret (Path_at (sp_path s) i) else crash
           | _ \<Rightarrow> crash)
        else ret (fts_accpath e)) (\<lambda>acc.
     ret (s\<lparr>ents := (ents s)(p \<mapsto> e\<lparr>fts_accpath := acc, fts_path := sp_path s\<rparr>)\<rparr>)))"

partial_function (option) adjust_children :: "nat \<Rightarrow> 'e fts \<Rightarrow> 'e fts run" where
  "adjust_children p s =
     (if p = 0 then ret s
      else andthen (ADJUST p s) (\<lambda>s. andthen (ent s p) (\<lambda>e. adjust_children (fts_link e) s)))"

partial_function (option) adjust_up :: "nat \<Rightarrow> 'e fts \<Rightarrow> 'e fts run" where
  "adjust_up p s =
     (if p = 0 then ret s
      else andthen (ent s p) (\<lambda>e.
        if fts_level e \<ge> FTS_ROOTLEVEL then
          andthen (ADJUST p s) (\<lambda>s. adjust_up (if fts_link e \<noteq> 0 then fts_link e else fts_parent e) s)
        else ret s))"

definition fts_padjust :: "nat \<Rightarrow> 'e fts \<Rightarrow> 'e fts run" where
  "fts_padjust head s = andthen (adjust_children (sp_child s) s) (\<lambda>s. adjust_up head s)"

text \<open>The name of a root: the whole path becomes the path, the last component the name.\<close>

definition after_slash :: "string \<Rightarrow> string" where
  "after_slash name = rev (takeWhile (\<lambda>c. c \<noteq> CHR ''/'') (rev name))"

definition fts_load :: "nat \<Rightarrow> 'e fts \<Rightarrow> 'e fts run" where
  "fts_load p s = andthen (ent s p) (\<lambda>e.
     let len = unat (fts_namelen e); name = fts_name e in
     if len > length name then crash
     else
       andthen (write_path (sp_path s) 0 (take (len + 1) (name @ [NUL])) s) (\<lambda>s.
       let e = (if CHR ''/'' \<in> set name \<and> (CHR ''/'' \<in> set (tl name) \<or> tl name \<noteq> [])
                then e\<lparr>fts_name := after_slash name, fts_namelen := fts_length_cap (strlen (after_slash name))\<rparr> else e) in
       andthen (path_string s (Path_at (sp_path s) 0)) (\<lambda>path.
       ret (s\<lparr>ents := (ents s)(p \<mapsto> e\<lparr>fts_path := sp_path s, fts_accpath := Path_at (sp_path s) 0,
              fts_pathlen := fts_length_cap (strlen path)\<rparr>),
            sp_dev := fts_dev e\<rparr>))))"

end
