(* ===== verification/Fts_Stat.thy ===== *)
theory Fts_Stat
  imports Fts_Parts
begin

text \<open>\<open>fts_sort\<close>, \<open>fts_stat\<close> and \<open>fts_safe_changedir\<close> of \<^verbatim>\<open>src/fts.c\<close>.\<close>

section \<open>Sorting\<close>

partial_function (option) collect_links :: "nat \<Rightarrow> 'e fts \<Rightarrow> nat list run" where
  "collect_links p s =
     (if p = 0 then ret []
      else andthen (ent s p) (\<lambda>e. andthen (collect_links (fts_link e) s) (\<lambda>ps. ret (p # ps))))"

fun relink :: "nat list \<Rightarrow> 'e fts \<Rightarrow> 'e fts run" where
  "relink [] s = crash"
| "relink [p] s = change p (\<lambda>e. e\<lparr>fts_link := 0\<rparr>) s"
| "relink (p # q # ps) s = andthen (change p (\<lambda>e. e\<lparr>fts_link := q\<rparr>) s) (\<lambda>s. relink (q # ps) s)"

definition compare_ents :: "(ftsent \<Rightarrow> ftsent \<Rightarrow> int) \<Rightarrow> 'e fts \<Rightarrow> nat \<Rightarrow> nat \<Rightarrow> int" where
  "compare_ents f s p q = (case (ents s p, ents s q) of (Some d, Some e) \<Rightarrow> f d e | _ \<Rightarrow> 0)"

text \<open>The array grows to the number of items and 40; when it cannot, the list stays as it is.\<close>

definition grow_array :: "'e sys \<Rightarrow> nat \<Rightarrow> 'e fts \<Rightarrow> bool \<times> 'e fts" where
  "grow_array sys nitems s =
     (if (of_nat nitems :: u32) > sp_nitems s then
        case safe_recallocarray sys (sp_array s) (ucast (sp_nitems s)) (of_nat nitems + 40) 8 s of
          (None, s) \<Rightarrow> (False, s\<lparr>sp_array := [], sp_nitems := 0\<rparr>)
        | (Some a, s) \<Rightarrow> (True, s\<lparr>sp_nitems := fts_length_cap (of_nat nitems + 40), sp_array := a\<rparr>)
      else (True, s))"

definition fts_sort :: "'e sys \<Rightarrow> nat \<Rightarrow> nat \<Rightarrow> 'e fts \<Rightarrow> (nat \<times> 'e fts) run" where
  "fts_sort sys head nitems s =
     (case grow_array sys nitems s of
        (False, s) \<Rightarrow> ret (head, s)
      | (True, s) \<Rightarrow>
          andthen (collect_links head s) (\<lambda>ps.
          if length ps > length (sp_array s) then crash
          else
            case sp_compar s of
              None \<Rightarrow> crash
            | Some f \<Rightarrow>
                let arr = ps @ drop (length ps) (sp_array s);
                    sorted = qsort_fn sys (compare_ents f s) (take nitems arr);
                    s = s\<lparr>sp_array := sorted @ drop nitems arr\<rparr> in
                andthen (relink sorted s) (\<lambda>s. ret (hd sorted, s))))"

section \<open>Kinds of files\<close>

text \<open>The nearest directory above that is the same one.\<close>

partial_function (option) find_above :: "nat \<Rightarrow> u64 \<Rightarrow> u64 \<Rightarrow> 'e fts \<Rightarrow> nat option run" where
  "find_above t dev ino s = andthen (ent s t) (\<lambda>e.
     if fts_level e \<ge> FTS_ROOTLEVEL then
       if fts_ino e = ino \<and> fts_dev e = dev then ret (Some t)
       else find_above (fts_parent e) dev ino s
     else ret None)"

definition store_stat :: "nat \<Rightarrow> fstat \<Rightarrow> 'e fts \<Rightarrow> 'e fts run" where
  "store_stat p sb s = (if isset FTS_NOSTAT s then ret s else change p (\<lambda>e. e\<lparr>fts_statp := Some sb\<rparr>) s)"

definition stat_failed :: "nat \<Rightarrow> errno option \<Rightarrow> 'e fts \<Rightarrow> (fts_kind \<times> 'e fts) run" where
  "stat_failed p err s =
     andthen (change p (\<lambda>e. e\<lparr>fts_errno := err\<rparr>) s) (\<lambda>s.
     andthen (store_stat p no_stat s) (\<lambda>s. ret (FTS_NS, s)))"

text \<open>What a \<open>stat\<close> that succeeded makes of the entry.\<close>

definition stat_kind :: "nat \<Rightarrow> fstat \<Rightarrow> 'e fts \<Rightarrow> (fts_kind \<times> 'e fts) run" where
  "stat_kind p sb s =
     (if S_ISDIR (st_mode sb) then
        andthen (change p (\<lambda>e. e\<lparr>fts_dev := st_dev sb, fts_ino := st_ino sb, fts_nlink := st_nlink sb\<rparr>) s) (\<lambda>s.
        andthen (ent s p) (\<lambda>e.
        if ISDOT (fts_name e) then ret (FTS_DOT, s)
        else
          andthen (find_above (fts_parent e) (st_dev sb) (st_ino sb) s) (\<lambda>above.
          case above of
            Some t \<Rightarrow> andthen (change p (\<lambda>e. e\<lparr>fts_cycle := t\<rparr>) s) (\<lambda>s. ret (FTS_DC, s))
          | None \<Rightarrow>
              let cyc = cycle_lookup (sp_cycles s) (st_dev sb) (st_ino sb) in
              if cyc \<noteq> 0 then andthen (change p (\<lambda>e. e\<lparr>fts_cycle := cyc\<rparr>) s) (\<lambda>s. ret (FTS_DC, s))
              else ret (FTS_D, s))))
      else if S_ISLNK (st_mode sb) then ret (FTS_SL, s)
      else if S_ISREG (st_mode sb) then ret (FTS_F, s)
      else ret (FTS_DEFAULT, s))"

definition fts_stat :: "'e sys \<Rightarrow> nat \<Rightarrow> bool \<Rightarrow> int option \<Rightarrow> 'e fts \<Rightarrow> (fts_kind \<times> 'e fts) run" where
  "fts_stat sys p follow dfd s =
     andthen (ent s p) (\<lambda>e.
     if fts_level e \<ge> SHRT_MAX then
       andthen (change p (\<lambda>e. e\<lparr>fts_errno := Some ERANGE\<rparr>) (set_errno (Some ERANGE) s)) (\<lambda>s. ret (FTS_ERR, s))
     else
       andthen (if dfd = None then path_string s (fts_accpath e) else ret (fts_name e)) (\<lambda>path.
       if isset FTS_WHITEOUT s \<and> ent_flag FTS_ISW e then
         andthen (store_stat p no_stat s) (\<lambda>s. ret (FTS_W, s))
       else if isset FTS_LOGICAL s \<or> follow then
         case call (fstatat_fn sys dfd path False) s of
           (Some sb, s) \<Rightarrow> andthen (store_stat p sb s) (\<lambda>s. stat_kind p sb s)
         | (None, s) \<Rightarrow>
             let saved_errno = errno_v s in
             case call (fstatat_fn sys dfd path True) s of
               (Some sb, s) \<Rightarrow> andthen (store_stat p sb (set_errno None s)) (\<lambda>s. ret (FTS_SLNONE, s))
             | (None, s) \<Rightarrow> stat_failed p saved_errno s
       else
         case call (fstatat_fn sys dfd path True) s of
           (Some sb, s) \<Rightarrow> andthen (store_stat p sb s) (\<lambda>s. stat_kind p sb s)
         | (None, s) \<Rightarrow> stat_failed p (errno_v s) s))"

section \<open>Changing the directory\<close>

text \<open>
  A descriptor that is given stays open, one that is opened here is closed; the results tell
  failure and the state.
\<close>

definition close_own :: "'e sys \<Rightarrow> int option \<Rightarrow> int \<Rightarrow> 'e fts \<Rightarrow> 'e fts" where
  "close_own sys fd newfd s = (if fd = None then call_ignored (close_fn sys newfd) s else s)"

definition changedir_to :: "'e sys \<Rightarrow> nat \<Rightarrow> int option \<Rightarrow> int \<Rightarrow> 'e fts \<Rightarrow> (bool \<times> 'e fts) run" where
  "changedir_to sys p fd newfd s =
     andthen (ent s p) (\<lambda>e.
     case call (fstat_fn sys newfd) s of
       (None, s) \<Rightarrow> ret (True, set_errno (errno_v s) (close_own sys fd newfd s))
     | (Some sb_before, s) \<Rightarrow>
         if fts_dev e \<noteq> st_dev sb_before \<or> fts_ino e \<noteq> st_ino sb_before then
           ret (True, set_errno (Some ENOENT) (close_own sys fd newfd s))
         else
           case call (fchdir_fn sys newfd) s of
             (None, s) \<Rightarrow> ret (True, set_errno (errno_v s) (close_own sys fd newfd s))
           | (Some _, s) \<Rightarrow>
               (case call (fstat_fn sys newfd) s of
                  (Some sb_after, s) \<Rightarrow>
                    if st_dev sb_before \<noteq> st_dev sb_after \<or> st_ino sb_before \<noteq> st_ino sb_after
                    then ret (True, set_errno (Some ENOENT) (close_own sys fd newfd s))
                    else ret (False, close_own sys fd newfd s)
                | (None, s) \<Rightarrow> ret (True, set_errno (Some ENOENT) (close_own sys fd newfd s))))"

definition fts_safe_changedir ::
  "'e sys \<Rightarrow> nat \<Rightarrow> int option \<Rightarrow> string option \<Rightarrow> 'e fts \<Rightarrow> (bool \<times> 'e fts) run" where
  "fts_safe_changedir sys p fd path s =
     (if isset FTS_NOCHDIR s then ret (False, s)
      else case fd of
        Some newfd \<Rightarrow> changedir_to sys p fd newfd s
      | None \<Rightarrow>
          andthen (case path of Some path \<Rightarrow> ret path | None \<Rightarrow> andthen (ent s p) (\<lambda>e. path_string s (fts_accpath e)))
          (\<lambda>path.
            case call (open_fn sys path [O_DIRECTORY, O_CLOEXEC, O_NOFOLLOW]) s of
              (None, s) \<Rightarrow> ret (True, s)
            | (Some newfd, s) \<Rightarrow> changedir_to sys p fd newfd s))"

end
