(* ===== verification/Fts_Build.thy ===== *)
theory Fts_Build
  imports Fts_Stat
begin

text \<open>\<open>fts_build\<close> of \<^verbatim>\<open>src/fts.c\<close>: the list of a directory's entries, in its stages.\<close>

section \<open>Opening the directory\<close>

text \<open>The current entry becomes an error: \<open>errno\<close> in it, and null returned.\<close>

definition build_error :: "fts_kind \<Rightarrow> 'e fts \<Rightarrow> 'e fts run" where
  "build_error info s = change (sp_cur s) (\<lambda>e. e\<lparr>fts_info := info, fts_errno := errno_v s\<rparr>) s"

definition open_flags :: "'e fts \<Rightarrow> open_flag list" where
  "open_flags s = (if isset FTS_PHYSICAL s then [O_DIRECTORY, O_CLOEXEC, O_NOFOLLOW] else [O_DIRECTORY, O_CLOEXEC])"

text \<open>The directory's descriptor, of the very directory that was examined before, or none.\<close>

definition build_open :: "'e sys \<Rightarrow> build_type \<Rightarrow> 'e fts \<Rightarrow> (int option \<times> 'e fts) run" where
  "build_open sys type s =
     andthen (ent s (sp_cur s)) (\<lambda>cur.
     if fts_level cur \<ge> SHRT_MAX then
       andthen (change (sp_cur s) (\<lambda>e. e\<lparr>fts_info := FTS_ERR\<rparr>) (set_errno (Some ENAMETOOLONG) s)) (\<lambda>s.
         ret (None, set_opt FTS_STOP s))
     else
       andthen (path_string s (fts_accpath cur)) (\<lambda>path.
       case call (open_fn sys path (open_flags s)) s of
         (None, s) \<Rightarrow> andthen (build_error (if type = BREAD then FTS_DNR else FTS_ERR) s) (\<lambda>s. ret (None, s))
       | (Some fd, s) \<Rightarrow>
           (case call (fstat_fn sys fd) s of
              (None, s) \<Rightarrow>
                andthen (build_error FTS_ERR (set_errno (errno_v s) (call_ignored (close_fn sys fd) s))) (\<lambda>s. ret (None, s))
            | (Some sb, s) \<Rightarrow>
                if st_dev sb \<noteq> fts_dev cur \<or> st_ino sb \<noteq> fts_ino cur then
                  andthen (build_error FTS_ERR (set_errno (Some ENOENT) (call_ignored (close_fn sys fd) s))) (\<lambda>s. ret (None, s))
                else
                  (case call (fdopendir_fn sys fd) s of
                     (None, s) \<Rightarrow>
                       andthen (build_error FTS_ERR (set_errno (errno_v s) (call_ignored (close_fn sys fd) s)))
                         (\<lambda>s. ret (None, s))
                   | (Some _, s) \<Rightarrow> ret (Some fd, s)))))"

text \<open>How many links to directories to look for, or any number, and whether kinds come from the stream.\<close>

definition build_links :: "build_type \<Rightarrow> ftsent \<Rightarrow> 'e fts \<Rightarrow> int \<times> bool" where
  "build_links type cur s =
     (if type = BNAMES then (0, True)
      else if isset FTS_NOSTAT s \<and> isset FTS_PHYSICAL s then
        let n = sint (ucast (fts_nlink cur) :: u32) - (if isset FTS_SEEDOT s then 0 else 2) in
        (if n < 0 then 0 else n, True)
      else (-1, False))"

text \<open>Going into the directory: whether it was done, and the error if it failed.\<close>

definition build_descend :: "'e sys \<Rightarrow> build_type \<Rightarrow> int \<Rightarrow> int \<Rightarrow> 'e fts \<Rightarrow> ((bool \<times> errno option) \<times> 'e fts) run" where
  "build_descend sys type nlinks fd s =
     (if nlinks \<noteq> 0 \<or> type = BREAD then
        andthen (fts_safe_changedir sys (sp_cur s) (Some fd) None s) (\<lambda>(failed, s).
          if failed then
            andthen (change (sp_cur s) (\<lambda>e. e\<lparr>fts_flags := fts_flags e OR FTS_DONTCHDIR\<rparr>) s) (\<lambda>s.
              ret ((False, errno_v s), s))
          else ret ((True, None), s))
      else ret ((False, None), s))"

text \<open>Where the name of a child begins after the path of an entry: over its last slash, or after it.\<close>

definition name_place :: "ftsent \<Rightarrow> 'e fts \<Rightarrow> u32 run" where
  "name_place e s =
     andthen (read_path s (fts_path e) (unat (fts_pathlen e - 1))) (\<lambda>c.
       ret (if c = CHR ''/'' then fts_pathlen e - 1 else fts_pathlen e))"

text \<open>The name with its \<open>NUL\<close>, as many characters as \<open>fts_namelen\<close> tells.\<close>

definition name_bytes :: "ftsent \<Rightarrow> char list run" where
  "name_bytes e =
     (if unat (fts_namelen e) \<le> length (fts_name e) then ret (take (unat (fts_namelen e) + 1) (fts_name e @ [NUL]))
      else crash)"

section \<open>Entries\<close>

text \<open>What does not change while the stream is read.\<close>

record build_context =
  b_fd :: int
  b_len :: u64
  b_level :: int
  b_nostat :: bool
  b_cderrno :: "errno option"

text \<open>A longer path, when the name does not fit: the room after the place of names.\<close>

definition build_room :: "'e sys \<Rightarrow> build_context \<Rightarrow> nat \<Rightarrow> u64 \<Rightarrow> u64 \<Rightarrow> 'e fts \<Rightarrow> (u64 option \<times> 'e fts) run" where
  "build_room sys c head dnamlen maxlen s =
     (if dnamlen \<ge> maxlen then
        let oldaddr = sp_path s in
        andthen (fts_palloc sys (dnamlen + b_len c + 1) s) (\<lambda>(failed, s).
        if failed then ret (None, s)
        else
          andthen (if oldaddr \<noteq> sp_path s then fts_padjust (if head \<noteq> 0 then head else sp_cur s) s else ret s) (\<lambda>s.
          ret (Some (ucast (sp_pathlen s) - b_len c), s)))
      else ret (Some maxlen, s))"

text \<open>The kind of an entry: from the error, from the stream, or by a \<open>stat\<close>.\<close>

definition build_kind :: "'e sys \<Rightarrow> build_context \<Rightarrow> nat \<Rightarrow> dirent \<Rightarrow> int \<Rightarrow> 'e fts \<Rightarrow> (int \<times> 'e fts) run" where
  "build_kind sys c p dp nlinks s =
     andthen (ent s p) (\<lambda>e.
     if b_cderrno c \<noteq> None then
       andthen (ent s (sp_cur s)) (\<lambda>cur.
       andthen (change p (\<lambda>e. e\<lparr>fts_info := if nlinks \<noteq> 0 then FTS_NS else FTS_NSOK, fts_errno := b_cderrno c,
                              fts_accpath := fts_accpath cur\<rparr>) s) (\<lambda>s.
         ret (nlinks, s)))
     else
       let acc = (if isset FTS_NOCHDIR s then Path_at (fts_path e) 0 else Name_of p) in
       andthen (change p (\<lambda>e. e\<lparr>fts_accpath := acc\<rparr>) s) (\<lambda>s.
       if nlinks = 0 \<or> (b_nostat c \<and> d_type dp \<noteq> DT_DIR \<and> d_type dp \<noteq> DT_UNKNOWN) then
         andthen (change p (\<lambda>e. e\<lparr>fts_info := FTS_NSOK\<rparr>) s) (\<lambda>s. ret (nlinks, s))
       else
         andthen (if isset FTS_NOCHDIR s then
             andthen (name_bytes e) (\<lambda>bytes. write_path (sp_path s) (unat (b_len c)) bytes s)
           else ret s) (\<lambda>s.
         andthen (fts_stat sys p False (if isset FTS_NOCHDIR s then Some (b_fd c) else None) s) (\<lambda>(info, s).
         andthen (change p (\<lambda>e. e\<lparr>fts_info := info\<rparr>) s) (\<lambda>s.
           ret (if nlinks > 0 \<and> info \<in> {FTS_D, FTS_DC, FTS_DOT} then nlinks - 1 else nlinks, s))))))"

text \<open>The entry of a name, the number of links and the room after it; or memory has run out.\<close>

definition build_entry ::
  "'e sys \<Rightarrow> build_context \<Rightarrow> nat \<Rightarrow> dirent \<Rightarrow> int \<Rightarrow> u64 \<Rightarrow> 'e fts \<Rightarrow> ((nat \<times> int \<times> u64) option \<times> 'e fts) run" where
  "build_entry sys c head dp nlinks maxlen s =
     (let dnamlen = strlen (d_name dp) in
      case fts_alloc sys (d_name dp) s of (p, s) \<Rightarrow>
      if p = 0 then ret (None, s)
      else
        andthen (build_room sys c head dnamlen maxlen s) (\<lambda>(room, s).
        case room of
          None \<Rightarrow> andthen (free_ent p s) (\<lambda>s. ret (None, s))
        | Some maxlen \<Rightarrow>
            andthen (change p (\<lambda>e. e\<lparr>fts_path := sp_path s, fts_level := b_level c, fts_parent := sp_cur s\<rparr>) s) (\<lambda>s.
            let pathlen = b_len c + dnamlen in
            if pathlen < b_len c \<or> pathlen > fts_length_max then
              andthen (free_ent p s) (\<lambda>s. ret (None, set_errno (Some ENAMETOOLONG) s))
            else
              andthen (change p (\<lambda>e. e\<lparr>fts_pathlen := fts_length_cap pathlen,
                  fts_flags := (if isset FTS_WHITEOUT s \<and> d_type dp = DT_WHT then fts_flags e OR FTS_ISW else fts_flags e)\<rparr>) s)
              (\<lambda>s. andthen (build_kind sys c p dp nlinks s) (\<lambda>(nlinks, s).
                andthen (change p (\<lambda>e. e\<lparr>fts_link := 0\<rparr>) s) (\<lambda>s. ret (Some (p, nlinks, maxlen), s)))))))"

text \<open>The list so far is freed, the stream closed, and the traversal stops.\<close>

definition build_failed :: "'e sys \<Rightarrow> int \<Rightarrow> nat \<Rightarrow> 'e fts \<Rightarrow> 'e fts run" where
  "build_failed sys fd head s =
     (let saved_errno = errno_v s in
      andthen (fts_lfree head s) (\<lambda>s.
      let s = call_ignored (closedir_fn sys fd) s in
      andthen (change (sp_cur s) (\<lambda>e. e\<lparr>fts_info := FTS_ERR\<rparr>) s) (\<lambda>s.
        ret (set_errno saved_errno (set_opt FTS_STOP s)))))"

text \<open>
  Reading the stream, which may never end: the list and its length, or a failure.  The end is
  taken for an error when \<open>errno\<close> is set.
\<close>

partial_function (option) build_loop ::
  "'e sys \<Rightarrow> build_context \<Rightarrow> nat \<Rightarrow> nat \<Rightarrow> nat \<Rightarrow> int \<Rightarrow> u64 \<Rightarrow> 'e fts \<Rightarrow> ((nat \<times> nat) option \<times> 'e fts) run" where
  "build_loop sys c head tail nitems nlinks maxlen s =
     (case call (readdir_fn sys (b_fd c)) s of
        (Some (Some dp), s) \<Rightarrow>
          if \<not> isset FTS_SEEDOT s \<and> ISDOT (d_name dp) then build_loop sys c head tail nitems nlinks maxlen s
          else
            andthen (build_entry sys c head dp nlinks maxlen s) (\<lambda>r.
            case r of
              (None, s) \<Rightarrow> andthen (build_failed sys (b_fd c) head s) (\<lambda>s. ret (None, s))
            | (Some (p, nlinks, maxlen), s) \<Rightarrow>
                andthen (if head = 0 then ret s else change tail (\<lambda>e. e\<lparr>fts_link := p\<rparr>) s) (\<lambda>s.
                  build_loop sys c (if head = 0 then p else head) p (Suc nitems) nlinks maxlen s))
      | (_, s) \<Rightarrow>
          if errno_v s \<noteq> None then andthen (build_failed sys (b_fd c) head s) (\<lambda>s. ret (None, s))
          else ret (Some (head, nitems), s))"

section \<open>The list\<close>

text \<open>Back to the directory above, when the list was asked for by \<open>fts_children\<close>.\<close>

definition build_return :: "'e sys \<Rightarrow> 'e fts \<Rightarrow> (bool \<times> 'e fts) run" where
  "build_return sys s =
     andthen (ent s (sp_cur s)) (\<lambda>cur.
     if fts_level cur = FTS_ROOTLEVEL then
       case call (fchdir_fn sys (sp_rfd s)) s of (r, s) \<Rightarrow> ret (r = None, s)
     else fts_safe_changedir sys (fts_parent cur) None (Some ''..'') s)"

definition build_list :: "'e sys \<Rightarrow> build_type \<Rightarrow> bool \<Rightarrow> int \<Rightarrow> nat \<Rightarrow> nat \<Rightarrow> 'e fts \<Rightarrow> (nat \<times> 'e fts) run" where
  "build_list sys type descend fd head nitems s =
     (let s = call_ignored (closedir_fn sys fd) s in
      if nitems = 0 then
        if type = BREAD then andthen (change (sp_cur s) (\<lambda>e. e\<lparr>fts_info := FTS_DP\<rparr>) s) (\<lambda>s. ret (0, s))
        else ret (0, s)
      else
        andthen (if sp_compar s \<noteq> None \<and> nitems > 1 then fts_sort sys head nitems s else ret (head, s)) (\<lambda>(head, s).
        if descend \<and> (type = BCHILD \<or> nitems = 0) then
          andthen (build_return sys s) (\<lambda>(failed, s).
          if failed then
            andthen (change (sp_cur s) (\<lambda>e. e\<lparr>fts_info := FTS_ERR\<rparr>) s) (\<lambda>s. ret (0, set_opt FTS_STOP s))
          else ret (head, s))
        else ret (head, s)))"

definition fts_build :: "'e sys \<Rightarrow> build_type \<Rightarrow> 'e fts \<Rightarrow> (nat \<times> 'e fts) run" where
  "fts_build sys type s =
     andthen (build_open sys type s) (\<lambda>(dir, s).
     case dir of
       None \<Rightarrow> ret (0, s)
     | Some fd \<Rightarrow>
         andthen (ent s (sp_cur s)) (\<lambda>cur.
         case build_links type cur s of (nlinks, nostat) \<Rightarrow>
         andthen (build_descend sys type nlinks fd s) (\<lambda>((descend, cderrno), s).
         andthen (name_place cur s) (\<lambda>at.
         andthen (if isset FTS_NOCHDIR s then write_path (sp_path s) (unat at) [CHR ''/'', NUL] s else ret s) (\<lambda>s.
         let len = ucast at + 1;
             c = \<lparr>b_fd = fd, b_len = len, b_level = (if fts_level cur < SHRT_MAX then fts_level cur + 1 else SHRT_MAX),
                  b_nostat = nostat, b_cderrno = cderrno\<rparr> in
         andthen (build_loop sys c 0 0 0 nlinks (ucast (sp_pathlen s) - len) (set_errno None s)) (\<lambda>r.
         case r of
           (None, s) \<Rightarrow> ret (0, s)
         | (Some (head, nitems), s) \<Rightarrow> build_list sys type descend fd head nitems s))))))"

end
