(* ===== verification/Fts.thy ===== *)
theory Fts
  imports Fts_Build
begin

text \<open>The interface of \<^verbatim>\<open>src/fts.c\<close>: opening, reading, steering and closing a traversal.\<close>

section \<open>Opening\<close>

text \<open>The stream that \<open>calloc\<close> makes, in a fresh memory.\<close>

definition fts_zero :: "(ftsent \<Rightarrow> ftsent \<Rightarrow> int) option \<Rightarrow> u32 \<Rightarrow> errno option \<Rightarrow> 'e \<Rightarrow> 'e fts" where
  "fts_zero compar options err e =
     \<lparr>sp_cur = 0, sp_child = 0, sp_array = [], sp_dev = 0, sp_path = 0, sp_rfd = 0, sp_pathlen = 0, sp_nitems = 0,
      sp_compar = compar, sp_options = options, sp_cycles = \<lparr>buckets = None, nbuckets = 0\<rparr>,
      ents = (\<lambda>_. None), ents_end = 1, bufs = (\<lambda>_. None), bufs_end = 1, errno_v = err, env = e\<rparr>"

definition choose_walk :: "u32 \<Rightarrow> u32" where
  "choose_walk options =
     (let both = options AND (FTS_LOGICAL OR FTS_PHYSICAL) in
      if both = 0 then options OR FTS_PHYSICAL
      else if both = (FTS_LOGICAL OR FTS_PHYSICAL) then options AND NOT FTS_PHYSICAL
      else options)"

definition PATH_MAX :: u64 where "PATH_MAX = 4096"
definition SIZEOF_PRIVATE :: u64 where "SIZEOF_PRIVATE = 88"

definition free_path :: "'e fts \<Rightarrow> 'e fts" where
  "free_path s = s\<lparr>bufs := (bufs s)(sp_path s := None)\<rparr>"

text \<open>What is freed, in the code's order, when opening fails.\<close>

definition open_failed :: "nat \<Rightarrow> nat \<Rightarrow> 'e fts \<Rightarrow> (bool \<times> 'e fts) run" where
  "open_failed root parent s =
     andthen (fts_lfree root s) (\<lambda>s.
     andthen (free_ent parent s) (\<lambda>s. ret (False, cycle_free (free_path s))))"

text \<open>An entry for each argument: the list, in order or reversed for sorting, or a failure.\<close>

definition open_root :: "'e sys \<Rightarrow> nat \<Rightarrow> nat \<Rightarrow> 'e fts \<Rightarrow> (unit \<times> 'e fts) run" where
  "open_root sys parent p s =
     andthen (change p (\<lambda>e. e\<lparr>fts_level := FTS_ROOTLEVEL, fts_parent := parent, fts_accpath := Name_of p\<rparr>) s) (\<lambda>s.
     andthen (fts_stat sys p (isset FTS_COMFOLLOW s) None s) (\<lambda>(info, s).
     andthen (change p (\<lambda>e. e\<lparr>fts_info := if info = FTS_DOT then FTS_D else info\<rparr>) s) (\<lambda>s. ret ((), s))))"

fun open_roots ::
  "'e sys \<Rightarrow> string list \<Rightarrow> nat \<Rightarrow> nat \<Rightarrow> nat \<Rightarrow> nat \<Rightarrow> 'e fts \<Rightarrow> ((bool \<times> nat \<times> nat) \<times> 'e fts) run" where
  "open_roots sys [] parent root prev nitems s = ret ((True, root, nitems), s)"
| "open_roots sys (a # argv) parent root prev nitems s =
     (if a = [] then ret ((False, root, nitems), set_errno (Some ENOENT) s)
      else case fts_alloc sys a s of (p, s) \<Rightarrow>
        if p = 0 then ret ((False, root, nitems), s)
        else
          andthen (open_root sys parent p s) (\<lambda>(_, s).
          if sp_compar s \<noteq> None then
            andthen (change p (\<lambda>e. e\<lparr>fts_link := root\<rparr>) s) (\<lambda>s. open_roots sys argv parent p prev (Suc nitems) s)
          else
            andthen (change p (\<lambda>e. e\<lparr>fts_link := 0\<rparr>) s) (\<lambda>s.
            andthen (if root = 0 then ret s else change prev (\<lambda>e. e\<lparr>fts_link := p\<rparr>) s) (\<lambda>s.
              open_roots sys argv parent (if root = 0 then p else root) p (Suc nitems) s))))"

text \<open>The first entry, before all: its link is the list.\<close>

definition open_first :: "'e sys \<Rightarrow> nat \<Rightarrow> nat \<Rightarrow> nat \<Rightarrow> 'e fts \<Rightarrow> (bool \<times> 'e fts) run" where
  "open_first sys parent root nitems s =
     andthen (if sp_compar s \<noteq> None \<and> nitems > 1 then fts_sort sys root nitems s else ret (root, s)) (\<lambda>(root, s).
     case fts_alloc sys [] s of (cur, s) \<Rightarrow>
     let s = s\<lparr>sp_cur := cur\<rparr> in
     if cur = 0 then open_failed root parent s
     else
       andthen (change cur (\<lambda>e. e\<lparr>fts_link := root, fts_info := FTS_INIT\<rparr>) s) (\<lambda>s.
       let s = (if \<not> isset FTS_NOCHDIR s then
                  (case call (open_fn sys ''.'' [O_CLOEXEC]) s of
                     (Some fd, s) \<Rightarrow> s\<lparr>sp_rfd := fd\<rparr>
                   | (None, s) \<Rightarrow> set_opt FTS_NOCHDIR (s\<lparr>sp_rfd := -1\<rparr>))
                else s) in
       andthen (if nitems = 0 then free_ent parent s else ret s) (\<lambda>s. ret (True, s))))"

definition fts_open ::
  "'e sys \<Rightarrow> string list option \<Rightarrow> u32 \<Rightarrow> (ftsent \<Rightarrow> ftsent \<Rightarrow> int) option \<Rightarrow> errno option \<Rightarrow> 'e \<Rightarrow> (bool \<times> 'e fts) run" where
  "fts_open sys argv options compar err e =
     (let s = fts_zero compar (choose_walk options) err e in
      if options AND NOT FTS_OPTIONMASK \<noteq> 0 then ret (False, set_errno (Some EINVAL) s)
      else case argv of
        None \<Rightarrow> ret (False, set_errno (Some EINVAL) s)
      | Some argv \<Rightarrow>
          case call (malloc_fn sys SIZEOF_PRIVATE) s of
            (None, s) \<Rightarrow> ret (False, s)
          | (Some _, s) \<Rightarrow>
              case cycle_init sys s of
                (True, s) \<Rightarrow> ret (False, s)
              | (False, s) \<Rightarrow>
                  let s = (if isset FTS_LOGICAL s then set_opt FTS_NOCHDIR s else s);
                      need = fts_maxarglen argv in
                  andthen (fts_palloc sys (if need < PATH_MAX then PATH_MAX else need) s) (\<lambda>(failed, s).
                  if failed then ret (False, cycle_free s)
                  else
                    case fts_alloc sys [] s of (parent, s) \<Rightarrow>
                    if parent = 0 then ret (False, cycle_free (free_path s))
                    else
                      andthen (change parent (\<lambda>e. e\<lparr>fts_level := FTS_ROOTPARENTLEVEL\<rparr>) s) (\<lambda>s.
                      andthen (open_roots sys argv parent 0 0 0 s) (\<lambda>((ok, root, nitems), s).
                      if ok then open_first sys parent root nitems s else open_failed root parent s))))"

section \<open>Closing\<close>

partial_function (option) close_entries :: "nat \<Rightarrow> 'e fts \<Rightarrow> 'e fts run" where
  "close_entries p s =
     andthen (ent s p) (\<lambda>e.
     if fts_level e \<ge> FTS_ROOTLEVEL then
       andthen (free_ent p s) (\<lambda>s. close_entries (if fts_link e \<noteq> 0 then fts_link e else fts_parent e) s)
     else free_ent p s)"

definition fts_close :: "'e sys \<Rightarrow> 'e fts \<Rightarrow> (int \<times> 'e fts) run" where
  "fts_close sys s =
     andthen (if sp_cur s \<noteq> 0 then
         andthen (ent s (sp_cur s)) (\<lambda>e.
         let s = (if ent_flag FTS_SYMFOLLOW e then call_ignored (close_fn sys (fts_symfd e)) s else s) in
         close_entries (sp_cur s) s)
       else ret s) (\<lambda>s.
     andthen (if sp_child s \<noteq> 0 then fts_lfree (sp_child s) s else ret s) (\<lambda>s.
     let s = cycle_free (free_path (s\<lparr>sp_array := []\<rparr>));
         rfd = (if isset FTS_NOCHDIR s then -1 else sp_rfd s) in
     if rfd \<noteq> -1 then
       case call (fchdir_fn sys rfd) s of
         (None, s) \<Rightarrow> ret (-1, set_errno (errno_v s) (call_ignored (close_fn sys rfd) s))
       | (Some _, s) \<Rightarrow> ret (0, call_ignored (close_fn sys rfd) s)
     else ret (0, s)))"

section \<open>Reading\<close>

text \<open>A symbolic link that is to be followed; the way back is kept open.\<close>

definition read_follow :: "'e sys \<Rightarrow> nat \<Rightarrow> 'e fts \<Rightarrow> 'e fts run" where
  "read_follow sys p s =
     andthen (fts_stat sys p True None s) (\<lambda>(info, s).
     andthen (change p (\<lambda>e. e\<lparr>fts_info := info\<rparr>) s) (\<lambda>s.
     if info = FTS_D \<and> \<not> isset FTS_NOCHDIR s then
       case call (open_fn sys ''.'' [O_CLOEXEC]) s of
         (None, s) \<Rightarrow> change p (\<lambda>e. e\<lparr>fts_symfd := -1, fts_errno := errno_v s, fts_info := FTS_ERR\<rparr>) s
       | (Some fd, s) \<Rightarrow> change p (\<lambda>e. e\<lparr>fts_symfd := fd, fts_flags := fts_flags e OR FTS_SYMFOLLOW\<rparr>) s
     else ret s))"

text \<open>The entry becomes the current one, its name at the end of the path.\<close>

definition read_name :: "nat \<Rightarrow> 'e fts \<Rightarrow> (nat \<times> 'e fts) run" where
  "read_name p s =
     andthen (ent s p) (\<lambda>e.
     andthen (ent s (fts_parent e)) (\<lambda>up.
     andthen (name_place up s) (\<lambda>at.
     andthen (name_bytes e) (\<lambda>bytes.
     andthen (write_path (sp_path s) (unat at) (CHR ''/'' # bytes) s) (\<lambda>s. ret (p, s\<lparr>sp_cur := p\<rparr>))))))"

text \<open>Leaving an entry that was visited.\<close>

definition leave :: "nat \<Rightarrow> 'e fts \<Rightarrow> 'e fts run" where
  "leave p s = andthen (fts_cycle_pop p s) (\<lambda>s. free_ent p (s\<lparr>sp_cur := 0\<rparr>))"

text \<open>The traversal cannot go on: null is returned, now and later.\<close>

definition read_stop :: "nat \<Rightarrow> 'e fts \<Rightarrow> (nat \<times> 'e fts) run" where
  "read_stop p s = ret (0, (set_opt FTS_STOP s)\<lparr>sp_cur := p\<rparr>)"

text \<open>Back in a directory whose entries were all visited.\<close>

definition read_up :: "'e sys \<Rightarrow> nat \<Rightarrow> 'e fts \<Rightarrow> (nat \<times> 'e fts) run" where
  "read_up sys p s =
     (if p = 0 then ret (0, set_errno (Some EFAULT) s)
      else
        andthen (ent s p) (\<lambda>e.
        andthen (write_path (sp_path s) (unat (fts_pathlen e)) [NUL] s) (\<lambda>s.
        let visited = (\<lambda>s. andthen (change p (\<lambda>e. e\<lparr>fts_info := if fts_errno e \<noteq> None then FTS_ERR else FTS_DP\<rparr>) s)
                        (\<lambda>s. ret (p, s\<lparr>sp_cur := p\<rparr>))) in
        if fts_level e = FTS_ROOTPARENTLEVEL then
          andthen (free_ent p s) (\<lambda>s. ret (0, (set_errno None s)\<lparr>sp_cur := 0\<rparr>))
        else if fts_level e = FTS_ROOTLEVEL then
          if isset FTS_NOCHDIR s then visited s
          else case call (fchdir_fn sys (sp_rfd s)) s of
            (None, s) \<Rightarrow> read_stop p s
          | (Some _, s) \<Rightarrow> visited s
        else if ent_flag FTS_SYMFOLLOW e then
          if isset FTS_NOCHDIR s then visited (call_ignored (close_fn sys (fts_symfd e)) s)
          else case call (fchdir_fn sys (fts_symfd e)) s of
            (None, s) \<Rightarrow> read_stop p (set_errno (errno_v s) (call_ignored (close_fn sys (fts_symfd e)) s))
          | (Some _, s) \<Rightarrow> visited (call_ignored (close_fn sys (fts_symfd e)) s)
        else if \<not> ent_flag FTS_DONTCHDIR e then
          andthen (fts_safe_changedir sys (fts_parent e) None (Some ''..'') s) (\<lambda>(failed, s).
            if failed then read_stop p s else visited s)
        else visited s)))"

text \<open>\<open>next:\<close> the entry after one that was visited, over those to be skipped.\<close>

partial_function (option) read_next :: "'e sys \<Rightarrow> nat \<Rightarrow> 'e fts \<Rightarrow> (nat \<times> 'e fts) run" where
  "read_next sys tmp s =
     andthen (ent s tmp) (\<lambda>t.
     let p = fts_link t in
     andthen (leave tmp s) (\<lambda>s.
     if p \<noteq> 0 then
       andthen (ent s p) (\<lambda>e.
       if fts_level e = FTS_ROOTLEVEL then
         (case (if isset FTS_NOCHDIR s then (Some (), s) else call (fchdir_fn sys (sp_rfd s)) s) of
            (None, s) \<Rightarrow> read_stop p s
          | (Some _, s) \<Rightarrow> andthen (fts_load p s) (\<lambda>s. ret (p, s\<lparr>sp_cur := p\<rparr>)))
       else if fts_instr e = FTS_SKIP then read_next sys p s
       else if fts_instr e = FTS_FOLLOW then
         andthen (read_follow sys p s) (\<lambda>s.
         andthen (change p (\<lambda>e. e\<lparr>fts_instr := FTS_NOINSTR\<rparr>) s) (\<lambda>s. read_name p s))
       else read_name p s)
     else read_up sys (fts_parent t) s))"

text \<open>The children of a directory that cannot be entered are reached by its own path.\<close>

partial_function (option) reach_by_parent :: "nat \<Rightarrow> 'e fts \<Rightarrow> 'e fts run" where
  "reach_by_parent x s =
     (if x = 0 then ret s
      else andthen (ent s x) (\<lambda>e. andthen (ent s (fts_parent e)) (\<lambda>up.
        andthen (change x (\<lambda>e. e\<lparr>fts_accpath := fts_accpath up\<rparr>) s) (\<lambda>s. reach_by_parent (fts_link e) s))))"

definition drop_children :: "'e fts \<Rightarrow> 'e fts run" where
  "drop_children s = (if sp_child s \<noteq> 0 then andthen (fts_lfree (sp_child s) s) (\<lambda>s. ret (s\<lparr>sp_child := 0\<rparr>)) else ret s)"

text \<open>The current entry is a directory that is seen for the first time.\<close>

definition read_skip :: "'e sys \<Rightarrow> nat \<Rightarrow> ftsent \<Rightarrow> 'e fts \<Rightarrow> (nat \<times> 'e fts) run" where
  "read_skip sys p e s =
     (let s = (if ent_flag FTS_SYMFOLLOW e then call_ignored (close_fn sys (fts_symfd e)) s else s) in
      andthen (drop_children s) (\<lambda>s.
      andthen (fts_cycle_pop p s) (\<lambda>s.
      andthen (change p (\<lambda>e. e\<lparr>fts_info := FTS_DP\<rparr>) s) (\<lambda>s. ret (p, s)))))"

definition read_descend :: "'e sys \<Rightarrow> nat \<Rightarrow> 'e fts \<Rightarrow> (nat \<times> 'e fts) run" where
  "read_descend sys p s =
     andthen (if sp_child s \<noteq> 0 \<and> isset FTS_NAMEONLY s then drop_children (clear_opt FTS_NAMEONLY s) else ret s) (\<lambda>s.
     andthen (if sp_child s = 0 then
         andthen (fts_build sys BREAD s) (\<lambda>(child, s). ret (s\<lparr>sp_child := child\<rparr>))
       else
         andthen (fts_safe_changedir sys p None None s) (\<lambda>(failed, s).
         if failed then
           andthen (change p (\<lambda>e. e\<lparr>fts_errno := errno_v s, fts_flags := fts_flags e OR FTS_DONTCHDIR\<rparr>) s) (\<lambda>s.
             reach_by_parent (sp_child s) s)
         else ret s)) (\<lambda>s.
     if sp_child s = 0 then ret (if isset FTS_STOP s then 0 else p, s)
     else read_name (sp_child s) (s\<lparr>sp_child := 0\<rparr>)))"

definition read_dir :: "'e sys \<Rightarrow> nat \<Rightarrow> int \<Rightarrow> 'e fts \<Rightarrow> (nat \<times> 'e fts) run" where
  "read_dir sys p instr s =
     andthen (ent s p) (\<lambda>e.
     if instr = FTS_SKIP \<or> (isset FTS_XDEV s \<and> fts_dev e \<noteq> sp_dev s) then read_skip sys p e s
     else
       andthen (fts_cycle_push sys p s) (\<lambda>(failed, s).
       if failed then
         andthen (change p (\<lambda>e. e\<lparr>fts_errno := (case errno_v s of None \<Rightarrow> Some ENOMEM | e \<Rightarrow> e), fts_info := FTS_ERR\<rparr>)
           (set_opt FTS_STOP s)) (\<lambda>s. ret (p, s))
       else read_descend sys p s))"

definition fts_read :: "'e sys \<Rightarrow> 'e fts \<Rightarrow> (nat \<times> 'e fts) run" where
  "fts_read sys s =
     (if sp_cur s = 0 \<or> isset FTS_STOP s then ret (0, s)
      else
        let p = sp_cur s in
        andthen (ent s p) (\<lambda>e.
        let instr = fts_instr e in
        andthen (change p (\<lambda>e. e\<lparr>fts_instr := FTS_NOINSTR\<rparr>) s) (\<lambda>s.
        if instr = FTS_AGAIN then
          andthen (fts_stat sys p False None s) (\<lambda>(info, s).
          andthen (change p (\<lambda>e. e\<lparr>fts_info := info\<rparr>) s) (\<lambda>s. ret (p, s)))
        else if instr = FTS_FOLLOW \<and> fts_info e \<in> {FTS_SL, FTS_SLNONE} then
          andthen (read_follow sys p s) (\<lambda>s. ret (p, s))
        else if fts_info e = FTS_D then read_dir sys p instr s
        else read_next sys p s)))"

section \<open>Steering\<close>

definition fts_set :: "nat \<Rightarrow> int \<Rightarrow> 'e fts \<Rightarrow> (int \<times> 'e fts) run" where
  "fts_set p instr s =
     (if instr \<noteq> 0 \<and> instr \<noteq> FTS_AGAIN \<and> instr \<noteq> FTS_FOLLOW \<and> instr \<noteq> FTS_SKIP \<and> instr \<noteq> FTS_NOINSTR
      then ret (1, set_errno (Some EINVAL) s)
      else andthen (change p (\<lambda>e. e\<lparr>fts_instr := instr\<rparr>) s) (\<lambda>s. ret (0, s)))"

definition children_type :: "bool \<Rightarrow> build_type" where
  "children_type nameonly = (if nameonly then BNAMES else BCHILD)"

text \<open>
  The argument is 0 or \<open>FTS_NAMEONLY\<close>.  A root with a relative path is read in the directory
  the traversal was opened in, to which the code comes back.
\<close>

definition children_build :: "'e sys \<Rightarrow> bool \<Rightarrow> ftsent \<Rightarrow> 'e fts \<Rightarrow> (nat \<times> 'e fts) run" where
  "children_build sys nameonly cur s =
     andthen (if fts_level cur = FTS_ROOTLEVEL then path_string s (fts_accpath cur) else ret []) (\<lambda>path.
     if fts_level cur = FTS_ROOTLEVEL \<and> take 1 path \<noteq> ''/'' \<and> \<not> isset FTS_NOCHDIR s then
       case call (open_fn sys ''.'' [O_CLOEXEC]) s of
         (None, s) \<Rightarrow> ret (0, s)
       | (Some cwd, s) \<Rightarrow>
           andthen (fts_build sys (children_type nameonly) s) (\<lambda>(child, s).
           let s = s\<lparr>sp_child := child\<rparr> in
           case call (fchdir_fn sys cwd) s of
             (None, s) \<Rightarrow> ret (0, call_ignored (close_fn sys cwd) s)
           | (Some _, s) \<Rightarrow> ret (child, call_ignored (close_fn sys cwd) s))
     else
       andthen (fts_build sys (children_type nameonly) s) (\<lambda>(child, s). ret (child, s\<lparr>sp_child := child\<rparr>)))"

definition fts_children :: "'e sys \<Rightarrow> u32 \<Rightarrow> 'e fts \<Rightarrow> (nat \<times> 'e fts) run" where
  "fts_children sys instr s =
     (if instr \<noteq> 0 \<and> instr \<noteq> FTS_NAMEONLY then ret (0, set_errno (Some EINVAL) s)
      else if sp_cur s = 0 \<or> isset FTS_STOP s then ret (0, s)
      else
        andthen (ent s (sp_cur s)) (\<lambda>cur.
        if fts_info cur = FTS_INIT then ret (fts_link cur, s)
        else if fts_info cur \<noteq> FTS_D then ret (0, set_errno None s)
        else
          andthen (if sp_child s \<noteq> 0 then fts_lfree (sp_child s) s else ret s) (\<lambda>s.
          let s = (if instr = FTS_NAMEONLY then set_opt FTS_NAMEONLY s else s) in
          andthen (fts_cycle_push sys (sp_cur s) s) (\<lambda>(failed, s).
          if failed then ret (0, set_errno (Some ENOMEM) s)
          else children_build sys (instr = FTS_NAMEONLY) cur s))))"

end
