(* ===== verification/Fts_Table.thy ===== *)
theory Fts_Table
  imports Fts "HOL-Library.Multiset"
begin

text \<open>
  The parts of \<^verbatim>\<open>src/fts.c\<close> that stand by themselves: rounding sizes up, the path buffer, and the
  table of the directories that are being visited, as a map.
\<close>

section \<open>Rounding up\<close>

definition smeared :: "nat \<Rightarrow> u64 \<Rightarrow> u64 \<Rightarrow> bool" where
  "smeared k x y \<longleftrightarrow> (\<forall>n. bit y n \<longleftrightarrow> (\<exists>m \<ge> n. m < n + k \<and> bit x m))"

lemma smeared_1: "smeared 1 x x"
  unfolding smeared_def by (metis less_add_one less_Suc_eq_le Suc_eq_plus1 le_antisym order_refl)

lemma smeared_double:
  assumes "smeared k x y"
  shows "smeared (2 * k) x (y OR drop_bit k y)"
  unfolding smeared_def
proof
  fix n
  have "bit (y OR drop_bit k y) n \<longleftrightarrow> bit y n \<or> bit y (k + n)"
    by (simp add: bit_or_iff bit_drop_bit_eq)
  also have "\<dots> \<longleftrightarrow> (\<exists>m \<ge> n. m < n + 2 * k \<and> bit x m)"
  proof
    assume "bit y n \<or> bit y (k + n)"
    then show "\<exists>m \<ge> n. m < n + 2 * k \<and> bit x m" using assms unfolding smeared_def by fastforce
  next
    assume "\<exists>m \<ge> n. m < n + 2 * k \<and> bit x m"
    then obtain m where m: "n \<le> m" "m < n + 2 * k" "bit x m" by blast
    show "bit y n \<or> bit y (k + n)"
    proof (cases "m < n + k")
      case True
      with m assms show ?thesis unfolding smeared_def by blast
    next
      case False
      with m have "k + n \<le> m" "m < k + n + k" by simp_all
      with m assms show ?thesis unfolding smeared_def by blast
    qed
  qed
  finally show "bit (y OR drop_bit k y) n \<longleftrightarrow> (\<exists>m \<ge> n. m < n + 2 * k \<and> bit x m)" .
qed

lemma smeared_mask:
  assumes y: "smeared 64 x y" and h: "2 ^ h \<le> unat x" "unat x < 2 ^ Suc h"
  shows "y = mask (Suc h)"
proof (rule bit_word_eqI)
  fix n assume n: "n < LENGTH(64)"
  have bits: "bit x m \<longleftrightarrow> odd (unat x div 2 ^ m)" for m
  proof -
    have "bit x m \<longleftrightarrow> bit (unat x) m" by (simp add: bit_unsigned_iff)
    then show ?thesis by (simp add: bit_iff_odd)
  qed
  have "unat x div 2 ^ h = 1" using h by (intro div_nat_eqI) simp_all
  then have top: "bit x h" by (simp add: bits)
  have below: "m \<le> h" if "bit x m" for m
  proof (rule ccontr)
    assume "\<not> m \<le> h"
    then have "(2 :: nat) ^ Suc h \<le> 2 ^ m" by (intro power_increasing) simp_all
    then have "unat x div 2 ^ m = 0" using h(2) by simp
    with that bits show False by simp
  qed
  have "h < 64" using top by (auto dest: bit_imp_le_length)
  then have "bit y n \<longleftrightarrow> n \<le> h"
    using y top below n unfolding smeared_def by (metis le_trans add.commute trans_less_add1)
  then show "bit y n \<longleftrightarrow> bit (mask (Suc h) :: u64) n" using n by (auto simp: bit_mask_iff)
qed

lemma smear_steps:
  "fts_pow2 x = (if x = 0 then 1 else (let y = x - 1 in
     let y = y OR drop_bit 1 y in let y = y OR drop_bit 2 y in let y = y OR drop_bit 4 y in
     let y = y OR drop_bit 8 y in let y = y OR drop_bit 16 y in y OR drop_bit 32 y) + 1)"
  by (simp add: fts_pow2_def Let_def)

lemma smear_64:
  "smeared 64 x (let y = x in
     let y = y OR drop_bit 1 y in let y = y OR drop_bit 2 y in let y = y OR drop_bit 4 y in
     let y = y OR drop_bit 8 y in let y = y OR drop_bit 16 y in y OR drop_bit 32 y)"
  unfolding Let_def
  using smeared_double [OF smeared_double [OF smeared_double [OF smeared_double [OF smeared_double [OF smeared_double
    [OF smeared_1]]]]], of x] by simp

lemma mask_Suc_plus: "h < 64 \<Longrightarrow> unat (mask (Suc h) + 1 :: u64) = (if h = 63 then 0 else 2 ^ Suc h)"
proof -
  assume "h < 64"
  have "(mask (Suc h) + 1 :: u64) = 2 ^ Suc h" by (simp add: mask_eq_exp_minus_1)
  moreover have "unat (2 ^ Suc h :: u64) = 2 ^ Suc h" if "h < 63"
  proof -
    have "(2 :: nat) ^ Suc h < 2 ^ 64" using that by (intro power_strict_increasing) simp_all
    from unat_of_nat_u64 [OF this] show ?thesis by simp
  qed
  moreover have "(2 ^ Suc 63 :: u64) = 0" by simp
  ultimately show ?thesis using \<open>h < 64\<close> by (cases "h = 63") auto
qed

text \<open>The next power of two, which wraps to 0 beyond the last one.\<close>

lemma fts_pow2_value:
  assumes x: "0 < x"
  shows "if unat x \<le> 2 ^ 63 then \<exists>k. unat (fts_pow2 x) = 2 ^ k \<and> unat x \<le> 2 ^ k \<and> 2 ^ k < 2 * unat x
    else fts_pow2 x = 0"
proof (cases "x = 1")
  case True
  then have "fts_pow2 x = 1" by (simp add: fts_pow2_def Let_def)
  with True show ?thesis by (auto intro: exI [of _ 0])
next
  case False
  define v where "v = x - 1"
  have "unat x \<noteq> 0" using x by (simp add: word_less_nat_alt)
  moreover have "unat x \<noteq> 1" using False by (auto simp: word_unat_eq_iff)
  moreover have "unat v = unat x - 1" using x by (simp add: v_def unat_minus_one)
  ultimately have v: "unat v = unat x - 1" "0 < unat v" by linarith+
  from ex_power_ivl1 [of 2 "unat v"] v(2) obtain h where h: "2 ^ h \<le> unat v" "unat v < 2 ^ Suc h" by auto
  have "h < 64"
  proof (rule ccontr)
    assume "\<not> h < 64"
    then have "(2 :: nat) ^ 64 \<le> 2 ^ h" by (intro power_increasing) simp_all
    with h(1) u64_less [of v] show False by linarith
  qed
  have "fts_pow2 x = mask (Suc h) + 1"
    using x smeared_mask [OF smear_64 [of v] h] by (simp add: smear_steps Let_def v_def)
  then have val: "unat (fts_pow2 x) = (if h = 63 then 0 else 2 ^ Suc h)"
    using mask_Suc_plus [OF \<open>h < 64\<close>] by simp
  show ?thesis
  proof (cases "h = 63")
    case True
    then have "2 ^ 63 < unat x" using h(1) v by simp
    moreover have "fts_pow2 x = 0" using val True by (simp add: unat_eq_zero)
    ultimately show ?thesis by simp
  next
    case False
    then have "(2 :: nat) ^ Suc h \<le> 2 ^ 63" using \<open>h < 64\<close> by (intro power_increasing) simp_all
    moreover have "unat x \<le> 2 ^ Suc h" using h(2) v by linarith
    moreover have "2 ^ Suc h < 2 * unat x" using h(1) v by simp
    ultimately show ?thesis using val False by (auto intro!: exI [of _ "Suc h"])
  qed
qed

lemma call_keeps: "call f s = (r, s') \<Longrightarrow> s' = s\<lparr>env := env s', errno_v := errno_v s'\<rparr>"
  by (auto simp: call_def split: prod.splits sum.splits)

lemma palloc_room:
  assumes r: "fts_palloc sys need s = ret (False, s')" and need: "unat need + 256 \<le> 2 ^ 63"
  shows "\<exists>pb k. bufs s' (sp_path s') = Some pb \<and> buf_size pb = 2 ^ k \<and> unat need + 256 \<le> 2 ^ k
    \<and> 2 ^ k < 2 * (unat need + 256) \<and> sp_pathlen s' = fts_length_cap (of_nat (2 ^ k))
    \<and> (\<forall>old. sp_path s \<noteq> 0 \<longrightarrow> bufs s (sp_path s) = Some old \<longrightarrow> buf_chars pb = buf_chars old)"
proof -
  have u: "unat (need + 256) = unat need + 256"
    using unat_add_small [of need 256] need by simp
  then have "0 < need + 256" by (simp add: word_less_nat_alt)
  from fts_pow2_value [OF this] need u obtain k
    where k: "unat (fts_pow2 (need + 256)) = 2 ^ k" "unat need + 256 \<le> 2 ^ k" "2 ^ k < 2 * (unat need + 256)" by auto
  have size: "of_nat (2 ^ k) = fts_pow2 (need + 256)" by (simp flip: k(1))
  have le: "\<not> need > SIZE_MAX - 256" using need by (simp add: word_less_nat_alt unat_SIZE_MAX_minus)
  from r show ?thesis
    unfolding fts_palloc_def if_not_P [OF le] Let_def
    using k(2,3) by (auto elim!: andthenE dest!: call_keeps split: option.splits prod.splits if_splits
        simp: buf_def k(1) size [simplified] intro!: exI [of _ k])
qed

section \<open>The table of directories\<close>

text \<open>
  A table with a power of two of lists: every entry is in the list of its hash, and no key
  is there twice.
\<close>

type_synonym dir_map = "u64 \<times> u64 \<rightharpoonup> nat"

fun dir_key :: "u64 \<times> u64 \<times> nat \<Rightarrow> u64 \<times> u64" where
  "dir_key (d, i, p) = (d, i)"

definition bucket_map :: "(u64 \<times> u64 \<times> nat) list \<Rightarrow> dir_map" where
  "bucket_map es = map_of (map (\<lambda>(d, i, p). ((d, i), p)) es)"

definition bucket_ok :: "(u64 \<times> u64 \<times> nat) list \<Rightarrow> bool" where
  "bucket_ok es \<longleftrightarrow> distinct (map dir_key es) \<and> (\<forall>(d, i, p) \<in> set es. p \<noteq> 0)"

definition table_ok :: "cycle_state \<Rightarrow> bool" where
  "table_ok cs \<longleftrightarrow> nbuckets cs \<noteq> 0 \<and> (\<exists>bs. buckets cs = Some bs \<and> length bs = unat (nbuckets cs)
     \<and> (\<forall>es \<in> set bs. bucket_ok es))"

definition table_map :: "cycle_state \<Rightarrow> dir_map" where
  "table_map cs = (\<lambda>(d, i). case buckets cs of None \<Rightarrow> None
     | Some bs \<Rightarrow> bucket_map (bs ! unat (cycle_hash d i (nbuckets cs))) (d, i))"

lemma cycle_hash_inside: "n \<noteq> 0 \<Longrightarrow> unat (cycle_hash d i n) < unat n"
proof -
  assume n: "n \<noteq> 0"
  have "cycle_hash d i n \<le> n - 1" using n by (simp add: cycle_hash_def Let_def word_and_le1)
  then have "unat (cycle_hash d i n) \<le> unat n - 1" using n by (simp add: word_le_nat_alt unat_minus_one)
  moreover have "0 < unat n" using n by (simp add: unat_gt_0)
  ultimately show ?thesis by linarith
qed

lemma find_bucket: "find (cycle_is d i) es = map_option (\<lambda>p. (d, i, p)) (bucket_map es (d, i))"
  by (induction es) (auto simp: bucket_map_def)

lemma unlink_bucket:
  "distinct (map dir_key es) \<Longrightarrow> bucket_map (cycle_unlink d i es) = (bucket_map es)((d, i) := None)"
proof (induction es)
  case (Cons e es)
  obtain d' i' p where e: "e = (d', i', p)" by (cases e)
  have "bucket_map es (d', i') = None" using Cons.prems
    by (force simp: e bucket_map_def map_of_eq_None_iff)
  with Cons show ?case by (auto simp: e bucket_map_def fun_eq_iff)
qed (auto simp: bucket_map_def)

lemma unlink_subset: "set (cycle_unlink d i es) \<subseteq> set es"
  by (induction es) auto

lemma unlink_distinct:
  "distinct (map dir_key es) \<Longrightarrow> distinct (map dir_key (cycle_unlink d i es))"
proof (induction es)
  case (Cons e es)
  have "dir_key ` set (cycle_unlink d i es) \<subseteq> dir_key ` set es"
    by (rule image_mono) (rule unlink_subset)
  with Cons show ?case by (auto dest: subsetD)
qed simp

lemma unlink_ok: "bucket_ok es \<Longrightarrow> bucket_ok (cycle_unlink d i es)"
  using unlink_distinct [of es d i] unlink_subset [of d i es] by (auto simp: bucket_ok_def)

text \<open>An update of one list of the table.\<close>

lemma table_update:
  assumes ok: "table_ok cs" and bs: "buckets cs = Some bs"
    and es: "bucket_ok es"
    and m: "bucket_map es = (bucket_map (bs ! unat (cycle_hash d i (nbuckets cs))))((d, i) := v)"
  shows "table_ok (cs\<lparr>buckets := Some (bs[unat (cycle_hash d i (nbuckets cs)) := es])\<rparr>)
    \<and> table_map (cs\<lparr>buckets := Some (bs[unat (cycle_hash d i (nbuckets cs)) := es])\<rparr>) = (table_map cs)((d, i) := v)"
proof
  let ?k = "unat (cycle_hash d i (nbuckets cs))"
  have k: "?k < length bs" using ok bs cycle_hash_inside by (auto simp: table_ok_def)
  show "table_ok (cs\<lparr>buckets := Some (bs[?k := es])\<rparr>)"
    using ok bs es set_update_subset_insert [of bs ?k es] by (auto simp: table_ok_def)
  show "table_map (cs\<lparr>buckets := Some (bs[?k := es])\<rparr>) = (table_map cs)((d, i) := v)"
    using k m bs by (auto simp: table_map_def fun_eq_iff nth_list_update)
qed

lemma table_lookup:
  assumes "table_ok cs"
  shows "cycle_lookup cs d i = (case table_map cs (d, i) of None \<Rightarrow> 0 | Some p \<Rightarrow> p)"
  using assms by (auto simp: cycle_lookup_def table_map_def table_ok_def find_bucket split: option.splits)

lemma table_remove:
  assumes "table_ok cs"
  shows "table_ok (cycle_remove d i cs) \<and> table_map (cycle_remove d i cs) = (table_map cs)((d, i) := None)"
proof -
  from assms obtain bs where bs: "buckets cs = Some bs" "length bs = unat (nbuckets cs)"
    and all: "\<forall>es \<in> set bs. bucket_ok es"
    and n: "nbuckets cs \<noteq> 0" by (auto simp: table_ok_def)
  let ?es = "bs ! unat (cycle_hash d i (nbuckets cs))"
  have "?es \<in> set bs" using cycle_hash_inside [OF n] bs(2) by simp
  with all have es: "bucket_ok ?es" by blast
  then have "distinct (map dir_key ?es)" by (simp add: bucket_ok_def)
  from table_update [OF assms bs(1) unlink_ok [OF es] unlink_bucket [OF this]]
  show ?thesis by (simp add: cycle_remove_def bs(1) Let_def)
qed

lemma table_insert:
  assumes ok: "table_ok (sp_cycles s)" and p: "p \<noteq> 0" and r: "cycle_insert sys d i p s = (failed, s')"
  shows "table_ok (sp_cycles s') \<and> table_map (sp_cycles s') =
      (if failed \<or> table_map (sp_cycles s) (d, i) \<noteq> None then table_map (sp_cycles s) else (table_map (sp_cycles s))((d, i) \<mapsto> p))
    \<and> (failed \<longrightarrow> table_map (sp_cycles s) (d, i) = None)"
proof -
  let ?cs = "sp_cycles s"
  from ok obtain bs where bs: "buckets ?cs = Some bs" "length bs = unat (nbuckets ?cs)"
    and all: "\<forall>es \<in> set bs. bucket_ok es"
    and n: "nbuckets ?cs \<noteq> 0" by (auto simp: table_ok_def)
  let ?k = "unat (cycle_hash d i (nbuckets ?cs))"
  let ?es = "bs ! ?k"
  have "?es \<in> set bs" using cycle_hash_inside [OF n] bs(2) by simp
  with all have es: "bucket_ok ?es" by blast
  have found: "find (cycle_is d i) ?es \<noteq> None \<longleftrightarrow> table_map ?cs (d, i) \<noteq> None"
    by (simp add: find_bucket table_map_def bs(1))
  show ?thesis
  proof (cases "find (cycle_is d i) ?es \<noteq> None")
    case True
    then have "failed = False" "s' = s" using r bs by (auto simp: cycle_insert_def Let_def)
    with True found ok show ?thesis by simp
  next
    case False
    obtain m s1 where call: "call (malloc_fn sys 32) s = (m, s1)" by (cases "call (malloc_fn sys 32) s")
    have same: "sp_cycles s1 = ?cs" by (subst call_keeps [OF call]) simp
    show ?thesis
    proof (cases m)
      case None
      then have "failed" "s' = s1" using r bs False call by (auto simp: cycle_insert_def Let_def)
      with False found ok same show ?thesis by simp
    next
      case (Some u)
      define s2 where "s2 = s1\<lparr>sp_cycles := ?cs\<lparr>buckets := Some (bs[?k := (d, i, p) # ?es])\<rparr>\<rparr>"
      have "cycle_insert sys d i p s = (False, s2)"
        unfolding cycle_insert_def Let_def s2_def using bs(1) False call Some same by simp
      with r have "\<not> failed" and s': "s' = s2" by simp_all
      have "(d, i) \<notin> set (map dir_key ?es)"
        using False by (auto simp: find_None_iff)
      with es p have "bucket_ok ((d, i, p) # ?es)" by (simp add: bucket_ok_def)
      then have "table_ok (sp_cycles s') \<and> table_map (sp_cycles s') = (table_map ?cs)((d, i) := Some p)"
        using table_update [OF ok bs(1), of "(d, i, p) # ?es" d i "Some p"]
        by (simp add: s' s2_def bucket_map_def)
      with False found \<open>\<not> failed\<close> show ?thesis by simp
    qed
  qed
qed

text \<open>The table is all of the stream that an insertion changes.\<close>

lemma cycle_init_keeps:
  assumes "cycle_init sys s = (f, s')"
  shows "s' = s\<lparr>sp_cycles := sp_cycles s', env := env s', errno_v := errno_v s'\<rparr>"
proof -
  obtain r t where call: "call (malloc_fn sys 512) s = (r, t)" by (cases "call (malloc_fn sys 512) s")
  then obtain c where "s' = t\<lparr>sp_cycles := c\<rparr>"
    using assms by (cases r) (auto simp: cycle_init_def)
  then show ?thesis by (simp, subst call_keeps [OF call]) simp
qed

lemma cycle_insert_keeps:
  assumes "cycle_insert sys d i p s = (f, s')"
  shows "s' = s\<lparr>sp_cycles := sp_cycles s', env := env s', errno_v := errno_v s'\<rparr>"
proof -
  obtain f1 s1 where s1: "(if buckets (sp_cycles s) = None then cycle_init sys s else (False, s)) = (f1, s1)"
    by (cases "if buckets (sp_cycles s) = None then cycle_init sys s else (False, s)")
  have k1: "s1 = s\<lparr>sp_cycles := sp_cycles s1, env := env s1, errno_v := errno_v s1\<rparr>"
    using s1 cycle_init_keeps [of sys s f1 s1] by (simp split: if_splits)
  obtain r t where call: "call (malloc_fn sys 32) s1 = (r, t)" by (cases "call (malloc_fn sys 32) s1")
  have t: "t = s\<lparr>sp_cycles := sp_cycles t, env := env t, errno_v := errno_v t\<rparr>"
    by (subst call_keeps [OF call], subst k1) (simp add: call_keeps [OF call, THEN arg_cong, of sp_cycles])
  have "s' = s1 \<or> s' = t \<or> (\<exists>c. s' = t\<lparr>sp_cycles := c\<rparr>)"
    using assms by (auto simp: cycle_insert_def s1 call Let_def split: option.splits if_splits)
  then show ?thesis
  proof (elim disjE exE)
    fix c assume "s' = t\<lparr>sp_cycles := c\<rparr>"
    then show ?thesis by (simp, subst t) simp
  qed (use k1 t in simp_all)
qed

lemma init_table:
  "cycle_init sys s = (False, s') \<Longrightarrow> table_ok (sp_cycles s') \<and> table_map (sp_cycles s') = Map.empty"
proof -
  assume i: "cycle_init sys s = (False, s')"
  then have s': "sp_cycles s' = \<lparr>buckets = Some (replicate 64 []), nbuckets = 64\<rparr>"
    by (auto simp: cycle_init_def split: prod.splits option.splits)
  have "(replicate 64 [] :: (u64 \<times> u64 \<times> nat) list list) ! unat (cycle_hash d i 64) = []" for d i
    using cycle_hash_inside [of 64 d i] by simp
  then show ?thesis unfolding s' by (simp add: table_ok_def bucket_ok_def table_map_def bucket_map_def fun_eq_iff)
qed

end
