(* ===== verification/C_Sort.thy ===== *)
theory C_Sort
  imports Main "HOL-Library.Multiset"
begin

text \<open>
  What \<open>qsort\<close> promises, and a sort that keeps the promise.  The components that sort take \<open>qsort\<close> as a
  parameter.
\<close>

text \<open>For a comparison that is a total preorder on the items: the same items, in order.\<close>

definition sorts :: "(('a \<Rightarrow> 'a \<Rightarrow> int) \<Rightarrow> 'a list \<Rightarrow> 'a list) \<Rightarrow> bool" where
  "sorts q \<longleftrightarrow> (\<forall>cmp xs.
     (\<forall>x \<in> set xs. \<forall>y \<in> set xs. cmp x y \<le> 0 \<or> cmp y x \<le> 0) \<longrightarrow>
     (\<forall>x \<in> set xs. \<forall>y \<in> set xs. \<forall>z \<in> set xs. cmp x y \<le> 0 \<longrightarrow> cmp y z \<le> 0 \<longrightarrow> cmp x z \<le> 0) \<longrightarrow>
     mset (q cmp xs) = mset xs \<and> sorted_wrt (\<lambda>x y. cmp x y \<le> 0) (q cmp xs))"

fun insort_by :: "('a \<Rightarrow> 'a \<Rightarrow> int) \<Rightarrow> 'a \<Rightarrow> 'a list \<Rightarrow> 'a list" where
  "insort_by f x [] = [x]"
| "insort_by f x (y # ys) = (if f x y \<le> 0 then x # y # ys else y # insort_by f x ys)"

lemma mset_insort: "mset (insort_by f x xs) = add_mset x (mset xs)"
  by (induction xs) simp_all

lemma set_insort: "set (insort_by f x xs) = insert x (set xs)"
  using mset_insort [of f x xs] by (metis set_mset_add_mset_insert set_mset_mset)

definition orders :: "('a \<Rightarrow> 'a \<Rightarrow> int) \<Rightarrow> 'a set \<Rightarrow> bool" where
  "orders f A \<longleftrightarrow> (\<forall>x \<in> A. \<forall>y \<in> A. f x y \<le> 0 \<or> f y x \<le> 0)
     \<and> (\<forall>x \<in> A. \<forall>y \<in> A. \<forall>z \<in> A. f x y \<le> 0 \<longrightarrow> f y z \<le> 0 \<longrightarrow> f x z \<le> 0)"

lemma orders_subset: "orders f B \<Longrightarrow> A \<subseteq> B \<Longrightarrow> orders f A"
  unfolding orders_def by (meson subsetD)

lemma orders_trans: "orders f A \<Longrightarrow> x \<in> A \<Longrightarrow> y \<in> A \<Longrightarrow> z \<in> A \<Longrightarrow> f x y \<le> 0 \<Longrightarrow> f y z \<le> 0 \<Longrightarrow> f x z \<le> 0"
  unfolding orders_def by blast

lemma orders_total: "orders f A \<Longrightarrow> x \<in> A \<Longrightarrow> y \<in> A \<Longrightarrow> \<not> f x y \<le> 0 \<Longrightarrow> f y x \<le> 0"
  unfolding orders_def by blast

lemma sorted_insort:
  "sorted_wrt (\<lambda>x y. f x y \<le> 0) xs \<Longrightarrow> orders f (insert x (set xs)) \<Longrightarrow> sorted_wrt (\<lambda>x y. f x y \<le> 0) (insort_by f x xs)"
proof (induction xs)
  case (Cons y ys)
  show ?case
  proof (cases "f x y \<le> 0")
    case True
    have "f x z \<le> 0" if "z \<in> set ys" for z
      by (rule orders_trans [OF Cons.prems(2), of x y z]) (use Cons.prems(1) True that in simp_all)
    with True Cons.prems(1) show ?thesis by simp
  next
    case False
    have "f y x \<le> 0" by (rule orders_total [OF Cons.prems(2)]) (use False in simp_all)
    moreover have "sorted_wrt (\<lambda>x y. f x y \<le> 0) (insort_by f x ys)"
      by (rule Cons.IH) (use Cons.prems(1) orders_subset [OF Cons.prems(2)] in auto)
    ultimately show ?thesis using False Cons.prems(1) by (simp add: set_insort)
  qed
qed simp

lemma sorted_insorts:
  "sorted_wrt (\<lambda>x y. f x y \<le> 0) zs \<Longrightarrow> orders f (set xs \<union> set zs) \<Longrightarrow>
   sorted_wrt (\<lambda>x y. f x y \<le> 0) (fold (insort_by f) xs zs)"
proof (induction xs arbitrary: zs)
  case (Cons x xs)
  have "sorted_wrt (\<lambda>x y. f x y \<le> 0) (insort_by f x zs)"
    by (rule sorted_insort [OF Cons.prems(1) orders_subset [OF Cons.prems(2)]]) auto
  moreover have "orders f (set xs \<union> set (insort_by f x zs))"
    by (rule orders_subset [OF Cons.prems(2)]) (auto simp: set_insort)
  ultimately show ?case using Cons.IH by simp
qed simp

lemma insorts_sort: "sorts (\<lambda>f xs. fold (insort_by f) xs [])"
  unfolding sorts_def
proof (intro allI impI conjI)
  have "mset (fold (insort_by f) xs zs) = mset xs + mset zs" for f :: "'a \<Rightarrow> 'a \<Rightarrow> int" and xs zs
    by (induction xs arbitrary: zs) (simp_all add: mset_insort)
  from this [of _ _ "[]"] show "mset (fold (insort_by f) xs []) = mset xs" for f :: "'a \<Rightarrow> 'a \<Rightarrow> int" and xs by simp
  fix f :: "'a \<Rightarrow> 'a \<Rightarrow> int" and xs :: "'a list"
  assume "\<forall>x \<in> set xs. \<forall>y \<in> set xs. f x y \<le> 0 \<or> f y x \<le> 0"
    and "\<forall>x \<in> set xs. \<forall>y \<in> set xs. \<forall>z \<in> set xs. f x y \<le> 0 \<longrightarrow> f y z \<le> 0 \<longrightarrow> f x z \<le> 0"
  then have "orders f (set xs \<union> set [])"
    unfolding orders_def list.set Un_empty_right by (rule conjI)
  from sorted_insorts [OF _ this] show "sorted_wrt (\<lambda>x y. f x y \<le> 0) (fold (insort_by f) xs [])" by simp
qed

end
