(* ===== verification/Fts_Links.thy ===== *)
theory Fts_Links
  imports Fts_Table C_Sort
begin

text \<open>Lists of entries through their links, and sorting them.\<close>

section \<open>Calls keep the stream\<close>

lemma callE:
  assumes "call f s = (r, s')"
  obtains e er where "s' = s\<lparr>env := e, errno_v := er\<rparr>" and "r \<noteq> None \<longrightarrow> er = errno_v s"
    and "r \<noteq> None \<longrightarrow> f (env s) = (Inl (the r), e)"
  using assms by (auto simp: call_def split: prod.splits sum.splits)

section \<open>Lists\<close>

fun linked_ents :: "(nat \<Rightarrow> ftsent option) \<Rightarrow> nat \<Rightarrow> nat list \<Rightarrow> bool" where
  "linked_ents h p [] \<longleftrightarrow> p = 0"
| "linked_ents h p (q # qs) \<longleftrightarrow> p = q \<and> q \<noteq> 0 \<and> (\<exists>e. h q = Some e \<and> linked_ents h (fts_link e) qs)"

lemma linked_ents_cong:
  "linked_ents h p ps \<Longrightarrow> (\<And>q. q \<in> set ps \<Longrightarrow> h' q = h q) \<Longrightarrow> linked_ents h' p ps"
  by (induction ps arbitrary: p) auto

lemma linked_ents_alive: "linked_ents h p ps \<Longrightarrow> q \<in> set ps \<Longrightarrow> q \<noteq> 0 \<and> (\<exists>e. h q = Some e)"
  by (induction ps arbitrary: p) auto

lemma linked_ents_unique: "linked_ents h p ps \<Longrightarrow> linked_ents h p qs \<Longrightarrow> ps = qs"
proof (induction ps arbitrary: p qs)
  case (Cons a ps)
  then show ?case by (cases qs) auto
qed (auto elim: linked_ents.elims)

lemma linked_ents_suffix: "linked_ents h p (xs @ q # ys) \<Longrightarrow> linked_ents h q (q # ys)"
  by (induction xs arbitrary: p) auto

lemma linked_ents_distinct: "linked_ents h p ps \<Longrightarrow> distinct ps"
proof (induction ps arbitrary: p)
  case (Cons q qs)
  then obtain e where e: "h q = Some e" "linked_ents h (fts_link e) qs" by auto
  have "q \<notin> set qs"
  proof
    assume "q \<in> set qs"
    then obtain xs ys where qs: "qs = xs @ q # ys" by (meson split_list)
    have "linked_ents h q (q # ys)" using e(2) linked_ents_suffix unfolding qs by fast
    moreover have "linked_ents h q (q # qs)" using Cons.prems by auto
    ultimately have "q # ys = q # qs" by (rule linked_ents_unique)
    with qs show False by simp
  qed
  with Cons.IH [OF e(2)] show ?case by simp
qed simp

declare collect_links.simps [code] fts_lfree.simps [code]

lemma collect_links_linked: "linked_ents (ents s) p ps \<Longrightarrow> collect_links p s = ret ps"
proof (induction ps arbitrary: p)
  case Nil
  then show ?case by (subst collect_links.simps) simp
next
  case (Cons q qs)
  then show ?case by (subst collect_links.simps) (auto simp: ent_def)
qed

lemma fts_lfree_linked:
  "linked_ents (ents s) p ps \<Longrightarrow> fts_lfree p s = ret (s\<lparr>ents := (\<lambda>q. if q \<in> set ps then None else ents s q)\<rparr>)"
proof (induction ps arbitrary: p s)
  case Nil
  then show ?case by (subst fts_lfree.simps) simp
next
  case (Cons q qs)
  then obtain e where e: "ents s q = Some e" "linked_ents (ents s) (fts_link e) qs" "p = q" "q \<noteq> 0" by auto
  define s1 where "s1 = s\<lparr>ents := (ents s)(q := None)\<rparr>"
  have "q \<notin> set qs" using linked_ents_distinct [OF Cons.prems] by simp
  then have "linked_ents (ents s1) (fts_link e) qs"
    using e(2) by (auto simp: s1_def intro: linked_ents_cong)
  from Cons.IH [OF this] e show ?case
    by (subst fts_lfree.simps) (auto simp: ent_def free_ent_def s1_def fun_eq_iff)
qed

section \<open>Sorting\<close>

text \<open>Entries that are the same apart from their links.\<close>

definition same_but_links :: "(nat \<Rightarrow> ftsent option) \<Rightarrow> (nat \<Rightarrow> ftsent option) \<Rightarrow> bool" where
  "same_but_links h h' \<longleftrightarrow> (\<forall>p. map_option (fts_link_update (\<lambda>_. 0)) (h' p) = map_option (fts_link_update (\<lambda>_. 0)) (h p))"

lemma same_but_links_refl [simp]: "same_but_links h h"
  by (simp add: same_but_links_def)

lemma same_but_links_trans: "same_but_links h h' \<Longrightarrow> same_but_links h' h'' \<Longrightarrow> same_but_links h h''"
  by (simp add: same_but_links_def)

lemma same_but_links_alive: "same_but_links h h' \<Longrightarrow> h p = Some e \<Longrightarrow> \<exists>e'. h' p = Some e'"
  unfolding same_but_links_def by (metis map_option_eq_Some)

lemma change_link:
  assumes "ents s p = Some e"
  shows "change p (\<lambda>e. e\<lparr>fts_link := q\<rparr>) s = ret (s\<lparr>ents := (ents s)(p \<mapsto> e\<lparr>fts_link := q\<rparr>)\<rparr>)"
    and "same_but_links (ents s) ((ents s)(p \<mapsto> e\<lparr>fts_link := q\<rparr>))"
  using assms by (simp_all add: change_def ent_def same_but_links_def)

lemma relink_linked:
  assumes "ps \<noteq> []" and "distinct ps" and "\<forall>p \<in> set ps. p \<noteq> 0 \<and> (\<exists>e. ents s p = Some e)"
  shows "\<exists>h. relink ps s = ret (s\<lparr>ents := h\<rparr>) \<and> linked_ents h (hd ps) ps \<and> same_but_links (ents s) h
    \<and> (\<forall>q. q \<notin> set ps \<longrightarrow> h q = ents s q)"
  using assms
proof (induction ps s rule: relink.induct)
  case (2 p s)
  then obtain e where e: "ents s p = Some e" "p \<noteq> 0" by auto
  then show ?case
    using change_link [OF e(1), of 0] by (intro exI [of _ "(ents s)(p \<mapsto> e\<lparr>fts_link := 0\<rparr>)"]) (simp add: fun_upd_def)
next
  case (3 p q ps s)
  then obtain e where e: "ents s p = Some e" "p \<noteq> 0" by auto
  define h1 where "h1 = (ents s)(p \<mapsto> e\<lparr>fts_link := q\<rparr>)"
  have "\<exists>h. relink (q # ps) (s\<lparr>ents := h1\<rparr>) = ret (s\<lparr>ents := h1\<rparr>\<lparr>ents := h\<rparr>) \<and> linked_ents h (hd (q # ps)) (q # ps)
    \<and> same_but_links h1 h \<and> (\<forall>r. r \<notin> set (q # ps) \<longrightarrow> h r = h1 r)"
  proof -
    have "\<forall>r \<in> set (q # ps). r \<noteq> 0 \<and> (\<exists>e. h1 r = Some e)" using "3.prems"(3) by (auto simp: h1_def)
    then show ?thesis using "3.prems"(2) "3.IH" [of "s\<lparr>ents := h1\<rparr>"] by simp
  qed
  then obtain h where h: "relink (q # ps) (s\<lparr>ents := h1\<rparr>) = ret (s\<lparr>ents := h\<rparr>)" "linked_ents h q (q # ps)"
    "same_but_links h1 h" "\<And>r. r \<notin> set (q # ps) \<Longrightarrow> h r = h1 r" by auto
  have "h p = Some (e\<lparr>fts_link := q\<rparr>)" using h(4) [of p] "3.prems"(2) by (simp add: h1_def)
  then have "linked_ents h p (p # q # ps)" using h(2) e(2) by simp
  moreover have "relink (p # q # ps) s = ret (s\<lparr>ents := h\<rparr>)"
    using change_link(1) [OF e(1), of q] h(1) by (simp add: h1_def)
  moreover have "same_but_links (ents s) h"
    using change_link(2) [OF e(1), of q] h(3) same_but_links_trans by (auto simp: h1_def)
  moreover have "\<forall>r. r \<notin> set (p # q # ps) \<longrightarrow> h r = ents s r" using h(4) by (simp add: h1_def)
  ultimately show ?case by (intro exI [of _ h]) simp
qed simp

definition good_qsort :: "'e sys \<Rightarrow> bool" where
  "good_qsort sys \<longleftrightarrow> sorts (qsort_fn sys)"

definition good_compar :: "(ftsent \<Rightarrow> ftsent \<Rightarrow> int) \<Rightarrow> bool" where
  "good_compar f \<longleftrightarrow> (\<forall>x y. f x y \<le> 0 \<or> f y x \<le> 0) \<and> (\<forall>x y z. f x y \<le> 0 \<longrightarrow> f y z \<le> 0 \<longrightarrow> f x z \<le> 0)"

lemma fts_length_cap_small: "unat len < 2 ^ 32 \<Longrightarrow> unat (fts_length_cap len) = unat len"
proof -
  assume len: "unat len < 2 ^ 32"
  have "unat fts_length_max = 2 ^ 32 - 1" 
    by (simp add: fts_length_max_def unsigned_ucast_eq unsigned_minus_1_eq_mask mask_eq_exp_minus_1)
  then show ?thesis using len
    by (simp add: fts_length_cap_def word_less_nat_alt unsigned_ucast_eq take_bit_nat_eq_self)
qed

lemma grow_array_room:
  assumes g: "grow_array sys n s = (True, s')" and len: "length (sp_array s) = unat (sp_nitems s)" and n: "n < 2 ^ 31"
  shows "n \<le> length (sp_array s') \<and> length (sp_array s') = unat (sp_nitems s')
    \<and> ents s' = ents s \<and> sp_compar s' = sp_compar s"
proof (cases "(of_nat n :: u32) > sp_nitems s")
  case False
  have "unat (of_nat n :: u32) = n" using n by (simp add: unsigned_of_nat take_bit_nat_eq_self)
  then have "n \<le> unat (sp_nitems s)" using False by (simp add: not_less word_le_nat_alt)
  with False g len show ?thesis by (simp add: grow_array_def)
next
  case True
  have un: "unat (of_nat n + 40 :: u64) = n + 40"
    using n unat_of_nat_u64 [of "n + 40"] by simp
  have cap: "unat (fts_length_cap (of_nat n + 40)) = n + 40"
    using n un by (simp add: fts_length_cap_small)
  have small: "\<not> (of_nat n + 40 :: u64) > SIZE_MAX div 8"
    using n un by (simp add: word_less_nat_alt unat_div unat_SIZE_MAX)
  have bytes: "(of_nat n + 40) * 8 = (of_nat ((n + 40) * 8) :: u64)" by simp
  have "unat (of_nat ((n + 40) * 8) :: u64) = (n + 40) * 8" using n by (intro unat_of_nat_u64) simp
  then have nz: "(of_nat n + 40) * 8 \<noteq> (0 :: u64)" unfolding bytes by auto
  from g True obtain a s1 where r: "safe_recallocarray sys (sp_array s) (ucast (sp_nitems s)) (of_nat n + 40) 8 s = (Some a, s1)"
    and s': "s' = s1\<lparr>sp_nitems := fts_length_cap (of_nat n + 40), sp_array := a\<rparr>"
    by (auto simp: grow_array_def split: prod.splits option.splits)
  from r small nz obtain m where call: "call (realloc_fn sys ((of_nat n + 40) * 8)) s = (Some m, s1)"
    and a: "a = take (n + 40) (sp_array s) @ replicate (n + 40 - length (sp_array s)) 0"
    by (auto simp: safe_recallocarray_def un split: prod.splits option.splits)
  have "length a = n + 40" by (simp add: a)
  with call show ?thesis by (auto simp: s' cap elim!: callE)
qed

lemma fts_sort_sorts:
  assumes l: "linked_ents (ents s) head ps" and n: "length ps = n" "1 < n" "n < 2 ^ 31"
    and f: "sp_compar s = Some f" "good_compar f" and q: "good_qsort sys" and len: "length (sp_array s) = unat (sp_nitems s)"
  shows "\<exists>qs s'. fts_sort sys head n s = ret (hd qs, s') \<and> linked_ents (ents s') (hd qs) qs \<and> same_but_links (ents s) (ents s')
    \<and> mset qs = mset ps
    \<and> (fst (grow_array sys n s) \<longrightarrow> sorted_wrt (\<lambda>p q. f (the (ents s p)) (the (ents s q)) \<le> 0) qs)
    \<and> (\<not> fst (grow_array sys n s) \<longrightarrow> qs = ps)"
proof -
  obtain ok s1 where g: "grow_array sys n s = (ok, s1)" by (cases "grow_array sys n s")
  show ?thesis
  proof (cases ok)
    case False
    have "ents s1 = ents s"
      using g False by (auto simp: grow_array_def safe_recallocarray_def set_errno_def split: if_splits prod.splits option.splits elim!: callE)
    moreover have "head = hd ps" using l n by (cases ps) auto
    ultimately show ?thesis using g False l by (intro exI [of _ ps] exI [of _ s1]) (simp add: fts_sort_def)
  next
    case True
    have "grow_array sys n s = (True, s1)" using g True by simp
    note s1 = grow_array_room [OF this len n(3)]
    define qs where "qs = qsort_fn sys (compare_ents f s1) ps"
    define s2 where "s2 = s1\<lparr>sp_array := qs @ drop (length ps) (sp_array s1)\<rparr>"
    have alive: "\<And>p. p \<in> set ps \<Longrightarrow> p \<noteq> 0 \<and> (\<exists>e. ents s1 p = Some e)" using linked_ents_alive [OF l] s1 by simp
    have cmp: "compare_ents f s1 p q = f (the (ents s p)) (the (ents s q))" if "p \<in> set ps" "q \<in> set ps" for p q
      using alive [OF that(1)] alive [OF that(2)] s1 by (auto simp: compare_ents_def)
    have total_on: "\<forall>x \<in> set ps. \<forall>y \<in> set ps. compare_ents f s1 x y \<le> 0 \<or> compare_ents f s1 y x \<le> 0"
      using f(2) by (simp add: cmp good_compar_def)
    have trans_on: "\<forall>x \<in> set ps. \<forall>y \<in> set ps. \<forall>z \<in> set ps. compare_ents f s1 x y \<le> 0 \<longrightarrow> compare_ents f s1 y z \<le> 0 \<longrightarrow>
        compare_ents f s1 x z \<le> 0"
      using f(2) by (simp add: cmp good_compar_def)
    have sorted: "mset qs = mset ps" "sorted_wrt (\<lambda>p q. compare_ents f s1 p q \<le> 0) qs"
      using q total_on trans_on unfolding good_qsort_def sorts_def qs_def by blast+
    have set_qs: "set qs = set ps" "length qs = n" "distinct qs"
      using mset_eq_setD [OF sorted(1)] mset_eq_length [OF sorted(1)] n(1)
        mset_eq_imp_distinct_iff [OF sorted(1)] linked_ents_distinct [OF l] by simp_all
    have "qs \<noteq> []" using set_qs(2) n(2) by auto
    moreover have "\<forall>p \<in> set qs. p \<noteq> 0 \<and> (\<exists>e. ents s2 p = Some e)" using alive set_qs(1) by (simp add: s2_def)
    ultimately obtain h where h: "relink qs s2 = ret (s2\<lparr>ents := h\<rparr>)" "linked_ents h (hd qs) qs" "same_but_links (ents s2) h"
      using relink_linked [OF _ set_qs(3), of s2] by auto
    have "linked_ents (ents s1) head ps" using l s1 by simp
    then have "collect_links head s1 = ret ps" by (rule collect_links_linked)
    moreover have room: "\<not> length ps > length (sp_array s1)" and fs: "sp_compar s1 = Some f" using s1 n(1) f(1) by simp_all
    moreover have g': "grow_array sys n s = (True, s1)" using g True by simp
    moreover have "take n (ps @ drop (length ps) (sp_array s1)) = ps"
      "drop n (ps @ drop (length ps) (sp_array s1)) = drop (length ps) (sp_array s1)" using n(1) by simp_all
    ultimately have "fts_sort sys head n s = ret (hd qs, s2\<lparr>ents := h\<rparr>)"
      by (simp only: fts_sort_def prod.case bool.case andthen_simps option.case Let_def if_False qs_def [symmetric]
          s2_def [symmetric] h(1))
    moreover have "sorted_wrt (\<lambda>p q. f (the (ents s p)) (the (ents s q)) \<le> 0) qs"
      by (rule sorted_wrt_mono_rel [OF _ sorted(2)]) (use cmp set_qs(1) in simp)
    ultimately show ?thesis using h(2,3) sorted(1) g True s1
      by (intro exI [of _ qs] exI [of _ "s2\<lparr>ents := h\<rparr>"]) (simp add: s2_def)
  qed
qed

end
