(* ===== verification/Fts_Props.thy ===== *)
theory Fts_Props
  imports Fts_Links
begin

text \<open>The properties of the parts of \<^verbatim>\<open>src/fts.c\<close> that stand by themselves, and what they show of its errors.\<close>

section \<open>The table of directories is a map\<close>

datatype table_op = Enter u64 u64 nat | Leave u64 u64

fun table_step :: "'e sys \<Rightarrow> table_op \<Rightarrow> 'e fts \<Rightarrow> bool \<times> 'e fts" where
  "table_step sys (Enter d i p) s = cycle_insert sys d i p s"
| "table_step sys (Leave d i) s = (False, s\<lparr>sp_cycles := cycle_remove d i (sp_cycles s)\<rparr>)"

text \<open>A sequence of operations: which of them failed, and the stream after them.\<close>

fun table_steps :: "'e sys \<Rightarrow> table_op list \<Rightarrow> 'e fts \<Rightarrow> bool list \<times> 'e fts" where
  "table_steps sys [] s = ([], s)"
| "table_steps sys (x # xs) s =
     (case table_step sys x s of (f, s) \<Rightarrow> case table_steps sys xs s of (fs, s) \<Rightarrow> (f # fs, s))"

text \<open>The same on a map, in which the first entry of a key stays.\<close>

fun map_step :: "table_op \<times> bool \<Rightarrow> dir_map \<Rightarrow> dir_map" where
  "map_step (Enter d i p, failed) m = (if failed \<or> m (d, i) \<noteq> None then m else m((d, i) \<mapsto> p))"
| "map_step (Leave d i, failed) m = m((d, i) := None)"

fun names_entry :: "table_op \<Rightarrow> bool" where
  "names_entry (Enter d i p) \<longleftrightarrow> p \<noteq> 0"
| "names_entry (Leave d i) \<longleftrightarrow> True"

lemma table_step_map:
  assumes "table_ok (sp_cycles s)" and "names_entry x" and "table_step sys x s = (f, s')"
  shows "table_ok (sp_cycles s')" and "table_map (sp_cycles s') = map_step (x, f) (table_map (sp_cycles s))"
  using assms table_insert [of s] table_remove [of "sp_cycles s"] by (cases x; fastforce)+

lemma table_steps_map:
  "table_steps sys xs s = (fs, s') \<Longrightarrow> table_ok (sp_cycles s) \<Longrightarrow> list_all names_entry xs \<Longrightarrow>
   table_ok (sp_cycles s') \<and> table_map (sp_cycles s') = fold map_step (zip xs fs) (table_map (sp_cycles s))"
proof (induction xs arbitrary: s fs)
  case (Cons x xs)
  then obtain f s1 gs where step: "table_step sys x s = (f, s1)" and rest: "table_steps sys xs s1 = (gs, s')" "fs = f # gs"
    by (auto split: prod.splits)
  from Cons.prems have "names_entry x" "list_all names_entry xs" by simp_all
  with table_step_map [OF Cons.prems(2) this(1) step] Cons.IH [OF rest(1)] show ?case by (simp add: rest(2))
qed simp

text \<open>
  C17.  The table that \<open>fts_open\<close> makes is a map from devices and inodes to entries: after
  any sequence of insertions and removals, whatever calls of \<open>malloc\<close> fail in it, a lookup
  gives the entry that was inserted first for the key and not removed since, or null.
\<close>

theorem cycle_table_is_map:
  assumes "cycle_init sys s0 = (False, s)" and "list_all names_entry xs" and "table_steps sys xs s = (fs, s')"
  shows "cycle_lookup (sp_cycles s') d i =
    (case fold map_step (zip xs fs) Map.empty (d, i) of None \<Rightarrow> 0 | Some p \<Rightarrow> p)"
  using init_table [OF assms(1)] table_steps_map [OF assms(3)] assms(2) table_lookup [of "sp_cycles s'" d i] by simp

text \<open>A system on which everything works: memory never runs out, a list is sorted by insertion.\<close>

definition plain_sys :: "nat sys" where
  "plain_sys = \<lparr>open_fn = \<lambda>_ _ e. (Inl 3, e), close_fn = \<lambda>_ e. (Inl (), e), fstat_fn = \<lambda>_ e. (Inl no_stat, e),
     fstatat_fn = \<lambda>_ _ _ e. (Inl no_stat, e), fchdir_fn = \<lambda>_ e. (Inl (), e), fdopendir_fn = \<lambda>_ e. (Inl (), e),
     readdir_fn = \<lambda>_ e. (Inl None, e), closedir_fn = \<lambda>_ e. (Inl (), e),
     malloc_fn = \<lambda>_ e. (if e = 0 then Inr ENOMEM else Inl (), e - 1), realloc_fn = \<lambda>_ e. (Inl True, e),
     qsort_fn = \<lambda>f xs. fold (insort_by f) xs []\<rparr>"

lemma cycle_table_is_map_witness:
  "let xs = [Enter 1 2 10, Enter 1 66 11, Enter 1 2 12, Enter 5 6 13, Leave 1 2, Enter 1 2 14];
       s = fts_zero None 0 None 3; s' = snd (table_steps plain_sys xs (snd (cycle_init plain_sys s))) in
   cycle_lookup (sp_cycles s') 1 2 = 0 \<and> cycle_lookup (sp_cycles s') 1 66 = 11"
proof -
  let ?xs = "[Enter 1 2 10, Enter 1 66 11, Enter 1 2 12, Enter 5 6 13, Leave 1 2, Enter 1 2 14]"
  let ?s = "snd (cycle_init plain_sys (fts_zero None 0 None 3))"
  have init: "cycle_init plain_sys (fts_zero None 0 None 3) = (False, ?s)"
    by (simp add: cycle_init_def call_def plain_sys_def fts_zero_def)
  obtain fs s' where run: "table_steps plain_sys ?xs ?s = (fs, s')" by (cases "table_steps plain_sys ?xs ?s")
  have "fst (table_steps plain_sys ?xs ?s) = [False, False, False, True, False, True]" by code_simp
  then have fs: "fs = [False, False, False, True, False, True]" unfolding run by (simp only: fst_conv)
  have "list_all names_entry ?xs" by simp
  from cycle_table_is_map [OF init this run] show ?thesis
    unfolding Let_def run snd_conv by (simp add: fs)
qed

section \<open>The path buffer\<close>

text \<open>
  C25.  When \<open>fts_palloc\<close> succeeds for a path that leaves room for its padding, the stream has a
  buffer of a power of two, of at least the room asked for and 256 more and less than twice
  that, with the old contents, and \<open>sp_pathlen\<close> tells its size as far as 32 bits can.  For more than
  that the size wraps to 0.
\<close>

theorem fts_palloc_makes_room:
  assumes "fts_palloc sys need s = ret (False, s')"
  shows "if unat need + 256 \<le> 2 ^ 63
    then \<exists>pb k. bufs s' (sp_path s') = Some pb \<and> buf_size pb = 2 ^ k \<and> unat need + 256 \<le> 2 ^ k
      \<and> 2 ^ k < 2 * (unat need + 256) \<and> sp_pathlen s' = fts_length_cap (of_nat (2 ^ k))
      \<and> (\<forall>old. sp_path s \<noteq> 0 \<longrightarrow> bufs s (sp_path s) = Some old \<longrightarrow> buf_chars pb = buf_chars old)
    else \<exists>pb. bufs s' (sp_path s') = Some pb \<and> buf_size pb = 0"
proof (cases "unat need + 256 \<le> 2 ^ 63")
  case True
  with palloc_room [OF assms] show ?thesis by simp
next
  case False
  have le: "\<not> need > SIZE_MAX - 256" using assms by (auto simp: fts_palloc_def)
  then have u: "unat (need + 256) = unat need + 256"
    using unat_add_small [of need 256] by (simp add: word_less_nat_alt unat_SIZE_MAX_minus)
  then have "0 < need + 256" by (simp add: word_less_nat_alt)
  from fts_pow2_value [OF this] False u have wrap: "fts_pow2 (need + 256) = 0" by simp
  from assms show ?thesis
    unfolding fts_palloc_def if_not_P [OF le] Let_def wrap
    using False by (auto elim!: andthenE dest!: call_keeps split: option.splits prod.splits if_splits)
qed

lemma fts_palloc_makes_room_witness:
  "\<exists>s' pb. fts_palloc plain_sys 4096 (fts_zero None 0 None 3) = ret (False, s') \<and> bufs s' (sp_path s') = Some pb
    \<and> 4352 \<le> buf_size pb \<and> buf_size pb < 8704"
proof -
  let ?s = "fts_zero None 0 None 3"
  have small: "\<not> (4096 :: u64) > SIZE_MAX - 256" by (simp add: SIZE_MAX_def)
  obtain s' where r: "fts_palloc plain_sys 4096 ?s = ret (False, s')"
    unfolding fts_palloc_def if_not_P [OF small] by (simp add: Let_def fts_zero_def call_def plain_sys_def)
  from fts_palloc_makes_room [OF r] obtain pb k where "bufs s' (sp_path s') = Some pb" "buf_size pb = 2 ^ k"
    "4352 \<le> (2 :: nat) ^ k" "2 ^ k < (8704 :: nat)" by auto
  with r show ?thesis by auto
qed

section \<open>Sorting\<close>

text \<open>
  C26.  \<open>fts_sort\<close> links the entries of a list anew, into the order of the client's comparison when
  the array for \<open>qsort\<close> could be made large enough and as they were when not: every entry is
  there once, nothing but the links has changed, and the first entry is returned.
\<close>

theorem fts_sort_permutes:
  assumes "linked_ents (ents s) head ps" and "length ps = n" "1 < n" "n < 2 ^ 31"
    and "sp_compar s = Some f" "good_compar f" and "good_qsort sys" and "length (sp_array s) = unat (sp_nitems s)"
  shows "\<exists>qs s'. fts_sort sys head n s = ret (hd qs, s') \<and> linked_ents (ents s') (hd qs) qs \<and> same_but_links (ents s) (ents s')
    \<and> mset qs = mset ps
    \<and> (fst (grow_array sys n s) \<longrightarrow> sorted_wrt (\<lambda>p q. f (the (ents s p)) (the (ents s q)) \<le> 0) qs)
    \<and> (\<not> fst (grow_array sys n s) \<longrightarrow> qs = ps)"
  using assms by (rule fts_sort_sorts)

lemma plain_qsort: "good_qsort plain_sys"
  using insorts_sort by (simp add: good_qsort_def plain_sys_def)

text \<open>Three entries, compared by the lengths of their names.\<close>

definition by_length :: "ftsent \<Rightarrow> ftsent \<Rightarrow> int" where
  "by_length d e = int (length (fts_name d)) - int (length (fts_name e))"

definition three_ents :: "nat fts" where
  "three_ents = (fts_zero (Some by_length) 0 None 3)\<lparr>ents := [1 \<mapsto> zero_ent\<lparr>fts_link := 2, fts_name := ''ccc''\<rparr>,
     2 \<mapsto> zero_ent\<lparr>fts_link := 3, fts_name := ''a''\<rparr>, 3 \<mapsto> zero_ent\<lparr>fts_name := ''bb''\<rparr>]\<rparr>"

lemma fts_sort_permutes_witness:
  "\<exists>qs s'. fts_sort plain_sys 1 3 three_ents = ret (hd qs, s') \<and> linked_ents (ents s') (hd qs) qs \<and> qs = [2, 3, 1]"
proof -
  have "linked_ents (ents three_ents) 1 [1, 2, 3]" by (simp add: three_ents_def zero_ent_def)
  moreover have "sp_compar three_ents = Some by_length" "length (sp_array three_ents) = unat (sp_nitems three_ents)"
    by (simp_all add: three_ents_def fts_zero_def)
  moreover have "good_compar by_length" by (auto simp: good_compar_def by_length_def)
  moreover have grown: "fst (grow_array plain_sys 3 three_ents)" by code_simp
  ultimately obtain qs s' where qs: "fts_sort plain_sys 1 3 three_ents = ret (hd qs, s')" "linked_ents (ents s') (hd qs) qs"
    "mset qs = mset [1, 2, 3]" "sorted_wrt (\<lambda>p q. by_length (the (ents three_ents p)) (the (ents three_ents q)) \<le> 0) qs"
    using fts_sort_permutes [of three_ents 1 "[1, 2, 3]" 3 by_length plain_sys] plain_qsort by auto
  have "length qs = 3" "set qs = {1, 2, 3}" using mset_eq_length [OF qs(3)] mset_eq_setD [OF qs(3)] by simp_all
  then obtain x y z where xyz: "qs = [x, y, z]" "{x, y, z} = {1, 2, 3}"
    by (auto simp: length_Suc_conv numeral_3_eq_3)
  have len: "length (fts_name (the (ents three_ents 1))) = 3" "length (fts_name (the (ents three_ents 2))) = 1"
    "length (fts_name (the (ents three_ents 3))) = 2" by (simp_all add: three_ents_def)
  have "length (fts_name (the (ents three_ents x))) \<le> length (fts_name (the (ents three_ents y)))"
    "length (fts_name (the (ents three_ents y))) \<le> length (fts_name (the (ents three_ents z)))"
    using qs(4) by (simp_all add: xyz(1) by_length_def)
  moreover have "x \<in> {1, 2, 3}" "y \<in> {1, 2, 3}" "z \<in> {1, 2, 3}" "x \<noteq> y" "y \<noteq> z" "x \<noteq> z"
    using xyz(2) linked_ents_distinct [OF qs(2)] xyz(1) by auto
  ultimately have "qs = [2, 3, 1]" using len unfolding xyz(1) by auto
  with qs(1,2) show ?thesis by blast
qed

section \<open>Errors on concrete systems\<close>

text \<open>
  A directory without entries: \<open>fts_build\<close> returns before the code that changes back, although
  it has changed into the directory.
\<close>

lemma empty_directory_not_left:
  assumes "ents s (sp_cur s) = Some e"
  shows "\<exists>s'. build_list sys type True fd 0 0 s = ret (0, s') \<and> env s' = env (call_ignored (closedir_fn sys fd) s)"
proof -
  obtain r t where c: "call (closedir_fn sys fd) s = (r, t)" by (cases "call (closedir_fn sys fd) s")
  have "ents t (sp_cur t) = Some e" using assms by (subst (1 2) call_keeps [OF c]) simp
  then show ?thesis
    by (auto simp: build_list_def call_ignored_def c change_def ent_def)
qed

text \<open>
  A \<open>stat\<close> of one entry that fails leaves \<open>errno\<close> set, and the end of the stream is then taken
  for an error: the whole list is dropped and the traversal stopped.
\<close>

lemma failed_stat_keeps_errno:
  assumes "call (fstatat_fn sys dfd (fts_name e) True) s = (None, t)" and "ents s p = Some e" "fts_level e < SHRT_MAX"
    and "\<not> isset FTS_WHITEOUT s" "\<not> isset FTS_LOGICAL s" "dfd \<noteq> None"
  shows "\<exists>s'. fts_stat sys p False dfd s = ret (FTS_NS, s') \<and> errno_v s' \<noteq> None"
proof -
  have t: "ents t p = Some e" "errno_v t \<noteq> None"
    using assms(1,2) by (auto simp: call_def split: prod.splits sum.splits)
  then have "stat_failed p (errno_v t) t = ret (FTS_NS,
      if isset FTS_NOSTAT t then t\<lparr>ents := (ents t)(p \<mapsto> e\<lparr>fts_errno := errno_v t\<rparr>)\<rparr>
      else t\<lparr>ents := (ents t)(p \<mapsto> e\<lparr>fts_errno := errno_v t, fts_statp := Some no_stat\<rparr>)\<rparr>)"
    by (auto simp: stat_failed_def store_stat_def change_def ent_def isset_def)
  with assms t show ?thesis by (auto simp: fts_stat_def ent_def)
qed

declare build_loop.simps [code]

lemma end_taken_for_error:
  assumes "call (readdir_fn sys (b_fd c)) s = (Some None, t)" and "errno_v t \<noteq> None"
  shows "build_loop sys c head tail n nlinks maxlen s = andthen (build_failed sys (b_fd c) head t) (\<lambda>s. ret (None, s))"
  using assms by (subst build_loop.simps) simp

text \<open>Examining a directory again that has been entered: it is found in the table and told to be a cycle.\<close>

lemma again_is_false_cycle:
  assumes "table_ok (sp_cycles s)" "p \<noteq> 0" "ents s p = Some e" "fts_info e = FTS_D"
    and push: "fts_cycle_push sys p s = ret (False, t)" "table_map (sp_cycles s) (fts_dev e, fts_ino e) = None"
    and sb: "S_ISDIR (st_mode sb)" "st_dev sb = fts_dev e" "st_ino sb = fts_ino e"
    and up: "\<not> ISDOT (fts_name e)" "find_above (fts_parent e) (fts_dev e) (fts_ino e)
      (t\<lparr>ents := (ents t)(p \<mapsto> e\<lparr>fts_nlink := st_nlink sb\<rparr>)\<rparr>) = ret None"
  shows "\<exists>s'. stat_kind p sb t = ret (FTS_DC, s') \<and> (\<exists>e'. ents s' p = Some e' \<and> fts_cycle e' = p)"
proof -
  from push(1) assms(2-4) have ins: "cycle_insert sys (fts_dev e) (fts_ino e) p s = (False, t)"
    by (auto simp: fts_cycle_push_def ent_def split: prod.splits bool.splits)
  from table_insert [OF assms(1,2) ins] push(2) have t: "table_ok (sp_cycles t)"
    "table_map (sp_cycles t) (fts_dev e, fts_ino e) = Some p" by simp_all
  have ents: "ents t p = Some e" using assms(3) by (subst cycle_insert_keeps [OF ins]) simp
  have e: "e\<lparr>fts_dev := fts_dev e, fts_ino := fts_ino e, fts_nlink := st_nlink sb\<rparr> = e\<lparr>fts_nlink := st_nlink sb\<rparr>" by simp
  show ?thesis
    using assms(2) sb up ents table_lookup [OF t(1), of "fts_dev e" "fts_ino e"] t(2)
    by (simp add: stat_kind_def change_def ent_def e)
qed

text \<open>A traversal of no files: closing it frees the first entry and follows its parent, which is null.\<close>

lemma close_without_entries:
  assumes "sp_cur s = p" "ents s p = Some e" "\<not> ent_flag FTS_SYMFOLLOW e" "p \<noteq> 0"
    and "FTS_ROOTLEVEL \<le> fts_level e" "fts_link e = 0" "fts_parent e = 0" "ents s 0 = None"
  shows "fts_close sys s = crash"
proof -
  have "close_entries p s = crash"
    using assms by (subst close_entries.simps) (simp add: ent_def free_ent_def, subst close_entries.simps, simp add: ent_def)
  with assms show ?thesis by (simp add: fts_close_def ent_def)
qed

end
