(* ===== verification/Fts_Serve.thy ===== *)
theory Fts_Serve
  imports Fts_Links
begin

text \<open>
  File trees that do not change, systems that serve one, and what a traversal in full should
  report of it.
\<close>

section \<open>Trees\<close>

datatype tree = Tree fstat kids
  and kids = No_kids | Kid string tree kids

fun stat_of :: "tree \<Rightarrow> fstat" where "stat_of (Tree st ks) = st"
fun kids_of :: "tree \<Rightarrow> kids" where "kids_of (Tree st ks) = ks"
fun kid_list :: "kids \<Rightarrow> (string \<times> tree) list" where
  "kid_list No_kids = []"
| "kid_list (Kid n t ks) = (n, t) # kid_list ks"

abbreviation is_dir :: "tree \<Rightarrow> bool" where "is_dir t \<equiv> S_ISDIR (st_mode (stat_of t))"
abbreviation key_of :: "tree \<Rightarrow> u64 \<times> u64" where "key_of t \<equiv> (st_dev (stat_of t), st_ino (stat_of t))"

definition kind_of :: "tree \<Rightarrow> fts_kind" where
  "kind_of t = (let m = st_mode (stat_of t) in
     if S_ISDIR m then FTS_D else if S_ISLNK m then FTS_SL else if S_ISREG m then FTS_F else FTS_DEFAULT)"

text \<open>The path of a name in a directory.\<close>

definition path_join :: "string \<Rightarrow> string \<Rightarrow> string" where
  "path_join P n = (if last P = CHR ''/'' then P else P @ ''/'') @ n"

fun paths_of :: "string \<Rightarrow> tree \<Rightarrow> (string \<times> tree) set" and paths_of_kids :: "string \<Rightarrow> kids \<Rightarrow> (string \<times> tree) set" where
  "paths_of P (Tree st ks) = insert (P, Tree st ks) (paths_of_kids P ks)"
| "paths_of_kids P No_kids = {}"
| "paths_of_kids P (Kid n t ks) = paths_of (path_join P n) t \<union> paths_of_kids P ks"

text \<open>
  The trees that can be walked: paths below \<open>PATH_MAX\<close>, names as a directory has them, and no
  directory below itself; \<open>A\<close> has the directories above.
\<close>

definition plain_name :: "string \<Rightarrow> bool" where
  "plain_name n \<longleftrightarrow> n \<noteq> [] \<and> NUL \<notin> set n \<and> \<not> ISDOT n"

fun walkable :: "(u64 \<times> u64) set \<Rightarrow> string \<Rightarrow> tree \<Rightarrow> bool"
  and walkable_kids :: "(u64 \<times> u64) set \<Rightarrow> string \<Rightarrow> kids \<Rightarrow> bool" where
  "walkable A P (Tree st ks) \<longleftrightarrow> length P < 4096 \<and>
     (S_ISDIR (st_mode st) \<longrightarrow> (st_dev st, st_ino st) \<notin> A \<and> walkable_kids (insert (st_dev st, st_ino st) A) P ks)"
| "walkable_kids A P No_kids \<longleftrightarrow> True"
| "walkable_kids A P (Kid n t ks) \<longleftrightarrow> plain_name n \<and> walkable A (path_join P n) t \<and> walkable_kids A P ks"

section \<open>What is reported\<close>

text \<open>
  The kind, the path and the level of an entry.  A directory is reported before and after its
  entries; the path of an empty one ends in a slash the second time, as that is how
  \<open>fts_build\<close> leaves the path.
\<close>

type_synonym visit = "fts_kind \<times> string \<times> int"

fun below :: "string \<Rightarrow> int \<Rightarrow> tree \<Rightarrow> visit list" and kid_visits :: "string \<Rightarrow> int \<Rightarrow> kids \<Rightarrow> visit list" where
  "below P l (Tree st ks) =
     (if \<not> S_ISDIR (st_mode st) then []
      else if ks = No_kids then [(FTS_DP, path_join P [], l)]
      else kid_visits P (l + 1) ks @ [(FTS_DP, P, l)])"
| "kid_visits P l No_kids = []"
| "kid_visits P l (Kid n t ks) = (kind_of t, path_join P n, l) # below (path_join P n) l t @ kid_visits P l ks"

definition visits :: "string \<Rightarrow> tree \<Rightarrow> visit list" where
  "visits P t = (kind_of t, P, 0) # below P 0 t"

section \<open>Serving a tree\<close>

text \<open>
  What the calls give on a system that serves the files \<open>F\<close>: \<open>dirs\<close> tells the directories that
  are open, with the entries that are still to be read of each, among them \<open>.\<close> and \<open>..\<close>.
\<close>

type_synonym 'e open_dirs = "'e \<Rightarrow> int \<Rightarrow> (tree \<times> dirent list) option"

definition serves_open :: "'e sys \<Rightarrow> 'e open_dirs \<Rightarrow> (string \<times> tree) set \<Rightarrow> bool" where
  "serves_open sys dirs F \<longleftrightarrow> (\<forall>e P t. (P, t) \<in> F \<longrightarrow>
     (\<exists>e'. fstatat_fn sys None P True e = (Inl (stat_of t), e') \<and> dirs e' = dirs e) \<and>
     (is_dir t \<longrightarrow> (\<exists>fd ds e'. open_fn sys P [O_DIRECTORY, O_CLOEXEC, O_NOFOLLOW] e = (Inl fd, e')
        \<and> dirs e fd = None \<and> dirs e' = (dirs e)(fd \<mapsto> (t, ds))
        \<and> filter (\<lambda>n. \<not> ISDOT n) (map d_name ds) = map fst (kid_list (kids_of t)))))"

definition serves_dir :: "'e sys \<Rightarrow> 'e open_dirs \<Rightarrow> bool" where
  "serves_dir sys dirs \<longleftrightarrow> (\<forall>e fd t ds. dirs e fd = Some (t, ds) \<longrightarrow>
     (\<exists>e'. fstat_fn sys fd e = (Inl (stat_of t), e') \<and> dirs e' = dirs e) \<and>
     (\<exists>e'. fdopendir_fn sys fd e = (Inl (), e') \<and> dirs e' = dirs e) \<and>
     (\<exists>e'. readdir_fn sys fd e = (Inl (case ds of [] \<Rightarrow> None | d # _ \<Rightarrow> Some d), e')
        \<and> dirs e' = (dirs e)(fd \<mapsto> (t, tl ds))) \<and>
     (\<forall>(n, k) \<in> set (kid_list (kids_of t)).
        \<exists>e'. fstatat_fn sys (Some fd) n True e = (Inl (stat_of k), e') \<and> dirs e' = dirs e) \<and>
     (\<exists>e'. closedir_fn sys fd e = (Inl (), e') \<and> dirs e' = (dirs e)(fd := None)))"

definition has_memory :: "'e sys \<Rightarrow> 'e open_dirs \<Rightarrow> bool" where
  "has_memory sys dirs \<longleftrightarrow> (\<forall>e n.
     (\<exists>e'. malloc_fn sys n e = (Inl (), e') \<and> dirs e' = dirs e) \<and>
     (\<exists>m e'. realloc_fn sys n e = (Inl m, e') \<and> dirs e' = dirs e))"

definition serves :: "'e sys \<Rightarrow> 'e open_dirs \<Rightarrow> (string \<times> tree) set \<Rightarrow> bool" where
  "serves sys dirs F \<longleftrightarrow> serves_open sys dirs F \<and> serves_dir sys dirs \<and> has_memory sys dirs"

text \<open>The calls in a state.\<close>

lemma call_ok: "f (env s) = (Inl x, e) \<Longrightarrow> call f s = (Some x, s\<lparr>env := e\<rparr>)"
  by (simp add: call_def)

lemma serves_malloc:
  assumes "serves sys dirs F"
  obtains  e where "call (malloc_fn sys n) s = (Some (()), s\<lparr>env := e\<rparr>)" "dirs e = dirs (env s)"
proof -
  from assms obtain  e where "(malloc_fn sys n) (env s) = (Inl (()), e)" "dirs e = dirs (env s)"
    unfolding serves_def has_memory_def by blast
  with call_ok show ?thesis by (intro that)
qed

lemma serves_realloc:
  assumes "serves sys dirs F"
  obtains m e where "call (realloc_fn sys n) s = (Some (m), s\<lparr>env := e\<rparr>)" "dirs e = dirs (env s)"
proof -
  from assms obtain m e where "(realloc_fn sys n) (env s) = (Inl (m), e)" "dirs e = dirs (env s)"
    unfolding serves_def has_memory_def by blast
  with call_ok show ?thesis by (intro that)
qed

lemma serves_lstat:
  assumes "serves sys dirs F" "(P, t) \<in> F"
  obtains  e where "call (fstatat_fn sys None P True) s = (Some (stat_of t), s\<lparr>env := e\<rparr>)" "dirs e = dirs (env s)"
proof -
  from assms obtain  e where "(fstatat_fn sys None P True) (env s) = (Inl (stat_of t), e)" "dirs e = dirs (env s)"
    unfolding serves_def serves_open_def by blast
  with call_ok show ?thesis by (intro that)
qed

lemma serves_opendir:
  assumes "serves sys dirs F" "(P, t) \<in> F" "is_dir t"
  obtains fd ds e where "call (open_fn sys P [O_DIRECTORY, O_CLOEXEC, O_NOFOLLOW]) s = (Some (fd), s\<lparr>env := e\<rparr>)" "dirs (env s) fd = None" "dirs e = (dirs (env s))(fd \<mapsto> (t, ds))" "filter (\<lambda>n. \<not> ISDOT n) (map d_name ds) = map fst (kid_list (kids_of t))"
proof -
  from assms obtain fd ds e where "(open_fn sys P [O_DIRECTORY, O_CLOEXEC, O_NOFOLLOW]) (env s) = (Inl (fd), e)" "dirs (env s) fd = None" "dirs e = (dirs (env s))(fd \<mapsto> (t, ds))" "filter (\<lambda>n. \<not> ISDOT n) (map d_name ds) = map fst (kid_list (kids_of t))"
    unfolding serves_def serves_open_def by blast
  with call_ok show ?thesis by (intro that)
qed

lemma serves_fstat:
  assumes "serves sys dirs F" "dirs (env s) fd = Some (t, ds)"
  obtains  e where "call (fstat_fn sys fd) s = (Some (stat_of t), s\<lparr>env := e\<rparr>)" "dirs e = dirs (env s)"
proof -
  from assms obtain  e where "(fstat_fn sys fd) (env s) = (Inl (stat_of t), e)" "dirs e = dirs (env s)"
    unfolding serves_def serves_dir_def by blast
  with call_ok show ?thesis by (intro that)
qed

lemma serves_fdopendir:
  assumes "serves sys dirs F" "dirs (env s) fd = Some (t, ds)"
  obtains  e where "call (fdopendir_fn sys fd) s = (Some (()), s\<lparr>env := e\<rparr>)" "dirs e = dirs (env s)"
proof -
  from assms obtain  e where "(fdopendir_fn sys fd) (env s) = (Inl (()), e)" "dirs e = dirs (env s)"
    unfolding serves_def serves_dir_def by blast
  with call_ok show ?thesis by (intro that)
qed

lemma serves_readdir:
  assumes "serves sys dirs F" "dirs (env s) fd = Some (t, ds)"
  obtains  e where "call (readdir_fn sys fd) s = (Some (case ds of [] \<Rightarrow> None | d # _ \<Rightarrow> Some d), s\<lparr>env := e\<rparr>)" "dirs e = (dirs (env s))(fd \<mapsto> (t, tl ds))"
proof -
  from assms obtain  e where "(readdir_fn sys fd) (env s) = (Inl (case ds of [] \<Rightarrow> None | d # _ \<Rightarrow> Some d), e)" "dirs e = (dirs (env s))(fd \<mapsto> (t, tl ds))"
    unfolding serves_def serves_dir_def by blast
  with call_ok show ?thesis by (intro that)
qed

lemma serves_fstatat:
  assumes "serves sys dirs F" "dirs (env s) fd = Some (t, ds)" "(n, k) \<in> set (kid_list (kids_of t))"
  obtains  e where "call (fstatat_fn sys (Some fd) n True) s = (Some (stat_of k), s\<lparr>env := e\<rparr>)" "dirs e = dirs (env s)"
proof -
  from assms obtain  e where "(fstatat_fn sys (Some fd) n True) (env s) = (Inl (stat_of k), e)" "dirs e = dirs (env s)"
    unfolding serves_def serves_dir_def by blast
  with call_ok show ?thesis by (intro that)
qed

lemma serves_closedir:
  assumes "serves sys dirs F" "dirs (env s) fd = Some (t, ds)"
  obtains  e where "call (closedir_fn sys fd) s = (Some (()), s\<lparr>env := e\<rparr>)" "dirs e = (dirs (env s))(fd := None)"
proof -
  from assms obtain  e where "(closedir_fn sys fd) (env s) = (Inl (()), e)" "dirs e = (dirs (env s))(fd := None)"
    unfolding serves_def serves_dir_def by blast
  with call_ok show ?thesis by (intro that)
qed

end
