(* ===== verification/Fts_Kids.thy ===== *)
theory Fts_Kids
  imports Fts_Serve
begin

text \<open>The list that \<open>fts_build\<close> makes of a directory, on a system that serves its tree.\<close>

section \<open>A stream in the middle of a walk\<close>

definition WALK :: u32 where "WALK = FTS_PHYSICAL OR FTS_NOCHDIR"

lemmas fts_options_defs = FTS_COMFOLLOW_def FTS_LOGICAL_def FTS_NOCHDIR_def FTS_NOSTAT_def FTS_PHYSICAL_def FTS_SEEDOT_def
  FTS_XDEV_def FTS_WHITEOUT_def FTS_NAMEONLY_def FTS_STOP_def

lemma walk_options:
  assumes "sp_options s = WALK"
  shows "isset FTS_NOCHDIR s" "isset FTS_PHYSICAL s" "\<not> isset FTS_LOGICAL s" "\<not> isset FTS_COMFOLLOW s"
    "\<not> isset FTS_NOSTAT s" "\<not> isset FTS_SEEDOT s" "\<not> isset FTS_XDEV s" "\<not> isset FTS_WHITEOUT s"
    "\<not> isset FTS_NAMEONLY s" "\<not> isset FTS_STOP s"
  using assms by (simp_all add: isset_def WALK_def fts_options_defs)

lemma isset_updates [simp]:
  "isset o1 (s\<lparr>env := a\<rparr>) = isset o1 s" "isset o1 (s\<lparr>ents := c\<rparr>) = isset o1 s"
  "isset o1 (s\<lparr>ents_end := d\<rparr>) = isset o1 s" "isset o1 (s\<lparr>bufs := f\<rparr>) = isset o1 s"
  "isset o1 (s\<lparr>sp_cur := g\<rparr>) = isset o1 s" "isset o1 (s\<lparr>sp_child := g\<rparr>) = isset o1 s"
  "isset o1 (s\<lparr>sp_cycles := h\<rparr>) = isset o1 s" "isset o1 (s\<lparr>errno_v := i\<rparr>) = isset o1 s"
  "isset o1 (s\<lparr>sp_dev := j\<rparr>) = isset o1 s"
  by (simp_all add: isset_def)

abbreviation path_of :: "(nat \<Rightarrow> char) \<Rightarrow> path_buf" where
  "path_of f \<equiv> \<lparr>buf_size = 8192, buf_chars = f\<rparr>"

definition walking :: "nat \<Rightarrow> (nat \<Rightarrow> char) \<Rightarrow> 'e fts \<Rightarrow> bool" where
  "walking b f s \<longleftrightarrow> sp_child s = 0 \<and> sp_options s = WALK \<and> sp_compar s = None \<and> sp_path s = b \<and> b \<noteq> 0
     \<and> sp_pathlen s = 8192 \<and> bufs s = [b \<mapsto> path_of f] \<and> table_ok (sp_cycles s)
     \<and> (\<forall>q \<ge> ents_end s. ents s q = None) \<and> ents s 0 = None \<and> 0 < ents_end s"

lemma walkingD:
  assumes "walking b f s"
  shows "sp_child s = 0" "sp_options s = WALK" "sp_compar s = None" "sp_path s = b" "b \<noteq> 0" "sp_pathlen s = 8192"
    "bufs s = [b \<mapsto> path_of f]" "table_ok (sp_cycles s)" "\<And>q. ents_end s \<le> q \<Longrightarrow> ents s q = None" "ents s 0 = None"
    "0 < ents_end s"
  using assms by (simp_all add: walking_def)

section \<open>Characters\<close>

lemma put_chars_at: "put_chars i cs f j = (if i \<le> j \<and> j < i + length cs then cs ! (j - i) else f j)"
  by (induction cs arbitrary: i f) (auto simp: nth_Cons')

definition starts :: "(nat \<Rightarrow> char) \<Rightarrow> string \<Rightarrow> bool" where
  "starts f P \<longleftrightarrow> (\<forall>i < length P. f i = P ! i)"

definition holds :: "(nat \<Rightarrow> char) \<Rightarrow> string \<Rightarrow> bool" where
  "holds f P \<longleftrightarrow> starts f P \<and> f (length P) = NUL"

lemma starts_cong: "starts f P \<Longrightarrow> (\<And>i. i < length P \<Longrightarrow> g i = f i) \<Longrightarrow> starts g P"
  by (simp add: starts_def)

lemma starts_append: "starts f (P @ Q) \<Longrightarrow> starts f P"
  unfolding starts_def by (metis nth_append length_append trans_less_add1)

lemma put_chars_end:
  assumes "starts f (take i P)" "length P = i + length cs" "drop i P = cs"
  shows "starts (put_chars i (cs @ ds) f) P"
  using assms by (auto simp: starts_def put_chars_at nth_append)

lemma str_from_string:
  "(\<And>j. j < length P \<Longrightarrow> f (i + j) = P ! j) \<Longrightarrow> f (i + length P) = NUL \<Longrightarrow> NUL \<notin> set P \<Longrightarrow> i + length P < n \<Longrightarrow>
   str_from f i n = ret P"
proof (induction P arbitrary: i)
  case Nil
  then show ?case by (subst str_from.simps) simp
next
  case (Cons c P)
  have "f i = c" using Cons.prems(1) [of 0] by simp
  moreover have "str_from f (Suc i) n = ret P"
  proof (rule Cons.IH)
    show "f (Suc i + j) = P ! j" if "j < length P" for j using Cons.prems(1) [of "Suc j"] that by simp
  qed (use Cons.prems(2-4) in simp_all)
  ultimately show ?case using Cons.prems(3,4) by (subst str_from.simps) auto
qed

lemma holds_string:
  assumes "bufs s b = Some (path_of f)" "holds f P" "NUL \<notin> set P" "length P < 8192"
  shows "path_string s (Path_at b 0) = ret P"
  using assms str_from_string [of P f 0 8192] by (simp add: path_string_def buf_def holds_def starts_def)

lemma write_path_walk:
  assumes "bufs s = [b \<mapsto> path_of f]" "i + length cs \<le> 8192"
  shows "write_path b i cs s = ret (s\<lparr>bufs := [b \<mapsto> path_of (put_chars i cs f)]\<rparr>)"
  using assms by (simp add: write_path_def buf_def)

section \<open>The directories above\<close>

text \<open>The chain of parents from level \<open>n - 1\<close> down to the first, with keys in \<open>A\<close>.\<close>

fun ups :: "(u64 \<times> u64) set \<Rightarrow> (nat \<Rightarrow> ftsent option) \<Rightarrow> nat \<Rightarrow> nat \<Rightarrow> bool" where
  "ups A h u 0 \<longleftrightarrow> (\<exists>e. h u = Some e \<and> fts_level e = -1)"
| "ups A h u (Suc n) \<longleftrightarrow> (\<exists>e. h u = Some e \<and> fts_level e = int n \<and> (fts_dev e, fts_ino e) \<in> A \<and> ups A h (fts_parent e) n)"

lemma ups_cong:
  "ups A h u n \<Longrightarrow> (\<And>q e. h q = Some e \<Longrightarrow> fts_level e < int n \<Longrightarrow>
     \<exists>e'. h' q = Some e' \<and> fts_level e' = fts_level e \<and> fts_dev e' = fts_dev e \<and> fts_ino e' = fts_ino e
       \<and> fts_parent e' = fts_parent e) \<Longrightarrow> ups A h' u n"
proof (induction n arbitrary: u)
  case (Suc n)
  then obtain e where e: "h u = Some e" "fts_level e = int n" "(fts_dev e, fts_ino e) \<in> A" "ups A h (fts_parent e) n" by auto
  from Suc.prems(2) [OF e(1)] e(2) obtain e' where e': "h' u = Some e'" "fts_level e' = int n" "fts_dev e' = fts_dev e"
    "fts_ino e' = fts_ino e" "fts_parent e' = fts_parent e" by auto
  have "ups A h' (fts_parent e) n"
    by (rule Suc.IH [OF e(4)]) (rule Suc.prems(2), simp_all)
  with e e' show ?case by simp
qed (fastforce)

lemma ups_subset: "ups A h u n \<Longrightarrow> A \<subseteq> B \<Longrightarrow> ups B h u n"
  by (induction n arbitrary: u) auto

lemma ups_find_above: "ups A (ents s) u n \<Longrightarrow> (d, i) \<notin> A \<Longrightarrow> find_above u d i s = ret None"
proof (induction n arbitrary: u)
  case 0
  then show ?case by (subst find_above.simps) (auto simp: ent_def FTS_ROOTLEVEL_def)
next
  case (Suc n)
  then obtain e where e: "ents s u = Some e" "fts_level e = int n" "(fts_dev e, fts_ino e) \<in> A" "ups A (ents s) (fts_parent e) n" by auto
  have "\<not> (fts_ino e = i \<and> fts_dev e = d)" using e(3) Suc.prems(2) by auto
  with e Suc.IH [OF e(4) Suc.prems(2)] show ?case
    by (subst find_above.simps) (simp add: ent_def FTS_ROOTLEVEL_def)
qed

section \<open>Examining an entry\<close>

text \<open>What \<open>fts_stat\<close> stores, and an entry as the list has it.\<close>

definition stated :: "tree \<Rightarrow> ftsent \<Rightarrow> ftsent" where
  "stated t e = (let e = e\<lparr>fts_statp := Some (stat_of t)\<rparr> in
     if is_dir t then e\<lparr>fts_dev := st_dev (stat_of t), fts_ino := st_ino (stat_of t), fts_nlink := st_nlink (stat_of t)\<rparr> else e)"

definition walk_ent :: "nat \<Rightarrow> nat \<Rightarrow> int \<Rightarrow> string \<Rightarrow> string \<Rightarrow> tree \<Rightarrow> nat \<Rightarrow> ftsent" where
  "walk_ent b u l P n t link = stated t (zero_ent\<lparr>fts_parent := u, fts_link := link, fts_accpath := Path_at b 0,
     fts_path := b, fts_pathlen := of_nat (length P), fts_namelen := of_nat (length n), fts_level := l,
     fts_info := kind_of t, fts_instr := FTS_NOINSTR, fts_statp := Some no_stat, fts_name := n\<rparr>)"

lemma stated_fields [simp]:
  "fts_cycle (stated t e) = fts_cycle e" "fts_parent (stated t e) = fts_parent e" "fts_link (stated t e) = fts_link e"
  "fts_accpath (stated t e) = fts_accpath e" "fts_path (stated t e) = fts_path e" "fts_errno (stated t e) = fts_errno e"
  "fts_symfd (stated t e) = fts_symfd e" "fts_pathlen (stated t e) = fts_pathlen e" "fts_namelen (stated t e) = fts_namelen e"
  "fts_level (stated t e) = fts_level e" "fts_info (stated t e) = fts_info e" "fts_flags (stated t e) = fts_flags e"
  "fts_instr (stated t e) = fts_instr e" "fts_name (stated t e) = fts_name e"
  "is_dir t \<Longrightarrow> fts_dev (stated t e) = st_dev (stat_of t)" "is_dir t \<Longrightarrow> fts_ino (stated t e) = st_ino (stat_of t)"
  by (simp_all add: stated_def Let_def)

lemma stated_updates:
  "(stated t e)\<lparr>fts_info := k\<rparr> = stated t (e\<lparr>fts_info := k\<rparr>)"
  "(stated t e)\<lparr>fts_link := q\<rparr> = stated t (e\<lparr>fts_link := q\<rparr>)"
  "(stated t e)\<lparr>fts_instr := i\<rparr> = stated t (e\<lparr>fts_instr := i\<rparr>)"
  by (simp_all add: stated_def Let_def)

lemma walk_ent_fields [simp]:
  "fts_parent (walk_ent b u l P n t q) = u" "fts_link (walk_ent b u l P n t q) = q"
  "fts_accpath (walk_ent b u l P n t q) = Path_at b 0" "fts_path (walk_ent b u l P n t q) = b"
  "fts_errno (walk_ent b u l P n t q) = None" "fts_pathlen (walk_ent b u l P n t q) = of_nat (length P)"
  "fts_namelen (walk_ent b u l P n t q) = of_nat (length n)" "fts_level (walk_ent b u l P n t q) = l"
  "fts_info (walk_ent b u l P n t q) = kind_of t" "fts_flags (walk_ent b u l P n t q) = 0"
  "fts_instr (walk_ent b u l P n t q) = FTS_NOINSTR" "fts_name (walk_ent b u l P n t q) = n"
  "is_dir t \<Longrightarrow> fts_dev (walk_ent b u l P n t q) = st_dev (stat_of t)"
  "is_dir t \<Longrightarrow> fts_ino (walk_ent b u l P n t q) = st_ino (stat_of t)"
  "(walk_ent b u l P n t q)\<lparr>fts_link := q'\<rparr> = walk_ent b u l P n t q'"
  "(walk_ent b u l P n t q)\<lparr>fts_instr := FTS_NOINSTR\<rparr> = walk_ent b u l P n t q"
  by (simp_all add: walk_ent_def zero_ent_def stated_updates)

lemma kind_of_D [simp]: "kind_of t = FTS_D \<longleftrightarrow> is_dir t"
  by (simp add: kind_of_def Let_def)

lemma kind_of_cases:
  "\<not> is_dir t \<Longrightarrow> kind_of t \<in> {FTS_SL, FTS_F, FTS_DEFAULT}"
  by (auto simp: kind_of_def Let_def)

lemma change_ent: "ents s p = Some e \<Longrightarrow> change p g s = ret (s\<lparr>ents := (ents s)(p \<mapsto> g e)\<rparr>)"
  by (simp add: change_def ent_def)

lemma ent_some: "ents s p = Some e \<Longrightarrow> ent s p = ret e"
  by (simp add: ent_def)

text \<open>A file that is none of the directories above.\<close>

definition unseen :: "'e fts \<Rightarrow> nat \<Rightarrow> nat \<Rightarrow> tree \<Rightarrow> bool" where
  "unseen s u n t \<longleftrightarrow> (is_dir t \<longrightarrow> (\<exists>A. ups A (ents s) u n \<and> key_of t \<notin> A) \<and> table_ok (sp_cycles s)
     \<and> table_map (sp_cycles s) (key_of t) = None)"

lemma stat_kind_walk:
  assumes e: "ents s p = Some e" "fts_statp e = Some (stat_of t)" and u: "unseen s (fts_parent e) n t" "fts_level e = int n"
  shows "stat_kind p (stat_of t) s =
    ret (if is_dir t \<and> ISDOT (fts_name e) then FTS_DOT else kind_of t, s\<lparr>ents := (ents s)(p \<mapsto> stated t e)\<rparr>)"
proof (cases "is_dir t")
  case True
  define s1 where "s1 = s\<lparr>ents := (ents s)(p \<mapsto> stated t e)\<rparr>"
  have st: "e\<lparr>fts_dev := st_dev (stat_of t), fts_ino := st_ino (stat_of t), fts_nlink := st_nlink (stat_of t)\<rparr> = stated t e"
    using True e(2) by (simp add: stated_def)
  from u(1) True obtain A where up: "ups A (ents s) (fts_parent e) n" "key_of t \<notin> A" "table_ok (sp_cycles s)"
    "table_map (sp_cycles s) (key_of t) = None" by (auto simp: unseen_def)
  have above: "find_above (fts_parent e) (st_dev (stat_of t)) (st_ino (stat_of t)) s1 = ret None"
  proof (rule ups_find_above)
    show "ups A (ents s1) (fts_parent e) n"
      by (rule ups_cong [OF up(1)]) (use e(1) u(2) in \<open>auto simp: s1_def\<close>)
  qed (use up(2) in simp)
  have cyc: "cycle_lookup (sp_cycles s1) (st_dev (stat_of t)) (st_ino (stat_of t)) = 0"
    using table_lookup [OF up(3)] up(4) by (simp add: s1_def)
  have ch: "change p (\<lambda>e. e\<lparr>fts_dev := st_dev (stat_of t), fts_ino := st_ino (stat_of t), fts_nlink := st_nlink (stat_of t)\<rparr>) s
      = ret s1" by (simp add: change_ent [OF e(1)] st s1_def)
  have s1: "ent s1 p = ret (stated t e)" by (simp add: s1_def ent_def)
  show ?thesis unfolding stat_kind_def if_P [OF True] ch andthen_simps s1
    using True above cyc by (simp add: kind_of_def s1_def Let_def)
next
  case False
  have "stated t e = e" using False e(2) by (simp add: stated_def)
  moreover have "(ents s)(p \<mapsto> e) = ents s" using e(1) by (simp add: fun_upd_idem)
  ultimately show ?thesis using False by (simp add: stat_kind_def kind_of_def Let_def)
qed

lemma fts_stat_kid:
  assumes sys: "serves sys dirs F" and opt: "sp_options s = WALK" and e: "ents s p = Some e" "fts_level e = int n" "fts_level e < SHRT_MAX"
    and fd: "dirs (env s) fd = Some (T, ds)" "(fts_name e, k) \<in> set (kid_list (kids_of T))"
    and u: "unseen s (fts_parent e) n k" and dot: "\<not> ISDOT (fts_name e)"
  obtains e' where "fts_stat sys p False (Some fd) s = ret (kind_of k, s\<lparr>ents := (ents s)(p \<mapsto> stated k e), env := e'\<rparr>)"
    "dirs e' = dirs (env s)"
proof -
  obtain e' where call: "call (fstatat_fn sys (Some fd) (fts_name e) True) s = (Some (stat_of k), s\<lparr>env := e'\<rparr>)"
    "dirs e' = dirs (env s)" using serves_fstatat [OF sys fd] by blast
  define s1 where "s1 = s\<lparr>env := e', ents := (ents s)(p \<mapsto> e\<lparr>fts_statp := Some (stat_of k)\<rparr>)\<rparr>"
  have store: "store_stat p (stat_of k) (s\<lparr>env := e'\<rparr>) = ret s1"
    using walk_options(5) [of "s\<lparr>env := e'\<rparr>"] opt e(1) by (simp add: store_stat_def change_ent s1_def)
  have "unseen s1 (fts_parent e) n k"
    using u e(1,2) ups_cong [of _ "ents s" "fts_parent e" n "ents s1"] by (fastforce simp: unseen_def s1_def)
  then have "stat_kind p (stat_of k) s1 = ret (kind_of k, s1\<lparr>ents := (ents s1)(p \<mapsto> stated k (e\<lparr>fts_statp := Some (stat_of k)\<rparr>))\<rparr>)"
    using stat_kind_walk [of s1 p "e\<lparr>fts_statp := Some (stat_of k)\<rparr>" k n] e(2) dot by (simp add: s1_def)
  moreover have "stated k (e\<lparr>fts_statp := Some (stat_of k)\<rparr>) = stated k e" by (simp add: stated_def)
  ultimately have "stat_kind p (stat_of k) s1 = ret (kind_of k, s\<lparr>ents := (ents s)(p \<mapsto> stated k e), env := e'\<rparr>)"
    by (simp add: s1_def)
  moreover have "\<not> SHRT_MAX \<le> fts_level e" using e(3) by simp
  ultimately have "fts_stat sys p False (Some fd) s = ret (kind_of k, s\<lparr>ents := (ents s)(p \<mapsto> stated k e), env := e'\<rparr>)"
    using walk_options [OF opt] call(1) store by (simp add: fts_stat_def ent_some [OF e(1)])
  with call(2) show ?thesis by (rule that [rotated])
qed

section \<open>Making an entry\<close>

lemma unat_of_nat_u32: "k < 2 ^ 32 \<Longrightarrow> unat (of_nat k :: u32) = k"
  by (simp add: unsigned_of_nat take_bit_nat_eq_self)

lemma cap_of_nat: "k < 2 ^ 32 \<Longrightarrow> fts_length_cap (of_nat k) = of_nat k"
proof -
  assume k: "k < 2 ^ 32"
  then have "unat (of_nat k :: u64) = k" by (intro unat_of_nat_u64) simp
  with k have "unat (fts_length_cap (of_nat k)) = k" by (simp add: fts_length_cap_small)
  with k show ?thesis by (simp add: word_unat_eq_iff unat_of_nat_u32)
qed

lemma path_join_nil: "path_join P n = path_join P [] @ n"
  by (simp add: path_join_def)

lemma name_bytes_walk: "fts_namelen e = of_nat (length (fts_name e)) \<Longrightarrow> length (fts_name e) < 2 ^ 32 \<Longrightarrow>
  name_bytes e = ret (fts_name e @ [NUL])"
  by (simp add: name_bytes_def unat_of_nat_u32)

lemma fts_alloc_walk:
  assumes sys: "serves sys dirs F" and opt: "sp_options s = WALK" and n: "length n < 4096"
  obtains e' where "fts_alloc sys n s = (ents_end s, s\<lparr>env := e', ents := (ents s)(ents_end s \<mapsto>
      zero_ent\<lparr>fts_path := sp_path s, fts_namelen := of_nat (length n), fts_instr := FTS_NOINSTR,
        fts_statp := Some no_stat, fts_name := n\<rparr>), ents_end := Suc (ents_end s)\<rparr>)"
    "dirs e' = dirs (env s)"
proof -
  obtain e' where call: "call (malloc_fn sys (SIZEOF_FTSENT + strlen n + 1 + (SIZEOF_STAT + ALIGNBYTES))) s = (Some (), s\<lparr>env := e'\<rparr>)"
    "dirs e' = dirs (env s)" by (rule serves_malloc [OF sys])
  have "fts_length_cap (strlen n) = of_nat (length n)" using n by (simp add: strlen_def cap_of_nat)
  then show ?thesis
    using that [of e'] call walk_options(5) [OF opt] walk_options(5) [of "s\<lparr>env := e'\<rparr>"] opt by (simp add: fts_alloc_def Let_def)
qed

lemma build_kind_walk:
  assumes sys: "serves sys dirs F" and w: "sp_options s = WALK" "bufs s = [b \<mapsto> path_of f]" "sp_path s = b"
    and c: "c = \<lparr>b_fd = fd, b_len = of_nat len, b_level = int l, b_nostat = False, b_cderrno = None\<rparr>"
    and e: "ents s p = Some e" "fts_level e = int l" "int l < SHRT_MAX" "fts_path e = b"
      "fts_namelen e = of_nat (length (fts_name e))"
    and len: "len + length (fts_name e) < 4096"
    and fd: "dirs (env s) fd = Some (T, ds)" "(fts_name e, k) \<in> set (kid_list (kids_of T))"
    and u: "unseen s (fts_parent e) l k" and dot: "\<not> ISDOT (fts_name e)"
  obtains e' where "build_kind sys c p dp (-1) s = ret (-1, s\<lparr>env := e',
      ents := (ents s)(p \<mapsto> stated k (e\<lparr>fts_accpath := Path_at b 0, fts_info := kind_of k\<rparr>)),
      bufs := [b \<mapsto> path_of (put_chars len (fts_name e @ [NUL]) f)]\<rparr>)"
    "dirs e' = dirs (env s)"
proof -
  define e1 where "e1 = e\<lparr>fts_accpath := Path_at b 0\<rparr>"
  define s1 where "s1 = s\<lparr>ents := (ents s)(p \<mapsto> e1)\<rparr>"
  define s2 where "s2 = s1\<lparr>bufs := [b \<mapsto> path_of (put_chars len (fts_name e @ [NUL]) f)]\<rparr>"
  have "unseen s2 (fts_parent e) l k"
    using u e(1,2) ups_cong [of _ "ents s" "fts_parent e" l "ents s2"] by (fastforce simp: unseen_def s2_def s1_def e1_def)
  moreover have "sp_options s2 = WALK" "ents s2 p = Some e1" "fts_level e1 = int l" "fts_level e1 < SHRT_MAX"
    "dirs (env s2) fd = Some (T, ds)" "(fts_name e1, k) \<in> set (kid_list (kids_of T))" "fts_parent e1 = fts_parent e"
    "\<not> ISDOT (fts_name e1)"
    using w e fd dot by (simp_all add: s2_def s1_def e1_def)
  ultimately obtain e' where stat: "fts_stat sys p False (Some fd) s2 = ret (kind_of k, s2\<lparr>ents := (ents s2)(p \<mapsto> stated k e1), env := e'\<rparr>)"
    and env: "dirs e' = dirs (env s2)"
    using fts_stat_kid [OF sys] by metis
  have nul: "name_bytes e = ret (fts_name e @ [NUL])" using e(5) len by (simp add: name_bytes_walk)
  have "unat (of_nat len :: u64) = len" using len by (intro unat_of_nat_u64) simp
  moreover have "write_path b len (fts_name e @ [NUL]) s1 = ret s2"
    using write_path_walk [of s1 b f len "fts_name e @ [NUL]"] w(2) len by (simp add: s1_def s2_def)
  moreover have "isset FTS_NOCHDIR s1" "isset FTS_NOCHDIR s2" "isset FTS_NOCHDIR s" "sp_path s1 = b"
    using w(3) walk_options(1) [OF w(1)] by (simp_all add: s1_def s2_def)
  moreover have "change p (\<lambda>e. e\<lparr>fts_accpath := Path_at b 0\<rparr>) s = ret s1" by (simp add: change_ent [OF e(1)] s1_def e1_def)
  moreover have "change p (\<lambda>e. e\<lparr>fts_info := kind_of k\<rparr>) (s2\<lparr>ents := (ents s2)(p \<mapsto> stated k e1), env := e'\<rparr>)
    = ret (s\<lparr>env := e', ents := (ents s)(p \<mapsto> stated k (e\<lparr>fts_accpath := Path_at b 0, fts_info := kind_of k\<rparr>)),
      bufs := [b \<mapsto> path_of (put_chars len (fts_name e @ [NUL]) f)]\<rparr>)"
    by (simp add: change_def ent_def s2_def s1_def e1_def stated_updates)
  ultimately have "build_kind sys c p dp (-1) s = ret (-1, s\<lparr>env := e',
      ents := (ents s)(p \<mapsto> stated k (e\<lparr>fts_accpath := Path_at b 0, fts_info := kind_of k\<rparr>)),
      bufs := [b \<mapsto> path_of (put_chars len (fts_name e @ [NUL]) f)]\<rparr>)"
    using stat by (simp add: build_kind_def ent_some [OF e(1)] c nul e(4))
  moreover have "dirs e' = dirs (env s)" using env by (simp add: s2_def s1_def)
  ultimately show ?thesis by (rule that)
qed

lemma unseen_cong:
  assumes "unseen s u n t" and "sp_cycles s' = sp_cycles s"
    and "\<And>q e. ents s q = Some e \<Longrightarrow> fts_level e < int n \<Longrightarrow> ents s' q = Some e"
  shows "unseen s' u n t"
proof -
  have "ups A (ents s') u n" if "ups A (ents s) u n" for A
    by (rule ups_cong [OF that]) (use assms(3) in blast)
  with assms(1,2) show ?thesis by (auto simp: unseen_def)
qed

lemma build_entry_walk:
  assumes sys: "serves sys dirs F" and w: "sp_options s = WALK" "bufs s = [b \<mapsto> path_of f]" "sp_path s = b"
    and c: "c = \<lparr>b_fd = fd, b_len = of_nat len, b_level = int l, b_nostat = False, b_cderrno = None\<rparr>"
    and l: "int l < SHRT_MAX" and n: "d_name dp = n" "\<not> ISDOT n" and len: "len = length (path_join P [])" "len + length n < 4096"
    and max: "unat maxlen = 8192 - len"
    and fd: "dirs (env s) fd = Some (T, ds)" "(n, k) \<in> set (kid_list (kids_of T))"
    and u: "unseen s u l k" "sp_cur s = u" and N: "ents_end s = N" "ents s N = None" "N \<noteq> 0"
  obtains e' where "build_entry sys c head dp (-1) maxlen s = ret (Some (N, -1, maxlen), s\<lparr>env := e',
      ents := (ents s)(N \<mapsto> walk_ent b u (int l) (path_join P n) n k 0), ents_end := Suc N,
      bufs := [b \<mapsto> path_of (put_chars len (n @ [NUL]) f)]\<rparr>)"
    "dirs e' = dirs (env s)"
proof -
  define e0 where "e0 = zero_ent\<lparr>fts_path := b, fts_namelen := of_nat (length n), fts_instr := FTS_NOINSTR,
    fts_statp := Some no_stat, fts_name := n\<rparr>"
  obtain e1 where alloc: "fts_alloc sys n s = (N, s\<lparr>env := e1, ents := (ents s)(N \<mapsto> e0), ents_end := Suc N\<rparr>)"
    and env1: "dirs e1 = dirs (env s)"
    using fts_alloc_walk [OF sys w(1), of n] len(2) N(1) w(3) unfolding e0_def by auto
  define e2 where "e2 = e0\<lparr>fts_level := int l, fts_parent := u, fts_pathlen := of_nat (len + length n)\<rparr>"
  define s1 where "s1 = s\<lparr>env := e1, ents := (ents s)(N \<mapsto> e0), ents_end := Suc N\<rparr>"
  define s2 where "s2 = s\<lparr>env := e1, ents := (ents s)(N \<mapsto> e2), ents_end := Suc N\<rparr>"
  have un: "unat (of_nat len :: u64) = len" "unat (strlen n) = length n" "unat (of_nat (len + length n) :: u64) = len + length n"
    using len(2) by (simp_all add: strlen_def unat_of_nat_u64 del: of_nat_add)
  have sum: "of_nat len + strlen n = (of_nat (len + length n) :: u64)" by (simp add: strlen_def)
  have fits: "\<not> (of_nat (len + length n) :: u64) < of_nat len" "\<not> (of_nat (len + length n) :: u64) > fts_length_max"
    "\<not> strlen n \<ge> maxlen"
    using un len(2) max unfolding word_less_nat_alt word_le_nat_alt
    by (simp_all add: fts_length_max_def unsigned_ucast_eq unsigned_minus_1_eq_mask mask_eq_exp_minus_1)
  have cap: "fts_length_cap (of_nat (len + length n)) = of_nat (len + length n)" using len(2) by (intro cap_of_nat) simp
  have room: "build_room sys c head (strlen n) maxlen s1 = ret (Some maxlen, s1)" using fits(3) by (simp add: build_room_def)
  have csel: "b_len c = of_nat len" "b_level c = int l" by (simp_all add: c)
  have flags: "isset FTS_WHITEOUT s1 = False" using walk_options(8) [OF w(1)] by (simp add: s1_def)
  have ch1: "change N (\<lambda>e. e\<lparr>fts_path := sp_path s1, fts_level := int l, fts_parent := sp_cur s1\<rparr>) s1
    = ret (s1\<lparr>ents := (ents s)(N \<mapsto> e0\<lparr>fts_level := int l, fts_parent := u\<rparr>)\<rparr>)"
    using w(3) u(2) by (simp add: change_def ent_def s1_def e0_def zero_ent_def)
  have ch2: "change N (\<lambda>e. e\<lparr>fts_pathlen := of_nat (len + length n),
      fts_flags := fts_flags e\<rparr>) (s1\<lparr>ents := (ents s)(N \<mapsto> e0\<lparr>fts_level := int l, fts_parent := u\<rparr>)\<rparr>) = ret s2"
    by (simp add: change_def ent_def s1_def s2_def e2_def e0_def zero_ent_def)
  have "unseen s2 u l k"
    by (rule unseen_cong [OF u(1)]) (use N(2) in \<open>auto simp: s2_def\<close>)
  then have "unseen s2 (fts_parent e2) l k" by (simp add: e2_def)
  moreover have "sp_options s2 = WALK" "bufs s2 = [b \<mapsto> path_of f]" "sp_path s2 = b" "ents s2 N = Some e2" "fts_level e2 = int l"
    "fts_path e2 = b" "fts_namelen e2 = of_nat (length (fts_name e2))" "fts_name e2 = n" "dirs (env s2) fd = Some (T, ds)"
    using w fd env1 by (simp_all add: s2_def e2_def e0_def)
  ultimately obtain e' where kind: "build_kind sys c N dp (-1) s2 = ret (-1, s2\<lparr>env := e',
      ents := (ents s2)(N \<mapsto> stated k (e2\<lparr>fts_accpath := Path_at b 0, fts_info := kind_of k\<rparr>)),
      bufs := [b \<mapsto> path_of (put_chars len (n @ [NUL]) f)]\<rparr>)" and env': "dirs e' = dirs (env s2)"
    using build_kind_walk [OF sys _ _ _ c, of s2 b f N e2 T ds k dp] len(2) l fd(2) n(2) by metis
  have ent: "stated k (e2\<lparr>fts_accpath := Path_at b 0, fts_info := kind_of k, fts_link := 0\<rparr>) = walk_ent b u (int l) (path_join P n) n k 0"
    using path_join_nil [of P n] len(1) by (simp add: walk_ent_def e2_def e0_def zero_ent_def)
  have ch3: "change N (\<lambda>e. e\<lparr>fts_link := 0\<rparr>) (s2\<lparr>env := e',
      ents := (ents s2)(N \<mapsto> stated k (e2\<lparr>fts_accpath := Path_at b 0, fts_info := kind_of k\<rparr>)),
      bufs := [b \<mapsto> path_of (put_chars len (n @ [NUL]) f)]\<rparr>) = ret (s\<lparr>env := e',
      ents := (ents s)(N \<mapsto> walk_ent b u (int l) (path_join P n) n k 0), ents_end := Suc N,
      bufs := [b \<mapsto> path_of (put_chars len (n @ [NUL]) f)]\<rparr>)"
    by (simp add: change_def ent_def s2_def stated_updates ent)
  have "build_entry sys c head dp (-1) maxlen s = ret (Some (N, -1, maxlen), s\<lparr>env := e',
      ents := (ents s)(N \<mapsto> walk_ent b u (int l) (path_join P n) n k 0), ents_end := Suc N,
      bufs := [b \<mapsto> path_of (put_chars len (n @ [NUL]) f)]\<rparr>)"
    using N(3) fits(1,2) kind ch3
    by (simp only: build_entry_def Let_def n(1) alloc prod.case if_False s1_def [symmetric] room andthen_simps option.case
        ch1 csel sum cap flags simp_thms isset_updates ch2)
  moreover have "dirs e' = dirs (env s)" using env' env1 by (simp add: s2_def)
  ultimately show ?thesis by (rule that)
qed

section \<open>Reading the directory\<close>

text \<open>The entries of the names, at consecutive addresses, each linked to the next.\<close>

fun kid_count :: "kids \<Rightarrow> nat" where
  "kid_count No_kids = 0"
| "kid_count (Kid n t ks) = Suc (kid_count ks)"

fun kid_heap :: "nat \<Rightarrow> nat \<Rightarrow> nat \<Rightarrow> string \<Rightarrow> nat \<Rightarrow> kids \<Rightarrow> (nat \<Rightarrow> ftsent option) \<Rightarrow> nat \<Rightarrow> ftsent option" where
  "kid_heap b u l P N No_kids h = h"
| "kid_heap b u l P N (Kid n t ks) h = (kid_heap b u l P (Suc N) ks h)
     (N \<mapsto> walk_ent b u (int l) (path_join P n) n t (if ks = No_kids then 0 else Suc N))"

lemma kid_heap_below: "q < N \<Longrightarrow> kid_heap b u l P N ks h q = h q"
  by (induction ks arbitrary: N) auto

lemma kid_heap_above: "N + kid_count ks \<le> q \<Longrightarrow> kid_heap b u l P N ks h q = h q"
  by (induction ks arbitrary: N) auto

lemma kid_heap_update: "q < N \<Longrightarrow> kid_heap b u l P N ks (h(q \<mapsto> x)) = (kid_heap b u l P N ks h)(q \<mapsto> x)"
  by (induction ks arbitrary: N) (auto simp: fun_upd_twist)

lemma unseen_fresh:
  assumes "unseen s u n t" and "sp_cycles s' = sp_cycles s" and "ents s' = (ents s)(N \<mapsto> x)" and "ents s N = None"
  shows "unseen s' u n t"
  by (rule unseen_cong [OF assms(1,2)]) (use assms(3,4) in auto)

lemma unseen_link:
  assumes "unseen s u n t" and "sp_cycles s' = sp_cycles s" and "ents s' = (ents s)(p \<mapsto> x)" and "ents s p = Some e" "int n \<le> fts_level e"
  shows "unseen s' u n t"
  by (rule unseen_cong [OF assms(1,2)]) (use assms(3-5) in auto)

lemma build_loop_dot:
  assumes "call (readdir_fn sys (b_fd c)) s = (Some (Some dp), s1)" and "\<not> isset FTS_SEEDOT s1" "ISDOT (d_name dp)"
  shows "build_loop sys c head tail n nlinks maxlen s = build_loop sys c head tail n nlinks maxlen s1"
  using assms by (subst build_loop.simps) simp

lemma build_loop_entry:
  assumes "call (readdir_fn sys (b_fd c)) s = (Some (Some dp), s1)" and "\<not> ISDOT (d_name dp)"
    and "build_entry sys c head dp nlinks maxlen s1 = ret (Some (p, nlinks', maxlen'), s2)"
    and "(if head = 0 then ret s2 else change tail (\<lambda>e. e\<lparr>fts_link := p\<rparr>) s2) = ret s3"
  shows "build_loop sys c head tail n nlinks maxlen s = build_loop sys c (if head = 0 then p else head) p (Suc n) nlinks' maxlen' s3"
  using assms by (subst build_loop.simps) simp

lemma build_loop_end:
  assumes "call (readdir_fn sys (b_fd c)) s = (Some None, s1)" and "errno_v s1 = None"
  shows "build_loop sys c head tail n nlinks maxlen s = ret (Some (head, n), s1)"
  using assms by (subst build_loop.simps) simp

definition kids_fit :: "'e fts \<Rightarrow> nat \<Rightarrow> nat \<Rightarrow> nat \<Rightarrow> tree \<Rightarrow> kids \<Rightarrow> bool" where
  "kids_fit s u l len T ks \<longleftrightarrow> (\<forall>(n, k) \<in> set (kid_list ks).
     \<not> ISDOT n \<and> len + length n < 4096 \<and> unseen s u l k \<and> (n, k) \<in> set (kid_list (kids_of T)))"

lemma kids_fit_cong:
  "kids_fit s u l len T ks \<Longrightarrow> (\<And>k. unseen s u l k \<Longrightarrow> unseen s' u l k) \<Longrightarrow> kids_fit s' u l len T ks"
  by (auto simp: kids_fit_def)

lemma build_loop_walk:
  assumes sys: "serves sys dirs F"
    and c: "c = \<lparr>b_fd = fd, b_len = of_nat len, b_level = int l, b_nostat = False, b_cderrno = None\<rparr>"
    and l: "int l < SHRT_MAX" and len: "len = length (path_join P [])" and max: "unat maxlen = 8192 - len"
  shows "sp_options s = WALK \<Longrightarrow> bufs s = [b \<mapsto> path_of f] \<Longrightarrow> sp_path s = b \<Longrightarrow> sp_cur s = u \<Longrightarrow> errno_v s = None \<Longrightarrow>
    ents_end s = N \<Longrightarrow> (\<forall>q \<ge> N. ents s q = None) \<Longrightarrow> N \<noteq> 0 \<Longrightarrow> dirs (env s) fd = Some (T, ds) \<Longrightarrow>
    filter (\<lambda>n. \<not> ISDOT n) (map d_name ds) = map fst (kid_list ks) \<Longrightarrow> kids_fit s u l len T ks \<Longrightarrow>
    (head \<noteq> 0 \<longrightarrow> (\<exists>et. ents s tail = Some et \<and> fts_level et = int l \<and> h = (if ks = No_kids then ents s else (ents s)(tail \<mapsto> et\<lparr>fts_link := N\<rparr>))))
    \<Longrightarrow> (head = 0 \<longrightarrow> h = ents s) \<Longrightarrow>
    \<exists>e' f'. build_loop sys c head tail cnt (-1) maxlen s =
      ret (Some (if head = 0 \<and> ks \<noteq> No_kids then N else head, cnt + kid_count ks),
        s\<lparr>env := e', ents := kid_heap b u l P N ks h, ents_end := N + kid_count ks, bufs := [b \<mapsto> path_of f']\<rparr>)
      \<and> dirs e' = (dirs (env s))(fd \<mapsto> (T, [])) \<and> (\<forall>i < len. f' i = f i) \<and> (ks = No_kids \<longrightarrow> f' = f)"
proof (induction ds arbitrary: s f N ks head tail h cnt)
  case Nil
  then have ks: "ks = No_kids" by (cases ks) simp_all
  obtain e where call: "call (readdir_fn sys fd) s = (Some None, s\<lparr>env := e\<rparr>)" "dirs e = (dirs (env s))(fd \<mapsto> (T, []))"
    using serves_readdir [OF sys Nil.prems(9)] by auto
  have "h = ents s" using Nil.prems(12,13) ks by (cases "head = 0") auto
  have "build_loop sys c head tail cnt (-1) maxlen s = ret (Some (head, cnt), s\<lparr>env := e\<rparr>)"
    by (rule build_loop_end) (use call(1) Nil.prems(5) in \<open>simp_all add: c\<close>)
  moreover have "s\<lparr>env := e\<rparr> = s\<lparr>env := e, ents := ents s, ents_end := N, bufs := [b \<mapsto> path_of f]\<rparr>"
    using Nil.prems(2,6) by (intro fts.equality) (simp_all add: fun_eq_iff)
  ultimately have "build_loop sys c head tail cnt (-1) maxlen s = ret (Some (head, cnt),
      s\<lparr>env := e, ents := ents s, ents_end := N, bufs := [b \<mapsto> path_of f]\<rparr>)" by (simp only:)
  then show ?case unfolding ks \<open>h = ents s\<close> using call(2) by (intro exI [of _ e] exI [of _ f]) (simp add: fun_upd_def)
next
  case (Cons dp ds)
  obtain e1 where call: "call (readdir_fn sys fd) s = (Some (Some dp), s\<lparr>env := e1\<rparr>)"
    and env1: "dirs e1 = (dirs (env s))(fd \<mapsto> (T, ds))"
    using serves_readdir [OF sys Cons.prems(9)] by auto
  define s1 where "s1 = s\<lparr>env := e1\<rparr>"
  have call1: "call (readdir_fn sys (b_fd c)) s = (Some (Some dp), s1)" using call by (simp add: c s1_def)
  have fd1: "dirs (env s1) fd = Some (T, ds)" by (simp add: s1_def env1)
  have es1: "ents s1 = ents s" by (simp add: s1_def)
  have fit1: "kids_fit s1 u l len T ks"
    by (rule kids_fit_cong [OF Cons.prems(11)]) (simp add: unseen_def s1_def)
  show ?case
  proof (cases "ISDOT (d_name dp)")
    case True
    have "\<not> isset FTS_SEEDOT s1" using walk_options(6) [OF Cons.prems(1)] by (simp add: s1_def)
    from build_loop_dot [OF call1 this True]
    have step: "build_loop sys c head tail cnt (-1) maxlen s = build_loop sys c head tail cnt (-1) maxlen s1" .
    have "\<exists>e' f'. build_loop sys c head tail cnt (-1) maxlen s1 =
      ret (Some (if head = 0 \<and> ks \<noteq> No_kids then N else head, cnt + kid_count ks),
        s1\<lparr>env := e', ents := kid_heap b u l P N ks h, ents_end := N + kid_count ks, bufs := [b \<mapsto> path_of f']\<rparr>)
      \<and> dirs e' = (dirs (env s1))(fd \<mapsto> (T, [])) \<and> (\<forall>i < len. f' i = f i) \<and> (ks = No_kids \<longrightarrow> f' = f)"
      by (rule Cons.IH [OF _ _ _ _ _ _ _ Cons.prems(8) fd1 _ fit1 Cons.prems(12) [folded es1] Cons.prems(13) [folded es1]])
        (use Cons.prems True in \<open>simp_all add: s1_def\<close>)
    moreover have "s1\<lparr>env := e', ents := g, ents_end := m, bufs := z\<rparr> = s\<lparr>env := e', ents := g, ents_end := m, bufs := z\<rparr>"
      for e' g m z by (simp add: s1_def)
    moreover have "(dirs (env s1))(fd \<mapsto> (T, [])) = (dirs (env s))(fd \<mapsto> (T, []))" by (simp add: s1_def env1)
    ultimately show ?thesis by (simp only: step)
  next
    case False
    then obtain n k ks' where ks: "ks = Kid n k ks'" "d_name dp = n" using Cons.prems(10) by (cases ks) simp_all
    have kid: "(n, k) \<in> set (kid_list ks)" by (simp add: ks)
    with fit1 have fit: "\<not> ISDOT n" "len + length n < 4096" "unseen s1 u l k" "(n, k) \<in> set (kid_list (kids_of T))"
      by (auto simp: kids_fit_def)
    have "bufs s1 = bufs s" by (simp add: s1_def)
    then have bufs1: "bufs s1 = [b \<mapsto> path_of f]" using Cons.prems(2) by (rule trans)
    have s1: "sp_options s1 = WALK" "sp_path s1 = b" "sp_cur s1 = u" "ents_end s1 = N" "ents s1 N = None"
      by (simp_all add: s1_def Cons.prems(1,3,4,6,7))
    define x where "x = walk_ent b u (int l) (path_join P n) n k 0"
    obtain e2 where entry: "build_entry sys c head dp (-1) maxlen s1 = ret (Some (N, -1, maxlen), s1\<lparr>env := e2,
        ents := (ents s1)(N \<mapsto> x), ents_end := Suc N, bufs := [b \<mapsto> path_of (put_chars len (n @ [NUL]) f)]\<rparr>)"
      and env2: "dirs e2 = dirs (env s1)"
      unfolding x_def
      by (rule build_entry_walk [OF sys s1(1) bufs1 s1(2) c l ks(2) fit(1) len fit(2) max fd1 fit(4,3) s1(3-5) Cons.prems(8)])
    define s2 where "s2 = s1\<lparr>env := e2, ents := (ents s1)(N \<mapsto> x), ents_end := Suc N,
      bufs := [b \<mapsto> path_of (put_chars len (n @ [NUL]) f)]\<rparr>"
    define s3 where "s3 = s2\<lparr>ents := h(N \<mapsto> x)\<rparr>"
    have tail: "(if head = 0 then ret s2 else change tail (\<lambda>e. e\<lparr>fts_link := N\<rparr>) s2) = ret s3"
    proof (cases "head = 0")
      case True
      with Cons.prems(13) have "h = ents s" by simp
      with True show ?thesis by (simp add: s3_def s2_def s1_def)
    next
      case False
      with Cons.prems(12) ks(1) obtain et where et: "ents s tail = Some et" "h = (ents s)(tail \<mapsto> et\<lparr>fts_link := N\<rparr>)"
        by (auto simp del: fun_upd_apply)
      have "tail \<noteq> N" using et(1) Cons.prems(7) by auto
      then have "ents s2 tail = Some et" using et(1) by (simp add: s2_def s1_def)
      with False \<open>tail \<noteq> N\<close> show ?thesis
        by (simp add: change_ent s3_def s2_def s1_def et(2) fun_upd_twist)
    qed
    have fit3: "kids_fit s3 u l len T ks'"
    proof -
      have "unseen s3 u l k'" if u: "unseen s1 u l k'" for k'
      proof (cases "head = 0")
        case True
        with Cons.prems(13) have "ents s3 = (ents s1)(N \<mapsto> x)" by (simp add: s3_def s1_def)
        moreover have "sp_cycles s3 = sp_cycles s1" by (simp add: s3_def s2_def)
        ultimately show ?thesis by (intro unseen_fresh [OF u _ _ s1(5)])
      next
        case False
        with Cons.prems(12) ks(1) obtain et where et: "ents s tail = Some et" "fts_level et = int l"
          "h = (ents s)(tail \<mapsto> et\<lparr>fts_link := N\<rparr>)" by (auto simp del: fun_upd_apply)
        have h: "unseen (s1\<lparr>ents := h\<rparr>) u l k'"
        proof (rule unseen_link [OF u, where e = et])
          show "ents (s1\<lparr>ents := h\<rparr>) = (ents s1)(tail \<mapsto> et\<lparr>fts_link := N\<rparr>)" unfolding et(3) by (simp add: s1_def)
        qed (use et(1,2) in \<open>simp_all add: s1_def\<close>)
        have "tail \<noteq> N" using et(1) Cons.prems(7) by auto
        then have "ents (s1\<lparr>ents := h\<rparr>) N = None" using Cons.prems(7) et(3) by simp
        then show ?thesis by (rule unseen_fresh [OF h, rotated -1]) (simp_all add: s3_def s2_def)
      qed
      with fit1 have "kids_fit s3 u l len T ks" by (rule kids_fit_cong)
      then show ?thesis by (simp add: kids_fit_def ks(1))
    qed
    define h' where "h' = (if ks' = No_kids then ents s3 else (ents s3)(N \<mapsto> x\<lparr>fts_link := Suc N\<rparr>))"
    define head' where "head' = (if head = 0 then N else head)"
    have h0: "h q = None" if "N \<le> q" for q
      using that Cons.prems(7,12,13) ks(1) by (cases "head = 0") auto
    have "\<exists>e' f'. build_loop sys c head' N (Suc cnt) (-1) maxlen s3 =
      ret (Some (if head' = 0 \<and> ks' \<noteq> No_kids then Suc N else head', Suc cnt + kid_count ks'),
        s3\<lparr>env := e', ents := kid_heap b u l P (Suc N) ks' h', ents_end := Suc N + kid_count ks', bufs := [b \<mapsto> path_of f']\<rparr>)
      \<and> dirs e' = (dirs (env s3))(fd \<mapsto> (T, [])) \<and> (\<forall>i < len. f' i = put_chars len (n @ [NUL]) f i)
      \<and> (ks' = No_kids \<longrightarrow> f' = put_chars len (n @ [NUL]) f)"
    proof (rule Cons.IH)
      show "sp_options s3 = WALK" "bufs s3 = [b \<mapsto> path_of (put_chars len (n @ [NUL]) f)]" "sp_path s3 = b" "sp_cur s3 = u"
        "errno_v s3 = None" "ents_end s3 = Suc N" "Suc N \<noteq> 0" "kids_fit s3 u l len T ks'"
        using s1 Cons.prems(5) fit3 by (simp_all add: s3_def s2_def s1_def)
      show "\<forall>q \<ge> Suc N. ents s3 q = None" using h0 by (simp add: s3_def)
      show "dirs (env s3) fd = Some (T, ds)" using fd1 env2 by (simp add: s3_def s2_def)
      show "filter (\<lambda>n. \<not> ISDOT n) (map d_name ds) = map fst (kid_list ks')" using Cons.prems(10) False ks by simp
      show "head' \<noteq> 0 \<longrightarrow> (\<exists>et. ents s3 N = Some et \<and> fts_level et = int l
        \<and> h' = (if ks' = No_kids then ents s3 else (ents s3)(N \<mapsto> et\<lparr>fts_link := Suc N\<rparr>)))"
        by (simp add: h'_def s3_def x_def)
      show "head' = 0 \<longrightarrow> h' = ents s3" using Cons.prems(8) by (simp add: head'_def)
    qed
    then obtain e' f' where rec: "build_loop sys c head' N (Suc cnt) (-1) maxlen s3 =
      ret (Some (if head' = 0 \<and> ks' \<noteq> No_kids then Suc N else head', Suc cnt + kid_count ks'),
        s3\<lparr>env := e', ents := kid_heap b u l P (Suc N) ks' h', ents_end := Suc N + kid_count ks', bufs := [b \<mapsto> path_of f']\<rparr>)"
      "dirs e' = (dirs (env s3))(fd \<mapsto> (T, []))" "\<forall>i < len. f' i = put_chars len (n @ [NUL]) f i" by blast
    have head': "head' \<noteq> 0" using Cons.prems(8) by (simp add: head'_def)
    have heap: "kid_heap b u l P (Suc N) ks' h' = kid_heap b u l P N ks h"
    proof -
      have "h' = h(N \<mapsto> walk_ent b u (int l) (path_join P n) n k (if ks' = No_kids then 0 else Suc N))"
        by (simp add: h'_def s3_def x_def)
      then show ?thesis by (simp add: ks(1) kid_heap_update)
    qed
    have "build_loop sys c head tail cnt (-1) maxlen s = build_loop sys c head' N (Suc cnt) (-1) maxlen s3"
      unfolding head'_def by (rule build_loop_entry [OF call1 _ entry [folded s2_def] tail]) (use fit(1) ks(2) in simp)
    then have "build_loop sys c head tail cnt (-1) maxlen s = ret (Some (if head = 0 \<and> ks \<noteq> No_kids then N else head, cnt + kid_count ks),
        s\<lparr>env := e', ents := kid_heap b u l P N ks h, ents_end := N + kid_count ks, bufs := [b \<mapsto> path_of f']\<rparr>)"
      using rec(1) head' by (simp add: heap ks(1) head'_def s3_def s2_def s1_def)
    moreover have "dirs e' = (dirs (env s))(fd \<mapsto> (T, []))" using rec(2) env1 env2 by (simp add: s3_def s2_def s1_def)
    moreover have "\<forall>i < len. f' i = f i" using rec(3) by (simp add: put_chars_at)
    moreover have "ks = No_kids \<longrightarrow> f' = f" by (simp add: ks(1))
    ultimately show ?thesis by blast
  qed
qed

end
