(* ===== verification/Fts_Steps.thy ===== *)
theory Fts_Steps
  imports Fts_Kids
begin

text \<open>What one call of \<open>fts_read\<close> does in the middle of a walk.\<close>

section \<open>The path\<close>

lemma unat_length_minus_one: "P \<noteq> [] \<Longrightarrow> length P < 2 ^ 32 \<Longrightarrow> unat (of_nat (length P) - 1 :: u32) = length P - 1"
proof -
  assume P: "P \<noteq> []" "length P < 2 ^ 32"
  then have "(of_nat (length P) - 1 :: u32) = of_nat (length P - 1)" by (cases P) simp_all
  then show ?thesis using P(2) by (simp add: unat_of_nat_u32 del: of_nat_diff)
qed

lemma path_join_empty: "path_join P [] = (if last P = CHR ''/'' then P else P @ ''/'')"
  by (simp add: path_join_def)

lemma path_join_length: "P \<noteq> [] \<Longrightarrow> 0 < length (path_join P []) \<and> length (path_join P []) \<le> Suc (length P)
  \<and> length P \<le> length (path_join P [])"
  by (auto simp: path_join_empty)

text \<open>Where the names of the entries of a directory go, less the slash.\<close>

definition slash_at :: "string \<Rightarrow> nat" where
  "slash_at P = length (path_join P []) - 1"

lemma name_place_walk:
  assumes "bufs s = [b \<mapsto> path_of f]" and "starts f P" "P \<noteq> []" "length P < 4096" and "fts_path e = b" "fts_pathlen e = of_nat (length P)"
  shows "name_place e s = ret (of_nat (slash_at P))"
proof -
  have "f (length P - 1) = last P" using assms(2,3) by (simp add: starts_def last_conv_nth)
  moreover have "read_path s b (unat (of_nat (length P) - 1 :: u32)) = ret (f (length P - 1))"
    using assms(1,3,4) by (simp add: read_path_def buf_def unat_length_minus_one)
  moreover have "(of_nat (length P) - 1 :: u32) = of_nat (length P - 1)" using assms(3) by (cases P) simp_all
  ultimately show ?thesis using assms(5,6) by (simp add: name_place_def slash_at_def path_join_empty)
qed

lemma slash_written:
  assumes "starts f P" "P \<noteq> []"
  shows "starts (put_chars (slash_at P) (CHR ''/'' # cs) f) (path_join P [])"
proof -
  have len: "length (path_join P []) = Suc (slash_at P)" using path_join_length [OF assms(2)] by (simp add: slash_at_def)
  have slash: "path_join P [] ! slash_at P = CHR ''/''"
    using assms(2) by (auto simp: path_join_empty slash_at_def last_conv_nth nth_append)
  have below: "put_chars (slash_at P) (CHR ''/'' # cs) f i = path_join P [] ! i" if "i < slash_at P" for i
  proof -
    have "i < length P" using that by (auto simp: slash_at_def path_join_empty split: if_splits)
    then show ?thesis using assms(1) that by (simp add: put_chars_at starts_def path_join_empty nth_append)
  qed
  show ?thesis unfolding starts_def
  proof (intro allI impI)
    fix i assume "i < length (path_join P [])"
    then consider "i < slash_at P" | "i = slash_at P" unfolding len by linarith
    then show "put_chars (slash_at P) (CHR ''/'' # cs) f i = path_join P [] ! i"
      by cases (use slash below in \<open>simp_all add: put_chars_at\<close>)
  qed
qed

lemma name_written:
  assumes "starts f P" "P \<noteq> []"
  shows "holds (put_chars (slash_at P) (CHR ''/'' # n @ [NUL]) f) (path_join P n)"
proof -
  let ?g = "put_chars (slash_at P) (CHR ''/'' # n @ [NUL]) f"
  have len: "length (path_join P []) = Suc (slash_at P)" using path_join_length [OF assms(2)] by (simp add: slash_at_def)
  have pre: "?g i = path_join P [] ! i" if "i < Suc (slash_at P)" for i
    using slash_written [OF assms, of "n @ [NUL]"] that by (simp add: starts_def len)
  have post: "?g (Suc (slash_at P) + j) = (n @ [NUL]) ! j" if "j \<le> length n" for j
    using that by (simp add: put_chars_at)
  have "?g i = path_join P n ! i" if "i < length (path_join P n)" for i
    using that pre [of i] post [of "i - Suc (slash_at P)"] len
    by (subst path_join_nil) (cases "i < Suc (slash_at P)", auto simp: nth_append path_join_nil [of P n])
  moreover have "?g (length (path_join P n)) = NUL"
    using post [of "length n"] len by (subst path_join_nil) (simp add: nth_append)
  ultimately show ?thesis by (simp add: holds_def starts_def)
qed

section \<open>Building the list\<close>

definition path_ok :: "string \<Rightarrow> nat \<Rightarrow> bool" where
  "path_ok P l \<longleftrightarrow> P \<noteq> [] \<and> NUL \<notin> set P \<and> length P < 4096 \<and> l \<le> length P"

definition on_path :: "nat \<Rightarrow> string \<Rightarrow> nat \<Rightarrow> tree \<Rightarrow> ftsent \<Rightarrow> bool" where
  "on_path b P l t e \<longleftrightarrow> fts_accpath e = Path_at b 0 \<and> fts_path e = b \<and> fts_pathlen e = of_nat (length P)
     \<and> fts_level e = int l \<and> fts_errno e = None \<and> fts_flags e = 0 \<and> fts_instr e = FTS_NOINSTR
     \<and> (is_dir t \<longrightarrow> fts_dev e = st_dev (stat_of t) \<and> fts_ino e = st_ino (stat_of t))"

lemma build_open_walk:
  assumes sys: "serves sys dirs F" "(P, t) \<in> F" "is_dir t" and opt: "sp_options s = WALK" "bufs s = [b \<mapsto> path_of f]"
    and e: "ents s (sp_cur s) = Some e" "on_path b P l t e" and P: "path_ok P l" "holds f P"
  obtains fd ds e' where "build_open sys type s = ret (Some fd, s\<lparr>env := e'\<rparr>)" "dirs (env s) fd = None"
    "dirs e' = (dirs (env s))(fd \<mapsto> (t, ds))" "filter (\<lambda>n. \<not> ISDOT n) (map d_name ds) = map fst (kid_list (kids_of t))"
proof -
  obtain fd ds e1 where c1: "call (open_fn sys P [O_DIRECTORY, O_CLOEXEC, O_NOFOLLOW]) s = (Some fd, s\<lparr>env := e1\<rparr>)"
    and d1: "dirs (env s) fd = None" "dirs e1 = (dirs (env s))(fd \<mapsto> (t, ds))"
      "filter (\<lambda>n. \<not> ISDOT n) (map d_name ds) = map fst (kid_list (kids_of t))"
    by (rule serves_opendir [OF sys])
  have fd1: "dirs (env (s\<lparr>env := e1\<rparr>)) fd = Some (t, ds)" by (simp add: d1(2))
  obtain e2 where c2: "call (fstat_fn sys fd) (s\<lparr>env := e1\<rparr>) = (Some (stat_of t), s\<lparr>env := e2\<rparr>)" and d2: "dirs e2 = dirs e1"
    using serves_fstat [OF sys(1) fd1] by auto
  have fd2: "dirs (env (s\<lparr>env := e2\<rparr>)) fd = Some (t, ds)" by (simp add: d2 d1(2))
  obtain e3 where c3: "call (fdopendir_fn sys fd) (s\<lparr>env := e2\<rparr>) = (Some (), s\<lparr>env := e3\<rparr>)" and d3: "dirs e3 = dirs e2"
    using serves_fdopendir [OF sys(1) fd2] by auto
  have "path_string s (Path_at b 0) = ret P" using holds_string [of s b f P] opt(2) P by (simp add: path_ok_def)
  moreover have "\<not> fts_level e \<ge> SHRT_MAX" using P(1) e(2) by (simp add: path_ok_def on_path_def SHRT_MAX_def)
  moreover have "open_flags s = [O_DIRECTORY, O_CLOEXEC, O_NOFOLLOW]" using walk_options(2) [OF opt(1)] by (simp add: open_flags_def)
  ultimately have "build_open sys type s = ret (Some fd, s\<lparr>env := e3\<rparr>)"
    using c1 c2 c3 e sys(3) by (simp add: build_open_def ent_some on_path_def)
  moreover have "dirs e3 = (dirs (env s))(fd \<mapsto> (t, ds))" using d1(2) d2 d3 by simp
  ultimately show ?thesis using d1(1,3) by (intro that)
qed

lemma build_walk:
  assumes sys: "serves sys dirs F" "(P, t) \<in> F" "is_dir t" and w: "walking b f s" "sp_cur s = p"
    and e: "ents s p = Some e" "on_path b P l t e" and P: "path_ok P l" "holds f P" and len: "len = length (path_join P [])"
    and fit: "kids_fit s p (Suc l) len t (kids_of t)" and ks: "ks = kids_of t" and N: "N = ents_end s"
  obtains e' f' where "fts_build sys BREAD s = ret (if ks = No_kids then 0 else N, s\<lparr>env := e', errno_v := None,
      ents := (if ks = No_kids then (ents s)(p \<mapsto> e\<lparr>fts_info := FTS_DP\<rparr>) else kid_heap b p (Suc l) P N ks (ents s)),
      ents_end := N + kid_count ks, bufs := [b \<mapsto> path_of f']\<rparr>)"
    "dirs e' = dirs (env s)" "starts f' (path_join P [])" "ks = No_kids \<longrightarrow> holds f' (path_join P [])"
proof -
  note wd = walkingD [OF w(1)]
  have P': "P \<noteq> []" "length P < 4096" "starts f P" using P by (simp_all add: path_ok_def holds_def)
  have cur: "ents s (sp_cur s) = Some e" using w(2) e(1) by simp
  obtain fd ds e1 where opn: "build_open sys BREAD s = ret (Some fd, s\<lparr>env := e1\<rparr>)" and d1: "dirs (env s) fd = None"
    "dirs e1 = (dirs (env s))(fd \<mapsto> (t, ds))" "filter (\<lambda>n. \<not> ISDOT n) (map d_name ds) = map fst (kid_list ks)"
    unfolding ks by (rule build_open_walk [OF sys wd(2,7) cur e(2) P])
  define k where "k = slash_at P"
  have k: "len = Suc k" "k < 8190" using path_join_length [OF P'(1)] P'(2) unfolding k_def slash_at_def len by linarith+
  define f1 where "f1 = put_chars k [CHR ''/'', NUL] f"
  have f1: "holds f1 (path_join P [])" using name_written [OF P'(3,1), of "[]"] by (simp add: f1_def k_def)
  define s1 where "s1 = s\<lparr>env := e1, bufs := [b \<mapsto> path_of f1], errno_v := None\<rparr>"
  define c where "c = \<lparr>b_fd = fd, b_len = of_nat len, b_level = int (Suc l), b_nostat = False, b_cderrno = None\<rparr>"
  define maxlen where "maxlen = (ucast (8192 :: u32) - of_nat len :: u64)"
  have place: "name_place e (s\<lparr>env := e1\<rparr>) = ret (of_nat k)"
    using name_place_walk [of "s\<lparr>env := e1\<rparr>" b f P e] wd(7) P' e(2) by (simp add: k_def on_path_def)
  have uat: "unat (of_nat k :: u32) = k" using k(2) by (simp add: unat_of_nat_u32)
  have wr: "write_path b k [CHR ''/'', NUL] (s\<lparr>env := e1\<rparr>) = ret (s\<lparr>env := e1, bufs := [b \<mapsto> path_of f1]\<rparr>)"
    using write_path_walk [of "s\<lparr>env := e1\<rparr>" b f k "[CHR ''/'', NUL]"] wd(7) k(2) by (simp add: f1_def)
  have len': "ucast (of_nat k :: u32) + 1 = (of_nat len :: u64)"
  proof -
    have "ucast (of_nat k :: u32) = (of_nat k :: u64)" by (simp add: word_unat_eq_iff unsigned_ucast_eq uat
      unat_of_nat_u64 k(2) take_bit_nat_eq_self less_trans [OF k(2)])
    then show ?thesis by (simp add: k(1))
  qed
  have max: "unat maxlen = 8192 - len"
  proof -
    have "maxlen = of_nat (8192 - len)" using k by (simp add: maxlen_def of_nat_diff)
    then show ?thesis by (simp add: unat_of_nat_u64 del: of_nat_diff)
  qed
  define s0 where "s0 = s\<lparr>env := e1\<rparr>"
  have cur0: "ent s0 (sp_cur s0) = ret e" using cur by (simp add: s0_def ent_def)
  have links: "build_links BREAD e s0 = (-1, False)"
    using walk_options(5) [OF wd(2)] by (simp add: build_links_def s0_def)
  have nochdir: "isset FTS_NOCHDIR s0 = True" using walk_options(1) [OF wd(2)] by (simp add: s0_def)
  have descend: "build_descend sys BREAD (-1) fd s0 = ret ((True, None), s0)"
    using nochdir by (simp add: build_descend_def fts_safe_changedir_def)
  have level: "(if fts_level e < SHRT_MAX then fts_level e + 1 else SHRT_MAX) = int (Suc l)" "int (Suc l) < SHRT_MAX"
    using e(2) P(1) by (simp_all add: on_path_def path_ok_def SHRT_MAX_def)
  have s1: "set_errno None (s0\<lparr>bufs := [b \<mapsto> path_of f1]\<rparr>) = s1" by (simp add: s1_def s0_def set_errno_def)
  have plen: "sp_pathlen (s0\<lparr>bufs := [b \<mapsto> path_of f1]\<rparr>) = 8192" "sp_path s0 = b" using wd by (simp_all add: s0_def)
  have "\<exists>e' f'. build_loop sys c 0 0 0 (-1) maxlen s1 =
      ret (Some (if (0 :: nat) = 0 \<and> ks \<noteq> No_kids then N else 0, 0 + kid_count ks),
        s1\<lparr>env := e', ents := kid_heap b p (Suc l) P N ks (ents s), ents_end := N + kid_count ks, bufs := [b \<mapsto> path_of f']\<rparr>)
      \<and> dirs e' = (dirs (env s1))(fd \<mapsto> (t, [])) \<and> (\<forall>i < len. f' i = f1 i) \<and> (ks = No_kids \<longrightarrow> f' = f1)"
  proof (rule build_loop_walk [OF sys(1) c_def level(2) len max])
    show "sp_options s1 = WALK" "sp_path s1 = b" "sp_cur s1 = p" "errno_v s1 = None" "ents_end s1 = N" "N \<noteq> 0"
      "dirs (env s1) fd = Some (t, ds)"
      using wd w(2) N d1(2) by (simp_all add: s1_def)
    show "\<forall>q \<ge> N. ents s1 q = None" using wd(9) N by (simp add: s1_def)
    show "kids_fit s1 p (Suc l) len t ks" unfolding ks by (rule kids_fit_cong [OF fit]) (simp add: unseen_def s1_def)
  qed (use d1(3) in \<open>simp_all add: s1_def\<close>)
  moreover have "(if (0 :: nat) = 0 \<and> ks \<noteq> No_kids then N else 0) = (if ks = No_kids then 0 else N)" "0 + kid_count ks = kid_count ks"
    by simp_all
  ultimately obtain e2 f2 where loop: "build_loop sys c 0 0 0 (-1) maxlen s1 = ret (Some (if ks = No_kids then 0 else N, kid_count ks),
        s1\<lparr>env := e2, ents := kid_heap b p (Suc l) P N ks (ents s), ents_end := N + kid_count ks, bufs := [b \<mapsto> path_of f2]\<rparr>)"
    and e2: "dirs e2 = (dirs (env s1))(fd \<mapsto> (t, []))" and f2: "\<forall>i < len. f2 i = f1 i" "ks = No_kids \<longrightarrow> f2 = f1"
    by (simp only:) blast
  define s2 where "s2 = s1\<lparr>env := e2, ents := kid_heap b p (Suc l) P N ks (ents s), ents_end := N + kid_count ks,
    bufs := [b \<mapsto> path_of f2]\<rparr>"
  have "dirs (env s2) fd = Some (t, [])" by (simp add: s2_def e2)
  from serves_closedir [OF sys(1) this] obtain e3 where c3: "call (closedir_fn sys fd) s2 = (Some (), s2\<lparr>env := e3\<rparr>)"
    and e3: "dirs e3 = (dirs (env s2))(fd := None)" by blast
  define s3 where "s3 = s\<lparr>env := e3, errno_v := None,
      ents := (if ks = No_kids then (ents s)(p \<mapsto> e\<lparr>fts_info := FTS_DP\<rparr>) else kid_heap b p (Suc l) P N ks (ents s)),
      ents_end := N + kid_count ks, bufs := [b \<mapsto> path_of f2]\<rparr>"
  have list: "build_list sys BREAD True fd (if ks = No_kids then 0 else N) (kid_count ks) s2 = ret (if ks = No_kids then 0 else N, s3)"
  proof (cases ks)
    case No_kids
    have "change (sp_cur (s2\<lparr>env := e3\<rparr>)) (\<lambda>e. e\<lparr>fts_info := FTS_DP\<rparr>) (s2\<lparr>env := e3\<rparr>) = ret s3"
      using w(2) e(1) by (simp add: change_def ent_def s3_def s2_def s1_def No_kids)
    then show ?thesis by (simp add: build_list_def call_ignored_def c3 No_kids)
  next
    case (Kid n t' ks')
    have "sp_compar (s2\<lparr>env := e3\<rparr>) = None" using wd(3) by (simp add: s2_def s1_def)
    moreover have "s2\<lparr>env := e3\<rparr> = s3" by (simp add: s3_def s2_def s1_def Kid)
    ultimately show ?thesis using N wd(11) by (simp add: build_list_def call_ignored_def c3 Kid)
  qed
  have "fts_build sys BREAD s = ret (if ks = No_kids then 0 else N, s3)"
    by (simp only: fts_build_def opn s0_def [symmetric] andthen_simps prod.case option.case cur0 links descend
        place [folded s0_def] nochdir if_True uat plen wr [folded s0_def, simplified s0_def [symmetric]] Let_def len' level(1)
        c_def [symmetric] maxlen_def [symmetric] s1 loop s2_def [symmetric] list)
  moreover have "dirs e3 = dirs (env s)"
    using e3 e2 d1 by (auto simp: s2_def s1_def fun_eq_iff)
  moreover have "starts f2 (path_join P [])" using f1 f2(1) len by (auto simp: holds_def intro: starts_cong)
  moreover have "ks = No_kids \<longrightarrow> holds f2 (path_join P [])" using f1 f2(2) by auto
  ultimately show ?thesis using that [of f2 e3] unfolding s3_def by blast
qed

section \<open>Entering a directory\<close>

lemma insert_walk:
  assumes sys: "serves sys dirs F" and ok: "table_ok (sp_cycles s)" and p: "p \<noteq> 0" and new: "table_map (sp_cycles s) (d, i) = None"
  obtains c e' where "cycle_insert sys d i p s = (False, s\<lparr>sp_cycles := c, env := e'\<rparr>)" "dirs e' = dirs (env s)"
    "table_ok c" "table_map c = (table_map (sp_cycles s))((d, i) \<mapsto> p)"
proof -
  from ok obtain bs where bs: "buckets (sp_cycles s) = Some bs" by (auto simp: table_ok_def)
  let ?k = "unat (cycle_hash d i (nbuckets (sp_cycles s)))"
  have "find (cycle_is d i) (bs ! ?k) = None" using new bs by (simp add: find_bucket table_map_def)
  moreover obtain e' where call: "call (malloc_fn sys 32) s = (Some (), s\<lparr>env := e'\<rparr>)" "dirs e' = dirs (env s)"
    by (rule serves_malloc [OF sys])
  ultimately have ins: "cycle_insert sys d i p s =
      (False, s\<lparr>sp_cycles := (sp_cycles s)\<lparr>buckets := Some (bs[?k := (d, i, p) # bs ! ?k])\<rparr>, env := e'\<rparr>)"
    using bs by (simp add: cycle_insert_def Let_def)
  from table_insert [OF ok p ins] new call(2) show ?thesis by (intro that [OF ins]) simp_all
qed

lemma read_name_walk:
  assumes "bufs s = [b \<mapsto> path_of f]" "sp_path s = b" and q: "ents s q = Some e" "fts_parent e = p" "fts_name e = n"
    "fts_namelen e = of_nat (length n)" and up: "ents s p = Some ep" "fts_path ep = b" "fts_pathlen ep = of_nat (length P)"
    and P: "starts f P" "P \<noteq> []" "length P < 4096" "length n < 4096"
  shows "read_name q s = ret (q, s\<lparr>bufs := [b \<mapsto> path_of (put_chars (slash_at P) (CHR ''/'' # n @ [NUL]) f)], sp_cur := q\<rparr>)"
proof -
  have k: "slash_at P < 4096" using path_join_length [OF P(2)] P(3) unfolding slash_at_def by linarith
  have "name_place ep s = ret (of_nat (slash_at P))" using name_place_walk [OF assms(1) P(1-3) up(2,3)] .
  moreover have "name_bytes e = ret (n @ [NUL])" using q(3,4) P(4) by (simp add: name_bytes_walk)
  moreover have "unat (of_nat (slash_at P) :: u32) = slash_at P" using k by (simp add: unat_of_nat_u32)
  moreover have "write_path b (slash_at P) (CHR ''/'' # n @ [NUL]) s
    = ret (s\<lparr>bufs := [b \<mapsto> path_of (put_chars (slash_at P) (CHR ''/'' # n @ [NUL]) f)]\<rparr>)"
    using assms(1) k P(4) by (intro write_path_walk) simp_all
  ultimately show ?thesis using assms(2) q(1,2) up(1) by (simp add: read_name_def ent_some)
qed

definition current :: "nat \<Rightarrow> (nat \<Rightarrow> char) \<Rightarrow> nat \<Rightarrow> ftsent \<Rightarrow> string \<Rightarrow> nat \<Rightarrow> tree \<Rightarrow> 'e fts \<Rightarrow> bool" where
  "current b f p e P l t s \<longleftrightarrow> walking b f s \<and> sp_cur s = p \<and> p \<noteq> 0 \<and> ents s p = Some e \<and> on_path b P l t e
     \<and> path_ok P l \<and> starts f P"

lemma fts_read_start:
  assumes "current b f p e P l t s"
  shows "fts_read sys s = (if fts_info e = FTS_D then read_dir sys p FTS_NOINSTR s else read_next sys p s)"
proof -
  have e: "sp_cur s = p" "p \<noteq> 0" "ents s p = Some e" "fts_instr e = FTS_NOINSTR" "\<not> isset FTS_STOP s"
    using assms walk_options(10) [of s] by (auto simp: current_def on_path_def walking_def)
  have "e\<lparr>fts_instr := FTS_NOINSTR\<rparr> = e" unfolding e(4) [symmetric] by simp
  then have "change p (\<lambda>e. e\<lparr>fts_instr := FTS_NOINSTR\<rparr>) s = ret s" using e(3) by (simp add: change_def ent_def fun_upd_idem)
  then show ?thesis using e by (simp add: fts_read_def ent_some FTS_NOINSTR_def FTS_AGAIN_def FTS_FOLLOW_def Let_def)
qed

lemma walkable_tree:
  "walkable A P t \<Longrightarrow> length P < 4096 \<and> (is_dir t \<longrightarrow> key_of t \<notin> A \<and> walkable_kids (insert (key_of t) A) P (kids_of t))"
  by (cases t) simp

lemma walkable_kid: "walkable_kids A P ks \<Longrightarrow> (n, k) \<in> set (kid_list ks) \<Longrightarrow> plain_name n \<and> walkable A (path_join P n) k"
  by (induction ks rule: kid_list.induct) auto

lemma kids_fit_walk:
  assumes w: "walkable_kids A P (kids_of t)" and up: "ups A (ents s) p l" and tab: "table_ok (sp_cycles s)" "dom (table_map (sp_cycles s)) \<subseteq> A"
  shows "kids_fit s p l (length (path_join P [])) t (kids_of t)"
  unfolding kids_fit_def
proof (intro ballI, clarify)
  fix n k assume "(n, k) \<in> set (kid_list (kids_of t))"
  with walkable_kid [OF w] walkable_tree [of A "path_join P n" k]
  have k: "plain_name n" "length (path_join P n) < 4096" "is_dir k \<longrightarrow> key_of k \<notin> A" by blast+
  have "length (path_join P n) = length (path_join P []) + length n" by (subst path_join_nil) simp
  with k(1,2) have "\<not> ISDOT n \<and> length (path_join P []) + length n < 4096" by (simp add: plain_name_def)
  moreover have "unseen s p l k" unfolding unseen_def using k(3) up tab by blast
  ultimately show "\<not> ISDOT n \<and> length (path_join P []) + length n < 4096 \<and> unseen s p l k \<and> (n, k) \<in> set (kid_list (kids_of t))"
    using \<open>(n, k) \<in> set (kid_list (kids_of t))\<close> by blast
qed

text \<open>A directory is entered: the state after its list is built, from the one where it was seen.\<close>

definition entered :: "nat \<Rightarrow> (nat \<Rightarrow> char) \<Rightarrow> nat \<Rightarrow> ftsent \<Rightarrow> string \<Rightarrow> nat \<Rightarrow> tree \<Rightarrow> cycle_state \<Rightarrow> 'e \<Rightarrow> 'e fts \<Rightarrow> 'e fts" where
  "entered b f p e P l t c e' s = s\<lparr>sp_cycles := c, env := e', errno_v := None,
     ents := (if kids_of t = No_kids then (ents s)(p \<mapsto> e\<lparr>fts_info := FTS_DP\<rparr>) else kid_heap b p (Suc l) P (ents_end s) (kids_of t) (ents s)),
     ents_end := ents_end s + kid_count (kids_of t), bufs := [b \<mapsto> path_of f]\<rparr>"

lemma read_dir_walk:
  assumes sys: "serves sys dirs F" "(P, t) \<in> F" "is_dir t" and cur: "current b f p e P l t s" "fts_info e = FTS_D" "holds f P"
    and up: "ups A (ents s) (fts_parent e) l" "dom (table_map (sp_cycles s)) \<subseteq> A" "walkable A P t"
  obtains f' c e' where "read_dir sys p FTS_NOINSTR s =
      (if kids_of t = No_kids then ret (p, entered b f' p e P l t c e' s)
       else read_name (ents_end s) (entered b f' p e P l t c e' s))"
    "table_ok c" "table_map c = (table_map (sp_cycles s))(key_of t \<mapsto> p)" "dirs e' = dirs (env s)"
    "starts f' (path_join P [])" "kids_of t = No_kids \<longrightarrow> holds f' (path_join P [])"
proof -
  have w: "walking b f s" "sp_cur s = p" "p \<noteq> 0" "ents s p = Some e" "on_path b P l t e" "path_ok P l"
    using cur(1) by (simp_all add: current_def)
  note wd = walkingD [OF w(1)] and opt = walk_options [OF walkingD(2) [OF w(1)]]
  have key: "fts_dev e = st_dev (stat_of t)" "fts_ino e = st_ino (stat_of t)" using w(5) sys(3) by (simp_all add: on_path_def)
  from walkable_tree [OF up(3)] sys(3) have wk: "key_of t \<notin> A" "walkable_kids (insert (key_of t) A) P (kids_of t)" by blast+
  with up(2) have new: "table_map (sp_cycles s) (fts_dev e, fts_ino e) = None" by (auto simp: key)
  obtain c e1 where ins: "cycle_insert sys (fts_dev e) (fts_ino e) p s = (False, s\<lparr>sp_cycles := c, env := e1\<rparr>)"
    and c: "table_ok c" "table_map c = (table_map (sp_cycles s))(key_of t \<mapsto> p)" and e1: "dirs e1 = dirs (env s)"
    using insert_walk [OF sys(1) wd(8) w(3) new] unfolding key by blast
  define s1 where "s1 = s\<lparr>sp_cycles := c, env := e1\<rparr>"
  have push: "fts_cycle_push sys p s = ret (False, s1)"
    using ins w(3,4) cur(2) by (simp add: fts_cycle_push_def ent_some s1_def)
  have w1: "walking b f s1" using w(1) c(1) by (simp add: walking_def s1_def)
  have fit: "kids_fit s1 p (Suc l) (length (path_join P [])) t (kids_of t)"
  proof (rule kids_fit_walk [OF wk(2)])
    have "fts_level e = int l" using w(5) by (simp add: on_path_def)
    then show "ups (insert (key_of t) A) (ents s1) p (Suc l)"
      using w(4) key ups_subset [OF up(1), of "insert (key_of t) A"] by (auto simp: s1_def)
  qed (use c up(2) in \<open>auto simp: s1_def\<close>)
  have e1': "sp_cur s1 = p" "ents s1 p = Some e" "ents_end s = ents_end s1" using w by (simp_all add: s1_def)
  obtain e2 f' where build: "fts_build sys BREAD s1 = ret (if kids_of t = No_kids then 0 else ents_end s, s1\<lparr>env := e2, errno_v := None,
      ents := (if kids_of t = No_kids then (ents s1)(p \<mapsto> e\<lparr>fts_info := FTS_DP\<rparr>) else kid_heap b p (Suc l) P (ents_end s) (kids_of t) (ents s1)),
      ents_end := ents_end s + kid_count (kids_of t), bufs := [b \<mapsto> path_of f']\<rparr>)"
    and b2: "dirs e2 = dirs (env s1)" "starts f' (path_join P [])" "kids_of t = No_kids \<longrightarrow> holds f' (path_join P [])"
    by (rule build_walk [OF sys w1 e1'(1,2) w(5,6) cur(3) refl fit refl e1'(3)])
  define s2 where "s2 = entered b f' p e P l t c e2 s"
  have s2: "s1\<lparr>env := e2, errno_v := None,
      ents := (if kids_of t = No_kids then (ents s1)(p \<mapsto> e\<lparr>fts_info := FTS_DP\<rparr>) else kid_heap b p (Suc l) P (ents_end s) (kids_of t) (ents s1)),
      ents_end := ents_end s + kid_count (kids_of t), bufs := [b \<mapsto> path_of f']\<rparr> = s2"
    by (simp add: s2_def s1_def entered_def)
  have child: "sp_child s2 = 0" "sp_child s1 = 0" "\<not> isset FTS_STOP s2" using wd(1) opt(10) by (simp_all add: s2_def s1_def entered_def)
  have id: "s2\<lparr>sp_child := 0\<rparr> = s2" by (rule fts.equality) (use child(1) in simp_all)
  have desc: "read_descend sys p s1 = (if kids_of t = No_kids then ret (p, s2) else read_name (ents_end s) s2)"
    using build [unfolded s2] child wd(11) by (simp add: read_descend_def id)
  have "read_dir sys p FTS_NOINSTR s = read_descend sys p s1"
    using push w(4) opt(7) by (simp add: read_dir_def ent_some FTS_NOINSTR_def FTS_SKIP_def)
  then have "read_dir sys p FTS_NOINSTR s = (if kids_of t = No_kids then ret (p, s2) else read_name (ents_end s) s2)" using desc by simp
  moreover have "dirs e2 = dirs (env s)" using b2(1) e1 by (simp add: s1_def)
  ultimately show ?thesis using c b2(2,3) unfolding s2_def by (intro that)
qed

section \<open>Leaving an entry\<close>

definition kind_after :: "tree \<Rightarrow> fts_kind" where
  "kind_after t = (if is_dir t then FTS_DP else kind_of t)"

lemma kind_after_not_D [simp]: "kind_after t \<noteq> FTS_D"
  using kind_of_D [of t] by (simp add: kind_after_def)

definition table_after :: "tree \<Rightarrow> cycle_state \<Rightarrow> cycle_state" where
  "table_after t c = (if is_dir t then cycle_remove (st_dev (stat_of t)) (st_ino (stat_of t)) c else c)"

lemma table_after_map:
  "table_ok c \<Longrightarrow> table_ok (table_after t c)
    \<and> table_map (table_after t c) = (if is_dir t then (table_map c)(key_of t := None) else table_map c)"
  using table_remove [of c] by (simp add: table_after_def)

lemma leave_walk:
  assumes e: "ents s p = Some e" "p \<noteq> 0" "on_path b P l t e" "fts_info e = kind_after t"
  shows "leave p s = ret (s\<lparr>sp_cycles := table_after t (sp_cycles s), sp_cur := 0, ents := (ents s)(p := None)\<rparr>)"
proof (cases "is_dir t")
  case True
  then have "fts_cycle_pop p s = ret (s\<lparr>sp_cycles := table_after t (sp_cycles s)\<rparr>)"
    using e by (simp add: fts_cycle_pop_def ent_some on_path_def kind_after_def table_after_def)
  then show ?thesis using e(1,2) by (simp add: leave_def free_ent_def ent_def)
next
  case False
  with e(4) have "fts_info e \<in> {FTS_SL, FTS_F, FTS_DEFAULT}" using kind_of_cases [OF False] by (simp add: kind_after_def)
  then have "\<not> fts_info e \<in> {FTS_D, FTS_DC, FTS_DNR, FTS_DP, FTS_ERR}" by auto
  then have pop: "fts_cycle_pop p s = ret s" using e(1) by (simp only: fts_cycle_pop_def ent_some andthen_simps if_False if_cancel)
  have "table_after t (sp_cycles s) = sp_cycles s" using False by (simp add: table_after_def)
  then show ?thesis using e(1,2) by (simp add: leave_def free_ent_def ent_def pop)
qed

text \<open>On to the next entry of the directory.\<close>

lemma read_next_sibling:
  assumes cur: "current b f p e P l t s" "fts_info e = kind_after t" "fts_link e = q"
    and q: "q \<noteq> 0" "q \<noteq> p" "ents s q = Some eq" "fts_level eq \<noteq> 0" "fts_instr eq = FTS_NOINSTR"
  shows "read_next sys p s =
    read_name q (s\<lparr>sp_cycles := table_after t (sp_cycles s), sp_cur := 0, ents := (ents s)(p := None)\<rparr>)"
proof -
  have w: "p \<noteq> 0" "ents s p = Some e" "on_path b P l t e" using cur(1) by (simp_all add: current_def)
  have "ents (s\<lparr>sp_cycles := table_after t (sp_cycles s), sp_cur := 0, ents := (ents s)(p := None)\<rparr>) q = Some eq"
    using q(2,3) by simp
  then show ?thesis using leave_walk [OF w(2,1,3) cur(2)] w(2) cur(3) q
    by (subst read_next.simps) (simp add: ent_some FTS_ROOTLEVEL_def FTS_NOINSTR_def FTS_SKIP_def FTS_FOLLOW_def)
qed

text \<open>Back in the directory above.\<close>

lemma read_next_up:
  assumes cur: "current b f p e P l t s" "fts_info e = kind_after t" "fts_link e = 0"
    and u: "fts_parent e = u" "u \<noteq> 0" "u \<noteq> p" "ents s u = Some eu" "on_path b Q m d eu" "path_ok Q m"
  shows "read_next sys p s = ret (u, s\<lparr>sp_cycles := table_after t (sp_cycles s), sp_cur := u,
    ents := ((ents s)(p := None))(u \<mapsto> eu\<lparr>fts_info := FTS_DP\<rparr>), bufs := [b \<mapsto> path_of (f(length Q := NUL))]\<rparr>)"
proof -
  have w: "walking b f s" "p \<noteq> 0" "ents s p = Some e" "on_path b P l t e" using cur(1) by (simp_all add: current_def)
  note wd = walkingD [OF w(1)]
  define s1 where "s1 = s\<lparr>sp_cycles := table_after t (sp_cycles s), sp_cur := 0, ents := (ents s)(p := None)\<rparr>"
  define s2 where "s2 = s1\<lparr>bufs := [b \<mapsto> path_of (f(length Q := NUL))]\<rparr>"
  have leave: "leave p s = ret s1" unfolding s1_def by (rule leave_walk [OF w(3,2,4) cur(2)])
  have eu: "ents s1 u = Some eu" "ents s2 u = Some eu" using u(3,4) by (simp_all add: s1_def s2_def)
  have "bufs s1 = [b \<mapsto> path_of f]" "length Q + 1 \<le> 8192" using wd(7) u(6) by (simp_all add: s1_def path_ok_def)
  then have "write_path b (length Q) [NUL] s1 = ret s2"
    using write_path_walk [of s1 b f "length Q" "[NUL]"] by (simp add: s2_def)
  moreover have "unat (fts_pathlen eu) = length Q" using u(5,6) by (simp add: on_path_def path_ok_def unat_of_nat_u32)
  moreover have "sp_path s1 = b" "isset FTS_NOCHDIR s2" using wd(4) walk_options(1) [OF wd(2)] by (simp_all add: s1_def s2_def)
  moreover have "fts_safe_changedir sys v None q s2 = ret (False, s2)" for v q
    using \<open>isset FTS_NOCHDIR s2\<close> by (simp add: fts_safe_changedir_def)
  moreover have "fts_errno eu = None" "fts_flags eu = 0" "fts_level eu = int m" using u(5) by (simp_all add: on_path_def)
  ultimately have "read_up sys u s1 = ret (u, s2\<lparr>ents := (ents s2)(u \<mapsto> eu\<lparr>fts_info := FTS_DP\<rparr>), sp_cur := u\<rparr>)"
    using u(2) eu by (simp add: read_up_def ent_some change_ent ent_flag_def FTS_ROOTPARENTLEVEL_def FTS_ROOTLEVEL_def Let_def)
  moreover have "s2\<lparr>ents := (ents s2)(u \<mapsto> eu\<lparr>fts_info := FTS_DP\<rparr>), sp_cur := u\<rparr> = s\<lparr>sp_cycles := table_after t (sp_cycles s), sp_cur := u,
    ents := ((ents s)(p := None))(u \<mapsto> eu\<lparr>fts_info := FTS_DP\<rparr>), bufs := [b \<mapsto> path_of (f(length Q := NUL))]\<rparr>"
    by (simp add: s2_def s1_def)
  ultimately show ?thesis
    by (subst read_next.simps) (simp add: ent_some [OF w(3)] cur(3) leave u(1))
qed

end
