(* ===== verification/Fts_Tour.thy ===== *)
theory Fts_Tour
  imports Fts_Steps
begin

text \<open>A whole walk: what \<open>fts_read\<close> reports of a tree, by induction on it.\<close>

section \<open>What is seen of an entry\<close>

definition observe :: "'e fts \<Rightarrow> nat \<Rightarrow> visit run" where
  "observe s p = andthen (ent s p) (\<lambda>e. andthen (path_string s (Path_at (fts_path e) 0)) (\<lambda>P.
     ret (fts_info e, P, fts_level e)))"

lemma observe_walk:
  assumes "ents s p = Some e" "fts_path e = b" "bufs s = [b \<mapsto> path_of f]" "holds f P" "NUL \<notin> set P" "length P < 8192"
  shows "observe s p = ret (fts_info e, P, fts_level e)"
  using assms holds_string [of s b f P] by (simp add: observe_def ent_some)

fun walks :: "'e sys \<Rightarrow> 'e fts \<Rightarrow> visit list \<Rightarrow> 'e fts \<Rightarrow> bool" where
  "walks sys s [] s' \<longleftrightarrow> s' = s"
| "walks sys s (v # vs) s' \<longleftrightarrow> (\<exists>p s1. fts_read sys s = ret (p, s1) \<and> p \<noteq> 0 \<and> observe s1 p = ret v \<and> walks sys s1 vs s')"

lemma walks_append: "walks sys s vs s1 \<Longrightarrow> walks sys s1 ws s' \<Longrightarrow> walks sys s (vs @ ws) s'"
  by (induction vs arbitrary: s) auto

lemma walks_step: "fts_read sys s = ret (p, s1) \<Longrightarrow> p \<noteq> 0 \<Longrightarrow> observe s1 p = ret v \<Longrightarrow> walks sys s [v] s1"
  by simp

text \<open>A walk that ends at an entry with the memory and the table that are told.\<close>

definition arrives ::
  "'e sys \<Rightarrow> 'e open_dirs \<Rightarrow> nat \<Rightarrow> 'e fts \<Rightarrow> visit list \<Rightarrow> 'e fts \<Rightarrow> nat \<Rightarrow> (nat \<Rightarrow> ftsent option) \<Rightarrow> dir_map \<Rightarrow> string \<Rightarrow> bool" where
  "arrives sys dirs b s vs s' p h tab P \<longleftrightarrow> walks sys s vs s' \<and> (\<exists>f. walking b f s' \<and> starts f P) \<and> sp_cur s' = p
     \<and> ents s' = h \<and> table_map (sp_cycles s') = tab \<and> dirs (env s') = dirs (env s) \<and> ents_end s \<le> ents_end s'"

lemma arrives_walks:
  assumes "walks sys s0 us s" "dirs (env s) = dirs (env s0)" "ents_end s0 \<le> ents_end s" and a: "arrives sys dirs b s vs s' p h tab P"
  shows "arrives sys dirs b s0 (us @ vs) s' p h tab P"
proof -
  from a have r: "walks sys s vs s'" "dirs (env s') = dirs (env s)" "ents_end s \<le> ents_end s'" unfolding arrives_def by blast+
  have "walks sys s0 (us @ vs) s'" by (rule walks_append [OF assms(1) r(1)])
  moreover have "dirs (env s') = dirs (env s0)" by (rule trans [OF r(2) assms(2)])
  moreover have "ents_end s0 \<le> ents_end s'" by (rule order_trans [OF assms(3) r(3)])
  ultimately show ?thesis using a unfolding arrives_def by blast
qed

lemma path_join_starts: "starts f (path_join P n) \<Longrightarrow> starts f P"
  using starts_append [of f P] by (auto simp: path_join_def split: if_splits)

section \<open>Directories without entries\<close>

lemma path_ok_join: "path_ok P l \<Longrightarrow> plain_name n \<Longrightarrow> length (path_join P n) < 4096 \<Longrightarrow> path_ok (path_join P n) (Suc l)"
  by (cases n) (auto simp: path_ok_def path_join_def plain_name_def)

lemma read_empty_dir:
  assumes sys: "serves sys dirs F" "(P, t) \<in> F" "is_dir t" and cur: "current b f p e P l t s" "fts_info e = FTS_D" "holds f P"
    and up: "ups A (ents s) (fts_parent e) l" "dom (table_map (sp_cycles s)) \<subseteq> A" "walkable A P t" and none: "kids_of t = No_kids"
  shows "\<exists>s'. arrives sys dirs b s [(FTS_DP, path_join P [], int l)] s' p ((ents s)(p \<mapsto> e\<lparr>fts_info := FTS_DP\<rparr>))
    ((table_map (sp_cycles s))(key_of t \<mapsto> p)) P"
proof -
  obtain f' c e' where dir: "read_dir sys p FTS_NOINSTR s =
      (if kids_of t = No_kids then ret (p, entered b f' p e P l t c e' s)
       else read_name (ents_end s) (entered b f' p e P l t c e' s))"
    and c: "table_ok c" "table_map c = (table_map (sp_cycles s))(key_of t \<mapsto> p)" and e': "dirs e' = dirs (env s)"
    and f': "starts f' (path_join P [])" "kids_of t = No_kids \<longrightarrow> holds f' (path_join P [])"
    by (rule read_dir_walk [OF sys cur up])
  define s' where "s' = entered b f' p e P l t c e' s"
  have w: "walking b f s" "sp_cur s = p" "p \<noteq> 0" "ents s p = Some e" "on_path b P l t e" "path_ok P l"
    using cur(1) by (simp_all add: current_def)
  have s': "ents s' = (ents s)(p \<mapsto> e\<lparr>fts_info := FTS_DP\<rparr>)" "bufs s' = [b \<mapsto> path_of f']" "sp_cycles s' = c" "env s' = e'"
    "sp_cur s' = p" "ents_end s' = ents_end s"
    using none w(2) by (simp_all add: s'_def entered_def)
  have "p < ents_end s" using walkingD(9) [OF w(1), of p] w(4) by (cases "p < ents_end s") auto
  then have "walking b f' s'" using w(1,3) c(1) s' by (auto simp: walking_def s'_def entered_def)
  moreover have "starts f' P" using f'(1) by (rule path_join_starts)
  moreover have "fts_read sys s = ret (p, s')" using fts_read_start [OF cur(1)] cur(2) dir none by (simp add: s'_def)
  moreover have "observe s' p = ret (FTS_DP, path_join P [], int l)"
  proof -
    have "NUL \<notin> set (path_join P [])" "length (path_join P []) < 8192"
      using w(6) path_join_length [of P] by (auto simp: path_ok_def path_join_empty)
    then show ?thesis using observe_walk [of s' p "e\<lparr>fts_info := FTS_DP\<rparr>" b f' "path_join P []"] s' f'(2) none w(5)
      by (simp add: on_path_def)
  qed
  ultimately show ?thesis using w(3) s' c(2) e' unfolding arrives_def by (intro exI [of _ s']) auto
qed

section \<open>The entries of a directory\<close>

text \<open>
  The stream between the entries of a directory: \<open>p\<close> is the directory, in the memory \<open>h\<close> there was
  before its entries, and \<open>x\<close> the entry that was visited with all that is below it.
\<close>

definition in_dir :: "nat \<Rightarrow> nat \<Rightarrow> ftsent \<Rightarrow> string \<Rightarrow> nat \<Rightarrow> tree \<Rightarrow> nat \<Rightarrow> (nat \<Rightarrow> ftsent option) \<Rightarrow> bool" where
  "in_dir b p ep P l d N h \<longleftrightarrow> p \<noteq> 0 \<and> N \<noteq> 0 \<and> h p = Some ep \<and> on_path b P l d ep \<and> path_ok P l \<and> (\<forall>q \<ge> N. h q = None)"

definition gone_by :: "nat \<Rightarrow> nat \<Rightarrow> nat \<Rightarrow> string \<Rightarrow> string \<Rightarrow> tree \<Rightarrow> nat \<Rightarrow> ftsent" where
  "gone_by b p l P n k q = (walk_ent b p (int (Suc l)) (path_join P n) n k q)\<lparr>fts_info := kind_after k\<rparr>"

lemma gone_by_fields [simp]:
  "fts_parent (gone_by b p l P n k q) = p" "fts_link (gone_by b p l P n k q) = q" "fts_info (gone_by b p l P n k q) = kind_after k"
  "on_path b (path_join P n) (Suc l) k (gone_by b p l P n k q)"
  by (simp_all add: gone_by_def on_path_def)

lemma walk_ent_on_path: "on_path b P l t (walk_ent b u (int l) P n t q)"
  by (simp add: on_path_def)

text \<open>The table without the directory that was visited.\<close>

lemma table_restored:
  assumes "table_ok c" "table_map c = (if is_dir k then tab(key_of k \<mapsto> N) else tab)" "is_dir k \<longrightarrow> tab (key_of k) = None"
  shows "table_ok (table_after k c) \<and> table_map (table_after k c) = tab"
  using table_after_map [OF assms(1), of k] assms(2,3) by (auto simp: fun_eq_iff)

lemma after_last_kid:
  assumes s: "walking b f s" "sp_cur s = N" "ents s = h(N \<mapsto> gone_by b p l P n k 0)" "starts f (path_join P n)"
    and d: "in_dir b p ep P l d N h" and n: "path_ok (path_join P n) (Suc l)"
    and tab: "table_map (sp_cycles s) = (if is_dir k then tab(key_of k \<mapsto> N) else tab)" "is_dir k \<longrightarrow> tab (key_of k) = None"
  shows "\<exists>s'. arrives sys dirs b s [(FTS_DP, P, int l)] s' p (h(p \<mapsto> ep\<lparr>fts_info := FTS_DP\<rparr>)) tab P"
proof -
  let ?x = "gone_by b p l P n k 0"
  from d have d': "p \<noteq> 0" "N \<noteq> 0" "h p = Some ep" "on_path b P l d ep" "path_ok P l" "\<forall>q \<ge> N. h q = None"
    by (simp_all add: in_dir_def)
  note wd = walkingD [OF s(1)]
  have pN: "p \<noteq> N" using d'(3,6) by auto
  have cur: "current b f N ?x (path_join P n) (Suc l) k s"
    using s d'(2) n by (simp add: current_def)
  have eu: "ents s p = Some ep" using s(3) d'(3) pN by simp
  define s' where "s' = s\<lparr>sp_cycles := table_after k (sp_cycles s), sp_cur := p,
    ents := ((ents s)(N := None))(p \<mapsto> ep\<lparr>fts_info := FTS_DP\<rparr>), bufs := [b \<mapsto> path_of (f(length P := NUL))]\<rparr>"
  have read: "fts_read sys s = ret (p, s')"
    using fts_read_start [OF cur] read_next_up [OF cur gone_by_fields(3) gone_by_fields(2) gone_by_fields(1) d'(1) pN eu d'(4,5)]
    by (simp add: s'_def)
  have ents: "ents s' = h(p \<mapsto> ep\<lparr>fts_info := FTS_DP\<rparr>)"
    using s(3) d'(6) by (auto simp: s'_def fun_eq_iff)
  have "starts f P" using s(4) by (rule path_join_starts)
  then have hold: "holds (f(length P := NUL)) P" "starts (f(length P := NUL)) P" by (simp_all add: holds_def starts_def)
  have tok: "table_ok (table_after k (sp_cycles s))" "table_map (table_after k (sp_cycles s)) = tab"
    using table_restored [OF wd(8) tab] by simp_all
  have fresh: "N < ents_end s"
  proof (rule ccontr)
    assume "\<not> N < ents_end s"
    then show False using wd(9) [of N] s(3) by simp
  qed
  have "walking b (f(length P := NUL)) s'"
  proof -
    have "ents s' q = None" if "ents_end s \<le> q" for q
    proof -
      have "N \<le> q" "q \<noteq> p" using that fresh d'(3,6) by auto
      then show ?thesis using d'(6) by (simp add: ents)
    qed
    moreover have "ents s' 0 = None" using wd(10) d'(1,2) by (simp add: s'_def)
    ultimately show ?thesis using s(1) tok(1) unfolding walking_def by (simp add: s'_def)
  qed
  moreover have "observe s' p = ret (FTS_DP, P, int l)"
  proof -
    have "ents s' p = Some (ep\<lparr>fts_info := FTS_DP\<rparr>)" by (simp add: ents)
    moreover have "bufs s' = [b \<mapsto> path_of (f(length P := NUL))]" by (simp add: s'_def)
    ultimately show ?thesis using observe_walk [of s' p _ b _ P] hold(1) d'(4,5) by (simp add: on_path_def path_ok_def)
  qed
  ultimately have "walks sys s [(FTS_DP, P, int l)] s'" "\<exists>f. walking b f s' \<and> starts f P"
    using walks_step [OF read d'(1)] hold(2) by blast+
  moreover have "sp_cur s' = p" "table_map (sp_cycles s') = tab" "dirs (env s') = dirs (env s)" "ents_end s \<le> ents_end s'"
    using tok by (simp_all add: s'_def)
  ultimately show ?thesis using ents unfolding arrives_def by blast
qed

text \<open>The entry \<open>q\<close> of the name \<open>n\<close> becomes the current one.\<close>

lemma enter_kid:
  assumes s: "walking b f s" "starts f P" "ents s q = Some (walk_ent b p (int (Suc l)) (path_join P n) n k link)" "q \<noteq> 0"
    and d: "ents s p = Some ep" "on_path b P l d ep" "path_ok P l" and n: "plain_name n" "length (path_join P n) < 4096"
  obtains s' f' where "read_name q s = ret (q, s')" "walking b f' s'" "holds f' (path_join P n)" "sp_cur s' = q" "ents s' = ents s"
    "sp_cycles s' = sp_cycles s" "env s' = env s" "ents_end s' = ents_end s" "observe s' q = ret (kind_of k, path_join P n, int (Suc l))"
proof -
  note wd = walkingD [OF s(1)]
  let ?e = "walk_ent b p (int (Suc l)) (path_join P n) n k link"
  define f' where "f' = put_chars (slash_at P) (CHR ''/'' # n @ [NUL]) f"
  define s' where "s' = s\<lparr>bufs := [b \<mapsto> path_of f'], sp_cur := q\<rparr>"
  have P: "P \<noteq> []" "length P < 4096" using d(3) by (simp_all add: path_ok_def)
  have len: "length P + length n \<le> length (path_join P n)" by (simp add: path_join_def)
  have "length n < 4096" using len n(2) by linarith
  have k: "slash_at P < 4096" using path_join_length [OF P(1)] P(2) unfolding slash_at_def by linarith
  have "read_name q s = ret (q, s')" unfolding s'_def f'_def
    by (rule read_name_walk [OF wd(7,4) s(3), where ep = ep]) (use d s(2) P \<open>length n < 4096\<close> in \<open>simp_all add: on_path_def\<close>)
  moreover have hold: "holds f' (path_join P n)" unfolding f'_def by (rule name_written [OF s(2) P(1)])
  moreover have "walking b f' s'" using s(1) by (simp add: walking_def s'_def)
  moreover have "observe s' q = ret (kind_of k, path_join P n, int (Suc l))"
  proof -
    have "NUL \<notin> set (path_join P n)" using d(3) n(1) by (auto simp: path_ok_def plain_name_def path_join_def)
    moreover have "ents s' q = Some ?e" "bufs s' = [b \<mapsto> path_of f']" "length (path_join P n) < 8192"
      using s(3) n(2) by (simp_all add: s'_def)
    ultimately show ?thesis using observe_walk [of s' q ?e b f' "path_join P n"] hold by simp
  qed
  ultimately show ?thesis by (intro that) (simp_all add: s'_def)
qed

lemma after_kid:
  assumes s: "walking b f s" "sp_cur s = N" "starts f (path_join P n)"
      "ents s = (kid_heap b p (Suc l) P (Suc N) (Kid n2 k2 ks) h)(N \<mapsto> gone_by b p l P n k (Suc N))"
    and d: "in_dir b p ep P l d N h" and n: "path_ok (path_join P n) (Suc l)"
    and n2: "plain_name n2" "length (path_join P n2) < 4096"
    and tab: "table_map (sp_cycles s) = (if is_dir k then tab(key_of k \<mapsto> N) else tab)" "is_dir k \<longrightarrow> tab (key_of k) = None"
  shows "\<exists>s' f'. walks sys s [(kind_of k2, path_join P n2, int (Suc l))] s' \<and> walking b f' s' \<and> holds f' (path_join P n2)
    \<and> sp_cur s' = Suc N \<and> ents s' = kid_heap b p (Suc l) P (Suc N) (Kid n2 k2 ks) h \<and> table_map (sp_cycles s') = tab
    \<and> env s' = env s \<and> ents_end s' = ents_end s"
proof -
  let ?x = "gone_by b p l P n k (Suc N)" and ?h = "kid_heap b p (Suc l) P (Suc N) (Kid n2 k2 ks) h"
  from d have d': "p \<noteq> 0" "N \<noteq> 0" "h p = Some ep" "on_path b P l d ep" "path_ok P l" "\<forall>q \<ge> N. h q = None"
    by (simp_all add: in_dir_def)
  note wd = walkingD [OF s(1)]
  have "\<not> N \<le> p" using d'(3,6) by auto
  then have pN: "p < N" by simp
  define s1 where "s1 = s\<lparr>sp_cycles := table_after k (sp_cycles s), sp_cur := 0, ents := (ents s)(N := None)\<rparr>"
  have cur: "current b f N ?x (path_join P n) (Suc l) k s"
    using s d'(2) n by (simp add: current_def)
  have "?h N = h N" by (rule kid_heap_below) simp
  then have ents1: "ents s1 = ?h" using d'(6) by (simp add: s1_def s(4) fun_upd_idem)
  define e2 where "e2 = walk_ent b p (int (Suc l)) (path_join P n2) n2 k2 (if ks = No_kids then 0 else Suc (Suc N))"
  have q: "?h (Suc N) = Some e2" by (simp add: e2_def)
  have next_kid: "fts_read sys s = read_name (Suc N) s1"
  proof -
    have e2: "ents s (Suc N) = Some e2" using s(4) q by simp
    show ?thesis using fts_read_start [OF cur]
        read_next_sibling [OF cur gone_by_fields(3) gone_by_fields(2) _ _ e2] by (simp add: e2_def s1_def)
  qed
  have tok: "table_ok (table_after k (sp_cycles s))" "table_map (table_after k (sp_cycles s)) = tab"
    using table_restored [OF wd(8) tab] by simp_all
  have w1: "walking b f s1"
  proof -
    have "ents s1 q = None" if "ents_end s \<le> q" for q using wd(9) [OF that] by (simp add: s1_def)
    then show ?thesis using s(1) tok(1) unfolding walking_def by (simp add: s1_def)
  qed
  have st: "starts f P" using s(3) by (rule path_join_starts)
  have ep: "ents s1 p = Some ep" using pN d'(3) unfolding ents1 by (subst kid_heap_below) simp_all
  obtain s' f' where r: "read_name (Suc N) s1 = ret (Suc N, s')" "walking b f' s'" "holds f' (path_join P n2)" "sp_cur s' = Suc N"
    "ents s' = ents s1" "sp_cycles s' = sp_cycles s1" "env s' = env s1" "ents_end s' = ents_end s1"
    "observe s' (Suc N) = ret (kind_of k2, path_join P n2, int (Suc l))"
    by (rule enter_kid [OF w1 st q [folded ents1, unfolded e2_def] _ ep d'(4,5) n2]) simp
  have "walks sys s [(kind_of k2, path_join P n2, int (Suc l))] s'"
    by (rule walks_step [OF _ _ r(9)]) (simp_all add: next_kid r(1))
  moreover have "table_map (sp_cycles s') = tab" using tok(2) r(6) by (simp add: s1_def)
  moreover have "env s' = env s" "ents_end s' = ents_end s" using r(7,8) by (simp_all add: s1_def)
  ultimately show ?thesis using r(2-5) ents1 by (intro exI [of _ s'] exI [of _ f']) simp
qed

section \<open>Trees\<close>

lemma ups_kid_heap:
  assumes "ups A h p n" and "\<forall>q \<ge> N. h q = None"
  shows "ups A (kid_heap b u l P N ks h) p n"
proof (rule ups_cong [OF assms(1)])
  fix q e assume "h q = Some e"
  with assms(2) have "\<not> N \<le> q" by auto
  then have "kid_heap b u l P N ks h q = Some e" using \<open>h q = Some e\<close> by (simp add: kid_heap_below)
  then show "\<exists>e'. kid_heap b u l P N ks h q = Some e' \<and> fts_level e' = fts_level e \<and> fts_dev e' = fts_dev e
    \<and> fts_ino e' = fts_ino e \<and> fts_parent e' = fts_parent e" by simp
qed

definition table_with :: "tree \<Rightarrow> nat \<Rightarrow> dir_map \<Rightarrow> dir_map" where
  "table_with t p m = (if is_dir t then m(key_of t \<mapsto> p) else m)"

text \<open>What is to be shown of a tree, and of the entries of a directory.\<close>

definition tours :: "'e sys \<Rightarrow> 'e open_dirs \<Rightarrow> (string \<times> tree) set \<Rightarrow> nat \<Rightarrow> tree \<Rightarrow> bool" where
  "tours sys dirs F b t \<longleftrightarrow> (\<forall>s f p e P l A. current b f p e P l t s \<longrightarrow> fts_info e = kind_of t \<longrightarrow> holds f P \<longrightarrow>
     paths_of P t \<subseteq> F \<longrightarrow> ups A (ents s) (fts_parent e) l \<longrightarrow> dom (table_map (sp_cycles s)) \<subseteq> A \<longrightarrow> walkable A P t \<longrightarrow>
     (\<exists>s'. arrives sys dirs b s (below P (int l) t) s' p ((ents s)(p \<mapsto> e\<lparr>fts_info := kind_after t\<rparr>))
        (table_with t p (table_map (sp_cycles s))) P))"

definition tours_kids :: "'e sys \<Rightarrow> 'e open_dirs \<Rightarrow> (string \<times> tree) set \<Rightarrow> nat \<Rightarrow> kids \<Rightarrow> bool" where
  "tours_kids sys dirs F b ks \<longleftrightarrow> (\<forall>s f p ep P l d A N h n k ks'. ks = Kid n k ks' \<longrightarrow> walking b f s \<longrightarrow> sp_cur s = N \<longrightarrow>
     ents s = kid_heap b p (Suc l) P N ks h \<longrightarrow> holds f (path_join P n) \<longrightarrow> in_dir b p ep P l d N h \<longrightarrow> ups A h p (Suc l) \<longrightarrow>
     dom (table_map (sp_cycles s)) \<subseteq> A \<longrightarrow> walkable_kids A P ks \<longrightarrow> paths_of_kids P ks \<subseteq> F \<longrightarrow>
     (\<exists>s'. arrives sys dirs b s (tl (kid_visits P (int l + 1) ks) @ [(FTS_DP, P, int l)]) s' p
        (h(p \<mapsto> ep\<lparr>fts_info := FTS_DP\<rparr>)) (table_map (sp_cycles s)) P))"

lemma tours_file:
  fixes sys :: "'e sys" and dirs :: "'e open_dirs"
  assumes "\<not> is_dir t"
  shows "tours sys dirs F b t"
  unfolding tours_def
proof (intro allI impI)
  fix s :: "'e fts" and f p e P l A
  assume cur: "current b f p e P l t s" and k: "fts_info e = kind_of t"
  have "kind_after t = fts_info e" using assms k by (simp add: kind_after_def)
  then have "e\<lparr>fts_info := kind_after t\<rparr> = e" by simp
  moreover have "ents s p = Some e" "sp_cur s = p" "walking b f s" "starts f P" using cur by (simp_all add: current_def)
  ultimately have "arrives sys dirs b s [] s p ((ents s)(p \<mapsto> e\<lparr>fts_info := kind_after t\<rparr>)) (table_with t p (table_map (sp_cycles s))) P"
    using assms by (auto simp: arrives_def table_with_def fun_upd_idem)
  then show "\<exists>s'. arrives sys dirs b s (below P (int l) t) s' p ((ents s)(p \<mapsto> e\<lparr>fts_info := kind_after t\<rparr>))
        (table_with t p (table_map (sp_cycles s))) P" using assms by (cases t) auto
qed

lemma tours_dir:
  fixes sys :: "'e sys" and dirs :: "'e open_dirs"
  assumes sys: "serves sys dirs F" and dir: "is_dir (Tree st ks)" and kids: "tours_kids sys dirs F b ks"
  shows "tours sys dirs F b (Tree st ks)"
  unfolding tours_def
proof (intro allI impI)
  let ?t = "Tree st ks"
  fix s :: "'e fts" and f p e P l A
  assume cur: "current b f p e P l ?t s" and k: "fts_info e = kind_of ?t" and hold: "holds f P" and F: "paths_of P ?t \<subseteq> F"
    and up: "ups A (ents s) (fts_parent e) l" and dom: "dom (table_map (sp_cycles s)) \<subseteq> A" and wk: "walkable A P ?t"
  have D: "fts_info e = FTS_D" using k dir by simp
  have inF: "(P, ?t) \<in> F" using F by simp
  have after: "kind_after ?t = FTS_DP" using dir by (simp add: kind_after_def)
  show "\<exists>s'. arrives sys dirs b s (below P (int l) ?t) s' p ((ents s)(p \<mapsto> e\<lparr>fts_info := kind_after ?t\<rparr>))
        (table_with ?t p (table_map (sp_cycles s))) P"
  proof (cases ks)
    case No_kids
    have "\<exists>s'. arrives sys dirs b s [(FTS_DP, path_join P [], int l)] s' p ((ents s)(p \<mapsto> e\<lparr>fts_info := FTS_DP\<rparr>))
      ((table_map (sp_cycles s))(key_of ?t \<mapsto> p)) P"
      by (rule read_empty_dir [OF sys inF dir cur D hold up dom wk]) (simp add: No_kids)
    then show ?thesis using dir after by (simp add: No_kids table_with_def)
  next
    case (Kid n k ks')
    obtain f' c e' where rd: "read_dir sys p FTS_NOINSTR s =
        (if kids_of ?t = No_kids then ret (p, entered b f' p e P l ?t c e' s)
         else read_name (ents_end s) (entered b f' p e P l ?t c e' s))"
      and c: "table_ok c" "table_map c = (table_map (sp_cycles s))(key_of ?t \<mapsto> p)" and e': "dirs e' = dirs (env s)"
      and f': "starts f' (path_join P [])" "kids_of ?t = No_kids \<longrightarrow> holds f' (path_join P [])"
      by (rule read_dir_walk [OF sys inF dir cur D hold up dom wk])
    define N where "N = ents_end s"
    define s1 where "s1 = entered b f' p e P l ?t c e' s"
    have w: "walking b f s" "sp_cur s = p" "p \<noteq> 0" "ents s p = Some e" "on_path b P l ?t e" "path_ok P l"
      using cur by (simp_all add: current_def)
    note wd = walkingD [OF w(1)]
    have s1: "ents s1 = kid_heap b p (Suc l) P N ks (ents s)" "sp_cycles s1 = c" "env s1 = e'" "ents_end s1 = N + kid_count ks"
      by (simp_all add: s1_def entered_def Kid N_def)
    have N: "N \<noteq> 0" "\<forall>q \<ge> N. ents s q = None" using wd(9,11) by (simp_all add: N_def)
    then have "\<not> N \<le> p" using w(4) by auto
    have w1: "walking b f' s1"
    proof -
      have "ents s1 q = None" if "ents_end s1 \<le> q" for q
        using that N(2) unfolding s1(1,4) by (simp add: kid_heap_above)
      moreover have "ents s1 0 = None" using wd(10) N(1) unfolding s1(1) by (simp add: kid_heap_below)
      moreover have "0 < ents_end s1" using N(1) by (simp add: s1(4))
      ultimately show ?thesis using w(1) c(1) unfolding walking_def by (simp add: s1_def entered_def)
    qed
    have wk': "plain_name n" "length (path_join P n) < 4096" "walkable_kids (insert (key_of ?t) A) P ks"
      using wk dir walkable_tree [of _ "path_join P n" k] by (auto simp: Kid)
    have q: "ents s1 N = Some (walk_ent b p (int (Suc l)) (path_join P n) n k (if ks' = No_kids then 0 else Suc N))"
      by (simp add: s1(1) Kid)
    have ep: "ents s1 p = Some e" using \<open>\<not> N \<le> p\<close> w(4) unfolding s1(1) by (simp add: kid_heap_below)
    have st: "starts f' P" using f'(1) by (rule path_join_starts)
    obtain s2 f2 where r: "read_name N s1 = ret (N, s2)" "walking b f2 s2" "holds f2 (path_join P n)" "sp_cur s2 = N"
      "ents s2 = ents s1" "sp_cycles s2 = sp_cycles s1" "env s2 = env s1" "ents_end s2 = ents_end s1"
      "observe s2 N = ret (kind_of k, path_join P n, int (Suc l))"
      by (rule enter_kid [OF w1 st q N(1) ep w(5,6) wk'(1,2)])
    have "fts_read sys s = ret (N, s2)" using fts_read_start [OF cur] D rd r(1) by (simp add: Kid N_def s1_def)
    from walks_step [OF this N(1) r(9)] have first: "walks sys s [(kind_of k, path_join P n, int (Suc l))] s2" .
    have ind: "in_dir b p e P l ?t N (ents s)" using w N by (simp add: in_dir_def)
    have up2: "ups (insert (key_of ?t) A) (ents s) p (Suc l)"
      using w(4,5) dir ups_subset [OF up, of "insert (key_of ?t) A"] by (auto simp: on_path_def)
    have dom2: "dom (table_map (sp_cycles s2)) \<subseteq> insert (key_of ?t) A" using dom c(2) by (auto simp: r(6) s1(2))
    have F2: "paths_of_kids P ks \<subseteq> F" using F by simp
    obtain s3 where "arrives sys dirs b s2 (tl (kid_visits P (int l + 1) ks) @ [(FTS_DP, P, int l)]) s3 p
        ((ents s)(p \<mapsto> e\<lparr>fts_info := FTS_DP\<rparr>)) (table_map (sp_cycles s2)) P"
      using kids [unfolded tours_kids_def, rule_format, OF Kid r(2,4) r(5) [unfolded s1(1)] r(3) ind up2 dom2 wk'(3) F2] by blast
    then have "arrives sys dirs b s ([(kind_of k, path_join P n, int (Suc l))] @ tl (kid_visits P (int l + 1) ks) @ [(FTS_DP, P, int l)]) s3 p
        ((ents s)(p \<mapsto> e\<lparr>fts_info := FTS_DP\<rparr>)) (table_map (sp_cycles s2)) P"
      by (rule arrives_walks [OF first, rotated 2]) (simp_all add: r(7,8) s1 e' N_def)
    moreover have "[(kind_of k, path_join P n, int (Suc l))] @ tl (kid_visits P (int l + 1) ks) @ [(FTS_DP, P, int l)] = below P (int l) ?t"
      using dir by (simp add: Kid add.commute)
    moreover have "table_map (sp_cycles s2) = table_with ?t p (table_map (sp_cycles s))"
      using dir by (simp add: r(6) s1(2) c(2) table_with_def)
    ultimately show ?thesis unfolding after by metis
  qed
qed

lemma tours_kid:
  fixes sys :: "'e sys" and dirs :: "'e open_dirs"
  assumes kid: "tours sys dirs F b k" and kids: "tours_kids sys dirs F b ks"
  shows "tours_kids sys dirs F b (Kid n k ks)"
  unfolding tours_kids_def
proof (intro allI impI)
  fix s :: "'e fts" and f p ep P l d A N h n' k' ks'
  assume eq: "Kid n k ks = Kid n' k' ks'" and w: "walking b f s" and cur: "sp_cur s = N"
    and ents: "ents s = kid_heap b p (Suc l) P N (Kid n k ks) h" and hold: "holds f (path_join P n')"
    and ind: "in_dir b p ep P l d N h" and up: "ups A h p (Suc l)" and dom: "dom (table_map (sp_cycles s)) \<subseteq> A"
    and wk: "walkable_kids A P (Kid n k ks)" and F: "paths_of_kids P (Kid n k ks) \<subseteq> F"
  have [simp]: "n' = n" using eq by simp
  from ind have d: "p \<noteq> 0" "N \<noteq> 0" "h p = Some ep" "on_path b P l d ep" "path_ok P l" "\<forall>q \<ge> N. h q = None"
    by (simp_all add: in_dir_def)
  have wk': "plain_name n" "walkable A (path_join P n) k" "walkable_kids A P ks" using wk by simp_all
  have len: "length (path_join P n) < 4096" and key: "is_dir k \<longrightarrow> key_of k \<notin> A" using walkable_tree [OF wk'(2)] by blast+
  have new: "is_dir k \<longrightarrow> table_map (sp_cycles s) (key_of k) = None" using key dom by auto
  have ok: "path_ok (path_join P n) (Suc l)" by (rule path_ok_join [OF d(5) wk'(1) len])
  let ?q = "if ks = No_kids then 0 else Suc N"
  define x where "x = walk_ent b p (int (Suc l)) (path_join P n) n k ?q"
  have xN: "ents s N = Some x" by (simp add: ents x_def)
  have "starts f (path_join P n)" using hold by (simp add: holds_def)
  then have cu: "current b f N x (path_join P n) (Suc l) k s"
    using w cur d(2) xN ok by (simp add: current_def x_def walk_ent_on_path del: of_nat_Suc)
  have ups: "ups A (ents s) (fts_parent x) (Suc l)"
    using ups_kid_heap [OF up d(6)] by (simp add: ents x_def del: kid_heap.simps ups.simps)
  have Fk: "paths_of (path_join P n) k \<subseteq> F" using F by simp
  obtain s1 where a: "arrives sys dirs b s (below (path_join P n) (int (Suc l)) k) s1 N ((ents s)(N \<mapsto> x\<lparr>fts_info := kind_after k\<rparr>))
        (table_with k N (table_map (sp_cycles s))) (path_join P n)"
    using kid [unfolded tours_def, rule_format, OF cu _ _ Fk ups dom wk'(2)] hold by (auto simp: x_def)
  then obtain f1 where s1: "walks sys s (below (path_join P n) (int (Suc l)) k) s1" "walking b f1 s1" "starts f1 (path_join P n)"
    "sp_cur s1 = N" "ents s1 = (ents s)(N \<mapsto> x\<lparr>fts_info := kind_after k\<rparr>)"
    "table_map (sp_cycles s1) = table_with k N (table_map (sp_cycles s))" "dirs (env s1) = dirs (env s)" "ents_end s \<le> ents_end s1"
    unfolding arrives_def by blast
  have gone: "x\<lparr>fts_info := kind_after k\<rparr> = gone_by b p l P n k ?q" by (simp add: x_def gone_by_def)
  note tab = s1(6) [unfolded table_with_def]
  show "\<exists>s'. arrives sys dirs b s (tl (kid_visits P (int l + 1) (Kid n k ks)) @ [(FTS_DP, P, int l)]) s' p
        (h(p \<mapsto> ep\<lparr>fts_info := FTS_DP\<rparr>)) (table_map (sp_cycles s)) P"
  proof (cases ks)
    case No_kids
    have e1: "ents s1 = h(N \<mapsto> gone_by b p l P n k 0)" using s1(5) by (simp add: gone ents No_kids)
    obtain s2 where "arrives sys dirs b s1 [(FTS_DP, P, int l)] s2 p (h(p \<mapsto> ep\<lparr>fts_info := FTS_DP\<rparr>)) (table_map (sp_cycles s)) P"
      using after_last_kid [OF s1(2,4) e1 s1(3) ind ok tab new] by blast
    from arrives_walks [OF s1(1,7,8) this] show ?thesis by (auto simp: No_kids add.commute)
  next
    case (Kid n2 k2 ks2)
    have e1: "ents s1 = (kid_heap b p (Suc l) P (Suc N) (Kid n2 k2 ks2) h)(N \<mapsto> gone_by b p l P n k (Suc N))"
      using s1(5) by (simp add: gone ents Kid del: kid_heap.simps(2)) (simp add: Kid)
    have wk2: "plain_name n2" "length (path_join P n2) < 4096" using wk'(3) walkable_tree [of A "path_join P n2" k2] by (auto simp: Kid)
    obtain s2 f2 where s2: "walks sys s1 [(kind_of k2, path_join P n2, int (Suc l))] s2" "walking b f2 s2" "holds f2 (path_join P n2)"
      "sp_cur s2 = Suc N" "ents s2 = kid_heap b p (Suc l) P (Suc N) (Kid n2 k2 ks2) h" "table_map (sp_cycles s2) = table_map (sp_cycles s)"
      "env s2 = env s1" "ents_end s2 = ents_end s1"
      using after_kid [OF s1(2,4,3) e1 ind ok wk2 tab new] by blast
    have ind2: "in_dir b p ep P l d (Suc N) h" using ind by (simp add: in_dir_def)
    have dom2: "dom (table_map (sp_cycles s2)) \<subseteq> A" using dom by (simp add: s2(6))
    have F2: "paths_of_kids P ks \<subseteq> F" using F by simp
    obtain s3 where s3: "arrives sys dirs b s2 (tl (kid_visits P (int l + 1) ks) @ [(FTS_DP, P, int l)]) s3 p
        (h(p \<mapsto> ep\<lparr>fts_info := FTS_DP\<rparr>)) (table_map (sp_cycles s2)) P"
      using kids [unfolded tours_kids_def, rule_format, OF Kid s2(2,4) s2(5) [folded Kid] s2(3) ind2 up dom2 wk'(3) F2] by blast
    have both: "walks sys s (below (path_join P n) (int (Suc l)) k @ [(kind_of k2, path_join P n2, int (Suc l))]) s2"
      by (rule walks_append [OF s1(1) s2(1)])
    have "arrives sys dirs b s ((below (path_join P n) (int (Suc l)) k @ [(kind_of k2, path_join P n2, int (Suc l))])
        @ tl (kid_visits P (int l + 1) ks) @ [(FTS_DP, P, int l)]) s3 p (h(p \<mapsto> ep\<lparr>fts_info := FTS_DP\<rparr>)) (table_map (sp_cycles s2)) P"
      by (rule arrives_walks [OF both _ _ s3]) (use s1(7,8) in \<open>simp_all add: s2(7,8)\<close>)
    moreover have "(below (path_join P n) (int (Suc l)) k @ [(kind_of k2, path_join P n2, int (Suc l))])
        @ tl (kid_visits P (int l + 1) ks) @ [(FTS_DP, P, int l)] = tl (kid_visits P (int l + 1) (Kid n k ks)) @ [(FTS_DP, P, int l)]"
      by (simp add: Kid add.commute)
    ultimately show ?thesis unfolding s2(6) by metis
  qed
qed

lemma tour:
  assumes "serves sys dirs F"
  shows "tours sys dirs F b t" and "tours_kids sys dirs F b ks"
proof (induction t and ks rule: tree.induct kids.induct)
  case (Tree st ks)
  then show ?case using tours_dir [OF assms] tours_file [of "Tree st ks"] by (cases "is_dir (Tree st ks)") simp_all
next
  case No_kids
  then show ?case by (simp add: tours_kids_def)
next
  case (Kid n t ks)
  then show ?case by (rule tours_kid)
qed

end
