(* ===== verification/Fts_Walk.thy ===== *)
theory Fts_Walk
  imports Fts_Tour
begin

text \<open>From \<open>fts_open\<close> to \<open>fts_close\<close>: the files that are named, each with its tree.\<close>

section \<open>Opening\<close>

definition root_ent :: "nat \<Rightarrow> nat \<Rightarrow> nat \<Rightarrow> string \<Rightarrow> tree \<Rightarrow> nat \<Rightarrow> ftsent" where
  "root_ent b u q R t link = stated t (zero_ent\<lparr>fts_parent := u, fts_link := link, fts_accpath := Name_of q,
     fts_path := b, fts_namelen := of_nat (length R), fts_level := 0, fts_info := kind_of t, fts_instr := FTS_NOINSTR,
     fts_statp := Some no_stat, fts_name := R\<rparr>)"

lemma root_ent_fields [simp]:
  "fts_parent (root_ent b u q R t k) = u" "fts_link (root_ent b u q R t k) = k" "fts_path (root_ent b u q R t k) = b"
  "fts_accpath (root_ent b u q R t k) = Name_of q" "fts_namelen (root_ent b u q R t k) = of_nat (length R)"
  "fts_level (root_ent b u q R t k) = 0" "fts_info (root_ent b u q R t k) = kind_of t" "fts_errno (root_ent b u q R t k) = None"
  "fts_flags (root_ent b u q R t k) = 0" "fts_instr (root_ent b u q R t k) = FTS_NOINSTR" "fts_name (root_ent b u q R t k) = R"
  "is_dir t \<Longrightarrow> fts_dev (root_ent b u q R t k) = st_dev (stat_of t)" "is_dir t \<Longrightarrow> fts_ino (root_ent b u q R t k) = st_ino (stat_of t)"
  "(root_ent b u q R t k)\<lparr>fts_link := k'\<rparr> = root_ent b u q R t k'"
  by (simp_all add: root_ent_def zero_ent_def stated_updates)

fun root_heap :: "nat \<Rightarrow> nat \<Rightarrow> nat \<Rightarrow> (string \<times> tree) list \<Rightarrow> (nat \<Rightarrow> ftsent option) \<Rightarrow> nat \<Rightarrow> ftsent option" where
  "root_heap b u q [] h = h"
| "root_heap b u q ((R, t) # rs) h = (root_heap b u (Suc q) rs h)(q \<mapsto> root_ent b u q R t (if rs = [] then 0 else Suc q))"

lemma root_heap_below: "p < q \<Longrightarrow> root_heap b u q rs h p = h p"
  by (induction b u q rs h rule: root_heap.induct) auto

lemma root_heap_above: "q + length rs \<le> p \<Longrightarrow> root_heap b u q rs h p = h p"
  by (induction b u q rs h rule: root_heap.induct) auto

lemma root_heap_update: "p < q \<Longrightarrow> root_heap b u q rs (h(p \<mapsto> x)) = (root_heap b u q rs h)(p \<mapsto> x)"
  by (induction b u q rs h rule: root_heap.induct) (auto simp: fun_upd_twist)

lemma root_heap_remove: "p < q \<Longrightarrow> root_heap b u q rs (h(p := None)) = (root_heap b u q rs h)(p := None)"
  by (induction b u q rs h rule: root_heap.induct) (auto simp: fun_upd_twist)

definition parent_ent :: "nat \<Rightarrow> ftsent" where
  "parent_ent b = zero_ent\<lparr>fts_path := b, fts_instr := FTS_NOINSTR, fts_statp := Some no_stat, fts_level := -1\<rparr>"

text \<open>A root is made and examined.\<close>

lemma open_root_walk:
  assumes sys: "serves sys dirs F" "(R, t) \<in> F" and opt: "sp_options s = WALK" and R: "length R < 4096"
    and e: "ents s p = Some e0" "e0 = zero_ent\<lparr>fts_path := b, fts_namelen := of_nat (length R), fts_instr := FTS_NOINSTR,
      fts_statp := Some no_stat, fts_name := R\<rparr>"
    and u: "ents s u = Some (parent_ent b')" "u \<noteq> p" and tab: "table_ok (sp_cycles s)" "table_map (sp_cycles s) = Map.empty"
  obtains e' where "open_root sys u p s = ret ((), s\<lparr>env := e', ents := (ents s)(p \<mapsto> root_ent b u p R t 0)\<rparr>)" "dirs e' = dirs (env s)"
proof -
  define e1 where "e1 = e0\<lparr>fts_level := 0, fts_parent := u, fts_accpath := Name_of p\<rparr>"
  define s1 where "s1 = s\<lparr>ents := (ents s)(p \<mapsto> e1)\<rparr>"
  obtain e' where call: "call (fstatat_fn sys None R True) s1 = (Some (stat_of t), s1\<lparr>env := e'\<rparr>)" and e': "dirs e' = dirs (env s1)"
    by (rule serves_lstat [OF sys])
  define s2 where "s2 = s1\<lparr>env := e', ents := (ents s1)(p \<mapsto> e1\<lparr>fts_statp := Some (stat_of t)\<rparr>)\<rparr>"
  have ent1: "ents s1 p = Some e1" by (simp add: s1_def)
  have store: "store_stat p (stat_of t) (s1\<lparr>env := e'\<rparr>) = ret s2"
    using walk_options(5) [OF opt] ent1 by (simp add: store_stat_def change_ent s2_def) (simp add: s1_def)
  have "unseen s2 u 0 t"
    using u tab by (auto simp: unseen_def s2_def s1_def parent_ent_def intro!: exI [of _ "{}"])
  then have kind: "stat_kind p (stat_of t) s2 = ret (if is_dir t \<and> ISDOT R then FTS_DOT else kind_of t,
      s2\<lparr>ents := (ents s2)(p \<mapsto> stated t (e1\<lparr>fts_statp := Some (stat_of t)\<rparr>))\<rparr>)"
    using stat_kind_walk [of s2 p "e1\<lparr>fts_statp := Some (stat_of t)\<rparr>" t 0] by (simp add: s2_def e1_def e(2))
  have path: "path_string s1 (fts_accpath e1) = ret R" by (simp add: path_string_def ent_def s1_def e1_def e(2))
  have stat: "fts_stat sys p False None s1 = ret (if is_dir t \<and> ISDOT R then FTS_DOT else kind_of t,
      s2\<lparr>ents := (ents s2)(p \<mapsto> stated t (e1\<lparr>fts_statp := Some (stat_of t)\<rparr>))\<rparr>)"
  proof -
    have "\<not> SHRT_MAX \<le> fts_level e1" by (simp add: e1_def SHRT_MAX_def)
    moreover have "sp_options s1 = WALK" using opt by (simp add: s1_def)
    ultimately show ?thesis using walk_options [of s1] path call store kind by (simp add: fts_stat_def ent_some [OF ent1])
  qed
  have info: "(if (if is_dir t \<and> ISDOT R then FTS_DOT else kind_of t) = FTS_DOT then FTS_D
      else (if is_dir t \<and> ISDOT R then FTS_DOT else kind_of t)) = kind_of t"
  proof (cases "is_dir t")
    case True
    then have k: "kind_of t = FTS_D" by simp
    show ?thesis unfolding k by simp
  next
    case False
    then show ?thesis using kind_of_cases [OF False] by auto
  qed
  have ent: "(stated t (e1\<lparr>fts_statp := Some (stat_of t)\<rparr>))\<lparr>fts_info := kind_of t\<rparr> = root_ent b u p R t 0"
    by (simp add: stated_updates root_ent_def e1_def e(2) zero_ent_def) (simp add: stated_def)
  have ch1: "change p (\<lambda>e. e\<lparr>fts_level := FTS_ROOTLEVEL, fts_parent := u, fts_accpath := Name_of p\<rparr>) s = ret s1"
    by (simp add: change_ent [OF e(1)] s1_def e1_def FTS_ROOTLEVEL_def)
  have ch2: "change p (\<lambda>e. e\<lparr>fts_info := kind_of t\<rparr>) (s2\<lparr>ents := (ents s2)(p \<mapsto> stated t (e1\<lparr>fts_statp := Some (stat_of t)\<rparr>))\<rparr>)
      = ret (s\<lparr>env := e', ents := (ents s)(p \<mapsto> root_ent b u p R t 0)\<rparr>)"
    by (simp add: change_def ent_def ent) (simp add: s2_def s1_def)
  have "isset FTS_COMFOLLOW s1 = False" using walk_options(4) [OF opt] by (simp add: s1_def)
  then have "open_root sys u p s = ret ((), s\<lparr>env := e', ents := (ents s)(p \<mapsto> root_ent b u p R t 0)\<rparr>)"
    by (simp only: open_root_def ch1 andthen_simps stat prod.case info ch2)
  moreover have "dirs e' = dirs (env s)" using e' by (simp add: s1_def)
  ultimately show ?thesis by (rule that)
qed

lemma open_roots_walk:
  assumes sys: "serves sys dirs F"
  shows "sp_options s = WALK \<Longrightarrow> sp_compar s = None \<Longrightarrow> sp_path s = b \<Longrightarrow> ents_end s = q \<Longrightarrow> (\<forall>p \<ge> q. ents s p = None) \<Longrightarrow>
    ents s u = Some (parent_ent b') \<Longrightarrow> u < q \<Longrightarrow> table_ok (sp_cycles s) \<Longrightarrow> table_map (sp_cycles s) = Map.empty \<Longrightarrow>
    (\<forall>(R, t) \<in> set rs. (R, t) \<in> F \<and> R \<noteq> [] \<and> length R < 4096) \<Longrightarrow>
    (root \<noteq> 0 \<longrightarrow> (\<exists>et. ents s prev = Some et \<and> prev \<noteq> u \<and> h = (if rs = [] then ents s else (ents s)(prev \<mapsto> et\<lparr>fts_link := q\<rparr>)))) \<Longrightarrow>
    (root = 0 \<longrightarrow> h = ents s) \<Longrightarrow>
    \<exists>e'. open_roots sys (map fst rs) u root prev n s = ret ((True, if root = 0 \<and> rs \<noteq> [] then q else root, n + length rs),
        s\<lparr>env := e', ents := root_heap b u q rs h, ents_end := q + length rs\<rparr>) \<and> dirs e' = dirs (env s)"
proof (induction rs arbitrary: s q root prev h n)
  case Nil
  then have "h = ents s" by (cases "root = 0") auto
  then show ?case using Nil.prems(4) by (intro exI [of _ "env s"]) simp
next
  case (Cons r rs)
  obtain R t where r: "r = (R, t)" by (cases r)
  with Cons.prems(10) have R: "(R, t) \<in> F" "R \<noteq> []" "length R < 4096"
    and rest: "\<forall>(R, t) \<in> set rs. (R, t) \<in> F \<and> R \<noteq> [] \<and> length R < 4096" by auto
  obtain e1 where alloc: "fts_alloc sys R s = (ents_end s, s\<lparr>env := e1, ents := (ents s)(ents_end s \<mapsto>
      zero_ent\<lparr>fts_path := sp_path s, fts_namelen := of_nat (length R), fts_instr := FTS_NOINSTR,
        fts_statp := Some no_stat, fts_name := R\<rparr>), ents_end := Suc (ents_end s)\<rparr>)" and d1: "dirs e1 = dirs (env s)"
    by (rule fts_alloc_walk [OF sys Cons.prems(1) R(3)])
  define e0 where "e0 = zero_ent\<lparr>fts_path := b, fts_namelen := of_nat (length R), fts_instr := FTS_NOINSTR,
        fts_statp := Some no_stat, fts_name := R\<rparr>"
  define s1 where "s1 = s\<lparr>env := e1, ents := (ents s)(q \<mapsto> e0), ents_end := Suc q\<rparr>"
  have al: "fts_alloc sys R s = (q, s1)" using alloc Cons.prems(3,4) by (simp add: s1_def e0_def)
  have q0: "q \<noteq> 0" "u \<noteq> q" using Cons.prems(7) by auto
  have s1: "sp_options s1 = WALK" "ents s1 q = Some e0" "ents s1 u = Some (parent_ent b')" "table_ok (sp_cycles s1)"
    "table_map (sp_cycles s1) = Map.empty" using Cons.prems(1,6,8,9) q0 by (simp_all add: s1_def)
  obtain e2 where op: "open_root sys u q s1 = ret ((), s1\<lparr>env := e2, ents := (ents s1)(q \<mapsto> root_ent b u q R t 0)\<rparr>)"
    and d2: "dirs e2 = dirs (env s1)"
    by (rule open_root_walk [OF sys R(1) s1(1) R(3) s1(2) e0_def s1(3) q0(2) s1(4,5)])
  define x where "x = root_ent b u q R t 0"
  define s2 where "s2 = s\<lparr>env := e2, ents := (ents s)(q \<mapsto> x), ents_end := Suc q\<rparr>"
  have op2: "open_root sys u q s1 = ret ((), s2)" using op by (simp add: s2_def s1_def x_def)
  define s3 where "s3 = s2\<lparr>ents := h(q \<mapsto> x)\<rparr>"
  have ch: "change q (\<lambda>e. e\<lparr>fts_link := 0\<rparr>) s2 = ret s2" by (simp add: change_def ent_def s2_def x_def)
  have prev: "(if root = 0 then ret s2 else change prev (\<lambda>e. e\<lparr>fts_link := q\<rparr>) s2) = ret s3"
  proof (cases "root = 0")
    case True
    with Cons.prems(12) have "h = ents s" by simp
    with True show ?thesis by (simp add: s3_def s2_def)
  next
    case False
    with Cons.prems(11) obtain et where et: "ents s prev = Some et" "h = (ents s)(prev \<mapsto> et\<lparr>fts_link := q\<rparr>)"
      by (auto simp del: fun_upd_apply)
    have "prev \<noteq> q" using et(1) Cons.prems(5) by auto
    then have "ents s2 prev = Some et" using et(1) by (simp add: s2_def)
    with False \<open>prev \<noteq> q\<close> show ?thesis by (simp add: change_ent s3_def s2_def et(2) fun_upd_twist)
  qed
  have h: "h u = Some (parent_ent b')" "\<And>p. q \<le> p \<Longrightarrow> h p = None"
  proof -
    have "h u = Some (parent_ent b') \<and> (\<forall>p. q \<le> p \<longrightarrow> h p = None)"
    proof (cases "root = 0")
      case True
      then show ?thesis using Cons.prems(5,6,12) by simp
    next
      case False
      with Cons.prems(11) obtain et where et: "ents s prev = Some et" "prev \<noteq> u" "h = (ents s)(prev \<mapsto> et\<lparr>fts_link := q\<rparr>)"
        by (auto simp del: fun_upd_apply)
      have "\<not> q \<le> prev" using et(1) Cons.prems(5) by auto
      then show ?thesis using et(2) Cons.prems(5,6) by (auto simp: et(3))
    qed
    then show "h u = Some (parent_ent b')" "\<And>p. q \<le> p \<Longrightarrow> h p = None" by blast+
  qed
  define h' where "h' = (if rs = [] then ents s3 else (ents s3)(q \<mapsto> x\<lparr>fts_link := Suc q\<rparr>))"
  define root' where "root' = (if root = 0 then q else root)"
  have "\<exists>e'. open_roots sys (map fst rs) u root' q (Suc n) s3 = ret ((True, if root' = 0 \<and> rs \<noteq> [] then Suc q else root', Suc n + length rs),
        s3\<lparr>env := e', ents := root_heap b u (Suc q) rs h', ents_end := Suc q + length rs\<rparr>) \<and> dirs e' = dirs (env s3)"
  proof (rule Cons.IH [OF _ _ _ _ _ _ _ _ _ rest])
    show "sp_options s3 = WALK" "sp_compar s3 = None" "sp_path s3 = b" "ents_end s3 = Suc q" "u < Suc q" "table_ok (sp_cycles s3)"
      "table_map (sp_cycles s3) = Map.empty" using Cons.prems(1-3,7-9) by (simp_all add: s3_def s2_def)
    show "\<forall>p \<ge> Suc q. ents s3 p = None" using h(2) by (simp add: s3_def)
    show "ents s3 u = Some (parent_ent b')" using h(1) q0(2) by (simp add: s3_def)
    show "root' \<noteq> 0 \<longrightarrow> (\<exists>et. ents s3 q = Some et \<and> q \<noteq> u \<and> h' = (if rs = [] then ents s3 else (ents s3)(q \<mapsto> et\<lparr>fts_link := Suc q\<rparr>)))"
      using q0(2) by (simp add: h'_def s3_def)
    show "root' = 0 \<longrightarrow> h' = ents s3" using q0(1) by (simp add: root'_def)
  qed
  then obtain e' where rec: "open_roots sys (map fst rs) u root' q (Suc n) s3 =
      ret ((True, if root' = 0 \<and> rs \<noteq> [] then Suc q else root', Suc n + length rs),
        s3\<lparr>env := e', ents := root_heap b u (Suc q) rs h', ents_end := Suc q + length rs\<rparr>)" and d': "dirs e' = dirs (env s3)" by blast
  have "root' \<noteq> 0" using q0(1) by (simp add: root'_def)
  have heap: "root_heap b u (Suc q) rs h' = root_heap b u q (r # rs) h"
    by (simp add: h'_def s3_def x_def r root_heap_update)
  have st: "s3\<lparr>env := e', ents := root_heap b u (Suc q) rs h', ents_end := Suc q + length rs\<rparr>
    = s\<lparr>env := e', ents := root_heap b u q (r # rs) h, ents_end := q + length (r # rs)\<rparr>"
    by (simp add: heap s3_def s2_def)
  have "sp_compar s2 = None" using Cons.prems(2) by (simp add: s2_def)
  then have "open_roots sys (map fst (r # rs)) u root prev n s = open_roots sys (map fst rs) u root' q (Suc n) s3"
    using R(2) al op2 ch prev q0(1) by (simp add: r root'_def)
  also have "\<dots> = ret ((True, root', Suc n + length rs), s\<lparr>env := e', ents := root_heap b u q (r # rs) h, ents_end := q + length (r # rs)\<rparr>)"
    using rec \<open>root' \<noteq> 0\<close> by (simp only: st simp_thms if_False)
  also have "(True, root', Suc n + length rs) = (True, if root = 0 \<and> r # rs \<noteq> [] then q else root, n + length (r # rs))"
    by (simp add: root'_def)
  finally have "open_roots sys (map fst (r # rs)) u root prev n s = ret ((True, if root = 0 \<and> r # rs \<noteq> [] then q else root, n + length (r # rs)),
    s\<lparr>env := e', ents := root_heap b u q (r # rs) h, ents_end := q + length (r # rs)\<rparr>)" .
  moreover have "dirs e' = dirs (env s)" using d' d2 d1 by (simp add: s3_def s2_def s1_def)
  ultimately show ?case by blast
qed

lemma maxarglen_small:
  assumes "\<forall>R \<in> set argv. length R < 4096"
  shows "\<not> PATH_MAX < fts_maxarglen argv"
proof -
  have "unat (fold (\<lambda>a m. if strlen a > m then strlen a else m) argv m) < 4096" if "unat m < 4096" for m
    using assms that
  proof (induction argv arbitrary: m)
    case (Cons a argv)
    then have "unat (strlen a) < 4096" by (simp add: strlen_def unat_of_nat_u64)
    with Cons.prems have "unat (if strlen a > m then strlen a else m) < 4096" by simp
    with Cons.prems(1) Cons.IH show ?case by simp
  qed simp
  from this [of 0] have "unat (fold (\<lambda>a m. if strlen a > m then strlen a else m) argv 0) < 4096" by simp
  then have "unat (fts_maxarglen argv) \<le> 4096" unfolding fts_maxarglen_def by (subst unat_add_small) simp_all
  then show ?thesis by (simp add: PATH_MAX_def word_less_nat_alt)
qed

lemma palloc_first:
  assumes sys: "serves sys dirs F" and s: "sp_path s = 0" "bufs s = Map.empty" "bufs_end s = 1"
  obtains e' where "fts_palloc sys PATH_MAX s = ret (False, s\<lparr>env := e', bufs := [1 \<mapsto> path_of (\<lambda>_. NUL)], bufs_end := 2,
      sp_path := 1, sp_pathlen := 8192\<rparr>)" "dirs e' = dirs (env s)"
proof -
  obtain m e' where call: "call (realloc_fn sys 8192) s = (Some m, s\<lparr>env := e'\<rparr>)" "dirs e' = dirs (env s)"
    by (rule serves_realloc [OF sys])
  have pow: "fts_pow2 4352 = 8192" by (simp add: fts_pow2_def Let_def)
  have cap: "fts_length_cap 8192 = 8192" using cap_of_nat [of 8192] by simp
  have small: "\<not> (4096 :: u64) > SIZE_MAX - 256" by (simp add: SIZE_MAX_def)
  have "(Map.empty(0 := None, 1 \<mapsto> x)) = [1 \<mapsto> x]" for x :: path_buf by (simp add: fun_upd_idem)
  then have "fts_palloc sys PATH_MAX s = ret (False, s\<lparr>env := e', bufs := [1 \<mapsto> path_of (\<lambda>_. NUL)], bufs_end := 2,
      sp_path := 1, sp_pathlen := 8192\<rparr>)"
    using s call(1) unfolding fts_palloc_def PATH_MAX_def if_not_P [OF small] by (simp add: pow cap Let_def)
  then show ?thesis using call(2) by (rule that)
qed

definition init_ent :: "nat \<Rightarrow> nat \<Rightarrow> ftsent" where
  "init_ent b root = zero_ent\<lparr>fts_path := b, fts_link := root, fts_info := FTS_INIT, fts_instr := FTS_NOINSTR, fts_statp := Some no_stat\<rparr>"

definition root_ok :: "(string \<times> tree) set \<Rightarrow> string \<times> tree \<Rightarrow> bool" where
  "root_ok F r \<longleftrightarrow> fst r \<noteq> [] \<and> NUL \<notin> set (fst r) \<and> walkable {} (fst r) (snd r) \<and> paths_of (fst r) (snd r) \<subseteq> F"

lemma root_okD: "root_ok F (R, t) \<Longrightarrow> R \<noteq> [] \<and> NUL \<notin> set R \<and> length R < 4096 \<and> (R, t) \<in> F \<and> path_ok R 0"
  using walkable_tree [of "{}" R t] by (cases t) (auto simp: root_ok_def path_ok_def)

text \<open>The stream that \<open>fts_open\<close> gives: the roots from address 2 on, below them their parent.\<close>

definition opened :: "(string \<times> tree) list \<Rightarrow> 'e fts \<Rightarrow> bool" where
  "opened rs s \<longleftrightarrow> walking 1 (\<lambda>_. NUL) s \<and> sp_cur s = 2 + length rs
     \<and> ents s = (root_heap 1 1 2 rs [1 \<mapsto> parent_ent 1])(2 + length rs \<mapsto> init_ent 1 2)
     \<and> table_map (sp_cycles s) = Map.empty"

lemma init_table_walk:
  assumes sys: "serves sys dirs F"
  obtains c e' where "cycle_init sys s = (False, s\<lparr>sp_cycles := c, env := e'\<rparr>)" "dirs e' = dirs (env s)"
    "table_ok c" "table_map c = Map.empty"
proof -
  obtain e' where call: "call (malloc_fn sys 512) s = (Some (), s\<lparr>env := e'\<rparr>)" "dirs e' = dirs (env s)"
    by (rule serves_malloc [OF sys])
  define c where "c = \<lparr>buckets = Some (replicate 64 []), nbuckets = (64 :: u64)\<rparr>"
  have init: "cycle_init sys s = (False, s\<lparr>sp_cycles := c, env := e'\<rparr>)" using call(1) by (simp add: cycle_init_def c_def)
  show ?thesis by (rule that [OF init call(2)]) (use init_table [OF init] in simp_all)
qed

lemma fts_open_walk:
  assumes sys: "serves sys dirs F" and rs: "rs \<noteq> []" "\<forall>r \<in> set rs. root_ok F r"
  obtains s where "fts_open sys (Some (map fst rs)) (FTS_PHYSICAL OR FTS_NOCHDIR) None err e0 = ret (True, s)"
    "opened rs s" "dirs (env s) = dirs e0"
proof -
  define s0 where "s0 = fts_zero None (choose_walk WALK) err e0"
  have opt: "WALK AND NOT FTS_OPTIONMASK = 0" "choose_walk WALK = WALK"
    by (simp_all add: WALK_def choose_walk_def fts_options_defs FTS_OPTIONMASK_def Let_def)
  obtain e1 where c1: "call (malloc_fn sys SIZEOF_PRIVATE) s0 = (Some (), s0\<lparr>env := e1\<rparr>)" and d1: "dirs e1 = dirs (env s0)"
    by (rule serves_malloc [OF sys])
  obtain c e2 where c2: "cycle_init sys (s0\<lparr>env := e1\<rparr>) = (False, s0\<lparr>env := e1, sp_cycles := c, env := e2\<rparr>)"
    and d2: "dirs e2 = dirs (env (s0\<lparr>env := e1\<rparr>))" and c: "table_ok c" "table_map c = Map.empty"
    by (rule init_table_walk [OF sys])
  define s2 where "s2 = s0\<lparr>env := e1, sp_cycles := c, env := e2\<rparr>"
  have s2: "sp_options s2 = WALK" "sp_path s2 = 0" "bufs s2 = Map.empty" "bufs_end s2 = 1" "ents s2 = Map.empty" "ents_end s2 = 1"
    by (simp_all add: s2_def s0_def fts_zero_def opt(2))
  obtain e3 where c3: "fts_palloc sys PATH_MAX s2 = ret (False, s2\<lparr>env := e3, bufs := [1 \<mapsto> path_of (\<lambda>_. NUL)], bufs_end := 2,
      sp_path := 1, sp_pathlen := 8192\<rparr>)" and d3: "dirs e3 = dirs (env s2)"
    by (rule palloc_first [OF sys s2(2-4)])
  define s3 where "s3 = s2\<lparr>env := e3, bufs := [1 \<mapsto> path_of (\<lambda>_. NUL)], bufs_end := 2, sp_path := 1, sp_pathlen := 8192\<rparr>"
  have s3: "sp_options s3 = WALK" "ents_end s3 = 1" "sp_path s3 = 1" "ents s3 = Map.empty" using s2 by (simp_all add: s3_def)
  have len: "(if fts_maxarglen (map fst rs) < PATH_MAX then PATH_MAX else fts_maxarglen (map fst rs)) = PATH_MAX"
  proof -
    have "length (fst r) < 4096" if "r \<in> set rs" for r
      using rs(2) [rule_format, OF that] root_okD [of F "fst r" "snd r"] by simp
    then have "\<forall>R \<in> set (map fst rs). length R < 4096" by auto
    from maxarglen_small [OF this] show ?thesis by auto
  qed
  obtain e4 where raw: "fts_alloc sys [] s3 = (ents_end s3, s3\<lparr>env := e4, ents := (ents s3)(ents_end s3 \<mapsto>
      zero_ent\<lparr>fts_path := sp_path s3, fts_namelen := of_nat (length ([] :: string)), fts_instr := FTS_NOINSTR,
        fts_statp := Some no_stat, fts_name := []\<rparr>), ents_end := Suc (ents_end s3)\<rparr>)" and d4: "dirs e4 = dirs (env s3)"
    by (rule fts_alloc_walk [OF sys s3(1), of "[]"]) simp
  have pe: "zero_ent\<lparr>fts_path := 1, fts_namelen := of_nat (length ([] :: string)), fts_instr := FTS_NOINSTR,
        fts_statp := Some no_stat, fts_name := []\<rparr> = (parent_ent 1)\<lparr>fts_level := 0\<rparr>"
    by (simp add: parent_ent_def zero_ent_def)
  have c4: "fts_alloc sys [] s3 = (1, s3\<lparr>env := e4, ents := [1 \<mapsto> (parent_ent 1)\<lparr>fts_level := 0\<rparr>], ents_end := 2\<rparr>)"
    unfolding raw s3 pe by simp
  define s5 where "s5 = s3\<lparr>env := e4, ents := [1 \<mapsto> parent_ent 1], ents_end := 2\<rparr>"
  have ch5: "change 1 (\<lambda>e. e\<lparr>fts_level := FTS_ROOTPARENTLEVEL\<rparr>)
      (s3\<lparr>env := e4, ents := [1 \<mapsto> (parent_ent 1)\<lparr>fts_level := 0\<rparr>], ents_end := 2\<rparr>) = ret s5"
  proof -
    have "(parent_ent 1)\<lparr>fts_level := 0, fts_level := -1\<rparr> = parent_ent 1" by (simp add: parent_ent_def)
    then show ?thesis by (simp add: change_def ent_def s5_def FTS_ROOTPARENTLEVEL_def)
  qed
  have s5: "sp_options s5 = WALK" "sp_compar s5 = None" "sp_path s5 = 1" "ents_end s5 = 2" "ents s5 1 = Some (parent_ent 1)"
    "table_ok (sp_cycles s5)" "table_map (sp_cycles s5) = Map.empty" "\<forall>p \<ge> 2. ents s5 p = None" "sp_child s5 = 0" "sp_pathlen s5 = 8192"
    using s2 c by (simp_all add: s5_def s3_def) (simp_all add: s2_def s0_def fts_zero_def)
  have bufs5: "bufs s5 = [1 \<mapsto> path_of (\<lambda>_. NUL)]" by (simp add: s5_def s3_def)
  have ok: "\<forall>(R, t) \<in> set rs. (R, t) \<in> F \<and> R \<noteq> [] \<and> length R < 4096" using rs(2) root_okD by blast
  let ?h = "root_heap 1 1 2 rs [1 \<mapsto> parent_ent 1]"
  have "\<exists>e'. open_roots sys (map fst rs) 1 0 0 0 s5 = ret ((True, if (0 :: nat) = 0 \<and> rs \<noteq> [] then 2 else 0, 0 + length rs),
        s5\<lparr>env := e', ents := root_heap 1 1 2 rs (ents s5), ents_end := 2 + length rs\<rparr>) \<and> dirs e' = dirs (env s5)"
    by (rule open_roots_walk [OF sys s5(1-4,8,5) _ s5(6,7) ok]) simp_all
  moreover have "(if (0 :: nat) = 0 \<and> rs \<noteq> [] then 2 else 0) = (2 :: nat)" "0 + length rs = length rs" using rs(1) by simp_all
  moreover have "ents s5 = [1 \<mapsto> parent_ent 1]" by (simp add: s5_def)
  ultimately obtain e6 where roots: "open_roots sys (map fst rs) 1 0 0 0 s5 = ret ((True, 2, length rs),
        s5\<lparr>env := e6, ents := ?h, ents_end := 2 + length rs\<rparr>)" and d6: "dirs e6 = dirs (env s5)"
    by (simp only:) blast
  define s6 where "s6 = s5\<lparr>env := e6, ents := ?h, ents_end := 2 + length rs\<rparr>"
  have s6: "sp_options s6 = WALK" "sp_compar s6 = None" "ents_end s6 = 2 + length rs" "sp_path s6 = 1" "ents s6 = ?h"
    using s5 by (simp_all add: s6_def)
  obtain e7 where raw7: "fts_alloc sys [] s6 = (ents_end s6, s6\<lparr>env := e7, ents := (ents s6)(ents_end s6 \<mapsto>
      zero_ent\<lparr>fts_path := sp_path s6, fts_namelen := of_nat (length ([] :: string)), fts_instr := FTS_NOINSTR,
        fts_statp := Some no_stat, fts_name := []\<rparr>), ents_end := Suc (ents_end s6)\<rparr>)" and d7: "dirs e7 = dirs (env s6)"
    by (rule fts_alloc_walk [OF sys s6(1), of "[]"]) simp
  define s8 where "s8 = s6\<lparr>env := e7, ents := ?h(2 + length rs \<mapsto> init_ent 1 2), ents_end := Suc (2 + length rs), sp_cur := 2 + length rs\<rparr>"
  have ch8: "change (2 + length rs) (\<lambda>e. e\<lparr>fts_link := 2, fts_info := FTS_INIT\<rparr>)
      (s6\<lparr>env := e7, ents := ?h(2 + length rs \<mapsto> (parent_ent 1)\<lparr>fts_level := 0\<rparr>), ents_end := Suc (2 + length rs), sp_cur := 2 + length rs\<rparr>)
      = ret s8"
    by (simp add: change_def ent_def s8_def init_ent_def parent_ent_def zero_ent_def)
  have chdir: "isset FTS_NOCHDIR s8 = True" using walk_options(1) [OF s6(1)] by (simp add: s8_def)
  have first: "open_first sys 1 2 (length rs) s6 = ret (True, s8)"
  proof -
    have "\<not> (sp_compar s6 \<noteq> None \<and> length rs > 1)" using s6(2) by simp
    moreover have "fts_alloc sys [] s6 = (2 + length rs, s6\<lparr>env := e7, ents := ?h(2 + length rs \<mapsto> (parent_ent 1)\<lparr>fts_level := 0\<rparr>),
        ents_end := Suc (2 + length rs)\<rparr>)" unfolding raw7 s6 pe ..
    moreover have "2 + length rs \<noteq> 0" "length rs \<noteq> 0" using rs(1) by simp_all
    ultimately show ?thesis
      by (simp only: open_first_def if_False andthen_simps prod.case Let_def ch8 chdir not_True_eq_False)
  qed
  have log: "isset FTS_LOGICAL s2 = False" using walk_options(3) [OF s2(1)] by simp
  have "fts_open sys (Some (map fst rs)) WALK None err e0 = ret (True, s8)"
  proof -
    have s0: "fts_zero None WALK err e0 = s0" by (simp add: s0_def opt(2))
    show ?thesis
      by (simp only: fts_open_def Let_def opt s0 c1 c2 s2_def [symmetric] log len c3 s3_def [symmetric] c4 ch5 roots
          s6_def [symmetric] first option.case prod.case bool.case simp_thms if_False if_True andthen_simps one_neq_zero)
  qed
  moreover have "opened rs s8"
  proof -
    have "?h q = None" if "2 + length rs \<le> q" for q using that by (simp add: root_heap_above)
    moreover have "?h 0 = None" by (simp add: root_heap_below)
    ultimately have "walking 1 (\<lambda>_. NUL) s8"
      unfolding walking_def using s5 bufs5 by (simp add: s8_def s6_def)
    then show ?thesis using s5(7) by (simp add: opened_def s8_def s6_def)
  qed
  moreover have "dirs (env s8) = dirs e0"
    using d1 d2 d3 d4 d6 d7 by (simp add: s8_def s6_def s5_def s3_def s2_def s0_def fts_zero_def)
  ultimately show ?thesis unfolding WALK_def by (rule that)
qed

section \<open>The roots\<close>

lemma load_walk:
  assumes s: "walking b f s" "ents s q = Some (root_ent b u q R t k)" and R: "path_ok R 0"
  obtains s' f' e where "fts_load q s = ret s'" "walking b f' s'" "holds f' R" "ents s' = (ents s)(q \<mapsto> e)" "on_path b R 0 t e"
    "fts_info e = kind_of t" "fts_link e = k" "fts_parent e = u" "sp_cycles s' = sp_cycles s" "env s' = env s" "ents_end s' = ents_end s"
proof -
  let ?e = "root_ent b u q R t k"
  note wd = walkingD [OF s(1)]
  have R': "R \<noteq> []" "NUL \<notin> set R" "length R < 4096" using R by (simp_all add: path_ok_def)
  define f' where "f' = put_chars 0 (R @ [NUL]) f"
  have hold: "holds f' R" by (simp add: f'_def holds_def starts_def put_chars_at nth_append)
  define s1 where "s1 = s\<lparr>bufs := [b \<mapsto> path_of f']\<rparr>"
  have wr: "write_path b 0 (R @ [NUL]) s = ret s1"
    using write_path_walk [OF wd(7), of 0 "R @ [NUL]"] R'(3) by (simp add: s1_def f'_def)
  have path: "path_string s1 (Path_at b 0) = ret R" using holds_string [of s1 b f' R] hold R' by (simp add: s1_def)
  define e1 where "e1 = (if CHR ''/'' \<in> set R \<and> (CHR ''/'' \<in> set (tl R) \<or> tl R \<noteq> [])
      then ?e\<lparr>fts_name := after_slash R, fts_namelen := fts_length_cap (strlen (after_slash R))\<rparr> else ?e)"
  define e where "e = e1\<lparr>fts_path := b, fts_accpath := Path_at b 0, fts_pathlen := of_nat (length R)\<rparr>"
  define s' where "s' = s1\<lparr>ents := (ents s)(q \<mapsto> e), sp_dev := fts_dev e1\<rparr>"
  have cap: "fts_length_cap (strlen R) = of_nat (length R)" using R'(3) by (simp add: strlen_def cap_of_nat)
  have len: "unat (fts_namelen ?e) = length R" using R'(3) by (simp add: unat_of_nat_u32)
  have "fts_load q s = ret s'"
    using len wr path wd(4) cap
    by (simp add: fts_load_def ent_some [OF s(2)] Let_def e1_def e_def s'_def s1_def) blast
  moreover have "fts_link e1 = k" "fts_parent e1 = u" "fts_info e1 = kind_of t" "fts_level e1 = 0" "fts_errno e1 = None" "fts_flags e1 = 0"
    "fts_instr e1 = FTS_NOINSTR" "is_dir t \<longrightarrow> fts_dev e1 = st_dev (stat_of t) \<and> fts_ino e1 = st_ino (stat_of t)"
    by (simp_all add: e1_def)
  moreover have "walking b f' s'"
  proof -
    have "q < ents_end s"
    proof (rule ccontr)
      assume "\<not> q < ents_end s"
      then show False using wd(9) [of q] s(2) by simp
    qed
    moreover have "q \<noteq> 0" using wd(10) s(2) by (cases q) auto
    ultimately show ?thesis using s(1) by (simp add: walking_def s'_def s1_def)
  qed
  ultimately show ?thesis using hold by (intro that [of s' f' e]) (simp_all add: e_def s'_def s1_def on_path_def)
qed

text \<open>The next root becomes the current entry.\<close>

lemma next_root:
  assumes p: "ents s p = Some ep" "fts_link ep = q" and leave: "leave p s = ret s1" and s1: "walking b f s1" "ents s1 q = Some (root_ent b u q R t k)" "q \<noteq> 0"
    and R: "path_ok R 0"
  obtains s' f' e where "read_next sys p s = ret (q, s')" "current b f' q e R 0 t s'" "holds f' R" "ents s' = (ents s1)(q \<mapsto> e)"
    "fts_info e = kind_of t" "fts_link e = k" "fts_parent e = u" "sp_cycles s' = sp_cycles s1" "env s' = env s1" "ents_end s' = ents_end s1"
    "observe s' q = ret (kind_of t, R, 0)"
proof -
  obtain s2 f' e where l: "fts_load q s1 = ret s2" "walking b f' s2" "holds f' R" "ents s2 = (ents s1)(q \<mapsto> e)" "on_path b R 0 t e"
    "fts_info e = kind_of t" "fts_link e = k" "fts_parent e = u" "sp_cycles s2 = sp_cycles s1" "env s2 = env s1" "ents_end s2 = ents_end s1"
    by (rule load_walk [OF s1(1,2) R])
  define s' where "s' = s2\<lparr>sp_cur := q\<rparr>"
  have "isset FTS_NOCHDIR s1" by (rule walk_options(1)) (rule walkingD(2) [OF s1(1)])
  then have "read_next sys p s = ret (q, s')"
    using p leave s1(2,3) l(1) by (subst read_next.simps) (simp add: ent_some FTS_ROOTLEVEL_def s'_def)
  moreover have "walking b f' s'" using l(2) by (simp add: walking_def s'_def)
  moreover from this have "current b f' q e R 0 t s'"
    using s1(3) l(3-5) R by (simp add: current_def s'_def holds_def)
  moreover have "observe s' q = ret (kind_of t, R, 0)"
    using observe_walk [of s' q e b f' R] walkingD(7) [OF l(2)] l(3-6) R by (simp add: s'_def on_path_def path_ok_def)
  ultimately show ?thesis using l by (intro that [of s' f' e]) (simp_all add: s'_def)
qed

text \<open>After the last root the parent of the roots goes, and the walk is over.\<close>

definition over :: "'e open_dirs \<Rightarrow> 'e fts \<Rightarrow> 'e fts \<Rightarrow> bool" where
  "over dirs s s' \<longleftrightarrow> sp_cur s' = 0 \<and> sp_child s' = 0 \<and> sp_options s' = WALK \<and> sp_path s' = 1
     \<and> (\<exists>f. bufs s' = [1 \<mapsto> path_of f]) \<and> (\<forall>q. ents s' q = None) \<and> errno_v s' = None \<and> dirs (env s') = dirs (env s)"

lemma read_last_root:
  assumes s: "walking 1 f s" and p: "ents s = [1 \<mapsto> parent_ent 1](q \<mapsto> e)" "q \<noteq> 0" "q \<noteq> 1" "on_path 1 R 0 t e" "fts_info e = kind_after t"
      "fts_link e = 0" "fts_parent e = 1" "sp_cur s = q"
  shows "\<exists>s'. fts_read sys s = ret (0, s') \<and> over dirs s s'"
proof -
  note wd = walkingD [OF s]
  have eq: "ents s q = Some e" using p(1) by simp
  define s1 where "s1 = s\<lparr>sp_cycles := table_after t (sp_cycles s), sp_cur := 0, ents := (ents s)(q := None)\<rparr>"
  have leave: "leave q s = ret s1" unfolding s1_def by (rule leave_walk [OF eq p(2,4,5)])
  have ents1: "ents s1 = [1 \<mapsto> parent_ent 1]" using p(3) by (auto simp: s1_def p(1) fun_eq_iff)
  define s2 where "s2 = s1\<lparr>bufs := [1 \<mapsto> path_of (f(0 := NUL))]\<rparr>"
  have "bufs s1 = [1 \<mapsto> path_of f]" using wd(7) by (simp add: s1_def)
  then have wr: "write_path 1 0 [NUL] s1 = ret s2" using write_path_walk [of s1 1 f 0 "[NUL]"] by (simp add: s2_def)
  define s3 where "s3 = (set_errno None (s2\<lparr>ents := (ents s2)(1 := None)\<rparr>))\<lparr>sp_cur := 0\<rparr>"
  have pe: "fts_pathlen (parent_ent 1) = 0" "fts_level (parent_ent 1) = -1" by (simp_all add: parent_ent_def zero_ent_def)
  have "ents s1 1 = Some (parent_ent 1)" "ents s2 1 = Some (parent_ent 1)" "sp_path s1 = 1"
    using ents1 wd(4) by (simp_all add: s2_def) (simp add: s1_def)
  then have up: "read_up sys 1 s1 = ret (0, s3)"
    using wr pe by (simp add: read_up_def ent_some free_ent_def FTS_ROOTPARENTLEVEL_def s3_def Let_def)
  have "e\<lparr>fts_instr := FTS_NOINSTR\<rparr> = e" using p(4) by (simp add: on_path_def)
  then have "change q (\<lambda>e. e\<lparr>fts_instr := FTS_NOINSTR\<rparr>) s = ret s" using eq by (simp add: change_def ent_def fun_upd_idem)
  then have "fts_read sys s = read_next sys q s"
    using p(2,4,5,8) eq walk_options(10) [OF wd(2)]
    by (simp add: fts_read_def ent_some on_path_def FTS_NOINSTR_def FTS_AGAIN_def FTS_FOLLOW_def Let_def)
  also have "\<dots> = ret (0, s3)" using eq p(6,7) leave up by (subst read_next.simps) (simp add: ent_some)
  finally have "fts_read sys s = ret (0, s3)" .
  moreover have "over dirs s s3"
    using wd by (auto simp: over_def s3_def s2_def set_errno_def ents1 s1_def p(1))
  ultimately show ?thesis by blast
qed

text \<open>All the roots, from one that has become the current entry.\<close>

definition visits_all :: "(string \<times> tree) list \<Rightarrow> visit list" where
  "visits_all rs = concat (map (\<lambda>(R, t). visits R t) rs)"

lemma tour_roots:
  assumes sys: "serves sys dirs F"
  shows "current 1 f q e R 0 t s \<Longrightarrow> holds f R \<Longrightarrow> fts_info e = kind_of t \<Longrightarrow> fts_link e = (if rs = [] then 0 else Suc q) \<Longrightarrow>
    fts_parent e = 1 \<Longrightarrow> ents s = (root_heap 1 1 (Suc q) rs [1 \<mapsto> parent_ent 1])(q \<mapsto> e) \<Longrightarrow> 1 < q \<Longrightarrow>
    table_map (sp_cycles s) = Map.empty \<Longrightarrow> root_ok F (R, t) \<Longrightarrow> (\<forall>r \<in> set rs. root_ok F r) \<Longrightarrow>
    \<exists>s1 s2. walks sys s (below R 0 t @ visits_all rs) s1 \<and> fts_read sys s1 = ret (0, s2) \<and> over dirs s s2"
proof (induction rs arbitrary: f q e R t s)
  case Nil
  have ok: "walkable {} R t" "paths_of R t \<subseteq> F" using Nil.prems(9) by (simp_all add: root_ok_def)
  have up: "ups {} (ents s) (fts_parent e) 0" using Nil.prems(5,6,7) by (simp add: parent_ent_def)
  have dom: "dom (table_map (sp_cycles s)) \<subseteq> {}" using Nil.prems(8) by simp
  have zero: "int 0 = 0" by simp
  obtain s1 where a: "arrives sys dirs 1 s (below R (int 0) t) s1 q ((ents s)(q \<mapsto> e\<lparr>fts_info := kind_after t\<rparr>))
        (table_with t q (table_map (sp_cycles s))) R"
    using tour(1) [OF sys, of 1 t, unfolded tours_def, rule_format, OF Nil.prems(1,3,2) ok(2) up dom ok(1)] by blast
  then obtain f1 where s1: "walks sys s (below R 0 t) s1" "walking 1 f1 s1" "sp_cur s1 = q"
    "ents s1 = (ents s)(q \<mapsto> e\<lparr>fts_info := kind_after t\<rparr>)" "dirs (env s1) = dirs (env s)"
    unfolding arrives_def zero by blast
  have e: "on_path 1 R 0 t e" "q \<noteq> 0" using Nil.prems(1) by (simp_all add: current_def)
  have "ents s1 = [1 \<mapsto> parent_ent 1](q \<mapsto> e\<lparr>fts_info := kind_after t\<rparr>)" using s1(4) unfolding Nil.prems(6) by simp
  then have "\<exists>s2. fts_read sys s1 = ret (0, s2) \<and> over dirs s1 s2"
    by (rule read_last_root [OF s1(2), where R = R and t = t])
      (use e Nil.prems(4,5,7) s1(3) in \<open>simp_all add: on_path_def\<close>)
  then obtain s2 where s2: "fts_read sys s1 = ret (0, s2)" "over dirs s1 s2" by blast
  have "over dirs s s2" using s2(2) s1(5) by (simp add: over_def)
  with s1(1) s2(1) show ?case by (auto simp: visits_all_def)
next
  case (Cons r rs)
  obtain R2 t2 where r: "r = (R2, t2)" by (cases r)
  have ok: "walkable {} R t" "paths_of R t \<subseteq> F" using Cons.prems(9) by (simp_all add: root_ok_def)
  have ok2: "root_ok F (R2, t2)" "\<forall>r \<in> set rs. root_ok F r" using Cons.prems(10) by (simp_all add: r)
  have h1: "root_heap 1 1 (Suc q) (r # rs) [1 \<mapsto> parent_ent 1] 1 = Some (parent_ent 1)"
    using Cons.prems(7) by (subst root_heap_below) simp_all
  have "ents s 1 = Some (parent_ent 1)"
    unfolding Cons.prems(6) by (subst fun_upd_other) (use Cons.prems(7) h1 in simp_all)
  then have up: "ups {} (ents s) (fts_parent e) 0" unfolding Cons.prems(5) by (simp add: parent_ent_def)
  have dom: "dom (table_map (sp_cycles s)) \<subseteq> {}" using Cons.prems(8) by simp
  have zero: "int 0 = 0" by simp
  obtain s1 where a: "arrives sys dirs 1 s (below R (int 0) t) s1 q ((ents s)(q \<mapsto> e\<lparr>fts_info := kind_after t\<rparr>))
        (table_with t q (table_map (sp_cycles s))) R"
    using tour(1) [OF sys, of 1 t, unfolded tours_def, rule_format, OF Cons.prems(1,3,2) ok(2) up dom ok(1)] by blast
  then obtain f1 where s1: "walks sys s (below R 0 t) s1" "walking 1 f1 s1" "sp_cur s1 = q" "starts f1 R"
    "ents s1 = (ents s)(q \<mapsto> e\<lparr>fts_info := kind_after t\<rparr>)" "dirs (env s1) = dirs (env s)"
    "table_map (sp_cycles s1) = table_with t q (table_map (sp_cycles s))"
    unfolding arrives_def zero by blast
  note wd = walkingD [OF s1(2)]
  let ?e = "e\<lparr>fts_info := kind_after t\<rparr>" and ?h = "root_heap 1 1 (Suc q) (r # rs) [1 \<mapsto> parent_ent 1]"
  have e: "on_path 1 R 0 t ?e" "q \<noteq> 0" "path_ok R 0" using Cons.prems(1) by (simp_all add: current_def on_path_def)
  have eq: "ents s1 q = Some ?e" using s1(5) by simp
  define s2 where "s2 = s1\<lparr>sp_cycles := table_after t (sp_cycles s1), sp_cur := 0, ents := (ents s1)(q := None)\<rparr>"
  have leave: "leave q s1 = ret s2" unfolding s2_def by (rule leave_walk [OF eq e(2,1)]) simp
  have "?h q = None" using Cons.prems(7) by (subst root_heap_below) simp_all
  have "ents s2 = (ents s1)(q := None)" by (simp add: s2_def)
  also have "\<dots> = ?h(q := None)" unfolding s1(5) Cons.prems(6) by (simp del: root_heap.simps)
  also have "\<dots> = ?h" using \<open>?h q = None\<close> by (rule fun_upd_idem)
  finally have ents2: "ents s2 = ?h" .
  have tab: "table_ok (table_after t (sp_cycles s1))" "table_map (table_after t (sp_cycles s1)) = Map.empty"
    using table_after_map [OF wd(8), of t] s1(7) Cons.prems(8) by (auto simp: table_with_def fun_eq_iff)
  have w2: "walking 1 f1 s2"
  proof -
    have "ents s2 p = None" if "ents_end s1 \<le> p" for p using wd(9) [OF that] by (simp add: s2_def)
    then show ?thesis using s1(2) tab(1) unfolding walking_def by (simp add: s2_def)
  qed
  have q2: "ents s2 (Suc q) = Some (root_ent 1 1 (Suc q) R2 t2 (if rs = [] then 0 else Suc (Suc q)))" by (simp add: ents2 r)
  have link: "fts_link ?e = Suc q" using Cons.prems(4) by simp
  obtain s3 f3 e3 where r3: "read_next sys q s1 = ret (Suc q, s3)" "current 1 f3 (Suc q) e3 R2 0 t2 s3" "holds f3 R2"
    "ents s3 = (ents s2)(Suc q \<mapsto> e3)" "fts_info e3 = kind_of t2" "fts_link e3 = (if rs = [] then 0 else Suc (Suc q))" "fts_parent e3 = 1"
    "sp_cycles s3 = sp_cycles s2" "env s3 = env s2" "ents_end s3 = ents_end s2" "observe s3 (Suc q) = ret (kind_of t2, R2, 0)"
    by (rule next_root [OF eq link leave w2 q2]) (use root_okD [OF ok2(1)] in blast)+
  have cur1: "current 1 f1 q ?e R 0 t s1" using s1(2-4) e eq by (simp add: current_def)
  have "fts_read sys s1 = ret (Suc q, s3)" using fts_read_start [OF cur1] r3(1) by simp
  from walks_step [OF this _ r3(11)] have step: "walks sys s1 [(kind_of t2, R2, 0)] s3" by simp
  have ents3: "ents s3 = (root_heap 1 1 (Suc (Suc q)) rs [1 \<mapsto> parent_ent 1])(Suc q \<mapsto> e3)" using r3(4) by (simp add: ents2 r)
  have tab3: "table_map (sp_cycles s3) = Map.empty" using r3(8) tab(2) by (simp add: s2_def)
  obtain s4 s5 where s4: "walks sys s3 (below R2 0 t2 @ visits_all rs) s4" "fts_read sys s4 = ret (0, s5)" "over dirs s3 s5"
    using Cons.IH [OF r3(2,3,5,6,7) ents3 _ tab3 ok2] Cons.prems(7) by auto
  have "walks sys s (below R 0 t @ [(kind_of t2, R2, 0)] @ below R2 0 t2 @ visits_all rs) s4"
    by (rule walks_append [OF s1(1) walks_append [OF step s4(1)]])
  moreover have "over dirs s s5" using s4(3) r3(9) s1(6) by (simp add: over_def s2_def)
  ultimately show ?case using s4(2) by (auto simp: visits_all_def r visits_def)
qed

end
