(* ===== verification/Fts_Walk_Props.thy ===== *)
theory Fts_Walk_Props
  imports Fts_Walk
begin

text \<open>The traversal in full, and a system that serves a tree.\<close>

section \<open>From the first call to the last\<close>

text \<open>Reading until null is returned; \<open>None\<close> when that takes more than \<open>n\<close> calls.\<close>

fun read_all :: "'e sys \<Rightarrow> nat \<Rightarrow> 'e fts \<Rightarrow> (visit list \<times> 'e fts) run" where
  "read_all sys 0 s = None"
| "read_all sys (Suc n) s = andthen (fts_read sys s) (\<lambda>(p, s).
     if p = 0 then ret ([], s)
     else andthen (observe s p) (\<lambda>v. andthen (read_all sys n s) (\<lambda>(vs, s). ret (v # vs, s))))"

lemma read_all_walks:
  "walks sys s vs s1 \<Longrightarrow> fts_read sys s1 = ret (0, s2) \<Longrightarrow> length vs < n \<Longrightarrow> read_all sys n s = ret (vs, s2)"
proof (induction vs arbitrary: s n)
  case Nil
  then show ?case by (cases n) auto
next
  case (Cons v vs)
  then obtain p s3 where step: "fts_read sys s = ret (p, s3)" "p \<noteq> 0" "observe s3 p = ret v" "walks sys s3 vs s1" by auto
  obtain m where n: "n = Suc m" "length vs < m" using Cons.prems(3) by (cases n) auto
  from Cons.IH [OF step(4) Cons.prems(2) n(2)] step show ?case by (simp add: n(1))
qed

lemma tour_opened:
  assumes sys: "serves sys dirs F" and s: "opened rs s" and rs: "rs \<noteq> []" "\<forall>r \<in> set rs. root_ok F r"
  shows "\<exists>s1 s2. walks sys s (visits_all rs) s1 \<and> fts_read sys s1 = ret (0, s2) \<and> over dirs s s2"
proof -
  obtain R t rs' where r: "rs = (R, t) # rs'" using rs(1) by (cases rs) auto
  define c where "c = 2 + length rs"
  let ?h = "root_heap 1 1 2 rs [1 \<mapsto> parent_ent 1]"
  have w: "walking 1 (\<lambda>_. NUL) s" "sp_cur s = c" "ents s = ?h(c \<mapsto> init_ent 1 2)" "table_map (sp_cycles s) = Map.empty"
    using s by (simp_all add: opened_def c_def)
  note wd = walkingD [OF w(1)]
  have ec: "ents s c = Some (init_ent 1 2)" by (simp add: w(3))
  have ie: "fts_info (init_ent 1 2) = FTS_INIT" "fts_link (init_ent 1 2) = 2" "fts_instr (init_ent 1 2) = FTS_NOINSTR"
    by (simp_all add: init_ent_def zero_ent_def)
  define s1 where "s1 = s\<lparr>sp_cur := 0, ents := (ents s)(c := None)\<rparr>"
  have leave: "leave c s = ret s1"
    using ec ie(1) by (simp add: leave_def fts_cycle_pop_def ent_some free_ent_def s1_def) (simp add: ent_def c_def)
  have "?h c = None" unfolding c_def by (rule trans [OF root_heap_above]) simp_all
  then have "?h(c := None) = ?h" by (rule fun_upd_idem)
  then have ents1: "ents s1 = ?h" by (simp add: s1_def w(3))
  have w1: "walking 1 (\<lambda>_. NUL) s1"
  proof -
    have "ents s1 p = None" if "ents_end s \<le> p" for p using wd(9) [OF that] by (simp add: s1_def)
    then show ?thesis using w(1) unfolding walking_def by (simp add: s1_def)
  qed
  have q2: "ents s1 2 = Some (root_ent 1 1 2 R t (if rs' = [] then 0 else Suc 2))" by (simp add: ents1 r)
  have ok: "root_ok F (R, t)" "\<forall>r \<in> set rs'. root_ok F r" using rs(2) by (simp_all add: r)
  obtain s' f' e where n: "read_next sys c s = ret (2, s')" "current 1 f' 2 e R 0 t s'" "holds f' R" "ents s' = (ents s1)(2 \<mapsto> e)"
    "fts_info e = kind_of t" "fts_link e = (if rs' = [] then 0 else Suc 2)" "fts_parent e = 1" "sp_cycles s' = sp_cycles s1" "env s' = env s1"
    "ents_end s' = ents_end s1" "observe s' 2 = ret (kind_of t, R, 0)"
    by (rule next_root [OF ec ie(2) leave w1 q2]) (use root_okD [OF ok(1)] in \<open>simp_all\<close>)
  have "(init_ent 1 2)\<lparr>fts_instr := FTS_NOINSTR\<rparr> = init_ent 1 2" by (simp add: init_ent_def)
  then have "change c (\<lambda>e. e\<lparr>fts_instr := FTS_NOINSTR\<rparr>) s = ret s" using ec by (simp add: change_def ent_def fun_upd_idem)
  then have "fts_read sys s = read_next sys c s"
    using w(2) ec ie walk_options(10) [OF wd(2)]
    by (simp add: fts_read_def ent_some FTS_NOINSTR_def FTS_AGAIN_def FTS_FOLLOW_def Let_def c_def)
  then have first: "walks sys s [(kind_of t, R, 0)] s'" using n(1,11) by simp
  have "ents s' = (root_heap 1 1 (Suc 2) rs' [1 \<mapsto> parent_ent 1])(2 \<mapsto> e)" using n(4) by (simp add: ents1 r)
  moreover have "table_map (sp_cycles s') = Map.empty" using n(8) w(4) by (simp add: s1_def)
  ultimately obtain s3 s4 where t: "walks sys s' (below R 0 t @ visits_all rs') s3" "fts_read sys s3 = ret (0, s4)" "over dirs s' s4"
    using tour_roots [OF sys n(2,3,5,6,7) _ _ _ ok] by auto
  have "walks sys s ([(kind_of t, R, 0)] @ below R 0 t @ visits_all rs') s3" by (rule walks_append [OF first t(1)])
  moreover have "over dirs s s4" using t(3) n(9) by (simp add: over_def s1_def)
  ultimately show ?thesis using t(2) by (auto simp: visits_all_def visits_def r)
qed

lemma fts_close_over:
  assumes "over dirs s0 s"
  obtains s' where "fts_close sys s = ret (0, s')" "\<forall>q. ents s' q = None" "\<forall>b. bufs s' b = None" "buckets (sp_cycles s') = None"
    "dirs (env s') = dirs (env s0)"
proof -
  define s' where "s' = cycle_free (free_path (s\<lparr>sp_array := []\<rparr>))"
  have "sp_options s' = WALK" using assms by (simp add: over_def s'_def cycle_free_def free_path_def)
  then have "isset FTS_NOCHDIR s'" by (rule walk_options)
  then have "fts_close sys s = ret (0, s')" using assms by (simp add: over_def fts_close_def Let_def s'_def)
  then show ?thesis
    by (rule that) (use assms in \<open>auto simp: over_def s'_def cycle_free_def free_path_def\<close>)
qed

text \<open>
  C1.  A physical traversal without changes of directory, of files whose trees a system serves
  unchanged, with memory, with paths below \<open>PATH_MAX\<close> and with no directory below itself:
  \<open>fts_open\<close> succeeds; \<open>fts_read\<close> then reports every file below the named ones exactly once in the order
  of the trees, directories before and after their entries, with its kind, path and level, and
  after that returns null with \<open>errno\<close> 0; \<open>fts_close\<close> returns 0, and every entry, the path buffer, the
  table and every directory stream are then gone.
\<close>

theorem fts_walks_trees:
  assumes sys: "serves sys dirs (\<Union>(R, t) \<in> set rs. paths_of R t)" and rs: "rs \<noteq> []"
    and "\<forall>(R, t) \<in> set rs. R \<noteq> [] \<and> NUL \<notin> set R \<and> walkable {} R t"
  shows "\<exists>s s1 s2. fts_open sys (Some (map fst rs)) (FTS_PHYSICAL OR FTS_NOCHDIR) None err e = ret (True, s)
    \<and> (\<forall>n > length (visits_all rs). read_all sys n s = ret (visits_all rs, s1)) \<and> errno_v s1 = None
    \<and> fts_close sys s1 = ret (0, s2) \<and> (\<forall>q. ents s2 q = None) \<and> (\<forall>b. bufs s2 b = None)
    \<and> buckets (sp_cycles s2) = None \<and> dirs (env s2) = dirs e"
proof -
  let ?F = "\<Union>(R, t) \<in> set rs. paths_of R t"
  have ok: "\<forall>r \<in> set rs. root_ok ?F r" using assms(3) by (force simp: root_ok_def)
  obtain s where s: "fts_open sys (Some (map fst rs)) (FTS_PHYSICAL OR FTS_NOCHDIR) None err e = ret (True, s)"
    "opened rs s" "dirs (env s) = dirs e" by (rule fts_open_walk [OF sys rs ok])
  obtain s0 s1 where w: "walks sys s (visits_all rs) s0" "fts_read sys s0 = ret (0, s1)" "over dirs s s1"
    using tour_opened [OF sys s(2) rs ok] by blast
  obtain s2 where c: "fts_close sys s1 = ret (0, s2)" "\<forall>q. ents s2 q = None" "\<forall>b. bufs s2 b = None" "buckets (sp_cycles s2) = None"
    "dirs (env s2) = dirs (env s)" by (rule fts_close_over [OF w(3)])
  have "\<forall>n > length (visits_all rs). read_all sys n s = ret (visits_all rs, s1)" using read_all_walks [OF w(1,2)] by blast
  moreover have "errno_v s1 = None" using w(3) by (simp add: over_def)
  ultimately show ?thesis using s(1,3) c by metis
qed

section \<open>A system that serves a list of files\<close>

text \<open>The next descriptor, and what the open ones are.\<close>

type_synonym list_env = "int \<times> (int \<Rightarrow> (tree \<times> dirent list) option)"

fun list_dirs :: "list_env open_dirs" where
  "list_dirs (n, m) fd = (if fd < n then
     (case m fd of Some (t, ds) \<Rightarrow> if distinct (map fst (kid_list (kids_of t))) then Some (t, ds) else None | None \<Rightarrow> None) else None)"

definition dirents_of :: "tree \<Rightarrow> dirent list" where
  "dirents_of t = map (\<lambda>n. \<lparr>d_name = n, d_type = DT_UNKNOWN\<rparr>) (''.'' # ''..'' # map fst (kid_list (kids_of t)))"

definition list_sys :: "(string \<times> tree) list \<Rightarrow> list_env sys" where
  "list_sys F = \<lparr>
     open_fn = \<lambda>P _ (n, m). case map_of F P of None \<Rightarrow> (Inr ENOENT, (n, m)) | Some t \<Rightarrow> (Inl n, (n + 1, m(n \<mapsto> (t, dirents_of t)))),
     close_fn = \<lambda>fd (n, m). (Inl (), (n, m(fd := None))),
     fstat_fn = \<lambda>fd (n, m). case m fd of None \<Rightarrow> (Inr ENOENT, (n, m)) | Some (t, ds) \<Rightarrow> (Inl (stat_of t), (n, m)),
     fstatat_fn = \<lambda>fd P _ (n, m). case fd of
         None \<Rightarrow> (case map_of F P of None \<Rightarrow> (Inr ENOENT, (n, m)) | Some t \<Rightarrow> (Inl (stat_of t), (n, m)))
       | Some fd \<Rightarrow> (case m fd of None \<Rightarrow> (Inr ENOENT, (n, m)) | Some (t, ds) \<Rightarrow>
           (case map_of (kid_list (kids_of t)) P of None \<Rightarrow> (Inr ENOENT, (n, m)) | Some k \<Rightarrow> (Inl (stat_of k), (n, m)))),
     fchdir_fn = \<lambda>fd e. (Inl (), e),
     fdopendir_fn = \<lambda>fd e. (Inl (), e),
     readdir_fn = \<lambda>fd (n, m). case m fd of None \<Rightarrow> (Inr ENOENT, (n, m)) | Some (t, ds) \<Rightarrow>
       (Inl (case ds of [] \<Rightarrow> None | d # _ \<Rightarrow> Some d), (n, m(fd \<mapsto> (t, tl ds)))),
     closedir_fn = \<lambda>fd (n, m). (Inl (), (n, m(fd := None))),
     malloc_fn = \<lambda>_ e. (Inl (), e), realloc_fn = \<lambda>_ e. (Inl True, e), qsort_fn = \<lambda>_ xs. xs\<rparr>"

lemma filter_dirents:
  "(\<forall>n \<in> set (map fst (kid_list (kids_of t))). \<not> ISDOT n) \<Longrightarrow>
   filter (\<lambda>n. \<not> ISDOT n) (map d_name (dirents_of t)) = map fst (kid_list (kids_of t))"
  by (simp add: dirents_of_def ISDOT_def comp_def filter_id_conv)

lemma list_sys_serves:
  assumes "distinct (map fst F)"
    and "\<forall>(P, t) \<in> set F. distinct (map fst (kid_list (kids_of t))) \<and> (\<forall>n \<in> set (map fst (kid_list (kids_of t))). \<not> ISDOT n)"
  shows "serves (list_sys F) list_dirs (set F)"
  unfolding serves_def
proof (intro conjI)
  show "serves_open (list_sys F) list_dirs (set F)"
    unfolding serves_open_def
  proof (intro allI impI)
    fix e :: list_env and P t
    assume Pt: "(P, t) \<in> set F"
    obtain n m where e: "e = (n, m)" by (cases e)
    have look: "map_of F P = Some t" using Pt assms(1) by simp
    have t: "distinct (map fst (kid_list (kids_of t)))" "filter (\<lambda>n. \<not> ISDOT n) (map d_name (dirents_of t)) = map fst (kid_list (kids_of t))"
      using assms(2) Pt filter_dirents [of t] by blast+
    have "list_dirs (n, m) n = None" by simp
    moreover have "list_dirs (n + 1, m(n \<mapsto> (t, dirents_of t))) = (list_dirs (n, m))(n \<mapsto> (t, dirents_of t))"
      using t(1) by (auto simp: fun_eq_iff)
    ultimately show "(\<exists>e'. fstatat_fn (list_sys F) None P True e = (Inl (stat_of t), e') \<and> list_dirs e' = list_dirs e) \<and>
     (is_dir t \<longrightarrow> (\<exists>fd ds e'. open_fn (list_sys F) P [O_DIRECTORY, O_CLOEXEC, O_NOFOLLOW] e = (Inl fd, e')
        \<and> list_dirs e fd = None \<and> list_dirs e' = (list_dirs e)(fd \<mapsto> (t, ds))
        \<and> filter (\<lambda>n. \<not> ISDOT n) (map d_name ds) = map fst (kid_list (kids_of t))))"
      using look t(2) by (simp add: list_sys_def e del: fun_upd_apply list_dirs.simps) blast
  qed
  show "serves_dir (list_sys F) list_dirs"
    unfolding serves_dir_def
  proof (intro allI impI)
    fix e :: list_env and fd t ds
    assume open': "list_dirs e fd = Some (t, ds)"
    obtain n m where e: "e = (n, m)" by (cases e)
    have m: "fd < n" "m fd = Some (t, ds)" "distinct (map fst (kid_list (kids_of t)))"
      using open' by (auto simp: e split: if_splits option.splits)
    have "list_dirs (n, m(fd \<mapsto> (t, tl ds))) = (list_dirs (n, m))(fd \<mapsto> (t, tl ds))"
      "list_dirs (n, m(fd := None)) = (list_dirs (n, m))(fd := None)"
      using m(1,3) by (auto simp: fun_eq_iff)
    moreover have "map_of (kid_list (kids_of t)) p = Some k" if "(p, k) \<in> set (kid_list (kids_of t))" for p k
      using that m(3) by simp
    ultimately show "(\<exists>e'. fstat_fn (list_sys F) fd e = (Inl (stat_of t), e') \<and> list_dirs e' = list_dirs e) \<and>
     (\<exists>e'. fdopendir_fn (list_sys F) fd e = (Inl (), e') \<and> list_dirs e' = list_dirs e) \<and>
     (\<exists>e'. readdir_fn (list_sys F) fd e = (Inl (case ds of [] \<Rightarrow> None | d # _ \<Rightarrow> Some d), e')
        \<and> list_dirs e' = (list_dirs e)(fd \<mapsto> (t, tl ds))) \<and>
     (\<forall>(p, k) \<in> set (kid_list (kids_of t)).
        \<exists>e'. fstatat_fn (list_sys F) (Some fd) p True e = (Inl (stat_of k), e') \<and> list_dirs e' = list_dirs e) \<and>
     (\<exists>e'. closedir_fn (list_sys F) fd e = (Inl (), e') \<and> list_dirs e' = (list_dirs e)(fd := None))"
      using m(2)
      by (simp add: list_sys_def e del: fun_upd_apply list_dirs.simps) (auto simp del: fun_upd_apply list_dirs.simps)
  qed
  show "has_memory (list_sys F) list_dirs" by (auto simp: has_memory_def list_sys_def intro: exI [of _ True])
qed

text \<open>A directory with a file and an empty directory.\<close>

definition some_stat :: "u64 \<Rightarrow> u32 \<Rightarrow> fstat" where
  "some_stat i m = \<lparr>st_dev = 1, st_ino = i, st_nlink = 1, st_mode = m\<rparr>"

definition small_tree :: tree where
  "small_tree = Tree (some_stat 2 0x4000) (Kid ''a'' (Tree (some_stat 3 0x8000) No_kids)
     (Kid ''d'' (Tree (some_stat 4 0x4000) No_kids) No_kids))"

definition small_files :: "(string \<times> tree) list" where
  "small_files = [(''t'', small_tree), (''t/a'', Tree (some_stat 3 0x8000) No_kids), (''t/d'', Tree (some_stat 4 0x4000) No_kids)]"

lemma fts_walks_trees_witness:
  "\<exists>s s1. fts_open (list_sys small_files) (Some [''t'']) (FTS_PHYSICAL OR FTS_NOCHDIR) None None (3, \<lambda>_. None) = ret (True, s)
    \<and> read_all (list_sys small_files) 6 s =
      ret ([(FTS_D, ''t'', 0), (FTS_F, ''t/a'', 1), (FTS_D, ''t/d'', 1), (FTS_DP, ''t/d/'', 1), (FTS_DP, ''t'', 0)], s1)"
proof -
  have paths: "(\<Union>(R, t) \<in> set [(''t'', small_tree)]. paths_of R t) = set small_files"
    by (auto simp: small_tree_def small_files_def path_join_def)
  have "serves (list_sys small_files) list_dirs (set small_files)"
    by (rule list_sys_serves) (simp_all add: small_files_def small_tree_def ISDOT_def)
  then have sys: "serves (list_sys small_files) list_dirs (\<Union>(R, t) \<in> set [(''t'', small_tree)]. paths_of R t)" unfolding paths .
  have walk: "\<forall>(R, t) \<in> set [(''t'', small_tree)]. R \<noteq> [] \<and> NUL \<notin> set R \<and> walkable {} R t"
    by (simp add: small_tree_def some_stat_def S_ISDIR_def S_IFMT_def plain_name_def ISDOT_def path_join_def)
  have vs: "visits_all [(''t'', small_tree)] =
      [(FTS_D, ''t'', 0), (FTS_F, ''t/a'', 1), (FTS_D, ''t/d'', 1), (FTS_DP, ''t/d/'', 1), (FTS_DP, ''t'', 0)]"
    by (simp add: visits_all_def visits_def small_tree_def some_stat_def S_ISDIR_def S_ISLNK_def S_ISREG_def S_IFMT_def kind_of_def
        path_join_def)
  show ?thesis
    using fts_walks_trees [OF sys _ walk, of None "(3, \<lambda>_. None)"] by (auto simp: vs)
qed

end
