(* ===== verification/Table_Iface.thy ===== *)
theory Table_Iface
  imports Runs
begin

text \<open>
  The contract the two kinds of \<^verbatim>\<open>tree.h\<close> share: whatever the shape of the tree, a client
  sees the list of its elements in ascending order of their keys.  Elements are addresses and
  0 is \<open>NULL\<close>; the trees interpret the locales on their own macros.
\<close>

section \<open>Comparison functions\<close>

text \<open>
  The client's comparison may follow its arguments, so it is not called on \<open>NULL\<close>.  It is
  \<open>ordered by\<close> a key when its sign tells how two keys compare.
\<close>

definition compare :: "(nat \<Rightarrow> nat \<Rightarrow> int) \<Rightarrow> nat \<Rightarrow> nat \<Rightarrow> int run" where
  "compare cmp a b = (if a = 0 \<or> b = 0 then crash else ret (cmp a b))"

definition ordered_by :: "(nat \<Rightarrow> 'k :: linorder) \<Rightarrow> (nat \<Rightarrow> nat \<Rightarrow> int) \<Rightarrow> bool" where
  "ordered_by key cmp \<longleftrightarrow>
     (\<forall>a b. (cmp a b < 0 \<longleftrightarrow> key a < key b) \<and> (0 < cmp a b \<longleftrightarrow> key b < key a))"

lemma ordered_byD:
  assumes "ordered_by key cmp"
  shows "cmp a b < 0 \<longleftrightarrow> key a < key b" "0 < cmp a b \<longleftrightarrow> key b < key a" "cmp a b = 0 \<longleftrightarrow> key a = key b"
proof -
  show less: "cmp a b < 0 \<longleftrightarrow> key a < key b" and more: "0 < cmp a b \<longleftrightarrow> key b < key a"
    using assms unfolding ordered_by_def by blast+
  have "cmp a b = 0 \<longleftrightarrow> \<not> cmp a b < 0 \<and> \<not> 0 < cmp a b" by arith
  then show "cmp a b = 0 \<longleftrightarrow> key a = key b" unfolding less more by auto
qed

definition ascending :: "(nat \<Rightarrow> 'k :: linorder) \<Rightarrow> nat list \<Rightarrow> bool" where
  "ascending key xs \<longleftrightarrow> sorted_wrt (\<lambda>x y. key x < key y) xs"

lemma ascending_simps [simp]:
  "ascending key []"
  "ascending key (x # xs) \<longleftrightarrow> (\<forall>y\<in>set xs. key x < key y) \<and> ascending key xs"
  "ascending key (xs @ ys) \<longleftrightarrow>
     ascending key xs \<and> ascending key ys \<and> (\<forall>x\<in>set xs. \<forall>y\<in>set ys. key x < key y)"
  by (auto simp: ascending_def sorted_wrt_append)

lemma ascending_distinct: "ascending key xs \<Longrightarrow> distinct xs"
  by (induction xs) auto

section \<open>What a client sees\<close>

definition at_key :: "(nat \<Rightarrow> 'k :: linorder) \<Rightarrow> 'k \<Rightarrow> nat list \<Rightarrow> nat" where
  "at_key key k xs = (case filter (\<lambda>x. key x = k) xs of [] \<Rightarrow> 0 | x # _ \<Rightarrow> x)"

definition list_insert :: "(nat \<Rightarrow> 'k :: linorder) \<Rightarrow> nat \<Rightarrow> nat list \<Rightarrow> nat list" where
  "list_insert key e xs = filter (\<lambda>x. key x < key e) xs @ e # filter (\<lambda>x. key e < key x) xs"

definition list_remove :: "(nat \<Rightarrow> 'k :: linorder) \<Rightarrow> 'k \<Rightarrow> nat list \<Rightarrow> nat list" where
  "list_remove key k xs = filter (\<lambda>x. key x \<noteq> k) xs"

definition head_of :: "nat list \<Rightarrow> nat" where
  "head_of xs = (case xs of [] \<Rightarrow> 0 | x # _ \<Rightarrow> x)"

abbreviation last_of :: "nat list \<Rightarrow> nat" where
  "last_of xs \<equiv> head_of (rev xs)"

definition above :: "(nat \<Rightarrow> 'k :: linorder) \<Rightarrow> 'k \<Rightarrow> nat list \<Rightarrow> nat list" where
  "above key k xs = filter (\<lambda>x. k < key x) xs"

definition beneath :: "(nat \<Rightarrow> 'k :: linorder) \<Rightarrow> 'k \<Rightarrow> nat list \<Rightarrow> nat list" where
  "beneath key k xs = filter (\<lambda>x. key x < k) xs"

lemma head_of_simps [simp]: "head_of [] = 0" "head_of (x # xs) = x"
  by (simp_all add: head_of_def)

lemma split_filters:
  fixes key :: "nat \<Rightarrow> 'k :: linorder"
  assumes "\<forall>x\<in>set A. key x < k" and "\<forall>x\<in>set B. k < key x"
  shows "filter (\<lambda>x. key x < k) (A @ B) = A" and "filter (\<lambda>x. k < key x) (A @ B) = B"
    and "filter (\<lambda>x. key x \<noteq> k) (A @ B) = A @ B" and "filter (\<lambda>x. key x = k) (A @ B) = []"
proof -
  have "\<forall>x\<in>set A. key x < k \<and> \<not> k < key x \<and> key x \<noteq> k" and "\<forall>x\<in>set B. k < key x \<and> \<not> key x < k \<and> key x \<noteq> k"
    using assms by (auto simp: less_le)
  then show "filter (\<lambda>x. key x < k) (A @ B) = A" and "filter (\<lambda>x. k < key x) (A @ B) = B"
    and "filter (\<lambda>x. key x \<noteq> k) (A @ B) = A @ B" and "filter (\<lambda>x. key x = k) (A @ B) = []"
    by (simp_all add: filter_id_conv filter_empty_conv)
qed

lemma cut_filters:
  fixes key :: "nat \<Rightarrow> 'k :: linorder"
  assumes "\<forall>x\<in>set A. key x < k" and "key r = k" and "\<forall>x\<in>set B. k < key x"
  shows "filter (\<lambda>x. key x < k) (A @ r # B) = A" and "filter (\<lambda>x. k < key x) (A @ r # B) = B"
    and "filter (\<lambda>x. key x \<noteq> k) (A @ r # B) = A @ B" and "filter (\<lambda>x. key x = k) (A @ r # B) = [r]"
  using assms split_filters [of A key k B] by (auto simp: filter_id_conv filter_empty_conv)

datatype table_call =
  Insert nat | Remove nat | Find nat | Next nat | Min | Max | Foreach

datatype answer = Elem nat | Elems "nat list"

fun table_spec :: "(nat \<Rightarrow> 'k :: linorder) \<Rightarrow> table_call \<Rightarrow> nat list \<Rightarrow> answer \<times> nat list" where
  "table_spec key (Insert e) xs =
     (if at_key key (key e) xs = 0 then (Elem 0, list_insert key e xs)
      else (Elem (at_key key (key e) xs), xs))"
| "table_spec key (Remove e) xs = (Elem e, list_remove key (key e) xs)"
| "table_spec key (Find e) xs = (Elem (at_key key (key e) xs), xs)"
| "table_spec key (Next e) xs = (Elem (head_of (above key (key e) xs)), xs)"
| "table_spec key Min xs = (Elem (head_of xs), xs)"
| "table_spec key Max xs = (Elem (last_of xs), xs)"
| "table_spec key Foreach xs = (Elems xs, xs)"

text \<open>
  What the client may call: an element it hands in is one of its own (\<open>usable\<close>), and an
  element it removes or steps from is in the tree.
\<close>

fun may_call :: "(nat \<Rightarrow> bool) \<Rightarrow> table_call \<Rightarrow> nat list \<Rightarrow> bool" where
  "may_call usable (Insert e) xs = usable e"
| "may_call usable (Find e) xs = usable e"
| "may_call usable (Remove e) xs = (e \<in> set xs)"
| "may_call usable (Next e) xs = (e \<in> set xs)"
| "may_call usable c xs = True"

text \<open>A whole client: the answers it gets, and what is left.\<close>

fun all_specs :: "('c \<Rightarrow> nat list \<Rightarrow> answer \<times> nat list) \<Rightarrow> 'c list \<Rightarrow> nat list \<Rightarrow> answer list \<times> nat list" where
  "all_specs spec [] xs = ([], xs)"
| "all_specs spec (c # cs) xs =
     (let (a, ys) = spec c xs; (as, zs) = all_specs spec cs ys in (a # as, zs))"

fun may_all :: "('c \<Rightarrow> nat list \<Rightarrow> bool) \<Rightarrow> ('c \<Rightarrow> nat list \<Rightarrow> answer \<times> nat list) \<Rightarrow> 'c list \<Rightarrow> nat list \<Rightarrow> bool" where
  "may_all may spec [] xs = True"
| "may_all may spec (c # cs) xs = (may c xs \<and> may_all may spec cs (snd (spec c xs)))"

section \<open>The same client on a tree in memory\<close>

text \<open>
  \<open>for ((x) = MIN; (x) != NULL; (x) = NEXT(x))\<close>, with a body that notes the element and
  leaves the tree alone.
\<close>

partial_function (option) for_loop :: "(nat \<Rightarrow> 's \<Rightarrow> (nat \<times> 's) run) \<Rightarrow> nat \<Rightarrow> 's \<Rightarrow> (nat list \<times> 's) run" where
  "for_loop step x s =
     (if x = 0 then ret ([], s)
      else andthen (step x s) (\<lambda>(y, s).
        andthen (for_loop step y s) (\<lambda>(xs, s). ret (x # xs, s))))"

definition for_each :: "('s \<Rightarrow> (nat \<times> 's) run) \<Rightarrow> (nat \<Rightarrow> 's \<Rightarrow> (nat \<times> 's) run) \<Rightarrow> 's \<Rightarrow> (nat list \<times> 's) run" where
  "for_each start step s = andthen (start s) (\<lambda>(x, s). for_loop step x s)"

text \<open>The operations of a kind of tree.\<close>

record 's table_ops =
  op_insert :: "nat \<Rightarrow> 's \<Rightarrow> (nat \<times> 's) run"
  op_remove :: "nat \<Rightarrow> 's \<Rightarrow> (nat \<times> 's) run"
  op_find :: "nat \<Rightarrow> 's \<Rightarrow> (nat \<times> 's) run"
  op_next :: "nat \<Rightarrow> 's \<Rightarrow> (nat \<times> 's) run"
  op_min :: "'s \<Rightarrow> (nat \<times> 's) run"
  op_max :: "'s \<Rightarrow> (nat \<times> 's) run"
  op_foreach :: "'s \<Rightarrow> (nat list \<times> 's) run"

definition elem :: "(nat \<times> 's) run \<Rightarrow> (answer \<times> 's) run" where
  "elem r = andthen r (\<lambda>(x, s). ret (Elem x, s))"

fun table_do :: "'s table_ops \<Rightarrow> table_call \<Rightarrow> 's \<Rightarrow> (answer \<times> 's) run" where
  "table_do ops (Insert e) s = elem (op_insert ops e s)"
| "table_do ops (Remove e) s = elem (op_remove ops e s)"
| "table_do ops (Find e) s = elem (op_find ops e s)"
| "table_do ops (Next e) s = elem (op_next ops e s)"
| "table_do ops Min s = elem (op_min ops s)"
| "table_do ops Max s = elem (op_max ops s)"
| "table_do ops Foreach s = andthen (op_foreach ops s) (\<lambda>(xs, s). ret (Elems xs, s))"

fun do_all :: "('c \<Rightarrow> 's \<Rightarrow> (answer \<times> 's) run) \<Rightarrow> 'c list \<Rightarrow> 's \<Rightarrow> (answer list \<times> 's) run" where
  "do_all f [] s = ret ([], s)"
| "do_all f (c # cs) s =
     andthen (f c s) (\<lambda>(a, s). andthen (do_all f cs s) (\<lambda>(as, s). ret (a # as, s)))"

section \<open>The contract\<close>

text \<open>\<open>gives rep r a xs\<close>: the run ends, answers \<open>a\<close> and leaves a tree of the elements \<open>xs\<close>.\<close>

definition gives :: "('s \<Rightarrow> nat list \<Rightarrow> bool) \<Rightarrow> ('a \<times> 's) run \<Rightarrow> 'a \<Rightarrow> nat list \<Rightarrow> bool" where
  "gives rep r a xs \<longleftrightarrow> (\<exists>s. r = ret (a, s) \<and> rep s xs)"

lemma gives_ret [simp]: "gives rep (ret (a, s)) b xs \<longleftrightarrow> a = b \<and> rep s xs"
  by (auto simp: gives_def)

lemma gives_andthen:
  assumes "gives rep r a xs" and "\<And>s. rep s xs \<Longrightarrow> gives rep (f (a, s)) b ys"
  shows "gives rep (andthen r f) b ys"
  using assms by (auto simp: gives_def [of rep r])

lemma gives_elem: "gives rep r a xs \<Longrightarrow> gives rep (elem r) (Elem a) xs"
  unfolding elem_def by (erule gives_andthen) simp

lemma do_all_gives:
  assumes call: "\<And>s xs c. rep s xs \<Longrightarrow> may c xs \<Longrightarrow> gives rep (f c s) (fst (spec c xs)) (snd (spec c xs))"
    and "rep s xs" and "may_all may spec cs xs"
  shows "gives rep (do_all f cs s) (fst (all_specs spec cs xs)) (snd (all_specs spec cs xs))"
  using assms(2,3)
proof (induction cs arbitrary: s xs)
  case Nil
  then show ?case by simp
next
  case (Cons c cs)
  from Cons.prems have c: "may c xs" and cs: "may_all may spec cs (snd (spec c xs))"
    by simp_all
  obtain a ys where spec: "spec c xs = (a, ys)" by fastforce
  obtain as zs where specs: "all_specs spec cs ys = (as, zs)" by fastforce
  have "gives rep (f c s) a ys" using call [OF Cons.prems(1) c] spec by simp
  moreover have "gives rep (andthen (do_all f cs t) (\<lambda>(as, s). ret (a # as, s))) (a # as) zs"
    if "rep t ys" for t
    by (rule gives_andthen [of _ _ as zs]) (use Cons.IH [OF that] cs spec specs in simp_all)
  ultimately have "gives rep (do_all f (c # cs) s) (a # as) zs"
    by (simp add: gives_andthen)
  then show ?case by (simp add: spec specs)
qed

text \<open>A loop whose steps follow the list \<open>us\<close> notes \<open>us\<close>.\<close>

lemma for_each_list:
  assumes s: "rep s xs"
    and start: "\<And>s. rep s xs \<Longrightarrow> gives rep (start s) (head_of us) xs"
    and step: "\<And>s ys z zs. us = ys @ z # zs \<Longrightarrow> rep s xs \<Longrightarrow> gives rep (step z s) (head_of zs) xs"
    and nonzero: "0 \<notin> set us"
  shows "gives rep (for_each start step s) us xs"
proof -
  have loop: "gives rep (for_loop step (head_of zs) s) zs xs" if "rep s xs" "us = ys @ zs" for zs ys s
    using that
  proof (induction zs arbitrary: ys s)
    case Nil
    then show ?case by (simp add: for_loop.simps [of _ 0])
  next
    case (Cons z zs)
    have z: "z \<noteq> 0" using nonzero Cons.prems(2) by auto
    have "gives rep (andthen (step z s) (\<lambda>(y, s). andthen (for_loop step y s)
            (\<lambda>(xs, s). ret (z # xs, s)))) (z # zs) xs"
    proof (rule gives_andthen [OF step [OF Cons.prems(2,1)]], unfold prod.case)
      fix t assume "rep t xs"
      then have "gives rep (for_loop step (head_of zs) t) zs xs"
        using Cons.IH [of t "ys @ [z]"] Cons.prems(2) by simp
      then show "gives rep (andthen (for_loop step (head_of zs) t) (\<lambda>(xs, s). ret (z # xs, s))) (z # zs) xs"
        by (rule gives_andthen) simp
    qed
    then show ?case by (subst for_loop.simps) (simp add: z)
  qed
  show ?thesis
    unfolding for_each_def
    by (rule gives_andthen [OF start [OF s]]) (use loop [of _ "[]" us] in simp)
qed

locale ordered_table =
  fixes key :: "nat \<Rightarrow> 'k :: linorder" and usable :: "nat \<Rightarrow> bool"
    and rep :: "'s \<Rightarrow> nat list \<Rightarrow> bool" and ops :: "'s table_ops"
  assumes rep_ascending: "rep s xs \<Longrightarrow> ascending key xs"
    and rep_usable: "rep s xs \<Longrightarrow> x \<in> set xs \<Longrightarrow> x \<noteq> 0 \<and> usable x"
    and insert_new: "rep s xs \<Longrightarrow> usable e \<Longrightarrow> at_key key (key e) xs = 0 \<Longrightarrow>
      gives rep (op_insert ops e s) 0 (list_insert key e xs)"
    and insert_old: "rep s xs \<Longrightarrow> usable e \<Longrightarrow> at_key key (key e) xs \<noteq> 0 \<Longrightarrow>
      gives rep (op_insert ops e s) (at_key key (key e) xs) xs"
    and remove_elem: "rep s xs \<Longrightarrow> e \<in> set xs \<Longrightarrow>
      gives rep (op_remove ops e s) e (list_remove key (key e) xs)"
    and find_elem: "rep s xs \<Longrightarrow> usable e \<Longrightarrow>
      gives rep (op_find ops e s) (at_key key (key e) xs) xs"
    and next_elem: "rep s xs \<Longrightarrow> e \<in> set xs \<Longrightarrow>
      gives rep (op_next ops e s) (head_of (above key (key e) xs)) xs"
    and min_elem: "rep s xs \<Longrightarrow> gives rep (op_min ops s) (head_of xs) xs"
    and max_elem: "rep s xs \<Longrightarrow> gives rep (op_max ops s) (last_of xs) xs"
    and foreach_def: "op_foreach ops = for_each (op_min ops) (op_next ops)"
begin

lemma foreach_elems:
  assumes s: "rep s xs"
  shows "gives rep (op_foreach ops s) xs xs"
  unfolding foreach_def
proof (rule for_each_list [OF s min_elem])
  fix t ys z zs assume xs: "xs = ys @ z # zs" and t: "rep t xs"
  have "above key (key z) xs = zs"
    using rep_ascending [OF s] cut_filters(2) [of ys key "key z" z zs] xs by (simp add: above_def)
  then show "gives rep (op_next ops z t) (head_of zs) xs"
    using next_elem [OF t, of z] xs by simp
next
  show "0 \<notin> set xs" using rep_usable [OF s] by blast
qed

lemma call_meets_spec:
  assumes "rep s xs" and "may_call usable c xs"
  shows "gives rep (table_do ops c s) (fst (table_spec key c xs)) (snd (table_spec key c xs))"
  using assms
  by (cases c)
     (auto intro: gives_elem insert_new insert_old remove_elem find_elem next_elem min_elem max_elem
        gives_andthen [OF foreach_elems])

theorem calls_meet_specs:
  assumes "rep s xs" and "may_all (may_call usable) (table_spec key) cs xs"
  shows "gives rep (do_all (table_do ops) cs s)
    (fst (all_specs (table_spec key) cs xs)) (snd (all_specs (table_spec key) cs xs))"
  using call_meets_spec assms by (rule do_all_gives)

end

section \<open>Tables that are walked both ways\<close>

datatype two_way_call = Table table_call | Nfind nat | Prev nat | Foreach_Reverse

text \<open>\<open>NFIND\<close> gives the first element that is not beneath what is looked for.\<close>

definition from_key :: "(nat \<Rightarrow> 'k :: linorder) \<Rightarrow> 'k \<Rightarrow> nat list \<Rightarrow> nat list" where
  "from_key key k xs = filter (\<lambda>x. k \<le> key x) xs"

fun two_way_spec :: "(nat \<Rightarrow> 'k :: linorder) \<Rightarrow> two_way_call \<Rightarrow> nat list \<Rightarrow> answer \<times> nat list" where
  "two_way_spec key (Table c) xs = table_spec key c xs"
| "two_way_spec key (Nfind e) xs = (Elem (head_of (from_key key (key e) xs)), xs)"
| "two_way_spec key (Prev e) xs = (Elem (last_of (beneath key (key e) xs)), xs)"
| "two_way_spec key Foreach_Reverse xs = (Elems (rev xs), xs)"

fun may_call2 :: "(nat \<Rightarrow> bool) \<Rightarrow> two_way_call \<Rightarrow> nat list \<Rightarrow> bool" where
  "may_call2 usable (Table c) xs = may_call usable c xs"
| "may_call2 usable (Nfind e) xs = usable e"
| "may_call2 usable (Prev e) xs = (e \<in> set xs)"
| "may_call2 usable Foreach_Reverse xs = True"

record 's two_way_ops =
  op_table :: "'s table_ops"
  op_nfind :: "nat \<Rightarrow> 's \<Rightarrow> (nat \<times> 's) run"
  op_prev :: "nat \<Rightarrow> 's \<Rightarrow> (nat \<times> 's) run"
  op_reverse :: "'s \<Rightarrow> (nat list \<times> 's) run"

fun two_way_do :: "'s two_way_ops \<Rightarrow> two_way_call \<Rightarrow> 's \<Rightarrow> (answer \<times> 's) run" where
  "two_way_do ops (Table c) s = table_do (op_table ops) c s"
| "two_way_do ops (Nfind e) s = elem (op_nfind ops e s)"
| "two_way_do ops (Prev e) s = elem (op_prev ops e s)"
| "two_way_do ops Foreach_Reverse s = andthen (op_reverse ops s) (\<lambda>(xs, s). ret (Elems xs, s))"

locale two_way_table = ordered_table key usable rep "op_table both"
  for key :: "nat \<Rightarrow> 'k :: linorder" and usable :: "nat \<Rightarrow> bool"
    and rep :: "'s \<Rightarrow> nat list \<Rightarrow> bool" and both :: "'s two_way_ops" +
  assumes nfind_elem: "rep s xs \<Longrightarrow> usable e \<Longrightarrow>
      gives rep (op_nfind both e s) (head_of (from_key key (key e) xs)) xs"
    and prev_elem: "rep s xs \<Longrightarrow> e \<in> set xs \<Longrightarrow>
      gives rep (op_prev both e s) (last_of (beneath key (key e) xs)) xs"
    and reverse_def: "op_reverse both = for_each (op_max (op_table both)) (op_prev both)"
begin

lemma reverse_elems:
  assumes s: "rep s xs"
  shows "gives rep (op_reverse both s) (rev xs) xs"
  unfolding reverse_def
proof (rule for_each_list [OF s max_elem])
  fix t ys z zs assume rev: "rev xs = ys @ z # zs" and t: "rep t xs"
  then have xs: "xs = rev zs @ z # rev ys" by (metis rev_rev_ident rev_append rev.simps(2) append_assoc append_Cons append_Nil)
  have "beneath key (key z) xs = rev zs"
    using rep_ascending [OF s] cut_filters(1) [of "rev zs" key "key z" z "rev ys"] xs by (simp add: beneath_def)
  then show "gives rep (op_prev both z t) (head_of zs) xs"
    using prev_elem [OF t, of z] xs by simp
next
  show "0 \<notin> set (rev xs)" using rep_usable [OF s] by auto
qed

lemma two_way_call_meets_spec:
  assumes "rep s xs" and "may_call2 usable c xs"
  shows "gives rep (two_way_do both c s) (fst (two_way_spec key c xs)) (snd (two_way_spec key c xs))"
  using assms
  by (cases c)
     (auto intro: gives_elem call_meets_spec nfind_elem prev_elem gives_andthen [OF reverse_elems])

theorem two_way_calls_meet_specs:
  assumes "rep s xs" and "may_all (may_call2 usable) (two_way_spec key) cs xs"
  shows "gives rep (do_all (two_way_do both) cs s)
    (fst (all_specs (two_way_spec key) cs xs)) (snd (all_specs (two_way_spec key) cs xs))"
  using two_way_call_meets_spec assms by (rule do_all_gives)

end

end
