(* ===== verification/Splay.thy ===== *)
theory Splay
  imports Table_Iface
begin

text \<open>
  The splay trees of \<^verbatim>\<open>include/tree.h\<close>: the \<open>SPLAY_*\<close> macros and the functions that
  \<open>SPLAY_PROTOTYPE\<close> and \<open>SPLAY_GENERATE\<close> generate.  Elements are addresses, 0 is \<open>NULL\<close>,
  and following \<open>NULL\<close> is a crash.  \<open>node\<close> is the address of the local \<open>__node\<close> of
  \<open>name##_SPLAY\<close>.
\<close>

section \<open>Fields\<close>

text \<open>\<open>SPLAY_HEAD\<close> and the \<open>SPLAY_ENTRY\<close> field of every element.\<close>

record splay =
  sph_root :: nat
  spe_left :: "nat \<Rightarrow> nat"
  spe_right :: "nat \<Rightarrow> nat"

definition SPLAY_INIT :: "splay \<Rightarrow> splay" where
  "SPLAY_INIT s = s\<lparr>sph_root := 0\<rparr>"

definition SPLAY_EMPTY :: "splay \<Rightarrow> bool" where
  "SPLAY_EMPTY s \<longleftrightarrow> sph_root s = 0"

definition SPLAY_LEFT :: "nat \<Rightarrow> splay \<Rightarrow> nat run" where
  "SPLAY_LEFT e s = (if e = 0 then crash else ret (spe_left s e))"

definition SPLAY_RIGHT :: "nat \<Rightarrow> splay \<Rightarrow> nat run" where
  "SPLAY_RIGHT e s = (if e = 0 then crash else ret (spe_right s e))"

definition set_left :: "nat \<Rightarrow> nat \<Rightarrow> splay \<Rightarrow> splay run" where
  "set_left e x s = (if e = 0 then crash else ret (s\<lparr>spe_left := (spe_left s)(e := x)\<rparr>))"

definition set_right :: "nat \<Rightarrow> nat \<Rightarrow> splay \<Rightarrow> splay run" where
  "set_right e x s = (if e = 0 then crash else ret (s\<lparr>spe_right := (spe_right s)(e := x)\<rparr>))"

section \<open>Rotations and links\<close>

definition SPLAY_ROTATE_RIGHT :: "nat \<Rightarrow> splay \<Rightarrow> splay run" where
  "SPLAY_ROTATE_RIGHT tmp s =
     andthen (SPLAY_RIGHT tmp s) (\<lambda>r.
     andthen (set_left (sph_root s) r s) (\<lambda>s.
     andthen (set_right tmp (sph_root s) s) (\<lambda>s.
     ret (s\<lparr>sph_root := tmp\<rparr>))))"

definition SPLAY_ROTATE_LEFT :: "nat \<Rightarrow> splay \<Rightarrow> splay run" where
  "SPLAY_ROTATE_LEFT tmp s =
     andthen (SPLAY_LEFT tmp s) (\<lambda>l.
     andthen (set_right (sph_root s) l s) (\<lambda>s.
     andthen (set_left tmp (sph_root s) s) (\<lambda>s.
     ret (s\<lparr>sph_root := tmp\<rparr>))))"

text \<open>The links also move \<open>tmp\<close> (\<open>__right\<close> or \<open>__left\<close> of the caller) to the old root.\<close>

definition SPLAY_LINKLEFT :: "nat \<Rightarrow> splay \<Rightarrow> (nat \<times> splay) run" where
  "SPLAY_LINKLEFT tmp s =
     andthen (set_left tmp (sph_root s) s) (\<lambda>s.
     let tmp = sph_root s in
     andthen (SPLAY_LEFT (sph_root s) s) (\<lambda>l.
     ret (tmp, s\<lparr>sph_root := l\<rparr>)))"

definition SPLAY_LINKRIGHT :: "nat \<Rightarrow> splay \<Rightarrow> (nat \<times> splay) run" where
  "SPLAY_LINKRIGHT tmp s =
     andthen (set_right tmp (sph_root s) s) (\<lambda>s.
     let tmp = sph_root s in
     andthen (SPLAY_RIGHT (sph_root s) s) (\<lambda>r.
     ret (tmp, s\<lparr>sph_root := r\<rparr>)))"

definition SPLAY_ASSEMBLE :: "nat \<Rightarrow> nat \<Rightarrow> nat \<Rightarrow> splay \<Rightarrow> splay run" where
  "SPLAY_ASSEMBLE node left right s =
     andthen (SPLAY_LEFT (sph_root s) s) (\<lambda>l.
     andthen (set_right left l s) (\<lambda>s.
     andthen (SPLAY_RIGHT (sph_root s) s) (\<lambda>r.
     andthen (set_left right r s) (\<lambda>s.
     andthen (SPLAY_RIGHT node s) (\<lambda>x.
     andthen (set_left (sph_root s) x s) (\<lambda>s.
     andthen (SPLAY_LEFT node s) (\<lambda>y.
     set_right (sph_root s) y s)))))))"

section \<open>Splaying\<close>

text \<open>
  The body of the loops of \<open>name##_SPLAY\<close> and \<open>name##_SPLAY_MINMAX\<close>, which differ in the
  comparison with \<open>__tmp\<close> only.  It tells whether the loop goes on.
\<close>

definition splay_turn ::
  "(nat \<Rightarrow> int run) \<Rightarrow> int \<Rightarrow> nat \<Rightarrow> nat \<Rightarrow> splay \<Rightarrow> (bool \<times> nat \<times> nat \<times> splay) run" where
  "splay_turn test way left right s =
     (if way < 0 then
        andthen (SPLAY_LEFT (sph_root s) s) (\<lambda>tmp.
        if tmp = 0 then ret (False, left, right, s)
        else andthen (test tmp) (\<lambda>c.
          if c < 0 then
            andthen (SPLAY_ROTATE_RIGHT tmp s) (\<lambda>s.
            andthen (SPLAY_LEFT (sph_root s) s) (\<lambda>l.
            if l = 0 then ret (False, left, right, s)
            else andthen (SPLAY_LINKLEFT right s) (\<lambda>(right, s). ret (True, left, right, s))))
          else andthen (SPLAY_LINKLEFT right s) (\<lambda>(right, s). ret (True, left, right, s))))
      else if 0 < way then
        andthen (SPLAY_RIGHT (sph_root s) s) (\<lambda>tmp.
        if tmp = 0 then ret (False, left, right, s)
        else andthen (test tmp) (\<lambda>c.
          if 0 < c then
            andthen (SPLAY_ROTATE_LEFT tmp s) (\<lambda>s.
            andthen (SPLAY_RIGHT (sph_root s) s) (\<lambda>r.
            if r = 0 then ret (False, left, right, s)
            else andthen (SPLAY_LINKRIGHT left s) (\<lambda>(left, s). ret (True, left, right, s))))
          else andthen (SPLAY_LINKRIGHT left s) (\<lambda>(left, s). ret (True, left, right, s))))
      else ret (True, left, right, s))"

partial_function (option) splay_loop ::
  "(nat \<Rightarrow> nat \<Rightarrow> int) \<Rightarrow> nat \<Rightarrow> nat \<Rightarrow> nat \<Rightarrow> splay \<Rightarrow> (nat \<times> nat \<times> splay) run" where
  "splay_loop cmp elm left right s =
     andthen (compare cmp elm (sph_root s)) (\<lambda>way.
     if way = 0 then ret (left, right, s)
     else andthen (splay_turn (compare cmp elm) way left right s) (\<lambda>(go, left, right, s).
       if go then splay_loop cmp elm left right s else ret (left, right, s)))"

definition SPLAY :: "nat \<Rightarrow> (nat \<Rightarrow> nat \<Rightarrow> int) \<Rightarrow> nat \<Rightarrow> splay \<Rightarrow> splay run" where
  "SPLAY node cmp elm s =
     andthen (set_right node 0 s) (\<lambda>s. andthen (set_left node 0 s) (\<lambda>s.
     andthen (splay_loop cmp elm node node s) (\<lambda>(left, right, s).
     SPLAY_ASSEMBLE node left right s)))"

partial_function (option) minmax_loop :: "int \<Rightarrow> nat \<Rightarrow> nat \<Rightarrow> splay \<Rightarrow> (nat \<times> nat \<times> splay) run" where
  "minmax_loop way left right s =
     andthen (splay_turn (\<lambda>_. ret way) way left right s) (\<lambda>(go, left, right, s).
       if go then minmax_loop way left right s else ret (left, right, s))"

definition SPLAY_MINMAX :: "nat \<Rightarrow> int \<Rightarrow> splay \<Rightarrow> splay run" where
  "SPLAY_MINMAX node way s =
     andthen (set_right node 0 s) (\<lambda>s. andthen (set_left node 0 s) (\<lambda>s.
     andthen (minmax_loop way node node s) (\<lambda>(left, right, s).
     SPLAY_ASSEMBLE node left right s)))"

section \<open>Operations\<close>

definition SPLAY_INSERT :: "nat \<Rightarrow> (nat \<Rightarrow> nat \<Rightarrow> int) \<Rightarrow> nat \<Rightarrow> splay \<Rightarrow> (nat \<times> splay) run" where
  "SPLAY_INSERT node cmp elm s =
     (if SPLAY_EMPTY s then
        andthen (set_right elm 0 s) (\<lambda>s. andthen (set_left elm 0 s) (\<lambda>s.
        ret (0, s\<lparr>sph_root := elm\<rparr>)))
      else
        andthen (SPLAY node cmp elm s) (\<lambda>s.
        andthen (compare cmp elm (sph_root s)) (\<lambda>way.
        if way < 0 then
          andthen (SPLAY_LEFT (sph_root s) s) (\<lambda>l.
          andthen (set_left elm l s) (\<lambda>s.
          andthen (set_right elm (sph_root s) s) (\<lambda>s.
          andthen (set_left (sph_root s) 0 s) (\<lambda>s.
          ret (0, s\<lparr>sph_root := elm\<rparr>)))))
        else if 0 < way then
          andthen (SPLAY_RIGHT (sph_root s) s) (\<lambda>r.
          andthen (set_right elm r s) (\<lambda>s.
          andthen (set_left elm (sph_root s) s) (\<lambda>s.
          andthen (set_right (sph_root s) 0 s) (\<lambda>s.
          ret (0, s\<lparr>sph_root := elm\<rparr>)))))
        else ret (sph_root s, s))))"

definition SPLAY_REMOVE :: "nat \<Rightarrow> (nat \<Rightarrow> nat \<Rightarrow> int) \<Rightarrow> nat \<Rightarrow> splay \<Rightarrow> (nat \<times> splay) run" where
  "SPLAY_REMOVE node cmp elm s =
     (if SPLAY_EMPTY s then ret (0, s)
      else
        andthen (SPLAY node cmp elm s) (\<lambda>s.
        andthen (compare cmp elm (sph_root s)) (\<lambda>way.
        if way = 0 then
          andthen (SPLAY_LEFT (sph_root s) s) (\<lambda>l.
          if l = 0 then
            andthen (SPLAY_RIGHT (sph_root s) s) (\<lambda>r. ret (elm, s\<lparr>sph_root := r\<rparr>))
          else
            andthen (SPLAY_RIGHT (sph_root s) s) (\<lambda>tmp.
            andthen (SPLAY node cmp elm (s\<lparr>sph_root := l\<rparr>)) (\<lambda>s.
            andthen (set_right (sph_root s) tmp s) (\<lambda>s. ret (elm, s)))))
        else ret (0, s))))"

definition SPLAY_FIND :: "nat \<Rightarrow> (nat \<Rightarrow> nat \<Rightarrow> int) \<Rightarrow> nat \<Rightarrow> splay \<Rightarrow> (nat \<times> splay) run" where
  "SPLAY_FIND node cmp elm s =
     (if SPLAY_EMPTY s then ret (0, s)
      else
        andthen (SPLAY node cmp elm s) (\<lambda>s.
        andthen (compare cmp elm (sph_root s)) (\<lambda>way.
        ret (if way = 0 then sph_root s else 0, s))))"

text \<open>\<open>while (SPLAY_LEFT(elm, field) != NULL) elm = SPLAY_LEFT(elm, field);\<close>\<close>

partial_function (option) leftmost :: "nat \<Rightarrow> splay \<Rightarrow> nat run" where
  "leftmost elm s =
     andthen (SPLAY_LEFT elm s) (\<lambda>l. if l = 0 then ret elm else leftmost l s)"

definition SPLAY_NEXT :: "nat \<Rightarrow> (nat \<Rightarrow> nat \<Rightarrow> int) \<Rightarrow> nat \<Rightarrow> splay \<Rightarrow> (nat \<times> splay) run" where
  "SPLAY_NEXT node cmp elm s =
     andthen (SPLAY node cmp elm s) (\<lambda>s.
     andthen (SPLAY_RIGHT elm s) (\<lambda>r.
     if r = 0 then ret (0, s)
     else andthen (leftmost r s) (\<lambda>x. ret (x, s))))"

definition SPLAY_MIN_MAX :: "nat \<Rightarrow> int \<Rightarrow> splay \<Rightarrow> (nat \<times> splay) run" where
  "SPLAY_MIN_MAX node val s =
     andthen (SPLAY_MINMAX node val s) (\<lambda>s. ret (sph_root s, s))"

definition SPLAY_NEGINF :: int where "SPLAY_NEGINF = -1"
definition SPLAY_INF :: int where "SPLAY_INF = 1"

definition SPLAY_MIN :: "nat \<Rightarrow> splay \<Rightarrow> (nat \<times> splay) run" where
  "SPLAY_MIN node s = (if SPLAY_EMPTY s then ret (0, s) else SPLAY_MIN_MAX node SPLAY_NEGINF s)"

definition SPLAY_MAX :: "nat \<Rightarrow> splay \<Rightarrow> (nat \<times> splay) run" where
  "SPLAY_MAX node s = (if SPLAY_EMPTY s then ret (0, s) else SPLAY_MIN_MAX node SPLAY_INF s)"

definition SPLAY_FOREACH :: "nat \<Rightarrow> (nat \<Rightarrow> nat \<Rightarrow> int) \<Rightarrow> splay \<Rightarrow> (nat list \<times> splay) run" where
  "SPLAY_FOREACH node cmp s = for_each (SPLAY_MIN node) (SPLAY_NEXT node cmp) s"

text \<open>The operations as the client of a tree uses them.\<close>

definition splay_ops :: "nat \<Rightarrow> (nat \<Rightarrow> nat \<Rightarrow> int) \<Rightarrow> splay table_ops" where
  "splay_ops node cmp =
     \<lparr>op_insert = SPLAY_INSERT node cmp, op_remove = SPLAY_REMOVE node cmp,
      op_find = SPLAY_FIND node cmp, op_next = SPLAY_NEXT node cmp,
      op_min = SPLAY_MIN node, op_max = SPLAY_MAX node, op_foreach = SPLAY_FOREACH node cmp\<rparr>"

lemma splay_ops_simps [simp]:
  "op_insert (splay_ops node cmp) = SPLAY_INSERT node cmp"
  "op_remove (splay_ops node cmp) = SPLAY_REMOVE node cmp"
  "op_find (splay_ops node cmp) = SPLAY_FIND node cmp"
  "op_next (splay_ops node cmp) = SPLAY_NEXT node cmp"
  "op_min (splay_ops node cmp) = SPLAY_MIN node"
  "op_max (splay_ops node cmp) = SPLAY_MAX node"
  "op_foreach (splay_ops node cmp) = SPLAY_FOREACH node cmp"
  by (simp_all add: splay_ops_def)

end
