(* ===== verification/Splay_Tree.thy ===== *)
theory Splay_Tree
  imports Splay "HOL-Library.Tree"
begin

text \<open>
  The trees the pointers of \<^verbatim>\<open>Splay\<close> form.  While \<open>name##_SPLAY\<close> works, the elements hang on
  three pieces: the elements beneath the one looked for, linked by their right pointers from
  \<open>__node\<close>; the tree still under the root; and the elements above, linked by left pointers.
\<close>

section \<open>The pieces\<close>

fun tree_at :: "splay \<Rightarrow> nat \<Rightarrow> nat tree \<Rightarrow> bool" where
  "tree_at s p Leaf \<longleftrightarrow> p = 0"
| "tree_at s p (Node l a r) \<longleftrightarrow>
     p = a \<and> a \<noteq> 0 \<and> tree_at s (spe_left s a) l \<and> tree_at s (spe_right s a) r"

fun lower_list :: "(nat tree \<times> nat) list \<Rightarrow> nat list" where
  "lower_list [] = []"
| "lower_list ((A, a) # L) = lower_list L @ inorder A @ [a]"

fun upper_list :: "(nat \<times> nat tree) list \<Rightarrow> nat list" where
  "upper_list [] = []"
| "upper_list ((b, B) # R) = b # inorder B @ upper_list R"

fun lower_end :: "nat \<Rightarrow> (nat tree \<times> nat) list \<Rightarrow> nat" where
  "lower_end node [] = node"
| "lower_end node ((A, a) # L) = a"

fun upper_end :: "nat \<Rightarrow> (nat \<times> nat tree) list \<Rightarrow> nat" where
  "upper_end node [] = node"
| "upper_end node ((b, B) # R) = b"

fun lower_at :: "splay \<Rightarrow> nat \<Rightarrow> (nat tree \<times> nat) list \<Rightarrow> bool" where
  "lower_at s node [] = True"
| "lower_at s node ((A, a) # L) \<longleftrightarrow>
     a \<noteq> 0 \<and> spe_right s (lower_end node L) = a \<and> tree_at s (spe_left s a) A \<and> lower_at s node L"

fun upper_at :: "splay \<Rightarrow> nat \<Rightarrow> (nat \<times> nat tree) list \<Rightarrow> bool" where
  "upper_at s node [] = True"
| "upper_at s node ((b, B) # R) \<longleftrightarrow>
     b \<noteq> 0 \<and> spe_left s (upper_end node R) = b \<and> tree_at s (spe_right s b) B \<and> upper_at s node R"

text \<open>Outside \<open>xs\<close> the links are those of \<open>s0\<close>.\<close>

definition kept :: "nat list \<Rightarrow> splay \<Rightarrow> splay \<Rightarrow> bool" where
  "kept xs s0 s \<longleftrightarrow> (\<forall>x. x \<notin> set xs \<longrightarrow> spe_left s x = spe_left s0 x \<and> spe_right s x = spe_right s0 x)"

definition splaying ::
  "nat \<Rightarrow> splay \<Rightarrow> splay \<Rightarrow> (nat tree \<times> nat) list \<Rightarrow> nat tree \<Rightarrow> (nat \<times> nat tree) list \<Rightarrow> bool" where
  "splaying node s0 s L t R \<longleftrightarrow> kept (node # lower_list L @ inorder t @ upper_list R) s0 s \<and>
     node \<noteq> 0 \<and> lower_at s node L \<and> tree_at s (sph_root s) t \<and> upper_at s node R \<and>
     distinct (node # lower_list L @ inorder t @ upper_list R)"

section \<open>What they depend on\<close>

lemma tree_at_zero: "tree_at s p t \<Longrightarrow> p = 0 \<longleftrightarrow> t = Leaf"
  by (cases t) auto

lemma tree_at_nonzero: "tree_at s p t \<Longrightarrow> x \<in> set_tree t \<Longrightarrow> x \<noteq> 0"
  by (induction t arbitrary: p) auto

lemma tree_at_cong:
  "tree_at s p t \<Longrightarrow>
     (\<And>x. x \<in> set_tree t \<Longrightarrow> spe_left s' x = spe_left s x \<and> spe_right s' x = spe_right s x) \<Longrightarrow>
   tree_at s' p t"
  by (induction t arbitrary: p) auto

lemma lower_end_in: "lower_end node L \<in> set (node # lower_list L)"
  by (cases L rule: lower_list.cases) auto

lemma upper_end_in: "upper_end node R \<in> set (node # upper_list R)"
  by (cases R rule: upper_list.cases) auto

lemma lower_at_end: "lower_at s node L \<Longrightarrow> node \<noteq> 0 \<Longrightarrow> lower_end node L \<noteq> 0"
  by (cases L rule: lower_list.cases) auto

lemma upper_at_end: "upper_at s node R \<Longrightarrow> node \<noteq> 0 \<Longrightarrow> upper_end node R \<noteq> 0"
  by (cases R rule: upper_list.cases) auto

text \<open>The right pointer of the last lower element, and the left pointer of the last upper one, are free.\<close>

lemma lower_at_cong:
  assumes "lower_at s node L" and "distinct (node # lower_list L)"
    and "\<And>x. x \<in> set (lower_list L) \<Longrightarrow> spe_left s' x = spe_left s x"
    and "\<And>x. x \<in> set (node # lower_list L) \<Longrightarrow> x \<noteq> lower_end node L \<Longrightarrow> spe_right s' x = spe_right s x"
  shows "lower_at s' node L"
  using assms
proof (induction L)
  case Nil
  then show ?case by simp
next
  case (Cons e L)
  obtain A a where e: "e = (A, a)" by fastforce
  have at: "a \<noteq> 0" "spe_right s (lower_end node L) = a" "tree_at s (spe_left s a) A" "lower_at s node L"
    using Cons.prems(1) by (simp_all add: e)
  have dist: "distinct (node # lower_list L)" "a \<notin> set (node # lower_list L)" "a \<notin> set_tree A"
    using Cons.prems(2) by (auto simp: e)
  have ne: "lower_end node L \<noteq> a" using lower_end_in [of node L] dist(2) by metis
  have "spe_right s' (lower_end node L) = a"
    using Cons.prems(4) [of "lower_end node L"] lower_end_in [of node L] ne at(2) by (auto simp: e)
  moreover have "tree_at s' (spe_left s' a) A"
  proof -
    have "spe_left s' x = spe_left s x \<and> spe_right s' x = spe_right s x" if "x \<in> set_tree A" for x
      using Cons.prems(3) [of x] Cons.prems(4) [of x] that dist(3) by (auto simp: e)
    with at(3) have "tree_at s' (spe_left s a) A" by (rule tree_at_cong)
    then show ?thesis using Cons.prems(3) [of a] by (simp add: e)
  qed
  moreover have "lower_at s' node L"
  proof (rule Cons.IH [OF at(4) dist(1)])
    fix x
    show "spe_left s' x = spe_left s x" if "x \<in> set (lower_list L)"
      using Cons.prems(3) [of x] that by (simp add: e)
    show "spe_right s' x = spe_right s x" if "x \<in> set (node # lower_list L)"
    proof -
      have "x \<noteq> a" using that dist(2) by metis
      then show ?thesis using Cons.prems(4) [of x] that by (auto simp: e)
    qed
  qed
  ultimately show ?case by (simp add: e at(1))
qed

lemma upper_at_cong:
  assumes "upper_at s node R" and "distinct (node # upper_list R)"
    and "\<And>x. x \<in> set (upper_list R) \<Longrightarrow> spe_right s' x = spe_right s x"
    and "\<And>x. x \<in> set (node # upper_list R) \<Longrightarrow> x \<noteq> upper_end node R \<Longrightarrow> spe_left s' x = spe_left s x"
  shows "upper_at s' node R"
  using assms
proof (induction R)
  case Nil
  then show ?case by simp
next
  case (Cons e R)
  obtain b B where e: "e = (b, B)" by fastforce
  have at: "b \<noteq> 0" "spe_left s (upper_end node R) = b" "tree_at s (spe_right s b) B" "upper_at s node R"
    using Cons.prems(1) by (simp_all add: e)
  have dist: "distinct (node # upper_list R)" "b \<notin> set (node # upper_list R)" "b \<notin> set_tree B"
    using Cons.prems(2) by (auto simp: e)
  have ne: "upper_end node R \<noteq> b" using upper_end_in [of node R] dist(2) by metis
  have "spe_left s' (upper_end node R) = b"
    using Cons.prems(4) [of "upper_end node R"] upper_end_in [of node R] ne at(2) by (auto simp: e)
  moreover have "tree_at s' (spe_right s' b) B"
  proof -
    have "spe_left s' x = spe_left s x \<and> spe_right s' x = spe_right s x" if "x \<in> set_tree B" for x
      using Cons.prems(3) [of x] Cons.prems(4) [of x] that dist(3) by (auto simp: e)
    with at(3) have "tree_at s' (spe_right s b) B" by (rule tree_at_cong)
    then show ?thesis using Cons.prems(3) [of b] by (simp add: e)
  qed
  moreover have "upper_at s' node R"
  proof (rule Cons.IH [OF at(4) dist(1)])
    fix x
    show "spe_right s' x = spe_right s x" if "x \<in> set (upper_list R)"
      using Cons.prems(3) [of x] that by (simp add: e)
    show "spe_left s' x = spe_left s x" if "x \<in> set (node # upper_list R)"
    proof -
      have "x \<noteq> b" using that dist(2) by metis
      then show ?thesis using Cons.prems(4) [of x] that by (auto simp: e)
    qed
  qed
  ultimately show ?case by (simp add: e at(1))
qed

end
