(* ===== verification/Splay_Moves.thy ===== *)
theory Splay_Moves
  imports Splay_Tree
begin

text \<open>What the rotations, the links and the loop of \<open>name##_SPLAY\<close> do to the three pieces.\<close>

section \<open>Moves\<close>

lemmas splay_fields = SPLAY_LEFT_def SPLAY_RIGHT_def set_left_def set_right_def

lemma splaying_cong:
  assumes "splaying node s0 s L t R" and "tree_at s' (sph_root s') t'" 
    and "distinct (node # lower_list L @ inorder t @ upper_list R)"
    and same: "set (inorder t') = set (inorder t)" "distinct (inorder t')"
    and "\<And>x. x \<notin> set_tree t \<Longrightarrow> spe_left s' x = spe_left s x \<and> spe_right s' x = spe_right s x"
  shows "splaying node s0 s' L t' R"
proof -
  have L: "lower_at s' node L"
    using assms by (intro lower_at_cong [of s node L s']) (auto simp: splaying_def)
  have R: "upper_at s' node R"
    using assms by (intro upper_at_cong [of s node R s']) (auto simp: splaying_def)
  have "kept (node # lower_list L @ inorder t' @ upper_list R) s0 s'"
    using assms(1,6) same(1) by (auto simp: splaying_def kept_def)
  with assms(1,2,3) same L R show ?thesis by (auto simp: splaying_def)
qed

lemma rotate_right:
  assumes s: "splaying node s0 s L (Node (Node x b y) a z) R"
  shows "\<exists>s'. SPLAY_ROTATE_RIGHT b s = ret s' \<and> splaying node s0 s' L (Node x b (Node y a z)) R"
proof -
  from s have at: "sph_root s = a" "a \<noteq> 0" "b \<noteq> 0" "spe_left s a = b"
      "tree_at s (spe_left s b) x" "tree_at s (spe_right s b) y" "tree_at s (spe_right s a) z"
    and dist: "distinct (node # lower_list L @ inorder (Node (Node x b y) a z) @ upper_list R)"
    by (auto simp: splaying_def)
  let ?s = "s\<lparr>sph_root := b, spe_left := (spe_left s)(a := spe_right s b), spe_right := (spe_right s)(b := a)\<rparr>"
  have run: "SPLAY_ROTATE_RIGHT b s = ret ?s"
    using at by (simp add: SPLAY_ROTATE_RIGHT_def splay_fields)
  have "tree_at ?s (spe_left s b) x" "tree_at ?s (spe_right s b) y" "tree_at ?s (spe_right s a) z"
    using at(5-7) dist by (auto elim!: tree_at_cong)
  then have t: "tree_at ?s (sph_root ?s) (Node x b (Node y a z))"
    using at dist by auto
  have "splaying node s0 ?s L (Node x b (Node y a z)) R"
    by (rule splaying_cong [OF s t dist]) (use dist in auto)
  with run show ?thesis by blast
qed

lemma rotate_left:
  assumes s: "splaying node s0 s L (Node z a (Node y b x)) R"
  shows "\<exists>s'. SPLAY_ROTATE_LEFT b s = ret s' \<and> splaying node s0 s' L (Node (Node z a y) b x) R"
proof -
  from s have at: "sph_root s = a" "a \<noteq> 0" "b \<noteq> 0" "spe_right s a = b"
      "tree_at s (spe_right s b) x" "tree_at s (spe_left s b) y" "tree_at s (spe_left s a) z"
    and dist: "distinct (node # lower_list L @ inorder (Node z a (Node y b x)) @ upper_list R)"
    by (auto simp: splaying_def)
  let ?s = "s\<lparr>sph_root := b, spe_left := (spe_left s)(b := a), spe_right := (spe_right s)(a := spe_left s b)\<rparr>"
  have run: "SPLAY_ROTATE_LEFT b s = ret ?s"
    using at by (simp add: SPLAY_ROTATE_LEFT_def splay_fields)
  have "tree_at ?s (spe_right s b) x" "tree_at ?s (spe_left s b) y" "tree_at ?s (spe_left s a) z"
    using at(5-7) dist by (auto elim!: tree_at_cong)
  then have t: "tree_at ?s (sph_root ?s) (Node (Node z a y) b x)"
    using at dist by auto
  have "splaying node s0 ?s L (Node (Node z a y) b x) R"
    by (rule splaying_cong [OF s t dist]) (use dist in auto)
  with run show ?thesis by blast
qed

lemma link_left:
  assumes s: "splaying node s0 s L (Node l a z) R"
  shows "\<exists>s'. SPLAY_LINKLEFT (upper_end node R) s = ret (a, s') \<and> splaying node s0 s' L l ((a, z) # R)"
proof -
  let ?e = "upper_end node R"
  from s have at: "sph_root s = a" "a \<noteq> 0" "tree_at s (spe_left s a) l" "tree_at s (spe_right s a) z"
      "lower_at s node L" "upper_at s node R" "node \<noteq> 0"
    and dist: "distinct (node # lower_list L @ inorder (Node l a z) @ upper_list R)"
    by (auto simp: splaying_def)
  have e: "?e \<noteq> 0" "?e \<in> set (node # upper_list R)"
    using upper_at_end [OF at(6,7)] upper_end_in [of node R] by blast+
  have ea: "?e \<noteq> a" and apart: "?e \<notin> set_tree l" "?e \<notin> set_tree z" "?e \<notin> set (lower_list L)"
    using e dist by auto
  let ?s = "s\<lparr>sph_root := spe_left s a, spe_left := (spe_left s)(?e := a)\<rparr>"
  have run: "SPLAY_LINKLEFT ?e s = ret (a, ?s)"
    using at e ea by (simp add: SPLAY_LINKLEFT_def splay_fields)
  have l: "tree_at ?s (spe_left s a) l" using at(3) by (rule tree_at_cong) (use apart in auto)
  have z: "tree_at ?s (spe_right s a) z" using at(4) by (rule tree_at_cong) (use apart in auto)
  have L: "lower_at ?s node L" using at(5) by (rule lower_at_cong) (use apart dist in auto)
  have R: "upper_at ?s node R" using at(6) by (rule upper_at_cong) (use dist in auto)
  have "kept (node # lower_list L @ inorder l @ upper_list ((a, z) # R)) s0 ?s"
    using s e(2) unfolding splaying_def kept_def by auto
  then have "splaying node s0 ?s L l ((a, z) # R)"
    using at(2,7) l z L R dist by (simp add: splaying_def)
  with run show ?thesis by blast
qed

lemma link_right:
  assumes s: "splaying node s0 s L (Node z a r) R"
  shows "\<exists>s'. SPLAY_LINKRIGHT (lower_end node L) s = ret (a, s') \<and> splaying node s0 s' ((z, a) # L) r R"
proof -
  let ?e = "lower_end node L"
  from s have at: "sph_root s = a" "a \<noteq> 0" "tree_at s (spe_right s a) r" "tree_at s (spe_left s a) z"
      "lower_at s node L" "upper_at s node R" "node \<noteq> 0"
    and dist: "distinct (node # lower_list L @ inorder (Node z a r) @ upper_list R)"
    by (auto simp: splaying_def)
  have e: "?e \<noteq> 0" "?e \<in> set (node # lower_list L)"
    using lower_at_end [OF at(5,7)] lower_end_in [of node L] by blast+
  have ea: "?e \<noteq> a" and apart: "?e \<notin> set_tree r" "?e \<notin> set_tree z" "?e \<notin> set (upper_list R)"
    using e dist by auto
  let ?s = "s\<lparr>sph_root := spe_right s a, spe_right := (spe_right s)(?e := a)\<rparr>"
  have run: "SPLAY_LINKRIGHT ?e s = ret (a, ?s)"
    using at e ea by (simp add: SPLAY_LINKRIGHT_def splay_fields)
  have l: "tree_at ?s (spe_right s a) r" using at(3) by (rule tree_at_cong) (use apart in auto)
  have z: "tree_at ?s (spe_left s a) z" using at(4) by (rule tree_at_cong) (use apart in auto)
  have L: "lower_at ?s node L" using at(5) by (rule lower_at_cong) (use dist in auto)
  have R: "upper_at ?s node R" using at(6) by (rule upper_at_cong) (use apart dist in auto)
  have "kept (node # lower_list ((z, a) # L) @ inorder r @ upper_list R) s0 ?s"
    using s e(2) unfolding splaying_def kept_def by auto
  then have "splaying node s0 ?s ((z, a) # L) r R"
    using at(2,7) l z L R dist by (simp add: splaying_def)
  with run show ?thesis by blast
qed

section \<open>Putting the pieces together\<close>

fun close_lower :: "(nat tree \<times> nat) list \<Rightarrow> nat tree \<Rightarrow> nat tree" where
  "close_lower [] t = t"
| "close_lower ((A, a) # L) t = close_lower L (Node A a t)"

fun close_upper :: "(nat \<times> nat tree) list \<Rightarrow> nat tree \<Rightarrow> nat tree" where
  "close_upper [] t = t"
| "close_upper ((b, B) # R) t = close_upper R (Node t b B)"

lemma inorder_close [simp]:
  "inorder (close_lower L t) = lower_list L @ inorder t"
  "inorder (close_upper R t) = inorder t @ upper_list R"
  by (induction L t rule: close_lower.induct; simp) (induction R t rule: close_upper.induct; simp)

lemma tree_at_close_lower:
  "lower_at s node L \<Longrightarrow> tree_at s (spe_right s (lower_end node L)) t \<Longrightarrow>
   tree_at s (spe_right s node) (close_lower L t)"
  by (induction L t rule: close_lower.induct) auto

lemma tree_at_close_upper:
  "upper_at s node R \<Longrightarrow> tree_at s (spe_left s (upper_end node R)) t \<Longrightarrow>
   tree_at s (spe_left s node) (close_upper R t)"
  by (induction R t rule: close_upper.induct) auto

lemma assemble:
  assumes s: "splaying node s0 s L (Node l a r) R"
  shows "\<exists>s'. SPLAY_ASSEMBLE node (lower_end node L) (upper_end node R) s = ret s' \<and>
    tree_at s' (sph_root s') (Node (close_lower L l) a (close_upper R r)) \<and>
    kept (node # lower_list L @ inorder (Node l a r) @ upper_list R) s0 s'"
proof -
  let ?l = "lower_end node L" and ?u = "upper_end node R"
  from s have at: "sph_root s = a" "a \<noteq> 0" "tree_at s (spe_left s a) l" "tree_at s (spe_right s a) r"
      "lower_at s node L" "upper_at s node R" "node \<noteq> 0"
    and dist: "distinct (node # lower_list L @ inorder (Node l a r) @ upper_list R)"
    by (auto simp: splaying_def)
  have e: "?l \<noteq> 0" "?l \<in> set (node # lower_list L)" "?u \<noteq> 0" "?u \<in> set (node # upper_list R)"
    using lower_at_end [OF at(5,7)] lower_end_in [of node L]
      upper_at_end [OF at(6,7)] upper_end_in [of node R] by blast+
  have apart: "?l \<noteq> a" "?u \<noteq> a" "node \<noteq> a" "?l \<notin> set_tree l" "?l \<notin> set_tree r" "?u \<notin> set_tree l"
      "?u \<notin> set_tree r" "?l \<notin> set (upper_list R)" "?u \<notin> set (lower_list L)"
    using e dist by auto
  let ?t = "s\<lparr>spe_left := (spe_left s)(?u := spe_right s a), spe_right := (spe_right s)(?l := spe_left s a)\<rparr>"
  let ?s = "?t\<lparr>spe_left := (spe_left ?t)(a := spe_right ?t node), spe_right := (spe_right ?t)(a := spe_left ?t node)\<rparr>"
  have run: "SPLAY_ASSEMBLE node ?l ?u s = ret ?s"
    using at e apart by (simp add: SPLAY_ASSEMBLE_def splay_fields)
  have "tree_at ?t (spe_left s a) l" using at(3) by (rule tree_at_cong) (use apart in auto)
  moreover have "lower_at ?t node L" using at(5) by (rule lower_at_cong) (use apart dist in auto)
  ultimately have A: "tree_at ?t (spe_right ?t node) (close_lower L l)"
    by (intro tree_at_close_lower) simp_all
  have "tree_at ?t (spe_right s a) r" using at(4) by (rule tree_at_cong) (use apart in auto)
  moreover have "upper_at ?t node R" using at(6) by (rule upper_at_cong) (use apart dist in auto)
  ultimately have B: "tree_at ?t (spe_left ?t node) (close_upper R r)"
    by (intro tree_at_close_upper) simp_all
  have notin: "a \<notin> set_tree (close_lower L l)" "a \<notin> set_tree (close_upper R r)"
    using dist by (auto simp flip: set_inorder)
  have "tree_at ?s (spe_right ?t node) (close_lower L l)"
    using A by (rule tree_at_cong) (use notin in auto)
  moreover have "tree_at ?s (spe_left ?t node) (close_upper R r)"
    using B by (rule tree_at_cong) (use notin in auto)
  moreover have "kept (node # lower_list L @ inorder (Node l a r) @ upper_list R) s0 ?s"
    using s e(2,4) unfolding splaying_def kept_def by auto
  ultimately show ?thesis using run at(1,2) by (intro exI [of _ ?s]) simp
qed

end
