(* ===== verification/Splay_Spec.thy ===== *)
theory Splay_Spec
  imports Splay_Moves
begin

text \<open>
  What splaying achieves, and from it the contract of \<^verbatim>\<open>Table_Iface\<close> for the operations of
  splay trees.
\<close>

section \<open>One turn of the loop\<close>

text \<open>
  \<open>side x\<close> is the comparison of what is looked for with the element \<open>x\<close>: it falls along the
  tree, from positive beneath to negative above.
\<close>

definition falling :: "(nat \<Rightarrow> int) \<Rightarrow> nat list \<Rightarrow> bool" where
  "falling side xs \<longleftrightarrow> sorted_wrt (\<lambda>x y. side x \<le> 0 \<longrightarrow> side y < 0) xs"

lemma falling_append [simp]:
  "falling side (xs @ ys) \<longleftrightarrow>
     falling side xs \<and> falling side ys \<and> (\<forall>x\<in>set xs. \<forall>y\<in>set ys. side x \<le> 0 \<longrightarrow> side y < 0)"
  by (auto simp: falling_def sorted_wrt_append)

lemma falling_Cons [simp]:
  "falling side (x # xs) \<longleftrightarrow> (\<forall>y\<in>set xs. side x \<le> 0 \<longrightarrow> side y < 0) \<and> falling side xs"
  by (auto simp: falling_def)

definition parted :: "(nat \<Rightarrow> int) \<Rightarrow> nat tree \<Rightarrow> bool" where
  "parted side t \<longleftrightarrow>
     (\<exists>l a r. t = Node l a r \<and> (\<forall>x\<in>set_tree l. 0 < side x) \<and> (\<forall>x\<in>set_tree r. side x < 0))"

lemma falling_parted: "falling side (inorder (Node l a r)) \<Longrightarrow> side a = 0 \<Longrightarrow> parted side (Node l a r)"
  by (fastforce simp: parted_def)

lemma parted_Leaf:
  "falling side (inorder (Node Leaf a r)) \<Longrightarrow> side a < 0 \<Longrightarrow> parted side (Node Leaf a r)"
  "falling side (inorder (Node l a Leaf)) \<Longrightarrow> 0 < side a \<Longrightarrow> parted side (Node l a Leaf)"
  by (fastforce simp: parted_def)+

text \<open>The pieces while an element is looked for among \<open>xs\<close>.\<close>

definition sides ::
  "(nat \<Rightarrow> int) \<Rightarrow> nat list \<Rightarrow> (nat tree \<times> nat) list \<Rightarrow> nat tree \<Rightarrow> (nat \<times> nat tree) list \<Rightarrow> bool" where
  "sides side xs L t R \<longleftrightarrow>
     lower_list L @ inorder t @ upper_list R = xs \<and> t \<noteq> Leaf \<and> falling side xs \<and>
     (\<forall>x\<in>set (lower_list L). 0 < side x) \<and> (\<forall>x\<in>set (upper_list R). side x < 0)"

definition turns ::
  "nat \<Rightarrow> splay \<Rightarrow> (nat \<Rightarrow> int) \<Rightarrow> nat list \<Rightarrow> nat \<Rightarrow> (bool \<times> nat \<times> nat \<times> splay) run \<Rightarrow> bool" where
  "turns node s0 side xs n r \<longleftrightarrow>
     (\<exists>go s L t R. r = ret (go, lower_end node L, upper_end node R, s) \<and> splaying node s0 s L t R \<and>
        sides side xs L t R \<and> (if go then size t < n else parted side t))"

lemma turn_link_left:
  assumes s: "splaying node s0 s L (Node l a z) R" and x: "sides side xs L (Node l a z) R"
    and "l \<noteq> Leaf" "side a < 0" "size l < n"
  shows "turns node s0 side xs n
    (andthen (SPLAY_LINKLEFT (upper_end node R) s) (\<lambda>(r, s). ret (True, lower_end node L, r, s)))"
proof -
  obtain s' where s': "SPLAY_LINKLEFT (upper_end node R) s = ret (a, s')" "splaying node s0 s' L l ((a, z) # R)"
    using link_left [OF s] by blast
  have "sides side xs L l ((a, z) # R)" using x assms(3,4) by (auto simp: sides_def)
  with s' assms(5) show ?thesis
    unfolding turns_def by (intro exI [of _ True] exI [of _ s'] exI [of _ L] exI [of _ l] exI [of _ "(a, z) # R"]) simp
qed

lemma turn_link_right:
  assumes s: "splaying node s0 s L (Node z a r) R" and x: "sides side xs L (Node z a r) R"
    and "r \<noteq> Leaf" "0 < side a" "size r < n"
  shows "turns node s0 side xs n
    (andthen (SPLAY_LINKRIGHT (lower_end node L) s) (\<lambda>(l, s). ret (True, l, upper_end node R, s)))"
proof -
  obtain s' where s': "SPLAY_LINKRIGHT (lower_end node L) s = ret (a, s')" "splaying node s0 s' ((z, a) # L) r R"
    using link_right [OF s] by blast
  have "sides side xs ((z, a) # L) r R" using x assms(3,4) by (auto simp: sides_def not_le)
  with s' assms(5) show ?thesis
    unfolding turns_def by (intro exI [of _ True] exI [of _ s'] exI [of _ "(z, a) # L"] exI [of _ r] exI [of _ R]) simp
qed

lemma turn_stop:
  assumes "splaying node s0 s L t R" and "sides side xs L t R" and "parted side t"
  shows "turns node s0 side xs n (ret (False, lower_end node L, upper_end node R, s))"
  unfolding turns_def
  by (intro exI [of _ False] exI [of _ s] exI [of _ L] exI [of _ t] exI [of _ R]) (use assms in simp)

lemma splaying_root:
  assumes "splaying node s0 s L (Node l a r) R"
  shows "sph_root s = a" "a \<noteq> 0" "SPLAY_LEFT a s = ret (spe_left s a)" "SPLAY_RIGHT a s = ret (spe_right s a)"
    "tree_at s (spe_left s a) l" "tree_at s (spe_right s a) r"
  using assms by (auto simp: splaying_def splay_fields)

lemma sides_falling: "sides side xs L t R \<Longrightarrow> falling side (inorder t)"
  by (auto simp: sides_def)

lemma turn_left:
  assumes s: "splaying node s0 s L (Node l a z) R" and x: "sides side xs L (Node l a z) R"
    and test: "\<And>b. b \<noteq> 0 \<Longrightarrow> test b = ret (side b)" and a: "side a < 0"
  shows "turns node s0 side xs (size (Node l a z))
    (splay_turn test (side a) (lower_end node L) (upper_end node R) s)"
proof (cases l)
  case Leaf
  have "parted side (Node Leaf a z)" using sides_falling [OF x] a Leaf by (simp add: parted_Leaf)
  moreover have "spe_left s a = 0" using splaying_root(5) [OF s] Leaf by simp
  ultimately show ?thesis
    using turn_stop [OF s x] splaying_root(1,3) [OF s] a Leaf by (simp add: splay_turn_def)
next
  case (Node u b v)
  have b: "spe_left s a = b" "b \<noteq> 0" using splaying_root(5) [OF s] Node by auto
  show ?thesis
  proof (cases "side b < 0")
    case False
    have "turns node s0 side xs (size (Node l a z))
        (andthen (SPLAY_LINKLEFT (upper_end node R) s) (\<lambda>(r, s). ret (True, lower_end node L, r, s)))"
      by (rule turn_link_left [OF s x _ a]) (simp_all add: Node)
    then show ?thesis
      using splaying_root(1,3) [OF s] a b False by (simp add: splay_turn_def test)
  next
    case True
    obtain s' where s': "SPLAY_ROTATE_RIGHT b s = ret s'" "splaying node s0 s' L (Node u b (Node v a z)) R"
      using rotate_right s Node by blast
    have x': "sides side xs L (Node u b (Node v a z)) R" using x Node by (simp add: sides_def)
    note root = splaying_root [OF s'(2)]
    have "turns node s0 side xs (size (Node l a z))
        (if spe_left s' b = 0 then ret (False, lower_end node L, upper_end node R, s')
         else andthen (SPLAY_LINKLEFT (upper_end node R) s') (\<lambda>(r, s). ret (True, lower_end node L, r, s)))"
    proof (cases "u = Leaf")
      case leaf: True
      have "parted side (Node u b (Node v a z))"
        using sides_falling [OF x'] True unfolding leaf by (rule parted_Leaf)
      then show ?thesis using turn_stop [OF s'(2) x'] tree_at_zero [OF root(5)] leaf by simp
    next
      case False
      then show ?thesis
        using turn_link_left [OF s'(2) x' False True, of "size (Node l a z)"] tree_at_zero [OF root(5)] Node by simp
    qed
    then show ?thesis
      using splaying_root(1,3) [OF s] a b True s'(1) root(1,3) by (simp add: splay_turn_def test)
  qed
qed

lemma turn_right:
  assumes s: "splaying node s0 s L (Node z a r) R" and x: "sides side xs L (Node z a r) R"
    and test: "\<And>b. b \<noteq> 0 \<Longrightarrow> test b = ret (side b)" and a: "0 < side a"
  shows "turns node s0 side xs (size (Node z a r))
    (splay_turn test (side a) (lower_end node L) (upper_end node R) s)"
proof (cases r)
  case Leaf
  have "parted side (Node z a Leaf)" using sides_falling [OF x] a Leaf by (simp add: parted_Leaf)
  moreover have "spe_right s a = 0" using splaying_root(6) [OF s] Leaf by simp
  ultimately show ?thesis
    using turn_stop [OF s x] splaying_root(1,4) [OF s] a Leaf by (simp add: splay_turn_def)
next
  case (Node v b u)
  have b: "spe_right s a = b" "b \<noteq> 0" using splaying_root(6) [OF s] Node by auto
  show ?thesis
  proof (cases "0 < side b")
    case False
    have "turns node s0 side xs (size (Node z a r))
        (andthen (SPLAY_LINKRIGHT (lower_end node L) s) (\<lambda>(l, s). ret (True, l, upper_end node R, s)))"
      by (rule turn_link_right [OF s x _ a]) (simp_all add: Node)
    then show ?thesis
      using splaying_root(1,4) [OF s] a b False by (simp add: splay_turn_def test)
  next
    case True
    obtain s' where s': "SPLAY_ROTATE_LEFT b s = ret s'" "splaying node s0 s' L (Node (Node z a v) b u) R"
      using rotate_left s Node by blast
    have x': "sides side xs L (Node (Node z a v) b u) R" using x Node by (simp add: sides_def)
    note root = splaying_root [OF s'(2)]
    have "turns node s0 side xs (size (Node z a r))
        (if spe_right s' b = 0 then ret (False, lower_end node L, upper_end node R, s')
         else andthen (SPLAY_LINKRIGHT (lower_end node L) s') (\<lambda>(l, s). ret (True, l, upper_end node R, s)))"
    proof (cases "u = Leaf")
      case leaf: True
      have "parted side (Node (Node z a v) b u)"
        using sides_falling [OF x'] True unfolding leaf by (rule parted_Leaf)
      then show ?thesis using turn_stop [OF s'(2) x'] tree_at_zero [OF root(6)] leaf by simp
    next
      case False
      then show ?thesis
        using turn_link_right [OF s'(2) x' False True, of "size (Node z a r)"] tree_at_zero [OF root(6)] Node by simp
    qed
    then show ?thesis
      using splaying_root(1,4) [OF s] a b True s'(1) root(1,4) by (simp add: splay_turn_def test)
  qed
qed

section \<open>Splaying\<close>

definition loops :: "nat \<Rightarrow> splay \<Rightarrow> (nat \<Rightarrow> int) \<Rightarrow> nat list \<Rightarrow> (nat \<times> nat \<times> splay) run \<Rightarrow> bool" where
  "loops node s0 side xs r \<longleftrightarrow>
     (\<exists>s L t R. r = ret (lower_end node L, upper_end node R, s) \<and> splaying node s0 s L t R \<and>
        sides side xs L t R \<and> parted side t)"

lemma splay_loop_ends:
  assumes "splaying node s0 s L t R" and "sides (cmp e) xs L t R" and e: "e \<noteq> 0"
  shows "loops node s0 (cmp e) xs (splay_loop cmp e (lower_end node L) (upper_end node R) s)"
  using assms(1,2)
proof (induction t arbitrary: s L R rule: measure_induct_rule [where f = size])
  case (less t)
  obtain l a r where t: "t = Node l a r" using less.prems(2) by (cases t) (auto simp: sides_def)
  note root = splaying_root [OF less.prems(1) [unfolded t]]
  have test: "compare cmp e b = ret (cmp e b)" if "b \<noteq> 0" for b using that e by (simp add: compare_def)
  have step: "splay_loop cmp e (lower_end node L) (upper_end node R) s =
      (if cmp e a = 0 then ret (lower_end node L, upper_end node R, s)
       else andthen (splay_turn (compare cmp e) (cmp e a) (lower_end node L) (upper_end node R) s)
         (\<lambda>(go, l, r, s). if go then splay_loop cmp e l r s else ret (l, r, s)))"
    by (subst splay_loop.simps) (simp add: root(1) test [OF root(2)])
  show ?case
  proof (cases "cmp e a = 0")
    case True
    have "parted (cmp e) t"
      using falling_parted [of "cmp e"] sides_falling [OF less.prems(2)] True t by blast
    then show ?thesis using less.prems step True unfolding loops_def by auto
  next
    case False
    have "turns node s0 (cmp e) xs (size t)
        (splay_turn (compare cmp e) (cmp e a) (lower_end node L) (upper_end node R) s)"
      using turn_left [of node s0 s L l a r R "cmp e" xs "compare cmp e"]
        turn_right [of node s0 s L l a r R "cmp e" xs "compare cmp e"] less.prems False test
      unfolding t by (cases "cmp e a < 0") auto
    then obtain go s' L' t' R' where turn:
        "splay_turn (compare cmp e) (cmp e a) (lower_end node L) (upper_end node R) s =
           ret (go, lower_end node L', upper_end node R', s')"
        "splaying node s0 s' L' t' R'" "sides (cmp e) xs L' t' R'"
        "if go then size t' < size t else parted (cmp e) t'"
      unfolding turns_def by blast
    show ?thesis
    proof (cases go)
      case True
      then show ?thesis using less.IH [of t' s' L' R'] turn step False by simp
    next
      case go: False
      then show ?thesis using turn step False unfolding loops_def by auto
    qed
  qed
qed

lemma minmax_loop_ends:
  assumes "splaying node s0 s L t R" and "sides (\<lambda>_. c) xs L t R" and c: "c \<noteq> 0"
  shows "loops node s0 (\<lambda>_. c) xs (minmax_loop c (lower_end node L) (upper_end node R) s)"
  using assms(1,2)
proof (induction t arbitrary: s L R rule: measure_induct_rule [where f = size])
  case (less t)
  obtain l a r where t: "t = Node l a r" using less.prems(2) by (cases t) (auto simp: sides_def)
  have step: "minmax_loop c (lower_end node L) (upper_end node R) s =
      andthen (splay_turn (\<lambda>_. ret c) c (lower_end node L) (upper_end node R) s)
         (\<lambda>(go, l, r, s). if go then minmax_loop c l r s else ret (l, r, s))"
    by (subst minmax_loop.simps) simp
  have "turns node s0 (\<lambda>_. c) xs (size t)
      (splay_turn (\<lambda>_. ret c) c (lower_end node L) (upper_end node R) s)"
    using turn_left [of node s0 s L l a r R "\<lambda>_. c" xs "\<lambda>_. ret c"]
      turn_right [of node s0 s L l a r R "\<lambda>_. c" xs "\<lambda>_. ret c"] less.prems c
    unfolding t by (cases "c < 0") auto
  then obtain go s' L' t' R' where turn:
      "splay_turn (\<lambda>_. ret c) c (lower_end node L) (upper_end node R) s =
         ret (go, lower_end node L', upper_end node R', s')"
      "splaying node s0 s' L' t' R'" "sides (\<lambda>_. c) xs L' t' R'"
      "if go then size t' < size t else parted (\<lambda>_. c) t'"
    unfolding turns_def by blast
  show ?case
  proof (cases go)
    case True
    then show ?thesis using less.IH [of t' s' L' R'] turn step by simp
  next
    case False
    then show ?thesis using turn step unfolding loops_def by auto
  qed
qed

text \<open>What a whole call of \<open>name##_SPLAY\<close> or \<open>name##_SPLAY_MINMAX\<close> leaves.\<close>

definition tree_of :: "splay \<Rightarrow> nat tree \<Rightarrow> bool" where
  "tree_of s t \<longleftrightarrow> tree_at s (sph_root s) t"

lemma loops_assembled:
  assumes "loops node s0 side xs r"
  shows "\<exists>s l a m. andthen r (\<lambda>(left, right, s). SPLAY_ASSEMBLE node left right s) = ret s \<and>
    tree_of s (Node l a m) \<and> inorder (Node l a m) = xs \<and> parted side (Node l a m) \<and> kept (node # xs) s0 s"
proof -
  obtain s L t R where r: "r = ret (lower_end node L, upper_end node R, s)" "splaying node s0 s L t R"
      "sides side xs L t R" "parted side t"
    using assms unfolding loops_def by blast
  then obtain l a m where t: "t = Node l a m" by (auto simp: parted_def)
  obtain s' where s': "SPLAY_ASSEMBLE node (lower_end node L) (upper_end node R) s = ret s'"
      "tree_at s' (sph_root s') (Node (close_lower L l) a (close_upper R m))"
      "kept (node # lower_list L @ inorder (Node l a m) @ upper_list R) s0 s'"
    using assemble r(2) t by blast
  have "inorder (Node (close_lower L l) a (close_upper R m)) = xs"
    using r(3) t by (simp add: sides_def)
  moreover have "parted side (Node (close_lower L l) a (close_upper R m))"
    using r(3,4) t by (auto simp: parted_def sides_def simp flip: set_inorder)
  ultimately show ?thesis using r(1) s' unfolding tree_of_def
    by (intro exI [of _ s'] exI [of _ "close_lower L l"] exI [of _ a] exI [of _ "close_upper R m"])
      (use r(3) t in \<open>simp add: sides_def\<close>)
qed

lemma splay_begins:
  assumes "tree_of s t" "t \<noteq> Leaf" "falling side (inorder t)" "distinct (inorder t)" "node \<noteq> 0" "node \<notin> set_tree t"
  shows "\<exists>s1. andthen (set_right node 0 s) (set_left node 0) = ret s1 \<and>
    splaying node s s1 [] t [] \<and> sides side (inorder t) [] t []"
proof -
  let ?s = "s\<lparr>spe_right := (spe_right s)(node := 0), spe_left := (spe_left s)(node := 0)\<rparr>"
  have "tree_at ?s (sph_root s) t"
    using assms(1) unfolding tree_of_def by (rule tree_at_cong) (use assms(6) in auto)
  then have "splaying node s ?s [] t []" using assms by (auto simp: splaying_def kept_def)
  moreover have "andthen (set_right node 0 s) (set_left node 0) = ret ?s"
    using assms(5) by (simp add: set_left_def set_right_def)
  moreover have "sides side (inorder t) [] t []" using assms(2,3) by (simp add: sides_def)
  ultimately show ?thesis by blast
qed

theorem SPLAY_parts:
  assumes "tree_of s t" "t \<noteq> Leaf" "falling (cmp e) (inorder t)" "distinct (inorder t)"
    "node \<noteq> 0" "node \<notin> set_tree t" "e \<noteq> 0"
  shows "\<exists>s' l a m. SPLAY node cmp e s = ret s' \<and> tree_of s' (Node l a m) \<and>
    inorder (Node l a m) = inorder t \<and> parted (cmp e) (Node l a m) \<and> kept (node # inorder t) s s'"
proof -
  obtain s1 where s1: "andthen (set_right node 0 s) (set_left node 0) = ret s1"
      "splaying node s s1 [] t []" "sides (cmp e) (inorder t) [] t []"
    using splay_begins [OF assms(1-6)] by blast
  have "SPLAY node cmp e s = andthen (splay_loop cmp e node node s1) (\<lambda>(left, right, s). SPLAY_ASSEMBLE node left right s)"
    unfolding SPLAY_def andthen_assoc [symmetric] by (simp add: s1(1))
  then show ?thesis
    using loops_assembled [OF splay_loop_ends [where cmp = cmp and e = e and L = "[]" and R = "[]", OF s1(2,3) assms(7)]] by simp
qed

theorem SPLAY_MINMAX_parts:
  assumes "tree_of s t" "t \<noteq> Leaf" "distinct (inorder t)" "node \<noteq> 0" "node \<notin> set_tree t" "c \<noteq> 0"
    "falling (\<lambda>_. c) (inorder t)"
  shows "\<exists>s' l a m. SPLAY_MINMAX node c s = ret s' \<and> tree_of s' (Node l a m) \<and>
    inorder (Node l a m) = inorder t \<and> parted (\<lambda>_. c) (Node l a m) \<and> kept (node # inorder t) s s'"
proof -
  obtain s1 where s1: "andthen (set_right node 0 s) (set_left node 0) = ret s1"
      "splaying node s s1 [] t []" "sides (\<lambda>_. c) (inorder t) [] t []"
    using splay_begins [OF assms(1,2,7,3-5)] by blast
  have "SPLAY_MINMAX node c s = andthen (minmax_loop c node node s1) (\<lambda>(left, right, s). SPLAY_ASSEMBLE node left right s)"
    unfolding SPLAY_MINMAX_def andthen_assoc [symmetric] by (simp add: s1(1))
  then show ?thesis
    using loops_assembled [OF minmax_loop_ends [where L = "[]" and R = "[]", OF s1(2,3) assms(6)]] by simp
qed

end
