(* ===== verification/Splay_Table.thy ===== *)
theory Splay_Table
  imports Splay_Spec
begin

text \<open>The operations of splay trees meet the contract of \<^verbatim>\<open>Table_Iface\<close>.\<close>

section \<open>Representation\<close>

definition splay_usable :: "nat \<Rightarrow> nat \<Rightarrow> bool" where
  "splay_usable node e \<longleftrightarrow> e \<noteq> 0 \<and> e \<noteq> node"

definition splay_rep ::
  "(nat \<Rightarrow> 'k :: linorder) \<Rightarrow> nat \<Rightarrow> (nat \<Rightarrow> nat \<Rightarrow> int) \<Rightarrow> splay \<Rightarrow> nat list \<Rightarrow> bool" where
  "splay_rep key node cmp s xs \<longleftrightarrow>
     node \<noteq> 0 \<and> ordered_by key cmp \<and> ascending key xs \<and> node \<notin> set xs \<and>
     (\<exists>t. tree_of s t \<and> inorder t = xs)"

lemma ascending_falling:
  assumes "ordered_by key cmp" and "ascending key xs"
  shows "falling (cmp e) xs"
  using assms(2)
proof (induction xs)
  case Nil
  then show ?case by (simp add: falling_def)
next
  case (Cons x xs)
  have "cmp e y < 0" if "y \<in> set xs" "cmp e x \<le> 0" for y
  proof -
    have "\<not> key x < key e" using that(2) ordered_byD(2) [OF assms(1), of e x] by linarith
    moreover have "key x < key y" using Cons.prems that(1) by simp
    ultimately show ?thesis using ordered_byD(1) [OF assms(1), of e y] by auto
  qed
  with Cons show ?case by simp
qed

lemma tree_of_empty: "tree_of s t \<Longrightarrow> SPLAY_EMPTY s \<longleftrightarrow> t = Leaf"
  by (simp add: tree_of_def SPLAY_EMPTY_def tree_at_zero)

lemma tree_of_NodeD:
  assumes "tree_of s (Node l a r)"
  shows "sph_root s = a" "a \<noteq> 0" "SPLAY_LEFT a s = ret (spe_left s a)" "SPLAY_RIGHT a s = ret (spe_right s a)"
    "tree_at s (spe_left s a) l" "tree_at s (spe_right s a) r"
  using assms by (auto simp: tree_of_def splay_fields)

lemma splay_repI:
  assumes "splay_rep key node cmp s xs" and "tree_of s' t" and "inorder t = ys" and "ascending key ys"
    and "node \<notin> set ys"
  shows "splay_rep key node cmp s' ys"
  using assms by (auto simp: splay_rep_def)

lemma splay_rep_nil: "splay_rep key node cmp s [] \<Longrightarrow> SPLAY_EMPTY s"
  by (auto simp: splay_rep_def tree_of_empty)

lemma splay_rep_cons: "splay_rep key node cmp s xs \<Longrightarrow> xs \<noteq> [] \<Longrightarrow> \<not> SPLAY_EMPTY s"
  by (auto simp: splay_rep_def tree_of_empty)

lemma splay_init_rep:
  "node \<noteq> 0 \<Longrightarrow> ordered_by key cmp \<Longrightarrow> splay_rep key node cmp (SPLAY_INIT s) []"
  by (auto simp: splay_rep_def SPLAY_INIT_def tree_of_def)

section \<open>What a splay leaves\<close>

lemma splayed:
  fixes key :: "nat \<Rightarrow> 'k :: linorder"
  assumes rep: "splay_rep key node cmp s xs" and "xs \<noteq> []" and "e \<noteq> 0"
  obtains s' l a m where "SPLAY node cmp e s = ret s'" "kept (node # xs) s s'" "tree_of s' (Node l a m)"
    "xs = inorder l @ a # inorder m" "\<forall>x\<in>set (inorder l). key x < key e" "\<forall>x\<in>set (inorder m). key e < key x"
    "compare cmp e (sph_root s') = ret (cmp e a)" "splay_rep key node cmp s' xs"
proof -
  obtain t where t: "tree_of s t" "inorder t = xs" and ord: "ordered_by key cmp" "ascending key xs"
    and node: "node \<noteq> 0" "node \<notin> set xs"
    using rep unfolding splay_rep_def by blast
  have hyps: "t \<noteq> Leaf" "falling (cmp e) (inorder t)" "distinct (inorder t)" "node \<notin> set_tree t"
    using t(2) assms(2) ascending_falling [OF ord] ascending_distinct [OF ord(2)] node(2) by auto
  obtain s' l a m where s': "SPLAY node cmp e s = ret s'" "tree_of s' (Node l a m)"
      "inorder (Node l a m) = inorder t" "parted (cmp e) (Node l a m)" "kept (node # inorder t) s s'"
    using SPLAY_parts [where cmp = cmp and e = e, OF t(1) hyps(1-3) node(1) hyps(4) assms(3)] by blast
  note D = ordered_byD [OF ord(1)]
  have "\<forall>x\<in>set (inorder l). key x < key e" "\<forall>x\<in>set (inorder m). key e < key x"
    using s'(4) D by (auto simp: parted_def)
  moreover have "compare cmp e (sph_root s') = ret (cmp e a)"
    using tree_of_NodeD(1,2) [OF s'(2)] assms(3) by (simp add: compare_def)
  moreover have "xs = inorder l @ a # inorder m" using s'(3) t(2) by simp
  moreover have "splay_rep key node cmp s' xs"
    using splay_repI [OF rep s'(2) _ ord(2) node(2)] s'(3) t(2) by simp
  moreover have "kept (node # xs) s s'" using s'(5) t(2) by simp
  ultimately show thesis using that s'(1,2) by blast
qed

lemma at_key_here: "\<forall>x\<in>set A. key x < k \<Longrightarrow> \<forall>x\<in>set B. k < key x \<Longrightarrow>
    at_key key k (A @ r # B) = (if key r = k then r else 0)"
  for key :: "nat \<Rightarrow> 'k :: linorder"
proof -
  assume *: "\<forall>x\<in>set A. key x < k" "\<forall>x\<in>set B. k < key x"
  show ?thesis
  proof (cases "key r = k")
    case True
    then show ?thesis using cut_filters(4) [OF *(1) True *(2)] by (simp add: at_key_def)
  next
    case False
    then have "filter (\<lambda>x. key x = k) (A @ r # B) = []" using split_filters(4) [OF *] by simp
    with False show ?thesis by (simp add: at_key_def)
  qed
qed

section \<open>The operations\<close>

lemma splay_find:
  assumes rep: "splay_rep key node cmp s xs" and "splay_usable node e"
  shows "gives (splay_rep key node cmp) (SPLAY_FIND node cmp e s) (at_key key (key e) xs) xs"
proof (cases "xs = []")
  case True
  then show ?thesis using rep splay_rep_nil [of key node cmp s] by (simp add: SPLAY_FIND_def at_key_def)
next
  case False
  have e0: "e \<noteq> 0" using assms(2) by (simp add: splay_usable_def)
  obtain s' l a m where s': "SPLAY node cmp e s = ret s'" "kept (node # xs) s s'" "tree_of s' (Node l a m)"
    "xs = inorder l @ a # inorder m" "\<forall>x\<in>set (inorder l). key x < key e" "\<forall>x\<in>set (inorder m). key e < key x"
    "compare cmp e (sph_root s') = ret (cmp e a)" "splay_rep key node cmp s' xs"
    by (rule splayed [OF rep False e0])
  have zero: "cmp e a = 0 \<longleftrightarrow> key a = key e"
    using ordered_byD(3) [of key cmp e a] rep by (auto simp: splay_rep_def)
  have "at_key key (key e) xs = (if cmp e a = 0 then a else 0)"
    using at_key_here [OF s'(5,6)] s'(4) zero by simp
  then show ?thesis
    using s'(1,7,8) splay_rep_cons [OF rep False] tree_of_NodeD(1) [OF s'(3)] by (simp add: SPLAY_FIND_def)
qed

lemma splay_insert_old:
  assumes rep: "splay_rep key node cmp s xs" and "splay_usable node e" and old: "at_key key (key e) xs \<noteq> 0"
  shows "gives (splay_rep key node cmp) (SPLAY_INSERT node cmp e s) (at_key key (key e) xs) xs"
proof -
  have ne: "xs \<noteq> []" using old by (auto simp: at_key_def)
  have e0: "e \<noteq> 0" using assms(2) by (simp add: splay_usable_def)
  obtain s' l a m where s': "SPLAY node cmp e s = ret s'" "kept (node # xs) s s'" "tree_of s' (Node l a m)"
    "xs = inorder l @ a # inorder m" "\<forall>x\<in>set (inorder l). key x < key e" "\<forall>x\<in>set (inorder m). key e < key x"
    "compare cmp e (sph_root s') = ret (cmp e a)" "splay_rep key node cmp s' xs"
    by (rule splayed [OF rep ne e0])
  have at: "key a = key e" "at_key key (key e) xs = a"
    using at_key_here [OF s'(5,6)] s'(4) old by (auto split: if_splits)
  then have "cmp e a = 0" using ordered_byD(3) [of key cmp e a] rep by (auto simp: splay_rep_def)
  then show ?thesis
    using s'(1,7,8) splay_rep_cons [OF rep ne] tree_of_NodeD(1) [OF s'(3)] at(2) by (simp add: SPLAY_INSERT_def)
qed

lemma splay_insert_new:
  assumes rep: "splay_rep key node cmp s xs" and e: "splay_usable node e" and new: "at_key key (key e) xs = 0"
  shows "gives (splay_rep key node cmp) (SPLAY_INSERT node cmp e s) 0 (list_insert key e xs)"
proof (cases "xs = []")
  case True
  let ?s = "s\<lparr>spe_right := (spe_right s)(e := 0), spe_left := (spe_left s)(e := 0), sph_root := e\<rparr>"
  have "tree_of ?s (Node Leaf e Leaf)" using e by (simp add: tree_of_def splay_usable_def)
  then have "splay_rep key node cmp ?s [e]"
    by (rule splay_repI [OF rep]) (use e in \<open>auto simp: splay_usable_def\<close>)
  then show ?thesis
    using rep True e splay_rep_nil [of key node cmp s]
    by (simp add: SPLAY_INSERT_def splay_fields list_insert_def splay_usable_def)
next
  case False
  have e0: "e \<noteq> 0" using assms(2) by (simp add: splay_usable_def)
  obtain s' l a m where s': "SPLAY node cmp e s = ret s'" "kept (node # xs) s s'" "tree_of s' (Node l a m)"
    "xs = inorder l @ a # inorder m" "\<forall>x\<in>set (inorder l). key x < key e" "\<forall>x\<in>set (inorder m). key e < key x"
    "compare cmp e (sph_root s') = ret (cmp e a)" "splay_rep key node cmp s' xs"
    by (rule splayed [OF rep False e0])
  note at = tree_of_NodeD [OF s'(3)]
  have asc: "ascending key xs" and ord: "ordered_by key cmp" and node: "node \<notin> set xs"
    using rep unfolding splay_rep_def by blast+
  note D = ordered_byD [OF ord, of e a]
  have en: "e \<noteq> node" using e by (simp_all add: splay_usable_def)
  have "key a \<noteq> key e" using at_key_here [OF s'(5,6)] s'(4) new at(2) by (auto split: if_splits)
  then consider (less) "cmp e a < 0" "key e < key a" | (more) "0 < cmp e a" "key a < key e"
    using D by fastforce
  moreover have fresh: "e \<notin> set (inorder l)" "e \<notin> set (inorder m)" "e \<noteq> a"
    using s'(5,6) \<open>key a \<noteq> key e\<close> by auto
  have dist: "a \<notin> set (inorder l)" "a \<notin> set (inorder m)"
    using ascending_distinct [OF asc] s'(4) by auto
  ultimately show ?thesis
  proof cases
    case less
    let ?s = "s'\<lparr>spe_right := (spe_right s')(e := a), spe_left := (spe_left s')(e := spe_left s' a, a := 0),
      sph_root := e\<rparr>"
    have "tree_at ?s (spe_left s' a) l" using at(5) by (rule tree_at_cong) (use fresh dist in auto)
    moreover have "tree_at ?s (spe_right s' a) m" using at(6) by (rule tree_at_cong) (use fresh dist in auto)
    ultimately have t: "tree_of ?s (Node l e (Node Leaf a m))"
      using at(2) e0 fresh by (simp add: tree_of_def)
    have ins: "list_insert key e xs = inorder l @ e # a # inorder m"
      using split_filters(1,2) [of "inorder l" key "key e" "a # inorder m"] s'(4,5,6) less
      by (simp add: list_insert_def)
    have "splay_rep key node cmp ?s (list_insert key e xs)"
      by (rule splay_repI [OF rep t]) (use ins asc s'(4-6) less node en in auto)
    then show ?thesis
      using splay_rep_cons [OF rep False] s'(1,7) less at(1,2) e0 fresh
      by (simp add: SPLAY_INSERT_def splay_fields)
  next
    case more
    let ?s = "s'\<lparr>spe_left := (spe_left s')(e := a), spe_right := (spe_right s')(e := spe_right s' a, a := 0),
      sph_root := e\<rparr>"
    have "tree_at ?s (spe_left s' a) l" using at(5) by (rule tree_at_cong) (use fresh dist in auto)
    moreover have "tree_at ?s (spe_right s' a) m" using at(6) by (rule tree_at_cong) (use fresh dist in auto)
    ultimately have t: "tree_of ?s (Node (Node l a Leaf) e m)"
      using at(2) e0 fresh by (simp add: tree_of_def)
    have ins: "list_insert key e xs = inorder l @ a # e # inorder m"
      using split_filters(1,2) [of "inorder l @ [a]" key "key e" "inorder m"] s'(4,5,6) more
      by (simp add: list_insert_def)
    have "splay_rep key node cmp ?s (list_insert key e xs)"
      by (rule splay_repI [OF rep t]) (use ins asc s'(4-6) more node en in auto)
    then show ?thesis
      using splay_rep_cons [OF rep False] s'(1,7) more at(1,2) e0 fresh
      by (simp add: SPLAY_INSERT_def splay_fields)
  qed
qed

text \<open>
  The element removed is the one whose key compares equal to that of the argument, whichever its
  address; the argument is the answer.
\<close>

lemma splay_remove:
  assumes rep: "splay_rep key node cmp s xs" and e0: "e \<noteq> 0"
  shows "gives (splay_rep key node cmp) (SPLAY_REMOVE node cmp e s)
    (if at_key key (key e) xs = 0 then 0 else e) (list_remove key (key e) xs)"
proof (cases "xs = []")
  case True
  then show ?thesis
    using rep splay_rep_nil [of key node cmp s] by (simp add: SPLAY_REMOVE_def at_key_def list_remove_def)
next
  case False
  obtain s' l a m where s': "SPLAY node cmp e s = ret s'" "kept (node # xs) s s'" "tree_of s' (Node l a m)"
    "xs = inorder l @ a # inorder m" "\<forall>x\<in>set (inorder l). key x < key e" "\<forall>x\<in>set (inorder m). key e < key x"
    "compare cmp e (sph_root s') = ret (cmp e a)" "splay_rep key node cmp s' xs"
    by (rule splayed [OF rep False e0])
  note at = tree_of_NodeD [OF s'(3)]
  have asc: "ascending key xs" and ord: "ordered_by key cmp" and node: "node \<notin> set xs" "node \<noteq> 0"
    using rep unfolding splay_rep_def by blast+
  note D = ordered_byD(3) [OF ord, of e a]
  have here: "at_key key (key e) xs = (if key a = key e then a else 0)"
    using at_key_here [OF s'(5,6)] s'(4) by simp
  have run: "SPLAY_REMOVE node cmp e s =
      (if cmp e a = 0 then
         if spe_left s' a = 0 then ret (e, s'\<lparr>sph_root := spe_right s' a\<rparr>)
         else andthen (SPLAY node cmp e (s'\<lparr>sph_root := spe_left s' a\<rparr>))
           (\<lambda>t. andthen (set_right (sph_root t) (spe_right s' a) t) (\<lambda>t. ret (e, t)))
       else ret (0, s'))"
    using splay_rep_cons [OF rep False] s'(1,7) at(1-4) by (simp add: SPLAY_REMOVE_def)
  show ?thesis
  proof (cases "key a = key e")
    case False
    have "filter (\<lambda>x. key x \<noteq> key e) xs = xs"
      unfolding filter_id_conv using s'(4,5,6) False by auto
    then show ?thesis using run D here False s'(8) by (auto simp: list_remove_def)
  next
    case True
    have rest: "list_remove key (key e) xs = inorder l @ inorder m"
      using cut_filters(3) [OF s'(5) True s'(6)] s'(4) by (simp add: list_remove_def)
    have asc': "ascending key (inorder l @ inorder m)" and node': "node \<notin> set (inorder l @ inorder m)"
      using asc node s'(4) by auto
    show ?thesis
    proof (cases l)
      case Leaf
      have "tree_of (s'\<lparr>sph_root := spe_right s' a\<rparr>) m"
        unfolding tree_of_def by (simp, rule tree_at_cong [OF at(6)]) simp
      then have "splay_rep key node cmp (s'\<lparr>sph_root := spe_right s' a\<rparr>) (list_remove key (key e) xs)"
        by (rule splay_repI [OF rep]) (use rest Leaf asc' node' in auto)
      moreover have "spe_left s' a = 0" using at(5) Leaf by simp
      ultimately show ?thesis using run D True here at(2) by simp
    next
      case (Node u b v)
      let ?s = "s'\<lparr>sph_root := spe_left s' a\<rparr>"
      have "tree_of ?s l" unfolding tree_of_def by (simp, rule tree_at_cong [OF at(5)]) simp
      then have rep': "splay_rep key node cmp ?s (inorder l)"
        by (rule splay_repI [OF rep]) (use asc' node' in auto)
      have ne: "inorder l \<noteq> []" using Node by simp
      obtain t l' a' m' where t: "SPLAY node cmp e ?s = ret t" "kept (node # inorder l) ?s t"
        "tree_of t (Node l' a' m')"
        "inorder l = inorder l' @ a' # inorder m'" "\<forall>x\<in>set (inorder l'). key x < key e"
        "\<forall>x\<in>set (inorder m'). key e < key x"
        "compare cmp e (sph_root t) = ret (cmp e a')" "splay_rep key node cmp t (inorder l)"
        by (rule splayed [OF rep' ne e0])
      note at' = tree_of_NodeD [OF t(3)]
      have apart: "a' \<notin> set (inorder m)" "a' \<notin> set (inorder l')" "set (inorder l) \<inter> set (inorder m) = {}"
        using ascending_distinct [OF asc] s'(4) t(4) by auto
      let ?t = "t\<lparr>spe_right := (spe_right t)(a' := spe_right s' a)\<rparr>"
      have "tree_at ?t (spe_left t a') l'" using at'(5) by (rule tree_at_cong) (use apart in auto)
      moreover have "tree_at ?t (spe_right s' a) m"
      proof (rule tree_at_cong [OF at(6)])
        fix x assume x: "x \<in> set_tree m"
        then have "x \<notin> set (node # inorder l)" "x \<noteq> a'" using apart node' by auto
        then show "spe_left ?t x = spe_left s' x \<and> spe_right ?t x = spe_right s' x"
          using t(2) by (simp add: kept_def)
      qed
      ultimately have tree: "tree_of ?t (Node l' a' m)" using at'(1,2) by (simp add: tree_of_def)
      have "\<forall>x. x \<notin> set (inorder m')"
      proof (rule allI, rule notI)
        fix x assume "x \<in> set (inorder m')"
        then have "key e < key x" "key x < key e" using t(4,6) s'(5) by auto
        then show False by simp
      qed
      then have "m' = Leaf" by (cases m') auto
      then have "inorder (Node l' a' m) = list_remove key (key e) xs" using rest t(4) by simp
      then have "splay_rep key node cmp ?t (list_remove key (key e) xs)"
        by (rule splay_repI [OF rep tree]) (use rest asc' node' in auto)
      moreover have "spe_left s' a \<noteq> 0" using at(5) Node by auto
      ultimately show ?thesis using run D True here at(2) t(1) at'(1,2) by (simp add: set_right_def)
    qed
  qed
qed

lemma leftmost_first:
  "tree_at s p t \<Longrightarrow> t \<noteq> Leaf \<Longrightarrow> leftmost p s = ret (head_of (inorder t))"
proof (induction t arbitrary: p)
  case Leaf
  then show ?case by simp
next
  case (Node l a r)
  have "leftmost p s = (if spe_left s a = 0 then ret a else leftmost (spe_left s a) s)"
    using Node.prems(1) by (subst leftmost.simps) (simp add: SPLAY_LEFT_def)
  then show ?case
    using Node.IH(1) [of "spe_left s a"] Node.prems(1) tree_at_zero [of s "spe_left s a" l]
    by (cases "inorder l") (auto simp: head_of_def split: list.splits)
qed

lemma splay_next:
  assumes rep: "splay_rep key node cmp s xs" and e: "e \<in> set xs"
  shows "gives (splay_rep key node cmp) (SPLAY_NEXT node cmp e s) (head_of (above key (key e) xs)) xs"
proof -
  have ne: "xs \<noteq> []" using e by auto
  have e0: "e \<noteq> 0"
    using rep e tree_at_nonzero by (auto simp: splay_rep_def tree_of_def)
  obtain s' l a m where s': "SPLAY node cmp e s = ret s'" "kept (node # xs) s s'" "tree_of s' (Node l a m)"
    "xs = inorder l @ a # inorder m" "\<forall>x\<in>set (inorder l). key x < key e" "\<forall>x\<in>set (inorder m). key e < key x"
    "compare cmp e (sph_root s') = ret (cmp e a)" "splay_rep key node cmp s' xs"
    by (rule splayed [OF rep ne e0])
  note at = tree_of_NodeD [OF s'(3)]
  have a: "a = e" using e s'(4,5,6) by auto
  then have up: "above key (key e) xs = inorder m"
    using cut_filters(2) [OF s'(5) _ s'(6), of e] s'(4) by (simp add: above_def)
  show ?thesis
  proof (cases "m = Leaf")
    case True
    then show ?thesis using s'(1,8) at(4,6) up a by (simp add: SPLAY_NEXT_def)
  next
    case False
    moreover have "spe_right s' a \<noteq> 0" using at(6) False tree_at_zero by blast
    ultimately show ?thesis
      using s'(1,8) at(4) up a leftmost_first [OF at(6) False] by (simp add: SPLAY_NEXT_def)
  qed
qed

lemma splay_minmax:
  assumes rep: "splay_rep key node cmp s xs" and ne: "xs \<noteq> []" and c: "c = -1 \<or> c = 1"
  shows "gives (splay_rep key node cmp) (SPLAY_MIN_MAX node c s) (if c = -1 then head_of xs else last_of xs) xs"
proof -
  obtain t where t: "tree_of s t" "inorder t = xs" and ord: "ordered_by key cmp" "ascending key xs"
    and node: "node \<noteq> 0" "node \<notin> set xs"
    using rep unfolding splay_rep_def by blast
  have fall: "falling (\<lambda>_. c) ys" for ys using c by (induction ys) (auto simp: falling_def)
  have hyps: "t \<noteq> Leaf" "distinct (inorder t)" "node \<notin> set_tree t" "c \<noteq> 0"
    using t(2) ne ascending_distinct [OF ord(2)] node(2) c by auto
  obtain s' l a m where s': "SPLAY_MINMAX node c s = ret s'" "tree_of s' (Node l a m)"
      "inorder (Node l a m) = inorder t" "parted (\<lambda>_. c) (Node l a m)"
    using SPLAY_MINMAX_parts [OF t(1) hyps(1,2) node(1) hyps(3,4) fall] by blast
  have "splay_rep key node cmp s' xs"
    by (rule splay_repI [OF rep s'(2)]) (use s'(3) t(2) ord(2) node(2) in auto)
  moreover have "a = (if c = -1 then head_of xs else last_of xs)"
  proof (cases "c = -1")
    case True
    then have "set (inorder l) = {}" using s'(4) by (auto simp: parted_def)
    then show ?thesis using s'(3) t(2) True by auto
  next
    case False
    then have "set (inorder m) = {}" using s'(4) c by (auto simp: parted_def)
    then show ?thesis using s'(3) t(2) False by auto
  qed
  ultimately show ?thesis
    using s'(1) tree_of_NodeD(1) [OF s'(2)] by (simp add: SPLAY_MIN_MAX_def)
qed

lemma splay_min:
  assumes rep: "splay_rep key node cmp s xs"
  shows "gives (splay_rep key node cmp) (SPLAY_MIN node s) (head_of xs) xs"
  using splay_minmax [OF rep, of "-1"] splay_rep_nil [of key node cmp s] splay_rep_cons [OF rep] rep
  by (cases "xs = []") (auto simp: SPLAY_MIN_def SPLAY_NEGINF_def)

lemma splay_max:
  assumes rep: "splay_rep key node cmp s xs"
  shows "gives (splay_rep key node cmp) (SPLAY_MAX node s) (last_of xs) xs"
  using splay_minmax [OF rep, of 1] splay_rep_nil [of key node cmp s] splay_rep_cons [OF rep] rep
  by (cases "xs = []") (auto simp: SPLAY_MAX_def SPLAY_INF_def)

section \<open>The contract\<close>

lemma splay_rep_ascending: "splay_rep key node cmp s xs \<Longrightarrow> ascending key xs"
  by (simp add: splay_rep_def)

lemma splay_rep_usable: "splay_rep key node cmp s xs \<Longrightarrow> e \<in> set xs \<Longrightarrow> e \<noteq> 0 \<and> splay_usable node e"
  by (auto simp: splay_rep_def splay_usable_def tree_of_def dest: tree_at_nonzero)

lemma at_key_member: "e \<in> set xs \<Longrightarrow> (\<And>x. x \<in> set xs \<Longrightarrow> x \<noteq> 0) \<Longrightarrow> at_key key (key e) xs \<noteq> 0"
  by (induction xs) (auto simp: at_key_def)

lemma splay_remove_elem:
  assumes rep: "splay_rep key node cmp s xs" and e: "e \<in> set xs"
  shows "gives (splay_rep key node cmp) (SPLAY_REMOVE node cmp e s) e (list_remove key (key e) xs)"
proof -
  have "at_key key (key e) xs \<noteq> 0" by (rule at_key_member [OF e]) (use splay_rep_usable [OF rep] in blast)
  then show ?thesis using splay_remove [OF rep, of e] splay_rep_usable [OF rep e] by simp
qed

lemma splay_foreach: "SPLAY_FOREACH node cmp = for_each (SPLAY_MIN node) (SPLAY_NEXT node cmp)"
  by (simp add: SPLAY_FOREACH_def fun_eq_iff)

interpretation splay: ordered_table key "splay_usable node" "splay_rep key node cmp" "splay_ops node cmp"
  for key :: "nat \<Rightarrow> 'k :: linorder" and node :: nat and cmp :: "nat \<Rightarrow> nat \<Rightarrow> int"
  by (unfold_locales, unfold splay_ops_simps)
     (rule splay_rep_ascending splay_rep_usable splay_insert_new splay_insert_old splay_remove_elem
        splay_find splay_next splay_min splay_max splay_foreach; assumption?)+

end
