(* ===== verification/Rb.thy ===== *)
theory Rb
  imports Table_Iface
begin

text \<open>
  The red-black trees of \<^verbatim>\<open>include/tree.h\<close>: the \<open>RB_*\<close> macros and the functions that
  \<open>RB_GENERATE_INTERNAL\<close> generates, with \<open>RB_AUGMENT\<close> as the header defines it (empty).
  Elements are addresses, 0 is \<open>NULL\<close>, and following \<open>NULL\<close> is a crash.
\<close>

section \<open>Fields\<close>

datatype rb_color = RB_BLACK | RB_RED

text \<open>\<open>RB_HEAD\<close> and the \<open>RB_ENTRY\<close> field of every element.\<close>

record rb =
  rbh_root :: nat
  rbe_left :: "nat \<Rightarrow> nat"
  rbe_right :: "nat \<Rightarrow> nat"
  rbe_parent :: "nat \<Rightarrow> nat"
  rbe_color :: "nat \<Rightarrow> rb_color"

definition RB_INIT :: "rb \<Rightarrow> rb" where
  "RB_INIT s = s\<lparr>rbh_root := 0\<rparr>"

definition RB_EMPTY :: "rb \<Rightarrow> bool" where
  "RB_EMPTY s \<longleftrightarrow> rbh_root s = 0"

definition RB_LEFT :: "nat \<Rightarrow> rb \<Rightarrow> nat run" where
  "RB_LEFT e s = (if e = 0 then crash else ret (rbe_left s e))"

definition RB_RIGHT :: "nat \<Rightarrow> rb \<Rightarrow> nat run" where
  "RB_RIGHT e s = (if e = 0 then crash else ret (rbe_right s e))"

definition RB_PARENT :: "nat \<Rightarrow> rb \<Rightarrow> nat run" where
  "RB_PARENT e s = (if e = 0 then crash else ret (rbe_parent s e))"

definition RB_COLOR :: "nat \<Rightarrow> rb \<Rightarrow> rb_color run" where
  "RB_COLOR e s = (if e = 0 then crash else ret (rbe_color s e))"

definition put_left :: "nat \<Rightarrow> nat \<Rightarrow> rb \<Rightarrow> rb run" where
  "put_left e x s = (if e = 0 then crash else ret (s\<lparr>rbe_left := (rbe_left s)(e := x)\<rparr>))"

definition put_right :: "nat \<Rightarrow> nat \<Rightarrow> rb \<Rightarrow> rb run" where
  "put_right e x s = (if e = 0 then crash else ret (s\<lparr>rbe_right := (rbe_right s)(e := x)\<rparr>))"

definition put_parent :: "nat \<Rightarrow> nat \<Rightarrow> rb \<Rightarrow> rb run" where
  "put_parent e x s = (if e = 0 then crash else ret (s\<lparr>rbe_parent := (rbe_parent s)(e := x)\<rparr>))"

definition put_color :: "nat \<Rightarrow> rb_color \<Rightarrow> rb \<Rightarrow> rb run" where
  "put_color e c s = (if e = 0 then crash else ret (s\<lparr>rbe_color := (rbe_color s)(e := c)\<rparr>))"

definition RB_SET :: "nat \<Rightarrow> nat \<Rightarrow> rb \<Rightarrow> rb run" where
  "RB_SET elm parent s =
     andthen (put_parent elm parent s) (\<lambda>s. andthen (put_right elm 0 s) (\<lambda>s.
     andthen (put_left elm 0 s) (\<lambda>s. put_color elm RB_RED s)))"

definition RB_SET_BLACKRED :: "nat \<Rightarrow> nat \<Rightarrow> rb \<Rightarrow> rb run" where
  "RB_SET_BLACKRED black red s =
     andthen (put_color black RB_BLACK s) (\<lambda>s. put_color red RB_RED s)"

text \<open>\<open>tmp && RB_COLOR(tmp, field) == RB_RED\<close>, and \<open>tmp == NULL || RB_COLOR(tmp, field) == RB_BLACK\<close>.\<close>

definition is_red :: "nat \<Rightarrow> rb \<Rightarrow> bool run" where
  "is_red e s = (if e = 0 then ret False else andthen (RB_COLOR e s) (\<lambda>c. ret (c = RB_RED)))"

definition is_black :: "nat \<Rightarrow> rb \<Rightarrow> bool run" where
  "is_black e s = (if e = 0 then ret True else andthen (RB_COLOR e s) (\<lambda>c. ret (c = RB_BLACK)))"

section \<open>Rotations\<close>

text \<open>
  Hanging \<open>new\<close> where \<open>elm\<close> hangs beneath its parent, or at the root: the branch the rotations and
  \<open>RB_REMOVE\<close> share.
\<close>

definition rehang :: "nat \<Rightarrow> nat \<Rightarrow> nat \<Rightarrow> rb \<Rightarrow> rb run" where
  "rehang parent elm new s =
     (if parent = 0 then ret (s\<lparr>rbh_root := new\<rparr>)
      else andthen (RB_LEFT parent s) (\<lambda>l.
        if l = elm then put_left parent new s else put_right parent new s))"

text \<open>A rotation also sets \<open>tmp\<close> of the caller.\<close>

definition RB_ROTATE_LEFT :: "nat \<Rightarrow> rb \<Rightarrow> (nat \<times> rb) run" where
  "RB_ROTATE_LEFT elm s =
     andthen (RB_RIGHT elm s) (\<lambda>tmp.
     andthen (RB_LEFT tmp s) (\<lambda>x.
     andthen (put_right elm x s) (\<lambda>s.
     andthen (if x \<noteq> 0 then put_parent x elm s else ret s) (\<lambda>s.
     andthen (RB_PARENT elm s) (\<lambda>parent.
     andthen (put_parent tmp parent s) (\<lambda>s.
     andthen (rehang parent elm tmp s) (\<lambda>s.
     andthen (put_left tmp elm s) (\<lambda>s.
     andthen (put_parent elm tmp s) (\<lambda>s.
     ret (tmp, s))))))))))"

definition RB_ROTATE_RIGHT :: "nat \<Rightarrow> rb \<Rightarrow> (nat \<times> rb) run" where
  "RB_ROTATE_RIGHT elm s =
     andthen (RB_LEFT elm s) (\<lambda>tmp.
     andthen (RB_RIGHT tmp s) (\<lambda>x.
     andthen (put_left elm x s) (\<lambda>s.
     andthen (if x \<noteq> 0 then put_parent x elm s else ret s) (\<lambda>s.
     andthen (RB_PARENT elm s) (\<lambda>parent.
     andthen (put_parent tmp parent s) (\<lambda>s.
     andthen (rehang parent elm tmp s) (\<lambda>s.
     andthen (put_right tmp elm s) (\<lambda>s.
     andthen (put_parent elm tmp s) (\<lambda>s.
     ret (tmp, s))))))))))"

section \<open>Insertion\<close>

text \<open>
  The two halves of the loop of \<open>name##_RB_INSERT_COLOR\<close>, for a red \<open>parent\<close> on the left and on
  the right; they give the next \<open>elm\<close>.
\<close>

definition insert_left :: "nat \<Rightarrow> nat \<Rightarrow> nat \<Rightarrow> rb \<Rightarrow> (nat \<times> rb) run" where
  "insert_left elm parent gparent s =
     andthen (RB_RIGHT gparent s) (\<lambda>tmp.
     andthen (is_red tmp s) (\<lambda>red.
     if red then
       andthen (put_color tmp RB_BLACK s) (\<lambda>s.
       andthen (RB_SET_BLACKRED parent gparent s) (\<lambda>s.
       ret (gparent, s)))
     else
       andthen (RB_RIGHT parent s) (\<lambda>x.
       andthen (if x = elm
                then andthen (RB_ROTATE_LEFT parent s) (\<lambda>(tmp, s). ret (elm, parent, s))
                else ret (parent, elm, s)) (\<lambda>(parent, elm, s).
       andthen (RB_SET_BLACKRED parent gparent s) (\<lambda>s.
       andthen (RB_ROTATE_RIGHT gparent s) (\<lambda>(tmp, s).
       ret (elm, s)))))))"

definition insert_right :: "nat \<Rightarrow> nat \<Rightarrow> nat \<Rightarrow> rb \<Rightarrow> (nat \<times> rb) run" where
  "insert_right elm parent gparent s =
     andthen (RB_LEFT gparent s) (\<lambda>tmp.
     andthen (is_red tmp s) (\<lambda>red.
     if red then
       andthen (put_color tmp RB_BLACK s) (\<lambda>s.
       andthen (RB_SET_BLACKRED parent gparent s) (\<lambda>s.
       ret (gparent, s)))
     else
       andthen (RB_LEFT parent s) (\<lambda>x.
       andthen (if x = elm
                then andthen (RB_ROTATE_RIGHT parent s) (\<lambda>(tmp, s). ret (elm, parent, s))
                else ret (parent, elm, s)) (\<lambda>(parent, elm, s).
       andthen (RB_SET_BLACKRED parent gparent s) (\<lambda>s.
       andthen (RB_ROTATE_LEFT gparent s) (\<lambda>(tmp, s).
       ret (elm, s)))))))"

partial_function (option) RB_INSERT_COLOR :: "nat \<Rightarrow> rb \<Rightarrow> rb run" where
  "RB_INSERT_COLOR elm s =
     andthen (RB_PARENT elm s) (\<lambda>parent.
     andthen (is_red parent s) (\<lambda>red.
     if red then
       andthen (RB_PARENT parent s) (\<lambda>gparent.
       andthen (RB_LEFT gparent s) (\<lambda>l.
       andthen (if parent = l then insert_left elm parent gparent s
                else insert_right elm parent gparent s) (\<lambda>(elm, s).
       RB_INSERT_COLOR elm s)))
     else put_color (rbh_root s) RB_BLACK s))"

text \<open>
  \<open>while (tmp)\<close> of \<open>name##_RB_INSERT\<close>: it ends on the element that compares equal, or on the
  parent to be and the side.
\<close>

partial_function (option) insert_place ::
  "(nat \<Rightarrow> nat \<Rightarrow> int) \<Rightarrow> nat \<Rightarrow> nat \<Rightarrow> nat \<Rightarrow> int \<Rightarrow> rb \<Rightarrow> (nat \<times> nat \<times> int) run" where
  "insert_place cmp elm tmp parent way s =
     (if tmp = 0 then ret (0, parent, way)
      else andthen (compare cmp elm tmp) (\<lambda>way.
        if way < 0 then andthen (RB_LEFT tmp s) (\<lambda>l. insert_place cmp elm l tmp way s)
        else if 0 < way then andthen (RB_RIGHT tmp s) (\<lambda>r. insert_place cmp elm r tmp way s)
        else ret (tmp, tmp, way)))"

definition RB_INSERT :: "(nat \<Rightarrow> nat \<Rightarrow> int) \<Rightarrow> nat \<Rightarrow> rb \<Rightarrow> (nat \<times> rb) run" where
  "RB_INSERT cmp elm s =
     andthen (insert_place cmp elm (rbh_root s) 0 0 s) (\<lambda>(tmp, parent, way).
     if tmp \<noteq> 0 then ret (tmp, s)
     else
       andthen (RB_SET elm parent s) (\<lambda>s.
       andthen (if parent \<noteq> 0 then
                  if way < 0 then put_left parent elm s else put_right parent elm s
                else ret (s\<lparr>rbh_root := elm\<rparr>)) (\<lambda>s.
       andthen (RB_INSERT_COLOR elm s) (\<lambda>s.
       ret (0, s)))))"

section \<open>Removal\<close>

text \<open>
  The two halves of the loop of \<open>name##_RB_REMOVE_COLOR\<close>, for an \<open>elm\<close> on the left and on the
  right of \<open>parent\<close>.  They tell whether the loop goes on, and give the next \<open>parent\<close> and \<open>elm\<close>.
\<close>

definition remove_left :: "nat \<Rightarrow> rb \<Rightarrow> (bool \<times> nat \<times> nat \<times> rb) run" where
  "remove_left parent s =
     andthen (RB_RIGHT parent s) (\<lambda>tmp.
     andthen (RB_COLOR tmp s) (\<lambda>c.
     andthen (if c = RB_RED then
                andthen (RB_SET_BLACKRED tmp parent s) (\<lambda>s.
                andthen (RB_ROTATE_LEFT parent s) (\<lambda>(tmp, s).
                andthen (RB_RIGHT parent s) (\<lambda>tmp. ret (tmp, s))))
              else ret (tmp, s)) (\<lambda>(tmp, s).
     andthen (RB_LEFT tmp s) (\<lambda>l. andthen (is_black l s) (\<lambda>bl.
     andthen (RB_RIGHT tmp s) (\<lambda>r. andthen (is_black r s) (\<lambda>br.
     if bl \<and> br then
       andthen (put_color tmp RB_RED s) (\<lambda>s.
       andthen (RB_PARENT parent s) (\<lambda>gparent.
       ret (True, gparent, parent, s)))
     else
       andthen (if br then
                  andthen (RB_LEFT tmp s) (\<lambda>oleft.
                  andthen (if oleft \<noteq> 0 then put_color oleft RB_BLACK s else ret s) (\<lambda>s.
                  andthen (put_color tmp RB_RED s) (\<lambda>s.
                  andthen (RB_ROTATE_RIGHT tmp s) (\<lambda>(oleft, s).
                  andthen (RB_RIGHT parent s) (\<lambda>tmp. ret (tmp, s))))))
                else ret (tmp, s)) (\<lambda>(tmp, s).
       andthen (RB_COLOR parent s) (\<lambda>c.
       andthen (put_color tmp c s) (\<lambda>s.
       andthen (put_color parent RB_BLACK s) (\<lambda>s.
       andthen (RB_RIGHT tmp s) (\<lambda>x.
       andthen (if x \<noteq> 0 then put_color x RB_BLACK s else ret s) (\<lambda>s.
       andthen (RB_ROTATE_LEFT parent s) (\<lambda>(tmp, s).
       ret (False, parent, rbh_root s, s)))))))))))))))"

definition remove_right :: "nat \<Rightarrow> rb \<Rightarrow> (bool \<times> nat \<times> nat \<times> rb) run" where
  "remove_right parent s =
     andthen (RB_LEFT parent s) (\<lambda>tmp.
     andthen (RB_COLOR tmp s) (\<lambda>c.
     andthen (if c = RB_RED then
                andthen (RB_SET_BLACKRED tmp parent s) (\<lambda>s.
                andthen (RB_ROTATE_RIGHT parent s) (\<lambda>(tmp, s).
                andthen (RB_LEFT parent s) (\<lambda>tmp. ret (tmp, s))))
              else ret (tmp, s)) (\<lambda>(tmp, s).
     andthen (RB_LEFT tmp s) (\<lambda>l. andthen (is_black l s) (\<lambda>bl.
     andthen (RB_RIGHT tmp s) (\<lambda>r. andthen (is_black r s) (\<lambda>br.
     if bl \<and> br then
       andthen (put_color tmp RB_RED s) (\<lambda>s.
       andthen (RB_PARENT parent s) (\<lambda>gparent.
       ret (True, gparent, parent, s)))
     else
       andthen (if bl then
                  andthen (RB_RIGHT tmp s) (\<lambda>oright.
                  andthen (if oright \<noteq> 0 then put_color oright RB_BLACK s else ret s) (\<lambda>s.
                  andthen (put_color tmp RB_RED s) (\<lambda>s.
                  andthen (RB_ROTATE_LEFT tmp s) (\<lambda>(oright, s).
                  andthen (RB_LEFT parent s) (\<lambda>tmp. ret (tmp, s))))))
                else ret (tmp, s)) (\<lambda>(tmp, s).
       andthen (RB_COLOR parent s) (\<lambda>c.
       andthen (put_color tmp c s) (\<lambda>s.
       andthen (put_color parent RB_BLACK s) (\<lambda>s.
       andthen (RB_LEFT tmp s) (\<lambda>x.
       andthen (if x \<noteq> 0 then put_color x RB_BLACK s else ret s) (\<lambda>s.
       andthen (RB_ROTATE_RIGHT parent s) (\<lambda>(tmp, s).
       ret (False, parent, rbh_root s, s)))))))))))))))"

partial_function (option) RB_REMOVE_COLOR :: "nat \<Rightarrow> nat \<Rightarrow> rb \<Rightarrow> rb run" where
  "RB_REMOVE_COLOR parent elm s =
     andthen (is_black elm s) (\<lambda>black.
     if black \<and> elm \<noteq> rbh_root s then
       andthen (RB_LEFT parent s) (\<lambda>l.
       andthen (if l = elm then remove_left parent s else remove_right parent s)
         (\<lambda>(go, parent, elm, s).
       if go then RB_REMOVE_COLOR parent elm s
       else if elm \<noteq> 0 then put_color elm RB_BLACK s else ret s))
     else if elm \<noteq> 0 then put_color elm RB_BLACK s else ret s)"

text \<open>\<open>do RB_AUGMENT(left) while ((left = RB_PARENT(left, field)))\<close>, with the empty \<open>RB_AUGMENT\<close>.\<close>

partial_function (option) augment_up :: "nat \<Rightarrow> rb \<Rightarrow> unit run" where
  "augment_up left s =
     andthen (RB_PARENT left s) (\<lambda>left. if left = 0 then ret () else augment_up left s)"

text \<open>\<open>while ((left = RB_LEFT(elm, field))) elm = left;\<close>, as in \<open>name##_RB_NEXT\<close>; and its mirror image.\<close>

partial_function (option) rb_leftmost :: "nat \<Rightarrow> rb \<Rightarrow> nat run" where
  "rb_leftmost elm s = andthen (RB_LEFT elm s) (\<lambda>l. if l = 0 then ret elm else rb_leftmost l s)"

partial_function (option) rb_rightmost :: "nat \<Rightarrow> rb \<Rightarrow> nat run" where
  "rb_rightmost elm s = andthen (RB_RIGHT elm s) (\<lambda>r. if r = 0 then ret elm else rb_rightmost r s)"

text \<open>\<open>(elm)->field = (old)->field\<close>\<close>

definition copy_entry :: "nat \<Rightarrow> nat \<Rightarrow> rb \<Rightarrow> rb run" where
  "copy_entry elm old s =
     (if elm = 0 \<or> old = 0 then crash
      else ret (s\<lparr>rbe_left := (rbe_left s)(elm := rbe_left s old),
        rbe_right := (rbe_right s)(elm := rbe_right s old),
        rbe_parent := (rbe_parent s)(elm := rbe_parent s old),
        rbe_color := (rbe_color s)(elm := rbe_color s old)\<rparr>))"

text \<open>
  Taking \<open>elm\<close>, with at most one \<open>child\<close>, off its place; the answer is the parent and the color
  it had.
\<close>

definition unlink :: "nat \<Rightarrow> nat \<Rightarrow> rb \<Rightarrow> (nat \<times> rb_color \<times> rb) run" where
  "unlink elm child s =
     andthen (RB_PARENT elm s) (\<lambda>parent.
     andthen (RB_COLOR elm s) (\<lambda>color.
     andthen (if child \<noteq> 0 then put_parent child parent s else ret s) (\<lambda>s.
     andthen (rehang parent elm child s) (\<lambda>s.
     ret (parent, color, s)))))"

text \<open>Putting \<open>elm\<close>, its successor, where \<open>old\<close> is.\<close>

definition supplant :: "nat \<Rightarrow> nat \<Rightarrow> rb \<Rightarrow> rb run" where
  "supplant elm old s =
     andthen (copy_entry elm old s) (\<lambda>s.
     andthen (RB_PARENT old s) (\<lambda>parent.
     andthen (rehang parent old elm s) (\<lambda>s.
     andthen (RB_LEFT old s) (\<lambda>l.
     andthen (put_parent l elm s) (\<lambda>s.
     andthen (RB_RIGHT old s) (\<lambda>r.
     if r \<noteq> 0 then put_parent r elm s else ret s))))))"

definition RB_REMOVE :: "nat \<Rightarrow> rb \<Rightarrow> (nat \<times> rb) run" where
  "RB_REMOVE elm s =
     andthen (RB_LEFT elm s) (\<lambda>l.
     andthen (RB_RIGHT elm s) (\<lambda>r.
     andthen
       (if l = 0 then
          andthen (unlink elm r s) (\<lambda>(parent, color, s). ret (parent, r, color, s))
        else if r = 0 then
          andthen (unlink elm l s) (\<lambda>(parent, color, s). ret (parent, l, color, s))
        else
          let old = elm in
          andthen (rb_leftmost r s) (\<lambda>elm.
          andthen (RB_RIGHT elm s) (\<lambda>child.
          andthen (unlink elm child s) (\<lambda>(parent, color, s).
          andthen (RB_PARENT elm s) (\<lambda>p.
          let parent = (if p = old then elm else parent) in
          andthen (supplant elm old s) (\<lambda>s.
          andthen (if parent \<noteq> 0 then augment_up parent s else ret ()) (\<lambda>_.
          ret (parent, child, color, s))))))))
       (\<lambda>(parent, child, color, s).
     andthen (if color = RB_BLACK then RB_REMOVE_COLOR parent child s else ret s) (\<lambda>s.
     ret (elm, s)))))"

section \<open>Queries\<close>

partial_function (option) find_from :: "(nat \<Rightarrow> nat \<Rightarrow> int) \<Rightarrow> nat \<Rightarrow> nat \<Rightarrow> rb \<Rightarrow> nat run" where
  "find_from cmp elm tmp s =
     (if tmp = 0 then ret 0
      else andthen (compare cmp elm tmp) (\<lambda>way.
        if way < 0 then andthen (RB_LEFT tmp s) (\<lambda>l. find_from cmp elm l s)
        else if 0 < way then andthen (RB_RIGHT tmp s) (\<lambda>r. find_from cmp elm r s)
        else ret tmp))"

definition RB_FIND :: "(nat \<Rightarrow> nat \<Rightarrow> int) \<Rightarrow> nat \<Rightarrow> rb \<Rightarrow> nat run" where
  "RB_FIND cmp elm s = find_from cmp elm (rbh_root s) s"

partial_function (option) nfind_from ::
  "(nat \<Rightarrow> nat \<Rightarrow> int) \<Rightarrow> nat \<Rightarrow> nat \<Rightarrow> nat \<Rightarrow> rb \<Rightarrow> nat run" where
  "nfind_from cmp elm tmp res s =
     (if tmp = 0 then ret res
      else andthen (compare cmp elm tmp) (\<lambda>way.
        if way < 0 then andthen (RB_LEFT tmp s) (\<lambda>l. nfind_from cmp elm l tmp s)
        else if 0 < way then andthen (RB_RIGHT tmp s) (\<lambda>r. nfind_from cmp elm r res s)
        else ret tmp))"

definition RB_NFIND :: "(nat \<Rightarrow> nat \<Rightarrow> int) \<Rightarrow> nat \<Rightarrow> rb \<Rightarrow> nat run" where
  "RB_NFIND cmp elm s = nfind_from cmp elm (rbh_root s) 0 s"

text \<open>
  \<open>while (RB_PARENT(elm) && elm == RB_RIGHT(RB_PARENT(elm))) elm = RB_PARENT(elm);\<close> and then once
  more up, with its mirror image for \<open>name##_RB_PREV\<close>.
\<close>

partial_function (option) up_from_right :: "nat \<Rightarrow> rb \<Rightarrow> nat run" where
  "up_from_right elm s =
     andthen (RB_PARENT elm s) (\<lambda>parent.
     if parent = 0 then ret parent
     else andthen (RB_RIGHT parent s) (\<lambda>x.
       if elm = x then up_from_right parent s else ret parent))"

partial_function (option) up_from_left :: "nat \<Rightarrow> rb \<Rightarrow> nat run" where
  "up_from_left elm s =
     andthen (RB_PARENT elm s) (\<lambda>parent.
     if parent = 0 then ret parent
     else andthen (RB_LEFT parent s) (\<lambda>x.
       if elm = x then up_from_left parent s else ret parent))"

definition RB_NEXT :: "nat \<Rightarrow> rb \<Rightarrow> nat run" where
  "RB_NEXT elm s =
     andthen (RB_RIGHT elm s) (\<lambda>r.
     if r \<noteq> 0 then rb_leftmost r s
     else
       andthen (RB_PARENT elm s) (\<lambda>parent.
       andthen (if parent \<noteq> 0 then andthen (RB_LEFT parent s) (\<lambda>l. ret (elm = l)) else ret False) (\<lambda>here.
       if here then ret parent else up_from_right elm s)))"

definition RB_PREV :: "nat \<Rightarrow> rb \<Rightarrow> nat run" where
  "RB_PREV elm s =
     andthen (RB_LEFT elm s) (\<lambda>r.
     if r \<noteq> 0 then rb_rightmost r s
     else
       andthen (RB_PARENT elm s) (\<lambda>parent.
       andthen (if parent \<noteq> 0 then andthen (RB_RIGHT parent s) (\<lambda>l. ret (elm = l)) else ret False) (\<lambda>here.
       if here then ret parent else up_from_left elm s)))"

partial_function (option) minmax_from :: "int \<Rightarrow> nat \<Rightarrow> nat \<Rightarrow> rb \<Rightarrow> nat run" where
  "minmax_from val tmp parent s =
     (if tmp = 0 then ret parent
      else if val < 0 then andthen (RB_LEFT tmp s) (\<lambda>l. minmax_from val l tmp s)
      else andthen (RB_RIGHT tmp s) (\<lambda>r. minmax_from val r tmp s))"

definition RB_MINMAX :: "int \<Rightarrow> rb \<Rightarrow> nat run" where
  "RB_MINMAX val s = minmax_from val (rbh_root s) 0 s"

definition RB_NEGINF :: int where "RB_NEGINF = -1"
definition RB_INF :: int where "RB_INF = 1"

definition RB_MIN :: "rb \<Rightarrow> nat run" where "RB_MIN s = RB_MINMAX RB_NEGINF s"
definition RB_MAX :: "rb \<Rightarrow> nat run" where "RB_MAX s = RB_MINMAX RB_INF s"

text \<open>A query that leaves the tree as it is, beside those of the splay trees that do not.\<close>

definition query :: "(rb \<Rightarrow> nat run) \<Rightarrow> rb \<Rightarrow> (nat \<times> rb) run" where
  "query f s = andthen (f s) (\<lambda>x. ret (x, s))"

definition RB_FOREACH :: "rb \<Rightarrow> (nat list \<times> rb) run" where
  "RB_FOREACH s = for_each (query RB_MIN) (\<lambda>x. query (RB_NEXT x)) s"

definition RB_FOREACH_REVERSE :: "rb \<Rightarrow> (nat list \<times> rb) run" where
  "RB_FOREACH_REVERSE s = for_each (query RB_MAX) (\<lambda>x. query (RB_PREV x)) s"

definition rb_ops :: "(nat \<Rightarrow> nat \<Rightarrow> int) \<Rightarrow> rb table_ops" where
  "rb_ops cmp =
     \<lparr>op_insert = RB_INSERT cmp, op_remove = RB_REMOVE,
      op_find = \<lambda>e. query (RB_FIND cmp e), op_next = \<lambda>e. query (RB_NEXT e),
      op_min = query RB_MIN, op_max = query RB_MAX, op_foreach = RB_FOREACH\<rparr>"

lemma rb_ops_simps [simp]:
  "op_insert (rb_ops cmp) = RB_INSERT cmp"
  "op_remove (rb_ops cmp) = RB_REMOVE"
  "op_find (rb_ops cmp) = (\<lambda>e. query (RB_FIND cmp e))"
  "op_next (rb_ops cmp) = (\<lambda>e. query (RB_NEXT e))"
  "op_min (rb_ops cmp) = query RB_MIN"
  "op_max (rb_ops cmp) = query RB_MAX"
  "op_foreach (rb_ops cmp) = RB_FOREACH"
  by (simp_all add: rb_ops_def)

definition rb_two_way :: "(nat \<Rightarrow> nat \<Rightarrow> int) \<Rightarrow> rb two_way_ops" where
  "rb_two_way cmp =
     \<lparr>op_table = rb_ops cmp, op_nfind = \<lambda>e. query (RB_NFIND cmp e),
      op_prev = \<lambda>e. query (RB_PREV e), op_reverse = RB_FOREACH_REVERSE\<rparr>"

lemma rb_two_way_simps [simp]:
  "op_table (rb_two_way cmp) = rb_ops cmp"
  "op_nfind (rb_two_way cmp) = (\<lambda>e. query (RB_NFIND cmp e))"
  "op_prev (rb_two_way cmp) = (\<lambda>e. query (RB_PREV e))"
  "op_reverse (rb_two_way cmp) = RB_FOREACH_REVERSE"
  by (simp_all add: rb_two_way_def)

end
