(* ===== verification/Rb_Zip.thy ===== *)
theory Rb_Zip
  imports Rb
begin

text \<open>
  The trees the pointers of \<^verbatim>\<open>Rb\<close> form, seen from one place in them: the subtree hanging there
  and the frames on the way up to the root.  What the code does at a place is stated once for
  both sides: \<open>d\<close> is true for the left and false for the right.
\<close>

section \<open>Trees and frames\<close>

datatype rbt = Tip | Br rbt nat rb_color rbt

definition br :: "bool \<Rightarrow> rbt \<Rightarrow> nat \<Rightarrow> rb_color \<Rightarrow> rbt \<Rightarrow> rbt" where
  "br d x a c y = (if d then Br x a c y else Br y a c x)"

text \<open>\<open>Frame d a c t\<close>: the place is the \<open>d\<close> child of \<open>a\<close>, and \<open>t\<close> the other child.\<close>

datatype frame = Frame bool nat rb_color rbt

fun ptr :: "rbt \<Rightarrow> nat" where
  "ptr Tip = 0"
| "ptr (Br l a c r) = a"

fun elems :: "rbt \<Rightarrow> nat list" where
  "elems Tip = []"
| "elems (Br l a c r) = elems l @ a # elems r"

fun up :: "frame list \<Rightarrow> nat" where
  "up [] = 0"
| "up (Frame d a c t # C) = a"

fun lowers :: "frame list \<Rightarrow> nat list" where
  "lowers [] = []"
| "lowers (Frame d a c t # C) = (if d then lowers C else lowers C @ elems t @ [a])"

fun uppers :: "frame list \<Rightarrow> nat list" where
  "uppers [] = []"
| "uppers (Frame d a c t # C) = (if d then a # elems t @ uppers C else uppers C)"

abbreviation around :: "frame list \<Rightarrow> nat set" where
  "around C \<equiv> set (lowers C) \<union> set (uppers C)"

fun plug :: "frame list \<Rightarrow> rbt \<Rightarrow> rbt" where
  "plug [] t = t"
| "plug (Frame d a c u # C) t = plug C (br d t a c u)"

lemma br_simps [simp]:
  "br True x a c y = Br x a c y" "br False x a c y = Br y a c x" "ptr (br d x a c y) = a"
  "set (elems (br d x a c y)) = insert a (set (elems x) \<union> set (elems y))"
  "br d x a c y \<noteq> Tip" "Tip \<noteq> br d x a c y"
  by (auto simp: br_def)

lemma elems_br: "elems (br d x a c y) = (if d then elems x @ a # elems y else elems y @ a # elems x)"
  by (simp add: br_def)

lemma br_inject [simp]: "br d x a c y = br d x' a' c' y' \<longleftrightarrow> x = x' \<and> a = a' \<and> c = c' \<and> y = y'"
  by (auto simp: br_def)

lemma br_cases: "t \<noteq> Tip \<Longrightarrow> (\<And>x a c y. t = br d x a c y \<Longrightarrow> thesis) \<Longrightarrow> thesis"
  by (cases t; cases d) (auto simp: br_def)

lemma elems_plug [simp]: "elems (plug C t) = lowers C @ elems t @ uppers C"
  by (induction C t rule: plug.induct) (auto simp: br_def)

lemma ptr_in: "ptr t \<noteq> 0 \<Longrightarrow> ptr t \<in> set (elems t)"
  by (cases t) auto

lemma plug_append: "plug (C @ D) t = plug D (plug C t)"
  by (induction C t rule: plug.induct) auto

section \<open>Trees in memory\<close>

definition get :: "bool \<Rightarrow> nat \<Rightarrow> rb \<Rightarrow> nat run" where
  "get d e s = (if d then RB_LEFT e s else RB_RIGHT e s)"

definition put :: "bool \<Rightarrow> nat \<Rightarrow> nat \<Rightarrow> rb \<Rightarrow> rb run" where
  "put d e x s = (if d then put_left e x s else put_right e x s)"

definition link :: "bool \<Rightarrow> rb \<Rightarrow> nat \<Rightarrow> nat" where
  "link d s e = (if d then rbe_left s e else rbe_right s e)"

fun rb_at :: "rb \<Rightarrow> nat \<Rightarrow> rbt \<Rightarrow> bool" where
  "rb_at s q Tip = True"
| "rb_at s q (Br l a c r) \<longleftrightarrow>
     a \<noteq> 0 \<and> rbe_left s a = ptr l \<and> rbe_right s a = ptr r \<and> rbe_parent s a = q \<and> rbe_color s a = c \<and>
     rb_at s a l \<and> rb_at s a r"

fun ctx_at :: "rb \<Rightarrow> frame list \<Rightarrow> nat \<Rightarrow> bool" where
  "ctx_at s [] p \<longleftrightarrow> rbh_root s = p"
| "ctx_at s (Frame d a c t # C) p \<longleftrightarrow>
     a \<noteq> 0 \<and> link d s a = p \<and> link (\<not> d) s a = ptr t \<and> rbe_parent s a = up C \<and> rbe_color s a = c \<and>
     rb_at s a t \<and> ctx_at s C a"

definition zip_at :: "rb \<Rightarrow> frame list \<Rightarrow> rbt \<Rightarrow> bool" where
  "zip_at s C t \<longleftrightarrow>
     ctx_at s C (ptr t) \<and> rb_at s (up C) t \<and> distinct (lowers C @ elems t @ uppers C)"

lemma rb_at_br [simp]:
  "rb_at s q (br d x a c y) \<longleftrightarrow>
     a \<noteq> 0 \<and> link d s a = ptr x \<and> link (\<not> d) s a = ptr y \<and> rbe_parent s a = q \<and> rbe_color s a = c \<and>
     rb_at s a x \<and> rb_at s a y"
  by (cases d) (auto simp: link_def)

lemma zip_frame: "zip_at s (Frame d a c u # C) t \<longleftrightarrow> zip_at s C (br d t a c u)"
proof -
  have "lowers (Frame d a c u # C) @ elems t @ uppers (Frame d a c u # C) =
      lowers C @ elems (br d t a c u) @ uppers C"
    by (simp add: br_def)
  moreover have "ctx_at s (Frame d a c u # C) (ptr t) \<and> rb_at s (up (Frame d a c u # C)) t \<longleftrightarrow>
      ctx_at s C (ptr (br d t a c u)) \<and> rb_at s (up C) (br d t a c u)"
    by (simp only: ctx_at.simps up.simps rb_at_br br_simps) blast
  ultimately show ?thesis unfolding zip_at_def by argo
qed

lemma zip_plug: "zip_at s C t \<longleftrightarrow> zip_at s [] (plug C t)"
  by (induction C t rule: plug.induct) (simp_all add: zip_frame)

lemma zip_reads:
  assumes "zip_at s C (br d x a c y)"
  shows "a \<noteq> 0" "get d a s = ret (ptr x)" "get (\<not> d) a s = ret (ptr y)" "RB_PARENT a s = ret (up C)"
    "RB_COLOR a s = ret c"
  using assms by (cases d; auto simp: zip_at_def get_def RB_LEFT_def RB_RIGHT_def RB_PARENT_def RB_COLOR_def)+

lemma zip_Br: "zip_at s C (Br x a c y) \<longleftrightarrow> zip_at s C (br True x a c y)"
  by simp

lemma zip_nonzero: "zip_at s C t \<Longrightarrow> t \<noteq> Tip \<Longrightarrow> ptr t \<noteq> 0"
  by (cases t) (auto simp: zip_at_def)

lemma zip_root: "zip_at s [] t \<Longrightarrow> rbh_root s = ptr t"
  by (simp add: zip_at_def)

text \<open>What a tree in memory depends on.\<close>

definition same :: "rb \<Rightarrow> rb \<Rightarrow> nat \<Rightarrow> bool" where
  "same s s' x \<longleftrightarrow> rbe_left s' x = rbe_left s x \<and> rbe_right s' x = rbe_right s x \<and>
     rbe_parent s' x = rbe_parent s x \<and> rbe_color s' x = rbe_color s x"

lemma same_link: "same s s' x \<Longrightarrow> link d s' x = link d s x"
  by (simp add: same_def link_def)

lemma rb_at_cong: "rb_at s q t \<Longrightarrow> (\<And>x. x \<in> set (elems t) \<Longrightarrow> same s s' x) \<Longrightarrow> rb_at s' q t"
  by (induction t arbitrary: q) (auto simp: same_def)

text \<open>The same under another parent.\<close>

lemma rb_at_reparent:
  assumes "rb_at s q t" and "\<And>x. x \<in> set (elems t) \<Longrightarrow> x \<noteq> ptr t \<Longrightarrow> same s s' x"
    and "t \<noteq> Tip \<Longrightarrow> rbe_left s' (ptr t) = rbe_left s (ptr t) \<and> rbe_right s' (ptr t) = rbe_right s (ptr t) \<and>
      rbe_color s' (ptr t) = rbe_color s (ptr t) \<and> rbe_parent s' (ptr t) = q'"
    and "distinct (elems t)"
  shows "rb_at s' q' t"
proof (cases t)
  case Tip
  then show ?thesis by simp
next
  case (Br l a c r)
  have "rb_at s' a l" "rb_at s' a r"
    using assms(1,2,4) unfolding Br by (auto intro!: rb_at_cong [of s a _ s'])
  then show ?thesis using assms(1,3) unfolding Br by simp
qed

lemma ctx_at_cong:
  "ctx_at s C p \<Longrightarrow> (\<And>x. x \<in> around C \<Longrightarrow> same s s' x) \<Longrightarrow> rbh_root s' = rbh_root s \<Longrightarrow> ctx_at s' C p"
proof (induction C arbitrary: p)
  case Nil
  then show ?case by simp
next
  case (Cons f C)
  obtain d a c t where f: "f = Frame d a c t" by (cases f)
  have "same s s' a" using Cons.prems(2) [of a] by (cases d) (auto simp: f)
  moreover have "rb_at s' a t"
    by (rule rb_at_cong [of s]) (use Cons.prems in \<open>auto simp: f split: if_splits\<close>)
  moreover have "ctx_at s' C a"
    by (rule Cons.IH) (use Cons.prems in \<open>auto simp: f split: if_splits\<close>)
  ultimately show ?case using Cons.prems(1) by (simp add: f same_link) (simp add: same_def)
qed

section \<open>Changes at a place\<close>

lemma put_color_zip:
  assumes z: "zip_at s C (br d x a c y)"
  shows "\<exists>s'. put_color a c' s = ret s' \<and> zip_at s' C (br d x a c' y)"
proof -
  let ?s = "s\<lparr>rbe_color := (rbe_color s)(a := c')\<rparr>"
  have a: "a \<noteq> 0" and out: "a \<notin> set (elems x)" "a \<notin> set (elems y)" "a \<notin> around C"
    using z by (cases d; auto simp: zip_at_def)+
  have "ctx_at ?s C a" "rb_at ?s a x" "rb_at ?s a y"
    using z out by (auto simp: zip_at_def same_def elim!: ctx_at_cong rb_at_cong)
  moreover have "distinct (lowers C @ elems (br d x a c' y) @ uppers C)"
    using z by (cases d) (auto simp: zip_at_def)
  ultimately have "zip_at ?s C (br d x a c' y)"
    using z by (cases d) (simp_all add: zip_at_def link_def)
  then show ?thesis using a by (simp add: put_color_def)
qed

text \<open>Hanging another element at a place.\<close>

lemma rehang_ctx:
  assumes "ctx_at s C p" and "p \<noteq> 0" and "p \<notin> around C" and "distinct (lowers C @ uppers C)"
  shows "\<exists>s'. rehang (up C) p q s = ret s' \<and> ctx_at s' C q \<and> (\<forall>x. x \<noteq> up C \<longrightarrow> same s s' x) \<and>
    rbe_parent s' = rbe_parent s \<and> rbe_color s' = rbe_color s"
proof (cases C)
  case Nil
  then show ?thesis using assms(1) by (simp add: rehang_def same_def)
next
  case (Cons f D)
  obtain d a c t where f: "f = Frame d a c t" by (cases f)
  have at: "a \<noteq> 0" "link d s a = p" "link (\<not> d) s a = ptr t" "rbe_parent s a = up D" "rbe_color s a = c"
      "rb_at s a t" "ctx_at s D a"
    using assms(1) by (simp_all add: Cons f)
  have apart: "a \<notin> set (elems t)" "a \<notin> around D" "ptr t \<noteq> p"
    using assms(2,3,4) ptr_in [of t] by (auto simp: Cons f split: if_splits)
  let ?s = "if d then s\<lparr>rbe_left := (rbe_left s)(a := q)\<rparr> else s\<lparr>rbe_right := (rbe_right s)(a := q)\<rparr>"
  have "rehang (up C) p q s = ret ?s"
    using at apart(3) by (auto simp: Cons f rehang_def link_def RB_LEFT_def put_left_def put_right_def)
  moreover have same: "same s ?s x" if "x \<noteq> a" for x using that by (auto simp: same_def)
  have "rb_at ?s a t" by (rule rb_at_cong [OF at(6)]) (use apart in \<open>auto simp: same_def\<close>)
  moreover have "ctx_at ?s D a" by (rule ctx_at_cong [OF at(7)]) (use apart in \<open>auto simp: same_def\<close>)
  ultimately have "ctx_at ?s C q" using at by (auto simp: Cons f link_def)
  then show ?thesis using \<open>rehang (up C) p q s = ret ?s\<close> same by (intro exI [of _ ?s]) (auto simp: Cons f)
qed

section \<open>Rotations\<close>

definition rb_rotate :: "bool \<Rightarrow> nat \<Rightarrow> rb \<Rightarrow> (nat \<times> rb) run" where
  "rb_rotate d e s = (if d then RB_ROTATE_LEFT e s else RB_ROTATE_RIGHT e s)"

lemma rotate_code:
  "rb_rotate d elm s =
     andthen (get (\<not> d) elm s) (\<lambda>tmp.
     andthen (get d tmp s) (\<lambda>x.
     andthen (put (\<not> d) elm x s) (\<lambda>s.
     andthen (if x \<noteq> 0 then put_parent x elm s else ret s) (\<lambda>s.
     andthen (RB_PARENT elm s) (\<lambda>parent.
     andthen (put_parent tmp parent s) (\<lambda>s.
     andthen (rehang parent elm tmp s) (\<lambda>s.
     andthen (put d tmp elm s) (\<lambda>s.
     andthen (put_parent elm tmp s) (\<lambda>s.
     ret (tmp, s))))))))))"
  by (simp add: rb_rotate_def RB_ROTATE_LEFT_def RB_ROTATE_RIGHT_def get_def put_def)

text \<open>The fields as the two sides see them.\<close>

definition set_link :: "bool \<Rightarrow> nat \<Rightarrow> nat \<Rightarrow> rb \<Rightarrow> rb" where
  "set_link d e x s =
     (if d then s\<lparr>rbe_left := (rbe_left s)(e := x)\<rparr> else s\<lparr>rbe_right := (rbe_right s)(e := x)\<rparr>)"

definition set_parent :: "nat \<Rightarrow> nat \<Rightarrow> rb \<Rightarrow> rb" where
  "set_parent e x s = s\<lparr>rbe_parent := (rbe_parent s)(e := x)\<rparr>"

lemma put_set: "e \<noteq> 0 \<Longrightarrow> put d e x s = ret (set_link d e x s)" "e \<noteq> 0 \<Longrightarrow> put_parent e x s = ret (set_parent e x s)"
  by (simp_all add: put_def set_link_def put_left_def put_right_def put_parent_def set_parent_def)

lemma get_link: "e \<noteq> 0 \<Longrightarrow> get d e s = ret (link d s e)"
  by (simp add: get_def link_def RB_LEFT_def RB_RIGHT_def)

lemma set_fields [simp]:
  "link d' (set_link d e x s) e' = (if d' = d \<and> e' = e then x else link d' s e')"
  "rbe_parent (set_link d e x s) = rbe_parent s" "rbe_color (set_link d e x s) = rbe_color s"
  "rbh_root (set_link d e x s) = rbh_root s"
  "link d (set_parent e x s) e' = link d s e'" "rbe_parent (set_parent e x s) = (rbe_parent s)(e := x)"
  "rbe_color (set_parent e x s) = rbe_color s" "rbh_root (set_parent e x s) = rbh_root s"
  by (auto simp: set_link_def set_parent_def link_def)

lemma same_links:
  "same s s' x \<longleftrightarrow>
     (\<forall>d. link d s' x = link d s x) \<and> rbe_parent s' x = rbe_parent s x \<and> rbe_color s' x = rbe_color s x"
  by (auto simp: same_def link_def split: if_splits)

lemma same_trans: "same s s' x \<Longrightarrow> same s' s'' x \<Longrightarrow> same s s'' x"
  by (simp add: same_def)

lemma same_refl [simp]: "same s s x"
  by (simp add: same_def)

lemma same_updates:
  "x \<noteq> e \<Longrightarrow> same s (set_link d e v s) x" "x \<noteq> e \<Longrightarrow> same s (set_parent e v s) x"
  by (simp_all add: same_links)

lemma up_around: "up C \<noteq> 0 \<Longrightarrow> up C \<in> around C"
  by (cases C rule: up.cases) (auto split: if_splits)

lemma rb_at_nonzero: "rb_at s q t \<Longrightarrow> x \<in> set (elems t) \<Longrightarrow> x \<noteq> 0"
  by (induction t arbitrary: q) auto

lemma reparent_links:
  assumes "rb_at s q t" and "distinct (elems t)"
    and "\<And>x. x \<in> set (elems t) \<Longrightarrow> same (if ptr t \<noteq> 0 then set_parent (ptr t) q' s else s) s' x"
  shows "rb_at s' q' t"
proof (rule rb_at_reparent [OF assms(1) _ _ assms(2)])
  fix x assume x: "x \<in> set (elems t)" "x \<noteq> ptr t"
  then show "same s s' x"
    using assms(3) [OF x(1)] same_updates(2) [of x "ptr t" s q'] by (auto split: if_splits intro: same_trans)
next
  assume "t \<noteq> Tip"
  then have "ptr t \<noteq> 0" "ptr t \<in> set (elems t)" using assms(1) by (cases t; simp)+
  with assms(3) [of "ptr t"] show "rbe_left s' (ptr t) = rbe_left s (ptr t) \<and>
      rbe_right s' (ptr t) = rbe_right s (ptr t) \<and> rbe_color s' (ptr t) = rbe_color s (ptr t) \<and>
      rbe_parent s' (ptr t) = q'"
    by (simp add: same_def set_parent_def)
qed

lemma rotate_zip:
  assumes z: "zip_at s C (br d x a ca (br d y b cb w))"
  shows "\<exists>s'. rb_rotate d a s = ret (b, s') \<and> zip_at s' C (br d (br d x a ca y) b cb w)"
proof -
  have at: "a \<noteq> 0" "b \<noteq> 0" "link d s a = ptr x" "link (\<not> d) s a = b" "link d s b = ptr y"
      "link (\<not> d) s b = ptr w" "rbe_parent s a = up C" "rbe_color s a = ca" "rbe_color s b = cb"
      "rb_at s a x" "rb_at s b y" "rb_at s b w" "ctx_at s C a"
    using z by (simp_all add: zip_at_def)
  have D: "distinct (a # b # elems x @ elems y @ elems w @ lowers C @ uppers C)"
    using z by (cases d) (auto simp: zip_at_def)
  have dist: "distinct (lowers C @ uppers C)" "a \<noteq> b" "distinct (elems y)"
      "a \<notin> around C" "b \<notin> around C" "ptr y \<noteq> 0 \<Longrightarrow> ptr y \<notin> around C"
    and out: "\<And>e. e \<in> set (elems x) \<Longrightarrow> e \<noteq> a \<and> e \<noteq> b \<and> e \<noteq> ptr y \<and> e \<notin> around C \<and> e \<noteq> 0"
      "\<And>e. e \<in> set (elems y) \<Longrightarrow> e \<noteq> a \<and> e \<noteq> b \<and> e \<notin> around C \<and> e \<noteq> 0"
      "\<And>e. e \<in> set (elems w) \<Longrightarrow> e \<noteq> a \<and> e \<noteq> b \<and> e \<noteq> ptr y \<and> e \<notin> around C \<and> e \<noteq> 0"
    using D ptr_in [of y] rb_at_nonzero [OF at(10)] rb_at_nonzero [OF at(11)] rb_at_nonzero [OF at(12)]
    by auto
  have ay: "a \<noteq> ptr y" using D ptr_in [of y] at(1) by auto
  let ?m = "\<lambda>s. if ptr y \<noteq> 0 then set_parent (ptr y) a s else s"
  define s3 where "s3 = set_parent b (up C) (?m (set_link (\<not> d) a (ptr y) s))"
  have ctx3: "ctx_at s3 C a"
    by (rule ctx_at_cong [OF at(13)]) (use dist in \<open>auto simp: s3_def same_links\<close>)
  obtain s4 where s4: "rehang (up C) a b s3 = ret s4" "ctx_at s4 C b" "\<And>e. e \<noteq> up C \<Longrightarrow> same s3 s4 e"
      "rbe_parent s4 = rbe_parent s3" "rbe_color s4 = rbe_color s3"
    using rehang_ctx [OF ctx3 at(1) dist(4,1)] by blast
  have up: "a \<noteq> up C" "b \<noteq> up C" using up_around [of C] dist(4,5) at(1,2) by metis+
  define s6 where "s6 = set_parent a b (set_link d b a s4)"
  have run: "rb_rotate d a s = ret (b, s6)"
    using at dist(2) s4(1) ay
    by (cases "ptr y = 0") (simp_all add: rotate_code get_link put_set RB_PARENT_def s6_def s3_def)
  have links: "link d s6 a = ptr x" "link (\<not> d) s6 a = ptr y" "link d s6 b = a" "link (\<not> d) s6 b = ptr w"
    using s4(3) [OF up(1)] s4(3) [OF up(2)] at dist(2) by (simp_all add: s6_def s3_def same_links)
  have others: "same (?m s) s6 e" if "e \<noteq> a" "e \<noteq> b" "e \<noteq> up C" for e
  proof -
    have "same (?m s) s3 e" using that by (simp add: s3_def same_links)
    moreover have "same s3 s4 e" using s4(3) that(3) by blast
    moreover have "same s4 s6 e" using that by (simp add: s6_def same_links)
    ultimately show ?thesis by (blast intro: same_trans)
  qed
  have far: "same s s6 e" if "e \<noteq> a" "e \<noteq> b" "e \<notin> around C" "e \<noteq> 0" "e \<noteq> ptr y" for e
  proof -
    have "e \<noteq> up C" using that(3,4) up_around [of C] by auto
    then have "same (?m s) s6 e" using others that(1,2) by blast
    moreover have "same s (?m s) e" using that(5) by (simp add: same_updates)
    ultimately show ?thesis by (blast intro: same_trans)
  qed
  have beneath: "e \<noteq> up C" if "e \<in> set (elems y)" for e
    using out(2) [OF that] up_around [of C] by auto
  have parents: "rbe_parent s6 a = b" "rbe_parent s6 b = up C" "rbe_color s6 a = ca" "rbe_color s6 b = cb"
    using s4(4,5) at(8,9) dist(2) by (simp_all add: s6_def s3_def)
  have "rb_at s6 a x" by (rule rb_at_cong [OF at(10)]) (use far out(1) in blast)
  moreover have "rb_at s6 b w" by (rule rb_at_cong [OF at(12)]) (use far out(3) in blast)
  moreover have "rb_at s6 a y"
    by (rule reparent_links [OF at(11) dist(3)]) (use others out(2) beneath in blast)
  ultimately have tree: "rb_at s6 (up C) (br d (br d x a ca y) b cb w)"
    using links parents at(1,2) by simp
  have "ctx_at s6 C b"
    by (rule ctx_at_cong [OF s4(2)]) (use dist in \<open>auto simp: s6_def same_links\<close>)
  then have "zip_at s6 C (br d (br d x a ca y) b cb w)"
    using tree z by (cases d) (simp_all add: zip_at_def)
  with run show ?thesis by blast
qed

end
