(* ===== verification/Rb_Edit.thy ===== *)
theory Rb_Edit
  imports Rb_Zip
begin

text \<open>Elements that come to a place in a tree and leave it: the steps of insertion and removal.\<close>

section \<open>A new leaf\<close>

text \<open>\<open>RB_SET\<close> and the branch of \<open>name##_RB_INSERT\<close> that hangs the element.\<close>

definition attach :: "frame list \<Rightarrow> nat \<Rightarrow> rb \<Rightarrow> rb run" where
  "attach C e s =
     (case C of [] \<Rightarrow> ret (s\<lparr>rbh_root := e\<rparr>) | Frame d a c t # D \<Rightarrow> put d a e s)"

lemma attach_ctx:
  assumes "ctx_at s C p" and "distinct (lowers C @ uppers C)"
  shows "\<exists>s'. attach C e s = ret s' \<and> ctx_at s' C e \<and> (\<forall>x. x \<notin> around C \<longrightarrow> same s s' x)"
proof (cases C)
  case Nil
  then show ?thesis using assms(1) by (simp add: attach_def same_def)
next
  case (Cons f D)
  obtain d a c t where f: "f = Frame d a c t" by (cases f)
  have at: "a \<noteq> 0" "link (\<not> d) s a = ptr t" "rbe_parent s a = up D" "rbe_color s a = c"
      "rb_at s a t" "ctx_at s D a"
    using assms(1) by (simp_all add: Cons f)
  have apart: "a \<notin> set (elems t)" "a \<notin> around D"
    using assms(2) by (auto simp: Cons f split: if_splits)
  let ?s = "set_link d a e s"
  have "rb_at ?s a t" by (rule rb_at_cong [OF at(5)]) (use apart in \<open>auto intro: same_updates\<close>)
  moreover have "ctx_at ?s D a" by (rule ctx_at_cong [OF at(6)]) (use apart in \<open>auto intro: same_updates\<close>)
  ultimately have "ctx_at ?s C e" using at by (simp add: Cons f)
  moreover have "attach C e s = ret ?s" using at(1) by (simp add: attach_def Cons f put_set)
  ultimately show ?thesis by (intro exI [of _ ?s]) (auto simp: Cons f intro: same_updates)
qed

lemma attach_zip:
  assumes z: "zip_at s C Tip" and e: "e \<noteq> 0" "e \<notin> around C"
  shows "\<exists>s'. andthen (RB_SET e (up C) s) (attach C e) = ret s' \<and> zip_at s' C (Br Tip e RB_RED Tip)"
proof -
  let ?s = "s\<lparr>rbe_parent := (rbe_parent s)(e := up C), rbe_right := (rbe_right s)(e := 0),
    rbe_left := (rbe_left s)(e := 0), rbe_color := (rbe_color s)(e := RB_RED)\<rparr>"
  have set: "RB_SET e (up C) s = ret ?s"
    using e(1) by (simp add: RB_SET_def put_parent_def put_right_def put_left_def put_color_def)
  have "ctx_at ?s C 0" using z e(2) by (auto simp: zip_at_def same_def elim!: ctx_at_cong)
  then obtain s' where s': "attach C e ?s = ret s'" "ctx_at s' C e" "\<And>x. x \<notin> around C \<Longrightarrow> same ?s s' x"
    using attach_ctx z by (force simp: zip_at_def)
  have "same ?s s' e" using s'(3) e(2) by blast
  then have "zip_at s' C (Br Tip e RB_RED Tip)"
    using s'(2) z e by (auto simp: zip_at_def same_def)
  then show ?thesis using set s'(1) by simp
qed

section \<open>Taking an element off\<close>

lemma unlink_zip:
  assumes z: "zip_at s C (br d Tip e c t)"
  shows "\<exists>s'. unlink e (ptr t) s = ret (up C, c, s') \<and> zip_at s' C t \<and> same s s' e"
proof -
  have at: "e \<noteq> 0" "rbe_parent s e = up C" "rbe_color s e = c" "rb_at s e t" "ctx_at s C e"
    using z by (simp_all add: zip_at_def)
  have D: "distinct (e # elems t @ lowers C @ uppers C)"
    using z by (cases d) (auto simp: zip_at_def)
  let ?s = "if ptr t \<noteq> 0 then set_parent (ptr t) (up C) s else s"
  have apart: "ptr t \<noteq> e" "ptr t \<noteq> 0 \<Longrightarrow> ptr t \<notin> around C" "e \<notin> around C" "distinct (lowers C @ uppers C)"
    using D ptr_in [of t] at(1) by auto
  have up: "e \<noteq> up C" using up_around [of C] apart(3) at(1) by metis
  have "ctx_at ?s C e"
    by (rule ctx_at_cong [OF at(5)]) (use apart in \<open>auto simp: same_links\<close>)
  then obtain s' where s': "rehang (up C) e (ptr t) ?s = ret s'" "ctx_at s' C (ptr t)"
      "\<And>x. x \<noteq> up C \<Longrightarrow> same ?s s' x"
    using rehang_ctx at(1) apart(3,4) by blast
  have ne: "x \<noteq> up C" if "x \<in> set (elems t)" for x
    using D that rb_at_nonzero [OF at(4) that] up_around [of C] by auto
  have "rb_at s' (up C) t"
    by (rule reparent_links [OF at(4)]) (use D s'(3) ne in auto)
  then have "zip_at s' C t" using s'(2) D by (auto simp: zip_at_def)
  moreover have "same s s' e"
  proof -
    have "same s ?s e" using apart(1) by (simp add: same_links)
    then show ?thesis using s'(3) [OF up] by (rule same_trans)
  qed
  moreover have "unlink e (ptr t) s = ret (up C, c, s')"
    using s'(1) at(1-3) by (auto simp: unlink_def RB_PARENT_def RB_COLOR_def put_set)
  ultimately show ?thesis by blast
qed

section \<open>Putting the successor in\<close>

lemma supplant_zip:
  assumes z: "zip_at s C (Br l e c r)" and l: "l \<noteq> Tip" and m: "m \<noteq> 0" "m \<noteq> e" "m \<notin> set (elems l)"
    "m \<notin> set (elems r)" "m \<notin> around C"
  shows "\<exists>s'. supplant m e s = ret s' \<and> zip_at s' C (Br l m c r)"
proof -
  have at: "e \<noteq> 0" "rbe_left s e = ptr l" "rbe_right s e = ptr r" "rbe_parent s e = up C" "rbe_color s e = c"
      "rb_at s e l" "rb_at s e r" "ctx_at s C e"
    using z by (simp_all add: zip_at_def)
  have D: "distinct (e # elems l @ elems r @ lowers C @ uppers C)"
    using z by (auto simp: zip_at_def)
  have l0: "ptr l \<noteq> 0" using l at(6) by (cases l) auto
  let ?s = "s\<lparr>rbe_left := (rbe_left s)(m := ptr l), rbe_right := (rbe_right s)(m := ptr r),
    rbe_parent := (rbe_parent s)(m := up C), rbe_color := (rbe_color s)(m := c)\<rparr>"
  have copy: "copy_entry m e s = ret ?s" using at m(1) by (simp add: copy_entry_def)
  have keep: "same s ?s x" if "x \<noteq> m" for x using that by (simp add: same_def)
  have "ctx_at ?s C e" by (rule ctx_at_cong [OF at(8)]) (use m in \<open>auto simp: same_def\<close>)
  then obtain t where t: "rehang (up C) e m ?s = ret t" "ctx_at t C m" "\<And>x. x \<noteq> up C \<Longrightarrow> same ?s t x"
    using rehang_ctx [of ?s C e m] at(1) D by auto
  have ups: "e \<noteq> up C" "m \<noteq> up C" using up_around [of C] D at(1) m by auto
  have st: "same s t x" if "x \<noteq> m" "x \<noteq> up C" for x
    using keep [OF that(1)] t(3) [OF that(2)] by (rule same_trans)
  have e: "rbe_left t e = ptr l" "rbe_right t e = ptr r" "rbe_parent ?s e = up C"
    using st [of e] m(2) ups at by (auto simp: same_def)
  let ?l = "set_parent (ptr l) m t"
  let ?t = "if ptr r \<noteq> 0 then set_parent (ptr r) m ?l else ?l"
  have run: "supplant m e s = ret ?t"
    using copy t(1) e at(1) l0
    by (simp add: supplant_def RB_PARENT_def RB_LEFT_def RB_RIGHT_def put_set)
       (simp add: set_parent_def put_parent_def)
  have ne: "x \<noteq> up C" if "x \<in> set (elems l) \<union> set (elems r)" for x
    using D that rb_at_nonzero [OF at(6)] rb_at_nonzero [OF at(7)] up_around [of C] by auto
  have sub: "same s t x" if "x \<in> set (elems l) \<union> set (elems r)" for x
    by (rule st) (use m ne [OF that] that in auto)
  have subs: "rb_at t e l" "rb_at t e r"
    by (rule rb_at_cong [OF at(6)], use sub in blast) (rule rb_at_cong [OF at(7)], use sub in blast)
  have ptrs: "ptr l \<in> set (elems l)" "ptr r \<noteq> 0 \<Longrightarrow> ptr r \<in> set (elems r)"
    using ptr_in l0 by blast+
  have "rb_at ?t m l"
    by (rule reparent_links [OF subs(1)]) (use D l0 ptrs(2) in \<open>auto simp: same_links\<close>)
  moreover have "rb_at ?t m r"
    by (rule reparent_links [OF subs(2)]) (use D ptrs in \<open>auto simp: same_links\<close>)
  moreover have "ctx_at ?t C m"
    by (rule ctx_at_cong [OF t(2)]) (use D ptrs in \<open>auto simp: same_links\<close>)
  moreover have "rbe_left ?t m = ptr l" "rbe_right ?t m = ptr r" "rbe_parent ?t m = up C" "rbe_color ?t m = c"
    using t(3) [OF ups(2)] m ptrs by (auto simp: same_def set_parent_def)
  ultimately have "zip_at ?t C (Br l m c r)"
    using m D by (auto simp: zip_at_def)
  with run show ?thesis by blast
qed

section \<open>The way up\<close>

lemma augment_up_ends:
  "ctx_at s C p \<Longrightarrow> up C \<noteq> 0 \<Longrightarrow> augment_up (up C) s = ret ()"
proof (induction C arbitrary: p)
  case Nil
  then show ?case by simp
next
  case (Cons f C)
  obtain d a c t where f: "f = Frame d a c t" by (cases f)
  have at: "a \<noteq> 0" "rbe_parent s a = up C" "ctx_at s C a" using Cons.prems(1) by (simp_all add: f)
  show ?case
  proof (cases "up C = 0")
    case True
    then show ?thesis using at by (subst augment_up.simps) (simp add: f RB_PARENT_def)
  next
    case False
    then show ?thesis using at Cons.IH [OF at(3) False] by (subst augment_up.simps) (simp add: f RB_PARENT_def)
  qed
qed

end
