(* ===== verification/Rb_Color.thy ===== *)
theory Rb_Color
  imports Rb_Edit
begin

text \<open>
  The colors: what makes a tree red-black, what a place in one asks of the subtree there, and
  what \<open>name##_RB_INSERT_COLOR\<close> does to a red element that may sit beneath a red parent.
\<close>

section \<open>Red-black trees\<close>

fun color_of :: "rbt \<Rightarrow> rb_color" where
  "color_of Tip = RB_BLACK"
| "color_of (Br l a c r) = c"

text \<open>\<open>rb_ok n t\<close>: every path has \<open>n\<close> black elements, and no red element has a red child.\<close>

fun rb_ok :: "nat \<Rightarrow> rbt \<Rightarrow> bool" where
  "rb_ok n Tip \<longleftrightarrow> n = 0"
| "rb_ok 0 (Br l a RB_BLACK r) \<longleftrightarrow> False"
| "rb_ok (Suc n) (Br l a RB_BLACK r) \<longleftrightarrow> rb_ok n l \<and> rb_ok n r"
| "rb_ok n (Br l a RB_RED r) \<longleftrightarrow>
     color_of l = RB_BLACK \<and> color_of r = RB_BLACK \<and> rb_ok n l \<and> rb_ok n r"

definition balanced :: "rbt \<Rightarrow> bool" where
  "balanced t \<longleftrightarrow> color_of t = RB_BLACK \<and> (\<exists>n. rb_ok n t)"

text \<open>What is above the root counts as red, so that the root is black.\<close>

fun above_color :: "frame list \<Rightarrow> rb_color" where
  "above_color [] = RB_RED"
| "above_color (Frame d a c t # C) = c"

text \<open>\<open>ctx_ok C n\<close>: with \<open>n\<close> black elements on every path of the subtree, the whole is red-black.\<close>

fun ctx_ok :: "frame list \<Rightarrow> nat \<Rightarrow> bool" where
  "ctx_ok [] n = True"
| "ctx_ok (Frame d a RB_BLACK t # C) n \<longleftrightarrow> rb_ok n t \<and> ctx_ok C (Suc n)"
| "ctx_ok (Frame d a RB_RED t # C) n \<longleftrightarrow>
     rb_ok n t \<and> color_of t = RB_BLACK \<and> above_color C = RB_BLACK \<and> ctx_ok C n"

lemma rb_ok_br [simp]:
  "rb_ok n (br d x a RB_RED y) \<longleftrightarrow>
     color_of x = RB_BLACK \<and> color_of y = RB_BLACK \<and> rb_ok n x \<and> rb_ok n y"
  "rb_ok (Suc n) (br d x a RB_BLACK y) \<longleftrightarrow> rb_ok n x \<and> rb_ok n y"
  "rb_ok 0 (br d x a RB_BLACK y) \<longleftrightarrow> False" "color_of (br d x a c y) = c"
  by (auto simp: br_def)

lemma rb_ok_black: "rb_ok n (br d x a RB_BLACK y) \<Longrightarrow> (\<And>m. n = Suc m \<Longrightarrow> rb_ok m x \<Longrightarrow> rb_ok m y \<Longrightarrow> thesis) \<Longrightarrow> thesis"
  by (cases n) auto

lemma rb_ok_Suc: "rb_ok (Suc n) t \<Longrightarrow> t \<noteq> Tip"
  by (cases t) auto

lemma color_red: "color_of t = RB_RED \<Longrightarrow> (\<And>x a y. t = br d x a RB_RED y \<Longrightarrow> thesis) \<Longrightarrow> thesis"
  by (cases t; cases d) (auto simp: br_def)

lemma not_red [simp]: "c \<noteq> RB_RED \<longleftrightarrow> c = RB_BLACK" "c \<noteq> RB_BLACK \<longleftrightarrow> c = RB_RED"
  by (cases c; simp)+

lemma plug_ok:
  "ctx_ok C n \<Longrightarrow> rb_ok n t \<Longrightarrow> above_color C = RB_RED \<longrightarrow> color_of t = RB_BLACK \<Longrightarrow> balanced (plug C t)"
proof (induction C arbitrary: n t)
  case Nil
  then show ?case by (auto simp: balanced_def)
next
  case (Cons f C)
  obtain d a c u where f: "f = Frame d a c u" by (cases f)
  show ?case
  proof (cases c)
    case RB_BLACK
    then show ?thesis using Cons.prems by (simp add: f) (rule Cons.IH [of "Suc n"]; simp)
  next
    case RB_RED
    then show ?thesis using Cons.prems by (simp add: f) (rule Cons.IH [of n]; simp)
  qed
qed

lemma plug_okD:
  "balanced (plug C t) \<Longrightarrow> \<exists>n. ctx_ok C n \<and> rb_ok n t \<and> (above_color C = RB_RED \<longrightarrow> color_of t = RB_BLACK)"
proof (induction C arbitrary: t)
  case Nil
  then show ?case by (auto simp: balanced_def)
next
  case (Cons f C)
  obtain d a c u where f: "f = Frame d a c u" by (cases f)
  obtain n where n: "ctx_ok C n" "rb_ok n (br d t a c u)" "above_color C = RB_RED \<longrightarrow> c = RB_BLACK"
    using Cons.IH [of "br d t a c u"] Cons.prems by (auto simp: f)
  show ?case
  proof (cases c)
    case RB_BLACK
    from n(2) [unfolded this] n(1) obtain m where "n = Suc m" "rb_ok m t" "rb_ok m u"
      by (rule_tac rb_ok_black)
    then show ?thesis using n RB_BLACK by (auto simp: f)
  next
    case RB_RED
    then show ?thesis using n by (auto simp: f)
  qed
qed

section \<open>Colors at a place and beneath\<close>

lemma br_flip: "br d x a c y = br (\<not> d) y a c x"
  by (simp add: br_def)

lemma put_color_child:
  assumes z: "zip_at s C (br d (br d' x b cb y) a ca w)"
  shows "\<exists>s'. put_color b c s = ret s' \<and> zip_at s' C (br d (br d' x b c y) a ca w)"
  using put_color_zip [of s "Frame d a ca w # C" d' x b cb y] z by (simp add: zip_frame)

lemma set_blackred_zip:
  assumes z: "zip_at s C (br d (br d' x b cb y) a ca w)"
  shows "\<exists>s'. RB_SET_BLACKRED b a s = ret s' \<and> zip_at s' C (br d (br d' x b RB_BLACK y) a RB_RED w)"
proof -
  obtain s1 where s1: "put_color b RB_BLACK s = ret s1" "zip_at s1 C (br d (br d' x b RB_BLACK y) a ca w)"
    using put_color_child [OF z] by blast
  obtain s2 where "put_color a RB_RED s1 = ret s2" "zip_at s2 C (br d (br d' x b RB_BLACK y) a RB_RED w)"
    using put_color_zip [OF s1(2)] by blast
  with s1(1) show ?thesis by (simp add: RB_SET_BLACKRED_def)
qed

lemma child_reads:
  assumes "zip_at s C (br d x a c y)"
  shows "is_red (ptr x) s = ret (color_of x = RB_RED)" "is_black (ptr x) s = ret (color_of x = RB_BLACK)"
    "x \<noteq> Tip \<Longrightarrow> RB_COLOR (ptr x) s = ret (color_of x)"
  using assms by (cases x; auto simp: zip_at_def is_red_def is_black_def RB_COLOR_def)+

lemma zip_flip: "zip_at s C (br d x a c y) \<Longrightarrow> zip_at s C (br (\<not> d) y a c x)"
  by (subst br_flip) simp

section \<open>\<open>name##_RB_INSERT_COLOR\<close>\<close>

definition insert_side :: "bool \<Rightarrow> nat \<Rightarrow> nat \<Rightarrow> nat \<Rightarrow> rb \<Rightarrow> (nat \<times> rb) run" where
  "insert_side d = (if d then insert_left else insert_right)"

lemma insert_side_code:
  "insert_side d elm parent gparent s =
     andthen (get (\<not> d) gparent s) (\<lambda>tmp.
     andthen (is_red tmp s) (\<lambda>red.
     if red then
       andthen (put_color tmp RB_BLACK s) (\<lambda>s.
       andthen (RB_SET_BLACKRED parent gparent s) (\<lambda>s.
       ret (gparent, s)))
     else
       andthen (get (\<not> d) parent s) (\<lambda>x.
       andthen (if x = elm
                then andthen (rb_rotate d parent s) (\<lambda>(tmp, s). ret (elm, parent, s))
                else ret (parent, elm, s)) (\<lambda>(parent, elm, s).
       andthen (RB_SET_BLACKRED parent gparent s) (\<lambda>s.
       andthen (rb_rotate (\<not> d) gparent s) (\<lambda>(tmp, s).
       ret (elm, s)))))))"
  by (cases d) (simp_all add: insert_side_def insert_left_def insert_right_def get_def rb_rotate_def cong: if_cong)

text \<open>The loop goes on with a red \<open>elm\<close>, nearer to the root.\<close>

definition reddens :: "nat list \<Rightarrow> nat \<Rightarrow> (nat \<times> rb) run \<Rightarrow> bool" where
  "reddens xs n r \<longleftrightarrow> (\<exists>s C x e y m. r = ret (e, s) \<and> zip_at s C (Br x e RB_RED y) \<and>
     rb_ok m (Br x e RB_RED y) \<and> ctx_ok C m \<and> elems (plug C (Br x e RB_RED y)) = xs \<and> length C < n)"

lemma reddensI:
  assumes "r = ret (e, s)" and "zip_at s C (br d x e RB_RED y)" and "rb_ok m (br d x e RB_RED y)"
    and "ctx_ok C m" and "lowers C @ elems (br d x e RB_RED y) @ uppers C = xs" and "length C < n"
  shows "reddens xs n r"
  using assms unfolding reddens_def by (cases d) force+

lemma insert_rotates:
  assumes z: "zip_at s C (br d (br d e p RB_RED y) g RB_BLACK u)"
  shows "\<exists>s'. andthen (RB_SET_BLACKRED p g s) (\<lambda>s. andthen (rb_rotate (\<not> d) g s) (\<lambda>(tmp, s). ret (x, s))) = ret (x, s') \<and>
    zip_at s' C (br d e p RB_BLACK (br d y g RB_RED u))"
proof -
  obtain s1 where s1: "RB_SET_BLACKRED p g s = ret s1" "zip_at s1 C (br d (br d e p RB_BLACK y) g RB_RED u)"
    using set_blackred_zip [OF z] by blast
  have "zip_at s1 C (br (\<not> d) u g RB_RED (br (\<not> d) y p RB_BLACK e))"
    using s1(2) by (simp add: br_def split: if_splits)
  then obtain s2 where s2: "rb_rotate (\<not> d) g s1 = ret (p, s2)"
      "zip_at s2 C (br (\<not> d) (br (\<not> d) u g RB_RED y) p RB_BLACK e)"
    using rotate_zip by blast
  then have "zip_at s2 C (br d e p RB_BLACK (br d y g RB_RED u))"
    by (simp add: br_def split: if_splits)
  with s1(1) s2(1) show ?thesis by simp
qed

lemma insert_turn:
  assumes z: "zip_at s C (br d (br d' E p RB_RED y) g RB_BLACK u)" and E: "E = br b l e RB_RED r"
    and ok: "rb_ok n E" "ctx_ok (Frame d' p RB_RED y # Frame d g RB_BLACK u # C) n"
    and xs: "elems (plug C (br d (br d' E p RB_RED y) g RB_BLACK u)) = xs"
  shows "reddens xs (Suc (Suc (length C))) (insert_side d e p g s)"
proof -
  let ?P = "br d' E p RB_RED y"
  note reads = zip_reads [OF z]
  have zu: "zip_at s C (br (\<not> d) u g RB_BLACK ?P)" using zip_flip [OF z] .
  note ru = child_reads [OF zu]
  have zp: "zip_at s (Frame d g RB_BLACK u # C) (br d' E p RB_RED y)" using z by (simp add: zip_frame)
  note rp = zip_reads [OF zp]
  have ok': "rb_ok n y" "color_of y = RB_BLACK" "rb_ok n u" "ctx_ok C (Suc n)" using ok(2) by simp_all
  show ?thesis
  proof (cases "color_of u = RB_RED")
    case True
    then obtain u1 a u2 where u: "u = br True u1 a RB_RED u2" by (rule color_red)
    obtain s1 where s1: "put_color a RB_BLACK s = ret s1"
        "zip_at s1 C (br (\<not> d) (br True u1 a RB_BLACK u2) g RB_BLACK ?P)"
      using put_color_child [OF zu [unfolded u]] by blast
    obtain s2 where s2: "RB_SET_BLACKRED p g s1 = ret s2"
        "zip_at s2 C (br d (br d' E p RB_BLACK y) g RB_RED (br True u1 a RB_BLACK u2))"
      using set_blackred_zip [OF zip_flip [OF s1(2), unfolded not_not]] by blast
    have run: "insert_side d e p g s = ret (g, s2)"
      using reads(3) ru(1) True s1(1) s2(1) u by (simp add: insert_side_code)
    show ?thesis
      by (rule reddensI [OF run s2(2), of "Suc n"])
         (use ok ok' xs u E in \<open>auto simp: br_def\<close>)
  next
    case False
    show ?thesis
    proof (cases "d' = d")
      case True
      have "distinct (elems E @ elems y)" using zp by (cases d') (auto simp: zip_at_def)
      moreover have "e \<noteq> 0"
        using zip_nonzero [of s "Frame d' p RB_RED y # Frame d g RB_BLACK u # C" E] z E by (simp add: zip_frame)
      ultimately have "ptr y \<noteq> e" using E ptr_in [of y] by auto
      moreover obtain s' where s': "andthen (RB_SET_BLACKRED p g s)
          (\<lambda>s. andthen (rb_rotate (\<not> d) g s) (\<lambda>(tmp, s). ret (e, s))) = ret (e, s')"
          "zip_at s' C (br d E p RB_BLACK (br d y g RB_RED u))"
        using insert_rotates [of s C d E p y g u e] z True by auto
      ultimately have run: "insert_side d e p g s = ret (e, s')"
        using reads(3) ru(1) False rp(3) True by (simp add: insert_side_code)
      have "zip_at s' (Frame d p RB_BLACK (br d y g RB_RED u) # C) (br b l e RB_RED r)"
        using s'(2) E by (simp add: zip_frame)
      then show ?thesis
        by (rule reddensI [OF run, of _ _ _ _ n])
           (use ok ok' xs E True False in \<open>auto simp: br_def\<close>)
    next
      case inner: False
      then have d': "d' = (\<not> d)" by auto
      obtain l1 r1 where E': "E = br d l1 e RB_RED r1"
        using E by (cases "b = d") (auto simp: br_def split: if_splits)
      have "zip_at s (Frame d g RB_BLACK u # C) (br d y p RB_RED (br d l1 e RB_RED r1))"
        using zp d' E' by (simp add: br_def split: if_splits)
      then obtain s1 where s1: "rb_rotate d p s = ret (e, s1)"
          "zip_at s1 (Frame d g RB_BLACK u # C) (br d (br d y p RB_RED l1) e RB_RED r1)"
        using rotate_zip by blast
      obtain s' where s': "andthen (RB_SET_BLACKRED e g s1)
          (\<lambda>s. andthen (rb_rotate (\<not> d) g s) (\<lambda>(tmp, s). ret (p, s))) = ret (p, s')"
          "zip_at s' C (br d (br d y p RB_RED l1) e RB_BLACK (br d r1 g RB_RED u))"
        using insert_rotates [of s1 C d "br d y p RB_RED l1" e r1 g u p] s1(2) by (auto simp: zip_frame)
      have "get (\<not> d) p s = ret e" using rp(2) d' E by simp
      then have run: "insert_side d e p g s = ret (p, s')"
        using reads(3) ru(1) False s1(1) s'(1) by (simp add: insert_side_code)
      have "zip_at s' (Frame d e RB_BLACK (br d r1 g RB_RED u) # C) (br d y p RB_RED l1)"
        using s'(2) by (simp add: zip_frame)
      then show ?thesis
        by (rule reddensI [OF run, of _ _ _ _ n])
           (use ok ok' xs E' d' False in \<open>auto simp: br_def\<close>)
    qed
  qed
qed

text \<open>The left child of \<open>g\<close> is \<open>p\<close> exactly when \<open>p\<close> hangs on the left.\<close>

lemma zip_side:
  assumes z: "zip_at s C (br d t g c u)" and "t \<noteq> Tip"
  shows "RB_LEFT g s = ret (ptr (if d then t else u))" "ptr u \<noteq> ptr t"
proof -
  show "RB_LEFT g s = ret (ptr (if d then t else u))"
    using zip_reads(2,3) [OF z] by (cases d) (simp_all add: get_def)
  have "ptr t \<noteq> 0" using zip_nonzero [of s "Frame d g c u # C" t] z assms(2) by (simp add: zip_frame)
  moreover have "set (elems t) \<inter> set (elems u) = {}" using z by (cases d) (auto simp: zip_at_def)
  ultimately show "ptr u \<noteq> ptr t" using ptr_in [of u] ptr_in [of t] by auto
qed

lemma put_root_black:
  assumes z: "zip_at s [] T" and ok: "rb_ok n T" and T: "T \<noteq> Tip" "color_of T = RB_BLACK"
  shows "\<exists>s'. put_color (rbh_root s) RB_BLACK s = ret s' \<and> zip_at s' [] T"
proof -
  obtain l a r where "T = br True l a RB_BLACK r" using T by (cases T) auto
  then show ?thesis using put_color_zip [of s "[]" True l a RB_BLACK r RB_BLACK] z zip_root [OF z] by simp
qed

definition rebalances :: "nat list \<Rightarrow> rb run \<Rightarrow> bool" where
  "rebalances xs r \<longleftrightarrow> (\<exists>s T. r = ret s \<and> zip_at s [] T \<and> balanced T \<and> elems T = xs)"

lemma insert_color_ends:
  assumes "zip_at s C (Br l e RB_RED r)" and "rb_ok n (Br l e RB_RED r)" and "ctx_ok C n"
  shows "rebalances (elems (plug C (Br l e RB_RED r))) (RB_INSERT_COLOR e s)"
  using assms
proof (induction "length C" arbitrary: s C l e r n rule: less_induct)
  case less
  let ?E = "Br l e RB_RED r"
  note z = less.prems(1) and ok = less.prems(2,3)
  have par: "RB_PARENT e s = ret (up C)" using zip_reads(4) [of s C True l e RB_RED r] z by simp
  show ?case
  proof (cases C)
    case Nil
    have "rbh_root s = e" using zip_root [of s ?E] z Nil by simp
    then obtain s' where s': "put_color (rbh_root s) RB_BLACK s = ret s'" "zip_at s' [] (Br l e RB_BLACK r)"
      using put_color_zip [of s "[]" True l e RB_RED r RB_BLACK] z Nil by auto
    have "balanced (Br l e RB_BLACK r)" using ok(1) by (auto simp: balanced_def intro: exI [of _ "Suc n"])
    then show ?thesis
      using s' par Nil by (subst RB_INSERT_COLOR.simps) (force simp: rebalances_def is_red_def)
  next
    case (Cons f D)
    obtain d' p c y where f: "f = Frame d' p c y" by (cases f)
    have zp: "zip_at s D (br d' ?E p c y)" using z Cons f by (simp add: zip_frame)
    have red: "is_red p s = ret (c = RB_RED)"
      using zip_reads(1,5) [OF zp] by (simp add: is_red_def)
    show ?thesis
    proof (cases c)
      case RB_BLACK
      have bal: "balanced (plug C ?E)"
        by (rule plug_ok [OF ok(2,1)]) (simp add: Cons f RB_BLACK)
      then obtain m where m: "rb_ok m (plug C ?E)" "color_of (plug C ?E) = RB_BLACK" by (auto simp: balanced_def)
      have "elems (plug C ?E) \<noteq> []" by simp
      then have "plug C ?E \<noteq> Tip" by (metis elems.simps(1))
      then obtain s' where s': "put_color (rbh_root s) RB_BLACK s = ret s'" "zip_at s' [] (plug C ?E)"
        using put_root_black [OF _ m(1) _ m(2)] z zip_plug by blast
      then show ?thesis
        using par red RB_BLACK Cons f bal by (subst RB_INSERT_COLOR.simps) (auto simp: rebalances_def)
    next
      case RB_RED
      have "above_color D = RB_BLACK" using ok(2) by (simp add: Cons f RB_RED)
      then obtain d g u C' where D: "D = Frame d g RB_BLACK u # C'"
        by (cases D rule: above_color.cases) auto
      have zg: "zip_at s C' (br d (br d' ?E p RB_RED y) g RB_BLACK u)"
        using zp D RB_RED by (simp add: zip_frame)
      have gp: "RB_PARENT p s = ret g" using zip_reads(4) [OF zp] D by simp
      have left: "RB_LEFT g s = ret (if d then p else ptr u)" "ptr u \<noteq> p"
        using zip_side [OF zg] by simp_all
      have "reddens (elems (plug C ?E)) (Suc (Suc (length C'))) (insert_side d e p g s)"
        by (rule insert_turn [where b = True and l = l and r = r and n = n, OF zg])
           (use ok in \<open>simp_all add: Cons f D RB_RED\<close>)
      then obtain s1 C1 x1 e1 y1 m where s1: "insert_side d e p g s = ret (e1, s1)"
          "zip_at s1 C1 (Br x1 e1 RB_RED y1)" "rb_ok m (Br x1 e1 RB_RED y1)" "ctx_ok C1 m"
          "elems (plug C1 (Br x1 e1 RB_RED y1)) = elems (plug C ?E)" "length C1 < length C"
        unfolding reddens_def by (auto simp: Cons f D)
      have "rebalances (elems (plug C ?E)) (RB_INSERT_COLOR e1 s1)"
        using less.hyps [OF s1(6,2,3,4)] s1(5) by simp
      moreover have "RB_INSERT_COLOR e s = RB_INSERT_COLOR e1 s1"
        using par red RB_RED Cons f gp left s1(1)
        by (subst RB_INSERT_COLOR.simps) (cases d; simp add: insert_side_def)
      ultimately show ?thesis by simp
    qed
  qed
qed

end
