(* ===== verification/Rb_Remove.thy ===== *)
theory Rb_Remove
  imports Rb_Color
begin

text \<open>
  What \<open>name##_RB_REMOVE_COLOR\<close> does to a place that has one black element too few on its paths.
\<close>

section \<open>The two halves as one\<close>

definition remove_side :: "bool \<Rightarrow> nat \<Rightarrow> rb \<Rightarrow> (bool \<times> nat \<times> nat \<times> rb) run" where
  "remove_side d = (if d then remove_left else remove_right)"

text \<open>The rest of a half once the sibling \<open>tmp\<close> is black; its last steps separately.\<close>

definition remove_last :: "bool \<Rightarrow> nat \<Rightarrow> nat \<Rightarrow> rb \<Rightarrow> (bool \<times> nat \<times> nat \<times> rb) run" where
  "remove_last d parent tmp s =
     andthen (RB_COLOR parent s) (\<lambda>c.
     andthen (put_color tmp c s) (\<lambda>s.
     andthen (put_color parent RB_BLACK s) (\<lambda>s.
     andthen (get (\<not> d) tmp s) (\<lambda>x.
     andthen (if x \<noteq> 0 then put_color x RB_BLACK s else ret s) (\<lambda>s.
     andthen (rb_rotate d parent s) (\<lambda>(tmp, s).
     ret (False, parent, rbh_root s, s)))))))"

definition remove_rest :: "bool \<Rightarrow> nat \<Rightarrow> nat \<Rightarrow> rb \<Rightarrow> (bool \<times> nat \<times> nat \<times> rb) run" where
  "remove_rest d parent tmp s =
     andthen (get d tmp s) (\<lambda>near. andthen (is_black near s) (\<lambda>bn.
     andthen (get (\<not> d) tmp s) (\<lambda>far. andthen (is_black far s) (\<lambda>bf.
     if bn \<and> bf then
       andthen (put_color tmp RB_RED s) (\<lambda>s.
       andthen (RB_PARENT parent s) (\<lambda>gparent.
       ret (True, gparent, parent, s)))
     else
       andthen (if bf then
                  andthen (get d tmp s) (\<lambda>near.
                  andthen (if near \<noteq> 0 then put_color near RB_BLACK s else ret s) (\<lambda>s.
                  andthen (put_color tmp RB_RED s) (\<lambda>s.
                  andthen (rb_rotate (\<not> d) tmp s) (\<lambda>(near, s).
                  andthen (get (\<not> d) parent s) (\<lambda>tmp. ret (tmp, s))))))
                else ret (tmp, s)) (\<lambda>(tmp, s). remove_last d parent tmp s)))))"

lemma is_black_ret: "is_black e s = ret (e = 0 \<or> rbe_color s e = RB_BLACK)"
  by (simp add: is_black_def RB_COLOR_def)

lemma remove_rest_right:
  "remove_rest False parent tmp s =
     andthen (RB_LEFT tmp s) (\<lambda>l. andthen (is_black l s) (\<lambda>bl.
     andthen (RB_RIGHT tmp s) (\<lambda>r. andthen (is_black r s) (\<lambda>br.
     if bl \<and> br then
       andthen (put_color tmp RB_RED s) (\<lambda>s.
       andthen (RB_PARENT parent s) (\<lambda>gparent.
       ret (True, gparent, parent, s)))
     else
       andthen (if bl then
                  andthen (RB_RIGHT tmp s) (\<lambda>near.
                  andthen (if near \<noteq> 0 then put_color near RB_BLACK s else ret s) (\<lambda>s.
                  andthen (put_color tmp RB_RED s) (\<lambda>s.
                  andthen (RB_ROTATE_LEFT tmp s) (\<lambda>(near, s).
                  andthen (RB_LEFT parent s) (\<lambda>tmp. ret (tmp, s))))))
                else ret (tmp, s)) (\<lambda>(tmp, s). remove_last False parent tmp s)))))"
proof (cases "tmp = 0")
  case True
  then show ?thesis by (simp add: remove_rest_def get_def RB_LEFT_def RB_RIGHT_def)
next
  case False
  then have "RB_LEFT tmp s = ret (rbe_left s tmp)" "RB_RIGHT tmp s = ret (rbe_right s tmp)"
    by (simp_all add: RB_LEFT_def RB_RIGHT_def)
  then show ?thesis
    by (simp only: remove_rest_def get_def rb_rotate_def is_black_ret andthen_simps if_False if_True
        not_False_eq_True conj_commute)
qed

lemma remove_side_code:
  "remove_side d parent s =
     andthen (get (\<not> d) parent s) (\<lambda>tmp.
     andthen (RB_COLOR tmp s) (\<lambda>c.
     andthen (if c = RB_RED then
                andthen (RB_SET_BLACKRED tmp parent s) (\<lambda>s.
                andthen (rb_rotate d parent s) (\<lambda>(tmp, s).
                andthen (get (\<not> d) parent s) (\<lambda>tmp. ret (tmp, s))))
              else ret (tmp, s)) (\<lambda>(tmp, s). remove_rest d parent tmp s)))"
proof (cases d)
  case True
  then show ?thesis
    by (simp only: remove_side_def remove_left_def remove_rest_def remove_last_def get_def rb_rotate_def
        if_True if_False not_True_eq_False)
next
  case False
  then show ?thesis
    by (simp only: remove_side_def remove_right_def remove_rest_right remove_last_def get_def rb_rotate_def
        if_True if_False not_False_eq_True)
qed

section \<open>One black element too few\<close>

text \<open>\<open>near n t\<close>: as \<open>rb_ok n t\<close>, but a red root may have red children.\<close>

fun near :: "nat \<Rightarrow> rbt \<Rightarrow> bool" where
  "near n (Br l a RB_RED r) \<longleftrightarrow> rb_ok n l \<and> rb_ok n r"
| "near n t \<longleftrightarrow> rb_ok n t"

lemma near_br [simp]: "near n (br d x a c y) \<longleftrightarrow> (if c = RB_RED then rb_ok n x \<and> rb_ok n y else rb_ok n (br d x a c y))"
  by (cases c) (auto simp: br_def)

lemma near_black: "color_of t = RB_BLACK \<Longrightarrow> near n t = rb_ok n t"
  by (cases t) auto

lemma rb_ok_near: "rb_ok n t \<Longrightarrow> near n t"
  by (induction n t rule: near.induct) auto

text \<open>How far the loop still has to go.\<close>

definition steps_left :: "frame list \<Rightarrow> rbt \<Rightarrow> nat" where
  "steps_left C t = 2 * length C + (if color_of t = RB_RED then 0 else 1)"

text \<open>Either the place has moved towards the root, or the tree is red-black again.\<close>

definition sinks :: "nat list \<Rightarrow> nat \<Rightarrow> (bool \<times> nat \<times> nat \<times> rb) run \<Rightarrow> bool" where
  "sinks xs n r \<longleftrightarrow>
     (\<exists>s C t m. r = ret (True, up C, ptr t, s) \<and> zip_at s C t \<and> near m t \<and> ctx_ok C (Suc m) \<and>
        elems (plug C t) = xs \<and> steps_left C t < n) \<or>
     (\<exists>s q T. r = ret (False, q, ptr T, s) \<and> T \<noteq> Tip \<and> zip_at s [] T \<and> balanced T \<and> elems T = xs)"

definition heights :: "frame list \<Rightarrow> rb_color \<Rightarrow> nat \<Rightarrow> bool" where
  "heights C c n \<longleftrightarrow> ctx_ok C (if c = RB_BLACK then Suc (Suc n) else Suc n) \<and>
     (c = RB_RED \<longrightarrow> above_color C = RB_BLACK)"

lemma remove_last_turn:
  assumes z: "zip_at s C (br d t p c (br d a w RB_BLACK (br d' x y RB_RED v)))"
    and ok: "rb_ok n t" "rb_ok n a" "rb_ok n x" "rb_ok n v" "heights C c n"
    and xs: "elems (plug C (br d t p c (br d a w RB_BLACK (br d' x y RB_RED v)))) = xs"
  shows "sinks xs k (remove_last d p w s)"
proof -
  have b: "RB_COLOR p s = ret c" using zip_reads(5) [OF z] .
  have "zip_at s C (br (\<not> d) (br d a w RB_BLACK (br d' x y RB_RED v)) p c t)" using zip_flip [OF z] .
  then obtain s1 where s1: "put_color w c s = ret s1" "zip_at s1 C (br (\<not> d) (br d a w c (br d' x y RB_RED v)) p c t)"
    using put_color_child by blast
  then obtain s2 where s2: "put_color p RB_BLACK s1 = ret s2"
      "zip_at s2 C (br (\<not> d) (br d a w c (br d' x y RB_RED v)) p RB_BLACK t)"
    using put_color_zip by blast
  then have z2: "zip_at s2 (Frame (\<not> d) p RB_BLACK t # C) (br (\<not> d) (br d' x y RB_RED v) w c a)"
    by (subst zip_frame, subst br_flip [of "\<not> d"]) (simp add: br_def split: if_splits)
  have y: "get (\<not> d) w s2 = ret y" "y \<noteq> 0"
    using zip_reads(2) [OF z2] zip_nonzero [of s2 "Frame (\<not> d) w c a # Frame (\<not> d) p RB_BLACK t # C" "br d' x y RB_RED v"] z2
    by (simp_all add: zip_frame)
  obtain s3 where s3: "put_color y RB_BLACK s2 = ret s3"
      "zip_at s3 (Frame (\<not> d) p RB_BLACK t # C) (br (\<not> d) (br d' x y RB_BLACK v) w c a)"
    using put_color_child [OF z2] by blast
  then have "zip_at s3 C (br d t p RB_BLACK (br d a w c (br d' x y RB_BLACK v)))"
    by (simp add: zip_frame br_def split: if_splits)
  then obtain s4 where s4: "rb_rotate d p s3 = ret (w, s4)"
      "zip_at s4 C (br d (br d t p RB_BLACK a) w c (br d' x y RB_BLACK v))"
    using rotate_zip by blast
  let ?u = "br d (br d t p RB_BLACK a) w c (br d' x y RB_BLACK v)"
  let ?T = "plug C ?u"
  have "zip_at s4 [] ?T" using s4(2) zip_plug by blast
  moreover have "balanced ?T"
    using ok unfolding heights_def by (cases c) (auto intro!: plug_ok)
  moreover have T: "elems ?T = xs" using xs by (auto simp: br_def)
  moreover have "?T \<noteq> Tip"
  proof
    assume "?T = Tip"
    then have "set (elems ?T) = {}" by simp
    then show False by (simp add: br_def split: if_splits)
  qed
  moreover have "remove_last d p w s = ret (False, p, rbh_root s4, s4)"
    using b s1(1) s2(1) y s3(1) s4(1) by (simp add: remove_last_def)
  moreover have "rbh_root s4 = ptr ?T" using zip_root [of s4 ?T] s4(2) zip_plug by blast
  ultimately show ?thesis unfolding sinks_def by auto
qed

lemma remove_rest_turn:
  assumes z: "zip_at s C (br d t p c (br d a w RB_BLACK b))" and t: "color_of t = RB_BLACK"
    and ok: "rb_ok n t" "rb_ok n a" "rb_ok n b" "heights C c n"
    and xs: "elems (plug C (br d t p c (br d a w RB_BLACK b))) = xs"
  shows "sinks xs (2 * length C + (if c = RB_RED then 1 else 2)) (remove_rest d p w s)"
proof -
  let ?k = "2 * length C + (if c = RB_RED then 1 else 2)"
  have zf: "zip_at s C (br (\<not> d) (br d a w RB_BLACK b) p c t)" using zip_flip [OF z] .
  then have zw: "zip_at s (Frame (\<not> d) p c t # C) (br d a w RB_BLACK b)" by (simp add: zip_frame)
  note rw = zip_reads [OF zw] and ra = child_reads [OF zw] and rb = child_reads [OF zip_flip [OF zw]]
  show ?thesis
  proof (cases "color_of b = RB_BLACK")
    case far: True
    show ?thesis
    proof (cases "color_of a = RB_BLACK")
      case True
      obtain s1 where s1: "put_color w RB_RED s = ret s1" "zip_at s1 C (br (\<not> d) (br d a w RB_RED b) p c t)"
        using put_color_child [OF zf] by blast
      have z1: "zip_at s1 C (br d t p c (br d a w RB_RED b))"
        using s1(2) by (subst br_flip)
      let ?t = "br d t p c (br d a w RB_RED b)"
      have run: "remove_rest d p w s = ret (True, up C, ptr ?t, s1)"
        using rw(2,3) ra(2) rb(2) True far s1(1) zip_reads(4) [OF z1] by (simp add: remove_rest_def)
      have "near (if c = RB_BLACK then Suc n else n) ?t"
        using ok t True far by (cases c) auto
      moreover have "ctx_ok C (Suc (if c = RB_BLACK then Suc n else n))"
        using ok(4) by (cases c) (auto simp: heights_def)
      moreover have "elems (plug C ?t) = xs" using xs by (auto simp: br_def)
      moreover have "steps_left C ?t < ?k" by (cases c) (auto simp: steps_left_def)
      ultimately show ?thesis using run z1 unfolding sinks_def by blast
    next
      case False
      then have "color_of a = RB_RED" by simp
      then obtain a1 x a2 where a: "a = br d a1 x RB_RED a2" by (rule color_red)
      have za: "zip_at s (Frame d w RB_BLACK b # Frame (\<not> d) p c t # C) (br d a1 x RB_RED a2)"
        using zw a by (simp add: zip_frame)
      have x: "x \<noteq> 0" using zip_reads(1) [OF za] .
      obtain s1 where s1: "put_color x RB_BLACK s = ret s1"
          "zip_at s1 (Frame (\<not> d) p c t # C) (br d (br d a1 x RB_BLACK a2) w RB_BLACK b)"
        using put_color_child [OF zw [unfolded a]] by blast
      obtain s2 where s2: "put_color w RB_RED s1 = ret s2"
          "zip_at s2 (Frame (\<not> d) p c t # C) (br d (br d a1 x RB_BLACK a2) w RB_RED b)"
        using put_color_zip [OF s1(2)] by blast
      then have "zip_at s2 (Frame (\<not> d) p c t # C) (br (\<not> d) b w RB_RED (br (\<not> d) a2 x RB_BLACK a1))"
        by (simp add: br_def split: if_splits)
      then obtain s3 where s3: "rb_rotate (\<not> d) w s2 = ret (x, s3)"
          "zip_at s3 (Frame (\<not> d) p c t # C) (br (\<not> d) (br (\<not> d) b w RB_RED a2) x RB_BLACK a1)"
        using rotate_zip by blast
      then have z3: "zip_at s3 C (br d t p c (br d a1 x RB_BLACK (br d a2 w RB_RED b)))"
        by (simp add: zip_frame br_def split: if_splits)
      have "get (\<not> d) p s3 = ret x" using zip_reads(3) [OF z3] by simp
      then have run: "remove_rest d p w s = remove_last d p x s3"
        using rw(2,3) ra(2) rb(2) False far s1(1) s2(1) s3(1) x a by (simp add: remove_rest_def)
      show ?thesis
        unfolding run by (rule remove_last_turn [OF z3]) (use ok xs a in \<open>auto simp: elems_br\<close>)
    qed
  next
    case False
    then have "color_of b = RB_RED" by simp
    then obtain b1 y b2 where b: "b = br d b1 y RB_RED b2" by (rule color_red)
    have run: "remove_rest d p w s = remove_last d p w s"
      using rw(2,3) ra(2) rb(2) False by (simp add: remove_rest_def)
    show ?thesis
      unfolding run by (rule remove_last_turn [OF z [unfolded b]]) (use ok xs b in \<open>auto simp: elems_br\<close>)
  qed
qed

lemma remove_turn:
  assumes z: "zip_at s C (br d t p c v)" and t: "color_of t = RB_BLACK"
    and ok: "rb_ok n t" "ctx_ok (Frame d p c v # C) (Suc n)" and xs: "elems (plug C (br d t p c v)) = xs"
  shows "sinks xs (2 * length C + 3) (remove_side d p s)"
proof -
  have v: "rb_ok (Suc n) v" using ok(2) by (cases c) simp_all
  then obtain a w cv b where vw: "v = br d a w cv b" using br_cases rb_ok_Suc by blast
  have zf: "zip_at s C (br (\<not> d) v p c t)" using zip_flip [OF z] .
  have rv: "get (\<not> d) p s = ret w" "RB_COLOR w s = ret cv"
    using zip_reads(3) [OF z] child_reads(3) [OF zf] vw by simp_all
  have more: "sinks xs k r \<Longrightarrow> k \<le> l \<Longrightarrow> sinks xs l r" for k l r
    unfolding sinks_def using order_less_le_trans [of _ k l] by blast
  show ?thesis
  proof (cases cv)
    case RB_BLACK
    have run: "remove_side d p s = remove_rest d p w s" using rv RB_BLACK by (simp add: remove_side_code)
    have "heights C c n" using ok(2) by (cases c) (simp_all add: heights_def)
    then have "sinks xs (2 * length C + (if c = RB_RED then 1 else 2)) (remove_rest d p w s)"
      using z t ok(1) v vw xs RB_BLACK by (intro remove_rest_turn [where t = t and a = a and b = b and n = n]) simp_all
    then show ?thesis unfolding run by (rule more) simp
  next
    case RB_RED
    have c: "c = RB_BLACK" and ab: "color_of a = RB_BLACK" "rb_ok (Suc n) a" "rb_ok (Suc n) b"
      using ok(2) v by (cases c; simp add: vw RB_RED)+
    obtain s1 where s1: "RB_SET_BLACKRED w p s = ret s1"
        "zip_at s1 C (br (\<not> d) (br d a w RB_BLACK b) p RB_RED t)"
      using set_blackred_zip [OF zf [unfolded vw]] by blast
    then have "zip_at s1 C (br d t p RB_RED (br d a w RB_BLACK b))" by (subst br_flip)
    then obtain s2 where s2: "rb_rotate d p s1 = ret (w, s2)" "zip_at s2 C (br d (br d t p RB_RED a) w RB_BLACK b)"
      using rotate_zip by blast
    obtain a1 x a2 where a: "a = br d a1 x RB_BLACK a2"
      using ab(1,2) br_cases [of a d] rb_ok_Suc [of n a] by (metis rb_ok_br(4))
    have z2: "zip_at s2 (Frame d w RB_BLACK b # C) (br d t p RB_RED (br d a1 x RB_BLACK a2))"
      using s2(2) a by (simp add: zip_frame)
    have run: "remove_side d p s = remove_rest d p x s2"
      using rv RB_RED s1(1) s2(1) zip_reads(3) [OF z2] by (simp add: remove_side_code)
    have "sinks xs (2 * length (Frame d w RB_BLACK b # C) + (if RB_RED = RB_RED then 1 else 2)) (remove_rest d p x s2)"
      by (rule remove_rest_turn [OF z2 t, where n = n])
        (use ok ab a c vw xs in \<open>auto simp: heights_def elems_br\<close>)
    then show ?thesis unfolding run by (rule more) simp
  qed
qed

section \<open>\<open>name##_RB_REMOVE_COLOR\<close>\<close>

lemma root_around: "ctx_at s C p \<Longrightarrow> C \<noteq> [] \<Longrightarrow> rbh_root s \<in> around C \<and> rbh_root s \<noteq> 0"
proof (induction C arbitrary: p)
  case Nil
  then show ?case by simp
next
  case (Cons f C)
  obtain d a c t where f: "f = Frame d a c t" by (cases f)
  show ?case
    using Cons.IH [of a] Cons.prems(1) by (cases C; cases d) (auto simp: f)
qed

lemma zip_not_root:
  assumes z: "zip_at s C t" and C: "C \<noteq> []"
  shows "ptr t \<noteq> rbh_root s"
proof -
  have "rbh_root s \<in> around C" "rbh_root s \<noteq> 0"
    using z root_around [of s C "ptr t"] C by (auto simp: zip_at_def)
  moreover have "ptr t \<noteq> 0 \<Longrightarrow> ptr t \<notin> around C"
    using z ptr_in [of t] by (auto simp: zip_at_def)
  ultimately show ?thesis by metis
qed

text \<open>The loop ends by painting the place black.\<close>

lemma blacken_zip:
  assumes z: "zip_at s C t" and ok: "near n t" "ctx_ok C (Suc n)" and stop: "color_of t = RB_RED \<or> C = []"
  shows "rebalances (elems (plug C t)) (if ptr t \<noteq> 0 then put_color (ptr t) RB_BLACK s else ret s)"
proof (cases t)
  case Tip
  then have "C = []" using stop by simp
  then show ?thesis using z Tip by (auto simp: rebalances_def balanced_def)
next
  case (Br l a c r)
  obtain s' where s': "put_color a RB_BLACK s = ret s'" "zip_at s' C (Br l a RB_BLACK r)"
    using put_color_zip [of s C True l a c r RB_BLACK] z Br by auto
  have "balanced (plug C (Br l a RB_BLACK r))"
  proof (cases c)
    case RB_RED
    then show ?thesis by (intro plug_ok [OF ok(2)]) (use ok(1) Br in simp_all)
  next
    case RB_BLACK
    then have "C = []" using stop Br by simp
    then show ?thesis using ok(1) Br RB_BLACK by (auto simp: balanced_def)
  qed
  moreover have "zip_at s' [] (plug C (Br l a RB_BLACK r))" using s'(2) zip_plug by blast
  moreover have "ptr t \<noteq> 0" using zip_nonzero [OF z] Br by simp
  ultimately show ?thesis using s'(1) Br unfolding rebalances_def by auto
qed

lemma remove_color_ends:
  assumes "zip_at s C t" and "near n t" and "ctx_ok C (Suc n)"
  shows "rebalances (elems (plug C t)) (RB_REMOVE_COLOR (up C) (ptr t) s)"
  using assms
proof (induction "steps_left C t" arbitrary: s C t n rule: less_induct)
  case less
  note z = less.prems(1) and ok = less.prems(2,3)
  have black: "is_black (ptr t) s = ret (color_of t = RB_BLACK)"
    using z zip_nonzero [OF z] by (cases t) (auto simp: is_black_ret zip_at_def)
  show ?case
  proof (cases "color_of t = RB_BLACK \<and> C \<noteq> []")
    case False
    then have stop: "color_of t = RB_RED \<or> C = []" by auto
    have "\<not> (color_of t = RB_BLACK \<and> ptr t \<noteq> rbh_root s)"
      using False zip_root [of s t] z by (cases C) auto
    then have "RB_REMOVE_COLOR (up C) (ptr t) s = (if ptr t \<noteq> 0 then put_color (ptr t) RB_BLACK s else ret s)"
      using black by (subst RB_REMOVE_COLOR.simps) auto
    then show ?thesis using blacken_zip [OF z ok stop] by simp
  next
    case True
    then obtain f D where "C = f # D" by (cases C) auto
    moreover obtain d p c v where "f = Frame d p c v" by (cases f)
    ultimately have C: "C = Frame d p c v # D" by simp
    have zp: "zip_at s D (br d t p c v)" using z C by (simp add: zip_frame)
    have v: "rb_ok (Suc n) v" using ok(2) C by (cases c) simp_all
    have "zip_at s D (br (\<not> d) v p c t)" using zip_flip [OF zp] .
    then have left: "RB_LEFT p s = ret (ptr (if d then t else v))" "ptr t \<noteq> ptr v"
      using zip_side [of s D "\<not> d" v p c t] rb_ok_Suc [OF v] by (cases d; simp)+
    have root: "ptr t \<noteq> rbh_root s" using zip_not_root [OF z] True by blast
    have "sinks (elems (plug C t)) (2 * length D + 3) (remove_side d p s)"
      by (rule remove_turn [OF zp, of n]) (use True ok near_black C in auto)
    then consider
        (on) s1 C1 t1 m where "remove_side d p s = ret (True, up C1, ptr t1, s1)" "zip_at s1 C1 t1" "near m t1"
          "ctx_ok C1 (Suc m)" "elems (plug C1 t1) = elems (plug C t)" "steps_left C1 t1 < steps_left C t"
      | (over) s1 q T where "remove_side d p s = ret (False, q, ptr T, s1)" "T \<noteq> Tip" "zip_at s1 [] T" "balanced T"
          "elems T = elems (plug C t)"
      unfolding sinks_def using True by (auto simp: steps_left_def C)
    then show ?thesis
    proof cases
      case on
      have "RB_REMOVE_COLOR (up C) (ptr t) s = RB_REMOVE_COLOR (up C1) (ptr t1) s1"
        using black True root left on(1) C
        by (subst RB_REMOVE_COLOR.simps) (cases d; simp add: remove_side_def)
      then show ?thesis using less.hyps [OF on(6,2,3,4)] on(5) by simp
    next
      case over
      have "RB_REMOVE_COLOR (up C) (ptr t) s = put_color (ptr T) RB_BLACK s1"
        using black True root left over(1) C zip_nonzero [OF over(3,2)]
        by (subst RB_REMOVE_COLOR.simps) (cases d; simp add: remove_side_def)
      moreover obtain s2 where "put_color (ptr T) RB_BLACK s1 = ret s2" "zip_at s2 [] T"
        using put_root_black [of s1 T] over zip_root [OF over(3)] by (auto simp: balanced_def)
      ultimately show ?thesis using over(4,5) unfolding rebalances_def by auto
    qed
  qed
qed

end
