(* ===== verification/Rb_Table.thy ===== *)
theory Rb_Table
  imports Rb_Remove
begin

text \<open>The operations of red-black trees meet the contracts of \<^verbatim>\<open>Table_Iface\<close>.\<close>

section \<open>Representation\<close>

definition rb_usable :: "nat \<Rightarrow> bool" where
  "rb_usable e \<longleftrightarrow> e \<noteq> 0"

definition rb_rep :: "(nat \<Rightarrow> 'k :: linorder) \<Rightarrow> (nat \<Rightarrow> nat \<Rightarrow> int) \<Rightarrow> rb \<Rightarrow> nat list \<Rightarrow> bool" where
  "rb_rep key cmp s xs \<longleftrightarrow>
     ordered_by key cmp \<and> ascending key xs \<and> (\<exists>t. zip_at s [] t \<and> balanced t \<and> elems t = xs)"

lemma rb_init_rep: "ordered_by key cmp \<Longrightarrow> rb_rep key cmp (RB_INIT s) []"
  by (auto simp: rb_rep_def RB_INIT_def zip_at_def balanced_def intro!: exI [of _ Tip])

lemma rb_rep_nonzero: "rb_rep key cmp s xs \<Longrightarrow> x \<in> set xs \<Longrightarrow> x \<noteq> 0"
  using rb_at_nonzero by (auto simp: rb_rep_def zip_at_def)

lemma rebalanced_rep:
  assumes "rb_rep key cmp s xs" and "rebalances ys r" and "ascending key ys"
  shows "\<exists>s'. r = ret s' \<and> rb_rep key cmp s' ys"
  using assms unfolding rebalances_def rb_rep_def by blast

text \<open>An element of the tree is at a place.\<close>

lemma place_of:
  "e \<in> set (elems t) \<Longrightarrow> \<exists>C l c r. t = plug C (Br l e c r)"
proof (induction t)
  case Tip
  then show ?case by simp
next
  case (Br l a c r)
  from Br.prems consider (here) "e = a" | (left) "e \<in> set (elems l)" | (right) "e \<in> set (elems r)" by auto
  then show ?case
  proof cases
    case here
    then show ?thesis by (metis plug.simps(1))
  next
    case left
    then obtain C l' c' r' where "l = plug C (Br l' e c' r')" using Br.IH(1) by blast
    then have "Br l a c r = plug (C @ [Frame True a c r]) (Br l' e c' r')" by (simp add: plug_append)
    then show ?thesis by blast
  next
    case right
    then obtain C l' c' r' where "r = plug C (Br l' e c' r')" using Br.IH(2) by blast
    then have "Br l a c r = plug (C @ [Frame False a c l]) (Br l' e c' r')" by (simp add: plug_append)
    then show ?thesis by blast
  qed
qed

section \<open>Looking for an element\<close>

lemma at_key_split:
  fixes key :: "nat \<Rightarrow> 'k :: linorder"
  assumes "ascending key (A @ r # B)"
  shows "k < key r \<Longrightarrow> at_key key k (A @ r # B) = at_key key k A"
    and "key r < k \<Longrightarrow> at_key key k (A @ r # B) = at_key key k B"
    and "key r = k \<Longrightarrow> at_key key k (A @ r # B) = r"
proof -
  have A: "key x < key r" if "x \<in> set A" for x using assms that by simp
  have B: "key r < key x" if "x \<in> set B" for x using assms that by simp
  show "at_key key k (A @ r # B) = at_key key k A" if k: "k < key r"
  proof -
    have "filter (\<lambda>x. key x = k) (r # B) = []"
      using k B by (auto simp: filter_empty_conv dest: less_trans)
    then show ?thesis by (simp add: at_key_def)
  qed
  show "at_key key k (A @ r # B) = at_key key k B" if k: "key r < k"
  proof -
    have "filter (\<lambda>x. key x = k) A = []" "key r \<noteq> k"
      using k A by (auto simp: filter_empty_conv dest: less_trans)
    then show ?thesis by (simp add: at_key_def)
  qed
  show "at_key key k (A @ r # B) = r" if k: "key r = k"
  proof -
    have "filter (\<lambda>x. key x = k) A = []" using k A by (force simp: filter_empty_conv)
    then show ?thesis using k by (simp add: at_key_def)
  qed
qed

lemma find_from_elem:
  assumes "rb_at s q t" and "ascending key (elems t)" and ord: "ordered_by key cmp" and e: "e \<noteq> 0"
  shows "find_from cmp e (ptr t) s = ret (at_key key (key e) (elems t))"
  using assms(1,2)
proof (induction t arbitrary: q)
  case Tip
  show ?case by (subst find_from.simps) (simp add: at_key_def)
next
  case (Br l a c r)
  note D = ordered_byD [OF ord, of e a]
  note split = at_key_split [of key "elems l" a "elems r" "key e"]
  have IH: "find_from cmp e (ptr l) s = ret (at_key key (key e) (elems l))"
    "find_from cmp e (ptr r) s = ret (at_key key (key e) (elems r))"
    using Br.IH Br.prems by auto
  have code: "find_from cmp e a s =
      (if cmp e a < 0 then find_from cmp e (ptr l) s
       else if 0 < cmp e a then find_from cmp e (ptr r) s else ret a)"
    using Br.prems(1) e by (subst find_from.simps) (simp add: compare_def RB_LEFT_def RB_RIGHT_def)
  consider "key e < key a" | "key a < key e" | "key a = key e" by fastforce
  then show ?case
    using D split Br.prems(2) IH code by cases (simp_all add: not_less)
qed

lemma from_key_split:
  fixes key :: "nat \<Rightarrow> 'k :: linorder"
  assumes "ascending key (A @ r # B)"
  shows "k \<le> key r \<Longrightarrow> from_key key k (A @ r # B) = from_key key k A @ r # B"
    and "key r < k \<Longrightarrow> from_key key k (A @ r # B) = from_key key k B"
proof -
  have A: "key x < key r" if "x \<in> set A" for x using assms that by simp
  have B: "key r < key x" if "x \<in> set B" for x using assms that by simp
  show "from_key key k (A @ r # B) = from_key key k A @ r # B" if k: "k \<le> key r"
  proof -
    have "k \<le> key x" if "x \<in> set B" for x using B [OF that] k by (meson le_less_trans less_imp_le)
    then show ?thesis using k by (auto simp: from_key_def filter_id_conv)
  qed
  show "from_key key k (A @ r # B) = from_key key k B" if k: "key r < k"
    using k A by (auto simp: from_key_def filter_empty_conv not_le intro: less_trans)
qed

lemma head_of_or: "head_of (xs @ x # ys) = (if xs = [] then x else head_of xs)"
  by (cases xs) simp_all

lemma nfind_from_elem:
  assumes "rb_at s q t" and "ascending key (elems t)" and ord: "ordered_by key cmp" and e: "e \<noteq> 0"
  shows "nfind_from cmp e (ptr t) res s =
    ret (if from_key key (key e) (elems t) = [] then res else head_of (from_key key (key e) (elems t)))"
  using assms(1,2)
proof (induction t arbitrary: q res)
  case Tip
  show ?case by (subst nfind_from.simps) (simp add: from_key_def)
next
  case (Br l a c r)
  note D = ordered_byD [OF ord, of e a]
  have asc: "ascending key (elems l)" "ascending key (elems r)" "ascending key (elems l @ a # elems r)"
    using Br.prems(2) by simp_all
  note split = from_key_split [OF asc(3), of "key e"]
  note IH = Br.IH(1) [of a] Br.IH(2) [of a]
  have code: "nfind_from cmp e a res s =
      (if cmp e a < 0 then nfind_from cmp e (ptr l) a s
       else if 0 < cmp e a then nfind_from cmp e (ptr r) res s else ret a)"
    using Br.prems(1) e by (subst nfind_from.simps) (simp add: compare_def RB_LEFT_def RB_RIGHT_def)
  consider (less) "key e < key a" | (more) "key a < key e" | (here) "key a = key e" by fastforce
  then show ?case
  proof cases
    case less
    then show ?thesis using D split(1) IH Br.prems(1) asc code by (simp add: head_of_or)
  next
    case more
    moreover from more have "\<not> key e < key a" by simp
    ultimately show ?thesis using D split(2) IH Br.prems(1) asc code by simp
  next
    case here
    have "from_key key (key e) (elems l) = []"
      using asc(3) here by (auto simp: from_key_def filter_empty_conv not_le)
    then show ?thesis using here D split(1) code by simp
  qed
qed

lemma minmax_from_elem:
  assumes "rb_at s q t"
  shows "minmax_from (-1) (ptr t) p s = ret (if t = Tip then p else head_of (elems t))"
    and "minmax_from 1 (ptr t) p s = ret (if t = Tip then p else last_of (elems t))"
  using assms
proof (induction t arbitrary: q p)
  case Tip
  case 1 show ?case by (subst minmax_from.simps) simp
  case 2 show ?case by (subst minmax_from.simps) simp
next
  case (Br l a c r)
  case 1
  have "minmax_from (-1) a p s = minmax_from (-1) (ptr l) a s"
    using 1 by (subst minmax_from.simps) (simp add: RB_LEFT_def)
  then show ?case using Br(1) [of a a] 1 by (cases l) (simp_all add: head_of_or)
  case 2
  have "minmax_from 1 a p s = minmax_from 1 (ptr r) a s"
    using 2 by (subst minmax_from.simps) (simp add: RB_RIGHT_def)
  then show ?case using Br(4) [of a a] 2 by (cases r) (simp_all add: head_of_or)
qed

section \<open>The next element\<close>

definition rb_end :: "bool \<Rightarrow> nat \<Rightarrow> rb \<Rightarrow> nat run" where
  "rb_end d = (if d then rb_leftmost else rb_rightmost)"

definition up_from :: "bool \<Rightarrow> nat \<Rightarrow> rb \<Rightarrow> nat run" where
  "up_from d = (if d then up_from_right else up_from_left)"

definition rb_step :: "bool \<Rightarrow> nat \<Rightarrow> rb \<Rightarrow> nat run" where
  "rb_step d = (if d then RB_NEXT else RB_PREV)"

lemma rb_end_code: "rb_end d elm s = andthen (get d elm s) (\<lambda>l. if l = 0 then ret elm else rb_end d l s)"
  by (cases d) (simp_all add: rb_end_def get_def rb_leftmost.simps [of elm s] rb_rightmost.simps [of elm s] cong: if_cong)

lemma up_from_code:
  "up_from d elm s =
     andthen (RB_PARENT elm s) (\<lambda>parent.
     if parent = 0 then ret parent
     else andthen (get (\<not> d) parent s) (\<lambda>x. if elm = x then up_from d parent s else ret parent))"
  by (cases d) (simp_all add: up_from_def get_def up_from_right.simps [of elm s] up_from_left.simps [of elm s] cong: if_cong)

lemma rb_step_code:
  "rb_step d elm s =
     andthen (get (\<not> d) elm s) (\<lambda>r.
     if r \<noteq> 0 then rb_end d r s
     else
       andthen (RB_PARENT elm s) (\<lambda>parent.
       andthen (if parent \<noteq> 0 then andthen (get d parent s) (\<lambda>l. ret (elm = l)) else ret False) (\<lambda>here.
       if here then ret parent else up_from d elm s)))"
  by (cases d) (simp_all add: rb_step_def RB_NEXT_def RB_PREV_def get_def rb_end_def up_from_def cong: if_cong)

text \<open>The elements of a subtree and around a place, in the order of the walk.\<close>

definition walk_in :: "bool \<Rightarrow> rbt \<Rightarrow> nat list" where
  "walk_in d t = (if d then elems t else rev (elems t))"

definition walk_up :: "bool \<Rightarrow> frame list \<Rightarrow> nat list" where
  "walk_up d C = (if d then uppers C else rev (lowers C))"

lemma walk_simps [simp]:
  "walk_in d Tip = []" "walk_in d (br d x a c y) = walk_in d x @ a # walk_in d y"
  "walk_up d [] = []" "walk_up d (Frame d a c t # C) = a # walk_in d t @ walk_up d C"
  "walk_up d (Frame (\<not> d) a c t # C) = walk_up d C"
  by (simp_all add: walk_in_def walk_up_def elems_br)

lemma rb_end_first:
  "rb_at s q t \<Longrightarrow> t \<noteq> Tip \<Longrightarrow> rb_end d (ptr t) s = ret (head_of (walk_in d t))"
proof (induction "size t" arbitrary: q t rule: less_induct)
  case less
  obtain x a c y where t: "t = br d x a c y" using br_cases less.prems(2) by blast
  have "rb_at s a x" "a \<noteq> 0" and x: "get d a s = ret (ptr x)"
    using less.prems(1) by (simp_all add: t get_link)
  moreover have "size x < size t" by (cases d) (simp_all add: t)
  ultimately have IH: "x \<noteq> Tip \<Longrightarrow> rb_end d (ptr x) s = ret (head_of (walk_in d x))"
    using less.hyps by blast
  have ptr: "ptr x = 0 \<longleftrightarrow> x = Tip" using \<open>rb_at s a x\<close> by (cases x) auto
  have "walk_in d x = [] \<longleftrightarrow> x = Tip" by (cases x) (simp_all add: walk_in_def)
  then show ?case using IH x ptr by (subst rb_end_code) (simp add: t head_of_or)
qed

lemma up_from_first:
  "zip_at s C t \<Longrightarrow> t \<noteq> Tip \<Longrightarrow> up_from d (ptr t) s = ret (head_of (walk_up d C))"
proof (induction C arbitrary: t)
  case Nil
  obtain x a c y where t: "t = br d x a c y" using br_cases Nil.prems(2) by blast
  then show ?case using zip_reads(4) Nil.prems by (subst up_from_code) simp
next
  case (Cons f C)
  obtain d' a c u where f: "f = Frame d' a c u" by (cases f)
  have za: "zip_at s C (br d' t a c u)" using Cons.prems(1) by (simp add: f zip_frame)
  note ra = zip_reads [OF za]
  obtain x b k y where t: "t = br d x b k y" using br_cases Cons.prems(2) by blast
  have par: "RB_PARENT b s = ret a" using zip_reads(4) [of s "f # C" d x b k y] Cons.prems(1) by (simp add: t f)
  show ?case
  proof (cases "d' = d")
    case True
    then have "get (\<not> d) a s = ret (ptr u)" "ptr u \<noteq> ptr t"
      using ra(3) zip_side(2) [OF za Cons.prems(2)] by simp_all
    then show ?thesis using par ra(1) True by (subst up_from_code) (auto simp: f t)
  next
    case False
    then have d': "d' = (\<not> d)" by auto
    have "get (\<not> d) a s = ret b" using ra(2) d' t by simp
    moreover have "up_from d a s = ret (head_of (walk_up d C))" using Cons.IH [OF za] by simp
    ultimately show ?thesis using par ra(1) d' by (subst up_from_code) (simp add: f t)
  qed
qed

lemma rb_step_first:
  assumes z: "zip_at s C (br d x e c y)"
  shows "rb_step d e s = ret (head_of (walk_in d y @ walk_up d C))"
proof -
  note re = zip_reads [OF z]
  have y: "rb_at s e y" using z by (simp add: zip_at_def)
  show ?thesis
  proof (cases "y = Tip")
    case False
    moreover have "ptr y \<noteq> 0" using y False by (cases y) auto
    moreover have "walk_in d y \<noteq> []" using False by (cases y) (simp_all add: walk_in_def)
    ultimately show ?thesis
      using re(3) rb_end_first [OF y False, of d] by (simp add: rb_step_code head_of_def split: list.splits)
  next
    case Tip: True
    have up: "up_from d e s = ret (head_of (walk_up d C))" using up_from_first [OF z, of d] by simp
    show ?thesis
    proof (cases C)
      case Nil
      then show ?thesis using re Tip up by (simp add: rb_step_code)
    next
      case (Cons f D)
      obtain d' a k u where f: "f = Frame d' a k u" by (cases f)
      have za: "zip_at s D (br d' (br d x e c y) a k u)" using z by (simp add: f Cons zip_frame)
      note ra = zip_reads [OF za]
      show ?thesis
      proof (cases "d' = d")
        case True
        then show ?thesis using re ra(1,2) Tip by (simp add: rb_step_code Cons f)
      next
        case False
        then have d': "d' = (\<not> d)" by auto
        have "get d a s = ret (ptr u)" "ptr u \<noteq> e"
          using ra(3) zip_side(2) [OF za] d' by simp_all
        then show ?thesis using re ra(1) Tip up by (auto simp: rb_step_code Cons f)
      qed
    qed
  qed
qed

section \<open>Queries\<close>

lemma query_gives: "f s = ret x \<Longrightarrow> rep s xs \<Longrightarrow> gives rep (query f s) x xs"
  by (simp add: query_def)

lemma rb_find:
  assumes "rb_rep key cmp s xs" and "rb_usable e"
  shows "gives (rb_rep key cmp) (query (RB_FIND cmp e) s) (at_key key (key e) xs) xs"
proof (rule query_gives [where rep = "rb_rep key cmp", OF _ assms(1)])
  obtain t where t: "ordered_by key cmp" "ascending key xs" "zip_at s [] t" "elems t = xs"
    using assms(1) unfolding rb_rep_def by blast
  then show "RB_FIND cmp e s = ret (at_key key (key e) xs)"
    using find_from_elem [of s 0 t key cmp e] assms(2) zip_root [OF t(3)]
    by (simp add: RB_FIND_def zip_at_def rb_usable_def)
qed

lemma rb_nfind:
  assumes "rb_rep key cmp s xs" and "rb_usable e"
  shows "gives (rb_rep key cmp) (query (RB_NFIND cmp e) s) (head_of (from_key key (key e) xs)) xs"
proof (rule query_gives [where rep = "rb_rep key cmp", OF _ assms(1)])
  obtain t where t: "ordered_by key cmp" "ascending key xs" "zip_at s [] t" "elems t = xs"
    using assms(1) unfolding rb_rep_def by blast
  then show "RB_NFIND cmp e s = ret (head_of (from_key key (key e) xs))"
    using nfind_from_elem [of s 0 t key cmp e 0] assms(2) zip_root [OF t(3)]
    by (auto simp: RB_NFIND_def zip_at_def rb_usable_def)
qed

lemma rb_min: "rb_rep key cmp s xs \<Longrightarrow> gives (rb_rep key cmp) (query RB_MIN s) (head_of xs) xs"
  and rb_max: "rb_rep key cmp s xs \<Longrightarrow> gives (rb_rep key cmp) (query RB_MAX s) (last_of xs) xs"
proof -
  assume rep: "rb_rep key cmp s xs"
  then obtain t where t: "zip_at s [] t" "elems t = xs" unfolding rb_rep_def by blast
  then have "RB_MIN s = ret (head_of xs)" "RB_MAX s = ret (last_of xs)"
    using minmax_from_elem [of s 0 t 0] zip_root [OF t(1)]
    by (auto simp: RB_MIN_def RB_MAX_def RB_MINMAX_def RB_NEGINF_def RB_INF_def zip_at_def)
  then show "gives (rb_rep key cmp) (query RB_MIN s) (head_of xs) xs"
    and "gives (rb_rep key cmp) (query RB_MAX s) (last_of xs) xs"
    using rep by (simp_all add: query_def)
qed

lemma rb_next_prev:
  assumes rep: "rb_rep key cmp s xs" and e: "e \<in> set xs"
  shows "gives (rb_rep key cmp) (query (RB_NEXT e) s) (head_of (above key (key e) xs)) xs"
    and "gives (rb_rep key cmp) (query (RB_PREV e) s) (last_of (beneath key (key e) xs)) xs"
proof -
  obtain t where t: "ascending key xs" "zip_at s [] t" "elems t = xs"
    using rep unfolding rb_rep_def by blast
  obtain C l c r where place: "t = plug C (Br l e c r)" using place_of e t(3) by blast
  have z: "zip_at s C (br True l e c r)" "zip_at s C (br False r e c l)"
    using t(2) zip_plug [of s C] place by simp_all
  have xs: "xs = (lowers C @ elems l) @ e # (elems r @ uppers C)" using t(3) place by simp
  have cut: "\<forall>x\<in>set (lowers C @ elems l). key x < key e" "\<forall>x\<in>set (elems r @ uppers C). key e < key x"
    using t(1) xs by auto
  have "above key (key e) xs = elems r @ uppers C" "beneath key (key e) xs = lowers C @ elems l"
    unfolding above_def beneath_def xs using cut_filters(1,2) [OF cut(1) refl cut(2)] by simp_all
  then have "RB_NEXT e s = ret (head_of (above key (key e) xs))" "RB_PREV e s = ret (last_of (beneath key (key e) xs))"
    using rb_step_first [OF z(1)] rb_step_first [OF z(2)]
    by (simp_all add: rb_step_def walk_in_def walk_up_def)
  then show "gives (rb_rep key cmp) (query (RB_NEXT e) s) (head_of (above key (key e) xs)) xs"
    and "gives (rb_rep key cmp) (query (RB_PREV e) s) (last_of (beneath key (key e) xs)) xs"
    using rep by (simp_all add: query_def)
qed

section \<open>Insertion\<close>

text \<open>Where the descent ends: on the element with the key, or on a free place.\<close>

definition side_of :: "frame list \<Rightarrow> int \<Rightarrow> bool" where
  "side_of C way \<longleftrightarrow> (case C of [] \<Rightarrow> True | Frame d a c t # D \<Rightarrow> if d then way < 0 else 0 < way)"

lemma insert_place_ends:
  assumes "zip_at s C t" and ord: "ordered_by key cmp" and e: "e \<noteq> 0"
    and "ascending key (lowers C @ elems t @ uppers C)"
    and "\<forall>x\<in>set (lowers C). key x < key e" and "\<forall>x\<in>set (uppers C). key e < key x" and "side_of C way"
  shows "(\<exists>x w. insert_place cmp e (ptr t) (up C) way s = ret (x, x, w) \<and> x \<noteq> 0 \<and>
      at_key key (key e) (lowers C @ elems t @ uppers C) = x) \<or>
    (\<exists>D w. insert_place cmp e (ptr t) (up C) way s = ret (0, up D, w) \<and> side_of D w \<and>
      plug D Tip = plug C t \<and> (\<forall>x\<in>set (lowers D). key x < key e) \<and> (\<forall>x\<in>set (uppers D). key e < key x))"
  using assms(1,4-7)
proof (induction t arbitrary: C way)
  case Tip
  have "insert_place cmp e (ptr Tip) (up C) way s = ret (0, up C, way)"
    by (subst insert_place.simps) simp
  then show ?case using Tip.prems by blast
next
  case (Br l a c r)
  note z = Br.prems(1) and asc = Br.prems(2)
  note ra = zip_reads [of s C True l a c r, simplified, OF z]
  note D = ordered_byD [OF ord, of e a]
  have code: "insert_place cmp e a (up C) way s =
      (if cmp e a < 0 then insert_place cmp e (ptr l) a (cmp e a) s
       else if 0 < cmp e a then insert_place cmp e (ptr r) a (cmp e a) s
       else ret (a, a, cmp e a))"
    using ra(1-3) e by (subst insert_place.simps) (simp add: compare_def get_def)
  consider (less) "key e < key a" | (more) "key a < key e" | (here) "key a = key e" by fastforce
  then show ?case
  proof cases
    case less
    let ?C = "Frame True a c r # C"
    have up: "\<forall>x\<in>set (uppers ?C). key e < key x" using asc less Br.prems(4) by (auto intro: less_trans)
    have "zip_at s ?C l" using z by (simp add: zip_frame)
    from Br.IH(1) [OF this _ _ up, of "cmp e a"] show ?thesis
      using asc Br.prems(3) less D code by (simp add: side_of_def)
  next
    case more
    let ?C = "Frame False a c l # C"
    have low: "\<forall>x\<in>set (lowers ?C). key x < key e" using asc more Br.prems(3) by (auto intro: less_trans)
    have "zip_at s ?C r" using z by (simp add: zip_frame)
    moreover have "\<not> key e < key a" using more by simp
    ultimately show ?thesis
      using Br.IH(2) [of ?C "cmp e a"] low asc Br.prems(4) more D code by (simp add: side_of_def)
  next
    case here
    have "insert_place cmp e a (up C) way s = ret (a, a, cmp e a)" using code D here by simp
    moreover have "at_key key (key e) (lowers C @ elems (Br l a c r) @ uppers C) = a"
      using at_key_split(3) [of key "lowers C @ elems l" a "elems r @ uppers C" "key e"] asc here by simp
    ultimately show ?thesis using ra(1) by auto
  qed
qed

lemma attach_code:
  assumes "side_of C way" and "ctx_at s0 C p"
  shows "attach C e s = (if up C \<noteq> 0 then if way < 0 then put_left (up C) e s else put_right (up C) e s
    else ret (s\<lparr>rbh_root := e\<rparr>))"
  using assms by (cases C rule: up.cases) (auto simp: attach_def side_of_def put_def)

lemma rb_insert:
  fixes key :: "nat \<Rightarrow> 'k :: linorder"
  assumes rep: "rb_rep key cmp s xs" and e: "rb_usable e"
  shows "at_key key (key e) xs \<noteq> 0 \<Longrightarrow> gives (rb_rep key cmp) (RB_INSERT cmp e s) (at_key key (key e) xs) xs"
    and "at_key key (key e) xs = 0 \<Longrightarrow> gives (rb_rep key cmp) (RB_INSERT cmp e s) 0 (list_insert key e xs)"
proof -
  obtain t where t: "ordered_by key cmp" "ascending key xs" "zip_at s [] t" "balanced t" "elems t = xs"
    using rep unfolding rb_rep_def by blast
  have e0: "e \<noteq> 0" using e by (simp add: rb_usable_def)
  have root: "rbh_root s = ptr t" using zip_root [OF t(3)] .
  from insert_place_ends [OF t(3) t(1) e0, of 0] t(2,5) root
  consider (old) w where "insert_place cmp e (rbh_root s) 0 0 s = ret (at_key key (key e) xs, at_key key (key e) xs, w)"
      "at_key key (key e) xs \<noteq> 0"
    | (new) D w where "insert_place cmp e (rbh_root s) 0 0 s = ret (0, up D, w)" "side_of D w" "plug D Tip = t"
      "\<forall>x\<in>set (lowers D). key x < key e" "\<forall>x\<in>set (uppers D). key e < key x"
    by (auto simp: side_of_def)
  then have "(at_key key (key e) xs \<noteq> 0 \<longrightarrow> gives (rb_rep key cmp) (RB_INSERT cmp e s) (at_key key (key e) xs) xs) \<and>
    (at_key key (key e) xs = 0 \<longrightarrow> gives (rb_rep key cmp) (RB_INSERT cmp e s) 0 (list_insert key e xs))"
  proof cases
    case old
    then show ?thesis using rep by (simp add: RB_INSERT_def)
  next
    case new
    have xs: "xs = lowers D @ uppers D" using t(5) new(3) by auto
    have "at_key key (key e) xs = 0"
      using split_filters(4) [OF new(4,5)] xs by (simp add: at_key_def)
    moreover have ins: "list_insert key e xs = lowers D @ e # uppers D"
      using split_filters(1,2) [OF new(4,5)] xs by (simp add: list_insert_def)
    have z: "zip_at s D Tip" using t(3) new(3) zip_plug by blast
    have out: "e \<notin> around D" using new(4,5) by auto
    obtain s1 where s1: "andthen (RB_SET e (up D) s) (attach D e) = ret s1" "zip_at s1 D (Br Tip e RB_RED Tip)"
      using attach_zip [OF z e0 out] by blast
    obtain s0 where s0: "RB_SET e (up D) s = ret s0" "attach D e s0 = ret s1"
      using s1(1) by (auto simp: andthen_ret)
    have "balanced (plug D Tip)" using t(4) new(3) by simp
    then have "ctx_ok D 0" by (auto dest!: plug_okD)
    then have "rebalances (elems (plug D (Br Tip e RB_RED Tip))) (RB_INSERT_COLOR e s1)"
      by (intro insert_color_ends [OF s1(2), of 0]) simp_all
    moreover have "ascending key (lowers D @ e # uppers D)"
      using t(2) xs new(4,5) by auto
    ultimately obtain s2 where s2: "RB_INSERT_COLOR e s1 = ret s2" "rb_rep key cmp s2 (lowers D @ e # uppers D)"
      using rebalanced_rep [OF rep] by fastforce
    have "(if up D \<noteq> 0 then if w < 0 then put_left (up D) e s0 else put_right (up D) e s0
        else ret (s0\<lparr>rbh_root := e\<rparr>)) = ret s1"
      unfolding s0(2) [symmetric]
      by (rule attach_code [OF new(2), of s 0, symmetric]) (use z in \<open>simp add: zip_at_def\<close>)
    then have "RB_INSERT cmp e s = ret (0, s2)"
      by (simp only: RB_INSERT_def new(1) s0(1) s2(1) andthen_simps prod.case if_False simp_thms)
    then show ?thesis using s2(2) ins \<open>at_key key (key e) xs = 0\<close> by simp
  qed
  then show "at_key key (key e) xs \<noteq> 0 \<Longrightarrow> gives (rb_rep key cmp) (RB_INSERT cmp e s) (at_key key (key e) xs) xs"
    and "at_key key (key e) xs = 0 \<Longrightarrow> gives (rb_rep key cmp) (RB_INSERT cmp e s) 0 (list_insert key e xs)"
    by blast+
qed

section \<open>Removal\<close>

lemma leftmost_place:
  "rb_at s q t \<Longrightarrow> t \<noteq> Tip \<Longrightarrow>
   \<exists>L m c r. rb_leftmost (ptr t) s = ret m \<and> t = plug L (Br Tip m c r) \<and> lowers L = []"
proof (induction t arbitrary: q)
  case Tip
  then show ?case by simp
next
  case (Br l a c r)
  have code: "rb_leftmost a s = (if ptr l = 0 then ret a else rb_leftmost (ptr l) s)"
    using Br.prems(1) by (subst rb_leftmost.simps) (simp add: RB_LEFT_def)
  show ?case
  proof (cases l)
    case Tip
    then have "rb_leftmost (ptr (Br l a c r)) s = ret a" "Br l a c r = plug [] (Br Tip a c r)"
      using code by simp_all
    then show ?thesis by (intro exI [of _ "[]"]) auto
  next
    case (Br l1 b k l2)
    obtain L m k r' where L: "rb_leftmost (ptr l) s = ret m" "l = plug L (Br Tip m k r')" "lowers L = []"
      using Br.IH(1) [of a] Br.prems(1) Br by auto
    have "ptr l \<noteq> 0" using Br.prems(1) Br by auto
    then have "rb_leftmost (ptr (Br l a c r)) s = ret m" using code L(1) by simp
    moreover have "Br l a c r = plug (L @ [Frame True a c r]) (Br Tip m k r')" using L(2) by (simp add: plug_append)
    moreover have "lowers (L @ [Frame True a c r]) = []" using L(3)
    proof (induction L)
      case (Cons f L)
      then show ?case by (cases f) (auto split: if_splits)
    qed simp
    ultimately show ?thesis by blast
  qed
qed

lemma rename_frame:
  "up (L @ Frame d a c t # C) = (if L = [] then a else up L)"
  "ctx_ok (L @ Frame d a c t # C) n \<longleftrightarrow> ctx_ok (L @ Frame d b c t # C) n"
  "above_color (L @ Frame d a c t # C) = above_color (L @ Frame d b c t # C)"
proof -
  show "up (L @ Frame d a c t # C) = (if L = [] then a else up L)" by (cases L rule: up.cases) simp_all
  show above: "above_color (L @ Frame d a c t # C) = above_color (L @ Frame d b c t # C)" for L
    by (cases L rule: up.cases) simp_all
  show "ctx_ok (L @ Frame d a c t # C) n \<longleftrightarrow> ctx_ok (L @ Frame d b c t # C) n"
  proof (induction L arbitrary: n)
    case Nil
    then show ?case by (cases c) simp_all
  next
    case (Cons f L)
    obtain d' a' c' u where f: "f = Frame d' a' c' u" by (cases f)
    show ?case using Cons.IH above [of L] by (cases c') (simp_all add: f)
  qed
qed

lemma uppers_append [simp]: "uppers (L @ C) = uppers L @ uppers C"
  by (induction L rule: uppers.induct) auto

lemma lowers_append [simp]: "lowers (L @ C) = lowers C @ lowers L"
  by (induction L rule: lowers.induct) auto

text \<open>The end of a removal, with \<open>t\<close> where an element of color \<open>c\<close> above \<open>t\<close> was.\<close>

lemma removal_ends:
  assumes z: "zip_at s C t" and ctx: "ctx_ok C n" and ok: "rb_ok n (br d Tip m c t)"
    and above: "above_color C = RB_RED \<longrightarrow> c = RB_BLACK"
  shows "rebalances (elems (plug C t)) (if c = RB_BLACK then RB_REMOVE_COLOR (up C) (ptr t) s else ret s)"
proof (cases c)
  case RB_BLACK
  then obtain k where k: "n = Suc k" "rb_ok k t" using ok by (auto elim: rb_ok_black)
  show ?thesis
    using remove_color_ends [OF z rb_ok_near [OF k(2)]] ctx k(1) RB_BLACK by simp
next
  case RB_RED
  then have t: "rb_ok n t" "color_of t = RB_BLACK" using ok by auto
  have "balanced (plug C t)" by (rule plug_ok [OF ctx t(1)]) (simp add: t(2))
  moreover have "zip_at s [] (plug C t)" using z zip_plug by blast
  ultimately show ?thesis using RB_RED by (auto simp: rebalances_def)
qed

lemma rb_remove_one:
  assumes z: "zip_at s C (br d Tip e c t)" and bal: "balanced (plug C (br d Tip e c t))"
  shows "\<exists>r. RB_REMOVE e s = andthen r (\<lambda>s. ret (e, s)) \<and> rebalances (elems (plug C t)) r"
proof -
  obtain s' where s': "unlink e (ptr t) s = ret (up C, c, s')" "zip_at s' C t"
    using unlink_zip [OF z] by blast
  obtain n where n: "ctx_ok C n" "rb_ok n (br d Tip e c t)" "above_color C = RB_RED \<longrightarrow> c = RB_BLACK"
    using plug_okD [OF bal] by auto
  note re = zip_reads [OF z]
  have "RB_REMOVE e s = andthen (if c = RB_BLACK then RB_REMOVE_COLOR (up C) (ptr t) s' else ret s') (\<lambda>s. ret (e, s))"
    using re(1-3) s'(1) by (cases d) (auto simp: RB_REMOVE_def get_def)
  with removal_ends [OF s'(2) n] show ?thesis by blast
qed

lemma rb_remove_two:
  assumes z: "zip_at s C (Br l e c r)" and bal: "balanced (plug C (Br l e c r))" and lr: "l \<noteq> Tip" "r \<noteq> Tip"
  shows "\<exists>r'. RB_REMOVE e s = andthen r' (\<lambda>s. ret (e, s)) \<and>
    rebalances (lowers C @ elems l @ elems r @ uppers C) r'"
proof -
  note re = zip_reads [of s C True l e c r, simplified, OF z]
  have "rb_at s e r" using z by (simp add: zip_at_def)
  then obtain L m k q where m: "rb_leftmost (ptr r) s = ret m" "r = plug L (Br Tip m k q)" "lowers L = []"
    using leftmost_place lr(2) by blast
  let ?D = "L @ Frame False e c l # C" and ?D' = "L @ Frame False m c l # C"
  have whole: "plug C (Br l e c r) = plug ?D (br True Tip m k q)" by (simp add: plug_append m(2))
  then have zm: "zip_at s ?D (br True Tip m k q)" using z zip_plug [of s] by metis
  obtain n where n: "ctx_ok ?D n" "rb_ok n (br True Tip m k q)" "above_color ?D = RB_RED \<longrightarrow> k = RB_BLACK"
    using plug_okD [of ?D "br True Tip m k q"] bal whole by (auto simp del: br_simps(1) plug.simps)
  obtain s1 where s1: "unlink m (ptr q) s = ret (up ?D, k, s1)" "zip_at s1 ?D q" "same s s1 m"
    using unlink_zip [OF zm] by blast
  note rm = zip_reads [OF zm]
  have parent: "RB_PARENT m s1 = ret (up ?D)" using rm(1,4) s1(3) by (simp add: RB_PARENT_def same_def)
  have D: "distinct (lowers C @ elems l @ e # (m # elems q @ uppers L) @ uppers C)"
    using z by (simp add: zip_at_def m(2,3))
  have "plug ?D q = plug C (Br l e c (plug L q))" by (simp add: plug_append)
  then have z1: "zip_at s1 C (Br l e c (plug L q))" using s1(2) zip_plug [of s1] by metis
  have "\<exists>s2. supplant m e s1 = ret s2 \<and> zip_at s2 C (Br l m c (plug L q))"
    by (rule supplant_zip [OF z1 lr(1) rm(1)]) (use D m(3) in auto)
  then obtain s2 where s2: "supplant m e s1 = ret s2" "zip_at s2 C (Br l m c (plug L q))" by blast
  have "plug ?D' q = plug C (Br l m c (plug L q))" by (simp add: plug_append)
  then have z2: "zip_at s2 ?D' q" using s2(2) zip_plug [of s2] by metis
  have up: "(if up ?D = e then m else up ?D) = up ?D'"
  proof (cases L rule: up.cases)
    case 1
    then show ?thesis by simp
  next
    case (2 d a c' t L')
    then have "d" using m(3) by (simp split: if_splits)
    then have "a \<noteq> e" using D 2 by auto
    then show ?thesis by (simp add: 2)
  qed
  have nz: "up ?D' \<noteq> 0"
  proof (cases L rule: up.cases)
    case 1
    then show ?thesis using rm(1) by simp
  next
    case (2 d a c' t L')
    then have "zip_at s2 (L' @ Frame False m c l # C) (br d q a c' t)" using z2 by (simp add: zip_frame)
    then show ?thesis using zip_reads(1) 2 by simp
  qed
  have aug: "augment_up (up ?D') s2 = ret ()"
    using augment_up_ends [OF _ nz] z2 unfolding zip_at_def by blast
  have ptrs: "ptr l \<noteq> 0" "ptr r \<noteq> 0"
    using z lr by (cases l; cases r; auto simp: zip_at_def)+
  have child: "RB_RIGHT m s = ret (ptr q)" using rm(3) by (simp add: get_def)
  have "RB_REMOVE e s = andthen (if k = RB_BLACK then RB_REMOVE_COLOR (up ?D') (ptr q) s2 else ret s2) (\<lambda>s. ret (e, s))"
    unfolding RB_REMOVE_def Let_def
    using re(2,3) ptrs m(1) child s1(1) parent s2(1) up nz aug by (simp add: get_def)
  moreover have eq: "elems (plug ?D' q) = lowers C @ elems l @ elems r @ uppers C"
    by (simp add: m(2,3))
  have "rebalances (lowers C @ elems l @ elems r @ uppers C)
      (if k = RB_BLACK then RB_REMOVE_COLOR (up ?D') (ptr q) s2 else ret s2)"
    unfolding eq [symmetric]
    by (rule removal_ends [OF z2 _ n(2)])
      (use n(1,3) rename_frame(2) [where a = m and b = e] rename_frame(3) [where a = m and b = e] in \<open>metis\<close>)+
  ultimately show ?thesis by blast
qed

lemma rb_remove:
  fixes key :: "nat \<Rightarrow> 'k :: linorder"
  assumes rep: "rb_rep key cmp s xs" and e: "e \<in> set xs"
  shows "gives (rb_rep key cmp) (RB_REMOVE e s) e (list_remove key (key e) xs)"
proof -
  obtain t where t: "ascending key xs" "zip_at s [] t" "balanced t" "elems t = xs"
    using rep unfolding rb_rep_def by blast
  obtain C l c r where place: "t = plug C (Br l e c r)" using place_of e t(4) by blast
  have z: "zip_at s C (Br l e c r)" and bal: "balanced (plug C (Br l e c r))"
    using t(2,3) zip_plug [of s C] place by simp_all
  have xs: "xs = (lowers C @ elems l) @ e # (elems r @ uppers C)" using t(4) place by simp
  have cut: "\<forall>x\<in>set (lowers C @ elems l). key x < key e" "\<forall>x\<in>set (elems r @ uppers C). key e < key x"
    using t(1) xs by auto
  have rem: "list_remove key (key e) xs = lowers C @ elems l @ elems r @ uppers C"
    unfolding list_remove_def xs using cut_filters(3) [OF cut(1) refl cut(2)] by simp
  have "\<exists>r'. RB_REMOVE e s = andthen r' (\<lambda>s. ret (e, s)) \<and>
    rebalances (lowers C @ elems l @ elems r @ uppers C) r'"
  proof -
    consider "l = Tip" | "r = Tip" | "l \<noteq> Tip" "r \<noteq> Tip" by blast
    then show ?thesis
    proof cases
      case 1
      then show ?thesis using rb_remove_one [of s C True e c r] z bal by simp
    next
      case 2
      then show ?thesis using rb_remove_one [of s C False e c l] z bal by simp
    next
      case 3
      then show ?thesis using rb_remove_two [OF z bal] by blast
    qed
  qed
  then obtain r' where r': "RB_REMOVE e s = andthen r' (\<lambda>s. ret (e, s))"
      "rebalances (list_remove key (key e) xs) r'" unfolding rem by blast
  have "ascending key (list_remove key (key e) xs)" using t(1) xs unfolding rem by simp
  then show ?thesis using rebalanced_rep [OF rep r'(2)] r'(1) by auto
qed

section \<open>The contracts\<close>

lemma rb_rep_ascending: "rb_rep key cmp s xs \<Longrightarrow> ascending key xs"
  by (simp add: rb_rep_def)

lemma rb_rep_usable: "rb_rep key cmp s xs \<Longrightarrow> x \<in> set xs \<Longrightarrow> x \<noteq> 0 \<and> rb_usable x"
  using rb_rep_nonzero by (simp add: rb_usable_def)

lemma rb_foreach: "RB_FOREACH = for_each (query RB_MIN) (\<lambda>x. query (RB_NEXT x))"
  "RB_FOREACH_REVERSE = for_each (query RB_MAX) (\<lambda>x. query (RB_PREV x))"
  by (simp_all add: RB_FOREACH_def RB_FOREACH_REVERSE_def fun_eq_iff)

interpretation rb: two_way_table key rb_usable "rb_rep key cmp" "rb_two_way cmp"
  for key :: "nat \<Rightarrow> 'k :: linorder" and cmp :: "nat \<Rightarrow> nat \<Rightarrow> int"
  by (unfold_locales, unfold rb_two_way_simps rb_ops_simps)
     (rule rb_rep_ascending rb_rep_usable rb_insert rb_remove rb_find rb_next_prev rb_min rb_max rb_nfind
        rb_foreach; assumption?)+

end
