(* ===== verification/Tree_Props.thy ===== *)
theory Tree_Props
  imports Splay_Table Rb_Table
begin

text \<open>The properties of the trees of \<^verbatim>\<open>include/tree.h\<close>.\<close>

section \<open>Splay trees\<close>

text \<open>
  C10.  Any client of a splay tree (insertions, removals, lookups, steps and whole walks, in any
  order) gets the answers that the ascending list of the elements gives, and no call crashes
  or runs forever, however the tree is shaped: for a comparison that orders the elements by a
  key.
\<close>

theorem splay_calls_meet_specs:
  assumes "ordered_by key cmp" and "node \<noteq> 0"
    and "may_all (may_call (splay_usable node)) (table_spec key) calls []"
  shows "\<exists>s'. do_all (table_do (splay_ops node cmp)) calls (SPLAY_INIT s) =
    ret (fst (all_specs (table_spec key) calls []), s')"
proof -
  have "splay_rep key node cmp (SPLAY_INIT s) []" using splay_init_rep [OF assms(2,1)] .
  from splay.calls_meet_specs [OF this assms(3)] show ?thesis unfolding gives_def by blast
qed

definition by_address :: "nat \<Rightarrow> nat \<Rightarrow> int" where
  "by_address a b = int a - int b"

lemma by_address_ordered: "ordered_by id by_address"
  by (simp add: ordered_by_def by_address_def)

definition no_splay :: splay where
  "no_splay = \<lparr>sph_root = 0, spe_left = \<lambda>_. 0, spe_right = \<lambda>_. 0\<rparr>"

definition some_calls :: "table_call list" where
  "some_calls = [Insert 5, Insert 2, Insert 9, Insert 2, Find 4, Next 5, Foreach, Remove 5, Max, Foreach]"

lemma some_answers:
  "all_specs (table_spec id) some_calls [] =
     ([Elem 0, Elem 0, Elem 0, Elem 2, Elem 0, Elem 9, Elems [2, 5, 9], Elem 5, Elem 9, Elems [2, 9]], [2, 9])"
  by (simp add: some_calls_def at_key_def list_insert_def list_remove_def above_def)

lemma splay_calls_meet_specs_witness:
  "\<exists>s'. do_all (table_do (splay_ops 1 by_address)) some_calls (SPLAY_INIT no_splay) =
     ret ([Elem 0, Elem 0, Elem 0, Elem 2, Elem 0, Elem 9, Elems [2, 5, 9], Elem 5, Elem 9, Elems [2, 9]], s')"
  using splay_calls_meet_specs [OF by_address_ordered, of 1 some_calls no_splay]
  unfolding some_answers
  by (simp add: some_calls_def splay_usable_def at_key_def list_insert_def list_remove_def above_def)

section \<open>Red-black trees\<close>

text \<open>
  C9.  Any client of a red-black tree, which may also walk it downwards and look for the first
  element not beneath another, gets the answers that the ascending list of the elements gives,
  and no call crashes or runs forever.
\<close>

theorem rb_calls_meet_specs:
  assumes "ordered_by key cmp" and "may_all (may_call2 rb_usable) (two_way_spec key) calls []"
  shows "\<exists>s'. do_all (two_way_do (rb_two_way cmp)) calls (RB_INIT s) =
    ret (fst (all_specs (two_way_spec key) calls []), s')"
proof -
  have "rb_rep key cmp (RB_INIT s) []" using rb_init_rep [OF assms(1)] .
  from rb.two_way_calls_meet_specs [OF this assms(2)] show ?thesis unfolding gives_def by blast
qed

definition no_rb :: rb where
  "no_rb = \<lparr>rbh_root = 0, rbe_left = \<lambda>_. 0, rbe_right = \<lambda>_. 0, rbe_parent = \<lambda>_. 0, rbe_color = \<lambda>_. RB_RED\<rparr>"

definition more_calls :: "two_way_call list" where
  "more_calls = map Table [Insert 5, Insert 2, Insert 9, Insert 7] @ [Nfind 6, Prev 5, Foreach_Reverse, Table (Remove 5), Table Foreach]"

lemma more_answers:
  "all_specs (two_way_spec id) more_calls [] =
     ([Elem 0, Elem 0, Elem 0, Elem 0, Elem 7, Elem 2, Elems [9, 7, 5, 2], Elem 5, Elems [2, 7, 9]], [2, 7, 9])"
  by (simp add: more_calls_def at_key_def list_insert_def list_remove_def beneath_def from_key_def)

lemma more_calls_allowed: "may_all (may_call2 rb_usable) (two_way_spec id) more_calls []"
  by (simp add: more_calls_def rb_usable_def at_key_def list_insert_def list_remove_def)

lemma rb_calls_meet_specs_witness:
  "\<exists>s'. do_all (two_way_do (rb_two_way by_address)) more_calls (RB_INIT no_rb) =
     ret ([Elem 0, Elem 0, Elem 0, Elem 0, Elem 7, Elem 2, Elems [9, 7, 5, 2], Elem 5, Elems [2, 7, 9]], s')"
  using rb_calls_meet_specs [OF by_address_ordered more_calls_allowed, of no_rb] unfolding more_answers by simp

text \<open>The height of a red-black tree.\<close>

fun depth :: "rbt \<Rightarrow> nat" where
  "depth Tip = 0"
| "depth (Br l a c r) = Suc (max (depth l) (depth r))"

lemma rb_ok_size: "rb_ok n t \<Longrightarrow> 2 ^ n \<le> Suc (length (elems t))"
proof (induction n t rule: rb_ok.induct)
  case (3 n l a r)
  then have "2 ^ n \<le> Suc (length (elems l))" "2 ^ n \<le> Suc (length (elems r))" by simp_all
  then show ?case by simp
next
  case (4 n l a r)
  then have "2 ^ n \<le> Suc (length (elems l))" by simp
  then show ?case by simp
qed simp_all

lemma rb_ok_depth: "rb_ok n t \<Longrightarrow> depth t \<le> 2 * n + (if color_of t = RB_RED then 1 else 0)"
  by (induction n t rule: rb_ok.induct) (auto split: if_splits)

lemma balanced_depth:
  assumes "balanced t"
  shows "2 ^ depth t \<le> (Suc (length (elems t)))\<^sup>2"
proof -
  obtain n where n: "rb_ok n t" "color_of t = RB_BLACK" using assms by (auto simp: balanced_def)
  have "2 ^ depth t \<le> (2 :: nat) ^ (2 * n)" by (rule power_increasing) (use rb_ok_depth [OF n(1)] n(2) in simp_all)
  also have "\<dots> = (2 ^ n)\<^sup>2" by (simp add: power_mult mult.commute power2_eq_square flip: power_add)
  also have "\<dots> \<le> (Suc (length (elems t)))\<^sup>2" using rb_ok_size [OF n(1)] by (rule power_mono) simp
  finally show ?thesis .
qed

text \<open>
  C3.  After any client the links, the parent pointers and the colors form a red-black tree: the
  root is black, no red element has a red child, every path has as many black elements as any
  other; so that no path is longer than twice the logarithm of the number of elements, plus one.
\<close>

theorem rb_stays_red_black:
  assumes "ordered_by key cmp" and "may_all (may_call2 rb_usable) (two_way_spec key) calls []"
  shows "\<exists>answers s' t. do_all (two_way_do (rb_two_way cmp)) calls (RB_INIT s) = ret (answers, s') \<and>
    zip_at s' [] t \<and> balanced t \<and> elems t = snd (all_specs (two_way_spec key) calls []) \<and>
    2 ^ depth t \<le> (Suc (length (elems t)))\<^sup>2"
proof -
  have "rb_rep key cmp (RB_INIT s) []" using rb_init_rep [OF assms(1)] .
  from rb.two_way_calls_meet_specs [OF this assms(2)]
  obtain s' t where "do_all (two_way_do (rb_two_way cmp)) calls (RB_INIT s) =
      ret (fst (all_specs (two_way_spec key) calls []), s')" "zip_at s' [] t" "balanced t"
      "elems t = snd (all_specs (two_way_spec key) calls [])"
    unfolding gives_def rb_rep_def by blast
  with balanced_depth show ?thesis by blast
qed

lemma rb_stays_red_black_witness:
  "\<exists>answers s' t. do_all (two_way_do (rb_two_way by_address)) more_calls (RB_INIT no_rb) = ret (answers, s') \<and>
     zip_at s' [] t \<and> balanced t \<and> elems t = [2, 7, 9] \<and> 2 ^ depth t \<le> (Suc (length (elems t)))\<^sup>2"
  using rb_stays_red_black [OF by_address_ordered more_calls_allowed, of no_rb] unfolding more_answers by simp

end
