(* ===== verification/Fmtstream.thy ===== *)
theory Fmtstream
  imports C_Lib Runs
begin

text \<open>
  \<^verbatim>\<open>src/argp/argp-fmtstream.c\<close> and \<^verbatim>\<open>src/argp/argp-fmtstream.h\<close>: streams that wrap words or cut
  lines.  Pointers into the buffer are offsets from its start, and may leave it; reading,
  writing or moving outside it is a crash.  The bytes behind the text are whatever an
  allocation or earlier text left there.  Sizes and margins are far below the limits of their
  types, so that they are numbers here.
\<close>

section \<open>Streams\<close>

text \<open>The stream below, and the allocator, which gives bytes of unknown contents or fails.\<close>

record 'f stdio =
  fwrite_unlocked :: "string \<Rightarrow> 'f \<Rightarrow> nat \<times> 'f"
  putc_unlocked :: "char \<Rightarrow> 'f \<Rightarrow> 'f"
  allocate :: "nat \<Rightarrow> string option"

text \<open>\<open>fs_buf\<close> holds the bytes from \<open>buf\<close> to \<open>end\<close>; \<open>fs_p\<close> is the offset of \<open>p\<close>.\<close>

record 'f fmtstream =
  stream :: 'f
  lmargin :: nat
  rmargin :: nat
  wmargin :: int
  point_offs :: int
  point_col :: int
  fs_buf :: string
  fs_p :: int

definition fs_end :: "'f fmtstream \<Rightarrow> int" where
  "fs_end fs = int (length (fs_buf fs))"

definition isblank :: "char \<Rightarrow> bool" where
  "isblank c \<longleftrightarrow> c = CHR '' '' \<or> c = CHR 0x09"

section \<open>Bytes of the buffer\<close>

definition peek :: "int \<Rightarrow> string \<Rightarrow> char run" where
  "peek i b = (if 0 \<le> i \<and> i < int (length b) then ret (b ! nat i) else crash)"

definition put_byte :: "int \<Rightarrow> char \<Rightarrow> string \<Rightarrow> string run" where
  "put_byte i c b = (if 0 \<le> i \<and> i < int (length b) then ret (b[nat i := c]) else crash)"

text \<open>\<open>n\<close> bytes from \<open>i\<close> on; \<open>memmove\<close>, \<open>memset\<close> and \<open>memcpy\<close>, whose length is a \<open>size_t\<close>.\<close>

definition bytes :: "int \<Rightarrow> int \<Rightarrow> string \<Rightarrow> string" where
  "bytes i n b = take (nat n) (drop (nat i) b)"

definition store :: "int \<Rightarrow> string \<Rightarrow> string \<Rightarrow> string run" where
  "store i s b =
     (if s = [] then ret b
      else if 0 \<le> i \<and> i + int (length s) \<le> int (length b)
      then ret (take (nat i) b @ s @ drop (nat i + length s) b) else crash)"

definition memmove :: "int \<Rightarrow> int \<Rightarrow> int \<Rightarrow> string \<Rightarrow> string run" where
  "memmove dst src n b =
     (if n = 0 then ret b
      else if n < 0 \<or> src < 0 \<or> int (length b) < src + n then crash
      else store dst (bytes src n b) b)"

text \<open>\<open>memchr(buf, '\n', len)\<close>: the offset of the newline.\<close>

fun line_end :: "string \<Rightarrow> nat option" where
  "line_end [] = None"
| "line_end (c # cs) = (if c = CHR 0x0A then Some 0 else map_option Suc (line_end cs))"

definition memchr_nl :: "int \<Rightarrow> int \<Rightarrow> string \<Rightarrow> int option" where
  "memchr_nl buf len b = map_option (\<lambda>i. buf + int i) (line_end (bytes buf len b))"

fun putc_times :: "'f stdio \<Rightarrow> nat \<Rightarrow> 'f \<Rightarrow> 'f" where
  "putc_times io 0 f = f"
| "putc_times io (Suc n) f = putc_times io n (putc_unlocked io (CHR '' '') f)"

section \<open>Wrapping\<close>

text \<open>The spaces of the left margin, at the start of a line.\<close>

definition pad_line :: "'f stdio \<Rightarrow> int \<Rightarrow> 'f fmtstream \<Rightarrow> (int \<times> 'f fmtstream) run" where
  "pad_line io buf fs =
     (if point_col fs = 0 \<and> lmargin fs \<noteq> 0 then
        let pad = int (lmargin fs) in
        andthen
          (if fs_p fs + pad < fs_end fs then
             andthen (memmove (buf + pad) buf (fs_p fs - buf) (fs_buf fs)) (\<lambda>b.
             andthen (store buf (replicate (nat pad) (CHR '' '')) b) (\<lambda>b.
             ret (buf + pad, fs\<lparr>fs_buf := b, fs_p := fs_p fs + pad\<rparr>)))
           else ret (buf, fs\<lparr>stream := putc_times io (nat pad) (stream fs)\<rparr>)) (\<lambda>(buf, fs).
        ret (buf, fs\<lparr>point_col := pad\<rparr>))
      else ret (buf, fs))"

text \<open>Cutting a line that is too long; like the other branches it tells whether the scan goes on.\<close>

definition cut_line :: "int \<Rightarrow> int \<Rightarrow> int \<Rightarrow> 'f fmtstream \<Rightarrow> (bool \<times> int \<times> 'f fmtstream) run" where
  "cut_line buf len nl fs =
     (let r = int (rmargin fs) - 1 in
      if nl < fs_p fs then
        let trunc = buf + (r - point_col fs) in
        andthen (memmove trunc nl (fs_p fs - nl) (fs_buf fs)) (\<lambda>b.
        ret (True, buf + r + 1, fs\<lparr>fs_buf := b, fs_p := fs_p fs - (nl - trunc), point_col := 0\<rparr>))
      else
        let col = point_col fs + len in
        ret (False, buf, fs\<lparr>point_col := col, fs_p := fs_p fs - (col - r)\<rparr>))"

text \<open>\<open>while (p >= buf && !isblank(*p)) --p;\<close> and \<open>do --p; while (p >= buf && isblank(*p));\<close>\<close>

partial_function (option) back_to_blank :: "int \<Rightarrow> int \<Rightarrow> string \<Rightarrow> int run" where
  "back_to_blank buf p b =
     (if p < buf then ret p
      else andthen (peek p b) (\<lambda>c. if isblank c then ret p else back_to_blank buf (p - 1) b))"

declare back_to_blank.simps [code]

partial_function (option) back_over_blanks :: "int \<Rightarrow> int \<Rightarrow> string \<Rightarrow> int run" where
  "back_over_blanks buf p b =
     (let p = p - 1 in
      if p < buf then ret p
      else andthen (peek p b) (\<lambda>c. if isblank c then back_over_blanks buf p b else ret p))"

declare back_over_blanks.simps [code]

text \<open>\<open>do ++p; while (p < nl && !isblank(*p));\<close> and \<open>do ++p; while (isblank(*p));\<close>\<close>

partial_function (option) on_to_blank :: "int \<Rightarrow> int \<Rightarrow> string \<Rightarrow> int run" where
  "on_to_blank nl p b =
     (let p = p + 1 in
      if nl \<le> p then ret p
      else andthen (peek p b) (\<lambda>c. if isblank c then ret p else on_to_blank nl p b))"

declare on_to_blank.simps [code]

partial_function (option) on_over_blanks :: "int \<Rightarrow> string \<Rightarrow> int run" where
  "on_over_blanks p b =
     (let p = p + 1 in
      andthen (peek p b) (\<lambda>c. if isblank c then on_over_blanks p b else ret p))"

declare on_over_blanks.simps [code]

text \<open>
  Where the line is to be broken: the place of the newline and the start of the next line, or
  nothing when an overlong word ends its line.
\<close>

definition break_at :: "int \<Rightarrow> int \<Rightarrow> 'f fmtstream \<Rightarrow> (int \<times> int) option run" where
  "break_at buf nl fs =
     (let b = fs_buf fs; far = buf + (int (rmargin fs) - point_col fs) in
      andthen (back_to_blank buf far b) (\<lambda>p.
      let nextline = p + 1 in
      if buf < nextline then
        andthen (if buf \<le> p then back_over_blanks buf p b else ret p) (\<lambda>p.
        ret (Some (p + 1, nextline)))
      else
        andthen (on_to_blank nl far b) (\<lambda>p.
        if p = nl then ret None
        else andthen (on_over_blanks p b) (\<lambda>nextline. ret (Some (p, nextline))))))"

text \<open>
  Making room for the newline and the blanks of the wrap margin.  The answer is \<open>nl\<close> behind the
  newline, \<open>nextline\<close>, \<open>len\<close> and \<open>buf\<close>.
\<close>

definition make_room ::
  "'f stdio \<Rightarrow> int \<Rightarrow> int \<Rightarrow> int \<Rightarrow> int \<Rightarrow> 'f fmtstream \<Rightarrow> (int \<times> int \<times> int \<times> int \<times> 'f fmtstream) run" where
  "make_room io buf len nl nextline fs =
     (if (if nextline = buf + len + 1 then fs_end fs - nl < wmargin fs + 1
          else nextline - (nl + 1) < wmargin fs) \<and> nextline < fs_p fs then
        if wmargin fs + 1 < fs_end fs - fs_p fs then
          let mv = fs_p fs - nextline in
          andthen (memmove (nl + 1 + wmargin fs) nextline mv (fs_buf fs)) (\<lambda>b.
          let nextline = nl + 1 + wmargin fs; len = nextline + mv - buf in
          andthen (put_byte nl (CHR 0x0A) b) (\<lambda>b.
          ret (nl + 1, nextline, len, buf, fs\<lparr>fs_buf := b\<rparr>)))
        else
          let out = (if 0 < nl then snd (fwrite_unlocked io (bytes 0 nl (fs_buf fs)) (stream fs)) else stream fs) in
          ret (0, nextline, len + buf, 0, fs\<lparr>stream := putc_unlocked io (CHR 0x0A) out\<rparr>)
      else
        andthen (put_byte nl (CHR 0x0A) (fs_buf fs)) (\<lambda>b.
        ret (nl + 1, nextline, len, buf, fs\<lparr>fs_buf := b\<rparr>)))"

text \<open>The blanks of the wrap margin, in the buffer or straight to the stream.\<close>

definition wrap_blanks ::
  "'f stdio \<Rightarrow> int \<Rightarrow> int \<Rightarrow> int \<Rightarrow> int \<Rightarrow> 'f fmtstream \<Rightarrow> (int \<times> 'f fmtstream) run" where
  "wrap_blanks io buf len nl nextline fs =
     (if wmargin fs \<le> nextline - nl \<or> (nextline = buf + len + 1 \<and> wmargin fs \<le> fs_end fs - nextline) then
        andthen (store nl (replicate (nat (wmargin fs)) (CHR '' '')) (fs_buf fs)) (\<lambda>b.
        ret (nl + int (nat (wmargin fs)), fs\<lparr>fs_buf := b\<rparr>))
      else ret (nl, fs\<lparr>stream := putc_times io (nat (wmargin fs)) (stream fs)\<rparr>))"

definition wrap_line ::
  "'f stdio \<Rightarrow> int \<Rightarrow> int \<Rightarrow> int \<Rightarrow> 'f fmtstream \<Rightarrow> (bool \<times> int \<times> 'f fmtstream) run" where
  "wrap_line io buf len nl fs =
     andthen (break_at buf nl fs) (\<lambda>place. case place of
       None \<Rightarrow> ret (True, nl + 1, fs\<lparr>point_col := 0\<rparr>)
     | Some (nl, nextline) \<Rightarrow>
         andthen (make_room io buf len nl nextline fs) (\<lambda>(nl, nextline, len, buf, fs).
         andthen (wrap_blanks io buf len nl nextline fs) (\<lambda>(nl, fs).
         andthen (if nl < nextline then memmove nl nextline (buf + len - nextline) (fs_buf fs)
                  else ret (fs_buf fs)) (\<lambda>b.
         ret (True, nl, fs\<lparr>fs_buf := b, fs_p := nl + (len - (nextline - buf)),
           point_col := (if wmargin fs \<noteq> 0 then wmargin fs else -1)\<rparr>)))))"

text \<open>The body of the loop of \<open>__argp_fmtstream_update\<close>.\<close>

definition update_turn :: "'f stdio \<Rightarrow> int \<Rightarrow> 'f fmtstream \<Rightarrow> (bool \<times> int \<times> 'f fmtstream) run" where
  "update_turn io buf fs =
     andthen (pad_line io buf fs) (\<lambda>(buf, fs).
     let len = fs_p fs - buf;
         fs = (if point_col fs < 0 then fs\<lparr>point_col := 0\<rparr> else fs) in
     case memchr_nl buf len (fs_buf fs) of
       None \<Rightarrow>
         if point_col fs + len < int (rmargin fs)
         then ret (False, buf, fs\<lparr>point_col := point_col fs + len\<rparr>)
         else if wmargin fs < 0 then cut_line buf len (fs_p fs) fs else wrap_line io buf len (fs_p fs) fs
     | Some nl \<Rightarrow>
         if point_col fs + (nl - buf) < int (rmargin fs)
         then ret (True, nl + 1, fs\<lparr>point_col := 0\<rparr>)
         else if wmargin fs < 0 then cut_line buf len nl fs else wrap_line io buf len nl fs)"

partial_function (option) update_loop :: "'f stdio \<Rightarrow> int \<Rightarrow> 'f fmtstream \<Rightarrow> 'f fmtstream run" where
  "update_loop io buf fs =
     (if buf < fs_p fs then
        andthen (update_turn io buf fs) (\<lambda>(go, buf, fs). if go then update_loop io buf fs else ret fs)
      else ret fs)"

declare update_loop.simps [code]

definition argp_fmtstream_update :: "'f stdio \<Rightarrow> 'f fmtstream \<Rightarrow> 'f fmtstream run" where
  "argp_fmtstream_update io fs =
     andthen (update_loop io (point_offs fs) fs) (\<lambda>fs. ret (fs\<lparr>point_offs := fs_p fs\<rparr>))"

section \<open>Making, flushing and freeing\<close>

definition INIT_BUF_SIZE :: nat where "INIT_BUF_SIZE = 200"
definition PRINTF_SIZE_GUESS :: nat where "PRINTF_SIZE_GUESS = 150"

text \<open>\<open>got\<close> tells whether there was memory for the structure itself.\<close>

definition argp_make_fmtstream ::
  "'f stdio \<Rightarrow> bool \<Rightarrow> 'f \<Rightarrow> nat \<Rightarrow> nat \<Rightarrow> int \<Rightarrow> 'f fmtstream option" where
  "argp_make_fmtstream io got f lm rm wm =
     (if \<not> got then None
      else case allocate io INIT_BUF_SIZE of
        None \<Rightarrow> None
      | Some b \<Rightarrow> Some \<lparr>stream = f, lmargin = lm, rmargin = rm, wmargin = wm, point_offs = 0, point_col = 0,
          fs_buf = b, fs_p = 0\<rparr>)"

definition argp_fmtstream_free :: "'f stdio \<Rightarrow> 'f fmtstream \<Rightarrow> 'f run" where
  "argp_fmtstream_free io fs =
     andthen (argp_fmtstream_update io fs) (\<lambda>fs.
     ret (if 0 < fs_p fs then snd (fwrite_unlocked io (bytes 0 (fs_p fs) (fs_buf fs)) (stream fs)) else stream fs))"

definition argp_fmtstream_ensure :: "'f stdio \<Rightarrow> nat \<Rightarrow> 'f fmtstream \<Rightarrow> (bool \<times> 'f fmtstream) run" where
  "argp_fmtstream_ensure io amount fs =
     (if fs_end fs - fs_p fs < int amount then
        andthen (argp_fmtstream_update io fs) (\<lambda>fs.
        let (wrote, f) = fwrite_unlocked io (bytes 0 (fs_p fs) (fs_buf fs)) (stream fs);
            fs = fs\<lparr>stream := f\<rparr> in
        if int wrote = fs_p fs then
          let fs = fs\<lparr>fs_p := 0, point_offs := 0\<rparr> in
          if fs_end fs < int amount then
            if 2 ^ 64 \<le> length (fs_buf fs) + amount then ret (False, fs)
            else case allocate io amount of
              None \<Rightarrow> ret (False, fs)
            | Some g \<Rightarrow> ret (True, fs\<lparr>fs_buf := fs_buf fs @ g, fs_p := 0\<rparr>)
          else ret (True, fs)
        else
          let p = fs_p fs - int wrote in
          andthen (memmove 0 (int wrote) p (fs_buf fs)) (\<lambda>b.
          ret (False, fs\<lparr>fs_buf := b, fs_p := p, point_offs := point_offs fs - int wrote\<rparr>)))
      else ret (True, fs))"

section \<open>Writing\<close>

definition argp_fmtstream_write :: "'f stdio \<Rightarrow> string \<Rightarrow> 'f fmtstream \<Rightarrow> (nat \<times> 'f fmtstream) run" where
  "argp_fmtstream_write io str fs =
     andthen (if fs_p fs + int (length str) \<le> fs_end fs then ret (True, fs)
              else argp_fmtstream_ensure io (length str) fs) (\<lambda>(room, fs).
     if room then
       andthen (store (fs_p fs) str (fs_buf fs)) (\<lambda>b.
       ret (length str, fs\<lparr>fs_buf := b, fs_p := fs_p fs + int (length str)\<rparr>))
     else ret (0, fs))"

definition argp_fmtstream_puts :: "'f stdio \<Rightarrow> string \<Rightarrow> 'f fmtstream \<Rightarrow> (int \<times> 'f fmtstream) run" where
  "argp_fmtstream_puts io str fs =
     (if str \<noteq> [] then
        andthen (argp_fmtstream_write io str fs) (\<lambda>(wrote, fs).
        ret (if wrote = length str then 0 else -1, fs))
      else ret (0, fs))"

text \<open>\<open>None\<close> is \<open>EOF\<close>.\<close>

definition argp_fmtstream_putc :: "'f stdio \<Rightarrow> char \<Rightarrow> 'f fmtstream \<Rightarrow> (char option \<times> 'f fmtstream) run" where
  "argp_fmtstream_putc io c fs =
     andthen (if fs_p fs < fs_end fs then ret (True, fs) else argp_fmtstream_ensure io 1 fs) (\<lambda>(room, fs).
     if room then
       andthen (put_byte (fs_p fs) c (fs_buf fs)) (\<lambda>b.
       ret (Some c, fs\<lparr>fs_buf := b, fs_p := fs_p fs + 1\<rparr>))
     else ret (None, fs))"

text \<open>
  \<open>__argp_fmtstream_printf\<close> of a format and arguments that give \<open>text\<close>, or that \<open>vsnprintf\<close> cannot
  format (\<open>None\<close>).  Then \<open>out\<close> is -1, as a \<open>size_t\<close> not below \<open>avail\<close>, and the next guess is 0.
\<close>

partial_function (option) printf_loop ::
  "'f stdio \<Rightarrow> string option \<Rightarrow> nat \<Rightarrow> 'f fmtstream \<Rightarrow> (int \<times> 'f fmtstream) run" where
  "printf_loop io text size_guess fs =
     andthen (argp_fmtstream_ensure io size_guess fs) (\<lambda>(room, fs).
     if \<not> room then ret (-1, fs)
     else
       let avail = fs_end fs - fs_p fs in
       case text of
         None \<Rightarrow> printf_loop io text 0 fs
       | Some t \<Rightarrow>
           andthen (if 0 < avail then store (fs_p fs) (take (nat avail - 1) t @ [NUL]) (fs_buf fs)
                    else ret (fs_buf fs)) (\<lambda>b.
           let fs = fs\<lparr>fs_buf := b\<rparr> in
           if avail \<le> int (length t) then printf_loop io text (length t + 1) fs
           else ret (int (length t), fs\<lparr>fs_p := fs_p fs + int (length t)\<rparr>)))"

declare printf_loop.simps [code]

definition argp_fmtstream_printf :: "'f stdio \<Rightarrow> string option \<Rightarrow> 'f fmtstream \<Rightarrow> (int \<times> 'f fmtstream) run" where
  "argp_fmtstream_printf io text fs = printf_loop io text PRINTF_SIZE_GUESS fs"

section \<open>Margins and the point\<close>

definition update_pending :: "'f stdio \<Rightarrow> 'f fmtstream \<Rightarrow> 'f fmtstream run" where
  "update_pending io fs = (if point_offs fs < fs_p fs then argp_fmtstream_update io fs else ret fs)"

definition argp_fmtstream_set_lmargin :: "'f stdio \<Rightarrow> nat \<Rightarrow> 'f fmtstream \<Rightarrow> (nat \<times> 'f fmtstream) run" where
  "argp_fmtstream_set_lmargin io m fs =
     andthen (update_pending io fs) (\<lambda>fs. ret (lmargin fs, fs\<lparr>lmargin := m\<rparr>))"

definition argp_fmtstream_set_rmargin :: "'f stdio \<Rightarrow> nat \<Rightarrow> 'f fmtstream \<Rightarrow> (nat \<times> 'f fmtstream) run" where
  "argp_fmtstream_set_rmargin io m fs =
     andthen (update_pending io fs) (\<lambda>fs. ret (rmargin fs, fs\<lparr>rmargin := m\<rparr>))"

definition argp_fmtstream_set_wmargin :: "'f stdio \<Rightarrow> int \<Rightarrow> 'f fmtstream \<Rightarrow> (int \<times> 'f fmtstream) run" where
  "argp_fmtstream_set_wmargin io m fs =
     andthen (update_pending io fs) (\<lambda>fs. ret (wmargin fs, fs\<lparr>wmargin := m\<rparr>))"

definition argp_fmtstream_point :: "'f stdio \<Rightarrow> 'f fmtstream \<Rightarrow> (int \<times> 'f fmtstream) run" where
  "argp_fmtstream_point io fs =
     andthen (update_pending io fs) (\<lambda>fs. ret (if 0 \<le> point_col fs then point_col fs else 0, fs))"

end
