(* ===== verification/Fmt_Layout.thy ===== *)
theory Fmt_Layout
  imports Fmtstream
begin

text \<open>
  What word wrapping should give, line by line, and that scanning a buffer of whole lines gives
  it: for streams without a left margin, whose words are shorter than the lines.
\<close>

section \<open>The reference\<close>

definition last_blank :: "string \<Rightarrow> nat option" where
  "last_blank xs =
     (let n = length (takeWhile (\<lambda>c. \<not> isblank c) (rev xs)) in
      if n = length xs then None else Some (length xs - Suc n))"

definition strip_end :: "string \<Rightarrow> string" where
  "strip_end xs = rev (dropWhile isblank (rev xs))"

text \<open>
  A line that has room from column \<open>col\<close> on stays; otherwise it is broken at its last blank up to
  the margin, without the blanks before that one.
\<close>

function lay :: "nat \<Rightarrow> nat \<Rightarrow> nat \<Rightarrow> string \<Rightarrow> string" where
  "lay rm wm col line =
     (if col + length line < rm then line
      else case last_blank (take (Suc (rm - col)) line) of
        None \<Rightarrow> line
      | Some i \<Rightarrow> strip_end (take i line) @ CHR 0x0A # replicate wm (CHR '' '') @ lay rm wm wm (drop (Suc i) line))"
  by pat_completeness auto

text \<open>The last blank, when there is one.\<close>

lemma last_blank_Some:
  assumes "last_blank xs = Some i"
  shows "i < length xs" and "isblank (xs ! i)" and "\<And>j. i < j \<Longrightarrow> j < length xs \<Longrightarrow> \<not> isblank (xs ! j)"
proof -
  let ?n = "length (takeWhile (\<lambda>c. \<not> isblank c) (rev xs))"
  have n: "?n \<noteq> length xs" and i: "i = length xs - Suc ?n"
    using assms by (auto simp: last_blank_def Let_def split: if_splits)
  have le: "?n < length xs" using n length_takeWhile_le [of "\<lambda>c. \<not> isblank c" "rev xs"] by simp
  then show less: "i < length xs" using i by simp
  have "\<not> \<not> isblank (rev xs ! ?n)" using nth_length_takeWhile [of "\<lambda>c. \<not> isblank c" "rev xs"] le by simp
  then show "isblank (xs ! i)" using le i by (simp add: rev_nth)
  fix j assume j: "i < j" "j < length xs"
  let ?k = "length xs - Suc j"
  have k: "?k < ?n" using j i le by simp
  have "\<not> isblank (takeWhile (\<lambda>c. \<not> isblank c) (rev xs) ! ?k)"
    using nth_mem [OF k] set_takeWhileD by fastforce
  then have "\<not> isblank (rev xs ! ?k)" using takeWhile_nth [OF k] by simp
  then show "\<not> isblank (xs ! j)" using j by (simp add: rev_nth)
qed

lemma last_blank_None: "last_blank xs = None \<longleftrightarrow> (\<forall>c\<in>set xs. \<not> isblank c)"
proof -
  have "length (takeWhile (\<lambda>c. \<not> isblank c) (rev xs)) = length xs \<longleftrightarrow> takeWhile (\<lambda>c. \<not> isblank c) (rev xs) = rev xs"
    by (metis length_rev takeWhile_dropWhile_id append_eq_conv_conj take_all order_refl append_Nil2 length_append
        add_cancel_right_right length_0_conv)
  also have "\<dots> \<longleftrightarrow> (\<forall>c\<in>set xs. \<not> isblank c)" using takeWhile_eq_all_conv by fastforce
  finally show ?thesis by (auto simp: last_blank_def Let_def)
qed

termination lay
proof (relation "measure (\<lambda>(rm, wm, col, line). length line)")
  fix rm wm col line i
  assume "last_blank (take (Suc (rm - col)) line) = Some i"
  then have "i < length line" using last_blank_Some(1) by fastforce
  then show "((rm, wm, wm, drop (Suc i) line), rm, wm, col, line) \<in> measure (\<lambda>(rm, wm, col, line). length line)"
    by simp
qed simp

declare lay.simps [simp del]

text \<open>Among any \<open>n\<close> characters in a row is a blank: every word is shorter than \<open>n\<close>.\<close>

definition words_fit :: "nat \<Rightarrow> string \<Rightarrow> bool" where
  "words_fit n line \<longleftrightarrow> (\<forall>i\<le>length line - n. n \<le> length line \<longrightarrow> list_ex isblank (take n (drop i line)))"

lemma words_fit_drop:
  assumes "words_fit n line"
  shows "words_fit n (drop k line)"
  unfolding words_fit_def
proof (intro allI impI)
  fix i assume i: "i \<le> length (drop k line) - n" "n \<le> length (drop k line)"
  show "list_ex isblank (take n (drop i (drop k line)))"
  proof (cases "k \<le> length line")
    case True
    then have "i + k \<le> length line - n" "n \<le> length line" using i by auto
    then show ?thesis using assms by (simp add: words_fit_def)
  next
    case False
    then have "n = 0" using i by simp
    then show ?thesis using assms by (auto simp: words_fit_def)
  qed
qed

lemma words_fit_blank:
  assumes "words_fit n line" and "n \<le> k" and "k \<le> length line"
  shows "\<exists>i. last_blank (take (Suc k) line) = Some i \<and> i < length line"
proof -
  have "list_ex isblank (take n line)" using assms by (auto simp: words_fit_def dest: spec [of _ 0])
  then obtain c where "c \<in> set (take n line)" "isblank c" by (auto simp: list_ex_iff)
  moreover have "set (take n line) \<subseteq> set (take (Suc k) line)"
    by (rule set_take_subset_set_take) (use assms(2) in simp)
  ultimately have "last_blank (take (Suc k) line) \<noteq> None" using last_blank_None by blast
  then obtain i where "last_blank (take (Suc k) line) = Some i" by blast
  moreover from last_blank_Some(1) [OF this] have "i < length line" by simp
  ultimately show ?thesis by blast
qed

lemma strip_end_length: "length (strip_end xs) \<le> length xs"
  using length_dropWhile_le [of isblank "rev xs"] by (simp add: strip_end_def)

section \<open>Bytes\<close>

lemma store_ret:
  "d + length s \<le> length b \<Longrightarrow> store (int d) s b = ret (take d b @ s @ drop (d + length s) b)"
  by (auto simp: store_def)

lemma memmove_ret:
  "s + n \<le> length b \<Longrightarrow> d + n \<le> length b \<Longrightarrow>
   memmove (int d) (int s) (int n) b = ret (take d b @ take n (drop s b) @ drop (d + n) b)"
  by (auto simp: memmove_def bytes_def store_ret)

lemma peek_ret: "i < length b \<Longrightarrow> peek (int i) b = ret (b ! i)"
  by (simp add: peek_def)

lemma put_byte_ret: "i < length b \<Longrightarrow> put_byte (int i) c b = ret (b[i := c])"
  by (simp add: put_byte_def)

lemma line_end_found: "CHR 0x0A \<notin> set line \<Longrightarrow> line_end (line @ CHR 0x0A # rest) = Some (length line)"
  by (induction line) auto

section \<open>Finding the break\<close>

text \<open>\<open>b\<close> holds \<open>line\<close>, its newline and more from \<open>d\<close> on.\<close>

lemma back_to_blank_found:
  assumes "i \<le> k" and "d + k < length b" and "isblank (b ! (d + i))"
    and "\<And>j. i < j \<Longrightarrow> j \<le> k \<Longrightarrow> \<not> isblank (b ! (d + j))"
  shows "back_to_blank (int d) (int (d + k)) b = ret (int (d + i))"
  using assms
proof (induction "k - i" arbitrary: k)
  case 0
  then have "k = i" by simp
  then show ?case using 0 by (subst back_to_blank.simps) (simp add: peek_ret flip: of_nat_add)
next
  case (Suc n)
  then have k: "i < k" by simp
  have "int (d + k) - 1 = int (d + (k - 1))" using k by simp
  moreover have "back_to_blank (int d) (int (d + (k - 1))) b = ret (int (d + i))"
    by (rule Suc.hyps(1)) (use Suc k in auto)
  ultimately show ?case
    using Suc.prems(2,4) k by (subst back_to_blank.simps) (simp add: peek_ret del: of_nat_add)
qed

lemma strip_end_snoc: "strip_end (xs @ [c]) = (if isblank c then strip_end xs else xs @ [c])"
  by (simp add: strip_end_def)

lemma back_over_blanks_found:
  assumes "d + i \<le> length b"
  shows "back_over_blanks (int d) (int (d + i)) b =
    ret (int d + int (length (strip_end (take i (drop d b)))) - 1)"
  using assms
proof (induction i)
  case 0
  show ?case by (subst back_over_blanks.simps) (simp add: strip_end_def)
next
  case (Suc i)
  have snoc: "take (Suc i) (drop d b) = take i (drop d b) @ [b ! (d + i)]"
    using Suc.prems by (simp add: take_Suc_conv_app_nth)
  have len: "length (take i (drop d b)) = i" using Suc.prems by simp
  have "int (d + Suc i) - 1 = int (d + i)" by simp
  then have "back_over_blanks (int d) (int (d + Suc i)) b =
      (if isblank (b ! (d + i)) then back_over_blanks (int d) (int (d + i)) b else ret (int (d + i)))"
    using Suc.prems by (subst back_over_blanks.simps) (simp add: Let_def peek_ret del: of_nat_add)
  then show ?case using Suc len by (simp add: snoc strip_end_snoc)
qed

section \<open>Making the break\<close>

text \<open>A stream below that takes every byte.\<close>

definition writes_all :: "string stdio \<Rightarrow> bool" where
  "writes_all io \<longleftrightarrow>
     (\<forall>s f. fwrite_unlocked io s f = (length s, f @ s)) \<and> (\<forall>c f. putc_unlocked io c f = f @ [c])"

lemma writes_allD:
  assumes "writes_all io"
  shows "fwrite_unlocked io s f = (length s, f @ s)" "putc_unlocked io c f = f @ [c]"
    "putc_times io n f = f @ replicate n (CHR '' '')"
proof -
  show w: "fwrite_unlocked io s f = (length s, f @ s)" "\<And>c f. putc_unlocked io c f = f @ [c]"
    using assms by (simp_all add: writes_all_def)
  show "putc_times io n f = f @ replicate n (CHR '' '')"
    by (induction n arbitrary: f) (simp_all add: w(2))
qed

text \<open>The part of \<open>wrap_line\<close> behind the choice of the break.\<close>

definition make_break :: "'f stdio \<Rightarrow> int \<Rightarrow> int \<Rightarrow> int \<Rightarrow> int \<Rightarrow> 'f fmtstream \<Rightarrow> (bool \<times> int \<times> 'f fmtstream) run" where
  "make_break io buf len nl nextline fs =
     andthen (make_room io buf len nl nextline fs) (\<lambda>(nl, nextline, len, buf, fs).
     andthen (wrap_blanks io buf len nl nextline fs) (\<lambda>(nl, fs).
     andthen (if nl < nextline then memmove nl nextline (buf + len - nextline) (fs_buf fs)
              else ret (fs_buf fs)) (\<lambda>b.
     ret (True, nl, fs\<lparr>fs_buf := b, fs_p := nl + (len - (nextline - buf)),
       point_col := (if wmargin fs \<noteq> 0 then wmargin fs else -1)\<rparr>))))"

text \<open>
  The bytes \<open>rest\<close> behind the break are moved, and what was before them is followed by a newline
  and the blanks, in the buffer or already written; in the buffer when there was room before \<open>nx\<close>.
\<close>

definition broken :: "string fmtstream \<Rightarrow> nat \<Rightarrow> nat \<Rightarrow> string \<Rightarrow> string \<Rightarrow> nat \<Rightarrow> (bool \<times> int \<times> string fmtstream) run \<Rightarrow> bool" where
  "broken fs wm nx before rest n r \<longleftrightarrow> (\<exists>e b f.
     r = ret (True, int e, fs\<lparr>stream := f, fs_buf := b, fs_p := int (e + length rest),
       point_col := (if wm \<noteq> 0 then int wm else -1)\<rparr>) \<and>
     f @ take e b = before @ CHR 0x0A # replicate wm (CHR '' '') \<and>
     e + length rest \<le> length b \<and> take (length rest) (drop e b) = rest \<and> length b = n \<and> (wm \<le> nx \<longrightarrow> wm \<le> e))"

lemma make_break_ends:
  assumes io: "writes_all io" and fields: "fs_buf fs = b" "fs_p fs = int p" "wmargin fs = int wm" "p \<le> length b"
    and order: "nl < nx" "nx < p"
  shows "broken fs wm nx (stream fs @ take nl b) (take (p - nx) (drop nx b)) (length b)
    (make_break io (int d) (int p - int d) (int nl) (int nx) fs)"
proof -
  note w = writes_allD [OF io]
  let ?sp = "replicate wm (CHR '' '')"
  let ?rest = "take (p - nx) (drop nx b)"
  have ne: "int nx \<noteq> int d + (int p - int d) + 1" using order(2) by simp
  have len: "length ?rest = p - nx" using fields(4) by simp
  have gap: "int p - int nx = int (p - nx)" using order(2) by (simp add: of_nat_diff)
  consider (move) "nx < nl + 1 + wm" "p + wm + 1 < length b" | (flush) "nx < nl + 1 + wm" "\<not> p + wm + 1 < length b"
    | (fits) "nl + 1 + wm \<le> nx" by linarith
  then show ?thesis
  proof cases
    case move
    let ?b1 = "take (nl + 1 + wm) b @ ?rest @ drop (nl + 1 + wm + (p - nx)) b"
    let ?b = "(take nl b @ CHR 0x0A # ?sp) @ ?rest @ drop (nl + 1 + wm + (p - nx)) b"
    have fit: "nl + 1 + wm + (p - nx) \<le> length b" using move(2) order by simp
    have M: "memmove (int (nl + 1 + wm)) (int nx) (int (p - nx)) b = ret ?b1"
      by (rule memmove_ret) (use fit fields(4) order(2) in simp_all)
    have e: "int nl + 1 + int wm = int (nl + 1 + wm)" by simp
    have mv: "memmove (int nl + 1 + int wm) (int nx) (int p - int nx) b = ret ?b1"
      unfolding gap e by (rule M)
    have pb: "put_byte (int nl) (CHR 0x0A) ?b1 = ret (?b1[nl := CHR 0x0A])"
      using fit by (intro put_byte_ret) simp
    have st: "store (int (nl + 1)) ?sp (?b1[nl := CHR 0x0A]) = ret ?b"
    proof -
      have "store (int (nl + 1)) ?sp (?b1[nl := CHR 0x0A]) =
          ret (take (nl + 1) (?b1[nl := CHR 0x0A]) @ ?sp @ drop (nl + 1 + length ?sp) (?b1[nl := CHR 0x0A]))"
        by (rule store_ret) (use fit in simp)
      moreover have "take (nl + 1) (?b1[nl := CHR 0x0A]) = take nl b @ [CHR 0x0A]"
        using fit by (simp add: take_update_swap take_Suc_conv_app_nth list_update_append)
      moreover have "drop (nl + 1 + length ?sp) (?b1[nl := CHR 0x0A]) = ?rest @ drop (nl + 1 + wm + (p - nx)) b"
        using fit by simp
      ultimately show ?thesis by simp
    qed
    have run: "make_break io (int d) (int p - int d) (int nl) (int nx) fs =
        ret (True, int (nl + 1 + wm), fs\<lparr>stream := stream fs, fs_buf := ?b, fs_p := int (nl + 1 + wm + (p - nx)),
          point_col := (if wm \<noteq> 0 then int wm else -1)\<rparr>)"
      using move order ne mv pb st fields
      by (simp add: make_break_def make_room_def wrap_blanks_def Let_def fs_end_def of_nat_diff add.commute add.left_commute)
    show ?thesis
      unfolding broken_def
      by (rule exI [of _ "nl + 1 + wm"], rule exI [of _ ?b], rule exI [of _ "stream fs"])
         (use run len fit order fields(4) in \<open>simp, arith\<close>)
  next
    case flush
    have out: "snd (fwrite_unlocked io (bytes 0 (int nl) b) (stream fs)) = stream fs @ take nl b"
      using w(1) by (simp add: bytes_def)
    let ?f = "stream fs @ take nl b @ [CHR 0x0A]"
    show ?thesis
    proof (cases "wm \<le> nx")
      case True
      let ?b1 = "?sp @ drop wm b"
      let ?b = "if wm < nx then take wm ?b1 @ take (p - nx) (drop nx ?b1) @ drop (wm + (p - nx)) ?b1 else ?b1"
      have st: "store 0 ?sp b = ret ?b1"
        using store_ret [of 0 ?sp b] True order(2) fields(4) by simp
      have mv: "memmove (int wm) (int nx) (int p - int nx) ?b1 =
          ret (take wm ?b1 @ take (p - nx) (drop nx ?b1) @ drop (wm + (p - nx)) ?b1)"
        unfolding gap by (rule memmove_ret) (use True order(2) fields(4) in simp_all)
      have rest: "drop nx ?b1 = drop nx b" using True by simp
      have run: "make_break io (int d) (int p - int d) (int nl) (int nx) fs =
          ret (True, int wm, fs\<lparr>stream := ?f, fs_buf := ?b, fs_p := int (wm + (p - nx)),
            point_col := (if wm \<noteq> 0 then int wm else -1)\<rparr>)"
        using flush order ne st mv fields True w
        by (cases "nl = 0") (simp_all add: make_break_def make_room_def wrap_blanks_def Let_def fs_end_def bytes_def of_nat_diff)
      have start: "take wm ?b = ?sp" by simp
      have tail: "take (p - nx) (drop wm ?b) = ?rest"
      proof (cases "wm < nx")
        case less: True
        have "drop wm ?b = take (p - nx) (drop nx b) @ drop (wm + (p - nx)) ?b1"
          using less rest by simp
        then show ?thesis using len by simp
      next
        case False
        then show ?thesis using True by simp
      qed
      have same: "length ?b = length b" using True order(2) fields(4) by auto
      show ?thesis
        unfolding broken_def
        by (rule exI [of _ wm], rule exI [of _ ?b], rule exI [of _ ?f], intro conjI)
           (use run len True start tail same order fields(4) in \<open>simp_all only: length_append, simp_all\<close>)
    next
      case False
      let ?b = "?rest @ drop (p - nx) b"
      let ?f2 = "?f @ ?sp"
      have mv: "memmove 0 (int nx) (int p - int nx) b = ret ?b"
        unfolding gap using memmove_ret [of nx "p - nx" b 0] order(2) fields(4) by simp
      have run: "make_break io (int d) (int p - int d) (int nl) (int nx) fs =
          ret (True, int 0, fs\<lparr>stream := ?f2, fs_buf := ?b, fs_p := int (0 + (p - nx)),
            point_col := (if wm \<noteq> 0 then int wm else -1)\<rparr>)"
        using flush order ne mv fields False w
        by (cases "nl = 0") (simp_all add: make_break_def make_room_def wrap_blanks_def Let_def fs_end_def bytes_def of_nat_diff)
      show ?thesis
        unfolding broken_def
        by (rule exI [of _ 0], rule exI [of _ ?b], rule exI [of _ ?f2])
           (use run len order fields(4) False in auto)
    qed
  next
    case fits
    let ?b1 = "b[nl := CHR 0x0A]"
    let ?e = "nl + 1 + wm"
    let ?b2 = "(take nl b @ CHR 0x0A # ?sp) @ drop ?e b"
    let ?b = "if ?e < nx then take ?e ?b2 @ take (p - nx) (drop nx ?b2) @ drop (?e + (p - nx)) ?b2 else ?b2"
    have inside: "nl < length b" "?e \<le> length b" "nx \<le> length b" using fits order fields(4) by simp_all
    have pb: "put_byte (int nl) (CHR 0x0A) b = ret ?b1" by (rule put_byte_ret) (rule inside(1))
    have "store (int (nl + 1)) ?sp ?b1 = ret (take (nl + 1) ?b1 @ ?sp @ drop (nl + 1 + length ?sp) ?b1)"
      by (rule store_ret) (use inside(2) in simp)
    moreover have "take (nl + 1) ?b1 = take nl b @ [CHR 0x0A]"
      using inside(1) by (simp add: take_update_swap take_Suc_conv_app_nth list_update_append)
    ultimately have st: "store (int nl + 1) ?sp ?b1 = ret ?b2" by (simp add: add.commute)
    have e: "int nl + 1 + int wm = int ?e" by simp
    have mv: "memmove (int nl + 1 + int wm) (int nx) (int p - int nx) ?b2 =
        ret (take ?e ?b2 @ take (p - nx) (drop nx ?b2) @ drop (?e + (p - nx)) ?b2)"
      unfolding gap e by (rule memmove_ret) (use fits inside order(2) fields(4) in simp_all)
    have head: "length (take nl b @ CHR 0x0A # ?sp) = ?e" using inside(1) by simp
    have rest: "drop nx ?b2 = drop nx b"
      unfolding drop_append head using fits inside by simp
    have run: "make_break io (int d) (int p - int d) (int nl) (int nx) fs =
        ret (True, int ?e, fs\<lparr>stream := stream fs, fs_buf := ?b, fs_p := int (?e + (p - nx)),
          point_col := (if wm \<noteq> 0 then int wm else -1)\<rparr>)"
      using fits order ne pb st mv fields
      by (simp add: make_break_def make_room_def wrap_blanks_def Let_def fs_end_def of_nat_diff)
    have start: "take ?e ?b2 = take nl b @ CHR 0x0A # ?sp" unfolding take_append head by (use inside(1) in simp)
    have same2: "length ?b2 = length b" using inside by simp
    define b2 where "b2 = ?b2"
    have b2: "drop nx b2 = drop nx b" "take ?e b2 = take nl b @ CHR 0x0A # ?sp" "length b2 = length b"
      using rest start same2 by (simp_all only: b2_def)
    define bb where
      "bb = (if ?e < nx then take ?e b2 @ take (p - nx) (drop nx b2) @ drop (?e + (p - nx)) b2 else b2)"
    have bb: "take ?e bb = take nl b @ CHR 0x0A # ?sp" "take (p - nx) (drop ?e bb) = ?rest" "length bb = length b"
    proof -
      have le: "length (take ?e b2) = ?e" using b2(3) inside(2) by simp
      have "take ?e bb = take ?e b2" unfolding bb_def take_append le using b2(3) inside(2) by (cases "?e < nx") simp_all
      then show "take ?e bb = take nl b @ CHR 0x0A # ?sp" using b2(2) by simp
      show "take (p - nx) (drop ?e bb) = ?rest"
      proof (cases "?e < nx")
        case True
        then have "drop ?e bb = take (p - nx) (drop nx b) @ drop (?e + (p - nx)) b2"
          unfolding bb_def using le b2(1) by simp
        then show ?thesis using len by simp
      next
        case False
        then show ?thesis using fits b2(1) by (simp add: bb_def)
      qed
      show "length bb = length b" using le b2(3) order(2) fields(4) fits by (cases "?e < nx") (simp_all add: bb_def min_absorb2)
    qed
    have "make_break io (int d) (int p - int d) (int nl) (int nx) fs =
        ret (True, int ?e, fs\<lparr>stream := stream fs, fs_buf := bb, fs_p := int (?e + (p - nx)),
          point_col := (if wm \<noteq> 0 then int wm else -1)\<rparr>)"
      unfolding bb_def b2_def by (rule run)
    then show ?thesis
      unfolding broken_def len bb(1) [symmetric]
      by (intro exI [of _ ?e] exI [of _ bb] exI [of _ "stream fs"] conjI)
         (use bb inside order fields(4) fits in \<open>simp_all only:, simp_all\<close>)
  qed
qed


lemma wrap_line_break: "wrap_line io buf len nl fs = andthen (break_at buf nl fs) (\<lambda>place. case place of
    None \<Rightarrow> ret (True, nl + 1, fs\<lparr>point_col := 0\<rparr>) | Some (nl, nx) \<Rightarrow> make_break io buf len nl nx fs)"
  unfolding wrap_line_def make_break_def by (rule refl)

section \<open>One turn of the scan\<close>

text \<open>
  The scan stands at \<open>d\<close>, in column \<open>col\<close>, before the bytes \<open>rest\<close>; what is before it is \<open>out\<close>,
  part of it written and the rest in the buffer, which has \<open>n\<close> bytes.
\<close>

definition scanning :: "nat \<Rightarrow> nat \<Rightarrow> nat \<Rightarrow> string \<Rightarrow> nat \<Rightarrow> string \<Rightarrow> nat \<Rightarrow> string fmtstream \<Rightarrow> bool" where
  "scanning r w n out col rest d fs \<longleftrightarrow>
     lmargin fs = 0 \<and> rmargin fs = r \<and> wmargin fs = int w \<and> max 0 (point_col fs) = int col \<and>
     fs_p fs = int (d + length rest) \<and> d + length rest \<le> length (fs_buf fs) \<and>
     take (length rest) (drop d (fs_buf fs)) = rest \<and> stream fs @ take d (fs_buf fs) = out \<and>
     length (fs_buf fs) = n"

lemma scanning_nth:
  assumes "scanning r w n out col rest d fs" and "j < length rest"
  shows "fs_buf fs ! (d + j) = rest ! j"
proof -
  have "rest ! j = take (length rest) (drop d (fs_buf fs)) ! j" using assms by (simp add: scanning_def)
  then show ?thesis using assms by (simp add: scanning_def)
qed

lemma turn_start:
  assumes sc: "scanning r w n out col (line @ CHR 0x0A # rest) d fs" and line: "CHR 0x0A \<notin> set line"
  shows "update_turn io (int d) fs =
    (let fs = fs\<lparr>point_col := int col\<rparr> in
     if col + length line < r then ret (True, int (d + length line) + 1, fs\<lparr>point_col := 0\<rparr>)
     else wrap_line io (int d) (fs_p fs - int d) (int (d + length line)) fs)"
proof -
  have p: "fs_p fs - int d = int (length (line @ CHR 0x0A # rest))" using sc by (simp add: scanning_def)
  have "memchr_nl (int d) (fs_p fs - int d) (fs_buf fs) = Some (int (d + length line))"
  proof -
    have "bytes (int d) (fs_p fs - int d) (fs_buf fs) = line @ CHR 0x0A # rest"
      unfolding p bytes_def nat_int using sc by (simp only: scanning_def)
    then show ?thesis unfolding memchr_nl_def using line_end_found [OF line, of rest] by simp
  qed
  moreover have "(if point_col fs < 0 then fs\<lparr>point_col := 0\<rparr> else fs) = fs\<lparr>point_col := int col\<rparr>"
    using sc by (simp add: scanning_def max_def split: if_splits)
  ultimately show ?thesis
    using sc by (simp add: update_turn_def pad_line_def scanning_def Let_def)
qed

lemma turn_keeps:
  assumes sc: "scanning r w n out col (line @ CHR 0x0A # rest) d fs" and line: "CHR 0x0A \<notin> set line"
    and room: "col + length line < r"
  shows "\<exists>fs'. update_turn io (int d) fs = ret (True, int (d + length line + 1), fs') \<and>
    scanning r w n (out @ line @ [CHR 0x0A]) 0 rest (d + length line + 1) fs'"
proof -
  let ?b = "fs_buf fs"
  have all: "take (length line + 1 + length rest) (drop d ?b) = line @ CHR 0x0A # rest"
    using sc by (simp add: scanning_def add.commute add.left_commute)
  have "take (length line + 1) (drop d ?b) = take (length line + 1) (take (length line + 1 + length rest) (drop d ?b))"
    by (simp add: take_take min_def)
  then have head: "take (d + length line + 1) ?b = take d ?b @ line @ [CHR 0x0A]"
    unfolding all using take_add [of d "length line + 1" ?b] by simp
  have "take (length rest) (drop (d + length line + 1) ?b) =
      drop (length line + 1) (take (length line + 1 + length rest) (drop d ?b))"
    by (simp add: drop_take add.commute add.left_commute)
  then have tail: "take (length rest) (drop (d + length line + 1) ?b) = rest" unfolding all by simp
  show ?thesis
    using sc room head tail by (simp add: turn_start [OF sc line] Let_def scanning_def algebra_simps)
qed

lemma turn_breaks:
  assumes io: "writes_all io" and sc: "scanning r w n out col (line @ CHR 0x0A # rest) d fs"
    and line: "CHR 0x0A \<notin> set line" and full: "r \<le> col + length line" and col: "col \<le> r"
    and blank: "last_blank (take (Suc (r - col)) line) = Some i"
  shows "\<exists>d' fs'. update_turn io (int d) fs = ret (True, int d', fs') \<and>
    scanning r w n (out @ strip_end (take i line) @ CHR 0x0A # replicate w (CHR '' '')) w
      (drop (Suc i) line @ CHR 0x0A # rest) d' fs'"
proof -
  let ?b = "fs_buf fs" and ?T = "line @ CHR 0x0A # rest" and ?fs = "fs\<lparr>point_col := int col\<rparr>"
  let ?k = "r - col" and ?s = "strip_end (take i line)"
  let ?nl = "d + length ?s" and ?nx = "d + i + 1" and ?p = "d + length ?T"
  note f = sc [unfolded scanning_def]
  note last = last_blank_Some [OF blank]
  have i: "i < length line" "i \<le> ?k" using last(1) by simp_all
  have k: "?k \<le> length line" using full by simp
  have at_line: "?b ! (d + j) = line ! j" if "j < length line" for j
    using scanning_nth [OF sc, of j] that by (simp add: nth_append)
  have at_nl: "?b ! (d + length line) = CHR 0x0A" using scanning_nth [OF sc, of "length line"] by simp
  have "isblank (?b ! (d + i))" using last(2) at_line i by simp
  moreover have "\<not> isblank (?b ! (d + j))" if "i < j" "j \<le> ?k" for j
  proof (cases "j < length line")
    case True
    then show ?thesis using last(3) [of j] at_line that by simp
  next
    case False
    then have "j = length line" using that k by simp
    then show ?thesis using at_nl by (simp add: isblank_def)
  qed
  ultimately have bb: "back_to_blank (int d) (int (d + ?k)) ?b = ret (int (d + i))"
    using i f k by (intro back_to_blank_found) auto
  have take_i: "take i (drop d ?b) = take i line"
  proof -
    have "take i (drop d ?b) = take i (take (length ?T) (drop d ?b))" using i by (simp add: take_take min_def)
    also have "\<dots> = take i ?T" using f by simp
    finally show ?thesis using i by simp
  qed
  have bo: "back_over_blanks (int d) (int (d + i)) ?b = ret (int d + int (length ?s) - 1)"
    using back_over_blanks_found [of d i ?b] f i unfolding take_i by simp
  have far: "int d + (int (rmargin ?fs) - point_col ?fs) = int (d + ?k)" using f col by (simp add: of_nat_diff)
  have broke: "break_at (int d) (int (d + length line)) ?fs = ret (Some (int ?nl, int ?nx))"
    unfolding break_at_def Let_def far using bb bo by simp
  have s: "length ?s \<le> i" using strip_end_length [of "take i line"] i by simp
  have "broken ?fs w ?nx (stream ?fs @ take ?nl ?b) (take (?p - ?nx) (drop ?nx ?b)) (length ?b)
      (make_break io (int d) (int ?p - int d) (int ?nl) (int ?nx) ?fs)"
    by (rule make_break_ends [OF io]) (use f s i in simp_all)
  moreover have before: "stream ?fs @ take ?nl ?b = out @ ?s"
  proof -
    have "?s = take (length ?s) (take i line)"
      unfolding strip_end_def by (metis append_eq_conv_conj rev_append rev_rev_ident takeWhile_dropWhile_id)
    moreover have "take (length ?s) (drop d ?b) = take (length ?s) (take i (drop d ?b))"
      using s by (simp add: take_take min_def)
    ultimately have "take (length ?s) (drop d ?b) = ?s" unfolding take_i by simp
    then have "take ?nl ?b = take d ?b @ ?s" by (simp add: take_add)
    then show ?thesis using f by simp
  qed
  moreover have "take (?p - ?nx) (drop ?nx ?b) = drop (Suc i) line @ CHR 0x0A # rest"
  proof -
    have "take (?p - ?nx) (drop ?nx ?b) = drop (Suc i) (take (length ?T) (drop d ?b))"
      by (simp add: drop_take add.commute add.left_commute)
    also have "\<dots> = drop (Suc i) ?T" using f by simp
    finally show ?thesis using i by simp
  qed
  ultimately have "broken ?fs w ?nx (out @ ?s) (drop (Suc i) line @ CHR 0x0A # rest) (length ?b)
      (make_break io (int d) (int ?p - int d) (int ?nl) (int ?nx) ?fs)" by (simp only:)
  then obtain e c g where run: "make_break io (int d) (int ?p - int d) (int ?nl) (int ?nx) ?fs =
      ret (True, int e, ?fs\<lparr>stream := g, fs_buf := c, fs_p := int (e + length (drop (Suc i) line @ CHR 0x0A # rest)),
        point_col := (if w \<noteq> 0 then int w else -1)\<rparr>)"
    and c: "g @ take e c = (out @ ?s) @ CHR 0x0A # replicate w (CHR '' '')"
      "e + length (drop (Suc i) line @ CHR 0x0A # rest) \<le> length c"
      "take (length (drop (Suc i) line @ CHR 0x0A # rest)) (drop e c) = drop (Suc i) line @ CHR 0x0A # rest"
      "length c = length ?b"
    unfolding broken_def by blast
  have "update_turn io (int d) fs = wrap_line io (int d) (int ?p - int d) (int (d + length line)) ?fs"
    using turn_start [OF sc line, of io] full f by (simp add: Let_def)
  also have "\<dots> = make_break io (int d) (int ?p - int d) (int ?nl) (int ?nx) ?fs"
    unfolding wrap_line_break broke by simp
  finally have "update_turn io (int d) fs = ret (True, int e, ?fs\<lparr>stream := g, fs_buf := c,
      fs_p := int (e + length (drop (Suc i) line @ CHR 0x0A # rest)), point_col := (if w \<noteq> 0 then int w else -1)\<rparr>)"
    unfolding run .
  moreover have "scanning r w n (out @ ?s @ CHR 0x0A # replicate w (CHR '' '')) w (drop (Suc i) line @ CHR 0x0A # rest) e
      (?fs\<lparr>stream := g, fs_buf := c, fs_p := int (e + length (drop (Suc i) line @ CHR 0x0A # rest)),
        point_col := (if w \<noteq> 0 then int w else -1)\<rparr>)"
    using c f unfolding scanning_def by (simp del: length_append length_drop)
  ultimately show ?thesis by blast
qed

end
