(* ===== verification/Fmt_Wrap.thy ===== *)
theory Fmt_Wrap
  imports Fmt_Layout
begin

text \<open>
  The whole stream: however a text of whole lines is cut into writes, and wherever the buffer
  is flushed between them, what comes out is the layout of its lines.
\<close>

section \<open>Lines of a text\<close>

fun split_lines :: "string \<Rightarrow> string \<Rightarrow> string list" where
  "split_lines line [] = []"
| "split_lines line (c # cs) =
     (if c = CHR 0x0A then line # split_lines [] cs else split_lines (line @ [c]) cs)"

definition lines_of :: "string \<Rightarrow> string list" where
  "lines_of str = split_lines [] str"

definition flat :: "string list \<Rightarrow> string" where
  "flat ls = concat (map (\<lambda>l. l @ [CHR 0x0A]) ls)"

text \<open>What a text of whole lines should become.\<close>

definition layout :: "nat \<Rightarrow> nat \<Rightarrow> string list \<Rightarrow> string" where
  "layout r w ls = flat (map (lay r w 0) ls)"

definition whole :: "string \<Rightarrow> bool" where
  "whole str \<longleftrightarrow> str = [] \<or> List.last str = CHR 0x0A"

lemma flat_simps [simp]: "flat [] = []" "flat (l # ls) = l @ CHR 0x0A # flat ls" "flat (ks @ ls) = flat ks @ flat ls"
  by (simp_all add: flat_def)

lemma layout_simps [simp]:
  "layout r w [] = []" "layout r w (l # ls) = lay r w 0 l @ CHR 0x0A # layout r w ls"
  "layout r w (ks @ ls) = layout r w ks @ layout r w ls"
  by (simp_all add: layout_def)

lemma split_lines_flat:
  "str = [] \<or> List.last str = CHR 0x0A \<Longrightarrow> (if str = [] then [] else line) @ str = flat (split_lines line str)"
proof (induction line str rule: split_lines.induct)
  case (2 line c cs)
  then show ?case by (cases "cs = []") auto
qed simp

lemma lines_of_flat: "whole str \<Longrightarrow> flat (lines_of str) = str"
  using split_lines_flat [of str "[]"] by (simp add: lines_of_def whole_def)

lemma split_lines_no_newline:
  "CHR 0x0A \<notin> set line \<Longrightarrow> l \<in> set (split_lines line str) \<Longrightarrow> CHR 0x0A \<notin> set l"
  by (induction line str rule: split_lines.induct) (auto split: if_splits)

lemma split_lines_append:
  "whole s \<Longrightarrow> (s = [] \<Longrightarrow> line = []) \<Longrightarrow> split_lines line (s @ t) = split_lines line s @ split_lines [] t"
proof (induction line s rule: split_lines.induct)
  case (2 line c cs)
  then show ?case by (cases "cs = []") (auto simp: whole_def)
qed simp

lemma lines_of_append: "whole s \<Longrightarrow> lines_of (s @ t) = lines_of s @ lines_of t"
  by (simp add: lines_of_def split_lines_append)

text \<open>Lines without a newline, whose words are shorter than the room behind the wrap margin.\<close>

definition fitting :: "nat \<Rightarrow> nat \<Rightarrow> string list \<Rightarrow> bool" where
  "fitting r w ls \<longleftrightarrow> (\<forall>l\<in>set ls. CHR 0x0A \<notin> set l \<and> words_fit (r - w) l)"

lemma fitting_simps [simp]:
  "fitting r w []" "fitting r w (l # ls) \<longleftrightarrow> CHR 0x0A \<notin> set l \<and> words_fit (r - w) l \<and> fitting r w ls"
  "fitting r w (ks @ ls) \<longleftrightarrow> fitting r w ks \<and> fitting r w ls"
  by (auto simp: fitting_def)

section \<open>The scan of whole lines\<close>

lemma loop_lays:
  assumes io: "writes_all io" and margins: "w < r"
    and "scanning r w n out col (line @ CHR 0x0A # flat ls) d fs" and "col \<le> w" and "fitting r w (line # ls)"
  shows "\<exists>d' fs'. update_loop io (int d) fs = ret fs' \<and>
    scanning r w n (out @ lay r w col line @ CHR 0x0A # layout r w ls) 0 [] d' fs'"
  using assms(3-)
proof (induction "length (line @ flat ls)" arbitrary: out col line ls d fs rule: less_induct)
  case less
  note sc = less.prems(1)
  have line: "CHR 0x0A \<notin> set line" using less.prems by simp
  have go: "update_loop io (int d) fs =
      andthen (update_turn io (int d) fs) (\<lambda>(go, buf, fs). if go then update_loop io buf fs else ret fs)"
    using sc by (subst update_loop.simps) (simp add: scanning_def)
  show ?case
  proof (cases "col + length line < r")
    case True
    obtain fs1 where turn: "update_turn io (int d) fs = ret (True, int (d + length line + 1), fs1)"
      and sc1: "scanning r w n (out @ line @ [CHR 0x0A]) 0 (flat ls) (d + length line + 1) fs1"
      using turn_keeps [OF sc line True, of io] by blast
    have kept: "lay r w col line = line" using True by (simp add: lay.simps)
    show ?thesis
    proof (cases ls)
      case Nil
      have "update_loop io (int (d + length line + 1)) fs1 = ret fs1"
        using sc1 Nil by (subst update_loop.simps) (simp add: scanning_def)
      then show ?thesis using go turn sc1 Nil kept by auto
    next
      case (Cons l ls')
      have "\<exists>d' fs'. update_loop io (int (d + length line + 1)) fs1 = ret fs' \<and>
          scanning r w n ((out @ line @ [CHR 0x0A]) @ lay r w 0 l @ CHR 0x0A # layout r w ls') 0 [] d' fs'"
        by (rule less.hyps) (use sc1 Cons less.prems in auto)
      then show ?thesis using go turn Cons kept by auto
    qed
  next
    case False
    have "r - w \<le> r - col" "r - col \<le> length line" using less.prems(2) False by simp_all
    then obtain i where i: "last_blank (take (Suc (r - col)) line) = Some i" "i < length line"
      using words_fit_blank [of "r - w" line "r - col"] less.prems(3) by auto
    let ?out = "out @ strip_end (take i line) @ CHR 0x0A # replicate w (CHR '' '')"
    obtain d1 fs1 where turn: "update_turn io (int d) fs = ret (True, int d1, fs1)"
      and sc1: "scanning r w n ?out w (drop (Suc i) line @ CHR 0x0A # flat ls) d1 fs1"
      using turn_breaks [OF io sc line _ _ i(1)] False less.prems(2) margins by auto
    have "\<exists>d' fs'. update_loop io (int d1) fs1 = ret fs' \<and>
        scanning r w n (?out @ lay r w w (drop (Suc i) line) @ CHR 0x0A # layout r w ls) 0 [] d' fs'"
      by (rule less.hyps) (use sc1 i less.prems words_fit_drop in \<open>auto dest: in_set_dropD\<close>)
    moreover have "lay r w col line =
        strip_end (take i line) @ CHR 0x0A # replicate w (CHR '' '') @ lay r w w (drop (Suc i) line)"
      using False i(1) by (subst lay.simps) simp
    ultimately show ?thesis using go turn by auto
  qed
qed

text \<open>Between calls: whole lines wait to be scanned.\<close>

definition pending :: "nat \<Rightarrow> nat \<Rightarrow> nat \<Rightarrow> string \<Rightarrow> string fmtstream \<Rightarrow> bool" where
  "pending r w n out fs \<longleftrightarrow> (\<exists>laid ls d. scanning r w n laid 0 (flat ls) d fs \<and> fitting r w ls \<and>
     point_offs fs = int d \<and> laid @ layout r w ls = out)"

lemma update_lays:
  assumes io: "writes_all io" and margins: "w < r" and fs: "pending r w n out fs"
  shows "\<exists>d fs'. argp_fmtstream_update io fs = ret fs' \<and> scanning r w n out 0 [] d fs' \<and> point_offs fs' = int d"
proof -
  obtain laid ls d where sc: "scanning r w n laid 0 (flat ls) d fs" and ls: "fitting r w ls"
    and d: "point_offs fs = int d" and out: "laid @ layout r w ls = out" using fs unfolding pending_def by blast
  have "\<exists>d' fs'. update_loop io (int d) fs = ret fs' \<and> scanning r w n out 0 [] d' fs'"
  proof (cases ls)
    case Nil
    have "update_loop io (int d) fs = ret fs"
      using sc Nil by (subst update_loop.simps) (simp add: scanning_def)
    then show ?thesis using sc Nil out by auto
  next
    case (Cons l ls')
    then show ?thesis using loop_lays [OF io margins, where out = laid and col = 0 and line = l and ls = ls' and d = d and fs = fs] sc ls out by auto
  qed
  then obtain d' fs' where "update_loop io (int d) fs = ret fs'" "scanning r w n out 0 [] d' fs'" by blast
  then show ?thesis
    by (intro exI [of _ d'] exI [of _ "fs'\<lparr>point_offs := fs_p fs'\<rparr>"])
       (simp add: argp_fmtstream_update_def d scanning_def)
qed


lemma pending_p:
  assumes "pending r w n out fs"
  obtains p where "fs_p fs = int p" "p \<le> n" "length (fs_buf fs) = n"
  using assms that unfolding pending_def scanning_def by blast

lemma update_pending_lays:
  assumes "writes_all io" and "w < r" and "pending r w n out fs"
  obtains p fs' where "argp_fmtstream_update io fs = ret fs'" and "scanning r w n out 0 [] p fs'"
  using update_lays [OF assms] by blast

text \<open>Bytes stored behind the text, and text that follows.\<close>

lemma pending_store:
  assumes fs: "pending r w n out fs" and p: "fs_p fs = int p" and room: "p + length s \<le> n"
  shows "store (fs_p fs) s (fs_buf fs) = ret (take p (fs_buf fs) @ s @ drop (p + length s) (fs_buf fs))"
    and "pending r w n out (fs\<lparr>fs_buf := take p (fs_buf fs) @ s @ drop (p + length s) (fs_buf fs)\<rparr>)"
    and "s = flat ks \<Longrightarrow> fitting r w ks \<Longrightarrow> pending r w n (out @ layout r w ks)
      (fs\<lparr>fs_buf := take p (fs_buf fs) @ s @ drop (p + length s) (fs_buf fs), fs_p := fs_p fs + int (length s)\<rparr>)"
proof -
  let ?b = "take p (fs_buf fs) @ s @ drop (p + length s) (fs_buf fs)"
  obtain laid ls d where sc: "scanning r w n laid 0 (flat ls) d fs" and ls: "fitting r w ls"
    and d: "point_offs fs = int d" and out: "laid @ layout r w ls = out" using fs unfolding pending_def by blast
  have pd: "p = d + length (flat ls)" using sc p by (simp add: scanning_def flip: of_nat_add)
  have len: "length ?b = n" using sc room pd by (simp add: scanning_def)
  have d': "take d ?b = take d (fs_buf fs)" using pd sc by (simp add: scanning_def)
  have wait: "take (length (flat ls @ s)) (drop d ?b) = flat ls @ s"
  proof -
    have "drop d (take p (fs_buf fs)) = flat ls" using sc pd by (simp add: scanning_def drop_take)
    moreover have "drop d ?b = drop d (take p (fs_buf fs)) @ s @ drop (p + length s) (fs_buf fs)"
      using pd sc by (simp add: scanning_def)
    ultimately show ?thesis by simp
  qed
  have wait0: "take (length (flat ls)) (drop d ?b) = flat ls"
  proof -
    have "take (length (flat ls)) (drop d ?b) = take (length (flat ls)) (take (length (flat ls @ s)) (drop d ?b))"
      by (simp only: take_take) (simp add: min_def)
    then show ?thesis unfolding wait by simp
  qed
  show "store (fs_p fs) s (fs_buf fs) = ret ?b"
    unfolding p by (rule store_ret) (use sc room in \<open>simp add: scanning_def\<close>)
  have "scanning r w n laid 0 (flat ls) d (fs\<lparr>fs_buf := ?b\<rparr>)"
    using sc len d' wait0 unfolding scanning_def by (simp del: take_append drop_append length_append)
  then show "pending r w n out (fs\<lparr>fs_buf := ?b\<rparr>)" using ls d out unfolding pending_def by auto
  assume s: "s = flat ks" "fitting r w ks"
  have "scanning r w n laid 0 (flat (ls @ ks)) d (fs\<lparr>fs_buf := ?b, fs_p := fs_p fs + int (length s)\<rparr>)"
    using sc len d' wait room pd unfolding scanning_def s(1) [symmetric] flat_simps
    by (simp del: take_append drop_append)
  then show "pending r w n (out @ layout r w ks) (fs\<lparr>fs_buf := ?b, fs_p := fs_p fs + int (length s)\<rparr>)"
    using ls s d out unfolding pending_def
    by (intro exI [of _ laid] exI [of _ "ls @ ks"] exI [of _ d]) auto
qed

section \<open>Room\<close>

definition allocates :: "'f stdio \<Rightarrow> bool" where
  "allocates io \<longleftrightarrow> (\<forall>n. \<exists>b. allocate io n = Some b \<and> length b = n)"

lemma ensure_makes_room:
  assumes io: "writes_all io" "allocates io" and margins: "w < r" and fs: "pending r w n out fs"
    and small: "n < 2 ^ 63" "amount \<le> 2 ^ 62"
  obtains n' p fs' where "argp_fmtstream_ensure io amount fs = ret (True, fs')" "pending r w n' out fs'"
    "n' < 2 ^ 63" "fs_p fs' = int p" "p + amount \<le> n'"
proof -
  obtain p where p: "fs_p fs = int p" "p \<le> n" "length (fs_buf fs) = n" using fs by (rule pending_p)
  show ?thesis
  proof (cases "n - p < amount")
    case False
    then have "\<not> fs_end fs - fs_p fs < int amount" using p by (simp add: fs_end_def)
    then have "argp_fmtstream_ensure io amount fs = ret (True, fs)" by (simp add: argp_fmtstream_ensure_def)
    then show ?thesis using that [of fs n p] fs small False p by simp
  next
    case True
    obtain q fs1 where upd: "argp_fmtstream_update io fs = ret fs1" and sc: "scanning r w n out 0 [] q fs1"
      by (rule update_pending_lays [OF io(1) margins fs])
    note sc = sc [unfolded scanning_def]
    have wr: "fwrite_unlocked io (bytes 0 (int q) (fs_buf fs1)) (stream fs1) = (q, out)"
      using sc writes_allD(1) [OF io(1)] by (simp add: bytes_def)
    have flushed: "pending r w (n + length g) out
        (fs1\<lparr>stream := out, fs_p := 0, point_offs := 0, fs_buf := fs_buf fs1 @ g, fs_p := 0\<rparr>)" for g
      unfolding pending_def scanning_def using sc
      by (intro exI [of _ out] exI [of _ "[]"] exI [of _ 0]) simp
    show ?thesis
    proof (cases "n < amount")
      case grow: True
      obtain g where g: "allocate io amount = Some g" "length g = amount" using io(2) by (auto simp: allocates_def)
      have "argp_fmtstream_ensure io amount fs =
          ret (True, fs1\<lparr>stream := out, fs_p := 0, point_offs := 0, fs_buf := fs_buf fs1 @ g, fs_p := 0\<rparr>)"
        using True p upd sc wr grow g small
        by (simp add: argp_fmtstream_ensure_def fs_end_def Let_def)
      then show ?thesis using that [OF _ flushed] g grow small by simp
    next
      case False
      have "argp_fmtstream_ensure io amount fs =
          ret (True, fs1\<lparr>stream := out, fs_p := 0, point_offs := 0, fs_buf := fs_buf fs1 @ [], fs_p := 0\<rparr>)"
        using True p upd sc wr False
        by (simp add: argp_fmtstream_ensure_def fs_end_def Let_def)
      then show ?thesis using that [OF _ flushed [of "[]"]] False small by simp
    qed
  qed
qed

section \<open>Calls\<close>

datatype fmt_call = Puts string | Printf string | Putc char

fun fmt_text :: "fmt_call \<Rightarrow> string" where
  "fmt_text (Puts s) = s"
| "fmt_text (Printf s) = s"
| "fmt_text (Putc c) = [c]"

text \<open>A call, and whether it told success.\<close>

fun fmt_step :: "'f stdio \<Rightarrow> fmt_call \<Rightarrow> 'f fmtstream \<Rightarrow> (bool \<times> 'f fmtstream) run" where
  "fmt_step io (Puts s) fs = andthen (argp_fmtstream_puts io s fs) (\<lambda>(code, fs). ret (code = 0, fs))"
| "fmt_step io (Printf s) fs =
     andthen (argp_fmtstream_printf io (Some s) fs) (\<lambda>(code, fs). ret (code = int (length s), fs))"
| "fmt_step io (Putc c) fs = andthen (argp_fmtstream_putc io c fs) (\<lambda>(code, fs). ret (code = Some c, fs))"

fun fmt_steps :: "'f stdio \<Rightarrow> fmt_call list \<Rightarrow> 'f fmtstream \<Rightarrow> (bool \<times> 'f fmtstream) run" where
  "fmt_steps io [] fs = ret (True, fs)"
| "fmt_steps io (c # cs) fs =
     andthen (fmt_step io c fs) (\<lambda>(ok, fs).
     andthen (fmt_steps io cs fs) (\<lambda>(oks, fs). ret (ok \<and> oks, fs)))"

text \<open>A stream without a left margin from making to freeing.\<close>

definition fmt_run :: "string stdio \<Rightarrow> nat \<Rightarrow> nat \<Rightarrow> fmt_call list \<Rightarrow> (bool \<times> string) run" where
  "fmt_run io r w calls =
     (case argp_make_fmtstream io True [] 0 r (int w) of
       None \<Rightarrow> ret (False, [])
     | Some fs \<Rightarrow> andthen (fmt_steps io calls fs) (\<lambda>(ok, fs).
         andthen (argp_fmtstream_free io fs) (\<lambda>f. ret (ok, f))))"

lemma write_pends:
  assumes io: "writes_all io" "allocates io" and margins: "w < r" and fs: "pending r w n out fs"
    and small: "n < 2 ^ 63" "length s \<le> 2 ^ 62" and s: "s = flat ks" "fitting r w ks"
  obtains n' fs' where "argp_fmtstream_write io s fs = ret (length s, fs')"
    "pending r w n' (out @ layout r w ks) fs'" "n' < 2 ^ 63"
proof -
  obtain p where p: "fs_p fs = int p" "p \<le> n" "length (fs_buf fs) = n" using fs by (rule pending_p)
  show ?thesis
  proof (cases "p + length s \<le> n")
    case True
    note st = pending_store [OF fs p(1) True]
    have "argp_fmtstream_write io s fs = ret (length s,
        fs\<lparr>fs_buf := take p (fs_buf fs) @ s @ drop (p + length s) (fs_buf fs), fs_p := fs_p fs + int (length s)\<rparr>)"
      using True p st(1) by (simp add: argp_fmtstream_write_def fs_end_def flip: of_nat_add)
    then show ?thesis using st(3) [OF s] small(1) by (rule that)
  next
    case False
    obtain n1 q fs1 where e: "argp_fmtstream_ensure io (length s) fs = ret (True, fs1)" "pending r w n1 out fs1"
      "n1 < 2 ^ 63" "fs_p fs1 = int q" "q + length s \<le> n1"
      by (rule ensure_makes_room [OF io margins fs small])
    note st = pending_store [OF e(2,4,5)]
    have "argp_fmtstream_write io s fs = ret (length s,
        fs1\<lparr>fs_buf := take q (fs_buf fs1) @ s @ drop (q + length s) (fs_buf fs1), fs_p := fs_p fs1 + int (length s)\<rparr>)"
      using False p e(1) st(1) by (simp add: argp_fmtstream_write_def fs_end_def flip: of_nat_add)
    then show ?thesis using st(3) [OF s] e(3) by (rule that)
  qed
qed


lemma putc_pends:
  assumes io: "writes_all io" "allocates io" and margins: "w < r" and fs: "pending r w n out fs"
    and small: "n < 2 ^ 63" and c: "[c] = flat ks" "fitting r w ks"
  obtains n' fs' where "argp_fmtstream_putc io c fs = ret (Some c, fs')"
    "pending r w n' (out @ layout r w ks) fs'" "n' < 2 ^ 63"
proof -
  have step: "put_byte (fs_p g) c (fs_buf g) = store (fs_p g) [c] (fs_buf g)"
    if "fs_p g = int q" "q + 1 \<le> m" "length (fs_buf g) = m" for g :: "string fmtstream" and q m
    using that by (simp add: put_byte_def store_def upd_conv_take_nth_drop)
  obtain p where p: "fs_p fs = int p" "p \<le> n" "length (fs_buf fs) = n" using fs by (rule pending_p)
  show ?thesis
  proof (cases "p < n")
    case True
    then have room: "p + length [c] \<le> n" by simp
    note st = pending_store [OF fs p(1) room]
    have "argp_fmtstream_putc io c fs = ret (Some c,
        fs\<lparr>fs_buf := take p (fs_buf fs) @ [c] @ drop (p + length [c]) (fs_buf fs), fs_p := fs_p fs + int (length [c])\<rparr>)"
      using True p st(1) step [of fs p n] by (simp add: argp_fmtstream_putc_def fs_end_def)
    then show ?thesis using st(3) [OF c] small(1) by (rule that)
  next
    case False
    obtain n1 q fs1 where e: "argp_fmtstream_ensure io 1 fs = ret (True, fs1)" "pending r w n1 out fs1"
      "n1 < 2 ^ 63" "fs_p fs1 = int q" "q + 1 \<le> n1"
      by (rule ensure_makes_room [OF io margins fs small, of 1]) simp
    have room: "q + length [c] \<le> n1" using e(5) by simp
    note st = pending_store [OF e(2,4) room]
    have "length (fs_buf fs1) = n1" using e(2) by (rule pending_p)
    then have "argp_fmtstream_putc io c fs = ret (Some c,
        fs1\<lparr>fs_buf := take q (fs_buf fs1) @ [c] @ drop (q + length [c]) (fs_buf fs1), fs_p := fs_p fs1 + int (length [c])\<rparr>)"
      using False p e(1,4,5) st(1) step [of fs1 q n1] by (simp add: argp_fmtstream_putc_def fs_end_def)
    then show ?thesis using st(3) [OF c] e(3) by (rule that)
  qed
qed

text \<open>\<open>vsnprintf\<close> stores a zero behind the text, where nothing is yet.\<close>

lemma pending_store_zero:
  assumes fs: "pending r w n out fs" and p: "fs_p fs = int p" and room: "p + length s + 1 \<le> n"
    and s: "s = flat ks" "fitting r w ks"
  obtains b where "store (fs_p fs) (s @ [NUL]) (fs_buf fs) = ret b"
    "pending r w n (out @ layout r w ks) (fs\<lparr>fs_buf := b, fs_p := fs_p fs + int (length s)\<rparr>)"
proof -
  have room1: "p + length (s @ [NUL]) \<le> n" and room2: "p + length s \<le> n" using room by simp_all
  note st = pending_store [OF fs p room1]
  let ?b = "take p (fs_buf fs) @ (s @ [NUL]) @ drop (p + length (s @ [NUL])) (fs_buf fs)"
  define b where "b = ?b"
  have le: "length (take p (fs_buf fs)) = p" using fs room by (elim pending_p) simp
  have same: "take p b @ s @ drop (p + length s) b = b" unfolding b_def append_assoc using le by simp
  have "pending r w n out (fs\<lparr>fs_buf := b\<rparr>)" unfolding b_def by (rule st(2))
  then have "pending r w n (out @ layout r w ks) (fs\<lparr>fs_buf := b, fs_p := fs_p fs + int (length s)\<rparr>)"
    using pending_store(3) [of r w n out "fs\<lparr>fs_buf := b\<rparr>" p s ks] p room2 s by (simp add: same [unfolded s(1)])
  then show ?thesis using st(1) that unfolding b_def by blast
qed

lemma printf_pends:
  assumes io: "writes_all io" "allocates io" and margins: "w < r" and fs: "pending r w n out fs"
    and small: "n < 2 ^ 63" "length s < 2 ^ 62" and s: "s = flat ks" "fitting r w ks"
  obtains n' fs' where "argp_fmtstream_printf io (Some s) fs = ret (int (length s), fs')"
    "pending r w n' (out @ layout r w ks) fs'" "n' < 2 ^ 63"
proof -
  have fits: "\<exists>n' fs'. printf_loop io (Some s) amount g = ret (int (length s), fs') \<and>
      pending r w n' (out @ layout r w ks) fs' \<and> n' < 2 ^ 63"
    if e: "argp_fmtstream_ensure io amount g = ret (True, fs1)" "pending r w n1 out fs1" "n1 < 2 ^ 63"
      "fs_p fs1 = int q" and room: "q + length s + 1 \<le> n1" for amount g fs1 n1 q
  proof -
    obtain b where b: "store (fs_p fs1) (s @ [NUL]) (fs_buf fs1) = ret b"
      "pending r w n1 (out @ layout r w ks) (fs1\<lparr>fs_buf := b, fs_p := fs_p fs1 + int (length s)\<rparr>)"
      by (rule pending_store_zero [OF e(2,4) room s])
    have "length (fs_buf fs1) = n1" using e(2) by (rule pending_p)
    then have "fs_end fs1 - fs_p fs1 = int (n1 - q)" using e(4) room by (simp add: fs_end_def of_nat_diff)
    then have "printf_loop io (Some s) amount g =
        ret (int (length s), fs1\<lparr>fs_buf := b, fs_p := fs_p fs1 + int (length s)\<rparr>)"
      using e(1) b(1) room by (subst printf_loop.simps) (simp add: Let_def)
    then show ?thesis using b(2) e(3) by blast
  qed
  obtain n1 q fs1 where e: "argp_fmtstream_ensure io PRINTF_SIZE_GUESS fs = ret (True, fs1)" "pending r w n1 out fs1"
    "n1 < 2 ^ 63" "fs_p fs1 = int q" "q + PRINTF_SIZE_GUESS \<le> n1"
    by (rule ensure_makes_room [OF io margins fs small(1), of PRINTF_SIZE_GUESS]) (simp add: PRINTF_SIZE_GUESS_def)
  have "\<exists>n' fs'. printf_loop io (Some s) PRINTF_SIZE_GUESS fs = ret (int (length s), fs') \<and>
      pending r w n' (out @ layout r w ks) fs' \<and> n' < 2 ^ 63"
  proof (cases "q + length s + 1 \<le> n1")
    case True
    then show ?thesis by (rule fits [OF e(1-4)])
  next
    case False
    let ?avail = "n1 - q"
    let ?t = "take (?avail - 1) s @ [NUL]"
    have avail: "0 < ?avail" "?avail \<le> length s" using e(5) False by (simp_all add: PRINTF_SIZE_GUESS_def)
    have room: "q + length ?t \<le> n1" using avail by simp
    note st = pending_store [OF e(2,4) room]
    let ?fs2 = "fs1\<lparr>fs_buf := take q (fs_buf fs1) @ ?t @ drop (q + length ?t) (fs_buf fs1)\<rparr>"
    have "length s + 1 \<le> 2 ^ 62" using small(2) by simp
    then obtain n2 q2 fs3 where e2: "argp_fmtstream_ensure io (length s + 1) ?fs2 = ret (True, fs3)"
      "pending r w n2 out fs3" "n2 < 2 ^ 63" "fs_p fs3 = int q2" "q2 + (length s + 1) \<le> n2"
      by (rule ensure_makes_room [OF io margins st(2) e(3)])
    have len: "length (fs_buf fs1) = n1" using e(2) by (rule pending_p)
    have "fs_end fs1 - fs_p fs1 = int ?avail" using e(4,5) len by (simp add: fs_end_def of_nat_diff)
    moreover have "nat (int n1 - int q) = n1 - q" "int n1 - int q \<le> int (length s)" using avail by simp_all
    ultimately have "printf_loop io (Some s) PRINTF_SIZE_GUESS fs = printf_loop io (Some s) (length s + 1) ?fs2"
      using e(1) st(1) avail
      by (subst printf_loop.simps) (simp add: Let_def del: length_append take_append)
    then show ?thesis using fits [OF e2(1-4)] e2(5) by (simp del: length_append)
  qed
  then show ?thesis using that unfolding argp_fmtstream_printf_def by blast
qed


lemma step_pends:
  assumes io: "writes_all io" "allocates io" and margins: "w < r" and fs: "pending r w n out fs"
    and small: "n < 2 ^ 63" "length (fmt_text c) < 2 ^ 62" and c: "fmt_text c = flat ks" "fitting r w ks"
  obtains n' fs' where "fmt_step io c fs = ret (True, fs')" "pending r w n' (out @ layout r w ks) fs'" "n' < 2 ^ 63"
proof (cases c)
  case (Puts s)
  show ?thesis
  proof (cases "s = []")
    case True
    then have "ks = []" using c Puts by (cases ks) simp_all
    moreover have "fmt_step io c fs = ret (True, fs)" using Puts True by (simp add: argp_fmtstream_puts_def)
    ultimately show ?thesis using that [of fs n] fs small(1) by simp
  next
    case False
    have le: "length s \<le> 2 ^ 62" using small(2) Puts by simp
    obtain n' fs' where "argp_fmtstream_write io s fs = ret (length s, fs')"
      "pending r w n' (out @ layout r w ks) fs'" "n' < 2 ^ 63"
      by (rule write_pends [OF io margins fs small(1) le _ c(2)]) (use c Puts in simp_all)
    then show ?thesis using that [of fs' n'] Puts False by (simp add: argp_fmtstream_puts_def)
  qed
next
  case (Printf s)
  obtain n' fs' where "argp_fmtstream_printf io (Some s) fs = ret (int (length s), fs')"
    "pending r w n' (out @ layout r w ks) fs'" "n' < 2 ^ 63"
    by (rule printf_pends [OF io margins fs small(1) _ _ c(2), of s]) (use small c Printf in simp_all)
  then show ?thesis using that [of fs' n'] Printf by simp
next
  case (Putc x)
  obtain n' fs' where "argp_fmtstream_putc io x fs = ret (Some x, fs')"
    "pending r w n' (out @ layout r w ks) fs'" "n' < 2 ^ 63"
    by (rule putc_pends [OF io margins fs small(1) _ c(2), of x]) (use c Putc in simp_all)
  then show ?thesis using that [of fs' n'] Putc by simp
qed

definition all_text :: "fmt_call list \<Rightarrow> string" where
  "all_text calls = concat (map fmt_text calls)"

lemma steps_pend:
  assumes io: "writes_all io" "allocates io" and margins: "w < r"
    and "pending r w n out fs" and "n < 2 ^ 63"
    and "list_all (\<lambda>c. whole (fmt_text c) \<and> length (fmt_text c) < 2 ^ 62) calls"
    and "fitting r w (lines_of (all_text calls))"
  shows "\<exists>n' fs'. fmt_steps io calls fs = ret (True, fs') \<and>
    pending r w n' (out @ layout r w (lines_of (all_text calls))) fs'"
  using assms(4-)
proof (induction calls arbitrary: n out fs)
  case Nil
  then show ?case by (auto simp: all_text_def lines_of_def)
next
  case (Cons c cs)
  have split: "lines_of (all_text (c # cs)) = lines_of (fmt_text c) @ lines_of (all_text cs)"
    using Cons.prems by (simp add: all_text_def lines_of_append)
  obtain n1 fs1 where one: "fmt_step io c fs = ret (True, fs1)"
    "pending r w n1 (out @ layout r w (lines_of (fmt_text c))) fs1" "n1 < 2 ^ 63"
    by (rule step_pends [OF io margins Cons.prems(1,2), of c "lines_of (fmt_text c)"])
       (use Cons.prems split in \<open>auto simp: lines_of_flat\<close>)
  obtain n' fs' where "fmt_steps io cs fs1 = ret (True, fs')"
    "pending r w n' ((out @ layout r w (lines_of (fmt_text c))) @ layout r w (lines_of (all_text cs))) fs'"
    using Cons.IH [OF one(2,3)] Cons.prems split by auto
  then show ?case using one(1) split by auto
qed

lemma run_lays_out:
  assumes io: "writes_all io" "allocates io" and margins: "w < r"
    and calls: "list_all (\<lambda>c. whole (fmt_text c) \<and> length (fmt_text c) < 2 ^ 62) calls"
    and fit: "fitting r w (lines_of (all_text calls))"
  shows "fmt_run io r w calls = ret (True, layout r w (lines_of (all_text calls)))"
proof -
  obtain b where b: "allocate io INIT_BUF_SIZE = Some b" "length b = INIT_BUF_SIZE"
    using io(2) by (auto simp: allocates_def)
  let ?fs = "\<lparr>stream = [], lmargin = 0, rmargin = r, wmargin = int w, point_offs = 0, point_col = 0,
    fs_buf = b, fs_p = 0\<rparr>"
  have "pending r w INIT_BUF_SIZE [] ?fs"
    unfolding pending_def scanning_def using b
    by (intro exI [of _ "[]"] exI [of _ "[]"] exI [of _ 0]) simp
  then obtain n' fs' where steps: "fmt_steps io calls ?fs = ret (True, fs')"
    and fs': "pending r w n' (layout r w (lines_of (all_text calls))) fs'"
    using steps_pend [OF io margins _ _ calls fit, of INIT_BUF_SIZE "[]" ?fs] by (auto simp: INIT_BUF_SIZE_def)
  obtain p fs2 where "argp_fmtstream_update io fs' = ret fs2"
    "scanning r w n' (layout r w (lines_of (all_text calls))) 0 [] p fs2"
    by (rule update_pending_lays [OF io(1) margins fs'])
  then have "argp_fmtstream_free io fs' = ret (layout r w (lines_of (all_text calls)))"
    using writes_allD(1) [OF io(1)] by (cases "p = 0") (auto simp: argp_fmtstream_free_def scanning_def bytes_def)
  then show ?thesis using steps b by (simp add: fmt_run_def argp_make_fmtstream_def)
qed

end
