(* ===== verification/Fmt_Props.thy ===== *)
theory Fmt_Props
  imports Fmt_Wrap
begin

text \<open>The property of streams that wrap words, and what \<^verbatim>\<open>src/argp/argp-fmtstream.c\<close> does where it goes wrong.\<close>

section \<open>Wrapping\<close>


text \<open>A stream below that keeps what it gets, and an allocator of zeros.\<close>

definition keeping :: "string stdio" where
  "keeping = \<lparr>fwrite_unlocked = (\<lambda>s f. (length s, f @ s)), putc_unlocked = (\<lambda>c f. f @ [c]),
     allocate = (\<lambda>n. Some (replicate n NUL))\<rparr>"

lemma keeping_ok: "writes_all keeping" "allocates keeping"
  by (simp_all add: keeping_def writes_all_def allocates_def)

lemma words_fit_code [code]:
  "words_fit n line \<longleftrightarrow> length line < n \<or> list_all (\<lambda>i. list_ex isblank (take n (drop i line))) [0..<Suc (length line - n)]"
  by (auto simp: words_fit_def list_all_iff)


section \<open>Where it goes wrong\<close>

text \<open>
  A word that fills its line exactly to the right margin: the search for its end starts behind the
  newline, which then replaces the first character of the next line.
\<close>

lemma full_line_eats_next:
  "fmt_run keeping 8 0 [Puts (''abcdefgh'' @ CHR 0x0A # ''xyz'' @ [CHR 0x0A])] =
     ret (True, ''abcdefgh'' @ CHR 0x0A # CHR 0x0A # ''yz'' @ [CHR 0x0A])"
  by code_simp

text \<open>
  With a left margin: where it does not fit into the buffer any more, it goes straight to the
  stream, before the lines that the buffer still holds.
\<close>

definition margin_run :: "nat \<Rightarrow> nat \<Rightarrow> fmt_call list \<Rightarrow> (bool \<times> string) run" where
  "margin_run l r calls =
     (case argp_make_fmtstream keeping True [] l r 0 of
       None \<Rightarrow> ret (False, [])
     | Some fs \<Rightarrow> andthen (fmt_steps keeping calls fs) (\<lambda>(ok, fs).
         andthen (argp_fmtstream_free keeping fs) (\<lambda>f. ret (ok, f))))"

lemma margin_before_text:
  "margin_run 2 79 [Puts (replicate 70 (CHR ''a'') @ [CHR 0x0A]), Puts (replicate 70 (CHR ''b'') @ [CHR 0x0A]),
     Puts (replicate 50 (CHR ''c'') @ [CHR 0x0A]), Puts (''d'' @ [CHR 0x0A])] =
   ret (True, ''      '' @ replicate 70 (CHR ''a'') @ CHR 0x0A # ''  '' @ replicate 70 (CHR ''b'') @ CHR 0x0A #
     replicate 50 (CHR ''c'') @ CHR 0x0A # ''d'' @ [CHR 0x0A])"
  by code_simp

text \<open>
  A text that \<open>vsnprintf\<close> cannot format: its -1 is taken for a text that is too long, and the
  loop asks for no more room for ever.
\<close>

lemma ensure_nothing: "fs_p fs \<le> fs_end fs \<Longrightarrow> argp_fmtstream_ensure io 0 fs = ret (True, fs)"
  by (simp add: argp_fmtstream_ensure_def)

lemma failed_printf_loops:
  assumes "printf_loop io t g fs = Some y"
  shows "t = None \<longrightarrow> g = 0 \<longrightarrow> fs_p fs \<le> fs_end fs \<longrightarrow> False"
proof (rule printf_loop.raw_induct [OF _ assms], goal_cases)
  case (1 rec io t g fs y)
  show ?case
  proof (intro impI)
    assume "t = None" "g = 0" "fs_p fs \<le> fs_end fs"
    moreover from this have "rec io t 0 fs = Some y" using 1(2) by (simp add: ensure_nothing)
    ultimately show False using 1(1) by blast
  qed
qed

lemma failed_printf_never_returns:
  assumes "fs_p fs \<le> fs_end fs" and "int PRINTF_SIZE_GUESS \<le> fs_end fs - fs_p fs"
  shows "argp_fmtstream_printf io None fs = None"
proof -
  have "argp_fmtstream_ensure io PRINTF_SIZE_GUESS fs = ret (True, fs)"
    using assms by (simp add: argp_fmtstream_ensure_def)
  then have "argp_fmtstream_printf io None fs = printf_loop io None 0 fs"
    by (simp add: argp_fmtstream_printf_def printf_loop.simps [of io None PRINTF_SIZE_GUESS] Let_def)
  then show ?thesis using failed_printf_loops [of io None 0 fs] assms(1) by (cases "printf_loop io None 0 fs") auto
qed

section \<open>Crossed margins\<close>

text \<open>
  When the wrap margin is two columns or more beyond the right margin, the line that follows a
  break is broken again in its own margin, for ever.  \<open>stuck\<close> is such a place: the blanks
  of the margin are before \<open>d\<close>, a word behind.
\<close>

definition stuck :: "nat \<Rightarrow> nat \<Rightarrow> nat \<Rightarrow> string fmtstream \<Rightarrow> bool" where
  "stuck r w d fs \<longleftrightarrow> rmargin fs = r \<and> wmargin fs = int w \<and> r + 2 \<le> w \<and> point_col fs = int w \<and> w \<le> d \<and>
     int d < fs_p fs \<and> nat (fs_p fs) \<le> length (fs_buf fs) \<and>
     drop (d - w) (take d (fs_buf fs)) = replicate w (CHR '' '') \<and> \<not> isblank (fs_buf fs ! d)"

lemma on_over_blanks_found:
  assumes "i < d" and "d < length b" and "\<And>j. i < j \<Longrightarrow> j < d \<Longrightarrow> isblank (b ! j)" and "\<not> isblank (b ! d)"
  shows "on_over_blanks (int i) b = ret (int d)"
  using assms
proof (induction "d - i" arbitrary: i)
  case (Suc n)
  have succ: "int i + 1 = int (Suc i)" by simp
  show ?case
  proof (cases "Suc i = d")
    case True
    then show ?thesis
      using Suc.prems by (subst on_over_blanks.simps) (simp add: Let_def succ peek_ret del: of_nat_Suc)
  next
    case False
    have "on_over_blanks (int (Suc i)) b = ret (int d)" by (rule Suc.hyps(1)) (use Suc False in auto)
    then show ?thesis
      using Suc.prems False by (subst on_over_blanks.simps) (simp add: Let_def succ peek_ret del: of_nat_Suc)
  qed
qed simp

lemma stuck_blank:
  assumes "stuck r w d fs" and "d - w \<le> j" and "j < d"
  shows "isblank (fs_buf fs ! j)"
proof -
  let ?m = "drop (d - w) (take d (fs_buf fs))"
  have m: "?m = replicate w (CHR '' '')" and w: "w \<le> d" "d \<le> length (fs_buf fs)"
    using assms(1) by (auto simp: stuck_def)
  have "?m ! (j - (d - w)) = fs_buf fs ! j" using assms(2,3) w by simp
  moreover have "?m ! (j - (d - w)) = CHR '' ''" unfolding m using assms(2,3) w by simp
  ultimately show ?thesis by (simp add: isblank_def)
qed

lemma stuck_turn:
  assumes io: "writes_all io" and st: "stuck r w d fs"
  obtains d' fs' where "update_turn io (int d) fs = ret (True, int d', fs')" and "stuck r w d' fs'"
proof -
  note f = st [unfolded stuck_def]
  let ?b = "fs_buf fs"
  define p where "p = nat (fs_p fs)"
  have p: "fs_p fs = int p" "d < p" "p \<le> length ?b" using f by (simp_all add: p_def zless_nat_eq_int_zless)
  obtain i where i: "d - w \<le> i" "i < d" and at: "int i = int d + 1 - (int w - int r)"
  proof
    show "d - w \<le> Suc d - (w - r)" "Suc d - (w - r) < d" using f by auto
    show "int (Suc d - (w - r)) = int d + 1 - (int w - int r)" using f by (simp add: of_nat_diff)
  qed
  have far: "int d + (int (rmargin fs) - point_col fs) = int i - 1" using f at by simp
  have behind: "back_to_blank (int d) (int i - 1) ?b = ret (int i - 1)"
    using i by (subst back_to_blank.simps) simp
  have over: "on_over_blanks (int i) ?b = ret (int d)"
    by (rule on_over_blanks_found) (use i f p stuck_blank [OF st] in auto)
  have place: "break_at (int d) nl fs = ret (Some (int i, int d))" if "int d \<le> nl" for nl
  proof -
    have "on_to_blank nl (int i - 1) ?b = ret (int i)"
      using i that stuck_blank [OF st i] p by (subst on_to_blank.simps) (simp add: Let_def peek_ret)
    then show ?thesis using behind over i that by (simp add: break_at_def Let_def far)
  qed
  have "update_turn io (int d) fs = make_break io (int d) (int p - int d) (int i) (int d) fs"
  proof (cases "memchr_nl (int d) (int p - int d) ?b")
    case None
    then show ?thesis
      using f p place [of "int p"] by (simp add: update_turn_def pad_line_def Let_def wrap_line_break)
  next
    case (Some nl)
    then have "int d \<le> nl" by (auto simp: memchr_nl_def)
    then show ?thesis
      using f p place [of nl] Some by (simp add: update_turn_def pad_line_def Let_def wrap_line_break)
  qed
  moreover have "broken fs w d (stream fs @ take i ?b) (take (p - d) (drop d ?b)) (length ?b)
      (make_break io (int d) (int p - int d) (int i) (int d) fs)"
    by (rule make_break_ends [OF io]) (use f p i in simp_all)
  ultimately obtain e c g where turn: "update_turn io (int d) fs = ret (True, int e,
      fs\<lparr>stream := g, fs_buf := c, fs_p := int (e + length (take (p - d) (drop d ?b))), point_col := int w\<rparr>)"
    and c: "g @ take e c = (stream fs @ take i ?b) @ CHR 0x0A # replicate w (CHR '' '')"
      "e + length (take (p - d) (drop d ?b)) \<le> length c"
      "take (length (take (p - d) (drop d ?b))) (drop e c) = take (p - d) (drop d ?b)" "w \<le> e"
    using f unfolding broken_def by auto
  have len: "length (take (p - d) (drop d ?b)) = p - d" using p by simp
  have "drop (length (g @ take e c) - w) (g @ take e c) = replicate w (CHR '' '')"
    unfolding c(1) by simp
  then have margin: "drop (e - w) (take e c) = replicate w (CHR '' '')" using c(2,4) by simp
  have "c ! e = take (p - d) (drop e c) ! 0" using c(2) p len by simp
  also have "\<dots> = ?b ! d" using c(3) p unfolding len by simp
  finally have word: "\<not> isblank (c ! e)" using f by simp
  have "stuck r w e (fs\<lparr>stream := g, fs_buf := c, fs_p := int (e + length (take (p - d) (drop d ?b))), point_col := int w\<rparr>)"
    using f c(2,4) margin word p len by (simp add: stuck_def nat_add_distrib)
  then show ?thesis using turn that by blast
qed

lemma stuck_loop:
  assumes io: "writes_all io" and "update_loop io' buf fs = Some y"
  shows "\<forall>d. io' = io \<longrightarrow> buf = int d \<longrightarrow> stuck r w d fs \<longrightarrow> False"
proof (rule update_loop.raw_induct [OF _ assms(2)], goal_cases)
  case (1 rec io' buf fs y)
  show ?case
  proof (intro allI impI)
    fix d assume eqs: "io' = io" "buf = int d" and st: "stuck r w d fs"
    obtain d' fs' where "update_turn io (int d) fs = ret (True, int d', fs')" "stuck r w d' fs'"
      using io st by (rule stuck_turn)
    moreover have "int d < fs_p fs" using st by (simp add: stuck_def)
    ultimately have "rec io (int d') fs' = Some y" using 1(2) eqs by simp
    then show False using 1(1) \<open>stuck r w d' fs'\<close> by blast
  qed
qed

lemma crossed_margins_never_end:
  assumes "writes_all io" and "stuck r w d fs"
  shows "update_loop io (int d) fs = None"
  using stuck_loop [OF assms(1), of io "int d" fs _ r w] assms(2) by (cases "update_loop io (int d) fs") auto

text \<open>For example with a right margin of 5 and lines that continue in column 12.\<close>

lemma crossed_margins_example:
  "argp_fmtstream_update keeping \<lparr>stream = [], lmargin = 0, rmargin = 5, wmargin = 12, point_offs = 0, point_col = 0,
     fs_buf = ''abc defgh'' @ replicate 40 NUL, fs_p = 9\<rparr> = None"
  (is "argp_fmtstream_update keeping ?fs = None")
proof -
  let ?fs' = "?fs\<lparr>fs_buf := ''abc'' @ CHR 0x0A # replicate 12 (CHR '' '') @ ''defgh'' @ replicate 28 NUL, fs_p := 21, point_col := 12\<rparr>"
  have "update_turn keeping 0 ?fs = ret (True, int 16, ?fs')" by code_simp
  then have "update_loop keeping 0 ?fs = update_loop keeping (int 16) ?fs'" by (subst update_loop.simps) simp
  also have "\<dots> = None"
    by (rule crossed_margins_never_end [OF keeping_ok(1), of 5 12]) (simp add: stuck_def isblank_def nth_append)
  finally show ?thesis by (simp add: argp_fmtstream_update_def)
qed

end
