(* ===== verification/Help_Params.thy ===== *)
theory Help_Params
  imports Argp_Data Runs
begin

text \<open>
  \<^verbatim>\<open>src/argp/argp-help.c\<close>: the formatting parameters, and \<open>fill_in_uparams\<close>, which reads them from
  the environment variable \<open>ARGP_HELP_FMT\<close>.  Messages are the texts handed to \<open>__argp_failure\<close>.
  Then what the variable means: the settings in it are made in order, and nothing is reported.
\<close>

section \<open>Parameters\<close>

record uparams =
  dup_args :: int
  dup_args_note :: int
  short_opt_col :: int
  long_opt_col :: int
  doc_opt_col :: int
  opt_doc_col :: int
  header_col :: int
  usage_indent :: int
  up_rmargin :: int

definition default_uparams :: uparams where
  "default_uparams = \<lparr>dup_args = 0, dup_args_note = 1, short_opt_col = 2, long_opt_col = 6, doc_opt_col = 2,
     opt_doc_col = 29, header_col = 1, usage_indent = 12, up_rmargin = 79\<rparr>"

text \<open>The table of names: whether the parameter is boolean, and the store into its field.\<close>

definition uparam_names :: "(string \<times> bool \<times> (int \<Rightarrow> uparams \<Rightarrow> uparams)) list" where
  "uparam_names =
     [(''dup-args'', True, \<lambda>v u. u\<lparr>dup_args := v\<rparr>),
      (''dup-args-note'', True, \<lambda>v u. u\<lparr>dup_args_note := v\<rparr>),
      (''short-opt-col'', False, \<lambda>v u. u\<lparr>short_opt_col := v\<rparr>),
      (''long-opt-col'', False, \<lambda>v u. u\<lparr>long_opt_col := v\<rparr>),
      (''doc-opt-col'', False, \<lambda>v u. u\<lparr>doc_opt_col := v\<rparr>),
      (''opt-doc-col'', False, \<lambda>v u. u\<lparr>opt_doc_col := v\<rparr>),
      (''header-col'', False, \<lambda>v u. u\<lparr>header_col := v\<rparr>),
      (''usage-indent'', False, \<lambda>v u. u\<lparr>usage_indent := v\<rparr>),
      (''rmargin'', False, \<lambda>v u. u\<lparr>up_rmargin := v\<rparr>)]"

section \<open>Characters\<close>

text \<open>\<open>isspace\<close> and the others in the C locale; \<open>atoi\<close> of a number that is no \<open>int\<close> is undefined.\<close>

definition isspace :: "char \<Rightarrow> bool" where
  "isspace c \<longleftrightarrow> c = CHR '' '' \<or> (9 \<le> (of_char c :: nat) \<and> (of_char c :: nat) \<le> 13)"

definition isdigit :: "char \<Rightarrow> bool" where
  "isdigit c \<longleftrightarrow> 48 \<le> (of_char c :: nat) \<and> (of_char c :: nat) \<le> 57"

definition isalpha :: "char \<Rightarrow> bool" where
  "isalpha c \<longleftrightarrow> (65 \<le> (of_char c :: nat) \<and> (of_char c :: nat) \<le> 90) \<or> (97 \<le> (of_char c :: nat) \<and> (of_char c :: nat) \<le> 122)"

definition isalnum :: "char \<Rightarrow> bool" where
  "isalnum c \<longleftrightarrow> isalpha c \<or> isdigit c"

definition digits_value :: "string \<Rightarrow> int" where
  "digits_value ds = foldl (\<lambda>n c. 10 * n + (of_char c - 48)) 0 ds"

definition atoi :: "string \<Rightarrow> int run" where
  "atoi s = (let n = digits_value (takeWhile isdigit s) in if n < 2 ^ 31 then ret n else crash)"

definition skipws :: "string \<Rightarrow> string" where
  "skipws s = dropWhile isspace s"

section \<open>Reading\<close>

definition name_char :: "char \<Rightarrow> bool" where
  "name_char c \<longleftrightarrow> isalnum c \<or> c = CHR ''-'' \<or> c = CHR ''_''"

text \<open>
  The value behind a name, from \<open>arg\<close>: whether it is unspecified, the value, and the rest.
\<close>

definition uparam_value :: "string \<Rightarrow> (bool \<times> int \<times> string) run" where
  "uparam_value arg =
     (let arg = skipws arg in
      if arg = [] \<or> hd arg = CHR '','' then ret (True, 0, arg)
      else
        let arg = (if hd arg = CHR ''='' then skipws (tl arg) else arg) in
        if arg \<noteq> [] \<and> isdigit (hd arg)
        then andthen (atoi arg) (\<lambda>val. ret (False, val, skipws (dropWhile isdigit arg)))
        else ret (False, 0, arg))"

definition store_uparam :: "string \<Rightarrow> bool \<Rightarrow> int \<Rightarrow> uparams \<times> string list \<Rightarrow> uparams \<times> string list" where
  "store_uparam name unspec val s =
     (case find (\<lambda>un. fst un = name) uparam_names of
        None \<Rightarrow> (fst s, snd s @ [name @ '': Unknown ARGP_HELP_FMT parameter''])
      | Some (_, is_bool, put) \<Rightarrow>
          if unspec \<and> \<not> is_bool then (fst s, snd s @ [name @ '': ARGP_HELP_FMT parameter requires a value''])
          else (put val (fst s), snd s))"

text \<open>One turn of the loop; no rest ends it.\<close>

definition uparam_turn :: "string \<Rightarrow> uparams \<times> string list \<Rightarrow> (string \<times> uparams \<times> string list) run" where
  "uparam_turn var s =
     (let var = skipws var in
      if var \<noteq> [] \<and> isalpha (hd var) then
        let name = takeWhile name_char var in
        andthen (uparam_value (drop (length name) var)) (\<lambda>(unspec, val, arg).
        let no = unspec \<and> take 3 var = ''no-'';
            name = (if no then drop 3 name else name);
            val = (if unspec then if no then 0 else 1 else val);
            s = store_uparam name unspec val s in
        ret (if arg \<noteq> [] \<and> hd arg = CHR '','' then tl arg else arg, s))
      else if var \<noteq> [] then ret ([], fst s, snd s @ [''Garbage in ARGP_HELP_FMT: '' @ var])
      else ret ([], s))"

lemma skipws_length: "length (skipws s) \<le> length s"
  by (simp add: skipws_def length_dropWhile_le)

lemma uparam_value_length: "uparam_value arg = ret (u, v, r) \<Longrightarrow> length r \<le> length arg"
  using skipws_length [of arg] skipws_length [of "tl (skipws arg)"]
    skipws_length [of "dropWhile isdigit (skipws (tl (skipws arg)))"] skipws_length [of "dropWhile isdigit (skipws arg)"]
    length_dropWhile_le [of isdigit "skipws (tl (skipws arg))"] length_dropWhile_le [of isdigit "skipws arg"]
  by (fastforce simp: uparam_value_def Let_def andthen_ret split: if_splits)

lemma uparam_turn_shorter:
  assumes "uparam_turn var s = ret (r, t)" and "var \<noteq> []"
  shows "length r < length var"
proof (cases "skipws var \<noteq> [] \<and> isalpha (hd (skipws var))")
  case True
  let ?var = "skipws var"
  let ?name = "takeWhile name_char ?var"
  from True have "name_char (hd ?var)" by (simp add: name_char_def isalnum_def)
  with True have n: "0 < length ?name" by (cases ?var) auto
  obtain u v a where a: "uparam_value (drop (length ?name) ?var) = ret (u, v, a)"
    and r: "r = (if a \<noteq> [] \<and> hd a = CHR '','' then tl a else a)"
    using assms(1) True by (auto simp: uparam_turn_def Let_def andthen_ret split: prod.splits)
  have "length r \<le> length a" using r by (cases a) auto
  moreover have "length a \<le> length ?var - length ?name" using uparam_value_length [OF a] by simp
  moreover have "0 < length ?var" using True by simp
  ultimately show ?thesis using n skipws_length [of var] by linarith
next
  case False
  then show ?thesis using assms by (auto simp: uparam_turn_def Let_def split: if_splits)
qed

function read_uparams :: "string \<Rightarrow> uparams \<times> string list \<Rightarrow> (uparams \<times> string list) run" where
  "read_uparams var s =
     (if var = [] then ret s
      else case uparam_turn var s of
        None \<Rightarrow> None
      | Some None \<Rightarrow> crash
      | Some (Some (var, s)) \<Rightarrow> read_uparams var s)"
  by pat_completeness auto

termination read_uparams
  by (relation "measure (\<lambda>(var, s). length var)") (auto dest: uparam_turn_shorter)

declare read_uparams.simps [simp del]

text \<open>\<open>var\<close> is the environment variable; the messages are in the order of the calls.\<close>

definition fill_in_uparams :: "string option \<Rightarrow> uparams \<Rightarrow> (uparams \<times> string list) run" where
  "fill_in_uparams var u = (case var of None \<Rightarrow> ret (u, []) | Some v \<Rightarrow> read_uparams v (u, []))"

section \<open>Settings\<close>

text \<open>\<open>name=digits\<close>, \<open>name\<close> and \<open>no-name\<close>.\<close>

datatype setting = Set_To string string | Turn_On string | Turn_Off string

fun show_setting :: "setting \<Rightarrow> string" where
  "show_setting (Set_To name ds) = name @ CHR ''='' # ds"
| "show_setting (Turn_On name) = name"
| "show_setting (Turn_Off name) = ''no-'' @ name"

definition is_param :: "string \<Rightarrow> bool" where
  "is_param name \<longleftrightarrow> list_ex (\<lambda>un. fst un = name) uparam_names"

definition is_switch :: "string \<Rightarrow> bool" where
  "is_switch name \<longleftrightarrow> list_ex (\<lambda>un. fst un = name \<and> fst (snd un)) uparam_names"

fun valid_setting :: "setting \<Rightarrow> bool" where
  "valid_setting (Set_To name ds) \<longleftrightarrow> is_param name \<and> ds \<noteq> [] \<and> list_all isdigit ds \<and> digits_value ds < 2 ^ 31"
| "valid_setting (Turn_On name) \<longleftrightarrow> is_switch name"
| "valid_setting (Turn_Off name) \<longleftrightarrow> is_switch name"

definition set_param :: "string \<Rightarrow> int \<Rightarrow> uparams \<Rightarrow> uparams" where
  "set_param name v u = fold (\<lambda>(n, _, put) u. if n = name then put v u else u) uparam_names u"

fun make_setting :: "setting \<Rightarrow> uparams \<Rightarrow> uparams" where
  "make_setting (Set_To name ds) u = set_param name (digits_value ds) u"
| "make_setting (Turn_On name) u = set_param name 1 u"
| "make_setting (Turn_Off name) u = set_param name 0 u"

section \<open>The names\<close>

lemma param_cases:
  assumes "is_param name"
  obtains "name = ''dup-args''" | "name = ''dup-args-note''" | "name = ''short-opt-col''" | "name = ''long-opt-col''"
    | "name = ''doc-opt-col''" | "name = ''opt-doc-col''" | "name = ''header-col''" | "name = ''usage-indent''"
    | "name = ''rmargin''"
proof -
  have "map fst uparam_names = [''dup-args'', ''dup-args-note'', ''short-opt-col'', ''long-opt-col'',
      ''doc-opt-col'', ''opt-doc-col'', ''header-col'', ''usage-indent'', ''rmargin'']"
    by (simp only: uparam_names_def list.map fst_conv)
  moreover have "name \<in> set (map fst uparam_names)" using assms by (auto simp: is_param_def list_ex_iff)
  ultimately show thesis
    by (simp only: list.set insert_iff empty_iff simp_thms) (elim disjE, (rule that, assumption)+)
qed

lemma param_name:
  assumes "is_param name"
  shows "name \<noteq> []" and "isalpha (hd name)" and "list_all name_char name" and "take 3 (name @ r) \<noteq> ''no-''"
  by (rule param_cases [OF assms]; simp add: isalpha_def name_char_def isalnum_def isdigit_def)+

lemma store_param:
  assumes "is_param name" and "unspec \<longrightarrow> is_switch name"
  shows "store_uparam name unspec v (u, ms) = (set_param name v u, ms)"
  using assms(2)
  by (rule_tac param_cases [OF assms(1)]; auto simp: store_uparam_def set_param_def uparam_names_def is_switch_def)

lemma switch_param: "is_switch name \<Longrightarrow> is_param name"
  by (auto simp: is_switch_def is_param_def list_ex_iff)

section \<open>One setting\<close>

text \<open>What may follow a setting: nothing, or a comma.\<close>

definition rest_ok :: "string \<Rightarrow> bool" where
  "rest_ok r \<longleftrightarrow> r = [] \<or> hd r = CHR '',''"

lemma takeWhile_then: "list_all P xs \<Longrightarrow> ys = [] \<or> \<not> P (hd ys) \<Longrightarrow> takeWhile P (xs @ ys) = xs \<and> dropWhile P (xs @ ys) = ys"
  by (induction xs) (cases ys; auto)+

lemma not_space: "name_char c \<Longrightarrow> \<not> isspace c" "isdigit c \<Longrightarrow> \<not> isspace c" "\<not> isspace (CHR '','')" "\<not> isspace (CHR ''='')"
  by (auto simp: name_char_def isalnum_def isalpha_def isdigit_def isspace_def)

lemma not_name: "\<not> name_char (CHR '','')" "\<not> name_char (CHR ''='')" "\<not> isdigit (CHR '','')"
  by (auto simp: name_char_def isalnum_def isalpha_def isdigit_def)

lemma skipws_id: "s = [] \<or> \<not> isspace (hd s) \<Longrightarrow> skipws s = s"
  by (cases s) (auto simp: skipws_def)

lemma value_given:
  assumes "ds \<noteq> []" "list_all isdigit ds" "digits_value ds < 2 ^ 31" "rest_ok r"
  shows "uparam_value (CHR ''='' # ds @ r) = ret (False, digits_value ds, r)"
proof -
  have td: "takeWhile isdigit (ds @ r) = ds" "dropWhile isdigit (ds @ r) = r"
    using takeWhile_then [OF assms(2), of r] assms(4) not_name by (auto simp: rest_ok_def)
  have hd: "isdigit (hd (ds @ r))" using assms(1,2) by (cases ds) auto
  have "skipws (ds @ r) = ds @ r" using hd not_space(2) by (intro skipws_id) blast
  moreover have "skipws r = r" using assms(4) not_space by (intro skipws_id) (auto simp: rest_ok_def)
  moreover have "skipws (CHR ''='' # ds @ r) = CHR ''='' # ds @ r" using not_space by (intro skipws_id) auto
  ultimately show ?thesis using assms(1,3) td hd by (simp add: uparam_value_def atoi_def Let_def)
qed

lemma value_missing: "rest_ok r \<Longrightarrow> uparam_value r = ret (True, 0, r)"
  using skipws_id [of r] not_space by (auto simp: uparam_value_def Let_def rest_ok_def)

lemma name_split:
  assumes "list_all name_char name" "name \<noteq> []" "isalpha (hd name)" "r = [] \<or> \<not> name_char (hd r)"
  shows "skipws (name @ r) = name @ r" "takeWhile name_char (name @ r) = name" "drop (length name) (name @ r) = r"
proof -
  have "\<not> isspace (hd name)" using assms(3) by (intro not_space(1)) (simp add: name_char_def isalnum_def)
  then show "skipws (name @ r) = name @ r" using assms(2) by (intro skipws_id) auto
  show "takeWhile name_char (name @ r) = name" using takeWhile_then [OF assms(1,4)] by simp
qed simp

lemma turn_reads:
  assumes v: "valid_setting t" and r: "rest_ok r"
  shows "uparam_turn (show_setting t @ r) (u, ms) = ret (tl r, make_setting t u, ms)"
proof -
  have after: "(if r \<noteq> [] \<and> hd r = CHR '','' then tl r else r) = tl r" using r by (auto simp: rest_ok_def)
  have stop: "r = [] \<or> \<not> name_char (hd r)" using r not_name by (auto simp: rest_ok_def)
  show ?thesis
  proof (cases t)
    case (Set_To name ds)
    have p: "is_param name" using v Set_To by simp
    note n = param_name [OF p]
    have split: "skipws (name @ CHR ''='' # ds @ r) = name @ CHR ''='' # ds @ r"
      "takeWhile name_char (name @ CHR ''='' # ds @ r) = name"
      "drop (length name) (name @ CHR ''='' # ds @ r) = CHR ''='' # ds @ r"
      using name_split [OF n(3,1,2), of "CHR ''='' # ds @ r"] not_name by auto
    have "uparam_value (CHR ''='' # ds @ r) = ret (False, digits_value ds, r)"
      by (rule value_given) (use v Set_To r in auto)
    then show ?thesis
      using split n(1,2) store_param [OF p, of False] Set_To after by (simp add: uparam_turn_def Let_def)
  next
    case (Turn_On name)
    have p: "is_param name" using v Turn_On switch_param by simp
    note n = param_name [OF p]
    show ?thesis
      using name_split [OF n(3,1,2) stop] n(1,2,4) store_param [OF p, of True] v Turn_On after value_missing [OF r]
      by (simp add: uparam_turn_def Let_def)
  next
    case (Turn_Off name)
    have p: "is_param name" using v Turn_Off switch_param by simp
    note n = param_name [OF p]
    have no: "list_all name_char (''no-'' @ name)" "''no-'' @ name \<noteq> []" "isalpha (hd (''no-'' @ name))"
      using n(3) by (auto simp: name_char_def isalnum_def isalpha_def)
    show ?thesis
      using name_split [OF no stop] no store_param [OF p, of True] v Turn_Off after value_missing [OF r]
      by (simp add: uparam_turn_def Let_def)
  qed
qed

lemma setting_nonempty: "valid_setting t \<Longrightarrow> show_setting t \<noteq> []"
  by (cases t) (auto dest: switch_param param_name(1))

section \<open>The variable\<close>

text \<open>
  C21: \<open>ARGP_HELP_FMT\<close> as settings with commas between them: each is made, in order, and there is
  no complaint.
\<close>

theorem help_fmt_sets_params:
  assumes "list_all valid_setting ts"
  shows "fill_in_uparams (Some (join (CHR '','') (map show_setting ts))) u = ret (fold make_setting ts u, [])"
proof -
  have "read_uparams (join (CHR '','') (map show_setting ts)) (u, []) = ret (fold make_setting ts u, [])"
    using assms
  proof (induction ts arbitrary: u)
    case Nil
    then show ?case by (simp add: read_uparams.simps)
  next
    case (Cons t ts)
    define r where "r = (if ts = [] then [] else CHR '','' # join (CHR '','') (map show_setting ts))"
    have shown: "join (CHR '','') (map show_setting (t # ts)) = show_setting t @ r"
      by (cases ts) (simp_all add: r_def join_Cons)
    have turn: "uparam_turn (show_setting t @ r) (u, []) = ret (tl r, make_setting t u, [])"
      by (rule turn_reads) (use Cons.prems in \<open>auto simp: r_def rest_ok_def\<close>)
    have rest: "tl r = join (CHR '','') (map show_setting ts)" by (simp add: r_def)
    show ?case
      unfolding shown using turn Cons setting_nonempty [of t] by (subst read_uparams.simps) (simp add: rest)
  qed
  then show ?thesis by (simp add: fill_in_uparams_def)
qed

theorem help_fmt_sets_params_witness:
  "fill_in_uparams (Some ''rmargin=60,dup-args,no-dup-args-note'') default_uparams =
     ret (default_uparams\<lparr>up_rmargin := 60, dup_args := 1, dup_args_note := 0\<rparr>, [])"
proof -
  let ?ts = "[Set_To ''rmargin'' ''60'', Turn_On ''dup-args'', Turn_Off ''dup-args-note'']"
  have "fill_in_uparams (Some (join (CHR '','') (map show_setting ?ts))) default_uparams =
      ret (fold make_setting ?ts default_uparams, [])"
    by (rule help_fmt_sets_params) code_simp
  moreover have "join (CHR '','') (map show_setting ?ts) = ''rmargin=60,dup-args,no-dup-args-note''" by simp
  moreover have "fold make_setting ?ts default_uparams =
      default_uparams\<lparr>up_rmargin := 60, dup_args := 1, dup_args_note := 0\<rparr>"
    by (simp add: set_param_def uparam_names_def digits_value_def default_uparams_def)
  ultimately show ?thesis by simp
qed

text \<open>
  A right margin of zero, or one left of the wrap margin, is taken without a complaint; the help is
  then written to a stream whose lines have no room.
\<close>

lemma useless_margin_taken:
  "fill_in_uparams (Some ''rmargin=0'') default_uparams = ret (default_uparams\<lparr>up_rmargin := 0\<rparr>, [])"
  by code_simp

end
