(* ===== verification/Hol.thy ===== *)
theory Hol
  imports Help_Params
begin

text \<open>
  \<^verbatim>\<open>src/argp/argp-help.c\<close>: the list of options for help (\<open>struct hol\<close>), from the tree of argps.  A pointer into
  an array of options is the list of the options from there on; the pointer of an entry into the
  hol's \<open>short_options\<close> is its offset.  Clusters live in a store, by address, since they are compared by
  address.  Every \<open>malloc\<close> can fail; the assertions on it stop the program.
\<close>

section \<open>Argps\<close>

text \<open>
  An argp as the help sees it: its address, its options, what it says of its arguments, its text,
  its filter and its children.  A filter keeps a text, replaces it, or drops it; what it makes of
  its input is its own.
\<close>

datatype filtered = Kept | Replaced string | Dropped

datatype help_argp =
  Help_Argp (ha_at: nat) (ha_options: "argp_option list option") (ha_args_doc: "string option") (ha_doc: "string option")
    (ha_filter: "(int \<Rightarrow> string option \<Rightarrow> filtered) option") (ha_children: "help_child list option")
and help_child = Help_Child (hc_argp: help_argp) (hc_header: "string option") (hc_group: int)

definition oalias :: "argp_option \<Rightarrow> bool" where "oalias opt \<longleftrightarrow> has_flag (opt_flags opt) OPTION_ALIAS"
definition ovisible :: "argp_option \<Rightarrow> bool" where "ovisible opt \<longleftrightarrow> \<not> has_flag (opt_flags opt) OPTION_HIDDEN"
definition odoc :: "argp_option \<Rightarrow> bool" where "odoc opt \<longleftrightarrow> has_flag (opt_flags opt) OPTION_DOC"

abbreviation oshort :: "argp_option \<Rightarrow> bool" where "oshort opt \<equiv> option_is_short opt"

text \<open>The key of a short option as the \<open>char\<close> it is stored as.\<close>

definition key_char :: "argp_option \<Rightarrow> char" where
  "key_char opt = char_of (nat (opt_key opt))"

section \<open>Entries and clusters\<close>

record hol_cluster =
  cl_header :: "string option"
  cl_index :: int
  cl_group :: int
  cl_parent :: "nat option"
  cl_argp :: help_argp
  cl_depth :: nat

record hol_entry =
  e_opt :: "argp_option list"
  e_num :: nat
  e_short :: nat
  e_group :: int
  e_cluster :: "nat option"
  e_argp :: help_argp

text \<open>\<open>short_options\<close> is null until there are options; the clusters are listed by their addresses.\<close>

record hol =
  hol_entries :: "hol_entry list"
  hol_short :: "string option"
  hol_clusters :: "nat list"

text \<open>The store of clusters, the requests for memory so far, and which of them are granted.\<close>

record help_mem =
  clusters :: "hol_cluster list"
  requests :: nat
  granted :: "nat \<Rightarrow> bool"

definition request :: "help_mem \<Rightarrow> bool \<times> help_mem" where
  "request m = (granted m (requests m), m\<lparr>requests := Suc (requests m)\<rparr>)"

definition find_char :: "char \<Rightarrow> string \<Rightarrow> bool" where
  "find_char ch s = list_ex (\<lambda>c. c = ch) s"

section \<open>Making a hol\<close>

text \<open>
  The inner loop of \<open>make_hol\<close>: an option and the aliases behind it.  It counts them and adds their
  short letters to \<open>so\<close>; \<open>from\<close> is the first of them.
\<close>

fun take_aliases :: "argp_option list \<Rightarrow> nat \<Rightarrow> string \<Rightarrow> nat \<times> string \<times> argp_option list" where
  "take_aliases [] num so = (num, so, [])"
| "take_aliases (o' # os) num so =
     (let num = Suc num;
          so = (if oshort o' \<and> \<not> find_char (key_char o') so then so @ [key_char o'] else so) in
      if os \<noteq> [] \<and> oalias (hd os) then take_aliases os num so else (num, so, os))"

lemma take_aliases_rest: "take_aliases os num so = (n, s, rest) \<Longrightarrow> length rest \<le> length os - 1"
  by (induction os num so rule: take_aliases.induct) (fastforce simp: Let_def split: if_splits)+

function fill_entries :: "help_argp \<Rightarrow> nat option \<Rightarrow> argp_option list \<Rightarrow> int \<Rightarrow> string \<Rightarrow> hol_entry list \<times> string" where
  "fill_entries a cluster os cur_group so =
     (case os of
       [] \<Rightarrow> ([], so)
     | o' # _ \<Rightarrow>
         let grp = (if opt_group o' \<noteq> 0 then opt_group o'
                      else if opt_name o' = None \<and> opt_key o' = 0 then cur_group + 1 else cur_group);
             (num, so', rest) = take_aliases os 0 so;
             (es, so'') = fill_entries a cluster rest grp so' in
         (\<lparr>e_opt = os, e_num = num, e_short = length so, e_group = grp, e_cluster = cluster, e_argp = a\<rparr> # es, so''))"
  by pat_completeness auto

termination fill_entries
  by (relation "measure (\<lambda>(a, cluster, os, g, so). length os)")
     (auto simp del: take_aliases.simps dest!: take_aliases_rest [OF sym])

declare fill_entries.simps [simp del]

definition make_hol :: "help_argp \<Rightarrow> nat option \<Rightarrow> help_mem \<Rightarrow> (hol \<times> help_mem) outcome" where
  "make_hol a cluster m =
     (let (got, m) = request m in
      if \<not> got then Asserts
      else case ha_options a of
        None \<Rightarrow> Done (\<lparr>hol_entries = [], hol_short = None, hol_clusters = []\<rparr>, m)
      | Some opts \<Rightarrow>
          if opts \<noteq> [] \<and> oalias (hd opts) then Asserts
          else
            let (got1, m) = request m; (got2, m) = request m in
            if \<not> (got1 \<and> got2) then Asserts
            else
              let (es, so) = fill_entries a cluster (entries opts) 0 [] in
              Done (\<lparr>hol_entries = es, hol_short = Some so, hol_clusters = []\<rparr>, m))"

definition hol_add_cluster ::
  "hol \<Rightarrow> int \<Rightarrow> string option \<Rightarrow> int \<Rightarrow> nat option \<Rightarrow> help_argp \<Rightarrow> help_mem \<Rightarrow> nat option \<times> hol \<times> help_mem" where
  "hol_add_cluster h grp header index par a m =
     (let (got, m) = request m in
      if got then
        let cl = \<lparr>cl_header = header, cl_index = index, cl_group = grp, cl_parent = par, cl_argp = a,
              cl_depth = (case par of None \<Rightarrow> 0 | Some p \<Rightarrow> Suc (cl_depth (clusters m ! p)))\<rparr>;
            c = length (clusters m) in
        (Some c, h\<lparr>hol_clusters := c # hol_clusters h\<rparr>, m\<lparr>clusters := clusters m @ [cl]\<rparr>)
      else (None, h, m))"

section \<open>Appending\<close>

text \<open>
  The letters of one entry of \<open>other\<close>, from the offset \<open>at\<close> of its string: those that the hol does not
  have (its are the first \<open>n\<close> of \<open>so\<close>) are added.
\<close>

fun append_shorts :: "argp_option list \<Rightarrow> nat \<Rightarrow> string \<Rightarrow> nat \<Rightarrow> string \<Rightarrow> nat \<times> string" where
  "append_shorts [] at other n so = (at, so)"
| "append_shorts (opt # opts) at other n so =
     (if oshort opt \<and> at < length other \<and> other ! at = key_char opt
      then append_shorts opts (Suc at) other n (if find_char (other ! at) (take n so) then so else so @ [other ! at])
      else append_shorts opts at other n so)"

fun append_entries :: "hol_entry list \<Rightarrow> nat \<Rightarrow> string \<Rightarrow> nat \<Rightarrow> string \<Rightarrow> hol_entry list \<times> string" where
  "append_entries [] at other n so = ([], so)"
| "append_entries (e # es) at other n so =
     (let (at, so') = append_shorts (take (e_num e) (e_opt e)) at other n so;
          (es, so'') = append_entries es at other n so' in
      (e\<lparr>e_short := length so\<rparr> # es, so''))"

definition hol_append :: "hol \<Rightarrow> hol \<Rightarrow> help_mem \<Rightarrow> (hol \<times> help_mem) outcome" where
  "hol_append h other m =
     (let h = h\<lparr>hol_clusters := hol_clusters h @ hol_clusters other\<rparr> in
      if hol_entries other = [] then Done (h, m)
      else if hol_entries h = [] then
        Done (h\<lparr>hol_entries := hol_entries other, hol_short := hol_short other\<rparr>, m)
      else
        case (hol_short h, hol_short other) of
          (Some s, Some t) \<Rightarrow>
            let (got1, m) = request m; (got2, m) = request m in
            if \<not> (got1 \<and> got2) then Asserts
            else
              let (es, so) = append_entries (hol_entries other) 0 t (length s) s in
              Done (h\<lparr>hol_entries := hol_entries h @ es, hol_short := Some so\<rparr>, m)
        | _ \<Rightarrow> Faults)"

text \<open>The whole tree; \<open>i\<close> counts the children of an argp.\<close>

fun argp_hol :: "help_argp \<Rightarrow> nat option \<Rightarrow> help_mem \<Rightarrow> (hol \<times> help_mem) outcome"
  and hol_children :: "help_argp \<Rightarrow> help_child list \<Rightarrow> int \<Rightarrow> nat option \<Rightarrow> hol \<Rightarrow> help_mem \<Rightarrow> (hol \<times> help_mem) outcome" where
  "argp_hol (Help_Argp at opts args_doc doc filt children) cluster m =
     (let a = Help_Argp at opts args_doc doc filt children in
      and_then (make_hol a cluster m) (\<lambda>(h, m).
        case children of None \<Rightarrow> Done (h, m) | Some cs \<Rightarrow> hol_children a cs 0 cluster h m))"
| "hol_children a [] i cluster h m = Done (h, m)"
| "hol_children a (Help_Child c header grp # cs) i cluster h m =
     (let (child_cluster, h, m) =
        (if grp \<noteq> 0 \<or> header \<noteq> None then hol_add_cluster h grp header i cluster a m else (cluster, h, m)) in
      and_then (argp_hol c child_cluster m) (\<lambda>(other, m).
      and_then (hol_append h other m) (\<lambda>(h, m).
        hol_children a cs (i + 1) cluster h m)))"

section \<open>Iterating over entries\<close>

text \<open>
  \<open>func\<close> gets an option, its real option and the state of the iteration; a value other than 0 stops.
  \<open>so\<close> is the string from the entry's letter on.
\<close>

fun short_iterate ::
  "(argp_option \<Rightarrow> argp_option \<Rightarrow> 'c \<Rightarrow> int \<times> 'c) \<Rightarrow> argp_option list \<Rightarrow> argp_option \<Rightarrow> string \<Rightarrow> 'c \<Rightarrow> int \<times> 'c" where
  "short_iterate func [] real so ck = (0, ck)"
| "short_iterate func (opt # opts) real so ck =
     (if oshort opt \<and> so \<noteq> [] \<and> hd so = key_char opt then
        let real = (if \<not> oalias opt then opt else real);
            (val, ck) = (if ovisible opt then func opt real ck else (0, ck)) in
        if val \<noteq> 0 then (val, ck) else short_iterate func opts real (tl so) ck
      else short_iterate func opts real so ck)"

definition hol_entry_short_iterate ::
  "(argp_option \<Rightarrow> argp_option \<Rightarrow> 'c \<Rightarrow> int \<times> 'c) \<Rightarrow> string \<Rightarrow> hol_entry \<Rightarrow> 'c \<Rightarrow> int \<times> 'c" where
  "hol_entry_short_iterate func shorts e ck =
     short_iterate func (take (e_num e) (e_opt e)) (hd (e_opt e)) (drop (e_short e) shorts) ck"

fun long_iterate ::
  "(argp_option \<Rightarrow> argp_option \<Rightarrow> 'c \<Rightarrow> int \<times> 'c) \<Rightarrow> argp_option list \<Rightarrow> argp_option \<Rightarrow> 'c \<Rightarrow> int \<times> 'c" where
  "long_iterate func [] real ck = (0, ck)"
| "long_iterate func (opt # opts) real ck =
     (if opt_name opt \<noteq> None then
        let real = (if \<not> oalias opt then opt else real);
            (val, ck) = (if ovisible opt then func opt real ck else (0, ck)) in
        if val \<noteq> 0 then (val, ck) else long_iterate func opts real ck
      else long_iterate func opts real ck)"

definition hol_entry_long_iterate ::
  "(argp_option \<Rightarrow> argp_option \<Rightarrow> 'c \<Rightarrow> int \<times> 'c) \<Rightarrow> hol_entry \<Rightarrow> 'c \<Rightarrow> int \<times> 'c" where
  "hol_entry_long_iterate func e ck = long_iterate func (take (e_num e) (e_opt e)) (hd (e_opt e)) ck"

definition until_short :: "argp_option \<Rightarrow> argp_option \<Rightarrow> unit \<Rightarrow> int \<times> unit" where
  "until_short opt real ck = (if oshort opt then opt_key opt else 0, ck)"

definition hol_entry_first_short :: "string \<Rightarrow> hol_entry \<Rightarrow> int" where
  "hol_entry_first_short shorts e = fst (hol_entry_short_iterate until_short shorts e ())"

definition hol_entry_first_long :: "hol_entry \<Rightarrow> string option" where
  "hol_entry_first_long e =
     (case find (\<lambda>opt. opt_name opt \<noteq> None \<and> ovisible opt) (take (e_num e) (e_opt e)) of
       None \<Rightarrow> None | Some opt \<Rightarrow> opt_name opt)"

text \<open>The entry with a long name, by its index.\<close>

definition has_long :: "string \<Rightarrow> hol_entry \<Rightarrow> bool" where
  "has_long name e = list_ex (\<lambda>opt. opt_name opt = Some name \<and> ovisible opt) (take (e_num e) (e_opt e))"

fun find_entry :: "string \<Rightarrow> nat \<Rightarrow> hol_entry list \<Rightarrow> nat option" where
  "find_entry name i [] = None"
| "find_entry name i (e # es) = (if has_long name e then Some i else find_entry name (Suc i) es)"

definition hol_find_entry :: "hol \<Rightarrow> string \<Rightarrow> nat option" where
  "hol_find_entry h name = find_entry name 0 (hol_entries h)"

definition hol_set_group :: "string \<Rightarrow> int \<Rightarrow> hol \<Rightarrow> hol" where
  "hol_set_group name grp h =
     (case hol_find_entry h name of
       None \<Rightarrow> h
     | Some i \<Rightarrow> h\<lparr>hol_entries := (hol_entries h)[i := (hol_entries h ! i)\<lparr>e_group := grp\<rparr>]\<rparr>)"

end
