(* ===== verification/Hol_Cmp.thy ===== *)
theory Hol_Cmp
  imports Hol Argp_Parse
begin

text \<open>
  \<^verbatim>\<open>src/argp/argp-help.c\<close>: the order of the entries for help.  Walks up the clusters follow pointers:
  null is a crash.  \<open>qsort\<close>, \<open>strcasecmp\<close> and \<open>_tolower\<close> are the C library's.
\<close>

record order_fns =
  qsort_entries :: "(hol_entry \<Rightarrow> hol_entry \<Rightarrow> int) \<Rightarrow> hol_entry list \<Rightarrow> hol_entry list"
  strcasecmp :: "string \<Rightarrow> string \<Rightarrow> int"
  lower_of :: "char \<Rightarrow> int"

text \<open>The difference of two \<open>int\<close>s; where it is none, C says nothing of what happens: a crash.\<close>

definition int_sub :: "int \<Rightarrow> int \<Rightarrow> int run" where
  "int_sub a b = (if - (2 ^ 31) \<le> a - b \<and> a - b < 2 ^ 31 then ret (a - b) else crash)"

definition group_cmp :: "int \<Rightarrow> int \<Rightarrow> int \<Rightarrow> int run" where
  "group_cmp group1 group2 eq =
     (if group1 = group2 then ret eq
      else if (group1 < 0 \<and> group2 < 0) \<or> (group1 \<ge> 0 \<and> group2 \<ge> 0) then int_sub group1 group2
      else int_sub group2 group1)"

section \<open>Clusters\<close>

definition cluster_at :: "hol_cluster list \<Rightarrow> nat option \<Rightarrow> hol_cluster run" where
  "cluster_at st c = (case c of None \<Rightarrow> crash | Some i \<Rightarrow> if i < length st then ret (st ! i) else crash)"

text \<open>The ancestor at depth \<open>d\<close>; the ancestors with a common parent.\<close>

partial_function (option) up_to_depth :: "hol_cluster list \<Rightarrow> nat \<Rightarrow> nat option \<Rightarrow> nat option run" where
  "up_to_depth st d c =
     andthen (cluster_at st c) (\<lambda>r. if d < cl_depth r then up_to_depth st d (cl_parent r) else ret c)"

declare up_to_depth.simps [code]

partial_function (option) common_parent ::
  "hol_cluster list \<Rightarrow> nat option \<Rightarrow> nat option \<Rightarrow> (nat option \<times> nat option) run" where
  "common_parent st c1 c2 =
     andthen (cluster_at st c1) (\<lambda>r1.
     andthen (cluster_at st c2) (\<lambda>r2.
     if cl_parent r1 \<noteq> cl_parent r2 then common_parent st (cl_parent r1) (cl_parent r2) else ret (c1, c2)))"

declare common_parent.simps [code]

definition hol_cluster_cmp :: "hol_cluster list \<Rightarrow> nat option \<Rightarrow> nat option \<Rightarrow> int run" where
  "hol_cluster_cmp st cl1 cl2 =
     andthen (cluster_at st cl2) (\<lambda>r2.
     andthen (up_to_depth st (cl_depth r2) cl1) (\<lambda>cl1.
     andthen (cluster_at st cl1) (\<lambda>r1.
     andthen (up_to_depth st (cl_depth r1) cl2) (\<lambda>cl2.
     andthen (common_parent st cl1 cl2) (\<lambda>(cl1, cl2).
     andthen (cluster_at st cl1) (\<lambda>r1.
     andthen (cluster_at st cl2) (\<lambda>r2.
     andthen (int_sub (cl_index r2) (cl_index r1)) (group_cmp (cl_group r1) (cl_group r2)))))))))"

partial_function (option) hol_cluster_base :: "hol_cluster list \<Rightarrow> nat option \<Rightarrow> hol_cluster run" where
  "hol_cluster_base st c =
     andthen (cluster_at st c) (\<lambda>r. if cl_parent r \<noteq> None then hol_cluster_base st (cl_parent r) else ret r)"

declare hol_cluster_base.simps [code]

partial_function (option) hol_cluster_is_child :: "hol_cluster list \<Rightarrow> nat option \<Rightarrow> nat option \<Rightarrow> bool run" where
  "hol_cluster_is_child st c1 c2 =
     (if c1 \<noteq> None \<and> c1 \<noteq> c2
      then andthen (cluster_at st c1) (\<lambda>r. hol_cluster_is_child st (cl_parent r) c2)
      else ret (c1 = c2))"

declare hol_cluster_is_child.simps [code]

section \<open>Entries\<close>

text \<open>Whether a name is no option, and the tail of it that is compared.\<close>

definition canon_doc_option :: "string \<Rightarrow> bool \<times> string" where
  "canon_doc_option name =
     (let name = dropWhile isspace name in
      (name = [] \<or> hd name \<noteq> CHR ''-'', dropWhile (\<lambda>c. \<not> isalnum c) name))"

definition doc_name :: "argp_option \<Rightarrow> string option \<Rightarrow> bool \<times> string option" where
  "doc_name opt long =
     (if odoc opt then
        (case long of None \<Rightarrow> (False, None) | Some name \<Rightarrow> (let (non_opt, tail) = canon_doc_option name in (non_opt, Some tail)))
      else (False, long))"

definition first_char :: "int \<Rightarrow> string option \<Rightarrow> char" where
  "first_char short long =
     (if short \<noteq> 0 then char_of (nat short)
      else case long of None \<Rightarrow> NUL | Some name \<Rightarrow> if name = [] then NUL else hd name)"

text \<open>Entries of one cluster and group, alphabetically.\<close>

definition name_cmp :: "order_fns \<Rightarrow> string \<Rightarrow> hol_entry \<Rightarrow> hol_entry \<Rightarrow> int" where
  "name_cmp fns shorts entry1 entry2 =
     (let short1 = hol_entry_first_short shorts entry1; short2 = hol_entry_first_short shorts entry2;
          (doc1, long1) = doc_name (hd (e_opt entry1)) (hol_entry_first_long entry1);
          (doc2, long2) = doc_name (hd (e_opt entry2)) (hol_entry_first_long entry2) in
      if doc1 \<noteq> doc2 then of_bool doc1 - of_bool doc2
      else if short1 = 0 \<and> short2 = 0 \<and> long1 \<noteq> None \<and> long2 \<noteq> None then strcasecmp fns (the long1) (the long2)
      else
        let first1 = first_char short1 long1; first2 = first_char short2 long2;
            lower_cmp = lower_of fns first1 - lower_of fns first2 in
        if lower_cmp \<noteq> 0 then lower_cmp else schar first2 - schar first1)"

definition hol_entry_cmp :: "order_fns \<Rightarrow> hol_cluster list \<Rightarrow> string \<Rightarrow> hol_entry \<Rightarrow> hol_entry \<Rightarrow> int run" where
  "hol_entry_cmp fns st shorts entry1 entry2 =
     (let group1 = e_group entry1; group2 = e_group entry2 in
      if e_cluster entry1 \<noteq> e_cluster entry2 then
        if e_cluster entry1 = None then
          andthen (hol_cluster_base st (e_cluster entry2)) (\<lambda>b. group_cmp group1 (cl_group b) (-1))
        else if e_cluster entry2 = None then
          andthen (hol_cluster_base st (e_cluster entry1)) (\<lambda>b. group_cmp (cl_group b) group2 1)
        else hol_cluster_cmp st (e_cluster entry1) (e_cluster entry2)
      else if group1 = group2 then ret (name_cmp fns shorts entry1 entry2)
      else group_cmp group1 group2 0)"

text \<open>\<open>qsort\<close> may compare any two entries.\<close>

definition cmp_value :: "int run \<Rightarrow> int" where
  "cmp_value r = (case r of Some (Some n) \<Rightarrow> n | _ \<Rightarrow> 0)"

definition hol_sort :: "order_fns \<Rightarrow> hol_cluster list \<Rightarrow> hol \<Rightarrow> hol run" where
  "hol_sort fns st h =
     (if hol_entries h = [] then ret h
      else case hol_short h of
        None \<Rightarrow> crash
      | Some shorts \<Rightarrow>
          let cmp = hol_entry_cmp fns st shorts in
          if list_ex (\<lambda>e1. list_ex (\<lambda>e2. cmp e1 e2 = None) (hol_entries h)) (hol_entries h) then None
          else if list_ex (\<lambda>e1. list_ex (\<lambda>e2. cmp e1 e2 = crash) (hol_entries h)) (hol_entries h) then crash
          else ret (h\<lparr>hol_entries := qsort_entries fns (\<lambda>e1 e2. cmp_value (cmp e1 e2)) (hol_entries h)\<rparr>))"

text \<open>The list that \<open>_help\<close> makes: of the whole tree, with \<open>help\<close> and \<open>version\<close> last, in order.\<close>

definition set_last_groups :: "hol \<Rightarrow> hol" where
  "set_last_groups h = hol_set_group ''version'' (-1) (hol_set_group ''help'' (-1) h)"

definition help_hol :: "order_fns \<Rightarrow> help_argp \<Rightarrow> help_mem \<Rightarrow> (hol \<times> help_mem) outcome run" where
  "help_hol fns a m =
     (case argp_hol a None m of
       Done (h, m) \<Rightarrow> andthen (hol_sort fns (clusters m) (set_last_groups h)) (\<lambda>h. ret (Done (h, m)))
     | Exits n \<Rightarrow> ret (Exits n)
     | Asserts \<Rightarrow> ret Asserts
     | Faults \<Rightarrow> crash)"

end
