(* ===== verification/Hol_Shorts.thy ===== *)
theory Hol_Shorts
  imports Hol "HOL-Library.Multiset"
begin

text \<open>
  The short options of a hol: its string holds every letter of the tree once, each entry points to its
  own part of it, and an option is shown under its letter just when it is the first of the tree with it.
\<close>

section \<open>The reference\<close>

text \<open>The options of a tree in order, each with the option it is an alias of, or itself.\<close>

fun with_base :: "argp_option \<Rightarrow> argp_option list \<Rightarrow> (argp_option \<times> argp_option) list" where
  "with_base b [] = []"
| "with_base b (o' # os) = (let b = (if oalias o' then b else o') in (o', b) # with_base b os)"

definition table_options :: "argp_option list option \<Rightarrow> (argp_option \<times> argp_option) list" where
  "table_options opts = (case opts of None \<Rightarrow> [] | Some os \<Rightarrow> with_base (hd os) (entries os))"

fun tree_options :: "help_argp \<Rightarrow> (argp_option \<times> argp_option) list"
  and children_options :: "help_child list \<Rightarrow> (argp_option \<times> argp_option) list" where
  "tree_options (Help_Argp at opts args_doc doc filt children) =
     table_options opts @ (case children of None \<Rightarrow> [] | Some cs \<Rightarrow> children_options cs)"
| "children_options [] = []"
| "children_options (Help_Child c header grp # cs) = tree_options c @ children_options cs"

text \<open>Those whose letter is not in \<open>seen\<close> and was not had before.\<close>

fun firsts :: "string \<Rightarrow> (argp_option \<times> argp_option) list \<Rightarrow> (argp_option \<times> argp_option) list" where
  "firsts seen [] = []"
| "firsts seen (p # ps) =
     (if oshort (fst p) \<and> key_char (fst p) \<notin> set seen then p # firsts (seen @ [key_char (fst p)]) ps else firsts seen ps)"

abbreviation letters :: "(argp_option \<times> argp_option) list \<Rightarrow> string" where
  "letters ps \<equiv> map (\<lambda>p. key_char (fst p)) ps"

lemma firsts_append: "firsts seen (ps @ qs) = firsts seen ps @ firsts (seen @ letters (firsts seen ps)) qs"
  by (induction seen ps rule: firsts.induct) auto

lemma firsts_set: "set seen = set seen' \<Longrightarrow> firsts seen ps = firsts seen' ps"
proof (induction ps arbitrary: seen seen')
  case (Cons p ps)
  have "firsts (seen @ [c]) ps = firsts (seen' @ [c]) ps" for c by (rule Cons.IH) (use Cons.prems in simp)
  from this [of "key_char (fst p)"] show ?case using Cons.IH [OF Cons.prems] Cons.prems by simp
qed simp

lemma firsts_fresh: "p \<in> set (firsts seen ps) \<Longrightarrow> oshort (fst p) \<and> key_char (fst p) \<notin> set seen \<and> p \<in> set ps"
  by (induction seen ps rule: firsts.induct) (auto split: if_splits)

lemma letters_distinct: "distinct (letters (firsts seen ps))"
proof (induction seen ps rule: firsts.induct)
  case (2 seen p ps)
  have "key_char (fst p) \<notin> set (letters (firsts (seen @ [key_char (fst p)]) ps))"
    using firsts_fresh [of _ "seen @ [key_char (fst p)]" ps] by fastforce
  then show ?case using 2 by auto
qed simp

lemma letters_disjoint: "distinct seen \<Longrightarrow> distinct (seen @ letters (firsts seen ps))"
  using letters_distinct firsts_fresh by fastforce

text \<open>Letters that some others take away.\<close>

lemma firsts_filter:
  "set so = H \<union> set seen \<Longrightarrow> firsts so ps = filter (\<lambda>p. key_char (fst p) \<notin> H) (firsts seen ps)"
proof (induction ps arbitrary: so seen)
  case (Cons p ps)
  let ?c = "key_char (fst p)"
  show ?case
  proof (cases "oshort (fst p) \<and> ?c \<notin> set seen")
    case True
    show ?thesis
    proof (cases "?c \<in> H")
      case in_H: True
      have "firsts so ps = filter (\<lambda>p. key_char (fst p) \<notin> H) (firsts (seen @ [?c]) ps)"
        by (rule Cons.IH) (use Cons.prems in_H in auto)
      then show ?thesis using Cons.prems True in_H by simp
    next
      case False
      have "firsts (so @ [?c]) ps = filter (\<lambda>p. key_char (fst p) \<notin> H) (firsts (seen @ [?c]) ps)"
        by (rule Cons.IH) (use Cons.prems in auto)
      then show ?thesis using Cons.prems True False by simp
    qed
  next
    case False
    then show ?thesis using Cons.IH [OF Cons.prems] Cons.prems by auto
  qed
qed simp

section \<open>Entries in their places\<close>

definition block :: "hol_entry \<Rightarrow> argp_option list" where
  "block e = take (e_num e) (e_opt e)"

text \<open>The options of an entry: a real one, then its aliases.\<close>

definition real_block :: "argp_option list \<Rightarrow> bool" where
  "real_block os \<longleftrightarrow> os \<noteq> [] \<and> \<not> oalias (hd os) \<and> list_all oalias (tl os)"

definition based :: "hol_entry \<Rightarrow> (argp_option \<times> argp_option) list" where
  "based e = map (\<lambda>o'. (o', hd (block e))) (block e)"

fun placed :: "string \<Rightarrow> hol_entry list \<Rightarrow> bool" where
  "placed so [] \<longleftrightarrow> True"
| "placed so (e # es) \<longleftrightarrow> e_short e = length so \<and> real_block (block e) \<and>
     placed (so @ letters (firsts so (based e))) es"

definition all_based :: "hol_entry list \<Rightarrow> (argp_option \<times> argp_option) list" where
  "all_based es = concat (map based es)"

lemma all_based_simps [simp]:
  "all_based [] = []" "all_based (e # es) = based e @ all_based es" "all_based (es @ fs) = all_based es @ all_based fs"
  by (simp_all add: all_based_def)

definition hol_ok :: "hol \<Rightarrow> (argp_option \<times> argp_option) list \<Rightarrow> bool" where
  "hol_ok h ps \<longleftrightarrow> placed [] (hol_entries h) \<and> all_based (hol_entries h) = ps \<and>
     (hol_entries h \<noteq> [] \<longrightarrow> hol_short h = Some (letters (firsts [] ps)))"

lemma placed_append:
  "placed so (es @ fs) \<longleftrightarrow> placed so es \<and> placed (so @ letters (firsts so (all_based es))) fs"
  by (induction so es rule: placed.induct) (auto simp: firsts_append)

section \<open>Making\<close>

lemma find_char_set: "find_char c s \<longleftrightarrow> c \<in> set s"
  by (induction s) (auto simp: find_char_def)

lemma with_base_aliases: "list_all oalias os \<Longrightarrow> with_base b (os @ rest) = map (\<lambda>o'. (o', b)) os @ with_base b rest"
  by (induction os) auto

lemma take_aliases_block:
  assumes "os \<noteq> []"
  shows "\<exists>n. take_aliases os num so = (num + n, so @ letters (firsts so (map (\<lambda>o'. (o', b)) (take n os))), drop n os) \<and>
    0 < n \<and> n \<le> length os \<and> list_all oalias (tl (take n os)) \<and> (drop n os \<noteq> [] \<longrightarrow> \<not> oalias (hd (drop n os)))"
  using assms
proof (induction os arbitrary: num so)
  case (Cons o' os)
  define so' where "so' = (if oshort o' \<and> \<not> find_char (key_char o') so then so @ [key_char o'] else so)"
  have so': "so @ letters (firsts so ((o', b) # ps)) = so' @ letters (firsts so' ps)" for ps
    by (simp add: so'_def find_char_set)
  show ?case
  proof (cases "os \<noteq> [] \<and> oalias (hd os)")
    case True
    then obtain n where n: "take_aliases os (Suc num) so' =
        (Suc num + n, so' @ letters (firsts so' (map (\<lambda>o'. (o', b)) (take n os))), drop n os)"
      "0 < n" "n \<le> length os" "list_all oalias (tl (take n os))" "drop n os \<noteq> [] \<longrightarrow> \<not> oalias (hd (drop n os))"
      using Cons.IH [of "Suc num" so'] by auto
    have "list_all oalias (take n os)" using n(2,4) True by (cases os; cases n) auto
    moreover have "take_aliases (o' # os) num so = take_aliases os (Suc num) so'"
      using True by (simp add: so'_def)
    ultimately show ?thesis
      using n so' [of "map (\<lambda>o'. (o', b)) (take n os)"] by (intro exI [of _ "Suc n"]) simp
  next
    case False
    then have "take_aliases (o' # os) num so = (Suc num, so', os)" by (auto simp: so'_def Let_def)
    then show ?thesis using False so' [of "[]"] by (intro exI [of _ 1]) (auto simp: so'_def)
  qed
qed simp

lemma fill_entries_placed:
  assumes "fill_entries a cluster os g so = (es, so')" and "os \<noteq> [] \<Longrightarrow> \<not> oalias (hd os)"
  shows "placed so es \<and> all_based es = with_base b os \<and> so' = so @ letters (firsts so (all_based es))"
  using assms
proof (induction a cluster os g so arbitrary: es so' b rule: fill_entries.induct)
  case (1 a cluster os cur_group so)
  show ?case
  proof (cases os)
    case Nil
    then show ?thesis using 1(2) by (simp add: fill_entries.simps)
  next
    case (Cons o' os')
    define grp where "grp = (if opt_group o' \<noteq> 0 then opt_group o'
      else if opt_name o' = None \<and> opt_key o' = 0 then cur_group + 1 else cur_group)"
    obtain n where n: "take_aliases os 0 so = (n, so @ letters (firsts so (map (\<lambda>p. (p, o')) (take n os))), drop n os)"
      "0 < n" "n \<le> length os" "list_all oalias (tl (take n os))" "drop n os \<noteq> [] \<longrightarrow> \<not> oalias (hd (drop n os))"
      using take_aliases_block [of os 0 so o'] Cons by auto
    define so1 where "so1 = so @ letters (firsts so (map (\<lambda>p. (p, o')) (take n os)))"
    obtain es1 so2 where f: "fill_entries a cluster (drop n os) grp so1 = (es1, so2)" by fastforce
    let ?e = "\<lparr>e_opt = os, e_num = n, e_short = length so, e_group = grp, e_cluster = cluster, e_argp = a\<rparr>"
    have "fill_entries a cluster os cur_group so = (?e # es1, so2)"
      using n(1) f by (subst fill_entries.simps) (simp add: Cons Let_def grp_def so1_def del: take_aliases.simps cong: if_cong)
    then have es: "es = ?e # es1" "so' = so2" using 1(2) by simp_all
    have b: "block ?e = take n os" "hd (take n os) = o'" using Cons n(2) by (simp_all add: block_def)
    have real: "\<not> oalias o'" using 1(3) Cons by simp
    have base: "based ?e = map (\<lambda>p. (p, o')) (take n os)" using b by (simp add: based_def)
    have n1: "take_aliases os 0 so = (n, so1, drop n os)" using n(1) by (simp only: so1_def)
    have IH: "placed so1 es1 \<and> all_based es1 = with_base o' (drop n os) \<and> so2 = so1 @ letters (firsts so1 (all_based es1))"
      by (rule 1(1) [OF Cons grp_def n1 [symmetric] refl refl f]) (use n(5) in simp)
    have "with_base b os = map (\<lambda>p. (p, o')) (take n os) @ with_base o' (drop n os)"
    proof -
      have "take n os = o' # tl (take n os)" using Cons n(2) by (cases n) auto
      then obtain ts where ts: "take n os = o' # ts" by blast
      then have "os = o' # ts @ drop n os" by (metis append_Cons append_take_drop_id)
      then have "with_base b os = with_base b (o' # ts @ drop n os)" by (rule arg_cong)
      also have "\<dots> = (o', o') # map (\<lambda>p. (p, o')) ts @ with_base o' (drop n os)"
        using real with_base_aliases [of ts o' "drop n os"] n(4) ts by simp
      finally show ?thesis using ts by simp
    qed
    moreover have "real_block (block ?e)" using b real n(2-4) Cons by (auto simp: real_block_def)
    ultimately show ?thesis
      using IH base unfolding es so1_def by (simp add: firsts_append)
  qed
qed

section \<open>Appending\<close>

text \<open>\<open>t\<close> is the string of the other hol; \<open>seen\<close> is the part of it before the option.\<close>

lemma append_shorts_firsts:
  assumes "t = seen @ letters (firsts seen (map (\<lambda>o'. (o', b)) opts)) @ rest" and "distinct t" and "n \<le> length so"
  shows "append_shorts opts (length seen) t n so =
    (length (seen @ letters (firsts seen (map (\<lambda>o'. (o', b)) opts))),
     so @ filter (\<lambda>c. c \<notin> set (take n so)) (letters (firsts seen (map (\<lambda>o'. (o', b)) opts))))"
  using assms
proof (induction opts arbitrary: seen so)
  case (Cons opt opts)
  let ?ps = "\<lambda>opts. map (\<lambda>o'. (o', b)) opts" and ?c = "key_char opt"
  show ?case
  proof (cases "oshort opt \<and> ?c \<notin> set seen")
    case True
    let ?so = "if find_char ?c (take n so) then so else so @ [?c]"
    have at: "length seen < length t" "t ! length seen = ?c" using Cons.prems(1) True by (simp_all add: nth_append)
    have "append_shorts opts (length (seen @ [?c])) t n ?so =
        (length ((seen @ [?c]) @ letters (firsts (seen @ [?c]) (?ps opts))),
         ?so @ filter (\<lambda>c. c \<notin> set (take n ?so)) (letters (firsts (seen @ [?c]) (?ps opts))))"
      by (rule Cons.IH) (use Cons.prems True in auto)
    moreover have "take n ?so = take n so" using Cons.prems(3) by simp
    ultimately show ?thesis using True at by (cases "?c \<in> set (take n so)") (simp_all add: find_char_set)
  next
    case False
    have skip: "\<not> (oshort opt \<and> length seen < length t \<and> t ! length seen = ?c)"
    proof
      assume a: "oshort opt \<and> length seen < length t \<and> t ! length seen = ?c"
      then have "?c \<in> set seen" using False by simp
      then obtain i where "i < length seen" "t ! i = ?c"
        using Cons.prems(1) by (auto simp: in_set_conv_nth nth_append)
      then show False using a Cons.prems(2) nth_eq_iff_index_eq [of t i "length seen"] by simp
    qed
    have same: "firsts seen (?ps (opt # opts)) = firsts seen (?ps opts)" using False by auto
    have "append_shorts (opt # opts) (length seen) t n so = append_shorts opts (length seen) t n so"
      unfolding append_shorts.simps using skip by presburger
    also have "\<dots> = (length (seen @ letters (firsts seen (?ps opts))),
        so @ filter (\<lambda>c. c \<notin> set (take n so)) (letters (firsts seen (?ps opts))))"
      by (rule Cons.IH) (use Cons.prems same in simp_all)
    finally show ?thesis unfolding same .
  qed
qed simp

lemma filter_letters: "filter P (letters ps) = letters (filter (\<lambda>p. P (key_char (fst p))) ps)"
  by (simp add: filter_map comp_def)

lemma append_entries_placed:
  assumes "placed seen es" and "t = seen @ letters (firsts seen (all_based es))" and "distinct t"
    and "set so = set (take n so) \<union> set seen" and "n \<le> length so"
    and "append_entries es (length seen) t n so = (es', so')"
  shows "placed so es' \<and> map based es' = map based es \<and> so' = so @ letters (firsts so (all_based es))"
  using assms
proof (induction es arbitrary: seen so es' so')
  case (Cons e es)
  let ?H = "set (take n so)"
  let ?seen = "seen @ letters (firsts seen (based e))" and ?so = "so @ letters (firsts so (based e))"
  have eb: "based e = map (\<lambda>o'. (o', hd (block e))) (block e)" by (simp add: based_def)
  have fs: "letters (firsts so (based e)) = filter (\<lambda>c. c \<notin> ?H) (letters (firsts seen (based e)))"
    unfolding filter_letters using firsts_filter [of so ?H seen "based e"] Cons.prems(4) by simp
  have one: "append_shorts (block e) (length seen) t n so = (length ?seen, ?so)"
    unfolding fs using append_shorts_firsts [of t seen "hd (block e)" "block e" "letters (firsts ?seen (all_based es))" n so]
      Cons.prems(2,3,5) by (simp add: eb firsts_append)
  obtain es1 so1 where rest: "append_entries es (length ?seen) t n ?so = (es1, so1)" by fastforce
  have out: "es' = e\<lparr>e_short := length so\<rparr> # es1" "so' = so1"
    using Cons.prems(6) one rest by (auto simp: block_def Let_def)
  have keep: "take n ?so = take n so" using Cons.prems(5) by simp
  have IH: "placed ?so es1 \<and> map based es1 = map based es \<and> so1 = ?so @ letters (firsts ?so (all_based es))"
  proof (rule Cons.IH [of ?seen])
    show "placed ?seen es" using Cons.prems(1) by simp
    show "t = ?seen @ letters (firsts ?seen (all_based es))" using Cons.prems(2) by (simp add: firsts_append)
    show "set ?so = set (take n ?so) \<union> set ?seen" unfolding keep using Cons.prems(4) by (auto simp: fs)
    show "n \<le> length ?so" using Cons.prems(5) by simp
  qed (use rest Cons.prems(3) in auto)
  have "block (e\<lparr>e_short := length so\<rparr>) = block e" by (simp add: block_def)
  moreover from this have "based (e\<lparr>e_short := length so\<rparr>) = based e" by (simp add: based_def)
  ultimately show ?case using IH Cons.prems(1) unfolding out by (simp add: firsts_append)
qed simp

lemma hol_append_ok:
  assumes h: "hol_ok h ps" and o: "hol_ok other qs" and r: "hol_append h other m = Done (h', m')"
  shows "hol_ok h' (ps @ qs)"
proof (cases "hol_entries other = [] \<or> hol_entries h = []")
  case True
  then show ?thesis using assms by (auto simp: hol_append_def hol_ok_def Let_def split: if_splits)
next
  case False
  let ?s = "letters (firsts [] ps)" and ?t = "letters (firsts [] qs)"
  have s: "hol_short h = Some ?s" "hol_short other = Some ?t" using h o False by (simp_all add: hol_ok_def)
  obtain es so where a: "append_entries (hol_entries other) 0 ?t (length ?s) ?s = (es, so)" by fastforce
  have h': "h' = h\<lparr>hol_clusters := hol_clusters h @ hol_clusters other, hol_entries := hol_entries h @ es, hol_short := Some so\<rparr>"
    using r s False a by (auto simp: hol_append_def Let_def split: prod.splits if_splits)
  have "placed ?s es \<and> map based es = map based (hol_entries other) \<and>
      so = ?s @ letters (firsts ?s (all_based (hol_entries other)))"
    by (rule append_entries_placed [of "[]" _ ?t _ "length ?s"])
       (use o a letters_distinct [of "[]" qs] in \<open>auto simp: hol_ok_def\<close>)
  moreover from this have "all_based es = qs" using o by (simp add: all_based_def hol_ok_def)
  ultimately show ?thesis using h o h' by (simp add: hol_ok_def placed_append firsts_append)
qed

section \<open>The tree\<close>

lemma make_hol_ok:
  assumes "make_hol a cluster m = Done (h, m')"
  shows "hol_ok h (table_options (ha_options a))"
proof (cases "ha_options a")
  case None
  then show ?thesis
    using assms by (auto simp: make_hol_def hol_ok_def table_options_def Let_def split: prod.splits if_splits)
next
  case (Some opts)
  obtain es so where f: "fill_entries a cluster (entries opts) 0 [] = (es, so)" by fastforce
  have h: "h = \<lparr>hol_entries = es, hol_short = Some so, hol_clusters = []\<rparr>" and real: "opts \<noteq> [] \<longrightarrow> \<not> oalias (hd opts)"
    using assms Some f by (auto simp: make_hol_def Let_def split: prod.splits if_splits)
  have "entries opts \<noteq> [] \<Longrightarrow> \<not> oalias (hd (entries opts))"
    using real by (cases opts) (auto simp: entries_def split: if_splits)
  from fill_entries_placed [OF f this, of "hd opts"] show ?thesis
    by (simp add: h hol_ok_def table_options_def Some)
qed

lemma argp_hol_ok:
  "argp_hol a cluster m = Done (h, m') \<Longrightarrow> hol_ok h (tree_options a)"
  "hol_children a cs i cluster g m = Done (h, m') \<Longrightarrow> hol_ok g ps \<Longrightarrow> hol_ok h (ps @ children_options cs)"
proof (induction a cluster m and a cs i cluster g m arbitrary: h m' and h m' ps rule: argp_hol_hol_children.induct)
  case (1 at opts args_doc doc filt children cluster m)
  let ?a = "Help_Argp at opts args_doc doc filt children"
  obtain g m1 where g: "make_hol ?a cluster m = Done (g, m1)"
    and rest: "(case children of None \<Rightarrow> Done (g, m1) | Some cs \<Rightarrow> hol_children ?a cs 0 cluster g m1) = Done (h, m')"
    using 1(2) by (auto simp: Let_def elim!: and_thenE)
  have ok: "hol_ok g (table_options opts)" using make_hol_ok [OF g] by simp
  show ?case
  proof (cases children)
    case None
    then show ?thesis using rest ok by simp
  next
    case (Some cs)
    then show ?thesis using 1(1) [OF refl Some] rest ok by auto
  qed
next
  case (3 a c header grp cs i cluster g m)
  obtain cc g1 m1 where add: "(if grp \<noteq> 0 \<or> header \<noteq> None then hol_add_cluster g grp header i cluster a m else (cluster, g, m)) = (cc, g1, m1)"
    by (metis prod_cases3)
  have "and_then (argp_hol c cc m1) (\<lambda>(other, m). and_then (hol_append g1 other m) (\<lambda>(h, m).
      hol_children a cs (i + 1) cluster h m)) = Done (h, m')"
    using 3(3) by (simp only: hol_children.simps add prod.case Let_def)
  then obtain o' m2 g2 m3 where steps: "argp_hol c cc m1 = Done (o', m2)" "hol_append g1 o' m2 = Done (g2, m3)"
      "hol_children a cs (i + 1) cluster g2 m3 = Done (h, m')"
    by (auto elim!: and_thenE)
  have "hol_ok g1 ps"
    using add 3(4) by (auto simp: hol_add_cluster_def hol_ok_def Let_def split: if_splits prod.splits)
  then have "hol_ok g2 (ps @ tree_options c)"
    using hol_append_ok [OF _ _ steps(2)] 3(1) [OF add [symmetric] refl refl steps(1)] by blast
  from 3(2) [OF add [symmetric] refl refl steps(3) this] show ?case by simp
qed simp

section \<open>What is shown\<close>

text \<open>The options, with their real ones, that the iteration over an entry visits.\<close>

definition shown_shorts :: "string \<Rightarrow> hol_entry \<Rightarrow> (argp_option \<times> argp_option) list" where
  "shown_shorts shorts e = snd (hol_entry_short_iterate (\<lambda>opt real ps. (0, ps @ [(opt, real)])) shorts e [])"

lemma short_iterate_skip:
  "\<not> (oshort opt \<and> so \<noteq> [] \<and> hd so = key_char opt) \<Longrightarrow>
   short_iterate func (opt # opts) real so ck = short_iterate func opts real so ck"
  by (simp only: short_iterate.simps if_False)

lemma short_iterate_firsts:
  assumes "\<And>opt real ck. fst (func opt real ck) = 0" and "list_all oalias opts"
    and "so = letters (firsts seen (map (\<lambda>o'. (o', b)) opts)) @ rest" and "distinct (seen @ so)"
  shows "short_iterate func opts b so ck =
    (0, foldl (\<lambda>ck p. snd (func (fst p) (snd p) ck)) ck
      (filter (\<lambda>p. ovisible (fst p)) (firsts seen (map (\<lambda>o'. (o', b)) opts))))"
  using assms(2-)
proof (induction opts arbitrary: seen so ck)
  case (Cons opt opts)
  let ?c = "key_char opt" and ?ps = "\<lambda>opts. map (\<lambda>o'. (o', b)) opts"
  show ?case
  proof (cases "oshort opt \<and> ?c \<notin> set seen")
    case True
    let ?ck = "if ovisible opt then snd (func opt b ck) else ck"
    have so: "so \<noteq> []" "hd so = ?c" "tl so = letters (firsts (seen @ [?c]) (?ps opts)) @ rest"
      using Cons.prems(2) True by simp_all
    have "so = ?c # tl so" using so by (cases so) auto
    then have d: "distinct ((seen @ [?c]) @ tl so)" using Cons.prems(3) by (metis append_Cons append_Nil append_assoc)
    have IH: "short_iterate func opts b (tl so) ?ck = (0, foldl (\<lambda>ck p. snd (func (fst p) (snd p) ck)) ?ck
        (filter (\<lambda>p. ovisible (fst p)) (firsts (seen @ [?c]) (?ps opts))))"
      by (rule Cons.IH [OF _ so(3) d]) (use Cons.prems(1) in simp)
    obtain ck' where "func opt b ck = (0, ck')" using assms(1) [of opt b ck] by (cases "func opt b ck") simp
    then show ?thesis using IH True so Cons.prems(1) by (cases "ovisible opt") (simp_all add: Let_def)
  next
    case False
    have skip: "\<not> (oshort opt \<and> so \<noteq> [] \<and> hd so = ?c)"
      using False Cons.prems(3) by (cases so) auto
    have same: "firsts seen (?ps (opt # opts)) = firsts seen (?ps opts)" using False by auto
    have "short_iterate func (opt # opts) b so ck = short_iterate func opts b so ck"
      using skip by (rule short_iterate_skip)
    also have "\<dots> = (0, foldl (\<lambda>ck p. snd (func (fst p) (snd p) ck)) ck
        (filter (\<lambda>p. ovisible (fst p)) (firsts seen (?ps opts))))"
      by (rule Cons.IH) (use Cons.prems same in simp_all)
    finally show ?thesis unfolding same .
  qed
qed simp

lemma entry_iterate:
  assumes func: "\<And>opt real ck. fst (func opt real ck) = 0" and real: "real_block (block e)"
    and so: "drop (e_short e) shorts = letters (firsts seen (based e)) @ rest" and d: "distinct (seen @ drop (e_short e) shorts)"
  shows "hol_entry_short_iterate func shorts e ck =
    (0, foldl (\<lambda>ck p. snd (func (fst p) (snd p) ck)) ck (filter (\<lambda>p. ovisible (fst p)) (firsts seen (based e))))"
proof -
  obtain r os where b: "block e = r # os" "\<not> oalias r" "list_all oalias os"
    using real by (cases "block e") (auto simp: real_block_def)
  have hd: "hd (e_opt e) = r" using b(1) by (cases "e_num e"; cases "e_opt e") (auto simp: block_def)
  let ?so = "drop (e_short e) shorts" and ?c = "key_char r" and ?ps = "map (\<lambda>o'. (o', r)) os"
  have base: "based e = (r, r) # ?ps" using b(1) by (simp add: based_def)
  show ?thesis
  proof (cases "oshort r \<and> ?c \<notin> set seen")
    case True
    let ?ck = "if ovisible r then snd (func r r ck) else ck"
    have so1: "?so \<noteq> []" "hd ?so = ?c" "tl ?so = letters (firsts (seen @ [?c]) ?ps) @ rest"
      using so base True by simp_all
    have "?so = ?c # tl ?so" using so1 by (cases ?so) auto
    then have d1: "distinct ((seen @ [?c]) @ tl ?so)" using d by (metis append_Cons append_Nil append_assoc)
    obtain ck' where "func r r ck = (0, ck')" using func [of r r ck] by (cases "func r r ck") simp
    then show ?thesis
      using short_iterate_firsts [OF func b(3) so1(3) d1, where ck = ?ck] True so1 b base
      by (cases "ovisible r") (simp_all add: hol_entry_short_iterate_def block_def [symmetric] hd Let_def)
  next
    case False
    have skip: "\<not> (oshort r \<and> ?so \<noteq> [] \<and> hd ?so = ?c)" using False d by (cases ?so) auto
    have same: "firsts seen (based e) = firsts seen ?ps" using False base by auto
    have "short_iterate func os r ?so ck = (0, foldl (\<lambda>ck p. snd (func (fst p) (snd p) ck)) ck
        (filter (\<lambda>p. ovisible (fst p)) (firsts seen ?ps)))"
      by (rule short_iterate_firsts [OF func b(3) _ d]) (use so same in simp)
    moreover have "short_iterate func (r # os) r ?so ck = short_iterate func os r ?so ck"
      by (rule short_iterate_skip [OF skip])
    ultimately show ?thesis
      using b by (simp add: hol_entry_short_iterate_def block_def [symmetric] hd same del: short_iterate.simps)
  qed
qed

lemma foldl_snoc: "foldl (\<lambda>ps p. ps @ [p]) xs ys = xs @ ys"
  by (induction ys arbitrary: xs) auto

lemma shown_placed:
  assumes "placed seen es" and "shorts = seen @ letters (firsts seen (all_based es)) @ rest" and "distinct shorts"
  shows "concat (map (shown_shorts shorts) es) = filter (\<lambda>p. ovisible (fst p)) (firsts seen (all_based es))"
  using assms
proof (induction es arbitrary: seen)
  case (Cons e es)
  let ?seen = "seen @ letters (firsts seen (based e))"
  have split: "shorts = seen @ letters (firsts seen (based e)) @ letters (firsts ?seen (all_based es)) @ rest"
    using Cons.prems(2) by (simp add: firsts_append)
  have tail: "drop (e_short e) shorts = letters (firsts seen (based e)) @ letters (firsts ?seen (all_based es)) @ rest"
    using Cons.prems(1) split by simp
  have d: "distinct (seen @ drop (e_short e) shorts)" unfolding tail using Cons.prems(3) split by simp
  have "shown_shorts shorts e = filter (\<lambda>p. ovisible (fst p)) (firsts seen (based e))"
    unfolding shown_shorts_def
    by (subst entry_iterate [OF _ _ tail d]) (use Cons.prems(1) in \<open>auto simp: foldl_snoc\<close>)
  moreover have "concat (map (shown_shorts shorts) es) = filter (\<lambda>p. ovisible (fst p)) (firsts ?seen (all_based es))"
    by (rule Cons.IH) (use Cons.prems split in auto)
  ultimately show ?case by (simp add: firsts_append)
qed simp

lemma tree_shown:
  assumes "argp_hol a cluster m = Done (h, m')" and "hol_entries h \<noteq> []"
  shows "hol_short h = Some (letters (firsts [] (tree_options a)))"
    and "concat (map (shown_shorts (the (hol_short h))) (hol_entries h)) =
      filter (\<lambda>p. ovisible (fst p)) (firsts [] (tree_options a))"
proof -
  have ok: "hol_ok h (tree_options a)" by (rule argp_hol_ok(1) [OF assms(1)])
  then show s: "hol_short h = Some (letters (firsts [] (tree_options a)))" using assms(2) by (simp add: hol_ok_def)
  show "concat (map (shown_shorts (the (hol_short h))) (hol_entries h)) =
      filter (\<lambda>p. ovisible (fst p)) (firsts [] (tree_options a))"
    using shown_placed [of "[]" "hol_entries h" "the (hol_short h)" "[]"] ok letters_distinct [of "[]" "tree_options a"]
    by (simp add: hol_ok_def s)
qed

end
