(* ===== verification/Hol_Order.thy ===== *)
theory Hol_Order
  imports Hol_Cmp Hol_Shorts C_Sort "HOL-Library.Product_Lexorder" "HOL-Library.List_Lexorder"
begin

text \<open>
  The order of help: where the comparison of two entries is an order, which one it is, and that
  sorting puts the entries into it.
\<close>

section \<open>Groups\<close>

text \<open>
  The order of groups in \<^verbatim>\<open>argp.h\<close>: 0, 1, 2, ..., n, -m, ..., -2, -1.  A group not below 0 is before
  every group below 0.
\<close>

datatype help_group = Help_Group int

instantiation help_group :: linorder
begin

fun less_eq_help_group :: "help_group \<Rightarrow> help_group \<Rightarrow> bool" where
  "Help_Group a \<le> Help_Group b \<longleftrightarrow> (if (a < 0) = (b < 0) then a \<le> b else b < 0)"

definition less_help_group :: "help_group \<Rightarrow> help_group \<Rightarrow> bool" where
  "g < (g' :: help_group) \<longleftrightarrow> g \<le> g' \<and> \<not> g' \<le> g"

instance
proof
  fix x y z :: help_group
  show "x \<le> x" by (cases x) simp
  show "x \<le> y \<Longrightarrow> y \<le> z \<Longrightarrow> x \<le> z" by (cases x; cases y; cases z) (auto split: if_splits)
  show "x \<le> y \<Longrightarrow> y \<le> x \<Longrightarrow> x = y" by (cases x; cases y) (auto split: if_splits)
  show "x \<le> y \<or> y \<le> x" by (cases x; cases y) auto
qed (simp add: less_help_group_def)

end

text \<open>A comparison result that tells how two places of a linear order lie.\<close>

definition tells :: "int \<Rightarrow> 'a :: linorder \<Rightarrow> 'a \<Rightarrow> bool" where
  "tells n x y \<longleftrightarrow> (n < 0 \<longleftrightarrow> x < y) \<and> (0 < n \<longleftrightarrow> y < x)"

lemma tells_minus: "tells (x - y) x (y :: int)"
  by (auto simp: tells_def)

lemma tells_first:
  assumes "x \<noteq> x'" and "tells n x x'"
  shows "tells n (x, y :: 'b :: linorder) (x', y')"
  using assms by (auto simp: tells_def less_prod_def less_eq_prod_def)

lemma tells_second: "tells n (y :: 'b :: linorder) y' \<Longrightarrow> tells n (x :: 'a :: linorder, y) (x, y')"
  by (simp add: tells_def less_prod_def less_eq_prod_def)

text \<open>Groups whose differences are \<open>int\<close>s.\<close>

definition small :: "int \<Rightarrow> bool" where
  "small n \<longleftrightarrow> - (2 ^ 30) \<le> n \<and> n < 2 ^ 30"

lemma int_sub_small: "small a \<Longrightarrow> small b \<Longrightarrow> int_sub a b = ret (a - b)"
  by (simp add: small_def int_sub_def)

lemma group_cmp_tells:
  assumes "small g" "small g'" "g \<noteq> g'"
  obtains n where "group_cmp g g' eq = ret n" "tells n (Help_Group g) (Help_Group g')"
proof (rule that)
  let ?n = "if (g < 0) = (g' < 0) then g - g' else g' - g"
  show "group_cmp g g' eq = ret ?n" using assms by (auto simp: group_cmp_def int_sub_small)
  show "tells ?n (Help_Group g) (Help_Group g')" using assms(3) by (auto simp: tells_def less_help_group_def)
qed

lemma group_cmp_same: "group_cmp g g eq = ret eq"
  by (simp add: group_cmp_def)

section \<open>Places\<close>

text \<open>How an entry is compared by name: by a whole long name, or by one character.\<close>

definition doc_part :: "hol_entry \<Rightarrow> bool" where
  "doc_part e = fst (doc_name (hd (e_opt e)) (hol_entry_first_long e))"

definition long_part :: "hol_entry \<Rightarrow> string option" where
  "long_part e = snd (doc_name (hd (e_opt e)) (hol_entry_first_long e))"

definition long_only :: "string \<Rightarrow> hol_entry \<Rightarrow> bool" where
  "long_only shorts e \<longleftrightarrow> hol_entry_first_short shorts e = 0 \<and> long_part e \<noteq> None"

definition letter :: "string \<Rightarrow> hol_entry \<Rightarrow> char" where
  "letter shorts e = first_char (hol_entry_first_short shorts e) (long_part e)"

definition name_place :: "(string \<Rightarrow> int list) \<Rightarrow> order_fns \<Rightarrow> string \<Rightarrow> hol_entry \<Rightarrow> bool \<times> int list \<times> int" where
  "name_place fold_case fns shorts e =
     (doc_part e,
      if long_only shorts e then (fold_case (the (long_part e)), 0)
      else ([lower_of fns (letter shorts e)], - schar (letter shorts e)))"

text \<open>
  The place in the list: the group, which is the cluster's for an entry in one; entries before clusters
  of the same group; then the group within the cluster and the name.
\<close>

definition place ::
  "(string \<Rightarrow> int list) \<Rightarrow> order_fns \<Rightarrow> hol_cluster list \<Rightarrow> string \<Rightarrow> hol_entry \<Rightarrow>
     help_group \<times> bool \<times> help_group \<times> bool \<times> int list \<times> int" where
  "place fold_case fns st shorts e =
     (case e_cluster e of
       None \<Rightarrow> (Help_Group (e_group e), False, Help_Group (e_group e), name_place fold_case fns shorts e)
     | Some c \<Rightarrow> (Help_Group (cl_group (st ! c)), True, Help_Group (e_group e), name_place fold_case fns shorts e))"

text \<open>
  When the comparison is an order, and not in doubt: no cluster in a cluster, no two of the same group,
  groups whose differences are \<open>int\<close>s, and within a cluster and group the entries without a short option are
  compared among themselves only.
\<close>

definition flat_clusters :: "hol_cluster list \<Rightarrow> bool" where
  "flat_clusters st \<longleftrightarrow> list_all (\<lambda>cl. cl_parent cl = None \<and> cl_depth cl = 0) st \<and> distinct (map cl_group st)"

definition small_numbers :: "hol_cluster list \<Rightarrow> hol_entry list \<Rightarrow> bool" where
  "small_numbers st es \<longleftrightarrow> list_all (\<lambda>cl. small (cl_group cl) \<and> small (cl_index cl)) st
     \<and> list_all (\<lambda>e. small (e_group e)) es"

definition uniform :: "string \<Rightarrow> hol_entry list \<Rightarrow> bool" where
  "uniform shorts es \<longleftrightarrow> list_all (\<lambda>e. list_all (\<lambda>e'.
     e_cluster e = e_cluster e' \<and> e_group e = e_group e' \<and> doc_part e = doc_part e' \<longrightarrow>
     long_only shorts e = long_only shorts e') es) es"

text \<open>\<open>strcasecmp\<close> compares the characters without their case.\<close>

definition good_strcasecmp :: "order_fns \<Rightarrow> (string \<Rightarrow> int list) \<Rightarrow> bool" where
  "good_strcasecmp fns fold_case \<longleftrightarrow> (\<forall>a b. tells (strcasecmp fns a b) (fold_case a) (fold_case b))"

definition good_entry_qsort :: "order_fns \<Rightarrow> bool" where
  "good_entry_qsort fns \<longleftrightarrow> sorts (qsort_entries fns)"

section \<open>The comparison\<close>

lemma name_cmp_tells:
  assumes "good_strcasecmp fns fold_case"
    and same: "doc_part e = doc_part e' \<longrightarrow> long_only shorts e = long_only shorts e'"
  shows "tells (name_cmp fns shorts e e') (name_place fold_case fns shorts e) (name_place fold_case fns shorts e')"
proof -
  have cmp: "name_cmp fns shorts e e' =
     (if doc_part e \<noteq> doc_part e' then of_bool (doc_part e) - of_bool (doc_part e')
      else if long_only shorts e \<and> long_only shorts e' then strcasecmp fns (the (long_part e)) (the (long_part e'))
      else let l = lower_of fns (letter shorts e) - lower_of fns (letter shorts e') in
        if l \<noteq> 0 then l else schar (letter shorts e') - schar (letter shorts e))"
    by (auto simp: name_cmp_def doc_part_def long_part_def long_only_def letter_def Let_def split: prod.splits)
  show ?thesis
  proof (cases "doc_part e = doc_part e'")
    case False
    then have "tells (name_cmp fns shorts e e') (doc_part e) (doc_part e')"
      unfolding cmp by (cases "doc_part e"; cases "doc_part e'") (simp_all add: tells_def)
    then show ?thesis unfolding name_place_def by (rule tells_first [OF False])
  next
    case True
    show ?thesis
    proof (cases "long_only shorts e")
      case lo: True
      have "tells (strcasecmp fns (the (long_part e)) (the (long_part e')))
          (fold_case (the (long_part e)), 0 :: int) (fold_case (the (long_part e')), 0)"
        using assms(1) by (auto simp: good_strcasecmp_def tells_def less_prod_def less_eq_prod_def)
      then show ?thesis using True lo same unfolding cmp name_place_def by (auto intro: tells_second)
    next
      case False
      let ?c = "letter shorts e" and ?d = "letter shorts e'"
      have "tells (if lower_of fns ?c - lower_of fns ?d \<noteq> 0 then lower_of fns ?c - lower_of fns ?d else schar ?d - schar ?c)
          ([lower_of fns ?c], - schar ?c) ([lower_of fns ?d], - schar ?d)"
        by (auto simp: tells_def less_prod_def less_eq_prod_def)
      then show ?thesis using True False same unfolding cmp name_place_def by (auto simp: Let_def intro: tells_second)
    qed
  qed
qed

definition valid_cluster :: "hol_cluster list \<Rightarrow> hol_entry \<Rightarrow> bool" where
  "valid_cluster st e \<longleftrightarrow> (case e_cluster e of None \<Rightarrow> True | Some c \<Rightarrow> c < length st)"

lemma flat_cluster:
  assumes "flat_clusters st" "c < length st"
  shows "cl_parent (st ! c) = None" "cl_depth (st ! c) = 0"
  using assms by (auto simp: flat_clusters_def list_all_length)

lemma flat_walks:
  assumes "flat_clusters st" "c < length st"
  shows "hol_cluster_base st (Some c) = ret (st ! c)" "up_to_depth st d (Some c) = ret (Some c)"
  by (subst hol_cluster_base.simps, simp add: cluster_at_def assms(2) flat_cluster [OF assms])
     (subst up_to_depth.simps, simp add: cluster_at_def assms(2) flat_cluster [OF assms])

lemma flat_cluster_cmp:
  assumes "flat_clusters st" "c < length st" "d < length st" and "small_numbers st es"
  shows "hol_cluster_cmp st (Some c) (Some d) =
    group_cmp (cl_group (st ! c)) (cl_group (st ! d)) (cl_index (st ! d) - cl_index (st ! c))"
proof -
  have "int_sub (cl_index (st ! d)) (cl_index (st ! c)) = ret (cl_index (st ! d) - cl_index (st ! c))"
    using assms by (intro int_sub_small) (simp_all add: small_numbers_def list_all_length)
  then show ?thesis
    using assms(1-3) by (simp add: hol_cluster_cmp_def cluster_at_def flat_walks common_parent.simps [of st "Some c"] flat_cluster)
qed

lemma flat_distinct:
  assumes "flat_clusters st" "c < length st" "d < length st" "c \<noteq> d"
  shows "cl_group (st ! c) \<noteq> cl_group (st ! d)"
  using assms by (auto simp: flat_clusters_def distinct_conv_nth)

text \<open>Two entries of different groups, and one beside a cluster of its group.\<close>

lemma groups_tell:
  assumes "small g" "small g'" and "g = g' \<Longrightarrow> tells eq p p'"
    and "g \<noteq> g' \<Longrightarrow> \<forall>n. tells n (Help_Group g) (Help_Group g') \<longrightarrow> tells n p p'"
  obtains n where "group_cmp g g' eq = ret n" "tells n p p'"
proof (cases "g = g'")
  case True
  then show ?thesis using that assms(3) by (simp add: group_cmp_same)
next
  case False
  then obtain n where "group_cmp g g' eq = ret n" "tells n (Help_Group g) (Help_Group g')"
    by (rule group_cmp_tells [OF assms(1,2)])
  then show ?thesis using that assms(4) [OF False] by blast
qed

lemma entry_cmp_tells:
  assumes good: "good_strcasecmp fns fold_case" and flat: "flat_clusters st"
    and sm: "small_numbers st es" and es: "e \<in> set es" "e' \<in> set es"
    and valid: "valid_cluster st e" "valid_cluster st e'"
    and same: "e_cluster e = e_cluster e' \<and> e_group e = e_group e' \<and> doc_part e = doc_part e' \<longrightarrow>
      long_only shorts e = long_only shorts e'"
  obtains n where "hol_entry_cmp fns st shorts e e' = ret n"
    and "tells n (place fold_case fns st shorts e) (place fold_case fns st shorts e')"
proof -
  let ?g = "e_group e" and ?g' = "e_group e'"
  have sg: "small ?g" "small ?g'" using sm es by (simp_all add: small_numbers_def list_all_iff)
  have sc: "small (cl_group (st ! c))" if "c < length st" for c
    using sm that by (simp add: small_numbers_def list_all_length)
  consider (base_in) c' where "e_cluster e = None" "e_cluster e' = Some c'"
    | (in_base) c where "e_cluster e = Some c" "e_cluster e' = None"
    | (clusters) c c' where "e_cluster e = Some c" "e_cluster e' = Some c'" "c \<noteq> c'"
    | (group) "e_cluster e = e_cluster e'" "?g \<noteq> ?g'" | (name) "e_cluster e = e_cluster e'" "?g = ?g'"
    by (cases "e_cluster e"; cases "e_cluster e'"; cases "?g = ?g'") auto
  then show ?thesis
  proof cases
    case base_in
    then have c': "c' < length st" using valid(2) by (simp add: valid_cluster_def)
    have cmp: "hol_entry_cmp fns st shorts e e' = group_cmp ?g (cl_group (st ! c')) (-1)"
      using base_in flat_walks [OF flat c'] by (simp add: hol_entry_cmp_def Let_def)
    show ?thesis
      by (rule groups_tell [OF sg(1) sc [OF c'], of "-1" "place fold_case fns st shorts e" "place fold_case fns st shorts e'"])
        (use base_in that cmp in \<open>auto simp: place_def less_prod_def less_eq_prod_def tells_def [of "-1"] intro: tells_first\<close>)
  next
    case in_base
    then have c: "c < length st" using valid(1) by (simp add: valid_cluster_def)
    have cmp: "hol_entry_cmp fns st shorts e e' = group_cmp (cl_group (st ! c)) ?g' 1"
      using in_base flat_walks [OF flat c] by (simp add: hol_entry_cmp_def Let_def)
    show ?thesis
      by (rule groups_tell [OF sc [OF c] sg(2), of 1 "place fold_case fns st shorts e" "place fold_case fns st shorts e'"])
        (use in_base that cmp in \<open>auto simp: place_def less_prod_def less_eq_prod_def tells_def [of 1] intro: tells_first\<close>)
  next
    case clusters
    have in_store: "c < length st" "c' < length st" using clusters valid by (simp_all add: valid_cluster_def)
    have cmp: "hol_entry_cmp fns st shorts e e' =
        group_cmp (cl_group (st ! c)) (cl_group (st ! c')) (cl_index (st ! c') - cl_index (st ! c))"
      using clusters in_store by (simp add: hol_entry_cmp_def flat_cluster_cmp [OF flat _ _ sm] Let_def)
    have neq: "cl_group (st ! c) \<noteq> cl_group (st ! c')" by (rule flat_distinct [OF flat in_store clusters(3)])
    show ?thesis
      by (rule group_cmp_tells [OF sc [OF in_store(1)] sc [OF in_store(2)] neq])
        (use clusters that cmp neq in \<open>auto simp: place_def intro: tells_first\<close>)
  next
    case group
    have cmp: "hol_entry_cmp fns st shorts e e' = group_cmp ?g ?g' 0" using group by (simp add: hol_entry_cmp_def)
    obtain n where n: "group_cmp ?g ?g' 0 = ret n" "tells n (Help_Group ?g) (Help_Group ?g')"
      by (rule group_cmp_tells [OF sg group(2)])
    have "tells n (place fold_case fns st shorts e) (place fold_case fns st shorts e')"
      using group n(2) by (cases "e_cluster e'") (auto simp: place_def intro!: tells_first tells_second)
    then show ?thesis using that cmp n(1) by simp
  next
    case name
    have "tells (name_cmp fns shorts e e') (name_place fold_case fns shorts e) (name_place fold_case fns shorts e')"
      by (rule name_cmp_tells [OF good]) (use name same in simp)
    then have "tells (name_cmp fns shorts e e') (place fold_case fns st shorts e) (place fold_case fns st shorts e')"
      using name by (cases "e_cluster e'") (auto simp: place_def intro!: tells_second)
    moreover have "hol_entry_cmp fns st shorts e e' = ret (name_cmp fns shorts e e')"
      using name by (simp add: hol_entry_cmp_def)
    ultimately show ?thesis using that by blast
  qed
qed

section \<open>Sorting\<close>

lemma hol_sort_places:
  assumes good: "good_strcasecmp fns fold_case" and flat: "flat_clusters st" and qsort: "good_entry_qsort fns"
    and valid: "list_all (valid_cluster st) (hol_entries h)" and short: "hol_entries h \<noteq> [] \<longrightarrow> hol_short h = Some shorts"
    and uni: "uniform shorts (hol_entries h)" and sm: "small_numbers st (hol_entries h)"
  obtains es where "hol_sort fns st h = ret (h\<lparr>hol_entries := es\<rparr>)" and "mset es = mset (hol_entries h)"
    and "sorted (map (place fold_case fns st shorts) es)"
proof (cases "hol_entries h = []")
  case True
  have "h\<lparr>hol_entries := []\<rparr> = h" using True by (cases h) simp
  then show ?thesis using True that [of "[]"] by (simp add: hol_sort_def)
next
  case False
  let ?cmp = "hol_entry_cmp fns st shorts" and ?es = "hol_entries h" and ?place = "place fold_case fns st shorts"
  have told: "\<exists>n. ?cmp x y = ret n \<and> tells n (?place x) (?place y)" if "x \<in> set ?es" "y \<in> set ?es" for x y
  proof -
    have "e_cluster x = e_cluster y \<and> e_group x = e_group y \<and> doc_part x = doc_part y \<longrightarrow>
        long_only shorts x = long_only shorts y"
      using uni that unfolding uniform_def list_all_iff by blast
    then show ?thesis
      using entry_cmp_tells [OF good flat sm that, of shorts] valid that unfolding list_all_iff by blast
  qed
  then have le: "cmp_value (?cmp x y) \<le> 0 \<longleftrightarrow> ?place x \<le> ?place y" if "x \<in> set ?es" "y \<in> set ?es" for x y
    using that by (fastforce simp: cmp_value_def tells_def)
  define es where "es = qsort_entries fns (\<lambda>x y. cmp_value (?cmp x y)) ?es"
  have sorted: "mset es = mset ?es \<and> sorted_wrt (\<lambda>x y. cmp_value (?cmp x y) \<le> 0) es"
  proof -
    have "\<forall>x\<in>set ?es. \<forall>y\<in>set ?es. cmp_value (?cmp x y) \<le> 0 \<or> cmp_value (?cmp y x) \<le> 0"
      by (intro ballI) (simp only: le linear)
    moreover have "\<forall>x\<in>set ?es. \<forall>y\<in>set ?es. \<forall>z\<in>set ?es. cmp_value (?cmp x y) \<le> 0 \<longrightarrow>
        cmp_value (?cmp y z) \<le> 0 \<longrightarrow> cmp_value (?cmp x z) \<le> 0"
    proof (intro ballI impI)
      fix x y z assume "x \<in> set ?es" "y \<in> set ?es" "z \<in> set ?es"
        and "cmp_value (?cmp x y) \<le> 0" "cmp_value (?cmp y z) \<le> 0"
      moreover from this have "?place x \<le> ?place y" "?place y \<le> ?place z" by (simp_all only: le)
      then have "?place x \<le> ?place z" by (rule order_trans)
      ultimately show "cmp_value (?cmp x z) \<le> 0" by (simp only: le)
    qed
    ultimately show ?thesis
      unfolding es_def
      by (rule qsort [unfolded good_entry_qsort_def sorts_def, THEN spec, THEN spec, THEN mp, THEN mp])
  qed
  have "sorted_wrt (\<lambda>x y. ?place x \<le> ?place y) es"
  proof (rule sorted_wrt_mono_rel)
    show "sorted_wrt (\<lambda>x y. cmp_value (?cmp x y) \<le> 0) es" using sorted by blast
    show "?place x \<le> ?place y" if "x \<in> set es" "y \<in> set es" "cmp_value (?cmp x y) \<le> 0" for x y
      using that le mset_eq_setD [of es ?es] sorted by blast
  qed
  then have "sorted (map ?place es)" by (simp add: sorted_wrt_map)
  moreover have "hol_sort fns st h = ret (h\<lparr>hol_entries := es\<rparr>)"
    using False short told by (fastforce simp: hol_sort_def list_ex_iff Let_def es_def)
  ultimately show ?thesis using sorted that by blast
qed

end
