(* ===== verification/Hol_Props.thy ===== *)
theory Hol_Props
  imports Hol_Order
begin

text \<open>The properties of the list of options for help, and where its order is none.\<close>

section \<open>Clusters exist\<close>











section \<open>Short options\<close>

text \<open>
  C6: over the entries of the list for help, in whatever order they were put, the iteration over short
  options visits every visible option that is the first of the whole tree with its letter, once, together
  with the option it is an alias of; and no other.
\<close>

theorem help_shows_each_letter_once:
  assumes "argp_hol a None m = Done (h, m')" and "mset es = mset (hol_entries h)"
  shows "mset (concat (map (shown_shorts (letters (firsts [] (tree_options a)))) es)) =
      mset (filter (\<lambda>p. ovisible (fst p)) (firsts [] (tree_options a)))
    \<and> (hol_entries h = [] \<or> hol_short h = Some (letters (firsts [] (tree_options a))))"
proof -
  let ?S = "letters (firsts [] (tree_options a))"
  have "mset (concat (map (shown_shorts ?S) es)) = mset (concat (map (shown_shorts ?S) (hol_entries h)))"
    by (simp only: mset_concat sum_mset_sum_list [symmetric] mset_map assms(2))
  moreover have "concat (map (shown_shorts ?S) (hol_entries h)) = filter (\<lambda>p. ovisible (fst p)) (firsts [] (tree_options a))"
  proof (cases "hol_entries h = []")
    case True
    then have "tree_options a = []" using argp_hol_ok(1) [OF assms(1)] by (simp add: hol_ok_def)
    then show ?thesis using True by simp
  next
    case False
    then show ?thesis using tree_shown [OF assms(1) False] by simp
  qed
  ultimately show ?thesis using tree_shown(1) [OF assms(1)] by auto
qed

definition plain_option :: "string option \<Rightarrow> int \<Rightarrow> argp_option" where
  "plain_option name key = \<lparr>opt_name = name, opt_key = key, opt_arg = None, opt_flags = 0, opt_doc = Some [], opt_group = 0\<rparr>"

definition plain_mem :: help_mem where
  "plain_mem = \<lparr>clusters = [], requests = 0, granted = (\<lambda>n. True)\<rparr>"

text \<open>An argp with \<open>-a\<close> and \<open>-b\<close>, whose child has \<open>-b\<close> and \<open>-c\<close> again.\<close>

definition two_levels :: help_argp where
  "two_levels = Help_Argp 1 (Some [plain_option (Some ''all'') 97, plain_option None 98]) None None None
     (Some [Help_Child (Help_Argp 2 (Some [plain_option (Some ''base'') 98, plain_option None 99]) None None None None) None 0])"

definition two_levels_hol :: hol where
  "two_levels_hol = (case argp_hol two_levels None plain_mem of Done (h, m) \<Rightarrow> h)"

lemma two_levels_made: "\<exists>m'. argp_hol two_levels None plain_mem = Done (two_levels_hol, m')"
proof -
  obtain h m' where "argp_hol two_levels None plain_mem = Done (h, m')"
    by (simp add: two_levels_def make_hol_def hol_append_def request_def plain_mem_def plain_option_def fill_entries.simps
        entries_def option_is_end_def oalias_def has_flag_def option_is_short_def Let_def find_char_def key_char_def)
  then show ?thesis by (simp add: two_levels_hol_def)
qed

theorem help_shows_each_letter_once_witness:
  "mset (concat (map (shown_shorts ''abc'') (rev (hol_entries two_levels_hol)))) =
     {# (plain_option (Some ''all'') 97, plain_option (Some ''all'') 97), (plain_option None 98, plain_option None 98),
        (plain_option None 99, plain_option None 99) #}"
proof -
  obtain m' where made: "argp_hol two_levels None plain_mem = Done (two_levels_hol, m')" using two_levels_made by blast
  have "letters (firsts [] (tree_options two_levels)) = ''abc''" by code_simp
  moreover have "filter (\<lambda>p. ovisible (fst p)) (firsts [] (tree_options two_levels)) =
      [(plain_option (Some ''all'') 97, plain_option (Some ''all'') 97), (plain_option None 98, plain_option None 98),
       (plain_option None 99, plain_option None 99)]" by code_simp
  moreover have "mset (rev (hol_entries two_levels_hol)) = mset (hol_entries two_levels_hol)" by simp
  from help_shows_each_letter_once [OF made this] have "mset (concat (map (shown_shorts
      (letters (firsts [] (tree_options two_levels)))) (rev (hol_entries two_levels_hol)))) =
    mset (filter (\<lambda>p. ovisible (fst p)) (firsts [] (tree_options two_levels)))" by blast
  ultimately show ?thesis by simp
qed

section \<open>The order\<close>




text \<open>Letters without their case, names compared by them, and a sort by insertion.\<close>

definition lower_case :: "char \<Rightarrow> int" where
  "lower_case c = (let n = of_char c in if 65 \<le> n \<and> n \<le> 90 then n + 32 else n)"

definition plain_order :: order_fns where
  "plain_order = \<lparr>qsort_entries = (\<lambda>f es. fold (insort_by f) es []),
     strcasecmp = (\<lambda>a b. if map lower_case a < map lower_case b then -1 else if map lower_case b < map lower_case a then 1 else 0),
     lower_of = lower_case\<rparr>"





section \<open>Where it is no order\<close>

text \<open>
  Two long-only options are compared by their whole names without case, and either of them with a short
  option by the first character with case in the end.  So \<open>--Fa\<close> comes before \<open>--fb\<close>, \<open>--fb\<close> before
  \<open>-F\<close>, and \<open>-F\<close> is equal to \<open>--Fa\<close>: \<open>qsort\<close> is handed a comparison that is no order.
\<close>

definition circle :: "hol_entry list" where
  "circle = [\<lparr>e_opt = [plain_option (Some ''Fa'') 300], e_num = 1, e_short = 0, e_group = 0, e_cluster = None, e_argp = two_levels\<rparr>,
     \<lparr>e_opt = [plain_option (Some ''fb'') 301], e_num = 1, e_short = 0, e_group = 0, e_cluster = None, e_argp = two_levels\<rparr>,
     \<lparr>e_opt = [plain_option None 70], e_num = 1, e_short = 0, e_group = 0, e_cluster = None, e_argp = two_levels\<rparr>]"

lemma comparison_goes_in_circle:
  "map (\<lambda>(i, j). map_option (map_option sgn) (hol_entry_cmp plain_order [] ''F'' (circle ! i) (circle ! j))) [(0, 1), (1, 2), (2, 0)] =
     [ret (-1), ret (-1), ret 0]"
  by code_simp

text \<open>
  The children of an argp come in the reverse of their order, and what is in a cluster of a cluster is
  equal to everything in the outer one.
\<close>

definition two_clusters :: "hol_cluster list" where
  "two_clusters = [\<lparr>cl_header = None, cl_index = 0, cl_group = 1, cl_parent = None, cl_argp = two_levels, cl_depth = 0\<rparr>,
     \<lparr>cl_header = None, cl_index = 1, cl_group = 1, cl_parent = None, cl_argp = two_levels, cl_depth = 0\<rparr>,
     \<lparr>cl_header = None, cl_index = 0, cl_group = 1, cl_parent = Some 1, cl_argp = two_levels, cl_depth = 1\<rparr>]"

lemma later_child_first:
  "hol_cluster_cmp two_clusters (Some 0) (Some 1) = ret 1" "hol_cluster_cmp two_clusters (Some 1) (Some 2) = ret 0"
  by code_simp+

end
