(* ===== verification/Help_Print.thy ===== *)
theory Help_Print
  imports Hol_Cmp Fmtstream
begin

text \<open>
  \<^verbatim>\<open>src/argp/argp-help.c\<close>: printing the list of options on a wrapping stream, at length and as usage.
  The results of the stream's operations are not used there, so they are dropped here.  Without
  \<open>libintl\<close>, translating a text is the text.
\<close>

section \<open>The stream's operations\<close>

definition out_puts :: "'f stdio \<Rightarrow> string \<Rightarrow> 'f fmtstream \<Rightarrow> 'f fmtstream run" where
  "out_puts io s fs = andthen (argp_fmtstream_puts io s fs) (\<lambda>(_, fs). ret fs)"

definition out_putc :: "'f stdio \<Rightarrow> char \<Rightarrow> 'f fmtstream \<Rightarrow> 'f fmtstream run" where
  "out_putc io c fs = andthen (argp_fmtstream_putc io c fs) (\<lambda>(_, fs). ret fs)"

definition out_write :: "'f stdio \<Rightarrow> string \<Rightarrow> 'f fmtstream \<Rightarrow> 'f fmtstream run" where
  "out_write io s fs = andthen (argp_fmtstream_write io s fs) (\<lambda>(_, fs). ret fs)"

definition out_printf :: "'f stdio \<Rightarrow> string \<Rightarrow> 'f fmtstream \<Rightarrow> 'f fmtstream run" where
  "out_printf io s fs = andthen (argp_fmtstream_printf io (Some s) fs) (\<lambda>(_, fs). ret fs)"

definition out_lmargin :: "'f stdio \<Rightarrow> nat \<Rightarrow> 'f fmtstream \<Rightarrow> 'f fmtstream run" where
  "out_lmargin io m fs = andthen (argp_fmtstream_set_lmargin io m fs) (\<lambda>(_, fs). ret fs)"

definition out_wmargin :: "'f stdio \<Rightarrow> int \<Rightarrow> 'f fmtstream \<Rightarrow> 'f fmtstream run" where
  "out_wmargin io m fs = andthen (argp_fmtstream_set_wmargin io m fs) (\<lambda>(_, fs). ret fs)"

fun out_blanks :: "'f stdio \<Rightarrow> nat \<Rightarrow> 'f fmtstream \<Rightarrow> 'f fmtstream run" where
  "out_blanks io 0 fs = ret fs"
| "out_blanks io (Suc n) fs = andthen (out_putc io (CHR '' '') fs) (out_blanks io n)"

definition indent_to :: "'f stdio \<Rightarrow> int \<Rightarrow> 'f fmtstream \<Rightarrow> 'f fmtstream run" where
  "indent_to io col fs = andthen (argp_fmtstream_point io fs) (\<lambda>(pt, fs). out_blanks io (nat (col - pt)) fs)"

definition space_or_newline :: "'f stdio \<Rightarrow> nat \<Rightarrow> 'f fmtstream \<Rightarrow> 'f fmtstream run" where
  "space_or_newline io ensure fs =
     andthen (argp_fmtstream_point io fs) (\<lambda>(pt, fs).
     out_putc io (if pt + int ensure \<ge> int (rmargin fs) then CHR 0x0A else CHR '' '') fs)"

text \<open>A format with one \<open>%s\<close> is the text before it and the text behind it.\<close>

definition opt_arg_out :: "'f stdio \<Rightarrow> argp_option \<Rightarrow> string \<times> string \<Rightarrow> string \<times> string \<Rightarrow> 'f fmtstream \<Rightarrow> 'f fmtstream run" where
  "opt_arg_out io real req_fmt opt_fmt fs =
     (case opt_arg real of
       None \<Rightarrow> ret fs
     | Some a \<Rightarrow>
         let f = (if has_flag (opt_flags real) OPTION_ARG_OPTIONAL then opt_fmt else req_fmt) in
         out_printf io (fst f @ a @ snd f) fs)"

section \<open>Entries at length\<close>

definition ARGP_KEY_HELP_PRE_DOC :: int where "ARGP_KEY_HELP_PRE_DOC = 0x2000001"
definition ARGP_KEY_HELP_POST_DOC :: int where "ARGP_KEY_HELP_POST_DOC = 0x2000002"
definition ARGP_KEY_HELP_HEADER :: int where "ARGP_KEY_HELP_HEADER = 0x2000003"
definition ARGP_KEY_HELP_EXTRA :: int where "ARGP_KEY_HELP_EXTRA = 0x2000004"
definition ARGP_KEY_HELP_DUP_ARGS_NOTE :: int where "ARGP_KEY_HELP_DUP_ARGS_NOTE = 0x2000005"
definition ARGP_KEY_HELP_ARGS_DOC :: int where "ARGP_KEY_HELP_ARGS_DOC = 0x2000006"

definition filter_doc :: "string option \<Rightarrow> int \<Rightarrow> help_argp option \<Rightarrow> string option" where
  "filter_doc doc key a =
     (case Option.bind a ha_filter of
       None \<Rightarrow> doc
     | Some f \<Rightarrow> (case f key doc of Kept \<Rightarrow> doc | Replaced s \<Rightarrow> Some s | Dropped \<Rightarrow> None))"

record hol_help_state =
  prev_entry :: "hol_entry option"
  sep_groups :: bool
  suppressed_dup_arg :: bool

text \<open>What all of the printing reads: the stream below, the parameters, the clusters, the short options.\<close>

record 'f help_env =
  he_io :: "'f stdio"
  he_up :: uparams
  he_store :: "hol_cluster list"
  he_shorts :: string

text \<open>The state of printing one entry, but for its entry and the stream, and the stream.\<close>

type_synonym 'f printing = "bool \<times> hol_help_state \<times> 'f fmtstream"

definition print_header ::
  "'f help_env \<Rightarrow> string option \<Rightarrow> help_argp \<Rightarrow> hol_help_state \<times> 'f fmtstream \<Rightarrow> (hol_help_state \<times> 'f fmtstream) run" where
  "print_header env str a s =
     (let (hh, fs) = s; io = he_io env; col = header_col (he_up env) in
      case filter_doc str ARGP_KEY_HELP_HEADER (Some a) of
        None \<Rightarrow> ret (hh, fs)
      | Some fstr \<Rightarrow>
          andthen
            (if fstr \<noteq> [] then
               andthen (if prev_entry hh \<noteq> None then out_putc io (CHR 0x0A) fs else ret fs) (\<lambda>fs.
               andthen (indent_to io col fs) (\<lambda>fs.
               andthen (out_lmargin io (nat col) fs) (\<lambda>fs.
               andthen (out_wmargin io col fs) (\<lambda>fs.
               andthen (out_puts io fstr fs) (\<lambda>fs.
               andthen (out_lmargin io 0 fs) (\<lambda>fs.
               out_putc io (CHR 0x0A) fs))))))
             else ret fs) (\<lambda>fs.
          ret (hh\<lparr>sep_groups := True\<rparr>, fs)))"

definition comma_first :: "'f help_env \<Rightarrow> hol_entry \<Rightarrow> hol_help_state \<times> 'f fmtstream \<Rightarrow> (hol_help_state \<times> 'f fmtstream) run" where
  "comma_first env e s =
     (let (hh, fs) = s; io = he_io env; pe = prev_entry hh in
      andthen (if sep_groups hh \<and> pe \<noteq> None \<and> e_group e \<noteq> e_group (the pe) then out_putc io (CHR 0x0A) fs else ret fs) (\<lambda>fs.
      case e_cluster e of
        None \<Rightarrow> ret (hh, fs)
      | Some c \<Rightarrow>
          andthen (cluster_at (he_store env) (Some c)) (\<lambda>cl.
          if cl_header cl \<noteq> None \<and> cl_header cl \<noteq> Some [] then
            andthen
              (case pe of
                None \<Rightarrow> ret True
              | Some p \<Rightarrow>
                  if e_cluster p \<noteq> Some c
                  then andthen (hol_cluster_is_child (he_store env) (e_cluster p) (Some c)) (\<lambda>child. ret (\<not> child))
                  else ret False) (\<lambda>fresh.
            if fresh then
              let old_wm = wmargin fs in
              andthen (print_header env (cl_header cl) (cl_argp cl) (hh, fs)) (\<lambda>(hh, fs).
              andthen (out_wmargin io old_wm fs) (\<lambda>fs. ret (hh, fs)))
            else ret (hh, fs))
          else ret (hh, fs))))"

definition comma :: "'f help_env \<Rightarrow> int \<Rightarrow> hol_entry \<Rightarrow> 'f printing \<Rightarrow> 'f printing run" where
  "comma env col e s =
     (let (first, hh, fs) = s in
      andthen
        (if first then comma_first env e (hh, fs)
         else andthen (out_puts (he_io env) '', '' fs) (\<lambda>fs. ret (hh, fs))) (\<lambda>(hh, fs).
      andthen (indent_to (he_io env) col fs) (\<lambda>fs. ret (False, hh, fs))))"

text \<open>The three loops of \<open>hol_entry_help\<close>: \<open>so\<close> is the string from the next letter of the entry on.\<close>

fun help_shorts :: "'f help_env \<Rightarrow> hol_entry \<Rightarrow> bool \<Rightarrow> argp_option \<Rightarrow> argp_option list \<Rightarrow> string \<Rightarrow> 'f printing \<Rightarrow> 'f printing run" where
  "help_shorts env e have_long real [] so s = ret s"
| "help_shorts env e have_long real (opt # opts) so s =
     (if oshort opt \<and> so \<noteq> [] \<and> hd so = key_char opt then
        andthen
          (if ovisible opt then
             andthen (comma env (short_opt_col (he_up env)) e s) (\<lambda>(first, hh, fs).
             andthen (out_putc (he_io env) (CHR ''-'') fs) (\<lambda>fs.
             andthen (out_putc (he_io env) (hd so) fs) (\<lambda>fs.
             if \<not> have_long \<or> dup_args (he_up env) \<noteq> 0
             then andthen (opt_arg_out (he_io env) real ('' '', []) (''['', '']'') fs) (\<lambda>fs. ret (first, hh, fs))
             else ret (first, if opt_arg real \<noteq> None then hh\<lparr>suppressed_dup_arg := True\<rparr> else hh, fs))))
           else ret s) (\<lambda>s.
        help_shorts env e have_long real opts (tl so) s)
      else help_shorts env e have_long real opts so s)"

fun help_docs :: "'f help_env \<Rightarrow> hol_entry \<Rightarrow> argp_option list \<Rightarrow> 'f printing \<Rightarrow> 'f printing run" where
  "help_docs env e [] s = ret s"
| "help_docs env e (opt # opts) s =
     (case opt_name opt of
       Some name \<Rightarrow>
         if ovisible opt then
           andthen (comma env (doc_opt_col (he_up env)) e s) (\<lambda>(first, hh, fs).
           andthen (out_puts (he_io env) name fs) (\<lambda>fs.
           help_docs env e opts (first, hh, fs)))
         else help_docs env e opts s
     | None \<Rightarrow> help_docs env e opts s)"

fun help_longs :: "'f help_env \<Rightarrow> hol_entry \<Rightarrow> argp_option \<Rightarrow> argp_option list \<Rightarrow> 'f printing \<Rightarrow> 'f printing run" where
  "help_longs env e real [] s = ret s"
| "help_longs env e real (opt # opts) s =
     (case opt_name opt of
       Some name \<Rightarrow>
         if ovisible opt then
           andthen (comma env (long_opt_col (he_up env)) e s) (\<lambda>(first, hh, fs).
           andthen (out_printf (he_io env) (''--'' @ name) fs) (\<lambda>fs.
           andthen (opt_arg_out (he_io env) real (''='', []) (''[='', '']'') fs) (\<lambda>fs.
           help_longs env e real opts (first, hh, fs))))
         else help_longs env e real opts s
     | None \<Rightarrow> help_longs env e real opts s)"

text \<open>The documentation of an entry that was printed.\<close>

definition help_doc_text :: "'f help_env \<Rightarrow> hol_entry \<Rightarrow> argp_option \<Rightarrow> 'f fmtstream \<Rightarrow> 'f fmtstream run" where
  "help_doc_text env e real fs =
     (let io = he_io env; col = opt_doc_col (he_up env) in
      andthen
        (case filter_doc (opt_doc real) (opt_key real) (Some (e_argp e)) of
          None \<Rightarrow> ret fs
        | Some fstr \<Rightarrow>
            if fstr \<noteq> [] then
              andthen (argp_fmtstream_point io fs) (\<lambda>(pt, fs).
              andthen (out_lmargin io (nat col) fs) (\<lambda>fs.
              andthen (out_wmargin io col fs) (\<lambda>fs.
              andthen
                (if pt > col + 3 then out_putc io (CHR 0x0A) fs
                 else if pt \<ge> col then out_puts io ''   '' fs
                 else indent_to io col fs) (\<lambda>fs.
              out_puts io fstr fs))))
            else ret fs) (\<lambda>fs.
      andthen (out_lmargin io 0 fs) (\<lambda>fs.
      out_putc io (CHR 0x0A) fs)))"

definition hol_entry_help ::
  "'f help_env \<Rightarrow> hol_entry \<Rightarrow> hol_help_state \<times> 'f fmtstream \<Rightarrow> (hol_help_state \<times> 'f fmtstream) run" where
  "hol_entry_help env e s =
     (let (hh, fs) = s; io = he_io env; real = hd (e_opt e); opts = take (e_num e) (e_opt e);
          so = drop (e_short e) (he_shorts env);
          have_long = (\<not> odoc real \<and> list_ex (\<lambda>opt. opt_name opt \<noteq> None \<and> ovisible opt) opts) in
      andthen (argp_fmtstream_set_lmargin io 0 fs) (\<lambda>(old_lm, fs).
      let old_wm = wmargin fs in
      andthen (out_wmargin io (short_opt_col (he_up env)) fs) (\<lambda>fs.
      andthen (help_shorts env e have_long real opts so (True, hh, fs)) (\<lambda>(first, hh, fs).
      andthen
        (if odoc real
         then andthen (out_wmargin io (doc_opt_col (he_up env)) fs) (\<lambda>fs. help_docs env e opts (first, hh, fs))
         else andthen (out_wmargin io (long_opt_col (he_up env)) fs) (\<lambda>fs. help_longs env e real opts (first, hh, fs)))
        (\<lambda>(first, hh, fs).
      andthen (out_lmargin io 0 fs) (\<lambda>fs.
      andthen
        (if first then
           if \<not> oshort real \<and> opt_name real = None
           then andthen (print_header env (opt_doc real) (e_argp e) (hh, fs)) (\<lambda>(hh, fs). ret (hh\<lparr>prev_entry := Some e\<rparr>, fs))
           else ret (hh, fs)
         else andthen (help_doc_text env e real fs) (\<lambda>fs. ret (hh\<lparr>prev_entry := Some e\<rparr>, fs))) (\<lambda>(hh, fs).
      andthen (out_lmargin io old_lm fs) (\<lambda>fs.
      andthen (out_wmargin io old_wm fs) (\<lambda>fs.
      ret (hh, fs))))))))))"

fun help_entries :: "'f help_env \<Rightarrow> hol_entry list \<Rightarrow> hol_help_state \<times> 'f fmtstream \<Rightarrow> (hol_help_state \<times> 'f fmtstream) run" where
  "help_entries env [] s = ret s"
| "help_entries env (e # es) s = andthen (hol_entry_help env e s) (help_entries env es)"

definition dup_note :: string where
  "dup_note = ''Mandatory or optional arguments to long options are also mandatory or optional for any corresponding short options.''"

definition hol_help :: "'f help_env \<Rightarrow> hol_entry list \<Rightarrow> help_argp option \<Rightarrow> 'f fmtstream \<Rightarrow> 'f fmtstream run" where
  "hol_help env es root fs =
     (let io = he_io env in
      andthen (help_entries env es (\<lparr>prev_entry = None, sep_groups = False, suppressed_dup_arg = False\<rparr>, fs)) (\<lambda>(hh, fs).
      if suppressed_dup_arg hh \<and> dup_args_note (he_up env) \<noteq> 0 then
        (case filter_doc (Some dup_note) ARGP_KEY_HELP_DUP_ARGS_NOTE root of
          None \<Rightarrow> ret fs
        | Some fstr \<Rightarrow>
            if fstr \<noteq> [] then
              andthen (out_putc io (CHR 0x0A) fs) (\<lambda>fs. andthen (out_puts io fstr fs) (\<lambda>fs. out_putc io (CHR 0x0A) fs))
            else ret fs)
      else ret fs))"

section \<open>Usage\<close>

definition add_argless_short_opt :: "argp_option \<Rightarrow> argp_option \<Rightarrow> string \<Rightarrow> int \<times> string" where
  "add_argless_short_opt opt real snao =
     (0, if opt_arg opt = None \<and> opt_arg real = None \<and> \<not> has_flag (opt_flags opt OR opt_flags real) OPTION_NO_USAGE
         then snao @ [key_char opt] else snao)"

text \<open>The state of the other two iterations is the stream as far as it was printed.\<close>

definition usage_argful_short_opt :: "'f stdio \<Rightarrow> argp_option \<Rightarrow> argp_option \<Rightarrow> 'f fmtstream run \<Rightarrow> int \<times> 'f fmtstream run" where
  "usage_argful_short_opt io opt real r =
     (let a = (if opt_arg opt = None then opt_arg real else opt_arg opt); flags = opt_flags opt OR opt_flags real in
      (0, andthen r (\<lambda>fs.
        if a \<noteq> None \<and> \<not> has_flag flags OPTION_NO_USAGE then
          if has_flag flags OPTION_ARG_OPTIONAL then out_printf io ('' [-'' @ key_char opt # ''['' @ the a @ '']]'') fs
          else andthen (space_or_newline io (6 + length (the a)) fs) (\<lambda>fs. out_printf io (''[-'' @ key_char opt # '' '' @ the a @ '']'') fs)
        else ret fs)))"

definition usage_long_opt :: "'f stdio \<Rightarrow> argp_option \<Rightarrow> argp_option \<Rightarrow> 'f fmtstream run \<Rightarrow> int \<times> 'f fmtstream run" where
  "usage_long_opt io opt real r =
     (let a = (if opt_arg opt = None then opt_arg real else opt_arg opt); flags = opt_flags opt OR opt_flags real;
          name = the (opt_name opt) in
      (0, andthen r (\<lambda>fs.
        if \<not> has_flag flags OPTION_NO_USAGE then
          (case a of
            Some a \<Rightarrow>
              if has_flag flags OPTION_ARG_OPTIONAL then out_printf io ('' [--'' @ name @ ''[='' @ a @ '']]'') fs
              else out_printf io ('' [--'' @ name @ ''='' @ a @ '']'') fs
          | None \<Rightarrow> out_printf io ('' [--'' @ name @ '']'') fs)
        else ret fs)))"

definition argless_shorts :: "string \<Rightarrow> hol_entry list \<Rightarrow> string" where
  "argless_shorts shorts es = fold (\<lambda>e snao. snd (hol_entry_short_iterate add_argless_short_opt shorts e snao)) es []"

definition hol_usage :: "'f stdio \<Rightarrow> string \<Rightarrow> hol_entry list \<Rightarrow> 'f fmtstream \<Rightarrow> 'f fmtstream run" where
  "hol_usage io shorts es fs =
     (if es = [] then ret fs
      else
        let snao = argless_shorts shorts es in
        andthen (if snao \<noteq> [] then out_printf io ('' [-'' @ snao @ '']'') fs else ret fs) (\<lambda>fs.
        andthen (fold (\<lambda>e r. snd (hol_entry_short_iterate (usage_argful_short_opt io) shorts e r)) es (ret fs)) (\<lambda>fs.
        fold (\<lambda>e r. snd (hol_entry_long_iterate (usage_long_opt io) e r)) es (ret fs))))"

end
