(* ===== verification/Help_Text.thy ===== *)
theory Help_Text
  imports Help_Print
begin

text \<open>
  \<^verbatim>\<open>src/argp/argp-help.c\<close>: the usage patterns with their levels, the documentation, the whole help text,
  and the messages of errors and failures.
\<close>

section \<open>Patterns of arguments\<close>

definition newline_in :: "string \<Rightarrow> bool" where
  "newline_in s \<longleftrightarrow> CHR 0x0A \<in> set s"

fun argp_args_levels :: "help_argp \<Rightarrow> nat" and children_levels :: "help_child list \<Rightarrow> nat" where
  "argp_args_levels (Help_Argp at opts args_doc doc filt children) =
     (case args_doc of None \<Rightarrow> 0 | Some d \<Rightarrow> if newline_in d then 1 else 0) +
     (case children of None \<Rightarrow> 0 | Some cs \<Rightarrow> children_levels cs)"
| "children_levels [] = 0"
| "children_levels (Help_Child c header grp # cs) = argp_args_levels c + children_levels cs"

text \<open>\<open>nl = __strchrnul(cp, '\n')\<close>: the text before it, and from it on; going on to the next line leaves the
  string when there is none.\<close>

definition line_of :: "string \<Rightarrow> string" where "line_of s = takeWhile (\<lambda>c. c \<noteq> CHR 0x0A) s"
definition from_nl :: "string \<Rightarrow> string" where "from_nl s = dropWhile (\<lambda>c. c \<noteq> CHR 0x0A) s"

fun skip_lines :: "nat \<Rightarrow> string \<Rightarrow> string run" where
  "skip_lines 0 cp = ret cp"
| "skip_lines (Suc n) cp = (case from_nl cp of [] \<Rightarrow> crash | _ # cp \<Rightarrow> skip_lines n cp)"

text \<open>A level is a signed \<open>char\<close> of the vector that \<open>levels\<close> points into.\<close>

definition level_at :: "8 word list \<Rightarrow> nat \<Rightarrow> int run" where
  "level_at lv i = (if i < length lv then ret (sint (lv ! i)) else crash)"

definition put_level :: "nat \<Rightarrow> 8 word \<Rightarrow> 8 word list \<Rightarrow> 8 word list run" where
  "put_level i w lv = (if i < length lv then ret (lv[i := w]) else crash)"

text \<open>
  The pattern of one argp: the part of its documentation it is at now, whether there are several, and where
  \<open>levels\<close> points then.
\<close>

definition args_pattern :: "help_argp \<Rightarrow> 8 word list \<Rightarrow> nat \<Rightarrow> (string option \<times> bool \<times> nat) run" where
  "args_pattern a lv pos =
     (case filter_doc (ha_args_doc a) ARGP_KEY_HELP_ARGS_DOC (Some a) of
       None \<Rightarrow> ret (None, False, pos)
     | Some fdoc \<Rightarrow>
         if newline_in fdoc then
           andthen (level_at lv pos) (\<lambda>level.
           andthen (skip_lines (nat level) fdoc) (\<lambda>cp. ret (Some cp, True, Suc pos)))
         else ret (Some fdoc, False, pos))"

definition replaced_doc :: "help_argp \<Rightarrow> bool" where
  "replaced_doc a = (case ha_filter a of None \<Rightarrow> False
     | Some f \<Rightarrow> (case f ARGP_KEY_HELP_ARGS_DOC (ha_args_doc a) of Replaced _ \<Rightarrow> True | _ \<Rightarrow> False))"

text \<open>
  The end of \<open>argp_args_usage\<close>: the level of this argp goes on or back to zero.  A documentation that the
  filter made is freed by then, and \<open>*nl\<close> reads it.
\<close>

definition advance_level :: "help_argp \<Rightarrow> string option \<Rightarrow> nat \<Rightarrow> 8 word list \<Rightarrow> (bool \<times> 8 word list) run" where
  "advance_level a cp pos lv =
     (if replaced_doc a then crash
      else
        let more = (case cp of None \<Rightarrow> False | Some cp \<Rightarrow> newline_in cp) in
        andthen (level_at lv pos) (\<lambda>level.
        if more then andthen (put_level pos (lv ! pos + 1) lv) (\<lambda>lv. ret (False, lv))
        else if level > 0 then andthen (put_level pos 0 lv) (\<lambda>lv. ret (True, lv))
        else ret (True, lv)))"

fun argp_args_usage ::
  "'f stdio \<Rightarrow> help_argp \<Rightarrow> 8 word list \<times> nat \<Rightarrow> bool \<Rightarrow> 'f fmtstream \<Rightarrow> (bool \<times> (8 word list \<times> nat) \<times> 'f fmtstream) run"
  and args_usage_children ::
  "'f stdio \<Rightarrow> help_child list \<Rightarrow> 8 word list \<times> nat \<Rightarrow> bool \<Rightarrow> 'f fmtstream \<Rightarrow> (bool \<times> (8 word list \<times> nat) \<times> 'f fmtstream) run" where
  "argp_args_usage io (Help_Argp at opts args_doc doc filt children) levels advance fs =
     (let a = Help_Argp at opts args_doc doc filt children; our_level = snd levels in
      andthen (args_pattern a (fst levels) our_level) (\<lambda>(cp, multiple, pos).
      andthen
        (case cp of
          None \<Rightarrow> ret fs
        | Some cp \<Rightarrow>
            andthen (space_or_newline io (1 + length (line_of cp)) fs) (\<lambda>fs. out_write io (line_of cp) fs)) (\<lambda>fs.
      andthen
        (case children of
          None \<Rightarrow> ret (advance, (fst levels, pos), fs)
        | Some cs \<Rightarrow> args_usage_children io cs (fst levels, pos) advance fs) (\<lambda>(advance, levels, fs).
      andthen (if advance \<and> multiple then advance_level a cp our_level (fst levels) else ret (advance, fst levels))
        (\<lambda>(advance, lv). ret (\<not> advance, (lv, snd levels), fs))))))"
| "args_usage_children io [] levels advance fs = ret (advance, levels, fs)"
| "args_usage_children io (Help_Child c header grp # cs) levels advance fs =
     andthen (argp_args_usage io c levels advance fs) (\<lambda>(more, levels, fs).
     args_usage_children io cs levels (\<not> more) fs)"

section \<open>Documentation\<close>

text \<open>The text for before or behind the options, and its limit: 0 for none.\<close>

definition doc_part_of :: "string option \<Rightarrow> bool \<Rightarrow> string option \<times> nat" where
  "doc_part_of doc post =
     (case doc of
       None \<Rightarrow> (None, 0)
     | Some d \<Rightarrow>
         let pre = takeWhile (\<lambda>c. c \<noteq> CHR 0x0B) d; vt = (CHR 0x0B \<in> set d) in
         (if post then if vt then Some (drop (Suc (length pre)) d) else None else Some d,
          if \<not> post \<and> vt then length pre else 0))"

definition end_line :: "'f stdio \<Rightarrow> 'f fmtstream \<Rightarrow> 'f fmtstream run" where
  "end_line io fs =
     andthen (argp_fmtstream_point io fs) (\<lambda>(pt, fs).
     if pt > int (lmargin fs) then out_putc io (CHR 0x0A) fs else ret fs)"

definition own_doc :: "'f stdio \<Rightarrow> help_argp \<Rightarrow> bool \<Rightarrow> bool \<Rightarrow> 'f fmtstream \<Rightarrow> (bool \<times> 'f fmtstream) run" where
  "own_doc io a post pre_blank fs =
     (let (inp_text, limit) = doc_part_of (ha_doc a) post;
          inp_text' = (if ha_filter a \<noteq> None \<and> limit \<noteq> 0 then map_option (take limit) inp_text else inp_text);
          (kept, txt) =
            (case ha_filter a of
              None \<Rightarrow> (True, inp_text)
            | Some f \<Rightarrow>
                (case f (if post then ARGP_KEY_HELP_POST_DOC else ARGP_KEY_HELP_PRE_DOC) inp_text' of
                  Kept \<Rightarrow> (True, inp_text') | Replaced s \<Rightarrow> (False, Some s) | Dropped \<Rightarrow> (False, None))) in
      case txt of
        None \<Rightarrow> ret (False, fs)
      | Some t \<Rightarrow>
          andthen (if pre_blank then out_putc io (CHR 0x0A) fs else ret fs) (\<lambda>fs.
          andthen (if kept \<and> limit \<noteq> 0 then out_write io (take limit t) fs else out_puts io t fs) (\<lambda>fs.
          andthen (end_line io fs) (\<lambda>fs. ret (True, fs)))))"

definition extra_doc :: "'f stdio \<Rightarrow> help_argp \<Rightarrow> bool \<Rightarrow> bool \<Rightarrow> 'f fmtstream \<Rightarrow> (bool \<times> 'f fmtstream) run" where
  "extra_doc io a anything pre_blank fs =
     (case ha_filter a of
       None \<Rightarrow> ret (anything, fs)
     | Some f \<Rightarrow>
         (case f ARGP_KEY_HELP_EXTRA None of
           Replaced t \<Rightarrow>
             andthen (if anything \<or> pre_blank then out_putc io (CHR 0x0A) fs else ret fs) (\<lambda>fs.
             andthen (out_puts io t fs) (\<lambda>fs.
             andthen (end_line io fs) (\<lambda>fs. ret (True, fs))))
         | _ \<Rightarrow> ret (anything, fs)))"

fun argp_doc :: "'f stdio \<Rightarrow> help_argp \<Rightarrow> bool \<Rightarrow> bool \<Rightarrow> bool \<Rightarrow> 'f fmtstream \<Rightarrow> (bool \<times> 'f fmtstream) run"
  and doc_children :: "'f stdio \<Rightarrow> help_child list \<Rightarrow> bool \<Rightarrow> bool \<Rightarrow> bool \<Rightarrow> bool \<Rightarrow> 'f fmtstream \<Rightarrow> (bool \<times> 'f fmtstream) run" where
  "argp_doc io (Help_Argp at opts args_doc doc filt children) post pre_blank first_only fs =
     (let a = Help_Argp at opts args_doc doc filt children in
      andthen (own_doc io a post pre_blank fs) (\<lambda>(anything, fs).
      andthen (if post then extra_doc io a anything pre_blank fs else ret (anything, fs)) (\<lambda>(anything, fs).
      case children of
        None \<Rightarrow> ret (anything, fs)
      | Some cs \<Rightarrow> doc_children io cs post pre_blank first_only anything fs)))"
| "doc_children io [] post pre_blank first_only anything fs = ret (anything, fs)"
| "doc_children io (Help_Child c header grp # cs) post pre_blank first_only anything fs =
     (if first_only \<and> anything then ret (anything, fs)
      else
        andthen (argp_doc io c post (anything \<or> pre_blank) first_only fs) (\<lambda>(any, fs).
        doc_children io cs post pre_blank first_only (anything \<or> any) fs))"

section \<open>The whole text\<close>

definition ARGP_HELP_SHORT_USAGE :: u32 where "ARGP_HELP_SHORT_USAGE = 0x02"
definition ARGP_HELP_SEE :: u32 where "ARGP_HELP_SEE = 0x04"
definition ARGP_HELP_LONG :: u32 where "ARGP_HELP_LONG = 0x08"
definition ARGP_HELP_PRE_DOC :: u32 where "ARGP_HELP_PRE_DOC = 0x10"
definition ARGP_HELP_POST_DOC :: u32 where "ARGP_HELP_POST_DOC = 0x20"
definition ARGP_HELP_BUG_ADDR :: u32 where "ARGP_HELP_BUG_ADDR = 0x40"

text \<open>One line of the usage message.\<close>

definition usage_line ::
  "'f help_env \<Rightarrow> hol_entry list \<Rightarrow> help_argp \<Rightarrow> string \<Rightarrow> bool \<Rightarrow> bool \<Rightarrow> 8 word list \<Rightarrow> 'f fmtstream \<Rightarrow>
     (bool \<times> 8 word list \<times> 'f fmtstream) run" where
  "usage_line env es a name first_pattern short lv fs =
     (let io = he_io env in
      andthen (argp_fmtstream_set_wmargin io (usage_indent (he_up env)) fs) (\<lambda>(old_wm, fs).
      andthen (out_printf io ((if first_pattern then ''Usage:'' else ''  or: '') @ '' '' @ name) fs) (\<lambda>fs.
      andthen (argp_fmtstream_set_lmargin io (nat (usage_indent (he_up env))) fs) (\<lambda>(old_lm, fs).
      andthen
        (if short then if es \<noteq> [] then out_puts io '' [OPTION...]'' fs else ret fs
         else hol_usage io (he_shorts env) es fs) (\<lambda>fs.
      andthen (argp_args_usage io a (lv, 0) True fs) (\<lambda>(more, levels, fs).
      andthen (out_wmargin io old_wm fs) (\<lambda>fs.
      andthen (out_lmargin io old_lm fs) (\<lambda>fs.
      andthen (out_putc io (CHR 0x0A) fs) (\<lambda>fs.
      ret (more, fst levels, fs))))))))))"

partial_function (option) usage_loop ::
  "'f help_env \<Rightarrow> hol_entry list \<Rightarrow> help_argp \<Rightarrow> string \<Rightarrow> bool \<Rightarrow> bool \<Rightarrow> 8 word list \<Rightarrow> 'f fmtstream \<Rightarrow> 'f fmtstream run" where
  "usage_loop env es a name first_pattern short lv fs =
     andthen (usage_line env es a name first_pattern short lv fs) (\<lambda>(more, lv, fs).
     if more then usage_loop env es a name False True lv fs else ret fs)"

declare usage_loop.simps [code]

text \<open>The parts of the text that the flags ask for, in their order.\<close>

definition help_parts ::
  "'f help_env \<Rightarrow> hol_entry list \<Rightarrow> help_argp option \<Rightarrow> help_argp option \<Rightarrow> string option \<Rightarrow> u32 \<Rightarrow> string \<Rightarrow> 'f fmtstream \<Rightarrow>
     'f fmtstream run" where
  "help_parts env es root arg bug_address flags name fs =
     (let io = he_io env; usage = has_flag flags (ARGP_HELP_USAGE OR ARGP_HELP_SHORT_USAGE) in
      andthen
        (if usage then
           (case arg of None \<Rightarrow> crash
            | Some a \<Rightarrow> usage_loop env es a name True (has_flag flags ARGP_HELP_SHORT_USAGE) (replicate (argp_args_levels a) 0) fs)
         else ret fs) (\<lambda>fs.
      andthen
        (if has_flag flags ARGP_HELP_PRE_DOC
         then (case arg of None \<Rightarrow> crash
               | Some a \<Rightarrow> andthen (argp_doc io a False False True fs) (\<lambda>(any, fs). ret (usage \<or> any, fs)))
         else ret (usage, fs)) (\<lambda>(anything, fs).
      andthen
        (if has_flag flags ARGP_HELP_SEE
         then andthen (out_printf io (''Try `'' @ name @ '' --help'' @ [CHR 0x27] @ '' or `'' @ name @ '' --usage'' @ [CHR 0x27] @
             '' for more information.'' @ [CHR 0x0A]) fs) (\<lambda>fs. ret (True, fs))
         else ret (anything, fs)) (\<lambda>(anything, fs).
      andthen
        (if has_flag flags ARGP_HELP_LONG \<and> es \<noteq> [] then
           andthen (if anything then out_putc io (CHR 0x0A) fs else ret fs) (\<lambda>fs.
           andthen (hol_help env es root fs) (\<lambda>fs. ret (True, fs)))
         else ret (anything, fs)) (\<lambda>(anything, fs).
      andthen
        (if has_flag flags ARGP_HELP_POST_DOC
         then (case arg of None \<Rightarrow> crash
               | Some a \<Rightarrow> andthen (argp_doc io a True anything False fs) (\<lambda>(any, fs). ret (anything \<or> any, fs)))
         else ret (anything, fs)) (\<lambda>(anything, fs).
      case bug_address of
        None \<Rightarrow> ret fs
      | Some b \<Rightarrow>
          if has_flag flags ARGP_HELP_BUG_ADDR then
            andthen (if anything then out_putc io (CHR 0x0A) fs else ret fs) (\<lambda>fs.
            out_printf io (''Report bugs to '' @ b @ [CHR 0x2E, CHR 0x0A]) fs)
          else ret fs))))))"

text \<open>
  The surroundings of the help: the streams' operations, the order, the environment variable, whether there
  is memory for the structure of a stream, and the address for bugs.
\<close>

record 'f help_sys =
  sys_io :: "'f stdio"
  sys_order :: order_fns
  sys_fmt :: "string option"
  sys_stream_got :: bool
  sys_bug_address :: "string option"

text \<open>
  \<open>_help\<close> on a stream that is not null: the parameters after, the complaints about \<open>ARGP_HELP_FMT\<close>, and the
  stream; or a failed assertion.  \<open>root\<close> is the argp of the parsing state, if there is one.
\<close>

definition help_text ::
  "'f help_sys \<Rightarrow> uparams \<Rightarrow> help_argp option \<Rightarrow> help_argp option \<Rightarrow> u32 \<Rightarrow> string \<Rightarrow> help_mem \<Rightarrow> 'f \<Rightarrow>
     (uparams \<times> string list \<times> 'f) outcome run" where
  "help_text sys up arg root flags name m f =
     andthen (fill_in_uparams (sys_fmt sys) up) (\<lambda>(up, complaints).
     case argp_make_fmtstream (sys_io sys) (sys_stream_got sys) f 0 (nat (up_rmargin up)) 0 of
       None \<Rightarrow> ret (Done (up, complaints, f))
     | Some fs \<Rightarrow>
         andthen
           (if has_flag flags (ARGP_HELP_USAGE OR ARGP_HELP_SHORT_USAGE OR ARGP_HELP_LONG)
            then (case arg of None \<Rightarrow> crash | Some a \<Rightarrow> help_hol (sys_order sys) a m)
            else ret (Done (\<lparr>hol_entries = [], hol_short = None, hol_clusters = []\<rparr>, m))) (\<lambda>r.
         case r of
           Done (h, m) \<Rightarrow>
             let env = \<lparr>he_io = sys_io sys, he_up = up, he_store = clusters m,
                   he_shorts = (case hol_short h of None \<Rightarrow> [] | Some s \<Rightarrow> s)\<rparr> in
             andthen (help_parts env (hol_entries h) root arg (sys_bug_address sys) flags name fs) (\<lambda>fs.
             andthen (argp_fmtstream_free (sys_io sys) fs) (\<lambda>f. ret (Done (up, complaints, f))))
         | Exits n \<Rightarrow> ret (Exits n)
         | Asserts \<Rightarrow> ret Asserts
         | Faults \<Rightarrow> crash))"

section \<open>Errors and failures\<close>

text \<open>
  What they need of the parsing state: its flags, its name, its root, and its stream for errors, which may be
  null.  Without a state, \<open>stderr\<close> and the program's short name are used.
\<close>

record 'f err_state =
  es_flags :: u32
  es_name :: string
  es_root :: help_argp
  es_stream :: "'f option"

definition fputs_to :: "'f stdio \<Rightarrow> string \<Rightarrow> 'f \<Rightarrow> 'f" where
  "fputs_to io s f = snd (fwrite_unlocked io s f)"

definition name_of :: "'f err_state option \<Rightarrow> string \<Rightarrow> string" where
  "name_of st short_name = (case st of None \<Rightarrow> short_name | Some s \<Rightarrow> es_name s)"

definition silent :: "'f err_state option \<Rightarrow> bool" where
  "silent st = (case st of None \<Rightarrow> False | Some s \<Rightarrow> has_flag (es_flags s) ARGP_NO_ERRS)"

definition stays :: "'f err_state option \<Rightarrow> bool" where
  "stays st = (case st of None \<Rightarrow> False | Some s \<Rightarrow> has_flag (es_flags s) ARGP_NO_EXIT)"

text \<open>The stream after, with the status when the process exits then.\<close>

definition state_help ::
  "'f help_sys \<Rightarrow> uparams \<Rightarrow> int \<Rightarrow> string \<Rightarrow> help_mem \<Rightarrow> 'f err_state option \<Rightarrow> u32 \<Rightarrow> 'f option \<Rightarrow> ('f option \<times> int option) outcome run" where
  "state_help sys up err_status short_name m st flags file =
     (case file of
       None \<Rightarrow> ret (Done (None, None))
     | Some f \<Rightarrow>
         if silent st then ret (Done (Some f, None))
         else
           let root = map_option es_root st;
               flags = (case st of Some s \<Rightarrow> if has_flag (es_flags s) ARGP_LONG_ONLY then flags OR ARGP_HELP_LONG_ONLY else flags
                        | None \<Rightarrow> flags) in
           andthen (help_text sys up root root flags (name_of st short_name) m f) (\<lambda>r.
           case r of
             Done (up, complaints, f) \<Rightarrow>
               ret (Done (Some f,
                 if stays st then None
                 else if has_flag flags ARGP_HELP_EXIT_ERR then Some err_status
                 else if has_flag flags ARGP_HELP_EXIT_OK then Some 0 else None))
           | Exits n \<Rightarrow> ret (Exits n)
           | Asserts \<Rightarrow> ret Asserts
           | Faults \<Rightarrow> crash))"

text \<open>\<open>__argp_error_internal\<close> with the formatted message; \<open>err\<close> is \<open>stderr\<close>.\<close>

definition argp_error_internal ::
  "'f help_sys \<Rightarrow> uparams \<Rightarrow> int \<Rightarrow> string \<Rightarrow> help_mem \<Rightarrow> 'f err_state option \<Rightarrow> string \<Rightarrow> 'f \<Rightarrow> ('f option \<times> int option) outcome run" where
  "argp_error_internal sys up err_status short_name m st msg err =
     (let io = sys_io sys; file = (case st of None \<Rightarrow> Some err | Some s \<Rightarrow> es_stream s) in
      if silent st then ret (Done (file, None))
      else case file of
        None \<Rightarrow> ret (Done (None, None))
      | Some f \<Rightarrow>
          let f = putc_unlocked io (CHR '' '') (putc_unlocked io (CHR '':'') (fputs_to io (name_of st short_name) f));
              f = putc_unlocked io (CHR 0x0A) (fputs_to io msg f) in
          state_help sys up err_status short_name m st ARGP_HELP_STD_ERR (Some f))"

text \<open>\<open>__argp_failure_internal\<close>: a message, if there is a format, and the text of an error number, if there is one.\<close>

definition argp_failure_internal ::
  "'f stdio \<Rightarrow> string \<Rightarrow> 'f err_state option \<Rightarrow> int \<Rightarrow> string option \<Rightarrow> string option \<Rightarrow> 'f \<Rightarrow> 'f option \<times> int option" where
  "argp_failure_internal io short_name st status errtext msg err =
     (let file = (case st of None \<Rightarrow> Some err | Some s \<Rightarrow> es_stream s) in
      if silent st then (file, None)
      else case file of
        None \<Rightarrow> (None, None)
      | Some f \<Rightarrow>
          let f = fputs_to io (name_of st short_name) f;
              f = (case msg of None \<Rightarrow> f | Some t \<Rightarrow> fputs_to io t (putc_unlocked io (CHR '' '') (putc_unlocked io (CHR '':'') f)));
              f = (case errtext of None \<Rightarrow> f | Some t \<Rightarrow> fputs_to io t (putc_unlocked io (CHR '' '') (putc_unlocked io (CHR '':'') f)));
              f = putc_unlocked io (CHR 0x0A) f in
          (Some f, if status \<noteq> 0 \<and> \<not> stays st then Some status else None))"

end
