(* ===== verification/Help_Patterns.thy ===== *)
theory Help_Patterns
  imports Help_Text Hol_Props Fmt_Props
begin

text \<open>
  The usage lines: \<open>argp_args_usage\<close> counts through the alternatives of the argps of a tree like an odometer,
  and the loop of \<open>_help\<close> prints each combination once.  Then whole texts, and defects.
\<close>

section \<open>Odometers\<close>

text \<open>
  \<open>link f c z vs\<close>: from each of \<open>vs\<close>, \<open>f\<close> goes on to the next without a carry; from the last one to \<open>z\<close>, with
  the carry \<open>c\<close>.
\<close>

fun link :: "('a \<Rightarrow> bool \<times> 'a) \<Rightarrow> bool \<Rightarrow> 'a \<Rightarrow> 'a list \<Rightarrow> bool" where
  "link f c z [] \<longleftrightarrow> False"
| "link f c z [v] \<longleftrightarrow> f v = (c, z)"
| "link f c z (v # w # vs) \<longleftrightarrow> f v = (False, w) \<and> link f c z (w # vs)"

text \<open>A wheel turns through its places and back to the first.\<close>

definition wheel :: "('a \<Rightarrow> bool \<times> 'a) \<Rightarrow> 'a list \<Rightarrow> bool" where
  "wheel f vs \<longleftrightarrow> link f True (hd vs) vs"

lemma link_nonempty: "link f c z vs \<Longrightarrow> vs \<noteq> []"
  by (cases vs) auto

lemma link_append: "link f False (hd ws) vs \<Longrightarrow> link f c z ws \<Longrightarrow> link f c z (vs @ ws)"
proof (induction vs rule: induct_list012)
  case (2 v)
  then show ?case by (cases ws) auto
qed auto

lemma link_map:
  assumes "link f c z vs" and "\<And>v. v \<in> set vs \<Longrightarrow> fst (f v) = False \<Longrightarrow> g (h v) = (False, h (snd (f v)))"
    and "\<And>v. v \<in> set vs \<Longrightarrow> f v = (c, z) \<Longrightarrow> v = List.last vs \<Longrightarrow> g (h v) = (c', z')"
  shows "link g c' z' (map h vs)"
  using assms by (induction vs rule: induct_list012) auto

text \<open>Two wheels: the second turns when the first is through.\<close>

definition geared :: "('a \<Rightarrow> bool \<times> 'a) \<Rightarrow> ('b \<Rightarrow> bool \<times> 'b) \<Rightarrow> 'a \<times> 'b \<Rightarrow> bool \<times> 'a \<times> 'b" where
  "geared f g p =
     (let (c, d) = f (fst p) in
      if c then let (c', r) = g (snd p) in (c', d, r) else (False, d, snd p))"

definition pairs :: "'a list \<Rightarrow> 'b list \<Rightarrow> ('a \<times> 'b) list" where
  "pairs ds rs = concat (map (\<lambda>r. map (\<lambda>d. (d, r)) ds) rs)"

lemma hd_map_pairs: "ds \<noteq> [] \<Longrightarrow> rs \<noteq> [] \<Longrightarrow> hd (map h (pairs ds rs)) = h (hd ds, hd rs)"
  by (cases ds; cases rs) (auto simp: pairs_def)

lemma wheel_round:
  assumes "wheel f ds" and "g r = (c, r')"
  shows "link (geared f g) c (hd ds, r') (map (\<lambda>d. (d, r)) ds)"
proof (rule link_map)
  show "link f True (hd ds) ds" using assms(1) by (simp add: wheel_def)
  show "geared f g (v, r) = (False, snd (f v), r)" if "fst (f v) = False" for v
    using that by (cases "f v") (simp add: geared_def)
  show "geared f g (v, r) = (c, hd ds, r')" if "f v = (True, hd ds)" for v
    using that assms(2) by (simp add: geared_def)
qed

lemma hd_pairs: "ds \<noteq> [] \<Longrightarrow> rs \<noteq> [] \<Longrightarrow> hd (pairs ds rs) = (hd ds, hd rs)"
  by (cases ds; cases rs) (auto simp: pairs_def)

lemma link_geared:
  assumes "wheel f ds" and "link g c z rs"
  shows "link (geared f g) c (hd ds, z) (pairs ds rs)"
  using assms(2)
proof (induction rs rule: induct_list012)
  case (2 r)
  then show ?case using wheel_round [OF assms(1), of g r c z] by (simp add: pairs_def)
next
  case (3 r r' rs)
  have ds: "ds \<noteq> []" using assms(1) link_nonempty by (auto simp: wheel_def)
  have "pairs ds (r # r' # rs) = map (\<lambda>d. (d, r)) ds @ pairs ds (r' # rs)" by (simp add: pairs_def)
  moreover have "link (geared f g) False (hd (pairs ds (r' # rs))) (map (\<lambda>d. (d, r)) ds)"
    using wheel_round [OF assms(1), of g r False r'] 3(3) hd_pairs [OF ds, of "r' # rs"] by simp
  ultimately show ?case using 3 by (simp add: link_append)
qed simp

lemma wheel_geared: "wheel f ds \<Longrightarrow> wheel g rs \<Longrightarrow> wheel (geared f g) (pairs ds rs)"
  using link_geared [of f ds g True "hd rs" rs] hd_pairs [of ds rs] link_nonempty
  by (fastforce simp: wheel_def)

definition count_to :: "nat \<Rightarrow> nat \<Rightarrow> bool \<times> nat" where
  "count_to n i = (if Suc i < n then (False, Suc i) else (True, 0))"

lemma link_count: "i < n \<Longrightarrow> link (count_to n) True 0 [i ..< n]"
proof (induction "n - i" arbitrary: i)
  case (Suc k)
  show ?case
  proof (cases "Suc i = n")
    case True
    then have "[i ..< n] = [i]" using Suc.prems by (simp add: upt_conv_Cons)
    then show ?thesis using True by (simp add: count_to_def)
  next
    case False
    then have "link (count_to n) True 0 [Suc i ..< n]" using Suc by simp
    then show ?thesis using False Suc.prems by (simp add: upt_conv_Cons [of i] upt_conv_Cons [of "Suc i"] count_to_def)
  qed
qed simp

lemma wheel_count: "0 < n \<Longrightarrow> wheel (count_to n) [0 ..< n]"
  using link_count [of 0 n] by (simp add: wheel_def)

section \<open>The combinations of a tree\<close>

text \<open>The lines of a documentation; a wheel position of a tree has one number for each argp that has several.\<close>

fun doc_lines :: "string \<Rightarrow> string list" where
  "doc_lines [] = [[]]"
| "doc_lines (c # cs) = (if c = CHR 0x0A then [] # doc_lines cs else (c # hd (doc_lines cs)) # tl (doc_lines cs))"

definition several :: "string option \<Rightarrow> bool" where
  "several d = (case d of None \<Rightarrow> False | Some d \<Rightarrow> newline_in d)"

fun places :: "help_argp \<Rightarrow> nat list list" and kid_places :: "help_child list \<Rightarrow> nat list list" where
  "places (Help_Argp at opts args_doc doc filt children) =
     (let kids = (case children of None \<Rightarrow> [[]] | Some cs \<Rightarrow> kid_places cs) in
      if several args_doc
      then map (\<lambda>(ks, i). i # ks) (pairs kids [0 ..< length (doc_lines (the args_doc))])
      else kids)"
| "kid_places [] = [[]]"
| "kid_places (Help_Child c header grp # cs) = map (\<lambda>(d, r). d @ r) (pairs (places c) (kid_places cs))"

text \<open>The texts of a position, in the order of the tree.\<close>

fun pick :: "help_argp \<Rightarrow> nat list \<Rightarrow> string list" and kid_pick :: "help_child list \<Rightarrow> nat list \<Rightarrow> string list" where
  "pick (Help_Argp at opts args_doc doc filt children) v =
     (case args_doc of None \<Rightarrow> []
      | Some d \<Rightarrow> [if newline_in d then doc_lines d ! hd v else d]) @
     (case children of None \<Rightarrow> [] | Some cs \<Rightarrow> kid_pick cs (if several args_doc then tl v else v))"
| "kid_pick [] v = []"
| "kid_pick (Help_Child c header grp # cs) v = pick c (take (argp_args_levels c) v) @ kid_pick cs (drop (argp_args_levels c) v)"

text \<open>
  All the combinations of a tree: one line for each argp that has any, those of the later ones changing more
  slowly, those of a parent most slowly.
\<close>

fun choices :: "help_argp \<Rightarrow> string list list" and kid_choices :: "help_child list \<Rightarrow> string list list" where
  "choices (Help_Argp at opts args_doc doc filt children) =
     (let kids = (case children of None \<Rightarrow> [[]] | Some cs \<Rightarrow> kid_choices cs) in
      case args_doc of None \<Rightarrow> kids | Some d \<Rightarrow> map (\<lambda>(ks, l). l # ks) (pairs kids (doc_lines d)))"
| "kid_choices [] = [[]]"
| "kid_choices (Help_Child c header grp # cs) = map (\<lambda>(d, r). d @ r) (pairs (choices c) (kid_choices cs))"

text \<open>One turn.\<close>

fun turn :: "help_argp \<Rightarrow> nat list \<Rightarrow> bool \<times> nat list" and kid_turn :: "help_child list \<Rightarrow> nat list \<Rightarrow> bool \<times> nat list" where
  "turn (Help_Argp at opts args_doc doc filt children) v =
     (if several args_doc then
        let (c, ks) = (case children of None \<Rightarrow> (True, tl v) | Some cs \<Rightarrow> kid_turn cs (tl v)) in
        if c then let (c', i) = count_to (length (doc_lines (the args_doc))) (hd v) in (c', i # ks)
        else (False, hd v # ks)
      else case children of None \<Rightarrow> (True, v) | Some cs \<Rightarrow> kid_turn cs v)"
| "kid_turn [] v = (True, v)"
| "kid_turn (Help_Child c header grp # cs) v =
     (let (c', d) = turn c (take (argp_args_levels c) v); r = drop (argp_args_levels c) v in
      if c' then let (c'', r') = kid_turn cs r in (c'', d @ r') else (False, d @ r))"

lemma wheel_map:
  assumes "wheel f vs" and "\<And>v. v \<in> set vs \<Longrightarrow> g (h v) = (fst (f v), h (snd (f v)))"
  shows "wheel g (map h vs)"
proof -
  have "link g True (h (hd vs)) (map h vs)"
    by (rule link_map [of f True "hd vs" vs]) (use assms in \<open>auto simp: wheel_def\<close>)
  then show ?thesis using assms(1) link_nonempty by (cases vs) (auto simp: wheel_def)
qed

lemma doc_lines_several: "newline_in d \<Longrightarrow> 1 < length (doc_lines d)"
proof (induction d)
  case (Cons c cs)
  have "doc_lines cs \<noteq> []" by (cases cs) auto
  then show ?case using Cons by (cases "c = CHR 0x0A") (auto simp: newline_in_def)
qed (simp add: newline_in_def)

lemma places_wheel:
  "wheel (turn a) (places a) \<and> (\<forall>v\<in>set (places a). length v = argp_args_levels a)"
  "wheel (kid_turn cs) (kid_places cs) \<and> (\<forall>v\<in>set (kid_places cs). length v = children_levels cs)"
proof (induction a and cs rule: places_kid_places.induct)
  case (1 at opts args_doc doc filt children)
  let ?kids = "case children of None \<Rightarrow> [[]] | Some cs \<Rightarrow> kid_places cs"
  let ?kt = "\<lambda>v. case children of None \<Rightarrow> (True, v) | Some cs \<Rightarrow> kid_turn cs v"
  let ?n = "length (doc_lines (the args_doc))"
  have kids: "wheel ?kt ?kids" "\<forall>v\<in>set ?kids. length v = (case children of None \<Rightarrow> 0 | Some cs \<Rightarrow> children_levels cs)"
    using 1 by (cases children; simp add: wheel_def)+
  show ?case
  proof (cases "several args_doc")
    case True
    then have n: "1 < ?n" using doc_lines_several by (auto simp: several_def split: option.splits)
    have "wheel (turn (Help_Argp at opts args_doc doc filt children)) (map (\<lambda>(ks, i). i # ks) (pairs ?kids [0 ..< ?n]))"
      by (rule wheel_map [OF wheel_geared [OF kids(1) wheel_count]])
         (use n True in \<open>auto simp: geared_def Let_def split: prod.splits option.splits\<close>)
    moreover have "places (Help_Argp at opts args_doc doc filt children) = map (\<lambda>(ks, i). i # ks) (pairs ?kids [0 ..< ?n])"
      using True by simp
    ultimately show ?thesis using True kids(2)
      by (simp del: turn.simps places.simps) (auto simp: pairs_def several_def split: option.splits)
  next
    case False
    then have "turn (Help_Argp at opts args_doc doc filt children) = ?kt" by (auto split: option.splits)
    then show ?thesis using False kids by (auto simp: several_def split: option.splits)
  qed
next
  case (3 c header grp cs)
  have "wheel (kid_turn (Help_Child c header grp # cs)) (map (\<lambda>(d, r). d @ r) (pairs (places c) (kid_places cs)))"
    by (rule wheel_map [OF wheel_geared]) (use 3 in \<open>auto simp: geared_def pairs_def Let_def split: prod.splits\<close>)
  moreover have "\<forall>v\<in>set (map (\<lambda>(d, r). d @ r) (pairs (places c) (kid_places cs))). length v = children_levels (Help_Child c header grp # cs)"
    using 3 by (auto simp: pairs_def)
  ultimately show ?case by (simp only: kid_places.simps)
qed (simp_all add: wheel_def)


lemma map_pairs: "map h (pairs (map f ds) (map g rs)) = map (\<lambda>(d, r). h (f d, g r)) (pairs ds rs)"
  by (simp add: pairs_def map_concat comp_def)

lemma doc_lines_one: "\<not> newline_in d \<Longrightarrow> doc_lines d = [d]"
  by (induction d) (auto simp: newline_in_def)

lemma pick_places: "map (pick a) (places a) = choices a" "map (kid_pick cs) (kid_places cs) = kid_choices cs"
proof (induction a and cs rule: places_kid_places.induct)
  case (1 at opts args_doc doc filt children)
  let ?kids = "case children of None \<Rightarrow> [[]] | Some cs \<Rightarrow> kid_places cs"
  let ?kp = "\<lambda>v. case children of None \<Rightarrow> [] | Some cs \<Rightarrow> kid_pick cs v"
  have kids: "(case children of None \<Rightarrow> [[]] | Some cs \<Rightarrow> kid_choices cs) = map ?kp ?kids"
    using 1 by (cases children) simp_all
  show ?case
  proof (cases args_doc)
    case None
    then show ?thesis using kids by (simp add: several_def)
  next
    case (Some d)
    show ?thesis
    proof (cases "newline_in d")
      case True
      have "doc_lines d = map ((!) (doc_lines d)) [0 ..< length (doc_lines d)]" by (simp add: map_nth)
      then have "choices (Help_Argp at opts args_doc doc filt children) =
          map (\<lambda>(ks, l). l # ks) (pairs (map ?kp ?kids) (map ((!) (doc_lines d)) [0 ..< length (doc_lines d)]))"
        using Some kids by simp
      then show ?thesis using Some True
        by (simp add: map_pairs several_def case_prod_unfold comp_def split: option.split)
    next
      case False
      then show ?thesis using Some kids by (simp add: several_def doc_lines_one pairs_def comp_def)
    qed
  qed
next
  case (3 c header grp cs)
  have "map (kid_pick (Help_Child c header grp # cs)) (kid_places (Help_Child c header grp # cs)) =
      map (\<lambda>(d, r). pick c d @ kid_pick cs r) (pairs (places c) (kid_places cs))"
    using places_wheel(1) [of c] by (auto simp: pairs_def)
  also have "\<dots> = map (\<lambda>(d, r). d @ r) (pairs (map (pick c) (places c)) (map (kid_pick cs) (kid_places cs)))"
    by (simp add: map_pairs)
  finally show ?case unfolding 3 by (simp only: kid_choices.simps)
qed simp_all

lemma wheel_nonempty: "wheel f vs \<Longrightarrow> vs \<noteq> []"
  unfolding wheel_def by (rule link_nonempty)

lemma places_nonempty: "places a \<noteq> []" "kid_places cs \<noteq> []"
  using places_wheel wheel_nonempty by blast+

lemma numbered: "1 < n \<Longrightarrow> [0 ..< n] \<noteq> []" "1 < n \<Longrightarrow> hd [0 ..< n] = 0"
  by simp_all

lemma hd_places:
  "hd (places a) = replicate (argp_args_levels a) 0" "hd (kid_places cs) = replicate (children_levels cs) 0"
proof (induction a and cs rule: places_kid_places.induct)
  case (1 at opts args_doc doc filt children)
  let ?kids = "case children of None \<Rightarrow> [[]] | Some cs \<Rightarrow> kid_places cs"
  have kids: "hd ?kids = replicate (case children of None \<Rightarrow> 0 | Some cs \<Rightarrow> children_levels cs) 0" "?kids \<noteq> []"
    using 1 places_nonempty(2) by (cases children; simp)+
  show ?case
  proof (cases "several args_doc")
    case True
    then have "1 < length (doc_lines (the args_doc))"
      using doc_lines_several by (auto simp: several_def split: option.splits)
    then have "[0 ..< length (doc_lines (the args_doc))] \<noteq> []" and "hd [0 ..< length (doc_lines (the args_doc))] = 0"
      by (rule numbered)+
    then show ?thesis using True kids by (auto simp: hd_map_pairs several_def split: option.splits)
  next
    case False
    then show ?thesis using kids(1) by (auto simp: several_def split: option.splits)
  qed
next
  case (3 c header grp cs)
  show ?case using 3 places_nonempty by (simp add: hd_map_pairs replicate_add)
qed simp_all

section \<open>The code is an odometer\<close>

text \<open>No argp of the tree has a filter, and each has at most 128 lines: a level is a \<open>char\<close>.\<close>

fun countable :: "help_argp \<Rightarrow> bool" and kids_countable :: "help_child list \<Rightarrow> bool" where
  "countable (Help_Argp at opts args_doc doc filt children) \<longleftrightarrow>
     filt = None \<and> (case args_doc of None \<Rightarrow> True | Some d \<Rightarrow> length (doc_lines d) \<le> 128) \<and>
     (case children of None \<Rightarrow> True | Some cs \<Rightarrow> kids_countable cs)"
| "kids_countable [] \<longleftrightarrow> True"
| "kids_countable (Help_Child c header grp # cs) \<longleftrightarrow> countable c \<and> kids_countable cs"

definition piece :: "'f stdio \<Rightarrow> string \<Rightarrow> 'f fmtstream \<Rightarrow> 'f fmtstream run" where
  "piece io p fs = andthen (space_or_newline io (1 + length p) fs) (\<lambda>fs. out_write io p fs)"

fun pieces :: "'f stdio \<Rightarrow> string list \<Rightarrow> 'f fmtstream \<Rightarrow> 'f fmtstream run" where
  "pieces io [] fs = ret fs"
| "pieces io (p # ps) fs = andthen (piece io p fs) (pieces io ps)"

lemma pieces_append: "pieces io (ps @ qs) fs = andthen (pieces io ps fs) (pieces io qs)"
proof (induction ps arbitrary: fs)
  case (Cons p ps)
  then have "pieces io (ps @ qs) = (\<lambda>fs. andthen (pieces io ps fs) (pieces io qs))" by blast
  then show ?case by (simp add: andthen_assoc)
qed simp

lemma doc_lines_from: "doc_lines d = line_of d # (case from_nl d of [] \<Rightarrow> [] | _ # r \<Rightarrow> doc_lines r)"
  by (induction d) (auto simp: line_of_def from_nl_def)

lemma doc_lines_ne [simp]: "doc_lines d \<noteq> []"
  by (subst doc_lines_from) simp

lemma newline_from: "newline_in d \<longleftrightarrow> from_nl d \<noteq> []"
  by (auto simp: newline_in_def from_nl_def dropWhile_eq_Nil_conv)

lemma skip_lines_doc:
  "i < length (doc_lines d) \<Longrightarrow>
   \<exists>cp. skip_lines i d = ret cp \<and> line_of cp = doc_lines d ! i \<and> (newline_in cp \<longleftrightarrow> Suc i < length (doc_lines d))"
proof (induction i arbitrary: d)
  case 0
  then show ?case by (subst doc_lines_from) (auto simp: newline_from doc_lines_from [of d] split: list.splits)
next
  case (Suc i)
  then obtain c r where r: "from_nl d = c # r" by (subst (asm) doc_lines_from) (auto split: list.splits)
  then have lines: "doc_lines d = line_of d # doc_lines r" by (subst doc_lines_from) simp
  show ?case using Suc.IH [of r] Suc.prems by (simp add: lines r)
qed

lemma level_digit: "i < 128 \<Longrightarrow> sint (word_of_nat i :: 8 word) = int i"
  by (simp add: signed_of_nat signed_take_bit_int_eq_self_iff)

text \<open>A turn, when one is asked for.\<close>

definition step_if :: "bool \<Rightarrow> (nat list \<Rightarrow> bool \<times> nat list) \<Rightarrow> nat list \<Rightarrow> bool \<times> nat list" where
  "step_if adv f v = (if adv then f v else (False, v))"

lemma args_pattern_several:
  assumes "newline_in d" and "i < length (doc_lines d)" and "length (doc_lines d) \<le> 128" and "filt = None"
  shows "\<exists>cp. args_pattern (Help_Argp at opts (Some d) doc filt children) (pre @ word_of_nat i # post) (length pre) =
      ret (Some cp, True, Suc (length pre)) \<and> line_of cp = doc_lines d ! i \<and> (newline_in cp \<longleftrightarrow> Suc i < length (doc_lines d))"
  using skip_lines_doc [OF assms(2)] assms by (auto simp: args_pattern_def filter_doc_def level_at_def level_digit)

lemma advance_level_count:
  assumes "i < n" and "n \<le> 128" and "newline_in cp \<longleftrightarrow> Suc i < n" and "filt = None"
  shows "advance_level (Help_Argp at opts args_doc doc filt children) (Some cp) (length pre) (pre @ word_of_nat i # post) =
    ret (let (c, i') = count_to n i in (c, pre @ word_of_nat i' # post))"
  using assms by (auto simp: advance_level_def replaced_doc_def level_at_def put_level_def count_to_def level_digit add.commute)

lemma line_of_one: "\<not> newline_in d \<Longrightarrow> line_of d = d"
  by (auto simp: line_of_def newline_in_def takeWhile_eq_all_conv)

lemma turn_length:
  "length v = argp_args_levels a \<Longrightarrow> length (snd (turn a v)) = length v"
  "length v = children_levels cs \<Longrightarrow> length (snd (kid_turn cs v)) = length v"
proof (induction a and cs arbitrary: v and v rule: places_kid_places.induct)
  case (1 at opts args_doc doc filt children)
  show ?case
  proof (cases "several args_doc")
    case True
    then show ?thesis using 1 by (cases v; cases children)
      (auto simp: several_def case_prod_unfold Let_def split: option.splits)
  next
    case False
    then show ?thesis using 1 by (auto simp: several_def split: option.splits)
  qed
next
  case (3 c header grp cs)
  then show ?case by (simp add: case_prod_unfold Let_def)
qed simp

lemma args_usage_turns:
  "countable a \<Longrightarrow> v \<in> set (places a) \<Longrightarrow>
   argp_args_usage io a (pre @ map word_of_nat v @ post, length pre) adv fs =
     andthen (pieces io (pick a v) fs) (\<lambda>fs.
       ret (let (c, v') = step_if adv (turn a) v in (\<not> c, (pre @ map word_of_nat v' @ post, length pre + length v), fs)))"
  "kids_countable cs \<Longrightarrow> v \<in> set (kid_places cs) \<Longrightarrow>
   args_usage_children io cs (pre @ map word_of_nat v @ post, length pre) adv fs =
     andthen (pieces io (kid_pick cs v) fs) (\<lambda>fs.
       ret (let (c, v') = step_if adv (kid_turn cs) v in (c, (pre @ map word_of_nat v' @ post, length pre + length v), fs)))"
proof (induction a and cs arbitrary: v pre post adv fs and v pre post adv fs rule: places_kid_places.induct)
  case (1 at opts args_doc doc filt children)
  let ?a = "Help_Argp at opts args_doc doc filt children"
  let ?kids = "case children of None \<Rightarrow> [[]] | Some cs \<Rightarrow> kid_places cs"
  let ?kt = "\<lambda>v. case children of None \<Rightarrow> (True, v) | Some cs \<Rightarrow> kid_turn cs v"
  let ?kp = "\<lambda>v. case children of None \<Rightarrow> [] | Some cs \<Rightarrow> kid_pick cs v"
  have filt: "filt = None" using 1 by simp
  have kids: "(case children of None \<Rightarrow> ret (adv, (pre @ map word_of_nat v @ post, length pre), fs)
      | Some cs \<Rightarrow> args_usage_children io cs (pre @ map word_of_nat v @ post, length pre) adv fs) =
    andthen (pieces io (?kp v) fs) (\<lambda>fs.
      ret (let (c, v') = step_if adv ?kt v in (c, (pre @ map word_of_nat v' @ post, length pre + length v), fs)))"
    if "v \<in> set ?kids" for v pre post fs
    using 1 that by (cases children) (simp_all add: step_if_def)
  show ?case
  proof (cases "several args_doc")
    case False
    then have v: "v \<in> set ?kids" and turn: "turn ?a = ?kt" using 1(3) by (auto split: option.splits)
    define r where "r = (\<lambda>fs. andthen (pieces io (?kp v) fs) (\<lambda>fs.
      ret (let (c, v') = step_if adv ?kt v in (\<not> c, (pre @ map word_of_nat v' @ post, length pre + length v), fs))))"
    obtain ps where ps: "pick ?a v = ps @ ?kp v" "argp_args_usage io ?a (pre @ map word_of_nat v @ post, length pre) adv fs =
        andthen (pieces io ps fs) r"
    proof (cases args_doc)
      case None
      show ?thesis
        by (rule that [of "[]"]) (use None kids [OF v, of pre post] filt in
          \<open>simp_all add: args_pattern_def filter_doc_def several_def andthen_assoc r_def case_prod_unfold Let_def cong: option.case_cong\<close>)
    next
      case (Some d)
      show ?thesis
        by (rule that [of "[d]"]) (use Some False kids [OF v, of pre post] filt in
          \<open>simp_all add: args_pattern_def filter_doc_def several_def andthen_assoc r_def case_prod_unfold Let_def piece_def line_of_one cong: option.case_cong\<close>)
    qed
    show ?thesis unfolding ps turn by (simp add: pieces_append andthen_assoc r_def)
  next
    case True
    then obtain d where d: "args_doc = Some d" "newline_in d" by (auto simp: several_def split: option.splits)
    let ?n = "length (doc_lines d)"
    obtain i ks where v: "v = i # ks" "i < ?n" "ks \<in> set ?kids" using 1(3) True d by (auto simp: pairs_def)
    have n: "?n \<le> 128" using 1(2) d by simp
    obtain cp where cp: "args_pattern ?a (pre @ map word_of_nat v @ post) (length pre) = ret (Some cp, True, Suc (length pre))"
      "line_of cp = doc_lines d ! i" "newline_in cp \<longleftrightarrow> Suc i < ?n"
      using args_pattern_several [OF d(2) v(2) n filt] unfolding v(1) d(1) by fastforce
    have "argp_args_usage io ?a (pre @ map word_of_nat v @ post, length pre) adv fs =
        andthen (piece io (doc_lines d ! i) fs) (\<lambda>fs. andthen (pieces io (?kp ks) fs) (\<lambda>fs.
          ret (let (c, v') = step_if adv (turn ?a) v in (\<not> c, (pre @ map word_of_nat v' @ post, length pre + length v), fs))))"
    proof -
      have k: "(case children of None \<Rightarrow> ret (adv, (pre @ map word_of_nat v @ post, Suc (length pre)), fs)
          | Some cs \<Rightarrow> args_usage_children io cs (pre @ map word_of_nat v @ post, Suc (length pre)) adv fs) =
        andthen (pieces io (?kp ks) fs) (\<lambda>fs.
          ret (let (c, v') = step_if adv ?kt ks in
            (c, (pre @ word_of_nat i # map word_of_nat v' @ post, length pre + length v), fs)))" for fs
        using kids [OF v(3), of "pre @ [word_of_nat i]" post fs] v(1) by (simp cong: option.case_cong)
      have level: "advance_level ?a (Some cp) (length pre) (pre @ word_of_nat i # rest) =
          ret (let (c, i') = count_to ?n i in (c, pre @ word_of_nat i' # rest))" for rest
        using advance_level_count [OF v(2) n cp(3) filt] d(1) by simp
      have turn: "step_if adv (turn ?a) v = (let (c, ks') = step_if adv ?kt ks in
          if c then let (c', i') = count_to ?n i in (c', i' # ks') else (False, i # ks'))"
        using True d v(1) by (auto simp: step_if_def Let_def case_prod_unfold split: option.splits)
      show ?thesis unfolding argp_args_usage.simps Let_def fst_conv snd_conv cp turn andthen_simps prod.case option.case
        by (simp add: k level cp(2) piece_def andthen_assoc case_prod_unfold Let_def if_distrib [of fst] cong: option.case_cong if_cong) 
    qed
    moreover have "pick ?a v = (doc_lines d ! i) # ?kp ks" using d True v(1) by (simp cong: option.case_cong)
    ultimately show ?thesis by (simp del: pick.simps turn.simps argp_args_usage.simps add: andthen_assoc)
  qed
next
  case (2 v)
  then show ?case by (simp add: step_if_def)
next
  case (3 c header grp cs)
  obtain d r where v: "v = d @ r" "d \<in> set (places c)" "r \<in> set (kid_places cs)" using 3(4) by (auto simp: pairs_def)
  have d: "length d = argp_args_levels c" using places_wheel(1) v(2) by blast
  define d' where "d' = snd (step_if adv (turn c) d)"
  have d': "length d' = length d" using turn_length(1) [OF d] by (simp add: d'_def step_if_def)
  have c: "argp_args_usage io c (pre @ map word_of_nat v @ post, length pre) adv fs =
      andthen (pieces io (pick c d) fs) (\<lambda>fs. ret (\<not> fst (step_if adv (turn c) d),
        (pre @ map word_of_nat d' @ map word_of_nat r @ post, length pre + length d), fs))"
    using 3(1) [of d pre "map word_of_nat r @ post" adv fs] 3(3) v by (simp add: d'_def case_prod_unfold Let_def)
  have cs: "args_usage_children io cs (pre @ map word_of_nat d' @ map word_of_nat r @ post, length pre + length d) adv' =
      (\<lambda>fs. andthen (pieces io (kid_pick cs r) fs) (\<lambda>fs. ret (let (c, r') = step_if adv' (kid_turn cs) r in
        (c, (pre @ map word_of_nat d' @ map word_of_nat r' @ post, length pre + length v), fs))))" for adv'
    using 3(2) [of r "pre @ map word_of_nat d'" post adv'] 3(3) v d' by (intro ext) (simp add: add.assoc)
  have "step_if adv (kid_turn (Help_Child c header grp # cs)) v =
      (let (c', r') = step_if (fst (step_if adv (turn c) d)) (kid_turn cs) r in (c', d' @ r'))"
    using v(1) d by (simp add: step_if_def d'_def case_prod_unfold Let_def)
  then show ?case unfolding v(1)
    by (simp add: c [unfolded v(1) map_append append_assoc] cs [unfolded v(1) length_append] pieces_append andthen_assoc
        case_prod_unfold Let_def d [symmetric] del: kid_turn.simps)
qed

section \<open>The usage lines\<close>

text \<open>One line, with the given text for each argp; then a line for each combination.\<close>

definition combination_line ::
  "'f help_env \<Rightarrow> hol_entry list \<Rightarrow> string \<Rightarrow> bool \<Rightarrow> bool \<Rightarrow> string list \<Rightarrow> 'f fmtstream \<Rightarrow> 'f fmtstream run" where
  "combination_line env es name first_pattern short ps fs =
     (let io = he_io env in
      andthen (argp_fmtstream_set_wmargin io (usage_indent (he_up env)) fs) (\<lambda>(old_wm, fs).
      andthen (out_printf io ((if first_pattern then ''Usage:'' else ''  or: '') @ '' '' @ name) fs) (\<lambda>fs.
      andthen (argp_fmtstream_set_lmargin io (nat (usage_indent (he_up env))) fs) (\<lambda>(old_lm, fs).
      andthen
        (if short then if es \<noteq> [] then out_puts io '' [OPTION...]'' fs else ret fs
         else hol_usage io (he_shorts env) es fs) (\<lambda>fs.
      andthen (pieces io ps fs) (\<lambda>fs.
      andthen (out_wmargin io old_wm fs) (\<lambda>fs.
      andthen (out_lmargin io old_lm fs) (\<lambda>fs. out_putc io (CHR 0x0A) fs))))))))"

fun combination_lines ::
  "'f help_env \<Rightarrow> hol_entry list \<Rightarrow> string \<Rightarrow> bool \<Rightarrow> bool \<Rightarrow> string list list \<Rightarrow> 'f fmtstream \<Rightarrow> 'f fmtstream run" where
  "combination_lines env es name first_pattern short [] fs = ret fs"
| "combination_lines env es name first_pattern short (ps # pss) fs =
     andthen (combination_line env es name first_pattern short ps fs) (combination_lines env es name False True pss)"

lemma combination_lines_run:
  "combination_lines env es name first_pattern short [] = ret"
  "combination_lines env es name first_pattern short (ps # pss) =
     (\<lambda>fs. andthen (combination_line env es name first_pattern short ps fs) (combination_lines env es name False True pss))"
  by (rule ext, simp)+

lemma usage_line_combination:
  assumes "countable a" and "v \<in> set (places a)"
  shows "usage_line env es a name first_pattern short (map word_of_nat v) fs =
    andthen (combination_line env es name first_pattern short (pick a v) fs)
      (\<lambda>fs. ret (let (c, v') = turn a v in (\<not> c, map word_of_nat v', fs)))"
  using args_usage_turns(1) [OF assms, of "he_io env" "[]" "[]" True]
  by (simp add: usage_line_def combination_line_def andthen_assoc case_prod_unfold Let_def step_if_def
      del: argp_args_usage.simps turn.simps)

lemma usage_loop_link:
  assumes "countable a" and "link (turn a) True z vs" and "set vs \<subseteq> set (places a)"
  shows "usage_loop env es a name first_pattern short (map word_of_nat (hd vs)) fs =
    combination_lines env es name first_pattern short (map (pick a) vs) fs"
  using assms(2,3)
proof (induction vs arbitrary: first_pattern short fs rule: induct_list012)
  case (2 v)
  then show ?case
    by (subst usage_loop.simps)
       (simp add: usage_line_combination [OF assms(1)] andthen_assoc combination_lines_run del: turn.simps)
next
  case (3 v w vs)
  then show ?case
    by (subst usage_loop.simps)
       (simp add: usage_line_combination [OF assms(1)] andthen_assoc combination_lines_run del: turn.simps combination_lines.simps)
qed simp

text \<open>
  C8: the loop over the usage lines ends after one line for each combination of the alternatives that the
  argps of the tree have for their arguments, in their order, with all the levels as they began.  For trees
  without filters and with at most 128 alternatives for an argp.
\<close>

theorem usage_lines_are_combinations:
  assumes "countable a"
  shows "usage_loop env es a name True short (replicate (argp_args_levels a) 0) fs =
    combination_lines env es name True short (choices a) fs"
proof -
  have "link (turn a) True (hd (places a)) (places a)" using places_wheel(1) [of a] by (simp add: wheel_def)
  from usage_loop_link [OF assms this, of env es name True short fs] show ?thesis
    by (simp add: hd_places pick_places del: places.simps choices.simps pick.simps)
qed

text \<open>\<open>FILE\<close> or \<open>-l\<close>, and for the child \<open>IN OUT\<close> or \<open>DIR\<close>.\<close>

definition two_ways :: help_argp where
  "two_ways = Help_Argp 1 None (Some (''FILE'' @ [CHR 0x0A] @ ''-l'')) None None
     (Some [Help_Child (Help_Argp 2 None (Some (''IN OUT'' @ [CHR 0x0A] @ ''DIR'')) None None None) None 0])"

theorem usage_lines_are_combinations_witness:
  "\<forall>env es short fs. usage_loop env es two_ways ''cp'' True short [0, 0] fs =
     combination_lines env es ''cp'' True short
       [[''FILE'', ''IN OUT''], [''FILE'', ''DIR''], [''-l'', ''IN OUT''], [''-l'', ''DIR'']] fs"
proof (intro allI)
  fix env :: "'f help_env" and es short fs
  have "countable two_ways" "replicate (argp_args_levels two_ways) 0 = [0, 0 :: 8 word]"
    "choices two_ways = [[''FILE'', ''IN OUT''], [''FILE'', ''DIR''], [''-l'', ''IN OUT''], [''-l'', ''DIR'']]"
    by code_simp+
  then show "usage_loop env es two_ways ''cp'' True short [0, 0] fs =
     combination_lines env es ''cp'' True short
       [[''FILE'', ''IN OUT''], [''FILE'', ''DIR''], [''-l'', ''IN OUT''], [''-l'', ''DIR'']] fs"
    using usage_lines_are_combinations [of two_ways env es "''cp''" short fs] by simp
qed

section \<open>A whole text\<close>

text \<open>
  The help and the usage of an argp with a child, through every part: the list, its order, the wrapping
  stream with its margins, two usage lines, the texts before and behind, the note and the address.
\<close>

definition whole_argp :: help_argp where
  "whole_argp = Help_Argp 1
     (Some [\<lparr>opt_name = Some ''output'', opt_key = 111, opt_arg = Some ''FILE'', opt_flags = 0, opt_doc = Some ''Write to FILE'',
         opt_group = 0\<rparr>, plain_option (Some ''quiet'') 113])
     (Some (''IN'' @ [CHR 0x0A] @ ''-l'')) (Some (''Does it.'' @ [CHR 0x0B] @ ''The end.'')) None
     (Some [Help_Child (Help_Argp 2
       (Some [\<lparr>opt_name = Some ''level'', opt_key = 256, opt_arg = Some ''N'', opt_flags = 1, opt_doc = Some ''Set the level'',
           opt_group = 0\<rparr>])
       None None None None) (Some ''More:'') 0])"

definition whole_sys :: "string help_sys" where
  "whole_sys = \<lparr>sys_io = keeping, sys_order = plain_order, sys_fmt = None, sys_stream_got = True, sys_bug_address = Some ''bugs''\<rparr>"

definition written :: "(uparams \<times> string list \<times> 'f) outcome run \<Rightarrow> 'f option" where
  "written r = (case r of Some (Some (Done (up, complaints, f))) \<Rightarrow> Some f | _ \<Rightarrow> None)"

lemma whole_usage:
  "written (help_text whole_sys default_uparams (Some whole_argp) None 0x01 ''prog'' plain_mem []) =
    Some (''Usage: prog [-q] [-o FILE] [--output=FILE] [--quiet] [--level[=N]] IN'' @ [CHR 0x0A] @
      ''  or:  prog [OPTION...] -l'' @ [CHR 0x0A])"
  by code_simp

lemma whole_help:
  "written (help_text whole_sys default_uparams (Some whole_argp) None 0x7A ''prog'' plain_mem []) =
    Some (''Usage: prog [OPTION...] IN'' @ [CHR 0x0A] @
      ''  or:  prog [OPTION...] -l'' @ [CHR 0x0A] @
      ''Does it.'' @ [CHR 0x0A] @
      [CHR 0x0A] @
      ''  -o, --output=FILE          Write to FILE'' @ [CHR 0x0A] @
      ''  -q, --quiet'' @ [CHR 0x0A] @
      [CHR 0x0A] @
      '' More:'' @ [CHR 0x0A] @
      ''      --level[=N]            Set the level'' @ [CHR 0x0A] @
      [CHR 0x0A] @
      ''Mandatory or optional arguments to long options are also mandatory or optional'' @ [CHR 0x0A] @
      ''for any corresponding short options.'' @ [CHR 0x0A] @
      [CHR 0x0A] @
      ''The end.'' @ [CHR 0x0A] @
      [CHR 0x0A] @
      ''Report bugs to bugs.'' @ [CHR 0x0A])"
  by code_simp

section \<open>Where it goes wrong\<close>

text \<open>
  An argp whose filter makes a text with several lines: the text is freed, then \<open>*nl\<close> reads it.
\<close>

lemma made_alternatives_read_after_free:
  assumes "newline_in d" and "newline_in t" and "f ARGP_KEY_HELP_ARGS_DOC (Some d) = Replaced t"
  shows "usage_line env es (Help_Argp at opts (Some d) doc (Some f) None) name first_pattern True [0] fs \<noteq> ret r"
proof -
  obtain cp where "args_pattern (Help_Argp at opts (Some d) doc (Some f) None) [0] 0 = ret (Some cp, True, 1)"
    using assms by (simp add: args_pattern_def filter_doc_def level_at_def)
  then show ?thesis using assms
    by (auto simp: usage_line_def andthen_ret advance_level_def replaced_doc_def Let_def)
qed

text \<open>With 129 alternatives the level goes from 127 to -128, and the lines begin again.\<close>

lemma level_overflows:
  "newline_in cp \<Longrightarrow> advance_level (Help_Argp at opts (Some d) doc None None) (Some cp) 0 [127] = ret (False, [- 128])"
  "args_pattern (Help_Argp at opts (Some d) doc None None) [- 128] 0 =
     args_pattern (Help_Argp at opts (Some d) doc None None) [0] 0"
  by (simp_all add: advance_level_def replaced_doc_def level_at_def put_level_def args_pattern_def filter_doc_def)

text \<open>A documentation that begins with \<open>\v\<close> is printed whole before the options, and its end again behind them.\<close>

lemma leading_separator_ignored:
  "doc_part_of (Some (CHR 0x0B # s)) False = (Some (CHR 0x0B # s), 0)"
  "doc_part_of (Some (CHR 0x0B # s)) True = (Some s, 0)"
  by (simp_all add: doc_part_of_def)

end
