(* ===== verification/Spec2Isabelle.thy ===== *)
theory Spec2Isabelle
  imports Queue_Props Loader_Props Compat_Misc Pthread_Props Obstack_Props Argp_Props Fts_Props Fts_Walk_Props Tree_Props Fmt_Props
    Hol_Props Help_Patterns
begin

text \<open>
  A verification development of musl-bsd: the BSD and GNU library code that musl systems lack,
  and the runtime that lets glibc programs start on them.

  \<^bold>\<open>The program and its parts.\<close>  The repository builds independent libraries.
  \<^item> \<^verbatim>\<open>include/queue.h\<close> and \<^verbatim>\<open>include/tree.h\<close>: intrusive lists and trees, as macros.
  \<^item> \<^verbatim>\<open>src/fts.c\<close>: traversal of file trees; \<^verbatim>\<open>src/obstack.c\<close> with \<^verbatim>\<open>include/obstack.h\<close>: object stacks;
    \<^verbatim>\<open>src/argp\<close>: command line parsing.
  \<^item> \<^verbatim>\<open>src/compat\<close>: the loader that starts a glibc program under the musl linker with preloaded
    libraries, the replacements of \<open>readlink\<close>, \<open>exec\<close>, \<open>dlsym\<close> and others that hide this from
    the program, and the \<open>pthread\<close> forwarders.

  The parts do not call each other, but for the compatibility runtime: the loader writes the
  command line that \<open>readlink\<close> reads back in the process it starts and that \<open>execve\<close> writes
  again (\<^verbatim>\<open>Loader_Props\<close> composes the three), and the \<open>pthread\<close> forwarders share the resolver and
  the process generation.

  \<^bold>\<open>Conventions.\<close>  A definition has the name of the C function or macro it models; a part of a function
  that is a definition of its own has a name that says which.  Errors are values: a sum, an
  option, or the constructors of an outcome type.  Code that follows pointers runs as
  \<open>'a run\<close> (\<^verbatim>\<open>Runs\<close>) or as an option: it does not return, or crashes (a null or freed pointer,
  a buffer that is left), or gives a value; every theorem that such code returns says so.
  Sizes and addresses that can wrap are 64-bit words.  Pointers into heaps are addresses or
  block names, never the objects themselves, so aliasing is that of the code.  The system and
  the allocator are parameters; a theorem names what it asks of them.

  \<^bold>\<open>Shared theories.\<close>  \<^verbatim>\<open>Bsd_Prelude\<close> (words, sizes, fact collections), \<^verbatim>\<open>C_Lib\<close> (errno, strings, buffers,
  argument vectors), \<^verbatim>\<open>Runs\<close>, \<^verbatim>\<open>Interleaving\<close> (threads as counters over shared memory, schedules,
  the locale \<open>invariant_machine\<close>), \<^verbatim>\<open>C_Sort\<close> (what \<open>qsort\<close> promises).

  \<^bold>\<open>Queues\<close> (\<^verbatim>\<open>include/queue.h\<close>).  \<^verbatim>\<open>Queue_Heap\<close> is the store, \<^verbatim>\<open>Slist\<close>, \<^verbatim>\<open>Simpleq\<close>, \<^verbatim>\<open>Stailq\<close>, \<^verbatim>\<open>Bsd_List\<close>,
  \<^verbatim>\<open>Tailq\<close> and \<^verbatim>\<open>Xsimpleq\<close> the six kinds, every macro of each.  \<^verbatim>\<open>Queue_Iface\<close> and \<^verbatim>\<open>Queue_Edit\<close> state the
  contracts (\<open>stack_store\<close>, \<open>fifo_store\<close>, \<open>shared_store\<close>, \<open>removal_store\<close>, \<open>edit_store\<close>): a
  representation predicate gives a head a list, and each operation changes the list as named;
  each kind interprets them on its own macros.  \<^verbatim>\<open>Queue_Props\<close>: whole clients see a list, loops over
  a queue end, concatenation, removal, and the defect of \<open>XSIMPLEQ_REMOVE_HEAD\<close>.

  \<^bold>\<open>Trees\<close> (\<^verbatim>\<open>include/tree.h\<close>).  \<^verbatim>\<open>Splay\<close> and \<^verbatim>\<open>Rb\<close> are the macros and generated functions on links by
  address.  \<^verbatim>\<open>Table_Iface\<close> states what both promise (\<open>ordered_table\<close>, and \<open>two_way_table\<close> for the
  red-black trees): the ascending list of the elements.  \<^verbatim>\<open>Splay_Tree\<close>, \<^verbatim>\<open>Splay_Moves\<close> and \<^verbatim>\<open>Splay_Spec\<close>
  follow the three pieces of a tree that is being splayed; \<^verbatim>\<open>Rb_Zip\<close>, \<^verbatim>\<open>Rb_Edit\<close>, \<^verbatim>\<open>Rb_Color\<close> and
  \<^verbatim>\<open>Rb_Remove\<close> see a red-black tree from one place in it, state each change of the links for both
  sides at once, and restore the colors; \<^verbatim>\<open>Splay_Table\<close> and \<^verbatim>\<open>Rb_Table\<close> interpret the contracts.
  \<^verbatim>\<open>Tree_Props\<close>: every client gets the answers of the list, nothing crashes or runs forever, and a
  red-black tree stays one.  Hypothesis: the client's comparison orders the elements by a key.

  \<^bold>\<open>File trees\<close> (\<^verbatim>\<open>src/fts.c\<close>, \<^verbatim>\<open>include/fts.h\<close>).  \<^verbatim>\<open>Fts_Data\<close> (stream, entries in a heap, options, system calls as
  parameters with an error each), \<^verbatim>\<open>Fts_Parts\<close> (allocation, paths, the table against cycles),
  \<^verbatim>\<open>Fts_Stat\<close>, \<^verbatim>\<open>Fts_Build\<close>, \<^verbatim>\<open>Fts\<close> (the interface).  \<^verbatim>\<open>Fts_Table\<close> and \<^verbatim>\<open>Fts_Links\<close> prove the parts that
  stand alone, \<^verbatim>\<open>Fts_Serve\<close>, \<^verbatim>\<open>Fts_Kids\<close>, \<^verbatim>\<open>Fts_Steps\<close>, \<^verbatim>\<open>Fts_Tour\<close> and \<^verbatim>\<open>Fts_Walk\<close> the traversal of unchanging
  trees by induction on them; \<^verbatim>\<open>Fts_Props\<close>, \<^verbatim>\<open>Fts_Walk_Props\<close> hold the properties, and the first also shows
  defects on concrete systems.  The traversal theorem is for the physical walk without changing
  directories and without a comparison function; the model has all options.

  \<^bold>\<open>Object stacks\<close> (\<^verbatim>\<open>src/obstack.c\<close>, \<^verbatim>\<open>include/obstack.h\<close>).  \<^verbatim>\<open>Obstack\<close> is the model over a byte memory;
  \<^verbatim>\<open>Obstack_Inv\<close>, \<^verbatim>\<open>Obstack_Ops\<close>, \<^verbatim>\<open>Obstack_Grow\<close> and \<^verbatim>\<open>Obstack_Free\<close> keep its invariant, \<^verbatim>\<open>Obstack_Run\<close>
  refines client scripts to a stack of byte strings and keeps the alignment that was asked for,
  \<^verbatim>\<open>Obstack_Props\<close> has the properties.  The
  allocator must give fresh aligned blocks or fail.

  \<^bold>\<open>Command lines\<close> (\<^verbatim>\<open>src/argp\<close>).  \<^verbatim>\<open>Argp_Data\<close>, \<^verbatim>\<open>Argp_Parse\<close> are the model; the loop over the vector is
  a partial function, and \<^verbatim>\<open>Argp_Run\<close> shows that it ends, since the characters and arguments left get fewer.
  \<^verbatim>\<open>Argp_Exchange\<close> proves the exchange of stretches and the long option search, \<^verbatim>\<open>Argp_Order\<close> the
  equivalence with a reader that goes from left to right without indices, and that this reader agrees
  with one written from \<^verbatim>\<open>argp.h\<close> alone (\<open>doc_line\<close>) on the tables where the header and the code agree;
  \<^verbatim>\<open>Argp_Ends\<close> has the way into and out of the loop, \<^verbatim>\<open>Argp_Fit\<close> what the counted tables hold.  The client's parsing functions
  are parameters that leave the position in the vector alone.

  \<^bold>\<open>Wrapping streams\<close> (\<^verbatim>\<open>src/argp/argp-fmtstream.c\<close>, \<^verbatim>\<open>argp-fmtstream.h\<close>).  \<^verbatim>\<open>Fmtstream\<close> is the model, its
  buffer with offsets for pointers; \<^verbatim>\<open>Fmt_Layout\<close> says how one line should be laid out and follows
  one break of a line, \<^verbatim>\<open>Fmt_Wrap\<close> the scan, the room for more text and whole clients; \<^verbatim>\<open>Fmt_Props\<close>
  has the property and three defects.  The property is for streams that wrap without a left margin;
  the model has left margins and cutting too.

  \<^bold>\<open>Help\<close> (\<^verbatim>\<open>src/argp/argp-help.c\<close>).  \<^verbatim>\<open>Help_Params\<close>: the formatting parameters and what \<open>ARGP_HELP_FMT\<close> means.
  \<^verbatim>\<open>Hol\<close>: the list of options of a tree of argps, its letters and clusters; \<^verbatim>\<open>Hol_Shorts\<close> follows the shared
  string of letters through merging and iterating.  \<^verbatim>\<open>Hol_Cmp\<close>: the comparison, with the
  overflow of its subtractions, and the sort; \<^verbatim>\<open>Hol_Order\<close> states the order it decides, where it is one; \<^verbatim>\<open>Hol_Props\<close> has the properties and two defects.
  \<^verbatim>\<open>Help_Print\<close> and \<^verbatim>\<open>Help_Text\<close>: all the printing, on a modelled wrapping stream, and the messages.
  \<^verbatim>\<open>Help_Patterns\<close>: the usage lines are the combinations of the alternatives in the tree, each once,
  for at most 128 alternatives of an argp without filters (a level is a \<open>char\<close>); then two whole texts
  that the model writes, and three defects.
  The parser's calls of help stay entries of a log: the two parts are not composed.

  \<^bold>\<open>Compatibility runtime\<close> (\<^verbatim>\<open>src/compat\<close>).  \<^verbatim>\<open>Preload\<close>, \<^verbatim>\<open>Loader\<close>, \<^verbatim>\<open>Readlink\<close> and \<^verbatim>\<open>Loader_Props\<close>: the list of
  preloaded libraries, the loader's decisions with a log of its \<open>getenv\<close> calls, and the agreement of the
  command lines.
  \<^verbatim>\<open>Compat_Misc\<close>: \<open>strlcpy\<close>, \<open>error\<close>, \<open>backtrace\<close>, versions, \<open>dlsym\<close>.
  \<^verbatim>\<open>Static_Mutex\<close>, \<^verbatim>\<open>Native_Resolver\<close>, \<^verbatim>\<open>Pthread_Once\<close> and \<^verbatim>\<open>Pthread_Props\<close>: the concurrent parts, as
  atomic steps of any number of threads with forks and cancellation, over sequentially
  consistent memory; their invariants hold in every reachable configuration.  A thread that calls a
  forwarder while it resolves gets the error the code gives it.

  \<^bold>\<open>Not modelled.\<close>
  \<^item> The \<open>RBT_*\<close> part of \<^verbatim>\<open>include/tree.h\<close>: it only calls functions that no file defines.
  \<^item> \<^verbatim>\<open>src/compat/fs64.c\<close>, \<^verbatim>\<open>mount.c\<close>, \<^verbatim>\<open>math.c\<close>, \<^verbatim>\<open>time.c\<close>, \<^verbatim>\<open>core.c\<close>, \<^verbatim>\<open>facade.c\<close> and most of \<^verbatim>\<open>glibc.c\<close>: each
    function forwards to the C library or returns a constant.
  \<^item> \<^verbatim>\<open>include/cdefs.h\<close>, \<^verbatim>\<open>src/argp/argp-namefrob.h\<close> and the headers of \<^verbatim>\<open>overlay\<close>: attributes, renamings and
    declarations.
  \<^item> The build files, the Python tools and the tests.
\<close>

end
